(* ===== verification/Prelude.thy ===== *)
theory Prelude
  imports Main "HOL-Library.Word" "HOL-Library.Monad_Syntax"
begin

text \<open>
  Shared vocabulary of the development: the machine types of the Go sources, the run-time panic
  as a value, bounds-checked slicing, and the generic lemmas on lists, options and words that the
  component theories use.

  A Go \<^verbatim>\<open>int\<close> is a signed 64-bit integer.  The lengths, offsets and indices of the
  sources are non-negative and are modelled as \<open>nat\<close>; a \<^verbatim>\<open>uint32\<close> read from a
  file and converted to \<^verbatim>\<open>int\<close> is \<open>unat\<close> of the word, so the sources'
  \<^verbatim>\<open>x < 0\<close> guards on such values never fire.  \<^verbatim>\<open>uint32\<close>, \<^verbatim>\<open>uint64\<close> and
  \<^verbatim>\<open>int64\<close> values whose wrap-around matters stay words.
\<close>

section \<open>Machine types\<close>

type_synonym byte = "8 word"
type_synonym bytes = "byte list"
type_synonym u32 = "32 word"
type_synonym u64 = "64 word"

named_theorems slice_simps \<open>evaluation of bounds-checked reads\<close>
named_theorems codec_simps \<open>round trips of the fixed-width encoders\<close>

section \<open>Panics and bounds-checked reads\<close>

text \<open>
  A computation that can panic is an \<open>option\<close>: \<open>None\<close> is the panic.  \<open>gslice b i j\<close> is Go's
  \<^verbatim>\<open>b[i:j]\<close>, refused outside the length of \<open>b\<close>; \<open>slice_from b i\<close> is \<^verbatim>\<open>b[i:]\<close> and
  \<open>index b i\<close> is \<^verbatim>\<open>b[i]\<close>.
\<close>

definition gslice :: "'a list \<Rightarrow> nat \<Rightarrow> nat \<Rightarrow> 'a list option" where
  "gslice b i j = (if i \<le> j \<and> j \<le> length b then Some (take (j - i) (drop i b)) else None)"

definition slice_from :: "'a list \<Rightarrow> nat \<Rightarrow> 'a list option" where
  "slice_from b i = (if i \<le> length b then Some (drop i b) else None)"

definition index :: "'a list \<Rightarrow> nat \<Rightarrow> 'a option" where
  "index b i = (if i < length b then Some (b ! i) else None)"

definition set_index :: "'a list \<Rightarrow> nat \<Rightarrow> 'a \<Rightarrow> 'a list option" where
  "set_index b i v = (if i < length b then Some (b[i := v]) else None)"

lemma slice_ok [slice_simps]: "i \<le> j \<Longrightarrow> j \<le> length b \<Longrightarrow> gslice b i j = Some (take (j - i) (drop i b))"
  by (simp add: gslice_def)

lemma slice_from_ok [slice_simps]: "i \<le> length b \<Longrightarrow> slice_from b i = Some (drop i b)"
  by (simp add: slice_from_def)

lemma index_ok [slice_simps]: "i < length b \<Longrightarrow> index b i = Some (b ! i)"
  by (simp add: index_def)

lemma set_index_ok [slice_simps]: "i < length b \<Longrightarrow> set_index b i v = Some (b[i := v])"
  by (simp add: set_index_def)

lemma slice_append_mid [slice_simps]:
  "i = length xs \<Longrightarrow> j = length xs + length ys \<Longrightarrow> gslice (xs @ ys @ zs) i j = Some ys"
  by (simp add: gslice_def)

lemma slice_length: "gslice b i j = Some s \<Longrightarrow> length s = j - i"
  by (auto simp: gslice_def split: if_splits)

lemma slice_neq_None_iff: "gslice b i j \<noteq> None \<longleftrightarrow> i \<le> j \<and> j \<le> length b"
  by (simp add: gslice_def)

section \<open>Lists\<close>

lemma nth_concat_uniform:
  assumes "\<forall>x \<in> set xss. length x = w" and "k < length xss" and "j < w"
  shows "concat xss ! (k * w + j) = xss ! k ! j"
  using assms
proof (induction xss arbitrary: k)
  case (Cons x xss)
  show ?case
  proof (cases k)
    case 0
    with Cons.prems show ?thesis by (simp add: nth_append)
  next
    case (Suc k')
    with Cons show ?thesis by (simp add: nth_append)
  qed
qed simp

lemma length_concat_uniform: "\<forall>x \<in> set xss. length x = w \<Longrightarrow> length (concat xss) = length xss * w"
  by (induction xss) auto

lemma take_drop_concat_uniform:
  assumes "\<forall>x \<in> set xss. length x = w" and "k < length xss"
  shows "take w (drop (k * w) (concat xss)) = xss ! k"
proof (rule nth_equalityI)
  have "(k + 1) * w \<le> length xss * w" using assms(2) by (intro mult_le_mono1) simp
  then have le: "k * w + w \<le> length (concat xss)"
    unfolding length_concat_uniform [OF assms(1)] by simp
  have len: "length (xss ! k) = w" using assms by simp
  show "length (take w (drop (k * w) (concat xss))) = length (xss ! k)" using le len by simp
  fix i assume "i < length (take w (drop (k * w) (concat xss)))"
  then show "take w (drop (k * w) (concat xss)) ! i = xss ! k ! i"
    using le by (simp add: nth_concat_uniform [OF assms])
qed

lemma find_index_le: "length (takeWhile P xs) \<le> length xs"
  by (rule length_takeWhile_le)

lemma last_take_Suc: "n < length xs \<Longrightarrow> last (take (Suc n) xs) = xs ! n"
  by (simp add: take_Suc_conv_app_nth)

lemma sum_list_take_mono: "i \<le> j \<Longrightarrow> sum_list (take i xs) \<le> sum_list (take j (xs :: nat list))"
proof -
  assume "i \<le> j"
  then have "take j xs = take i xs @ take (j - i) (drop i xs)"
    by (metis le_add_diff_inverse take_add)
  then show ?thesis by simp
qed

lemma sum_list_take_Suc: "i < length xs \<Longrightarrow> sum_list (take (Suc i) xs) = sum_list (take i xs) + xs ! i"
  by (simp add: take_Suc_conv_app_nth)

text \<open>A loop that writes consecutive cells of a preallocated slice.\<close>

lemma length_foldl_update [simp]:
  "length (foldl (\<lambda>out (i, v). if P i then out[h i := f v] else out) out ivs) = length out"
  by (induction ivs arbitrary: out) (auto split: prod.split)

lemma nth_foldl_update:
  "foldl (\<lambda>out (i, v). out[i := f v]) out (enumerate lo vs) ! j
    = (if lo \<le> j \<and> j < lo + length vs \<and> j < length out then f (vs ! (j - lo)) else out ! j)"
proof (induction vs arbitrary: lo out)
  case (Cons v vs)
  show ?case by (auto simp: Cons nth_list_update Suc_diff_le nth_Cons' not_less_eq_eq list_update_beyond)
qed auto

lemma length_foldl_upd [simp]:
  "length (foldl (\<lambda>out (i, v). out[h i := f v]) out ivs) = length out"
  by (induction ivs arbitrary: out) (auto split: prod.split)

section \<open>Words\<close>

unbundle bit_operations_syntax

lemma xor_right_cancel [simp]: "a XOR c = b XOR c \<longleftrightarrow> a = (b :: 'a::len word)"
proof
  assume "a XOR c = b XOR c"
  then have "(a XOR c) XOR c = (b XOR c) XOR c" by (rule arg_cong)
  then show "a = b" by (simp add: xor.assoc)
qed simp

lemma xor_left_cancel [simp]: "c XOR a = c XOR b \<longleftrightarrow> a = (b :: 'a::len word)"
  by (simp add: xor.commute [of c])

lemma ucast_u32_byte [simp]: "(ucast (ucast (a :: byte) :: u32) :: byte) = a"
  by (rule bit_word_eqI) (simp add: bit_simps)

lemma ucast_byte_u32_inj [simp]: "(ucast a :: u32) = ucast b \<longleftrightarrow> a = (b :: byte)"
  by (metis ucast_u32_byte)

lemma unat_of_nat_u32 [simp]: "n < 2 ^ 32 \<Longrightarrow> unat (of_nat n :: u32) = n"
  by (simp add: unat_of_nat take_bit_eq_mod)

lemma unat_of_nat_u64 [simp]: "n < 2 ^ 64 \<Longrightarrow> unat (of_nat n :: u64) = n"
  by (simp add: unat_of_nat take_bit_eq_mod)

lemma unat_u32_lt [simp]: "unat (x :: u32) < 4294967296"
  using unsigned_less [of x] by simp

lemma unat_byte_lt [simp]: "unat (x :: byte) < 256"
  using unsigned_less [of x] by simp

lemma word_eq_by_bits: "(\<And>n. n < LENGTH('a) \<Longrightarrow> bit x n = bit y n) \<Longrightarrow> x = (y :: 'a::len word)"
  by (rule bit_word_eqI)

end
