(* ===== verification/Bytes.thy ===== *)
theory Bytes
  imports Prelude
begin

text \<open>
  The byte layer of the storage package: the little-endian writers and readers of
  \<^verbatim>\<open>group.go\<close> and \<^verbatim>\<open>footer.go\<close>, the CRC32C of the standard library as
  \<^verbatim>\<open>group_read.go\<close> and \<^verbatim>\<open>manifest.go\<close> use it, and the bounds-checked cursor every
  footer and manifest record is parsed with.

  The locale \<open>cursor_reader\<close> is the interface between the cursor and its clients: what a field
  reader returns in front of an encoded field, and that it never moves outside the buffer.  It is
  interpreted on the cursor's own \<open>u32\<close>, \<open>u64\<close> and \<open>byte\<close> readers.
\<close>

unbundle bit_operations_syntax

section \<open>Little-endian words\<close>

definition putU32 :: "u32 \<Rightarrow> bytes" where
  "putU32 v = [ucast v, ucast (drop_bit 8 v), ucast (drop_bit 16 v), ucast (drop_bit 24 v)]"

definition putU64 :: "u64 \<Rightarrow> bytes" where
  "putU64 v = [ucast v, ucast (drop_bit 8 v), ucast (drop_bit 16 v), ucast (drop_bit 24 v),
     ucast (drop_bit 32 v), ucast (drop_bit 40 v), ucast (drop_bit 48 v), ucast (drop_bit 56 v)]"

definition appU32 :: "bytes \<Rightarrow> u32 \<Rightarrow> bytes" where
  "appU32 b v = b @ putU32 v"

definition appU64 :: "bytes \<Rightarrow> u64 \<Rightarrow> bytes" where
  "appU64 b v = b @ putU64 v"

definition appI64 :: "bytes \<Rightarrow> u64 \<Rightarrow> bytes" where
  "appI64 b v = b @ putU64 v"

definition appStr :: "bytes \<Rightarrow> bytes \<Rightarrow> bytes" where
  "appStr b s = appU32 b (of_nat (length s)) @ s"

text \<open>\<^verbatim>\<open>le32\<close> indexes its four bytes; on fewer it panics.\<close>

fun le32 :: "bytes \<Rightarrow> u32 option" where
  "le32 (b0 # b1 # b2 # b3 # _) =
     Some (ucast b0 OR push_bit 8 (ucast b1) OR push_bit 16 (ucast b2) OR push_bit 24 (ucast b3))"
| "le32 _ = None"

fun le64 :: "bytes \<Rightarrow> u64 option" where
  "le64 (b0 # b1 # b2 # b3 # b4 # b5 # b6 # b7 # _) =
     Some (ucast b0 OR push_bit 8 (ucast b1) OR push_bit 16 (ucast b2) OR push_bit 24 (ucast b3)
       OR push_bit 32 (ucast b4) OR push_bit 40 (ucast b5) OR push_bit 48 (ucast b6)
       OR push_bit 56 (ucast b7))"
| "le64 _ = None"

definition get32 :: "bytes \<Rightarrow> nat \<Rightarrow> u32 option" where
  "get32 b i = do { s \<leftarrow> slice_from b i; le32 s }"

definition geti64 :: "bytes \<Rightarrow> u64 option" where
  "geti64 b = le64 b"

text \<open>\<^verbatim>\<open>int(get32(b, at))\<close>.\<close>

definition getn :: "bytes \<Rightarrow> nat \<Rightarrow> nat option" where
  "getn b i = map_option unat (get32 b i)"

text \<open>\<^verbatim>\<open>geti64(b[at:])\<close>.\<close>

definition geti64_at :: "bytes \<Rightarrow> nat \<Rightarrow> u64 option" where
  "geti64_at b i = do { s \<leftarrow> slice_from b i; geti64 s }"

lemma length_putU32 [simp]: "length (putU32 v) = 4"
  by (simp add: putU32_def)

lemma length_putU64 [simp]: "length (putU64 v) = 8"
  by (simp add: putU64_def)

lemma length_appU32 [simp]: "length (appU32 b v) = length b + 4"
  by (simp add: appU32_def)

lemma length_appU64 [simp]: "length (appU64 b v) = length b + 8"
  by (simp add: appU64_def)

lemma u32_split_bytes:
  "ucast (ucast v :: byte) OR push_bit 8 (ucast (ucast (drop_bit 8 v) :: byte))
     OR push_bit 16 (ucast (ucast (drop_bit 16 v) :: byte))
     OR push_bit 24 (ucast (ucast (drop_bit 24 v) :: byte)) = (v :: u32)"
proof (rule bit_word_eqI)
  fix n assume n: "n < LENGTH(32)"
  consider "n < 8" | "8 \<le> n" "n < 16" | "16 \<le> n" "n < 24" | "24 \<le> n" by linarith
  then show "bit (ucast (ucast v :: byte) OR push_bit 8 (ucast (ucast (drop_bit 8 v) :: byte))
     OR push_bit 16 (ucast (ucast (drop_bit 16 v) :: byte))
     OR push_bit 24 (ucast (ucast (drop_bit 24 v) :: byte)) :: u32) n = bit v n"
    using n by cases (simp_all add: bit_simps less_diff_conv2)
qed

lemma u64_split_bytes:
  "ucast (ucast v :: byte) OR push_bit 8 (ucast (ucast (drop_bit 8 v) :: byte))
     OR push_bit 16 (ucast (ucast (drop_bit 16 v) :: byte))
     OR push_bit 24 (ucast (ucast (drop_bit 24 v) :: byte))
     OR push_bit 32 (ucast (ucast (drop_bit 32 v) :: byte))
     OR push_bit 40 (ucast (ucast (drop_bit 40 v) :: byte))
     OR push_bit 48 (ucast (ucast (drop_bit 48 v) :: byte))
     OR push_bit 56 (ucast (ucast (drop_bit 56 v) :: byte)) = (v :: u64)" (is "?l = _")
proof (rule bit_word_eqI)
  fix n assume n: "n < LENGTH(64)"
  consider "n < 8" | "8 \<le> n" "n < 16" | "16 \<le> n" "n < 24" | "24 \<le> n" "n < 32"
    | "32 \<le> n" "n < 40" | "40 \<le> n" "n < 48" | "48 \<le> n" "n < 56" | "56 \<le> n" by linarith
  then show "bit ?l n = bit v n"
    using n by cases (simp_all add: bit_simps less_diff_conv2)
qed

lemma le32_putU32 [codec_simps]: "le32 (putU32 v @ r) = Some v"
  by (simp add: putU32_def u32_split_bytes)

lemma le64_putU64 [codec_simps]: "le64 (putU64 v @ r) = Some v"
  by (simp add: putU64_def u64_split_bytes)

lemma putU32_le32: "le32 b = Some w \<Longrightarrow> putU32 w = take 4 b"
proof (cases b rule: le32.cases)
  case (1 b0 b1 b2 b3 r)
  assume "le32 b = Some w"
  with 1 have w: "w = ucast b0 OR push_bit 8 (ucast b1) OR push_bit 16 (ucast b2) OR push_bit 24 (ucast b3)" by simp
  have "ucast w = b0" "ucast (drop_bit 8 w) = b1" "ucast (drop_bit 16 w) = b2" "ucast (drop_bit 24 w) = b3"
    unfolding w by (rule bit_word_eqI; auto simp: bit_simps dest: bit_imp_le_length)+
  with 1 show ?thesis by (simp add: putU32_def)
qed auto

lemma get32_at [codec_simps]: "i = length p \<Longrightarrow> get32 (p @ putU32 v @ r) i = Some v"
  by (simp add: get32_def slice_from_def le32_putU32)

lemma le32_Some_iff: "(\<exists>v. le32 b = Some v) \<longleftrightarrow> 4 \<le> length b"
  by (cases b rule: le32.cases) auto

lemma le64_Some_iff: "(\<exists>v. le64 b = Some v) \<longleftrightarrow> 8 \<le> length b"
  by (cases b rule: le64.cases) auto

lemma get32_Some_iff: "(\<exists>v. get32 b i = Some v) \<longleftrightarrow> i + 4 \<le> length b"
proof (cases "i \<le> length b")
  case True
  then have "(\<exists>v. get32 b i = Some v) \<longleftrightarrow> 4 \<le> length (drop i b)"
    unfolding le32_Some_iff [symmetric] by (simp add: get32_def slice_from_def)
  with True show ?thesis by auto
qed (simp add: get32_def slice_from_def)

lemma get32_SomeE: "i + 4 \<le> length b \<Longrightarrow> (\<And>v. get32 b i = Some v \<Longrightarrow> P) \<Longrightarrow> P"
  using get32_Some_iff [of b i] by blast

lemma le32_append: "4 \<le> length b \<Longrightarrow> le32 (b @ r) = le32 b"
  by (cases b rule: le32.cases) auto

lemma le32_take: "4 \<le> k \<Longrightarrow> le32 (take k b) = le32 b"
  using le32_append [of "take k b" "drop k b"] by (cases "4 \<le> length b") simp_all

lemma get32_append [codec_simps]: "i + 4 \<le> length b \<Longrightarrow> get32 (b @ r) i = get32 b i"
  by (simp add: get32_def slice_from_def le32_append)

lemma get32_drop [codec_simps]: "k \<le> length b \<Longrightarrow> get32 (drop k b) i = get32 b (k + i)"
  by (auto simp: get32_def slice_from_def add.commute)

section \<open>Computations that do not panic\<close>

definition returns :: "'a option \<Rightarrow> bool" where
  "returns r \<longleftrightarrow> (\<exists>v. r = Some v)"

lemma returns_Some [simp]: "returns (Some v)"
  by (simp add: returns_def)

lemma returns_if: "(c \<Longrightarrow> returns a) \<Longrightarrow> (\<not> c \<Longrightarrow> returns b) \<Longrightarrow> returns (if c then a else b)"
  by simp

lemma returns_let: "(\<And>x. x = v \<Longrightarrow> returns (f x)) \<Longrightarrow> returns (Let v f)"
  by (simp add: Let_def)

lemma returns_bind: "returns a \<Longrightarrow> (\<And>v. a = Some v \<Longrightarrow> returns (f v)) \<Longrightarrow> returns (a \<bind> f)"
  by (auto simp: returns_def)

lemma returns_map [simp]: "returns (map_option f a) = returns a"
  by (auto simp: returns_def)

lemma returns_get32: "i + 4 \<le> length b \<Longrightarrow> returns (get32 b i)"
  using get32_Some_iff [of b i] by (simp add: returns_def)

lemma returns_getn: "i + 4 \<le> length b \<Longrightarrow> returns (getn b i)"
  by (simp add: getn_def returns_get32)

lemma returns_gslice: "i \<le> j \<Longrightarrow> j \<le> length b \<Longrightarrow> returns (gslice b i j)"
  by (simp add: gslice_def)

lemma returns_slice_from: "i \<le> length b \<Longrightarrow> returns (slice_from b i)"
  by (simp add: slice_from_def)

lemmas returns_intros = returns_if returns_let returns_bind returns_get32 returns_getn returns_gslice
  returns_slice_from

section \<open>CRC32C\<close>

text \<open>
  \<^verbatim>\<open>crc32.Checksum(b, crc32.MakeTable(crc32.Castagnoli))\<close>: the reflected CRC with
  polynomial 0x82f63b78, initial value and final xor 0xffffffff.
\<close>

definition crc_poly :: u32 where
  "crc_poly = 0x82f63b78"

definition crc_step :: "u32 \<Rightarrow> u32" where
  "crc_step x = (if bit x 0 then drop_bit 1 x XOR crc_poly else drop_bit 1 x)"

definition crc_byte :: "u32 \<Rightarrow> byte \<Rightarrow> u32" where
  "crc_byte s b = (crc_step ^^ 8) (s XOR ucast b)"

definition crc32c :: "bytes \<Rightarrow> u32" where
  "crc32c b = NOT (foldl crc_byte (NOT 0) b)"

lemma crc_step_top: "bit (crc_step x) 31 \<longleftrightarrow> bit x 0"
  by (auto simp: crc_step_def crc_poly_def bit_simps dest: bit_imp_le_length)

lemma inj_crc_step: "inj crc_step"
proof (rule injI)
  fix x y assume eq: "crc_step x = crc_step y"
  then have b0: "bit x 0 = bit y 0" by (metis crc_step_top)
  with eq have sh: "drop_bit 1 x = drop_bit 1 y"
    by (auto simp: crc_step_def split: if_splits)
  show "x = y"
  proof (rule bit_word_eqI)
    fix n assume "n < LENGTH(32)"
    show "bit x n = bit y n"
    proof (cases n)
      case (Suc m)
      have "bit (drop_bit 1 x) m = bit (drop_bit 1 y) m" using sh by simp
      with Suc show ?thesis by (simp add: bit_simps)
    qed (use b0 in simp)
  qed
qed

lemma inj_crc_steps: "inj (crc_step ^^ 8)"
  by (rule inj_fn [OF inj_crc_step])

lemma crc_byte_inj_state: "crc_byte s b = crc_byte t b \<longleftrightarrow> s = t"
  unfolding crc_byte_def inj_eq [OF inj_crc_steps] by simp

lemma crc_byte_inj_byte: "crc_byte s a = crc_byte s b \<longleftrightarrow> a = b"
  unfolding crc_byte_def inj_eq [OF inj_crc_steps] by simp

lemma crc_fold_inj_state: "foldl crc_byte s b = foldl crc_byte t b \<longleftrightarrow> s = t"
  by (induction b arbitrary: s t) (simp_all add: crc_byte_inj_state)

text \<open>Two messages that differ in exactly one byte have different checksums, at any length.\<close>

lemma crc32c_one_byte: "crc32c (p @ x # s) = crc32c (p @ y # s) \<longleftrightarrow> x = y"
  by (simp add: crc32c_def crc_fold_inj_state crc_byte_inj_byte)

section \<open>The bounds-checked cursor\<close>

text \<open>
  A cursor keeps its buffer, its position and the first error.  \<^verbatim>\<open>need\<close> is the only
  place that decides whether a read may go ahead; every reader returns the zero value once the
  cursor has failed.
\<close>

record cursor =
  cb :: bytes
  cat :: nat
  cerr :: "string option"

definition mk_cursor :: "bytes \<Rightarrow> cursor" where
  "mk_cursor b = \<lparr>cb = b, cat = 0, cerr = None\<rparr>"

definition cur_fail :: "string \<Rightarrow> cursor \<Rightarrow> cursor" where
  "cur_fail msg c = (if cerr c = None then c\<lparr>cerr := Some msg\<rparr> else c)"

definition cur_need :: "nat \<Rightarrow> cursor \<Rightarrow> bool \<times> cursor" where
  "cur_need n c =
     (if cerr c \<noteq> None then (False, c)
      else if length (cb c) < cat c + n then (False, cur_fail ''need bytes at offset'' c)
      else (True, c))"

definition cur_u32 :: "cursor \<Rightarrow> u32 \<times> cursor" where
  "cur_u32 c =
     (case cur_need 4 c of
        (False, c') \<Rightarrow> (0, c')
      | (True, c') \<Rightarrow>
          (case get32 (cb c') (cat c') of
             None \<Rightarrow> (0, c')
           | Some v \<Rightarrow> (v, c'\<lparr>cat := cat c' + 4\<rparr>)))"

definition cur_u64 :: "cursor \<Rightarrow> u64 \<times> cursor" where
  "cur_u64 c =
     (case cur_need 8 c of
        (False, c') \<Rightarrow> (0, c')
      | (True, c') \<Rightarrow>
          (case le64 (drop (cat c') (cb c')) of
             None \<Rightarrow> (0, c')
           | Some v \<Rightarrow> (v, c'\<lparr>cat := cat c' + 8\<rparr>)))"

definition cur_byte :: "cursor \<Rightarrow> byte \<times> cursor" where
  "cur_byte c =
     (case cur_need 1 c of
        (False, c') \<Rightarrow> (0, c')
      | (True, c') \<Rightarrow>
          (case index (cb c') (cat c') of
             None \<Rightarrow> (0, c')
           | Some v \<Rightarrow> (v, c'\<lparr>cat := cat c' + 1\<rparr>)))"

text \<open>A counted run of equal fields: the loops that append one read per round.\<close>

fun read_n :: "(cursor \<Rightarrow> 'a \<times> cursor) \<Rightarrow> nat \<Rightarrow> cursor \<Rightarrow> 'a list \<times> cursor" where
  "read_n rd 0 c = ([], c)"
| "read_n rd (Suc n) c = (let (x, c1) = rd c; (xs, c2) = read_n rd n c1 in (x # xs, c2))"

text \<open>\<open>cursor_at c b p\<close>: the cursor is healthy, over \<open>b\<close>, at offset \<open>p\<close>.\<close>

definition cursor_at :: "cursor \<Rightarrow> bytes \<Rightarrow> nat \<Rightarrow> bool" where
  "cursor_at c b p \<longleftrightarrow> cb c = b \<and> cat c = p \<and> cerr c = None \<and> p \<le> length b"

lemma cursor_at_mk: "cursor_at (mk_cursor b) b 0"
  by (simp add: cursor_at_def mk_cursor_def)

lemma cursor_at_cerr: "cursor_at c b p \<Longrightarrow> cerr c = None"
  by (simp add: cursor_at_def)

text \<open>\<open>cursor_on c s\<close>: the cursor is healthy and \<open>s\<close> is what it has not read.\<close>

definition cursor_on :: "cursor \<Rightarrow> bytes \<Rightarrow> bool" where
  "cursor_on c s \<longleftrightarrow> cerr c = None \<and> cat c \<le> length (cb c) \<and> drop (cat c) (cb c) = s"

lemma cursor_on_mk: "cursor_on (mk_cursor b) b"
  by (simp add: cursor_on_def mk_cursor_def)

lemma cursor_on_cerr: "cursor_on c s \<Longrightarrow> cerr c = None"
  by (simp add: cursor_on_def)

lemma cursor_on_need: "cursor_on c s \<Longrightarrow> n \<le> length s \<Longrightarrow> cur_need n c = (True, c)"
  by (auto simp: cursor_on_def cur_need_def)

lemma cursor_on_at:
  assumes "cursor_on c s"
  obtains p where "cursor_at c (p @ s) (length p)"
  using assms that [of "take (cat c) (cb c)"]
  by (simp add: cursor_on_def cursor_at_def) (metis append_take_drop_id)

text \<open>The contract of a field reader.\<close>

locale cursor_reader =
  fixes rd :: "cursor \<Rightarrow> 'a \<times> cursor"
    and put :: "'a \<Rightarrow> bytes"
    and width :: nat
  assumes width_put: "length (put x) = width"
    and rd_put: "cursor_at c (p @ put x @ r) (length p) \<Longrightarrow>
       rd c = (x, c\<lparr>cat := length p + width\<rparr>)"
    and rd_short: "cursor_at c b i \<Longrightarrow> length b < i + width \<Longrightarrow> cerr (snd (rd c)) \<noteq> None"
    and rd_failed: "cerr c \<noteq> None \<Longrightarrow> snd (rd c) = c"
    and rd_buffer: "cb (snd (rd c)) = cb c"
    and rd_inside: "cat c \<le> length (cb c) \<Longrightarrow> cat (snd (rd c)) \<le> length (cb c)"
begin

lemma rd_put_at:
  assumes "cursor_at c (p @ put x @ r) (length p)"
  shows "rd c = (x, c\<lparr>cat := length p + width\<rparr>)"
    and "cursor_at (c\<lparr>cat := length p + width\<rparr>) (p @ put x @ r) (length p + width)"
  using assms by (simp_all add: rd_put cursor_at_def width_put)

lemma rd_on: "cursor_on c (put x @ r) \<Longrightarrow> \<exists>c'. rd c = (x, c') \<and> cursor_on c' r"
proof -
  assume "cursor_on c (put x @ r)"
  then obtain p where at: "cursor_at c (p @ put x @ r) (length p)" by (rule cursor_on_at)
  have "cursor_on (c\<lparr>cat := length p + width\<rparr>) r"
    using rd_put_at(2) [OF at] by (simp add: cursor_at_def cursor_on_def width_put)
  with rd_put_at(1) [OF at] show ?thesis by blast
qed

lemma read_n_on:
  "cursor_on c (concat (map put xs) @ r) \<Longrightarrow> \<exists>c'. read_n rd (length xs) c = (xs, c') \<and> cursor_on c' r"
proof (induction xs arbitrary: c)
  case (Cons x xs)
  then obtain c1 where c1: "rd c = (x, c1)" "cursor_on c1 (concat (map put xs) @ r)"
    using rd_on [of c x "concat (map put xs) @ r"] by auto
  then show ?case using Cons.IH [OF c1(2)] by auto
qed simp

lemma length_puts: "length (concat (map put xs)) = length xs * width"
  by (induction xs) (simp_all add: width_put)

lemma read_n_puts:
  assumes "cursor_at c (p @ concat (map put xs) @ r) (length p)"
  shows "read_n rd (length xs) c = (xs, c\<lparr>cat := length p + length xs * width\<rparr>)"
  using assms
proof (induction xs arbitrary: p c)
  case Nil
  then show ?case by (cases c) (simp add: cursor_at_def)
next
  case (Cons x xs)
  let ?c = "c\<lparr>cat := length p + width\<rparr>"
  have at: "cursor_at c (p @ put x @ concat (map put xs) @ r) (length p)" using Cons.prems by simp
  have "cursor_at ?c ((p @ put x) @ concat (map put xs) @ r) (length (p @ put x))"
    using rd_put_at(2) [OF at] by (simp add: width_put)
  from Cons.IH [OF this] rd_put_at(1) [OF at] show ?case
    by (simp add: width_put algebra_simps)
qed

lemma read_n_failed: "cerr c \<noteq> None \<Longrightarrow> snd (read_n rd n c) = c"
  by (induction n arbitrary: c) (auto simp: rd_failed case_prod_unfold Let_def)

lemma read_n_buffer: "cb (snd (read_n rd n c)) = cb c"
  by (induction n arbitrary: c) (auto simp: rd_buffer case_prod_unfold Let_def)

lemma read_n_inside: "cat c \<le> length (cb c) \<Longrightarrow> cat (snd (read_n rd n c)) \<le> length (cb c)"
proof (induction n arbitrary: c)
  case (Suc n)
  have "cat (snd (rd c)) \<le> length (cb (snd (rd c)))"
    using Suc.prems by (simp add: rd_inside rd_buffer)
  from Suc.IH [OF this] show ?case by (simp add: case_prod_unfold Let_def rd_buffer)
qed simp

end

lemma le32_drop_Some: "p + 4 \<le> length b \<Longrightarrow> \<exists>v. get32 b p = Some v"
  by (simp add: get32_Some_iff)

lemma le64_drop_Some: "p + 8 \<le> length b \<Longrightarrow> \<exists>v. le64 (drop p b) = Some v"
  by (simp add: le64_Some_iff)

interpretation cu32: cursor_reader cur_u32 putU32 4
  by unfold_locales
    (auto simp: cur_u32_def cur_need_def cur_fail_def cursor_at_def get32_at
      split: option.splits dest: le32_drop_Some intro: ccontr)

interpretation cu64: cursor_reader cur_u64 putU64 8
  by unfold_locales
    (auto simp: cur_u64_def cur_need_def cur_fail_def cursor_at_def le64_putU64
      split: option.splits dest: le64_drop_Some)

interpretation cbyte: cursor_reader cur_byte "\<lambda>x. [x]" 1
  by unfold_locales
    (auto simp: cur_byte_def cur_need_def cur_fail_def cursor_at_def index_def
      split: option.splits if_splits)

end
