(* ===== verification/Bitpack.thy ===== *)
theory Bitpack
  imports Bytes
begin

text \<open>
  The bit-packed integer streams of \<^verbatim>\<open>column.go\<close> and \<^verbatim>\<open>postings.go\<close>: widths,
  the packer and unpacker around the vector kernels, and the constant-time scalar read.

  The kernels \<^verbatim>\<open>simd.BitPackInto\<close> and \<^verbatim>\<open>simd.BitUnpackInto\<close> are parameters.  What
  the code relies on is the layout the sources document, plain linear LSB-first, and the sizes
  they pass: \<open>pack_spec\<close> and \<open>unpack_spec\<close> state it, and the scalar kernels at the end of the
  theory satisfy it.
\<close>

section \<open>Widths\<close>

text \<open>\<^verbatim>\<open>bits.Len32\<close>.\<close>

fun bits_len :: "nat \<Rightarrow> nat" where
  "bits_len n = (if n = 0 then 0 else Suc (bits_len (n div 2)))"

declare bits_len.simps [simp del]

definition bitWidth :: "nat \<Rightarrow> nat" where
  "bitWidth n = (if n \<le> 1 then 1 else bits_len ((n - 1) mod 2 ^ 32))"

lemma less_bits_len: "n < 2 ^ bits_len n"
proof (induction n rule: bits_len.induct)
  case (1 n)
  show ?case
  proof (cases "n = 0")
    case False
    then have "n div 2 < 2 ^ bits_len (n div 2)" using 1 by simp
    then have "n < 2 * 2 ^ bits_len (n div 2)" by linarith
    with False show ?thesis by (simp add: bits_len.simps [of n])
  qed (simp add: bits_len.simps)
qed

lemma bits_len_le: "n < 2 ^ k \<Longrightarrow> bits_len n \<le> k"
proof (induction k arbitrary: n)
  case 0
  then show ?case by (simp add: bits_len.simps)
next
  case (Suc k)
  then have "n div 2 < 2 ^ k" by (simp add: less_mult_imp_div_less)
  then show ?case using Suc.IH by (simp add: bits_len.simps [of n])
qed

lemma bitWidth_bounds:
  assumes "n \<le> 2 ^ 32"
  shows "1 \<le> bitWidth n" "bitWidth n \<le> 32"
proof -
  show "bitWidth n \<le> 32" by (auto simp: bitWidth_def intro!: bits_len_le)
  show "1 \<le> bitWidth n" using assms by (auto simp: bitWidth_def bits_len.simps [of "n - Suc 0"])
qed

lemma bitWidth_holds: "i < n \<Longrightarrow> n \<le> 2 ^ 32 \<Longrightarrow> i < 2 ^ bitWidth n"
proof (cases "n \<le> 1")
  case False
  assume "i < n" "n \<le> 2 ^ 32"
  then have "i \<le> n - 1" "n - 1 < 2 ^ 32" by auto
  then have "i \<le> (n - 1) mod 2 ^ 32" by simp
  also have "\<dots> < 2 ^ bits_len ((n - 1) mod 2 ^ 32)" by (rule less_bits_len)
  finally show ?thesis using False by (simp add: bitWidth_def)
qed (simp add: bitWidth_def)

lemma bitWidth_le: "n \<le> 2 ^ k \<Longrightarrow> 1 \<le> k \<Longrightarrow> k \<le> 32 \<Longrightarrow> bitWidth n \<le> k"
proof (cases "n \<le> 1")
  case False
  assume "n \<le> 2 ^ k" "1 \<le> k" "k \<le> 32"
  then have "n - 1 < 2 ^ k" using False by linarith
  then have "(n - 1) mod 2 ^ 32 < 2 ^ k" by (rule le_less_trans [OF mod_less_eq_dividend])
  then show ?thesis using False by (simp add: bitWidth_def bits_len_le)
qed (simp add: bitWidth_def)

section \<open>Packing and unpacking\<close>

definition word_bit :: "u32 list \<Rightarrow> nat \<Rightarrow> bool" where
  "word_bit ws p \<longleftrightarrow> p div 32 < length ws \<and> bit (ws ! (p div 32)) (p mod 32)"

definition byte_bit :: "bytes \<Rightarrow> nat \<Rightarrow> bool" where
  "byte_bit b p \<longleftrightarrow> p div 8 < length b \<and> bit (b ! (p div 8)) (p mod 8)"

type_synonym bit_packer = "nat \<Rightarrow> u32 list \<Rightarrow> nat \<Rightarrow> u32 list"
type_synonym bit_unpacker = "nat \<Rightarrow> u32 list \<Rightarrow> nat \<Rightarrow> u32 list"

text \<open>
  \<open>bitPack words idx width\<close> is the destination of \<open>words\<close> words after
  \<^verbatim>\<open>BitPackInto(dst, idx, width)\<close>; \<open>bitUnpack n packed width\<close> is the destination of \<open>n\<close>
  values after \<^verbatim>\<open>BitUnpackInto(dst, packed, width)\<close>.
\<close>

definition pack_spec :: "bit_packer \<Rightarrow> bool" where
  "pack_spec bitPack \<longleftrightarrow> (\<forall>idx w. 1 \<le> w \<and> w \<le> 32 \<and> (\<forall>x \<in> set idx. unat x < 2 ^ w) \<longrightarrow>
     (let n = (length idx * w + 31) div 32 + 1; ws = bitPack n idx w in
       length ws = n \<and> (\<forall>i < length idx. \<forall>j < w. word_bit ws (i * w + j) = bit (idx ! i) j)))"

definition unpack_spec :: "bit_unpacker \<Rightarrow> bool" where
  "unpack_spec bitUnpack \<longleftrightarrow> (\<forall>n packed w. 1 \<le> w \<and> w \<le> 32 \<and> n mod 32 = 0 \<and> n * w \<le> 32 * length packed \<longrightarrow>
     length (bitUnpack n packed w) = n
     \<and> (\<forall>i < n. \<forall>j. bit (bitUnpack n packed w ! i) j \<longleftrightarrow> j < w \<and> word_bit packed (i * w + j)))"

definition encodeIndices :: "bit_packer \<Rightarrow> u32 list \<Rightarrow> nat \<Rightarrow> bytes" where
  "encodeIndices bitPack idx width = (if idx = [] then [] else
     let words = (length idx * width + 31) div 32 + 1;
         packed = bitPack words idx width
     in concat (map putU32 packed))"

text \<open>The whole little-endian words of a byte slice.\<close>

fun words_of :: "bytes \<Rightarrow> u32 list" where
  "words_of (b0 # b1 # b2 # b3 # r) =
     (ucast b0 OR push_bit 8 (ucast b1) OR push_bit 16 (ucast b2) OR push_bit 24 (ucast b3)) # words_of r"
| "words_of _ = []"

text \<open>The eight-byte load at a byte offset, cut at the end of the slice.\<close>

definition window64 :: "bytes \<Rightarrow> nat \<Rightarrow> u64" where
  "window64 b i = foldl (\<lambda>v k. if i + k < length b then v OR push_bit (8 * k) (ucast (b ! (i + k))) else v)
     0 [0..<8]"

text \<open>One value of a linear LSB-first stream: the tail loop of \<^verbatim>\<open>decodeIndices\<close>.\<close>

definition read_bits :: "bytes \<Rightarrow> nat \<Rightarrow> nat \<Rightarrow> u32" where
  "read_bits b i width = (let p = i * width in
     ucast (drop_bit (p mod 8) (window64 b (p div 8))) AND (push_bit width 1 - 1))"

definition decodeIndices :: "bit_unpacker \<Rightarrow> bytes \<Rightarrow> nat \<Rightarrow> nat \<Rightarrow> u32 list" where
  "decodeIndices bitUnpack b n width = (if n = 0 then [] else
     let packed = words_of b;
         blocks = n div 32;
         front = (if blocks > 0 then bitUnpack (blocks * 32) packed width else [])
     in front @ map (\<lambda>j. read_bits b j width) [blocks * 32..<n])"

definition extractCountBits :: "bytes \<Rightarrow> nat \<Rightarrow> nat \<Rightarrow> nat" where
  "extractCountBits b i width = (if width = 0 then 0 else unat (read_bits b i width))"

section \<open>The bit view\<close>

lemma bit_window64: "bit (window64 b i) n \<longleftrightarrow> n < 64 \<and> i + n div 8 < length b \<and> bit (b ! (i + n div 8)) (n mod 8)"
proof -
  have gen: "bit (foldl (\<lambda>v k. if i + k < length b then v OR push_bit (8 * k) (ucast (b ! (i + k))) else v) (0 :: u64) [0..<m]) n
      \<longleftrightarrow> n < 64 \<and> n div 8 < m \<and> i + n div 8 < length b \<and> bit (b ! (i + n div 8)) (n mod 8)" for m
  proof (induction m)
    case (Suc m)
    have "bit (push_bit (8 * m) (ucast (b ! (i + m))) :: u64) n \<longleftrightarrow> n < 64 \<and> n div 8 = m \<and> bit (b ! (i + m)) (n mod 8)"
    proof -
      have "8 * m \<le> n \<and> n - 8 * m < 8 \<longleftrightarrow> n div 8 = m" by auto
      moreover have "n div 8 = m \<Longrightarrow> n - 8 * m = n mod 8" by (simp add: minus_mult_div_eq_mod [symmetric])
      ultimately show ?thesis
        by (auto simp: bit_push_bit_iff bit_ucast_iff dest: bit_imp_le_length)
    qed
    with Suc show ?case by (auto simp: bit_or_iff less_Suc_eq)
  qed simp
  show ?thesis using gen [of 8] by (auto simp: window64_def simp del: upt_rec_numeral)
qed

lemma bit_mask32: "bit (2 ^ w - 1 :: u32) j \<longleftrightarrow> j < w \<and> j < 32"
proof -
  have "(2 ^ w - 1 :: u32) = mask w" by (simp add: mask_eq_exp_minus_1)
  then show ?thesis by (simp add: bit_mask_iff) auto
qed

lemma bit_read_bits:
  assumes "w \<le> 32"
  shows "bit (read_bits b i w) j \<longleftrightarrow> j < w \<and> byte_bit b (i * w + j)"
proof -
  let ?p = "i * w"
  have "?p + j = 8 * (?p div 8) + (?p mod 8 + j)" by simp
  then have "(?p + j) div 8 = (8 * (?p div 8) + (?p mod 8 + j)) div 8" by (rule arg_cong)
  then have "?p div 8 + (?p mod 8 + j) div 8 = (?p + j) div 8" "(?p mod 8 + j) mod 8 = (?p + j) mod 8"
    by (simp_all only: div_mult_self4 mod_add_left_eq not_False_eq_True zero_neq_numeral)
  then show ?thesis
    using assms by (auto simp: read_bits_def Let_def bit_and_iff bit_mask32 bit_ucast_iff bit_drop_bit_eq bit_window64 byte_bit_def)
qed

lemma word_bit_Cons: "word_bit (w # ws) p \<longleftrightarrow> (if p < 32 then bit w p else word_bit ws (p - 32))"
proof (cases "p < 32")
  case False
  then obtain q where "p = 32 + q" using le_Suc_ex not_less by blast
  moreover have "(32 + q) div 32 = Suc (q div 32)" by simp
  ultimately show ?thesis by (simp add: word_bit_def)
qed (simp add: word_bit_def)

lemma byte_bit_append:
  "byte_bit (xs @ b) p \<longleftrightarrow> (if p < 8 * length xs then byte_bit xs p else byte_bit b (p - 8 * length xs))"
proof (cases "p < 8 * length xs")
  case True
  then have "p div 8 < length xs" by (simp add: less_mult_imp_div_less mult.commute)
  with True show ?thesis by (simp add: byte_bit_def nth_append)
next
  case False
  then obtain q where "p = 8 * length xs + q" using le_Suc_ex not_less by blast
  then show ?thesis by (simp add: byte_bit_def nth_append)
qed

lemma byte_bit_putU32: "byte_bit (putU32 v) p \<longleftrightarrow> p < 32 \<and> bit v p"
proof -
  consider "p < 8" | "8 \<le> p" "p < 16" | "16 \<le> p" "p < 24" | "24 \<le> p" "p < 32" | "32 \<le> p" by linarith
  then show ?thesis
  proof cases
    case 2
    then have q: "p div 8 = 1" by (intro div_nat_eqI) simp_all
    then have "8 + p mod 8 = p" using div_mult_mod_eq [of p 8] by simp
    with q 2 show ?thesis by (simp add: byte_bit_def putU32_def bit_ucast_iff bit_drop_bit_eq)
  next
    case 3
    then have q: "p div 8 = 2" by (intro div_nat_eqI) simp_all
    then have "16 + p mod 8 = p" using div_mult_mod_eq [of p 8] by simp
    with q 3 show ?thesis by (simp add: byte_bit_def putU32_def bit_ucast_iff bit_drop_bit_eq)
  next
    case 4
    then have q: "p div 8 = 3" by (intro div_nat_eqI) simp_all
    then have "24 + p mod 8 = p" using div_mult_mod_eq [of p 8] by simp
    with q 4 show ?thesis by (simp add: byte_bit_def putU32_def bit_ucast_iff bit_drop_bit_eq)
  next
    case 5
    then have "\<not> p div 8 < 4" by simp
    with 5 show ?thesis by (simp add: byte_bit_def)
  qed (simp add: byte_bit_def putU32_def bit_ucast_iff)
qed

lemma byte_bit_words: "byte_bit (concat (map putU32 ws)) p \<longleftrightarrow> word_bit ws p"
proof (induction ws arbitrary: p)
  case Nil
  show ?case by (simp add: byte_bit_def word_bit_def)
next
  case (Cons w ws)
  then show ?case by (simp add: byte_bit_append byte_bit_putU32 word_bit_Cons)
qed

lemma words_of_putU32: "words_of (putU32 v @ r) = v # words_of r"
  by (simp add: putU32_def u32_split_bytes)

lemma words_of_concat [simp]: "words_of (concat (map putU32 ws)) = ws"
  by (induction ws) (simp_all add: words_of_putU32)

lemma length_words [simp]: "length (concat (map putU32 ws)) = 4 * length ws"
  by (induction ws) simp_all

section \<open>Packed streams\<close>

text \<open>A byte stream that holds the values \<open>xs\<close> at a width.\<close>

definition packed_as :: "bytes \<Rightarrow> nat \<Rightarrow> u32 list \<Rightarrow> bool" where
  "packed_as b w xs \<longleftrightarrow> 1 \<le> w \<and> w \<le> 32 \<and> (\<forall>x \<in> set xs. unat x < 2 ^ w)
     \<and> (\<forall>i < length xs. \<forall>j < w. byte_bit b (i * w + j) = bit (xs ! i) j)"

lemma bit_bounded: "unat x < 2 ^ w \<Longrightarrow> bit (x :: u32) j \<Longrightarrow> j < w"
proof -
  assume u: "unat x < 2 ^ w" and b: "bit x j"
  have "take_bit w x = x"
    by (rule unsigned_word_eqI [where 'a = nat]) (simp add: u unsigned_take_bit_eq take_bit_nat_eq_self)
  with b show "j < w" by (metis bit_take_bit_iff)
qed

lemma read_bits_packed:
  assumes "packed_as b w xs" and "i < length xs"
  shows "read_bits b i w = xs ! i"
proof (rule bit_word_eqI)
  fix j assume "j < LENGTH(32)"
  show "bit (read_bits b i w) j = bit (xs ! i) j"
    using assms bit_bounded [of "xs ! i" w j] by (auto simp: packed_as_def bit_read_bits)
qed

lemma extract_packed:
  assumes "packed_as b w xs" and "i < length xs"
  shows "extractCountBits b i w = unat (xs ! i)"
  using assms read_bits_packed [OF assms] by (auto simp: extractCountBits_def packed_as_def)

lemma length_encodeIndices:
  assumes "pack_spec bitPack" "1 \<le> w" "w \<le> 32" "\<forall>x \<in> set xs. unat x < 2 ^ w" "xs \<noteq> []"
  shows "length (encodeIndices bitPack xs w) = 4 * ((length xs * w + 31) div 32 + 1)"
  using assms by (simp add: encodeIndices_def pack_spec_def Let_def)

lemma encodeIndices_packed:
  assumes "pack_spec bitPack" "1 \<le> w" "w \<le> 32" "\<forall>x \<in> set xs. unat x < 2 ^ w"
  shows "packed_as (encodeIndices bitPack xs w) w xs"
  using assms by (simp add: packed_as_def encodeIndices_def pack_spec_def Let_def byte_bit_words)

lemma packed_as_append: "packed_as b w xs \<Longrightarrow> packed_as b w (take n xs)"
  by (auto simp: packed_as_def dest: in_set_takeD)

text \<open>A whole number of 32-value groups can be skipped, in words as in values.\<close>

lemma word_bit_drop: "word_bit (drop k ws) p \<longleftrightarrow> word_bit ws (32 * k + p)"
  by (auto simp: word_bit_def)

lemma unpack_packed:
  assumes up: "unpack_spec bitUnpack" and ws: "words_of b = ws" "b = concat (map putU32 ws)"
    and pk: "packed_as b w xs" and n: "32 * s + 32 * n \<le> length xs" "(s + n) * w \<le> length ws"
  shows "bitUnpack (n * 32) (drop (s * w) ws) w = take (32 * n) (drop (32 * s) xs)"
proof -
  have w: "1 \<le> w" "w \<le> 32" using pk by (simp_all add: packed_as_def)
  have fit: "n * 32 * w \<le> 32 * length (drop (s * w) ws)"
    using n(2) by (simp add: add_mult_distrib)
  have sp: "length (bitUnpack (n * 32) (drop (s * w) ws) w) = n * 32"
    "\<And>i j. i < n * 32 \<Longrightarrow> bit (bitUnpack (n * 32) (drop (s * w) ws) w ! i) j \<longleftrightarrow> j < w \<and> word_bit (drop (s * w) ws) (i * w + j)"
    using up w fit unfolding unpack_spec_def by simp_all
  show ?thesis
  proof (rule nth_equalityI)
    show "length (bitUnpack (n * 32) (drop (s * w) ws) w) = length (take (32 * n) (drop (32 * s) xs))"
      using sp(1) n(1) by simp
    fix i assume "i < length (bitUnpack (n * 32) (drop (s * w) ws) w)"
    then have i: "i < n * 32" using sp(1) by simp
    then have il: "32 * s + i < length xs" using n(1) by simp
    have pos: "32 * (s * w) + (i * w + j) = (32 * s + i) * w + j" for j by (simp add: algebra_simps)
    show "bitUnpack (n * 32) (drop (s * w) ws) w ! i = take (32 * n) (drop (32 * s) xs) ! i"
    proof (rule bit_word_eqI)
      fix j assume "j < LENGTH(32)"
      have "j < w \<and> word_bit ws ((32 * s + i) * w + j) \<longleftrightarrow> bit (xs ! (32 * s + i)) j"
        using pk il bit_bounded [of "xs ! (32 * s + i)" w j] ws(2)
        by (auto simp: packed_as_def byte_bit_words)
      then show "bit (bitUnpack (n * 32) (drop (s * w) ws) w ! i) j = bit (take (32 * n) (drop (32 * s) xs) ! i) j"
        using sp(2) [OF i] i il by (simp add: word_bit_drop pos)
    qed
  qed
qed

lemma le_words: "a * 32 \<le> b \<Longrightarrow> a \<le> (b + 31) div 32 + (1 :: nat)"
  by linarith

text \<open>Decoding what was encoded: kernel blocks, then the scalar tail.\<close>

lemma decodeIndices_encode:
  assumes pk: "pack_spec bitPack" and up: "unpack_spec bitUnpack"
    and w: "1 \<le> w" "w \<le> 32" and fits: "\<forall>x \<in> set xs. unat x < 2 ^ w"
  shows "decodeIndices bitUnpack (encodeIndices bitPack xs w) (length xs) w = xs"
proof (cases "xs = []")
  case False
  let ?n = "(length xs * w + 31) div 32 + 1"
  let ?ws = "bitPack ?n xs w" and ?b = "encodeIndices bitPack xs w" and ?k = "length xs div 32"
  have b: "?b = concat (map putU32 ?ws)" using False by (simp add: encodeIndices_def Let_def)
  have lw: "length ?ws = ?n" using pk w fits by (simp add: pack_spec_def Let_def)
  have pa: "packed_as ?b w xs" by (rule encodeIndices_packed [OF pk w fits])
  have "?k * 32 * w \<le> length xs * w" by (intro mult_le_mono1) simp
  then have "?k * w * 32 \<le> length xs * w" by (simp add: mult.assoc mult.commute mult.left_commute)
  then have "(0 + ?k) * w \<le> length ?ws" unfolding lw add_0 by (rule le_words)
  then have front: "(if ?k > 0 then bitUnpack (?k * 32) ?ws w else []) = take (32 * ?k) xs"
    using unpack_packed [OF up _ b pa, of 0 ?k] b by simp
  have "map (\<lambda>j. read_bits ?b j w) [?k * 32..<length xs] = drop (32 * ?k) xs"
    by (rule nth_equalityI) (simp_all add: read_bits_packed [OF pa] mult.commute)
  moreover have "words_of ?b = ?ws" unfolding b by simp
  ultimately show ?thesis
    using False front unfolding decodeIndices_def Let_def by (simp only: if_False append_take_drop_id length_0_conv)
qed (simp add: decodeIndices_def)

section \<open>Scalar kernels\<close>

text \<open>Kernels that satisfy the two contracts, bit by bit.\<close>

definition of_bits :: "(nat \<Rightarrow> bool) \<Rightarrow> nat \<Rightarrow> u32" where
  "of_bits f n = horner_sum of_bool 2 (map f [0..<n])"

definition scalar_pack :: bit_packer where
  "scalar_pack n idx w = map (\<lambda>k. of_bits (\<lambda>t. let p = 32 * k + t in
     p div w < length idx \<and> bit (idx ! (p div w)) (p mod w)) 32) [0..<n]"

definition scalar_unpack :: bit_unpacker where
  "scalar_unpack n packed w = map (\<lambda>i. of_bits (\<lambda>j. word_bit packed (i * w + j)) w) [0..<n]"

lemma bit_of_bits: "bit (of_bits f n) j \<longleftrightarrow> j < n \<and> j < 32 \<and> f j"
  by (auto simp: of_bits_def bit_horner_sum_bit_word_iff)

lemma scalar_pack_spec: "pack_spec scalar_pack"
  unfolding pack_spec_def
proof (intro allI impI)
  fix idx :: "u32 list" and w :: nat
  assume a: "1 \<le> w \<and> w \<le> 32 \<and> (\<forall>x \<in> set idx. unat x < 2 ^ w)"
  let ?n = "(length idx * w + 31) div 32 + 1"
  have "word_bit (scalar_pack ?n idx w) (i * w + j) = bit (idx ! i) j" if "i < length idx" "j < w" for i j
  proof -
    let ?p = "i * w + j"
    have "?p div w = i" "?p mod w = j" using that(2) by simp_all
    have "(i + 1) * w \<le> length idx * w" using that(1) by (intro mult_le_mono1) simp
    then have "?p < length idx * w" using that(2) by simp
    then have "?p div 32 < ?n" by (simp add: less_Suc_eq_le div_le_mono)
    then show ?thesis
      using \<open>?p div w = i\<close> \<open>?p mod w = j\<close> that
      by (simp add: word_bit_def scalar_pack_def bit_of_bits Let_def del: upt_Suc)
  qed
  then show "let n = ?n; ws = scalar_pack n idx w in
       length ws = n \<and> (\<forall>i < length idx. \<forall>j < w. word_bit ws (i * w + j) = bit (idx ! i) j)"
    by (simp add: Let_def) (simp add: scalar_pack_def)
qed

lemma scalar_unpack_spec: "unpack_spec scalar_unpack"
  by (auto simp: unpack_spec_def scalar_unpack_def bit_of_bits)

end
