(* ===== verification/Column.thy ===== *)
theory Column
  imports Bitpack "HOL-Library.List_Lexorder"
begin

text \<open>
  Dictionary columns of \<^verbatim>\<open>internal/storage/column.go\<close>: \<^verbatim>\<open>BuildDict\<close> interns
  the values of a column into a sorted dictionary and per-row indices, and the indices travel
  bit-packed at the dictionary's width.  A Go string is its byte list, ordered bytewise.
\<close>

section \<open>Building a dictionary\<close>

record DictColumn =
  Dict :: "bytes list"
  Indices :: "u32 list"

text \<open>The locals of the first pass: the map of provisional ids, the distinct values in first-seen order, and every row's provisional id.\<close>

type_synonym intern_state = "(bytes \<rightharpoonup> u32) \<times> bytes list \<times> u32 list"

definition intern_step :: "intern_state \<Rightarrow> bytes \<Rightarrow> intern_state" where
  "intern_step st v = (case st of (ids, dict, prov) \<Rightarrow>
     case ids v of
       Some x \<Rightarrow> (ids, dict, prov @ [x])
     | None \<Rightarrow> (let x = of_nat (length dict) in (ids(v \<mapsto> x), dict @ [v], prov @ [x])))"

definition BuildDict :: "bytes list \<Rightarrow> DictColumn" where
  "BuildDict values = (
     let (ids, dict, prov) = foldl intern_step (Map.empty, [], []) values;
         sorted = sort dict;
         remap = foldl (\<lambda>r (newID, v). r[unat (the (ids v)) := of_nat newID])
                   (replicate (length dict) 0) (enumerate 0 sorted);
         idx = map (\<lambda>p. remap ! unat p) prov
     in \<lparr>Dict = sorted, Indices = idx\<rparr>)"

text \<open>After some rows: the distinct values are those rows' values, and the ids are their positions.\<close>

definition intern_inv :: "bytes list \<Rightarrow> intern_state \<Rightarrow> bool" where
  "intern_inv vs st \<longleftrightarrow> (case st of (ids, dict, prov) \<Rightarrow>
     distinct dict \<and> set dict = set vs \<and> length prov = length vs \<and> length dict \<le> length vs
     \<and> (\<forall>v. ids v = None \<longleftrightarrow> v \<notin> set dict)
     \<and> (\<forall>v x. ids v = Some x \<longrightarrow> unat x < length dict \<and> dict ! unat x = v)
     \<and> (\<forall>i < length vs. ids (vs ! i) = Some (prov ! i)))"

lemma intern_inv_step:
  assumes "intern_inv vs st" and "length vs + 1 < 2 ^ 32"
  shows "intern_inv (vs @ [v]) (intern_step st v)"
proof -
  obtain ids dict prov where st: "st = (ids, dict, prov)" by (metis prod.exhaust)
  have l: "length dict < 2 ^ 32" using assms by (auto simp: intern_inv_def st)
  note iv = assms(1) [unfolded st intern_inv_def prod.case]
  show ?thesis
  proof (cases "ids v")
    case None
    then have v: "v \<notin> set dict" using iv by blast
    have step: "intern_step st v = (ids(v \<mapsto> of_nat (length dict)), dict @ [v], prov @ [of_nat (length dict)])"
      using None by (simp add: st intern_step_def Let_def)
    have sets: "set dict = set vs" and len: "length prov = length vs" using iv by simp_all
    have old: "ids (vs ! i) = Some (prov ! i) \<and> vs ! i \<noteq> v" if "i < length vs" for i
      using iv that v sets nth_mem [OF that] by metis
    have tab: "unat x < length dict \<and> dict ! unat x = u" if "ids u = Some x" for u x using iv that by blast
    show ?thesis
      unfolding step intern_inv_def prod.case
      using iv v l old tab len by (auto simp: nth_append less_Suc_eq)
  next
    case (Some x)
    then have v: "v \<in> set dict" using iv by (metis option.distinct(1))
    have step: "intern_step st v = (ids, dict, prov @ [x])" using Some by (simp add: st intern_step_def)
    show ?thesis
      unfolding step intern_inv_def prod.case
      using iv v Some by (auto simp: nth_append less_Suc_eq)
  qed
qed

lemma intern_inv_loop: "length vs < 2 ^ 32 \<Longrightarrow> intern_inv vs (foldl intern_step (Map.empty, [], []) vs)"
proof (induction vs rule: rev_induct)
  case Nil
  show ?case by (simp add: intern_inv_def)
next
  case (snoc v vs)
  then show ?case using intern_inv_step [of vs _ v] by simp
qed

text \<open>The remap array: the cell of a value's provisional id holds its position in the sorted dictionary.\<close>

lemma nth_remap:
  assumes inj: "inj_on f (set vs)" and d: "distinct vs" and len: "\<forall>v \<in> set vs. f v < length r" and j: "j < length vs"
  shows "foldl (\<lambda>r (i, v). r[f v := g i]) r (enumerate s vs) ! f (vs ! j) = g (s + j)"
  using assms
proof (induction vs arbitrary: r s j)
  case (Cons v vs)
  have keep: "foldl (\<lambda>r (i, v). r[f v := g i]) r (enumerate s us) ! x = r ! x"
    if "\<forall>u \<in> set us. f u \<noteq> x" for us r s x
    using that by (induction us arbitrary: r s) auto
  show ?case
  proof (cases j)
    case 0
    have "\<forall>u \<in> set vs. f u \<noteq> f v" using Cons.prems(1,2) by (auto simp: image_iff)
    with 0 Cons.prems(3) show ?thesis by (simp add: keep)
  next
    case (Suc i)
    with Cons.prems Cons.IH [of "r[f v := g s]" i "Suc s"] show ?thesis by simp
  qed
qed simp

lemma length_foldl_remap [simp]:
  "length (foldl (\<lambda>r (i, v). r[f v := g i]) r ivs) = length r"
  by (induction ivs arbitrary: r) (auto split: prod.split)

lemma BuildDict_spec:
  assumes "length values < 2 ^ 32"
  shows "Dict (BuildDict values) = sorted_list_of_set (set values)"
    and "length (Indices (BuildDict values)) = length values"
    and "\<And>i. i < length values \<Longrightarrow> unat (Indices (BuildDict values) ! i) < length (Dict (BuildDict values))
          \<and> Dict (BuildDict values) ! unat (Indices (BuildDict values) ! i) = values ! i"
proof -
  obtain ids dict prov where st: "foldl intern_step (Map.empty, [], []) values = (ids, dict, prov)"
    by (metis prod.exhaust)
  note iv = intern_inv_loop [OF assms, unfolded st intern_inv_def prod.case]
  define f where "f v = unat (the (ids v))" for v
  define remap where "remap = foldl (\<lambda>r (newID, v). r[f v := (of_nat newID :: u32)]) (replicate (length dict) 0) (enumerate 0 (sort dict))"
  have bd: "BuildDict values = \<lparr>Dict = sort dict, Indices = map (\<lambda>p. remap ! unat p) prov\<rparr>"
    by (simp add: BuildDict_def st remap_def f_def Let_def)
  have fv: "f v < length dict \<and> dict ! f v = v" if "v \<in> set dict" for v
  proof -
    from iv that obtain x where "ids v = Some x" by fastforce
    with iv show ?thesis by (auto simp: f_def)
  qed
  have inj: "inj_on f (set dict)" by (rule inj_onI) (metis fv)
  have "sort dict = sorted_list_of_set (set dict)"
    using iv by (metis sorted_list_of_set_sort_remdups distinct_remdups_id)
  then show D: "Dict (BuildDict values) = sorted_list_of_set (set values)" using iv bd by simp
  show "length (Indices (BuildDict values)) = length values" using iv bd by simp
  fix i assume i: "i < length values"
  let ?v = "values ! i"
  have vd: "?v \<in> set (sort dict)" using iv i by simp
  then obtain j where j: "j < length (sort dict)" "sort dict ! j = ?v" by (metis in_set_conv_nth)
  have "remap ! f (sort dict ! j) = of_nat (0 + j)"
    unfolding remap_def using inj iv fv j(1) by (intro nth_remap) auto
  moreover have "f ?v = unat (prov ! i)" using iv i by (simp add: f_def)
  ultimately have "Indices (BuildDict values) ! i = of_nat j" using bd j(2) iv i by simp
  moreover have "length dict < 2 ^ 32" using iv assms by linarith
  ultimately show "unat (Indices (BuildDict values) ! i) < length (Dict (BuildDict values))
          \<and> Dict (BuildDict values) ! unat (Indices (BuildDict values) ! i) = ?v"
    using bd j by simp
qed

section \<open>Properties\<close>

text \<open>Interning a column loses nothing: the dictionary is exactly the distinct values in
  ascending byte order, and looking every row's index up in it gives the column back.\<close>

theorem BuildDict_correct:
  assumes "length values < 2 ^ 32"
  shows "sorted_wrt (<) (Dict (BuildDict values)) \<and> set (Dict (BuildDict values)) = set values
    \<and> map (\<lambda>i. Dict (BuildDict values) ! unat i) (Indices (BuildDict values)) = values"
proof -
  note sp = BuildDict_spec [OF assms]
  have "map (\<lambda>i. Dict (BuildDict values) ! unat i) (Indices (BuildDict values)) = values"
    using sp(2,3) by (intro nth_equalityI) simp_all
  then show ?thesis using sp(1) by (simp add: strict_sorted_iff)
qed

theorem BuildDict_correct_witness:
  "map (\<lambda>i. Dict (BuildDict [[98], [97], [98], []]) ! unat i) (Indices (BuildDict [[98], [97], [98], []]))
     = [[98], [97], [98], []]"
  using BuildDict_correct [of "[[98], [97], [98], []]"] by simp

text \<open>The indices of a column built from its values survive the bit-packed encoding at the
  dictionary's width, through the kernel blocks and the scalar tail alike.\<close>

theorem indices_roundtrip:
  assumes "pack_spec bitPack" and "unpack_spec bitUnpack" and "length values < 2 ^ 32"
    and "c = BuildDict values" and "w = bitWidth (length (Dict c))"
  shows "decodeIndices bitUnpack (encodeIndices bitPack (Indices c) w) (length values) w = Indices c"
proof -
  note sp = BuildDict_spec [OF assms(3), folded assms(4)]
  have "card (set values) \<le> length values" by (rule card_length)
  then have d: "length (Dict c) \<le> 2 ^ 32" using sp(1) assms(3) by simp
  have "\<forall>x \<in> set (Indices c). unat x < 2 ^ w"
    using sp(2,3) bitWidth_holds [OF _ d] by (auto simp: assms(5) in_set_conv_nth)
  then show ?thesis
    using decodeIndices_encode [OF assms(1,2) bitWidth_bounds [OF d, folded assms(5)]] sp(2) by metis
qed

theorem indices_roundtrip_witness:
  "decodeIndices scalar_unpack (encodeIndices scalar_pack (Indices (BuildDict [[98], [97], [98]]))
       (bitWidth (length (Dict (BuildDict [[98], [97], [98]]))))) 3
       (bitWidth (length (Dict (BuildDict [[98], [97], [98]])))) = Indices (BuildDict [[98], [97], [98]])"
  using indices_roundtrip [OF scalar_pack_spec scalar_unpack_spec _ refl refl, of "[[98], [97], [98]]"]
  by (simp add: numeral_3_eq_3)

end
