(* ===== verification/Varint.thy ===== *)
theory Varint
  imports Bytes
begin

text \<open>
  The variable-length integers of the timestamp stream: \<^verbatim>\<open>AppendUvarint\<close> and
  \<^verbatim>\<open>Uvarint\<close> of the standard library's \<^verbatim>\<open>encoding/binary\<close>, which
  \<^verbatim>\<open>column.go\<close> calls, and the zig-zag mapping of \<^verbatim>\<open>column.go\<close>.

  The locale \<open>stream_codec\<close> is what the timestamp column relies on: an element is read back in
  front of anything, and reading says how far to advance.
\<close>

section \<open>Unsigned varints\<close>

text \<open>\<^verbatim>\<open>binary.AppendUvarint\<close>: seven bits a byte, low group first, the top bit set on all but the last.\<close>

function put_uvarint :: "u64 \<Rightarrow> bytes" where
  "put_uvarint x = (if x < 0x80 then [ucast x] else (ucast x OR 0x80) # put_uvarint (drop_bit 7 x))"
  by pat_completeness auto
termination
proof (relation "measure unat")
  fix x :: u64
  assume "\<not> x < 0x80"
  then have "128 \<le> unat x" by (simp add: word_less_nat_alt)
  then show "(drop_bit 7 x, x) \<in> measure unat"
    unfolding in_measure unat_drop_bit_eq by (simp add: drop_bit_eq_div)
qed simp

declare put_uvarint.simps [simp del]

text \<open>
  \<^verbatim>\<open>binary.Uvarint\<close>: the value and the number of bytes read; zero bytes when the buffer ends
  inside a varint, a negative count when the value overflows 64 bits.
\<close>

fun uvarint_go :: "nat \<Rightarrow> u64 \<Rightarrow> bytes \<Rightarrow> u64 \<times> int" where
  "uvarint_go i x [] = (0, 0)"
| "uvarint_go i x (b # bs) =
     (if i = 10 then (0, - (int i + 1))
      else if b < 0x80 then
        (if i = 9 \<and> b > 1 then (0, - (int i + 1))
         else (x OR push_bit (7 * i) (ucast b), int i + 1))
      else uvarint_go (Suc i) (x OR push_bit (7 * i) (ucast (b AND 0x7f))) bs)"

definition uvarint :: "bytes \<Rightarrow> u64 \<times> int" where
  "uvarint b = uvarint_go 0 0 b"

lemma uvarint_bound: "uvarint_go i x b = (v, w) \<Longrightarrow> 0 < w \<Longrightarrow> int i < w \<and> w \<le> int i + int (length b)"
  by (induction i x b rule: uvarint_go.induct) (auto split: if_splits)

lemma uvarint_advance: "uvarint b = (v, w) \<Longrightarrow> 0 < w \<Longrightarrow> nat w \<le> length b"
  using uvarint_bound [of 0 0 b v w] by (simp add: uvarint_def)

lemma put_uvarint_ne [simp]: "put_uvarint x \<noteq> []"
  by (subst put_uvarint.simps) simp

lemma take_bit_small: "x < 0x80 \<Longrightarrow> take_bit 7 x = (x :: u64)"
  by (rule unsigned_word_eqI [where 'a = nat])
    (simp add: word_less_nat_alt unsigned_take_bit_eq take_bit_nat_eq_self)

lemma take_bit_small_byte: "x < 0x80 \<Longrightarrow> take_bit 7 x = (x :: byte)"
  by (rule unsigned_word_eqI [where 'a = nat])
    (simp add: word_less_nat_alt unsigned_take_bit_eq take_bit_nat_eq_self)

lemma bit_small: "x < 0x80 \<Longrightarrow> bit (x :: u64) n \<Longrightarrow> n < 7"
proof -
  assume "x < 0x80" and b: "bit x n"
  then have "take_bit 7 x = x" by (simp add: take_bit_small)
  with b show "n < 7" by (metis bit_take_bit_iff)
qed

lemma ucast_byte_small: "x < 0x80 \<Longrightarrow> (ucast (ucast (x :: u64) :: byte) :: u64) = x"
  by (rule bit_word_eqI) (auto simp: bit_simps dest: bit_small)

lemma bit_128: "bit (0x80 :: byte) n \<longleftrightarrow> n = 7"
proof -
  have "(0x80 :: byte) = push_bit 7 1" by simp
  then show ?thesis by (simp only: bit_simps) auto
qed

lemma bit_127: "bit (0x7f :: byte) n \<longleftrightarrow> n < 7"
proof -
  have "(0x7f :: byte) = mask 7" by (simp add: mask_eq_exp_minus_1)
  then show ?thesis by (simp only: bit_mask_iff) auto
qed

lemma cont_byte: "\<not> (ucast x OR 0x80 :: byte) < 0x80"
proof
  assume "(ucast x OR 0x80 :: byte) < 0x80"
  then have "take_bit 7 (ucast x OR 0x80 :: byte) = ucast x OR 0x80"
    by (rule take_bit_small_byte)
  then have "bit (take_bit 7 (ucast x OR 0x80 :: byte)) 7 = bit (ucast x OR 0x80 :: byte) 7" by simp
  then show False by (simp add: bit_simps bit_128)
qed

lemma low_group:
  "push_bit s (ucast ((ucast x OR 0x80 :: byte) AND 0x7f)) OR push_bit (7 + s) (drop_bit 7 x)
     = push_bit s (x :: u64)" (is "push_bit s (ucast ?c) OR _ = _")
proof (rule bit_word_eqI)
  have c: "bit ?c k \<longleftrightarrow> k < 7 \<and> bit x k" for k
    by (simp only: bit_and_iff bit_or_iff bit_127 bit_128 bit_ucast_iff) auto
  fix n assume n: "n < LENGTH(64)"
  consider "n < s" | "s \<le> n" "n < s + 7" | "s + 7 \<le> n" by linarith
  then show "bit (push_bit s (ucast ?c) OR push_bit (7 + s) (drop_bit 7 x)) n = bit (push_bit s x) n"
    using n by cases (auto simp add: bit_or_iff bit_push_bit_iff bit_ucast_iff bit_drop_bit_eq c del: unsigned_and_eq unsigned_or_eq)
qed

lemma uvarint_go_put:
  assumes "i \<le> 9" and "unat x < 2 ^ (64 - 7 * i)"
  shows "uvarint_go i a (put_uvarint x @ t) = (a OR push_bit (7 * i) x, int i + int (length (put_uvarint x)))"
  using assms
proof (induction x arbitrary: i a rule: put_uvarint.induct)
  case (1 x)
  show ?case
  proof (cases "x < 0x80")
    case True
    have u: "unat (ucast x :: byte) = unat x"
      using True by (simp add: word_less_nat_alt unsigned_ucast_eq take_bit_eq_mod)
    then have lt: "(ucast x :: byte) < 0x80" using True by (simp add: word_less_nat_alt)
    have "i = 9 \<Longrightarrow> \<not> (ucast x :: byte) > 1" using "1.prems" u by (simp add: word_less_nat_alt)
    with lt True "1.prems" show ?thesis
      by (auto simp: put_uvarint.simps [of x] ucast_byte_small)
  next
    case False
    then have ge: "128 \<le> unat x" by (simp add: word_less_nat_alt)
    have i8: "i \<le> 8"
    proof (rule ccontr)
      assume "\<not> i \<le> 8"
      with "1.prems" have "i = 9" by simp
      with "1.prems" ge show False by simp
    qed
    have "unat x < 2 ^ (64 - 7 * Suc i) * 128"
    proof -
      have "64 - 7 * i = (64 - 7 * Suc i) + 7" using i8 by simp
      then have "(2 :: nat) ^ (64 - 7 * i) = 2 ^ (64 - 7 * Suc i) * 2 ^ 7" by (metis power_add)
      with "1.prems" show ?thesis by simp
    qed
    then have d: "unat (drop_bit 7 x) < 2 ^ (64 - 7 * Suc i)"
      unfolding unat_drop_bit_eq by (simp add: drop_bit_eq_div less_mult_imp_div_less)
    have g: "(a OR push_bit (7 * i) (ucast ((ucast x OR 0x80 :: byte) AND 0x7f)))
        OR push_bit (7 * Suc i) (drop_bit 7 x) = a OR push_bit (7 * i) x"
      using low_group [of "7 * i" x] by (simp add: or.assoc)
    show ?thesis
      using "1.IH" [OF False _ d] i8 False cont_byte [of x] g
      by (simp add: put_uvarint.simps [of x])
  qed
qed

lemma uvarint_put: "uvarint (put_uvarint x @ t) = (x, int (length (put_uvarint x)))"
  using uvarint_go_put [of 0 x 0 t] unsigned_less [of x] by (simp add: uvarint_def)

lemma uvarint_go_width: "uvarint_go i x b = (v, w) \<Longrightarrow> i \<le> 10 \<Longrightarrow> w \<le> 10"
  by (induction i x b rule: uvarint_go.induct) (auto split: if_splits)

lemma length_put_uvarint: "length (put_uvarint x) \<le> 10"
  using uvarint_go_width [OF uvarint_put [of x "[]", unfolded uvarint_def]] by simp

section \<open>Zig-zag\<close>

definition zigzag :: "u64 \<Rightarrow> u64" where
  "zigzag v = push_bit 1 v XOR signed_drop_bit 63 v"

definition unzigzag :: "u64 \<Rightarrow> u64" where
  "unzigzag u = drop_bit 1 u XOR (- (u AND 1))"

lemma bit_zigzag: "bit (zigzag v) n \<longleftrightarrow> n < 64 \<and> ((0 < n \<and> bit v (n - 1)) \<noteq> bit v 63)"
proof -
  have "signed_drop_bit 63 v = (if bit v 63 then -1 else 0)"
    by (rule bit_word_eqI) (auto simp: bit_simps Suc_le_eq)
  moreover have "bit (push_bit 1 v) n \<longleftrightarrow> n < 64 \<and> 0 < n \<and> bit v (n - 1)"
    by (auto simp only: bit_push_bit_iff possible_bit_def) (auto simp: bit_imp_le_length)
  ultimately show ?thesis by (auto simp: zigzag_def bit_xor_iff bit_simps)
qed

lemma unzigzag_zigzag [simp]: "unzigzag (zigzag v) = v"
proof -
  have one: "zigzag v AND 1 = (if bit v 63 then 1 else 0)"
    by (rule bit_word_eqI) (auto simp: bit_and_iff bit_zigzag bit_1_iff)
  show ?thesis
    unfolding unzigzag_def one
  proof (rule bit_word_eqI)
    fix n assume "n < LENGTH(64)"
    then have "n < 63 \<or> n = 63" by auto
    then show "bit (drop_bit 1 (zigzag v) XOR - (if bit v 63 then 1 else 0)) n = bit v n"
      by (auto simp: bit_xor_iff bit_drop_bit_eq bit_zigzag)
  qed
qed

section \<open>Streams of encoded elements\<close>

locale stream_codec =
  fixes put :: "'a \<Rightarrow> bytes" and get :: "bytes \<Rightarrow> 'a \<times> int"
  assumes get_put: "get (put x @ t) = (x, int (length (put x)))"
    and put_ne: "put x \<noteq> []"
begin

definition puts :: "'a list \<Rightarrow> bytes" where
  "puts xs = concat (map put xs)"

lemma puts_simps [simp]:
  "puts [] = []" "puts (x # xs) = put x @ puts xs" "puts (xs @ ys) = puts xs @ puts ys"
  by (simp_all add: puts_def)

text \<open>At the position an element starts, the reader returns it and its length.\<close>

lemma get_at:
  assumes "i < length xs"
  shows "get (drop (length (puts (take i xs))) (puts xs)) = (xs ! i, int (length (put (xs ! i))))"
    and "length (puts (take i xs)) < length (puts xs)"
    and "length (puts (take (Suc i) xs)) = length (puts (take i xs)) + length (put (xs ! i))"
proof -
  have split: "puts xs = puts (take i xs) @ put (xs ! i) @ puts (drop (Suc i) xs)"
    using assms by (metis id_take_nth_drop puts_simps(2,3))
  then show "get (drop (length (puts (take i xs))) (puts xs)) = (xs ! i, int (length (put (xs ! i))))"
    by (simp add: get_put)
  show "length (puts (take i xs)) < length (puts xs)"
    unfolding split using put_ne [of "xs ! i"] by simp
  show "length (puts (take (Suc i) xs)) = length (puts (take i xs)) + length (put (xs ! i))"
    using assms by (simp add: take_Suc_conv_app_nth)
qed

end

interpretation uvar: stream_codec put_uvarint uvarint
  by unfold_locales (simp_all add: uvarint_put)

lemma length_puts_uvarint: "length (uvar.puts xs) \<le> 10 * length xs"
proof (induction xs)
  case (Cons x xs)
  then show ?case using length_put_uvarint [of x] by simp
qed simp

end
