(* ===== verification/Compress.thy ===== *)
theory Compress
  imports Bytes
begin

text \<open>
  The block compressor of \<^verbatim>\<open>internal/storage/compress.go\<close>: the greedy LZ4 encoder with its
  hash table, and the length-checked decompression around the kernel.

  \<open>lz4_dec\<close> is the LZ4 block format as a decoder: token, literal run, offset and match run.
  \<^verbatim>\<open>simd.LZ4BlockDecode\<close> is a parameter; \<open>lz4_spec\<close> says it decodes that format.
\<close>

section \<open>The block format\<close>

text \<open>A length continued over bytes: each 255 goes on, anything smaller ends it.\<close>

fun read_ext :: "nat \<Rightarrow> bytes \<Rightarrow> (nat \<times> bytes) option" where
  "read_ext acc [] = None"
| "read_ext acc (b # r) = (if b = 255 then read_ext (acc + 255) r else Some (acc + unat b, r))"

fun copy_match :: "bytes \<Rightarrow> nat \<Rightarrow> nat \<Rightarrow> bytes" where
  "copy_match out off 0 = out"
| "copy_match out off (Suc n) = copy_match (out @ [out ! (length out - off)]) off n"

definition read_len :: "nat \<Rightarrow> bytes \<Rightarrow> (nat \<times> bytes) option" where
  "read_len l0 r = (if l0 = 15 then read_ext 15 r else Some (l0, r))"

lemma read_ext_length: "read_ext acc b = Some (n, r) \<Longrightarrow> length r < length b"
proof (induction acc b rule: read_ext.induct)
  case (2 acc x xs)
  show ?case
  proof (cases "x = 255")
    case True
    then show ?thesis using 2 by (simp add: less_SucI)
  next
    case False
    then show ?thesis using 2(2) by simp
  qed
qed simp

lemma read_len_length: "read_len l0 b = Some (n, r) \<Longrightarrow> length r \<le> length b"
  by (auto simp: read_len_def split: if_splits dest: read_ext_length)

function lz4_dec :: "bytes \<Rightarrow> bytes \<Rightarrow> bytes option" where
  "lz4_dec out [] = None"
| "lz4_dec out (tok # r) =
     (case read_len (unat (drop_bit 4 tok)) r of
        None \<Rightarrow> None
      | Some (ll, r1) \<Rightarrow>
          if ll > length r1 then None
          else (let out1 = out @ take ll r1 in
            case drop ll r1 of
              [] \<Rightarrow> Some out1
            | [_] \<Rightarrow> None
            | o0 # o1 # r3 \<Rightarrow>
                (let off = unat o0 + 256 * unat o1 in
                 if off = 0 \<or> off > length out1 then None
                 else case read_len (unat (tok AND 15)) r3 of
                   None \<Rightarrow> None
                 | Some (ml, r4) \<Rightarrow> lz4_dec (copy_match out1 off (ml + 4)) r4)))"
  by pat_completeness auto
termination
proof (relation "measure (\<lambda>(out, b). length b)")
  fix out r ll r1 o0 r2 o1 r3 ml r4 and tok :: byte and x y :: "nat \<times> bytes" and out1 :: bytes and off :: nat
  assume a: "read_len (unat (drop_bit 4 tok)) r = Some x" "(ll, r1) = x" "drop ll r1 = o0 # r2"
    "r2 = o1 # r3" "read_len (unat (tok AND 15)) r3 = Some y" "(ml, r4) = y"
  have "length r4 \<le> length r3" using a(5,6) read_len_length [of _ r3 ml r4] by simp
  also have "length r3 < length (drop ll r1)" using a(3,4) by simp
  also have "\<dots> \<le> length r" using a(1,2) read_len_length [of _ r ll r1] by (metis diff_le_self le_trans length_drop)
  finally show "((copy_match out1 off (ml + 4), r4), out, tok # r) \<in> measure (\<lambda>(out, b). length b)"
    by simp
qed simp

declare lz4_dec.simps(2) [simp del]

section \<open>The compressor\<close>

fun ext_bytes :: "nat \<Rightarrow> bytes" where
  "ext_bytes r = (if r \<ge> 255 then 255 # ext_bytes (r - 255) else [of_nat r])"

declare ext_bytes.simps [simp del]

text \<open>The closure \<^verbatim>\<open>emit\<close>: the bytes of one sequence; \<open>matchLen = 0\<close> for the final literals.\<close>

definition lz4_emit :: "bytes \<Rightarrow> nat \<Rightarrow> nat \<Rightarrow> nat \<Rightarrow> nat \<Rightarrow> bytes" where
  "lz4_emit src lit litEnd matchLen offset = (
     let ll = litEnd - lit;
         mt = (if matchLen > 0 then matchLen - 4 else 0);
         tok0 = (if ll \<ge> 15 then push_bit 4 15 else push_bit 4 (of_nat ll)) :: byte;
         tok = (if matchLen > 0 then tok0 OR (if mt \<ge> 15 then 15 else of_nat mt) else tok0)
     in tok # (if ll \<ge> 15 then ext_bytes (ll - 15) else [])
        @ take ll (drop lit src)
        @ (if matchLen > 0
           then [of_nat offset, of_nat (offset div 256)] @ (if mt \<ge> 15 then ext_bytes (mt - 15) else [])
           else []))"

definition lz4_hash :: "u32 \<Rightarrow> nat" where
  "lz4_hash w = unat (drop_bit 20 (w * 2654435761))"

function match_len :: "bytes \<Rightarrow> nat \<Rightarrow> nat \<Rightarrow> nat \<Rightarrow> nat" where
  "match_len src cand i ml =
     (if i + ml < length src \<and> src ! (cand + ml) = src ! (i + ml) then match_len src cand i (ml + 1) else ml)"
  by pat_completeness auto
termination by (relation "measure (\<lambda>(src, cand, i, ml). length src - (i + ml))") auto

declare match_len.simps [simp del]

lemma match_len_ge: "ml \<le> match_len src cand i ml"
proof (induction src cand i ml rule: match_len.induct)
  case (1 src cand i ml)
  then show ?case by (subst match_len.simps) auto
qed

text \<open>
  The main loop.  The table holds \<^verbatim>\<open>int32(i)\<close>, so a position beyond \<open>2 ^ 31\<close> is stored
  truncated, as in Go.
\<close>

function lz4_loop :: "bytes \<Rightarrow> nat \<Rightarrow> nat \<Rightarrow> int list \<Rightarrow> bytes \<Rightarrow> nat \<times> bytes" where
  "lz4_loop src i lit table out = (if i + 4 \<le> length src then
     (let h = lz4_hash (the (le32 (drop i src)));
          cand = table ! h;
          table' = table[h := sint (of_nat i :: u32)]
      in if cand \<ge> 0 \<and> int i - cand \<le> 65535 \<and> le32 (drop (nat cand) src) = le32 (drop i src)
         then (let ml = match_len src (nat cand) i 4
               in lz4_loop src (i + ml) (i + ml) table' (out @ lz4_emit src lit i ml (i - nat cand)))
         else lz4_loop src (i + 1) lit table' out)
   else (lit, out))"
  by pat_completeness auto

termination
proof (relation "measure (\<lambda>(src, i, lit, table, out). length src - i)")
  fix src i lit table out and h :: nat and cand :: int and table' and ml :: nat
  assume "i + 4 \<le> length src" "ml = match_len src (nat cand) i 4"
  then show "((src, i + ml, i + ml, table', out @ lz4_emit src lit i ml (i - nat cand)), src, i, lit, table, out)
      \<in> measure (\<lambda>(src, i, lit, table, out). length src - i)"
    using match_len_ge [of 4 src "nat cand" i] by simp
qed auto

declare lz4_loop.simps [simp del]

definition lz4Compress :: "bytes \<Rightarrow> bytes" where
  "lz4Compress src = (case lz4_loop src 0 0 (replicate 4096 (-1)) [] of
     (lit, out) \<Rightarrow> out @ lz4_emit src lit (length src) 0 0)"

text \<open>
  \<^verbatim>\<open>lz4DecompressInto\<close>: \<open>lz4k n block\<close> is what \<^verbatim>\<open>LZ4BlockDecode\<close> wrote into a
  destination of \<open>n\<close> bytes; a length other than \<open>n\<close> is a failed decode and yields the nil slice.
\<close>

type_synonym lz4_kernel = "nat \<Rightarrow> bytes \<Rightarrow> bytes"

definition lz4Decompress :: "lz4_kernel \<Rightarrow> bytes \<Rightarrow> nat \<Rightarrow> bytes" where
  "lz4Decompress lz4k block origLen = (if origLen > 255 * length block + 16 then []
     else let dst = lz4k origLen block in if length dst \<noteq> origLen then [] else dst)"

definition lz4_spec :: "lz4_kernel \<Rightarrow> bool" where
  "lz4_spec lz4k \<longleftrightarrow> (\<forall>block out. lz4_dec [] block = Some out \<longrightarrow> lz4k (length out) block = out)"

definition marshalDictBlob :: "bytes list \<Rightarrow> bytes" where
  "marshalDictBlob dict = foldl (\<lambda>b s. appU32 b (of_nat (length s)) @ s) [] dict"

fun unmarshal_loop :: "bytes \<Rightarrow> nat \<Rightarrow> nat \<Rightarrow> bytes list" where
  "unmarshal_loop b 0 p = []"
| "unmarshal_loop b (Suc n) p = (if p + 4 \<le> length b
     then (case getn b p of
         None \<Rightarrow> []
       | Some l \<Rightarrow> if p + 4 + l > length b then [] else take l (drop (p + 4) b) # unmarshal_loop b n (p + 4 + l))
     else [])"

definition unmarshalDictBlob :: "bytes \<Rightarrow> nat \<Rightarrow> bytes list" where
  "unmarshalDictBlob b n = unmarshal_loop b n 0"

section \<open>Compression is inverted by the format\<close>

lemma read_ext_ext: "read_ext acc (ext_bytes r @ t) = Some (acc + r, t)"
proof (induction r arbitrary: acc rule: ext_bytes.induct)
  case (1 r)
  show ?case
  proof (cases "r \<ge> 255")
    case True
    with 1 [of "acc + 255"] show ?thesis by (simp add: ext_bytes.simps [of r])
  next
    case False
    then have u: "unat (of_nat r :: byte) = r" by (simp add: unat_of_nat take_bit_eq_mod)
    moreover from this False have "unat (of_nat r :: byte) \<noteq> unat (255 :: byte)" by simp
    then have "(of_nat r :: byte) \<noteq> 255" by metis
    ultimately show ?thesis using False by (simp add: ext_bytes.simps [of r])
  qed
qed

lemma unat_of_nat_byte: "n < 256 \<Longrightarrow> unat (of_nat n :: byte) = n"
  by (simp add: unat_of_nat take_bit_eq_mod)

lemma byte_nibbles:
  assumes "a < 16" "b < 16"
  shows "unat (drop_bit 4 (push_bit 4 (of_nat a) OR of_nat b :: byte)) = a"
    and "unat ((push_bit 4 (of_nat a) OR of_nat b :: byte) AND 15) = b"
proof -
  have bb: "bit (of_nat b :: byte) n \<Longrightarrow> n < 4" for n
  proof -
    assume "bit (of_nat b :: byte) n"
    moreover have "take_bit 4 (of_nat b :: byte) = of_nat b"
      by (rule unsigned_word_eqI [where 'a = nat])
        (use assms in \<open>simp add: unsigned_take_bit_eq unat_of_nat_byte take_bit_nat_eq_self\<close>)
    ultimately show "n < 4" by (metis bit_take_bit_iff)
  qed
  have ab: "bit (of_nat a :: byte) n \<Longrightarrow> n < 4" for n
  proof -
    assume "bit (of_nat a :: byte) n"
    moreover have "take_bit 4 (of_nat a :: byte) = of_nat a"
      by (rule unsigned_word_eqI [where 'a = nat])
        (use assms in \<open>simp add: unsigned_take_bit_eq unat_of_nat_byte take_bit_nat_eq_self\<close>)
    ultimately show "n < 4" by (metis bit_take_bit_iff)
  qed
  have m: "(15 :: byte) = mask 4" by (simp add: mask_eq_exp_minus_1)
  have "drop_bit 4 (push_bit 4 (of_nat a) OR of_nat b :: byte) = of_nat a"
    by (rule bit_word_eqI) (auto simp: bit_drop_bit_eq bit_or_iff bit_push_bit_iff dest: ab bb)
  then show "unat (drop_bit 4 (push_bit 4 (of_nat a) OR of_nat b :: byte)) = a"
    using assms by (simp add: unat_of_nat_byte)
  have "(push_bit 4 (of_nat a) OR of_nat b :: byte) AND 15 = of_nat b"
    unfolding m by (rule bit_word_eqI) (auto simp: bit_and_iff bit_mask_iff bit_or_iff bit_push_bit_iff dest: bb)
  then show "unat ((push_bit 4 (of_nat a) OR of_nat b :: byte) AND 15) = b"
    using assms by (simp add: unat_of_nat_byte)
qed

lemma read_len_ext:
  "read_len (min l 15) ((if l \<ge> 15 then ext_bytes (l - 15) else []) @ t) = Some (l, t)"
  by (simp add: read_len_def read_ext_ext)

text \<open>A sequence with a match appends its literals and copies from \<open>offset\<close> back.\<close>

lemma lz4_dec_emit:
  assumes "lit \<le> litEnd" "litEnd \<le> length src" "4 \<le> ml" "0 < off" "off < 65536" "off \<le> length h + (litEnd - lit)"
  shows "lz4_dec h (lz4_emit src lit litEnd ml off @ rest)
    = lz4_dec (copy_match (h @ take (litEnd - lit) (drop lit src)) off ml) rest"
proof -
  let ?ll = "litEnd - lit" and ?mt = "ml - 4"
  let ?tok = "push_bit 4 (of_nat (min ?ll 15)) OR of_nat (min ?mt 15) :: byte"
  let ?lits = "take ?ll (drop lit src)"
  have tok: "unat (drop_bit 4 ?tok) = min ?ll 15" "unat (?tok AND 15) = min ?mt 15"
    by (rule byte_nibbles; simp)+
  have e: "lz4_emit src lit litEnd ml off @ rest = ?tok # ((if ?ll \<ge> 15 then ext_bytes (?ll - 15) else [])
      @ (?lits @ of_nat off # of_nat (off div 256) # ((if ?mt \<ge> 15 then ext_bytes (?mt - 15) else []) @ rest)))"
    using assms(3) by (simp add: lz4_emit_def Let_def min_def)
  have len: "length ?lits = ?ll" using assms by simp
  have o: "unat (of_nat off :: byte) + 256 * unat (of_nat (off div 256) :: byte) = off"
    using assms(5) by (simp add: unat_of_nat take_bit_eq_mod)
  with assms(4) have nz: "\<not> (unat (of_nat off :: byte) = 0 \<and> unat (of_nat (off div 256) :: byte) = 0)" by auto
  show ?thesis
    unfolding e lz4_dec.simps(2) tok read_len_ext
    using len assms(3,4,6) nz by (auto simp: o read_len_ext Let_def)
qed

lemma lz4_dec_final:
  assumes "lit \<le> length src"
  shows "lz4_dec h (lz4_emit src lit (length src) 0 0) = Some (h @ drop lit src)"
proof -
  let ?ll = "length src - lit"
  let ?tok = "push_bit 4 (of_nat (min ?ll 15)) OR of_nat 0 :: byte"
  have tok: "unat (drop_bit 4 ?tok) = min ?ll 15" by (rule byte_nibbles) simp_all
  have e: "lz4_emit src lit (length src) 0 0 = ?tok # ((if ?ll \<ge> 15 then ext_bytes (?ll - 15) else []) @ drop lit src)"
    by (simp add: lz4_emit_def Let_def min_def)
  show ?thesis
    unfolding e lz4_dec.simps(2) tok read_len_ext by simp
qed

lemma copy_match_take:
  assumes "cand < i" "i + n \<le> length src" "\<forall>k < n. src ! (cand + k) = src ! (i + k)"
  shows "copy_match (take i src) (i - cand) n = take (i + n) src"
  using assms
proof (induction n arbitrary: i cand)
  case (Suc n)
  have "take i src @ [take i src ! (length (take i src) - (i - cand))] = take (Suc i) src"
    using Suc.prems by (simp add: take_Suc_conv_app_nth) (metis add_0_right zero_less_Suc)
  moreover have "copy_match (take (Suc i) src) (Suc i - Suc cand) n = take (Suc i + n) src"
    using Suc.prems by (intro Suc.IH) auto
  ultimately show ?case by simp
qed simp

lemma match_len_ok:
  assumes "\<forall>k < ml. src ! (cand + k) = src ! (i + k)" "i + ml \<le> length src"
  shows "(\<forall>k < match_len src cand i ml. src ! (cand + k) = src ! (i + k)) \<and> i + match_len src cand i ml \<le> length src"
  using assms
proof (induction src cand i ml rule: match_len.induct)
  case (1 src cand i ml)
  show ?case
  proof (cases "i + ml < length src \<and> src ! (cand + ml) = src ! (i + ml)")
    case True
    have a: "\<forall>k < ml + 1. src ! (cand + k) = src ! (i + k)" using 1(2) True by (simp add: less_Suc_eq)
    have b: "i + (ml + 1) \<le> length src" using True by simp
    from 1(1) [OF True a b] True show ?thesis by (simp add: match_len.simps [of src cand i ml])
  next
    case False
    then have "match_len src cand i ml = ml" by (subst match_len.simps) (simp only: if_False)
    with 1 show ?thesis by simp
  qed
qed

lemma le32_eq_prefix:
  assumes "le32 (drop c src) = le32 (drop i src)" "c < i" "i + 4 \<le> length src" "k < 4"
  shows "src ! (c + k) = src ! (i + k)"
proof -
  obtain w where w: "le32 (drop i src) = Some w" using le32_Some_iff [of "drop i src"] assms(3) by auto
  then have "take 4 (drop c src) = take 4 (drop i src)" using assms(1) putU32_le32 by metis
  then have "take 4 (drop c src) ! k = take 4 (drop i src) ! k" by simp
  with assms(2-4) show ?thesis by simp
qed

lemma sint_of_nat_le: "sint (of_nat n :: u32) \<le> int n"
proof -
  have "- 2147483648 \<le> uint (of_nat n :: u32)" by (rule order_trans [of _ 0]) simp_all
  then have "sint (of_nat n :: u32) \<le> int (unat (of_nat n :: u32))"
    by (simp add: sint_uint signed_take_bit_int_less_eq_self_iff)
  also have "\<dots> \<le> int n" by (simp add: unat_of_nat take_bit_eq_mod)
  finally show ?thesis .
qed

lemma lz4_hash_less: "lz4_hash w < 4096"
proof -
  have "unat (w * 2654435761 :: u32) div 2 ^ 20 < 4096" by (rule less_mult_imp_div_less) simp
  then show ?thesis unfolding lz4_hash_def unat_drop_bit_eq by (simp add: drop_bit_eq_div)
qed

lemma lz4_loop_inv:
  assumes "lit \<le> i" "i \<le> length src" "\<forall>e \<in> set table. e < int i" "length table = 4096"
    and "\<And>rest. lz4_dec [] (out @ rest) = lz4_dec (take lit src) rest"
    and "lz4_loop src i lit table out = (lit', out')"
  shows "lit' \<le> length src \<and> (\<forall>rest. lz4_dec [] (out' @ rest) = lz4_dec (take lit' src) rest)"
  using assms
proof (induction src i lit table out rule: lz4_loop.induct)
  case (1 src i lit table out)
  show ?case
  proof (cases "i + 4 \<le> length src")
    case False
    with 1(7,8) "1.prems" show ?thesis by (simp add: lz4_loop.simps [of src i])
  next
    case i4: True
    define h where "h = lz4_hash (the (le32 (drop i src)))"
    define cand where "cand = table ! h"
    define table' where "table' = table[h := sint (of_nat i :: u32)]"
    have hl: "h < length table" using lz4_hash_less 1(6) by (simp add: h_def)
    have ci: "cand < int i" using 1(5) hl by (simp add: cand_def)
    have tb: "\<forall>e \<in> set table'. e < int (i + n)" if "0 < n" for n
    proof
      fix e assume "e \<in> set table'"
      then have "e \<in> set table \<or> e = sint (of_nat i :: u32)"
        by (auto simp: table'_def dest!: set_update_subset_insert [THEN subsetD])
      then show "e < int (i + n)" using 1(5) that sint_of_nat_le [of i] by fastforce
    qed
    have lt: "length table' = 4096" using 1(6) by (simp add: table'_def)
    let ?m = "cand \<ge> 0 \<and> int i - cand \<le> 65535 \<and> le32 (drop (nat cand) src) = le32 (drop i src)"
    show ?thesis
    proof (cases ?m)
      case m: True
      define ml where "ml = match_len src (nat cand) i 4"
      have c: "nat cand < i" using ci m by linarith
      have "\<forall>k < 4. src ! (nat cand + k) = src ! (i + k)" using le32_eq_prefix m c i4 by blast
      from match_len_ok [OF this i4] have mk: "\<forall>k < ml. src ! (nat cand + k) = src ! (i + k)" "i + ml \<le> length src"
        by (simp_all add: ml_def)
      have ml4: "4 \<le> ml" by (simp add: ml_def match_len_ge)
      have dec: "lz4_dec [] ((out @ lz4_emit src lit i ml (i - nat cand)) @ rest) = lz4_dec (take (i + ml) src) rest" for rest
      proof -
        have t: "take lit src @ take (i - lit) (drop lit src) = take i src"
          using "1.prems"(1,2) by (metis le_add_diff_inverse take_add)
        have "lz4_dec [] ((out @ lz4_emit src lit i ml (i - nat cand)) @ rest)
            = lz4_dec (take lit src) (lz4_emit src lit i ml (i - nat cand) @ rest)"
          using "1.prems"(5) by simp
        also have "\<dots> = lz4_dec (copy_match (take i src) (i - nat cand) ml) rest"
          using "1.prems"(1,2) c m ml4 by (subst lz4_dec_emit) (auto simp: t)
        also have "\<dots> = lz4_dec (take (i + ml) src) rest"
          using copy_match_take [OF c mk(2,1)] by simp
        finally show ?thesis .
      qed
      have st: "lz4_loop src (i + ml) (i + ml) table' (out @ lz4_emit src lit i ml (i - nat cand)) = (lit', out')"
        using "1.prems"(6) i4 m
        by (simp add: lz4_loop.simps [of src i] Let_def h_def [symmetric] cand_def [symmetric] table'_def [symmetric] ml_def [symmetric])
      show ?thesis
        by (rule "1.IH"(1) [OF i4 h_def cand_def table'_def m ml_def _ mk(2) tb [of ml] lt dec st])
          (use ml4 in auto)
    next
      case m: False
      have st: "lz4_loop src (i + 1) lit table' out = (lit', out')"
        using "1.prems"(6) i4 m
        by (simp add: lz4_loop.simps [of src i] Let_def h_def [symmetric] cand_def [symmetric] table'_def [symmetric])
      show ?thesis
        by (rule "1.IH"(2) [OF i4 h_def cand_def table'_def m _ _ tb [of 1] lt "1.prems"(5) st])
          (use "1.prems"(1) i4 in auto)
    qed
  qed
qed

lemma lz4_dec_compress: "lz4_dec [] (lz4Compress src) = Some src"
proof -
  obtain lit out where lp: "lz4_loop src 0 0 (replicate 4096 (-1)) [] = (lit, out)" by (metis prod.exhaust)
  from lz4_loop_inv [OF _ _ _ _ _ lp]
  have "lit \<le> length src" "\<forall>rest. lz4_dec [] (out @ rest) = lz4_dec (take lit src) rest" by simp_all
  then show ?thesis using lz4_dec_final [of lit src] by (simp add: lz4Compress_def lp)
qed

section \<open>The expansion bound\<close>

lemma length_copy_match [simp]: "length (copy_match out off n) = length out + n"
  by (induction n arbitrary: out) simp_all

lemma read_ext_bound: "read_ext acc b = Some (n, r) \<Longrightarrow> n + 255 * length r \<le> acc + 255 * length b"
proof (induction acc b rule: read_ext.induct)
  case (2 acc x xs)
  have "unat x \<le> 255" using unat_byte_lt [of x] by linarith
  with 2 show ?case by (auto split: if_splits)
qed simp

lemma read_len_bound: "read_len l b = Some (n, r) \<Longrightarrow> n + 255 * length r \<le> l + 255 * length b"
  by (auto simp: read_len_def split: if_splits dest: read_ext_bound)

lemma nibble_le: "unat (drop_bit 4 (x :: byte)) \<le> 15" "unat (x AND 15) \<le> 15"
proof -
  have "unat x div 2 ^ 4 < 16" by (rule less_mult_imp_div_less) simp
  then show "unat (drop_bit 4 x) \<le> 15" unfolding unat_drop_bit_eq by (simp add: drop_bit_eq_div)
  have "x AND 15 \<le> 15" by (rule word_and_le1)
  then show "unat (x AND 15) \<le> 15" by (simp add: word_le_nat_alt)
qed

lemma lz4_dec_bound: "lz4_dec h b = Some out \<Longrightarrow> length out \<le> length h + 255 * length b"
proof (induction h b rule: lz4_dec.induct)
  case (2 h tok r)
  obtain ll r1 where l: "read_len (unat (drop_bit 4 tok)) r = Some (ll, r1)"
    using "2.prems" by (auto simp: lz4_dec.simps(2) split: option.splits)
  have ll: "ll \<le> length r1" using "2.prems" l by (auto simp: lz4_dec.simps(2) split: if_splits)
  have b1: "ll + 255 * length r1 \<le> 15 + 255 * length r" using read_len_bound [OF l] nibble_le(1) [of tok] by linarith
  consider (last) "drop ll r1 = []" | (one) o0 where "drop ll r1 = [o0]"
    | (more) o0 o1 r3 where "drop ll r1 = o0 # o1 # r3"
    by (metis neq_Nil_conv)
  then show ?case
  proof cases
    case last
    then have "out = h @ take ll r1" using "2.prems" l ll by (simp add: lz4_dec.simps(2) Let_def)
    then show ?thesis using b1 ll by simp
  next
    case one
    then show ?thesis using "2.prems" l ll by (simp add: lz4_dec.simps(2) Let_def)
  next
    case (more o0 o1 r3)
    let ?out1 = "h @ take ll r1" and ?off = "unat o0 + 256 * unat o1"
    have ok: "\<not> (?off = 0 \<or> ?off > length ?out1)"
      using "2.prems" l ll more by (auto simp: lz4_dec.simps(2) Let_def split: if_splits)
    obtain ml r4 where m: "read_len (unat (tok AND 15)) r3 = Some (ml, r4)"
      using "2.prems" l ll more ok by (auto simp: lz4_dec.simps(2) Let_def split: option.splits if_splits)
    have step: "lz4_dec (copy_match ?out1 ?off (ml + 4)) r4 = Some out"
      using "2.prems" l ll more ok m by (auto simp: lz4_dec.simps(2) Let_def)
    have nll: "\<not> ll > length r1" using ll by simp
    have "length (drop ll r1) = 2 + length r3" using more by simp
    then have len: "length r1 = ll + 2 + length r3" using ll by simp
    have "length out \<le> length (copy_match ?out1 ?off (ml + 4)) + 255 * length r4"
      by (rule "2.IH" [OF l refl nll refl more refl refl ok m refl step])
    also have "\<dots> = length h + ll + ml + 4 + 255 * length r4" using ll by simp
    also have "\<dots> \<le> length h + ll + 4 + 15 + 255 * length r3"
      using read_len_bound [OF m] nibble_le(2) [of tok] by linarith
    also have "\<dots> \<le> length h + 255 * length (tok # r)" using b1 len by simp
    finally show ?thesis .
  qed
qed simp

lemma lz4_roundtrip:
  assumes "lz4_spec lz4k"
  shows "lz4Decompress lz4k (lz4Compress src) (length src) = src"
proof -
  have "length src \<le> 255 * length (lz4Compress src)"
    using lz4_dec_bound [OF lz4_dec_compress [of src]] by simp
  moreover have "lz4k (length src) (lz4Compress src) = src"
    using assms lz4_dec_compress by (auto simp: lz4_spec_def)
  ultimately show ?thesis by (simp add: lz4Decompress_def)
qed

section \<open>Properties\<close>

text \<open>C26: Compression loses nothing: what the greedy encoder writes is a valid LZ4 block of exactly
  the source, it never expands beyond the ratio the reader refuses, and so decompression to the
  recorded length returns the source on every input, whatever its size.\<close>

theorem lz4Compress_correct:
  assumes "lz4_spec lz4k"
  shows "lz4_dec [] (lz4Compress src) = Some src \<and> length src \<le> 255 * length (lz4Compress src)
    \<and> lz4Decompress lz4k (lz4Compress src) (length src) = src"
  using lz4_roundtrip [OF assms] lz4_dec_compress [of src] lz4_dec_bound [OF lz4_dec_compress [of src]] by simp

definition ref_lz4k :: lz4_kernel where
  "ref_lz4k n b = (case lz4_dec [] b of Some out \<Rightarrow> out | None \<Rightarrow> [])"

lemma ref_lz4k_spec: "lz4_spec ref_lz4k"
  by (simp add: lz4_spec_def ref_lz4k_def)

theorem lz4Compress_correct_witness:
  "lz4Decompress ref_lz4k (lz4Compress [97, 98, 97, 98, 97, 98, 97, 98, 97])
     (length [97, 98, 97, 98, 97, 98, 97, 98, 97 :: byte]) = [97, 98, 97, 98, 97, 98, 97, 98, 97]"
  using lz4Compress_correct [OF ref_lz4k_spec, of "[97, 98, 97, 98, 97, 98, 97, 98, 97]"] by blast

end
