(* ===== verification/Postings.thy ===== *)
theory Postings
  imports Bitpack Varint Compress
begin

text \<open>
  The inverted index of a dictionary column (\<^verbatim>\<open>internal/storage/postings.go\<close>): for each
  dictionary id the ascending rows that hold it, stored as a bit-packed count table and
  frame-of-reference blocks of row gaps, and read back one id at a time.  All three on-disk forms
  are modelled on the read side: the current one, the superseded LZ4 one and the v7 one.

  Every field a reader takes from the file is untrusted; a read that Go would refuse is \<open>None\<close>
  here, so that a decoder does not panic is a theorem and not a convention.
\<close>

section \<open>Building and writing\<close>

record postings =
  rowOffsets :: "u32 list"
  dgaps :: "u32 list"

definition count_ids :: "u32 list \<Rightarrow> nat \<Rightarrow> u32 list" where
  "count_ids indices dictLen =
     foldl (\<lambda>c i. c[unat i := c ! unat i + 1]) (replicate dictLen 0) indices"

definition prefix_sums :: "u32 list \<Rightarrow> u32 list" where
  "prefix_sums counts = foldl (\<lambda>r i. r[i + 1 := r ! i + counts ! i])
     (replicate (length counts + 1) 0) [0..<length counts]"

text \<open>The loop over the rows; its locals are the gaps, the last row per id and the next write index per id.\<close>

definition gap_step :: "u32 list \<times> u32 list \<times> u32 list \<Rightarrow> nat \<times> u32 \<Rightarrow> u32 list \<times> u32 list \<times> u32 list" where
  "gap_step st ri = (case (st, ri) of ((dg, lst, pos), (row, i)) \<Rightarrow>
     let i = unat i in
     (dg[unat (pos ! i) := of_nat row - lst ! i], lst[i := of_nat row], pos[i := pos ! i + 1]))"

text \<open>An index outside the dictionary panics in the first loop.\<close>

definition buildPostings :: "u32 list \<Rightarrow> nat \<Rightarrow> postings option" where
  "buildPostings indices dictLen = (if \<exists>i \<in> set indices. dictLen \<le> unat i then None else
     let counts = count_ids indices dictLen;
         offs = prefix_sums counts;
         (dg, _, _) = foldl gap_step (replicate (length indices) 0, replicate dictLen 0, take dictLen offs)
                        (enumerate 0 indices)
     in Some \<lparr>rowOffsets = offs, dgaps = dg\<rparr>)"

definition postBlock :: nat where "postBlock = 64"
definition forBulkThreshold :: nat where "forBulkThreshold = 256"
definition postV8Magic :: u32 where "postV8Magic = 0xFFFFFFFF"
definition postV8ForMagic :: u32 where "postV8ForMagic = 0xFFFFFFFE"
definition maxCountWidth :: nat where "maxCountWidth = 25"
definition maxPostingRun :: nat where "maxPostingRun = 2 ^ 24"

definition max_u32 :: "u32 list \<Rightarrow> u32" where
  "max_u32 xs = foldl (\<lambda>m d. if d > m then d else m) 0 xs"

definition forBlockWidth :: "u32 list \<Rightarrow> nat" where
  "forBlockWidth dg = bitWidth (unat (max_u32 dg) + 1)"

definition pad32 :: "u32 list \<Rightarrow> u32 list" where
  "pad32 dg = (let r = length dg mod 32 in if r \<noteq> 0 then dg @ replicate (32 - r) 0 else dg)"

definition appendForBlock :: "bit_packer \<Rightarrow> bytes \<Rightarrow> u32 list \<Rightarrow> nat \<Rightarrow> bytes" where
  "appendForBlock bitPack dst dg w = (if dg = [] then dst else dst @ encodeIndices bitPack (pad32 dg) w)"

text \<open>The gaps of block \<open>k\<close>: \<^verbatim>\<open>p.dgaps[p.rowOffsets[lo]:p.rowOffsets[hi]]\<close>.\<close>

definition block_gaps :: "postings \<Rightarrow> nat \<Rightarrow> u32 list" where
  "block_gaps p k = (
     let dictLen = length (rowOffsets p) - 1;
         lo = k * postBlock; hi = min (lo + postBlock) dictLen;
         a = unat (rowOffsets p ! lo); b = unat (rowOffsets p ! hi)
     in take (b - a) (drop a (dgaps p)))"

definition for_step :: "bit_packer \<Rightarrow> postings \<Rightarrow> (nat \<times> nat) list \<times> bytes \<Rightarrow> nat \<Rightarrow> (nat \<times> nat) list \<times> bytes" where
  "for_step bitPack p st k = (case st of (idx, packed) \<Rightarrow>
     let dg = block_gaps p k; w = forBlockWidth dg
     in (idx @ [(length packed, w)], appendForBlock bitPack packed dg w))"

definition marshal_counts :: "postings \<Rightarrow> u32 list" where
  "marshal_counts p = map (\<lambda>i. rowOffsets p ! (i + 1) - rowOffsets p ! i) [0..<length (rowOffsets p) - 1]"

definition marshal :: "bit_packer \<Rightarrow> postings \<Rightarrow> bytes \<Rightarrow> bytes" where
  "marshal bitPack p b = (
     let dictLen = length (rowOffsets p) - 1;
         counts = marshal_counts p;
         cw = bitWidth (unat (max_u32 counts) + 1);
         packedCounts = encodeIndices bitPack counts cw;
         numBlocks = (if dictLen > 0 then (dictLen + postBlock - 1) div postBlock else 0);
         (idx, packed) = foldl (for_step bitPack p) ([], []) [0..<numBlocks]
     in b @ putU32 postV8ForMagic @ putU32 (of_nat dictLen) @ putU32 (of_nat cw)
        @ putU32 (of_nat (length packedCounts)) @ packedCounts
        @ putU32 (of_nat numBlocks) @ putU32 (of_nat postBlock)
        @ concat (map (\<lambda>(o', w). putU32 (of_nat o') @ putU32 (of_nat w)) idx)
        @ putU32 (of_nat (length packed)) @ packed)"

section \<open>Reading\<close>

text \<open>\<^verbatim>\<open>postV8Header\<close>: \<open>Some None\<close> is a legacy or refused blob, \<open>None\<close> a panic.\<close>

definition postV8Header :: "bytes \<Rightarrow> (nat \<times> nat \<times> bytes \<times> bytes \<times> bool) option option" where
  "postV8Header blob = (if length blob < 16 then Some None else do {
     w \<leftarrow> get32 blob 0;
     if w \<noteq> postV8Magic \<and> w \<noteq> postV8ForMagic then Some None else do {
       dictLen \<leftarrow> getn blob 4;
       cw \<leftarrow> getn blob 8;
       clen \<leftarrow> getn blob 12;
       if 16 + clen > length blob \<or> cw > maxCountWidth then Some None else do {
         cs \<leftarrow> gslice blob 16 (16 + clen);
         rest \<leftarrow> slice_from blob (16 + clen);
         Some (Some (dictLen, cw, cs, rest, w = postV8ForMagic))
       }
     }
   })"

definition postCount :: "bytes \<Rightarrow> nat \<Rightarrow> nat option" where
  "postCount blob i = do {
     hd' \<leftarrow> postV8Header blob;
     case hd' of
       Some (dictLen, cw, cs, _, _) \<Rightarrow> Some (if i \<ge> dictLen then 0 else extractCountBits cs i cw)
     | None \<Rightarrow>
         if length blob < 4 then Some 0 else do {
           no \<leftarrow> getn blob 0;
           if i + 1 \<ge> no \<or> 4 + (i + 2) * 4 > length blob then Some 0 else do {
             e \<leftarrow> get32 blob (4 + (i + 1) * 4);
             s \<leftarrow> get32 blob (4 + i * 4);
             Some (unat (e - s))
           }
         }
   }"

definition inGroup :: "u32 \<Rightarrow> u32 list \<Rightarrow> nat \<Rightarrow> bool" where
  "inGroup row out maxRow = (if maxRow > 0 \<and> unat row \<ge> maxRow then False
     else out = [] \<or> row > last out)"

text \<open>Summing gaps until one leaves the group: the loop of \<^verbatim>\<open>decodeForRun\<close>.\<close>

fun sum_run :: "nat \<Rightarrow> u32 \<Rightarrow> u32 list \<Rightarrow> u32 list \<Rightarrow> u32 list" where
  "sum_run maxRow acc out [] = out"
| "sum_run maxRow acc out (g # gs) = (let acc' = acc + g in
     if \<not> inGroup acc' out maxRow then out else sum_run maxRow acc' (out @ [acc']) gs)"

definition decodeForRun :: "bit_unpacker \<Rightarrow> bytes \<Rightarrow> nat \<Rightarrow> nat \<Rightarrow> nat \<Rightarrow> nat \<Rightarrow> u32 list option" where
  "decodeForRun bitUnpack blk w lo cnt maxRow = (if w = 0 \<or> w > 32 then Some []
     else if cnt \<ge> forBulkThreshold then
       (let words = words_of blk;
            startBlk = lo div 32; startVal = lo mod 32; nBlk = (startVal + cnt + 31) div 32
        in if startBlk * w > length words \<or> (startBlk + nBlk) * w > length words then Some []
           else do {
             ws \<leftarrow> slice_from words (startBlk * w);
             let scratch = bitUnpack (nBlk * 32) ws w;
             gs \<leftarrow> gslice scratch startVal (startVal + cnt);
             Some (sum_run maxRow 0 [] gs)
           })
     else Some (sum_run maxRow 0 [] (map (\<lambda>i. of_nat (extractCountBits blk i w)) [lo..<lo + cnt])))"

definition decodeForBlock :: "bit_unpacker \<Rightarrow> bytes \<Rightarrow> bytes \<Rightarrow> nat \<Rightarrow> nat \<Rightarrow> nat \<Rightarrow> nat \<Rightarrow> u32 list option" where
  "decodeForBlock bitUnpack blocks countStream cw i count maxRow = (if length blocks < 8 then Some [] else do {
     numBlocks \<leftarrow> getn blocks 0;
     bs \<leftarrow> getn blocks 4;
     if numBlocks = 0 \<or> bs = 0 then Some [] else do {
       let idxBase = 8;
       let packedLenPos = idxBase + numBlocks * 8;
       if packedLenPos + 4 > length blocks then Some [] else do {
         packedLen \<leftarrow> getn blocks packedLenPos;
         if packedLenPos + 4 + packedLen > length blocks then Some [] else do {
           packed \<leftarrow> gslice blocks (packedLenPos + 4) (packedLenPos + 4 + packedLen);
           let k = i div bs;
           if k \<ge> numBlocks then Some [] else do {
             let e = idxBase + k * 8;
             byteOff \<leftarrow> getn blocks e;
             w \<leftarrow> getn blocks (e + 4);
             if w > 32 then Some [] else do {
               end' \<leftarrow> (if k + 1 < numBlocks then getn blocks (idxBase + (k + 1) * 8) else Some packedLen);
               if end' < byteOff \<or> end' > packedLen then Some [] else do {
                 blk \<leftarrow> gslice packed byteOff end';
                 let lo = sum_list (map (\<lambda>x. extractCountBits countStream x cw) [k * bs..<i]);
                 decodeForRun bitUnpack blk w lo count maxRow
               }
             }
           }
         }
       }
     }
   })"

text \<open>The varint loop of \<^verbatim>\<open>decodePostingBlock\<close>; a 64-bit gap is truncated to 32 bits as in Go.\<close>

fun varint_run :: "bytes \<Rightarrow> nat \<Rightarrow> nat \<Rightarrow> nat \<Rightarrow> u32 \<Rightarrow> u32 list \<Rightarrow> nat \<Rightarrow> u32 list" where
  "varint_run data 0 i pos prev out maxRow = out"
| "varint_run data (Suc n) i pos prev out maxRow = (if pos \<ge> length data then out else
     case uvarint (drop pos data) of (d, w) \<Rightarrow>
       if w \<le> 0 then out
       else (let prev' = (if i = 0 then ucast d else prev + ucast d) in
             if \<not> inGroup prev' out maxRow then out
             else varint_run data n (i + 1) (pos + nat w) prev' (out @ [prev']) maxRow))"

text \<open>The end of \<^verbatim>\<open>decodePostingBlock\<close>, after the block is decompressed: value \<open>j\<close> of the ids \<open>lo..<hi\<close>.\<close>

definition rawPostingList :: "bytes \<Rightarrow> nat \<Rightarrow> nat \<Rightarrow> nat \<Rightarrow> nat \<Rightarrow> nat \<Rightarrow> u32 list option" where
  "rawPostingList raw lo hi j count maxRow = (if 4 * (j + 1) + 4 > length raw then Some [] else do {
     off0 \<leftarrow> getn raw (4 * j);
     off1 \<leftarrow> getn raw (4 * (j + 1));
     if off1 < off0 then Some []
     else if hi < lo then Some []
     else (let listBase = 4 * (hi - lo + 1); lo0 = listBase + off0; hi0 = listBase + off1 in
       if hi0 > length raw then Some [] else do {
         data \<leftarrow> gslice raw lo0 hi0;
         Some (varint_run data count 0 0 0 [] maxRow)
       })
   })"

definition decodePostingBlock :: "lz4_kernel \<Rightarrow> bytes \<Rightarrow> nat \<Rightarrow> nat \<Rightarrow> nat \<Rightarrow> nat \<Rightarrow> u32 list option" where
  "decodePostingBlock lz4k blocks i count dictLen maxRow = (if length blocks < 8 then Some [] else do {
     numBlocks \<leftarrow> getn blocks 0;
     bs \<leftarrow> getn blocks 4;
     if numBlocks = 0 \<or> bs = 0 then Some [] else do {
       let compLenPos = 8 + numBlocks * 12;
       if compLenPos + 4 > length blocks then Some [] else do {
         compTotal \<leftarrow> getn blocks compLenPos;
         if compLenPos + 4 + compTotal > length blocks then Some [] else do {
           comp \<leftarrow> gslice blocks (compLenPos + 4) (compLenPos + 4 + compTotal);
           let k = i div bs;
           if k \<ge> numBlocks then Some [] else do {
             let e = 8 + k * 12;
             compOff \<leftarrow> getn blocks e;
             compLen \<leftarrow> getn blocks (e + 4);
             rawLen \<leftarrow> getn blocks (e + 8);
             if compOff + compLen > length comp then Some [] else do {
               cblk \<leftarrow> gslice comp compOff (compOff + compLen);
               let raw = lz4Decompress lz4k cblk rawLen;
               let lo = k * bs;
               rawPostingList raw lo (min (lo + bs) dictLen) (i - lo) count maxRow
             }
           }
         }
       }
     }
   })"

definition postingRows :: "bit_unpacker \<Rightarrow> lz4_kernel \<Rightarrow> bytes \<Rightarrow> nat \<Rightarrow> nat \<Rightarrow> u32 list option" where
  "postingRows bitUnpack lz4k blob i maxRow = do {
     hd' \<leftarrow> postV8Header blob;
     case hd' of
       Some (dictLen, cw, cs, blocks, forData) \<Rightarrow>
         if i \<ge> dictLen then Some [] else
         (let count = extractCountBits cs i cw in
          if count = 0 \<or> count > maxPostingRun \<or> (maxRow > 0 \<and> count > maxRow) then Some []
          else if forData then decodeForBlock bitUnpack blocks cs cw i count maxRow
          else decodePostingBlock lz4k blocks i count dictLen maxRow)
     | None \<Rightarrow>
         if length blob < 4 then Some [] else do {
           no \<leftarrow> getn blob 0;
           if i + 1 \<ge> no \<or> 4 + (i + 2) * 4 > length blob \<or> 4 + no * 4 > length blob then Some [] else do {
             e \<leftarrow> get32 blob (4 + (i + 1) * 4);
             s \<leftarrow> get32 blob (4 + i * 4);
             let count = unat (e - s);
             if count = 0 \<or> count > maxPostingRun \<or> (maxRow > 0 \<and> count > maxRow) then Some [] else do {
               rest \<leftarrow> slice_from blob (4 + no * 4);
               decodePostingBlock lz4k rest i count (no - 1) maxRow
             }
           }
         }
   }"

section \<open>No blob panics, and none yields an illegal row\<close>

definition rdw :: "bytes \<Rightarrow> nat \<Rightarrow> u32" where
  "rdw b i = the (get32 b i)"

definition rd :: "bytes \<Rightarrow> nat \<Rightarrow> nat" where
  "rd b i = unat (rdw b i)"

lemma get32_rd: "i + 4 \<le> length b \<Longrightarrow> get32 b i = Some (rdw b i)"
  using get32_Some_iff [of b i] by (auto simp: rdw_def)

lemma getn_rd: "i + 4 \<le> length b \<Longrightarrow> getn b i = Some (rd b i)"
  by (simp add: getn_def rd_def get32_rd)

definition legal_rows :: "nat \<Rightarrow> u32 list \<Rightarrow> bool" where
  "legal_rows maxRow out \<longleftrightarrow> sorted_wrt (<) out \<and> (maxRow > 0 \<longrightarrow> (\<forall>r \<in> set out. unat r < maxRow))"

lemma legal_rows_snoc:
  assumes "legal_rows maxRow out" "inGroup r out maxRow"
  shows "legal_rows maxRow (out @ [r])"
proof -
  have "\<forall>x \<in> set out. x < r"
  proof
    fix x assume x: "x \<in> set out"
    then have ne: "out \<noteq> []" by auto
    then have "last out < r" using assms(2) by (auto simp: inGroup_def split: if_splits)
    moreover have "x \<le> last out"
    proof -
      have "out = butlast out @ [last out]" using ne by simp
      then have "x \<in> set (butlast out) \<or> x = last out" "\<forall>y \<in> set (butlast out). y < last out"
        using x assms(1) unfolding legal_rows_def by (metis Un_iff empty_iff insert_iff list.set set_append,
            metis list.set_intros(1) sorted_wrt_append)
      then show ?thesis by auto
    qed
    ultimately show "x < r" by simp
  qed
  with assms show ?thesis by (auto simp: legal_rows_def sorted_wrt_append inGroup_def split: if_splits)
qed

lemma legal_sum_run: "legal_rows maxRow out \<Longrightarrow> legal_rows maxRow (sum_run maxRow acc out gs)"
  by (induction maxRow acc out gs rule: sum_run.induct) (auto simp: Let_def legal_rows_snoc)

lemma legal_varint_run: "legal_rows maxRow out \<Longrightarrow> legal_rows maxRow (varint_run data n i pos prev out maxRow)"
  by (induction data n i pos prev out maxRow rule: varint_run.induct)
    (auto simp: Let_def legal_rows_snoc split: prod.split)

lemma legal_Nil [simp]: "legal_rows maxRow []"
  by (simp add: legal_rows_def)

definition safe_rows :: "nat \<Rightarrow> u32 list option \<Rightarrow> bool" where
  "safe_rows maxRow r \<longleftrightarrow> (\<exists>out. r = Some out \<and> legal_rows maxRow out)"

lemma safe_Some [simp]: "safe_rows maxRow (Some out) = legal_rows maxRow out"
  by (simp add: safe_rows_def)

text \<open>The guarded reads, as introduction rules.\<close>

lemma safe_if: "(c \<Longrightarrow> safe_rows n a) \<Longrightarrow> (\<not> c \<Longrightarrow> safe_rows n b) \<Longrightarrow> safe_rows n (if c then a else b)"
  by simp

lemma safe_getn: "i + 4 \<le> length b \<Longrightarrow> safe_rows n (f (rd b i)) \<Longrightarrow> safe_rows n (getn b i \<bind> f)"
  by (simp add: getn_rd)

lemma safe_gslice:
  "i \<le> j \<Longrightarrow> j \<le> length b \<Longrightarrow> safe_rows n (f (take (j - i) (drop i b))) \<Longrightarrow> safe_rows n (gslice b i j \<bind> f)"
  by (simp add: gslice_def)

lemma safe_let: "(\<And>x. x = v \<Longrightarrow> safe_rows n (f x)) \<Longrightarrow> safe_rows n (Let v f)"
  by (simp add: Let_def)

lemmas safe_intros = safe_if safe_getn safe_gslice safe_let

lemma safe_decodeForRun:
  assumes "unpack_spec bitUnpack"
  shows "safe_rows maxRow (decodeForRun bitUnpack blk w lo cnt maxRow)"
proof -
  let ?words = "words_of blk" and ?s = "lo div 32" and ?v = "lo mod 32"
  let ?n = "(?v + cnt + 31) div 32"
  have "safe_rows maxRow (decodeForRun bitUnpack blk w lo cnt maxRow)"
    if g: "cnt \<ge> forBulkThreshold" "0 < w" "w \<le> 32" "?s * w \<le> length ?words" "(?s + ?n) * w \<le> length ?words"
  proof -
    have "?n * 32 * w \<le> 32 * length (drop (?s * w) ?words)"
      using g(5) by (simp add: add_mult_distrib)
    then have "length (bitUnpack (?n * 32) (drop (?s * w) ?words) w) = ?n * 32"
      using assms g(2,3) unfolding unpack_spec_def by simp
    moreover have "?v + cnt \<le> ?n * 32" by linarith
    ultimately show ?thesis
      using g by (simp add: decodeForRun_def Let_def slice_from_def gslice_def legal_sum_run)
  qed
  then show ?thesis
    by (auto simp: decodeForRun_def Let_def legal_sum_run not_le not_less)
qed

lemma safe_decodeForBlock:
  assumes "unpack_spec bitUnpack"
  shows "safe_rows maxRow (decodeForBlock bitUnpack blocks cs cw i count maxRow)"
proof -
  let ?nb = "rd blocks 0" and ?bs = "rd blocks 4"
  let ?p = "8 + ?nb * 8"
  have in_idx: "8 + k * 8 + 8 \<le> length blocks" if "k < ?nb" "?p + 4 \<le> length blocks" for k
  proof -
    have "(k + 1) * 8 \<le> ?nb * 8" using that(1) by (intro mult_le_mono1) simp
    with that(2) show ?thesis by simp
  qed
  show ?thesis
    unfolding decodeForBlock_def Let_def
    by (auto simp: getn_rd slice_simps not_le not_less safe_decodeForRun [OF assms] dest: in_idx
        split: if_splits)
qed

lemma safe_rawPostingList: "safe_rows maxRow (rawPostingList raw lo hi j count maxRow)"
  unfolding rawPostingList_def
  by (intro safe_intros) (simp_all add: legal_varint_run not_less)

lemma safe_decodePostingBlock: "safe_rows maxRow (decodePostingBlock lz4k blocks i count dictLen maxRow)"
proof -
  let ?nb = "rd blocks 0"
  let ?p = "8 + ?nb * 12"
  have in_idx: "8 + k * 12 + 12 \<le> length blocks" if "k < ?nb" "?p + 4 \<le> length blocks" for k
  proof -
    have "(k + 1) * 12 \<le> ?nb * 12" using that(1) by (intro mult_le_mono1) simp
    with that(2) show ?thesis by simp
  qed
  show ?thesis
    unfolding decodePostingBlock_def
    by (intro safe_intros safe_rawPostingList)
      (use in_idx [of "i div rd blocks 4"] in \<open>simp_all add: not_le not_less\<close>)
qed

lemma postV8Header_ok: "\<exists>h. postV8Header blob = Some h"
  by (auto simp: postV8Header_def getn_rd get32_rd slice_simps not_le not_less)

lemma safe_postingRows:
  assumes "unpack_spec bitUnpack"
  shows "safe_rows maxRow (postingRows bitUnpack lz4k blob i maxRow)"
proof -
  obtain h where h: "postV8Header blob = Some h" using postV8Header_ok by blast
  show ?thesis
  proof (cases h)
    case None
    then show ?thesis
      unfolding postingRows_def h
      by (auto simp: getn_rd get32_rd slice_simps not_le not_less Let_def safe_decodePostingBlock)
  next
    case (Some x)
    obtain dictLen cw cs blocks forData where x: "x = (dictLen, cw, cs, blocks, forData)" by (metis prod.exhaust)
    show ?thesis
      unfolding postingRows_def h Some x
      by (simp add: Let_def safe_decodePostingBlock safe_decodeForBlock [OF assms])
  qed
qed

lemma postCount_ok: "\<exists>c. postCount blob i = Some c"
proof -
  obtain h where h: "postV8Header blob = Some h" using postV8Header_ok by blast
  show ?thesis
    unfolding postCount_def h
    by (cases h) (auto simp: getn_rd get32_rd not_le not_less split: prod.split)
qed

section \<open>What building computes\<close>

text \<open>The rows among the first \<open>m\<close> that hold id \<open>i\<close>, and where the run of \<open>i\<close> starts.\<close>

definition rows_of :: "u32 list \<Rightarrow> nat \<Rightarrow> nat \<Rightarrow> nat list" where
  "rows_of idx m i = filter (\<lambda>r. unat (idx ! r) = i) [0..<m]"

definition cnt_of :: "u32 list \<Rightarrow> nat \<Rightarrow> nat" where
  "cnt_of idx i = length (rows_of idx (length idx) i)"

definition run_start :: "u32 list \<Rightarrow> nat \<Rightarrow> nat" where
  "run_start idx i = (\<Sum>j < i. cnt_of idx j)"

lemma rows_of_Suc: "rows_of idx (Suc m) i = rows_of idx m i @ (if unat (idx ! m) = i then [m] else [])"
  by (simp add: rows_of_def)

lemma rows_of_append: "m \<le> length idx \<Longrightarrow> rows_of (idx @ ys) m i = rows_of idx m i"
  by (auto simp: rows_of_def nth_append intro: filter_cong)

lemma rows_of_mono: "m \<le> n \<Longrightarrow> length (rows_of idx m i) \<le> length (rows_of idx n i)"
  by (induction n) (auto simp: rows_of_Suc le_Suc_eq)

lemma cnt_of_append: "cnt_of (idx @ [x]) i = cnt_of idx i + (if unat x = i then 1 else 0)"
  by (simp add: cnt_of_def rows_of_Suc rows_of_append)

lemma run_start_Suc: "run_start idx (Suc i) = run_start idx i + cnt_of idx i"
  by (simp add: run_start_def)

lemma run_start_mono: "i \<le> j \<Longrightarrow> run_start idx i \<le> run_start idx j"
  by (auto simp: run_start_def intro: sum_mono2)

lemma run_start_total:
  assumes "\<forall>x \<in> set idx. unat x < D"
  shows "run_start idx D = length idx"
  using assms
proof (induction idx rule: rev_induct)
  case Nil
  show ?case by (simp add: run_start_def cnt_of_def rows_of_def)
next
  case (snoc x xs)
  then have "(\<Sum>j < D. if unat x = j then 1 else 0) = (1 :: nat)" by simp
  with snoc show ?case by (simp add: run_start_def cnt_of_append sum.distrib)
qed

lemma count_ids_spec:
  assumes "\<forall>x \<in> set idx. unat x < D"
  shows "length (count_ids idx D) = D \<and> (\<forall>i < D. count_ids idx D ! i = of_nat (cnt_of idx i))"
  using assms
proof (induction idx rule: rev_induct)
  case Nil
  show ?case by (simp add: count_ids_def cnt_of_def rows_of_def)
next
  case (snoc x xs)
  then have "count_ids (xs @ [x]) D = (count_ids xs D)[unat x := count_ids xs D ! unat x + 1]"
    by (simp add: count_ids_def)
  with snoc show ?case by (auto simp: nth_list_update cnt_of_append)
qed

lemma prefix_sums_spec:
  assumes "length counts = D" "\<forall>i < D. counts ! i = of_nat (c i)"
  shows "length (prefix_sums counts) = D + 1 \<and> (\<forall>i \<le> D. prefix_sums counts ! i = of_nat (\<Sum>j < i. c j))"
proof -
  let ?f = "\<lambda>m. foldl (\<lambda>r i. r[i + 1 := r ! i + counts ! i]) (replicate (length counts + 1) 0) [0..<m]"
  have "m \<le> D \<Longrightarrow> length (?f m) = D + 1 \<and> (\<forall>i \<le> m. ?f m ! i = of_nat (\<Sum>j < i. c j))" for m
  proof (induction m)
    case 0
    show ?case using assms(1) by (simp add: nth_Cons')
  next
    case (Suc m)
    then show ?case using assms(2) by (auto simp: nth_list_update le_Suc_eq)
  qed
  from this [of D] show ?thesis using assms(1) by (simp add: prefix_sums_def)
qed

text \<open>The gap of the \<open>t\<close>-th row of a run; the first is absolute.\<close>

definition gap_at :: "nat list \<Rightarrow> nat \<Rightarrow> u32" where
  "gap_at rs t = of_nat (rs ! t) - (if t = 0 then 0 else of_nat (rs ! (t - 1)))"

definition gaps :: "nat list \<Rightarrow> u32 list" where
  "gaps rs = map (gap_at rs) [0..<length rs]"

definition gap_inv :: "u32 list \<Rightarrow> nat \<Rightarrow> nat \<Rightarrow> u32 list \<times> u32 list \<times> u32 list \<Rightarrow> bool" where
  "gap_inv idx D m st \<longleftrightarrow> (case st of (dg, lst, pos) \<Rightarrow>
     length dg = length idx \<and> length lst = D \<and> length pos = D
     \<and> (\<forall>i < D. pos ! i = of_nat (run_start idx i + length (rows_of idx m i))
          \<and> lst ! i = (if rows_of idx m i = [] then 0 else of_nat (last (rows_of idx m i)))
          \<and> (\<forall>t < length (rows_of idx m i). dg ! (run_start idx i + t) = gap_at (rows_of idx m i) t)))"

lemma gap_step_inv:
  assumes inv: "gap_inv idx D m st" and m: "m < length idx" and ids: "\<forall>x \<in> set idx. unat x < D"
    and n: "length idx < 2 ^ 32"
  shows "gap_inv idx D (Suc m) (gap_step st (m, idx ! m))"
proof -
  obtain dg lst pos where st: "st = (dg, lst, pos)" by (metis prod.exhaust)
  define i0 where "i0 = unat (idx ! m)"
  have i0: "i0 < D" using ids m by (simp add: i0_def)
  let ?R = "rows_of idx m"
  define q where "q = run_start idx i0 + length (?R i0)"
  note iv = inv [unfolded st gap_inv_def prod.case]
  have "length (?R i0) < length (rows_of idx (Suc m) i0)" by (simp add: rows_of_Suc i0_def)
  also have "\<dots> \<le> cnt_of idx i0" unfolding cnt_of_def using m by (intro rows_of_mono) simp
  finally have qlt: "q < run_start idx (Suc i0)" by (simp add: q_def run_start_Suc)
  also have "\<dots> \<le> length idx" using run_start_mono [of "Suc i0" D idx] run_start_total [OF ids] i0 by simp
  finally have qn: "q < length idx" .
  then have "q < 2 ^ 32" using n by simp
  moreover have "pos ! i0 = of_nat q" using iv i0 unfolding q_def by blast
  ultimately have uq: "unat (pos ! i0) = q" by simp
  have step: "gap_step st (m, idx ! m) = (dg[q := of_nat m - lst ! i0], lst[i0 := of_nat m], pos[i0 := pos ! i0 + 1])"
    by (simp add: gap_step_def st i0_def [symmetric] uq Let_def)
  have sep: "run_start idx i + t \<noteq> q" if "i \<noteq> i0" "t < length (?R i)" for i t
  proof -
    have "t < cnt_of idx i" using that(2) rows_of_mono [of m "length idx" idx i] m by (simp add: cnt_of_def)
    then have "run_start idx i + t < run_start idx (Suc i)" by (simp add: run_start_Suc)
    then show ?thesis
      using that(1) run_start_mono [of "Suc i" i0 idx] run_start_mono [of "Suc i0" i idx] qlt
      by (cases "i < i0") (auto simp: q_def)
  qed
  have R: "rows_of idx (Suc m) i = ?R i @ (if i = i0 then [m] else [])" for i by (auto simp: rows_of_Suc i0_def)
  have other: "pos ! i = of_nat (run_start idx i + length (?R i))"
      "lst ! i = (if ?R i = [] then 0 else of_nat (last (?R i)))"
      "\<And>t. t < length (?R i) \<Longrightarrow> dg ! (run_start idx i + t) = gap_at (?R i) t" if "i < D" for i
    using iv that by auto
  have "dg[q := of_nat m - lst ! i0] ! (run_start idx i0 + t) = gap_at (?R i0 @ [m]) t"
    if "t < Suc (length (?R i0))" for t
  proof (cases "t = length (?R i0)")
    case True
    then show ?thesis
      using qn iv other(2) [OF i0] by (auto simp: q_def gap_at_def nth_append last_conv_nth)
  next
    case False
    with that have t: "t < length (?R i0)" by simp
    with other(3) [OF i0 t] show ?thesis by (simp add: q_def gap_at_def nth_append less_imp_diff_less)
  qed
  moreover have "dg[q := of_nat m - lst ! i0] ! (run_start idx i + t) = gap_at (?R i) t"
    if "i < D" "i \<noteq> i0" "t < length (?R i)" for i t
    using other(3) [OF that(1,3)] sep [OF that(2,3)] by simp
  ultimately show ?thesis
    unfolding step gap_inv_def prod.case R using iv i0 other(1,2)
    by (auto simp: nth_list_update)
qed

lemma gap_loop_inv:
  assumes ids: "\<forall>x \<in> set idx. unat x < D" and n: "length idx < 2 ^ 32" and m: "m \<le> length idx"
    and offs: "length offs = D + 1" "\<forall>i \<le> D. offs ! i = of_nat (run_start idx i)"
  shows "gap_inv idx D m (foldl gap_step (replicate (length idx) 0, replicate D 0, take D offs)
      (enumerate 0 (take m idx)))"
  using m
proof (induction m)
  case 0
  show ?case using offs by (simp add: gap_inv_def rows_of_def)
next
  case (Suc m)
  then have "enumerate 0 (take (Suc m) idx) = enumerate 0 (take m idx) @ [(m, idx ! m)]"
    by (simp add: take_Suc_conv_app_nth enumerate_append_eq)
  with Suc gap_step_inv [OF _ _ ids n, of m] show ?case by simp
qed

lemma buildPostings_spec:
  assumes ids: "\<forall>x \<in> set idx. unat x < D" and n: "length idx < 2 ^ 32"
  obtains p where "buildPostings idx D = Some p" "length (rowOffsets p) = D + 1"
    "\<And>i. i \<le> D \<Longrightarrow> rowOffsets p ! i = of_nat (run_start idx i)" "length (dgaps p) = length idx"
    "\<And>i. i < D \<Longrightarrow> take (cnt_of idx i) (drop (run_start idx i) (dgaps p)) = gaps (rows_of idx (length idx) i)"
proof -
  let ?c = "count_ids idx D"
  have c: "length ?c = D" "\<forall>i < D. ?c ! i = of_nat (cnt_of idx i)" using count_ids_spec [OF ids] by auto
  have offs: "length (prefix_sums ?c) = D + 1" "\<forall>i \<le> D. prefix_sums ?c ! i = of_nat (run_start idx i)"
    using prefix_sums_spec [OF c] by (simp_all add: run_start_def)
  obtain dg lst pos where fl: "foldl gap_step (replicate (length idx) 0, replicate D 0, take D (prefix_sums ?c))
      (enumerate 0 idx) = (dg, lst, pos)" by (metis prod.exhaust)
  have inv: "gap_inv idx D (length idx) (dg, lst, pos)"
    using gap_loop_inv [OF ids n order_refl offs] fl by simp
  have bp: "buildPostings idx D = Some \<lparr>rowOffsets = prefix_sums ?c, dgaps = dg\<rparr>"
    using ids by (auto simp: buildPostings_def fl Let_def not_le)
  have len: "length dg = length idx" using inv by (simp add: gap_inv_def)
  have run: "take (cnt_of idx i) (drop (run_start idx i) dg) = gaps (rows_of idx (length idx) i)" if i: "i < D" for i
  proof (rule nth_equalityI)
    have le: "run_start idx i + cnt_of idx i \<le> length idx"
      using run_start_mono [of "Suc i" D idx] run_start_total [OF ids] i by (simp add: run_start_Suc)
    then show "length (take (cnt_of idx i) (drop (run_start idx i) dg)) = length (gaps (rows_of idx (length idx) i))"
      using len by (simp add: gaps_def cnt_of_def)
    fix t assume "t < length (take (cnt_of idx i) (drop (run_start idx i) dg))"
    then have "t < cnt_of idx i" by simp
    then show "take (cnt_of idx i) (drop (run_start idx i) dg) ! t = gaps (rows_of idx (length idx) i) ! t"
      using inv i len le by (simp add: gap_inv_def gaps_def cnt_of_def)
  qed
  show thesis by (rule that [OF bp]) (use offs len run in simp_all)
qed

section \<open>Summing gaps gives the rows back\<close>

lemma sum_run_gaps:
  assumes asc: "sorted_wrt (<) rs" and lt: "\<forall>r \<in> set rs. r < maxRow" and m: "maxRow < 2 ^ 32" and t: "t \<le> length rs"
  shows "sum_run maxRow (if t = 0 then 0 else of_nat (rs ! (t - 1))) (map of_nat (take t rs)) (drop t (gaps rs))
    = map of_nat rs"
  using t
proof (induction "length rs - t" arbitrary: t)
  case 0
  then show ?case by (simp add: gaps_def)
next
  case (Suc k)
  then have tl: "t < length rs" by simp
  have rt: "rs ! t < maxRow" using lt tl by simp
  have ur: "unat (of_nat r :: u32) = r" if "r < maxRow" for r using that m by simp
  have acc: "(if t = 0 then 0 else of_nat (rs ! (t - 1))) + gap_at rs t = (of_nat (rs ! t) :: u32)"
    by (simp add: gap_at_def)
  have ing: "inGroup (of_nat (rs ! t)) (map of_nat (take t rs)) maxRow"
  proof (cases "t = 0")
    case False
    then have "rs ! (t - 1) < rs ! t" using asc tl by (simp add: sorted_wrt_nth_less)
    moreover have "last (map of_nat (take t rs)) = (of_nat (rs ! (t - 1)) :: u32)"
    proof -
      obtain u where u: "t = Suc u" using False by (cases t) auto
      then have "take t rs \<noteq> []" using tl by auto
      then show ?thesis using u tl last_take_Suc [of u rs] by (simp add: last_map)
    qed
    ultimately show ?thesis using rt ur False tl by (auto simp: inGroup_def word_less_nat_alt)
  qed (use rt ur in \<open>simp add: inGroup_def\<close>)
  have dr: "drop t (gaps rs) = gap_at rs t # drop (Suc t) (gaps rs)"
    using tl by (simp add: gaps_def Cons_nth_drop_Suc [symmetric])
  have tk: "map of_nat (take (Suc t) rs) = map of_nat (take t rs) @ [of_nat (rs ! t) :: u32]"
    using tl by (simp add: take_Suc_conv_app_nth)
  show ?case
    unfolding dr sum_run.simps acc Let_def using ing Suc(1) [of "Suc t"] Suc(2,3) tl tk by simp
qed

lemma rows_of_sorted: "sorted_wrt (<) (rows_of idx m i)" "\<forall>r \<in> set (rows_of idx m i). r < m"
  by (simp_all add: rows_of_def sorted_wrt_filter)

lemma sum_run_rows:
  assumes "length idx < 2 ^ 32"
  shows "sum_run (length idx) 0 [] (gaps (rows_of idx (length idx) i)) = map of_nat (rows_of idx (length idx) i)"
  using sum_run_gaps [OF rows_of_sorted(1) rows_of_sorted(2) assms, where t = 0] by simp

section \<open>Reading one run out of a block\<close>

lemma round_up_32:
  fixes l :: nat
  shows "l mod 32 \<noteq> 0 \<Longrightarrow> l + (32 - l mod 32) = 32 * ((l + 31) div 32)"
    and "l mod 32 = 0 \<Longrightarrow> l = 32 * ((l + 31) div 32)"
proof -
  assume m: "l mod 32 \<noteq> 0"
  define q r where "q = l div 32" and "r = l mod 32"
  have l: "l = 32 * q + r" and r: "r < 32" "0 < r" using m by (simp_all add: q_def r_def)
  have "(l + 31) div 32 = q + 1" unfolding l using r by (intro div_nat_eqI) simp_all
  then show "l + (32 - l mod 32) = 32 * ((l + 31) div 32)" using l r by (simp flip: r_def)
qed (auto elim!: dvdE simp flip: dvd_eq_mod_eq_0)

lemma length_pad32: "length (pad32 dg) = 32 * ((length dg + 31) div 32)"
  using round_up_32 [of "length dg"] by (simp add: pad32_def Let_def)

lemma pad32_prefix: "\<exists>z. pad32 dg = dg @ z \<and> set z \<subseteq> {0}"
  by (auto simp: pad32_def Let_def)

lemma block_span: "lo div 32 + (lo mod 32 + c) div 32 = (lo + c) div (32 :: nat)"
proof -
  have "((lo mod 32 + c) + 32 * (lo div 32)) div 32 = lo div 32 + (lo mod 32 + c) div 32"
    by (rule div_mult_self2) simp
  moreover have "(lo mod 32 + c) + 32 * (lo div 32) = lo + c" by simp
  ultimately show ?thesis by (simp only:)
qed

lemma le_minus_trans: "s + a \<le> b \<Longrightarrow> v \<le> a \<Longrightarrow> v \<le> b - (s :: nat)"
  by simp

lemma le_groups: "x \<le> 32 * ((x + 31) div 32 :: nat)"
  by linarith

lemma decodeForRun_packed:
  assumes pk: "pack_spec bitPack" and up: "unpack_spec bitUnpack"
    and w: "1 \<le> w" "w \<le> 32" and fits: "\<forall>x \<in> set dg. unat x < 2 ^ w"
    and run: "lo + cnt \<le> length dg" and ne: "dg \<noteq> []"
  shows "decodeForRun bitUnpack (encodeIndices bitPack (pad32 dg) w) w lo cnt maxRow
    = Some (sum_run maxRow 0 [] (take cnt (drop lo dg)))"
proof -
  let ?xs = "pad32 dg" and ?B = "(length dg + 31) div 32"
  obtain z where z: "?xs = dg @ z" "set z \<subseteq> {0}" using pad32_prefix by blast
  have fits': "\<forall>x \<in> set ?xs. unat x < 2 ^ w" using fits z by auto
  have ne': "?xs \<noteq> []" using z ne by simp
  define b where "b = encodeIndices bitPack ?xs w"
  have pa: "packed_as b w ?xs" unfolding b_def by (rule encodeIndices_packed [OF pk w fits'])
  have lx: "length ?xs = 32 * ?B" by (rule length_pad32)
  have sub: "take cnt (drop lo ?xs) = take cnt (drop lo dg)" using z run by simp
  show ?thesis
  proof (cases "cnt \<ge> forBulkThreshold")
    case False
    have "map (\<lambda>i. of_nat (extractCountBits b i w)) [lo..<lo + cnt] = take cnt (drop lo ?xs)"
      using run z by (intro nth_equalityI) (simp_all add: extract_packed [OF pa] nth_append)
    with False w show ?thesis unfolding b_def [symmetric] by (simp add: decodeForRun_def sub)
  next
    case True
    define ws where "ws = bitPack ((length ?xs * w + 31) div 32 + 1) ?xs w"
    have bw: "b = concat (map putU32 ws)" using ne' by (simp add: b_def ws_def encodeIndices_def Let_def)
    have "length ws = (length ?xs * w + 31) div 32 + 1"
      using pk w fits' by (simp add: pack_spec_def ws_def Let_def)
    also have "\<dots> = ?B * w + 1" unfolding lx by (simp add: mult.assoc)
    finally have lw: "length ws = ?B * w + 1" .
    let ?s = "lo div 32" and ?v = "lo mod 32"
    let ?n = "(?v + cnt + 31) div 32"
    have "?s + ?n = (lo + cnt + 31) div 32" using block_span [of lo "cnt + 31"] by (simp add: add.assoc)
    also have "\<dots> \<le> ?B" using run by (intro div_le_mono) simp
    finally have sn: "?s + ?n \<le> ?B" .
    have vl: "32 * ?s + ?v = lo" by simp
    have vn: "?v + cnt \<le> 32 * ?n" by (rule le_groups)
    have g: "(?s + ?n) * w \<le> length ws" "?s * w \<le> length ws"
      using mult_le_mono1 [OF sn, of w] lw by (simp_all add: add_mult_distrib)
    have "bitUnpack (?n * 32) (drop (?s * w) ws) w = take (32 * ?n) (drop (32 * ?s) ?xs)"
      by (rule unpack_packed [OF up _ bw pa]) (use sn lx g bw in simp_all)
    moreover have "take cnt (drop ?v (take (32 * ?n) (drop (32 * ?s) ?xs))) = take cnt (drop lo ?xs)"
      using vn vl by (simp add: drop_take min_def add.commute)
    moreover have "32 * (?s + ?n) \<le> 32 * ?B" using sn by (rule mult_le_mono2)
    then have "?v + cnt \<le> 32 * ?B - 32 * ?s"
      by (intro le_minus_trans [OF _ vn]) (simp only: add_mult_distrib2)
    then have "?v + cnt \<le> length (take (32 * ?n) (drop (32 * ?s) ?xs))" using vn lx by simp
    moreover have "words_of b = ws" unfolding bw by simp
    ultimately show ?thesis
      using True w g unfolding b_def [symmetric]
      by (simp add: decodeForRun_def Let_def slice_from_def gslice_def sub)
  qed
qed

section \<open>The blob a writer leaves\<close>

lemma max_u32_ge: "x \<in> set xs \<Longrightarrow> x \<le> max_u32 xs"
proof -
  have "m \<le> foldl (\<lambda>m d. if d > m then d else m) m ys \<and> (\<forall>x \<in> set ys. x \<le> foldl (\<lambda>m d. if d > m then d else m) m ys)"
    for m :: u32 and ys
    by (induction ys arbitrary: m) (auto intro: order_trans [OF less_imp_le] order_trans simp: not_less split: if_splits)
  then show "x \<in> set xs \<Longrightarrow> x \<le> max_u32 xs" by (simp add: max_u32_def)
qed

lemma max_u32_in: "max_u32 xs = 0 \<or> max_u32 xs \<in> set xs"
proof -
  have "foldl (\<lambda>m d. if d > m then d else m) m ys = m \<or> foldl (\<lambda>m d. if d > m then d else m) m ys \<in> set ys"
    for m :: u32 and ys
    by (induction ys arbitrary: m) auto
  then show ?thesis by (simp add: max_u32_def)
qed

lemma width_holds:
  assumes "w = bitWidth (unat (max_u32 xs) + 1)"
  shows "1 \<le> w" "w \<le> 32" "\<forall>x \<in> set xs. unat x < 2 ^ w"
proof -
  have n: "unat (max_u32 xs) + 1 \<le> 2 ^ 32" by (simp add: Suc_le_eq)
  show "1 \<le> w" "w \<le> 32" using bitWidth_bounds [OF n] assms by simp_all
  show "\<forall>x \<in> set xs. unat x < 2 ^ w"
  proof
    fix x assume "x \<in> set xs"
    then have "unat x < unat (max_u32 xs) + 1" using max_u32_ge [of x xs] by (simp add: word_le_nat_alt)
    then show "unat x < 2 ^ w" unfolding assms using n by (rule bitWidth_holds)
  qed
qed

definition blk_bytes :: "bit_packer \<Rightarrow> postings \<Rightarrow> nat \<Rightarrow> bytes" where
  "blk_bytes bitPack p k = appendForBlock bitPack [] (block_gaps p k) (forBlockWidth (block_gaps p k))"

definition blk_off :: "bit_packer \<Rightarrow> postings \<Rightarrow> nat \<Rightarrow> nat" where
  "blk_off bitPack p k = length (concat (map (blk_bytes bitPack p) [0..<k]))"

lemma for_loop:
  "foldl (for_step bitPack p) ([], []) [0..<m] =
     (map (\<lambda>k. (blk_off bitPack p k, forBlockWidth (block_gaps p k))) [0..<m],
      concat (map (blk_bytes bitPack p) [0..<m]))"
proof -
  have "for_step bitPack p (idx, packed) k =
      (idx @ [(length packed, forBlockWidth (block_gaps p k))], packed @ blk_bytes bitPack p k)" for idx packed k
    by (simp add: for_step_def blk_bytes_def appendForBlock_def Let_def)
  then show ?thesis by (induction m) (simp_all add: blk_off_def)
qed

lemma blk_off_Suc: "blk_off bitPack p (Suc k) = blk_off bitPack p k + length (blk_bytes bitPack p k)"
  by (simp add: blk_off_def)

lemma blk_slice:
  assumes "k < m"
  shows "gslice (concat (map (blk_bytes bitPack p) [0..<m])) (blk_off bitPack p k) (blk_off bitPack p (Suc k))
    = Some (blk_bytes bitPack p k)" and "blk_off bitPack p (Suc k) \<le> blk_off bitPack p m"
proof -
  have "[0..<m] = [0..<k] @ k # [Suc k..<m]"
    using assms upt_add_eq_append [of 0 k "m - k"] by (simp add: upt_conv_Cons)
  then have c: "concat (map (blk_bytes bitPack p) [0..<m]) = concat (map (blk_bytes bitPack p) [0..<k])
      @ blk_bytes bitPack p k @ concat (map (blk_bytes bitPack p) [Suc k..<m])" by simp
  show "gslice (concat (map (blk_bytes bitPack p) [0..<m])) (blk_off bitPack p k) (blk_off bitPack p (Suc k))
    = Some (blk_bytes bitPack p k)"
    unfolding c by (rule slice_append_mid) (simp_all add: blk_off_def)
  show "blk_off bitPack p (Suc k) \<le> blk_off bitPack p m"
    unfolding blk_off_Suc unfolding blk_off_def c by simp
qed

text \<open>The block section of the blob.\<close>

definition for_section :: "bit_packer \<Rightarrow> postings \<Rightarrow> nat \<Rightarrow> bytes" where
  "for_section bitPack p nb = putU32 (of_nat nb) @ putU32 (of_nat postBlock)
     @ concat (map (\<lambda>k. putU32 (of_nat (blk_off bitPack p k)) @ putU32 (of_nat (forBlockWidth (block_gaps p k)))) [0..<nb])
     @ putU32 (of_nat (blk_off bitPack p nb)) @ concat (map (blk_bytes bitPack p) [0..<nb])"

lemma forBlockWidth_le: "forBlockWidth dg \<le> 32"
  using width_holds(2) [OF refl, of dg] by (simp add: forBlockWidth_def)

lemma getn_at: "b = p @ putU32 v @ r \<Longrightarrow> i = length p \<Longrightarrow> getn b i = Some (unat v)"
  by (simp add: getn_def get32_at)

lemma for_section_reads:
  assumes "length (for_section bitPack p nb) < 2 ^ 32"
  shows "getn (for_section bitPack p nb) 0 = Some nb"
    and "getn (for_section bitPack p nb) 4 = Some postBlock"
    and "getn (for_section bitPack p nb) (8 + nb * 8) = Some (blk_off bitPack p nb)"
    and "length (for_section bitPack p nb) = 8 + nb * 8 + 4 + blk_off bitPack p nb"
    and "gslice (for_section bitPack p nb) (8 + nb * 8 + 4) (8 + nb * 8 + 4 + blk_off bitPack p nb)
      = Some (concat (map (blk_bytes bitPack p) [0..<nb]))"
    and "\<And>k. k < nb \<Longrightarrow> getn (for_section bitPack p nb) (8 + k * 8) = Some (blk_off bitPack p k)"
    and "\<And>k. k < nb \<Longrightarrow> getn (for_section bitPack p nb) (8 + k * 8 + 4) = Some (forBlockWidth (block_gaps p k))"
proof -
  let ?e = "\<lambda>k. putU32 (of_nat (blk_off bitPack p k)) @ putU32 (of_nat (forBlockWidth (block_gaps p k)))"
  let ?b = "for_section bitPack p nb" and ?c = "concat (map (blk_bytes bitPack p) [0..<nb])"
  have le: "length (concat (map ?e [0..<m])) = m * 8" for m
    by (subst length_concat_uniform [where w = 8]) auto
  show len: "length ?b = 8 + nb * 8 + 4 + blk_off bitPack p nb"
    by (simp add: for_section_def le blk_off_def [symmetric] del: length_concat)
  have nb: "nb < 2 ^ 32" and off: "blk_off bitPack p nb < 2 ^ 32" using assms len by linarith+
  show "getn ?b 0 = Some nb"
    using nb getn_at [of ?b "[]"] by (simp add: for_section_def)
  show "getn ?b 4 = Some postBlock"
    using getn_at [of ?b "putU32 (of_nat nb)" "of_nat postBlock"] by (simp add: for_section_def postBlock_def)
  show "getn ?b (8 + nb * 8) = Some (blk_off bitPack p nb)"
    using off getn_at [of ?b "putU32 (of_nat nb) @ putU32 (of_nat postBlock) @ concat (map ?e [0..<nb])"]
    by (simp add: for_section_def le del: length_concat)
  show "gslice ?b (8 + nb * 8 + 4) (8 + nb * 8 + 4 + blk_off bitPack p nb) = Some ?c"
    by (simp add: gslice_def len) (simp add: for_section_def le blk_off_def [symmetric] del: length_concat)
  fix k assume k: "k < nb"
  have "[0..<nb] = [0..<k] @ k # [Suc k..<nb]"
    using k upt_add_eq_append [of 0 k "nb - k"] by (simp add: upt_conv_Cons)
  then have b: "?b = (putU32 (of_nat nb) @ putU32 (of_nat postBlock) @ concat (map ?e [0..<k])) @ ?e k
      @ concat (map ?e [Suc k..<nb]) @ putU32 (of_nat (blk_off bitPack p nb)) @ ?c"
    by (simp add: for_section_def)
  have "blk_off bitPack p k < 2 ^ 32" using blk_slice(2) [OF k, of bitPack p] off by (simp add: blk_off_Suc)
  then show "getn ?b (8 + k * 8) = Some (blk_off bitPack p k)"
    using getn_at [of ?b "putU32 (of_nat nb) @ putU32 (of_nat postBlock) @ concat (map ?e [0..<k])"] b
    by (simp add: le del: length_concat)
  have "forBlockWidth (block_gaps p k) < 2 ^ 32"
    using forBlockWidth_le [of "block_gaps p k"] by (rule le_less_trans) simp
  then show "getn ?b (8 + k * 8 + 4) = Some (forBlockWidth (block_gaps p k))"
    using getn_at [of ?b "putU32 (of_nat nb) @ putU32 (of_nat postBlock) @ concat (map ?e [0..<k])
        @ putU32 (of_nat (blk_off bitPack p k))"] b
    by (simp add: le del: length_concat)
qed

section \<open>Reading back what was written\<close>

text \<open>The postings of a column, as a reader needs them: \<open>built idx D p\<close> is what building establishes.\<close>

definition built :: "u32 list \<Rightarrow> nat \<Rightarrow> postings \<Rightarrow> bool" where
  "built idx D p \<longleftrightarrow> length (rowOffsets p) = D + 1 \<and> (\<forall>i \<le> D. rowOffsets p ! i = of_nat (run_start idx i))
     \<and> length (dgaps p) = length idx
     \<and> (\<forall>i < D. take (cnt_of idx i) (drop (run_start idx i) (dgaps p)) = gaps (rows_of idx (length idx) i))
     \<and> (\<forall>i \<le> D. run_start idx i \<le> length idx) \<and> length idx \<le> maxPostingRun"

lemma built_build:
  assumes "\<forall>x \<in> set idx. unat x < D" "length idx \<le> maxPostingRun"
  obtains p where "buildPostings idx D = Some p" "built idx D p"
proof -
  have n: "length idx < 2 ^ 32" using assms(2) by (simp add: maxPostingRun_def)
  have le: "\<forall>i \<le> D. run_start idx i \<le> length idx"
    using run_start_mono [of _ D idx] run_start_total [OF assms(1)] by auto
  show thesis
    by (rule buildPostings_spec [OF assms(1) n]) (use assms(2) le that in \<open>auto simp: built_def\<close>)
qed

definition num_blocks :: "nat \<Rightarrow> nat" where
  "num_blocks D = (if D > 0 then (D + postBlock - 1) div postBlock else 0)"

lemma num_blocks_iff: "k < num_blocks D \<longleftrightarrow> k * postBlock < D"
proof -
  have "k < (D + postBlock - 1) div postBlock \<longleftrightarrow> (k + 1) * postBlock \<le> D + postBlock - 1"
    by (simp add: less_eq_div_iff_mult_less_eq postBlock_def flip: Suc_le_eq)
  also have "\<dots> \<longleftrightarrow> k * postBlock < D" by (auto simp: postBlock_def)
  finally show ?thesis by (auto simp: num_blocks_def)
qed

lemma unat_small: "n \<le> maxPostingRun \<Longrightarrow> unat (of_nat n :: u32) = n"
  by (simp add: maxPostingRun_def)

lemma built_counts:
  assumes b: "built idx D p"
  shows "length (marshal_counts p) = D" and "\<And>i. i < D \<Longrightarrow> marshal_counts p ! i = of_nat (cnt_of idx i)"
    and "cnt_of idx i \<le> length idx"
    and "bitWidth (unat (max_u32 (marshal_counts p)) + 1) \<le> maxCountWidth"
proof -
  show len: "length (marshal_counts p) = D" using b by (simp add: marshal_counts_def built_def)
  show c: "marshal_counts p ! i = of_nat (cnt_of idx i)" if "i < D" for i
    using b that by (simp add: marshal_counts_def built_def run_start_Suc)
  have "cnt_of idx i \<le> length [0..<length idx]" for i
    unfolding cnt_of_def rows_of_def by (rule length_filter_le)
  then show le: "cnt_of idx i \<le> length idx" for i by simp
  have "unat (max_u32 (marshal_counts p)) \<le> maxPostingRun"
  proof (cases "max_u32 (marshal_counts p) = 0")
    case False
    then have "max_u32 (marshal_counts p) \<in> set (marshal_counts p)" using max_u32_in by blast
    then obtain i where "i < D" "max_u32 (marshal_counts p) = of_nat (cnt_of idx i)"
      using len c by (metis in_set_conv_nth)
    moreover have "cnt_of idx i \<le> maxPostingRun" using le [of i] b by (simp add: built_def)
    ultimately show ?thesis by (simp add: unat_small)
  qed simp
  then show "bitWidth (unat (max_u32 (marshal_counts p)) + 1) \<le> maxCountWidth"
    by (intro bitWidth_le) (simp_all add: maxPostingRun_def maxCountWidth_def)
qed

lemma block_gaps_run:
  assumes b: "built idx D p" and i: "i < D" and k: "k = i div postBlock"
  shows "take (cnt_of idx i) (drop (run_start idx i - run_start idx (k * postBlock)) (block_gaps p k))
      = gaps (rows_of idx (length idx) i)"
    and "run_start idx i - run_start idx (k * postBlock) + cnt_of idx i \<le> length (block_gaps p k)"
proof -
  let ?lo = "k * postBlock"
  let ?hi = "min (?lo + postBlock) D"
  have lo: "?lo \<le> i" "i < ?hi" using i by (simp_all add: k postBlock_def dividend_less_div_times)
  then have hi: "Suc i \<le> ?hi" "?hi \<le> D" by simp_all
  have rs: "unat (rowOffsets p ! j) = run_start idx j" if "j \<le> D" for j
    using b that by (simp add: built_def) (metis built_def le_trans unat_small b)
  have "length (rowOffsets p) - 1 = D" using b by (simp add: built_def)
  then have bg: "block_gaps p k = take (run_start idx ?hi - run_start idx ?lo) (drop (run_start idx ?lo) (dgaps p))"
    using rs [of ?hi] rs [of ?lo] lo i by (simp add: block_gaps_def Let_def)
  have m: "run_start idx ?lo \<le> run_start idx i" "run_start idx (Suc i) \<le> run_start idx ?hi"
    using run_start_mono [OF lo(1)] run_start_mono [OF hi(1)] by simp_all
  have le: "run_start idx ?hi \<le> length (dgaps p)" using b hi(2) by (simp add: built_def)
  show "run_start idx i - run_start idx ?lo + cnt_of idx i \<le> length (block_gaps p k)"
    unfolding bg using m le by (simp add: run_start_Suc)
  have "take (cnt_of idx i) (drop (run_start idx i - run_start idx ?lo) (block_gaps p k))
      = take (cnt_of idx i) (drop (run_start idx i) (dgaps p))"
    unfolding bg using m by (simp add: drop_take run_start_Suc min_def)
  then show "take (cnt_of idx i) (drop (run_start idx i - run_start idx ?lo) (block_gaps p k))
      = gaps (rows_of idx (length idx) i)" using b i by (simp add: built_def)
qed

lemma sum_run_start: "a \<le> i \<Longrightarrow> sum_list (map (cnt_of idx) [a..<i]) = run_start idx i - run_start idx a"
proof (induction i)
  case (Suc i)
  show ?case
  proof (cases "a = Suc i")
    case False
    with Suc have a: "a \<le> i" by simp
    then show ?thesis using Suc run_start_mono [OF a, of idx] by (simp add: run_start_Suc)
  qed simp
qed simp

lemma decodeForBlock_built:
  assumes pk: "pack_spec bitPack" and up: "unpack_spec bitUnpack" and b: "built idx D p" and i: "i < D"
    and cnt: "0 < cnt_of idx i" and fit: "length (for_section bitPack p (num_blocks D)) < 2 ^ 32"
    and cs: "packed_as cs cw (marshal_counts p)"
  shows "decodeForBlock bitUnpack (for_section bitPack p (num_blocks D)) cs cw i (cnt_of idx i) (length idx)
    = Some (map of_nat (rows_of idx (length idx) i))"
proof -
  let ?nb = "num_blocks D" and ?S = "for_section bitPack p (num_blocks D)"
  define k where "k = i div postBlock"
  have klo: "k * postBlock \<le> i" by (simp add: k_def)
  have k: "k < ?nb" unfolding num_blocks_iff using klo i by simp
  note rd = for_section_reads [OF fit]
  let ?dg = "block_gaps p k"
  let ?w = "forBlockWidth ?dg" and ?lo = "run_start idx i - run_start idx (k * postBlock)"
  have w: "1 \<le> ?w" "?w \<le> 32" "\<forall>x \<in> set ?dg. unat x < 2 ^ ?w"
    using width_holds [OF forBlockWidth_def [of ?dg]] by simp_all
  note run = block_gaps_run [OF b i k_def]
  have ne: "?dg \<noteq> []" using run(2) cnt by auto
  have ex: "sum_list (map (\<lambda>x. extractCountBits cs x cw) [k * postBlock..<i]) = ?lo"
  proof -
    have "extractCountBits cs x cw = cnt_of idx x" if "x < D" for x
      using extract_packed [OF cs, of x] built_counts [OF b] that b
      by (simp add: built_def) (metis le_trans unat_small)
    then have "map (\<lambda>x. extractCountBits cs x cw) [k * postBlock..<i] = map (cnt_of idx) [k * postBlock..<i]"
      using i by simp
    then show ?thesis by (simp only: sum_run_start [OF klo])
  qed
  have "decodeForRun bitUnpack (blk_bytes bitPack p k) ?w ?lo (cnt_of idx i) (length idx)
      = Some (sum_run (length idx) 0 [] (take (cnt_of idx i) (drop ?lo ?dg)))"
    using decodeForRun_packed [OF pk up w run(2) ne, of "length idx"] ne
    by (simp add: blk_bytes_def appendForBlock_def)
  also have "\<dots> = Some (map of_nat (rows_of idx (length idx) i))"
    unfolding run(1) using b by (simp add: sum_run_rows built_def maxPostingRun_def)
  finally have final: "decodeForRun bitUnpack (blk_bytes bitPack p k) ?w ?lo (cnt_of idx i) (length idx)
      = Some (map of_nat (rows_of idx (length idx) i))" .
  have le: "blk_off bitPack p k \<le> blk_off bitPack p (Suc k)" "blk_off bitPack p (Suc k) \<le> blk_off bitPack p ?nb"
    using blk_slice(2) [OF k] by (simp_all add: blk_off_Suc)
  have pb: "postBlock \<noteq> 0" by (simp add: postBlock_def)
  have last: "k + 1 = ?nb" if "\<not> k + 1 < ?nb" using that k by simp
  show ?thesis
  proof (cases "k + 1 < ?nb")
    case True
    then show ?thesis
      unfolding decodeForBlock_def Let_def
      using k rd w(2) le pb rd(6) [OF True] by (simp add: k_def [symmetric] blk_slice(1) [OF k] ex final)
  next
    case False
    then show ?thesis
      unfolding decodeForBlock_def Let_def
      using k rd w(2) le pb last [OF False, symmetric] blk_slice(1) [OF k, of bitPack p]
      by (simp add: k_def [symmetric] ex final)
  qed
qed

lemma marshal_shape:
  assumes b: "built idx D p" and cw: "cw = bitWidth (unat (max_u32 (marshal_counts p)) + 1)"
  shows "marshal bitPack p [] = putU32 postV8ForMagic @ putU32 (of_nat D) @ putU32 (of_nat cw)
    @ putU32 (of_nat (length (encodeIndices bitPack (marshal_counts p) cw)))
    @ encodeIndices bitPack (marshal_counts p) cw @ for_section bitPack p (num_blocks D)"
proof -
  have "length (rowOffsets p) - 1 = D" using b by (simp add: built_def)
  then show ?thesis
    by (simp add: marshal_def Let_def for_loop cw num_blocks_def for_section_def blk_off_def comp_def)
qed

lemma header_marshal:
  assumes b: "built idx D p" and cw: "cw = bitWidth (unat (max_u32 (marshal_counts p)) + 1)"
    and fit: "length (marshal bitPack p []) < 2 ^ 32" and D: "D < 2 ^ 32"
  shows "postV8Header (marshal bitPack p []) = Some (Some (D, cw, encodeIndices bitPack (marshal_counts p) cw,
      for_section bitPack p (num_blocks D), True))"
proof -
  let ?pc = "encodeIndices bitPack (marshal_counts p) cw" and ?S = "for_section bitPack p (num_blocks D)"
  let ?m = "marshal bitPack p []"
  note sh = marshal_shape [OF b cw, of bitPack]
  have len: "length ?m = 16 + length ?pc + length ?S" unfolding sh by simp
  have cwle: "cw \<le> maxCountWidth" unfolding cw by (rule built_counts(4) [OF b])
  have u: "unat (of_nat cw :: u32) = cw" "unat (of_nat (length ?pc) :: u32) = length ?pc"
    using cwle fit len by (simp_all add: maxCountWidth_def)
  have "get32 ?m 0 = Some postV8ForMagic" unfolding sh using get32_at [of 0 "[]"] by simp
  moreover have "getn ?m 4 = Some D"
    using D getn_at [of ?m "putU32 postV8ForMagic" "of_nat D"] sh by simp
  moreover have "getn ?m 8 = Some cw"
    using u getn_at [of ?m "putU32 postV8ForMagic @ putU32 (of_nat D)" "of_nat cw"] sh by simp
  moreover have "getn ?m 12 = Some (length ?pc)"
    using u getn_at [of ?m "putU32 postV8ForMagic @ putU32 (of_nat D) @ putU32 (of_nat cw)" "of_nat (length ?pc)"] sh by simp
  moreover have "gslice ?m 16 (16 + length ?pc) = Some ?pc" "slice_from ?m (16 + length ?pc) = Some ?S"
    unfolding sh by (simp_all add: gslice_def slice_from_def)
  ultimately show ?thesis
    using len cwle by (simp add: postV8Header_def postV8ForMagic_def)
qed

lemma postings_built:
  assumes pk: "pack_spec bitPack" and up: "unpack_spec bitUnpack" and b: "built idx D p"
    and D: "D < 2 ^ 32" and i: "i < D" and fit: "length (marshal bitPack p []) < 2 ^ 32"
  shows "postCount (marshal bitPack p []) i = Some (cnt_of idx i)"
    and "postingRows bitUnpack lz4k (marshal bitPack p []) i (length idx) = Some (map of_nat (rows_of idx (length idx) i))"
proof -
  define cw where "cw = bitWidth (unat (max_u32 (marshal_counts p)) + 1)"
  let ?pc = "encodeIndices bitPack (marshal_counts p) cw" and ?S = "for_section bitPack p (num_blocks D)"
  note hd = header_marshal [OF b cw_def fit D]
  note wd = width_holds [OF cw_def]
  have cs: "packed_as ?pc cw (marshal_counts p)" by (rule encodeIndices_packed [OF pk wd])
  have cmax: "cnt_of idx i \<le> maxPostingRun" "cnt_of idx i \<le> length idx"
    using built_counts(3) [OF b, of i] b by (simp_all add: built_def)
  have ex: "extractCountBits ?pc i cw = cnt_of idx i"
    using extract_packed [OF cs, of i] built_counts(1,2) [OF b] i unat_small [OF cmax(1)] by simp
  show "postCount (marshal bitPack p []) i = Some (cnt_of idx i)"
    unfolding postCount_def hd using i by (simp add: ex)
  have fitS: "length ?S < 2 ^ 32" using fit marshal_shape [OF b cw_def, of bitPack] by simp
  show "postingRows bitUnpack lz4k (marshal bitPack p []) i (length idx) = Some (map of_nat (rows_of idx (length idx) i))"
  proof (cases "cnt_of idx i = 0")
    case True
    then show ?thesis unfolding postingRows_def hd using i by (simp add: ex Let_def cnt_of_def)
  next
    case False
    with decodeForBlock_built [OF pk up b i _ fitS cs] show ?thesis
      unfolding postingRows_def hd using i cmax by (simp add: ex Let_def)
  qed
qed

section \<open>The blob is small\<close>

lemma length_encode_le:
  assumes "pack_spec bitPack" "1 \<le> w" "w \<le> 32" "\<forall>x \<in> set xs. unat x < 2 ^ w"
  shows "length (encodeIndices bitPack xs w) \<le> 4 * (length xs + 2)"
proof (cases "xs = []")
  case False
  have "length xs * w + 31 \<le> length xs * 32 + 31" using assms(3) by (intro add_le_mono mult_le_mono) simp_all
  then have "(length xs * w + 31) div 32 \<le> (length xs * 32 + 31) div 32" by (rule div_le_mono)
  also have "\<dots> = length xs" by simp
  finally show ?thesis using length_encodeIndices [OF assms False] by simp
qed (simp add: encodeIndices_def)

lemma length_blk_bytes:
  assumes "pack_spec bitPack"
  shows "length (blk_bytes bitPack p k) \<le> 4 * (length (block_gaps p k) + 33)"
proof -
  let ?dg = "block_gaps p k"
  obtain z where z: "pad32 ?dg = ?dg @ z" "set z \<subseteq> {0}" using pad32_prefix by blast
  note wd = width_holds [OF forBlockWidth_def [of ?dg]]
  have "\<forall>x \<in> set (pad32 ?dg). unat x < 2 ^ forBlockWidth ?dg" using wd(3) z by auto
  from length_encode_le [OF assms wd(1,2) this] have "length (encodeIndices bitPack (pad32 ?dg) (forBlockWidth ?dg)) \<le> 4 * (length (pad32 ?dg) + 2)" .
  moreover have "length (pad32 ?dg) \<le> length ?dg + 31" unfolding length_pad32 by simp
  ultimately show ?thesis by (simp add: blk_bytes_def appendForBlock_def)
qed

lemma length_block_gaps:
  assumes b: "built idx D p" and k: "k * postBlock < D"
  shows "length (block_gaps p k) = run_start idx (min ((k + 1) * postBlock) D) - run_start idx (k * postBlock)"
proof -
  have rs: "unat (rowOffsets p ! j) = run_start idx j" if "j \<le> D" for j
    using b that by (simp add: built_def) (metis built_def le_trans unat_small b)
  have "length (rowOffsets p) - 1 = D" using b by (simp add: built_def)
  moreover have "run_start idx (min (k * postBlock + postBlock) D) \<le> length (dgaps p)" using b by (simp add: built_def)
  ultimately show ?thesis
    using rs [of "min (k * postBlock + postBlock) D"] rs [of "k * postBlock"] k
    by (simp add: block_gaps_def Let_def add.commute)
qed

lemma blk_off_le:
  assumes pk: "pack_spec bitPack" and b: "built idx D p"
  shows "m \<le> num_blocks D \<Longrightarrow> blk_off bitPack p m \<le> 4 * run_start idx (min (m * postBlock) D) + 132 * m"
proof (induction m)
  case 0
  show ?case by (simp add: blk_off_def)
next
  case (Suc m)
  then have k: "m * postBlock < D" using num_blocks_iff [of m D] by simp
  have "run_start idx (m * postBlock) \<le> run_start idx (min ((m + 1) * postBlock) D)"
    using k by (intro run_start_mono) simp
  then show ?case
    using Suc length_blk_bytes [OF pk, of p m] length_block_gaps [OF b k] k by (simp add: blk_off_Suc)
qed

lemma marshal_bound:
  assumes pk: "pack_spec bitPack" and b: "built idx D p"
  shows "length (marshal bitPack p []) \<le> 4 * length idx + 144 * D + 40"
proof -
  define cw where "cw = bitWidth (unat (max_u32 (marshal_counts p)) + 1)"
  let ?nb = "num_blocks D"
  have "length (encodeIndices bitPack (marshal_counts p) cw) \<le> 4 * (D + 2)"
    using length_encode_le [OF pk width_holds [OF cw_def]] built_counts(1) [OF b] by simp
  moreover have "?nb \<le> D"
    using num_blocks_iff [of D D] by (simp add: postBlock_def not_less)
  moreover have "blk_off bitPack p ?nb \<le> 4 * length idx + 132 * ?nb"
    using blk_off_le [OF pk b order_refl] b by (simp add: built_def) (meson le_trans add_le_mono mult_le_mono order_refl min.cobounded2)
  moreover have "length (for_section bitPack p ?nb) = 8 + ?nb * 8 + 4 + blk_off bitPack p ?nb"
  proof -
    have "length (concat (map (\<lambda>k. putU32 (of_nat (blk_off bitPack p k)) @ putU32 (of_nat (forBlockWidth (block_gaps p k)))) [0..<?nb])) = ?nb * 8"
      by (subst length_concat_uniform [where w = 8]) auto
    then show ?thesis by (simp add: for_section_def blk_off_def [symmetric] del: length_concat)
  qed
  ultimately show ?thesis unfolding marshal_shape [OF b cw_def] by simp
qed

lemma marshal_small:
  assumes "pack_spec bitPack" and b: "built idx D p" and "D \<le> maxPostingRun"
  shows "length (marshal bitPack p []) < 2 ^ 32"
  using marshal_bound [OF assms(1,2)] assms(3) b by (simp add: built_def maxPostingRun_def)

section \<open>Properties\<close>

text \<open>C25: The inverted index is exact: for every dictionary id the postings written for a column
  read back, through the short scalar read and the bulk kernel read alike, as precisely the
  ascending rows that hold the id, and the count table as their number.\<close>

theorem postings_exact:
  assumes "pack_spec bitPack" and "unpack_spec bitUnpack"
    and "\<forall>x \<in> set idx. unat x < D" and "length idx \<le> maxPostingRun" and "D \<le> maxPostingRun"
    and "buildPostings idx D = Some p" and "i < D"
  shows "postCount (marshal bitPack p []) i = Some (length (filter (\<lambda>r. unat (idx ! r) = i) [0..<length idx]))
    \<and> postingRows bitUnpack lz4k (marshal bitPack p []) i (length idx)
      = Some (map of_nat (filter (\<lambda>r. unat (idx ! r) = i) [0..<length idx]))"
proof -
  obtain p' where "buildPostings idx D = Some p'" "built idx D p'" using built_build [OF assms(3,4)] .
  then have b: "built idx D p" using assms(6) by simp
  have D: "D < 2 ^ 32" using assms(5) by (simp add: maxPostingRun_def)
  from postings_built [OF assms(1,2) b D assms(7) marshal_small [OF assms(1) b assms(5)]] show ?thesis
    by (simp add: cnt_of_def rows_of_def)
qed

theorem postings_exact_witness:
  "\<exists>p. buildPostings [1, 0, 1, 1] 2 = Some p
    \<and> postingRows scalar_unpack ref_lz4k (marshal scalar_pack p []) 1 4 = Some [0, 2, 3]"
proof -
  let ?idx = "[1, 0, 1, 1] :: u32 list"
  let ?p = "\<lparr>rowOffsets = [0, 1, 4], dgaps = [1, 0, 2, 1]\<rparr>"
  have bp: "buildPostings ?idx 2 = Some ?p" by code_simp
  have f: "filter (\<lambda>r. unat (?idx ! r) = 1) [0..<length ?idx] = [0, 2, 3]" by (simp add: upt_rec)
  have l: "length ?idx = 4" by simp
  have "postingRows scalar_unpack ref_lz4k (marshal scalar_pack ?p []) 1 (length ?idx)
      = Some (map of_nat (filter (\<lambda>r. unat (?idx ! r) = 1) [0..<length ?idx]))"
    using postings_exact [OF scalar_pack_spec scalar_unpack_spec _ _ _ bp, of 1]
    by (simp add: maxPostingRun_def del: upt_rec_numeral)
  then have "postingRows scalar_unpack ref_lz4k (marshal scalar_pack ?p []) 1 4 = Some [0, 2, 3]"
    unfolding f unfolding l by simp
  with bp show ?thesis by blast
qed

text \<open>A damaged or hostile postings blob, in any of the three formats, never panics the reader,
  and whatever rows it yields are strictly ascending rows of the group.\<close>

theorem postingRows_total:
  assumes "unpack_spec bitUnpack"
  shows "(\<exists>rows. postingRows bitUnpack lz4k blob i maxRow = Some rows \<and> sorted_wrt (<) rows
      \<and> (0 < maxRow \<longrightarrow> (\<forall>r \<in> set rows. unat r < maxRow)))
    \<and> (\<exists>c. postCount blob i = Some c)"
  using safe_postingRows [OF assms, of maxRow lz4k blob i] postCount_ok [of blob i]
  by (simp add: safe_rows_def legal_rows_def)

theorem postingRows_total_witness:
  "\<exists>rows. postingRows scalar_unpack ref_lz4k [255, 255, 255, 255, 0, 0, 0, 255] 3 10 = Some rows
     \<and> sorted_wrt (<) rows"
  using postingRows_total [OF scalar_unpack_spec] by blast

end
