(* ===== verification/Dict.thy ===== *)
theory Dict
  imports Compress "HOL-Library.List_Lexorder"
begin

text \<open>
  The random-access dictionary section of \<^verbatim>\<open>internal/storage/dict.go\<close>: the sorted values in
  compressed blocks of \<^verbatim>\<open>dictBlock\<close>, an uncompressed table of every block's first value, and
  the lookups that decompress at most one block.

  The vector kernels and the DEFLATE codec are the fields of \<open>dict_kernels\<close>, an argument of the
  operations; \<open>kernels_ok\<close> states what the code relies on.  A bounds violation Go would panic on
  is \<open>None\<close>.
\<close>

definition dictBlock :: nat where "dictBlock = 64"

section \<open>One block\<close>

text \<open>The running offset is a \<^verbatim>\<open>uint32\<close>.\<close>

fun raw_offsets :: "u32 \<Rightarrow> bytes list \<Rightarrow> bytes" where
  "raw_offsets off [] = putU32 off"
| "raw_offsets off (s # ss) = putU32 off @ raw_offsets (off + of_nat (length s)) ss"

definition marshalRawBlock :: "bytes list \<Rightarrow> bytes" where
  "marshalRawBlock vals = raw_offsets 0 vals @ concat vals"

definition dictCodecFlate :: u32 where "dictCodecFlate = push_bit 31 1"
definition dictCodecHex :: u32 where "dictCodecHex = push_bit 30 1"

definition isLowerHexByte :: "byte \<Rightarrow> bool" where
  "isLowerHexByte c \<longleftrightarrow> c \<ge> 48 \<and> c \<le> 57 \<or> c \<ge> 97 \<and> c \<le> 102"

definition allLowerHex :: "bytes list \<Rightarrow> bool" where
  "allLowerHex vals \<longleftrightarrow> (\<forall>s \<in> set vals. s \<noteq> [] \<and> (\<forall>c \<in> set s. isLowerHexByte c))
     \<and> sum_list (map length vals) > 0"

definition hexNibble :: "byte \<Rightarrow> byte" where
  "hexNibble c = (if c \<le> 57 then c - 48 else c - 97 + 10)"

definition hexChar :: "byte \<Rightarrow> byte" where
  "hexChar v = (if v < 10 then 48 + v else 97 + v - 10)"

fun pack_nibbles :: "bytes \<Rightarrow> bytes" where
  "pack_nibbles (a # b # r) = (push_bit 4 (hexNibble a) OR hexNibble b) # pack_nibbles r"
| "pack_nibbles [a] = [push_bit 4 (hexNibble a) OR 0]"
| "pack_nibbles [] = []"

definition hexPackBlock :: "bytes \<Rightarrow> nat \<Rightarrow> bytes" where
  "hexPackBlock raw count = (let strBase = 4 * (count + 1) in
     putU32 (of_nat count) @ take strBase raw @ pack_nibbles (drop strBase raw))"

text \<open>The code this theory does not contain.\<close>

record dict_kernels =
  lz4_k :: lz4_kernel
  hexEncode :: "bytes \<Rightarrow> bytes"
  deflate :: "bytes \<Rightarrow> bytes"
  inflate :: "bytes \<Rightarrow> bytes"

definition hex_expand :: "bytes \<Rightarrow> bytes" where
  "hex_expand b = concat (map (\<lambda>x. [hexChar (drop_bit 4 x), hexChar (x AND 15)]) b)"

definition kernels_ok :: "dict_kernels \<Rightarrow> bool" where
  "kernels_ok K \<longleftrightarrow> lz4_spec (lz4_k K) \<and> (\<forall>b. hexEncode K b = hex_expand b)
     \<and> (\<forall>b. inflate K (deflate K b) = b \<and> length b \<le> 1032 * length (deflate K b) + 16)"

text \<open>\<^verbatim>\<open>fitBuf\<close>: \<open>buf\<close> is the caller's buffer up to its capacity, with whatever it holds.\<close>

definition fitBuf :: "bytes \<Rightarrow> nat \<Rightarrow> bytes" where
  "fitBuf buf n = (if length buf < n then replicate n 0 else take n buf)"

definition hexUnpackBlockInto :: "dict_kernels \<Rightarrow> bytes \<Rightarrow> bytes \<Rightarrow> bytes option" where
  "hexUnpackBlockInto K buf packed = (if length packed < 4 then Some [] else do {
     count \<leftarrow> getn packed 0;
     if count > (length packed - 4) div 4 then Some [] else
     (let strBase = 4 * (count + 1) in
      if 4 + strBase > length packed then Some [] else do {
        total \<leftarrow> getn packed (4 + 4 * count);
        let nb = (total + 1) div 2;
        let nibBase = 4 + strBase;
        if nb > length packed - nibBase then Some [] else do {
          offs \<leftarrow> gslice packed 4 (4 + strBase);
          nib \<leftarrow> gslice packed nibBase (nibBase + nb);
          let raw = fitBuf buf (strBase + 2 * nb);
          let raw1 = offs @ drop (length offs) raw;
          let chars = hexEncode K nib;
          Some (take strBase raw1 @ chars @ drop (strBase + length chars) raw1)
        }
      })
   })"

text \<open>
  \<^verbatim>\<open>io.ReadFull\<close> fills the buffer from the decoder; what it does not reach is cleared.
\<close>

definition flateDecompressInto :: "dict_kernels \<Rightarrow> bytes \<Rightarrow> bytes \<Rightarrow> nat \<Rightarrow> bytes" where
  "flateDecompressInto K buf src rawLen = (if rawLen > 1032 * length src + 16 then [] else
     let out = fitBuf buf rawLen;
         got = take rawLen (inflate K src);
         out1 = got @ drop (length got) out
     in if length got < length out1 then take (length got) out1 @ replicate (length out1 - length got) 0 else out1)"

definition lz4DecompressInto :: "dict_kernels \<Rightarrow> bytes \<Rightarrow> bytes \<Rightarrow> nat \<Rightarrow> bytes" where
  "lz4DecompressInto K buf block origLen = (if origLen > 255 * length block + 16 then [] else
     let dst = fitBuf buf origLen;
         got = lz4_k K origLen block
     in if length got \<noteq> origLen then [] else got @ drop (length got) dst)"

section \<open>Writing a section\<close>

definition dict_block :: "bytes list \<Rightarrow> nat \<Rightarrow> bytes list" where
  "dict_block dict k = take dictBlock (drop (k * dictBlock) dict)"

text \<open>The codec of one block: its bytes and the length field with the codec's flag.\<close>

definition encode_block :: "dict_kernels \<Rightarrow> bool \<Rightarrow> bytes list \<Rightarrow> bytes \<times> u32" where
  "encode_block K compact vals = (
     let raw = marshalRawBlock vals; rawLen = of_nat (length raw) in
     if allLowerHex vals then (hexPackBlock raw (length vals), rawLen OR dictCodecHex)
     else if compact then (deflate K raw, rawLen OR dictCodecFlate)
     else (lz4Compress raw, rawLen))"

record dict_writer =
  dw_fvStr :: bytes
  dw_fvOff :: "u32 list"
  dw_idx :: "(u32 \<times> u32 \<times> u32) list"
  dw_comp :: bytes

definition dict_step :: "dict_kernels \<Rightarrow> bool \<Rightarrow> bytes list \<Rightarrow> dict_writer \<Rightarrow> nat \<Rightarrow> dict_writer" where
  "dict_step K compact dict d k = (
     let vals = dict_block dict k; (c, rawLen) = encode_block K compact vals in
     \<lparr>dw_fvStr = dw_fvStr d @ dict ! (k * dictBlock),
      dw_fvOff = dw_fvOff d @ [of_nat (length (dw_fvStr d))],
      dw_idx = dw_idx d @ [(of_nat (length (dw_comp d)), of_nat (length c), rawLen)],
      dw_comp = dw_comp d @ c\<rparr>)"

definition num_dict_blocks :: "nat \<Rightarrow> nat" where
  "num_dict_blocks n = (if n > 0 then (n + dictBlock - 1) div dictBlock else 0)"

definition marshalDictSection :: "dict_kernels \<Rightarrow> bytes list \<Rightarrow> bool \<Rightarrow> bytes" where
  "marshalDictSection K dict compact = (
     let numBlocks = num_dict_blocks (length dict);
         d = foldl (dict_step K compact dict) \<lparr>dw_fvStr = [], dw_fvOff = [], dw_idx = [], dw_comp = []\<rparr> [0..<numBlocks];
         fvOff = dw_fvOff d @ [of_nat (length (dw_fvStr d))]
     in putU32 (of_nat numBlocks) @ putU32 (of_nat dictBlock)
        @ concat (map putU32 fvOff)
        @ putU32 (of_nat (length (dw_fvStr d))) @ dw_fvStr d
        @ concat (map (\<lambda>(a, b, c). putU32 a @ putU32 b @ putU32 c) (dw_idx d))
        @ putU32 (of_nat (length (dw_comp d))) @ dw_comp d)"

section \<open>Reading a section\<close>

record dictSec =
  numBlocks :: nat
  fvOff :: bytes
  fvStr :: bytes
  ds_idx :: bytes
  ds_comp :: bytes

definition emptySec :: dictSec where
  "emptySec = \<lparr>numBlocks = 0, fvOff = [], fvStr = [], ds_idx = [], ds_comp = []\<rparr>"

definition parseDictSec :: "bytes \<Rightarrow> dictSec option" where
  "parseDictSec sec = (if length sec < 8 then Some emptySec else do {
     nb \<leftarrow> getn sec 0;
     if nb > (length sec - 8) div 16 then Some emptySec else
     (let p = 8 in if 4 * (nb + 1) > length sec - p then Some emptySec else do {
     fo \<leftarrow> gslice sec p (p + 4 * (nb + 1));
     let p = p + 4 * (nb + 1);
     if 4 > length sec - p then Some emptySec else do {
     fvLen \<leftarrow> getn sec p;
     let p = p + 4;
     if fvLen > length sec - p then Some emptySec else do {
     fs \<leftarrow> gslice sec p (p + fvLen);
     let p = p + fvLen;
     if nb * 12 > length sec - p then Some emptySec else do {
     ix \<leftarrow> gslice sec p (p + nb * 12);
     let p = p + nb * 12;
     if 4 > length sec - p then Some emptySec else do {
     compLen \<leftarrow> getn sec p;
     let p = p + 4;
     if compLen > length sec - p then Some emptySec else do {
     co \<leftarrow> gslice sec p (p + compLen);
     Some \<lparr>numBlocks = nb, fvOff = fo, fvStr = fs, ds_idx = ix, ds_comp = co\<rparr>
     } } } } } })
   })"

definition firstVal :: "dictSec \<Rightarrow> nat \<Rightarrow> bytes option" where
  "firstVal d k = (if 4 * (k + 1) + 4 > length (fvOff d) then Some [] else do {
     o0 \<leftarrow> getn (fvOff d) (4 * k);
     o1 \<leftarrow> getn (fvOff d) (4 * (k + 1));
     if o1 < o0 \<or> o1 > length (fvStr d) then Some [] else gslice (fvStr d) o0 o1
   })"

definition blockInto :: "dict_kernels \<Rightarrow> dictSec \<Rightarrow> nat \<Rightarrow> bytes \<Rightarrow> bytes option" where
  "blockInto K d k buf = (if k * 12 + 12 > length (ds_idx d) then Some [] else do {
     compOff \<leftarrow> getn (ds_idx d) (k * 12);
     compLen \<leftarrow> getn (ds_idx d) (k * 12 + 4);
     rawField \<leftarrow> get32 (ds_idx d) (k * 12 + 8);
     let rawLen = unat (rawField AND NOT (dictCodecFlate OR dictCodecHex));
     if compOff > length (ds_comp d) \<or> compLen > length (ds_comp d) - compOff then Some [] else do {
       comp \<leftarrow> gslice (ds_comp d) compOff (compOff + compLen);
       if rawField AND dictCodecHex \<noteq> 0 then hexUnpackBlockInto K buf comp
       else if rawField AND dictCodecFlate \<noteq> 0 then Some (flateDecompressInto K buf comp rawLen)
       else Some (lz4DecompressInto K buf comp rawLen)
     }
   })"

text \<open>A block count can be negative on a damaged section, so counts are integers.\<close>

definition blockCount :: "nat \<Rightarrow> nat \<Rightarrow> int" where
  "blockCount k n = (let c = int n - int k * int dictBlock in if c > int dictBlock then int dictBlock else c)"

definition blockValAt :: "bytes \<Rightarrow> int \<Rightarrow> nat \<Rightarrow> bytes option" where
  "blockValAt raw count i = (if count < 0 \<or> 4 * (i + 1) + 4 > length raw \<or> int i \<ge> count then Some [] else do {
     let base = 4 * (nat count + 1);
     o0 \<leftarrow> getn raw (4 * i);
     o1 \<leftarrow> getn raw (4 * (i + 1));
     if o1 < o0 \<or> base + o1 > length raw then Some [] else gslice raw (base + o0) (base + o1)
   })"

text \<open>The binary search both lookups run: the first index in \<open>lo..<hi\<close> where the probe fails.\<close>

function bsearch :: "(nat \<Rightarrow> bool option) \<Rightarrow> nat \<Rightarrow> nat \<Rightarrow> nat option" where
  "bsearch probe lo hi = (if lo < hi then
     (let mid = (lo + hi) div 2 in
      case probe mid of
        None \<Rightarrow> None
      | Some True \<Rightarrow> bsearch probe (mid + 1) hi
      | Some False \<Rightarrow> bsearch probe lo mid)
   else Some lo)"
  by pat_completeness auto
termination by (relation "measure (\<lambda>(probe, lo, hi). hi - lo)") auto

declare bsearch.simps [simp del]

text \<open>\<^verbatim>\<open>-1\<close> is \<open>None\<close> of the inner option.\<close>

definition dictSectionSearch :: "dict_kernels \<Rightarrow> bytes \<Rightarrow> nat \<Rightarrow> bytes \<Rightarrow> nat option option" where
  "dictSectionSearch K sec n v = do {
     d \<leftarrow> parseDictSec sec;
     if numBlocks d = 0 then Some None else do {
       lo \<leftarrow> bsearch (\<lambda>m. map_option (\<lambda>fv. fv \<le> v) (firstVal d m)) 0 (numBlocks d);
       if lo = 0 then Some None else do {
         let k = lo - 1;
         raw \<leftarrow> blockInto K d k [];
         let cnt = blockCount k n;
         blo \<leftarrow> bsearch (\<lambda>m. map_option (\<lambda>x. x < v) (blockValAt raw cnt m)) 0 (nat cnt);
         if int blo < cnt then do {
           x \<leftarrow> blockValAt raw cnt blo;
           Some (if x = v then Some (k * dictBlock + blo) else None)
         } else Some None
       }
     }
   }"

definition dictSectionAt :: "dict_kernels \<Rightarrow> bytes \<Rightarrow> nat \<Rightarrow> nat \<Rightarrow> bytes option" where
  "dictSectionAt K sec n i = do {
     d \<leftarrow> parseDictSec sec;
     let k = i div dictBlock;
     if k \<ge> numBlocks d then Some [] else do {
       raw \<leftarrow> blockInto K d k [];
       blockValAt raw (blockCount k n) (i mod dictBlock)
     }
   }"

text \<open>\<^verbatim>\<open>dictSectionSome\<close>: the wanted values of each block that holds one, read off one decompression.\<close>

fun some_vals :: "bytes \<Rightarrow> int \<Rightarrow> nat \<Rightarrow> bool list \<Rightarrow> nat list \<Rightarrow> bytes list \<Rightarrow> bytes list option" where
  "some_vals raw cnt base want [] out = Some out"
| "some_vals raw cnt base want (i # is) out = do {
     w \<leftarrow> index want (base + i);
     if w then do {
       x \<leftarrow> blockValAt raw cnt i;
       out' \<leftarrow> set_index out (base + i) x;
       some_vals raw cnt base want is out'
     } else some_vals raw cnt base want is out
   }"

fun any_wanted :: "nat \<Rightarrow> bool list \<Rightarrow> nat list \<Rightarrow> bool option" where
  "any_wanted base want [] = Some False"
| "any_wanted base want (i # is) = do {
     w \<leftarrow> index want (base + i);
     if w then Some True else any_wanted base want is
   }"

fun some_blocks :: "dict_kernels \<Rightarrow> dictSec \<Rightarrow> nat \<Rightarrow> bool list \<Rightarrow> nat list \<Rightarrow> bytes list \<Rightarrow> bytes list option" where
  "some_blocks K d n want [] out = Some out"
| "some_blocks K d n want (k # ks) out = do {
     let base = k * dictBlock;
     let cnt = blockCount k n;
     any' \<leftarrow> any_wanted base want [0..<nat cnt];
     if \<not> any' then some_blocks K d n want ks out else do {
       raw \<leftarrow> blockInto K d k [];
       out' \<leftarrow> some_vals raw cnt base want [0..<nat cnt] out;
       some_blocks K d n want ks out'
     }
   }"

definition dictSectionSome :: "dict_kernels \<Rightarrow> bytes \<Rightarrow> nat \<Rightarrow> bool list \<Rightarrow> bytes list option" where
  "dictSectionSome K sec n want = do {
     d \<leftarrow> parseDictSec sec;
     some_blocks K d n want [0..<numBlocks d] (replicate n [])
   }"

text \<open>A decompressed block with its string region converted once.\<close>

record blockArena =
  a_raw :: bytes
  a_vals :: bytes
  a_cnt :: int
  a_split :: bool

definition newBlockArena :: "bytes \<Rightarrow> int \<Rightarrow> blockArena" where
  "newBlockArena raw cnt = (if cnt < 0 \<or> 4 * (nat cnt + 1) > length raw
     then \<lparr>a_raw = raw, a_vals = [], a_cnt = cnt, a_split = False\<rparr>
     else \<lparr>a_raw = raw, a_vals = drop (4 * (nat cnt + 1)) raw, a_cnt = cnt, a_split = True\<rparr>)"

definition arena_at :: "blockArena \<Rightarrow> nat \<Rightarrow> bytes option" where
  "arena_at a i = (if \<not> a_split a then blockValAt (a_raw a) (a_cnt a) i
     else if int i \<ge> a_cnt a then Some [] else do {
       o0 \<leftarrow> getn (a_raw a) (4 * i);
       o1 \<leftarrow> getn (a_raw a) (4 * (i + 1));
       if o1 < o0 \<or> o1 > length (a_vals a) then Some [] else gslice (a_vals a) o0 o1
     })"

fun read_vals :: "blockArena \<Rightarrow> nat list \<Rightarrow> bytes list option" where
  "read_vals a [] = Some []"
| "read_vals a (i # is) = do { v \<leftarrow> arena_at a i; vs \<leftarrow> read_vals a is; Some (v # vs) }"

definition appendBlockVals :: "bytes list \<Rightarrow> bytes \<Rightarrow> int \<Rightarrow> bytes list option" where
  "appendBlockVals out raw cnt = do { vs \<leftarrow> read_vals (newBlockArena raw cnt) [0..<nat cnt]; Some (out @ vs) }"

text \<open>Every block is decompressed into the buffer the previous one left.\<close>

fun all_blocks :: "dict_kernels \<Rightarrow> dictSec \<Rightarrow> nat \<Rightarrow> nat list \<Rightarrow> bytes \<Rightarrow> bytes list \<Rightarrow> bytes list option" where
  "all_blocks K d n [] buf out = Some out"
| "all_blocks K d n (k # ks) buf out = do {
     raw \<leftarrow> blockInto K d k buf;
     out' \<leftarrow> appendBlockVals out raw (blockCount k n);
     all_blocks K d n ks raw out'
   }"

definition dictSectionAll :: "dict_kernels \<Rightarrow> bytes \<Rightarrow> nat \<Rightarrow> bytes list option" where
  "dictSectionAll K sec n = do {
     d \<leftarrow> parseDictSec sec;
     all_blocks K d n [0..<numBlocks d] [] []
   }"

text \<open>The streaming walk: its position is the next block and the next value of the current one.\<close>

record dictWalk =
  w_d :: dictSec
  w_n :: nat
  w_k :: nat
  w_i :: nat
  w_a :: blockArena

definition newDictWalk :: "bytes \<Rightarrow> nat \<Rightarrow> dictWalk option" where
  "newDictWalk sec n = do {
     d \<leftarrow> parseDictSec sec;
     Some \<lparr>w_d = d, w_n = n, w_k = 0, w_i = 0, w_a = \<lparr>a_raw = [], a_vals = [], a_cnt = 0, a_split = False\<rparr>\<rparr>
   }"

function walk_next :: "dict_kernels \<Rightarrow> dictWalk \<Rightarrow> (bytes option \<times> dictWalk) option" where
  "walk_next K w = (if int (w_i w) \<ge> a_cnt (w_a w) then
     (if w_k w \<ge> numBlocks (w_d w) then Some (None, w)
      else do {
        raw \<leftarrow> blockInto K (w_d w) (w_k w) (a_raw (w_a w));
        walk_next K (w\<lparr>w_a := newBlockArena raw (blockCount (w_k w) (w_n w)), w_i := 0, w_k := w_k w + 1\<rparr>)
      })
   else do { v \<leftarrow> arena_at (w_a w) (w_i w); Some (Some v, w\<lparr>w_i := w_i w + 1\<rparr>) })"
  by pat_completeness auto
termination by (relation "measure (\<lambda>(K, w). numBlocks (w_d w) - w_k w)") auto

declare walk_next.simps [simp del]

section \<open>Values of a raw block\<close>

lemma length_raw_offsets [simp]: "length (raw_offsets off vs) = 4 * (length vs + 1)"
  by (induction vs arbitrary: off) simp_all

lemma getn_raw_offsets:
  "i \<le> length vs \<Longrightarrow> getn (raw_offsets off vs @ r) (4 * i) = Some (unat (off + of_nat (length (concat (take i vs)))))"
proof (induction vs arbitrary: off i)
  case Nil
  then show ?case by (simp add: getn_def get32_def slice_from_def le32_putU32)
next
  case (Cons v vs)
  show ?case
  proof (cases i)
    case 0
    then show ?thesis by (simp add: getn_def get32_def slice_from_def le32_putU32)
  next
    case (Suc j)
    have "getn (putU32 off @ b) (4 + m) = getn b m" for b m
      by (simp add: getn_def get32_def slice_from_def)
    with Suc Cons show ?thesis by (simp add: add.assoc)
  qed
qed

lemma concat_slice:
  assumes "i < length vs"
  shows "take (length (vs ! i)) (drop (length (concat (take i vs))) (concat vs @ z)) = vs ! i"
    and "length (concat (take (Suc i) vs)) = length (concat (take i vs)) + length (vs ! i)"
    and "length (concat (take i vs)) + length (vs ! i) \<le> length (concat vs)"
proof -
  have c: "concat vs = concat (take i vs) @ vs ! i @ concat (drop (Suc i) vs)"
    using assms by (metis concat.simps(2) concat_append id_take_nth_drop)
  show "take (length (vs ! i)) (drop (length (concat (take i vs))) (concat vs @ z)) = vs ! i" unfolding c by simp
  show "length (concat (take (Suc i) vs)) = length (concat (take i vs)) + length (vs ! i)"
    using assms by (simp add: take_Suc_conv_app_nth)
  show "length (concat (take i vs)) + length (vs ! i) \<le> length (concat vs)" unfolding c by simp
qed

lemma raw_reads:
  assumes fit: "length (marshalRawBlock vs) < 2 ^ 32" and i: "i \<le> length vs" and raw: "raw = marshalRawBlock vs @ z"
  shows "getn raw (4 * i) = Some (length (concat (take i vs)))"
proof -
  have "concat vs = concat (take i vs) @ concat (drop i vs)" by (metis append_take_drop_id concat_append)
  then have "length (concat (take i vs)) \<le> length (concat vs)" by simp
  then have "length (concat (take i vs)) < 2 ^ 32" using fit by (simp add: marshalRawBlock_def del: length_concat)
  then show ?thesis using getn_raw_offsets [OF i, of 0 "concat vs @ z"] by (simp add: raw marshalRawBlock_def)
qed

lemma blockValAt_raw:
  assumes fit: "length (marshalRawBlock vs) < 2 ^ 32" and i: "i < length vs" and raw: "raw = marshalRawBlock vs @ z"
  shows "blockValAt raw (int (length vs)) i = Some (vs ! i)"
proof -
  let ?base = "4 * (length vs + 1)"
  have d: "drop ?base raw = concat vs @ z" by (simp add: raw marshalRawBlock_def)
  have len: "length raw = ?base + length (concat vs) + length z" by (simp add: raw marshalRawBlock_def del: length_concat)
  note r0 = raw_reads [OF fit _ raw, of i] and r1 = raw_reads [OF fit _ raw, of "Suc i"]
  note cs = concat_slice [OF i]
  have "gslice raw (?base + length (concat (take i vs))) (?base + length (concat (take (Suc i) vs))) = Some (vs ! i)"
  proof -
    have "drop (?base + length (concat (take i vs))) raw = drop (length (concat (take i vs))) (concat vs @ z)"
      unfolding d [symmetric] drop_drop by (simp only: add.commute)
    then show ?thesis using len cs by (simp add: gslice_def del: length_concat)
  qed
  then show ?thesis
    using i r0 r1 cs len by (simp add: blockValAt_def Let_def del: length_concat)
qed

lemma arena_at_raw:
  assumes fit: "length (marshalRawBlock vs) < 2 ^ 32" and i: "i < length vs" and raw: "raw = marshalRawBlock vs @ z"
  shows "arena_at (newBlockArena raw (int (length vs))) i = Some (vs ! i)"
proof -
  let ?base = "4 * (length vs + 1)"
  have d: "drop ?base raw = concat vs @ z" by (simp add: raw marshalRawBlock_def)
  have len: "length raw = ?base + length (concat vs) + length z" by (simp add: raw marshalRawBlock_def del: length_concat)
  note r0 = raw_reads [OF fit _ raw, of i] and r1 = raw_reads [OF fit _ raw, of "Suc i"]
  note cs = concat_slice [OF i]
  have a: "newBlockArena raw (int (length vs)) = \<lparr>a_raw = raw, a_vals = concat vs @ z, a_cnt = int (length vs), a_split = True\<rparr>"
    using len d by (simp add: newBlockArena_def del: length_concat)
  have "gslice (concat vs @ z) (length (concat (take i vs))) (length (concat (take (Suc i) vs))) = Some (vs ! i)"
    using cs by (simp add: gslice_def del: length_concat)
  then show ?thesis
    unfolding a using i r0 r1 cs by (simp add: arena_at_def del: length_concat)
qed

section \<open>Each codec is inverted\<close>

lemma hex_byte:
  assumes "isLowerHexByte c"
  shows "hexChar (hexNibble c) = c" and "unat (hexNibble c) < 16"
proof -
  define n where "n = unat c"
  have c: "c = of_nat n" by (simp add: n_def)
  have "(48 \<le> n \<and> n \<le> 57) \<or> (97 \<le> n \<and> n \<le> 102)"
    using assms by (simp add: isLowerHexByte_def word_le_nat_alt n_def)
  then have "n \<in> {48, 49, 50, 51, 52, 53, 54, 55, 56, 57, 97, 98, 99, 100, 101, 102}"
    by (simp only: insert_iff empty_iff) presburger
  then have "hexChar (hexNibble c) = c \<and> unat (hexNibble c) < 16"
    unfolding c by (auto simp: hexChar_def hexNibble_def)
  then show "hexChar (hexNibble c) = c" "unat (hexNibble c) < 16" by simp_all
qed

lemma nibble_pair:
  assumes "unat x < 16" "unat y < 16"
  shows "drop_bit 4 (push_bit 4 x OR y) = (x :: byte)" "(push_bit 4 x OR y) AND 15 = y"
proof -
  have "unat (drop_bit 4 (push_bit 4 x OR y)) = unat x" "unat ((push_bit 4 x OR y) AND 15) = unat y"
    using byte_nibbles [OF assms] by simp_all
  then show "drop_bit 4 (push_bit 4 x OR y) = x" "(push_bit 4 x OR y) AND 15 = y"
    by (simp_all only: word_unat_eq_iff)
qed

lemma hex_pair:
  assumes "isLowerHexByte a" "unat y < 16" "hexChar y = c"
  shows "hex_expand ((push_bit 4 (hexNibble a) OR y) # b) = a # c # hex_expand b"
  using nibble_pair [OF hex_byte(2) [OF assms(1)] assms(2)] hex_byte(1) [OF assms(1)] assms(3)
  by (simp only: hex_expand_def list.map concat.simps append.simps)

lemma hex_expand_pack:
  assumes "\<forall>c \<in> set cs. isLowerHexByte c"
  shows "\<exists>z. hex_expand (pack_nibbles cs) = cs @ z"
  using assms
proof (induction cs rule: pack_nibbles.induct)
  case (1 a b r)
  then obtain z where "hex_expand (pack_nibbles r) = r @ z" by auto
  with 1 hex_pair [of a "hexNibble b" b "pack_nibbles r"] hex_byte [of b] show ?case by auto
next
  case (2 a)
  then show ?case using hex_pair [of a 0 "hexChar 0" "[]"] by auto
qed simp

lemma length_pack_nibbles: "length (pack_nibbles cs) = (length cs + 1) div 2"
  by (induction cs rule: pack_nibbles.induct) simp_all

lemma length_hex_expand [simp]: "length (hex_expand b) = 2 * length b"
  by (induction b) (simp_all add: hex_expand_def)

lemma length_fitBuf [simp]: "length (fitBuf buf n) = n"
  by (simp add: fitBuf_def)

lemma hexUnpack_pack:
  assumes K: "kernels_ok K" and fit: "length (marshalRawBlock vs) < 2 ^ 32" and hex: "allLowerHex vs"
  shows "\<exists>z. hexUnpackBlockInto K buf (hexPackBlock (marshalRawBlock vs) (length vs)) = Some (marshalRawBlock vs @ z)"
proof -
  let ?n = "length vs" and ?offs = "raw_offsets 0 vs" and ?strs = "concat vs"
  define nib where "nib = pack_nibbles ?strs"
  have lo: "length ?offs = 4 * (?n + 1)" by simp
  have packed: "hexPackBlock (marshalRawBlock vs) ?n = putU32 (of_nat ?n) @ ?offs @ nib"
    by (simp add: hexPackBlock_def marshalRawBlock_def nib_def Let_def)
  have "\<forall>c \<in> set ?strs. isLowerHexByte c" using hex by (auto simp: allLowerHex_def)
  then obtain z where z: "hexEncode K nib = ?strs @ z" using hex_expand_pack K by (metis kernels_ok_def nib_def)
  have ln: "length nib = (length ?strs + 1) div 2" unfolding nib_def by (rule length_pack_nibbles)
  have l2: "length (hexEncode K nib) = 2 * length nib" using K by (simp add: kernels_ok_def)
  have n32: "?n < 2 ^ 32" using fit by (simp add: marshalRawBlock_def)
  have "getn (putU32 (of_nat ?n) @ b) (4 + m) = getn b m" for b m
    by (simp add: getn_def get32_def slice_from_def)
  then have g1: "getn (putU32 (of_nat ?n) @ ?offs @ nib) (4 + 4 * ?n) = Some (length ?strs)"
    using raw_reads [OF fit order_refl, of "marshalRawBlock vs" "[]"] getn_raw_offsets [of ?n vs 0 nib]
      getn_raw_offsets [of ?n vs 0 "concat vs"] by (simp add: marshalRawBlock_def)
  have g0: "getn (putU32 (of_nat ?n) @ ?offs @ nib) 0 = Some ?n"
    using n32 by (simp add: getn_def get32_def slice_from_def le32_putU32)
  have s1: "gslice (putU32 (of_nat ?n) @ ?offs @ nib) 4 (4 + 4 * (?n + 1)) = Some ?offs"
    using lo by (simp add: gslice_def)
  have s2: "gslice (putU32 (of_nat ?n) @ ?offs @ nib) (4 + 4 * (?n + 1)) (4 + 4 * (?n + 1) + length nib) = Some nib"
    using lo by (simp add: gslice_def)
  have dv: "\<not> (4 + (4 * ?n + x)) div 4 < ?n" for x
  proof -
    have "4 * ?n div 4 \<le> (4 + (4 * ?n + x)) div 4" by (rule div_le_mono) simp
    then show ?thesis by simp
  qed
  have "hexUnpackBlockInto K buf (putU32 (of_nat ?n) @ ?offs @ nib) = Some (?offs @ ?strs @ z)"
    unfolding hexUnpackBlockInto_def Let_def
    using g0 g1 s1 s2 lo ln l2 z by (simp add: dv del: length_concat)
  then show ?thesis unfolding packed by (simp add: marshalRawBlock_def)
qed

lemma flags_bits:
  assumes "n < 2 ^ 30"
  shows "of_nat n AND dictCodecHex = 0" "of_nat n AND dictCodecFlate = 0"
    "(of_nat n OR dictCodecHex) AND dictCodecHex \<noteq> 0" "(of_nat n OR dictCodecFlate) AND dictCodecFlate \<noteq> 0"
    "(of_nat n OR dictCodecFlate) AND dictCodecHex = 0"
    "of_nat n AND NOT (dictCodecFlate OR dictCodecHex) = (of_nat n :: u32)"
    "(of_nat n OR dictCodecFlate) AND NOT (dictCodecFlate OR dictCodecHex) = (of_nat n :: u32)"
proof -
  have nb: "bit (of_nat n :: u32) j \<Longrightarrow> j < 30" for j
  proof -
    assume b: "bit (of_nat n :: u32) j"
    have "take_bit 30 (of_nat n :: u32) = of_nat n"
      by (rule unsigned_word_eqI [where 'a = nat])
        (use assms in \<open>simp add: unsigned_take_bit_eq take_bit_nat_eq_self\<close>)
    with b show "j < 30" by (metis bit_take_bit_iff)
  qed
  have hb: "bit dictCodecHex j \<longleftrightarrow> j = 30" and fb: "bit dictCodecFlate j \<longleftrightarrow> j = 31" for j
    unfolding dictCodecHex_def dictCodecFlate_def bit_push_bit_iff bit_1_iff by auto
  show "of_nat n AND dictCodecHex = 0" "of_nat n AND dictCodecFlate = 0"
    "(of_nat n OR dictCodecFlate) AND dictCodecHex = 0"
    "of_nat n AND NOT (dictCodecFlate OR dictCodecHex) = (of_nat n :: u32)"
    "(of_nat n OR dictCodecFlate) AND NOT (dictCodecFlate OR dictCodecHex) = (of_nat n :: u32)"
    by (rule bit_word_eqI; auto simp: bit_and_iff bit_or_iff bit_not_iff hb fb dest: nb)+
  have "bit ((of_nat n OR dictCodecHex) AND dictCodecHex) 30" "bit ((of_nat n OR dictCodecFlate) AND dictCodecFlate) 31"
    by (simp_all add: bit_and_iff bit_or_iff hb fb)
  then show "(of_nat n OR dictCodecHex) AND dictCodecHex \<noteq> 0" "(of_nat n OR dictCodecFlate) AND dictCodecFlate \<noteq> 0"
    by (metis bit_0_eq bot_apply bot_bool_def)+
qed

text \<open>A block index entry that points at an encoded block decodes to the block, whatever the buffer held.\<close>

lemma blockInto_encoded:
  assumes K: "kernels_ok K" and fit: "length (marshalRawBlock vs) < 2 ^ 30"
    and enc: "encode_block K compact vs = (c, rawLen)"
    and off: "gslice (ds_comp d) co (co + length c) = Some c"
    and g: "k * 12 + 12 \<le> length (ds_idx d)" "getn (ds_idx d) (k * 12) = Some co"
      "getn (ds_idx d) (k * 12 + 4) = Some (length c)" "get32 (ds_idx d) (k * 12 + 8) = Some rawLen"
  shows "\<exists>z. blockInto K d k buf = Some (marshalRawBlock vs @ z)"
proof -
  let ?raw = "marshalRawBlock vs" and ?n = "length (marshalRawBlock vs)"
  note fl = flags_bits [OF fit]
  have f32: "?n < 2 ^ 32" using fit by simp
  have in_c: "co \<le> length (ds_comp d)" "length c \<le> length (ds_comp d) - co"
    using off by (auto simp: gslice_def split: if_splits)
  have base: "blockInto K d k buf = (if rawLen AND dictCodecHex \<noteq> 0 then hexUnpackBlockInto K buf c
       else if rawLen AND dictCodecFlate \<noteq> 0
       then Some (flateDecompressInto K buf c (unat (rawLen AND NOT (dictCodecFlate OR dictCodecHex))))
       else Some (lz4DecompressInto K buf c (unat (rawLen AND NOT (dictCodecFlate OR dictCodecHex)))))"
    using g off in_c by (simp add: blockInto_def Let_def)
  consider (hex) "allLowerHex vs" "c = hexPackBlock ?raw (length vs)" "rawLen = of_nat ?n OR dictCodecHex"
    | (flate) "c = deflate K ?raw" "rawLen = of_nat ?n OR dictCodecFlate"
    | (lz4) "c = lz4Compress ?raw" "rawLen = of_nat ?n"
    using enc by (auto simp: encode_block_def Let_def split: if_splits)
  then show ?thesis
  proof cases
    case hex
    then show ?thesis using hexUnpack_pack [OF K f32 hex(1)] base fl(3) by simp
  next
    case flate
    have "inflate K c = ?raw" "\<not> 1032 * length c + 16 < ?n"
      using K flate(1) by (simp_all add: kernels_ok_def not_less)
    then have "flateDecompressInto K buf c ?n = ?raw" by (simp add: flateDecompressInto_def Let_def)
    then show ?thesis using base fl(4,5,7) flate f32 by simp
  next
    case lz4
    have "lz4Decompress (lz4_k K) c ?n = ?raw"
      using K lz4(1) lz4_roundtrip by (simp add: kernels_ok_def)
    then have "lz4DecompressInto K buf c ?n = ?raw"
      by (auto simp: lz4Decompress_def lz4DecompressInto_def Let_def split: if_splits)
    then show ?thesis using base fl(1,2,6) lz4 f32 by simp
  qed
qed

section \<open>The layout of a section\<close>

definition fv_upto :: "bytes list \<Rightarrow> nat \<Rightarrow> bytes" where
  "fv_upto dict m = concat (map (\<lambda>k. dict ! (k * dictBlock)) [0..<m])"

definition enc_of :: "dict_kernels \<Rightarrow> bool \<Rightarrow> bytes list \<Rightarrow> nat \<Rightarrow> bytes \<times> u32" where
  "enc_of K compact dict k = encode_block K compact (dict_block dict k)"

definition comp_upto :: "dict_kernels \<Rightarrow> bool \<Rightarrow> bytes list \<Rightarrow> nat \<Rightarrow> bytes" where
  "comp_upto K compact dict m = concat (map (\<lambda>k. fst (enc_of K compact dict k)) [0..<m])"

definition idx_entry :: "dict_kernels \<Rightarrow> bool \<Rightarrow> bytes list \<Rightarrow> nat \<Rightarrow> bytes" where
  "idx_entry K compact dict k = putU32 (of_nat (length (comp_upto K compact dict k)))
     @ putU32 (of_nat (length (fst (enc_of K compact dict k)))) @ putU32 (snd (enc_of K compact dict k))"

lemma dict_loop:
  "foldl (dict_step K compact dict) \<lparr>dw_fvStr = [], dw_fvOff = [], dw_idx = [], dw_comp = []\<rparr> [0..<m] =
     \<lparr>dw_fvStr = fv_upto dict m, dw_fvOff = map (\<lambda>k. of_nat (length (fv_upto dict k))) [0..<m],
      dw_idx = map (\<lambda>k. (of_nat (length (comp_upto K compact dict k)),
        of_nat (length (fst (enc_of K compact dict k))), snd (enc_of K compact dict k))) [0..<m],
      dw_comp = comp_upto K compact dict m\<rparr>"
  by (induction m) (simp_all add: fv_upto_def comp_upto_def dict_step_def enc_of_def Let_def split: prod.split)

definition fv_table :: "bytes list \<Rightarrow> nat \<Rightarrow> bytes" where
  "fv_table dict m = concat (map (\<lambda>k. putU32 (of_nat (length (fv_upto dict k)))) [0..<m + 1])"

definition idx_table :: "dict_kernels \<Rightarrow> bool \<Rightarrow> bytes list \<Rightarrow> nat \<Rightarrow> bytes" where
  "idx_table K compact dict m = concat (map (idx_entry K compact dict) [0..<m])"

lemma length_tables [simp]:
  "length (fv_table dict m) = 4 * (m + 1)" "length (idx_table K compact dict m) = m * 12"
proof -
  show "length (fv_table dict m) = 4 * (m + 1)"
    unfolding fv_table_def by (subst length_concat_uniform [where w = 4]) auto
  show "length (idx_table K compact dict m) = m * 12"
    unfolding idx_table_def by (subst length_concat_uniform [where w = 12]) (auto simp: idx_entry_def)
qed

lemma section_shape:
  assumes "m = num_dict_blocks (length dict)"
  shows "marshalDictSection K dict compact = putU32 (of_nat m) @ putU32 (of_nat dictBlock) @ fv_table dict m
    @ putU32 (of_nat (length (fv_upto dict m))) @ fv_upto dict m @ idx_table K compact dict m
    @ putU32 (of_nat (length (comp_upto K compact dict m))) @ comp_upto K compact dict m"
proof -
  have e: "(\<lambda>(a, b, c). putU32 a @ putU32 b @ putU32 c) \<circ> (\<lambda>k. (of_nat (length (comp_upto K compact dict k)),
        of_nat (length (fst (enc_of K compact dict k))), snd (enc_of K compact dict k))) = idx_entry K compact dict"
    by (rule ext) (simp add: idx_entry_def)
  show ?thesis
    unfolding marshalDictSection_def Let_def dict_loop assms [symmetric] dict_writer.simps map_map e
    by (simp add: fv_table_def idx_table_def comp_def)
qed

definition section_of :: "dict_kernels \<Rightarrow> bool \<Rightarrow> bytes list \<Rightarrow> nat \<Rightarrow> dictSec" where
  "section_of K compact dict m = \<lparr>numBlocks = m, fvOff = fv_table dict m, fvStr = fv_upto dict m,
     ds_idx = idx_table K compact dict m, ds_comp = comp_upto K compact dict m\<rparr>"

lemma getn_mid: "i = length p \<Longrightarrow> getn (p @ putU32 v @ r) i = Some (unat v)"
  by (simp add: getn_def get32_at)

lemma parse_section:
  assumes m: "m = num_dict_blocks (length dict)" and fit: "length (marshalDictSection K dict compact) < 2 ^ 32"
  shows "parseDictSec (marshalDictSection K dict compact) = Some (section_of K compact dict m)"
proof -
  let ?F = "fv_table dict m" and ?S = "fv_upto dict m" and ?I = "idx_table K compact dict m"
    and ?C = "comp_upto K compact dict m"
  let ?h = "putU32 (of_nat m) @ putU32 (of_nat dictBlock)"
  define b where "b = marshalDictSection K dict compact"
  have b: "b = ?h @ ?F @ putU32 (of_nat (length ?S)) @ ?S @ ?I @ putU32 (of_nat (length ?C)) @ ?C"
    unfolding b_def by (simp add: section_shape [OF m])
  have len: "length b = 16 + 4 * (m + 1) + length ?S + m * 12 + length ?C" by (simp add: b)
  have bnd: "m < 2 ^ 32" "length ?S < 2 ^ 32" "length ?C < 2 ^ 32" using fit len by (simp_all add: b_def)
  define p1 where "p1 = 8 + 4 * (m + 1)"
  define p2 where "p2 = p1 + 4"
  define p3 where "p3 = p2 + length ?S"
  define p4 where "p4 = p3 + m * 12"
  define p5 where "p5 = p4 + 4"
  have plen: "length b = p5 + length ?C" using len by (simp add: p5_def p4_def p3_def p2_def p1_def)
  have g0: "getn b 0 = Some m" using bnd getn_mid [of 0 "[]"] by (simp add: b)
  have s0: "gslice b 8 p1 = Some ?F" by (simp add: b p1_def gslice_def)
  have g1: "getn b p1 = Some (length ?S)" using bnd getn_mid [of p1 "?h @ ?F"] by (simp add: b p1_def)
  have s1: "gslice b p2 p3 = Some ?S" by (simp add: b p1_def p2_def p3_def gslice_def)
  have s2: "gslice b p3 p4 = Some ?I" by (simp add: b p1_def p2_def p3_def p4_def gslice_def)
  have g2: "getn b p4 = Some (length ?C)"
    using bnd getn_mid [of p4 "?h @ ?F @ putU32 (of_nat (length ?S)) @ ?S @ ?I"]
    by (simp add: b p1_def p2_def p3_def p4_def add.assoc)
  have s3: "gslice b p5 (p5 + length ?C) = Some ?C"
    by (simp add: b p1_def p2_def p3_def p4_def p5_def gslice_def)
  have nb: "\<not> m > (length b - 8) div 16"
  proof -
    have "16 * m div 16 \<le> (length b - 8) div 16" using len by (intro div_le_mono) simp
    then show ?thesis by simp
  qed
  have ok: "\<not> length b < 8" "\<not> 4 * (m + 1) > length b - 8" "\<not> 4 > length b - p1" "\<not> length ?S > length b - p2"
    "\<not> m * 12 > length b - p3" "\<not> 4 > length b - p4" "\<not> length ?C > length b - p5"
    using len by (simp_all add: p1_def p2_def p3_def p4_def p5_def)
  show ?thesis
    unfolding b_def [symmetric] parseDictSec_def Let_def
    using g0 s0 g1 s1 s2 g2 s3 nb ok
    by (simp only: p1_def [symmetric] p2_def [symmetric] p3_def [symmetric] p4_def [symmetric] p5_def [symmetric]
        if_False bind.bind_lunit section_of_def option.simps Option.bind.simps)
qed

lemma upt_split: "k < m \<Longrightarrow> [0..<m] = [0..<k] @ k # [Suc k..<m]"
  using upt_add_eq_append [of 0 k "m - k"] by (simp add: upt_conv_Cons)

lemma num_dict_blocks_iff: "k < num_dict_blocks n \<longleftrightarrow> k * dictBlock < n"
proof -
  have "k < (n + dictBlock - 1) div dictBlock \<longleftrightarrow> (k + 1) * dictBlock \<le> n + dictBlock - 1"
    by (simp add: less_eq_div_iff_mult_less_eq dictBlock_def flip: Suc_le_eq)
  also have "\<dots> \<longleftrightarrow> k * dictBlock < n" by (auto simp: dictBlock_def)
  finally show ?thesis by (auto simp: num_dict_blocks_def)
qed

lemma fv_upto_Suc: "fv_upto dict (Suc k) = fv_upto dict k @ dict ! (k * dictBlock)"
  by (simp add: fv_upto_def)

lemma fv_upto_prefix: "k < m \<Longrightarrow> \<exists>t. fv_upto dict m = fv_upto dict k @ dict ! (k * dictBlock) @ t"
  by (simp add: fv_upto_def upt_split)

lemma comp_upto_prefix:
  "k < m \<Longrightarrow> \<exists>t. comp_upto K compact dict m = comp_upto K compact dict k @ fst (enc_of K compact dict k) @ t"
  by (simp add: comp_upto_def upt_split)

lemma getn_fv_table:
  assumes "k \<le> m" "length (fv_upto dict m) < 2 ^ 32"
  shows "getn (fv_table dict m) (4 * k) = Some (length (fv_upto dict k))"
proof -
  let ?e = "\<lambda>k. putU32 (of_nat (length (fv_upto dict k))) :: bytes"
  have t: "fv_table dict m = concat (map ?e [0..<k]) @ ?e k @ concat (map ?e [Suc k..<m + 1])"
    using assms(1) upt_split [of k "m + 1"] by (simp add: fv_table_def)
  have l: "length (concat (map ?e [0..<k])) = 4 * k"
    by (subst length_concat_uniform [where w = 4]) auto
  have "length (fv_upto dict k) \<le> length (fv_upto dict m)"
  proof (cases "k = m")
    case False
    then obtain t where "fv_upto dict m = fv_upto dict k @ dict ! (k * dictBlock) @ t"
      using fv_upto_prefix assms(1) by (meson le_neq_implies_less)
    then show ?thesis by simp
  qed simp
  then have "length (fv_upto dict k) < 2 ^ 32" using assms(2) by simp
  then show ?thesis unfolding t using getn_mid [of "4 * k" "concat (map ?e [0..<k])"] l by simp
qed

lemma firstVal_section:
  assumes "k < m" "length (fv_upto dict m) < 2 ^ 32"
  shows "firstVal (section_of K compact dict m) k = Some (dict ! (k * dictBlock))"
proof -
  obtain t where t: "fv_upto dict m = fv_upto dict k @ dict ! (k * dictBlock) @ t" using fv_upto_prefix [OF assms(1)] by blast
  have "getn (fv_table dict m) (4 * k) = Some (length (fv_upto dict k))"
    "getn (fv_table dict m) (4 * (k + 1)) = Some (length (fv_upto dict (Suc k)))"
    using getn_fv_table [of k m dict] getn_fv_table [of "Suc k" m dict] assms by simp_all
  moreover have "gslice (fv_upto dict m) (length (fv_upto dict k)) (length (fv_upto dict (Suc k))) = Some (dict ! (k * dictBlock))"
    unfolding t by (rule slice_append_mid) (simp_all add: fv_upto_Suc)
  moreover have "length (fv_upto dict (Suc k)) \<le> length (fv_upto dict m)" by (simp add: t fv_upto_Suc)
  ultimately show ?thesis using assms(1) by (simp add: firstVal_def section_of_def fv_upto_Suc)
qed

lemma block_section:
  assumes K: "kernels_ok K" and k: "k < m" and fit: "length (comp_upto K compact dict m) < 2 ^ 32"
    and raw: "length (marshalRawBlock (dict_block dict k)) < 2 ^ 30"
  shows "\<exists>z. blockInto K (section_of K compact dict m) k buf = Some (marshalRawBlock (dict_block dict k) @ z)"
proof -
  let ?d = "section_of K compact dict m" and ?e = "idx_entry K compact dict"
  obtain c rawLen where enc: "enc_of K compact dict k = (c, rawLen)" by (metis prod.exhaust)
  obtain t where t: "comp_upto K compact dict m = comp_upto K compact dict k @ c @ t"
    using comp_upto_prefix [OF k, of K compact dict] enc by auto
  let ?co = "length (comp_upto K compact dict k)"
  have b32: "?co < 2 ^ 32" "length c < 2 ^ 32" using fit by (simp_all add: t)
  have it: "idx_table K compact dict m = concat (map ?e [0..<k]) @ ?e k @ concat (map ?e [Suc k..<m])"
    by (simp add: idx_table_def upt_split [OF k])
  have l: "length (concat (map ?e [0..<k])) = k * 12"
    by (subst length_concat_uniform [where w = 12]) (auto simp: idx_entry_def)
  have e: "?e k = putU32 (of_nat ?co) @ putU32 (of_nat (length c)) @ putU32 rawLen"
    by (simp add: idx_entry_def enc)
  have "getn (idx_table K compact dict m) (k * 12) = Some ?co"
    unfolding it e using b32 l getn_mid [of "k * 12" "concat (map ?e [0..<k])"] by simp
  moreover have "getn (idx_table K compact dict m) (k * 12 + 4) = Some (length c)"
    unfolding it e using b32 l getn_mid [of "k * 12 + 4" "concat (map ?e [0..<k]) @ putU32 (of_nat ?co)"] by simp
  moreover have "get32 (idx_table K compact dict m) (k * 12 + 8) = Some rawLen"
    unfolding it e using l
      get32_at [of "k * 12 + 8" "concat (map ?e [0..<k]) @ putU32 (of_nat ?co) @ putU32 (of_nat (length c))"] by simp
  moreover have "k * 12 + 12 \<le> length (idx_table K compact dict m)" using k by simp
  moreover have "gslice (comp_upto K compact dict m) ?co (?co + length c) = Some c"
    unfolding t by (rule slice_append_mid) simp_all
  ultimately show ?thesis
    using blockInto_encoded [OF K raw enc [unfolded enc_of_def], of ?d ?co k buf]
    by (simp add: section_of_def)
qed

text \<open>What a parsed section offers, independently of codecs and offsets.\<close>

definition sec_ok :: "dict_kernels \<Rightarrow> bytes list \<Rightarrow> dictSec \<Rightarrow> bool" where
  "sec_ok K dict d \<longleftrightarrow> numBlocks d = num_dict_blocks (length dict)
     \<and> (\<forall>k < numBlocks d. firstVal d k = Some (dict ! (k * dictBlock))
          \<and> length (marshalRawBlock (dict_block dict k)) < 2 ^ 32
          \<and> (\<forall>buf. \<exists>z. blockInto K d k buf = Some (marshalRawBlock (dict_block dict k) @ z)))"

definition dict_fits :: "dict_kernels \<Rightarrow> bool \<Rightarrow> bytes list \<Rightarrow> bool" where
  "dict_fits K compact dict \<longleftrightarrow> length (marshalDictSection K dict compact) < 2 ^ 32
     \<and> (\<forall>k < num_dict_blocks (length dict). length (marshalRawBlock (dict_block dict k)) < 2 ^ 30)"

lemma parse_ok:
  assumes K: "kernels_ok K" and fit: "dict_fits K compact dict"
  obtains d where "parseDictSec (marshalDictSection K dict compact) = Some d" "sec_ok K dict d"
proof -
  let ?m = "num_dict_blocks (length dict)"
  have f: "length (marshalDictSection K dict compact) < 2 ^ 32" using fit by (simp add: dict_fits_def)
  have fl: "length (fv_upto dict ?m) < 2 ^ 32" "length (comp_upto K compact dict ?m) < 2 ^ 32"
    using f by (simp_all add: section_shape [OF refl])
  have nb: "numBlocks (section_of K compact dict ?m) = ?m" by (simp add: section_of_def)
  have "sec_ok K dict (section_of K compact dict ?m)"
    unfolding sec_ok_def nb
    using firstVal_section [OF _ fl(1)] block_section [OF K _ fl(2)] fit
    by (auto simp: dict_fits_def intro: less_trans)
  with parse_section [OF refl f] show thesis using that by blast
qed

section \<open>Lookups\<close>

lemma length_dict_block: "k * dictBlock < length dict \<Longrightarrow> blockCount k (length dict) = int (length (dict_block dict k))"
  by (auto simp: blockCount_def dict_block_def dictBlock_def Let_def)

lemma nth_dict_block: "k * dictBlock + i < length dict \<Longrightarrow> i < dictBlock \<Longrightarrow> dict_block dict k ! i = dict ! (k * dictBlock + i)"
  by (simp add: dict_block_def)

lemma block_read:
  assumes ok: "sec_ok K dict d" and k: "k < numBlocks d"
  obtains raw z where "blockInto K d k buf = Some raw" "raw = marshalRawBlock (dict_block dict k) @ z"
    "length (marshalRawBlock (dict_block dict k)) < 2 ^ 32"
    "blockCount k (length dict) = int (length (dict_block dict k))"
proof -
  have "k * dictBlock < length dict" using ok k num_dict_blocks_iff by (simp add: sec_ok_def)
  then have c: "blockCount k (length dict) = int (length (dict_block dict k))" by (rule length_dict_block)
  from ok k obtain z where "blockInto K d k buf = Some (marshalRawBlock (dict_block dict k) @ z)"
    "length (marshalRawBlock (dict_block dict k)) < 2 ^ 32" unfolding sec_ok_def by blast
  from that [OF this(1) refl this(2) c] show thesis .
qed

lemma dictSectionAt_ok:
  assumes ok: "sec_ok K dict d" and p: "parseDictSec sec = Some d" and i: "i < length dict"
  shows "dictSectionAt K sec (length dict) i = Some (dict ! i)"
proof -
  let ?k = "i div dictBlock" and ?j = "i mod dictBlock"
  have db: "0 < dictBlock" by (simp add: dictBlock_def)
  have ij: "?k * dictBlock + ?j = i" by simp
  have "?k * dictBlock < length dict" using i ij by linarith
  then have k: "?k < numBlocks d" using ok by (simp add: sec_ok_def num_dict_blocks_iff)
  obtain raw z where r: "blockInto K d ?k [] = Some raw" "raw = marshalRawBlock (dict_block dict ?k) @ z"
    "length (marshalRawBlock (dict_block dict ?k)) < 2 ^ 32"
    "blockCount ?k (length dict) = int (length (dict_block dict ?k))" using block_read [OF ok k] .
  have "?j < length dict - ?k * dictBlock" using i ij by (simp only: less_diff_conv2 less_diff_conv add.commute)
  then have j: "?j < length (dict_block dict ?k)" "?j < dictBlock" using db by (auto simp: dict_block_def)
  have "dict_block dict ?k ! ?j = dict ! i" using nth_dict_block [of ?k ?j dict] j(2) i by simp
  then show ?thesis
    using p k r blockValAt_raw [OF r(3) j(1) r(2)] by (simp add: dictSectionAt_def Let_def)
qed

lemma bsearch_ok:
  assumes "\<forall>i < hi. probe i = Some (P i)" and "\<forall>i j. i \<le> j \<and> j < hi \<and> P j \<longrightarrow> P i" and "lo \<le> hi"
  shows "\<exists>c. bsearch probe lo hi = Some c \<and> lo \<le> c \<and> c \<le> hi
    \<and> (\<forall>i. lo \<le> i \<and> i < c \<longrightarrow> P i) \<and> (\<forall>i. c \<le> i \<and> i < hi \<longrightarrow> \<not> P i)"
  using assms
proof (induction probe lo hi rule: bsearch.induct)
  case (1 probe lo hi)
  show ?case
  proof (cases "lo < hi")
    case False
    then have "bsearch probe lo hi = Some lo" by (simp add: bsearch.simps [of probe lo hi])
    then show ?thesis using 1(5) False by auto
  next
    case True
    define mid where "mid = (lo + hi) div 2"
    have mid: "lo \<le> mid" "mid < hi" using True by (auto simp: mid_def)
    have pm: "probe mid = Some (P mid)" using 1(3) mid by simp
    show ?thesis
    proof (cases "P mid")
      case p: True
      have "\<exists>c. bsearch probe (mid + 1) hi = Some c \<and> mid + 1 \<le> c \<and> c \<le> hi
          \<and> (\<forall>i. mid + 1 \<le> i \<and> i < c \<longrightarrow> P i) \<and> (\<forall>i. c \<le> i \<and> i < hi \<longrightarrow> \<not> P i)"
        using 1(1) [OF True mid_def pm] 1(3,4) p mid by simp
      then obtain c where c: "bsearch probe (mid + 1) hi = Some c" "mid + 1 \<le> c" "c \<le> hi"
          "\<forall>i. mid + 1 \<le> i \<and> i < c \<longrightarrow> P i" "\<forall>i. c \<le> i \<and> i < hi \<longrightarrow> \<not> P i" by blast
      have "P i" if "lo \<le> i" "i < c" for i
        using that c(4) 1(4) p mid by (cases "i \<le> mid") auto
      with c mid True p pm show ?thesis
        by (auto simp: bsearch.simps [of probe lo hi] mid_def [symmetric] Let_def intro!: exI [of _ c])
    next
      case p: False
      have q: "\<forall>i < mid. probe i = Some (P i)" "\<forall>i j. i \<le> j \<and> j < mid \<and> P j \<longrightarrow> P i"
        using 1(3,4) mid(2) less_trans by blast+
      have "\<exists>c. bsearch probe lo mid = Some c \<and> lo \<le> c \<and> c \<le> mid
          \<and> (\<forall>i. lo \<le> i \<and> i < c \<longrightarrow> P i) \<and> (\<forall>i. c \<le> i \<and> i < mid \<longrightarrow> \<not> P i)"
        using 1(2) [OF True mid_def pm] q p mid by simp
      then obtain c where c: "bsearch probe lo mid = Some c" "lo \<le> c" "c \<le> mid"
          "\<forall>i. lo \<le> i \<and> i < c \<longrightarrow> P i" "\<forall>i. c \<le> i \<and> i < mid \<longrightarrow> \<not> P i" by blast
      have "\<not> P i" if "c \<le> i" "i < hi" for i
        using that c(5) 1(4) p by (cases "i < mid") (auto simp: not_less)
      with c mid True p pm show ?thesis
        by (auto simp: bsearch.simps [of probe lo hi] mid_def [symmetric] Let_def intro!: exI [of _ c])
    qed
  qed
qed

lemma sorted_nth_less_iff:
  assumes "sorted_wrt (<) (xs :: bytes list)" "i < length xs" "j < length xs"
  shows "xs ! i < xs ! j \<longleftrightarrow> i < j" and "xs ! i \<le> xs ! j \<longleftrightarrow> i \<le> j" and "xs ! i = xs ! j \<longleftrightarrow> i = j"
proof -
  have a: "x < y \<Longrightarrow> y < length xs \<Longrightarrow> xs ! x < xs ! y" for x y
    using assms(1) by (simp add: sorted_wrt_nth_less)
  consider "i < j" | "i = j" | "j < i" by linarith
  then show "xs ! i < xs ! j \<longleftrightarrow> i < j" and "xs ! i \<le> xs ! j \<longleftrightarrow> i \<le> j" and "xs ! i = xs ! j \<longleftrightarrow> i = j"
    using a [of i j] a [of j i] assms(2,3) by (cases; auto)+
qed

lemma block_search:
  assumes ok: "sec_ok K dict d" and k: "k < numBlocks d" and srt: "sorted_wrt (<) dict"
    and raw: "blockInto K d k [] = Some raw" and cnt: "cnt = blockCount k (length dict)"
  shows "\<exists>blo. bsearch (\<lambda>m. map_option (\<lambda>x. x < v) (blockValAt raw cnt m)) 0 (nat cnt) = Some blo
    \<and> blo \<le> nat cnt \<and> (blo < nat cnt \<longrightarrow> blockValAt raw cnt blo = Some (dict ! (k * dictBlock + blo)) \<and> v \<le> dict ! (k * dictBlock + blo))
    \<and> (\<forall>i. i < blo \<longrightarrow> dict ! (k * dictBlock + i) < v)"
proof -
  obtain raw' z where r: "blockInto K d k [] = Some raw'" "raw' = marshalRawBlock (dict_block dict k) @ z"
    "length (marshalRawBlock (dict_block dict k)) < 2 ^ 32"
    "blockCount k (length dict) = int (length (dict_block dict k))" using block_read [OF ok k] .
  let ?n = "length (dict_block dict k)"
  have n: "nat cnt = ?n" "cnt = int ?n" using r(4) cnt by simp_all
  have kd: "k * dictBlock < length dict" using ok k num_dict_blocks_iff by (simp add: sec_ok_def)
  have at: "blockValAt raw cnt i = Some (dict ! (k * dictBlock + i)) \<and> k * dictBlock + i < length dict" if "i < ?n" for i
  proof -
    have "i < dictBlock" "k * dictBlock + i < length dict" using that by (auto simp: dict_block_def)
    with blockValAt_raw [OF r(3) that r(2)] nth_dict_block show ?thesis using r(1) raw n(2) by simp
  qed
  let ?P = "\<lambda>i. dict ! (k * dictBlock + i) < v"
  have pr: "\<forall>i < nat cnt. map_option (\<lambda>x. x < v) (blockValAt raw cnt i) = Some (?P i)" using at n by simp
  have mono: "\<forall>i j. i \<le> j \<and> j < nat cnt \<and> ?P j \<longrightarrow> ?P i"
  proof (intro allI impI)
    fix i j assume a: "i \<le> j \<and> j < nat cnt \<and> ?P j"
    then have "dict ! (k * dictBlock + i) \<le> dict ! (k * dictBlock + j)"
      using at [of j] n by (subst sorted_nth_less_iff(2) [OF srt]) auto
    with a show "?P i" by (metis le_less_trans)
  qed
  from bsearch_ok [OF pr mono le0] obtain c
    where c: "bsearch (\<lambda>m. map_option (\<lambda>x. x < v) (blockValAt raw cnt m)) 0 (nat cnt) = Some c"
    "c \<le> nat cnt" "\<forall>i. 0 \<le> i \<and> i < c \<longrightarrow> ?P i" "\<forall>i. c \<le> i \<and> i < nat cnt \<longrightarrow> \<not> ?P i" by blast
  then show ?thesis using at [of c] n by (auto simp: not_less)
qed

lemma dictSectionSearch_ok:
  assumes ok: "sec_ok K dict d" and p: "parseDictSec sec = Some d" and srt: "sorted_wrt (<) dict"
  shows "dictSectionSearch K sec (length dict) v = Some (find (\<lambda>i. dict ! i = v) [0..<length dict])"
proof (cases "dict = []")
  case True
  then have "numBlocks d = 0" using ok by (simp add: sec_ok_def num_dict_blocks_def)
  then show ?thesis using p True by (simp add: dictSectionSearch_def)
next
  case False
  let ?n = "length dict" and ?P = "\<lambda>k. dict ! (k * dictBlock) \<le> v"
  have blk: "k < numBlocks d \<longleftrightarrow> k * dictBlock < ?n" for k using ok num_dict_blocks_iff by (simp add: sec_ok_def)
  have nb: "numBlocks d \<noteq> 0" using blk [of 0] False by simp
  have pr: "\<forall>k < numBlocks d. map_option (\<lambda>fv. fv \<le> v) (firstVal d k) = Some (?P k)"
    using ok by (simp add: sec_ok_def)
  have mono: "\<forall>i j. i \<le> j \<and> j < numBlocks d \<and> ?P j \<longrightarrow> ?P i"
  proof (intro allI impI)
    fix i j assume a: "i \<le> j \<and> j < numBlocks d \<and> ?P j"
    have "i * dictBlock \<le> j * dictBlock" using a by simp
    moreover have "j * dictBlock < ?n" using a blk by simp
    ultimately have "dict ! (i * dictBlock) \<le> dict ! (j * dictBlock)"
      using sorted_nth_less_iff(2) [OF srt, of "i * dictBlock" "j * dictBlock"] by linarith
    with a show "?P i" by (metis order_trans)
  qed
  obtain c where c: "bsearch (\<lambda>m. map_option (\<lambda>fv. fv \<le> v) (firstVal d m)) 0 (numBlocks d) = Some c"
    "c \<le> numBlocks d" "\<forall>i. i < c \<longrightarrow> ?P i" "\<forall>i. c \<le> i \<and> i < numBlocks d \<longrightarrow> \<not> ?P i"
    using bsearch_ok [OF pr mono, of 0] by auto
  have fnd: "find (\<lambda>i. dict ! i = v) [0..<?n] = Some i" if "i < ?n" "dict ! i = v" for i
  proof -
    have "(\<lambda>j. dict ! j = v) i" using that by simp
    moreover have "\<forall>j < i. dict ! j \<noteq> v" using sorted_nth_less_iff(3) [OF srt] that by (metis less_trans nat_neq_iff)
    ultimately show ?thesis using that by (auto simp: find_Some_iff)
  qed
  have absent: "find (\<lambda>i. dict ! i = v) [0..<?n] = None" if "\<forall>i < ?n. dict ! i \<noteq> v"
    using that by (simp add: find_None_iff)
  show ?thesis
  proof (cases "c = 0")
    case True
    have "dict ! i \<noteq> v" if "i < ?n" for i
    proof
      assume "dict ! i = v"
      moreover have "0 < ?n" using False by simp
      ultimately have "dict ! 0 \<le> v" using sorted_nth_less_iff(2) [OF srt, of 0 i] that by simp
      then show False using c(4) True nb by auto
    qed
    then show ?thesis using p nb c(1) True absent by (simp add: dictSectionSearch_def)
  next
    case c0: False
    define k where "k = c - 1"
    have k: "k < numBlocks d" "dict ! (k * dictBlock) \<le> v" using c0 c(2,3) by (simp_all add: k_def)
    obtain raw where raw: "blockInto K d k [] = Some raw" using block_read [OF ok k(1)] by metis
    define cnt where "cnt = blockCount k ?n"
    obtain blo where b: "bsearch (\<lambda>m. map_option (\<lambda>x. x < v) (blockValAt raw cnt m)) 0 (nat cnt) = Some blo"
      "blo \<le> nat cnt" "blo < nat cnt \<longrightarrow> blockValAt raw cnt blo = Some (dict ! (k * dictBlock + blo)) \<and> v \<le> dict ! (k * dictBlock + blo)"
      "\<forall>i. i < blo \<longrightarrow> dict ! (k * dictBlock + i) < v"
      using block_search [OF ok k(1) srt raw cnt_def] by blast
    have cn: "cnt = int (min dictBlock (?n - k * dictBlock))"
      using length_dict_block [of k dict] blk [of k] k(1) by (simp add: cnt_def dict_block_def min.commute)
    have here: "i = k * dictBlock + blo \<and> blo < nat cnt" if i: "i < ?n" "dict ! i = v" for i
    proof -
      have kl: "k * dictBlock < ?n" using blk k(1) by simp
      have lo: "k * dictBlock \<le> i" using k(2) i sorted_nth_less_iff(2) [OF srt kl i(1)] by simp
      have hi: "i < c * dictBlock"
      proof (cases "c < numBlocks d")
        case True
        then have "v < dict ! (c * dictBlock)" "c * dictBlock < ?n" using c(4) blk by (auto simp: not_le)
        then show ?thesis using i sorted_nth_less_iff(1) [OF srt i(1)] by simp
      next
        case False
        then have "\<not> c * dictBlock < ?n" using blk by simp
        then show ?thesis using i(1) by simp
      qed
      define j where "j = i - k * dictBlock"
      have ij: "i = k * dictBlock + j" using lo by (simp add: j_def)
      have "c * dictBlock = k * dictBlock + dictBlock" using c0 by (simp add: k_def) (metis Suc_pred add.commute mult_Suc neq0_conv)
      then have j: "j < nat cnt" using hi i(1) cn ij by auto
      have "\<not> j < blo" using b(4) i ij by auto
      moreover have "\<not> blo < j"
      proof
        assume bj: "blo < j"
        then have "v \<le> dict ! (k * dictBlock + blo)" using b(3) j by simp
        moreover have "dict ! (k * dictBlock + blo) < dict ! i"
          using sorted_nth_less_iff(1) [OF srt, of "k * dictBlock + blo" i] bj ij i(1) by simp
        ultimately show False using i(2) by simp
      qed
      ultimately show ?thesis using ij j by auto
    qed
    have inr: "k * dictBlock + blo < ?n" if "blo < nat cnt"
    proof -
      have "blo < ?n - k * dictBlock" using that cn by simp
      then show ?thesis by linarith
    qed
    have "dictSectionSearch K sec ?n v = Some (if blo < nat cnt \<and> dict ! (k * dictBlock + blo) = v then Some (k * dictBlock + blo) else None)"
    proof -
      have ck: "c = Suc k" using c0 by (simp add: k_def)
      have ge: "int blo < cnt \<longleftrightarrow> blo < nat cnt" by auto
      show ?thesis
        using p nb c(1) raw b(1,3) unfolding ck by (simp add: dictSectionSearch_def Let_def cnt_def [symmetric] ge)
    qed
    also have "(if blo < nat cnt \<and> dict ! (k * dictBlock + blo) = v then Some (k * dictBlock + blo) else None)
        = find (\<lambda>i. dict ! i = v) [0..<?n]"
      using fnd inr here absent by (cases "\<exists>i < ?n. dict ! i = v") (auto dest: here)
    finally show ?thesis .
  qed
qed

lemma read_vals_map: "\<forall>i \<in> set is. arena_at a i = Some (f i) \<Longrightarrow> read_vals a is = Some (map f is)"
  by (induction "is") simp_all

lemma appendBlockVals_raw:
  assumes "length (marshalRawBlock vs) < 2 ^ 32" "raw = marshalRawBlock vs @ z"
  shows "appendBlockVals out raw (int (length vs)) = Some (out @ vs)"
proof -
  have "read_vals (newBlockArena raw (int (length vs))) [0..<length vs] = Some (map ((!) vs) [0..<length vs])"
    using arena_at_raw [OF assms(1) _ assms(2)] by (intro read_vals_map) simp
  then show ?thesis by (simp add: appendBlockVals_def map_nth)
qed

lemma concat_dict_blocks: "concat (map (dict_block dict) [0..<m]) = take (m * dictBlock) dict"
proof (induction m)
  case (Suc m)
  have "take (Suc m * dictBlock) dict = take (m * dictBlock) dict @ dict_block dict m"
    unfolding dict_block_def by (metis add.commute mult_Suc take_add)
  with Suc show ?case by simp
qed simp

lemma dict_blocks_all: "concat (map (dict_block dict) [0..<num_dict_blocks (length dict)]) = dict"
proof -
  let ?m = "num_dict_blocks (length dict)"
  have "\<not> ?m < ?m" by simp
  then have "length dict \<le> ?m * dictBlock" unfolding num_dict_blocks_iff by simp
  then show ?thesis using concat_dict_blocks [of dict ?m] by simp
qed

lemma all_blocks_ok:
  assumes ok: "sec_ok K dict d"
  shows "\<forall>k \<in> set ks. k < numBlocks d \<Longrightarrow>
    all_blocks K d (length dict) ks buf out = Some (out @ concat (map (dict_block dict) ks))"
proof (induction ks arbitrary: buf out)
  case (Cons k ks)
  then have k: "k < numBlocks d" by simp
  obtain raw z where r: "blockInto K d k buf = Some raw" "raw = marshalRawBlock (dict_block dict k) @ z"
    "length (marshalRawBlock (dict_block dict k)) < 2 ^ 32"
    "blockCount k (length dict) = int (length (dict_block dict k))" using block_read [OF ok k] .
  show ?case using Cons r appendBlockVals_raw [OF r(3,2), of out] by simp
qed simp

lemma dictSectionAll_ok:
  assumes ok: "sec_ok K dict d" and p: "parseDictSec sec = Some d"
  shows "dictSectionAll K sec (length dict) = Some dict"
proof -
  have "all_blocks K d (length dict) [0..<numBlocks d] [] [] = Some dict"
    using all_blocks_ok [OF ok, of "[0..<numBlocks d]"] ok dict_blocks_all [of dict] by (simp add: sec_ok_def)
  then show ?thesis using p by (simp add: dictSectionAll_def)
qed

text \<open>The walk has yielded \<open>i\<close> values.\<close>

definition walk_at :: "bytes list \<Rightarrow> dictSec \<Rightarrow> dictWalk \<Rightarrow> nat \<Rightarrow> bool" where
  "walk_at dict d w i \<longleftrightarrow> w_d w = d \<and> w_n w = length dict \<and>
     ((w_k w = 0 \<and> a_cnt (w_a w) = 0 \<and> w_i w = 0 \<and> i = 0)
      \<or> (\<exists>k raw z. w_k w = Suc k \<and> k < numBlocks d \<and> raw = marshalRawBlock (dict_block dict k) @ z
           \<and> w_a w = newBlockArena raw (int (length (dict_block dict k)))
           \<and> w_i w \<le> length (dict_block dict k) \<and> i = k * dictBlock + w_i w))"

lemma a_cnt_new [simp]: "a_cnt (newBlockArena raw c) = c"
  by (simp add: newBlockArena_def)

lemma walk_in_block:
  assumes ok: "sec_ok K dict d" and k: "k < numBlocks d" and w: "w_d w = d" "w_n w = length dict" "w_k w = Suc k"
    and raw: "raw = marshalRawBlock (dict_block dict k) @ z"
    and a: "w_a w = newBlockArena raw (int (length (dict_block dict k)))" and i: "w_i w < length (dict_block dict k)"
  shows "\<exists>w'. walk_next K w = Some (Some (dict ! (k * dictBlock + w_i w)), w') \<and> walk_at dict d w' (k * dictBlock + w_i w + 1)"
proof -
  have f: "length (marshalRawBlock (dict_block dict k)) < 2 ^ 32" using ok k by (simp add: sec_ok_def)
  have "w_i w < dictBlock" "k * dictBlock + w_i w < length dict" using i by (auto simp: dict_block_def)
  then have v: "dict_block dict k ! w_i w = dict ! (k * dictBlock + w_i w)" by (simp add: nth_dict_block)
  have at: "arena_at (w_a w) (w_i w) = Some (dict ! (k * dictBlock + w_i w))"
    unfolding a using arena_at_raw [OF f i raw] v by simp
  have cnt: "a_cnt (w_a w) = int (length (dict_block dict k))" by (simp add: a)
  then have "walk_next K w = Some (Some (dict ! (k * dictBlock + w_i w)), w\<lparr>w_i := w_i w + 1\<rparr>)"
    using i at by (simp add: walk_next.simps [of K w])
  moreover have "walk_at dict d (w\<lparr>w_i := w_i w + 1\<rparr>) (k * dictBlock + w_i w + 1)"
    using w k raw a i by (auto simp: walk_at_def)
  ultimately show ?thesis by blast
qed

lemma walk_next_ok:
  assumes ok: "sec_ok K dict d" and at: "walk_at dict d w i"
  shows "i < length dict \<Longrightarrow> \<exists>w'. walk_next K w = Some (Some (dict ! i), w') \<and> walk_at dict d w' (i + 1)"
    and "length dict \<le> i \<Longrightarrow> walk_next K w = Some (None, w)"
proof -
  let ?m = "numBlocks d"
  have blk: "k < ?m \<longleftrightarrow> k * dictBlock < length dict" for k using ok num_dict_blocks_iff by (simp add: sec_ok_def)
  have wd: "w_d w = d" "w_n w = length dict" using at by (simp_all add: walk_at_def)
  have load: "\<exists>w'. walk_next K w = Some (Some (dict ! (w_k w * dictBlock)), w') \<and> walk_at dict d w' (w_k w * dictBlock + 1)"
    if ex: "int (w_i w) \<ge> a_cnt (w_a w)" and k: "w_k w < ?m"
  proof -
    obtain raw z where r: "blockInto K d (w_k w) (a_raw (w_a w)) = Some raw" "raw = marshalRawBlock (dict_block dict (w_k w)) @ z"
      "blockCount (w_k w) (length dict) = int (length (dict_block dict (w_k w)))" using block_read [OF ok k] by metis
    define w1 where "w1 = w\<lparr>w_a := newBlockArena raw (int (length (dict_block dict (w_k w)))), w_i := 0, w_k := w_k w + 1\<rparr>"
    have "walk_next K w = walk_next K w1"
      using ex k r wd by (simp add: walk_next.simps [of K w] w1_def)
    moreover have "0 < length (dict_block dict (w_k w))" using k blk by (simp add: dict_block_def dictBlock_def)
    then have "\<exists>w'. walk_next K w1 = Some (Some (dict ! (w_k w * dictBlock + w_i w1)), w')
        \<and> walk_at dict d w' (w_k w * dictBlock + w_i w1 + 1)"
      by (intro walk_in_block [OF ok k, where raw = raw and z = z]) (use r wd in \<open>simp_all add: w1_def\<close>)
    ultimately show ?thesis by (simp add: w1_def)
  qed
  have stop: "walk_next K w = Some (None, w)" if "int (w_i w) \<ge> a_cnt (w_a w)" "\<not> w_k w < ?m"
    using that wd by (simp add: walk_next.simps [of K w])
  consider (start) "w_k w = 0" "a_cnt (w_a w) = 0" "w_i w = 0" "i = 0"
    | (inside) k raw z where "w_k w = Suc k" "k < ?m" "raw = marshalRawBlock (dict_block dict k) @ z"
        "w_a w = newBlockArena raw (int (length (dict_block dict k)))" "w_i w < length (dict_block dict k)" "i = k * dictBlock + w_i w"
    | (edge) k raw where "w_k w = Suc k" "k < ?m" "w_a w = newBlockArena raw (int (length (dict_block dict k)))"
        "w_i w = length (dict_block dict k)" "i = k * dictBlock + w_i w"
    using at unfolding walk_at_def by (metis le_neq_implies_less)
  then have "(i < length dict \<longrightarrow> (\<exists>w'. walk_next K w = Some (Some (dict ! i), w') \<and> walk_at dict d w' (i + 1)))
    \<and> (length dict \<le> i \<longrightarrow> walk_next K w = Some (None, w))"
  proof cases
    case start
    then show ?thesis using load stop blk [of 0] by auto
  next
    case (inside k raw z)
    then have "i < length dict" by (auto simp: dict_block_def)
    with walk_in_block [OF ok inside(2) wd inside(1,3,4,5)] inside(6) show ?thesis by simp
  next
    case (edge k raw)
    have ex: "int (w_i w) \<ge> a_cnt (w_a w)" using edge by simp
    show ?thesis
    proof (cases "Suc k < ?m")
      case True
      then have "Suc k * dictBlock < length dict" using blk by blast
      then have "length (dict_block dict k) = dictBlock" by (simp add: dict_block_def)
      then have "i = w_k w * dictBlock" using edge by (simp add: add.commute)
      with load [OF ex] True edge(1) blk [of "Suc k"] show ?thesis by auto
    next
      case False
      then have "length dict \<le> Suc k * dictBlock" "k * dictBlock < length dict" using blk [of "Suc k"] blk [of k] edge(2) by auto
      then have "i = length dict" using edge by (simp add: dict_block_def)
      with stop [OF ex] False edge(1) show ?thesis by simp
    qed
  qed
  then show "i < length dict \<Longrightarrow> \<exists>w'. walk_next K w = Some (Some (dict ! i), w') \<and> walk_at dict d w' (i + 1)"
    "length dict \<le> i \<Longrightarrow> walk_next K w = Some (None, w)" by simp_all
qed

lemma walk_start: "parseDictSec sec = Some d \<Longrightarrow> \<exists>w. newDictWalk sec (length dict) = Some w \<and> walk_at dict d w 0"
  by (simp add: newDictWalk_def walk_at_def)

lemma any_wanted_ok:
  "\<forall>i \<in> set is. base + i < length want \<Longrightarrow> any_wanted base want is = Some (\<exists>i \<in> set is. want ! (base + i))"
  by (induction "is") (auto simp: index_ok)

lemma some_vals_ok:
  assumes "\<forall>i \<in> set is. base + i < length want \<and> base + i < length out \<and> blockValAt raw cnt i = Some (dict ! (base + i))"
  shows "\<exists>out'. some_vals raw cnt base want is out = Some out' \<and> length out' = length out
    \<and> (\<forall>j. out' ! j = (if (\<exists>i \<in> set is. j = base + i) \<and> want ! j then dict ! j else out ! j))"
  using assms
proof (induction "is" arbitrary: out)
  case (Cons i "is")
  define out1 where "out1 = (if want ! (base + i) then out[base + i := dict ! (base + i)] else out)"
  have "some_vals raw cnt base want (i # is) out = some_vals raw cnt base want is out1"
    using Cons.prems by (simp add: index_ok set_index_ok out1_def)
  moreover have "length out1 = length out" by (simp add: out1_def)
  moreover obtain out' where "some_vals raw cnt base want is out1 = Some out'" "length out' = length out1"
      "\<forall>j. out' ! j = (if (\<exists>i \<in> set is. j = base + i) \<and> want ! j then dict ! j else out1 ! j)"
    using Cons.IH [of out1] Cons.prems \<open>length out1 = length out\<close> by auto
  ultimately show ?case
    using Cons.prems by (auto simp: out1_def nth_list_update split: if_splits)
qed simp

lemma some_blocks_ok:
  assumes ok: "sec_ok K dict d" and want: "length want = length dict"
  shows "\<lbrakk>\<forall>k \<in> set ks. k < numBlocks d; length out = length dict\<rbrakk> \<Longrightarrow>
    \<exists>out'. some_blocks K d (length dict) want ks out = Some out' \<and> length out' = length dict
      \<and> (\<forall>j < length dict. out' ! j = (if j div dictBlock \<in> set ks \<and> want ! j then dict ! j else out ! j))"
proof (induction ks arbitrary: out)
  case (Cons k ks)
  then have k: "k < numBlocks d" by simp
  obtain raw z where r: "blockInto K d k [] = Some raw" "raw = marshalRawBlock (dict_block dict k) @ z"
    "length (marshalRawBlock (dict_block dict k)) < 2 ^ 32"
    "blockCount k (length dict) = int (length (dict_block dict k))" using block_read [OF ok k] .
  let ?n = "length (dict_block dict k)" and ?base = "k * dictBlock"
  have inb: "?base + i < length dict \<and> i < dictBlock" if "i < ?n" for i using that by (auto simp: dict_block_def)
  have val: "blockValAt raw (int ?n) i = Some (dict ! (?base + i))" if "i < ?n" for i
    using blockValAt_raw [OF r(3) that r(2)] inb [OF that] by (simp add: nth_dict_block)
  have cover: "(\<exists>i < ?n. j = ?base + i) \<longleftrightarrow> j div dictBlock = k" if "j < length dict" for j
  proof
    assume "\<exists>i < ?n. j = ?base + i"
    then show "j div dictBlock = k" using inb by (auto intro: div_nat_eqI)
  next
    assume "j div dictBlock = k"
    then have "j = ?base + j mod dictBlock" "j mod dictBlock < dictBlock" by (auto simp: dictBlock_def)
    moreover from this that have "j mod dictBlock < ?n" by (auto simp: dict_block_def)
    ultimately show "\<exists>i < ?n. j = ?base + i" by blast
  qed
  have aw: "any_wanted ?base want [0..<?n] = Some (\<exists>i < ?n. want ! (?base + i))"
    using any_wanted_ok [of "[0..<?n]" ?base want] inb want by auto
  obtain out1 where o1: "some_vals raw (int ?n) ?base want [0..<?n] out = Some out1" "length out1 = length dict"
    "\<forall>j. out1 ! j = (if (\<exists>i < ?n. j = ?base + i) \<and> want ! j then dict ! j else out ! j)"
    using some_vals_ok [of "[0..<?n]" ?base want out raw "int ?n" dict] inb want Cons.prems(2) val
    by (auto simp: Bex_def)
  define out2 where "out2 = (if \<exists>i < ?n. want ! (?base + i) then out1 else out)"
  have step: "some_blocks K d (length dict) want (k # ks) out = some_blocks K d (length dict) want ks out2"
    using r aw o1(1) by (auto simp: Let_def out2_def)
  have l2: "length out2 = length dict" using o1(2) Cons.prems(2) by (simp add: out2_def)
  have o2: "out2 ! j = (if j div dictBlock = k \<and> want ! j then dict ! j else out ! j)" if "j < length dict" for j
    using o1(3) cover [OF that] by (auto simp: out2_def)
  obtain out' where "some_blocks K d (length dict) want ks out2 = Some out'" "length out' = length dict"
      "\<forall>j < length dict. out' ! j = (if j div dictBlock \<in> set ks \<and> want ! j then dict ! j else out2 ! j)"
    using Cons.IH [OF _ l2] Cons.prems(1) by auto
  with step o2 show ?case by auto
qed simp

lemma dictSectionSome_ok:
  assumes ok: "sec_ok K dict d" and p: "parseDictSec sec = Some d" and want: "length want = length dict"
  shows "dictSectionSome K sec (length dict) want = Some (map (\<lambda>j. if want ! j then dict ! j else []) [0..<length dict])"
proof -
  obtain out' where o: "some_blocks K d (length dict) want [0..<numBlocks d] (replicate (length dict) []) = Some out'"
    "length out' = length dict"
    "\<forall>j < length dict. out' ! j = (if j div dictBlock \<in> {0..<numBlocks d} \<and> want ! j then dict ! j else replicate (length dict) [] ! j)"
    using some_blocks_ok [OF ok want, of "[0..<numBlocks d]" "replicate (length dict) []"] by auto
  have "j div dictBlock < numBlocks d" if "j < length dict" for j
    using that ok num_dict_blocks_iff [of "j div dictBlock" "length dict"]
    by (simp add: sec_ok_def) (meson div_times_less_eq_dividend le_less_trans)
  with o have "out' = map (\<lambda>j. if want ! j then dict ! j else []) [0..<length dict]"
    by (intro nth_equalityI) auto
  with o(1) p show ?thesis by (simp add: dictSectionSome_def)
qed

section \<open>Damaged sections\<close>

lemma parse_total: "returns (parseDictSec sec)"
  unfolding parseDictSec_def by (intro returns_intros; simp)

lemma firstVal_total: "returns (firstVal d k)"
  unfolding firstVal_def by (intro returns_intros; simp)

lemma blockValAt_total: "returns (blockValAt raw cnt i)"
  unfolding blockValAt_def by (intro returns_intros; simp)

lemma hexUnpack_total: "returns (hexUnpackBlockInto K buf packed)"
  unfolding hexUnpackBlockInto_def by (intro returns_intros; simp)

lemma blockInto_total: "returns (blockInto K d k buf)"
  unfolding blockInto_def by (intro returns_intros hexUnpack_total; simp; linarith)

lemma bsearch_total: "\<forall>i. returns (probe i) \<Longrightarrow> returns (bsearch probe lo hi)"
proof (induction probe lo hi rule: bsearch.induct)
  case (1 probe lo hi)
  obtain b where "probe ((lo + hi) div 2) = Some b" using 1(3) by (auto simp: returns_def)
  with 1 show ?case by (cases b) (auto simp: bsearch.simps [of probe lo hi] Let_def)
qed

lemma arena_at_total: "returns (arena_at (newBlockArena raw cnt) i)"
proof (cases "cnt < 0 \<or> 4 * (nat cnt + 1) > length raw")
  case True
  then show ?thesis by (simp add: arena_at_def newBlockArena_def blockValAt_total)
next
  case False
  then show ?thesis
    unfolding arena_at_def newBlockArena_def
    by (auto intro!: returns_intros)
qed

lemma read_vals_total: "returns (read_vals (newBlockArena raw cnt) is)"
  by (induction "is") (auto intro!: returns_bind arena_at_total)

lemma all_blocks_total: "returns (all_blocks K d n ks buf out)"
  by (induction ks arbitrary: buf out)
    (auto simp: appendBlockVals_def intro!: returns_bind blockInto_total read_vals_total)

lemma search_total: "returns (dictSectionSearch K sec n v)"
  unfolding dictSectionSearch_def
  by (intro returns_if returns_let returns_bind parse_total blockInto_total blockValAt_total bsearch_total allI)
    (simp_all add: firstVal_total blockValAt_total)

lemma at_total: "returns (dictSectionAt K sec n i)"
  unfolding dictSectionAt_def
  by (intro returns_if returns_let returns_bind parse_total blockInto_total blockValAt_total) simp

lemma all_total: "returns (dictSectionAll K sec n)"
  unfolding dictSectionAll_def by (intro returns_bind parse_total all_blocks_total)

section \<open>Properties\<close>

text \<open>The values a walk yields before it stops, at most \<open>fuel\<close> of them.\<close>

fun walk_vals :: "dict_kernels \<Rightarrow> nat \<Rightarrow> dictWalk \<Rightarrow> bytes list option" where
  "walk_vals K 0 w = Some []" |
  "walk_vals K (Suc fuel) w = do {
     (v, w') \<leftarrow> walk_next K w;
     (case v of None \<Rightarrow> Some [] | Some x \<Rightarrow> do { xs \<leftarrow> walk_vals K fuel w'; Some (x # xs) })
   }"

lemma walk_vals_ok:
  assumes ok: "sec_ok K dict d"
  shows "walk_at dict d w i \<Longrightarrow> i \<le> length dict \<Longrightarrow> walk_vals K fuel w = Some (take fuel (drop i dict))"
proof (induction fuel arbitrary: w i)
  case (Suc fuel)
  show ?case
  proof (cases "i < length dict")
    case True
    then obtain w' where "walk_next K w = Some (Some (dict ! i), w')" "walk_at dict d w' (i + 1)"
      using walk_next_ok(1) [OF ok Suc.prems(1)] by blast
    then show ?thesis using Suc.IH [of w' "i + 1"] True by (simp add: Cons_nth_drop_Suc [symmetric])
  next
    case False
    then show ?thesis using walk_next_ok(2) [OF ok Suc.prems(1)] by simp
  qed
qed simp

lemma walk_next_total:
  "w_a w = newBlockArena raw cnt \<Longrightarrow>
   \<exists>v w' raw' cnt'. walk_next K w = Some (v, w') \<and> w_a w' = newBlockArena raw' cnt'"
proof (induction K w arbitrary: raw cnt rule: walk_next.induct)
  case (1 K w)
  show ?case
  proof (cases "int (w_i w) \<ge> a_cnt (w_a w) \<and> w_k w < numBlocks (w_d w)")
    case True
    obtain r where r: "blockInto K (w_d w) (w_k w) (a_raw (w_a w)) = Some r"
      using blockInto_total [of K "w_d w" "w_k w" "a_raw (w_a w)"] by (auto simp: returns_def)
    have "\<exists>v w' raw' cnt'. walk_next K (w\<lparr>w_a := newBlockArena r (blockCount (w_k w) (w_n w)), w_i := 0, w_k := w_k w + 1\<rparr>)
        = Some (v, w') \<and> w_a w' = newBlockArena raw' cnt'"
      by (rule 1(1)) (use True r in simp_all)
    then show ?thesis using True r by (simp add: walk_next.simps [of K w])
  next
    case False
    then show ?thesis
      using "1.prems" arena_at_total [of raw cnt "w_i w"]
      by (auto simp: walk_next.simps [of K w] returns_def; blast)
  qed
qed

lemma walk_vals_total: "w_a w = newBlockArena raw cnt \<Longrightarrow> returns (walk_vals K fuel w)"
proof (induction fuel arbitrary: w raw cnt)
  case (Suc fuel)
  obtain v w' raw' cnt' where "walk_next K w = Some (v, w')" "w_a w' = newBlockArena raw' cnt'"
    using walk_next_total [OF Suc.prems] by blast
  then show ?case using Suc.IH [of w' raw' cnt'] by (auto simp: returns_def split: option.split)
qed (simp add: returns_def)

text \<open>A dictionary section answers every question about the dictionary it was written from, and
  without materialising more than it must: the value of each id, the id of each value (or that it is
  absent), the values of any wanted subset, the whole dictionary, and the same values one by one
  through the streaming walk.  This holds whichever of the three block codecs (hex packing, LZ4, flate
  in a compact group) each block was written with.\<close>

theorem dict_section_exact:
  assumes "kernels_ok K" and "dict_fits K compact dict" and "sorted_wrt (<) dict"
    and "sec = marshalDictSection K dict compact" and "n = length dict"
  shows "(\<forall>i < n. dictSectionAt K sec n i = Some (dict ! i))
    \<and> (\<forall>v. dictSectionSearch K sec n v = Some (find (\<lambda>i. dict ! i = v) [0..<n]))
    \<and> (\<forall>want. length want = n \<longrightarrow>
           dictSectionSome K sec n want = Some (map (\<lambda>j. if want ! j then dict ! j else []) [0..<n]))
    \<and> dictSectionAll K sec n = Some dict
    \<and> (\<exists>w. newDictWalk sec n = Some w \<and> (\<forall>fuel. walk_vals K fuel w = Some (take fuel dict)))"
proof (intro conjI)
  obtain d where p: "parseDictSec sec = Some d" and ok: "sec_ok K dict d"
    using parse_ok [OF assms(1,2)] unfolding assms(4) by blast
  show "\<forall>i < n. dictSectionAt K sec n i = Some (dict ! i)"
    using dictSectionAt_ok [OF ok p] by (simp add: assms(5))
  show "\<forall>v. dictSectionSearch K sec n v = Some (find (\<lambda>i. dict ! i = v) [0..<n])"
    using dictSectionSearch_ok [OF ok p assms(3)] by (simp add: assms(5))
  show "\<forall>want. length want = n \<longrightarrow>
      dictSectionSome K sec n want = Some (map (\<lambda>j. if want ! j then dict ! j else []) [0..<n])"
    using dictSectionSome_ok [OF ok p] by (simp add: assms(5))
  show "dictSectionAll K sec n = Some dict" using dictSectionAll_ok [OF ok p] by (simp add: assms(5))
  show "\<exists>w. newDictWalk sec n = Some w \<and> (\<forall>fuel. walk_vals K fuel w = Some (take fuel dict))"
    using walk_start [OF p, of dict] walk_vals_ok [OF ok, of _ 0] by (fastforce simp: assms(5))
qed

text \<open>A concrete set of kernels: the reference LZ4 decoder, the hex table, and stored blocks for flate.\<close>

definition ref_kernels :: dict_kernels where
  "ref_kernels = \<lparr>lz4_k = ref_lz4k, hexEncode = hex_expand, deflate = (\<lambda>b. b), inflate = (\<lambda>b. b)\<rparr>"

lemma ref_kernels_ok: "kernels_ok ref_kernels"
  using ref_lz4k_spec by (simp add: kernels_ok_def ref_kernels_def)

lemma fits_small: "dict_fits ref_kernels True [[97, 98], [104, 105]]"
  by (simp add: dict_fits_def section_shape [OF refl] num_dict_blocks_def dictBlock_def fv_upto_def comp_upto_def
      enc_of_def encode_block_def dict_block_def allLowerHex_def isLowerHexByte_def ref_kernels_def marshalRawBlock_def)

theorem dict_section_exact_witness:
  "\<exists>sec. sec = marshalDictSection ref_kernels [[97, 98], [104, 105]] True \<and> dictSectionAt ref_kernels sec 2 1 = Some [104, 105]
    \<and> dictSectionSearch ref_kernels sec 2 [104, 105] = Some (Some 1) \<and> dictSectionSearch ref_kernels sec 2 [104] = Some None"
proof -
  have s: "sorted_wrt (<) [[97, 98], [104, 105 :: byte]]" by simp
  have l: "length [[97, 98], [104, 105 :: byte]] = 2" by simp
  have f: "find (\<lambda>i. [[97, 98], [104, 105 :: byte]] ! i = v) [0..<2]
      = (if v = [97, 98] then Some 0 else if v = [104, 105] then Some 1 else None)" for v
    by (auto simp: upt_rec)
  from dict_section_exact [OF ref_kernels_ok fits_small s refl refl] show ?thesis
    unfolding l f by simp
qed

text \<open>No section, however damaged, makes a dictionary lookup panic: parsing, search, random access and
  a full decode return on every byte string, every declared value count and every kernel behaviour,
  and so does every step of the streaming walk.\<close>

theorem dict_section_no_panic:
  "returns (dictSectionSearch K sec n v) \<and> returns (dictSectionAt K sec n i) \<and> returns (dictSectionAll K sec n)
   \<and> (\<exists>w. newDictWalk sec n = Some w \<and> (\<forall>fuel. returns (walk_vals K fuel w)))"
proof -
  obtain w where w: "newDictWalk sec n = Some w" "w_a w = newBlockArena [] 0"
    using parse_total [of sec] by (auto simp: newDictWalk_def returns_def newBlockArena_def)
  then show ?thesis using search_total at_total all_total walk_vals_total by blast
qed

end
