(* ===== verification/Timestamps.thy ===== *)
theory Timestamps
  imports Varint
begin

text \<open>
  The timestamp column of \<^verbatim>\<open>internal/storage/column.go\<close>: delta and zig-zag varint
  encoding with a checkpoint every \<^verbatim>\<open>tsBlock\<close> rows, the whole-column decode, the point
  read, the range read and the window filter that skips blocks by their minimum and maximum.

  An \<^verbatim>\<open>int64\<close> is a 64-bit word: subtraction and addition wrap as in Go, comparisons are
  of \<open>sint\<close>.  \<^verbatim>\<open>simd.VarintDecode\<close> is a parameter of the whole-column decode.
\<close>

section \<open>Encoding\<close>

definition tsBlock :: nat where "tsBlock = 512"
definition tsHdrStride :: nat where "tsHdrStride = 28"

text \<open>The locals of \<^verbatim>\<open>encodeTimestamps\<close>.\<close>

record tsenc =
  te_offs :: "u32 list"
  te_bases :: "u64 list"
  te_mins :: "u64 list"
  te_maxs :: "u64 list"
  te_stream :: bytes
  te_prev :: u64

definition ts_init :: "nat \<Rightarrow> tsenc" where
  "ts_init numBlocks = \<lparr>te_offs = replicate numBlocks 0, te_bases = replicate numBlocks 0,
     te_mins = replicate numBlocks 0, te_maxs = replicate numBlocks 0, te_stream = [], te_prev = 0\<rparr>"

text \<open>One turn of the loop over the rows.\<close>

definition ts_step :: "tsenc \<Rightarrow> nat \<times> u64 \<Rightarrow> tsenc" where
  "ts_step e0 it = (case it of (i, t) \<Rightarrow>
     let b = i div tsBlock;
         e1 = (if i mod tsBlock = 0
               then e0\<lparr>te_offs := (te_offs e0)[b := of_nat (length (te_stream e0))],
                       te_bases := (te_bases e0)[b := te_prev e0],
                       te_mins := (te_mins e0)[b := t], te_maxs := (te_maxs e0)[b := t]\<rparr>
               else e0);
         e2 = (if sint t < sint (te_mins e1 ! b) then e1\<lparr>te_mins := (te_mins e1)[b := t]\<rparr> else e1);
         e3 = (if sint t > sint (te_maxs e2 ! b) then e2\<lparr>te_maxs := (te_maxs e2)[b := t]\<rparr> else e2);
         d = (if i > 0 then t - te_prev e3 else t)
     in e3\<lparr>te_prev := t, te_stream := te_stream e3 @ put_uvarint (zigzag d)\<rparr>)"

definition ts_header :: "tsenc \<Rightarrow> nat \<Rightarrow> bytes" where
  "ts_header e k = appI64 (appI64 (appI64 (appU32 [] (te_offs e ! k)) (te_bases e ! k)) (te_mins e ! k)) (te_maxs e ! k)"

definition encodeTimestamps :: "u64 list \<Rightarrow> bytes" where
  "encodeTimestamps ts = (if ts = [] then [] else
     let numBlocks = (length ts + tsBlock - 1) div tsBlock;
         e = foldl ts_step (ts_init numBlocks) (enumerate 0 ts)
     in appU32 (appU32 [] (of_nat numBlocks)) (of_nat tsBlock)
        @ concat (map (ts_header e) [0..<numBlocks]) @ te_stream e)"

section \<open>Decoding\<close>

definition tsHeaderLen :: "bytes \<Rightarrow> nat option" where
  "tsHeaderLen b = do { nb \<leftarrow> getn b 0; Some (8 + nb * tsHdrStride) }"

definition tsStream :: "bytes \<Rightarrow> bytes option" where
  "tsStream b = (if length b < 8 then Some [] else do { h \<leftarrow> tsHeaderLen b; slice_from b h })"

text \<open>
  The row loop that the window filter, the range read and the point read share: from a byte
  position and a running timestamp, the timestamps of at most \<open>n\<close> rows, fewer when the stream
  ends or holds an overlong varint.
\<close>

fun ts_walk :: "bytes \<Rightarrow> nat \<Rightarrow> nat \<Rightarrow> u64 \<Rightarrow> u64 list" where
  "ts_walk stream 0 pos prev = []"
| "ts_walk stream (Suc n) pos prev =
     (if pos \<ge> length stream then [] else
      case uvarint (drop pos stream) of (d, w) \<Rightarrow>
        if w \<le> 0 then []
        else (let prev' = prev + unzigzag d in prev' # ts_walk stream n (pos + nat w) prev'))"

text \<open>\<^verbatim>\<open>decodeInto\<close>: the kernel's values, un-zig-zagged and summed from zero.\<close>

fun undelta :: "u64 \<Rightarrow> u64 list \<Rightarrow> u64 list" where
  "undelta prev [] = []"
| "undelta prev (r # raw) = (let p = prev + unzigzag r in p # undelta p raw)"

definition decodeInto :: "(nat \<Rightarrow> bytes \<Rightarrow> u64 list) \<Rightarrow> bytes \<Rightarrow> nat \<Rightarrow> u64 list option" where
  "decodeInto varintDecode b n = do { s \<leftarrow> tsStream b; Some (undelta 0 (varintDecode n s)) }"

definition decodeTimestamps :: "(nat \<Rightarrow> bytes \<Rightarrow> u64 list) \<Rightarrow> bytes \<Rightarrow> nat \<Rightarrow> u64 list option" where
  "decodeTimestamps varintDecode b n = (if n = 0 then Some [] else decodeInto varintDecode b n)"

text \<open>\<^verbatim>\<open>timeWindowSpan\<close>: the loop over the block headers, carrying \<open>lo\<close> and \<open>hi\<close>.\<close>

fun span_blocks :: "bytes \<Rightarrow> nat \<Rightarrow> nat \<Rightarrow> u64 \<Rightarrow> u64 \<Rightarrow> nat list \<Rightarrow> nat \<times> nat \<Rightarrow> (nat \<times> nat) option" where
  "span_blocks b n bs from to [] lh = Some lh"
| "span_blocks b n bs from to (k # ks) (lo, hi) = do {
     let hdr = 8 + k * tsHdrStride;
     mn \<leftarrow> geti64_at b (hdr + 12);
     mx \<leftarrow> geti64_at b (hdr + 20);
     if sint mx < sint from \<or> sint mn \<ge> sint to then span_blocks b n bs from to ks (lo, hi)
     else (let bl = k * bs; bh = min (bl + bs) n in
       span_blocks b n bs from to ks (if bl < lo then bl else lo, if bh > hi then bh else hi))
   }"

definition timeWindowSpan :: "bytes \<Rightarrow> nat \<Rightarrow> u64 \<Rightarrow> u64 \<Rightarrow> (nat \<times> nat) option" where
  "timeWindowSpan b n from to = (if length b < 8 then Some (0, n) else do {
     numBlocks \<leftarrow> getn b 0;
     bs \<leftarrow> getn b 4;
     (lo, hi) \<leftarrow> span_blocks b n bs from to [0..<numBlocks] (n, 0);
     Some (if lo \<ge> hi then (0, 0) else (lo, hi))
   })"

definition in_window :: "u64 \<Rightarrow> u64 \<Rightarrow> u64 \<Rightarrow> bool" where
  "in_window from to t \<longleftrightarrow> sint from \<le> sint t \<and> sint t < sint to"

text \<open>
  \<^verbatim>\<open>decodeTimeRangeInto\<close>: skip, fill or decode each block.  The caller's \<open>out\<close> is cleared
  to \<open>n\<close> cells before anything is written, so its contents are not an argument here.
\<close>

fun range_blocks :: "bytes \<Rightarrow> bytes \<Rightarrow> nat \<Rightarrow> nat \<Rightarrow> u64 \<Rightarrow> u64 \<Rightarrow> nat list \<Rightarrow> bool list \<Rightarrow> bool list option" where
  "range_blocks b stream n bs from to [] out = Some out"
| "range_blocks b stream n bs from to (k # ks) out = do {
     let hdr = 8 + k * tsHdrStride;
     mn \<leftarrow> geti64_at b (hdr + 12);
     mx \<leftarrow> geti64_at b (hdr + 20);
     if sint mx < sint from \<or> sint mn \<ge> sint to then range_blocks b stream n bs from to ks out
     else (
       let lo = k * bs; hi = min (lo + bs) n in
       if sint mn \<ge> sint from \<and> sint mx < sint to
       then range_blocks b stream n bs from to ks (foldl (\<lambda>o' i. o'[i := True]) out [lo..<hi])
       else do {
         prev \<leftarrow> geti64_at b (hdr + 4);
         pos \<leftarrow> getn b hdr;
         range_blocks b stream n bs from to ks
           (foldl (\<lambda>o' (i, v). o'[i := in_window from to v]) out
              (enumerate lo (ts_walk stream (hi - lo) pos prev)))
       })
   }"

definition decodeTimeRangeInto :: "bytes \<Rightarrow> nat \<Rightarrow> u64 \<Rightarrow> u64 \<Rightarrow> bool list option" where
  "decodeTimeRangeInto b n from to = (
     let out = replicate n False in
     if length b < 8 then Some out else do {
       numBlocks \<leftarrow> getn b 0;
       bs \<leftarrow> getn b 4;
       stream \<leftarrow> slice_from b (8 + numBlocks * tsHdrStride);
       range_blocks b stream n bs from to [0..<numBlocks] out
     })"

text \<open>
  \<^verbatim>\<open>decodeTsRangeInto\<close>; \<open>dst\<close> is the caller's buffer up to its capacity, whatever it holds.
  A division by a zero block size panics.
\<close>

definition decodeTsRangeInto :: "u64 list \<Rightarrow> bytes \<Rightarrow> nat \<Rightarrow> nat \<Rightarrow> u64 list option" where
  "decodeTsRangeInto dst b lo hi = (if hi \<le> lo \<or> length b < 8 then Some [] else do {
     numBlocks \<leftarrow> getn b 0;
     bs \<leftarrow> getn b 4;
     stream \<leftarrow> slice_from b (8 + numBlocks * tsHdrStride);
     if bs = 0 then None else do {
       let k = lo div bs;
       let hdr = 8 + k * tsHdrStride;
       prev \<leftarrow> geti64_at b (hdr + 4);
       pos \<leftarrow> getn b hdr;
       let out = (if length dst < hi - lo then replicate (hi - lo) 0 else take (hi - lo) dst);
       let vs = ts_walk stream (hi - k * bs) pos prev;
       let out1 = foldl (\<lambda>o' (i, v). if i \<ge> lo then o'[i - lo := v] else o') out (enumerate (k * bs) vs);
       let i = k * bs + length vs;
       Some (if i < hi then take (i - lo) out1 @ replicate (length out1 - (i - lo)) 0 else out1)
     }
   })"

definition decodeTsAt :: "bytes \<Rightarrow> nat \<Rightarrow> u64 option" where
  "decodeTsAt b row = do {
     numBlocks \<leftarrow> getn b 0;
     bs \<leftarrow> getn b 4;
     if bs = 0 then None else
     (let k = row div bs in
      if k \<ge> numBlocks then Some 0 else do {
        let hdr = 8 + k * tsHdrStride;
        off \<leftarrow> getn b hdr;
        prev \<leftarrow> geti64_at b (hdr + 4);
        stream \<leftarrow> slice_from b (8 + numBlocks * tsHdrStride);
        let vs = ts_walk stream (row + 1 - k * bs) off prev;
        Some (if vs = [] then prev else last vs)
      })
   }"

section \<open>What the encoder writes\<close>

text \<open>The running timestamp before row \<open>i\<close>, the stream of the first rows, and the rows of a block.\<close>

definition ts_prev :: "u64 list \<Rightarrow> nat \<Rightarrow> u64" where
  "ts_prev ts i = (if i = 0 then 0 else ts ! (i - 1))"

definition ts_codes :: "u64 list \<Rightarrow> u64 list" where
  "ts_codes ts = map (\<lambda>i. zigzag (ts ! i - ts_prev ts i)) [0..<length ts]"

definition ts_bytes :: "u64 list \<Rightarrow> bytes" where
  "ts_bytes ts = uvar.puts (ts_codes ts)"

definition ts_block :: "nat \<Rightarrow> u64 list \<Rightarrow> u64 list" where
  "ts_block k ts = take tsBlock (drop (k * tsBlock) ts)"

lemma length_ts_codes [simp]: "length (ts_codes ts) = length ts"
  by (simp add: ts_codes_def)

lemma nth_ts_codes [simp]: "i < length ts \<Longrightarrow> ts_codes ts ! i = zigzag (ts ! i - ts_prev ts i)"
  by (simp add: ts_codes_def)

lemma ts_prev_append [simp]: "i \<le> length ts \<Longrightarrow> ts_prev (ts @ us) i = ts_prev ts i"
  by (auto simp: ts_prev_def nth_append)

lemma ts_codes_snoc: "ts_codes (ts @ [t]) = ts_codes ts @ [zigzag (t - ts_prev ts (length ts))]"
  by (simp add: ts_codes_def nth_append)

lemma take_ts_codes: "take i (ts_codes ts) = ts_codes (take i ts)"
  by (cases "i \<le> length ts") (auto simp: ts_codes_def take_map ts_prev_def)

lemma ts_bytes_snoc:
  "ts_bytes (ts @ [t]) = ts_bytes ts @ put_uvarint (zigzag (t - ts_prev ts (length ts)))"
  by (simp add: ts_bytes_def ts_codes_snoc)

lemma ts_prev_last: "ts_prev ts (length ts) = (if ts = [] then 0 else last ts)"
  by (simp add: ts_prev_def last_conv_nth)

definition block_bounds :: "u64 list \<Rightarrow> u64 \<Rightarrow> u64 \<Rightarrow> bool" where
  "block_bounds bl mn mx \<longleftrightarrow> mn \<in> set bl \<and> mx \<in> set bl \<and> (\<forall>t \<in> set bl. sint mn \<le> sint t \<and> sint t \<le> sint mx)"

text \<open>After the rows \<open>ts\<close> the encoder's locals describe them and every block begun so far.\<close>

definition ts_inv :: "nat \<Rightarrow> u64 list \<Rightarrow> tsenc \<Rightarrow> bool" where
  "ts_inv N ts e \<longleftrightarrow> te_stream e = ts_bytes ts \<and> te_prev e = ts_prev ts (length ts)
     \<and> length (te_offs e) = N \<and> length (te_bases e) = N \<and> length (te_mins e) = N \<and> length (te_maxs e) = N
     \<and> (\<forall>k. k * tsBlock < length ts \<longrightarrow>
           te_offs e ! k = of_nat (length (ts_bytes (take (k * tsBlock) ts)))
           \<and> te_bases e ! k = ts_prev ts (k * tsBlock)
           \<and> block_bounds (ts_block k ts) (te_mins e ! k) (te_maxs e ! k))"

lemma ts_block_snoc:
  "ts_block k (ts @ [t]) = (if k * tsBlock \<le> length ts \<and> length ts < (k + 1) * tsBlock
     then ts_block k ts @ [t] else ts_block k ts)"
  by (auto simp: ts_block_def not_less)

lemma ts_block_fresh: "length ts \<le> k * tsBlock \<Longrightarrow> ts_block k ts = []"
  by (simp add: ts_block_def)

lemma ts_step_fields:
  assumes "b = i div tsBlock" "b < length (te_mins e)" "b < length (te_maxs e)"
  shows "te_offs (ts_step e (i, t)) = (if i mod tsBlock = 0
            then (te_offs e)[b := of_nat (length (te_stream e))] else te_offs e)"
    and "te_bases (ts_step e (i, t)) = (if i mod tsBlock = 0 then (te_bases e)[b := te_prev e] else te_bases e)"
    and "te_mins (ts_step e (i, t)) = (if i mod tsBlock = 0 \<or> sint t < sint (te_mins e ! b)
            then (te_mins e)[b := t] else te_mins e)"
    and "te_maxs (ts_step e (i, t)) = (if i mod tsBlock = 0 \<or> sint t > sint (te_maxs e ! b)
            then (te_maxs e)[b := t] else te_maxs e)"
    and "te_prev (ts_step e (i, t)) = t"
    and "te_stream (ts_step e (i, t)) = te_stream e @ put_uvarint (zigzag (if i > 0 then t - te_prev e else t))"
  using assms by (simp_all add: ts_step_def Let_def)

lemma block_bounds_snoc:
  "block_bounds bl mn mx \<Longrightarrow> block_bounds (bl @ [t]) (if sint t < sint mn then t else mn)
     (if sint t > sint mx then t else mx)"
  by (auto simp: block_bounds_def)

lemma ts_step_inv:
  assumes inv: "ts_inv N ts e" and room: "length ts < N * tsBlock"
  shows "ts_inv N (ts @ [t]) (ts_step e (length ts, t))"
proof -
  let ?n = "length ts"
  define b where "b = ?n div tsBlock"
  have tb: "0 < tsBlock" by (simp add: tsBlock_def)
  have bN: "b < N" using room tb by (simp add: b_def less_mult_imp_div_less)
  have bn: "b * tsBlock \<le> ?n" "?n < (b + 1) * tsBlock"
    using tb by (simp_all add: b_def dividend_less_div_times)
  have nb: "?n mod tsBlock = 0 \<longleftrightarrow> ?n = b * tsBlock"
    by (metis b_def dvd_div_mult_self dvd_triv_right mod_eq_0_iff_dvd)
  have uniq: "k = b" if "k * tsBlock \<le> ?n" "?n < (k + 1) * tsBlock" for k
    using that tb by (simp add: b_def div_nat_eqI mult.commute)
  have len: "length (te_mins e) = N" "length (te_maxs e) = N" "length (te_offs e) = N" "length (te_bases e) = N"
    and st: "te_stream e = ts_bytes ts" and pv: "te_prev e = ts_prev ts ?n"
    using inv by (simp_all add: ts_inv_def)
  have old: "te_offs e ! k = of_nat (length (ts_bytes (take (k * tsBlock) ts)))"
      "te_bases e ! k = ts_prev ts (k * tsBlock)"
      "block_bounds (ts_block k ts) (te_mins e ! k) (te_maxs e ! k)" if "k * tsBlock < ?n" for k
    using inv that by (simp_all add: ts_inv_def)
  note fl = ts_step_fields [OF b_def, of e t, unfolded len, OF bN bN]
  have each: "te_offs (ts_step e (?n, t)) ! k = of_nat (length (ts_bytes (take (k * tsBlock) (ts @ [t]))))
      \<and> te_bases (ts_step e (?n, t)) ! k = ts_prev (ts @ [t]) (k * tsBlock)
      \<and> block_bounds (ts_block k (ts @ [t])) (te_mins (ts_step e (?n, t)) ! k) (te_maxs (ts_step e (?n, t)) ! k)"
    if k: "k * tsBlock < ?n + 1" for k
  proof (cases "k = b")
    case True
    show ?thesis
    proof (cases "?n mod tsBlock = 0")
      case m: True
      then show ?thesis
        unfolding fl using True bN nb bn len st pv
        by (simp add: ts_block_snoc ts_block_fresh block_bounds_def)
    next
      case m: False
      then have lt: "b * tsBlock < ?n" using nb bn by simp
      show ?thesis
        using True m bN bn len old [OF lt] block_bounds_snoc [of "ts_block b ts" "te_mins e ! b" "te_maxs e ! b" t] lt
        by (simp add: fl ts_block_snoc split: if_splits)
    qed
  next
    case False
    then have "k * tsBlock < ?n"
      using k uniq [of k] tb by (cases "k * tsBlock = ?n") auto
    with False uniq [of k] show ?thesis
      using old [of k] by (auto simp: fl ts_block_snoc)
  qed
  have z: "(if ?n > 0 then t - te_prev e else t) = t - ts_prev ts ?n"
    by (simp add: pv ts_prev_def)
  have "ts_prev (ts @ [t]) (length (ts @ [t])) = t" by (simp add: ts_prev_def)
  with each z st len show ?thesis
    by (simp add: ts_inv_def fl ts_bytes_snoc)
qed

lemma ts_loop_inv:
  "length ts \<le> N * tsBlock \<Longrightarrow> ts_inv N ts (foldl ts_step (ts_init N) (enumerate 0 ts))"
proof (induction ts rule: rev_induct)
  case Nil
  show ?case by (simp add: ts_inv_def ts_init_def ts_bytes_def ts_codes_def ts_prev_def)
next
  case (snoc t ts)
  then show ?case using ts_step_inv [of N ts _ t] by (simp add: enumerate_append_eq)
qed

text \<open>
  The layout a reader finds: the counts, the stream behind the headers and, per block, the
  checkpoint and the bounds.
\<close>

definition ts_blocks :: "u64 list \<Rightarrow> nat" where
  "ts_blocks ts = (length ts + tsBlock - 1) div tsBlock"

definition ts_layout :: "bytes \<Rightarrow> u64 list \<Rightarrow> (nat \<Rightarrow> u64) \<Rightarrow> (nat \<Rightarrow> u64) \<Rightarrow> bool" where
  "ts_layout b ts mn mx \<longleftrightarrow> 8 \<le> length b
     \<and> getn b 0 = Some (ts_blocks ts) \<and> getn b 4 = Some tsBlock
     \<and> slice_from b (8 + ts_blocks ts * tsHdrStride) = Some (ts_bytes ts)
     \<and> (\<forall>k < ts_blocks ts. let hdr = 8 + k * tsHdrStride in
          getn b hdr = Some (length (ts_bytes (take (k * tsBlock) ts)))
          \<and> geti64_at b (hdr + 4) = Some (ts_prev ts (k * tsBlock))
          \<and> geti64_at b (hdr + 12) = Some (mn k) \<and> geti64_at b (hdr + 20) = Some (mx k)
          \<and> block_bounds (ts_block k ts) (mn k) (mx k))"

lemma ts_blocks_iff: "k < ts_blocks ts \<longleftrightarrow> k * tsBlock < length ts"
proof -
  have "k < ts_blocks ts \<longleftrightarrow> (k + 1) * tsBlock \<le> length ts + tsBlock - 1"
    unfolding ts_blocks_def by (simp add: less_eq_div_iff_mult_less_eq tsBlock_def flip: Suc_le_eq)
  also have "\<dots> \<longleftrightarrow> k * tsBlock < length ts" by (auto simp: tsBlock_def)
  finally show ?thesis .
qed

lemma length_ts_bytes: "length ts \<le> length (ts_bytes ts)" "length (ts_bytes ts) \<le> 10 * length ts"
proof -
  have "length xs \<le> length (uvar.puts xs)" for xs
  proof (induction xs)
    case (Cons x xs)
    moreover have "0 < length (put_uvarint x)" by simp
    ultimately show ?case by (simp del: length_greater_0_conv)
  qed simp
  from this [of "ts_codes ts"] show "length ts \<le> length (ts_bytes ts)" by (simp add: ts_bytes_def)
  show "length (ts_bytes ts) \<le> 10 * length ts"
    using length_puts_uvarint [of "ts_codes ts"] by (simp add: ts_bytes_def)
qed

lemma length_ts_header [simp]: "length (ts_header e k) = 28"
  by (simp add: ts_header_def appI64_def)

lemma geti64_at_put: "i = length p \<Longrightarrow> geti64_at (p @ putU64 v @ r) i = Some v"
  by (simp add: geti64_at_def slice_from_def geti64_def le64_putU64)

lemma getn_put: "i = length p \<Longrightarrow> getn (p @ putU32 v @ r) i = Some (unat v)"
  by (simp add: getn_def get32_at)

lemma ts_layout_encode:
  assumes ne: "ts \<noteq> []" and fits: "length (ts_bytes ts) < 2 ^ 32"
  obtains mn mx where "ts_layout (encodeTimestamps ts) ts mn mx"
proof -
  let ?N = "ts_blocks ts"
  define e where "e = foldl ts_step (ts_init ?N) (enumerate 0 ts)"
  let ?hs = "map (ts_header e) [0..<?N]"
  define b where "b = encodeTimestamps ts"
  have b: "b = putU32 (of_nat ?N) @ putU32 (of_nat tsBlock) @ concat ?hs @ te_stream e"
    using ne by (simp add: b_def encodeTimestamps_def e_def ts_blocks_def Let_def appU32_def)
  have "\<not> ?N < ?N" by simp
  then have "length ts \<le> ?N * tsBlock" unfolding ts_blocks_iff by simp
  then have inv: "ts_inv ?N ts e" unfolding e_def by (rule ts_loop_inv)
  then have st: "te_stream e = ts_bytes ts" by (simp add: ts_inv_def)
  have "?N \<le> length ts"
    using ts_blocks_iff [of "length ts" ts] by (simp add: tsBlock_def)
  then have N32: "?N < 2 ^ 32" using fits length_ts_bytes(1) [of ts] by linarith
  have lens: "length (concat ?hs) = ?N * tsHdrStride"
    by (subst length_concat_uniform [where w = 28]) (auto simp: tsHdrStride_def)
  have g0: "getn b 0 = Some ?N" using N32 getn_put [of 0 "[]"] b by simp
  have g4: "getn b 4 = Some tsBlock"
    using getn_put [of 4 "putU32 (of_nat ?N)"] b by (simp add: tsBlock_def)
  have sl: "slice_from b (8 + ?N * tsHdrStride) = Some (ts_bytes ts)"
    using lens st by (simp add: b slice_from_def)
  have "let hdr = 8 + k * tsHdrStride in
          getn b hdr = Some (length (ts_bytes (take (k * tsBlock) ts)))
          \<and> geti64_at b (hdr + 4) = Some (ts_prev ts (k * tsBlock))
          \<and> geti64_at b (hdr + 12) = Some (te_mins e ! k) \<and> geti64_at b (hdr + 20) = Some (te_maxs e ! k)
          \<and> block_bounds (ts_block k ts) (te_mins e ! k) (te_maxs e ! k)" if k: "k < ?N" for k
  proof -
    let ?p = "putU32 (of_nat ?N) @ putU32 (of_nat tsBlock) @ concat (map (ts_header e) [0..<k])"
    let ?q = "concat (map (ts_header e) [Suc k..<?N]) @ te_stream e"
    have "[0..<?N] = [0..<k] @ k # [Suc k..<?N]" using k by (metis le_add1 add_0 upt_add_eq_append
          upt_conv_Cons less_imp_le_nat le_add_diff_inverse)
    then have bk: "b = ?p @ putU32 (te_offs e ! k) @ putU64 (te_bases e ! k) @ putU64 (te_mins e ! k)
        @ putU64 (te_maxs e ! k) @ ?q"
      by (simp add: b ts_header_def appI64_def appU32_def)
    have lp: "length ?p = 8 + k * tsHdrStride"
      by (simp add: tsHdrStride_def length_concat_uniform [where w = 28] del: length_concat)
    have kl: "k * tsBlock < length ts" using k ts_blocks_iff by simp
    have "ts_bytes ts = ts_bytes (take (k * tsBlock) ts) @ uvar.puts (drop (k * tsBlock) (ts_codes ts))"
      by (metis append_take_drop_id take_ts_codes ts_bytes_def uvar.puts_simps(3))
    then have "length (ts_bytes (take (k * tsBlock) ts)) < 2 ^ 32" using fits by simp
    moreover have "getn b (length ?p) = Some (unat (te_offs e ! k))"
      "geti64_at b (length ?p + 4) = Some (te_bases e ! k)"
      "geti64_at b (length ?p + 12) = Some (te_mins e ! k)"
      "geti64_at b (length ?p + 20) = Some (te_maxs e ! k)"
      unfolding bk using getn_put [of "length ?p" ?p]
        geti64_at_put [of _ "?p @ putU32 (te_offs e ! k)"]
        geti64_at_put [of _ "?p @ putU32 (te_offs e ! k) @ putU64 (te_bases e ! k)"]
        geti64_at_put [of _ "?p @ putU32 (te_offs e ! k) @ putU64 (te_bases e ! k) @ putU64 (te_mins e ! k)"]
      by simp_all
    ultimately show ?thesis
      using inv kl unfolding lp ts_inv_def by simp
  qed
  with g0 g4 sl have "ts_layout b ts (\<lambda>k. te_mins e ! k) (\<lambda>k. te_maxs e ! k)"
    by (simp add: ts_layout_def b)
  then show thesis using that unfolding b_def by blast
qed

section \<open>What the decoders read\<close>

lemma ts_walk_at:
  assumes "i + n \<le> length ts"
  shows "ts_walk (ts_bytes ts) n (length (ts_bytes (take i ts))) (ts_prev ts i) = take n (drop i ts)"
  using assms
proof (induction n arbitrary: i)
  case (Suc n)
  then have i: "i < length ts" by simp
  have pos: "length (ts_bytes (take j ts)) = length (uvar.puts (take j (ts_codes ts)))" for j
    by (simp add: ts_bytes_def take_ts_codes)
  note at = uvar.get_at [of i "ts_codes ts", folded ts_bytes_def pos, simplified, OF i]
  have nx: "ts_prev ts (Suc i) = ts ! i" by (simp add: ts_prev_def)
  have "ts_walk (ts_bytes ts) n (length (ts_bytes (take (Suc i) ts))) (ts_prev ts (Suc i))
      = take n (drop (Suc i) ts)" using Suc by simp
  then show ?case
    using i at by (simp add: nx Cons_nth_drop_Suc [symmetric] Let_def)
qed simp

lemma ts_block_of: "0 < tsBlock" "row div tsBlock * tsBlock \<le> row" "row < (row div tsBlock + 1) * tsBlock"
  by (simp_all add: tsBlock_def dividend_less_div_times)

lemma row_block: "j < length ts \<Longrightarrow> j div tsBlock < ts_blocks ts"
  unfolding ts_blocks_iff by (rule le_less_trans [OF ts_block_of(2)])

lemma decodeTsAt_layout:
  assumes lay: "ts_layout b ts mn mx" and row: "row < length ts"
  shows "decodeTsAt b row = Some (ts ! row)"
proof -
  define k where "k = row div tsBlock"
  have kb: "k * tsBlock \<le> row" "0 < tsBlock" using ts_block_of by (simp_all add: k_def)
  then have "k * tsBlock < length ts" using row by simp
  then have k: "k < ts_blocks ts" by (simp add: ts_blocks_iff)
  let ?vs = "take (row + 1 - k * tsBlock) (drop (k * tsBlock) ts)"
  have w: "ts_walk (ts_bytes ts) (row + 1 - k * tsBlock) (length (ts_bytes (take (k * tsBlock) ts)))
      (ts_prev ts (k * tsBlock)) = ?vs"
    using kb row by (intro ts_walk_at) simp
  have "?vs \<noteq> [] \<and> last ?vs = ts ! row"
    using kb row by (auto simp: last_conv_nth)
  then show ?thesis
    using lay k w kb(2) by (simp add: decodeTsAt_def ts_layout_def Let_def k_def [symmetric])
qed

lemma nth_foldl_from:
  "j < length out \<Longrightarrow>
   foldl (\<lambda>o' (i, v). if i \<ge> lo then o'[i - lo := v] else o') out (enumerate s vs) ! j
    = (if s \<le> j + lo \<and> j + lo < s + length vs then vs ! (j + lo - s) else out ! j)"
proof (induction vs arbitrary: s out)
  case (Cons v vs)
  then show ?case by (auto simp: nth_list_update nth_Cons' not_less_eq_eq Suc_diff_le)
qed auto

lemma decodeTsRangeInto_layout:
  assumes lay: "ts_layout b ts mn mx" and r: "lo < hi" "hi \<le> length ts"
  shows "decodeTsRangeInto dst b lo hi = Some (take (hi - lo) (drop lo ts))"
proof -
  define k where "k = lo div tsBlock"
  have kb: "k * tsBlock \<le> lo" "0 < tsBlock" using ts_block_of by (simp_all add: k_def)
  then have "k * tsBlock < length ts" using r by simp
  then have k: "k < ts_blocks ts" by (simp add: ts_blocks_iff)
  let ?vs = "take (hi - k * tsBlock) (drop (k * tsBlock) ts)"
  have w: "ts_walk (ts_bytes ts) (hi - k * tsBlock) (length (ts_bytes (take (k * tsBlock) ts)))
      (ts_prev ts (k * tsBlock)) = ?vs"
    using kb r by (intro ts_walk_at) simp
  let ?out = "if length dst < hi - lo then replicate (hi - lo) 0 else take (hi - lo) dst"
  have lv: "k * tsBlock + length ?vs = hi" using kb r by simp
  have "foldl (\<lambda>o' (i, v). if i \<ge> lo then o'[i - lo := v] else o') ?out (enumerate (k * tsBlock) ?vs)
      = take (hi - lo) (drop lo ts)"
    using kb r by (intro nth_equalityI) (auto simp: nth_foldl_from add.commute)
  then show ?thesis
    using lay r k w kb(2) lv by (simp add: decodeTsRangeInto_def ts_layout_def Let_def k_def [symmetric])
qed

text \<open>The window filter: after the blocks \<open>ks\<close>, exactly the rows of those blocks are decided.\<close>

lemma length_foldl_True [simp]: "length (foldl (\<lambda>o' i. o'[i := True]) out is) = length out"
  by (induction "is" arbitrary: out) simp_all

lemma nth_foldl_True:
  "j < length out \<Longrightarrow>
   foldl (\<lambda>o' i. o'[i := True]) out [lo..<hi] ! j = (if lo \<le> j \<and> j < hi then True else out ! j)"
  by (induction hi) (auto simp: nth_list_update less_Suc_eq)

lemma row_in_block:
  assumes "j < length ts" "j div tsBlock = k"
  shows "ts ! j \<in> set (ts_block k ts)"
proof -
  have "k * tsBlock \<le> j" "j < (k + 1) * tsBlock" using assms(2) ts_block_of(2,3) [of j] by simp_all
  then have "ts ! j = ts_block k ts ! (j - k * tsBlock)" "j - k * tsBlock < length (ts_block k ts)"
    using assms(1) by (auto simp: ts_block_def)
  then show ?thesis by (metis nth_mem)
qed

lemma block_rows:
  assumes "k < ts_blocks ts" and "j < length ts"
  shows "k * tsBlock \<le> j \<and> j < min (k * tsBlock + tsBlock) (length ts) \<longleftrightarrow> j div tsBlock = k"
proof
  assume "k * tsBlock \<le> j \<and> j < min (k * tsBlock + tsBlock) (length ts)"
  then show "j div tsBlock = k" by (intro div_nat_eqI) (simp_all add: mult.commute)
next
  assume "j div tsBlock = k"
  then show "k * tsBlock \<le> j \<and> j < min (k * tsBlock + tsBlock) (length ts)"
    using ts_block_of(2,3) [of j] assms(2) by simp
qed

lemma block_decided:
  assumes "block_bounds (ts_block k ts) mn mx" "j < length ts" "j div tsBlock = k"
  shows "sint mx < sint from \<or> sint mn \<ge> sint to \<Longrightarrow> \<not> in_window from to (ts ! j)"
    and "sint mn \<ge> sint from \<and> sint mx < sint to \<Longrightarrow> in_window from to (ts ! j)"
  using assms row_in_block [OF assms(2,3)] by (auto simp: block_bounds_def in_window_def)

lemma range_blocks_layout:
  assumes lay: "ts_layout b ts mn mx"
  shows "\<lbrakk>\<forall>k \<in> set ks. k < ts_blocks ts; distinct ks; length out = length ts;
      \<forall>j < length ts. j div tsBlock \<in> set ks \<longrightarrow> \<not> out ! j\<rbrakk> \<Longrightarrow>
    \<exists>out'. range_blocks b (ts_bytes ts) (length ts) tsBlock from to ks out = Some out'
      \<and> length out' = length ts
      \<and> (\<forall>j < length ts. out' ! j = (if j div tsBlock \<in> set ks then in_window from to (ts ! j) else out ! j))"
proof (induction ks arbitrary: out)
  case (Cons k ks)
  have k: "k < ts_blocks ts" and kl: "k * tsBlock < length ts" using Cons.prems ts_blocks_iff by auto
  let ?hi = "min (k * tsBlock + tsBlock) (length ts)"
  let ?w = "ts_walk (ts_bytes ts) (?hi - k * tsBlock) (length (ts_bytes (take (k * tsBlock) ts))) (ts_prev ts (k * tsBlock))"
  have w: "?w = take (?hi - k * tsBlock) (drop (k * tsBlock) ts)"
    using kl by (intro ts_walk_at) simp
  define out1 where "out1 = (if sint (mx k) < sint from \<or> sint (mn k) \<ge> sint to then out
     else if sint (mn k) \<ge> sint from \<and> sint (mx k) < sint to
     then foldl (\<lambda>o' i. o'[i := True]) out [k * tsBlock..<?hi]
     else foldl (\<lambda>o' (i, v). o'[i := in_window from to v]) out (enumerate (k * tsBlock) ?w))"
  have bb: "block_bounds (ts_block k ts) (mn k) (mx k)" using lay k by (simp add: ts_layout_def Let_def)
  have step: "range_blocks b (ts_bytes ts) (length ts) tsBlock from to (k # ks) out
      = range_blocks b (ts_bytes ts) (length ts) tsBlock from to ks out1"
    using lay k by (simp add: ts_layout_def Let_def out1_def)
  have len1: "length out1 = length ts" using Cons.prems by (simp add: out1_def)
  have o1: "out1 ! j = (if j div tsBlock = k then in_window from to (ts ! j) else out ! j)"
    if j: "j < length ts" for j
  proof -
    note br = block_rows [OF k j]
    have jo: "j < length out" using j Cons.prems(3) by simp
    have wl: "j < k * tsBlock + length ?w \<longleftrightarrow> j < ?hi" unfolding w using kl by auto
    have wj: "?w ! (j - k * tsBlock) = ts ! j" if "j div tsBlock = k"
    proof -
      have "j - k * tsBlock < ?hi - k * tsBlock" using br that by (intro diff_less_mono) simp_all
      then show ?thesis unfolding w using br that by simp
    qed
    have fresh: "\<not> out ! j" if "j div tsBlock = k" using Cons.prems(4) j that by auto
    show ?thesis
    proof (cases "j div tsBlock = k")
      case True
      with br fresh block_decided [OF bb j True] show ?thesis
        unfolding out1_def nth_foldl_update if_distrib [of "\<lambda>l. l ! j"] nth_foldl_True [OF jo] wl
        using wj jo by auto
    next
      case False
      with br show ?thesis
        unfolding out1_def nth_foldl_update if_distrib [of "\<lambda>l. l ! j"] nth_foldl_True [OF jo] wl
        by auto
    qed
  qed
  have nk: "k \<notin> set ks" "distinct ks" using Cons.prems by auto
  have "\<forall>j < length ts. j div tsBlock \<in> set ks \<longrightarrow> \<not> out1 ! j" using o1 nk Cons.prems(4) by auto
  then obtain out' where "range_blocks b (ts_bytes ts) (length ts) tsBlock from to ks out1 = Some out'"
      "length out' = length ts"
      "\<forall>j < length ts. out' ! j = (if j div tsBlock \<in> set ks then in_window from to (ts ! j) else out1 ! j)"
    using Cons.IH [of out1] Cons.prems(1) len1 nk by auto
  with step o1 nk show ?case by auto
qed simp

lemma decodeTimeRangeInto_layout:
  assumes lay: "ts_layout b ts mn mx"
  shows "decodeTimeRangeInto b (length ts) from to = Some (map (in_window from to) ts)"
proof -
  from row_block [of _ ts] range_blocks_layout [OF lay, of "[0..<ts_blocks ts]" "replicate (length ts) False" "from" to]
  obtain out' where "range_blocks b (ts_bytes ts) (length ts) tsBlock from to [0..<ts_blocks ts]
      (replicate (length ts) False) = Some out'" "length out' = length ts"
      "\<forall>j < length ts. out' ! j = in_window from to (ts ! j)" by auto
  moreover from this have "out' = map (in_window from to) ts" by (auto intro: nth_equalityI)
  ultimately show ?thesis
    using lay by (simp add: decodeTimeRangeInto_def ts_layout_def Let_def)
qed

lemma span_blocks_layout:
  assumes lay: "ts_layout b ts mn mx"
  shows "\<forall>k \<in> set ks. k < ts_blocks ts \<Longrightarrow>
    \<exists>lo' hi'. span_blocks b (length ts) tsBlock from to ks (lo, hi) = Some (lo', hi') \<and> lo' \<le> lo \<and> hi \<le> hi'
      \<and> (hi \<le> length ts \<longrightarrow> hi' \<le> length ts)
      \<and> (\<forall>j < length ts. j div tsBlock \<in> set ks \<longrightarrow> in_window from to (ts ! j) \<longrightarrow> lo' \<le> j \<and> j < hi')"
proof (induction ks arbitrary: lo hi)
  case (Cons k ks)
  then have k: "k < ts_blocks ts" by simp
  have bb: "block_bounds (ts_block k ts) (mn k) (mx k)" using lay k by (simp add: ts_layout_def Let_def)
  define skip where "skip \<longleftrightarrow> sint (mx k) < sint from \<or> sint (mn k) \<ge> sint to"
  let ?bl = "k * tsBlock" and ?bh = "min (k * tsBlock + tsBlock) (length ts)"
  define lo1 where "lo1 = (if skip then lo else if ?bl < lo then ?bl else lo)"
  define hi1 where "hi1 = (if skip then hi else if ?bh > hi then ?bh else hi)"
  have step: "span_blocks b (length ts) tsBlock from to (k # ks) (lo, hi)
      = span_blocks b (length ts) tsBlock from to ks (lo1, hi1)"
    using lay k by (simp add: ts_layout_def Let_def lo1_def hi1_def skip_def)
  obtain lo' hi' where ih: "span_blocks b (length ts) tsBlock from to ks (lo1, hi1) = Some (lo', hi')"
      "lo' \<le> lo1" "hi1 \<le> hi'" "hi1 \<le> length ts \<longrightarrow> hi' \<le> length ts"
      "\<forall>j < length ts. j div tsBlock \<in> set ks \<longrightarrow> in_window from to (ts ! j) \<longrightarrow> lo' \<le> j \<and> j < hi'"
    using Cons.IH [of lo1 hi1] Cons.prems by auto
  have here: "lo1 \<le> j \<and> j < hi1"
    if j: "j < length ts" "j div tsBlock = k" "in_window from to (ts ! j)" for j
    using block_rows [OF k j(1)] block_decided(1) [OF bb j(1,2)] j by (auto simp: lo1_def hi1_def skip_def)
  have mono: "lo1 \<le> lo" "hi \<le> hi1" "hi \<le> length ts \<longrightarrow> hi1 \<le> length ts"
    by (auto simp: lo1_def hi1_def)
  show ?case
  proof (intro exI conjI)
    show "span_blocks b (length ts) tsBlock from to (k # ks) (lo, hi) = Some (lo', hi')"
      unfolding step by (rule ih(1))
    show "\<forall>j < length ts. j div tsBlock \<in> set (k # ks) \<longrightarrow> in_window from to (ts ! j) \<longrightarrow> lo' \<le> j \<and> j < hi'"
      using ih here by fastforce
  qed (use ih mono in auto)
qed simp

lemma timeWindowSpan_layout:
  assumes lay: "ts_layout b ts mn mx"
  obtains lo hi where "timeWindowSpan b (length ts) from to = Some (lo, hi)" "lo \<le> hi" "hi \<le> length ts"
    "\<forall>j < length ts. in_window from to (ts ! j) \<longrightarrow> lo \<le> j \<and> j < hi"
proof -
  from row_block [of _ ts] span_blocks_layout [OF lay, of "[0..<ts_blocks ts]" "from" to "length ts" 0]
  obtain lo hi where s: "span_blocks b (length ts) tsBlock from to [0..<ts_blocks ts] (length ts, 0) = Some (lo, hi)"
    "hi \<le> length ts" "\<forall>j < length ts. in_window from to (ts ! j) \<longrightarrow> lo \<le> j \<and> j < hi" by auto
  then have "timeWindowSpan b (length ts) from to = Some (if lo \<ge> hi then (0, 0) else (lo, hi))"
    using lay by (simp add: timeWindowSpan_def ts_layout_def)
  then show thesis
    using that s by (cases "lo \<ge> hi") (fastforce, simp)
qed

lemma undelta_codes: "undelta (ts_prev ts i) (drop i (ts_codes ts)) = drop i ts"
proof (induction "length ts - i" arbitrary: i)
  case 0
  then show ?case by simp
next
  case (Suc n)
  then have i: "i < length ts" by simp
  have "ts_prev ts (Suc i) = ts ! i" by (simp add: ts_prev_def)
  with Suc(1) [of "Suc i"] Suc(2) i show ?case
    by (simp add: Cons_nth_drop_Suc [symmetric] Let_def)
qed

lemma decodeTimestamps_layout:
  assumes "ts_layout b ts mn mx" and "vd (length ts) (ts_bytes ts) = ts_codes ts"
  shows "decodeTimestamps vd b (length ts) = Some ts"
  using assms undelta_codes [of ts 0]
  by (simp add: decodeTimestamps_def decodeInto_def tsStream_def tsHeaderLen_def ts_layout_def ts_prev_def)

section \<open>Damaged columns\<close>

text \<open>
  The geometry the group reader checks before a column is used: the headers fit the span, and a
  non-empty column has a non-zero block size.
\<close>

definition ts_geom :: "bytes \<Rightarrow> bool" where
  "ts_geom b \<longleftrightarrow> length b < 8 \<or> (\<exists>nb bs. getn b 0 = Some nb \<and> getn b 4 = Some bs
     \<and> 8 + nb * tsHdrStride \<le> length b \<and> (nb > 0 \<longrightarrow> bs > 0))"

lemma geti64_at_ok: "i + 8 \<le> length b \<Longrightarrow> \<exists>v. geti64_at b i = Some v"
  using le64_Some_iff [of "drop i b"] by (simp add: geti64_at_def slice_from_def geti64_def)

lemma getn_ok: "i + 4 \<le> length b \<Longrightarrow> \<exists>v. getn b i = Some v"
  using get32_Some_iff [of b i] by (auto simp: getn_def)

lemma hdr_reads:
  assumes "k < nb" "8 + nb * tsHdrStride \<le> length b" "hdr = 8 + k * tsHdrStride"
  shows "\<exists>v. getn b hdr = Some v" "\<exists>v. geti64_at b (hdr + 4) = Some v"
    "\<exists>v. geti64_at b (hdr + 12) = Some v" "\<exists>v. geti64_at b (hdr + 20) = Some v"
proof -
  have "(k + 1) * tsHdrStride \<le> nb * tsHdrStride" using assms(1) by (intro mult_le_mono1) simp
  then have "hdr + 28 \<le> length b" using assms(2,3) by (simp add: tsHdrStride_def)
  then show "\<exists>v. getn b hdr = Some v" "\<exists>v. geti64_at b (hdr + 4) = Some v"
    "\<exists>v. geti64_at b (hdr + 12) = Some v" "\<exists>v. geti64_at b (hdr + 20) = Some v"
    by (simp_all add: getn_ok geti64_at_ok)
qed

lemma range_blocks_total:
  assumes "8 + nb * tsHdrStride \<le> length b"
  shows "\<forall>k \<in> set ks. k < nb \<Longrightarrow>
    \<exists>out'. range_blocks b stream n bs from to ks out = Some out' \<and> length out' = length out"
proof (induction ks arbitrary: out)
  case (Cons k ks)
  then have "k < nb" by simp
  from hdr_reads [OF this assms refl] obtain v1 v2 v3 v4 where
    "getn b (8 + k * tsHdrStride) = Some v1" "geti64_at b (8 + k * tsHdrStride + 4) = Some v2"
    "geti64_at b (8 + k * tsHdrStride + 12) = Some v3" "geti64_at b (8 + k * tsHdrStride + 20) = Some v4"
    by blast
  moreover have "\<exists>out'. range_blocks b stream n bs from to ks o2 = Some out' \<and> length out' = length out"
    if "length o2 = length out" for o2 using Cons that by fastforce
  ultimately show ?case by (simp add: Let_def)
qed simp

lemma span_blocks_total:
  assumes "8 + nb * tsHdrStride \<le> length b"
  shows "\<forall>k \<in> set ks. k < nb \<Longrightarrow> \<exists>lh'. span_blocks b n bs from to ks lh = Some lh'"
proof (induction ks arbitrary: lh)
  case (Cons k ks)
  then have "k < nb" by simp
  from hdr_reads [OF this assms refl] obtain v3 v4 where
    "geti64_at b (8 + k * tsHdrStride + 12) = Some v3" "geti64_at b (8 + k * tsHdrStride + 20) = Some v4"
    by blast
  with Cons show ?case by (cases lh) (simp add: Let_def)
qed simp

lemma ts_no_panic:
  assumes "ts_geom b"
  shows "\<exists>out. decodeTimeRangeInto b n from to = Some out \<and> length out = n"
    and "\<exists>lh. timeWindowSpan b n from to = Some lh"
    and "\<exists>s. tsStream b = Some s"
proof -
  consider "length b < 8" | nb bs where "\<not> length b < 8" "getn b 0 = Some nb" "getn b 4 = Some bs"
    "8 + nb * tsHdrStride \<le> length b"
    using assms by (auto simp: ts_geom_def)
  then have "(\<exists>out. decodeTimeRangeInto b n from to = Some out \<and> length out = n)
    \<and> (\<exists>lh. timeWindowSpan b n from to = Some lh) \<and> (\<exists>s. tsStream b = Some s)"
  proof cases
    case 1
    then show ?thesis by (simp add: decodeTimeRangeInto_def timeWindowSpan_def tsStream_def)
  next
    case (2 nb bs)
    with range_blocks_total [OF 2(4), of "[0..<nb]" "drop (8 + nb * tsHdrStride) b" n bs "from" to "replicate n False"]
      span_blocks_total [OF 2(4), of "[0..<nb]" n bs "from" to "(n, 0)"]
    show ?thesis
      by (auto simp: decodeTimeRangeInto_def timeWindowSpan_def tsStream_def tsHeaderLen_def slice_from_def)
  qed
  then show "\<exists>out. decodeTimeRangeInto b n from to = Some out \<and> length out = n"
    "\<exists>lh. timeWindowSpan b n from to = Some lh" "\<exists>s. tsStream b = Some s" by simp_all
qed

section \<open>Properties\<close>

lemma ts_encode_layout:
  assumes "ts \<noteq> []" "10 * length ts < 2 ^ 32"
  obtains mn mx where "ts_layout (encodeTimestamps ts) ts mn mx"
  using ts_layout_encode [OF assms(1)] assms(2) length_ts_bytes(2) [of ts] by fastforce

text \<open>The point read of an encoded timestamp column is the row's timestamp, for every int64
  including deltas that wrap.\<close>

theorem decodeTsAt_correct:
  assumes "row < length ts" and "10 * length ts < 2 ^ 32"
  shows "decodeTsAt (encodeTimestamps ts) row = Some (ts ! row)"
proof -
  have "ts \<noteq> []" using assms(1) by auto
  from ts_encode_layout [OF this assms(2)] obtain mn mx where
    "ts_layout (encodeTimestamps ts) ts mn mx" .
  then show ?thesis using assms(1) by (rule decodeTsAt_layout)
qed

theorem decodeTsAt_correct_witness:
  "decodeTsAt (encodeTimestamps [5, -9223372036854775808, 9223372036854775807]) 2
     = Some 9223372036854775807"
  using decodeTsAt_correct [of 2 "[5, -9223372036854775808, 9223372036854775807]"] by simp

text \<open>The range read returns exactly the rows of the range, whatever the caller's reused buffer
  held.\<close>

theorem decodeTsRangeInto_correct:
  assumes "lo < hi" and "hi \<le> length ts" and "10 * length ts < 2 ^ 32"
  shows "decodeTsRangeInto dst (encodeTimestamps ts) lo hi = Some (take (hi - lo) (drop lo ts))"
proof -
  have "ts \<noteq> []" using assms(1,2) by auto
  from ts_encode_layout [OF this assms(3)] obtain mn mx where
    "ts_layout (encodeTimestamps ts) ts mn mx" .
  then show ?thesis using assms(1,2) by (rule decodeTsRangeInto_layout)
qed

theorem decodeTsRangeInto_correct_witness:
  "decodeTsRangeInto [77, 78, 79] (encodeTimestamps [5, 3, 9, 4]) 1 3 = Some [3, 9]"
  using decodeTsRangeInto_correct [of 1 3 "[5, 3, 9, 4]" "[77, 78, 79]"] by simp

text \<open>The block-skipping window filter decides every row exactly as the comparison of its
  timestamp with the window does, and the row span read from the headers alone contains every
  matching row.\<close>

theorem window_filter_correct:
  assumes "ts \<noteq> []" and "10 * length ts < 2 ^ 32"
  shows "decodeTimeRangeInto (encodeTimestamps ts) (length ts) from to = Some (map (in_window from to) ts)
    \<and> (\<exists>lo hi. timeWindowSpan (encodeTimestamps ts) (length ts) from to = Some (lo, hi) \<and> lo \<le> hi \<and> hi \<le> length ts
        \<and> (\<forall>j. j < length ts \<and> in_window from to (ts ! j) \<longrightarrow> lo \<le> j \<and> j < hi))"
proof -
  from ts_encode_layout [OF assms] obtain mn mx where lay: "ts_layout (encodeTimestamps ts) ts mn mx" .
  from timeWindowSpan_layout [OF lay, of "from" to] obtain lo hi where
    "timeWindowSpan (encodeTimestamps ts) (length ts) from to = Some (lo, hi)" "lo \<le> hi" "hi \<le> length ts"
    "\<forall>j < length ts. in_window from to (ts ! j) \<longrightarrow> lo \<le> j \<and> j < hi" .
  with decodeTimeRangeInto_layout [OF lay, of "from" to] show ?thesis by blast
qed

theorem window_filter_correct_witness:
  "decodeTimeRangeInto (encodeTimestamps [5, 3, 9]) 3 4 9 = Some [True, False, False]"
proof -
  have "map (in_window 4 9) [5, 3, 9 :: u64] = [True, False, False]" by (simp add: in_window_def)
  moreover have "decodeTimeRangeInto (encodeTimestamps [5, 3, 9]) (length [5, 3, 9 :: u64]) 4 9
      = Some (map (in_window 4 9) [5, 3, 9])"
    using window_filter_correct [of "[5, 3, 9]" 4 9] by (rule conjunct1) simp_all
  ultimately show ?thesis by (simp add: numeral_3_eq_3)
qed

text \<open>The whole-column decode returns the encoded timestamps, given a varint kernel that decodes
  a run of canonical varints.\<close>

theorem decodeTimestamps_correct:
  assumes kernel: "\<And>xs. varintDecode (length xs) (concat (map put_uvarint xs)) = xs"
    and "10 * length ts < 2 ^ 32"
  shows "decodeTimestamps varintDecode (encodeTimestamps ts) (length ts) = Some ts"
proof (cases "ts = []")
  case False
  from ts_encode_layout [OF this assms(2)] obtain mn mx where
    lay: "ts_layout (encodeTimestamps ts) ts mn mx" .
  have "varintDecode (length ts) (ts_bytes ts) = ts_codes ts"
    using kernel [of "ts_codes ts"] by (simp add: ts_bytes_def uvar.puts_def)
  with lay show ?thesis by (rule decodeTimestamps_layout)
qed (simp add: decodeTimestamps_def)

text \<open>A scalar varint kernel, the instance that shows the hypothesis can hold.\<close>

fun varints :: "nat \<Rightarrow> bytes \<Rightarrow> u64 list" where
  "varints 0 b = []"
| "varints (Suc n) b = (case uvarint b of (v, w) \<Rightarrow> if w \<le> 0 then [] else v # varints n (drop (nat w) b))"

lemma varints_puts: "varints (length xs) (concat (map put_uvarint xs)) = xs"
  by (induction xs) (simp_all add: uvarint_put not_le)

theorem decodeTimestamps_correct_witness:
  "decodeTimestamps varints (encodeTimestamps [5, 3, 9]) 3 = Some [5, 3, 9]"
  using decodeTimestamps_correct [of varints "[5, 3, 9]"] by (simp add: varints_puts numeral_3_eq_3)

end
