(* ===== verification/Bloom.thy ===== *)
theory Bloom
  imports Prelude
begin

text \<open>
  The per-column membership filter of \<^verbatim>\<open>internal/storage/footer.go\<close>: its size, the
  FNV-1a fold of a value to a 64-bit key, the double-hashed probes, and the build and the test.

  \<^verbatim>\<open>simd.HashUint64\<close> is a parameter: it writes the hash of every key, under the seed, into
  the cell of the same index, so the kernel is its function on one key.

  The locale \<open>membership_filter\<close> is what the group reader relies on: a filter that answers no proves
  absence, and so a lookup behind it answers as the lookup alone.
\<close>

unbundle bit_operations_syntax

section \<open>The filter\<close>

type_synonym hash_kernel = "u64 \<Rightarrow> u64 \<Rightarrow> u64"

definition bloomBits :: nat where "bloomBits = 10"
definition bloomK :: nat where "bloomK = 7"
definition bloomMinWords :: nat where "bloomMinWords = 4"
definition bloomSeed :: u64 where "bloomSeed = 0x9e3779b97f4a7c15"

definition bloomWordsFor :: "nat \<Rightarrow> nat" where
  "bloomWordsFor n = (if n < 1 then bloomMinWords else
     let words = (n * bloomBits + 63) div 64 in if words < bloomMinWords then bloomMinWords else words)"

definition fold_fnv :: "bytes \<Rightarrow> u64" where
  "fold_fnv s = foldl (\<lambda>h c. (h XOR ucast c) * 1099511628211) 1469598103934665603 s"

definition hashStrings :: "hash_kernel \<Rightarrow> bytes list \<Rightarrow> u64 list" where
  "hashStrings hash ss = map (hash bloomSeed) (map fold_fnv ss)"

definition hashOne :: "hash_kernel \<Rightarrow> bytes \<Rightarrow> u64" where
  "hashOne hash s = hash bloomSeed (fold_fnv s)"

text \<open>The probe loops: \<open>n\<close> turns left, \<open>h1\<close> advanced by \<open>h2\<close>.  A zero \<open>nbits\<close> divides by zero.\<close>

fun set_loop :: "nat \<Rightarrow> u64 \<Rightarrow> u64 \<Rightarrow> u64 \<Rightarrow> u64 list \<Rightarrow> u64 list option" where
  "set_loop 0 nbits h1 h2 bloom = Some bloom"
| "set_loop (Suc n) nbits h1 h2 bloom = (if nbits = 0 then None else do {
     let b = h1 mod nbits;
     w \<leftarrow> index bloom (unat (drop_bit 6 b));
     bloom' \<leftarrow> set_index bloom (unat (drop_bit 6 b)) (w OR push_bit (unat (b AND 63)) 1);
     set_loop n nbits (h1 + h2) h2 bloom'
   })"

definition bloom_set :: "u64 list \<Rightarrow> u64 \<Rightarrow> u64 list option" where
  "bloom_set bloom h = set_loop bloomK (of_nat (length bloom * 64)) h (drop_bit 32 h OR 1) bloom"

fun test_loop :: "nat \<Rightarrow> u64 \<Rightarrow> u64 \<Rightarrow> u64 \<Rightarrow> u64 list \<Rightarrow> bool option" where
  "test_loop 0 nbits h1 h2 bloom = Some True"
| "test_loop (Suc n) nbits h1 h2 bloom = (if nbits = 0 then None else do {
     let b = h1 mod nbits;
     w \<leftarrow> index bloom (unat (drop_bit 6 b));
     if w AND push_bit (unat (b AND 63)) 1 = 0 then Some False
     else test_loop n nbits (h1 + h2) h2 bloom
   })"

definition bloom_test :: "u64 list \<Rightarrow> u64 \<Rightarrow> bool option" where
  "bloom_test bloom h = test_loop bloomK (of_nat (length bloom * 64)) h (drop_bit 32 h OR 1) bloom"

fun set_all :: "u64 list \<Rightarrow> u64 list \<Rightarrow> u64 list option" where
  "set_all bloom [] = Some bloom"
| "set_all bloom (h # hs) = do { bloom' \<leftarrow> bloom_set bloom h; set_all bloom' hs }"

definition buildDictBloom :: "hash_kernel \<Rightarrow> bytes list \<Rightarrow> u64 list option" where
  "buildDictBloom hash dict = set_all (replicate (bloomWordsFor (length dict)) 0) (hashStrings hash dict)"

definition bloomMaybe :: "hash_kernel \<Rightarrow> u64 list \<Rightarrow> bytes \<Rightarrow> bool option" where
  "bloomMaybe hash bloom value = (if length bloom = 0 then Some True else bloom_test bloom (hashOne hash value))"

section \<open>Probes stay inside and bits stay set\<close>

text \<open>A filter the loops can index: not empty, and its bit count is a 64-bit value.\<close>

definition bloom_ok :: "u64 list \<Rightarrow> bool" where
  "bloom_ok bloom \<longleftrightarrow> 0 < length bloom \<and> length bloom * 64 < 2 ^ 64"

lemma probe_inside:
  assumes "bloom_ok bloom" and "nbits = (of_nat (length bloom * 64) :: u64)"
  shows "nbits \<noteq> 0" and "unat (drop_bit 6 (h mod nbits)) < length bloom"
proof -
  have u: "unat nbits = length bloom * 64" using assms unat_of_nat_u64 [of "length bloom * 64"] by (metis bloom_ok_def)
  then have "0 < unat nbits" using assms(1) by (simp add: bloom_ok_def)
  then show "nbits \<noteq> 0" by auto
  have "unat (h mod nbits) < length bloom * 64" using \<open>0 < unat nbits\<close> u by (simp add: unat_mod_distrib)
  then show "unat (drop_bit 6 (h mod nbits)) < length bloom"
    by (simp add: drop_bit_eq_div unat_div_distrib less_mult_imp_div_less)
qed

text \<open>\<open>grows b c\<close>: the same length, every set bit still set.\<close>

definition grows :: "u64 list \<Rightarrow> u64 list \<Rightarrow> bool" where
  "grows b c \<longleftrightarrow> length b = length c \<and> (\<forall>i < length b. \<forall>j. bit (b ! i) j \<longrightarrow> bit (c ! i) j)"

lemma grows_refl [simp]: "grows b b"
  by (simp add: grows_def)

lemma grows_trans: "grows a b \<Longrightarrow> grows b c \<Longrightarrow> grows a c"
  by (auto simp: grows_def)

lemma grows_ok: "grows a b \<Longrightarrow> bloom_ok a \<Longrightarrow> bloom_ok b"
  by (simp add: grows_def bloom_ok_def)

lemma grows_or: "i < length b \<Longrightarrow> grows b (b[i := b ! i OR x])"
  by (auto simp: grows_def nth_list_update bit_or_iff)

lemma bit_probe: "(w AND 2 ^ k = 0) \<longleftrightarrow> \<not> bit w k" if "k < 64" for w :: u64
proof -
  have "bit (w AND 2 ^ k) j \<longleftrightarrow> j = k \<and> bit w k" for j
    using that by (auto simp: bit_and_iff bit_exp_iff)
  then show ?thesis by (metis bit_0_eq bot_apply bit_eq_iff bot_bool_def)
qed

lemma and63: "unat (b AND 63 :: u64) < 64"
proof -
  have "b AND 63 = take_bit 6 b" by (simp add: take_bit_eq_mask mask_eq_exp_minus_1)
  moreover have "unat (take_bit 6 b) < 2 ^ 6" by (simp add: unsigned_take_bit_eq take_bit_nat_less_exp [of 6, simplified])
  ultimately show ?thesis by simp
qed

lemma set_loop_ok:
  assumes "bloom_ok bloom" and "nbits = of_nat (length bloom * 64)"
  shows "\<exists>c. set_loop n nbits h1 h2 bloom = Some c \<and> grows bloom c
    \<and> (\<forall>d. grows c d \<longrightarrow> test_loop n nbits h1 h2 d = Some True)"
  using assms
proof (induction n arbitrary: h1 bloom)
  case (Suc n)
  let ?b = "h1 mod nbits"
  let ?i = "unat (drop_bit 6 ?b)" and ?j = "unat (?b AND 63)"
  note p = probe_inside(1) [OF Suc.prems] probe_inside(2) [OF Suc.prems, of h1]
  define c0 where "c0 = bloom[?i := bloom ! ?i OR push_bit ?j 1]"
  have g0: "grows bloom c0" unfolding c0_def using p(2) by (rule grows_or)
  have "nbits = of_nat (length c0 * 64)" using Suc.prems(2) by (simp add: c0_def)
  then obtain c where c: "set_loop n nbits (h1 + h2) h2 c0 = Some c" "grows c0 c"
    "\<forall>d. grows c d \<longrightarrow> test_loop n nbits (h1 + h2) h2 d = Some True"
    using Suc.IH [OF grows_ok [OF g0 Suc.prems(1)]] by blast
  have set: "set_loop (Suc n) nbits h1 h2 bloom = Some c"
    using p c(1) by (simp add: Let_def index_ok set_index_ok c0_def)
  have "test_loop (Suc n) nbits h1 h2 d = Some True" if d: "grows c d" for d
  proof -
    have g: "grows c0 d" using c(2) d by (rule grows_trans)
    have "bit (c0 ! ?i) ?j" using p(2) and63 [of ?b] by (simp add: c0_def bit_or_iff bit_exp_iff)
    then have "bit (d ! ?i) ?j" "?i < length d" using g p(2) by (auto simp: grows_def c0_def)
    then show ?thesis using p(1) c(3) d and63 [of ?b] by (simp add: Let_def index_ok bit_probe)
  qed
  with set c(2) g0 show ?case using grows_trans by blast
qed simp

lemma bloom_set_ok:
  assumes "bloom_ok bloom"
  shows "\<exists>c. bloom_set bloom h = Some c \<and> grows bloom c \<and> (\<forall>d. grows c d \<longrightarrow> bloom_test d h = Some True)"
proof -
  obtain c where "bloom_set bloom h = Some c" "grows bloom c"
    "\<forall>d. grows c d \<longrightarrow> test_loop bloomK (of_nat (length bloom * 64)) h (drop_bit 32 h OR 1) d = Some True"
    using set_loop_ok [OF assms refl] unfolding bloom_set_def by blast
  then show ?thesis unfolding bloom_test_def by (auto simp: grows_def)
qed

lemma set_all_ok:
  "bloom_ok bloom \<Longrightarrow> \<exists>c. set_all bloom hs = Some c \<and> grows bloom c
    \<and> (\<forall>h \<in> set hs. bloom_test c h = Some True)"
proof (induction hs arbitrary: bloom)
  case (Cons h hs)
  obtain b1 where b1: "bloom_set bloom h = Some b1" "grows bloom b1" "\<forall>d. grows b1 d \<longrightarrow> bloom_test d h = Some True"
    using bloom_set_ok [OF Cons.prems] by blast
  obtain c where "set_all b1 hs = Some c" "grows b1 c" "\<forall>h \<in> set hs. bloom_test c h = Some True"
    using Cons.IH [OF grows_ok [OF b1(2) Cons.prems]] by blast
  with b1 show ?case using grows_trans by fastforce
qed simp

lemma test_loop_total:
  assumes "bloom_ok bloom" and "nbits = of_nat (length bloom * 64)"
  shows "\<exists>r. test_loop n nbits h1 h2 bloom = Some r"
  using probe_inside [OF assms] by (induction n arbitrary: h1) (auto simp: Let_def index_ok)

lemma bloomWords_bounds: "4 \<le> bloomWordsFor n" "bloomWordsFor n \<le> 4 + n"
  by (auto simp: bloomWordsFor_def bloomMinWords_def bloomBits_def Let_def)

lemma build_length: "buildDictBloom hash dict = Some c \<Longrightarrow> length dict < 2 ^ 57 \<Longrightarrow> length c = bloomWordsFor (length dict)"
  using set_all_ok [of "replicate (bloomWordsFor (length dict)) 0" "hashStrings hash dict"]
    bloomWords_bounds [of "length dict"]
  by (auto simp: buildDictBloom_def bloom_ok_def grows_def)

section \<open>The interface\<close>

locale membership_filter =
  fixes build :: "'a list \<Rightarrow> 'f option"
    and maybe :: "'f \<Rightarrow> 'a \<Rightarrow> bool option"
    and sized :: "'a list \<Rightarrow> bool"
  assumes build_total: "sized xs \<Longrightarrow> \<exists>f. build xs = Some f"
    and maybe_total: "sized xs \<Longrightarrow> build xs = Some f \<Longrightarrow> \<exists>r. maybe f x = Some r"
    and maybe_member: "sized xs \<Longrightarrow> build xs = Some f \<Longrightarrow> x \<in> set xs \<Longrightarrow> maybe f x = Some True"
begin

text \<open>A negative answer is a proof of absence, so the filter may stand in front of any exact lookup.\<close>

lemma no_means_absent: "sized xs \<Longrightarrow> build xs = Some f \<Longrightarrow> maybe f x = Some False \<Longrightarrow> x \<notin> set xs"
  using maybe_member by fastforce

lemma guarded_lookup:
  assumes "sized xs" "build xs = Some f" and "x \<notin> set xs \<Longrightarrow> lookup = absent"
  shows "maybe f x \<bind> (\<lambda>m. if \<not> m then Some absent else Some lookup) = Some lookup"
proof -
  obtain m where m: "maybe f x = Some m" using maybe_total [OF assms(1,2)] by blast
  show ?thesis using m assms(3) no_means_absent [OF assms(1,2)] by (cases m) auto
qed

end

definition bloom_sized :: "bytes list \<Rightarrow> bool" where
  "bloom_sized dict \<longleftrightarrow> length dict < 2 ^ 57"

interpretation bloom: membership_filter "buildDictBloom hash" "bloomMaybe hash" bloom_sized for hash
proof
  fix xs :: "bytes list" and f x
  assume s: "bloom_sized xs"
  have ok: "bloom_ok (replicate (bloomWordsFor (length xs)) 0)"
    using s bloomWords_bounds [of "length xs"] by (simp add: bloom_ok_def bloom_sized_def)
  note sa = set_all_ok [OF ok, of "hashStrings hash xs", folded buildDictBloom_def]
  then show "\<exists>f. buildDictBloom hash xs = Some f" by blast
  assume f: "buildDictBloom hash xs = Some f"
  then have g: "grows (replicate (bloomWordsFor (length xs)) 0) f"
    and t: "\<forall>h \<in> set (hashStrings hash xs). bloom_test f h = Some True" using sa by auto
  have "bloom_ok f" using grows_ok [OF g ok] .
  then show "\<exists>r. bloomMaybe hash f x = Some r"
    using test_loop_total [OF _ refl] by (auto simp: bloomMaybe_def bloom_test_def)
  assume "x \<in> set xs"
  then show "bloomMaybe hash f x = Some True"
    using t by (simp add: bloomMaybe_def hashOne_def hashStrings_def)
qed

section \<open>Properties\<close>

text \<open>The column filter has no false negatives and its probes never leave it: building it over any
  dictionary succeeds, it is as large as its cardinality asks for, every value of the dictionary tests
  positive, and every other value gets an answer.\<close>

theorem bloom_no_false_negatives:
  assumes "length dict < 2 ^ 57"
  shows "\<exists>f. buildDictBloom hash dict = Some f \<and> length f = bloomWordsFor (length dict)
    \<and> (\<forall>v. \<exists>r. bloomMaybe hash f v = Some r) \<and> (\<forall>v \<in> set dict. bloomMaybe hash f v = Some True)"
proof -
  have s: "bloom_sized dict" using assms by (simp add: bloom_sized_def)
  obtain f where f: "buildDictBloom hash dict = Some f" using bloom.build_total [OF s] by blast
  with build_length [OF f assms] bloom.maybe_total [OF s f] bloom.maybe_member [OF s f] show ?thesis by blast
qed

theorem bloom_no_false_negatives_witness:
  "\<exists>f. buildDictBloom (\<lambda>seed k. k XOR seed) [[97], [98, 99]] = Some f \<and> length f = 4
     \<and> bloomMaybe (\<lambda>seed k. k XOR seed) f [98, 99] = Some True"
  using bloom_no_false_negatives [of "[[97], [98, 99]]" "\<lambda>seed k. k XOR seed"]
  by (auto simp: bloomWordsFor_def bloomBits_def bloomMinWords_def)

end
