(* ===== verification/Group.thy ===== *)
theory Group
  imports Column Postings Dict Timestamps Bloom
begin

text \<open>
  The row group of \<^verbatim>\<open>internal/storage/group.go\<close> and \<^verbatim>\<open>group_read.go\<close>: the columns a
  group is built from, the self-describing blob \<^verbatim>\<open>Marshal\<close> writes, and the validating parser
  \<^verbatim>\<open>ReadGroup\<close> with every check in the order of the code.

  A corruption error is a value of \<open>corruption\<close>, one constructor per check; \<open>None\<close> around the result
  would be a panic.  The vector kernels are fields of \<open>group_kernels\<close>.
\<close>

section \<open>Columns and groups\<close>

definition ColDict :: byte where "ColDict = 0"
definition ColTimestamp :: byte where "ColTimestamp = 1"
definition ColVector :: byte where "ColVector = 2"

lemmas col_types = ColDict_def ColTimestamp_def ColVector_def

text \<open>A \<^verbatim>\<open>float32\<close> is its bit pattern: the code only stores and loads it.\<close>

record Column =
  ColName :: bytes
  ColTypeOf :: byte
  ColDictOf :: "DictColumn option"
  ColTs :: "u64 list"
  ColVec :: "u32 list"
  ColDim :: nat

record Group =
  GRows :: nat
  Columns :: "Column list"
  Compact :: bool
  NoPostings :: bool

record colMeta =
  Name :: bytes
  Type :: byte
  Width :: nat
  DictLen :: nat
  MinIdx :: u32
  MaxIdx :: u32
  BloomW :: "u64 list"
  DataOff :: nat
  DataLen :: nat
  PostOff :: nat
  PostLen :: nat
  DictOff :: nat
  DictLen2 :: nat

record group_kernels =
  gk_pack :: bit_packer
  gk_dict :: dict_kernels
  gk_hash :: hash_kernel

definition magic :: u32 where "magic = 0x736C6F67"
definition versionV7 :: u32 where "versionV7 = 7"
definition versionV8 :: u32 where "versionV8 = 8"

section \<open>Writing a group\<close>

definition encodeVectors :: "u32 list \<Rightarrow> nat \<Rightarrow> bytes" where
  "encodeVectors vec dim = putU32 (of_nat dim) @ concat (map putU32 vec)"

text \<open>The check \<^verbatim>\<open>Marshal\<close> opens with; where it fails \<^verbatim>\<open>Marshal\<close> panics.\<close>

definition column_full :: "nat \<Rightarrow> Column \<Rightarrow> bool" where
  "column_full rows c = (
     if ColTypeOf c = ColTimestamp then length (ColTs c) = rows
     else if ColTypeOf c = ColDict then
       (case ColDictOf c of None \<Rightarrow> False | Some d \<Rightarrow> length (Indices d) = rows)
     else True)"

definition index_bounds :: "u32 list \<Rightarrow> u32 \<times> u32" where
  "index_bounds idx = foldl (\<lambda>(mn, mx) (i, ix).
       (if i = 0 \<or> ix < mn then ix else mn, if i = 0 \<or> ix > mx then ix else mx)) (0, 0) (enumerate 0 idx)"

definition time_step :: "u64 \<times> u64 \<Rightarrow> u64 \<Rightarrow> u64 \<times> u64" where
  "time_step tm t = (case tm of (mn, mx) \<Rightarrow>
     (if sint t < sint mn then t else mn, if sint t > sint mx then t else mx))"

text \<open>The locals of the column loop: the blob so far, the metas, and the time bounds.\<close>

record marshal_state =
  ms_b :: bytes
  ms_metas :: "colMeta list"
  ms_time :: "u64 \<times> u64"

definition emptyMeta :: "bytes \<Rightarrow> byte \<Rightarrow> nat \<Rightarrow> colMeta" where
  "emptyMeta name ty off = \<lparr>Name = name, Type = ty, Width = 0, DictLen = 0, MinIdx = 0, MaxIdx = 0, BloomW = [],
     DataOff = off, DataLen = 0, PostOff = 0, PostLen = 0, DictOff = 0, DictLen2 = 0\<rparr>"

definition marshal_column :: "group_kernels \<Rightarrow> Group \<Rightarrow> marshal_state \<Rightarrow> Column \<Rightarrow> marshal_state option" where
  "marshal_column K g st c = (
     let b = ms_b st; m = emptyMeta (ColName c) (ColTypeOf c) (length b) in
     if ColTypeOf c = ColDict then do {
       d \<leftarrow> ColDictOf c;
       let width = bitWidth (length (Dict d));
       let b1 = b @ encodeIndices (gk_pack K) (Indices d) width;
       let (mn, mx) = index_bounds (Indices d);
       bloom \<leftarrow> buildDictBloom (gk_hash K) (Dict d);
       b2 \<leftarrow> (if \<not> NoPostings g
              then do { p \<leftarrow> buildPostings (Indices d) (length (Dict d)); Some (marshal (gk_pack K) p b1) }
              else Some b1);
       let b3 = b2 @ marshalDictSection (gk_dict K) (Dict d) (Compact g);
       Some (st\<lparr>ms_b := b3, ms_metas := ms_metas st @
         [m\<lparr>Width := width, DictLen := length (Dict d), MinIdx := mn, MaxIdx := mx, BloomW := bloom,
            PostOff := length b1, PostLen := length b2 - length b1,
            DictOff := length b2, DictLen2 := length b3 - length b2,
            DataLen := length b3 - length b\<rparr>]\<rparr>)
     }
     else if ColTypeOf c = ColTimestamp then
       (let b1 = b @ encodeTimestamps (ColTs c) in
        Some (st\<lparr>ms_b := b1, ms_metas := ms_metas st @ [m\<lparr>DataLen := length b1 - length b\<rparr>],
                 ms_time := foldl time_step (ms_time st) (ColTs c)\<rparr>))
     else if ColTypeOf c = ColVector then
       (let b1 = b @ encodeVectors (ColVec c) (ColDim c) in
        Some (st\<lparr>ms_b := b1, ms_metas := ms_metas st @ [m\<lparr>Width := ColDim c, DataLen := length b1 - length b\<rparr>]\<rparr>))
     else Some (st\<lparr>ms_metas := ms_metas st @ [m]\<rparr>))"

fun marshal_columns :: "group_kernels \<Rightarrow> Group \<Rightarrow> marshal_state \<Rightarrow> Column list \<Rightarrow> marshal_state option" where
  "marshal_columns K g st [] = Some st"
| "marshal_columns K g st (c # cs) = do { st' \<leftarrow> marshal_column K g st c; marshal_columns K g st' cs }"

definition meta_bytes :: "colMeta \<Rightarrow> bytes" where
  "meta_bytes m = appStr [] (Name m) @ [Type m] @ putU32 (of_nat (Width m)) @ putU32 (of_nat (DictLen m))
     @ putU32 (MinIdx m) @ putU32 (MaxIdx m) @ putU32 (of_nat (DataOff m)) @ putU32 (of_nat (DataLen m))
     @ putU32 (of_nat (PostOff m)) @ putU32 (of_nat (PostLen m)) @ putU32 (of_nat (length (BloomW m)))
     @ concat (map putU64 (BloomW m)) @ putU32 (of_nat (DictOff m)) @ putU32 (of_nat (DictLen2 m))"

definition group_header :: "Group \<Rightarrow> bytes" where
  "group_header g = putU32 magic @ putU32 versionV8 @ putU32 (of_nat (GRows g)) @ putU32 (of_nat (length (Columns g)))"

definition group_footer :: "u64 \<times> u64 \<Rightarrow> colMeta list \<Rightarrow> bytes" where
  "group_footer tm metas = putU64 (fst tm) @ putU64 (snd tm) @ concat (map meta_bytes metas)"

definition Marshal :: "group_kernels \<Rightarrow> Group \<Rightarrow> bytes option" where
  "Marshal K g = (if \<not> list_all (column_full (GRows g)) (Columns g) then None else do {
     st \<leftarrow> marshal_columns K g \<lparr>ms_b = group_header g, ms_metas = [],
              ms_time = (0x7FFFFFFFFFFFFFFF, 0x8000000000000000)\<rparr> (Columns g);
     let tm = (if GRows g = 0 then (0, 0) else ms_time st);
     let foot = group_footer tm (ms_metas st);
     let b = ms_b st @ foot @ putU32 (of_nat (length foot));
     Some (b @ putU32 (crc32c b))
   })"

section \<open>Reading a group\<close>

definition maxGroupRows :: nat where "maxGroupRows = 2 ^ 30"
definition maxGroupColumns :: nat where "maxGroupColumns = 2 ^ 16"
definition maxBloomWords :: nat where "maxBloomWords = 2 ^ 20"
definition maxNameBytes :: nat where "maxNameBytes = 2 ^ 16"

datatype corruption =
    BlobShort nat
  | BadMagic u32
  | BadVersion u32
  | V8Short nat
  | BadChecksum u32 u32
  | BadRows nat
  | BadColumns nat
  | BadFooterLen nat
  | FooterShort
  | BloomTooBig nat nat
  | BadSpan nat string
  | BadWidth nat nat
  | DictLenOverSection nat nat nat
  | BadDictLen nat nat
  | TsTooShort nat
  | TsHeaderOutside nat
  | TsBlockCount nat nat
  | TsBlocksOverSpan nat nat
  | TsBlockSizeZero nat
  | TsBlocksNotRows nat nat nat
  | TsNoBlocks nat
  | TsHeadersOverSpan nat
  | TsCheckpointOutside nat nat
  | TsBlockOffset nat nat nat
  | TsRowsOverStream nat
  | RowsWidthOverflow nat
  | DataSpanShort nat nat
  | RowsNotBacked

record Reader =
  blob :: bytes
  Rows :: nat
  TimeMin :: u64
  TimeMax :: u64
  cols :: "colMeta list"

text \<open>\<^verbatim>\<open>cursor.str\<close>: the ceiling is checked before the bytes are asked for.\<close>

definition cur_str :: "cursor \<Rightarrow> bytes \<times> cursor" where
  "cur_str c = (case cur_u32 c of (v, c1) \<Rightarrow>
     let n = unat v in
     if cerr c1 \<noteq> None then ([], c1)
     else if n > maxNameBytes then ([], cur_fail ''name length exceeds the ceiling'' c1)
     else (case cur_need n c1 of
         (False, c2) \<Rightarrow> ([], c2)
       | (True, c2) \<Rightarrow> (take n (drop (cat c2) (cb c2)), c2\<lparr>cat := cat c2 + n\<rparr>)))"

definition checkSpan :: "nat \<Rightarrow> string \<Rightarrow> nat \<Rightarrow> nat \<Rightarrow> nat \<Rightarrow> corruption option" where
  "checkSpan col what off len limit = (if off > limit \<or> len > limit - off then Some (BadSpan col what) else None)"

text \<open>A sequence of checks stops at the first that reports or panics.\<close>

type_synonym check = "corruption option option"

definition and_then :: "check \<Rightarrow> check \<Rightarrow> check" where
  "and_then a b = (case a of Some None \<Rightarrow> b | _ \<Rightarrow> a)"

definition refuse :: "bool \<Rightarrow> corruption \<Rightarrow> check" where
  "refuse bad e = Some (if bad then Some e else None)"

definition check_dictlen :: "bytes \<Rightarrow> nat \<Rightarrow> colMeta \<Rightarrow> check" where
  "check_dictlen b i m = (if DictLen m > 0 \<and> DictLen2 m > 0 then do {
       sec \<leftarrow> gslice b (DictOff m) (DictOff m + DictLen2 m);
       d \<leftarrow> parseDictSec sec;
       refuse (DictLen m > numBlocks d * dictBlock) (DictLenOverSection i (DictLen m) (numBlocks d * dictBlock))
     }
     else Some None)"

fun check_checkpoints :: "bytes \<Rightarrow> nat \<Rightarrow> colMeta \<Rightarrow> nat \<Rightarrow> nat list \<Rightarrow> check" where
  "check_checkpoints b i m streamLen [] = Some None"
| "check_checkpoints b i m streamLen (k # ks) = (
     let at = DataOff m + 8 + k * tsHdrStride in
     if at + 4 > length b then Some (Some (TsCheckpointOutside i k)) else do {
       off \<leftarrow> getn b at;
       if off > streamLen then Some (Some (TsBlockOffset i k off))
       else check_checkpoints b i m streamLen ks
     })"

definition check_ts :: "bytes \<Rightarrow> nat \<Rightarrow> nat \<Rightarrow> colMeta \<Rightarrow> check" where
  "check_ts b rows i m = (
     if Type m \<noteq> ColTimestamp then Some None
     else if DataLen m < 8 then refuse (rows > 0) (TsTooShort i)
     else if DataOff m + 8 > length b then Some (Some (TsHeaderOutside i))
     else do {
       nb \<leftarrow> getn b (DataOff m);
       bs \<leftarrow> getn b (DataOff m + 4);
       if nb > maxGroupRows then Some (Some (TsBlockCount i nb))
       else if nb > (DataLen m - 8) div tsHdrStride then Some (Some (TsBlocksOverSpan i nb))
       else if nb > 0 \<and> bs = 0 then Some (Some (TsBlockSizeZero i))
       else if nb > 0 \<and> rows > 0 \<and> nb \<noteq> (rows + bs - 1) div bs then Some (Some (TsBlocksNotRows i nb bs))
       else if rows > 0 \<and> nb = 0 then Some (Some (TsNoBlocks i))
       else (let hdrEnd = 8 + nb * tsHdrStride in
         if DataLen m < hdrEnd then Some (Some (TsHeadersOverSpan i))
         else (let streamLen = DataLen m - hdrEnd in
           and_then (check_checkpoints b i m streamLen [0..<nb])
             (refuse (rows > streamLen * 8 + 8) (TsRowsOverStream i))))
     })"

definition check_dict_data :: "nat \<Rightarrow> nat \<Rightarrow> colMeta \<Rightarrow> check" where
  "check_dict_data rows i m = (
     if Type m = ColDict \<and> Width m > 0 then
       (if rows > maxGroupRows div Width m then Some (Some (RowsWidthOverflow i))
        else (let need = (rows * Width m + 31) div 32 * 4 + 4 in
          refuse (need > DataLen m) (DataSpanShort i need)))
     else Some None)"

definition check_meta :: "bytes \<Rightarrow> nat \<Rightarrow> nat \<Rightarrow> nat \<Rightarrow> colMeta \<Rightarrow> check" where
  "check_meta b rows dataEnd i m =
     and_then (Some (checkSpan i ''data'' (DataOff m) (DataLen m) dataEnd))
     (and_then (Some (checkSpan i ''postings'' (PostOff m) (PostLen m) dataEnd))
     (and_then (Some (checkSpan i ''dict'' (DictOff m) (DictLen2 m) dataEnd))
     (and_then (refuse (Width m > 32) (BadWidth i (Width m)))
     (and_then (check_dictlen b i m)
     (and_then (refuse (DictLen m > maxGroupRows) (BadDictLen i (DictLen m)))
     (and_then (check_ts b rows i m)
     (check_dict_data rows i m)))))))"

text \<open>The fields of one column's footer record; an error of the cursor ends the parse.\<close>

definition read_meta :: "nat \<Rightarrow> cursor \<Rightarrow> corruption + (colMeta \<times> cursor)" where
  "read_meta i c = (
     let (nm, c1) = cur_str c;
         (ty, c2) = cur_byte c1;
         (w, c3) = cur_u32 c2;
         (dl, c4) = cur_u32 c3;
         (mn, c5) = cur_u32 c4;
         (mx, c6) = cur_u32 c5;
         (dato, c7) = cur_u32 c6;
         (datl, c8) = cur_u32 c7;
         (po, c9) = cur_u32 c8;
         (pl, c10) = cur_u32 c9;
         (nb, c11) = cur_u32 c10
     in if cerr c11 \<noteq> None then Inl FooterShort
     else if unat nb > maxBloomWords then Inl (BloomTooBig i (unat nb))
     else (case cur_need (unat nb * 8) c11 of
         (False, _) \<Rightarrow> Inl FooterShort
       | (True, c12) \<Rightarrow>
           (let (bl, c13) = read_n cur_u64 (unat nb) c12;
                (dicto, c14) = cur_u32 c13;
                (dictl, c15) = cur_u32 c14
            in if cerr c15 \<noteq> None then Inl FooterShort
            else Inr (\<lparr>Name = nm, Type = ty, Width = unat w, DictLen = unat dl, MinIdx = mn, MaxIdx = mx,
                 BloomW = bl, DataOff = unat dato, DataLen = unat datl, PostOff = unat po, PostLen = unat pl,
                 DictOff = unat dicto, DictLen2 = unat dictl\<rparr>, c15))))"

text \<open>The column loop: \<open>i\<close> is the column, \<open>n\<close> the columns left.\<close>

definition backs_rows :: "colMeta \<Rightarrow> bool" where
  "backs_rows m \<longleftrightarrow> Type m = ColTimestamp \<or> (Type m = ColDict \<and> Width m > 0)"

fun read_columns :: "bytes \<Rightarrow> nat \<Rightarrow> nat \<Rightarrow> nat \<Rightarrow> nat \<Rightarrow> cursor \<Rightarrow> colMeta list \<Rightarrow> bool
    \<Rightarrow> (corruption + colMeta list \<times> bool) option" where
  "read_columns b rows dataEnd i 0 c ms backed = Some (Inr (ms, backed))"
| "read_columns b rows dataEnd i (Suc n) c ms backed = (case read_meta i c of
     Inl e \<Rightarrow> Some (Inl e)
   | Inr (m, c') \<Rightarrow> (case check_meta b rows dataEnd i m of
         None \<Rightarrow> None
       | Some (Some e) \<Rightarrow> Some (Inl e)
       | Some None \<Rightarrow> read_columns b rows dataEnd (Suc i) n c' (ms @ [m]) (backed \<or> backs_rows m)))"

definition readGroup :: "bytes \<Rightarrow> bytes \<Rightarrow> bool \<Rightarrow> (corruption + Reader) option" where
  "readGroup b flenWord hasCRC = (
     let trailer = (if hasCRC then 8 else 4) in do {
       rows \<leftarrow> getn b 8;
       ncol \<leftarrow> getn b 12;
       if rows > maxGroupRows then Some (Inl (BadRows rows))
       else if ncol > maxGroupColumns then Some (Inl (BadColumns ncol))
       else do {
         flen \<leftarrow> getn flenWord 0;
         if flen < 16 \<or> flen + trailer + 16 > length b then Some (Inl (BadFooterLen flen))
         else do {
           let fEnd = length b - trailer;
           f \<leftarrow> gslice b (fEnd - flen) fEnd;
           let (tmin, c1) = cur_u64 (mk_cursor f);
           let (tmax, c2) = cur_u64 c1;
           res \<leftarrow> read_columns b rows (fEnd - flen) 0 ncol c2 [] False;
           Some (case res of
               Inl e \<Rightarrow> Inl e
             | Inr (ms, backed) \<Rightarrow>
                 if rows > 0 \<and> \<not> backed then Inl RowsNotBacked
                 else Inr \<lparr>blob = b, Rows = rows, TimeMin = tmin, TimeMax = tmax, cols = ms\<rparr>)
         }
       }
     })"

definition readGroupV8 :: "bytes \<Rightarrow> (corruption + Reader) option" where
  "readGroupV8 b = (if length b < 24 then Some (Inl (V8Short (length b))) else do {
     body \<leftarrow> gslice b 0 (length b - 4);
     want \<leftarrow> get32 b (length b - 4);
     let got = crc32c body;
     if got \<noteq> want then Some (Inl (BadChecksum got want)) else do {
       w \<leftarrow> slice_from body (length body - 4);
       readGroup b w True
     }
   })"

definition ReadGroup :: "bytes \<Rightarrow> (corruption + Reader) option" where
  "ReadGroup b = (if length b < 20 then Some (Inl (BlobShort (length b))) else do {
     got \<leftarrow> get32 b 0;
     if got \<noteq> magic then Some (Inl (BadMagic got)) else do {
       v \<leftarrow> get32 b 4;
       if v = versionV7 then do { w \<leftarrow> slice_from b (length b - 4); readGroup b w False }
       else if v = versionV8 then readGroupV8 b
       else Some (Inl (BadVersion v))
     }
   })"

section \<open>No input makes the parser panic\<close>

lemma and_then_ok: "and_then a b = Some None \<longleftrightarrow> a = Some None \<and> b = Some None"
  by (auto simp: and_then_def split: option.splits)

lemma returns_and_then: "returns a \<Longrightarrow> (a = Some None \<Longrightarrow> returns b) \<Longrightarrow> returns (and_then a b)"
  by (auto simp: and_then_def returns_def split: option.splits)

lemma refuse_ok [simp]: "refuse bad e = Some None \<longleftrightarrow> \<not> bad"
  by (simp add: refuse_def)

lemma returns_refuse [simp]: "returns (refuse bad e)"
  by (simp add: refuse_def)

lemma checkSpan_ok: "checkSpan i what off len limit = None \<longleftrightarrow> off + len \<le> limit"
  by (auto simp: checkSpan_def)

lemma checkpoints_total: "returns (check_checkpoints b i m streamLen ks)"
  by (induction ks) (auto simp: Let_def intro!: returns_intros)

lemma check_ts_total: "DataOff m + DataLen m \<le> length b \<Longrightarrow> returns (check_ts b rows i m)"
  unfolding check_ts_def
  by (intro returns_intros returns_and_then checkpoints_total returns_refuse returns_Some; simp)

lemma check_meta_total: "dataEnd \<le> length b \<Longrightarrow> returns (check_meta b rows dataEnd i m)"
  unfolding check_meta_def check_dictlen_def check_dict_data_def
  by (intro returns_and_then check_ts_total returns_if returns_let returns_bind parse_total returns_gslice
      returns_refuse returns_Some) (auto simp: checkSpan_ok)

lemma read_columns_total: "dataEnd \<le> length b \<Longrightarrow> returns (read_columns b rows dataEnd i n c ms backed)"
proof (induction n arbitrary: i c ms backed)
  case (Suc n)
  have "returns (check_meta b rows dataEnd i m)" for m using Suc.prems by (rule check_meta_total)
  then show ?case
    using Suc by (auto simp: returns_def split: sum.splits option.splits) (metis option.distinct(1))
qed simp

lemma readGroup_total: "16 \<le> length b \<Longrightarrow> 4 \<le> length w \<Longrightarrow> returns (readGroup b w crc)"
  unfolding readGroup_def
  by (intro returns_intros returns_Some; (auto split: prod.splits)?)
    (auto intro!: returns_bind returns_gslice read_columns_total split: prod.splits)

lemma ReadGroup_total: "returns (ReadGroup b)"
  unfolding ReadGroup_def readGroupV8_def
  by (intro returns_intros readGroup_total returns_Some) (auto simp: gslice_def slice_from_def)

section \<open>What an accepted group guarantees\<close>

text \<open>The bytes of one of a column's spans.\<close>

definition span :: "bytes \<Rightarrow> nat \<Rightarrow> nat \<Rightarrow> bytes" where
  "span b off len = take len (drop off b)"

lemma gslice_span: "off + len \<le> length b \<Longrightarrow> gslice b off (off + len) = Some (span b off len)"
  by (simp add: gslice_def span_def)

lemma length_span: "off + len \<le> length b \<Longrightarrow> length (span b off len) = len"
  by (simp add: span_def)

lemma getn_span: "k + 4 \<le> len \<Longrightarrow> off + len \<le> length b \<Longrightarrow> getn (span b off len) k = getn b (off + k)"
  by (simp add: getn_def get32_def slice_from_def span_def drop_take le32_take add.commute)

text \<open>
  The geometry the column decoders rely on.  A timestamp column of a non-empty group has a header,
  a non-zero block size and exactly the blocks its rows need; every block starts inside the stream.
\<close>

definition ts_ok :: "nat \<Rightarrow> bytes \<Rightarrow> bool" where
  "ts_ok rows d \<longleftrightarrow> (length d < 8 \<longrightarrow> rows = 0) \<and> (8 \<le> length d \<longrightarrow> (\<exists>nb bs.
     getn d 0 = Some nb \<and> getn d 4 = Some bs \<and> 8 + nb * tsHdrStride \<le> length d
     \<and> (nb > 0 \<longrightarrow> bs > 0) \<and> (rows > 0 \<longrightarrow> nb > 0 \<and> nb = (rows + bs - 1) div bs)
     \<and> (\<forall>k < nb. \<exists>off. getn d (8 + k * tsHdrStride) = Some off \<and> 8 + nb * tsHdrStride + off \<le> length d)
     \<and> rows \<le> (length d - (8 + nb * tsHdrStride)) * 8 + 8))"

definition meta_ok :: "bytes \<Rightarrow> nat \<Rightarrow> colMeta \<Rightarrow> bool" where
  "meta_ok b rows m \<longleftrightarrow> DataOff m + DataLen m \<le> length b \<and> PostOff m + PostLen m \<le> length b
     \<and> DictOff m + DictLen2 m \<le> length b \<and> DataOff m + 4 \<le> length b \<and> Width m \<le> 32 \<and> DictLen m \<le> maxGroupRows
     \<and> length (BloomW m) \<le> maxBloomWords \<and> (Type m = ColTimestamp \<longrightarrow> ts_ok rows (span b (DataOff m) (DataLen m)))
     \<and> (Type m = ColDict \<and> Width m > 0 \<longrightarrow> (rows * Width m + 31) div 32 * 4 + 4 \<le> DataLen m)"

definition reader_ok :: "Reader \<Rightarrow> bool" where
  "reader_ok r \<longleftrightarrow> Rows r \<le> maxGroupRows \<and> list_all (meta_ok (blob r) (Rows r)) (cols r)
     \<and> (Rows r > 0 \<longrightarrow> list_ex backs_rows (cols r))"

lemma checkpoints_ok:
  "check_checkpoints b i m streamLen ks = Some None \<Longrightarrow> k \<in> set ks \<Longrightarrow>
   \<exists>off. getn b (DataOff m + 8 + k * tsHdrStride) = Some off \<and> off \<le> streamLen"
  by (induction ks) (auto simp: Let_def split: if_splits bind_splits)

lemma check_ts_ok:
  assumes "check_ts b rows i m = Some None" and in_b: "DataOff m + DataLen m \<le> length b" and ty: "Type m = ColTimestamp"
  shows "ts_ok rows (span b (DataOff m) (DataLen m))"
proof (cases "DataLen m < 8")
  case True
  then show ?thesis using assms by (simp add: check_ts_def ts_ok_def length_span)
next
  case False
  let ?d = "span b (DataOff m) (DataLen m)"
  obtain nb bs where nb: "getn b (DataOff m) = Some nb" and bs: "getn b (DataOff m + 4) = Some bs"
    using getn_ok [of "DataOff m" b] getn_ok [of "DataOff m + 4" b] in_b False by auto
  note ck = assms(1) [unfolded check_ts_def Let_def]
  have pre: "\<not> nb > (DataLen m - 8) div tsHdrStride" "\<not> (nb > 0 \<and> bs = 0)"
    "\<not> (nb > 0 \<and> rows > 0 \<and> nb \<noteq> (rows + bs - 1) div bs)" "\<not> (rows > 0 \<and> nb = 0)"
    "\<not> DataLen m < 8 + nb * tsHdrStride"
    using ck ty False nb bs in_b by (auto split: if_splits)
  then have rest: "check_checkpoints b i m (DataLen m - (8 + nb * tsHdrStride)) [0..<nb] = Some None"
    "\<not> rows > (DataLen m - (8 + nb * tsHdrStride)) * 8 + 8"
    using ck ty False nb bs in_b by (auto simp: and_then_ok split: if_splits)
  have "\<exists>off. getn ?d (8 + k * tsHdrStride) = Some off \<and> 8 + nb * tsHdrStride + off \<le> DataLen m" if "k < nb" for k
  proof -
    have "(k + 1) * tsHdrStride \<le> nb * tsHdrStride" using that by (intro mult_le_mono1) simp
    then have "8 + k * tsHdrStride + 4 \<le> DataLen m" using pre(5) by (simp add: tsHdrStride_def)
    then have "getn ?d (8 + k * tsHdrStride) = getn b (DataOff m + 8 + k * tsHdrStride)"
      using getn_span in_b by (simp add: add.assoc)
    then show ?thesis using checkpoints_ok [OF rest(1), of k] that pre(5) by auto
  qed
  then show ?thesis
    using nb bs pre rest(2) False in_b getn_span [of 0 "DataLen m" "DataOff m" b] getn_span [of 4 "DataLen m" "DataOff m" b]
    by (simp add: ts_ok_def length_span) (metis not_gr_zero)
qed

lemma read_meta_bloom: "read_meta i c = Inr (m, c') \<Longrightarrow> length (BloomW m) \<le> maxBloomWords"
proof -
  have n: "read_n rd k c = (xs, c') \<Longrightarrow> length xs = k" for rd :: "cursor \<Rightarrow> u64 \<times> cursor" and k c xs c'
    by (induction k arbitrary: c xs c') (auto simp: Let_def split: prod.splits)
  show "read_meta i c = Inr (m, c') \<Longrightarrow> length (BloomW m) \<le> maxBloomWords"
    by (auto simp: read_meta_def Let_def dest!: n split: prod.splits if_splits bool.splits)
qed

lemma check_meta_ok:
  assumes ck: "check_meta b rows dataEnd i m = Some None" and "dataEnd + 4 \<le> length b" and "length (BloomW m) \<le> maxBloomWords"
  shows "meta_ok b rows m"
proof -
  have spans: "DataOff m + DataLen m \<le> dataEnd" "PostOff m + PostLen m \<le> dataEnd" "DictOff m + DictLen2 m \<le> dataEnd"
    and w: "Width m \<le> 32" "DictLen m \<le> maxGroupRows" and ts: "check_ts b rows i m = Some None"
    and dd: "check_dict_data rows i m = Some None"
    using ck by (auto simp: check_meta_def and_then_ok checkSpan_ok)
  have "Type m = ColDict \<and> Width m > 0 \<longrightarrow> (rows * Width m + 31) div 32 * 4 + 4 \<le> DataLen m"
    using dd by (auto simp: check_dict_data_def Let_def split: if_splits)
  then show ?thesis
    using spans w check_ts_ok [OF ts] assms(2,3) by (auto simp: meta_ok_def)
qed

lemma read_columns_ok:
  assumes "dataEnd + 4 \<le> length b"
  shows "read_columns b rows dataEnd i n c ms backed = Some (Inr (ms', backed')) \<Longrightarrow>
    list_all (meta_ok b rows) ms \<Longrightarrow> (backed \<longrightarrow> list_ex backs_rows ms) \<Longrightarrow>
    list_all (meta_ok b rows) ms' \<and> (backed' \<longrightarrow> list_ex backs_rows ms') \<and> length ms' = length ms + n"
proof (induction n arbitrary: i c ms backed)
  case (Suc n)
  obtain m c' where m: "read_meta i c = Inr (m, c')" and ck: "check_meta b rows dataEnd i m = Some None"
    and r: "read_columns b rows dataEnd (Suc i) n c' (ms @ [m]) (backed \<or> backs_rows m) = Some (Inr (ms', backed'))"
    using Suc.prems(1) by (auto split: sum.splits option.splits prod.splits)
  show ?case
    using Suc.IH [OF r] Suc.prems check_meta_ok [OF ck assms read_meta_bloom [OF m]] by auto
qed simp

lemma readGroup_ok:
  assumes r: "readGroup b w crc = Some (Inr r)" and "16 \<le> length b"
  shows "reader_ok r \<and> blob r = b \<and> getn b 8 = Some (Rows r) \<and> getn b 12 = Some (length (cols r))"
proof -
  obtain rows ncol where rn: "getn b 8 = Some rows" "getn b 12 = Some ncol"
    using getn_ok [of 8 b] getn_ok [of 12 b] assms(2) by auto
  note r1 = r [unfolded readGroup_def Let_def rn]
  have b1: "\<not> rows > maxGroupRows" "\<not> ncol > maxGroupColumns" using r1 by (auto split: if_splits)
  obtain flen where fl: "getn w 0 = Some flen" using r1 b1 by (auto split: bind_splits)
  let ?tr = "if crc then 8 else 4 :: nat"
  have b2: "\<not> (flen < 16 \<or> flen + ?tr + 16 > length b)" using r1 b1 fl by (auto split: if_splits)
  define e where "e = length b - ?tr"
  define f where "f = take flen (drop (e - flen) b)"
  have f: "gslice b (e - flen) e = Some f" using b2 by (auto simp: e_def f_def gslice_def)
  obtain tmin c1 where t1: "cur_u64 (mk_cursor f) = (tmin, c1)" by (metis prod.exhaust)
  obtain tmax c2 where t2: "cur_u64 c1 = (tmax, c2)" by (metis prod.exhaust)
  have e: "e - flen + 4 \<le> length b" using b2 by (auto simp: e_def)
  obtain ms backed where rc: "read_columns b rows (e - flen) 0 ncol c2 [] False = Some (Inr (ms, backed))"
    and bk: "\<not> (rows > 0 \<and> \<not> backed)"
    and rr: "r = \<lparr>blob = b, Rows = rows, TimeMin = tmin, TimeMax = tmax, cols = ms\<rparr>"
    using r1 b1 fl b2 f t1 t2 by (auto simp: e_def split: sum.splits prod.splits if_splits bind_splits)
  show ?thesis using read_columns_ok [OF e rc] bk b1 rn by (auto simp: rr reader_ok_def)
qed

lemma readGroupV8_ok:
  "readGroupV8 b = Some (Inr r) \<Longrightarrow> \<exists>w. readGroup b w True = Some (Inr r) \<and> 24 \<le> length b
     \<and> get32 b (length b - 4) = Some (crc32c (take (length b - 4) b))"
  by (auto simp: readGroupV8_def gslice_def Let_def split: if_splits bind_splits)

lemma ReadGroup_cases:
  assumes "ReadGroup b = Some (Inr r)"
  obtains (v7) w where "get32 b 4 = Some versionV7" "readGroup b w False = Some (Inr r)" "20 \<le> length b"
    | (v8) "get32 b 4 = Some versionV8" "readGroupV8 b = Some (Inr r)" "20 \<le> length b"
  using assms that by (auto simp: ReadGroup_def split: if_splits bind_splits)

lemma ReadGroup_ok:
  assumes "ReadGroup b = Some (Inr r)"
  shows "reader_ok r \<and> blob r = b \<and> getn b 8 = Some (Rows r) \<and> getn b 12 = Some (length (cols r))"
  using assms
proof (cases rule: ReadGroup_cases)
  case (v7 w)
  then show ?thesis using readGroup_ok [OF v7(2)] by simp
next
  case v8
  then obtain w where "readGroup b w True = Some (Inr r)" using readGroupV8_ok by blast
  from readGroup_ok [OF this] v8 show ?thesis by simp
qed

section \<open>A changed byte is noticed\<close>

lemma crc32c_update:
  assumes "i < length b" "x \<noteq> b ! i"
  shows "crc32c (b[i := x]) \<noteq> crc32c b"
proof -
  have "b = take i b @ b ! i # drop (Suc i) b" using assms(1) by (simp add: id_take_nth_drop)
  moreover have "b[i := x] = take i b @ x # drop (Suc i) b" using assms(1) by (simp add: upd_conv_take_nth_drop)
  ultimately show ?thesis using crc32c_one_byte assms(2) by metis
qed

lemma le32_inj:
  assumes "le32 b = Some v" "le32 c = Some v"
  shows "take 4 b = take 4 c"
  using putU32_le32 [OF assms(1)] putU32_le32 [OF assms(2)] by simp

lemma get32_update_other:
  "i < k \<or> k + 4 \<le> i \<Longrightarrow> get32 (b[i := x]) k = get32 b k"
proof -
  assume i: "i < k \<or> k + 4 \<le> i"
  then have "take 4 (drop k (b[i := x])) = take 4 (drop k b)" by (auto simp: drop_update_swap take_update_cancel)
  then have "le32 (drop k (b[i := x])) = le32 (drop k b)" by (metis le32_take order_refl)
  then show ?thesis by (simp add: get32_def slice_from_def)
qed

lemma get32_update_changes:
  assumes "k \<le> i" "i < k + 4" "k + 4 \<le> length b" "x \<noteq> b ! i"
  shows "get32 (b[i := x]) k \<noteq> get32 b k"
proof
  assume eq: "get32 (b[i := x]) k = get32 b k"
  obtain v where v: "get32 b k = Some v" using get32_Some_iff assms(3) by blast
  then have "take 4 (drop k (b[i := x])) = take 4 (drop k b)"
    using eq assms(3) by (intro le32_inj [of _ v]) (simp_all add: get32_def slice_from_def)
  then have "take 4 (drop k (b[i := x])) ! (i - k) = take 4 (drop k b) ! (i - k)" by simp
  then show False using assms by simp
qed

lemma v8_update_rejected:
  assumes ok: "readGroupV8 b = Some (Inr r)" and i: "i < length b" and x: "x \<noteq> b ! i"
  shows "\<exists>e. readGroupV8 (b[i := x]) = Some (Inl e)"
proof -
  let ?n = "length b - 4" and ?c = "b[i := x]"
  have len: "24 \<le> length b" and crc: "get32 b ?n = Some (crc32c (take ?n b))" using readGroupV8_ok [OF ok] by auto
  have "get32 ?c ?n \<noteq> Some (crc32c (take ?n ?c))"
  proof (cases "i < ?n")
    case True
    then have "crc32c (take ?n ?c) \<noteq> crc32c (take ?n b)"
      using crc32c_update [of i "take ?n b" x] x i by (simp add: take_update_swap)
    moreover have "get32 ?c ?n = get32 b ?n" using True by (simp add: get32_update_other)
    ultimately show ?thesis using crc by simp
  next
    case False
    then have "get32 ?c ?n \<noteq> get32 b ?n" using i x len by (intro get32_update_changes) auto
    then show ?thesis using crc False by (simp add: take_update_cancel)
  qed
  moreover obtain v where "get32 ?c ?n = Some v" using get32_Some_iff [of ?c ?n] len by auto
  ultimately show ?thesis using len by (auto simp: readGroupV8_def gslice_def Let_def)
qed

lemma version_byte:
  assumes "get32 b 4 = Some versionV8" "get32 (b[i := x]) 4 = Some versionV7" "i < length b"
  shows "i = 4 \<and> x = 7"
proof -
  have lens: "8 \<le> length b" using assms(1) get32_Some_iff [of b 4] by auto
  have "get32 (b[i := x]) 4 \<noteq> get32 b 4" using assms by (simp add: versionV7_def versionV8_def)
  then have "\<not> (i < 4 \<or> 4 + 4 \<le> i)" using get32_update_other [of i 4 b x] by blast
  then have i: "4 \<le> i" "i < 8" by simp_all
  have p7: "take 4 (drop 4 (b[i := x])) = putU32 versionV7" and p8: "take 4 (drop 4 b) = putU32 versionV8"
    using assms putU32_le32 lens by (auto simp: get32_def slice_from_def)
  have seven: "take 4 (drop 4 (b[i := x])) ! (i - 4) = x" using i lens by simp
  have others: "j < 4 \<Longrightarrow> j \<noteq> i - 4 \<Longrightarrow> putU32 versionV7 ! j = putU32 versionV8 ! j" for j
    using i lens by (simp flip: p7 p8)
  have v: "putU32 versionV7 = [7, 0, 0, 0]" "putU32 versionV8 = [8, 0, 0, 0]"
    by (simp_all add: putU32_def versionV7_def versionV8_def)
  have "i = 4" using others [of 0] i by (auto simp: v)
  then show ?thesis using seven unfolding p7 v by simp
qed

lemma v8_byte_change:
  assumes ok: "ReadGroup b = Some (Inr r)" and v8: "get32 b 4 = Some versionV8"
    and i: "i < length b" and x: "x \<noteq> b ! i" and down: "\<not> (i = 4 \<and> x = 7)"
  shows "\<exists>e. ReadGroup (b[i := x]) = Some (Inl e)"
proof -
  let ?c = "b[i := x]"
  have r8: "readGroupV8 b = Some (Inr r)" "20 \<le> length b"
    using ok v8 by (auto simp: versionV7_def versionV8_def elim!: ReadGroup_cases)
  obtain v where v: "get32 ?c 4 = Some v" using get32_Some_iff [of ?c 4] r8(2) by auto
  have "v \<noteq> versionV7" using version_byte [OF v8 _ i] v down by auto
  moreover obtain e where "readGroupV8 ?c = Some (Inl e)" using v8_update_rejected [OF r8(1) i x] by blast
  moreover obtain mg where "get32 ?c 0 = Some mg" using get32_Some_iff [of ?c 0] r8(2) by auto
  ultimately show ?thesis using v r8(2) by (auto simp: ReadGroup_def)
qed

lemma bit_flip_not_7: "8 XOR push_bit j 1 \<noteq> (7 :: byte)"
proof
  assume eq: "8 XOR push_bit j 1 = (7 :: byte)"
  have "bit (8 XOR push_bit j 1 :: byte) n \<longleftrightarrow> bit (7 :: byte) n" for n using eq by simp
  from this [of 0] this [of 1] show False by (auto simp: bit_xor_iff bit_exp_iff)
qed

section \<open>Properties\<close>

text \<open>C22: Parsing is total and what it accepts is sound: on every byte string \<^verbatim>\<open>ReadGroup\<close> returns an
  error or a reader over that blob, never panics, and in an accepted group every column's data,
  postings and dictionary span lies inside the blob, widths are at most 32, the timestamp columns
  have the geometry the decoders divide and slice by, the data of a dictionary column holds all its
  rows, and a non-empty group has a column whose storage scales with its rows.\<close>

theorem ReadGroup_total_and_sound:
  "\<exists>res. ReadGroup b = Some res \<and> (\<forall>r. res = Inr r \<longrightarrow> blob r = b \<and> reader_ok r)"
  using ReadGroup_total [of b] ReadGroup_ok [of b] by (auto simp: returns_def)

text \<open>A group with no rows and no columns, the smallest blob the reader accepts.\<close>

definition tiny_body :: bytes where
  "tiny_body = putU32 magic @ putU32 versionV8 @ putU32 0 @ putU32 0 @ putU64 0 @ putU64 0 @ putU32 16"

definition tiny_blob :: bytes where
  "tiny_blob = tiny_body @ putU32 (crc32c tiny_body)"

lemma tiny_accepted: "ReadGroup tiny_blob = Some (Inr \<lparr>blob = tiny_blob, Rows = 0, TimeMin = 0, TimeMax = 0, cols = []\<rparr>)"
proof -
  have l: "length tiny_blob = 40" "length tiny_body = 36" by (simp_all add: tiny_blob_def tiny_body_def)
  have r: "getn tiny_blob 8 = Some 0" "getn tiny_blob 12 = Some 0" "get32 tiny_blob 0 = Some magic" "get32 tiny_blob 4 = Some versionV8"
    by (simp_all add: tiny_blob_def tiny_body_def getn_def get32_def slice_from_def codec_simps)
  have c: "get32 tiny_blob 36 = Some (crc32c tiny_body)" "take 36 tiny_blob = tiny_body"
    using l(2) get32_at [of 36 tiny_body "crc32c tiny_body" "[]"] by (simp_all add: tiny_blob_def)
  have f: "gslice tiny_blob 16 32 = Some (putU64 0 @ putU64 0)" "drop 32 tiny_body = putU32 16"
    by (simp_all add: tiny_blob_def tiny_body_def gslice_def)
  obtain c1 where c1: "cur_u64 (mk_cursor (putU64 0 @ putU64 0)) = (0, c1)" "cursor_on c1 (putU64 0 @ [])"
    using cu64.rd_on [OF cursor_on_mk] by fastforce
  obtain c2 where c2: "cur_u64 c1 = (0, c2)" using cu64.rd_on [OF c1(2)] by blast
  have "getn (putU32 16) 0 = Some 16" using get32_at [of 0 "[]" 16 "[]"] by (simp add: getn_def)
  then have "readGroup tiny_blob (putU32 16) True = Some (Inr \<lparr>blob = tiny_blob, Rows = 0, TimeMin = 0, TimeMax = 0, cols = []\<rparr>)"
    using r f(1) c1(1) c2 l by (simp add: readGroup_def)
  then show ?thesis
    using r c f(2) l by (simp add: ReadGroup_def readGroupV8_def versionV7_def versionV8_def gslice_def slice_from_def)
qed

theorem ReadGroup_total_and_sound_witness:
  "reader_ok \<lparr>blob = tiny_blob, Rows = 0, TimeMin = 0, TimeMax = 0, cols = []\<rparr>"
  using ReadGroup_total_and_sound [of tiny_blob] tiny_accepted by auto

text \<open>C15: A v8 group that reads is protected byte by byte: changing any single byte, in the header, the
  column data, the footer or the checksum itself, makes the reader refuse it, the one exception being
  a version byte rewritten to 7, which asks for the unchecksummed layout; and flipping any single bit
  is always refused.\<close>

theorem corruption_detected:
  assumes "ReadGroup b = Some (Inr r)" and "get32 b 4 = Some versionV8" and "i < length b"
  shows "(\<forall>x. x \<noteq> b ! i \<and> \<not> (i = 4 \<and> x = 7) \<longrightarrow> (\<exists>e. ReadGroup (b[i := x]) = Some (Inl e)))
    \<and> (\<forall>j < 8. \<exists>e. ReadGroup (b[i := b ! i XOR push_bit j 1]) = Some (Inl e))"
proof
  show all: "\<forall>x. x \<noteq> b ! i \<and> \<not> (i = 4 \<and> x = 7) \<longrightarrow> (\<exists>e. ReadGroup (b[i := x]) = Some (Inl e))"
    using v8_byte_change [OF assms] by blast
  have ver: "b ! 4 = 8"
  proof -
    have l: "8 \<le> length b" using assms(2) get32_Some_iff [of b 4] by auto
    then have "take 4 (drop 4 b) = putU32 versionV8"
      using assms(2) putU32_le32 by (simp add: get32_def slice_from_def)
    then have "take 4 (drop 4 b) ! 0 = putU32 versionV8 ! 0" by simp
    then show ?thesis using l by (simp add: putU32_def versionV8_def)
  qed
  show "\<forall>j < 8. \<exists>e. ReadGroup (b[i := b ! i XOR push_bit j 1]) = Some (Inl e)"
  proof (intro allI impI)
    fix j :: nat assume j: "j < 8"
    have "bit (push_bit j 1 :: byte) j" using j by (simp add: bit_exp_iff)
    then have "push_bit j 1 \<noteq> (0 :: byte)" by (metis bit_0_eq bot_apply bot_bool_def)
    then have "b ! i XOR push_bit j 1 \<noteq> b ! i" by (metis xor.right_neutral xor_left_cancel)
    moreover have "\<not> (i = 4 \<and> b ! i XOR push_bit j 1 = 7)" using ver bit_flip_not_7 by auto
    ultimately show "\<exists>e. ReadGroup (b[i := b ! i XOR push_bit j 1]) = Some (Inl e)" using all by blast
  qed
qed

theorem corruption_detected_witness:
  "\<exists>e. ReadGroup (tiny_blob[17 := 1]) = Some (Inl e)"
proof -
  have "get32 tiny_blob 4 = Some versionV8" "tiny_blob ! 17 = 0" "17 < length tiny_blob"
    by (simp_all add: tiny_blob_def tiny_body_def getn_def get32_def slice_from_def codec_simps nth_append putU64_def)
  with corruption_detected [OF tiny_accepted, of 17] show ?thesis by simp
qed

end
