(* ===== verification/Roundtrip.thy ===== *)
theory Roundtrip
  imports Group
begin

text \<open>
  What \<^verbatim>\<open>Marshal\<close> writes, \<^verbatim>\<open>ReadGroup\<close> accepts and finds again: the footer
  records, the spans of every column and the time range.

  \<open>written\<close> relates a column to the meta record and the spans of the blob; it is the interface the
  end-to-end theorems about the reader's operations use.
\<close>

section \<open>Well-formed groups\<close>

definition MaxRows :: nat where "MaxRows = 128 * 1024"

text \<open>
  The columns the ingest writer builds: a dictionary column comes from \<^verbatim>\<open>BuildDict\<close>, so its
  dictionary is sorted, its indices point into it and it is no longer than the group.  The raw size
  of a dictionary block leaves its two top bits to the codec flags.
\<close>

definition dict_wf :: "nat \<Rightarrow> DictColumn \<Rightarrow> bool" where
  "dict_wf rows d \<longleftrightarrow> length (Indices d) = rows \<and> sorted_wrt (<) (Dict d) \<and> length (Dict d) \<le> MaxRows
     \<and> (\<forall>x \<in> set (Indices d). unat x < length (Dict d))
     \<and> (\<forall>k < num_dict_blocks (length (Dict d)). length (marshalRawBlock (dict_block (Dict d) k)) < 2 ^ 30)"

definition column_wf :: "nat \<Rightarrow> Column \<Rightarrow> bool" where
  "column_wf rows c \<longleftrightarrow> length (ColName c) \<le> maxNameBytes \<and>
     (if ColTypeOf c = ColDict then (case ColDictOf c of None \<Rightarrow> False | Some d \<Rightarrow> dict_wf rows d)
      else if ColTypeOf c = ColTimestamp then length (ColTs c) = rows
      else ColTypeOf c = ColVector \<and> ColDim c < 2 ^ 32)"

text \<open>The reader's width ceiling applies to every column, also to the dimension of a vector column.\<close>

definition narrow :: "Column \<Rightarrow> bool" where
  "narrow c \<longleftrightarrow> (ColTypeOf c = ColVector \<longrightarrow> ColDim c \<le> 32)"

definition group_wf :: "Group \<Rightarrow> bool" where
  "group_wf g \<longleftrightarrow> GRows g \<le> MaxRows \<and> length (Columns g) \<le> maxGroupColumns
     \<and> list_all (column_wf (GRows g)) (Columns g)
     \<and> (GRows g > 0 \<longrightarrow> list_ex (\<lambda>c. ColTypeOf c = ColDict \<or> ColTypeOf c = ColTimestamp) (Columns g))"

definition gkernels_ok :: "group_kernels \<Rightarrow> bool" where
  "gkernels_ok K \<longleftrightarrow> pack_spec (gk_pack K) \<and> kernels_ok (gk_dict K)"

lemma column_wf_full: "column_wf rows c \<Longrightarrow> column_full rows c"
  by (auto simp: column_wf_def column_full_def dict_wf_def col_types split: if_splits option.splits)

section \<open>Columns in the blob\<close>

text \<open>\<open>holds B e off s\<close>: the bytes \<open>s\<close> stand at \<open>off\<close>, before the end \<open>e\<close> of the data region.\<close>

definition holds :: "bytes \<Rightarrow> nat \<Rightarrow> nat \<Rightarrow> bytes \<Rightarrow> bool" where
  "holds B e off s \<longleftrightarrow> off + length s \<le> e \<and> span B off (length s) = s"

lemma holds_at: "B = p @ s @ r \<Longrightarrow> off = length p \<Longrightarrow> length p + length s \<le> e \<Longrightarrow> holds B e off s"
  by (simp add: holds_def span_def)

definition written_dict :: "group_kernels \<Rightarrow> Group \<Rightarrow> bytes \<Rightarrow> nat \<Rightarrow> DictColumn \<Rightarrow> colMeta \<Rightarrow> bool" where
  "written_dict K g B e d m \<longleftrightarrow> (\<exists>post.
       Width m = bitWidth (length (Dict d)) \<and> DictLen m = length (Dict d)
     \<and> (MinIdx m, MaxIdx m) = index_bounds (Indices d)
     \<and> buildDictBloom (gk_hash K) (Dict d) = Some (BloomW m)
     \<and> (NoPostings g \<longrightarrow> post = [])
     \<and> (\<not> NoPostings g \<longrightarrow> (\<exists>p. buildPostings (Indices d) (length (Dict d)) = Some p \<and> post = marshal (gk_pack K) p []))
     \<and> holds B e (DataOff m) (encodeIndices (gk_pack K) (Indices d) (bitWidth (length (Dict d))))
     \<and> PostLen m = length post \<and> holds B e (PostOff m) post
     \<and> DictLen2 m = length (marshalDictSection (gk_dict K) (Dict d) (Compact g))
     \<and> holds B e (DictOff m) (marshalDictSection (gk_dict K) (Dict d) (Compact g))
     \<and> DataLen m = length (encodeIndices (gk_pack K) (Indices d) (bitWidth (length (Dict d)))) + PostLen m + DictLen2 m
     \<and> DataOff m + DataLen m \<le> e)"

definition written :: "group_kernels \<Rightarrow> Group \<Rightarrow> bytes \<Rightarrow> nat \<Rightarrow> Column \<Rightarrow> colMeta \<Rightarrow> bool" where
  "written K g B e c m \<longleftrightarrow> Name m = ColName c \<and> Type m = ColTypeOf c \<and>
     (if ColTypeOf c = ColDict then (\<exists>d. ColDictOf c = Some d \<and> written_dict K g B e d m)
      else PostOff m = 0 \<and> PostLen m = 0 \<and> DictOff m = 0 \<and> DictLen2 m = 0 \<and> DictLen m = 0 \<and> BloomW m = [] \<and>
       (if ColTypeOf c = ColTimestamp
        then Width m = 0 \<and> DataLen m = length (encodeTimestamps (ColTs c))
          \<and> holds B e (DataOff m) (encodeTimestamps (ColTs c))
        else Width m = ColDim c \<and> DataLen m = length (encodeVectors (ColVec c) (ColDim c))
          \<and> holds B e (DataOff m) (encodeVectors (ColVec c) (ColDim c))))"

lemma marshal_append: "marshal bitPack p b = b @ marshal bitPack p []"
  by (simp add: marshal_def Let_def split: prod.splits)

lemma dict_wf_bloom:
  assumes "dict_wf rows d"
  obtains bloom where "buildDictBloom hash (Dict d) = Some bloom" "length bloom \<le> maxBloomWords"
proof -
  have l: "length (Dict d) \<le> MaxRows" using assms by (simp add: dict_wf_def)
  then have s: "bloom_sized (Dict d)" by (simp add: bloom_sized_def MaxRows_def)
  obtain f where f: "buildDictBloom hash (Dict d) = Some f" using bloom.build_total [OF s] by blast
  have "length f = bloomWordsFor (length (Dict d))" using build_length [OF f] s by (simp add: bloom_sized_def)
  then have "length f \<le> maxBloomWords"
    using bloomWords_bounds(2) [of "length (Dict d)"] l by (simp add: MaxRows_def maxBloomWords_def)
  then show thesis using that f by blast
qed

lemma dict_wf_postings:
  assumes "dict_wf rows d" and "rows \<le> MaxRows"
  obtains p where "buildPostings (Indices d) (length (Dict d)) = Some p" "built (Indices d) (length (Dict d)) p"
  using built_build [of "Indices d" "length (Dict d)"] assms
  by (auto simp: dict_wf_def MaxRows_def maxPostingRun_def)

definition meta_small :: "colMeta \<Rightarrow> bool" where
  "meta_small m \<longleftrightarrow> length (BloomW m) \<le> maxBloomWords \<and> Width m < 2 ^ 32 \<and> DictLen m \<le> MaxRows"

text \<open>One turn of the column loop appends the column's bytes and its meta record.\<close>

lemma marshal_column_written:
  assumes wf: "column_wf (GRows g) c" and rows: "GRows g \<le> MaxRows"
  obtains s m where "marshal_column K g st c = Some (st\<lparr>ms_b := ms_b st @ s, ms_metas := ms_metas st @ [m],
      ms_time := (if ColTypeOf c = ColTimestamp then foldl time_step (ms_time st) (ColTs c) else ms_time st)\<rparr>)"
    "\<forall>z e. length (ms_b st @ s) \<le> e \<longrightarrow> written K g (ms_b st @ s @ z) e c m"
    "meta_small m"
proof -
  let ?b = "ms_b st"
  consider (dict) d where "ColTypeOf c = ColDict" "ColDictOf c = Some d" "dict_wf (GRows g) d"
    | (ts) "ColTypeOf c = ColTimestamp" | (vec) "ColTypeOf c = ColVector" "ColDim c < 2 ^ 32"
    using wf by (auto simp: column_wf_def split: if_splits option.splits)
  then show thesis
  proof cases
    case (dict d)
    obtain bloom where bl: "buildDictBloom (gk_hash K) (Dict d) = Some bloom" "length bloom \<le> maxBloomWords"
      using dict_wf_bloom [OF dict(3)] .
    obtain p where p: "buildPostings (Indices d) (length (Dict d)) = Some p"
      using dict_wf_postings [OF dict(3) rows] .
    obtain mn mx where ib: "index_bounds (Indices d) = (mn, mx)" by (metis prod.exhaust)
    define w where "w = bitWidth (length (Dict d))"
    define enc where "enc = encodeIndices (gk_pack K) (Indices d) w"
    define post where "post = (if NoPostings g then [] else marshal (gk_pack K) p [])"
    define sec where "sec = marshalDictSection (gk_dict K) (Dict d) (Compact g)"
    define m where "m = (emptyMeta (ColName c) (ColTypeOf c) (length ?b))\<lparr>Width := w, DictLen := length (Dict d),
       MinIdx := mn, MaxIdx := mx, BloomW := bloom, PostOff := length ?b + length enc, PostLen := length post,
       DictOff := length ?b + length enc + length post, DictLen2 := length sec,
       DataLen := length enc + length post + length sec\<rparr>"
    have "marshal_column K g st c = Some (st\<lparr>ms_b := ?b @ enc @ post @ sec, ms_metas := ms_metas st @ [m]\<rparr>)"
      using dict bl p ib
      by (auto simp: marshal_column_def Let_def m_def enc_def post_def sec_def w_def marshal_append [of _ p "_ @ _"])
    moreover have "written K g (?b @ (enc @ post @ sec) @ z) e c m" if "length (?b @ enc @ post @ sec) \<le> e" for z e
    proof -
      have "holds (?b @ (enc @ post @ sec) @ z) e (length ?b) enc"
        by (rule holds_at [of _ ?b enc "post @ sec @ z"]) (use that in simp_all)
      moreover have "holds (?b @ (enc @ post @ sec) @ z) e (length ?b + length enc) post"
        by (rule holds_at [of _ "?b @ enc" post "sec @ z"]) (use that in simp_all)
      moreover have "holds (?b @ (enc @ post @ sec) @ z) e (length ?b + length enc + length post) sec"
        by (rule holds_at [of _ "?b @ enc @ post" sec z]) (use that in simp_all)
      ultimately show ?thesis
        using dict(1,2) bl(1) p ib that unfolding written_def written_dict_def
        by (auto simp: m_def emptyMeta_def w_def [symmetric] enc_def [symmetric] sec_def [symmetric] post_def)
    qed
    moreover have "length (Dict d) \<le> MaxRows" "w \<le> 32"
      using dict(3) bitWidth_bounds(2) [of "length (Dict d)"] by (simp_all add: dict_wf_def MaxRows_def w_def)
    ultimately show thesis
      using dict(1) bl(2) by (intro that [of m "enc @ post @ sec"]) (simp_all add: m_def col_types meta_small_def)
  next
    case ts
    let ?s = "encodeTimestamps (ColTs c)"
    let ?m = "(emptyMeta (ColName c) (ColTypeOf c) (length ?b))\<lparr>DataLen := length ?s\<rparr>"
    show thesis
      by (rule that [of ?m ?s])
        (use ts in \<open>auto simp: marshal_column_def written_def emptyMeta_def col_types Let_def maxBloomWords_def meta_small_def
          intro!: holds_at\<close>)
  next
    case vec
    let ?s = "encodeVectors (ColVec c) (ColDim c)"
    let ?m = "(emptyMeta (ColName c) (ColTypeOf c) (length ?b))\<lparr>Width := ColDim c, DataLen := length ?s\<rparr>"
    show thesis
      by (rule that [of ?m ?s])
        (use vec in \<open>auto simp: marshal_column_def written_def emptyMeta_def col_types Let_def maxBloomWords_def meta_small_def
          intro!: holds_at\<close>)
  qed
qed

lemma marshal_columns_written:
  assumes rows: "GRows g \<le> MaxRows"
  shows "list_all (column_wf (GRows g)) cs \<Longrightarrow>
    \<exists>s ms. marshal_columns K g st cs = Some (st\<lparr>ms_b := ms_b st @ s, ms_metas := ms_metas st @ ms,
        ms_time := foldl time_step (ms_time st) (concat (map ColTs (filter (\<lambda>c. ColTypeOf c = ColTimestamp) cs)))\<rparr>)
      \<and> (\<forall>z e. length (ms_b st @ s) \<le> e \<longrightarrow> list_all2 (written K g (ms_b st @ s @ z) e) cs ms) \<and> list_all meta_small ms"
proof (induction cs arbitrary: st)
  case (Cons c cs)
  obtain s m where c: "marshal_column K g st c = Some (st\<lparr>ms_b := ms_b st @ s, ms_metas := ms_metas st @ [m],
      ms_time := (if ColTypeOf c = ColTimestamp then foldl time_step (ms_time st) (ColTs c) else ms_time st)\<rparr>)" (is "_ = Some ?st")
    "\<forall>z e. length (ms_b st @ s) \<le> e \<longrightarrow> written K g (ms_b st @ s @ z) e c m" "meta_small m"
    by (rule marshal_column_written [OF _ rows, of c K st]) (use Cons.prems in simp_all)
  obtain s' ms where cs: "marshal_columns K g ?st cs = Some (?st\<lparr>ms_b := ms_b ?st @ s', ms_metas := ms_metas ?st @ ms,
      ms_time := foldl time_step (ms_time ?st) (concat (map ColTs (filter (\<lambda>c. ColTypeOf c = ColTimestamp) cs)))\<rparr>)"
    "\<forall>z e. length (ms_b ?st @ s') \<le> e \<longrightarrow> list_all2 (written K g (ms_b ?st @ s' @ z) e) cs ms" "list_all meta_small ms"
    using Cons.IH [of ?st] Cons.prems by auto
  show ?case
    using c cs by (intro exI [of _ "s @ s'"] exI [of _ "m # ms"]) auto
next
  case Nil
  show ?case by (intro exI [of _ "[]"]) simp
qed

section \<open>Footer records\<close>

lemma cur_str_on:
  assumes on: "cursor_on c (appStr [] s @ r)" and s: "length s \<le> maxNameBytes"
  shows "\<exists>c'. cur_str c = (s, c') \<and> cursor_on c' r"
proof -
  obtain c1 where c1: "cur_u32 c = (of_nat (length s), c1)" "cursor_on c1 (s @ r)"
    using on cu32.rd_on [of c "of_nat (length s)" "s @ r"] by (auto simp: appStr_def appU32_def)
  have n: "unat (of_nat (length s) :: u32) = length s" using s by (simp add: maxNameBytes_def)
  have need: "cur_need (length s) c1 = (True, c1)" using cursor_on_need [OF c1(2)] by simp
  have "cursor_on (c1\<lparr>cat := cat c1 + length s\<rparr>) r" "take (length s) (drop (cat c1) (cb c1)) = s"
  proof -
    have d: "drop (cat c1) (cb c1) = s @ r" and e: "cerr c1 = None" "cat c1 \<le> length (cb c1)"
      using c1(2) by (simp_all add: cursor_on_def)
    have "length (cb c1) - cat c1 = length s + length r" using d by (metis length_append length_drop)
    moreover have "drop (cat c1 + length s) (cb c1) = r" by (metis d append_eq_conv_conj drop_drop add.commute)
    ultimately show "cursor_on (c1\<lparr>cat := cat c1 + length s\<rparr>) r" using e by (simp add: cursor_on_def)
    show "take (length s) (drop (cat c1) (cb c1)) = s" by (simp add: d)
  qed
  then show ?thesis using c1 n s need by (simp add: cur_str_def Let_def cursor_on_def)
qed

definition meta_fits :: "colMeta \<Rightarrow> bool" where
  "meta_fits m \<longleftrightarrow> length (Name m) \<le> maxNameBytes \<and> length (BloomW m) \<le> maxBloomWords
     \<and> Width m < 2 ^ 32 \<and> DictLen m < 2 ^ 32 \<and> DataOff m < 2 ^ 32 \<and> DataLen m < 2 ^ 32 \<and> PostOff m < 2 ^ 32
     \<and> PostLen m < 2 ^ 32 \<and> DictOff m < 2 ^ 32 \<and> DictLen2 m < 2 ^ 32"

lemma read_meta_on:
  assumes on: "cursor_on c (meta_bytes m @ r)" and fit: "meta_fits m"
  shows "\<exists>c'. read_meta i c = Inr (m, c') \<and> cursor_on c' r"
proof -
  let ?u = "\<lambda>n. putU32 (of_nat n)"
  let ?tail = "concat (map putU64 (BloomW m)) @ ?u (DictOff m) @ ?u (DictLen2 m) @ r"
  have on0: "cursor_on c (appStr [] (Name m) @ [Type m] @ ?u (Width m) @ ?u (DictLen m)
     @ putU32 (MinIdx m) @ putU32 (MaxIdx m) @ ?u (DataOff m) @ ?u (DataLen m) @ ?u (PostOff m) @ ?u (PostLen m)
     @ ?u (length (BloomW m)) @ ?tail)" using on by (simp add: meta_bytes_def)
  obtain c1 where 1: "cur_str c = (Name m, c1)" "cursor_on c1 ([Type m] @ ?u (Width m) @ ?u (DictLen m)
     @ putU32 (MinIdx m) @ putU32 (MaxIdx m) @ ?u (DataOff m) @ ?u (DataLen m) @ ?u (PostOff m) @ ?u (PostLen m)
     @ ?u (length (BloomW m)) @ ?tail)" using cur_str_on [OF on0] fit by (auto simp: meta_fits_def)
  obtain c2 where 2: "cur_byte c1 = (Type m, c2)" "cursor_on c2 (?u (Width m) @ ?u (DictLen m)
     @ putU32 (MinIdx m) @ putU32 (MaxIdx m) @ ?u (DataOff m) @ ?u (DataLen m) @ ?u (PostOff m) @ ?u (PostLen m)
     @ ?u (length (BloomW m)) @ ?tail)" using cbyte.rd_on [OF 1(2)] by blast
  obtain c3 where 3: "cur_u32 c2 = (of_nat (Width m), c3)" "cursor_on c3 (?u (DictLen m)
     @ putU32 (MinIdx m) @ putU32 (MaxIdx m) @ ?u (DataOff m) @ ?u (DataLen m) @ ?u (PostOff m) @ ?u (PostLen m)
     @ ?u (length (BloomW m)) @ ?tail)" using cu32.rd_on [OF 2(2)] by blast
  obtain c4 where 4: "cur_u32 c3 = (of_nat (DictLen m), c4)" "cursor_on c4 (putU32 (MinIdx m) @ putU32 (MaxIdx m)
     @ ?u (DataOff m) @ ?u (DataLen m) @ ?u (PostOff m) @ ?u (PostLen m)
     @ ?u (length (BloomW m)) @ ?tail)" using cu32.rd_on [OF 3(2)] by blast
  obtain c5 where 5: "cur_u32 c4 = (MinIdx m, c5)" "cursor_on c5 (putU32 (MaxIdx m)
     @ ?u (DataOff m) @ ?u (DataLen m) @ ?u (PostOff m) @ ?u (PostLen m)
     @ ?u (length (BloomW m)) @ ?tail)" using cu32.rd_on [OF 4(2)] by blast
  obtain c6 where 6: "cur_u32 c5 = (MaxIdx m, c6)" "cursor_on c6 (?u (DataOff m) @ ?u (DataLen m)
     @ ?u (PostOff m) @ ?u (PostLen m) @ ?u (length (BloomW m)) @ ?tail)" using cu32.rd_on [OF 5(2)] by blast
  obtain c7 where 7: "cur_u32 c6 = (of_nat (DataOff m), c7)" "cursor_on c7 (?u (DataLen m)
     @ ?u (PostOff m) @ ?u (PostLen m) @ ?u (length (BloomW m)) @ ?tail)" using cu32.rd_on [OF 6(2)] by blast
  obtain c8 where 8: "cur_u32 c7 = (of_nat (DataLen m), c8)" "cursor_on c8 (?u (PostOff m) @ ?u (PostLen m)
     @ ?u (length (BloomW m)) @ ?tail)" using cu32.rd_on [OF 7(2)] by blast
  obtain c9 where 9: "cur_u32 c8 = (of_nat (PostOff m), c9)" "cursor_on c9 (?u (PostLen m)
     @ ?u (length (BloomW m)) @ ?tail)" using cu32.rd_on [OF 8(2)] by blast
  obtain c10 where 10: "cur_u32 c9 = (of_nat (PostLen m), c10)" "cursor_on c10 (?u (length (BloomW m)) @ ?tail)"
    using cu32.rd_on [OF 9(2)] by blast
  obtain c11 where 11: "cur_u32 c10 = (of_nat (length (BloomW m)), c11)" "cursor_on c11 ?tail"
    using cu32.rd_on [OF 10(2)] by blast
  have nb: "unat (of_nat (length (BloomW m)) :: u32) = length (BloomW m)" "length (BloomW m) \<le> maxBloomWords"
    using fit by (simp_all add: meta_fits_def maxBloomWords_def)
  have need: "cur_need (length (BloomW m) * 8) c11 = (True, c11)"
    using cursor_on_need [OF 11(2)] cu64.length_puts [of "BloomW m"] by (simp del: length_concat)
  obtain c13 where 13: "read_n cur_u64 (length (BloomW m)) c11 = (BloomW m, c13)"
    "cursor_on c13 (?u (DictOff m) @ ?u (DictLen2 m) @ r)" using cu64.read_n_on [OF 11(2)] by blast
  obtain c14 where 14: "cur_u32 c13 = (of_nat (DictOff m), c14)" "cursor_on c14 (?u (DictLen2 m) @ r)"
    using cu32.rd_on [OF 13(2)] by blast
  obtain c15 where 15: "cur_u32 c14 = (of_nat (DictLen2 m), c15)" "cursor_on c15 r"
    using cu32.rd_on [OF 14(2)] by blast
  have err: "cerr c11 = None" "cerr c15 = None" using 11(2) 15(2) by (auto dest: cursor_on_cerr)
  have "read_meta i c = Inr (m, c15)"
    unfolding read_meta_def Let_def 1 2 3 4 5 6 7 8 9 10 11 prod.case
    using nb need 13(1) 14(1) 15(1) err fit by (simp add: meta_fits_def)
  with 15(2) show ?thesis by blast
qed

section \<open>Written columns pass the checks\<close>

lemma holds_span: "holds B e off s \<Longrightarrow> span B off (length s) = s"
  by (simp add: holds_def)

lemma index_width:
  assumes "dict_wf rows d"
  shows "\<forall>x \<in> set (Indices d). unat x < 2 ^ bitWidth (length (Dict d))" "1 \<le> bitWidth (length (Dict d))"
    "bitWidth (length (Dict d)) \<le> 32"
proof -
  have l: "length (Dict d) \<le> 2 ^ 32" using assms by (simp add: dict_wf_def MaxRows_def)
  show "\<forall>x \<in> set (Indices d). unat x < 2 ^ bitWidth (length (Dict d))"
    using assms bitWidth_holds [OF _ l] by (auto simp: dict_wf_def)
  show "1 \<le> bitWidth (length (Dict d))" "bitWidth (length (Dict d)) \<le> 32" using bitWidth_bounds [OF l] .
qed

lemma dict_wf_fits:
  assumes "dict_wf rows d" "length (marshalDictSection K (Dict d) compact) < 2 ^ 32"
  shows "dict_fits K compact (Dict d)"
  using assms by (simp add: dict_wf_def dict_fits_def)

lemma check_dictlen_written:
  assumes K: "kernels_ok (gk_dict K)" and wf: "dict_wf rows d" and w: "written_dict K g B e d m"
    and e: "e \<le> length B" and B: "length B < 2 ^ 32"
  shows "check_dictlen B i m = Some None"
proof -
  let ?sec = "marshalDictSection (gk_dict K) (Dict d) (Compact g)"
  have h: "holds B e (DictOff m) ?sec" and l: "DictLen2 m = length ?sec" "DictLen m = length (Dict d)"
    using w by (auto simp: written_dict_def)
  then have inb: "DictOff m + DictLen2 m \<le> length B" using e by (simp add: holds_def)
  then have gs: "gslice B (DictOff m) (DictOff m + DictLen2 m) = Some ?sec"
    using gslice_span [OF inb] holds_span [OF h] l by simp
  have "length ?sec < 2 ^ 32" using inb B l by simp
  then obtain sd where sd: "parseDictSec ?sec = Some sd" "sec_ok (gk_dict K) (Dict d) sd"
    using parse_ok [OF K dict_wf_fits [OF wf]] by blast
  have "\<not> num_dict_blocks (length (Dict d)) < num_dict_blocks (length (Dict d))" by simp
  then have "length (Dict d) \<le> numBlocks sd * dictBlock"
    unfolding num_dict_blocks_iff using sd(2) by (simp add: sec_ok_def)
  then show ?thesis using gs sd(1) l by (simp add: check_dictlen_def)
qed

lemma length_section_pos: "20 \<le> length (marshalDictSection K dict compact)"
  by (simp add: marshalDictSection_def Let_def split: prod.splits)

lemma check_dict_data_written:
  assumes K: "pack_spec (gk_pack K)" and wf: "dict_wf rows d" and rows: "rows \<le> MaxRows"
    and w: "written_dict K g B e d m" and small: "meta_small m"
  shows "check_dict_data rows i m = Some None"
proof -
  let ?w = "bitWidth (length (Dict d))"
  let ?enc = "encodeIndices (gk_pack K) (Indices d) ?w"
  note iw = index_width [OF wf]
  have m: "Width m = ?w" "DataLen m = length ?enc + PostLen m + DictLen2 m"
    "DictLen2 m = length (marshalDictSection (gk_dict K) (Dict d) (Compact g))" using w by (auto simp: written_dict_def)
  have need: "(rows * Width m + 31) div 32 * 4 + 4 \<le> DataLen m"
  proof (cases "Indices d = []")
    case True
    then have "rows = 0" using wf by (simp add: dict_wf_def)
    then show ?thesis using m(2,3) length_section_pos [of "gk_dict K" "Dict d" "Compact g"] by simp
  next
    case False
    have "length (Indices d) = rows" using wf by (simp add: dict_wf_def)
    then show ?thesis using length_encodeIndices [OF K iw(2,3,1) False] m by simp
  qed
  have "rows \<le> maxGroupRows div ?w"
  proof -
    have "rows * ?w \<le> MaxRows * 32" using rows iw(3) by (rule mult_le_mono)
    also have "\<dots> \<le> maxGroupRows" by (simp add: MaxRows_def maxGroupRows_def)
    finally show ?thesis using iw(2) by (simp add: less_eq_div_iff_mult_less_eq)
  qed
  then show ?thesis using need m(1) by (simp add: check_dict_data_def)
qed

lemma ts_take_le: "length (ts_bytes (take i ts)) \<le> length (ts_bytes ts)"
proof -
  have "ts_bytes ts = ts_bytes (take i ts) @ uvar.puts (drop i (ts_codes ts))"
    by (metis append_take_drop_id take_ts_codes ts_bytes_def uvar.puts_simps(3))
  then show ?thesis by simp
qed

lemma checkpoints_written:
  "\<forall>k \<in> set ks. DataOff m + 8 + k * tsHdrStride + 4 \<le> length b
      \<and> (\<exists>off. getn b (DataOff m + 8 + k * tsHdrStride) = Some off \<and> off \<le> streamLen)
   \<Longrightarrow> check_checkpoints b i m streamLen ks = Some None"
  by (induction ks) (auto simp: Let_def)

lemma check_ts_written:
  assumes ty: "Type m = ColTimestamp" and len: "DataLen m = length (encodeTimestamps ts)" and ts: "length ts \<le> MaxRows"
    and h: "holds B e (DataOff m) (encodeTimestamps ts)" and e: "e \<le> length B"
  shows "check_ts B (length ts) i m = Some None"
proof (cases "ts = []")
  case True
  then show ?thesis using ty len by (simp add: check_ts_def encodeTimestamps_def)
next
  case False
  let ?d = "encodeTimestamps ts" and ?nb = "ts_blocks ts"
  have inb: "DataOff m + DataLen m \<le> length B" using h e len by (simp add: holds_def)
  have d: "span B (DataOff m) (DataLen m) = ?d" using holds_span [OF h] len by simp
  obtain mn mx where lay: "ts_layout ?d ts mn mx"
    using ts_encode_layout [OF False] ts by (auto simp: MaxRows_def)
  have rd: "getn B (DataOff m + k) = getn ?d k" if "k + 4 \<le> DataLen m" for k
    using getn_span [OF that inb] d by simp
  have l8: "8 \<le> DataLen m" and nb: "getn B (DataOff m) = Some ?nb" and bs: "getn B (DataOff m + 4) = Some tsBlock"
    using lay rd [of 0] rd [of 4] len by (auto simp: ts_layout_def)
  have sl: "8 + ?nb * tsHdrStride \<le> length ?d" "drop (8 + ?nb * tsHdrStride) ?d = ts_bytes ts"
    using lay by (auto simp: ts_layout_def slice_from_def split: if_splits)
  have stream: "8 + ?nb * tsHdrStride \<le> DataLen m" "DataLen m - (8 + ?nb * tsHdrStride) = length (ts_bytes ts)"
    unfolding len using sl(1) by (simp_all add: sl(2) [symmetric])
  have "?nb \<le> length ts" using ts_blocks_iff [of "length ts" ts] by (simp add: tsBlock_def)
  then have nbm: "?nb \<le> maxGroupRows" using ts by (simp add: MaxRows_def maxGroupRows_def)
  have "?nb \<le> (DataLen m - 8) div tsHdrStride"
    using stream(1) by (simp add: less_eq_div_iff_mult_less_eq tsHdrStride_def)
  moreover have "0 < ?nb" using ts_blocks_iff [of 0 ts] False by simp
  moreover have "check_checkpoints B i m (length (ts_bytes ts)) [0..<?nb] = Some None"
  proof (rule checkpoints_written, intro ballI)
    fix k assume "k \<in> set [0..<?nb]"
    then have k: "k < ?nb" by simp
    then have "(k + 1) * tsHdrStride \<le> ?nb * tsHdrStride" by (intro mult_le_mono1) simp
    then have in_d: "8 + k * tsHdrStride + 4 \<le> DataLen m" using stream(1) by (simp add: tsHdrStride_def)
    have "getn B (DataOff m + (8 + k * tsHdrStride)) = Some (length (ts_bytes (take (k * tsBlock) ts)))"
      using rd [OF in_d] lay k by (simp add: ts_layout_def Let_def)
    then show "DataOff m + 8 + k * tsHdrStride + 4 \<le> length B
      \<and> (\<exists>off. getn B (DataOff m + 8 + k * tsHdrStride) = Some off \<and> off \<le> length (ts_bytes ts))"
      using in_d inb ts_take_le [of "k * tsBlock" ts] by (simp add: add.assoc)
  qed
  moreover have "length ts \<le> length (ts_bytes ts) * 8 + 8" using length_ts_bytes(1) [of ts] by simp
  ultimately show ?thesis
    using ty l8 nb bs stream nbm inb False
    by (simp add: check_ts_def and_then_ok ts_blocks_def tsBlock_def)
qed

lemma check_meta_intro:
  assumes "DataOff m + DataLen m \<le> e" "PostOff m + PostLen m \<le> e" "DictOff m + DictLen2 m \<le> e" "Width m \<le> 32"
    "DictLen m \<le> maxGroupRows" "check_dictlen b i m = Some None" "check_ts b rows i m = Some None"
    "check_dict_data rows i m = Some None"
  shows "check_meta b rows e i m = Some None"
  using assms by (simp add: check_meta_def and_then_ok checkSpan_ok)

text \<open>What the checks and the footer's field widths ask of a written column.\<close>

lemma written_spans:
  assumes "written K g B e c m"
  shows "DataOff m + DataLen m \<le> e" "PostOff m + PostLen m \<le> e" "DictOff m + DictLen2 m \<le> e"
  using assms by (auto simp: written_def written_dict_def holds_def split: if_splits)

lemma written_width:
  assumes wf: "column_wf rows c" and w: "written K g B e c m"
  shows "Width m \<le> 32 \<longleftrightarrow> narrow c"
proof (cases "ColTypeOf c = ColDict")
  case True
  then obtain d where d: "dict_wf rows d" "written_dict K g B e d m"
    using wf w by (auto simp: column_wf_def written_def split: option.splits)
  have "Width m = bitWidth (length (Dict d))" using d(2) unfolding written_dict_def by blast
  then show ?thesis using index_width(3) [OF d(1)] True by (simp add: narrow_def col_types)
next
  case False
  then show ?thesis using wf w by (auto simp: written_def narrow_def column_wf_def col_types split: if_splits)
qed

lemma check_meta_wide:
  assumes wf: "column_wf rows c" and w: "written K g B e c m" and "\<not> narrow c"
  shows "check_meta B rows e i m = Some (Some (BadWidth i (Width m)))" and "32 < Width m"
proof -
  show w32: "32 < Width m" using written_width [OF wf w] assms(3) by simp
  show "check_meta B rows e i m = Some (Some (BadWidth i (Width m)))"
    using written_spans [OF w, folded checkSpan_ok [of i "''data''"]] written_spans(2) [OF w, folded checkSpan_ok [of i "''postings''"]]
      written_spans(3) [OF w, folded checkSpan_ok [of i "''dict''"]] w32
    unfolding check_meta_def by (simp add: and_then_def refuse_def)
qed

lemma check_meta_written:
  assumes K: "gkernels_ok K" and wf: "column_wf rows c" and rows: "rows \<le> MaxRows" and w: "written K g B e c m"
    and small: "meta_small m" and nar: "narrow c" and e: "e \<le> length B" and B: "length B < 2 ^ 32"
  shows "check_meta B rows e i m = Some None"
proof -
  have sm: "Width m \<le> 32" "DictLen m \<le> maxGroupRows"
    using small written_width [OF wf w] nar by (auto simp: meta_small_def MaxRows_def maxGroupRows_def)
  have ty: "Type m = ColTypeOf c" using w by (simp add: written_def)
  consider (dict) d where "ColTypeOf c = ColDict" "dict_wf rows d" "written_dict K g B e d m"
    | (ts) "ColTypeOf c = ColTimestamp" "length (ColTs c) = rows" | (vec) "ColTypeOf c = ColVector"
    using wf w by (auto simp: column_wf_def written_def split: if_splits option.splits)
  then show ?thesis
  proof cases
    case (dict d)
    have p: "pack_spec (gk_pack K)" "kernels_ok (gk_dict K)" using K by (simp_all add: gkernels_ok_def)
    have "check_ts B rows i m = Some None" using dict(1) ty by (simp add: check_ts_def col_types)
    with check_dictlen_written [OF p(2) dict(2,3) e B] check_dict_data_written [OF p(1) dict(2) rows dict(3) small] show ?thesis
      by (intro check_meta_intro written_spans [OF w] sm)
  next
    case ts
    have tw: "DataLen m = length (encodeTimestamps (ColTs c))" "holds B e (DataOff m) (encodeTimestamps (ColTs c))" "DictLen m = 0"
      using w ts by (auto simp: written_def col_types)
    have "check_ts B rows i m = Some None"
      using check_ts_written [OF _ tw(1) _ tw(2) e] ts ty rows by simp
    then show ?thesis
      using ts tw(3) ty by (intro check_meta_intro written_spans [OF w] sm)
        (simp_all add: check_dictlen_def check_dict_data_def col_types)
  next
    case vec
    then have "DictLen m = 0" using w by (auto simp: written_def col_types)
    then show ?thesis
      using vec ty by (intro check_meta_intro written_spans [OF w] sm)
        (simp_all add: check_dictlen_def check_dict_data_def check_ts_def col_types)
  qed
qed

lemma written_backs:
  assumes wf: "column_wf rows c" and w: "written K g B e c m"
  shows "backs_rows m \<longleftrightarrow> ColTypeOf c = ColDict \<or> ColTypeOf c = ColTimestamp"
proof (cases "ColTypeOf c = ColDict")
  case True
  then obtain d where d: "dict_wf rows d" "written_dict K g B e d m"
    using wf w by (auto simp: column_wf_def written_def split: option.splits)
  have "Width m = bitWidth (length (Dict d))" using d(2) unfolding written_dict_def by blast
  then have "Width m > 0" using index_width(2) [OF d(1)] by linarith
  then show ?thesis using True w by (simp add: backs_rows_def written_def)
next
  case False
  then show ?thesis using w by (auto simp: backs_rows_def written_def)
qed

lemma written_fits:
  assumes "column_wf rows c" "written K g B e c m" "meta_small m" "e < 2 ^ 32"
  shows "meta_fits m"
  using written_spans [OF assms(2)] assms by (auto simp: meta_fits_def written_def column_wf_def meta_small_def MaxRows_def)

lemma read_columns_written:
  assumes K: "gkernels_ok K" and rows: "GRows g \<le> MaxRows" and e: "e \<le> length B" and B: "length B < 2 ^ 32"
  shows "list_all2 (written K g B e) cs ms \<Longrightarrow> list_all (column_wf (GRows g)) cs \<Longrightarrow> list_all meta_small ms \<Longrightarrow>
    cursor_on c (concat (map meta_bytes ms) @ r) \<Longrightarrow>
    (list_all narrow cs \<longrightarrow> read_columns B (GRows g) e i (length ms) c acc backed
      = Some (Inr (acc @ ms, backed \<or> list_ex (\<lambda>c. ColTypeOf c = ColDict \<or> ColTypeOf c = ColTimestamp) cs)))
    \<and> (\<not> list_all narrow cs \<longrightarrow> (\<exists>j w. 32 < w \<and>
          read_columns B (GRows g) e i (length ms) c acc backed = Some (Inl (BadWidth j w))))"
proof (induction cs ms arbitrary: i c acc backed rule: list_all2_induct)
  case (Cons col cs m ms)
  then have w: "written K g B e col m" and wf: "column_wf (GRows g) col" and sm: "meta_small m" by simp_all
  have fit: "meta_fits m" using written_fits [OF wf w sm] e B by simp
  obtain c' where c': "read_meta i c = Inr (m, c')" "cursor_on c' (concat (map meta_bytes ms) @ r)"
    using read_meta_on [OF _ fit, of c "concat (map meta_bytes ms) @ r"] Cons.prems by auto
  show ?case
  proof (cases "narrow col")
    case True
    have ck: "check_meta B (GRows g) e i m = Some None" by (rule check_meta_written [OF K wf rows w sm True e B])
    show ?thesis
      using c'(1) ck Cons.IH [OF _ _ c'(2), of "Suc i" "acc @ [m]" "backed \<or> backs_rows m"] Cons.prems
        written_backs [OF wf w] True by simp
  next
    case False
    then show ?thesis using c'(1) check_meta_wide [OF wf w False] by auto
  qed
qed simp

section \<open>Reading a written group\<close>

lemma marshal_shape_group:
  assumes wf: "group_wf g" and M: "Marshal K g = Some B"
  obtains data ms tm foot where
    "B = (group_header g @ data @ foot @ putU32 (of_nat (length foot)))
       @ putU32 (crc32c (group_header g @ data @ foot @ putU32 (of_nat (length foot))))"
    "foot = group_footer tm ms"
    "tm = (if GRows g = 0 then (0, 0) else foldl time_step (0x7FFFFFFFFFFFFFFF, 0x8000000000000000)
        (concat (map ColTs (filter (\<lambda>c. ColTypeOf c = ColTimestamp) (Columns g)))))"
    "list_all2 (written K g B (16 + length data)) (Columns g) ms" "list_all meta_small ms"
proof -
  have rows: "GRows g \<le> MaxRows" and cw: "list_all (column_wf (GRows g)) (Columns g)" using wf by (simp_all add: group_wf_def)
  have full: "list_all (column_full (GRows g)) (Columns g)"
    using cw by (auto simp: list_all_iff intro: column_wf_full)
  let ?st = "\<lparr>ms_b = group_header g, ms_metas = [], ms_time = (0x7FFFFFFFFFFFFFFF, 0x8000000000000000)\<rparr> :: marshal_state"
  let ?tss = "concat (map ColTs (filter (\<lambda>c. ColTypeOf c = ColTimestamp) (Columns g)))"
  obtain data ms where mc: "marshal_columns K g ?st (Columns g) = Some (?st\<lparr>ms_b := ms_b ?st @ data,
      ms_metas := ms_metas ?st @ ms, ms_time := foldl time_step (ms_time ?st) ?tss\<rparr>)"
    "\<forall>z e. length (ms_b ?st @ data) \<le> e \<longrightarrow> list_all2 (written K g (ms_b ?st @ data @ z) e) (Columns g) ms"
    "list_all meta_small ms"
    using marshal_columns_written [OF rows cw, of K ?st] by blast
  define tm where "tm = (if GRows g = 0 then (0, 0) else foldl time_step (0x7FFFFFFFFFFFFFFF, 0x8000000000000000) ?tss)"
  define foot where "foot = group_footer tm ms"
  define body where "body = group_header g @ data @ foot @ putU32 (of_nat (length foot))"
  have B: "B = body @ putU32 (crc32c body)"
    using M full mc(1) by (auto simp: Marshal_def Let_def body_def foot_def tm_def)
  have "list_all2 (written K g B (16 + length data)) (Columns g) ms"
    using mc(2) [rule_format, of "16 + length data" "foot @ putU32 (of_nat (length foot)) @ putU32 (crc32c body)"]
    by (simp add: B body_def group_header_def)
  from that [OF B [unfolded body_def] foot_def tm_def this mc(3)] show thesis .
qed

text \<open>Header, checksum, footer length and time range are found again; what is left is the column loop.\<close>

lemma ReadGroup_columns:
  assumes wf: "group_wf g" and M: "Marshal K g = Some B" and B: "length B < 2 ^ 32"
  obtains e ms tm c where "e \<le> length B" "list_all2 (written K g B e) (Columns g) ms" "list_all meta_small ms"
    "cursor_on c (concat (map meta_bytes ms) @ [])"
    "tm = (if GRows g = 0 then (0, 0) else foldl time_step (0x7FFFFFFFFFFFFFFF, 0x8000000000000000)
        (concat (map ColTs (filter (\<lambda>c. ColTypeOf c = ColTimestamp) (Columns g)))))"
    "ReadGroup B = map_option (\<lambda>res. case res of Inl err \<Rightarrow> Inl err
       | Inr (ms, backed) \<Rightarrow> if GRows g > 0 \<and> \<not> backed then Inl RowsNotBacked
           else Inr \<lparr>blob = B, Rows = GRows g, TimeMin = fst tm, TimeMax = snd tm, cols = ms\<rparr>)
       (read_columns B (GRows g) e 0 (length ms) c [] False)"
proof -
  obtain data ms tm foot where sh: "B = (group_header g @ data @ foot @ putU32 (of_nat (length foot)))
       @ putU32 (crc32c (group_header g @ data @ foot @ putU32 (of_nat (length foot))))"
    and foot: "foot = group_footer tm ms"
    and tm: "tm = (if GRows g = 0 then (0, 0) else foldl time_step (0x7FFFFFFFFFFFFFFF, 0x8000000000000000)
        (concat (map ColTs (filter (\<lambda>c. ColTypeOf c = ColTimestamp) (Columns g)))))"
    and w: "list_all2 (written K g B (16 + length data)) (Columns g) ms" and sm: "list_all meta_small ms"
    using marshal_shape_group [OF wf M] .
  define body where "body = group_header g @ data @ foot @ putU32 (of_nat (length foot))"
  have Bb: "B = body @ putU32 (crc32c body)" using sh by (simp only: body_def)
  have lh: "length (group_header g) = 16" by (simp add: group_header_def)
  have lb: "length body = 20 + length data + length foot" "length B = 24 + length data + length foot"
    by (simp_all add: Bb body_def lh)
  have rows: "GRows g \<le> MaxRows" and nc: "length (Columns g) \<le> maxGroupColumns" using wf by (simp_all add: group_wf_def)
  have lms: "length ms = length (Columns g)" using w by (simp add: list_all2_lengthD)
  have u32: "unat (of_nat (GRows g) :: u32) = GRows g" "unat (of_nat (length (Columns g)) :: u32) = length (Columns g)"
    "unat (of_nat (length foot) :: u32) = length foot"
    using rows nc lb(2) B by (simp_all add: MaxRows_def maxGroupColumns_def)
  have hd: "get32 B 0 = Some magic" "get32 B 4 = Some versionV8" "getn B 8 = Some (GRows g)"
    "getn B 12 = Some (length ms)"
    unfolding Bb body_def group_header_def getn_def lms
    using get32_at [of 0 "[]" magic] get32_at [of 4 "putU32 magic" versionV8]
      get32_at [of 8 "putU32 magic @ putU32 versionV8" "of_nat (GRows g)"]
      get32_at [of 12 "putU32 magic @ putU32 versionV8 @ putU32 (of_nat (GRows g))" "of_nat (length (Columns g))"] u32
    by simp_all
  have f16: "16 \<le> length foot" by (simp add: foot group_footer_def)
  have fs: "gslice B (length B - 8 - length foot) (length B - 8) = Some foot"
    using slice_append_mid [of "16 + length data" "group_header g @ data" "16 + length data + length foot" foot
        "putU32 (of_nat (length foot)) @ putU32 (crc32c body)"] lb(2) lh by (simp add: Bb body_def add.assoc)
  obtain c1 where c1: "cur_u64 (mk_cursor foot) = (fst tm, c1)" "cursor_on c1 (putU64 (snd tm) @ concat (map meta_bytes ms))"
    using cu64.rd_on [of "mk_cursor foot" "fst tm"] cursor_on_mk [of foot] unfolding foot group_footer_def by blast
  obtain c2 where c2: "cur_u64 c1 = (snd tm, c2)" "cursor_on c2 (concat (map meta_bytes ms) @ [])"
    using cu64.rd_on [OF c1(2)] by auto
  have e: "16 + length data \<le> length B" "length B - 8 - length foot = 16 + length data" using lb(2) by simp_all
  have flen: "getn (putU32 (of_nat (length foot))) 0 = Some (length foot)"
    using get32_at [of 0 "[]" "of_nat (length foot)" "[]"] u32(3) by (simp add: getn_def)
  have cnt: "\<not> GRows g > maxGroupRows" "\<not> length ms > maxGroupColumns" "\<not> (length foot < 16 \<or> length foot + 8 + 16 > length B)"
    using rows nc lms f16 lb(2) by (simp_all add: MaxRows_def maxGroupRows_def)
  have "readGroup B (putU32 (of_nat (length foot))) True = map_option (\<lambda>res. case res of Inl err \<Rightarrow> Inl err
       | Inr (ms, backed) \<Rightarrow> if GRows g > 0 \<and> \<not> backed then Inl RowsNotBacked
           else Inr \<lparr>blob = B, Rows = GRows g, TimeMin = fst tm, TimeMax = snd tm, cols = ms\<rparr>)
       (read_columns B (GRows g) (16 + length data) 0 (length ms) c2 [] False)"
    unfolding readGroup_def Let_def hd(3,4)
    using cnt flen fs c1(1) c2(1) e(2)
    by (cases "read_columns B (GRows g) (16 + length data) 0 (length ms) c2 [] False") simp_all
  moreover have "take (length B - 4) B = body" "get32 B (length B - 4) = Some (crc32c body)"
    "drop (length body - 4) body = putU32 (of_nat (length foot))"
    using get32_at [of "length body" body "crc32c body" "[]"] lb by (simp_all add: Bb body_def lh)
  ultimately have "ReadGroup B = map_option (\<lambda>res. case res of Inl err \<Rightarrow> Inl err
       | Inr (ms, backed) \<Rightarrow> if GRows g > 0 \<and> \<not> backed then Inl RowsNotBacked
           else Inr \<lparr>blob = B, Rows = GRows g, TimeMin = fst tm, TimeMax = snd tm, cols = ms\<rparr>)
       (read_columns B (GRows g) (16 + length data) 0 (length ms) c2 [] False)"
    using hd(1,2) lb
    by (simp add: ReadGroup_def readGroupV8_def versionV7_def versionV8_def gslice_def slice_from_def)
  from that [OF e(1) w sm c2(2) tm this] show thesis .
qed

lemma ReadGroup_Marshal:
  assumes K: "gkernels_ok K" and wf: "group_wf g" and nar: "list_all narrow (Columns g)"
    and M: "Marshal K g = Some B" and B: "length B < 2 ^ 32"
  obtains r e where "ReadGroup B = Some (Inr r)" "blob r = B" "Rows r = GRows g" "e \<le> length B"
    "list_all2 (written K g B e) (Columns g) (cols r)"
    "(TimeMin r, TimeMax r) = (if GRows g = 0 then (0, 0) else foldl time_step (0x7FFFFFFFFFFFFFFF, 0x8000000000000000)
        (concat (map ColTs (filter (\<lambda>c. ColTypeOf c = ColTimestamp) (Columns g)))))"
proof (rule ReadGroup_columns [OF wf M B])
  fix e ms tm c
  assume e: "e \<le> length B" and w: "list_all2 (written K g B e) (Columns g) ms" and sm: "list_all meta_small ms"
    and c: "cursor_on c (concat (map meta_bytes ms) @ [])"
    and tm: "tm = (if GRows g = 0 then (0, 0) else foldl time_step (0x7FFFFFFFFFFFFFFF, 0x8000000000000000)
        (concat (map ColTs (filter (\<lambda>c. ColTypeOf c = ColTimestamp) (Columns g)))))"
    and r: "ReadGroup B = map_option (\<lambda>res. case res of Inl err \<Rightarrow> Inl err
       | Inr (ms, backed) \<Rightarrow> if GRows g > 0 \<and> \<not> backed then Inl RowsNotBacked
           else Inr \<lparr>blob = B, Rows = GRows g, TimeMin = fst tm, TimeMax = snd tm, cols = ms\<rparr>)
       (read_columns B (GRows g) e 0 (length ms) c [] False)"
  have g: "GRows g \<le> MaxRows" "list_all (column_wf (GRows g)) (Columns g)"
    "GRows g > 0 \<longrightarrow> list_ex (\<lambda>c. ColTypeOf c = ColDict \<or> ColTypeOf c = ColTimestamp) (Columns g)"
    using wf by (simp_all add: group_wf_def)
  let ?r = "\<lparr>blob = B, Rows = GRows g, TimeMin = fst tm, TimeMax = snd tm, cols = ms\<rparr>"
  have "ReadGroup B = Some (Inr ?r)"
    using read_columns_written [OF K g(1) e B w g(2) sm c, of 0 "[]" False] nar g(3) r by auto
  then show thesis by (rule that [of ?r e]) (use e w tm in simp_all)
qed

text \<open>The time range of the footer bounds every timestamp.\<close>

lemma time_fold:
  "foldl time_step (mn, mx) ts = (mn', mx') \<Longrightarrow>
   sint mn' \<le> sint mn \<and> sint mx \<le> sint mx' \<and> (\<forall>t \<in> set ts. sint mn' \<le> sint t \<and> sint t \<le> sint mx')"
proof (induction ts arbitrary: mn mx)
  case (Cons t ts)
  obtain a b where ab: "time_step (mn, mx) t = (a, b)" by (metis prod.exhaust)
  then have "sint a \<le> sint mn" "sint a \<le> sint t" "sint mx \<le> sint b" "sint t \<le> sint b"
    by (auto simp: time_step_def split: if_splits)
  moreover have "sint mn' \<le> sint a \<and> sint b \<le> sint mx' \<and> (\<forall>t \<in> set ts. sint mn' \<le> sint t \<and> sint t \<le> sint mx')"
    using Cons.IH [of a b] Cons.prems ab by simp
  ultimately show ?case by auto
qed simp

section \<open>Properties\<close>

text \<open>C9: A group survives storage: every well-formed group can be written, the blob it is written as is
  accepted, and the reader over it has the group's row count, its columns by name and type in their
  order, every column's encoded data, postings, dictionary section and filter at the offsets its meta
  record gives, and a time range that bounds every timestamp.\<close>

theorem group_roundtrip:
  assumes "gkernels_ok K" and "group_wf g" and "list_all narrow (Columns g)"
    and "Marshal K g = Some B" and "length B < 2 ^ 32"
  shows "\<exists>r e. ReadGroup B = Some (Inr r) \<and> blob r = B
     \<and> Rows r = GRows g \<and> map Name (cols r) = map ColName (Columns g) \<and> map Type (cols r) = map ColTypeOf (Columns g)
     \<and> list_all2 (written K g B e) (Columns g) (cols r) \<and> e \<le> length B
     \<and> (\<forall>c \<in> set (Columns g). ColTypeOf c = ColTimestamp \<longrightarrow>
          (\<forall>t \<in> set (ColTs c). sint (TimeMin r) \<le> sint t \<and> sint t \<le> sint (TimeMax r)))"
proof (rule ReadGroup_Marshal [OF assms])
  fix r e
  assume r: "ReadGroup B = Some (Inr r)" "blob r = B" "Rows r = GRows g" "e \<le> length B"
    and w: "list_all2 (written K g B e) (Columns g) (cols r)"
    and tm: "(TimeMin r, TimeMax r) = (if GRows g = 0 then (0, 0) else foldl time_step (0x7FFFFFFFFFFFFFFF, 0x8000000000000000)
      (concat (map ColTs (filter (\<lambda>c. ColTypeOf c = ColTimestamp) (Columns g)))))"
  have g: "list_all (column_wf (GRows g)) (Columns g)" using assms(2) by (simp add: group_wf_def)
  have names: "map Name (cols r) = map ColName (Columns g)" "map Type (cols r) = map ColTypeOf (Columns g)"
    using w by (induction rule: list_all2_induct) (simp_all add: written_def)
  have "sint (TimeMin r) \<le> sint t \<and> sint t \<le> sint (TimeMax r)"
    if c: "c \<in> set (Columns g)" "ColTypeOf c = ColTimestamp" and t: "t \<in> set (ColTs c)" for c t
  proof -
    have "length (ColTs c) = GRows g" using g c by (auto simp: list_all_iff column_wf_def col_types)
    then have "GRows g \<noteq> 0" using t by (cases "ColTs c") auto
    then show ?thesis using time_fold [of _ _ _ "TimeMin r" "TimeMax r"] tm c t by fastforce
  qed
  with r w names show ?thesis by blast
qed

text \<open>A group of two rows with a timestamp column and a dictionary column.\<close>

definition demo_group :: Group where
  "demo_group = \<lparr>GRows = 2, Columns = [
     \<lparr>ColName = [95, 116, 105, 109, 101], ColTypeOf = ColTimestamp, ColDictOf = None, ColTs = [5, 9], ColVec = [], ColDim = 0\<rparr>,
     \<lparr>ColName = [108], ColTypeOf = ColDict, ColDictOf = Some \<lparr>Dict = [[97], [98]], Indices = [1, 0]\<rparr>,
      ColTs = [], ColVec = [], ColDim = 0\<rparr>], Compact = False, NoPostings = False\<rparr>"

definition demo_kernels :: group_kernels where
  "demo_kernels = \<lparr>gk_pack = scalar_pack, gk_dict = ref_kernels, gk_hash = (\<lambda>seed k. k XOR seed)\<rparr>"

lemma demo_kernels_ok: "gkernels_ok demo_kernels"
  by (simp add: gkernels_ok_def demo_kernels_def scalar_pack_spec ref_kernels_ok)

lemma demo_wf: "group_wf demo_group"
  by (auto simp: demo_group_def group_wf_def column_wf_def dict_wf_def col_types MaxRows_def maxGroupColumns_def
      maxNameBytes_def num_dict_blocks_def dictBlock_def dict_block_def marshalRawBlock_def)

text \<open>The writer refuses nothing well-formed.\<close>

lemma Marshal_total:
  assumes "group_wf g"
  obtains B where "Marshal K g = Some B"
proof -
  have g: "GRows g \<le> MaxRows" "list_all (column_wf (GRows g)) (Columns g)" using assms by (simp_all add: group_wf_def)
  have "list_all (column_full (GRows g)) (Columns g)" using g(2) by (auto simp: list_all_iff intro: column_wf_full)
  moreover obtain st where "marshal_columns K g \<lparr>ms_b = group_header g, ms_metas = [],
      ms_time = (0x7FFFFFFFFFFFFFFF, 0x8000000000000000)\<rparr> (Columns g) = Some st"
    using marshal_columns_written [OF g] by blast
  ultimately show thesis using that by (simp add: Marshal_def Let_def)
qed

lemma length_encodeTimestamps:
  assumes "ts \<noteq> []" "10 * length ts < 2 ^ 32"
  shows "length (encodeTimestamps ts) \<le> 8 + ts_blocks ts * tsHdrStride + 10 * length ts"
proof -
  obtain mn mx where "ts_layout (encodeTimestamps ts) ts mn mx" using ts_encode_layout [OF assms] .
  then have "drop (8 + ts_blocks ts * tsHdrStride) (encodeTimestamps ts) = ts_bytes ts"
    by (auto simp: ts_layout_def slice_from_def split: if_splits)
  then have "length (encodeTimestamps ts) - (8 + ts_blocks ts * tsHdrStride) = length (ts_bytes ts)" by (metis length_drop)
  then show ?thesis using length_ts_bytes(2) [of ts] by linarith
qed

lemma demo_small:
  assumes "Marshal demo_kernels demo_group = Some B"
  shows "length B < 2 ^ 32"
proof -
  let ?d = "\<lparr>Dict = [[97], [98]], Indices = [1, 0]\<rparr> :: DictColumn"
  have d: "dict_wf 2 ?d" using demo_wf by (simp add: group_wf_def demo_group_def column_wf_def col_types)
  obtain bl where bl: "buildDictBloom (\<lambda>seed k. k XOR seed) [[97], [98]] = Some bl" "length bl \<le> 2 ^ 20"
    using dict_wf_bloom [OF d] by (auto simp: maxBloomWords_def)
  obtain p where p: "buildPostings [1, 0] (Suc (Suc 0)) = Some p" "built [1, 0] (Suc (Suc 0)) p"
    using dict_wf_postings [OF d] by (auto simp: MaxRows_def)
  have lp: "length (marshal scalar_pack p []) \<le> 400" using marshal_bound [OF scalar_pack_spec p(2)] by simp
  obtain mn mx where ib: "index_bounds [1, 0] = (mn, mx)" by (metis prod.exhaust)
  have w: "bitWidth (Suc (Suc 0)) = 1" by (simp add: bitWidth_def bits_len.simps)
  have le: "length (encodeIndices scalar_pack [1, 0] 1) \<le> 40"
    using length_encodeIndices [OF scalar_pack_spec, of 1 "[1, 0]"] by simp
  have lt: "length (encodeTimestamps [5, 9]) \<le> 56"
    using length_encodeTimestamps [of "[5, 9]"] by (simp add: ts_blocks_def tsBlock_def tsHdrStride_def)
  have ls: "length (marshalDictSection ref_kernels [[97], [98]] False) \<le> 200"
    by (simp add: section_shape [OF refl] num_dict_blocks_def dictBlock_def fv_upto_def comp_upto_def
      enc_of_def encode_block_def dict_block_def allLowerHex_def isLowerHexByte_def ref_kernels_def marshalRawBlock_def
      hexPackBlock_def)
  let ?st = "\<lparr>ms_b = group_header demo_group, ms_metas = [], ms_time = (0x7FFFFFFFFFFFFFFF, 0x8000000000000000)\<rparr> :: marshal_state"
  obtain st1 where st1: "marshal_column demo_kernels demo_group ?st (Columns demo_group ! 0) = Some st1"
    "length (ms_b st1) \<le> 72" "length (ms_metas st1) = 1" "\<forall>m \<in> set (ms_metas st1). length (Name m) \<le> 5 \<and> length (BloomW m) \<le> 2 ^ 20"
    using lt by (simp add: marshal_column_def demo_group_def col_types Let_def group_header_def emptyMeta_def)
  obtain st2 where st2: "marshal_column demo_kernels demo_group st1 (Columns demo_group ! 1) = Some st2"
    "length (ms_b st2) \<le> 72 + 640" "length (ms_metas st2) = 2" "\<forall>m \<in> set (ms_metas st2). length (Name m) \<le> 5 \<and> length (BloomW m) \<le> 2 ^ 20"
    using bl p(1) lp le ls st1(2-4)
    by (auto simp: marshal_column_def demo_group_def demo_kernels_def col_types Let_def emptyMeta_def
      marshal_append [of _ p "_ @ _"] w ib)
  have meta: "length (meta_bytes m) = 49 + length (Name m) + 8 * length (BloomW m)" for m
    using cu64.length_puts [of "BloomW m"] by (simp add: meta_bytes_def appStr_def del: length_concat)
  have "\<forall>m \<in> set (ms_metas st2). length (meta_bytes m) \<le> 2 ^ 24" using st2(4) by (auto simp: meta)
  then have "length (concat (map meta_bytes (ms_metas st2))) \<le> 2 * 2 ^ 24"
    using st2(3) by (cases "ms_metas st2"; cases "tl (ms_metas st2)") auto
  moreover have "marshal_columns demo_kernels demo_group ?st (Columns demo_group) = Some st2"
    using st1(1) st2(1) by (simp add: demo_group_def)
  ultimately show ?thesis
    using assms st2(2) by (auto simp: Marshal_def Let_def group_footer_def split: if_splits)
qed

theorem group_roundtrip_witness:
  "\<exists>B r. Marshal demo_kernels demo_group = Some B \<and> ReadGroup B = Some (Inr r)
     \<and> Rows r = 2 \<and> map Name (cols r) = [[95, 116, 105, 109, 101], [108]]"
proof -
  have nar: "list_all narrow (Columns demo_group)" by (simp add: demo_group_def narrow_def col_types)
  obtain B where B: "Marshal demo_kernels demo_group = Some B" using Marshal_total [OF demo_wf] .
  have "\<exists>r e. ReadGroup B = Some (Inr r) \<and> Rows r = GRows demo_group \<and> map Name (cols r) = map ColName (Columns demo_group)"
    using group_roundtrip [OF demo_kernels_ok demo_wf nar B demo_small [OF B]] by blast
  with B show ?thesis by (auto simp: demo_group_def)
qed

text \<open>C32: An embedding wider than 32 numbers is written and then lost: \<^verbatim>\<open>Marshal\<close> stores the dimension of a
  vector column in the width field, and \<^verbatim>\<open>ReadGroup\<close> refuses a width above 32 whatever the column's type, so
  every otherwise well-formed group with such a column is written without complaint and refused as
  corrupt when it is read back, although ingestion accepts dimensions up to 16384.\<close>

theorem wide_vector_group_unreadable:
  assumes "gkernels_ok K" and "group_wf g" and "\<exists>c \<in> set (Columns g). ColTypeOf c = ColVector \<and> 32 < ColDim c"
    and "Marshal K g = Some B" and "length B < 2 ^ 32"
  shows "\<exists>j w. 32 < w \<and> ReadGroup B = Some (Inl (BadWidth j w))"
proof (rule ReadGroup_columns [OF assms(2,4,5)])
  fix e ms tm c
  assume e: "e \<le> length B" and w: "list_all2 (written K g B e) (Columns g) ms" and sm: "list_all meta_small ms"
    and c: "cursor_on c (concat (map meta_bytes ms) @ [])"
    and r: "ReadGroup B = map_option (\<lambda>res. case res of Inl err \<Rightarrow> Inl err
       | Inr (ms, backed) \<Rightarrow> if GRows g > 0 \<and> \<not> backed then Inl RowsNotBacked
           else Inr \<lparr>blob = B, Rows = GRows g, TimeMin = fst tm, TimeMax = snd tm, cols = ms\<rparr>)
       (read_columns B (GRows g) e 0 (length ms) c [] False)"
  have g: "GRows g \<le> MaxRows" "list_all (column_wf (GRows g)) (Columns g)" using assms(2) by (simp_all add: group_wf_def)
  have "\<not> list_all narrow (Columns g)" using assms(3) by (auto simp: list_all_iff narrow_def)
  then show ?thesis
    using read_columns_written [OF assms(1) g(1) e assms(5) w g(2) sm c, of 0 "[]" False] r by auto
qed

definition wide_group :: Group where
  "wide_group = \<lparr>GRows = 0, Columns = [\<lparr>ColName = [118], ColTypeOf = ColVector, ColDictOf = None, ColTs = [], ColVec = [],
     ColDim = 33\<rparr>], Compact = False, NoPostings = False\<rparr>"

theorem wide_vector_group_unreadable_witness:
  "\<exists>B j w. Marshal demo_kernels wide_group = Some B \<and> ReadGroup B = Some (Inl (BadWidth j w))"
proof -
  have wf: "group_wf wide_group"
    by (simp add: wide_group_def group_wf_def column_wf_def col_types MaxRows_def maxGroupColumns_def maxNameBytes_def)
  obtain B where B: "Marshal demo_kernels wide_group = Some B" "length B < 2 ^ 32"
    by (simp add: wide_group_def Marshal_def column_full_def marshal_column_def col_types Let_def group_header_def
        group_footer_def meta_bytes_def emptyMeta_def encodeVectors_def appStr_def)
  moreover have "\<exists>c \<in> set (Columns wide_group). ColTypeOf c = ColVector \<and> 32 < ColDim c" by (simp add: wide_group_def)
  ultimately show ?thesis using wide_vector_group_unreadable [OF demo_kernels_ok wf _ B] by blast
qed

end
