(* ===== verification/Reader.thy ===== *)
theory Reader
  imports Roundtrip
begin

text \<open>
  The parsed group of \<^verbatim>\<open>internal/storage/footer.go\<close> and \<^verbatim>\<open>vector.go\<close>: the skip methods that
  answer from the footer, the point and range reads of a column, the equality lookups through filter,
  dictionary and postings, the value counts, and the two memo tables (decoded indices under a byte
  budget, and the empty-value counts).

  A missing column or one of another type is what the code returns for it: \<open>Some None\<close> where the code
  has an \<^verbatim>\<open>ok\<close> flag, an empty result elsewhere; \<open>None\<close> is a panic.  \<^verbatim>\<open>Cosine\<close> and
  \<^verbatim>\<open>Norm\<close> compute with floating-point numbers and are not modelled.
\<close>

section \<open>Columns\<close>

record read_kernels =
  rk_unpack :: bit_unpacker
  rk_dict :: dict_kernels
  rk_hash :: hash_kernel
  rk_varint :: "nat \<Rightarrow> bytes \<Rightarrow> u64 list"

definition col :: "Reader \<Rightarrow> bytes \<Rightarrow> colMeta option" where
  "col r name = find (\<lambda>m. Name m = name) (cols r)"

definition colIndex :: "Reader \<Rightarrow> bytes \<Rightarrow> nat option" where
  "colIndex r name = find (\<lambda>i. Name (cols r ! i) = name) [0..<length (cols r)]"

definition col_of :: "Reader \<Rightarrow> byte \<Rightarrow> bytes \<Rightarrow> colMeta option" where
  "col_of r ty name = (case col r name of None \<Rightarrow> None | Some m \<Rightarrow> if Type m = ty then Some m else None)"

definition TimeRangeMatches :: "Reader \<Rightarrow> u64 \<Rightarrow> u64 \<Rightarrow> bool" where
  "TimeRangeMatches r from to \<longleftrightarrow> sint (TimeMin r) < sint to \<and> sint (TimeMax r) \<ge> sint from"

definition ColumnExists :: "Reader \<Rightarrow> bytes \<Rightarrow> bool" where
  "ColumnExists r name \<longleftrightarrow> col r name \<noteq> None"

definition ColumnNames :: "Reader \<Rightarrow> bytes list" where
  "ColumnNames r = map Name (cols r)"

definition dictSec_of :: "Reader \<Rightarrow> colMeta \<Rightarrow> bytes option" where
  "dictSec_of r m = gslice (blob r) (DictOff m) (DictOff m + DictLen2 m)"

definition data_of :: "Reader \<Rightarrow> colMeta \<Rightarrow> bytes option" where
  "data_of r m = gslice (blob r) (DataOff m) (DataOff m + DataLen m)"

definition post_of :: "Reader \<Rightarrow> colMeta \<Rightarrow> bytes option" where
  "post_of r m = gslice (blob r) (PostOff m) (PostOff m + PostLen m)"

definition idxBytes :: "Reader \<Rightarrow> colMeta \<Rightarrow> nat" where
  "idxBytes r m = (if Rows r = 0 then 0 else ((Rows r * Width m + 31) div 32 + 1) * 4)"

section \<open>Timestamps\<close>

definition Timestamps :: "read_kernels \<Rightarrow> Reader \<Rightarrow> bytes \<Rightarrow> u64 list option" where
  "Timestamps K r name = (case col_of r ColTimestamp name of
     None \<Rightarrow> Some []
   | Some m \<Rightarrow> do { data \<leftarrow> data_of r m; decodeInto (rk_varint K) data (Rows r) })"

definition TimestampAt :: "Reader \<Rightarrow> bytes \<Rightarrow> int \<Rightarrow> u64 option option" where
  "TimestampAt r name row = (case col_of r ColTimestamp name of
     None \<Rightarrow> Some None
   | Some m \<Rightarrow> if row < 0 \<or> row \<ge> int (Rows r) then Some None
       else do { data \<leftarrow> data_of r m; t \<leftarrow> decodeTsAt data (nat row); Some (Some t) })"

definition TimeRangeMaskInto :: "Reader \<Rightarrow> bytes \<Rightarrow> u64 \<Rightarrow> u64 \<Rightarrow> bool list option" where
  "TimeRangeMaskInto r name from to = (case col_of r ColTimestamp name of
     None \<Rightarrow> Some []
   | Some m \<Rightarrow> do { data \<leftarrow> data_of r m; decodeTimeRangeInto data (Rows r) from to })"

definition TimeWindowSpan :: "Reader \<Rightarrow> bytes \<Rightarrow> u64 \<Rightarrow> u64 \<Rightarrow> (nat \<times> nat) option" where
  "TimeWindowSpan r name from to = (case col_of r ColTimestamp name of
     None \<Rightarrow> Some (0, 0)
   | Some m \<Rightarrow> do { data \<leftarrow> data_of r m; timeWindowSpan data (Rows r) from to })"

definition TimestampsRangeInto :: "u64 list \<Rightarrow> Reader \<Rightarrow> bytes \<Rightarrow> nat \<Rightarrow> nat \<Rightarrow> u64 list option" where
  "TimestampsRangeInto dst r name lo hi = (case col_of r ColTimestamp name of
     None \<Rightarrow> Some []
   | Some m \<Rightarrow> do { data \<leftarrow> data_of r m; decodeTsRangeInto dst data lo hi })"

definition TimestampsRange :: "Reader \<Rightarrow> bytes \<Rightarrow> nat \<Rightarrow> nat \<Rightarrow> u64 list option" where
  "TimestampsRange r name lo hi = TimestampsRangeInto [] r name lo hi"

section \<open>Dictionary columns\<close>

definition DictContains :: "read_kernels \<Rightarrow> Reader \<Rightarrow> bytes \<Rightarrow> bytes \<Rightarrow> bool option" where
  "DictContains K r name value = (case col_of r ColDict name of
     None \<Rightarrow> Some False
   | Some m \<Rightarrow> do {
       mb \<leftarrow> bloomMaybe (rk_hash K) (BloomW m) value;
       if \<not> mb then Some False else do {
         sec \<leftarrow> dictSec_of r m;
         i \<leftarrow> dictSectionSearch (rk_dict K) sec (DictLen m) value;
         Some (i \<noteq> None)
       }
     })"

definition DictLenOf :: "Reader \<Rightarrow> bytes \<Rightarrow> nat" where
  "DictLenOf r name = (case col_of r ColDict name of None \<Rightarrow> 0 | Some m \<Rightarrow> DictLen m)"

definition DictID :: "read_kernels \<Rightarrow> Reader \<Rightarrow> bytes \<Rightarrow> bytes \<Rightarrow> nat option option" where
  "DictID K r name value = (case col_of r ColDict name of
     None \<Rightarrow> Some None
   | Some m \<Rightarrow> do { sec \<leftarrow> dictSec_of r m; dictSectionSearch (rk_dict K) sec (DictLen m) value })"

definition DictDecodeSome :: "read_kernels \<Rightarrow> Reader \<Rightarrow> bytes \<Rightarrow> bool list \<Rightarrow> bytes list option" where
  "DictDecodeSome K r name want = (case col_of r ColDict name of
     None \<Rightarrow> Some []
   | Some m \<Rightarrow> do { sec \<leftarrow> dictSec_of r m; dictSectionSome (rk_dict K) sec (DictLen m) want })"

text \<open>The id of one row is read from its index bits alone.\<close>

definition DictValueAt :: "read_kernels \<Rightarrow> Reader \<Rightarrow> bytes \<Rightarrow> int \<Rightarrow> bytes option option" where
  "DictValueAt K r name row = (case col_of r ColDict name of
     None \<Rightarrow> Some None
   | Some m \<Rightarrow> if row < 0 \<or> row \<ge> int (Rows r) then Some None else do {
       data \<leftarrow> data_of r m;
       let bit = nat row * Width m;
       let v = window64 data (bit div 8);
       let vid = unat (ucast (drop_bit (bit mod 8) v) AND (push_bit (Width m) 1 - 1) :: u32);
       if vid \<ge> DictLen m then Some None else do {
         sec \<leftarrow> dictSec_of r m;
         x \<leftarrow> dictSectionAt (rk_dict K) sec (DictLen m) vid;
         Some (Some x)
       }
     })"

text \<open>
  \<^verbatim>\<open>EqualityCount\<close>: \<open>None\<close> inside is \<^verbatim>\<open>ok = false\<close>; the id \<open>None\<close> is -1.
\<close>

definition EqualityCount :: "read_kernels \<Rightarrow> Reader \<Rightarrow> bytes \<Rightarrow> bytes \<Rightarrow> (nat option \<times> nat) option option" where
  "EqualityCount K r name value = (case col_of r ColDict name of
     None \<Rightarrow> Some None
   | Some m \<Rightarrow> if PostLen m = 0 then Some None else do {
       mb \<leftarrow> bloomMaybe (rk_hash K) (BloomW m) value;
       if \<not> mb then Some (Some (None, 0)) else do {
         sec \<leftarrow> dictSec_of r m;
         i \<leftarrow> dictSectionSearch (rk_dict K) sec (DictLen m) value;
         (case i of
            None \<Rightarrow> Some (Some (None, 0))
          | Some x \<Rightarrow> do { b \<leftarrow> post_of r m; n \<leftarrow> postCount b x; Some (Some (Some x, n)) })
       }
     })"

definition EqualityRows :: "read_kernels \<Rightarrow> Reader \<Rightarrow> bytes \<Rightarrow> bytes \<Rightarrow> u32 list option option" where
  "EqualityRows K r name value = (case col_of r ColDict name of
     None \<Rightarrow> Some None
   | Some m \<Rightarrow> if PostLen m = 0 then Some None else do {
       mb \<leftarrow> bloomMaybe (rk_hash K) (BloomW m) value;
       if \<not> mb then Some (Some []) else do {
         sec \<leftarrow> dictSec_of r m;
         i \<leftarrow> dictSectionSearch (rk_dict K) sec (DictLen m) value;
         (case i of
            None \<Rightarrow> Some (Some [])
          | Some x \<Rightarrow> do { b \<leftarrow> post_of r m; rows \<leftarrow> postingRows (rk_unpack K) (lz4_k (rk_dict K)) b x (Rows r); Some (Some rows) })
       }
     })"

definition Vectors :: "Reader \<Rightarrow> bytes \<Rightarrow> (nat \<times> u32 list) option" where
  "Vectors r name = (case col_of r ColVector name of
     None \<Rightarrow> Some (0, [])
   | Some m \<Rightarrow> if DataLen m < 4 then Some (0, []) else do {
       b \<leftarrow> data_of r m;
       dim \<leftarrow> getn b 0;
       rest \<leftarrow> slice_from b 4;
       Some (dim, take ((length b - 4) div 4) (words_of rest))
     })"

section \<open>Footprint and value counts\<close>

record ColumnFootprint =
  cf_Name :: bytes
  cf_Index :: int
  cf_Postings :: nat
  cf_Dict :: nat
  cf_Bloom :: nat
  cf_TimeCol :: nat

definition footprint :: "colMeta \<Rightarrow> ColumnFootprint" where
  "footprint m = (if Type m = ColTimestamp
     then \<lparr>cf_Name = Name m, cf_Index = 0, cf_Postings = 0, cf_Dict = 0, cf_Bloom = length (BloomW m) * 8, cf_TimeCol = DataLen m\<rparr>
     else \<lparr>cf_Name = Name m, cf_Index = int (PostOff m) - int (DataOff m), cf_Postings = PostLen m, cf_Dict = DictLen2 m,
           cf_Bloom = length (BloomW m) * 8, cf_TimeCol = 0\<rparr>)"

definition ColumnBytes :: "Reader \<Rightarrow> ColumnFootprint list" where
  "ColumnBytes r = map footprint (cols r)"

text \<open>
  The count of value \<open>id\<close> in the legacy layout, two neighbouring prefix sums: the loops read them in
  this order and panic when either lies outside the blob.
\<close>

definition legacy_count :: "bytes \<Rightarrow> nat \<Rightarrow> nat option" where
  "legacy_count b i = do {
     start \<leftarrow> get32 b (4 + i * 4);
     fin \<leftarrow> get32 b (4 + (i + 1) * 4);
     Some (unat (fin - start))
   }"

text \<open>The fused loop: \<open>n\<close> ids left, the walk gives the value, \<open>cnt\<close> the count of the id.\<close>

fun vc_walk :: "dict_kernels \<Rightarrow> (nat \<Rightarrow> nat option) \<Rightarrow> nat \<Rightarrow> nat \<Rightarrow> dictWalk \<Rightarrow> (bytes \<times> nat) list option" where
  "vc_walk D cnt i 0 w = Some []"
| "vc_walk D cnt i (Suc n) w = do {
     (v, w') \<leftarrow> walk_next D w;
     (case v of
        None \<Rightarrow> Some []
      | Some x \<Rightarrow> do { c \<leftarrow> cnt i; vs \<leftarrow> vc_walk D cnt (Suc i) n w'; Some ((x, c) # vs) })
   }"

fun vc_list :: "(nat \<Rightarrow> nat option) \<Rightarrow> nat \<Rightarrow> bytes list \<Rightarrow> (bytes \<times> nat) list option" where
  "vc_list cnt i [] = Some []"
| "vc_list cnt i (x # xs) = do { c \<leftarrow> cnt i; vs \<leftarrow> vc_list cnt (Suc i) xs; Some ((x, c) # vs) }"

definition valueCountsFused :: "read_kernels \<Rightarrow> Reader \<Rightarrow> colMeta \<Rightarrow> bytes \<Rightarrow> (bytes \<times> nat) list option" where
  "valueCountsFused K r m b = do {
     sec \<leftarrow> dictSec_of r m;
     w \<leftarrow> newDictWalk sec (DictLen m);
     hd \<leftarrow> postV8Header b;
     (case hd of
        Some (dictLen, cw, cs, _, _) \<Rightarrow>
          vc_walk (rk_dict K) (\<lambda>i. Some (extractCountBits cs i cw)) 0 (min (DictLen m) dictLen) w
      | None \<Rightarrow> do {
          no \<leftarrow> le32 b;
          vc_walk (rk_dict K) (legacy_count b) 0 (min (unat no - 1) (DictLen m)) w
        })
   }"

definition valueCountsMaterialized :: "read_kernels \<Rightarrow> Reader \<Rightarrow> colMeta \<Rightarrow> bytes \<Rightarrow> (bytes \<times> nat) list option" where
  "valueCountsMaterialized K r m b = do {
     sec \<leftarrow> dictSec_of r m;
     vals \<leftarrow> dictSectionAll (rk_dict K) sec (DictLen m);
     hd \<leftarrow> postV8Header b;
     (case hd of
        Some (dictLen, cw, cs, _, _) \<Rightarrow>
          vc_list (\<lambda>i. Some (extractCountBits cs i cw)) 0 (take (min (DictLen m) dictLen) vals)
      | None \<Rightarrow> do {
          no \<leftarrow> le32 b;
          vc_list (legacy_count b) 0 (take (min (unat no - 1) (DictLen m)) vals)
        })
   }"

definition ValueCountsInto :: "read_kernels \<Rightarrow> bool \<Rightarrow> Reader \<Rightarrow> bytes \<Rightarrow> (bytes \<times> nat) list option" where
  "ValueCountsInto K vcFused r name = (case col_of r ColDict name of
     None \<Rightarrow> Some []
   | Some m \<Rightarrow> if PostLen m = 0 then Some [] else do {
       b \<leftarrow> post_of r m;
       if \<not> vcFused then valueCountsMaterialized K r m b else valueCountsFused K r m b
     })"

section \<open>The memo tables\<close>

text \<open>
  Decoded indices are kept one slot per column under a byte budget shared by all readers; \<open>ic_used\<close> and
  \<open>ic_budget\<close> are the package variables.  \<open>ec\<close> is the empty-count table, -1 where not yet asked.
\<close>

record idx_cache =
  ic_slots :: "u32 list option list"
  ic_used :: int
  ic_budget :: int

definition cachedIdx :: "idx_cache \<Rightarrow> nat \<Rightarrow> u32 list option" where
  "cachedIdx s ci = (if ci \<ge> length (ic_slots s) then None else ic_slots s ! ci)"

definition cacheIdx :: "idx_cache \<Rightarrow> nat \<Rightarrow> u32 list \<Rightarrow> idx_cache" where
  "cacheIdx s ci idx = (if ci \<ge> length (ic_slots s) then s else
     let sz = int (length idx) * 4 in
     if sz = 0 \<or> ic_used s + sz > ic_budget s then s
     else if ic_slots s ! ci = None then s\<lparr>ic_slots := (ic_slots s)[ci := Some idx], ic_used := ic_used s + sz\<rparr>
     else s)"

definition decode_column :: "read_kernels \<Rightarrow> Reader \<Rightarrow> colMeta \<Rightarrow> u32 list option" where
  "decode_column K r m = do {
     data \<leftarrow> gslice (blob r) (DataOff m) (DataOff m + idxBytes r m);
     Some (decodeIndices (rk_unpack K) data (Rows r) (Width m))
   }"

definition dictIndicesAt :: "read_kernels \<Rightarrow> Reader \<Rightarrow> idx_cache \<Rightarrow> nat \<Rightarrow> (u32 list \<times> idx_cache) option" where
  "dictIndicesAt K r s ci = (case cachedIdx s ci of
     Some v \<Rightarrow> Some (v, s)
   | None \<Rightarrow> do { m \<leftarrow> index (cols r) ci; idx \<leftarrow> decode_column K r m; Some (idx, cacheIdx s ci idx) })"

definition DictIndicesRaw :: "read_kernels \<Rightarrow> Reader \<Rightarrow> idx_cache \<Rightarrow> bytes \<Rightarrow> (u32 list \<times> idx_cache) option" where
  "DictIndicesRaw K r s name = (case colIndex r name of
     None \<Rightarrow> Some ([], s)
   | Some ci \<Rightarrow> if Type (cols r ! ci) \<noteq> ColDict then Some ([], s) else dictIndicesAt K r s ci)"

definition DictIndices :: "read_kernels \<Rightarrow> Reader \<Rightarrow> idx_cache \<Rightarrow> bytes \<Rightarrow> (u32 list \<times> bytes list \<times> idx_cache) option" where
  "DictIndices K r s name = (case colIndex r name of
     None \<Rightarrow> Some ([], [], s)
   | Some ci \<Rightarrow> if Type (cols r ! ci) \<noteq> ColDict then Some ([], [], s) else do {
       (idx, s') \<leftarrow> dictIndicesAt K r s ci;
       sec \<leftarrow> dictSec_of r (cols r ! ci);
       vals \<leftarrow> dictSectionAll (rk_dict K) sec (DictLen (cols r ! ci));
       Some (idx, vals, s')
     })"

definition EmptyValueCount :: "read_kernels \<Rightarrow> Reader \<Rightarrow> int list \<Rightarrow> bytes \<Rightarrow> (int \<times> int list) option" where
  "EmptyValueCount K r ec name = (case colIndex r name of
     None \<Rightarrow> do { q \<leftarrow> EqualityCount K r name []; Some (case q of None \<Rightarrow> 0 | Some (_, n) \<Rightarrow> int n, ec) }
   | Some ci \<Rightarrow>
       if ci \<ge> length ec then do { q \<leftarrow> EqualityCount K r name []; Some (case q of None \<Rightarrow> 0 | Some (_, n) \<Rightarrow> int n, ec) }
       else if ec ! ci \<ge> 0 then Some (ec ! ci, ec)
       else do {
         q \<leftarrow> EqualityCount K r name [];
         let n = (case q of None \<Rightarrow> 0 | Some (_, n) \<Rightarrow> n);
         Some (int n, ec[ci := sint (of_nat n :: 32 word)])
       })"

section \<open>The streamed dictionary is the materialised one\<close>

text \<open>What a walk has still to yield: the rest of its block, then the blocks after it.\<close>

definition walk_rest :: "dict_kernels \<Rightarrow> dictWalk \<Rightarrow> bytes list option" where
  "walk_rest D w = do {
     xs \<leftarrow> read_vals (w_a w) [w_i w..<nat (a_cnt (w_a w))];
     ys \<leftarrow> all_blocks D (w_d w) (w_n w) [w_k w..<numBlocks (w_d w)] (a_raw (w_a w)) [];
     Some (xs @ ys)
   }"

lemma all_blocks_acc: "all_blocks D d n ks buf out = map_option (\<lambda>xs. out @ xs) (all_blocks D d n ks buf [])"
proof (induction ks arbitrary: buf out)
  case (Cons k ks)
  show ?case
  proof (cases "blockInto D d k buf")
    case (Some raw)
    show ?thesis
    proof (cases "read_vals (newBlockArena raw (blockCount k n)) [0..<nat (blockCount k n)]")
      case None
      with Some show ?thesis by (simp add: appendBlockVals_def)
    next
      case vs: (Some vs)
      have "all_blocks D d n ks raw (out @ vs) = map_option (\<lambda>xs. (out @ vs) @ xs) (all_blocks D d n ks raw [])"
        "all_blocks D d n ks raw vs = map_option (\<lambda>xs. vs @ xs) (all_blocks D d n ks raw [])"
        by (rule Cons.IH)+
      with Some vs show ?thesis by (simp add: appendBlockVals_def option.map_comp o_def)
    qed
  qed simp
qed simp

lemma a_raw_new [simp]: "a_raw (newBlockArena raw c) = raw"
  by (simp add: newBlockArena_def)

lemma walk_rest_total: "w_a w = newBlockArena raw cnt \<Longrightarrow> returns (walk_rest D w)"
  unfolding walk_rest_def by (auto intro!: returns_bind read_vals_total all_blocks_total)

lemma walk_next_rest:
  "w_a w = newBlockArena raw cnt \<Longrightarrow> walk_rest D w = Some vs \<Longrightarrow>
   \<exists>w' raw' cnt'. w_a w' = newBlockArena raw' cnt' \<and>
     (case vs of [] \<Rightarrow> walk_next D w = Some (None, w')
      | x # xs \<Rightarrow> walk_next D w = Some (Some x, w') \<and> walk_rest D w' = Some xs)"
proof (induction D w arbitrary: raw cnt rule: walk_next.induct)
  case (1 D w)
  let ?a = "w_a w" and ?k = "w_k w" and ?d = "w_d w"
  consider (inside) "int (w_i w) < a_cnt ?a" | (stop) "int (w_i w) \<ge> a_cnt ?a" "?k \<ge> numBlocks ?d"
    | (load) "int (w_i w) \<ge> a_cnt ?a" "?k < numBlocks ?d" by linarith
  then show ?case
  proof cases
    case inside
    then have up: "[w_i w..<nat (a_cnt ?a)] = w_i w # [Suc (w_i w)..<nat (a_cnt ?a)]" by (simp add: upt_conv_Cons zless_nat_eq_int_zless)
    obtain x where x: "arena_at ?a (w_i w) = Some x" using arena_at_total 1(2) by (metis returns_def)
    obtain xs where xs: "vs = x # xs" "walk_rest D (w\<lparr>w_i := w_i w + 1\<rparr>) = Some xs"
      using 1(3) x unfolding walk_rest_def up by (auto split: bind_splits)
    have "walk_next D w = Some (Some x, w\<lparr>w_i := w_i w + 1\<rparr>)"
      using inside x by (simp add: walk_next.simps [of D w])
    with xs 1(2) show ?thesis by fastforce
  next
    case stop
    then have "walk_next D w = Some (None, w)" by (simp add: walk_next.simps [of D w])
    moreover have "vs = []" using 1(3) stop by (simp add: walk_rest_def)
    ultimately show ?thesis using 1(2) by auto
  next
    case load
    obtain r where r: "blockInto D ?d ?k (a_raw ?a) = Some r"
      using blockInto_total [of D ?d ?k "a_raw ?a"] by (auto simp: returns_def)
    let ?w = "w\<lparr>w_a := newBlockArena r (blockCount ?k (w_n w)), w_i := 0, w_k := ?k + 1\<rparr>"
    obtain xs where xs: "read_vals (newBlockArena r (blockCount ?k (w_n w))) [0..<nat (blockCount ?k (w_n w))] = Some xs"
      using read_vals_total by (metis returns_def)
    obtain ys where ys: "all_blocks D ?d (w_n w) [Suc ?k..<numBlocks ?d] r [] = Some ys"
      using all_blocks_total by (metis returns_def)
    have "walk_rest D ?w = Some (xs @ ys)" using xs ys by (simp add: walk_rest_def)
    moreover have "walk_rest D w = Some (xs @ ys)"
      using load r xs ys all_blocks_acc [of D ?d "w_n w" "[Suc ?k..<numBlocks ?d]" r xs]
      by (simp add: walk_rest_def upt_conv_Cons appendBlockVals_def)
    ultimately have "walk_rest D ?w = walk_rest D w" by simp
    then have "\<exists>w' raw' cnt'. w_a w' = newBlockArena raw' cnt' \<and>
       (case vs of [] \<Rightarrow> walk_next D ?w = Some (None, w')
        | x # xs \<Rightarrow> walk_next D ?w = Some (Some x, w') \<and> walk_rest D w' = Some xs)"
      using 1(1) [of r, OF _ _ r] load 1(3) by simp
    moreover have "walk_next D w = walk_next D ?w" using load r by (simp add: walk_next.simps [of D w])
    ultimately show ?thesis by (simp only:)
  qed
qed

lemma vc_walk_list:
  "w_a w = newBlockArena raw cn \<Longrightarrow> walk_rest D w = Some vs \<Longrightarrow> vc_walk D cnt i n w = vc_list cnt i (take n vs)"
proof (induction n arbitrary: i w raw cn vs)
  case (Suc n)
  obtain w' raw' cnt' where w': "w_a w' = newBlockArena raw' cnt'"
    "case vs of [] \<Rightarrow> walk_next D w = Some (None, w')
      | x # xs \<Rightarrow> walk_next D w = Some (Some x, w') \<and> walk_rest D w' = Some xs"
    using walk_next_rest [OF Suc.prems] by blast
  show ?case
  proof (cases vs)
    case Nil
    then show ?thesis using w' by simp
  next
    case (Cons x xs)
    then show ?thesis using w' Suc.IH [OF w'(1), of xs "Suc i"] by simp
  qed
qed simp

lemma walk_rest_start:
  assumes "newDictWalk sec n = Some w"
  shows "w_a w = newBlockArena [] 0" "walk_rest D w = dictSectionAll D sec n"
proof -
  obtain d where d: "parseDictSec sec = Some d" using parse_total [of sec] by (auto simp: returns_def)
  then have w: "w = \<lparr>w_d = d, w_n = n, w_k = 0, w_i = 0, w_a = \<lparr>a_raw = [], a_vals = [], a_cnt = 0, a_split = False\<rparr>\<rparr>"
    using assms by (simp add: newDictWalk_def)
  show "w_a w = newBlockArena [] 0" by (simp add: w newBlockArena_def)
  show "walk_rest D w = dictSectionAll D sec n" by (simp add: w walk_rest_def dictSectionAll_def d)
qed

lemma fused_eq: "valueCountsFused K r m b = valueCountsMaterialized K r m b"
proof (cases "dictSec_of r m")
  case (Some sec)
  obtain w where w: "newDictWalk sec (DictLen m) = Some w"
    using parse_total [of sec] by (auto simp: newDictWalk_def returns_def)
  obtain vs where vs: "dictSectionAll (rk_dict K) sec (DictLen m) = Some vs"
    using all_total [of "rk_dict K" sec "DictLen m"] by (auto simp: returns_def)
  note st = walk_rest_start [OF w]
  have "vc_walk (rk_dict K) cnt 0 n w = vc_list cnt 0 (take n vs)" for cnt n
    by (rule vc_walk_list [OF st(1)]) (simp add: st(2) vs)
  then show ?thesis
    using Some w vs by (simp add: valueCountsFused_def valueCountsMaterialized_def cong: option.case_cong)
qed (simp add: valueCountsFused_def valueCountsMaterialized_def)

section \<open>An accepted group never panics its reader\<close>

lemma col_of_ok:
  assumes "reader_ok r" "col_of r ty name = Some m"
  shows "meta_ok (blob r) (Rows r) m" "Type m = ty" "Name m = name" "m \<in> set (cols r)"
proof -
  have c: "col r name = Some m" "Type m = ty" using assms(2) by (auto simp: col_of_def split: option.splits if_splits)
  then show "m \<in> set (cols r)" "Name m = name" by (auto simp: col_def find_Some_iff)
  then show "meta_ok (blob r) (Rows r) m" using assms(1) by (auto simp: reader_ok_def list_all_iff)
  show "Type m = ty" by (rule c(2))
qed

lemma meta_slices:
  assumes "meta_ok (blob r) rows m"
  shows "data_of r m = Some (span (blob r) (DataOff m) (DataLen m))"
    "post_of r m = Some (span (blob r) (PostOff m) (PostLen m))"
    "dictSec_of r m = Some (span (blob r) (DictOff m) (DictLen2 m))"
  using assms by (simp_all add: meta_ok_def data_of_def post_of_def dictSec_of_def gslice_span)

lemma ts_ok_geom: "ts_ok rows d \<Longrightarrow> ts_geom d"
  by (cases "length d < 8") (auto simp: ts_ok_def ts_geom_def)

lemma ts_ok_reads:
  assumes ok: "ts_ok rows d" and row: "row < rows"
  obtains nb bs where "getn d 0 = Some nb" "getn d 4 = Some bs" "0 < bs" "row div bs < nb" "8 + nb * tsHdrStride \<le> length d"
    "8 \<le> length d"
proof -
  have l: "8 \<le> length d" using ok row by (auto simp: ts_ok_def not_less)
  then obtain nb bs where nb: "getn d 0 = Some nb" "getn d 4 = Some bs" "8 + nb * tsHdrStride \<le> length d"
    "nb > 0 \<longrightarrow> bs > 0" "nb > 0" "nb = (rows + bs - 1) div bs" using ok row by (auto simp: ts_ok_def)
  then have bs: "0 < bs" by simp
  have "(row div bs + 1) * bs = row div bs * bs + bs" by simp
  then have "(row div bs + 1) * bs \<le> rows + bs - 1" using row bs div_times_less_eq_dividend [of row bs] by linarith
  then have "row div bs + 1 \<le> nb" unfolding nb(6) using bs by (simp add: less_eq_div_iff_mult_less_eq)
  then show thesis using that nb bs l by simp
qed

lemma decodeTsAt_total: "ts_ok rows d \<Longrightarrow> row < rows \<Longrightarrow> returns (decodeTsAt d row)"
proof -
  assume a: "ts_ok rows d" "row < rows"
  obtain nb bs where nb: "getn d 0 = Some nb" "getn d 4 = Some bs" "0 < bs" "row div bs < nb" "8 + nb * tsHdrStride \<le> length d"
    using ts_ok_reads [OF a] .
  from hdr_reads [OF nb(4,5) refl] obtain off prev where "getn d (8 + row div bs * tsHdrStride) = Some off"
    "geti64_at d (8 + row div bs * tsHdrStride + 4) = Some prev" by blast
  with nb show ?thesis by (simp add: decodeTsAt_def slice_from_def Let_def)
qed

lemma decodeTsRangeInto_total: "ts_ok rows d \<Longrightarrow> lo < rows \<or> hi \<le> lo \<Longrightarrow> returns (decodeTsRangeInto dst d lo hi)"
proof (cases "hi \<le> lo")
  case True
  then show ?thesis by (simp add: decodeTsRangeInto_def)
next
  case False
  assume a: "ts_ok rows d" "lo < rows \<or> hi \<le> lo"
  then have lo: "lo < rows" using False by simp
  obtain nb bs where nb: "getn d 0 = Some nb" "getn d 4 = Some bs" "0 < bs" "lo div bs < nb" "8 + nb * tsHdrStride \<le> length d"
    using ts_ok_reads [OF a(1) lo] .
  from hdr_reads [OF nb(4,5) refl] obtain off prev where "getn d (8 + lo div bs * tsHdrStride) = Some off"
    "geti64_at d (8 + lo div bs * tsHdrStride + 4) = Some prev" by blast
  with nb show ?thesis by (simp add: decodeTsRangeInto_def slice_from_def Let_def)
qed

lemma bloomMaybe_total: "length bloom \<le> maxBloomWords \<Longrightarrow> returns (bloomMaybe hash bloom v)"
proof (cases "bloom = []")
  case False
  assume "length bloom \<le> maxBloomWords"
  then have "bloom_ok bloom" using False by (simp add: bloom_ok_def maxBloomWords_def)
  then show ?thesis using test_loop_total [OF _ refl] False by (simp add: bloomMaybe_def bloom_test_def returns_def)
qed (simp add: bloomMaybe_def)

lemma returns_optcase:
  "(x = None \<Longrightarrow> returns a) \<Longrightarrow> (\<And>v. x = Some v \<Longrightarrow> returns (f v)) \<Longrightarrow> returns (case x of None \<Rightarrow> a | Some v \<Rightarrow> f v)"
  by (cases x) simp_all

lemma returns_eqI: "e = Some v \<Longrightarrow> returns e"
  by simp

lemma ts_reads_total:
  assumes ok: "reader_ok r"
  shows "returns (TimestampAt r name row)" "returns (TimeRangeMaskInto r name from to)"
    "returns (TimeWindowSpan r name from to)" "returns (Timestamps K r name)"
    "lo < Rows r \<or> hi \<le> lo \<Longrightarrow> returns (TimestampsRangeInto dst r name lo hi)"
proof -
  have m: "data_of r m = Some (span (blob r) (DataOff m) (DataLen m)) \<and> ts_ok (Rows r) (span (blob r) (DataOff m) (DataLen m))"
    if "col_of r ColTimestamp name = Some m" for m
    using col_of_ok [OF ok that] meta_slices [of r "Rows r" m] by (simp add: meta_ok_def)
  note tot = returns_optcase returns_if returns_bind
  show "returns (TimestampAt r name row)" unfolding TimestampAt_def
    by (intro tot decodeTsAt_total [of "Rows r"]) (auto dest: m simp: nat_less_iff)
  show "returns (TimeRangeMaskInto r name from to)" unfolding TimeRangeMaskInto_def
    by (intro tot) (auto simp: returns_def dest!: m ts_no_panic(1) [OF ts_ok_geom, of _ _ "Rows r" "from" to])
  show "returns (TimeWindowSpan r name from to)" unfolding TimeWindowSpan_def
    by (intro tot) (auto simp: returns_def dest!: m ts_no_panic(2) [OF ts_ok_geom, of _ _ "Rows r" "from" to])
  show "returns (Timestamps K r name)" unfolding Timestamps_def decodeInto_def
    by (intro tot) (auto simp: returns_def dest!: m ts_no_panic(3) [OF ts_ok_geom])
  show "lo < Rows r \<or> hi \<le> lo \<Longrightarrow> returns (TimestampsRangeInto dst r name lo hi)" unfolding TimestampsRangeInto_def
    by (intro tot decodeTsRangeInto_total [of "Rows r"]) (auto dest: m)
qed

lemma dict_reads_total:
  assumes ok: "reader_ok r" and up: "unpack_spec (rk_unpack K)"
  shows "returns (DictContains K r name v)" "returns (DictID K r name v)" "returns (DictValueAt K r name row)"
    "returns (EqualityCount K r name v)" "returns (EqualityRows K r name v)"
proof -
  have sl: "returns (dictSec_of r m)" "returns (data_of r m)" "returns (post_of r m)"
    and bl: "returns (bloomMaybe (rk_hash K) (BloomW m) v)" if "col_of r ColDict name = Some m" for m
    using col_of_ok [OF ok that] meta_slices [of r "Rows r" m] bloomMaybe_total [of "BloomW m"] by (simp_all add: meta_ok_def)
  have pc: "returns (postCount b i)" "returns (postingRows (rk_unpack K) lz b i n)" for lz b i n
    using postCount_ok [of b i] safe_postingRows [OF up, of n lz b i] by (auto simp: returns_def safe_rows_def)
  note tot = returns_optcase returns_if returns_let returns_bind sl bl search_total at_total pc
  show "returns (DictContains K r name v)" unfolding DictContains_def by (intro tot; simp)
  show "returns (DictID K r name v)" unfolding DictID_def by (intro tot; simp)
  show "returns (DictValueAt K r name row)" unfolding DictValueAt_def by (intro tot; simp)
  show "returns (EqualityCount K r name v)" unfolding EqualityCount_def by (intro tot; simp)
  show "returns (EqualityRows K r name v)" unfolding EqualityRows_def by (intro tot; simp)
qed

section \<open>Reading a written group\<close>

text \<open>The reading side runs on the kernels the writing side ran on.\<close>

definition same_kernels :: "group_kernels \<Rightarrow> read_kernels \<Rightarrow> bool" where
  "same_kernels K R \<longleftrightarrow> gkernels_ok K \<and> unpack_spec (rk_unpack R) \<and> rk_dict R = gk_dict K \<and> rk_hash R = gk_hash K"

definition values_of :: "DictColumn \<Rightarrow> bytes list" where
  "values_of d = map (\<lambda>i. Dict d ! unat i) (Indices d)"

lemma col_written:
  assumes w: "list_all2 (written K g B e) cs (cols r)" and d: "distinct (map ColName cs)" and c: "c \<in> set cs"
  obtains m where "col_of r (ColTypeOf c) (ColName c) = Some m" "written K g B e c m"
proof -
  obtain i where i: "i < length cs" "cs ! i = c" using c by (metis in_set_conv_nth)
  have len: "length (cols r) = length cs" using w by (simp add: list_all2_lengthD)
  have wi: "written K g B e (cs ! j) (cols r ! j)" if "j < length cs" for j using w that by (simp add: list_all2_conv_all_nth)
  have nm: "Name (cols r ! j) = ColName (cs ! j)" if "j < length cs" for j using wi [OF that] by (simp add: written_def)
  have "col r (ColName c) = Some (cols r ! i)"
    unfolding col_def find_Some_iff
  proof (intro exI [of _ i] conjI allI impI)
    fix j assume "j < i"
    then have "j < length cs" "j \<noteq> i" using i(1) by simp_all
    then show "Name (cols r ! j) \<noteq> ColName c" using nm d i by (simp add: distinct_conv_nth) metis
  qed (use i len nm in simp_all)
  moreover have "Type (cols r ! i) = ColTypeOf c" using wi [OF i(1)] i(2) by (simp add: written_def)
  ultimately show thesis using that [of "cols r ! i"] wi [OF i(1)] i(2) by (simp add: col_of_def)
qed

lemma packed_as_longer:
  assumes "packed_as b w xs" and "length xs * w \<le> 8 * length b"
  shows "packed_as (b @ z) w xs"
proof -
  have "i * w + j < 8 * length b" if "i < length xs" "j < w" for i j
  proof -
    have "i * w + j < (i + 1) * w" using that(2) by simp
    also have "\<dots> \<le> length xs * w" using that(1) by (intro mult_le_mono1) simp
    finally show ?thesis using assms(2) by linarith
  qed
  then show ?thesis using assms(1) by (simp add: packed_as_def byte_bit_append)
qed

lemma filter_find_id:
  assumes d: "distinct dict" and idx: "\<forall>x \<in> set idx. unat x < length dict"
  shows "find (\<lambda>i. dict ! i = v) [0..<length dict] = Some x \<Longrightarrow>
      filter (\<lambda>r. unat (idx ! r) = x) [0..<length idx] = filter (\<lambda>r. dict ! unat (idx ! r) = v) [0..<length idx]"
    and "find (\<lambda>i. dict ! i = v) [0..<length dict] = None \<Longrightarrow> filter (\<lambda>r. dict ! unat (idx ! r) = v) [0..<length idx] = []"
proof -
  have in_d: "unat (idx ! r) < length dict" if "r < length idx" for r using idx that by simp
  show "find (\<lambda>i. dict ! i = v) [0..<length dict] = Some x \<Longrightarrow>
      filter (\<lambda>r. unat (idx ! r) = x) [0..<length idx] = filter (\<lambda>r. dict ! unat (idx ! r) = v) [0..<length idx]"
  proof -
    assume "find (\<lambda>i. dict ! i = v) [0..<length dict] = Some x"
    then have x: "x < length dict" "dict ! x = v" by (auto simp: find_Some_iff)
    show ?thesis by (rule filter_cong [OF refl]) (use x in_d nth_eq_iff_index_eq [OF d] in auto)
  qed
  show "find (\<lambda>i. dict ! i = v) [0..<length dict] = None \<Longrightarrow> filter (\<lambda>r. dict ! unat (idx ! r) = v) [0..<length idx] = []"
    using in_d by (auto simp: find_None_iff filter_empty_conv)
qed

lemma find_index_mem: "(find (\<lambda>i. xs ! i = v) [0..<length xs] = None) \<longleftrightarrow> v \<notin> set xs"
  by (auto simp: find_None_iff in_set_conv_nth)

lemma dict_written:
  assumes S: "same_kernels K R" and wf: "dict_wf (Rows r) d" and rows: "Rows r \<le> MaxRows" and w: "written_dict K g (blob r) e d m"
    and e: "e \<le> length (blob r)" and B: "length (blob r) < 2 ^ 32"
  obtains enc z sec f where
    "dictSec_of r m = Some sec" "\<forall>v. dictSectionSearch (rk_dict R) sec (DictLen m) v = Some (find (\<lambda>i. Dict d ! i = v) [0..<length (Dict d)])"
    "\<forall>i < length (Dict d). dictSectionAt (rk_dict R) sec (DictLen m) i = Some (Dict d ! i)"
    "dictSectionAll (rk_dict R) sec (DictLen m) = Some (Dict d)"
    "data_of r m = Some (enc @ z)" "packed_as (enc @ z) (Width m) (Indices d)" "decode_column R r m = Some (Indices d)"
    "\<forall>v. \<exists>x. bloomMaybe (rk_hash R) (BloomW m) v = Some x \<and> (v \<in> set (Dict d) \<longrightarrow> x)"
proof -
  let ?w = "bitWidth (length (Dict d))"
  let ?enc = "encodeIndices (gk_pack K) (Indices d) ?w" and ?sec = "marshalDictSection (gk_dict K) (Dict d) (Compact g)"
  have k: "pack_spec (gk_pack K)" "kernels_ok (gk_dict K)" "unpack_spec (rk_unpack R)" "rk_dict R = gk_dict K" "rk_hash R = gk_hash K"
    using S by (simp_all add: same_kernels_def gkernels_ok_def)
  have h: "holds (blob r) e (DictOff m) ?sec" "DictLen2 m = length ?sec" "DictLen m = length (Dict d)" "Width m = ?w"
    "holds (blob r) e (DataOff m) ?enc" "length ?enc \<le> DataLen m" "DataOff m + DataLen m \<le> e"
    "buildDictBloom (gk_hash K) (Dict d) = Some (BloomW m)"
    using w by (auto simp: written_dict_def)
  have sec: "dictSec_of r m = Some ?sec" "length ?sec < 2 ^ 32"
    using h(1,2) e B gslice_span [of "DictOff m" "length ?sec" "blob r"] by (auto simp: dictSec_of_def holds_def)
  obtain sd where sd: "parseDictSec ?sec = Some sd" "sec_ok (gk_dict K) (Dict d) sd"
    using parse_ok [OF k(2) dict_wf_fits [OF wf sec(2)]] by blast
  have srt: "sorted_wrt (<) (Dict d)" "length (Indices d) = Rows r" "length (Dict d) \<le> MaxRows" using wf by (simp_all add: dict_wf_def)
  note iw = index_width [OF wf]
  have enc: "take (length ?enc) (drop (DataOff m) (blob r)) = ?enc" using h(5) by (simp add: holds_def span_def)
  define z where "z = drop (length ?enc) (span (blob r) (DataOff m) (DataLen m))"
  have data: "data_of r m = Some (?enc @ z)"
  proof -
    have "take (length ?enc) (span (blob r) (DataOff m) (DataLen m)) = ?enc" using enc h(6) by (simp add: span_def min_def)
    then have "span (blob r) (DataOff m) (DataLen m) = ?enc @ z" unfolding z_def by (metis append_take_drop_id)
    then show ?thesis using gslice_span [of "DataOff m" "DataLen m" "blob r"] h(7) e by (simp add: data_of_def)
  qed
  have pk: "packed_as ?enc ?w (Indices d)" by (rule encodeIndices_packed [OF k(1) iw(2,3,1)])
  have pkz: "packed_as (?enc @ z) ?w (Indices d)"
  proof (cases "Indices d = []")
    case True
    then show ?thesis using iw by (simp add: packed_as_def)
  next
    case False
    have "length (Indices d) * ?w \<le> 8 * length ?enc"
      using length_encodeIndices [OF k(1) iw(2,3,1) False] le_groups [of "length (Indices d) * ?w"] by simp
    then show ?thesis by (rule packed_as_longer [OF pk])
  qed
  have dec: "decode_column R r m = Some (Indices d)"
  proof (cases "Indices d = []")
    case True
    then have "Rows r = 0" using srt(2) by simp
    then show ?thesis using True h(7) e by (simp add: decode_column_def idxBytes_def gslice_def decodeIndices_def)
  next
    case False
    then have "Rows r \<noteq> 0" using srt(2) by (metis length_0_conv)
    then have ib: "idxBytes r m = length ?enc"
      using length_encodeIndices [OF k(1) iw(2,3,1) False] srt(2) h(4) by (simp add: idxBytes_def)
    have "gslice (blob r) (DataOff m) (DataOff m + idxBytes r m) = Some ?enc"
      unfolding ib using gslice_span [of "DataOff m" "length ?enc" "blob r"] enc h(6,7) e by (simp add: span_def)
    then show ?thesis using decodeIndices_encode [OF k(1,3) iw(2,3,1)] srt(2) h(4) by (simp add: decode_column_def)
  qed
  have sized: "bloom_sized (Dict d)" using srt(3) by (simp add: bloom_sized_def MaxRows_def)
  have bl: "\<forall>v. \<exists>x. bloomMaybe (rk_hash R) (BloomW m) v = Some x \<and> (v \<in> set (Dict d) \<longrightarrow> x)"
    using bloom.maybe_total [OF sized h(8)] bloom.maybe_member [OF sized h(8)] k(5) by fastforce
  show thesis
    by (rule that [OF sec(1) _ _ _ data _ dec bl])
      (use dictSectionSearch_ok [OF sd(2,1) srt(1)] dictSectionAt_ok [OF sd(2,1)] dictSectionAll_ok [OF sd(2,1)] h(3,4) k(4) pkz in simp_all)
qed

lemma post_written:
  assumes S: "same_kernels K R" and wf: "dict_wf (Rows r) d" and rows: "Rows r \<le> MaxRows" and w: "written_dict K g (blob r) e d m"
    and e: "e \<le> length (blob r)" and B: "length (blob r) < 2 ^ 32" and np: "\<not> NoPostings g"
  obtains b where "PostLen m \<noteq> 0" "post_of r m = Some b"
    "\<forall>x < length (Dict d). postCount b x = Some (length (filter (\<lambda>i. unat (Indices d ! i) = x) [0..<Rows r]))"
    "\<forall>x < length (Dict d). postingRows (rk_unpack R) (lz4_k (rk_dict R)) b x (Rows r)
        = Some (map of_nat (filter (\<lambda>i. unat (Indices d ! i) = x) [0..<Rows r]))"
    "\<exists>cw cs fs. postV8Header b = Some (Some (length (Dict d), cw, cs, fs, True))
       \<and> (\<forall>x < length (Dict d). extractCountBits cs x cw = length (filter (\<lambda>i. unat (Indices d ! i) = x) [0..<Rows r]))"
proof -
  have k: "pack_spec (gk_pack K)" "unpack_spec (rk_unpack R)" using S by (simp_all add: same_kernels_def gkernels_ok_def)
  obtain p where p: "buildPostings (Indices d) (length (Dict d)) = Some p" "PostLen m = length (marshal (gk_pack K) p [])"
    "holds (blob r) e (PostOff m) (marshal (gk_pack K) p [])" using w np by (auto simp: written_dict_def)
  have b: "built (Indices d) (length (Dict d)) p" using dict_wf_postings [OF wf rows] p(1) by (metis option.inject)
  let ?b = "marshal (gk_pack K) p []"
  have pos: "PostLen m \<noteq> 0" using p(2) by (auto simp: marshal_def Let_def putU32_def split: prod.splits)
  have sl: "post_of r m = Some ?b"
    using gslice_span [of "PostOff m" "PostLen m" "blob r"] p(2,3) e by (simp add: post_of_def holds_def)
  have len: "length (Indices d) = Rows r" "length (Dict d) \<le> MaxRows" using wf by (simp_all add: dict_wf_def)
  have D: "length (Dict d) < 2 ^ 32" "length (Dict d) \<le> maxPostingRun" using len(2) by (simp_all add: MaxRows_def maxPostingRun_def)
  note pb = postings_built [OF k b D(1) _ marshal_small [OF k(1) b D(2)]]
  note hd = header_marshal [OF b refl marshal_small [OF k(1) b D(2)] D(1)]
  have "extractCountBits (encodeIndices (gk_pack K) (marshal_counts p) (bitWidth (unat (max_u32 (marshal_counts p)) + 1))) x
      (bitWidth (unat (max_u32 (marshal_counts p)) + 1)) = length (filter (\<lambda>i. unat (Indices d ! i) = x) [0..<Rows r])"
    if "x < length (Dict d)" for x
    using pb(1) [OF that] that len(1) unfolding postCount_def hd by (simp add: cnt_of_def rows_of_def)
  then show thesis
    by (intro that [OF pos sl]) (use pb len(1) hd in \<open>auto simp: cnt_of_def rows_of_def\<close>)
qed

lemma vc_list_total: "vc_list (\<lambda>i. Some (f i)) k xs = Some (zip xs (map f [k..<k + length xs]))"
  by (induction xs arbitrary: k) (simp_all add: upt_conv_Cons del: upt_Suc)

lemma dict_reads_exact:
  assumes S: "same_kernels K R" and wf: "dict_wf (Rows r) d" and rows: "Rows r \<le> MaxRows" and w: "written_dict K g (blob r) e d m"
    and e: "e \<le> length (blob r)" and B: "length (blob r) < 2 ^ 32" and c: "col_of r ColDict name = Some m"
  shows "DictContains R r name v = Some (v \<in> set (Dict d))"
    and "DictID R r name v = Some (find (\<lambda>i. Dict d ! i = v) [0..<length (Dict d)])"
    and "row < Rows r \<Longrightarrow> DictValueAt R r name (int row) = Some (Some (values_of d ! row))"
    and "\<not> NoPostings g \<Longrightarrow> EqualityRows R r name v = Some (Some (map of_nat (filter (\<lambda>i. values_of d ! i = v) [0..<Rows r])))"
    and "\<not> NoPostings g \<Longrightarrow> EqualityCount R r name v = Some (Some (find (\<lambda>i. Dict d ! i = v) [0..<length (Dict d)],
           length (filter (\<lambda>i. values_of d ! i = v) [0..<Rows r])))"
proof -
  obtain enc z sec where sec: "dictSec_of r m = Some sec"
      "\<forall>v. dictSectionSearch (rk_dict R) sec (DictLen m) v = Some (find (\<lambda>i. Dict d ! i = v) [0..<length (Dict d)])"
      "\<forall>i < length (Dict d). dictSectionAt (rk_dict R) sec (DictLen m) i = Some (Dict d ! i)"
    and data: "data_of r m = Some (enc @ z)" "packed_as (enc @ z) (Width m) (Indices d)"
    and bl: "\<forall>v. \<exists>x. bloomMaybe (rk_hash R) (BloomW m) v = Some x \<and> (v \<in> set (Dict d) \<longrightarrow> x)"
    using dict_written [OF S wf rows w e B] by metis
  have dl: "DictLen m = length (Dict d)" using w by (auto simp: written_dict_def)
  have len: "length (Indices d) = Rows r" "\<forall>x \<in> set (Indices d). unat x < length (Dict d)" "distinct (Dict d)"
    using wf by (auto simp: dict_wf_def strict_sorted_iff)
  obtain mb where mb: "bloomMaybe (rk_hash R) (BloomW m) v = Some mb" "v \<in> set (Dict d) \<Longrightarrow> mb" using bl by blast
  let ?f = "find (\<lambda>i. Dict d ! i = v) [0..<length (Dict d)]"
  show "DictContains R r name v = Some (v \<in> set (Dict d))"
    using c mb sec(1,2) find_index_mem [of "Dict d" v] by (cases mb) (auto simp: DictContains_def)
  show "DictID R r name v = Some ?f" using c sec by (simp add: DictID_def)
  have vals: "values_of d ! i = Dict d ! unat (Indices d ! i)" if "i < Rows r" for i using that len(1) by (simp add: values_of_def)
  have fv: "filter (\<lambda>i. values_of d ! i = v) [0..<Rows r] = filter (\<lambda>i. Dict d ! unat (Indices d ! i) = v) [0..<Rows r]"
    by (rule filter_cong [OF refl]) (simp add: vals)
  note ff = filter_find_id [OF len(3,2), of v, unfolded len(1), folded fv]
  have x: "?f = Some x \<Longrightarrow> x < length (Dict d)" for x by (auto simp: find_Some_iff)
  show "DictValueAt R r name (int row) = Some (Some (values_of d ! row))" if row: "row < Rows r"
  proof -
    have "read_bits (enc @ z) row (Width m) = Indices d ! row" using read_bits_packed [OF data(2)] row len(1) by simp
    moreover have "unat (Indices d ! row) < length (Dict d)" using len row by simp
    ultimately show ?thesis
      using c data(1) sec row dl vals [OF row] by (simp add: DictValueAt_def read_bits_def Let_def)
  qed
  show "EqualityRows R r name v = Some (Some (map of_nat (filter (\<lambda>i. values_of d ! i = v) [0..<Rows r])))"
    if np: "\<not> NoPostings g"
  proof (rule post_written [OF S wf rows w e B np])
    fix b
    assume "PostLen m \<noteq> 0" "post_of r m = Some b" "\<forall>x < length (Dict d). postingRows (rk_unpack R) (lz4_k (rk_dict R)) b x (Rows r)
        = Some (map of_nat (filter (\<lambda>i. unat (Indices d ! i) = x) [0..<Rows r]))"
    then show ?thesis
      using c mb sec(1,2) find_index_mem [of "Dict d" v] ff x by (cases mb; cases ?f) (simp_all add: EqualityRows_def)
  qed
  show "EqualityCount R r name v = Some (Some (?f, length (filter (\<lambda>i. values_of d ! i = v) [0..<Rows r])))"
    if np: "\<not> NoPostings g"
  proof (rule post_written [OF S wf rows w e B np])
    fix b
    assume "PostLen m \<noteq> 0" "post_of r m = Some b"
      "\<forall>x < length (Dict d). postCount b x = Some (length (filter (\<lambda>i. unat (Indices d ! i) = x) [0..<Rows r]))"
    then show ?thesis
      using c mb sec(1,2) find_index_mem [of "Dict d" v] ff x by (cases mb; cases ?f) (simp_all add: EqualityCount_def)
  qed
qed

text \<open>The value counts of the footer: every dictionary value with the number of rows that hold it.\<close>

lemma value_counts_exact:
  assumes S: "same_kernels K R" and wf: "dict_wf (Rows r) d" and rows: "Rows r \<le> MaxRows" and w: "written_dict K g (blob r) e d m"
    and e: "e \<le> length (blob r)" and B: "length (blob r) < 2 ^ 32" and c: "col_of r ColDict name = Some m" and np: "\<not> NoPostings g"
  shows "ValueCountsInto R fused r name
    = Some (map (\<lambda>v. (v, length (filter (\<lambda>i. values_of d ! i = v) [0..<Rows r]))) (Dict d))"
proof -
  obtain sec where sec: "dictSec_of r m = Some sec" "dictSectionAll (rk_dict R) sec (DictLen m) = Some (Dict d)"
    using dict_written [OF S wf rows w e B] by metis
  obtain b cw cs fs where b: "PostLen m \<noteq> 0" "post_of r m = Some b" "postV8Header b = Some (Some (length (Dict d), cw, cs, fs, True))"
    "\<forall>x < length (Dict d). extractCountBits cs x cw = length (filter (\<lambda>i. unat (Indices d ! i) = x) [0..<Rows r])"
    using post_written [OF S wf rows w e B np] by metis
  have dl: "DictLen m = length (Dict d)" using w by (auto simp: written_dict_def)
  have len: "length (Indices d) = Rows r" "\<forall>x \<in> set (Indices d). unat x < length (Dict d)" "distinct (Dict d)"
    using wf by (auto simp: dict_wf_def strict_sorted_iff)
  have cnt: "extractCountBits cs x cw = length (filter (\<lambda>i. values_of d ! i = Dict d ! x) [0..<Rows r])" if x: "x < length (Dict d)" for x
  proof -
    have "filter (\<lambda>i. unat (Indices d ! i) = x) [0..<Rows r] = filter (\<lambda>i. values_of d ! i = Dict d ! x) [0..<Rows r]"
      by (rule filter_cong [OF refl]) (use x len nth_eq_iff_index_eq [OF len(3)] in \<open>auto simp: values_of_def\<close>)
    then show ?thesis using b(4) x by simp
  qed
  have "valueCountsMaterialized R r m b = Some (zip (Dict d) (map (\<lambda>i. extractCountBits cs i cw) [0..<length (Dict d)]))"
    using sec b(3) dl by (simp add: valueCountsMaterialized_def vc_list_total)
  moreover have "zip (Dict d) (map (\<lambda>i. extractCountBits cs i cw) [0..<length (Dict d)])
      = map (\<lambda>v. (v, length (filter (\<lambda>i. values_of d ! i = v) [0..<Rows r]))) (Dict d)"
    by (rule nth_equalityI) (simp_all add: cnt)
  ultimately show ?thesis using c b(1,2) by (simp add: ValueCountsInto_def fused_eq)
qed

lemma ts_reads_exact:
  assumes wf: "length ts = Rows r" "Rows r \<le> MaxRows" and ne: "ts \<noteq> []"
    and len: "DataLen m = length (encodeTimestamps ts)" and h: "holds (blob r) e (DataOff m) (encodeTimestamps ts)"
    and e: "e \<le> length (blob r)" and c: "col_of r ColTimestamp name = Some m"
  shows "row < Rows r \<Longrightarrow> TimestampAt r name (int row) = Some (Some (ts ! row))"
    and "TimeRangeMaskInto r name from to = Some (map (in_window from to) ts)"
    and "lo < hi \<Longrightarrow> hi \<le> Rows r \<Longrightarrow> TimestampsRangeInto dst r name lo hi = Some (take (hi - lo) (drop lo ts))"
    and "\<exists>lo hi. TimeWindowSpan r name from to = Some (lo, hi) \<and> lo \<le> hi \<and> hi \<le> Rows r
          \<and> (\<forall>j < Rows r. in_window from to (ts ! j) \<longrightarrow> lo \<le> j \<and> j < hi)"
proof -
  have d: "data_of r m = Some (encodeTimestamps ts)"
    using gslice_span [of "DataOff m" "DataLen m" "blob r"] len h e by (simp add: data_of_def holds_def)
  obtain mn mx where lay: "ts_layout (encodeTimestamps ts) ts mn mx"
    using ts_encode_layout [OF ne] wf by (auto simp: MaxRows_def)
  show "row < Rows r \<Longrightarrow> TimestampAt r name (int row) = Some (Some (ts ! row))"
    using c d decodeTsAt_layout [OF lay, of row] wf(1) by (simp add: TimestampAt_def)
  show "TimeRangeMaskInto r name from to = Some (map (in_window from to) ts)"
    using c d decodeTimeRangeInto_layout [OF lay] wf(1) by (simp add: TimeRangeMaskInto_def)
  show "lo < hi \<Longrightarrow> hi \<le> Rows r \<Longrightarrow> TimestampsRangeInto dst r name lo hi = Some (take (hi - lo) (drop lo ts))"
    using c d decodeTsRangeInto_layout [OF lay, of lo hi dst] wf(1) by (simp add: TimestampsRangeInto_def)
  obtain lo hi where sp: "timeWindowSpan (encodeTimestamps ts) (length ts) from to = Some (lo, hi)"
    "lo \<le> hi" "hi \<le> length ts" "\<forall>j < length ts. in_window from to (ts ! j) \<longrightarrow> lo \<le> j \<and> j < hi"
    using timeWindowSpan_layout [OF lay, of "from" to] .
  then show "\<exists>lo hi. TimeWindowSpan r name from to = Some (lo, hi) \<and> lo \<le> hi \<and> hi \<le> Rows r
          \<and> (\<forall>j < Rows r. in_window from to (ts ! j) \<longrightarrow> lo \<le> j \<and> j < hi)"
    using c d wf(1) by (simp add: TimeWindowSpan_def)
qed

section \<open>The decoded-index cache under concurrency\<close>

text \<open>
  Several queries decode and cache at once.  A goroutine that passed the budget check stands in
  \<open>checked\<close> with what it decoded; the compare-and-swap lets one of them win; the winner's accounting
  is a step of its own, \<open>owed\<close> until it is taken.
\<close>

record cache_sys =
  cs_slots :: "u32 list option list"
  cs_used :: int
  cs_budget :: int
  cs_checked :: "(nat \<times> u32 list) list"
  cs_owed :: "int list"

definition slot_size :: "u32 list option \<Rightarrow> int" where
  "slot_size s = (case s of None \<Rightarrow> 0 | Some idx \<Rightarrow> int (length idx) * 4)"

definition fresh_cache :: "Reader \<Rightarrow> int \<Rightarrow> cache_sys" where
  "fresh_cache r budget = \<lparr>cs_slots = replicate (length (cols r)) None, cs_used = 0, cs_budget = budget, cs_checked = [], cs_owed = []\<rparr>"

inductive cache_run :: "read_kernels \<Rightarrow> Reader \<Rightarrow> cache_sys \<Rightarrow> bool" for K r where
  start: "cache_run K r (fresh_cache r budget)"
| check: "\<lbrakk>cache_run K r s; ci < length (cs_slots s); decode_column K r (cols r ! ci) = Some idx; idx \<noteq> [];
     cs_used s + int (length idx) * 4 \<le> cs_budget s\<rbrakk>
   \<Longrightarrow> cache_run K r (s\<lparr>cs_checked := (ci, idx) # cs_checked s\<rparr>)"
| cas_win: "\<lbrakk>cache_run K r s; cs_checked s = xs @ (ci, idx) # ys; cs_slots s ! ci = None\<rbrakk>
   \<Longrightarrow> cache_run K r (s\<lparr>cs_slots := (cs_slots s)[ci := Some idx], cs_checked := xs @ ys,
        cs_owed := int (length idx) * 4 # cs_owed s\<rparr>)"
| cas_lose: "\<lbrakk>cache_run K r s; cs_checked s = xs @ (ci, idx) # ys; cs_slots s ! ci \<noteq> None\<rbrakk>
   \<Longrightarrow> cache_run K r (s\<lparr>cs_checked := xs @ ys\<rparr>)"
| account: "\<lbrakk>cache_run K r s; cs_owed s = xs @ sz # ys\<rbrakk>
   \<Longrightarrow> cache_run K r (s\<lparr>cs_used := cs_used s + sz, cs_owed := xs @ ys\<rparr>)"
| rebudget: "cache_run K r s \<Longrightarrow> cache_run K r (s\<lparr>cs_budget := n\<rparr>)"

definition cache_inv :: "read_kernels \<Rightarrow> Reader \<Rightarrow> cache_sys \<Rightarrow> bool" where
  "cache_inv K r s \<longleftrightarrow> length (cs_slots s) = length (cols r)
     \<and> (\<forall>ci < length (cs_slots s). \<forall>idx. cs_slots s ! ci = Some idx \<longrightarrow> decode_column K r (cols r ! ci) = Some idx)
     \<and> (\<forall>ci idx. (ci, idx) \<in> set (cs_checked s) \<longrightarrow> ci < length (cs_slots s) \<and> decode_column K r (cols r ! ci) = Some idx)
     \<and> cs_used s + sum_list (cs_owed s) = sum_list (map slot_size (cs_slots s))"

lemma sum_slots_update:
  "ci < length slots \<Longrightarrow> slots ! ci = None \<Longrightarrow>
   sum_list (map slot_size (slots[ci := Some idx])) = sum_list (map slot_size slots) + int (length idx) * 4"
proof (induction slots arbitrary: ci)
  case (Cons a slots)
  then show ?case by (cases ci) (auto simp: slot_size_def)
qed simp

lemma cache_run_inv: "cache_run K r s \<Longrightarrow> cache_inv K r s"
proof (induction rule: cache_run.induct)
  case (start budget)
  show ?case by (simp add: cache_inv_def fresh_cache_def slot_size_def sum_list_replicate)
next
  case (cas_win s xs ci idx ys)
  then have ci: "ci < length (cs_slots s)" "decode_column K r (cols r ! ci) = Some idx" by (auto simp: cache_inv_def)
  with cas_win sum_slots_update [OF ci(1) cas_win(3)] show ?case by (auto simp: cache_inv_def nth_list_update)
qed (auto simp: cache_inv_def)

text \<open>The sequential path of one query is a run of these steps.\<close>

definition cache_coherent :: "read_kernels \<Rightarrow> Reader \<Rightarrow> idx_cache \<Rightarrow> bool" where
  "cache_coherent K r s \<longleftrightarrow> length (ic_slots s) = length (cols r)
     \<and> (\<forall>ci < length (ic_slots s). \<forall>idx. ic_slots s ! ci = Some idx \<longrightarrow> decode_column K r (cols r ! ci) = Some idx)
     \<and> ic_used s = sum_list (map slot_size (ic_slots s))"

lemma dictIndicesAt_coherent:
  assumes co: "cache_coherent K r s" and ci: "ci < length (cols r)" and d: "decode_column K r (cols r ! ci) = Some idx"
  shows "\<exists>s'. dictIndicesAt K r s ci = Some (idx, s') \<and> cache_coherent K r s' \<and> (ic_used s \<le> ic_budget s \<longrightarrow> ic_used s' \<le> ic_budget s')"
proof (cases "cachedIdx s ci")
  case (Some v)
  then have "v = idx" using co ci d by (auto simp: cache_coherent_def cachedIdx_def split: if_splits)
  then show ?thesis using Some co by (auto simp: dictIndicesAt_def)
next
  case None
  then have n: "ic_slots s ! ci = None" "ci < length (ic_slots s)" using co ci by (auto simp: cache_coherent_def cachedIdx_def split: if_splits)
  have "cache_coherent K r (cacheIdx s ci idx)"
    using co d n sum_slots_update [OF n(2,1), of idx]
    by (auto simp: cache_coherent_def cacheIdx_def Let_def nth_list_update)
  moreover have "ic_used s \<le> ic_budget s \<longrightarrow> ic_used (cacheIdx s ci idx) \<le> ic_budget (cacheIdx s ci idx)"
    by (auto simp: cacheIdx_def Let_def)
  ultimately show ?thesis using None d ci by (simp add: dictIndicesAt_def index_ok)
qed

section \<open>Properties\<close>

text \<open>C23: Ten read operations return on every blob the parser accepts, whatever its bytes are: the point, range, window and
  full reads of timestamps, and the dictionary's membership, id and value lookups and the equality lookups through filter and
  postings, for every column name, row and value.  The range read asks that its first row exists or that the range is empty.  The
  value counts of the footer are not among them.\<close>

theorem reader_no_panic:
  assumes "ReadGroup b = Some (Inr r)" and "unpack_spec (rk_unpack K)"
  shows "returns (TimestampAt r name row) \<and> returns (TimeRangeMaskInto r name from to)
    \<and> returns (TimeWindowSpan r name from to) \<and> returns (Timestamps K r name)
    \<and> (lo < Rows r \<or> hi \<le> lo \<longrightarrow> returns (TimestampsRangeInto dst r name lo hi))
    \<and> returns (DictContains K r name v) \<and> returns (DictID K r name v) \<and> returns (DictValueAt K r name row)
    \<and> returns (EqualityCount K r name v) \<and> returns (EqualityRows K r name v)"
proof -
  have "reader_ok r" using ReadGroup_ok [OF assms(1)] by simp
  then show ?thesis by (intro conjI impI ts_reads_total dict_reads_total assms(2))
qed

definition demo_read :: read_kernels where
  "demo_read = \<lparr>rk_unpack = scalar_unpack, rk_dict = ref_kernels, rk_hash = (\<lambda>seed k. k XOR seed), rk_varint = varints\<rparr>"

text \<open>C12: End to end, a dictionary column answers as its values do: after a group has been written and read
  back, membership of a value, the id of a value, the value of a row, the rows holding a value and
  their number are exactly those of the column's values, through the filter, the dictionary section
  and the postings.\<close>

theorem dict_column_exact:
  assumes "same_kernels K R" and "group_wf g" and "list_all narrow (Columns g)" and "distinct (map ColName (Columns g))"
    and "Marshal K g = Some B" and "length B < 2 ^ 32"
    and "c \<in> set (Columns g)" and "ColTypeOf c = ColDict" and "ColDictOf c = Some d"
  shows "\<exists>r. ReadGroup B = Some (Inr r) \<and> (let nm = ColName c; vs = values_of d in
     (\<forall>v. DictContains R r nm v = Some (v \<in> set (Dict d)))
     \<and> (\<forall>v. DictID R r nm v = Some (find (\<lambda>i. Dict d ! i = v) [0..<length (Dict d)]))
     \<and> (\<forall>row < GRows g. DictValueAt R r nm (int row) = Some (Some (vs ! row)))
     \<and> (\<not> NoPostings g \<longrightarrow> (\<forall>v. EqualityRows R r nm v = Some (Some (map of_nat (filter (\<lambda>i. vs ! i = v) [0..<GRows g])))))
     \<and> (\<not> NoPostings g \<longrightarrow> (\<forall>v. \<exists>x. EqualityCount R r nm v = Some (Some (x, length (filter (\<lambda>i. vs ! i = v) [0..<GRows g]))))))"
proof -
  have k: "gkernels_ok K" using assms(1) by (simp add: same_kernels_def)
  obtain r e where r: "ReadGroup B = Some (Inr r)" "blob r = B" "Rows r = GRows g" "e \<le> length B"
    "list_all2 (written K g B e) (Columns g) (cols r)" using ReadGroup_Marshal [OF k assms(2,3,5,6)] .
  obtain m where m: "col_of r ColDict (ColName c) = Some m" "written K g B e c m"
    using col_written [OF r(5) assms(4,7)] assms(8) by metis
  have g: "GRows g \<le> MaxRows" "list_all (column_wf (GRows g)) (Columns g)" using assms(2) by (simp_all add: group_wf_def)
  have wf: "dict_wf (Rows r) d" using g(2) assms(7-9) r(3) by (auto simp: list_all_iff column_wf_def)
  have w: "written_dict K g (blob r) e d m" using m(2) assms(8,9) r(2) by (simp add: written_def)
  have b: "Rows r \<le> MaxRows" "e \<le> length (blob r)" "length (blob r) < 2 ^ 32" using g(1) r assms(6) by simp_all
  note ex = dict_reads_exact [OF assms(1) wf b(1) w b(2,3) m(1)]
  show ?thesis using ex r(1) by (simp add: Let_def r(3))
qed

lemma demo_same: "same_kernels demo_kernels demo_read"
  by (simp add: same_kernels_def demo_kernels_ok demo_read_def scalar_unpack_spec) (simp add: demo_kernels_def)

theorem dict_column_exact_witness:
  "\<exists>B r. Marshal demo_kernels demo_group = Some B \<and> ReadGroup B = Some (Inr r)
     \<and> DictValueAt demo_read r [108] 0 = Some (Some [98]) \<and> EqualityRows demo_read r [108] [97] = Some (Some [1])
     \<and> DictContains demo_read r [108] [99] = Some False"
proof -
  let ?c = "Columns demo_group ! 1" and ?d = "\<lparr>Dict = [[97], [98]], Indices = [1, 0]\<rparr> :: DictColumn"
  obtain B where B: "Marshal demo_kernels demo_group = Some B" using Marshal_total [OF demo_wf] .
  have c: "list_all narrow (Columns demo_group)" "distinct (map ColName (Columns demo_group))" "?c \<in> set (Columns demo_group)"
    "ColTypeOf ?c = ColDict" "ColDictOf ?c = Some ?d"
    by (simp_all add: demo_group_def narrow_def col_types)
  have v: "ColName ?c = [108]" "values_of ?d = [[98], [97]]" "GRows demo_group = 2" "\<not> NoPostings demo_group"
    by (simp_all add: demo_group_def values_of_def)
  obtain r where r: "ReadGroup B = Some (Inr r)" "\<forall>v. DictContains demo_read r [108] v = Some (v \<in> set (Dict ?d))"
    "\<forall>row < 2. DictValueAt demo_read r [108] (int row) = Some (Some ([[98], [97]] ! row))"
    "\<forall>v. EqualityRows demo_read r [108] v = Some (Some (map of_nat (filter (\<lambda>i. [[98], [97]] ! i = v) [0..<2])))"
    using dict_column_exact [OF demo_same demo_wf c(1,2) B demo_small [OF B] c(3-5), unfolded Let_def v(1-3)] v(4) by blast
  have "DictValueAt demo_read r [108] 0 = Some (Some [98])" using r(3) [rule_format, of 0] by simp
  moreover
  have "filter (\<lambda>i. [[98], [97 :: byte]] ! i = [97]) [0..<2] = [1]" by (simp add: upt_rec)
  then have "EqualityRows demo_read r [108] [97] = Some (Some [1])" using r(4) by simp
  moreover have "DictContains demo_read r [108] [99] = Some False" using r(2) by simp
  ultimately show ?thesis using B r(1) by blast
qed

text \<open>C13: End to end, a timestamp column answers as its values do: after a group has been written and read
  back, a point read, a range read (whatever the reused buffer held) and the window mask are those of
  the column's timestamps, the span of the window covers every matching row, and a group is skipped by
  its time range only when no row matches.\<close>

theorem ts_column_exact:
  assumes "gkernels_ok K" and "group_wf g" and "list_all narrow (Columns g)" and "distinct (map ColName (Columns g))"
    and "Marshal K g = Some B" and "length B < 2 ^ 32"
    and "c \<in> set (Columns g)" and "ColTypeOf c = ColTimestamp" and "0 < GRows g"
  shows "\<exists>r. ReadGroup B = Some (Inr r) \<and> (let nm = ColName c; ts = ColTs c in
     (\<forall>row < GRows g. TimestampAt r nm (int row) = Some (Some (ts ! row)))
     \<and> (\<forall>dst lo hi. lo < hi \<and> hi \<le> GRows g \<longrightarrow> TimestampsRangeInto dst r nm lo hi = Some (take (hi - lo) (drop lo ts)))
     \<and> (\<forall>from to. TimeRangeMaskInto r nm from to = Some (map (in_window from to) ts)
         \<and> (\<exists>lo hi. TimeWindowSpan r nm from to = Some (lo, hi)
              \<and> (\<forall>j < GRows g. in_window from to (ts ! j) \<longrightarrow> lo \<le> j \<and> j < hi))
         \<and> ((\<exists>j < GRows g. in_window from to (ts ! j)) \<longrightarrow> TimeRangeMatches r from to)))"
proof -
  obtain r e where r: "ReadGroup B = Some (Inr r)" "blob r = B" "Rows r = GRows g" "e \<le> length B"
    "list_all2 (written K g B e) (Columns g) (cols r)"
    "(TimeMin r, TimeMax r) = (if GRows g = 0 then (0, 0) else foldl time_step (0x7FFFFFFFFFFFFFFF, 0x8000000000000000)
        (concat (map ColTs (filter (\<lambda>c. ColTypeOf c = ColTimestamp) (Columns g)))))"
    using ReadGroup_Marshal [OF assms(1,2,3,5,6)] .
  obtain m where m: "col_of r ColTimestamp (ColName c) = Some m" "written K g B e c m"
    using col_written [OF r(5) assms(4,7)] assms(8) by metis
  have g: "GRows g \<le> MaxRows" "list_all (column_wf (GRows g)) (Columns g)" using assms(2) by (simp_all add: group_wf_def)
  have len: "length (ColTs c) = Rows r" using g(2) assms(7,8) r(3) by (auto simp: list_all_iff column_wf_def col_types)
  then have ne: "ColTs c \<noteq> []" using assms(9) r(3) by auto
  have w: "DataLen m = length (encodeTimestamps (ColTs c))" "holds (blob r) e (DataOff m) (encodeTimestamps (ColTs c))"
    using m(2) assms(8) r(2) by (simp_all add: written_def col_types)
  have b: "Rows r \<le> MaxRows" "e \<le> length (blob r)" using g(1) r by simp_all
  note ex = ts_reads_exact [OF len b(1) ne w b(2) m(1)]
  have "TimeRangeMatches r from to" if "j < GRows g" "in_window from to (ColTs c ! j)" for "from" to j
  proof -
    have "ColTs c ! j \<in> set (ColTs c)" using that(1) len r(3) by simp
    then have "sint (TimeMin r) \<le> sint (ColTs c ! j) \<and> sint (ColTs c ! j) \<le> sint (TimeMax r)"
      using time_fold [of _ _ _ "TimeMin r" "TimeMax r"] r(6) assms(7-9) by fastforce
    then show ?thesis using that(2) by (auto simp: TimeRangeMatches_def in_window_def)
  qed
  then have skip: "(\<exists>j < GRows g. in_window from to (ColTs c ! j)) \<longrightarrow> TimeRangeMatches r from to" for "from" to by blast
  have span: "\<exists>lo hi. TimeWindowSpan r (ColName c) from to = Some (lo, hi)
      \<and> (\<forall>j < GRows g. in_window from to (ColTs c ! j) \<longrightarrow> lo \<le> j \<and> j < hi)" for "from" to
    using ex(4) [of "from" to, unfolded r(3)] by (elim exE conjE) (intro exI conjI)
  show ?thesis
    unfolding Let_def
    by (intro exI [of _ r] conjI allI impI r(1) skip span ex(2)) (rule ex(1) [unfolded r(3)] ex(3) [unfolded r(3)]; simp)+
qed

theorem ts_column_exact_witness:
  "\<exists>B r. Marshal demo_kernels demo_group = Some B \<and> ReadGroup B = Some (Inr r)
     \<and> TimestampAt r [95, 116, 105, 109, 101] 1 = Some (Some 9) \<and> TimeRangeMaskInto r [95, 116, 105, 109, 101] 6 10 = Some [False, True]"
proof -
  let ?c = "Columns demo_group ! 0"
  obtain B where B: "Marshal demo_kernels demo_group = Some B" using Marshal_total [OF demo_wf] .
  have c: "list_all narrow (Columns demo_group)" "distinct (map ColName (Columns demo_group))" "?c \<in> set (Columns demo_group)"
    "ColTypeOf ?c = ColTimestamp" "0 < GRows demo_group"
    by (simp_all add: demo_group_def narrow_def col_types)
  have v: "ColName ?c = [95, 116, 105, 109, 101]" "ColTs ?c = [5, 9]" "GRows demo_group = 2" by (simp_all add: demo_group_def)
  obtain r where r0: "ReadGroup B = Some (Inr r) \<and> (let nm = [95, 116, 105, 109, 101]; ts = [5, 9] in
     (\<forall>row < 2. TimestampAt r nm (int row) = Some (Some (ts ! row)))
     \<and> (\<forall>dst lo hi. lo < hi \<and> hi \<le> 2 \<longrightarrow> TimestampsRangeInto dst r nm lo hi = Some (take (hi - lo) (drop lo ts)))
     \<and> (\<forall>from to. TimeRangeMaskInto r nm from to = Some (map (in_window from to) ts)
         \<and> (\<exists>lo hi. TimeWindowSpan r nm from to = Some (lo, hi)
              \<and> (\<forall>j < 2. in_window from to (ts ! j) \<longrightarrow> lo \<le> j \<and> j < hi))
         \<and> ((\<exists>j < 2. in_window from to (ts ! j)) \<longrightarrow> TimeRangeMatches r from to)))"
    using ts_column_exact [OF demo_kernels_ok demo_wf c(1,2) B demo_small [OF B] c(3-5), unfolded v] by (rule exE)
  have r: "ReadGroup B = Some (Inr r)" "\<forall>row < 2. TimestampAt r [95, 116, 105, 109, 101] (int row) = Some (Some ([5, 9] ! row))"
    "\<forall>from to. TimeRangeMaskInto r [95, 116, 105, 109, 101] from to = Some (map (in_window from to) [5, 9])"
    using r0 unfolding Let_def by simp_all
  have "TimestampAt r [95, 116, 105, 109, 101] 1 = Some (Some 9)" using r(2) [rule_format, of 1] by simp
  moreover have "map (in_window 6 10) [5, 9 :: u64] = [False, True]" by (simp add: in_window_def)
  then have "TimeRangeMaskInto r [95, 116, 105, 109, 101] 6 10 = Some [False, True]" unfolding r(3) [rule_format] by simp
  ultimately show ?thesis using B r(1) by blast
qed

text \<open>The fused value counts are the materialised ones: pairing the streamed dictionary with the count
  table gives, on every reader and every column, sound or damaged, exactly the result of decoding the
  whole dictionary first, panics included, so the two arms the code keeps cannot be told apart.\<close>

theorem value_counts_fused_equiv:
  "ValueCountsInto K True r name = ValueCountsInto K False r name"
  by (simp add: ValueCountsInto_def fused_eq split: option.split)

text \<open>The decoded-index cache never changes an answer.  However the loads, budget checks,
  compare-and-swaps and accountings of concurrent queries and budget changes interleave, a filled slot
  holds precisely what decoding its column gives, and the bytes in use are those of the filled slots
  once the pending accountings are counted.\<close>

theorem index_cache_coherent:
  assumes "cache_run K r s"
  shows "(\<forall>ci < length (cols r). \<forall>idx. cs_slots s ! ci = Some idx \<longrightarrow> decode_column K r (cols r ! ci) = Some idx)
    \<and> cs_used s + sum_list (cs_owed s) = sum_list (map slot_size (cs_slots s))"
  using cache_run_inv [OF assms] by (auto simp: cache_inv_def)

theorem index_cache_coherent_witness:
  "cs_used (fresh_cache \<lparr>blob = tiny_blob, Rows = 0, TimeMin = 0, TimeMax = 0, cols = []\<rparr> 100) = 0"
  using index_cache_coherent [OF cache_run.start [of demo_read "\<lparr>blob = tiny_blob, Rows = 0, TimeMin = 0, TimeMax = 0, cols = []\<rparr>" 100]]
  by (simp add: fresh_cache_def)

text \<open>A query served through the cache sees the decoded column: from any coherent cache state
  \<^verbatim>\<open>dictIndicesAt\<close> returns exactly the decoded indices, leaves the cache coherent, and keeps a cache
  that is within its budget within it.\<close>

theorem dictIndicesAt_correct:
  assumes "cache_coherent K r s" and "ci < length (cols r)" and "decode_column K r (cols r ! ci) = Some idx"
  shows "\<exists>s'. dictIndicesAt K r s ci = Some (idx, s') \<and> cache_coherent K r s'
    \<and> (ic_used s \<le> ic_budget s \<longrightarrow> ic_used s' \<le> ic_budget s')"
  by (rule dictIndicesAt_coherent [OF assms])

theorem dictIndicesAt_correct_witness:
  "\<exists>s'. dictIndicesAt demo_read \<lparr>blob = replicate 8 0, Rows = 2, TimeMin = 0, TimeMax = 0,
       cols = [(emptyMeta [97] ColDict 0)\<lparr>Width := 1\<rparr>]\<rparr>
       \<lparr>ic_slots = [None], ic_used = 0, ic_budget = 100\<rparr> 0 = Some ([0, 0], s')"
proof -
  let ?r = "\<lparr>blob = replicate 8 0, Rows = 2, TimeMin = 0, TimeMax = 0, cols = [(emptyMeta [97] ColDict 0)\<lparr>Width := 1\<rparr>]\<rparr> :: Reader"
  let ?s = "\<lparr>ic_slots = [None], ic_used = 0, ic_budget = 100\<rparr> :: idx_cache"
  have "decode_column demo_read ?r (cols ?r ! 0) = Some [0, 0]"
    by (simp add: decode_column_def emptyMeta_def idxBytes_def gslice_def decodeIndices_def read_bits_def window64_def upt_rec)
  moreover have "cache_coherent demo_read ?r ?s" by (simp add: cache_coherent_def slot_size_def)
  ultimately show ?thesis using dictIndicesAt_correct [of demo_read ?r ?s 0 "[0, 0]"] by auto
qed

text \<open>A v7 group without rows whose only column declares one byte of postings.\<close>

definition short_meta :: colMeta where
  "short_meta = (emptyMeta [97] ColDict 16)\<lparr>PostOff := 16, PostLen := 1, DictOff := 16\<rparr>"

definition short_foot :: bytes where
  "short_foot = putU64 0 @ putU64 0 @ meta_bytes short_meta"

definition short_blob :: bytes where
  "short_blob = putU32 magic @ putU32 versionV7 @ putU32 0 @ putU32 1 @ [0] @ short_foot @ putU32 (of_nat (length short_foot))"

lemma short_accepted:
  "ReadGroup short_blob = Some (Inr \<lparr>blob = short_blob, Rows = 0, TimeMin = 0, TimeMax = 0, cols = [short_meta]\<rparr>)"
proof -
  have lf: "length short_foot = 66" by (simp add: short_foot_def meta_bytes_def short_meta_def emptyMeta_def appStr_def)
  have lb: "length short_blob = 87" by (simp add: short_blob_def lf)
  have r: "getn short_blob 8 = Some 0" "getn short_blob 12 = Some 1" "get32 short_blob 0 = Some magic" "get32 short_blob 4 = Some versionV7"
    by (simp_all add: short_blob_def getn_def get32_def slice_from_def codec_simps)
  have w: "drop 83 short_blob = putU32 (of_nat (length short_foot))" by (simp add: short_blob_def lf)
  have f: "gslice short_blob 17 83 = Some short_foot" by (simp add: short_blob_def gslice_def lf)
  obtain c1 where c1: "cur_u64 (mk_cursor short_foot) = (0, c1)" "cursor_on c1 (putU64 0 @ meta_bytes short_meta)"
    using cu64.rd_on [of "mk_cursor short_foot" 0] cursor_on_mk [of short_foot] unfolding short_foot_def by blast
  obtain c2 where c2: "cur_u64 c1 = (0, c2)" "cursor_on c2 (meta_bytes short_meta @ [])" using cu64.rd_on [OF c1(2)] by auto
  have fit: "meta_fits short_meta" by (simp add: meta_fits_def short_meta_def emptyMeta_def maxNameBytes_def)
  obtain c3 where c3: "read_meta 0 c2 = Inr (short_meta, c3)" using read_meta_on [OF c2(2) fit] by blast
  have ck: "check_meta short_blob 0 17 0 short_meta = Some None"
    by (rule check_meta_intro)
      (simp_all add: short_meta_def emptyMeta_def col_types check_dictlen_def check_ts_def check_dict_data_def)
  have n: "getn (putU32 66) 0 = Some 66" using get32_at [of 0 "[]" 66 "[]"] by (simp add: getn_def)
  have "readGroup short_blob (putU32 66) False = Some (Inr \<lparr>blob = short_blob, Rows = 0, TimeMin = 0, TimeMax = 0, cols = [short_meta]\<rparr>)"
    using r(1,2) n lb f c1(1) c2(1) c3 ck by (simp add: readGroup_def maxGroupColumns_def)
  then show ?thesis using r(3,4) w lf lb by (simp add: ReadGroup_def slice_from_def)
qed

text \<open>The lookups on that damaged group, whose column they find, and on the example group of two rows.\<close>

theorem reader_no_panic_witness:
  "(\<exists>r. ReadGroup short_blob = Some (Inr r) \<and> col_of r ColDict [97] = Some short_meta
     \<and> returns (EqualityRows demo_read r [97] [98]) \<and> returns (EqualityCount demo_read r [97] [98])
     \<and> returns (DictContains demo_read r [97] [98]) \<and> returns (DictValueAt demo_read r [97] 0))
   \<and> (\<exists>B r. Marshal demo_kernels demo_group = Some B \<and> ReadGroup B = Some (Inr r) \<and> Rows r = 2
     \<and> returns (TimestampsRangeInto [] r [95, 116, 105, 109, 101] 1 2) \<and> returns (EqualityRows demo_read r [108] [97]))"
proof -
  have u: "unpack_spec (rk_unpack demo_read)" by (simp add: demo_read_def scalar_unpack_spec)
  have c: "col_of \<lparr>blob = short_blob, Rows = 0, TimeMin = 0, TimeMax = 0, cols = [short_meta]\<rparr> ColDict [97] = Some short_meta"
    by (simp add: col_of_def col_def short_meta_def emptyMeta_def)
  note w = reader_no_panic [OF short_accepted u]
  obtain B where B: "Marshal demo_kernels demo_group = Some B" using Marshal_total [OF demo_wf] .
  have n: "list_all narrow (Columns demo_group)" by (simp add: demo_group_def narrow_def col_types)
  obtain r e where r: "ReadGroup B = Some (Inr r)" "Rows r = GRows demo_group"
    using ReadGroup_Marshal [OF demo_kernels_ok demo_wf n B demo_small [OF B]] .
  have r2: "Rows r = 2" using r(2) by (simp add: demo_group_def)
  have t: "returns (TimestampsRangeInto [] r [95, 116, 105, 109, 101] 1 2)" "returns (EqualityRows demo_read r [108] [97])"
    using reader_no_panic [OF r(1) u, where lo = 1 and hi = 2 and dst = "[]" and name = "[95, 116, 105, 109, 101]"]
      reader_no_panic [OF r(1) u, where name = "[108]" and v = "[97]"] r2 by simp_all
  show ?thesis using short_accepted c w B r(1) r2 t by blast
qed

text \<open>C33: A damaged posting span still panics the value counts: \<^verbatim>\<open>ReadGroup\<close> accepts a group whose column declares
  fewer than four bytes of postings, every other lookup handles it, and \<^verbatim>\<open>ValueCountsInto\<close> falls through to the
  legacy layout and reads a four-byte count out of the one-byte span.\<close>

theorem short_postings_panic:
  "\<exists>b r. ReadGroup b = Some (Inr r) \<and> (\<forall>K fused. ValueCountsInto K fused r [97] = None)"
proof -
  let ?r = "\<lparr>blob = short_blob, Rows = 0, TimeMin = 0, TimeMax = 0, cols = [short_meta]\<rparr> :: Reader"
  have lb: "length short_blob = 87"
    by (simp add: short_blob_def short_foot_def meta_bytes_def short_meta_def emptyMeta_def appStr_def)
  have c: "col_of ?r ColDict [97] = Some short_meta" by (simp add: col_of_def col_def short_meta_def emptyMeta_def)
  have m: "PostLen short_meta = 1" "PostOff short_meta = 16" by (simp_all add: short_meta_def)
  have p: "post_of ?r short_meta = Some [short_blob ! 16]"
    using lb by (simp add: post_of_def gslice_def m take_Suc_conv_app_nth [of 0] hd_drop_conv_nth)
  have mat: "valueCountsMaterialized K ?r short_meta [short_blob ! 16] = None" for K
  proof -
    obtain sec where "dictSec_of ?r short_meta = Some sec"
      using lb by (simp add: dictSec_of_def gslice_def short_meta_def emptyMeta_def)
    moreover obtain vs where "dictSectionAll (rk_dict K) sec (DictLen short_meta) = Some vs"
      using all_total [of "rk_dict K" sec "DictLen short_meta"] by (auto simp: returns_def)
    moreover have "postV8Header [short_blob ! 16] = Some None" by (simp add: postV8Header_def)
    ultimately show ?thesis by (simp add: valueCountsMaterialized_def)
  qed
  have "ValueCountsInto K fused ?r [97] = None" for K fused
    using c p m mat [of K] by (simp add: ValueCountsInto_def fused_eq)
  with short_accepted show ?thesis by blast
qed

end
