(* ===== verification/Bitset.thy ===== *)
theory Bitset
  imports Bytes
begin

unbundle bit_operations_syntax

text \<open>
  The row bitsets of \<^verbatim>\<open>internal/query/bitset.go\<close>, and the mask packing of
  \<^verbatim>\<open>internal/query/engine.go\<close> (\<^verbatim>\<open>packBools\<close>, \<^verbatim>\<open>eqMaskInto\<close>).

  A bitset is its words and its number of rows, as in the source; \<open>rows_of\<close> lists the set rows in
  ascending order and is the meaning of a bitset.  The byte view of the words depends on the host: the flag
  \<open>bigEndian\<close> of \<open>simd_kernels\<close> is the source's \<^verbatim>\<open>nativeBigEndian\<close>.  The vector kernels of the
  external \<^verbatim>\<open>simd\<close> package are the other fields of that record, and \<open>simd_ok\<close> states what the
  sources rely on.  An index out of range is a panic, \<open>None\<close>.
\<close>

section \<open>Words\<close>

definition bits_of :: "u64 \<Rightarrow> nat list" where
  "bits_of w = filter (bit w) [0..<64]"

definition OnesCount64 :: "u64 \<Rightarrow> nat" where
  "OnesCount64 w = length (bits_of w)"

definition TrailingZeros64 :: "u64 \<Rightarrow> nat" where
  "TrailingZeros64 w = length (takeWhile (\<lambda>i. \<not> bit w i) [0..<64])"

definition LeadingZeros64 :: "u64 \<Rightarrow> nat" where
  "LeadingZeros64 w = length (takeWhile (\<lambda>i. \<not> bit w (63 - i)) [0..<64])"

definition ReverseBytes64 :: "u64 \<Rightarrow> u64" where
  "ReverseBytes64 w = the (le64 (rev (putU64 w)))"

lemma set_bits_of [simp]: "set (bits_of w) = {i. bit w i}"
  by (auto simp: bits_of_def dest: bit_imp_le_length)

lemma sorted_bits_of [simp]: "sorted (bits_of w)" "distinct (bits_of w)"
  by (simp_all add: bits_of_def sorted_wrt_filter)

lemma bits_of_0 [simp]: "bits_of 0 = []"
  by (simp add: bits_of_def)

lemma bits_of_eq_Nil [simp]: "bits_of w = [] \<longleftrightarrow> w = 0"
proof
  assume "bits_of w = []"
  then have "\<not> bit w i" for i using set_bits_of [of w] by auto
  then show "w = 0" by (intro bit_eqI) simp
qed simp

lemma bits_of_unique:
  assumes "sorted xs" "distinct xs" "set xs = {i. bit w i}"
  shows "bits_of w = xs"
  using assms by (intro sorted_distinct_set_unique) simp_all

lemma first_index:
  assumes "j < n" "P j"
  defines "k \<equiv> length (takeWhile (\<lambda>i. \<not> P i) [0..<n])"
  shows "k < n" "P k" "i < k \<Longrightarrow> \<not> P i"
proof -
  let ?t = "takeWhile (\<lambda>i. \<not> P i) [0..<n]"
  have nth: "?t ! i = i \<and> \<not> P i" if "i < length ?t" for i
  proof -
    have "i < n" using that length_takeWhile_le [of "\<lambda>i. \<not> P i" "[0..<n]"] by simp
    then show ?thesis using takeWhile_nth [OF that] nth_mem [OF that] by (auto dest: set_takeWhileD)
  qed
  show k: "k < n"
  proof (rule ccontr)
    assume "\<not> k < n"
    then have "j < length ?t" using assms by simp
    then show False using nth assms(2) by blast
  qed
  show "P k" using nth_length_takeWhile [of "\<lambda>i. \<not> P i" "[0..<n]"] k by (simp add: k_def)
  show "i < k \<Longrightarrow> \<not> P i" using nth by (simp add: k_def)
qed

lemma nonzero_bit: "w \<noteq> 0 \<Longrightarrow> \<exists>j < 64. bit (w :: u64) j"
  by (auto simp: bit_eq_iff dest: bit_imp_le_length)

lemma trailing_zeros:
  assumes "w \<noteq> 0"
  shows "TrailingZeros64 w < 64" "bit w (TrailingZeros64 w)" "i < TrailingZeros64 w \<Longrightarrow> \<not> bit w i"
proof -
  obtain j where "j < 64" "bit w j" using nonzero_bit [OF assms] by blast
  note f = first_index [of j 64 "bit w", OF this]
  show "TrailingZeros64 w < 64" "bit w (TrailingZeros64 w)" "i < TrailingZeros64 w \<Longrightarrow> \<not> bit w i"
    using f by (simp_all add: TrailingZeros64_def)
qed

lemma leading_zeros:
  assumes "w \<noteq> 0"
  shows "LeadingZeros64 w < 64" "bit w (63 - LeadingZeros64 w)" "63 - LeadingZeros64 w < i \<Longrightarrow> \<not> bit w i"
proof -
  obtain j where j: "j < 64" "bit w j" using nonzero_bit [OF assms] by blast
  then have "63 - j < 64" "bit w (63 - (63 - j))" by simp_all
  note f = first_index [of "63 - j" 64 "\<lambda>i. bit w (63 - i)", OF this]
  show "LeadingZeros64 w < 64" "bit w (63 - LeadingZeros64 w)" using f by (simp_all add: LeadingZeros64_def)
  show "\<not> bit w i" if "63 - LeadingZeros64 w < i"
  proof
    assume b: "bit w i"
    then have i: "i < 64" by (auto dest: bit_imp_le_length)
    then have "63 - i < LeadingZeros64 w" using that by simp
    then show False using f(3) [of "63 - i"] b i by (simp add: LeadingZeros64_def)
  qed
qed

lemma bit_minus_one:
  fixes w :: u64
  assumes k: "k < 64" "bit w k" "\<And>i. i < k \<Longrightarrow> \<not> bit w i" and i: "i < 64"
  shows "bit (w - 1) i \<longleftrightarrow> i < k \<or> k < i \<and> bit w i"
proof -
  let ?v = "unset_bit k w"
  have "?v AND push_bit k 1 = 0" by (rule bit_word_eqI) (auto simp: bit_simps)
  then have "?v + push_bit k 1 = ?v OR push_bit k 1" by (rule disjunctive_add_eq_or)
  also have "\<dots> = w" by (rule bit_word_eqI) (use k in \<open>auto simp: bit_simps\<close>)
  finally have "w - 1 = ?v + mask k" by (simp add: mask_eq_decr_exp push_bit_eq_mult algebra_simps)
  also have "?v AND mask k = 0" by (rule bit_word_eqI) (use k in \<open>auto simp: bit_simps\<close>)
  then have "?v + mask k = ?v OR mask k" by (rule disjunctive_add_eq_or)
  finally show ?thesis using k i by (auto simp: bit_simps)
qed

lemma clear_lowest:
  fixes w :: u64
  assumes "w \<noteq> 0"
  shows "w AND (w - 1) = unset_bit (TrailingZeros64 w) w" "w AND - w = push_bit (TrailingZeros64 w) 1"
    "w AND NOT (w AND - w) = unset_bit (TrailingZeros64 w) w"
proof -
  note tz = trailing_zeros [OF assms]
  note m = bit_minus_one [OF tz]
  show "w AND (w - 1) = unset_bit (TrailingZeros64 w) w"
    by (rule bit_word_eqI) (use m tz in \<open>auto simp: bit_simps linorder_neq_iff\<close>)
  show lsb: "w AND - w = push_bit (TrailingZeros64 w) 1"
    unfolding minus_eq_not_minus_1
    by (rule bit_word_eqI) (use m tz in \<open>auto simp: bit_simps linorder_neq_iff\<close>)
  show "w AND NOT (w AND - w) = unset_bit (TrailingZeros64 w) w"
    unfolding lsb by (rule bit_word_eqI) (auto simp: bit_simps)
qed

lemma bits_of_lowest: "w \<noteq> 0 \<Longrightarrow> bits_of w = TrailingZeros64 w # bits_of (unset_bit (TrailingZeros64 w) w)"
proof (rule bits_of_unique)
  assume w: "w \<noteq> 0"
  note tz = trailing_zeros [OF w]
  show "sorted (TrailingZeros64 w # bits_of (unset_bit (TrailingZeros64 w) w))"
    using tz(3) by (auto simp: bit_simps intro: leI)
  show "distinct (TrailingZeros64 w # bits_of (unset_bit (TrailingZeros64 w) w))" by (simp add: bit_simps)
  show "set (TrailingZeros64 w # bits_of (unset_bit (TrailingZeros64 w) w)) = {i. bit w i}"
    using tz(2) by (auto simp: bit_simps)
qed

lemma bits_of_highest:
  assumes w: "w \<noteq> 0" and v: "v = w AND NOT (push_bit (63 - LeadingZeros64 w) 1)"
  shows "bits_of w = bits_of v @ [63 - LeadingZeros64 w]"
proof (rule bits_of_unique)
  let ?h = "63 - LeadingZeros64 w"
  note lz = leading_zeros [OF w]
  have b: "bit v i \<longleftrightarrow> bit w i \<and> i \<noteq> ?h" for i
    unfolding v by (auto simp: bit_simps dest: bit_imp_le_length)
  show "sorted (bits_of v @ [?h])" using lz(3) by (auto simp: sorted_append b intro: leI)
  show "distinct (bits_of v @ [?h])" by (simp add: b)
  show "set (bits_of v @ [?h]) = {i. bit w i}" using lz(2) by (auto simp: b)
qed

lemma and_dec_less: "w \<noteq> 0 \<Longrightarrow> length (bits_of (w AND (w - 1))) < length (bits_of (w :: u64))"
  by (subst bits_of_lowest [of w]) (simp_all add: clear_lowest)

section \<open>Bitsets\<close>

record Bitset =
  words :: "u64 list"
  bn :: nat

definition NewBitset :: "nat \<Rightarrow> Bitset" where
  "NewBitset n = \<lparr>words = replicate ((n + 63) div 64) 0, bn = n\<rparr>"

definition SetAll :: "Bitset \<Rightarrow> Bitset option" where
  "SetAll b = (let ws = map (\<lambda>_. NOT 0) (words b); r = bn b mod 64 in
     if r \<noteq> 0 then (if ws = [] then None else Some (b\<lparr>words := ws[length ws - 1 := push_bit r 1 - 1]\<rparr>))
     else Some (b\<lparr>words := ws\<rparr>))"

definition SetBit :: "Bitset \<Rightarrow> nat \<Rightarrow> Bitset option" where
  "SetBit b i = do {
     w \<leftarrow> index (words b) (i div 64);
     ws \<leftarrow> set_index (words b) (i div 64) (w OR push_bit (i mod 64) 1);
     Some (b\<lparr>words := ws\<rparr>)
   }"

definition Test :: "Bitset \<Rightarrow> nat \<Rightarrow> bool option" where
  "Test b i = map_option (\<lambda>w. w AND push_bit (i mod 64) 1 \<noteq> 0) (index (words b) (i div 64))"

text \<open>The inner loops of \<^verbatim>\<open>KeepFirst\<close> and \<^verbatim>\<open>KeepLast\<close>: move \<open>need\<close> bits of the word to \<open>keep\<close>.\<close>

fun keep_lowest :: "nat \<Rightarrow> u64 \<Rightarrow> u64 \<Rightarrow> u64" where
  "keep_lowest 0 w keep = keep"
| "keep_lowest (Suc need) w keep = (let lsb = w AND - w in keep_lowest need (w AND NOT lsb) (keep OR lsb))"

fun keep_highest :: "nat \<Rightarrow> u64 \<Rightarrow> u64 \<Rightarrow> u64" where
  "keep_highest 0 w keep = keep"
| "keep_highest (Suc need) w keep =
     (let msb = push_bit (63 - LeadingZeros64 w) 1 in keep_highest need (w AND NOT msb) (keep OR msb))"

text \<open>The outer loops, over the words in the order they are visited.\<close>

fun keep_words :: "(nat \<Rightarrow> u64 \<Rightarrow> u64 \<Rightarrow> u64) \<Rightarrow> nat \<Rightarrow> nat \<Rightarrow> u64 list \<Rightarrow> u64 list" where
  "keep_words keep n seen [] = []"
| "keep_words keep n seen (w # ws) = (if w = 0 then w # keep_words keep n seen ws else
     let c = OnesCount64 w in
     if seen + c \<le> n then w # keep_words keep n (seen + c) ws
     else keep (n - seen) w 0 # replicate (length ws) 0)"

definition KeepFirst :: "Bitset \<Rightarrow> int \<Rightarrow> Bitset" where
  "KeepFirst b n = (if n \<le> 0 then b\<lparr>words := map (\<lambda>_. 0) (words b)\<rparr>
     else b\<lparr>words := keep_words keep_lowest (nat n) 0 (words b)\<rparr>)"

definition KeepLast :: "Bitset \<Rightarrow> int \<Rightarrow> Bitset" where
  "KeepLast b n = (if n \<le> 0 then b\<lparr>words := map (\<lambda>_. 0) (words b)\<rparr>
     else b\<lparr>words := rev (keep_words keep_highest (nat n) 0 (rev (words b)))\<rparr>)"

fun first_last :: "nat \<Rightarrow> u64 list \<Rightarrow> int \<times> int \<Rightarrow> int \<times> int" where
  "first_last wi [] fl = fl"
| "first_last wi (w # ws) (f, l) = (if w = 0 then first_last (Suc wi) ws (f, l) else
     first_last (Suc wi) ws (if f < 0 then int (wi * 64 + TrailingZeros64 w) else f,
       int (wi * 64 + 63) - int (LeadingZeros64 w)))"

definition FirstLast :: "Bitset \<Rightarrow> int \<times> int" where
  "FirstLast b = first_last 0 (words b) (-1, -1)"

definition Count :: "Bitset \<Rightarrow> nat" where
  "Count b = foldl (\<lambda>total w. total + OnesCount64 w) 0 (words b)"

text \<open>\<^verbatim>\<open>ForEach\<close> as the list of the rows it calls its argument with, in order.\<close>

function each_bit :: "nat \<Rightarrow> u64 \<Rightarrow> nat list" where
  "each_bit wi w = (if w = 0 then [] else (wi * 64 + TrailingZeros64 w) # each_bit wi (w AND (w - 1)))"
  by pat_completeness auto
termination
  by (relation "measure (\<lambda>(wi, w). length (bits_of w))") (simp_all add: and_dec_less)

declare each_bit.simps [simp del]

fun each_word :: "nat \<Rightarrow> u64 list \<Rightarrow> nat list" where
  "each_word wi [] = []"
| "each_word wi (w # ws) = each_bit wi w @ each_word (Suc wi) ws"

definition ForEach :: "Bitset \<Rightarrow> nat list" where
  "ForEach b = each_word 0 (words b)"

section \<open>Vector kernels\<close>

record simd_kernels =
  kAnd :: "bytes \<Rightarrow> bytes \<Rightarrow> bytes"
  kOr :: "bytes \<Rightarrow> bytes \<Rightarrow> bytes"
  kAndNot :: "bytes \<Rightarrow> bytes \<Rightarrow> bytes"
  kMaskBits :: "bytes \<Rightarrow> bytes \<Rightarrow> byte \<Rightarrow> bytes"
  kEqualScalar :: "u32 list \<Rightarrow> u32 \<Rightarrow> bool list"
  bigEndian :: bool

text \<open>
  What the sources rely on: \<^verbatim>\<open>And\<close>, \<^verbatim>\<open>Or\<close> and \<^verbatim>\<open>AndNot\<close> combine two slices of one
  length byte by byte into the first; \<^verbatim>\<open>EqualScalarInto\<close> compares every element; and
  \<^verbatim>\<open>MaskBits(dst, src, v)\<close> writes one bit per byte of \<^verbatim>\<open>src\<close>, lowest bit first, into the
  first \<open>ceil (len src / 8)\<close> bytes of \<^verbatim>\<open>dst\<close>.
\<close>

definition mask_byte :: "bytes \<Rightarrow> byte \<Rightarrow> nat \<Rightarrow> byte" where
  "mask_byte src v k = foldl (\<lambda>acc j. if 8 * k + j < length src \<and> src ! (8 * k + j) = v then acc OR push_bit j 1 else acc) 0 [0..<8]"

definition simd_ok :: "simd_kernels \<Rightarrow> bool" where
  "simd_ok S \<longleftrightarrow> (\<forall>a b. length a = length b \<longrightarrow>
       kAnd S a b = map2 (AND) a b \<and> kOr S a b = map2 (OR) a b \<and> kAndNot S a b = map2 (\<lambda>x y. x AND NOT y) a b)
     \<and> (\<forall>dst src v. (length src + 7) div 8 \<le> length dst \<longrightarrow>
       kMaskBits S dst src v = map (mask_byte src v) [0..<(length src + 7) div 8] @ drop ((length src + 7) div 8) dst)
     \<and> (\<forall>idx want. kEqualScalar S idx want = map (\<lambda>x. x = want) idx)"

text \<open>The byte view of one word on the host, and the word a byte view stands for.\<close>

definition view :: "simd_kernels \<Rightarrow> u64 \<Rightarrow> bytes" where
  "view S w = (if bigEndian S then rev (putU64 w) else putU64 w)"

definition unview :: "simd_kernels \<Rightarrow> bytes \<Rightarrow> u64" where
  "unview S b = the (le64 (if bigEndian S then rev b else b))"

definition bytes_view :: "simd_kernels \<Rightarrow> Bitset \<Rightarrow> bytes" where
  "bytes_view S b = concat (map (view S) (words b))"

text \<open>Writing through the view: the words whose bytes are now \<open>bs\<close>.\<close>

definition write_view :: "simd_kernels \<Rightarrow> Bitset \<Rightarrow> bytes \<Rightarrow> Bitset" where
  "write_view S b bs = b\<lparr>words := map (\<lambda>k. unview S (take 8 (drop (8 * k) bs))) [0..<length (words b)]\<rparr>"

definition And :: "simd_kernels \<Rightarrow> Bitset \<Rightarrow> Bitset \<Rightarrow> Bitset" where
  "And S b p = write_view S b (kAnd S (bytes_view S b) (bytes_view S p))"

definition Or :: "simd_kernels \<Rightarrow> Bitset \<Rightarrow> Bitset \<Rightarrow> Bitset" where
  "Or S b p = write_view S b (kOr S (bytes_view S b) (bytes_view S p))"

definition AndNot :: "simd_kernels \<Rightarrow> Bitset \<Rightarrow> Bitset \<Rightarrow> Bitset" where
  "AndNot S b p = write_view S b (kAndNot S (bytes_view S b) (bytes_view S p))"

definition bytesForPack :: "simd_kernels \<Rightarrow> Bitset \<Rightarrow> bytes option" where
  "bytesForPack S b = gslice (bytes_view S b) 0 ((bn b + 7) div 8)"

definition boolsAsBytes :: "bool list \<Rightarrow> bytes" where
  "boolsAsBytes s = map (\<lambda>x. if x then 1 else 0) s"

text \<open>The bytes past \<^verbatim>\<open>bytesForPack\<close> keep what they held.\<close>

definition packBools :: "simd_kernels \<Rightarrow> Bitset \<Rightarrow> bool list \<Rightarrow> Bitset option" where
  "packBools S b bools = (if bools = [] then Some b else do {
     bb \<leftarrow> bytesForPack S b;
     let b' = write_view S b (kMaskBits S bb (boolsAsBytes bools) 1 @ drop (length bb) (bytes_view S b));
     Some (if bigEndian S then b'\<lparr>words := map ReverseBytes64 (words b')\<rparr> else b')
   })"

definition eqMaskInto :: "simd_kernels \<Rightarrow> Bitset \<Rightarrow> u32 list \<Rightarrow> u32 \<Rightarrow> Bitset option" where
  "eqMaskInto S b idx want = (if idx = [] then Some b else packBools S b (kEqualScalar S idx want))"

section \<open>The rows of a bitset\<close>

definition bit_at :: "Bitset \<Rightarrow> nat \<Rightarrow> bool" where
  "bit_at b i \<longleftrightarrow> i < 64 * length (words b) \<and> bit (words b ! (i div 64)) (i mod 64)"

definition rows_of :: "Bitset \<Rightarrow> nat list" where
  "rows_of b = filter (bit_at b) [0..<64 * length (words b)]"

text \<open>The invariant: the words cover exactly \<open>n\<close> rows and no bit past them is set.\<close>

definition bitset_ok :: "nat \<Rightarrow> Bitset \<Rightarrow> bool" where
  "bitset_ok n b \<longleftrightarrow> bn b = n \<and> length (words b) = (n + 63) div 64 \<and> (\<forall>i. bit_at b i \<longrightarrow> i < n)"

lemma set_rows_of [simp]: "set (rows_of b) = {i. bit_at b i}"
  by (auto simp: rows_of_def bit_at_def)

lemma sorted_rows_of [simp]: "sorted (rows_of b)" "distinct (rows_of b)"
  by (simp_all add: rows_of_def sorted_wrt_filter)

lemma rows_of_unique: "sorted xs \<Longrightarrow> distinct xs \<Longrightarrow> set xs = {i. bit_at b i} \<Longrightarrow> rows_of b = xs"
  by (intro sorted_distinct_set_unique) simp_all

lemma rows_of_filter: "bitset_ok n b \<Longrightarrow> rows_of b = filter (bit_at b) [0..<n]"
  by (rule rows_of_unique) (auto simp: bitset_ok_def sorted_wrt_filter)

lemma words_cover: "bitset_ok n b \<Longrightarrow> i < n \<Longrightarrow> i < 64 * length (words b)"
  by (simp add: bitset_ok_def)

section \<open>Construction and single rows\<close>

lemma NewBitset_ok [simp]: "bitset_ok n (NewBitset n)" "\<not> bit_at (NewBitset n) i"
proof -
  show *: "\<not> bit_at (NewBitset n) i" for i
  proof
    assume "bit_at (NewBitset n) i"
    then have "i < 64 * ((n + 63) div 64)" "bit (words (NewBitset n) ! (i div 64)) (i mod 64)"
      by (simp_all add: bit_at_def NewBitset_def)
    moreover from this(1) have "i div 64 < (n + 63) div 64" by (simp add: less_mult_imp_div_less mult.commute)
    ultimately show False by (simp add: NewBitset_def)
  qed
  then show "bitset_ok n (NewBitset n)" by (simp add: bitset_ok_def) (simp add: NewBitset_def)
qed

lemma SetAll_ok:
  assumes "bitset_ok n b"
  obtains b' where "SetAll b = Some b'" "bitset_ok n b'" "\<And>i. bit_at b' i \<longleftrightarrow> i < n"
proof -
  let ?r = "n mod 64" and ?L = "length (words b)"
  have b: "bn b = n" "?L = (n + 63) div 64" using assms by (simp_all add: bitset_ok_def)
  show thesis
  proof (cases "?r = 0")
    case True
    then have L: "n = 64 * ?L" using b by (auto elim!: dvdE simp: mod_eq_0_iff_dvd)
    let ?b = "b\<lparr>words := map (\<lambda>_. NOT 0) (words b)\<rparr>"
    have "bit_at ?b i \<longleftrightarrow> i < n" for i
    proof
      assume "i < n"
      then have "i < 64 * ?L" "i div 64 < ?L" using L by (simp_all add: less_mult_imp_div_less mult.commute)
      then show "bit_at ?b i" by (simp add: bit_at_def bit_simps)
    qed (simp add: bit_at_def L [symmetric])
    moreover from this have "bitset_ok n ?b" using b by (simp add: bitset_ok_def)
    moreover have "SetAll b = Some ?b" using True b by (simp add: SetAll_def)
    ultimately show thesis using that by blast
  next
    case False
    let ?ws = "(map (\<lambda>_. NOT 0) (words b))[?L - 1 := push_bit ?r 1 - 1]"
    let ?b = "b\<lparr>words := ?ws\<rparr>"
    have L: "?L = n div 64 + 1"
    proof -
      have "(n + 63) div 64 = (64 * (n div 64) + (?r + 63)) div 64" by simp
      also have "\<dots> = n div 64 + (?r + 63) div 64" by (subst div_mult_self4) simp_all
      also have "(?r + 63) div 64 = 1" using False by (intro div_nat_eqI) auto
      finally show ?thesis using b by simp
    qed
    have "bit_at ?b i \<longleftrightarrow> i < n" for i
    proof (cases "i < 64 * ?L")
      case i: True
      then have q: "i div 64 < ?L" by (simp add: less_mult_imp_div_less mult.commute)
      have split: "i < n \<longleftrightarrow> i div 64 < n div 64 \<or> i div 64 = n div 64 \<and> i mod 64 < ?r"
        using div_mult_mod_eq [of i 64] div_mult_mod_eq [of n 64] mod_less_divisor [of 64 i] mod_less_divisor [of 64 n]
        by linarith
      show ?thesis
      proof (cases "i div 64 = n div 64")
        case True
        then show ?thesis using i split L by (simp add: bit_at_def mask_eq_decr_exp [symmetric] bit_mask_iff) 
      next
        case False
        then show ?thesis using i q split L by (simp add: bit_at_def bit_simps)
      qed
    next
      case False
      then have "\<not> i < n" using b by linarith
      then show ?thesis using False by (simp add: bit_at_def)
    qed
    moreover from this have "bitset_ok n ?b" using b by (simp add: bitset_ok_def)
    moreover have "SetAll b = Some ?b" using False b L by (auto simp: SetAll_def Let_def)
    ultimately show thesis using that by blast
  qed
qed

lemma SetBit_ok:
  assumes "bitset_ok n b" "i < n"
  obtains b' where "SetBit b i = Some b'" "bitset_ok n b'" "\<And>j. bit_at b' j \<longleftrightarrow> j = i \<or> bit_at b j"
proof -
  have q: "i div 64 < length (words b)" "i < 64 * length (words b)"
    using words_cover [OF assms] by (simp_all add: less_mult_imp_div_less mult.commute)
  let ?b = "b\<lparr>words := (words b)[i div 64 := words b ! (i div 64) OR push_bit (i mod 64) 1]\<rparr>"
  have "bit_at ?b j \<longleftrightarrow> j = i \<or> bit_at b j" for j
  proof (cases "j div 64 = i div 64")
    case True
    have "j = i \<longleftrightarrow> j mod 64 = i mod 64" using True div_mult_mod_eq [of i 64] div_mult_mod_eq [of j 64] by metis
    moreover have "j < 64 * length (words b)" using True q(1) by (simp add: div_less_iff_less_mult mult.commute flip: True)
    ultimately show ?thesis using True q by (auto simp: bit_at_def bit_or_iff bit_push_bit_iff bit_exp_iff)
  next
    case False
    then show ?thesis by (auto simp: bit_at_def)
  qed
  moreover have "SetBit b i = Some ?b" using q by (simp add: SetBit_def index_def set_index_def)
  moreover have "bitset_ok n ?b" using assms calculation(1) by (simp add: bitset_ok_def)
  ultimately show thesis using that by blast
qed

lemma Test_ok: "bitset_ok n b \<Longrightarrow> i < n \<Longrightarrow> Test b i = Some (bit_at b i)"
proof -
  assume a: "bitset_ok n b" "i < n"
  have q: "i div 64 < length (words b)" "i < 64 * length (words b)"
    using words_cover [OF a] by (simp_all add: less_mult_imp_div_less mult.commute)
  have "(w :: u64) AND push_bit k 1 \<noteq> 0 \<longleftrightarrow> bit w k" if "k < 64" for w k
  proof
    assume "w AND push_bit k 1 \<noteq> 0"
    then obtain j where "bit (w AND push_bit k 1) j" by (metis bit_eqI bit_0_eq bot_apply bot_bool_def)
    then show "bit w k" by (auto simp: bit_and_iff bit_push_bit_iff bit_exp_iff)
  next
    assume "bit w k"
    then have "bit (w AND push_bit k 1) k" using that by (simp add: bit_and_iff bit_exp_iff)
    then show "w AND push_bit k 1 \<noteq> 0" by (metis bit_0_eq bot_apply bot_bool_def)
  qed
  then show ?thesis using q by (simp add: Test_def index_def bit_at_def)
qed

section \<open>Iteration and counting\<close>

text \<open>The rows word by word, which is how every loop visits them.\<close>

definition word_rows :: "nat \<Rightarrow> u64 \<Rightarrow> nat list" where
  "word_rows wi w = map (\<lambda>j. wi * 64 + j) (bits_of w)"

fun rows_from :: "nat \<Rightarrow> u64 list \<Rightarrow> nat list" where
  "rows_from wi [] = []"
| "rows_from wi (w # ws) = word_rows wi w @ rows_from (Suc wi) ws"

lemma upt_shift: "[m * 64..<m * 64 + k] = map (\<lambda>j. m * 64 + j) [0..<k]"
  by (simp add: map_add_upt [symmetric] add.commute)

lemma rows_from_filter:
  "rows_from wi ws = filter (\<lambda>i. bit (ws ! (i div 64 - wi)) (i mod 64)) [wi * 64..<(wi + length ws) * 64]"
proof (induction ws arbitrary: wi)
  case (Cons w ws)
  let ?f = "\<lambda>i. bit ((w # ws) ! (i div 64 - wi)) (i mod 64)"
  have split: "[wi * 64..<(wi + length (w # ws)) * 64] = [wi * 64..<wi * 64 + 64] @ [Suc wi * 64..<(Suc wi + length ws) * 64]"
    using upt_add_eq_append [of "wi * 64" "wi * 64 + 64" "length ws * 64"] by (simp add: algebra_simps)
  have "filter ?f [wi * 64..<wi * 64 + 64] = word_rows wi w"
    unfolding upt_shift filter_map word_rows_def bits_of_def
    by (intro arg_cong [where f = "map _"] filter_cong) simp_all
  moreover have "filter ?f [Suc wi * 64..<(Suc wi + length ws) * 64] = rows_from (Suc wi) ws"
    unfolding Cons.IH
  proof (rule filter_cong [OF refl])
    fix i assume "i \<in> set [Suc wi * 64..<(Suc wi + length ws) * 64]"
    then have "Suc wi \<le> i div 64" by (simp add: less_eq_div_iff_mult_less_eq)
    then have "i div 64 - wi = Suc (i div 64 - Suc wi)" by simp
    then show "?f i = bit (ws ! (i div 64 - Suc wi)) (i mod 64)" by simp
  qed
  ultimately show ?case unfolding split filter_append by simp
qed simp

lemma rows_of_words: "rows_of b = rows_from 0 (words b)"
  unfolding rows_from_filter rows_of_def
  by (rule filter_cong) (auto simp: bit_at_def mult.commute)

lemma each_bit_rows: "each_bit wi w = word_rows wi w"
proof (induction wi w rule: each_bit.induct)
  case (1 wi w)
  show ?case
  proof (cases "w = 0")
    case False
    then show ?thesis using 1 by (simp add: each_bit.simps [of wi w] word_rows_def clear_lowest bits_of_lowest [of w])
  qed (simp add: each_bit.simps [of wi 0] word_rows_def)
qed

lemma each_word_rows: "each_word wi ws = rows_from wi ws"
  by (induction ws arbitrary: wi) (simp_all add: each_bit_rows)

lemma ForEach_rows: "ForEach b = rows_of b"
  by (simp add: ForEach_def each_word_rows rows_of_words)

lemma length_word_rows [simp]: "length (word_rows wi w) = OnesCount64 w"
  by (simp add: word_rows_def OnesCount64_def)

lemma Count_rows: "Count b = length (rows_of b)"
proof -
  have "foldl (\<lambda>total w. total + OnesCount64 w) n ws = n + length (rows_from wi ws)" for n wi ws
  proof (induction ws arbitrary: n wi)
    case (Cons w ws)
    show ?case using Cons [of "n + OnesCount64 w" "Suc wi"] by simp
  qed simp
  from this [of 0 "words b" 0] show ?thesis by (simp add: Count_def rows_of_words)
qed

section \<open>Keeping the first and the last rows\<close>

lemma filter_take_filter:
  assumes "distinct us"
  shows "filter (\<lambda>i. i \<in> set (take m (filter P us))) us = take m (filter P us)"
    and "filter (\<lambda>i. i \<in> set (drop m (filter P us))) us = drop m (filter P us)"
proof -
  have sub: "filter (\<lambda>i. i \<in> A) us = filter (\<lambda>i. i \<in> A) (filter P us)" if "A \<subseteq> set (filter P us)" for A
    using that by (auto intro: filter_cong)
  have d: "distinct (filter P us)" using assms by simp
  have cut: "filter (\<lambda>i. i \<in> set (take m xs)) xs = take m xs \<and> filter (\<lambda>i. i \<in> set (drop m xs)) xs = drop m xs"
    if "distinct xs" for xs :: "'a list"
  proof -
    have dis: "set (take m xs) \<inter> set (drop m xs) = {}" using that by (simp add: set_take_disj_set_drop_if_distinct)
    have "filter Q xs = filter Q (take m xs) @ filter Q (drop m xs)" for Q
      by (metis append_take_drop_id filter_append)
    then show ?thesis using dis by (auto simp: filter_id_conv filter_empty_conv)
  qed
  show "filter (\<lambda>i. i \<in> set (take m (filter P us))) us = take m (filter P us)"
    using sub [of "set (take m (filter P us))"] cut [OF d] set_take_subset [of m "filter P us"] by simp
  show "filter (\<lambda>i. i \<in> set (drop m (filter P us))) us = drop m (filter P us)"
    using sub [of "set (drop m (filter P us))"] cut [OF d] set_drop_subset [of m "filter P us"] by simp
qed

lemma keep_lowest_bits:
  "m \<le> length (bits_of w) \<Longrightarrow> bit (keep_lowest m w keep) i \<longleftrightarrow> bit keep i \<or> i \<in> set (take m (bits_of w))"
proof (induction m arbitrary: w keep)
  case (Suc m)
  then have w: "w \<noteq> 0" by auto
  let ?k = "TrailingZeros64 w"
  have b: "bits_of w = ?k # bits_of (unset_bit ?k w)" by (rule bits_of_lowest [OF w])
  have "keep_lowest (Suc m) w keep = keep_lowest m (unset_bit ?k w) (keep OR push_bit ?k 1)"
    using clear_lowest [OF w] by (simp add: Let_def)
  moreover have "m \<le> length (bits_of (unset_bit ?k w))" using Suc.prems b by (metis Suc_le_mono length_Cons)
  ultimately show ?case
    using Suc.IH [of "unset_bit ?k w" "keep OR push_bit ?k 1"] trailing_zeros(1) [OF w]
    by (subst b) (auto simp: bit_or_iff bit_exp_iff)
qed simp

lemma keep_highest_bits:
  "m \<le> length (bits_of w) \<Longrightarrow> bit (keep_highest m w keep) i \<longleftrightarrow> bit keep i \<or> i \<in> set (drop (length (bits_of w) - m) (bits_of w))"
proof (induction m arbitrary: w keep)
  case (Suc m)
  then have w: "w \<noteq> 0" by auto
  let ?h = "63 - LeadingZeros64 w"
  define v where "v = w AND NOT (push_bit ?h 1)"
  have b: "bits_of w = bits_of v @ [?h]" by (rule bits_of_highest [OF w v_def])
  have "keep_highest (Suc m) w keep = keep_highest m v (keep OR push_bit ?h 1)"
    by (simp add: Let_def v_def)
  moreover have "m \<le> length (bits_of v)" using Suc.prems b by simp
  ultimately show ?case
    using Suc.IH [of v "keep OR push_bit ?h 1"] by (simp add: b) (auto simp: bit_or_iff bit_exp_iff)
qed simp

lemma bits_of_keep:
  assumes "m \<le> length (bits_of w)"
  shows "bits_of (keep_lowest m w 0) = take m (bits_of w)"
    "bits_of (keep_highest m w 0) = drop (length (bits_of w) - m) (bits_of w)"
proof -
  have "bit (keep_lowest m w 0) = (\<lambda>i. i \<in> set (take m (bits_of w)))"
    "bit (keep_highest m w 0) = (\<lambda>i. i \<in> set (drop (length (bits_of w) - m) (bits_of w)))"
    using keep_lowest_bits [OF assms, of 0] keep_highest_bits [OF assms, of 0] by (simp_all add: fun_eq_iff)
  then show "bits_of (keep_lowest m w 0) = take m (bits_of w)"
    "bits_of (keep_highest m w 0) = drop (length (bits_of w) - m) (bits_of w)"
    unfolding bits_of_def by (simp_all add: filter_take_filter)
qed

lemma rows_from_replicate [simp]: "rows_from wi (replicate k 0) = []"
  by (induction k arbitrary: wi) (simp_all add: word_rows_def)

lemma rows_from_zeros [simp]: "rows_from wi (map (\<lambda>_. 0) ws) = []"
  by (induction ws arbitrary: wi) (simp_all add: word_rows_def)

lemma rows_from_append: "rows_from wi (us @ ws) = rows_from wi us @ rows_from (wi + length us) ws"
  by (induction us arbitrary: wi) simp_all

lemma keep_words_lowest:
  "seen \<le> n \<Longrightarrow> rows_from wi (keep_words keep_lowest n seen ws) = take (n - seen) (rows_from wi ws)"
proof (induction ws arbitrary: wi seen)
  case (Cons w ws)
  show ?case
  proof (cases "w = 0")
    case True
    then show ?thesis using Cons by (simp add: word_rows_def)
  next
    case False
    show ?thesis
    proof (cases "seen + OnesCount64 w \<le> n")
      case True
      then show ?thesis using False Cons.IH [of "seen + OnesCount64 w" "Suc wi"] by (simp add: Let_def)
    next
      case le: False
      then have "n - seen \<le> length (bits_of w)" by (simp add: OnesCount64_def)
      then show ?thesis using False le by (simp add: Let_def word_rows_def bits_of_keep take_map OnesCount64_def)
    qed
  qed
qed simp

lemma keep_words_length: "length (keep_words keep n seen ws) = length ws"
  by (induction ws arbitrary: seen) (simp_all add: Let_def)

lemma keep_words_highest:
  "seen \<le> n \<Longrightarrow> rows_from wi (rev (keep_words keep_highest n seen (rev ws)))
     = drop (length (rows_from wi ws) - (n - seen)) (rows_from wi ws)"
proof (induction ws arbitrary: seen rule: rev_induct)
  case (snoc w ws)
  note app = rows_from_append keep_words_length
  show ?case
  proof (cases "w = 0")
    case True
    then show ?thesis using snoc by (simp add: app word_rows_def)
  next
    case False
    show ?thesis
    proof (cases "seen + OnesCount64 w \<le> n")
      case True
      then have "length (rows_from wi (ws @ [w])) - (n - seen) = length (rows_from wi ws) - (n - (seen + OnesCount64 w))"
        by (simp add: app)
      then show ?thesis using True False snoc.IH [of "seen + OnesCount64 w"] by (simp add: Let_def app)
    next
      case le: False
      then have "n - seen \<le> length (bits_of w)" by (simp add: OnesCount64_def)
      then show ?thesis using False le by (simp add: Let_def app word_rows_def bits_of_keep drop_map OnesCount64_def)
    qed
  qed
qed simp

lemma KeepFirst_rows: "rows_of (KeepFirst b n) = take (nat n) (rows_of b)"
  by (simp add: rows_of_words KeepFirst_def keep_words_lowest)

lemma KeepLast_rows: "rows_of (KeepLast b n) = drop (length (rows_of b) - nat n) (rows_of b)"
  by (simp add: rows_of_words KeepLast_def keep_words_highest)

lemma bitset_ok_rows: "bitset_ok n b \<longleftrightarrow> bn b = n \<and> length (words b) = (n + 63) div 64 \<and> (\<forall>i \<in> set (rows_of b). i < n)"
  by (simp add: bitset_ok_def)

lemma Keep_ok: "bitset_ok n b \<Longrightarrow> bitset_ok n (KeepFirst b k)" "bitset_ok n b \<Longrightarrow> bitset_ok n (KeepLast b k)"
  unfolding bitset_ok_rows KeepFirst_rows KeepLast_rows
  by (auto simp: KeepFirst_def KeepLast_def keep_words_length simp del: set_rows_of dest: in_set_takeD in_set_dropD)

lemma first_last_rows:
  "first_last wi ws (f, l) = (if rows_from wi ws = [] then (f, l)
     else (if f < 0 then int (hd (rows_from wi ws)) else f, int (last (rows_from wi ws))))"
proof (induction ws arbitrary: wi f l)
  case (Cons w ws)
  show ?case
  proof (cases "w = 0")
    case True
    then show ?thesis using Cons by (simp add: word_rows_def)
  next
    case False
    have "hd (word_rows wi w) = wi * 64 + TrailingZeros64 w" "word_rows wi w \<noteq> []"
      using bits_of_lowest [OF False] by (simp_all add: word_rows_def)
    moreover have "last (word_rows wi w) = wi * 64 + (63 - LeadingZeros64 w)"
      using bits_of_highest [OF False refl] by (simp add: word_rows_def)
    ultimately show ?thesis
      using False Cons [of "Suc wi"] leading_zeros(1) [OF False] by (auto simp: hd_append)
  qed
qed simp

lemma FirstLast_rows:
  "FirstLast b = (if rows_of b = [] then (-1, -1) else (int (hd (rows_of b)), int (last (rows_of b))))"
  by (simp add: FirstLast_def first_last_rows rows_of_words)

section \<open>Set algebra through the byte view\<close>

lemma length_view [simp]: "length (view S w) = 8"
  by (simp add: view_def)

lemma unview_view [simp]: "unview S (view S w) = w"
  using le64_putU64 [of w "[]"] by (simp add: view_def unview_def)

lemma length_bytes_view [simp]: "length (bytes_view S b) = 8 * length (words b)"
  using length_concat_uniform [of "map (view S) (words b)" 8] by (simp add: bytes_view_def mult.commute)

lemma chunk_bytes_view: "k < length (words b) \<Longrightarrow> take 8 (drop (8 * k) (bytes_view S b)) = view S (words b ! k)"
  using take_drop_concat_uniform [of "map (view S) (words b)" 8 k] by (simp add: bytes_view_def mult.commute)

lemma unview_bytewise:
  assumes "\<And>a b. map2 f (putU64 a) (putU64 b) = putU64 (g a b)"
  shows "unview S (map2 f (view S a) (view S b)) = g a b"
  using assms [of a b] le64_putU64 [of "g a b" "[]"]
  by (cases "bigEndian S") (simp_all add: unview_def view_def zip_rev rev_map flip: zip_rev)

lemma write_bytewise:
  assumes f: "\<And>a b. map2 f (putU64 a) (putU64 b) = putU64 (g a b)" and len: "length (words b) = length (words p)"
  shows "words (write_view S b (map2 f (bytes_view S b) (bytes_view S p))) = map2 g (words b) (words p)"
proof (rule nth_equalityI)
  fix k assume "k < length (words (write_view S b (map2 f (bytes_view S b) (bytes_view S p))))"
  then have k: "k < length (words b)" by (simp add: write_view_def)
  then have "take 8 (drop (8 * k) (map2 f (bytes_view S b) (bytes_view S p))) = map2 f (view S (words b ! k)) (view S (words p ! k))"
    using len by (simp add: take_map drop_map take_zip drop_zip chunk_bytes_view)
  then show "words (write_view S b (map2 f (bytes_view S b) (bytes_view S p))) ! k = map2 g (words b) (words p) ! k"
    using k len unview_bytewise [of f g S, OF f] by (simp add: write_view_def)
qed (simp add: write_view_def len)

lemma bytewise_ops:
  "map2 (AND) (putU64 a) (putU64 b) = putU64 (a AND b)"
  "map2 (OR) (putU64 a) (putU64 b) = putU64 (a OR b)"
  "map2 (\<lambda>x y. x AND NOT y) (putU64 a) (putU64 b) = putU64 (a AND NOT b)"
  by (auto simp: putU64_def intro!: bit_word_eqI simp: bit_simps)

lemma ops_words:
  assumes "simd_ok S" and "bitset_ok n b" and "bitset_ok n p"
  shows "words (And S b p) = map2 (AND) (words b) (words p)" "words (Or S b p) = map2 (OR) (words b) (words p)"
    "words (AndNot S b p) = map2 (\<lambda>x y. x AND NOT y) (words b) (words p)"
    "bn (And S b p) = n" "bn (Or S b p) = n" "bn (AndNot S b p) = n"
proof -
  have len: "length (words b) = length (words p)" and n: "bn b = n" using assms(2,3) by (simp_all add: bitset_ok_def)
  then have "length (bytes_view S b) = length (bytes_view S p)" by simp
  then have k: "kAnd S (bytes_view S b) (bytes_view S p) = map2 (AND) (bytes_view S b) (bytes_view S p)"
    "kOr S (bytes_view S b) (bytes_view S p) = map2 (OR) (bytes_view S b) (bytes_view S p)"
    "kAndNot S (bytes_view S b) (bytes_view S p) = map2 (\<lambda>x y. x AND NOT y) (bytes_view S b) (bytes_view S p)"
    using assms(1) by (simp_all add: simd_ok_def)
  show "words (And S b p) = map2 (AND) (words b) (words p)" "words (Or S b p) = map2 (OR) (words b) (words p)"
    "words (AndNot S b p) = map2 (\<lambda>x y. x AND NOT y) (words b) (words p)"
    unfolding And_def Or_def AndNot_def k by (rule write_bytewise [OF _ len], rule bytewise_ops)+
  show "bn (And S b p) = n" "bn (Or S b p) = n" "bn (AndNot S b p) = n"
    by (simp_all add: And_def Or_def AndNot_def write_view_def n)
qed

lemma map2_ok:
  assumes b: "bitset_ok n b" and p: "bitset_ok n p" and w: "words c = map2 f (words b) (words p)" and n: "bn c = n"
    and f: "\<And>x y j. j < 64 \<Longrightarrow> bit (f x y) j \<longleftrightarrow> F (bit x j) (bit y j)" and F: "\<not> F False False"
  shows "bitset_ok n c" "bit_at c i \<longleftrightarrow> F (bit_at b i) (bit_at p i)"
proof -
  have len: "length (words b) = length (words p)" "length (words c) = length (words b)"
    using b p w by (simp_all add: bitset_ok_def)
  show *: "bit_at c i \<longleftrightarrow> F (bit_at b i) (bit_at p i)" for i
  proof (cases "i < 64 * length (words b)")
    case True
    then have "i div 64 < length (words b)" by (simp add: less_mult_imp_div_less mult.commute)
    then show ?thesis using True len f [of "i mod 64"] by (simp add: bit_at_def w)
  next
    case False
    then show ?thesis using len F by (simp add: bit_at_def)
  qed
  have "bit_at c i \<longrightarrow> i < n" for i
    using b p F unfolding * by (cases "bit_at b i"; cases "bit_at p i") (auto simp: bitset_ok_def)
  then show "bitset_ok n c" using b n len by (simp add: bitset_ok_def)
qed

lemma And_ok:
  assumes "simd_ok S" "bitset_ok n b" "bitset_ok n p"
  shows "bitset_ok n (And S b p)" "bit_at (And S b p) i \<longleftrightarrow> bit_at b i \<and> bit_at p i"
  using map2_ok [OF assms(2,3) ops_words(1,4) [OF assms], of "(\<and>)"] by (simp_all add: bit_and_iff)

lemma Or_ok:
  assumes "simd_ok S" "bitset_ok n b" "bitset_ok n p"
  shows "bitset_ok n (Or S b p)" "bit_at (Or S b p) i \<longleftrightarrow> bit_at b i \<or> bit_at p i"
  using map2_ok [OF assms(2,3) ops_words(2,5) [OF assms], of "(\<or>)"] by (simp_all add: bit_or_iff)

lemma AndNot_ok:
  assumes "simd_ok S" "bitset_ok n b" "bitset_ok n p"
  shows "bitset_ok n (AndNot S b p)" "bit_at (AndNot S b p) i \<longleftrightarrow> bit_at b i \<and> \<not> bit_at p i"
  using map2_ok [OF assms(2,3) ops_words(3,6) [OF assms], of "\<lambda>x y. x \<and> \<not> y"]
  by (simp_all add: bit_and_iff bit_not_iff)

section \<open>Packing a mask\<close>

lemma bit_mask_byte: "bit (mask_byte src v k) j \<longleftrightarrow> j < 8 \<and> 8 * k + j < length src \<and> src ! (8 * k + j) = v"
proof -
  let ?c = "\<lambda>j. 8 * k + j < length src \<and> src ! (8 * k + j) = v"
  have "bit (foldl (\<lambda>acc j. if ?c j then acc OR push_bit j 1 else acc) a xs :: byte) j
     \<longleftrightarrow> bit a j \<or> j < 8 \<and> j \<in> set xs \<and> ?c j" for a xs
    by (induction xs arbitrary: a) (auto simp: bit_or_iff bit_exp_iff)
  then show ?thesis by (auto simp: mask_byte_def)
qed

lemma bit_le64: "length bs = 8 \<Longrightarrow> bit (the (le64 bs)) j \<longleftrightarrow> j < 64 \<and> bit (bs ! (j div 8)) (j mod 8)"
proof (cases bs rule: le64.cases)
  case (1 b0 b1 b2 b3 b4 b5 b6 b7 r)
  have sm: "\<not> bit (x :: byte) n" if "8 \<le> n" for x n using that bit_imp_le_length [of x n] by auto
  define q t where "q = j div 8" and "t = j mod 8"
  have j: "j = 8 * q + t" "t < 8" by (simp_all add: q_def t_def)
  show ?thesis
  proof (cases "j < 64")
    case True
    then have "q < 8" using j by linarith
    then consider "q = 0" | "q = 1" | "q = 2" | "q = 3" | "q = 4" | "q = 5" | "q = 6" | "q = 7" by linarith
    then show ?thesis
      unfolding q_def [symmetric] t_def [symmetric]
      by cases (use 1 j in \<open>simp_all add: bit_or_iff bit_push_bit_iff bit_ucast_iff sm\<close>)
  next
    case False
    then show ?thesis by (auto dest: bit_imp_le_length)
  qed
qed auto

lemma putU64_le64: "length bs = 8 \<Longrightarrow> putU64 (the (le64 bs)) = bs"
proof (rule nth_equalityI)
  fix k assume a: "length bs = 8" "k < length (putU64 (the (le64 bs)))"
  then have "k < 8" by simp
  then consider "k = 0" | "k = 1" | "k = 2" | "k = 3" | "k = 4" | "k = 5" | "k = 6" | "k = 7" by linarith
  then have "putU64 v ! k = ucast (drop_bit (8 * k) v)" for v
    by cases (simp_all add: putU64_def)
  then show "putU64 (the (le64 bs)) ! k = bs ! k"
    using \<open>k < 8\<close> bit_le64 [OF a(1)] by (intro bit_word_eqI) (simp add: bit_ucast_iff bit_drop_bit_eq)
qed simp

lemma concat_replicate_uniform: "concat (replicate k (replicate w x)) = replicate (w * k) x"
  by (induction k) (simp_all add: replicate_add)

lemma packBools_ok:
  assumes S: "simd_ok S" and len: "length bools \<le> n"
  obtains b' where "packBools S (NewBitset n) bools = Some b'" "bitset_ok n b'"
    "\<And>i. bit_at b' i \<longleftrightarrow> i < length bools \<and> bools ! i"
proof (cases "bools = []")
  case True
  then show thesis using that [of "NewBitset n"] by (simp add: packBools_def)
next
  case False
  let ?b = "NewBitset n" and ?src = "boolsAsBytes bools" and ?m = "(length bools + 7) div 8" and ?L = "(n + 63) div 64"
  let ?bb = "take ((n + 7) div 8) (bytes_view S ?b)"
  define BS where "BS = kMaskBits S ?bb ?src 1 @ drop (length ?bb) (bytes_view S ?b)"
  have L: "length (words ?b) = ?L" by (simp add: NewBitset_def)
  have n8: "(n + 7) div 8 \<le> 8 * ?L" by linarith
  have bb: "bytesForPack S ?b = Some ?bb" "length ?bb = (n + 7) div 8"
    using n8 by (simp_all add: bytesForPack_def gslice_def L) (simp add: NewBitset_def)
  have m: "?m \<le> (n + 7) div 8" using len by (intro div_le_mono) simp
  have "view S 0 = replicate 8 0" by (simp add: view_def putU64_def eval_nat_numeral)
  then have zero: "bytes_view S ?b = replicate (8 * ?L) 0"
    by (simp add: bytes_view_def NewBitset_def concat_replicate_uniform)
  have "length ?src = length bools" by (simp add: boolsAsBytes_def)
  then have ks: "kMaskBits S ?bb ?src 1 = map (mask_byte ?src 1) [0..<?m] @ drop ?m ?bb"
    using S m bb(2) by (simp add: simd_ok_def)
  have BSx: "BS = map (mask_byte ?src 1) [0..<?m] @ replicate (8 * ?L - ?m) 0"
    unfolding BS_def ks using m n8 by (simp add: zero replicate_add [symmetric])
  have BS: "BS ! k = mask_byte ?src 1 k" if "k < 8 * ?L" for k
  proof (cases "k < ?m")
    case True
    then show ?thesis by (simp add: BSx nth_append)
  next
    case False
    then have "length bools \<le> 8 * k" by linarith
    then have "mask_byte ?src 1 k = 0" by (intro bit_word_eqI) (simp add: bit_mask_byte boolsAsBytes_def)
    then show ?thesis using False that by (simp add: BSx nth_append)
  qed
  have lBS: "length BS = 8 * ?L" using m n8 by (simp add: BSx)
  let ?c = "write_view S ?b BS"
  define b' where "b' = (if bigEndian S then ?c\<lparr>words := map ReverseBytes64 (words ?c)\<rparr> else ?c)"
  have w: "words b' ! k = the (le64 (take 8 (drop (8 * k) BS)))" if "k < ?L" for k
  proof -
    have "length (rev (take 8 (drop (8 * k) BS))) = 8" using that lBS by simp
    from putU64_le64 [OF this] show ?thesis
      using that by (simp add: b'_def write_view_def L unview_def ReverseBytes64_def)
  qed
  have lw: "length (words b') = ?L" "bn b' = n" by (simp_all add: b'_def write_view_def L) (simp add: NewBitset_def)
  have at: "bit_at b' i \<longleftrightarrow> i < length bools \<and> bools ! i" for i
  proof (cases "i < 64 * ?L")
    case True
    define k j where "k = i div 64" and "j = i mod 64"
    have kj: "i = 64 * k + j" "j < 64" "k < ?L" using True by (simp_all add: k_def j_def less_mult_imp_div_less mult.commute)
    have "bit (words b' ! k) j \<longleftrightarrow> bit (BS ! (8 * k + j div 8)) (j mod 8)"
      using kj lBS by (simp add: w bit_le64)
    also have "8 * k + j div 8 < 8 * ?L" using kj by linarith
    then have "bit (BS ! (8 * k + j div 8)) (j mod 8) \<longleftrightarrow> i < length bools \<and> boolsAsBytes bools ! i = 1"
      using kj by (simp add: BS bit_mask_byte boolsAsBytes_def add.assoc)
    finally show ?thesis using True lw by (auto simp: bit_at_def k_def j_def boolsAsBytes_def split: if_splits)
  next
    case False
    then show ?thesis using lw len by (auto simp: bit_at_def)
  qed
  moreover have "bitset_ok n b'" using lw len by (auto simp: bitset_ok_def at)
  moreover have "packBools S ?b bools = Some b'" using False bb by (simp add: packBools_def b'_def BS_def Let_def)
  ultimately show thesis using that by blast
qed

lemma eqMaskInto_ok:
  assumes "simd_ok S" "length idx \<le> n"
  obtains b' where "eqMaskInto S (NewBitset n) idx want = Some b'" "bitset_ok n b'"
    "\<And>i. bit_at b' i \<longleftrightarrow> i < length idx \<and> idx ! i = want"
proof (cases "idx = []")
  case True
  then show thesis using that [of "NewBitset n"] by (simp add: eqMaskInto_def)
next
  case False
  have k: "kEqualScalar S idx want = map (\<lambda>x. x = want) idx" using assms(1) by (simp add: simd_ok_def)
  show thesis
  proof (rule packBools_ok [OF assms(1), of "map (\<lambda>x. x = want) idx" n])
    fix b' assume b': "packBools S (NewBitset n) (map (\<lambda>x. x = want) idx) = Some b'" "bitset_ok n b'"
      "\<And>i. bit_at b' i \<longleftrightarrow> i < length (map (\<lambda>x. x = want) idx) \<and> map (\<lambda>x. x = want) idx ! i"
    show thesis
    proof (rule that)
      show "eqMaskInto S (NewBitset n) idx want = Some b'" using b'(1) False by (simp add: eqMaskInto_def k)
      show "bit_at b' i \<longleftrightarrow> i < length idx \<and> idx ! i = want" for i using b'(3) [of i] by auto
    qed (rule b'(2))
  qed (simp add: assms(2))
qed

section \<open>The interface the filter evaluator relies on\<close>

text \<open>A loop that threads a state through a list and stops at the first panic.\<close>

fun fold_opt :: "('a \<Rightarrow> 's \<Rightarrow> 's option) \<Rightarrow> 'a list \<Rightarrow> 's \<Rightarrow> 's option" where
  "fold_opt f [] s = Some s"
| "fold_opt f (x # xs) s = do { s' \<leftarrow> f x s; fold_opt f xs s' }"

lemma fold_opt_cong [fundef_cong]:
  "xs = ys \<Longrightarrow> s = t \<Longrightarrow> (\<And>x u. x \<in> set ys \<Longrightarrow> f x u = g x u) \<Longrightarrow> fold_opt f xs s = fold_opt g ys t"
  by (induction xs arbitrary: ys s t) (auto intro!: Option.bind_cong)

lemma fold_opt_inv:
  assumes "P s" and "\<And>x s. x \<in> set xs \<Longrightarrow> P s \<Longrightarrow> \<exists>s'. f x s = Some s' \<and> P s'"
  shows "\<exists>s'. fold_opt f xs s = Some s' \<and> P s'"
  using assms
proof (induction xs arbitrary: s)
  case (Cons x xs)
  then obtain s1 where "f x s = Some s1" "P s1" by (meson list.set_intros(1))
  moreover from Cons.IH [OF this(2)] Cons.prems(2) obtain s2 where "fold_opt f xs s1 = Some s2" "P s2" by (meson list.set_intros(2))
  ultimately show ?case by simp
qed simp

text \<open>
  The laws of a row set of a group of \<open>n\<close> rows.  \<open>conj_step\<close> is the body of the conjunction loops of the
  evaluator: evaluate an operand, which may change a state \<open>s\<close>, and intersect it into the accumulator.
\<close>

definition combine :: "('b \<Rightarrow> 'b \<Rightarrow> 'b) \<Rightarrow> ('k \<Rightarrow> 's \<Rightarrow> ('b \<times> 's) option) \<Rightarrow> 'k \<Rightarrow> 'b \<times> 's \<Rightarrow> ('b \<times> 's) option" where
  "combine op ev k acc = do { (c, s') \<leftarrow> ev k (snd acc); Some (op (fst acc) c, s') }"

lemma combine_Some: "ev k s = Some (c, s') \<Longrightarrow> combine op ev k (b, s) = Some (op b c, s')"
  by (simp add: combine_def)

locale row_set =
  fixes ok :: "nat \<Rightarrow> 'b \<Rightarrow> bool" and mem :: "'b \<Rightarrow> nat \<Rightarrow> bool"
    and new :: "nat \<Rightarrow> 'b" and full :: "'b \<Rightarrow> 'b option" and add :: "'b \<Rightarrow> nat \<Rightarrow> 'b option"
    and inter :: "'b \<Rightarrow> 'b \<Rightarrow> 'b" and union :: "'b \<Rightarrow> 'b \<Rightarrow> 'b" and minus_set :: "'b \<Rightarrow> 'b \<Rightarrow> 'b"
  assumes new_ok: "ok n (new n)" and new_mem: "\<not> mem (new n) i"
    and full_ok: "ok n b \<Longrightarrow> \<exists>b'. full b = Some b' \<and> ok n b' \<and> (\<forall>i. mem b' i \<longleftrightarrow> i < n)"
    and add_ok: "ok n b \<Longrightarrow> r < n \<Longrightarrow> \<exists>b'. add b r = Some b' \<and> ok n b' \<and> (\<forall>i. mem b' i \<longleftrightarrow> i = r \<or> mem b i)"
    and inter_ok: "ok n b \<Longrightarrow> ok n c \<Longrightarrow> ok n (inter b c)" and inter_mem: "ok n b \<Longrightarrow> ok n c \<Longrightarrow> mem (inter b c) i \<longleftrightarrow> mem b i \<and> mem c i"
    and union_ok: "ok n b \<Longrightarrow> ok n c \<Longrightarrow> ok n (union b c)" and union_mem: "ok n b \<Longrightarrow> ok n c \<Longrightarrow> mem (union b c) i \<longleftrightarrow> mem b i \<or> mem c i"
    and minus_ok: "ok n b \<Longrightarrow> ok n c \<Longrightarrow> ok n (minus_set b c)" and minus_mem: "ok n b \<Longrightarrow> ok n c \<Longrightarrow> mem (minus_set b c) i \<longleftrightarrow> mem b i \<and> \<not> mem c i"
    and mem_bound: "ok n b \<Longrightarrow> mem b i \<Longrightarrow> i < n"
begin

lemma all_rows: "\<exists>b. full (new n) = Some b \<and> ok n b \<and> (\<forall>i. mem b i \<longleftrightarrow> i < n)"
  by (rule full_ok [OF new_ok])

lemma add_rows:
  assumes "ok n b" and "\<forall>r \<in> set rs. f r < n"
  shows "\<exists>b'. fold_opt (\<lambda>r b. add b (f r)) rs b = Some b' \<and> ok n b' \<and> (\<forall>i. mem b' i \<longleftrightarrow> i \<in> f ` set rs \<or> mem b i)"
  using assms
proof (induction rs arbitrary: b)
  case (Cons r rs)
  then obtain b1 where b1: "add b (f r) = Some b1" "ok n b1" "\<forall>i. mem b1 i \<longleftrightarrow> i = f r \<or> mem b i"
    using add_ok by (metis list.set_intros(1))
  with Cons obtain b2 where "fold_opt (\<lambda>r b. add b (f r)) rs b1 = Some b2" "ok n b2" "\<forall>i. mem b2 i \<longleftrightarrow> i \<in> f ` set rs \<or> mem b1 i"
    by (metis list.set_intros(2))
  then show ?case using b1 by auto
qed simp

text \<open>The two loops, for operands whose evaluation keeps an invariant \<open>I\<close> of the threaded state.\<close>

lemma conj_loop:
  assumes "\<And>k s. k \<in> set ks \<Longrightarrow> I s \<Longrightarrow> \<exists>c s'. ev k s = Some (c, s') \<and> I s' \<and> ok n c \<and> (\<forall>i < n. mem c i \<longleftrightarrow> P k i)"
    and "ok n b" and "I s"
  shows "\<exists>b' s'. fold_opt (combine inter ev) ks (b, s) = Some (b', s') \<and> I s' \<and> ok n b'
    \<and> (\<forall>i < n. mem b' i \<longleftrightarrow> mem b i \<and> (\<forall>k \<in> set ks. P k i))"
  using assms
proof (induction ks arbitrary: b s)
  case (Cons k ks)
  obtain c s1 where c: "ev k s = Some (c, s1)" "I s1" "ok n c" "\<forall>i < n. mem c i \<longleftrightarrow> P k i"
    using Cons.prems(1) [of k s] Cons.prems(3) by auto
  obtain b' s' where "fold_opt (combine inter ev) ks (inter b c, s1) = Some (b', s')" "I s'" "ok n b'"
    "\<forall>i < n. mem b' i \<longleftrightarrow> mem (inter b c) i \<and> (\<forall>k \<in> set ks. P k i)"
    using Cons.IH [OF Cons.prems(1) inter_ok [OF Cons.prems(2) c(3)] c(2)] by auto
  then show ?case using c inter_mem [OF Cons.prems(2) c(3)] by (auto simp: combine_Some)
qed auto

lemma disj_loop:
  assumes "\<And>k s. k \<in> set ks \<Longrightarrow> I s \<Longrightarrow> \<exists>c s'. ev k s = Some (c, s') \<and> I s' \<and> ok n c \<and> (\<forall>i < n. mem c i \<longleftrightarrow> P k i)"
    and "ok n b" and "I s"
  shows "\<exists>b' s'. fold_opt (combine union ev) ks (b, s) = Some (b', s') \<and> I s' \<and> ok n b'
    \<and> (\<forall>i < n. mem b' i \<longleftrightarrow> mem b i \<or> (\<exists>k \<in> set ks. P k i))"
  using assms
proof (induction ks arbitrary: b s)
  case (Cons k ks)
  obtain c s1 where c: "ev k s = Some (c, s1)" "I s1" "ok n c" "\<forall>i < n. mem c i \<longleftrightarrow> P k i"
    using Cons.prems(1) [of k s] Cons.prems(3) by auto
  obtain b' s' where "fold_opt (combine union ev) ks (union b c, s1) = Some (b', s')" "I s'" "ok n b'"
    "\<forall>i < n. mem b' i \<longleftrightarrow> mem (union b c) i \<or> (\<exists>k \<in> set ks. P k i)"
    using Cons.IH [OF Cons.prems(1) union_ok [OF Cons.prems(2) c(3)] c(2)] by auto
  then show ?case using c union_mem [OF Cons.prems(2) c(3)] by (auto simp: combine_Some)
qed auto

end

text \<open>A host whose vector kernels keep their contract gives row sets by its bitsets.\<close>

locale simd_host =
  fixes S :: simd_kernels
  assumes host_ok: "simd_ok S"
begin

lemma packs_mask: "length bools \<le> n \<Longrightarrow> \<exists>b. packBools S (NewBitset n) bools = Some b \<and> bitset_ok n b
    \<and> (\<forall>i. bit_at b i \<longleftrightarrow> i < length bools \<and> bools ! i)"
  using packBools_ok [OF host_ok] by metis

lemma masks_equal: "length idx \<le> n \<Longrightarrow> \<exists>b. eqMaskInto S (NewBitset n) idx want = Some b \<and> bitset_ok n b
    \<and> (\<forall>i. bit_at b i \<longleftrightarrow> i < length idx \<and> idx ! i = want)"
  using eqMaskInto_ok [OF host_ok] by metis

end

sublocale simd_host \<subseteq> row_set bitset_ok bit_at NewBitset SetAll SetBit "And S" "Or S" "AndNot S"
proof
  show "\<exists>b'. SetAll b = Some b' \<and> bitset_ok n b' \<and> (\<forall>i. bit_at b' i \<longleftrightarrow> i < n)" if "bitset_ok n b" for n b
    using SetAll_ok [OF that] by metis
  show "\<exists>b'. SetBit b r = Some b' \<and> bitset_ok n b' \<and> (\<forall>i. bit_at b' i \<longleftrightarrow> i = r \<or> bit_at b i)" if "bitset_ok n b" "r < n" for n b r
    using SetBit_ok [OF that] by metis
  fix n i b c
  show "bitset_ok n (NewBitset n)" "\<not> bit_at (NewBitset n) i" by (rule NewBitset_ok)+
  show "bitset_ok n b \<Longrightarrow> bit_at b i \<Longrightarrow> i < n" by (simp add: bitset_ok_def)
  assume bc: "bitset_ok n b" "bitset_ok n c"
  show "bitset_ok n (And S b c)" "bit_at (And S b c) i \<longleftrightarrow> bit_at b i \<and> bit_at c i" by (rule And_ok [OF host_ok bc])+
  show "bitset_ok n (Or S b c)" "bit_at (Or S b c) i \<longleftrightarrow> bit_at b i \<or> bit_at c i" by (rule Or_ok [OF host_ok bc])+
  show "bitset_ok n (AndNot S b c)" "bit_at (AndNot S b c) i \<longleftrightarrow> bit_at b i \<and> \<not> bit_at c i" by (rule AndNot_ok [OF host_ok bc])+
qed

context simd_host
begin

lemmas set_every = full_ok and set_one = add_ok and every_row = all_rows and set_rows = add_rows
lemmas and_rows = inter_ok inter_mem and or_rows = union_ok union_mem and andnot_rows = minus_ok minus_mem
lemmas and_loop = conj_loop and or_loop = disj_loop

end

text \<open>Scalar kernels with the contract, on a little-endian host.\<close>

definition ref_simd :: simd_kernels where
  "ref_simd = \<lparr>kAnd = map2 (AND), kOr = map2 (OR), kAndNot = map2 (\<lambda>x y. x AND NOT y),
     kMaskBits = (\<lambda>dst src v. map (mask_byte src v) [0..<(length src + 7) div 8] @ drop ((length src + 7) div 8) dst),
     kEqualScalar = (\<lambda>idx want. map (\<lambda>x. x = want) idx), bigEndian = False\<rparr>"

interpretation ref_host: simd_host ref_simd
  by unfold_locales (simp add: simd_ok_def ref_simd_def)

section \<open>Properties\<close>

text \<open>C24: Bitsets refine sets of rows.  On any host, little- or big-endian, whose vector kernels act byte by byte,
  starting from an empty bitset of \<open>n\<close> rows: setting every row, setting one, testing one, and the three compositions
  through the byte view of the words are the operations on sets of rows below \<open>n\<close>, none of them panics, and no bit past the
  last row is ever set, also when \<open>n\<close> is not a multiple of the word size.\<close>

theorem bitset_refines_sets:
  assumes "simd_ok S" and "bitset_ok n b" and "bitset_ok n c" and "r < n"
  shows "set (ForEach (NewBitset n)) = {}
    \<and> (\<exists>a. SetAll b = Some a \<and> bitset_ok n a \<and> set (ForEach a) = {..<n})
    \<and> (\<exists>a. SetBit b r = Some a \<and> bitset_ok n a \<and> set (ForEach a) = insert r (set (ForEach b)))
    \<and> Test b r = Some (r \<in> set (ForEach b))
    \<and> bitset_ok n (And S b c) \<and> set (ForEach (And S b c)) = set (ForEach b) \<inter> set (ForEach c)
    \<and> bitset_ok n (Or S b c) \<and> set (ForEach (Or S b c)) = set (ForEach b) \<union> set (ForEach c)
    \<and> bitset_ok n (AndNot S b c) \<and> set (ForEach (AndNot S b c)) = set (ForEach b) - set (ForEach c)
    \<and> set (ForEach b) \<subseteq> {..<n}"
proof -
  note host = simd_host.intro [OF assms(1)]
  have "\<exists>a. SetAll b = Some a \<and> bitset_ok n a \<and> set (ForEach a) = {..<n}"
    using simd_host.set_every [OF host assms(2)] by (auto simp: ForEach_rows)
  moreover have "\<exists>a. SetBit b r = Some a \<and> bitset_ok n a \<and> set (ForEach a) = insert r (set (ForEach b))"
    using simd_host.set_one [OF host assms(2,4)] by (auto simp: ForEach_rows)
  moreover note simd_host.and_rows [OF host assms(2,3)] simd_host.or_rows [OF host assms(2,3)] simd_host.andnot_rows [OF host assms(2,3)]
  moreover have "set (ForEach b) \<subseteq> {..<n}" using assms(2) by (auto simp: ForEach_rows bitset_ok_def)
  ultimately show ?thesis using Test_ok [OF assms(2,4)] by (simp add: ForEach_rows) blast
qed

theorem bitset_refines_sets_witness:
  "Test (NewBitset 70) 69 = Some False \<and> set (ForEach (And ref_simd (NewBitset 70) (NewBitset 70))) = {}"
  using bitset_refines_sets [OF ref_host.host_ok NewBitset_ok(1) NewBitset_ok(1), of 69 70] by (simp add: ForEach_rows)

text \<open>Trimming keeps exactly the rows a bounded query returns.  On every bitset and for every bound, zero and negative ones
  included, \<^verbatim>\<open>KeepFirst\<close> leaves the first \<open>n\<close> set rows and \<^verbatim>\<open>KeepLast\<close> the last \<open>n\<close>, iteration visits the
  set rows in ascending order, once each, \<^verbatim>\<open>Count\<close> is their number, and \<^verbatim>\<open>FirstLast\<close> is the first and the
  last of them, or -1 twice when there is none.\<close>

theorem bounded_rows:
  "ForEach (KeepFirst b n) = take (nat n) (ForEach b)
   \<and> ForEach (KeepLast b n) = drop (Count b - nat n) (ForEach b)
   \<and> sorted_wrt (<) (ForEach b) \<and> Count b = length (ForEach b)
   \<and> FirstLast b = (case ForEach b of [] \<Rightarrow> (-1, -1) | r # rs \<Rightarrow> (int r, int (last (r # rs))))"
  by (auto simp: ForEach_rows Count_rows KeepFirst_rows KeepLast_rows FirstLast_rows strict_sorted_iff split: list.split)

end
