(* ===== verification/Pred.thy ===== *)
theory Pred
  imports Timestamps "HOL-Library.List_Lexorder"
begin

unbundle bit_operations_syntax

text \<open>
  The filter language of \<^verbatim>\<open>internal/query/engine.go\<close> and \<^verbatim>\<open>filter.go\<close>: predicates, the boolean
  filter tree, the tests on one value, and the scalar evaluator over a decoded row (\<^verbatim>\<open>exprMatchesRow\<close>,
  \<^verbatim>\<open>predMatchesRow\<close>), which conditional aggregates and \<^verbatim>\<open>| filter\<close> use.

  A string is its bytes.  Floating-point numbers, the regular-expression engine and Unicode lower-casing of Go's
  standard library are the fields of \<open>golib\<close>: the code only passes values between them, and no property of this
  development depends on what they compute.  A \<^verbatim>\<open>nil\<close> child of a NOT node, which the parser never builds, is
  not represented; the subquery of an IN predicate is resolved into its values before a scan and is not a field here.
\<close>

section \<open>Predicates and filter trees\<close>

datatype PredKind = Eq | Contains | Regexp | Lt | Le | Gt | Ge | In | Prefix | RangeNum | LenRange | StringRange
  | IContains | Seq | IPv4Range | EqField | NeField | LtField | LeField | GtField | GeField
  | TimeRange | TimeDayRange | TimeWeekRange | StreamIDEq

record ('f, 're) Pred =
  Field :: bytes
  Field2 :: bytes
  Value :: bytes
  Value2 :: bytes
  Values :: "bytes list"
  re :: "'re option"
  Num :: 'f
  Num2 :: 'f
  T1 :: u64
  T2 :: u64
  ExLo :: bool
  ExHi :: bool
  Rel :: bool
  Kind :: PredKind

datatype ('f, 're) Expr = OpLeaf "('f, 're) Pred" | OpAnd "('f, 're) Expr list" | OpOr "('f, 're) Expr list" | OpNot "('f, 're) Expr"

definition isFieldCmp :: "PredKind \<Rightarrow> bool" where
  "isFieldCmp k \<longleftrightarrow> k \<in> {EqField, NeField, LtField, LeField, GtField, GeField}"

definition isTimePred :: "PredKind \<Rightarrow> bool" where
  "isTimePred k \<longleftrightarrow> k = TimeRange \<or> k = TimeDayRange \<or> k = TimeWeekRange"

section \<open>The standard library\<close>

record ('f, 're) golib =
  ParseFloat :: "bytes \<Rightarrow> 'f option"
  f_less :: "'f \<Rightarrow> 'f \<Rightarrow> bool"
  f_eq :: "'f \<Rightarrow> 'f \<Rightarrow> bool"
  f_of_int :: "nat \<Rightarrow> 'f"
  f_to_u32 :: "'f \<Rightarrow> u32"
  ToLower :: "bytes \<Rightarrow> bytes"
  Compile :: "bytes \<Rightarrow> 're option"
  MatchString :: "'re \<Rightarrow> bytes \<Rightarrow> bool"

definition f_leq :: "('f, 're) golib \<Rightarrow> 'f \<Rightarrow> 'f \<Rightarrow> bool" where
  "f_leq G x y \<longleftrightarrow> f_less G x y \<or> f_eq G x y"

text \<open>\<^verbatim>\<open>strings.HasPrefix\<close>, \<^verbatim>\<open>strings.Index\<close> (\<open>None\<close> is -1) and \<^verbatim>\<open>strings.Split\<close> on one byte.\<close>

definition HasPrefix :: "bytes \<Rightarrow> bytes \<Rightarrow> bool" where
  "HasPrefix s p \<longleftrightarrow> take (length p) s = p"

definition Index :: "bytes \<Rightarrow> bytes \<Rightarrow> nat option" where
  "Index s sub = find (\<lambda>i. HasPrefix (drop i s) sub) [0..<length s + 1]"

fun Split :: "byte \<Rightarrow> bytes \<Rightarrow> bytes list" where
  "Split sep [] = [[]]"
| "Split sep (c # cs) = (if c = sep then [] # Split sep cs else (case Split sep cs of p # ps \<Rightarrow> (c # p) # ps | [] \<Rightarrow> [[c]]))"

text \<open>\<^verbatim>\<open>strconv.Atoi\<close>: an optional sign and decimal digits, refused outside the 64-bit range.\<close>

definition digits_val :: "bytes \<Rightarrow> int" where
  "digits_val s = foldl (\<lambda>n c. n * 10 + (int (unat c) - 48)) 0 s"

definition Atoi :: "bytes \<Rightarrow> int option" where
  "Atoi s = (let (neg, ds) = (case s of c # r \<Rightarrow> if c = 45 then (True, r) else if c = 43 then (False, r) else (False, s) | [] \<Rightarrow> (False, []));
       v = (if neg then - digits_val ds else digits_val ds) in
     if ds \<noteq> [] \<and> list_all (\<lambda>c. 48 \<le> c \<and> c \<le> 57) ds \<and> - (2 ^ 63) \<le> v \<and> v < 2 ^ 63 then Some v else None)"

section \<open>Tests on one value\<close>

definition regex :: "('f, 're) golib \<Rightarrow> ('f, 're) Pred \<Rightarrow> 're option" where
  "regex G p = (case re p of Some x \<Rightarrow> Some x | None \<Rightarrow> Compile G (Value p))"

definition numInRange :: "('f, 're) golib \<Rightarrow> 'f \<Rightarrow> ('f, 're) Pred \<Rightarrow> bool" where
  "numInRange G f p = (if (if ExLo p then f_leq G f (Num p) else f_less G f (Num p)) then False
     else if ExHi p then f_less G f (Num2 p) else f_leq G f (Num2 p))"

definition cmpNum :: "('f, 're) golib \<Rightarrow> 'f \<Rightarrow> PredKind \<Rightarrow> 'f \<Rightarrow> bool" where
  "cmpNum G f kind want = (case kind of
     Lt \<Rightarrow> f_less G f want | Le \<Rightarrow> f_leq G f want | Gt \<Rightarrow> f_less G want f | Ge \<Rightarrow> f_leq G want f | _ \<Rightarrow> False)"

definition fieldCmp :: "('f, 're) golib \<Rightarrow> bytes \<Rightarrow> bytes \<Rightarrow> PredKind \<Rightarrow> bool" where
  "fieldCmp G a b kind = (case kind of
     EqField \<Rightarrow> a = b
   | NeField \<Rightarrow> a \<noteq> b
   | _ \<Rightarrow> (let (less, eq) = (case (ParseFloat G a, ParseFloat G b) of
            (Some fa, Some fb) \<Rightarrow> (f_less G fa fb, f_eq G fa fb)
          | _ \<Rightarrow> (a < b, a = b)) in
        (case kind of LtField \<Rightarrow> less | LeField \<Rightarrow> less \<or> eq | GtField \<Rightarrow> \<not> less \<and> \<not> eq | GeField \<Rightarrow> \<not> less | _ \<Rightarrow> False)))"

fun seq_from :: "bytes \<Rightarrow> nat \<Rightarrow> bytes list \<Rightarrow> bool" where
  "seq_from s pos [] = True"
| "seq_from s pos (ph # phs) = (case Index (drop pos s) ph of None \<Rightarrow> False | Some i \<Rightarrow> seq_from s (pos + i + length ph) phs)"

definition seqMatch :: "bytes \<Rightarrow> bytes list \<Rightarrow> bool" where
  "seqMatch s phrases = seq_from s 0 phrases"

fun ip_parts :: "u32 \<Rightarrow> bytes list \<Rightarrow> u32 option" where
  "ip_parts v [] = Some v"
| "ip_parts v (p # ps) = (case Atoi p of None \<Rightarrow> None | Some n \<Rightarrow>
     if n < 0 \<or> n > 255 then None else ip_parts (push_bit 8 v OR of_int n) ps)"

definition ipToU32 :: "bytes \<Rightarrow> u32 option" where
  "ipToU32 s = (let parts = Split 46 s in if length parts \<noteq> 4 then None else ip_parts 0 parts)"

definition containsSubstr :: "bytes \<Rightarrow> bytes \<Rightarrow> bool" where
  "containsSubstr s sub \<longleftrightarrow> sub = [] \<or> list_ex (\<lambda>i. take (length sub) (drop i s) = sub) [0..<length s + 1 - length sub]"

text \<open>\<^verbatim>\<open>StreamID\<close>: sixteen zeros and the FNV-1a hash of 128 bits in hex.\<close>

definition fnv128a :: "bytes \<Rightarrow> 128 word" where
  "fnv128a s = foldl (\<lambda>h c. (h XOR ucast c) * 0x0000000001000000000000000000013B) 0x6C62272E07BB014262B821756295C58D s"

definition hex_digit :: "nat \<Rightarrow> byte" where
  "hex_digit n = (if n < 10 then of_nat (48 + n) else of_nat (87 + n))"

definition StreamID :: "bytes \<Rightarrow> bytes" where
  "StreamID v = replicate 16 48 @ map (\<lambda>k. hex_digit (unat (drop_bit (4 * (31 - k)) (fnv128a v) AND 15))) [0..<32]"

section \<open>Calendar tests, in UTC\<close>

definition minute_of_day :: "u64 \<Rightarrow> int" where
  "minute_of_day t = sint t div 60000000000 mod 1440"

definition Weekday :: "u64 \<Rightarrow> nat" where
  "Weekday t = nat ((sint t div 86400000000000 + 4) mod 7)"

definition matchDayWeek :: "u64 \<Rightarrow> ('f, 're) Pred \<Rightarrow> bool" where
  "matchDayWeek t p = (case Kind p of
     TimeDayRange \<Rightarrow> minute_of_day t \<ge> sint (T1 p) \<and> minute_of_day t \<le> sint (T2 p)
   | TimeWeekRange \<Rightarrow> T1 p AND push_bit (Weekday t) 1 \<noteq> 0
   | _ \<Rightarrow> False)"

section \<open>Rows\<close>

record Row =
  Time :: u64
  Fields :: "(bytes \<times> bytes) list"
  NoTime :: bool

definition rowFieldOK :: "Row \<Rightarrow> bytes \<Rightarrow> bytes option" where
  "rowFieldOK r key = map_option snd (find (\<lambda>f. fst f = key) (Fields r))"

definition rowField :: "Row \<Rightarrow> bytes \<Rightarrow> bytes" where
  "rowField r key = (case rowFieldOK r key of None \<Rightarrow> [] | Some v \<Rightarrow> v)"

definition rowBytes :: "Row \<Rightarrow> nat" where
  "rowBytes r = foldl (\<lambda>n f. n + (length (fst f) + length (snd f))) 8 (Fields r)"

datatype rowSource = rowOf Row | lookupOf "bytes \<Rightarrow> bytes"

fun src_field :: "rowSource \<Rightarrow> bytes \<Rightarrow> bytes" where
  "src_field (rowOf r) name = rowField r name"
| "src_field (lookupOf get) name = get name"

fun stamp :: "rowSource \<Rightarrow> u64 option" where
  "stamp (rowOf r) = (if NoTime r then None else Some (Time r))"
| "stamp (lookupOf get) = None"

section \<open>The scalar evaluator\<close>

definition predMatchesRow :: "('f, 're) golib \<Rightarrow> ('f, 're) Pred \<Rightarrow> rowSource \<Rightarrow> bool" where
  "predMatchesRow G p src = (
     if Kind p = TimeRange then (case stamp src of None \<Rightarrow> False | Some ts \<Rightarrow> sint ts \<ge> sint (T1 p) \<and> sint ts < sint (T2 p))
     else if Kind p = TimeDayRange \<or> Kind p = TimeWeekRange then (case stamp src of None \<Rightarrow> False | Some ts \<Rightarrow> matchDayWeek ts p)
     else if isFieldCmp (Kind p) then fieldCmp G (src_field src (Field p)) (src_field src (Field2 p)) (Kind p)
     else let v = src_field src (Field p) in (case Kind p of
         Eq \<Rightarrow> v = Value p
       | Contains \<Rightarrow> containsSubstr v (Value p)
       | Prefix \<Rightarrow> HasPrefix v (Value p)
       | Regexp \<Rightarrow> (case regex G p of None \<Rightarrow> False | Some x \<Rightarrow> MatchString G x v)
       | Lt \<Rightarrow> (case ParseFloat G v of None \<Rightarrow> False | Some f \<Rightarrow> cmpNum G f (Kind p) (Num p))
       | Le \<Rightarrow> (case ParseFloat G v of None \<Rightarrow> False | Some f \<Rightarrow> cmpNum G f (Kind p) (Num p))
       | Gt \<Rightarrow> (case ParseFloat G v of None \<Rightarrow> False | Some f \<Rightarrow> cmpNum G f (Kind p) (Num p))
       | Ge \<Rightarrow> (case ParseFloat G v of None \<Rightarrow> False | Some f \<Rightarrow> cmpNum G f (Kind p) (Num p))
       | In \<Rightarrow> list_ex (\<lambda>x. v = x) (Values p)
       | RangeNum \<Rightarrow> (case ParseFloat G v of None \<Rightarrow> False | Some f \<Rightarrow> numInRange G f p)
       | LenRange \<Rightarrow> (let l = f_of_int G (length v) in f_leq G (Num p) l \<and> f_leq G l (Num2 p))
       | StringRange \<Rightarrow> v \<ge> Value p \<and> v < Value2 p
       | IContains \<Rightarrow> containsSubstr (ToLower G v) (ToLower G (Value p))
       | Seq \<Rightarrow> seqMatch v (Values p)
       | IPv4Range \<Rightarrow> (case ipToU32 v of None \<Rightarrow> False | Some u \<Rightarrow> u \<ge> f_to_u32 G (Num p) \<and> u \<le> f_to_u32 G (Num2 p))
       | StreamIDEq \<Rightarrow> StreamID v = Value p
       | _ \<Rightarrow> False))"

fun exprMatchesRow :: "('f, 're) golib \<Rightarrow> ('f, 're) Expr \<Rightarrow> rowSource \<Rightarrow> bool" where
  "exprMatchesRow G (OpLeaf p) src = predMatchesRow G p src"
| "exprMatchesRow G (OpAnd ks) src = list_all (\<lambda>k. exprMatchesRow G k src) ks"
| "exprMatchesRow G (OpOr ks) src = list_ex (\<lambda>k. exprMatchesRow G k src) ks"
| "exprMatchesRow G (OpNot k) src = (\<not> exprMatchesRow G k src)"

text \<open>The boolean tree over any meaning of its leaves; the row evaluator is one such meaning.\<close>

fun exprHolds :: "(('f, 're) Pred \<Rightarrow> bool) \<Rightarrow> ('f, 're) Expr \<Rightarrow> bool" where
  "exprHolds ev (OpLeaf p) = ev p"
| "exprHolds ev (OpAnd ks) = list_all (exprHolds ev) ks"
| "exprHolds ev (OpOr ks) = list_ex (exprHolds ev) ks"
| "exprHolds ev (OpNot k) = (\<not> exprHolds ev k)"

lemma exprMatchesRow_holds: "exprMatchesRow G e src = exprHolds (\<lambda>p. predMatchesRow G p src) e"
  by (induction e) (auto simp: list_all_iff list_ex_iff)

text \<open>The fields a filter reads, in the order of the leaves; the source collects them into a map.\<close>

fun filterFields :: "('f, 're) Expr \<Rightarrow> bytes set \<Rightarrow> bytes set" where
  "filterFields (OpLeaf p) out = (if isTimePred (Kind p) then out
     else (let o1 = insert (Field p) out in if Field2 p \<noteq> [] then insert (Field2 p) o1 else o1))"
| "filterFields (OpNot k) out = filterFields k out"
| "filterFields (OpAnd ks) out = foldl (\<lambda>o' k. filterFields k o') out ks"
| "filterFields (OpOr ks) out = foldl (\<lambda>o' k. filterFields k o') out ks"

section \<open>Regular expressions are compiled before a scan\<close>

definition prepare_pred :: "('f, 're) golib \<Rightarrow> ('f, 're) Pred \<Rightarrow> ('f, 're) Pred" where
  "prepare_pred G p = (if Kind p = Regexp \<and> re p = None then p\<lparr>re := regex G p\<rparr> else p)"

fun prepareExprRegexps :: "('f, 're) golib \<Rightarrow> ('f, 're) Expr \<Rightarrow> ('f, 're) Expr" where
  "prepareExprRegexps G (OpLeaf p) = OpLeaf (prepare_pred G p)"
| "prepareExprRegexps G (OpAnd ks) = OpAnd (map (prepareExprRegexps G) ks)"
| "prepareExprRegexps G (OpOr ks) = OpOr (map (prepareExprRegexps G) ks)"
| "prepareExprRegexps G (OpNot k) = OpNot (prepareExprRegexps G k)"

lemma regex_prepare [simp]: "regex G (prepare_pred G p) = regex G p"
  by (auto simp: prepare_pred_def regex_def split: option.split)

lemma prepare_pred_same:
  "Kind (prepare_pred G p) = Kind p" "Field (prepare_pred G p) = Field p" "Field2 (prepare_pred G p) = Field2 p"
  "Value (prepare_pred G p) = Value p" "Value2 (prepare_pred G p) = Value2 p" "Values (prepare_pred G p) = Values p"
  "Num (prepare_pred G p) = Num p" "Num2 (prepare_pred G p) = Num2 p" "T1 (prepare_pred G p) = T1 p" "T2 (prepare_pred G p) = T2 p"
  "ExLo (prepare_pred G p) = ExLo p" "ExHi (prepare_pred G p) = ExHi p"
  by (simp_all add: prepare_pred_def)

lemma prepare_pred_matches: "predMatchesRow G (prepare_pred G p) src = predMatchesRow G p src"
  unfolding predMatchesRow_def Let_def
  by (cases "Kind p") (simp_all add: prepare_pred_same matchDayWeek_def numInRange_def isFieldCmp_def split: option.split)

lemma prepare_matches: "exprMatchesRow G (prepareExprRegexps G e) src = exprMatchesRow G e src"
  by (induction e) (simp_all add: prepare_pred_matches list_all_iff list_ex_iff)

end
