(* ===== verification/Scan.thy ===== *)
theory Scan
  imports Reader Bitset Pred
begin

unbundle bit_operations_syntax

text \<open>
  The columnar scan of \<^verbatim>\<open>internal/query/engine.go\<close>, \<^verbatim>\<open>filter.go\<close> and \<^verbatim>\<open>time_filter.go\<close>: the bitset
  of one predicate (postings, vector compare, or a hit table over the dictionary), the bitset of a filter tree, the
  selection of a whole query over a group, and the footer tests that skip a group.

  The decoded-index cache of the group is threaded through, since reading a column may fill it.  A \<^verbatim>\<open>nil\<close>
  index slice is the empty list: the source's early return and its loops over an empty slice set no row either way.
\<close>

section \<open>One predicate over a group\<close>

text \<open>The name of the timestamp column, \<^verbatim>\<open>_time\<close>.\<close>

definition time_col :: bytes where
  "time_col = [95, 116, 105, 109, 101]"

definition hit_test :: "('f, 're) golib \<Rightarrow> ('f, 're) Pred \<Rightarrow> bytes \<Rightarrow> bool" where
  "hit_test G p d = (case Kind p of
       Contains \<Rightarrow> containsSubstr d (Value p)
     | Regexp \<Rightarrow> (case regex G p of None \<Rightarrow> False | Some x \<Rightarrow> MatchString G x d)
     | Prefix \<Rightarrow> HasPrefix d (Value p)
     | In \<Rightarrow> d \<in> set (Values p)
     | Lt \<Rightarrow> (case ParseFloat G d of None \<Rightarrow> False | Some f \<Rightarrow> cmpNum G f (Kind p) (Num p))
     | Le \<Rightarrow> (case ParseFloat G d of None \<Rightarrow> False | Some f \<Rightarrow> cmpNum G f (Kind p) (Num p))
     | Gt \<Rightarrow> (case ParseFloat G d of None \<Rightarrow> False | Some f \<Rightarrow> cmpNum G f (Kind p) (Num p))
     | Ge \<Rightarrow> (case ParseFloat G d of None \<Rightarrow> False | Some f \<Rightarrow> cmpNum G f (Kind p) (Num p))
     | RangeNum \<Rightarrow> (case ParseFloat G d of None \<Rightarrow> False | Some f \<Rightarrow> numInRange G f p)
     | LenRange \<Rightarrow> (let l = f_of_int G (length d) in f_leq G (Num p) l \<and> f_leq G l (Num2 p))
     | StringRange \<Rightarrow> d \<ge> Value p \<and> d < Value2 p
     | IContains \<Rightarrow> (let lc = ToLower G (Value p) in containsSubstr (ToLower G d) lc)
     | Seq \<Rightarrow> seqMatch d (Values p)
     | IPv4Range \<Rightarrow> (let lo = f_to_u32 G (Num p); hi = f_to_u32 G (Num2 p) in
         case ipToU32 d of None \<Rightarrow> False | Some v \<Rightarrow> v \<ge> lo \<and> v \<le> hi)
     | StreamIDEq \<Rightarrow> StreamID d = Value p
     | _ \<Rightarrow> False)"

text \<open>The row loop: test row \<open>i\<close>, which may index out of range, and set its bit.\<close>

definition set_where :: "(nat \<Rightarrow> bool option) \<Rightarrow> nat list \<Rightarrow> Bitset \<Rightarrow> Bitset option" where
  "set_where test rows b = fold_opt (\<lambda>i b. do { h \<leftarrow> test i; if h then SetBit b i else Some b }) rows b"

definition predBitsetCol :: "simd_kernels \<Rightarrow> ('f, 're) golib \<Rightarrow> read_kernels \<Rightarrow> Reader \<Rightarrow> ('f, 're) Pred
    \<Rightarrow> u32 list \<Rightarrow> bytes list \<Rightarrow> nat \<Rightarrow> idx_cache \<Rightarrow> (Bitset \<times> idx_cache) option" where
  "predBitsetCol S G K r p idx dict n s = (let b = NewBitset n in
     if idx = [] then Some (b, s)
     else if Kind p = Eq then do {
       vid \<leftarrow> DictID K r (Field p) (Value p);
       (case vid of None \<Rightarrow> Some (b, s) | Some i \<Rightarrow> do { b' \<leftarrow> eqMaskInto S b idx (of_nat i); Some (b', s) })
     }
     else if isFieldCmp (Kind p) then do {
       (idx2, dict2, s') \<leftarrow> DictIndices K r s (Field2 p);
       if idx2 = [] then Some (b, s') else do {
         b' \<leftarrow> set_where (\<lambda>i. do { x \<leftarrow> index dict (unat (idx ! i)); y \<leftarrow> index dict2 (unat (idx2 ! i)); Some (fieldCmp G x y (Kind p)) })
           [0..<min n (min (length idx) (length idx2))] b;
         Some (b', s')
       }
     }
     else do {
       let hit = map (hit_test G p) dict;
       b' \<leftarrow> set_where (\<lambda>i. index hit (unat (idx ! i))) [0..<length idx] b;
       Some (b', s)
     })"

definition eqPredBitset :: "simd_kernels \<Rightarrow> ('f, 're) golib \<Rightarrow> read_kernels \<Rightarrow> Reader \<Rightarrow> ('f, 're) Pred
    \<Rightarrow> nat \<Rightarrow> idx_cache \<Rightarrow> (Bitset \<times> idx_cache) option" where
  "eqPredBitset S G K r p n s = (let b = NewBitset n in do {
     q \<leftarrow> EqualityCount K r (Field p) (Value p);
     (case q of
        None \<Rightarrow> do { (idx, dict, s') \<leftarrow> DictIndices K r s (Field p); predBitsetCol S G K r p idx dict n s' }
      | Some (None, count) \<Rightarrow> Some (b, s)
      | Some (Some vid, count) \<Rightarrow>
          if count = 0 then Some (b, s)
          else if count \<le> n div 8 then do {
            q' \<leftarrow> EqualityRows K r (Field p) (Value p);
            b' \<leftarrow> fold_opt (\<lambda>row b. SetBit b (unat row)) (case q' of None \<Rightarrow> [] | Some rows \<Rightarrow> rows) b;
            Some (b', s)
          }
          else do {
            (idx, s') \<leftarrow> DictIndicesRaw K r s (Field p);
            b' \<leftarrow> eqMaskInto S b idx (of_nat vid);
            Some (b', s')
          })
   })"

definition timePredBitset :: "simd_kernels \<Rightarrow> read_kernels \<Rightarrow> Reader \<Rightarrow> ('f, 're) Pred \<Rightarrow> nat \<Rightarrow> Bitset option" where
  "timePredBitset S K r p n = (let b = NewBitset n in
     if Kind p = TimeRange then do { mask \<leftarrow> TimeRangeMaskInto r time_col (T1 p) (T2 p); packBools S b mask }
     else if Kind p = TimeDayRange \<or> Kind p = TimeWeekRange then do {
       ts \<leftarrow> Timestamps K r time_col;
       set_where (\<lambda>i. Some (matchDayWeek (ts ! i) p)) [0..<min n (length ts)] b
     }
     else Some b)"

definition leafBitset :: "simd_kernels \<Rightarrow> ('f, 're) golib \<Rightarrow> read_kernels \<Rightarrow> Reader \<Rightarrow> nat \<Rightarrow> ('f, 're) Pred
    \<Rightarrow> idx_cache \<Rightarrow> (Bitset \<times> idx_cache) option" where
  "leafBitset S G K r n p s = (
     if isTimePred (Kind p) then do { b \<leftarrow> timePredBitset S K r p n; Some (b, s) }
     else if Kind p = Eq then eqPredBitset S G K r p n s
     else do { (idx, dict, s') \<leftarrow> DictIndices K r s (Field p); predBitsetCol S G K r p idx dict n s' })"

section \<open>Filter trees\<close>

lemma combine_cong [fundef_cong]:
  "k = k' \<Longrightarrow> acc = acc' \<Longrightarrow> (\<And>s. ev k' s = ev' k' s) \<Longrightarrow> combine op ev k acc = combine op ev' k' acc'"
  by (simp add: combine_def)

fun evalExpr :: "simd_kernels \<Rightarrow> ('f, 're) golib \<Rightarrow> read_kernels \<Rightarrow> Reader \<Rightarrow> nat \<Rightarrow> ('f, 're) Expr
    \<Rightarrow> idx_cache \<Rightarrow> (Bitset \<times> idx_cache) option" where
  "evalExpr S G K r n (OpLeaf p) s = leafBitset S G K r n p s"
| "evalExpr S G K r n (OpAnd ks) s = do {
     b \<leftarrow> SetAll (NewBitset n);
     fold_opt (\<lambda>k acc. combine (And S) (\<lambda>k s. evalExpr S G K r n k s) k acc) ks (b, s)
   }"
| "evalExpr S G K r n (OpOr ks) s =
     fold_opt (\<lambda>k acc. combine (Or S) (\<lambda>k s. evalExpr S G K r n k s) k acc) ks (NewBitset n, s)"
| "evalExpr S G K r n (OpNot k) s = do {
     b \<leftarrow> SetAll (NewBitset n);
     (c, s') \<leftarrow> evalExpr S G K r n k s;
     Some (AndNot S b c, s')
   }"

fun exprCanMatch :: "read_kernels \<Rightarrow> Reader \<Rightarrow> ('f, 're) Expr \<Rightarrow> bool option" where
  "exprCanMatch K r (OpAnd []) = Some True"
| "exprCanMatch K r (OpAnd (k # ks)) = do { x \<leftarrow> exprCanMatch K r k; if \<not> x then Some False else exprCanMatch K r (OpAnd ks) }"
| "exprCanMatch K r (OpLeaf p) = (if Kind p = Eq \<and> ColumnExists r (Field p)
     then DictContains K r (Field p) (Value p) else Some True)"
| "exprCanMatch K r (OpOr ks) = Some True"
| "exprCanMatch K r (OpNot k) = Some True"

section \<open>Queries\<close>

text \<open>
  A pipe is a filter, a stats pipe (its grouping fields and its aggregates, of which only the optional guard is an expression), or
  another pipe, named by its text.
\<close>

record ('f, 're) Agg =
  Alias :: bytes
  IfE :: "('f, 're) Expr option"

datatype ('f, 're) Pipe = FilterPipe "('f, 're) Expr" | StatsPipe "bytes list" "('f, 're) Agg list" | OtherPipe bytes

record ('f, 're) Query =
  From :: u64
  To :: u64
  ToSet :: bool
  Now :: u64
  NowSet :: bool
  Preds :: "('f, 're) Pred list"
  FilterE :: "('f, 're) Expr option"
  Pipes :: "('f, 're) Pipe list"

definition SetWindow :: "('f, 're) Query \<Rightarrow> u64 \<Rightarrow> u64 \<Rightarrow> ('f, 're) Query" where
  "SetWindow q from to = q\<lparr>From := from, To := to, ToSet := True\<rparr>"

definition SetNow :: "('f, 're) Query \<Rightarrow> u64 \<Rightarrow> ('f, 're) Query" where
  "SetNow q now = q\<lparr>Now := now, NowSet := True\<rparr>"

definition prepareRegexps :: "('f, 're) golib \<Rightarrow> ('f, 're) Query \<Rightarrow> ('f, 're) Query" where
  "prepareRegexps G q = q\<lparr>Preds := map (prepare_pred G) (Preds q), FilterE := map_option (prepareExprRegexps G) (FilterE q)\<rparr>"

fun preds_can_match :: "read_kernels \<Rightarrow> Reader \<Rightarrow> ('f, 're) Pred list \<Rightarrow> bool option" where
  "preds_can_match K r [] = Some True"
| "preds_can_match K r (p # ps) = (if Kind p = Eq \<and> ColumnExists r (Field p)
     then do { x \<leftarrow> DictContains K r (Field p) (Value p); if \<not> x then Some False else preds_can_match K r ps }
     else preds_can_match K r ps)"

definition groupCanMatch :: "('f, 're) golib \<Rightarrow> read_kernels \<Rightarrow> Reader \<Rightarrow> ('f, 're) Query \<Rightarrow> bool option" where
  "groupCanMatch G K r q0 = (let q = prepareRegexps G q0 in
     case FilterE q of Some e \<Rightarrow> exprCanMatch K r e | None \<Rightarrow> preds_can_match K r (Preds q))"

definition matchBitset :: "simd_kernels \<Rightarrow> ('f, 're) golib \<Rightarrow> read_kernels \<Rightarrow> Reader \<Rightarrow> ('f, 're) Query
    \<Rightarrow> idx_cache \<Rightarrow> (Bitset \<times> idx_cache) option" where
  "matchBitset S G K r q s = (let n = Rows r in do {
     sel0 \<leftarrow> SetAll (NewBitset n);
     sel \<leftarrow> (if sint (TimeMin r) < sint (From q) \<or> sint (TimeMax r) \<ge> sint (To q) then do {
         mask \<leftarrow> TimeRangeMaskInto r time_col (From q) (To q);
         tb \<leftarrow> packBools S (NewBitset n) mask;
         Some (And S sel0 tb)
       } else Some sel0);
     (case FilterE q of
        Some e \<Rightarrow> do { (c, s') \<leftarrow> evalExpr S G K r n e s; Some (And S sel c, s') }
      | None \<Rightarrow> fold_opt (combine (And S) (leafBitset S G K r n)) (Preds q) (sel, s))
   })"

section \<open>Row loops and value tests\<close>

lemma set_where_ok:
  assumes "bitset_ok n b" and "\<forall>i \<in> set rows. i < n \<and> test i = Some (P i)"
  shows "\<exists>b'. set_where test rows b = Some b' \<and> bitset_ok n b' \<and> (\<forall>j. bit_at b' j \<longleftrightarrow> bit_at b j \<or> j \<in> set rows \<and> P j)"
  using assms
proof (induction rows arbitrary: b)
  case (Cons i rows)
  then have i: "i < n" "test i = Some (P i)" by simp_all
  show ?case
  proof (cases "P i")
    case True
    obtain b1 where b1: "SetBit b i = Some b1" "bitset_ok n b1" "\<forall>j. bit_at b1 j \<longleftrightarrow> j = i \<or> bit_at b j"
      using SetBit_ok [OF Cons.prems(1) i(1)] by metis
    obtain b2 where "set_where test rows b1 = Some b2" "bitset_ok n b2" "\<forall>j. bit_at b2 j \<longleftrightarrow> bit_at b1 j \<or> j \<in> set rows \<and> P j"
      using Cons.IH [OF b1(2)] Cons.prems(2) by auto
    with b1 i True show ?thesis by (auto simp: set_where_def)
  next
    case False
    obtain b2 where "set_where test rows b = Some b2" "bitset_ok n b2" "\<forall>j. bit_at b2 j \<longleftrightarrow> bit_at b j \<or> j \<in> set rows \<and> P j"
      using Cons.IH [OF Cons.prems(1)] Cons.prems(2) by auto
    with i False show ?thesis by (auto simp: set_where_def)
  qed
qed (simp add: set_where_def)

lemma hit_test_matches:
  "\<not> isTimePred (Kind p) \<Longrightarrow> \<not> isFieldCmp (Kind p) \<Longrightarrow> Kind p \<noteq> Eq \<Longrightarrow>
   hit_test G p (src_field src (Field p)) = predMatchesRow G p src"
  unfolding predMatchesRow_def hit_test_def Let_def
  by (cases "Kind p") (simp_all add: isTimePred_def isFieldCmp_def list_ex_iff)

fun leaves :: "('f, 're) Expr \<Rightarrow> ('f, 're) Pred list" where
  "leaves (OpLeaf p) = [p]"
| "leaves (OpAnd ks) = concat (map leaves ks)"
| "leaves (OpOr ks) = concat (map leaves ks)"
| "leaves (OpNot k) = leaves k"

lemma leaves_prepare: "leaves (prepareExprRegexps G e) = map (prepare_pred G) (leaves e)"
  by (induction e) (simp_all add: map_concat o_def cong: map_cong)

definition query_leaves :: "('f, 're) Query \<Rightarrow> ('f, 're) Pred list" where
  "query_leaves q = (case FilterE q of Some e \<Rightarrow> leaves e | None \<Rightarrow> Preds q)"

text \<open>What a query asks of one row: its filter tree or, without one, every predicate.\<close>

definition queryMatchesRow :: "('f, 're) golib \<Rightarrow> ('f, 're) Query \<Rightarrow> rowSource \<Rightarrow> bool" where
  "queryMatchesRow G q src = (case FilterE q of
     Some e \<Rightarrow> exprMatchesRow G e src | None \<Rightarrow> list_all (\<lambda>p. predMatchesRow G p src) (Preds q))"

text \<open>The same over any meaning of the predicates, and the meaning the scan gives them: a leaf about a column the group does not
  have holds of no row.\<close>

definition queryHolds :: "(('f, 're) Pred \<Rightarrow> bool) \<Rightarrow> ('f, 're) Query \<Rightarrow> bool" where
  "queryHolds ev q = (case FilterE q of Some e \<Rightarrow> exprHolds ev e | None \<Rightarrow> list_all ev (Preds q))"

definition column_leaf :: "(bytes \<Rightarrow> bool) \<Rightarrow> ('f, 're) Pred \<Rightarrow> bool" where
  "column_leaf has p \<longleftrightarrow> isTimePred (Kind p) \<or> has (Field p) \<and> (isFieldCmp (Kind p) \<longrightarrow> has (Field2 p))"

definition scanMatchesRow :: "('f, 're) golib \<Rightarrow> (bytes \<Rightarrow> bool) \<Rightarrow> ('f, 're) Query \<Rightarrow> rowSource \<Rightarrow> bool" where
  "scanMatchesRow G has q src = queryHolds (\<lambda>p. column_leaf has p \<and> predMatchesRow G p src) q"

lemma exprHolds_cong: "(\<And>p. p \<in> set (leaves e) \<Longrightarrow> ev p = ev' p) \<Longrightarrow> exprHolds ev e = exprHolds ev' e"
  by (induction e) (auto simp: list_all_iff list_ex_iff)

lemma scanMatchesRow_present:
  "\<forall>p \<in> set (query_leaves q). column_leaf has p \<Longrightarrow> scanMatchesRow G has q src = queryMatchesRow G q src"
  using exprHolds_cong [of _ "\<lambda>p. column_leaf has p \<and> predMatchesRow G p src" "\<lambda>p. predMatchesRow G p src"]
  by (auto simp: scanMatchesRow_def queryHolds_def queryMatchesRow_def query_leaves_def exprMatchesRow_holds list_all_iff split: option.splits)

lemma exprHolds_prepare:
  "(\<And>p. ev (prepare_pred G p) = ev p) \<Longrightarrow> exprHolds ev (prepareExprRegexps G e) = exprHolds ev e"
  by (induction e) (auto simp: list_all_iff list_ex_iff)

section \<open>The interface of a readable group\<close>

text \<open>
  What the scan relies on of a group's reader: \<open>ts\<close> are the timestamps, \<open>vals\<close> gives the dictionary columns by name, and
  \<open>row i\<close> is row \<open>i\<close> decoded.  Equality lookups may be declined (a group without postings) but are exact when they answer,
  and reading indices keeps the cache coherent.
\<close>

locale readable_group =
  fixes R :: read_kernels and r :: Reader and ts :: "u64 list" and vals :: "bytes \<Rightarrow> DictColumn option" and row :: "nat \<Rightarrow> rowSource"
  assumes cols_wf: "vals f = Some d \<Longrightarrow> dict_wf (Rows r) d"
    and rows_small: "Rows r < 2 ^ 32"
    and indices: "vals f = Some d \<Longrightarrow> cache_coherent R r s \<Longrightarrow> \<exists>s'. DictIndices R r s f = Some (Indices d, Dict d, s') \<and> cache_coherent R r s'"
    and raw: "vals f = Some d \<Longrightarrow> cache_coherent R r s \<Longrightarrow> \<exists>s'. DictIndicesRaw R r s f = Some (Indices d, s') \<and> cache_coherent R r s'"
    and contains: "vals f = Some d \<Longrightarrow> DictContains R r f v = Some (v \<in> set (Dict d))"
    and ids: "vals f = Some d \<Longrightarrow> DictID R r f v = Some (find (\<lambda>i. Dict d ! i = v) [0..<length (Dict d)])"
    and eq_count: "vals f = Some d \<Longrightarrow> EqualityCount R r f v = Some None \<or>
          EqualityCount R r f v = Some (Some (find (\<lambda>i. Dict d ! i = v) [0..<length (Dict d)], length (filter (\<lambda>i. values_of d ! i = v) [0..<Rows r])))"
    and eq_rows: "vals f = Some d \<Longrightarrow> EqualityCount R r f v \<noteq> Some None \<Longrightarrow>
          EqualityRows R r f v = Some (Some (map of_nat (filter (\<lambda>i. values_of d ! i = v) [0..<Rows r])))"
    and stamps_len: "length ts = Rows r" and stamps: "Timestamps R r time_col = Some ts"
    and stamp_mask: "TimeRangeMaskInto r time_col from to = Some (map (in_window from to) ts)"
    and stamp_bounds: "t \<in> set ts \<Longrightarrow> sint (TimeMin r) \<le> sint t \<and> sint t \<le> sint (TimeMax r)"
    and row_stamp: "i < Rows r \<Longrightarrow> stamp (row i) = Some (ts ! i)"
    and row_field: "i < Rows r \<Longrightarrow> vals f = Some d \<Longrightarrow> src_field (row i) f = values_of d ! i"
    and no_column: "vals f = None \<Longrightarrow> DictIndices R r s f = Some ([], [], s)" "vals f = None \<Longrightarrow> EqualityCount R r f v = Some None"
      "vals f = None \<Longrightarrow> DictContains R r f v = Some False"
begin

abbreviation present :: "('f, 're) Pred \<Rightarrow> bool" where
  "present p \<equiv> column_leaf (\<lambda>f. vals f \<noteq> None) p"

text \<open>What a leaf says of row \<open>i\<close>.\<close>

abbreviation leaf_at :: "('f, 're) golib \<Rightarrow> nat \<Rightarrow> ('f, 're) Pred \<Rightarrow> bool" where
  "leaf_at G i p \<equiv> present p \<and> predMatchesRow G p (row i)"

text \<open>A bitset, paired with the cache, that selects the rows of the group with \<open>P\<close>.\<close>

definition selects :: "(nat \<Rightarrow> bool) \<Rightarrow> (Bitset \<times> idx_cache) option \<Rightarrow> bool" where
  "selects P res \<longleftrightarrow> (\<exists>b s'. res = Some (b, s') \<and> cache_coherent R r s' \<and> bitset_ok (Rows r) b \<and> (\<forall>i < Rows r. bit_at b i \<longleftrightarrow> P i))"

lemma selectsI: "res = Some (b, s') \<Longrightarrow> cache_coherent R r s' \<Longrightarrow> bitset_ok (Rows r) b \<Longrightarrow> (\<And>i. i < Rows r \<Longrightarrow> bit_at b i \<longleftrightarrow> P i) \<Longrightarrow> selects P res"
  by (auto simp: selects_def)

lemma dict_of:
  assumes "vals f = Some d"
  shows "length (Indices d) = Rows r" "length (values_of d) = Rows r" "distinct (Dict d)"
    "i < Rows r \<Longrightarrow> unat (Indices d ! i) < length (Dict d)" "i < Rows r \<Longrightarrow> Dict d ! unat (Indices d ! i) = values_of d ! i"
    "length (Dict d) < 2 ^ 32"
  using cols_wf [OF assms] by (auto simp: dict_wf_def values_of_def strict_sorted_iff MaxRows_def)

lemma id_selects:
  assumes d: "vals f = Some d" and i: "i < Rows r" and v: "find (\<lambda>i. Dict d ! i = v) [0..<length (Dict d)] = Some x"
  shows "Indices d ! i = of_nat x \<longleftrightarrow> values_of d ! i = v"
proof -
  have x: "x < length (Dict d)" "Dict d ! x = v" using v by (auto simp: find_Some_iff)
  note dd = dict_of [OF d]
  have "Indices d ! i = of_nat x \<longleftrightarrow> unat (Indices d ! i) = x"
    using x(1) dd(6) by (auto simp: unsigned_of_nat take_bit_nat_eq_self)
  also have "\<dots> \<longleftrightarrow> Dict d ! unat (Indices d ! i) = Dict d ! x"
    using nth_eq_iff_index_eq [OF dd(3) dd(4) [OF i] x(1)] by simp
  finally show ?thesis using dd(5) [OF i] x(2) by simp
qed

lemma absent_value:
  assumes d: "vals f = Some d" and i: "i < Rows r" and v: "find (\<lambda>i. Dict d ! i = v) [0..<length (Dict d)] = None"
  shows "values_of d ! i \<noteq> v"
  using dict_of(4,5) [OF d i] v by (metis find_index_mem nth_mem)

lemma pred_cases: "\<not> isTimePred (Kind p) \<Longrightarrow> predMatchesRow G p src =
    (if Kind p = Eq then src_field src (Field p) = Value p
     else if isFieldCmp (Kind p) then fieldCmp G (src_field src (Field p)) (src_field src (Field2 p)) (Kind p)
     else hit_test G p (src_field src (Field p)))"
  using hit_test_matches [of p G src]
  by (auto simp: predMatchesRow_def isTimePred_def isFieldCmp_def)

lemma predBitsetCol_selects:
  assumes S: "simd_ok S" and d: "vals (Field p) = Some d" and pr: "present p" and nt: "\<not> isTimePred (Kind p)"
    and co: "cache_coherent R r s"
  shows "selects (\<lambda>i. predMatchesRow G p (row i)) (predBitsetCol S G R r p (Indices d) (Dict d) (Rows r) s)"
proof (cases "Indices d = []")
  case True
  then have "Rows r = 0" using dict_of(1) [OF d] by simp
  then show ?thesis using True co by (auto intro!: selectsI simp: predBitsetCol_def)
next
  case ne: False
  note dd = dict_of [OF d]
  have f: "src_field (row i) (Field p) = values_of d ! i" if "i < Rows r" for i using row_field [OF that d] .
  consider (eq) "Kind p = Eq" | (fc) "isFieldCmp (Kind p)" | (hit) "Kind p \<noteq> Eq" "\<not> isFieldCmp (Kind p)" by blast
  then show ?thesis
  proof cases
    case eq
    show ?thesis
    proof (cases "find (\<lambda>i. Dict d ! i = Value p) [0..<length (Dict d)]")
      case None
      then show ?thesis
        using eq ne co ids [OF d, of "Value p"] absent_value [OF d _ None] by (auto intro!: selectsI simp: predBitsetCol_def pred_cases [OF nt] f)
    next
      case (Some x)
      obtain b where b: "eqMaskInto S (NewBitset (Rows r)) (Indices d) (of_nat x) = Some b" "bitset_ok (Rows r) b"
        "\<forall>i. bit_at b i \<longleftrightarrow> i < length (Indices d) \<and> Indices d ! i = of_nat x"
        using simd_host.masks_equal [OF simd_host.intro [OF S], of "Indices d" "Rows r" "of_nat x"] dd(1) by auto
      then show ?thesis
        using eq ne co ids [OF d, of "Value p"] Some id_selects [OF d _ Some] dd(1)
        by (intro selectsI) (auto simp: predBitsetCol_def pred_cases [OF nt] f)
    qed
  next
    case fc
    then have "vals (Field2 p) \<noteq> None" using pr nt by (simp add: column_leaf_def)
    then obtain d2 where d2: "vals (Field2 p) = Some d2" by blast
    note dd2 = dict_of [OF d2]
    obtain s' where s': "DictIndices R r s (Field2 p) = Some (Indices d2, Dict d2, s')" "cache_coherent R r s'"
      using indices [OF d2 co] by blast
    have ne2: "Indices d2 \<noteq> []" using ne dd(1) dd2(1) by auto
    have k: "Kind p \<noteq> Eq" using fc by (auto simp: isFieldCmp_def)
    let ?t = "\<lambda>i. do { x \<leftarrow> index (Dict d) (unat (Indices d ! i)); y \<leftarrow> index (Dict d2) (unat (Indices d2 ! i)); Some (fieldCmp G x y (Kind p)) }"
    have t: "?t i = Some (fieldCmp G (values_of d ! i) (values_of d2 ! i) (Kind p))" if "i < Rows r" for i
      using dd(4,5) [OF that] dd2(4,5) [OF that] by (simp add: index_ok)
    have rng: "[0..<min (Rows r) (min (length (Indices d)) (length (Indices d2)))] = [0..<Rows r]" using dd(1) dd2(1) by simp
    obtain b where b: "set_where ?t [0..<Rows r] (NewBitset (Rows r)) = Some b" "bitset_ok (Rows r) b"
      "\<forall>j. bit_at b j \<longleftrightarrow> j < Rows r \<and> fieldCmp G (values_of d ! j) (values_of d2 ! j) (Kind p)"
      using set_where_ok [OF NewBitset_ok(1), of "[0..<Rows r]" "Rows r" ?t "\<lambda>i. fieldCmp G (values_of d ! i) (values_of d2 ! i) (Kind p)"] t by auto
    show ?thesis
      by (rule selectsI [of _ b s'])
        (use b s' ne ne2 fc k rng in \<open>simp_all add: predBitsetCol_def pred_cases [OF nt] f row_field [OF _ d2]\<close>)
  next
    case hit
    let ?t = "\<lambda>i. index (map (hit_test G p) (Dict d)) (unat (Indices d ! i))"
    have t: "?t i = Some (hit_test G p (values_of d ! i))" if "i < Rows r" for i
      using dd(4,5) [OF that] by (simp add: index_ok)
    obtain b where b: "set_where ?t [0..<Rows r] (NewBitset (Rows r)) = Some b" "bitset_ok (Rows r) b"
      "\<forall>j. bit_at b j \<longleftrightarrow> j < Rows r \<and> hit_test G p (values_of d ! j)"
      using set_where_ok [OF NewBitset_ok(1), of "[0..<Rows r]" "Rows r" ?t "\<lambda>i. hit_test G p (values_of d ! i)"] t by auto
    show ?thesis
      by (rule selectsI [of _ b s]) (use b co ne hit dd(1) in \<open>simp_all add: predBitsetCol_def pred_cases [OF nt] f\<close>)
  qed
qed

lemma eqPredBitset_selects:
  assumes S: "simd_ok S" and d: "vals (Field p) = Some d" and k: "Kind p = Eq" and co: "cache_coherent R r s"
  shows "selects (\<lambda>i. predMatchesRow G p (row i)) (eqPredBitset S G R r p (Rows r) s)"
proof -
  let ?n = "Rows r" and ?v = "Value p"
  let ?hits = "filter (\<lambda>i. values_of d ! i = ?v) [0..<?n]"
  note dd = dict_of [OF d]
  have nt: "\<not> isTimePred (Kind p)" using k by (simp add: isTimePred_def)
  have pm: "predMatchesRow G p (row i) \<longleftrightarrow> values_of d ! i = ?v" if "i < ?n" for i
    using k row_field [OF that d] by (simp add: pred_cases [OF nt])
  consider (none) "EqualityCount R r (Field p) ?v = Some None"
    | (some) "EqualityCount R r (Field p) ?v = Some (Some (find (\<lambda>i. Dict d ! i = ?v) [0..<length (Dict d)], length ?hits))"
    using eq_count [OF d, of ?v] by blast
  then show ?thesis
  proof cases
    case none
    obtain s' where s': "DictIndices R r s (Field p) = Some (Indices d, Dict d, s')" "cache_coherent R r s'" using indices [OF d co] by blast
    have "present p" using d k by (simp add: column_leaf_def isFieldCmp_def)
    from predBitsetCol_selects [OF S d this nt s'(2), of G] show ?thesis using none s'(1) by (simp add: eqPredBitset_def)
  next
    case some
    show ?thesis
    proof (cases "find (\<lambda>i. Dict d ! i = ?v) [0..<length (Dict d)]")
      case None
      show ?thesis
        by (rule selectsI [of _ "NewBitset ?n" s])
          (use some None co absent_value [OF d _ None] in \<open>simp_all add: eqPredBitset_def pm\<close>)
    next
      case (Some x)
      consider (zero) "?hits = []" | (few) "?hits \<noteq> []" "length ?hits \<le> ?n div 8" | (many) "?hits \<noteq> []" "\<not> length ?hits \<le> ?n div 8" by blast
      then show ?thesis
      proof cases
        case zero
        show ?thesis
          by (rule selectsI [of _ "NewBitset ?n" s])
            (use some Some co zero in \<open>simp_all add: eqPredBitset_def pm filter_empty_conv\<close>)
      next
        case few
        have er: "EqualityRows R r (Field p) ?v = Some (Some (map of_nat ?hits))" using eq_rows [OF d, of ?v] some by simp
        have u: "unat (of_nat i :: u32) = i" if "i < ?n" for i
          using that rows_small by (simp add: unsigned_of_nat take_bit_nat_eq_self)
        have img: "(\<lambda>row. unat (row :: u32)) ` set (map of_nat ?hits) = set ?hits" using u by (auto simp: image_iff)
        have lt: "\<forall>row \<in> set (map of_nat ?hits :: u32 list). unat row < ?n" using u by auto
        obtain b where b: "fold_opt (\<lambda>row b. SetBit b (unat row)) (map of_nat ?hits :: u32 list) (NewBitset ?n) = Some b" "bitset_ok ?n b"
          "\<forall>i. bit_at b i \<longleftrightarrow> i \<in> set ?hits"
          using simd_host.set_rows [OF simd_host.intro [OF S] NewBitset_ok(1) lt] unfolding img by auto
        show ?thesis
          by (rule selectsI [of _ b s]) (use some Some co few er b in \<open>simp_all add: eqPredBitset_def pm\<close>)
      next
        case many
        obtain s' where s': "DictIndicesRaw R r s (Field p) = Some (Indices d, s')" "cache_coherent R r s'" using raw [OF d co] by blast
        obtain b where b: "eqMaskInto S (NewBitset ?n) (Indices d) (of_nat x) = Some b" "bitset_ok ?n b"
          "\<forall>i. bit_at b i \<longleftrightarrow> i < length (Indices d) \<and> Indices d ! i = of_nat x"
          using simd_host.masks_equal [OF simd_host.intro [OF S], of "Indices d" ?n "of_nat x"] dd(1) by auto
        show ?thesis
          by (rule selectsI [of _ b s'])
            (use some Some many s' b dd(1) id_selects [OF d _ Some] in \<open>simp_all add: eqPredBitset_def pm\<close>)
      qed
    qed
  qed
qed

lemma mask_selects:
  assumes "simd_ok S"
  obtains b where "packBools S (NewBitset (Rows r)) (map (in_window from to) ts) = Some b" "bitset_ok (Rows r) b"
    "\<forall>i. bit_at b i \<longleftrightarrow> i < Rows r \<and> in_window from to (ts ! i)"
proof -
  have "length (map (in_window from to) ts) \<le> Rows r" using stamps_len by simp
  from simd_host.packs_mask [OF simd_host.intro [OF assms] this]
  obtain b where b: "packBools S (NewBitset (Rows r)) (map (in_window from to) ts) = Some b" "bitset_ok (Rows r) b"
    "\<forall>i. bit_at b i \<longleftrightarrow> i < length (map (in_window from to) ts) \<and> map (in_window from to) ts ! i" by blast
  have "bit_at b i \<longleftrightarrow> i < Rows r \<and> in_window from to (ts ! i)" for i
    using b(3) [rule_format, of i] stamps_len by (cases "i < Rows r") simp_all
  with b(1,2) show thesis using that by blast
qed

lemma timePredBitset_selects:
  assumes S: "simd_ok S" and t: "isTimePred (Kind p)"
  shows "\<exists>b. timePredBitset S R r p (Rows r) = Some b \<and> bitset_ok (Rows r) b \<and> (\<forall>i < Rows r. bit_at b i \<longleftrightarrow> predMatchesRow G p (row i))"
proof (cases "Kind p = TimeRange")
  case True
  obtain b where "packBools S (NewBitset (Rows r)) (map (in_window (T1 p) (T2 p)) ts) = Some b" "bitset_ok (Rows r) b"
    "\<forall>i. bit_at b i \<longleftrightarrow> i < Rows r \<and> in_window (T1 p) (T2 p) (ts ! i)" by (rule mask_selects [OF S])
  then show ?thesis using True stamp_mask by (simp add: timePredBitset_def predMatchesRow_def row_stamp in_window_def)
next
  case False
  then have k: "Kind p = TimeDayRange \<or> Kind p = TimeWeekRange" using t by (simp add: isTimePred_def)
  obtain b where "set_where (\<lambda>i. Some (matchDayWeek (ts ! i) p)) [0..<Rows r] (NewBitset (Rows r)) = Some b" "bitset_ok (Rows r) b"
    "\<forall>j. bit_at b j \<longleftrightarrow> j < Rows r \<and> matchDayWeek (ts ! j) p"
    using set_where_ok [OF NewBitset_ok(1), of "[0..<Rows r]" "Rows r" "\<lambda>i. Some (matchDayWeek (ts ! i) p)" "\<lambda>i. matchDayWeek (ts ! i) p"] by auto
  then show ?thesis using False k stamps stamps_len by (simp add: timePredBitset_def predMatchesRow_def row_stamp)
qed

lemma leafBitset_absent:
  assumes "\<not> present p" and co: "cache_coherent R r s"
  shows "\<exists>s'. leafBitset S G R r (Rows r) p s = Some (NewBitset (Rows r), s') \<and> cache_coherent R r s'"
proof (cases "vals (Field p)")
  case None
  then show ?thesis using assms no_column [OF None]
    by (simp add: leafBitset_def eqPredBitset_def predBitsetCol_def column_leaf_def)
next
  case (Some d)
  then have k: "\<not> isTimePred (Kind p)" "isFieldCmp (Kind p)" "vals (Field2 p) = None" using assms(1) by (auto simp: column_leaf_def)
  have "Kind p \<noteq> Eq" using k(2) by (auto simp: isFieldCmp_def)
  moreover obtain s' where "DictIndices R r s (Field p) = Some (Indices d, Dict d, s')" "cache_coherent R r s'" using indices [OF Some co] by blast
  ultimately show ?thesis using k no_column(1) [OF k(3)] by (auto simp: leafBitset_def predBitsetCol_def Let_def)
qed

lemma leafBitset_present:
  assumes S: "simd_ok S" and pr: "present p" and co: "cache_coherent R r s"
  shows "selects (\<lambda>i. predMatchesRow G p (row i)) (leafBitset S G R r (Rows r) p s)"
proof (cases "isTimePred (Kind p)")
  case True
  obtain b where "timePredBitset S R r p (Rows r) = Some b" "bitset_ok (Rows r) b" "\<forall>i < Rows r. bit_at b i \<longleftrightarrow> predMatchesRow G p (row i)"
    using timePredBitset_selects [OF S True, of G] by blast
  then show ?thesis using True co by (intro selectsI [of _ b s]) (simp_all add: leafBitset_def)
next
  case nt: False
  then obtain d where d: "vals (Field p) = Some d" using pr by (auto simp: column_leaf_def)
  show ?thesis
  proof (cases "Kind p = Eq")
    case True
    then show ?thesis using eqPredBitset_selects [OF S d True co, of G] nt by (simp add: leafBitset_def)
  next
    case False
    obtain s' where s': "DictIndices R r s (Field p) = Some (Indices d, Dict d, s')" "cache_coherent R r s'" using indices [OF d co] by blast
    then show ?thesis using predBitsetCol_selects [OF S d pr nt s'(2), of G] nt False by (simp add: leafBitset_def)
  qed
qed

lemma leafBitset_selects:
  assumes S: "simd_ok S" and co: "cache_coherent R r s"
  shows "selects (\<lambda>i. leaf_at G i p) (leafBitset S G R r (Rows r) p s)"
proof (cases "present p")
  case True
  then show ?thesis using leafBitset_present [OF S True co, of G] by simp
next
  case False
  then show ?thesis using leafBitset_absent [OF False co, of S G] by (auto intro: selectsI)
qed

lemma evalExpr_selects:
  assumes S: "simd_ok S"
  shows "cache_coherent R r s \<Longrightarrow> selects (\<lambda>i. exprHolds (leaf_at G i) e) (evalExpr S G R r (Rows r) e s)"
proof (induction e arbitrary: s)
  case (OpLeaf p)
  then show ?case using leafBitset_selects [OF S, of s p G] by simp
next
  note host = simd_host.intro [OF S]
  case (OpAnd ks)
  obtain b0 where b0: "SetAll (NewBitset (Rows r)) = Some b0" "bitset_ok (Rows r) b0" "\<forall>i. bit_at b0 i \<longleftrightarrow> i < Rows r"
    using simd_host.every_row [OF host, of "Rows r"] by blast
  have "\<exists>b' s'. fold_opt (combine (And S) (evalExpr S G R r (Rows r))) ks (b0, s) = Some (b', s') \<and> cache_coherent R r s' \<and> bitset_ok (Rows r) b'
    \<and> (\<forall>i < Rows r. bit_at b' i \<longleftrightarrow> bit_at b0 i \<and> (\<forall>k \<in> set ks. exprHolds (leaf_at G i) k))"
    by (rule simd_host.and_loop [where I = "cache_coherent R r", OF host _ b0(2) OpAnd.prems]) (use OpAnd.IH in \<open>force simp: selects_def\<close>)
  then show ?case using b0 by (auto simp: selects_def list_all_iff)
next
  note host = simd_host.intro [OF S]
  case (OpOr ks)
  have "\<exists>b' s'. fold_opt (combine (Or S) (evalExpr S G R r (Rows r))) ks (NewBitset (Rows r), s) = Some (b', s') \<and> cache_coherent R r s' \<and> bitset_ok (Rows r) b'
    \<and> (\<forall>i < Rows r. bit_at b' i \<longleftrightarrow> bit_at (NewBitset (Rows r)) i \<or> (\<exists>k \<in> set ks. exprHolds (leaf_at G i) k))"
    by (rule simd_host.or_loop [where I = "cache_coherent R r", OF host _ NewBitset_ok(1) OpOr.prems]) (use OpOr.IH in \<open>force simp: selects_def\<close>)
  then show ?case by (auto simp: selects_def list_ex_iff)
next
  note host = simd_host.intro [OF S]
  case (OpNot k)
  obtain b0 where b0: "SetAll (NewBitset (Rows r)) = Some b0" "bitset_ok (Rows r) b0" "\<forall>i. bit_at b0 i \<longleftrightarrow> i < Rows r"
    using simd_host.every_row [OF host, of "Rows r"] by blast
  obtain c s' where c: "evalExpr S G R r (Rows r) k s = Some (c, s')" "cache_coherent R r s'" "bitset_ok (Rows r) c"
    "\<forall>i < Rows r. bit_at c i \<longleftrightarrow> exprHolds (leaf_at G i) k" using OpNot.IH [of s] OpNot.prems by (auto simp: selects_def)
  show ?case
    by (rule selectsI [of _ "AndNot S b0 c" s']) (use b0 c simd_host.andnot_rows [OF host b0(2) c(3)] in simp_all)
qed

lemma matchBitset_selects:
  assumes S: "simd_ok S" and co: "cache_coherent R r s"
  shows "selects (\<lambda>i. in_window (From q) (To q) (ts ! i) \<and> queryHolds (leaf_at G i) q) (matchBitset S G R r q s)"
proof -
  note host = simd_host.intro [OF S]
  let ?n = "Rows r" and ?win = "\<lambda>i. in_window (From q) (To q) (ts ! i)"
  let ?windowed = "sint (TimeMin r) < sint (From q) \<or> sint (TimeMax r) \<ge> sint (To q)"
  obtain b0 where b0: "SetAll (NewBitset ?n) = Some b0" "bitset_ok ?n b0" "\<forall>i. bit_at b0 i \<longleftrightarrow> i < ?n"
    using simd_host.every_row [OF host, of ?n] by blast
  have "\<exists>sel. (if ?windowed then do { mask \<leftarrow> TimeRangeMaskInto r time_col (From q) (To q); tb \<leftarrow> packBools S (NewBitset ?n) mask; Some (And S b0 tb) }
      else Some b0) = Some sel \<and> bitset_ok ?n sel \<and> (\<forall>i < ?n. bit_at sel i \<longleftrightarrow> ?win i)"
  proof (cases ?windowed)
    case True
    obtain tb where tb: "packBools S (NewBitset ?n) (map (in_window (From q) (To q)) ts) = Some tb" "bitset_ok ?n tb"
      "\<forall>i. bit_at tb i \<longleftrightarrow> i < ?n \<and> ?win i" by (rule mask_selects [OF S])
    then show ?thesis using True stamp_mask b0 simd_host.and_rows [OF host b0(2) tb(2)] by auto
  next
    case False
    have "?win i" if "i < ?n" for i using stamp_bounds [of "ts ! i"] that stamps_len False by (auto simp: in_window_def)
    then show ?thesis using b0 by (auto simp: False)
  qed
  then obtain sel where sel: "(if ?windowed then do { mask \<leftarrow> TimeRangeMaskInto r time_col (From q) (To q); tb \<leftarrow> packBools S (NewBitset ?n) mask; Some (And S b0 tb) }
      else Some b0) = Some sel" "bitset_ok ?n sel" "\<forall>i < ?n. bit_at sel i \<longleftrightarrow> ?win i" by blast
  show ?thesis
  proof (cases "FilterE q")
    case None
    have "\<exists>b' s'. fold_opt (combine (And S) (leafBitset S G R r ?n)) (Preds q) (sel, s) = Some (b', s') \<and> cache_coherent R r s' \<and> bitset_ok ?n b'
      \<and> (\<forall>i < ?n. bit_at b' i \<longleftrightarrow> bit_at sel i \<and> (\<forall>p \<in> set (Preds q). leaf_at G i p))"
      by (rule simd_host.and_loop [where I = "cache_coherent R r", OF host _ sel(2) co])
        (use leafBitset_selects [OF S] in \<open>force simp: selects_def\<close>)
    then show ?thesis using b0(1) sel None by (auto simp: selects_def matchBitset_def queryHolds_def list_all_iff)
  next
    case (Some e)
    obtain c s' where c: "evalExpr S G R r ?n e s = Some (c, s')" "cache_coherent R r s'" "bitset_ok ?n c"
      "\<forall>i < ?n. bit_at c i \<longleftrightarrow> exprHolds (leaf_at G i) e"
      using evalExpr_selects [OF S co, of G e] by (auto simp: selects_def)
    show ?thesis
      by (rule selectsI [of _ "And S sel c" s'])
        (use b0(1) sel c Some simd_host.and_rows [OF host sel(2) c(3)] in \<open>simp_all add: matchBitset_def queryHolds_def\<close>)
  qed
qed

text \<open>On a query about columns the group has, this is the row evaluator.\<close>

lemma leaf_query: "queryHolds (leaf_at G i) q = scanMatchesRow G (\<lambda>f. vals f \<noteq> None) q (row i)"
  by (simp add: scanMatchesRow_def)

lemma matchBitset_present:
  assumes S: "simd_ok S" and pr: "\<forall>p \<in> set (query_leaves q). present p" and co: "cache_coherent R r s"
  shows "selects (\<lambda>i. in_window (From q) (To q) (ts ! i) \<and> queryMatchesRow G q (row i)) (matchBitset S G R r q s)"
  using matchBitset_selects [OF S co, of q G] by (simp only: leaf_query scanMatchesRow_present [OF pr])

lemma eq_prune:
  assumes "Kind p = Eq"
  shows "\<exists>x. DictContains R r (Field p) (Value p) = Some x \<and> (\<not> x \<longrightarrow> (\<forall>i < Rows r. \<not> leaf_at G i p))"
proof (cases "vals (Field p)")
  case None
  then show ?thesis using assms no_column(3) [OF None] by (auto simp: column_leaf_def isTimePred_def)
next
  case (Some d)
  have "values_of d ! i \<noteq> Value p" if "i < Rows r" "Value p \<notin> set (Dict d)" for i
    using dict_of(4,5) [OF Some that(1)] that(2) by (metis nth_mem)
  then show ?thesis using contains [OF Some, of "Value p"] row_field [OF _ Some] assms
    by (simp add: pred_cases isTimePred_def)
qed

lemma exprCanMatch_sound: "\<exists>x. exprCanMatch R r e = Some x \<and> (\<not> x \<longrightarrow> (\<forall>i < Rows r. \<not> exprHolds (leaf_at G i) e))"
proof (induction e)
  case (OpLeaf p)
  then show ?case using eq_prune [of p G] by (cases "Kind p = Eq \<and> ColumnExists r (Field p)") auto
next
  case (OpAnd ks)
  then show ?case
  proof (induction ks)
    case (Cons k ks)
    obtain x where x: "exprCanMatch R r k = Some x" "\<not> x \<longrightarrow> (\<forall>i < Rows r. \<not> exprHolds (leaf_at G i) k)"
      using Cons.prems(1) [of k] by auto
    obtain y where y: "exprCanMatch R r (OpAnd ks) = Some y" "\<not> y \<longrightarrow> (\<forall>i < Rows r. \<not> exprHolds (leaf_at G i) (OpAnd ks))"
      using Cons.IH Cons.prems by auto
    show ?case using x y by (cases x) auto
  qed auto
qed auto

lemma preds_can_match_sound: "\<exists>x. preds_can_match R r ps = Some x \<and> (\<not> x \<longrightarrow> (\<forall>i < Rows r. \<not> list_all (leaf_at G i) ps))"
proof (induction ps)
  case (Cons p ps)
  then obtain y where y: "preds_can_match R r ps = Some y" "\<not> y \<longrightarrow> (\<forall>i < Rows r. \<not> list_all (leaf_at G i) ps)" by auto
  show ?case
  proof (cases "Kind p = Eq \<and> ColumnExists r (Field p)")
    case True
    obtain x where "DictContains R r (Field p) (Value p) = Some x" "\<not> x \<longrightarrow> (\<forall>i < Rows r. \<not> leaf_at G i p)"
      using eq_prune [of p G] True by auto
    with True y show ?thesis by (cases x) auto
  next
    case False
    with y show ?thesis by auto
  qed
qed auto

lemma leaf_prepare: "column_leaf has (prepare_pred G p) = column_leaf has p" "predMatchesRow G (prepare_pred G p) src = predMatchesRow G p src"
  by (simp_all add: column_leaf_def prepare_pred_same prepare_pred_matches)

lemma groupCanMatch_sound:
  "\<exists>x. groupCanMatch G R r q = Some x \<and> (\<not> x \<longrightarrow> (\<forall>i < Rows r. \<not> queryHolds (leaf_at G i) q))"
proof (cases "FilterE q")
  case None
  from preds_can_match_sound [of "map (prepare_pred G) (Preds q)" G] show ?thesis
    using None by (simp add: groupCanMatch_def prepareRegexps_def queryHolds_def list_all_iff leaf_prepare)
next
  case (Some e)
  from exprCanMatch_sound [of "prepareExprRegexps G e" G] show ?thesis
    using Some by (simp add: groupCanMatch_def prepareRegexps_def queryHolds_def exprHolds_prepare leaf_prepare)
qed

end

section \<open>Written groups are readable\<close>

definition dict_col :: "Group \<Rightarrow> bytes \<Rightarrow> DictColumn option" where
  "dict_col g f = (case find (\<lambda>c. ColName c = f) (Columns g) of
     None \<Rightarrow> None | Some c \<Rightarrow> if ColTypeOf c = ColDict then ColDictOf c else None)"

definition group_times :: "Group \<Rightarrow> u64 list" where
  "group_times g = (case find (\<lambda>c. ColName c = time_col) (Columns g) of None \<Rightarrow> [] | Some c \<Rightarrow> ColTs c)"

definition column_cell :: "nat \<Rightarrow> Column \<Rightarrow> (bytes \<times> bytes) option" where
  "column_cell i c = (if ColTypeOf c = ColDict then map_option (\<lambda>d. (ColName c, values_of d ! i)) (ColDictOf c) else None)"

text \<open>Row \<open>i\<close> of a group as the decoded row an evaluator sees.\<close>

definition group_row :: "Group \<Rightarrow> nat \<Rightarrow> rowSource" where
  "group_row g i = rowOf \<lparr>Time = group_times g ! i, Fields = List.map_filter (column_cell i) (Columns g), NoTime = False\<rparr>"

lemma find_map_list: "find P (map f xs) = map_option f (find (\<lambda>x. P (f x)) xs)"
  by (induction xs) simp_all

lemma find_index: "find P xs = map_option (nth xs) (find (\<lambda>i. P (xs ! i)) [0..<length xs])"
proof (induction xs)
  case (Cons x xs)
  have "find (\<lambda>i. P ((x # xs) ! i)) [0..<length (x # xs)]
    = (if P x then Some 0 else map_option Suc (find (\<lambda>i. P (xs ! i)) [0..<length xs]))"
    by (simp add: upt_conv_Cons map_Suc_upt [symmetric] find_map_list del: upt_Suc)
  then show ?case using Cons by (auto simp: option.map_comp o_def)
qed simp

lemma col_of_index:
  assumes "col_of r ty name = Some m"
  obtains ci where "colIndex r name = Some ci" "ci < length (cols r)" "cols r ! ci = m" "Type m = ty"
proof -
  have c: "col r name = Some m" "Type m = ty" using assms by (auto simp: col_of_def split: option.splits if_splits)
  then obtain ci where "colIndex r name = Some ci" "cols r ! ci = m"
    using find_index [of "\<lambda>m. Name m = name" "cols r"] by (auto simp: col_def colIndex_def)
  moreover from this(1) have "ci < length (cols r)" by (auto simp: colIndex_def find_Some_iff)
  ultimately show thesis using that c(2) by blast
qed

lemma find_name:
  assumes "distinct (map ColName cs)" "c \<in> set cs"
  shows "find (\<lambda>c'. ColName c' = ColName c) cs = Some c"
  using assms
proof (induction cs)
  case (Cons a cs)
  show ?case
  proof (cases "ColName a = ColName c")
    case True
    then have "a = c" using Cons.prems by (auto simp: image_iff)
    then show ?thesis by simp
  next
    case False
    then show ?thesis using Cons by auto
  qed
qed simp

lemma find_map_filter:
  assumes "distinct (map ColName cs)" "c \<in> set cs" "ColTypeOf c = ColDict" "ColDictOf c = Some d"
  shows "find (\<lambda>f. fst f = ColName c) (List.map_filter (column_cell i) cs) = Some (ColName c, values_of d ! i)"
  using assms
proof (induction cs)
  case (Cons a cs)
  show ?case
  proof (cases "ColName a = ColName c")
    case True
    then have "a = c" using Cons.prems(1,2) by (auto simp: image_iff)
    then show ?thesis using Cons.prems(3,4) by (simp add: map_filter_simps column_cell_def)
  next
    case False
    then have "find (\<lambda>f. fst f = ColName c) (List.map_filter (column_cell i) cs) = Some (ColName c, values_of d ! i)" using Cons by auto
    moreover have "column_cell i a = Some f \<Longrightarrow> fst f = ColName a" for f by (auto simp: column_cell_def split: if_splits)
    ultimately show ?thesis using False by (auto simp: map_filter_simps split: option.split)
  qed
qed simp

lemma dict_colD:
  assumes "dict_col g f = Some d"
  obtains c where "c \<in> set (Columns g)" "ColName c = f" "ColTypeOf c = ColDict" "ColDictOf c = Some d"
proof -
  from assms obtain c where c: "find (\<lambda>c. ColName c = f) (Columns g) = Some c" "ColTypeOf c = ColDict" "ColDictOf c = Some d"
    by (auto simp: dict_col_def split: option.splits if_splits)
  then have "c \<in> set (Columns g)" "ColName c = f" by (auto simp: find_Some_iff)
  with c show thesis using that by blast
qed

text \<open>A group that was written, read back, and has a timestamp column \<^verbatim>\<open>_time\<close>.\<close>

locale written_group =
  fixes K :: group_kernels and R :: read_kernels and g :: Group and B :: bytes and r :: Reader
  assumes same: "same_kernels K R"
    and varints_ok: "rk_varint R (length xs) (concat (map put_uvarint xs)) = xs"
    and wf: "group_wf g" and nar: "list_all narrow (Columns g)" and names: "distinct (map ColName (Columns g))"
    and marshalled: "Marshal K g = Some B" and small: "length B < 2 ^ 32"
    and read_back: "ReadGroup B = Some (Inr r)"
    and timed: "list_ex (\<lambda>c. ColName c = time_col \<and> ColTypeOf c = ColTimestamp) (Columns g)" and nonempty: "0 < GRows g"
begin

lemma reader_facts:
  obtains e where "blob r = B" "Rows r = GRows g" "e \<le> length B" "list_all2 (written K g B e) (Columns g) (cols r)"
    "(TimeMin r, TimeMax r) = foldl time_step (0x7FFFFFFFFFFFFFFF, 0x8000000000000000)
        (concat (map ColTs (filter (\<lambda>c. ColTypeOf c = ColTimestamp) (Columns g))))"
proof -
  have k: "gkernels_ok K" using same by (simp add: same_kernels_def)
  show thesis
  proof (rule ReadGroup_Marshal [OF k wf nar marshalled small])
    fix r' e assume a: "ReadGroup B = Some (Inr r')" "blob r' = B" "Rows r' = GRows g" "e \<le> length B"
      "list_all2 (written K g B e) (Columns g) (cols r')"
      "(TimeMin r', TimeMax r') = (if GRows g = 0 then (0, 0) else foldl time_step (0x7FFFFFFFFFFFFFFF, 0x8000000000000000)
        (concat (map ColTs (filter (\<lambda>c. ColTypeOf c = ColTimestamp) (Columns g)))))"
    then have "r' = r" using read_back by simp
    with a nonempty show thesis using that [of e] by simp
  qed
qed

lemma rows_le: "Rows r \<le> MaxRows" "Rows r = GRows g"
proof -
  obtain e where "Rows r = GRows g" using reader_facts .
  then show "Rows r \<le> MaxRows" "Rows r = GRows g" using wf by (simp_all add: group_wf_def)
qed

lemma dict_facts:
  assumes "dict_col g f = Some d"
  obtains m e where "dict_wf (Rows r) d" "written_dict K g (blob r) e d m" "e \<le> length (blob r)" "length (blob r) < 2 ^ 32"
    "col_of r ColDict f = Some m"
proof -
  obtain c where c: "c \<in> set (Columns g)" "ColName c = f" "ColTypeOf c = ColDict" "ColDictOf c = Some d" using dict_colD [OF assms] .
  obtain e where e: "blob r = B" "Rows r = GRows g" "e \<le> length B" "list_all2 (written K g B e) (Columns g) (cols r)"
    using reader_facts .
  obtain m where m: "col_of r ColDict f = Some m" "written K g B e c m" using col_written [OF e(4) names c(1)] c by metis
  have "dict_wf (Rows r) d" using wf c e(2) by (auto simp: group_wf_def list_all_iff column_wf_def)
  moreover have "written_dict K g (blob r) e d m" using m(2) c e(1) by (simp add: written_def)
  ultimately show thesis using that m(1) e small by simp
qed

lemma time_facts:
  obtains m e where "length (group_times g) = Rows r" "DataLen m = length (encodeTimestamps (group_times g))"
    "holds (blob r) e (DataOff m) (encodeTimestamps (group_times g))" "e \<le> length (blob r)" "col_of r ColTimestamp time_col = Some m"
    "\<forall>t \<in> set (group_times g). sint (TimeMin r) \<le> sint t \<and> sint t \<le> sint (TimeMax r)"
proof -
  obtain c where c: "c \<in> set (Columns g)" "ColName c = time_col" "ColTypeOf c = ColTimestamp" using timed by (auto simp: list_ex_iff)
  obtain e where e: "blob r = B" "Rows r = GRows g" "e \<le> length B" "list_all2 (written K g B e) (Columns g) (cols r)"
    "(TimeMin r, TimeMax r) = foldl time_step (0x7FFFFFFFFFFFFFFF, 0x8000000000000000)
        (concat (map ColTs (filter (\<lambda>c. ColTypeOf c = ColTimestamp) (Columns g))))"
    using reader_facts .
  obtain m where m: "col_of r ColTimestamp time_col = Some m" "written K g B e c m" using col_written [OF e(4) names c(1)] c by metis
  have ts: "group_times g = ColTs c" using find_name [OF names c(1)] c(2) by (simp add: group_times_def)
  have "length (ColTs c) = Rows r" using wf c e(2) by (auto simp: group_wf_def list_all_iff column_wf_def col_types)
  moreover have "DataLen m = length (encodeTimestamps (ColTs c))" "holds (blob r) e (DataOff m) (encodeTimestamps (ColTs c))"
    using m(2) c e(1) by (simp_all add: written_def col_types)
  moreover have "\<forall>t \<in> set (ColTs c). sint (TimeMin r) \<le> sint t \<and> sint t \<le> sint (TimeMax r)"
    using time_fold [of _ _ _ "TimeMin r" "TimeMax r"] e(5) c by fastforce
  ultimately show thesis using that m(1) e unfolding ts by simp
qed

lemma indices_read:
  assumes "dict_col g f = Some d" and "cache_coherent R r s"
  shows "\<exists>s'. DictIndices R r s f = Some (Indices d, Dict d, s') \<and> cache_coherent R r s'"
    "\<exists>s'. DictIndicesRaw R r s f = Some (Indices d, s') \<and> cache_coherent R r s'"
proof -
  obtain m e where m: "dict_wf (Rows r) d" "written_dict K g (blob r) e d m" "e \<le> length (blob r)" "length (blob r) < 2 ^ 32"
    "col_of r ColDict f = Some m" using dict_facts [OF assms(1)] .
  obtain sec where sec: "dictSec_of r m = Some sec" "dictSectionAll (rk_dict R) sec (DictLen m) = Some (Dict d)"
    "decode_column R r m = Some (Indices d)"
    using dict_written [OF same m(1) rows_le(1) m(2-4)] by metis
  obtain ci where ci: "colIndex r f = Some ci" "ci < length (cols r)" "cols r ! ci = m" "Type m = ColDict" using col_of_index [OF m(5)] .
  obtain s' where "dictIndicesAt R r s ci = Some (Indices d, s')" "cache_coherent R r s'"
    using dictIndicesAt_coherent [OF assms(2) ci(2)] sec(3) ci(3) by blast
  then show "\<exists>s'. DictIndices R r s f = Some (Indices d, Dict d, s') \<and> cache_coherent R r s'"
    "\<exists>s'. DictIndicesRaw R r s f = Some (Indices d, s') \<and> cache_coherent R r s'"
    using ci sec by (simp_all add: DictIndices_def DictIndicesRaw_def)
qed

lemma lookups_read:
  assumes "dict_col g f = Some d"
  shows "DictContains R r f v = Some (v \<in> set (Dict d))"
    "DictID R r f v = Some (find (\<lambda>i. Dict d ! i = v) [0..<length (Dict d)])"
    "EqualityCount R r f v = Some None \<or> EqualityCount R r f v =
       Some (Some (find (\<lambda>i. Dict d ! i = v) [0..<length (Dict d)], length (filter (\<lambda>i. values_of d ! i = v) [0..<Rows r])))"
    "EqualityCount R r f v \<noteq> Some None \<Longrightarrow> EqualityRows R r f v = Some (Some (map of_nat (filter (\<lambda>i. values_of d ! i = v) [0..<Rows r])))"
proof -
  obtain m e where m: "dict_wf (Rows r) d" "written_dict K g (blob r) e d m" "e \<le> length (blob r)" "length (blob r) < 2 ^ 32"
    "col_of r ColDict f = Some m" using dict_facts [OF assms] .
  note ex = dict_reads_exact [OF same m(1) rows_le(1) m(2-5)]
  show "DictContains R r f v = Some (v \<in> set (Dict d))"
    "DictID R r f v = Some (find (\<lambda>i. Dict d ! i = v) [0..<length (Dict d)])" by (rule ex)+
  have np: "EqualityCount R r f v = Some None" if "NoPostings g"
    using m(2,5) that by (auto simp: EqualityCount_def written_dict_def)
  show "EqualityCount R r f v = Some None \<or> EqualityCount R r f v =
       Some (Some (find (\<lambda>i. Dict d ! i = v) [0..<length (Dict d)], length (filter (\<lambda>i. values_of d ! i = v) [0..<Rows r])))"
    using np ex(5) by blast
  show "EqualityCount R r f v \<noteq> Some None \<Longrightarrow> EqualityRows R r f v = Some (Some (map of_nat (filter (\<lambda>i. values_of d ! i = v) [0..<Rows r])))"
    using np ex(4) by blast
qed

lemma times_read:
  "length (group_times g) = Rows r" "Timestamps R r time_col = Some (group_times g)"
  "TimeRangeMaskInto r time_col from to = Some (map (in_window from to) (group_times g))"
  "t \<in> set (group_times g) \<Longrightarrow> sint (TimeMin r) \<le> sint t \<and> sint t \<le> sint (TimeMax r)"
proof -
  let ?ts = "group_times g"
  obtain m e where m: "length ?ts = Rows r" "DataLen m = length (encodeTimestamps ?ts)"
    "holds (blob r) e (DataOff m) (encodeTimestamps ?ts)" "e \<le> length (blob r)" "col_of r ColTimestamp time_col = Some m"
    "\<forall>t \<in> set ?ts. sint (TimeMin r) \<le> sint t \<and> sint t \<le> sint (TimeMax r)" using time_facts .
  have ne: "?ts \<noteq> []" "Rows r \<noteq> 0" using m(1) nonempty rows_le(2) by auto
  note ex = ts_reads_exact [OF m(1) rows_le(1) ne(1) m(2-5)]
  show "length ?ts = Rows r" by (rule m(1))
  show "TimeRangeMaskInto r time_col from to = Some (map (in_window from to) ?ts)" by (rule ex(2))
  show "t \<in> set ?ts \<Longrightarrow> sint (TimeMin r) \<le> sint t \<and> sint t \<le> sint (TimeMax r)" using m(6) by blast
  have d: "data_of r m = Some (encodeTimestamps ?ts)"
    using gslice_span [of "DataOff m" "DataLen m" "blob r"] m(2-4) by (simp add: data_of_def holds_def)
  have "decodeTimestamps (rk_varint R) (encodeTimestamps ?ts) (length ?ts) = Some ?ts"
  proof -
    obtain mn mx where lay: "ts_layout (encodeTimestamps ?ts) ?ts mn mx"
      using ts_encode_layout [OF ne(1)] m(1) rows_le(1) by (auto simp: MaxRows_def)
    have "rk_varint R (length ?ts) (ts_bytes ?ts) = ts_codes ?ts"
      using varints_ok [of "ts_codes ?ts"] by (simp add: ts_bytes_def uvar.puts_def)
    with lay show ?thesis by (rule decodeTimestamps_layout)
  qed
  then show "Timestamps R r time_col = Some ?ts" using m(1,5) d ne(2) by (simp add: Timestamps_def decodeTimestamps_def)
qed

lemma span_read:
  "\<exists>lo hi. TimeWindowSpan r time_col from to = Some (lo, hi) \<and> lo \<le> hi \<and> hi \<le> Rows r
     \<and> (\<forall>j < Rows r. in_window from to (group_times g ! j) \<longrightarrow> lo \<le> j \<and> j < hi)"
  "lo < hi \<Longrightarrow> hi \<le> Rows r \<Longrightarrow> TimestampsRangeInto dst r time_col lo hi = Some (take (hi - lo) (drop lo (group_times g)))"
proof -
  let ?ts = "group_times g"
  obtain m e where m: "length ?ts = Rows r" "DataLen m = length (encodeTimestamps ?ts)"
    "holds (blob r) e (DataOff m) (encodeTimestamps ?ts)" "e \<le> length (blob r)" "col_of r ColTimestamp time_col = Some m"
    using time_facts .
  have ne: "?ts \<noteq> []" using m(1) nonempty rows_le(2) by auto
  note ex = ts_reads_exact [OF m(1) rows_le(1) ne m(2-5)]
  show "\<exists>lo hi. TimeWindowSpan r time_col from to = Some (lo, hi) \<and> lo \<le> hi \<and> hi \<le> Rows r
     \<and> (\<forall>j < Rows r. in_window from to (?ts ! j) \<longrightarrow> lo \<le> j \<and> j < hi)" by (rule ex(4))
  show "lo < hi \<Longrightarrow> hi \<le> Rows r \<Longrightarrow> TimestampsRangeInto dst r time_col lo hi = Some (take (hi - lo) (drop lo ?ts))" by (rule ex(3))
qed

lemma absent_column:
  assumes "dict_col g f = None"
  shows "col_of r ColDict f = None"
proof (rule ccontr)
  assume "col_of r ColDict f \<noteq> None"
  then obtain m where m: "find (\<lambda>m. Name m = f) (cols r) = Some m" "Type m = ColDict"
    by (auto simp: col_of_def col_def split: option.splits if_splits)
  obtain e where e: "Rows r = GRows g" "list_all2 (written K g B e) (Columns g) (cols r)" using reader_facts .
  obtain i where i: "i < length (cols r)" "cols r ! i = m" "Name m = f" using m(1) by (auto simp: find_Some_iff)
  let ?c = "Columns g ! i"
  have c: "?c \<in> set (Columns g)" "written K g B e ?c m" using e(2) i by (auto simp: list_all2_conv_all_nth)
  then have ty: "ColName ?c = f" "ColTypeOf ?c = ColDict" using m(2) i(3) by (simp_all add: written_def)
  then have "ColDictOf ?c \<noteq> None" using wf c(1) by (auto simp: group_wf_def list_all_iff column_wf_def split: option.splits)
  moreover have "find (\<lambda>c. ColName c = f) (Columns g) = Some ?c" using find_name [OF names c(1)] ty(1) by simp
  ultimately show False using assms ty(2) by (simp add: dict_col_def)
qed

lemma absent_read:
  assumes "dict_col g f = None"
  shows "DictIndices R r s f = Some ([], [], s)" "EqualityCount R r f v = Some None" "DictContains R r f v = Some False"
    "DictIndicesRaw R r s f = Some ([], s)" "DictValueAt R r f i = Some None"
proof -
  note absent = absent_column [OF assms]
  show "EqualityCount R r f v = Some None" "DictContains R r f v = Some False" "DictValueAt R r f i = Some None"
    using absent by (simp_all add: EqualityCount_def DictContains_def DictValueAt_def)
  have "colIndex r f = Some ci \<Longrightarrow> Type (cols r ! ci) \<noteq> ColDict" for ci
  proof -
    assume ci: "colIndex r f = Some ci"
    then have "find (\<lambda>m. Name m = f) (cols r) = Some (cols r ! ci)" using find_index [of "\<lambda>m. Name m = f" "cols r"] by (simp add: colIndex_def)
    then show ?thesis using absent by (simp add: col_of_def col_def split: if_splits)
  qed
  then show "DictIndices R r s f = Some ([], [], s)" "DictIndicesRaw R r s f = Some ([], s)"
    by (cases "colIndex r f"; simp add: DictIndices_def DictIndicesRaw_def)+
qed

lemma row_read:
  assumes "dict_col g f = Some d"
  shows "src_field (group_row g i) f = values_of d ! i"
proof -
  obtain c where c: "c \<in> set (Columns g)" "ColName c = f" "ColTypeOf c = ColDict" "ColDictOf c = Some d" using dict_colD [OF assms] .
  from find_map_filter [OF names c(1,3,4), of i] show ?thesis by (simp add: group_row_def rowField_def rowFieldOK_def c(2))
qed

end

sublocale written_group \<subseteq> readable_group R r "group_times g" "dict_col g" "group_row g"
proof
  fix f d assume d: "dict_col g f = Some d"
  show "dict_wf (Rows r) d" using dict_facts [OF d] by metis
  show "src_field (group_row g i) f = values_of d ! i" for i by (rule row_read [OF d])
  show "EqualityCount R r f v = Some None \<or> EqualityCount R r f v =
     Some (Some (find (\<lambda>i. Dict d ! i = v) [0..<length (Dict d)], length (filter (\<lambda>i. values_of d ! i = v) [0..<Rows r])))" for v
    by (rule lookups_read(3) [OF d])
qed (use rows_le in \<open>simp_all add: indices_read lookups_read times_read absent_read MaxRows_def group_row_def\<close>)

context written_group
begin

lemmas scan_selects = matchBitset_present and any_scan_selects = matchBitset_selects and skip_sound = groupCanMatch_sound
lemmas tree_selects = evalExpr_selects and selection = selects_def

lemma scanned_rows:
  assumes "simd_ok S" and "cache_coherent R r s"
  shows "\<exists>b s'. matchBitset S G R r q s = Some (b, s') \<and> cache_coherent R r s' \<and> bitset_ok (Rows r) b
    \<and> ForEach b = filter (\<lambda>i. in_window (From q) (To q) (group_times g ! i) \<and> scanMatchesRow G (\<lambda>f. dict_col g f \<noteq> None) q (group_row g i)) [0..<GRows g]"
proof -
  obtain b s' where b: "matchBitset S G R r q s = Some (b, s')" "cache_coherent R r s'" "bitset_ok (Rows r) b"
    "\<forall>i < Rows r. bit_at b i \<longleftrightarrow> in_window (From q) (To q) (group_times g ! i) \<and> scanMatchesRow G (\<lambda>f. dict_col g f \<noteq> None) q (group_row g i)"
    using matchBitset_selects [OF assms, of q G] unfolding selects_def leaf_query by blast
  have "ForEach b = filter (bit_at b) [0..<GRows g]" using rows_of_filter [OF b(3)] rows_le(2) by (simp add: ForEach_rows)
  also have "\<dots> = filter (\<lambda>i. in_window (From q) (To q) (group_times g ! i) \<and> scanMatchesRow G (\<lambda>f. dict_col g f \<noteq> None) q (group_row g i)) [0..<GRows g]"
    by (rule filter_cong [OF refl]) (use b(4) rows_le(2) in simp)
  finally show ?thesis using b(1-3) by blast
qed

lemma skipped_rows:
  "\<exists>x. groupCanMatch G R r q = Some x
    \<and> (\<not> x \<longrightarrow> (\<forall>i < GRows g. \<not> scanMatchesRow G (\<lambda>f. dict_col g f \<noteq> None) q (group_row g i)))"
  using groupCanMatch_sound [of G q] unfolding leaf_query rows_le(2) .

end

text \<open>The development's example group, read back.\<close>

definition demo_blob :: bytes where
  "demo_blob = (case Marshal demo_kernels demo_group of Some b \<Rightarrow> b | None \<Rightarrow> [])"

definition demo_reader :: Reader where
  "demo_reader = (case ReadGroup demo_blob of Some (Inr r) \<Rightarrow> r | _ \<Rightarrow> \<lparr>blob = [], Rows = 0, TimeMin = 0, TimeMax = 0, cols = []\<rparr>)"

lemma demo_blob: "Marshal demo_kernels demo_group = Some demo_blob"
proof -
  obtain B where "Marshal demo_kernels demo_group = Some B" using Marshal_total [OF demo_wf] .
  then show ?thesis by (simp add: demo_blob_def)
qed

lemma demo_fits:
  "list_all narrow (Columns demo_group)" "distinct (map ColName (Columns demo_group))"
  "list_ex (\<lambda>c. ColName c = time_col \<and> ColTypeOf c = ColTimestamp) (Columns demo_group)" "0 < GRows demo_group"
  by (simp_all add: demo_group_def narrow_def col_types time_col_def)

lemma demo_reader: "ReadGroup demo_blob = Some (Inr demo_reader)"
proof -
  obtain r e where "ReadGroup demo_blob = Some (Inr r)"
    using ReadGroup_Marshal [OF demo_kernels_ok demo_wf demo_fits(1) demo_blob demo_small [OF demo_blob]] .
  then show ?thesis by (simp add: demo_reader_def)
qed

lemma demo_varints: "rk_varint demo_read (length xs) (concat (map put_uvarint xs)) = xs"
  by (simp add: demo_read_def varints_puts)

interpretation demo_log: written_group demo_kernels demo_read demo_group demo_blob demo_reader
  by unfold_locales (rule demo_same demo_varints demo_wf demo_fits demo_blob demo_small [OF demo_blob] demo_reader)+

section \<open>Properties\<close>

text \<open>C7: The columnar scan equals the scalar evaluator.  For any group that was written and read back, any query and any
  coherent index cache, the selection the engine builds from postings, vector
  compares, dictionary hit tables, packed time masks and word-wise AND, OR and AND-NOT is, in ascending order, exactly the
  rows inside the query's window for which the boolean tree holds, where a leaf says of a row what the row-by-row evaluator of
  \<^verbatim>\<open>| filter\<close> says, and of a column the group lacks nothing; so on a query about columns of the group it is the row
  evaluator.  No step panics and the cache stays coherent.  It holds for every predicate kind, on either byte order, with and without
  postings, and whatever the floating-point, regular-expression and case-folding functions of the standard library compute.\<close>

theorem scan_equals_row_filter:
  assumes "simd_ok S" and "same_kernels K R" and "\<And>xs. rk_varint R (length xs) (concat (map put_uvarint xs)) = xs"
    and "group_wf g" and "list_all narrow (Columns g)" and "distinct (map ColName (Columns g))"
    and "Marshal K g = Some B" and "length B < 2 ^ 32"
    and "list_ex (\<lambda>c. ColName c = time_col \<and> ColTypeOf c = ColTimestamp) (Columns g)" and "0 < GRows g"
    and "ReadGroup B = Some (Inr r)" and "cache_coherent R r s"
  shows "\<exists>b s'. matchBitset S G R r q s = Some (b, s') \<and> cache_coherent R r s'
    \<and> ForEach b = filter (\<lambda>i. in_window (From q) (To q) (group_times g ! i) \<and> scanMatchesRow G (\<lambda>f. dict_col g f \<noteq> None) q (group_row g i)) [0..<GRows g]
    \<and> ((\<forall>p \<in> set (query_leaves q). column_leaf (\<lambda>f. dict_col g f \<noteq> None) p) \<longrightarrow>
        ForEach b = filter (\<lambda>i. in_window (From q) (To q) (group_times g ! i) \<and> queryMatchesRow G q (group_row g i)) [0..<GRows g])"
proof -
  have w: "written_group K R g B r" by (rule written_group.intro) (rule assms(2-))+
  obtain b s' where b: "matchBitset S G R r q s = Some (b, s')" "cache_coherent R r s'"
    "ForEach b = filter (\<lambda>i. in_window (From q) (To q) (group_times g ! i) \<and> scanMatchesRow G (\<lambda>f. dict_col g f \<noteq> None) q (group_row g i)) [0..<GRows g]"
    using written_group.scanned_rows [OF w assms(1,12), of G q] by blast
  moreover have "ForEach b = filter (\<lambda>i. in_window (From q) (To q) (group_times g ! i) \<and> queryMatchesRow G q (group_row g i)) [0..<GRows g]"
    if "\<forall>p \<in> set (query_leaves q). column_leaf (\<lambda>f. dict_col g f \<noteq> None) p"
    unfolding b(3) by (simp only: scanMatchesRow_present [OF that])
  ultimately show ?thesis by blast
qed

text \<open>A query over the example group: the rows whose field \<^verbatim>\<open>l\<close> is not \<^verbatim>\<open>b\<close>, in the window 0 to 100.\<close>

definition demo_golib :: "(nat, unit) golib" where
  "demo_golib = \<lparr>ParseFloat = (\<lambda>s. None), f_less = (<), f_eq = (=), f_of_int = (\<lambda>n. n), f_to_u32 = of_nat,
     ToLower = (\<lambda>s. s), Compile = (\<lambda>s. None), MatchString = (\<lambda>_ _. False)\<rparr>"

definition demo_pred :: "PredKind \<Rightarrow> bytes \<Rightarrow> bytes \<Rightarrow> (nat, unit) Pred" where
  "demo_pred k f v = \<lparr>Field = f, Field2 = [], Value = v, Value2 = [], Values = [], re = None, Num = 0, Num2 = 0,
     T1 = 0, T2 = 0, ExLo = False, ExHi = False, Rel = False, Kind = k\<rparr>"

definition demo_query :: "(nat, unit) Query" where
  "demo_query = \<lparr>From = 0, To = 100, ToSet = True, Now = 0, NowSet = True, Preds = [],
     FilterE = Some (OpNot (OpLeaf (demo_pred Eq [108] [98]))), Pipes = []\<rparr>"

definition demo_cache :: idx_cache where
  "demo_cache = \<lparr>ic_slots = map (\<lambda>_. None) (cols demo_reader), ic_used = 0, ic_budget = 1000\<rparr>"

lemma demo_cache_coherent: "cache_coherent R demo_reader demo_cache"
  by (simp add: cache_coherent_def demo_cache_def o_def slot_size_def sum_list_triv)

lemma demo_query_fields:
  "\<forall>p \<in> set (query_leaves demo_query). column_leaf (\<lambda>f. dict_col demo_group f \<noteq> None) p"
  by (simp add: column_leaf_def query_leaves_def demo_query_def demo_pred_def dict_col_def demo_group_def col_types isFieldCmp_def)

lemma demo_rows:
  "queryMatchesRow demo_golib demo_query (group_row demo_group i) \<longleftrightarrow> values_of \<lparr>Dict = [[97], [98]], Indices = [1, 0]\<rparr> ! i \<noteq> [98]"
  by (simp add: queryMatchesRow_def demo_query_def demo_pred_def predMatchesRow_def isFieldCmp_def group_row_def rowField_def
      rowFieldOK_def demo_group_def map_filter_simps column_cell_def col_types)

theorem scan_equals_row_filter_witness:
  "\<exists>b s'. matchBitset ref_simd demo_golib demo_read demo_reader demo_query demo_cache = Some (b, s') \<and> ForEach b = [1]"
proof -
  note w = scan_equals_row_filter [OF ref_host.host_ok demo_same demo_varints demo_wf demo_fits(1,2) demo_blob demo_small [OF demo_blob]
    demo_fits(3,4) demo_reader demo_cache_coherent, of demo_golib demo_query]
  have "GRows demo_group = 2" "group_times demo_group = [5, 9]" "From demo_query = 0" "To demo_query = 100"
    by (simp_all add: demo_group_def group_times_def time_col_def demo_query_def)
  then have "filter (\<lambda>i. in_window (From demo_query) (To demo_query) (group_times demo_group ! i)
      \<and> queryMatchesRow demo_golib demo_query (group_row demo_group i)) [0..<GRows demo_group] = [1]"
    by (simp add: demo_rows upt_rec values_of_def in_window_def)
  then show ?thesis using w demo_query_fields by auto
qed

text \<open>Skipping a group from its footer loses no row.  The footer test of a query always answers, and when it says the group
  cannot match, the scan would select no row of the group; compiling the regular expressions first, as the test does,
  changes no answer.\<close>

theorem skipped_group_has_no_match:
  assumes "same_kernels K R" and "\<And>xs. rk_varint R (length xs) (concat (map put_uvarint xs)) = xs"
    and "group_wf g" and "list_all narrow (Columns g)" and "distinct (map ColName (Columns g))"
    and "Marshal K g = Some B" and "length B < 2 ^ 32"
    and "list_ex (\<lambda>c. ColName c = time_col \<and> ColTypeOf c = ColTimestamp) (Columns g)" and "0 < GRows g"
    and "ReadGroup B = Some (Inr r)"
  shows "\<exists>x. groupCanMatch G R r q = Some x
    \<and> (\<not> x \<longrightarrow> (\<forall>i < GRows g. \<not> scanMatchesRow G (\<lambda>f. dict_col g f \<noteq> None) q (group_row g i)))"
proof -
  have w: "written_group K R g B r" by (rule written_group.intro) (rule assms)+
  show ?thesis by (rule written_group.skipped_rows [OF w])
qed

theorem skipped_group_has_no_match_witness:
  "\<exists>x. groupCanMatch demo_golib demo_read demo_reader (demo_query\<lparr>FilterE := Some (OpLeaf (demo_pred Eq [108] [99]))\<rparr>) = Some x
     \<and> (\<not> x \<longrightarrow> \<not> scanMatchesRow demo_golib (\<lambda>f. dict_col demo_group f \<noteq> None) (demo_query\<lparr>FilterE := Some (OpLeaf (demo_pred Eq [108] [99]))\<rparr>) (group_row demo_group 1))"
proof -
  have "1 < GRows demo_group" by (simp add: demo_group_def)
  with skipped_group_has_no_match [OF demo_same demo_varints demo_wf demo_fits(1,2) demo_blob demo_small [OF demo_blob]
    demo_fits(3,4) demo_reader, of demo_golib "demo_query\<lparr>FilterE := Some (OpLeaf (demo_pred Eq [108] [99]))\<rparr>"] show ?thesis by blast
qed

text \<open>On a field a group does not have, the two evaluators part: the scan selects no row for any predicate that is not about
  time, while the row evaluator tests the empty string, so a predicate the empty string satisfies (here, containing
  the empty string) holds of every such row under \<^verbatim>\<open>| filter\<close> and of none in the scan.\<close>

theorem absent_field_divergence:
  assumes "colIndex r (Field p) = None" and "\<not> isTimePred (Kind p)" and "rowFieldOK rw (Field p) = None"
  shows "leafBitset S G K r n p s = Some (NewBitset n, s) \<and> ForEach (NewBitset n) = []
    \<and> (Kind p = Contains \<and> Value p = [] \<longrightarrow> predMatchesRow G p (rowOf rw))"
proof -
  have "find (\<lambda>m. Name m = Field p) (cols r) = None"
    using find_index [of "\<lambda>m. Name m = Field p" "cols r"] assms(1) by (simp add: colIndex_def)
  then have "col_of r ColDict (Field p) = None" by (simp add: col_of_def col_def)
  then have "leafBitset S G K r n p s = Some (NewBitset n, s)"
    using assms(1,2) by (simp add: leafBitset_def eqPredBitset_def EqualityCount_def DictIndices_def predBitsetCol_def)
  moreover have "predMatchesRow G p (rowOf rw)" if "Kind p = Contains" "Value p = []"
    using that by (simp add: predMatchesRow_def isFieldCmp_def containsSubstr_def)
  moreover have "ForEach (NewBitset n) = []" by (simp add: ForEach_rows rows_of_def)
  ultimately show ?thesis by blast
qed

theorem absent_field_divergence_witness:
  "leafBitset ref_simd demo_golib demo_read \<lparr>blob = tiny_blob, Rows = 0, TimeMin = 0, TimeMax = 0, cols = []\<rparr> 1
     (demo_pred Contains [122] []) demo_cache = Some (NewBitset 1, demo_cache)
   \<and> predMatchesRow demo_golib (demo_pred Contains [122] []) (rowOf \<lparr>Time = 5, Fields = [], NoTime = False\<rparr>)"
  using absent_field_divergence [of "\<lparr>blob = tiny_blob, Rows = 0, TimeMin = 0, TimeMax = 0, cols = []\<rparr>" "demo_pred Contains [122] []"
    "\<lparr>Time = 5, Fields = [], NoTime = False\<rparr>"]
  by (simp add: colIndex_def isTimePred_def rowFieldOK_def demo_pred_def)

end
