(* ===== verification/TimeFilter.thy ===== *)
theory TimeFilter
  imports Scan
begin

unbundle bit_operations_syntax

text \<open>
  The in-query time filters of \<^verbatim>\<open>internal/query/time_filter.go\<close>: saturating 64-bit arithmetic, compound durations,
  minute-of-day and weekday ranges, the resolution of relative bounds against the request time, and the narrowing of the
  scan window.  Times and durations are \<^verbatim>\<open>int64\<close>, 64-bit words read with \<open>sint\<close>; an error return is \<open>None\<close>.

  \<^verbatim>\<open>time.Now\<close> is the argument \<open>clock\<close>.  A pipe is one of the two kinds that carry filter expressions, or another kind,
  which no function here touches.  Absolute timestamps (\<^verbatim>\<open>parseAbsTime\<close> and the parsers built on it) go through Go's
  calendar parser and are not modelled.
\<close>

section \<open>Saturating arithmetic\<close>

definition MaxInt64 :: u64 where "MaxInt64 = 0x7FFFFFFFFFFFFFFF"
definition MinInt64 :: u64 where "MinInt64 = 0x8000000000000000"

text \<open>Go's integer division truncates towards zero, and wraps on the one quotient that does not fit (the least integer by -1).\<close>

definition quot :: "int \<Rightarrow> int \<Rightarrow> int" where
  "quot a b = sgn a * sgn b * (\<bar>a\<bar> div \<bar>b\<bar>)"

definition quot64 :: "u64 \<Rightarrow> u64 \<Rightarrow> u64" where
  "quot64 a b = word_of_int (quot (sint a) (sint b))"

definition SatAdd :: "u64 \<Rightarrow> u64 \<Rightarrow> u64" where
  "SatAdd a b = (if sint b > 0 \<and> sint a > sint (MaxInt64 - b) then MaxInt64
     else if sint b < 0 \<and> sint a < sint (MinInt64 - b) then MinInt64
     else a + b)"

definition SatScale :: "u64 \<Rightarrow> u64 \<Rightarrow> u64" where
  "SatScale n unit = (if unit = 0 then 0
     else if sint n > sint (quot64 MaxInt64 unit) then MaxInt64
     else if sint n < sint (quot64 MinInt64 unit) then MinInt64
     else n * unit)"

definition clamp :: "int \<Rightarrow> int" where
  "clamp x = max (- (2 ^ 63)) (min (2 ^ 63 - 1) x)"

lemma sint_range: "- (2 ^ 63) \<le> sint (a :: u64)" "sint (a :: u64) < 2 ^ 63"
  using sint_greater_eq [of a] sint_less [of a] by simp_all

lemma sint_limits [simp]: "sint MaxInt64 = 2 ^ 63 - 1" "sint MinInt64 = - (2 ^ 63)"
  by (simp_all add: MaxInt64_def MinInt64_def)

lemma sint_of_int: "- (2 ^ 63) \<le> x \<Longrightarrow> x < 2 ^ 63 \<Longrightarrow> sint (word_of_int x :: u64) = x"
  by (simp add: int_word_sint)

lemma sint_arith:
  "sint (a + b :: u64) = sint (word_of_int (sint a + sint b) :: u64)"
  "sint (a - b :: u64) = sint (word_of_int (sint a - sint b) :: u64)"
  "sint (a * b :: u64) = sint (word_of_int (sint a * sint b) :: u64)"
  "sint (- a :: u64) = sint (word_of_int (- sint a) :: u64)"
  by simp_all

lemma sint_add: "- (2 ^ 63) \<le> sint a + sint b \<Longrightarrow> sint a + sint b < 2 ^ 63 \<Longrightarrow> sint (a + b :: u64) = sint a + sint b"
  unfolding sint_arith(1) by (rule sint_of_int)

lemma sint_sub: "- (2 ^ 63) \<le> sint a - sint b \<Longrightarrow> sint a - sint b < 2 ^ 63 \<Longrightarrow> sint (a - b :: u64) = sint a - sint b"
  unfolding sint_arith(2) by (rule sint_of_int)

lemma sint_mult: "- (2 ^ 63) \<le> sint a * sint b \<Longrightarrow> sint a * sint b < 2 ^ 63 \<Longrightarrow> sint (a * b :: u64) = sint a * sint b"
  unfolding sint_arith(3) by (rule sint_of_int)

lemma SatAdd_clamp: "sint (SatAdd a b) = clamp (sint a + sint b)"
proof -
  note r = sint_range [of a] sint_range [of b]
  consider "sint b > 0" | "sint b < 0" | "sint b = 0" by linarith
  then show ?thesis
  proof cases
    case 1
    then have m: "sint (MaxInt64 - b) = 2 ^ 63 - 1 - sint b" using sint_sub [of MaxInt64 b] r by simp
    show ?thesis using 1 r m sint_add [of a b] by (auto simp: SatAdd_def clamp_def)
  next
    case 2
    then have m: "sint (MinInt64 - b) = - (2 ^ 63) - sint b" using sint_sub [of MinInt64 b] r by simp
    show ?thesis using 2 r m sint_add [of a b] by (auto simp: SatAdd_def clamp_def)
  next
    case 3
    then show ?thesis using r sint_add [of a b] by (simp add: SatAdd_def clamp_def)
  qed
qed

lemma le_div_int: "0 < n \<Longrightarrow> q \<le> m div n \<longleftrightarrow> q * n \<le> (m :: int)"
proof
  assume n: "0 < n"
  show "q * n \<le> m" if "q \<le> m div n"
    using mult_right_mono [OF that, of n] n pos_mod_sign [OF n, of m] div_mult_mod_eq [of m n] by linarith
  show "q \<le> m div n" if "q * n \<le> m" using zdiv_mono1 [OF that n] n by simp
qed

lemma SatScale_clamp:
  assumes "sint unit > 0"
  shows "sint (SatScale n unit) = clamp (sint n * sint unit)"
proof -
  let ?n = "sint n" and ?u = "sint unit"
  have u: "unit \<noteq> 0" using assms by auto
  have d: "0 \<le> a div ?u" "a div ?u \<le> a" if "0 \<le> a" for a
    using assms that zdiv_mono2 [of a 1 ?u] by (simp_all add: pos_imp_zdiv_nonneg_iff)
  have q: "sint (quot64 MaxInt64 unit) = (2 ^ 63 - 1) div ?u" "sint (quot64 MinInt64 unit) = - (2 ^ 63 div ?u)"
    using assms d [of "2 ^ 63 - 1"] d [of "2 ^ 63"] sint_of_int [of "- (2 ^ 63 div ?u)"]
    by (simp_all add: quot64_def quot_def sint_of_int)
  have hi: "?n > (2 ^ 63 - 1) div ?u \<longleftrightarrow> ?n * ?u > 2 ^ 63 - 1"
    using le_div_int [OF assms, of ?n "2 ^ 63 - 1"] by linarith
  have lo: "?n < - (2 ^ 63 div ?u) \<longleftrightarrow> ?n * ?u < - (2 ^ 63)"
  proof -
    have "- ?n \<le> 2 ^ 63 div ?u \<longleftrightarrow> - ?n * ?u \<le> 2 ^ 63" by (rule le_div_int [OF assms])
    then show ?thesis by simp linarith
  qed
  show ?thesis using u hi lo sint_mult [of n unit] unfolding SatScale_def clamp_def q by (auto simp: sint_limits)
qed

section \<open>Durations\<close>

text \<open>The unit table, in nanoseconds.\<close>

definition unit_ns :: "byte \<Rightarrow> u64 option" where
  "unit_ns c = (if c = 115 then Some 1000000000 else if c = 109 then Some 60000000000 else if c = 104 then Some 3600000000000
     else if c = 100 then Some 86400000000000 else if c = 119 then Some 604800000000000 else None)"

definition is_digit :: "byte \<Rightarrow> bool" where
  "is_digit c \<longleftrightarrow> 48 \<le> c \<and> c \<le> 57"

function duration_from :: "bytes \<Rightarrow> u64 \<Rightarrow> u64 option" where
  "duration_from s acc = (if s = [] then Some acc else
     let ds = takeWhile is_digit s; rest = dropWhile is_digit s in
     case rest of
       [] \<Rightarrow> None
     | u # rest' \<Rightarrow> if ds = [] then None else
         (case Atoi ds of None \<Rightarrow> None | Some num \<Rightarrow>
           (case unit_ns u of None \<Rightarrow> None | Some mult \<Rightarrow> duration_from rest' (SatAdd acc (SatScale (word_of_int num) mult)))))"
  by pat_completeness auto
termination
proof (relation "measure (\<lambda>(s, acc). length s)")
  fix s :: bytes and acc x xa x21 x22 x2 x2a
  assume "xa = dropWhile is_digit s" "xa = x21 # x22"
  then have "length (x21 # x22) \<le> length s" using length_dropWhile_le [of is_digit s] by simp
  then show "((x22, SatAdd acc (SatScale (word_of_int x2) x2a)), s, acc) \<in> measure (\<lambda>(s, acc). length s)" by simp
qed simp

declare duration_from.simps [simp del]

definition parseDurationNs :: "bytes \<Rightarrow> u64 option" where
  "parseDurationNs s = (if s = [] then None else duration_from s 0)"

text \<open>A written duration: digits and a unit, repeated; its length in nanoseconds is a number without bound.\<close>

definition duration_text :: "(bytes \<times> byte) list \<Rightarrow> bytes" where
  "duration_text cs = concat (map (\<lambda>(ds, u). ds @ [u]) cs)"

definition component_ok :: "bytes \<times> byte \<Rightarrow> bool" where
  "component_ok c \<longleftrightarrow> fst c \<noteq> [] \<and> list_all is_digit (fst c) \<and> digits_val (fst c) < 2 ^ 63 \<and> unit_ns (snd c) \<noteq> None"

definition duration_ns :: "(bytes \<times> byte) list \<Rightarrow> int" where
  "duration_ns cs = sum_list (map (\<lambda>(ds, u). digits_val ds * sint (the (unit_ns u))) cs)"

lemma unit_ns_pos: "unit_ns c = Some m \<Longrightarrow> sint m > 0 \<and> \<not> is_digit c"
  by (auto simp: unit_ns_def is_digit_def split: if_splits)

lemma digits_val_nonneg: "list_all is_digit s \<Longrightarrow> 0 \<le> digits_val s"
proof -
  have "0 \<le> n \<Longrightarrow> list_all is_digit s \<Longrightarrow> 0 \<le> foldl (\<lambda>n c. n * 10 + (int (unat c) - 48)) n s" for n
  proof (induction s arbitrary: n)
    case (Cons c s)
    have "48 \<le> uint c" using Cons.prems by (simp add: is_digit_def word_le_def)
    then show ?case using Cons by simp
  qed simp
  then show "list_all is_digit s \<Longrightarrow> 0 \<le> digits_val s" by (simp add: digits_val_def)
qed

lemma Atoi_digits:
  assumes "ds \<noteq> []" "list_all is_digit ds" "digits_val ds < 2 ^ 63"
  shows "Atoi ds = Some (digits_val ds)"
proof -
  obtain c r where c: "ds = c # r" "is_digit c" using assms(1,2) by (cases ds) auto
  then have "c \<noteq> 45" "c \<noteq> 43" by (auto simp: is_digit_def)
  moreover have "list_all (\<lambda>c. 48 \<le> c \<and> c \<le> 57) ds" using assms(2) by (simp add: is_digit_def list_all_iff)
  ultimately show ?thesis using digits_val_nonneg [OF assms(2)] assms(3) c(1) by (simp add: Atoi_def)
qed

lemma clamp_nonneg_add: "0 \<le> x \<Longrightarrow> 0 \<le> y \<Longrightarrow> clamp (clamp x + clamp y) = clamp (x + y)"
  by (auto simp: clamp_def)

lemma duration_from_text:
  "list_all component_ok cs \<Longrightarrow> 0 \<le> T \<Longrightarrow> sint acc = clamp T \<Longrightarrow>
   \<exists>d. duration_from (duration_text cs) acc = Some d \<and> sint d = clamp (T + duration_ns cs)"
proof (induction cs arbitrary: T acc)
  case Nil
  then show ?case by (simp add: duration_from.simps duration_text_def duration_ns_def)
next
  case (Cons c cs)
  obtain ds u where c: "c = (ds, u)" by (cases c)
  then have ok: "ds \<noteq> []" "list_all is_digit ds" "digits_val ds < 2 ^ 63" "unit_ns u \<noteq> None"
    using Cons.prems(1) by (simp_all add: component_ok_def)
  then obtain m where m: "unit_ns u = Some m" by blast
  have u: "sint m > 0" "\<not> is_digit u" using unit_ns_pos [OF m] by simp_all
  let ?r = "duration_text cs" and ?v = "digits_val ds * sint m"
  let ?t = "SatAdd acc (SatScale (word_of_int (digits_val ds)) m)"
  have tx: "duration_text (c # cs) = ds @ u # ?r" by (simp add: duration_text_def c)
  have tw: "takeWhile is_digit (ds @ u # ?r) = ds" "dropWhile is_digit (ds @ u # ?r) = u # ?r"
    using ok(2) u(2) by (simp_all add: list_all_iff takeWhile_append2 dropWhile_append2)
  have dv: "0 \<le> digits_val ds" by (rule digits_val_nonneg [OF ok(2)])
  then have pos: "0 \<le> ?v" using u(1) by simp
  have "sint (word_of_int (digits_val ds) :: u64) = digits_val ds" using dv ok(3) by (intro sint_of_int) simp_all
  then have "sint ?t = clamp (clamp T + clamp ?v)" by (simp add: SatAdd_clamp SatScale_clamp [OF u(1)] Cons.prems(3))
  then have t: "sint ?t = clamp (T + ?v)" by (simp add: clamp_nonneg_add [OF Cons.prems(2) pos])
  have "duration_from (duration_text (c # cs)) acc = duration_from ?r ?t"
    unfolding tx using ok tw m Atoi_digits [OF ok(1-3)] by (subst duration_from.simps) (simp add: Let_def)
  moreover obtain d where "duration_from ?r ?t = Some d" "sint d = clamp (T + ?v + duration_ns cs)"
    using Cons.IH [of "T + ?v" ?t] Cons.prems(1,2) pos t by auto
  ultimately show ?case by (simp add: duration_ns_def c m add.assoc)
qed

section \<open>Day and week ranges\<close>

text \<open>\<^verbatim>\<open>strings.TrimSpace\<close> is the argument \<open>trim\<close>; \<open>IndexByte\<close> is -1 as \<open>None\<close>.\<close>

definition IndexByte :: "bytes \<Rightarrow> byte \<Rightarrow> nat option" where
  "IndexByte s c = find (\<lambda>i. s ! i = c) [0..<length s]"

definition TrimPrefix :: "bytes \<Rightarrow> bytes \<Rightarrow> bytes" where
  "TrimPrefix s p = (if HasPrefix s p then drop (length p) s else s)"

definition bracketInner :: "(bytes \<Rightarrow> bytes) \<Rightarrow> bytes \<Rightarrow> bytes \<Rightarrow> bytes option" where
  "bracketInner trim s prefix = (let t = trim (TrimPrefix s prefix) in
     if length t < 2 \<or> t ! 0 \<noteq> 91 \<or> t ! (length t - 1) \<noteq> 93 then None else Some (take (length t - 2) (drop 1 t)))"

definition parseHHMM :: "bytes \<Rightarrow> int option" where
  "parseHHMM s = (case IndexByte s 58 of None \<Rightarrow> None | Some c \<Rightarrow>
     (case (Atoi (take c s), Atoi (drop (c + 1) s)) of
        (Some h, Some m) \<Rightarrow> if h < 0 \<or> h > 23 \<or> m < 0 \<or> m > 59 then None else Some (h * 60 + m)
      | _ \<Rightarrow> None))"

definition weekday_names :: "(string \<times> string) list" where
  "weekday_names = [(''sun'', ''sunday''), (''mon'', ''monday''), (''tue'', ''tuesday''), (''wed'', ''wednesday''),
     (''thu'', ''thursday''), (''fri'', ''friday''), (''sat'', ''saturday'')]"

definition str :: "string \<Rightarrow> bytes" where
  "str s = map of_char s"

definition parseWeekday :: "('f, 're) golib \<Rightarrow> bytes \<Rightarrow> nat option" where
  "parseWeekday G s = find (\<lambda>d. ToLower G s = str (fst (weekday_names ! d)) \<or> ToLower G s = str (snd (weekday_names ! d))) [0..<7]"

text \<open>The loop over the days from \<open>d\<close> to \<open>hi\<close>, wrapping at the end of the week; it has no bound of its own.\<close>

partial_function (option) week_loop :: "nat \<Rightarrow> nat \<Rightarrow> u64 \<Rightarrow> u64 option" where
  "week_loop d hi mk = (let mk' = mk OR push_bit d 1 in
     if d = hi then Some mk' else week_loop ((d + 1) mod 7) hi mk')"

definition time_pred :: "('f, 're) golib \<Rightarrow> PredKind \<Rightarrow> u64 \<Rightarrow> u64 \<Rightarrow> ('f, 're) Pred" where
  "time_pred G k t1 t2 = \<lparr>Field = time_col, Field2 = [], Value = [], Value2 = [], Values = [], re = None,
     Num = f_of_int G 0, Num2 = f_of_int G 0, T1 = t1, T2 = t2, ExLo = False, ExHi = False, Rel = False, Kind = k\<rparr>"

definition parseDayRange :: "('f, 're) golib \<Rightarrow> (bytes \<Rightarrow> bytes) \<Rightarrow> bytes \<Rightarrow> ('f, 're) Pred option" where
  "parseDayRange G trim s = do {
     inner \<leftarrow> bracketInner trim s (str ''day_range'');
     comma \<leftarrow> IndexByte inner 44;
     lo \<leftarrow> parseHHMM (trim (take comma inner));
     hi \<leftarrow> parseHHMM (trim (drop (comma + 1) inner));
     Some (time_pred G TimeDayRange (word_of_int lo) (word_of_int hi))
   }"

definition parseWeekRange :: "('f, 're) golib \<Rightarrow> (bytes \<Rightarrow> bytes) \<Rightarrow> bytes \<Rightarrow> ('f, 're) Pred option" where
  "parseWeekRange G trim s = do {
     inner \<leftarrow> bracketInner trim s (str ''week_range'');
     comma \<leftarrow> IndexByte inner 44;
     lo \<leftarrow> parseWeekday G (trim (take comma inner));
     hi \<leftarrow> parseWeekday G (trim (drop (comma + 1) inner));
     mk \<leftarrow> week_loop lo hi 0;
     Some (time_pred G TimeWeekRange mk 0)
   }"

lemma week_loop_unfold: "week_loop d hi mk = (if d = hi then Some (mk OR push_bit d 1) else week_loop ((d + 1) mod 7) hi (mk OR push_bit d 1))"
  by (subst week_loop.simps) simp

lemma week_loop_days:
  "hi < 7 \<Longrightarrow> d < 7 \<Longrightarrow> \<exists>m. week_loop d hi mk = Some m
     \<and> (\<forall>j < 7. bit m j \<longleftrightarrow> bit mk j \<or> (j + 7 - d) mod 7 \<le> (hi + 7 - d) mod 7)"
proof (induction "(hi + 7 - d) mod 7" arbitrary: d mk)
  case 0
  then have "d = hi" by (cases "d \<le> hi") (auto simp: mod_if split: if_splits)
  moreover have "(j + 7 - hi) mod 7 = 0 \<longleftrightarrow> j = hi" if "j < 7" for j
    using that 0(2) by (cases "hi \<le> j") (auto simp: mod_if)
  ultimately show ?case using 0(2) by (simp add: week_loop_unfold [of hi hi]) (auto simp: bit_or_iff bit_exp_iff)
next
  case (Suc n)
  let ?d = "(d + 1) mod 7"
  have ne: "d \<noteq> hi" using Suc(2) by auto
  have n: "n = (hi + 7 - ?d) mod 7" "?d < 7"
    using Suc(2-4) ne by (cases "d = 6"; cases "d \<le> hi"; auto simp: mod_if split: if_splits)+
  obtain m where m: "week_loop ?d hi (mk OR push_bit d 1) = Some m"
    "\<forall>j < 7. bit m j \<longleftrightarrow> bit (mk OR push_bit d 1) j \<or> (j + 7 - ?d) mod 7 \<le> (hi + 7 - ?d) mod 7"
    using Suc(1) [OF n(1) Suc(3) n(2)] by blast
  have "bit m j \<longleftrightarrow> bit mk j \<or> (j + 7 - d) mod 7 \<le> (hi + 7 - d) mod 7" if j: "j < 7" for j
  proof -
    have "j \<noteq> d \<Longrightarrow> (j + 7 - d) mod 7 = Suc ((j + 7 - ?d) mod 7)"
      using j Suc(4) by (cases "d = 6"; cases "d \<le> j"; auto simp: mod_if split: if_splits)+
    moreover have "(d + 7 - d) mod 7 = (0 :: nat)" by simp
    ultimately have "(j = d \<or> (j + 7 - ?d) mod 7 \<le> n) \<longleftrightarrow> (j + 7 - d) mod 7 \<le> Suc n" by (cases "j = d") auto
    then show ?thesis using m(2) j Suc(2,4) n(1) by (auto simp: bit_or_iff bit_exp_iff)
  qed
  then show ?case using m(1) ne by (simp add: week_loop_unfold [of d hi])
qed

lemma and_bit_nonzero: "m AND 2 ^ k \<noteq> 0 \<longleftrightarrow> bit (m :: u64) k"
proof
  assume "m AND 2 ^ k \<noteq> 0"
  then obtain j where "bit (m AND 2 ^ k) j" by (metis bit_eqI bit_0_eq bot_apply bot_bool_def)
  then show "bit m k" by (auto simp: bit_and_iff bit_push_bit_iff bit_exp_iff)
next
  assume b: "bit m k"
  then have "k < 64" using bit_imp_le_length [OF b] by simp
  with b have "bit (m AND 2 ^ k) k" by (simp add: bit_and_iff bit_exp_iff)
  then show "m AND 2 ^ k \<noteq> 0" by (metis bit_0_eq bot_apply bot_bool_def)
qed

lemma parseHHMM_range: "parseHHMM s = Some m \<Longrightarrow> 0 \<le> m \<and> m < 1440"
  by (auto simp: parseHHMM_def split: option.splits if_splits)

section \<open>Resolving relative bounds\<close>

definition resolveTimePred :: "u64 \<Rightarrow> ('f, 're) Pred \<Rightarrow> ('f, 're) Pred" where
  "resolveTimePred now p = (if Kind p \<noteq> TimeRange \<or> \<not> Rel p then p else
     p\<lparr>T1 := (if T1 p \<noteq> MaxInt64 then SatAdd now (- T1 p) else MinInt64),
       T2 := (if T2 p \<noteq> 0 then SatAdd now (- T2 p) else now), Rel := False\<rparr>)"

fun resolveTimeExpr :: "u64 \<Rightarrow> ('f, 're) Expr \<Rightarrow> ('f, 're) Expr" where
  "resolveTimeExpr now (OpLeaf p) = OpLeaf (resolveTimePred now p)"
| "resolveTimeExpr now (OpNot k) = OpNot (resolveTimeExpr now k)"
| "resolveTimeExpr now (OpAnd ks) = OpAnd (map (resolveTimeExpr now) ks)"
| "resolveTimeExpr now (OpOr ks) = OpOr (map (resolveTimeExpr now) ks)"

fun resolve_pipe :: "u64 \<Rightarrow> ('f, 're) Pipe \<Rightarrow> ('f, 're) Pipe" where
  "resolve_pipe now (FilterPipe e) = FilterPipe (resolveTimeExpr now e)"
| "resolve_pipe now (StatsPipe by_fields aggs) = StatsPipe by_fields (map (\<lambda>a. a\<lparr>IfE := map_option (resolveTimeExpr now) (IfE a)\<rparr>) aggs)"
| "resolve_pipe now (OtherPipe t) = OtherPipe t"

definition resolveTimePipes :: "u64 \<Rightarrow> ('f, 're) Pipe list \<Rightarrow> ('f, 're) Pipe list" where
  "resolveTimePipes now pipes = map (resolve_pipe now) pipes"

definition tightenBounds :: "('f, 're) Pred \<Rightarrow> u64 \<times> u64 \<Rightarrow> u64 \<times> u64" where
  "tightenBounds p b = (if Rel p then b else
     (if sint (T1 p) > sint (fst b) then T1 p else fst b, if sint (T2 p) < sint (snd b) then T2 p else snd b))"

fun collectTimeBounds :: "('f, 're) Expr \<Rightarrow> u64 \<times> u64 \<Rightarrow> u64 \<times> u64" where
  "collectTimeBounds (OpLeaf p) b = (if Kind p = TimeRange then tightenBounds p b else b)"
| "collectTimeBounds (OpAnd ks) b = foldl (\<lambda>b k. collectTimeBounds k b) b ks"
| "collectTimeBounds (OpOr ks) b = b"
| "collectTimeBounds (OpNot k) b = b"

definition query_now :: "u64 \<Rightarrow> ('f, 're) Query \<Rightarrow> u64" where
  "query_now clock q = (if NowSet q then Now q else if ToSet q then To q else clock)"

definition query_bounds :: "('f, 're) Query \<Rightarrow> u64 \<times> u64" where
  "query_bounds q = foldl (\<lambda>b p. if Kind p = TimeRange then tightenBounds p b else b)
     (case FilterE q of None \<Rightarrow> (MinInt64, MaxInt64) | Some e \<Rightarrow> collectTimeBounds e (MinInt64, MaxInt64)) (Preds q)"

definition resolveTimePreds :: "u64 \<Rightarrow> ('f, 're) Query \<Rightarrow> ('f, 're) Query" where
  "resolveTimePreds clock q = (let now = query_now clock q;
       q1 = q\<lparr>FilterE := map_option (resolveTimeExpr now) (FilterE q), Preds := map (resolveTimePred now) (Preds q),
              Pipes := resolveTimePipes now (Pipes q)\<rparr>;
       (from, to) = query_bounds q1;
       q2 = (if sint from > sint (From q1) then q1\<lparr>From := from\<rparr> else q1) in
     if sint to < sint (To q2) \<or> \<not> ToSet q2 then (if to \<noteq> MaxInt64 then q2\<lparr>To := to\<rparr> else q2) else q2)"

lemma resolve_pred_idem: "resolveTimePred now' (resolveTimePred now p) = resolveTimePred now p"
  by (simp add: resolveTimePred_def)

lemma resolve_expr_idem: "resolveTimeExpr now' (resolveTimeExpr now e) = resolveTimeExpr now e"
  by (induction e) (simp_all add: resolve_pred_idem)

lemma resolve_pipe_idem: "resolve_pipe now' (resolve_pipe now p) = resolve_pipe now p"
  by (cases p) (simp_all add: resolve_expr_idem option.map_comp o_def)

text \<open>Bounds only ever tighten to bounds every matching row satisfies.\<close>

definition bounds_hold :: "u64 \<Rightarrow> u64 \<times> u64 \<Rightarrow> bool" where
  "bounds_hold t b \<longleftrightarrow> sint (fst b) \<le> sint t \<and> (sint t < sint (snd b) \<or> snd b = MaxInt64)"

lemma tighten_holds:
  assumes "bounds_hold t b" and "Kind p = TimeRange" and "predMatchesRow G p src" and "stamp src = Some t"
  shows "bounds_hold t (tightenBounds p b)"
  using assms by (auto simp: bounds_hold_def tightenBounds_def predMatchesRow_def)

lemma collect_holds: "bounds_hold t b \<Longrightarrow> exprMatchesRow G e src \<Longrightarrow> stamp src = Some t \<Longrightarrow> bounds_hold t (collectTimeBounds e b)"
proof (induction e arbitrary: b)
  case (OpAnd ks)
  have "\<forall>k \<in> set ks. exprMatchesRow G k src" using OpAnd.prems(2) by (simp add: list_all_iff)
  then show ?case using OpAnd.IH OpAnd.prems(1,3)
  proof (induction ks arbitrary: b)
    case (Cons k ks)
    have "bounds_hold t (collectTimeBounds k b)" using Cons.prems by auto
    then have "bounds_hold t (collectTimeBounds (OpAnd ks) (collectTimeBounds k b))"
      using Cons.IH [of "collectTimeBounds k b"] Cons.prems by auto
    then show ?case by simp
  qed simp
qed (auto intro: tighten_holds)

lemma query_bounds_hold:
  assumes m: "queryMatchesRow G q src" "stamp src = Some t" and noboth: "FilterE q = None \<or> Preds q = []"
  shows "bounds_hold t (query_bounds q)"
proof -
  have start: "bounds_hold t (MinInt64, MaxInt64)" using sint_range(1) [of t] by (simp add: bounds_hold_def)
  have preds: "bounds_hold t (foldl (\<lambda>b p. if Kind p = TimeRange then tightenBounds p b else b) b ps)"
    if "bounds_hold t b" "\<forall>p \<in> set ps. predMatchesRow G p src" for b and ps :: "('a, 'b) Pred list"
    using that m(2)
  proof (induction ps arbitrary: b)
    case (Cons p ps)
    then show ?case using tighten_holds [OF Cons.prems(1), of p G src] by simp
  qed simp
  show ?thesis
  proof (cases "FilterE q")
    case None
    then show ?thesis using preds [OF start, of "Preds q"] m(1) by (simp add: query_bounds_def queryMatchesRow_def list_all_iff)
  next
    case (Some e)
    then show ?thesis using noboth collect_holds [OF start, of G e src] m by (simp add: query_bounds_def queryMatchesRow_def)
  qed
qed

text \<open>The resolver in one line: the resolved query with its window set.\<close>

definition resolved :: "u64 \<Rightarrow> ('f, 're) Query \<Rightarrow> ('f, 're) Query" where
  "resolved now q = q\<lparr>FilterE := map_option (resolveTimeExpr now) (FilterE q), Preds := map (resolveTimePred now) (Preds q),
     Pipes := resolveTimePipes now (Pipes q)\<rparr>"

lemma resolveTimePreds_window:
  assumes "query_bounds (resolved (query_now clock q) q) = (from, to)"
  shows "resolveTimePreds clock q = (resolved (query_now clock q) q)
    \<lparr>From := (if sint from > sint (From q) then from else From q),
     To := (if (sint to < sint (To q) \<or> \<not> ToSet q) \<and> to \<noteq> MaxInt64 then to else To q)\<rparr>"
  using assms by (simp add: resolveTimePreds_def resolved_def Let_def)

lemma resolved_idem: "resolved now' (resolved now q) = resolved now q"
  by (simp add: resolved_def resolve_pred_idem resolve_expr_idem resolveTimePipes_def resolve_pipe_idem option.map_comp o_def)

lemma query_bounds_window [simp]: "query_bounds (q\<lparr>From := f, To := t\<rparr>) = query_bounds q"
  by (simp add: query_bounds_def)

lemma queryMatchesRow_window [simp]: "queryMatchesRow G (q\<lparr>From := f, To := t\<rparr>) src = queryMatchesRow G q src"
  by (simp add: queryMatchesRow_def split: option.split)

lemma resolved_window [simp]: "resolved now (q\<lparr>From := f, To := t\<rparr>) = (resolved now q)\<lparr>From := f, To := t\<rparr>"
  by (simp add: resolved_def)

lemma resolveTimePreds_idem: "resolveTimePreds clock' (resolveTimePreds clock q) = resolveTimePreds clock q"
proof -
  obtain f t where b: "query_bounds (resolved (query_now clock q) q) = (f, t)" by (metis prod.exhaust)
  let ?q = "resolveTimePreds clock q"
  note w = resolveTimePreds_window [OF b]
  have b': "query_bounds (resolved (query_now clock' ?q) ?q) = (f, t)" unfolding w using b by (simp add: resolved_idem)
  note w' = resolveTimePreds_window [OF b']
  have "resolved (query_now clock' ?q) ?q = ?q" unfolding w by (simp add: resolved_idem)
  then have "resolveTimePreds clock' ?q = ?q\<lparr>From := (if sint f > sint (From ?q) then f else From ?q),
     To := (if (sint t < sint (To ?q) \<or> \<not> ToSet ?q) \<and> t \<noteq> MaxInt64 then t else To ?q)\<rparr>" using w' by simp
  then show ?thesis unfolding w by (simp add: resolved_def)
qed

section \<open>What a relative filter means\<close>

text \<open>
  A relative range is read against the instant \<open>now\<close> over the integers, where nothing wraps or saturates: the rows from \<open>now\<close> less
  the first offset (no lower end for the sentinel) up to \<open>now\<close> less the second.  Every other predicate means what the row
  evaluator says.  The parser's offsets are durations, which are never negative.
\<close>

definition pred_meaning :: "('f, 're) golib \<Rightarrow> u64 \<Rightarrow> ('f, 're) Pred \<Rightarrow> rowSource \<Rightarrow> bool" where
  "pred_meaning G now p src = (if Kind p = TimeRange \<and> Rel p
     then (case stamp src of None \<Rightarrow> False
       | Some t \<Rightarrow> (T1 p = MaxInt64 \<or> sint now - sint (T1 p) \<le> sint t) \<and> sint t < sint now - sint (T2 p))
     else predMatchesRow G p src)"

definition offsets_ok :: "('f, 're) Pred \<Rightarrow> bool" where
  "offsets_ok p \<longleftrightarrow> (Kind p = TimeRange \<and> Rel p \<longrightarrow> 0 \<le> sint (T1 p) \<and> 0 \<le> sint (T2 p))"

fun pipe_leaves :: "('f, 're) Pipe \<Rightarrow> ('f, 're) Pred list" where
  "pipe_leaves (FilterPipe e) = leaves e"
| "pipe_leaves (StatsPipe by_fields aggs) = concat (map (\<lambda>a. case IfE a of None \<Rightarrow> [] | Some e \<Rightarrow> leaves e) aggs)"
| "pipe_leaves (OtherPipe t) = []"

definition query_offsets_ok :: "('f, 're) Query \<Rightarrow> bool" where
  "query_offsets_ok q \<longleftrightarrow> list_all offsets_ok (query_leaves q) \<and> list_all (\<lambda>p. list_all offsets_ok (pipe_leaves p)) (Pipes q)"

text \<open>A resolved pipe asks of a row what the pipe meant.\<close>

fun pipe_agrees :: "('f, 're) golib \<Rightarrow> u64 \<Rightarrow> rowSource \<Rightarrow> ('f, 're) Pipe \<Rightarrow> ('f, 're) Pipe \<Rightarrow> bool" where
  "pipe_agrees G now src (FilterPipe e) (FilterPipe e') \<longleftrightarrow>
     exprMatchesRow G e' src = exprHolds (\<lambda>p. pred_meaning G now p src) e"
| "pipe_agrees G now src (StatsPipe by_fields aggs) (StatsPipe by_fields' aggs') \<longleftrightarrow> by_fields' = by_fields
     \<and> list_all2 (\<lambda>a a'. Alias a' = Alias a \<and> rel_option (\<lambda>e e'. exprMatchesRow G e' src = exprHolds (\<lambda>p. pred_meaning G now p src) e) (IfE a) (IfE a'))
         aggs aggs'"
| "pipe_agrees G now src (OtherPipe t) (OtherPipe t') \<longleftrightarrow> t' = t"
| "pipe_agrees G now src _ _ \<longleftrightarrow> False"

lemma resolve_pred_means:
  assumes "offsets_ok p"
  shows "predMatchesRow G (resolveTimePred now p) src = pred_meaning G now p src"
proof (cases "Kind p = TimeRange \<and> Rel p")
  case True
  then have o: "0 \<le> sint (T1 p)" "0 \<le> sint (T2 p)" using assms by (simp_all add: offsets_ok_def)
  have neg: "sint (- w) = - sint w" if "0 \<le> sint w" for w :: u64
    unfolding sint_arith(4) by (rule sint_of_int) (use that sint_range [of w] in simp_all)
  have lo: "sint (SatAdd now (- T1 p)) \<le> sint t \<longleftrightarrow> sint now - sint (T1 p) \<le> sint t" for t :: u64
    using o(1) sint_range(1) [of t] sint_range(2) [of now] by (auto simp: SatAdd_clamp neg clamp_def)
  have hi: "sint t < sint (SatAdd now (- T2 p)) \<longleftrightarrow> sint t < sint now - sint (T2 p)" for t :: u64
    using o(2) sint_range(1) [of t] sint_range(2) [of now] by (auto simp: SatAdd_clamp neg clamp_def)
  have mn: "sint MinInt64 \<le> sint t" for t :: u64 using sint_range(1) [of t] by (simp add: MinInt64_def)
  show ?thesis using True lo hi mn
    by (auto simp: resolveTimePred_def pred_meaning_def predMatchesRow_def isFieldCmp_def split: option.split)
qed (auto simp: resolveTimePred_def pred_meaning_def)

lemma resolve_expr_means:
  "list_all offsets_ok (leaves e) \<Longrightarrow>
   exprMatchesRow G (resolveTimeExpr now e) src = exprHolds (\<lambda>p. pred_meaning G now p src) e"
  by (induction e) (auto simp: list_all_iff list_ex_iff resolve_pred_means)

lemma resolve_pipe_means:
  assumes "list_all offsets_ok (pipe_leaves p)"
  shows "pipe_agrees G now src p (resolve_pipe now p)"
proof (cases p)
  case (StatsPipe by_fields aggs)
  have "rel_option (\<lambda>e e'. exprMatchesRow G e' src = exprHolds (\<lambda>p. pred_meaning G now p src) e)
      (IfE a) (map_option (resolveTimeExpr now) (IfE a))" if "a \<in> set aggs" for a
  proof (cases "IfE a")
    case (Some e)
    then have "list_all offsets_ok (leaves e)" using assms that StatsPipe by (auto simp: list_all_iff)
    then show ?thesis using Some by (simp add: resolve_expr_means)
  qed simp
  then show ?thesis using StatsPipe by (simp add: list_all2_map2 list_all2_same)
qed (use assms in \<open>simp_all add: resolve_expr_means\<close>)

lemma resolved_means:
  assumes "query_offsets_ok q"
  shows "queryMatchesRow G (resolved now q) src = queryHolds (\<lambda>p. pred_meaning G now p src) q"
    and "list_all2 (pipe_agrees G now src) (Pipes q) (Pipes (resolved now q))"
proof -
  have q: "list_all offsets_ok (query_leaves q)" "\<forall>p \<in> set (Pipes q). list_all offsets_ok (pipe_leaves p)"
    using assms by (simp_all add: query_offsets_ok_def list_all_iff)
  show "queryMatchesRow G (resolved now q) src = queryHolds (\<lambda>p. pred_meaning G now p src) q"
    using q(1) by (cases "FilterE q") (auto simp: queryMatchesRow_def queryHolds_def resolved_def query_leaves_def resolve_expr_means
        resolve_pred_means list_all_iff)
  show "list_all2 (pipe_agrees G now src) (Pipes q) (Pipes (resolved now q))"
    using q(2) by (auto simp: resolved_def resolveTimePipes_def list_all2_map2 list_all2_same resolve_pipe_means)
qed

section \<open>Properties\<close>

text \<open>C27: Time arithmetic saturates exactly.  A sum is the true sum clamped to the 64-bit range, a product with a positive unit the
  true product clamped, and a compound duration, read left to right from its text, the total nanoseconds of its components clamped,
  however long it is and wherever the intermediate sums overflow.\<close>

theorem saturation_exact:
  "sint (SatAdd a b) = clamp (sint a + sint b)
   \<and> (sint unit > 0 \<longrightarrow> sint (SatScale n unit) = clamp (sint n * sint unit))
   \<and> (cs \<noteq> [] \<and> list_all component_ok cs \<longrightarrow>
        (\<exists>d. parseDurationNs (duration_text cs) = Some d \<and> sint d = clamp (duration_ns cs)))"
proof (intro conjI impI)
  show "sint (SatAdd a b) = clamp (sint a + sint b)" by (rule SatAdd_clamp)
  show "sint (SatScale n unit) = clamp (sint n * sint unit)" if "sint unit > 0" by (rule SatScale_clamp [OF that])
  assume cs: "cs \<noteq> [] \<and> list_all component_ok cs"
  have "sint (0 :: u64) = clamp 0" by (simp add: clamp_def)
  then obtain d where "duration_from (duration_text cs) 0 = Some d" "sint d = clamp (0 + duration_ns cs)"
    using duration_from_text [of cs 0 0] cs by auto
  moreover have "duration_text cs \<noteq> []" using cs by (cases cs) (auto simp: duration_text_def)
  ultimately show "\<exists>d. parseDurationNs (duration_text cs) = Some d \<and> sint d = clamp (duration_ns cs)"
    by (simp add: parseDurationNs_def)
qed

theorem saturation_exact_witness:
  "\<exists>d. parseDurationNs [57, 57, 57, 57, 57, 57, 57, 57, 57, 57, 115, 49, 109] = Some d \<and> d = MaxInt64"
proof -
  let ?cs = "[([57, 57, 57, 57, 57, 57, 57, 57, 57, 57], 115), ([49], 109)] :: (bytes \<times> byte) list"
  have "list_all component_ok ?cs" "duration_ns ?cs = 9999999999 * 1000000000 + 60000000000"
    "duration_text ?cs = [57, 57, 57, 57, 57, 57, 57, 57, 57, 57, 115, 49, 109]"
    by (simp_all add: component_ok_def is_digit_def digits_val_def unit_ns_def duration_ns_def duration_text_def)
  moreover have "clamp (9999999999 * 1000000000 + 60000000000) = 2 ^ 63 - 1" by (simp add: clamp_def)
  ultimately obtain d where "parseDurationNs [57, 57, 57, 57, 57, 57, 57, 57, 57, 57, 115, 49, 109] = Some d" "sint d = 2 ^ 63 - 1"
    using saturation_exact [of 0 0 1 0 ?cs] by auto
  then show ?thesis by (metis sint_limits(1) signed_word_eqI)
qed

text \<open>C28: A weekday range always ends and means the days from its first to its last, around the end of the week: once both day
  names parse, the whole bracket parses, its loop over the days ends, and a row matches exactly when its weekday lies in the
  cyclic range; two times of day parse to the inclusive minutes between them.\<close>

theorem week_range_days:
  assumes "bracketInner trim s (str ''week_range'') = Some inner" and "IndexByte inner 44 = Some c"
    and "parseWeekday G (trim (take c inner)) = Some l" and "parseWeekday G (trim (drop (c + 1) inner)) = Some h"
    and "bracketInner trim d (str ''day_range'') = Some inner'" and "IndexByte inner' 44 = Some c'"
    and "parseHHMM (trim (take c' inner')) = Some m1" and "parseHHMM (trim (drop (c' + 1) inner')) = Some m2"
  shows "(\<exists>p. parseWeekRange G trim s = Some p \<and> (\<forall>t. matchDayWeek t p \<longleftrightarrow> (Weekday t + 7 - l) mod 7 \<le> (h + 7 - l) mod 7))
    \<and> (\<exists>p. parseDayRange G trim d = Some p \<and> (\<forall>t. matchDayWeek t p \<longleftrightarrow> m1 \<le> minute_of_day t \<and> minute_of_day t \<le> m2))"
proof -
  have lh: "l < 7" "h < 7" using assms(3,4) by (auto simp: parseWeekday_def find_Some_iff)
  obtain m where m: "week_loop l h 0 = Some m" "\<forall>j < 7. bit m j \<longleftrightarrow> (j + 7 - l) mod 7 \<le> (h + 7 - l) mod 7"
    using week_loop_days [OF lh(2,1), of 0] by auto
  have wd: "Weekday t < 7" for t by (simp add: Weekday_def nat_less_iff)
  have "0 \<le> m1" "m1 < 1440" "0 \<le> m2" "m2 < 1440" using parseHHMM_range assms(7,8) by blast+
  then have "sint (word_of_int m1 :: u64) = m1" "sint (word_of_int m2 :: u64) = m2" by (auto intro!: sint_of_int)
  then show ?thesis using assms m wd
    by (simp add: parseWeekRange_def parseDayRange_def matchDayWeek_def time_pred_def and_bit_nonzero)
qed

theorem week_range_days_witness:
  "\<exists>p. parseWeekRange demo_golib id (str ''week_range[fri,mon]'') = Some p \<and> matchDayWeek 0 p = False"
proof -
  have w: "bracketInner id (str ''week_range[fri,mon]'') (str ''week_range'') = Some (str ''fri,mon'')"
    "bracketInner id (str ''day_range[08:00,17:30]'') (str ''day_range'') = Some (str ''08:00,17:30'')"
    by (simp_all add: bracketInner_def TrimPrefix_def HasPrefix_def str_def)
  have i: "IndexByte (str ''fri,mon'') 44 = Some 3" "IndexByte (str ''08:00,17:30'') 44 = Some 5"
    by (simp_all add: IndexByte_def str_def upt_rec)
  have p: "parseWeekday demo_golib (id (take 3 (str ''fri,mon''))) = Some 5" "parseWeekday demo_golib (id (drop (3 + 1) (str ''fri,mon''))) = Some 1"
    by (simp_all add: parseWeekday_def demo_golib_def weekday_names_def str_def upt_rec)
  have d: "parseHHMM (id (take 5 (str ''08:00,17:30''))) = Some 480" "parseHHMM (id (drop (5 + 1) (str ''08:00,17:30''))) = Some 1050"
    by (simp_all add: parseHHMM_def IndexByte_def str_def upt_rec Atoi_def digits_val_def)
  from week_range_days [OF w(1) i(1) p w(2) i(2) d] show ?thesis by (auto simp: Weekday_def id_def)
qed

text \<open>C21: Resolving the time filters of a query changes no answer.  For a query whose end is set, whose filter is a tree or a list of
  predicates but not both, and whose relative offsets are not negative, the rows of the narrowed window that satisfy the resolved
  filter are exactly the rows of the caller's window that the original filter means, a relative range being read against the
  query's instant over the integers; each resolved pipe asks of a row what the pipe meant; and a second resolution, at whatever
  later time, changes nothing.\<close>

theorem window_narrowing_exact:
  assumes "ToSet q" and "FilterE q = None \<or> Preds q = []" and "query_offsets_ok q" and "stamp src = Some t"
    and "q' = resolveTimePreds clock q" and "now = query_now clock q"
  shows "(in_window (From q') (To q') t \<and> queryMatchesRow G q' src
        \<longleftrightarrow> in_window (From q) (To q) t \<and> queryHolds (\<lambda>p. pred_meaning G now p src) q)
    \<and> list_all2 (pipe_agrees G now src) (Pipes q) (Pipes q')
    \<and> resolveTimePreds clock' q' = q'"
proof -
  let ?r = "resolved now q"
  obtain f u where b: "query_bounds ?r = (f, u)" by (metis prod.exhaust)
  note w = resolveTimePreds_window [OF b [unfolded assms(6)], folded assms(6)]
  note means = resolved_means [OF assms(3)]
  have m: "queryMatchesRow G q' src \<longleftrightarrow> queryHolds (\<lambda>p. pred_meaning G now p src) q"
    unfolding assms(5) w by (simp add: means(1))
  have ft: "From q' = (if sint f > sint (From q) then f else From q)"
    "To q' = (if sint u < sint (To q) \<and> u \<noteq> MaxInt64 then u else To q)" "Pipes q' = Pipes ?r"
    unfolding assms(5) w using assms(1) by (simp_all add: resolved_def)
  have "bounds_hold t (f, u)" if "queryMatchesRow G ?r src"
    using query_bounds_hold [OF that assms(4)] assms(2) b by (auto simp: resolved_def)
  then have "in_window (From q') (To q') t \<longleftrightarrow> in_window (From q) (To q) t" if "queryMatchesRow G ?r src"
    using that unfolding ft by (auto simp: bounds_hold_def in_window_def)
  then show ?thesis using m means resolveTimePreds_idem [of clock' clock q] assms(5) ft(3) by metis
qed

text \<open>The last thirty nanoseconds, asked at 100, of a row at 80 and of one at 60.\<close>

definition demo_relative :: "(nat, unit) Query" where
  "demo_relative = \<lparr>From = 0, To = 1000, ToSet = True, Now = 100, NowSet = True,
     Preds = [(time_pred demo_golib TimeRange 30 0)\<lparr>Rel := True\<rparr>], FilterE = None, Pipes = []\<rparr>"

definition demo_at :: "u64 \<Rightarrow> rowSource" where
  "demo_at t = rowOf \<lparr>Time = t, Fields = [], NoTime = False\<rparr>"

theorem window_narrowing_exact_witness:
  "let q' = resolveTimePreds 0 demo_relative in
     in_window (From q') (To q') 80 \<and> queryMatchesRow demo_golib q' (demo_at 80)
     \<and> \<not> (in_window (From q') (To q') 60 \<and> queryMatchesRow demo_golib q' (demo_at 60))
     \<and> resolveTimePreds 5 q' = q'"
proof -
  have h: "ToSet demo_relative" "FilterE demo_relative = None \<or> Preds demo_relative = []" "query_offsets_ok demo_relative"
    and now: "100 = query_now 0 demo_relative"
    by (simp_all add: demo_relative_def query_offsets_ok_def query_leaves_def offsets_ok_def time_pred_def query_now_def)
  have st: "stamp (demo_at t) = Some t" for t by (simp add: demo_at_def)
  note w = window_narrowing_exact [OF h st refl now, where G = demo_golib and clock' = 5]
  have "in_window (From demo_relative) (To demo_relative) t" if "t = 80 \<or> t = 60" for t
    using that by (auto simp: demo_relative_def in_window_def)
  moreover have "queryHolds (\<lambda>p. pred_meaning demo_golib 100 p (demo_at 80)) demo_relative"
    "\<not> queryHolds (\<lambda>p. pred_meaning demo_golib 100 p (demo_at 60)) demo_relative"
    by (simp_all add: queryHolds_def demo_relative_def pred_meaning_def time_pred_def st MaxInt64_def)
  ultimately show ?thesis using w [of 80] w [of 60] unfolding Let_def by blast
qed

end
