(* ===== verification/Aggregate.thy ===== *)
theory Aggregate
  imports TimeFilter
begin

text \<open>
  The counting queries of \<^verbatim>\<open>internal/query/engine.go\<close> (\<^verbatim>\<open>alignDown\<close>, \<^verbatim>\<open>BucketSpan\<close>,
  \<^verbatim>\<open>histoGroup\<close>, \<^verbatim>\<open>fillHits\<close>), \<^verbatim>\<open>stats_range.go\<close> (\<^verbatim>\<open>RangeWidthNs\<close>) and
  \<^verbatim>\<open>introspect.go\<close> (the per-group body of \<^verbatim>\<open>StatsByField\<close>).

  Instants are \<^verbatim>\<open>int64\<close> words; a Go map of counts is a function that is 0 where there is no entry.  The callers
  normalise a step that is not positive, which would divide by zero here.
\<close>

section \<open>Buckets\<close>

text \<open>\<^verbatim>\<open>t % step\<close> takes the sign of \<open>t\<close>; the subtraction may leave the domain and wrap.\<close>

definition alignDown :: "u64 \<Rightarrow> u64 \<Rightarrow> u64" where
  "alignDown t step = (let r0 = sint t - quot (sint t) (sint step) * sint step;
       r = (if r0 < 0 then r0 + sint step else r0);
       d = t - word_of_int r in
     if sint d > sint t then word_of_int (quot (sint MinInt64) (sint step) * sint step) else d)"

definition BucketSpan :: "u64 \<Rightarrow> u64 \<Rightarrow> u64 \<Rightarrow> u64 \<times> u64" where
  "BucketSpan from to step = (if sint step \<le> 0 \<or> sint to \<le> sint from then (from, to) else
     let lo = alignDown from step;
         last_b = alignDown (to - 1) step;
         hi = last_b + step;
         hi1 = (if sint hi < sint last_b then MaxInt64 else hi);
         hi2 = (if sint hi1 < sint to then to else hi1) in (lo, hi2))"

definition RangeWidthNs :: "u64 \<Rightarrow> u64 \<Rightarrow> u64" where
  "RangeWidthNs from to = (if sint to \<le> sint from then 0 else to - from)"

definition maxHitsBuckets :: nat where
  "maxHitsBuckets = 100000"

record HitsSeries =
  hs_Timestamps :: "u64 list"
  hs_Values :: "nat list"
  hs_Total :: nat

text \<open>The walk: \<open>n\<close> buckets may still be added.\<close>

fun hits_walk :: "(u64 \<Rightarrow> nat) \<Rightarrow> u64 \<Rightarrow> u64 \<Rightarrow> nat \<Rightarrow> u64 \<Rightarrow> HitsSeries \<Rightarrow> HitsSeries" where
  "hits_walk buckets to step 0 t hs = hs"
| "hits_walk buckets to step (Suc n) t hs = (if \<not> sint t < sint to then hs else
     let c = buckets t;
         hs' = \<lparr>hs_Timestamps = hs_Timestamps hs @ [t], hs_Values = hs_Values hs @ [c], hs_Total = hs_Total hs + c\<rparr>;
         nxt = t + step in
     if sint nxt \<le> sint t then hs' else hits_walk buckets to step n nxt hs')"

definition fillHits :: "(u64 \<Rightarrow> nat) \<Rightarrow> u64 \<Rightarrow> u64 \<Rightarrow> u64 \<Rightarrow> HitsSeries" where
  "fillHits buckets from to step = (let empty = \<lparr>hs_Timestamps = [], hs_Values = [], hs_Total = 0\<rparr> in
     if sint to \<le> sint from then empty else
     let start = alignDown from step; w = RangeWidthNs start to;
         n = (if w > 0 then (let nb = unat w div unat step; nb' = (if unat w mod unat step \<noteq> 0 then nb + 1 else nb) in
                min nb' maxHitsBuckets) else 0) in
     hits_walk buckets to step n start empty)"

section \<open>Counting a group\<close>

definition bump :: "u64 \<Rightarrow> (u64 \<Rightarrow> nat) \<Rightarrow> u64 \<Rightarrow> nat" where
  "bump k out = out(k := out k + 1)"

definition histoGroup :: "simd_kernels \<Rightarrow> ('f, 're) golib \<Rightarrow> read_kernels \<Rightarrow> Reader \<Rightarrow> ('f, 're) Query \<Rightarrow> u64
    \<Rightarrow> (u64 \<Rightarrow> nat) \<Rightarrow> idx_cache \<Rightarrow> ((u64 \<Rightarrow> nat) \<times> idx_cache) option" where
  "histoGroup S G K r q step out s = do {
     (sel, s') \<leftarrow> matchBitset S G K r q s;
     if Count sel = 0 then Some (out, s') else do {
       (lo0, hi0) \<leftarrow> TimeWindowSpan r time_col (From q) (To q);
       let (lo, hi) = (if lo0 \<ge> hi0 then (0, Rows r) else (lo0, hi0));
       ts \<leftarrow> TimestampsRangeInto [] r time_col lo hi;
       out' \<leftarrow> fold_opt (\<lambda>i out. if i < lo then None else do { t \<leftarrow> index ts (i - lo); Some (bump (alignDown t step) out) }) (ForEach sel) out;
       Some (out', s')
     }
   }"

text \<open>
  One group of \<^verbatim>\<open>StatsByField\<close>.  \<^verbatim>\<open>dictOrTime\<close> builds a dictionary of the formatted times for \<^verbatim>\<open>_time\<close>;
  \<open>fmt\<close> is \<^verbatim>\<open>formatTime\<close>, Go's RFC 3339 rendering.
\<close>

definition dictOrTime :: "(u64 \<Rightarrow> bytes) \<Rightarrow> read_kernels \<Rightarrow> Reader \<Rightarrow> bytes \<Rightarrow> idx_cache \<Rightarrow> (u32 list \<times> bytes list \<times> idx_cache) option" where
  "dictOrTime fmt K r field s = do {
     (idx, dict, s') \<leftarrow> DictIndices K r s field;
     if idx \<noteq> [] \<or> field \<noteq> time_col then Some (idx, dict, s') else do {
       ts \<leftarrow> TimestampsRange r time_col 0 (Rows r);
       Some (map of_nat [0..<length ts], map fmt ts, s')
     }
   }"

definition statsGroup :: "simd_kernels \<Rightarrow> ('f, 're) golib \<Rightarrow> (u64 \<Rightarrow> bytes) \<Rightarrow> read_kernels \<Rightarrow> bool \<Rightarrow> Reader \<Rightarrow> ('f, 're) Query \<Rightarrow> bytes
    \<Rightarrow> (bytes \<Rightarrow> nat) \<Rightarrow> idx_cache \<Rightarrow> ((bytes \<Rightarrow> nat) \<times> idx_cache) option" where
  "statsGroup S G fmt K vcFused r q field counts s = do {
     ok \<leftarrow> groupCanMatch G K r q;
     if \<not> ok then Some (counts, s)
     else if Preds q = [] \<and> field \<noteq> time_col \<and> sint (TimeMin r) \<ge> sint (From q) \<and> sint (TimeMax r) < sint (To q) then do {
       vcs \<leftarrow> ValueCountsInto K vcFused r field;
       Some (foldl (\<lambda>counts (v, c). counts(v := counts v + c)) counts vcs, s)
     } else do {
       (sel, s') \<leftarrow> matchBitset S G K r q s;
       if Count sel = 0 then Some (counts, s') else do {
         (idx, dict, s'') \<leftarrow> dictOrTime fmt K r field s';
         if idx = [] then Some (counts, s'') else do {
           per \<leftarrow> fold_opt (\<lambda>i per. do { x \<leftarrow> index idx i; set_index per (unat x) ((per ! unat x) + 1) }) (ForEach sel) (replicate (length dict) 0);
           Some (foldl (\<lambda>counts vid. if per ! vid > 0 then counts(dict ! vid := counts (dict ! vid) + per ! vid) else counts)
             counts [0..<length per], s'')
         }
       }
     }
   }"

section \<open>Alignment is the floor\<close>

lemma quot_rem:
  assumes "s > 0"
  shows "(if t - quot t s * s < 0 then t - quot t s * s + s else t - quot t s * s) = t mod s"
proof (cases "t \<ge> 0")
  case True
  have "quot t s = t div s" using assms True by (cases "t = 0") (simp_all add: quot_def)
  then have "t - quot t s * s = t mod s" by (simp add: minus_div_mult_eq_mod)
  moreover have "0 \<le> t mod s" using assms by simp
  ultimately show ?thesis by simp
next
  case False
  then have q: "quot t s = - ((- t) div s)" using assms by (simp add: quot_def)
  have r: "t - quot t s * s = - ((- t) mod s)" unfolding q using div_mult_mod_eq [of "- t" s] by linarith
  have b: "0 \<le> (- t) mod s" "(- t) mod s < s" using assms by simp_all
  show ?thesis
  proof (cases "(- t) mod s = 0")
    case True
    then have "t mod s = 0" by (simp add: mod_eq_0_iff_dvd)
    then show ?thesis using r True by simp
  next
    case False
    have "t mod s = (- ((- t) mod s)) mod s" by (simp add: mod_minus_eq)
    also have "\<dots> = (- ((- t) mod s) + s) mod s" by simp
    also have "\<dots> = - ((- t) mod s) + s" using b False by (intro mod_pos_pos_trivial) linarith+
    finally show ?thesis using r False b by simp
  qed
qed

lemma word_of_int_wrap: "(word_of_int (x + 2 ^ 64) :: u64) = word_of_int x"
  by transfer (simp add: take_bit_eq_mod)

lemma alignDown_floor:
  assumes s: "sint step > 0"
  shows "sint (alignDown t step) = (if - (2 ^ 63) \<le> sint t div sint step * sint step then sint t div sint step * sint step
     else - (2 ^ 63 div sint step) * sint step)"
proof -
  let ?s = "sint step" and ?t = "sint t"
  let ?r = "?t mod ?s"
  have ad: "alignDown t step = (if sint (t - word_of_int ?r) > ?t then word_of_int (quot (sint MinInt64) ?s * ?s) else t - word_of_int ?r)"
    unfolding alignDown_def Let_def quot_rem [OF s] ..
  have b: "0 \<le> ?r" "?r < ?s" using s by simp_all
  have fl: "?t div ?s * ?s = ?t - ?r" by (simp add: minus_mod_eq_div_mult)
  have p: "(2 :: int) ^ 64 = 2 * 2 ^ 63" "(0 :: int) < 2 ^ 63" by simp_all
  note rg = sint_range [of t] sint_range [of step] p
  have wr: "sint (word_of_int ?r :: u64) = ?r" using b rg by (intro sint_of_int) linarith+
  have q: "quot (- (2 ^ 63)) ?s = - (2 ^ 63 div ?s)" using s by (simp add: quot_def)
  have K: "sint (word_of_int (- (2 ^ 63 div ?s) * ?s) :: u64) = - (2 ^ 63 div ?s) * ?s"
  proof (rule sint_of_int)
    have "2 ^ 63 div ?s * ?s \<le> 2 ^ 63" using s pos_mod_sign [OF s, of "2 ^ 63"] div_mult_mod_eq [of "2 ^ 63" ?s] by linarith
    then show "- (2 ^ 63) \<le> - (2 ^ 63 div ?s) * ?s" by simp
    have "0 \<le> 2 ^ 63 div ?s * ?s" using s by (simp add: pos_imp_zdiv_nonneg_iff)
    then show "- (2 ^ 63 div ?s) * ?s < 2 ^ 63" by simp
  qed
  show ?thesis
  proof (cases "- (2 ^ 63) \<le> ?t - ?r")
    case True
    then have "sint (t - word_of_int ?r) = ?t - ?r" using wr b rg by (subst sint_sub) simp_all
    then show ?thesis using True b by (simp add: ad fl)
  next
    case False
    have "sint (t - word_of_int ?r) = ?t - ?r + 2 ^ 64"
    proof -
      have "sint (t - word_of_int ?r) = sint (word_of_int (?t - ?r) :: u64)" unfolding sint_arith(2) wr ..
      also have "(word_of_int (?t - ?r) :: u64) = word_of_int (?t - ?r + 2 ^ 64)" by (rule word_of_int_wrap [symmetric])
      also have "sint \<dots> = ?t - ?r + 2 ^ 64" using False b rg by (intro sint_of_int) linarith+
      finally show ?thesis .
    qed
    moreover have "?t - ?r + 2 ^ 64 > ?t" using b rg by linarith
    ultimately have "alignDown t step = word_of_int (- (2 ^ 63 div ?s) * ?s)" unfolding ad sint_limits q by simp
    then show ?thesis using False K unfolding fl by (simp only: if_False)
  qed
qed

section \<open>The walk covers its span\<close>

text \<open>The bucket starts of a series: \<open>n\<close> multiples of the step from \<open>a\<close>.\<close>

definition starts :: "int \<Rightarrow> int \<Rightarrow> nat \<Rightarrow> int list" where
  "starts a s n = map (\<lambda>i. a + int i * s) [0..<n]"

lemma starts_Suc: "starts a s (Suc n) = a # starts (a + s) s n"
proof -
  have "[0..<Suc n] = 0 # map Suc [0..<n]" by (simp add: upt_conv_Cons map_Suc_upt del: upt_Suc)
  then show ?thesis by (simp add: starts_def algebra_simps)
qed

lemma hits_walk_starts:
  assumes s: "sint step > 0"
  shows "sint t = a \<Longrightarrow> (\<And>i. i < n \<Longrightarrow> a + int i * sint step < sint to) \<Longrightarrow> \<not> a + int n * sint step < sint to \<Longrightarrow>
    hits_walk buckets to step n t hs = \<lparr>hs_Timestamps = hs_Timestamps hs @ map word_of_int (starts a (sint step) n),
      hs_Values = hs_Values hs @ map (\<lambda>k. buckets (word_of_int k)) (starts a (sint step) n),
      hs_Total = hs_Total hs + sum_list (map (\<lambda>k. buckets (word_of_int k)) (starts a (sint step) n))\<rparr>"
proof (induction n arbitrary: t a hs)
  case 0
  then show ?case by (simp add: starts_def)
next
  case (Suc n)
  let ?s = "sint step"
  have t: "sint t < sint to" using Suc.prems(1) Suc.prems(2) [of 0] by simp
  have tw: "t = word_of_int a" unfolding Suc.prems(1) [symmetric] by simp
  show ?case
  proof (cases "n = 0")
    case True
    then show ?thesis using t tw by (simp add: starts_def Let_def)
  next
    case False
    have "a + ?s < sint to" using Suc.prems(2) [of 1] False by simp
    then have nx: "sint (t + step) = a + ?s" using Suc.prems(1) s sint_range [of t] sint_range [of to] by (subst sint_add) simp_all
    have "hits_walk buckets to step n (t + step) hs' = \<lparr>hs_Timestamps = hs_Timestamps hs' @ map word_of_int (starts (a + ?s) ?s n),
      hs_Values = hs_Values hs' @ map (\<lambda>k. buckets (word_of_int k)) (starts (a + ?s) ?s n),
      hs_Total = hs_Total hs' + sum_list (map (\<lambda>k. buckets (word_of_int k)) (starts (a + ?s) ?s n))\<rparr>" for hs'
    proof (rule Suc.IH [OF nx])
      fix i assume "i < n"
      then show "a + ?s + int i * ?s < sint to" using Suc.prems(2) [of "Suc i"] by (simp add: algebra_simps)
    next
      show "\<not> a + ?s + int n * ?s < sint to" using Suc.prems(3) by (simp add: algebra_simps)
    qed
    then show ?thesis using t tw nx s Suc.prems(1) by (simp add: Let_def starts_Suc add.assoc)
  qed
qed

lemma ceil_div:
  assumes "0 < s" "0 < (w :: nat)"
  defines "n \<equiv> (if w mod s \<noteq> 0 then w div s + 1 else w div s)"
  shows "i < n \<Longrightarrow> i * s < w" "\<not> n * s < w" "0 < n"
proof -
  have w: "w = w div s * s + w mod s" "w mod s < s" using assms(1) by simp_all
  show "i * s < w" if "i < n"
  proof (cases "w mod s = 0")
    case True
    then have "(i + 1) * s \<le> w div s * s" using that by (intro mult_le_mono1) (simp add: n_def)
    then show ?thesis using w True assms(1) by simp
  next
    case False
    then have "i * s \<le> w div s * s" using that by (intro mult_le_mono1) (simp add: n_def)
    then show ?thesis using w False by linarith
  qed
  show "\<not> n * s < w"
  proof (cases "w mod s = 0")
    case True
    then have "n * s = w div s * s" by (simp add: n_def)
    then show ?thesis using w True by linarith
  next
    case False
    then have "n * s = w div s * s + s" by (simp add: n_def)
    then show ?thesis using w by linarith
  qed
  show "0 < n" using assms(1,2) w by (cases "w mod s = 0") (auto simp: n_def)
qed

lemma uint_of_int: "0 \<le> x \<Longrightarrow> x < 2 ^ 64 \<Longrightarrow> uint (word_of_int x :: u64) = x"
  by (simp add: uint_word_of_int)

lemma uint_sint: "0 \<le> sint x \<Longrightarrow> uint (x :: u64) = sint x"
proof -
  assume "0 \<le> sint x"
  moreover have "sint x < 2 ^ 64" using sint_range(2) [of x] by simp
  ultimately have "uint (word_of_int (sint x) :: u64) = sint x" by (rule uint_of_int)
  then show ?thesis by simp
qed

lemma uint_diff: "sint x \<le> sint y \<Longrightarrow> uint (y - x :: u64) = sint y - sint x"
proof -
  assume "sint x \<le> sint y"
  moreover have "sint y - sint x < 2 ^ 64" using sint_range [of x] sint_range [of y] by simp
  ultimately have "uint (word_of_int (sint y - sint x) :: u64) = sint y - sint x" by (intro uint_of_int) simp_all
  then show ?thesis by simp
qed

lemma fillHits_starts:
  assumes s: "sint step > 0" and ft: "sint from < sint to" and a: "sint (alignDown from step) = a" "a \<le> sint from"
    and few: "sint to - a \<le> int maxHitsBuckets * sint step"
  obtains n where "fillHits buckets from to step = \<lparr>hs_Timestamps = map word_of_int (starts a (sint step) n),
      hs_Values = map (\<lambda>k. buckets (word_of_int k)) (starts a (sint step) n),
      hs_Total = sum_list (map (\<lambda>k. buckets (word_of_int k)) (starts a (sint step) n))\<rparr>"
    "\<And>i. i < n \<Longrightarrow> a + int i * sint step < sint to" "\<not> a + int n * sint step < sint to"
proof -
  let ?s = "sint step" and ?w = "RangeWidthNs (alignDown from step) to"
  have lt: "a < sint to" using a ft by simp
  have us: "int (unat step) = ?s" using uint_sint [of step] s by simp
  have w: "int (unat ?w) = sint to - a"
    using uint_diff [of "alignDown from step" to] lt a(1) by (simp add: RangeWidthNs_def)
  define n where "n = (if unat ?w mod unat step \<noteq> 0 then unat ?w div unat step + 1 else unat ?w div unat step)"
  have pos: "0 < unat step" "0 < unat ?w" using s us w lt by linarith+
  note cd = ceil_div [OF pos, folded n_def]
  have below: "a + int i * ?s < sint to" if "i < n" for i
    using cd(1) [OF that] w us by (metis (mono_tags) add.commute less_diff_eq of_nat_less_iff of_nat_mult)
  have top: "\<not> a + int n * ?s < sint to"
    using cd(2) w us by (metis (mono_tags) add.commute less_diff_eq of_nat_less_iff of_nat_mult)
  have "n \<le> maxHitsBuckets"
  proof (rule ccontr)
    assume "\<not> n \<le> maxHitsBuckets"
    then have "a + int maxHitsBuckets * ?s < sint to" by (intro below) simp
    then show False using few by simp
  qed
  then have c: "min n maxHitsBuckets = n" "\<not> sint to \<le> sint from" "(?w > 0) = True"
    using ft pos(2) by (auto simp: word_gt_0)
  have f: "fillHits buckets from to step = hits_walk buckets to step n (alignDown from step) \<lparr>hs_Timestamps = [], hs_Values = [], hs_Total = 0\<rparr>"
    unfolding fillHits_def Let_def n_def [symmetric] by (simp only: c if_True if_False)
  show thesis
    by (rule that [of n]) (use f hits_walk_starts [OF s a(1) below top] below top in simp_all)
qed

section \<open>No count is lost\<close>

lemma sum_by_key:
  assumes "distinct ks"
  shows "\<forall>x \<in> set xs. f x \<in> set ks \<Longrightarrow> sum_list (map (\<lambda>k. length (filter (\<lambda>x. f x = k) xs)) ks) = length xs"
proof (induction xs)
  case (Cons x xs)
  have "sum_list (map (\<lambda>k. length (filter (\<lambda>x. f x = k) (x # xs))) ks)
    = sum_list (map (\<lambda>k. (if k = f x then 1 else 0) + length (filter (\<lambda>x. f x = k) xs)) ks)"
    by (rule arg_cong [where f = sum_list]) simp
  also have "\<dots> = sum_list (map (\<lambda>k. if k = f x then 1 else 0) ks) + length xs" using Cons by (simp add: sum_list_addf)
  also have "sum_list (map (\<lambda>k. if k = f x then 1 else 0) ks) = (1 :: nat)"
    using assms Cons.prems by (simp add: sum_list_distinct_conv_sum_set)
  finally show ?case by simp
qed simp

lemma bucket_of_span:
  assumes s: "sint step > 0" and ft: "sint from < sint to" and dom: "- (2 ^ 63) \<le> sint from div sint step * sint step"
    and span: "BucketSpan from to step = (lo, hi)" and t: "in_window lo hi t"
  shows "\<exists>i. sint (alignDown t step) = sint (alignDown from step) + int i * sint step \<and> sint (alignDown t step) < sint to"
    "sint (alignDown from step) = sint from div sint step * sint step"
proof -
  let ?s = "sint step" and ?q = "\<lambda>x. sint x div sint step"
  show a: "sint (alignDown from step) = ?q from * ?s" using dom by (simp add: alignDown_floor [OF s])
  have to1: "sint (to - 1) = sint to - 1" using ft sint_range [of "from"] sint_range [of to] by (subst sint_sub) simp_all
  have le: "?q from \<le> ?q (to - 1)" using ft to1 s by (intro zdiv_mono1) simp_all
  then have "?q from * ?s \<le> ?q (to - 1) * ?s" using s by simp
  then have last: "sint (alignDown (to - 1) step) = ?q (to - 1) * ?s" using dom by (simp add: alignDown_floor [OF s])
  have lo: "lo = alignDown from step" using span s ft by (auto simp: BucketSpan_def Let_def)
  have up: "sint t < ?q (to - 1) * ?s + ?s"
  proof (cases "?q (to - 1) * ?s + ?s < 2 ^ 63")
    case True
    have "sint (alignDown (to - 1) step + step) = ?q (to - 1) * ?s + ?s"
      using True last s sint_range(1) [of "alignDown (to - 1) step"] by (subst sint_add) simp_all
    moreover have "sint to - 1 < ?q (to - 1) * ?s + ?s"
      using le_div_int [OF s, of "?q (to - 1) + 1" "sint (to - 1)"] to1 unfolding distrib_right by linarith
    ultimately have "hi = alignDown (to - 1) step + step" using span s ft last by (auto simp: BucketSpan_def Let_def)
    then show ?thesis using t last \<open>sint (alignDown (to - 1) step + step) = _\<close> by (simp add: in_window_def)
  next
    case False
    then show ?thesis using sint_range(2) [of t] by linarith
  qed
  have down: "?q from * ?s \<le> sint t" using t lo a by (simp add: in_window_def)
  have "(?q from * ?s) div ?s \<le> ?q t" by (rule zdiv_mono1 [OF down s])
  then have q1: "?q from \<le> ?q t" using s by simp
  have "sint t < (?q (to - 1) + 1) * ?s" using up by (simp add: algebra_simps)
  then have "?q t < ?q (to - 1) + 1" using le_div_int [OF s, of "?q (to - 1) + 1" "sint t"] by linarith
  then have "?q t * ?s \<le> ?q (to - 1) * ?s" using s by simp
  also have "\<dots> \<le> sint to - 1" using le_div_int [OF s, of "?q (to - 1)" "sint (to - 1)"] to1 by simp
  finally have lt: "?q t * ?s < sint to" by simp
  have "?q from * ?s \<le> ?q t * ?s" using q1 s by simp
  then have k: "sint (alignDown t step) = ?q t * ?s" using dom by (simp add: alignDown_floor [OF s])
  have "?q t * ?s = ?q from * ?s + int (nat (?q t - ?q from)) * ?s" using q1 by (simp add: algebra_simps)
  then show "\<exists>i. sint (alignDown t step) = sint (alignDown from step) + int i * ?s \<and> sint (alignDown t step) < sint to"
    unfolding a k using lt by blast
qed

lemma fillHits_total:
  assumes s: "sint step > 0" and ft: "sint from < sint to" and dom: "- (2 ^ 63) \<le> sint from div sint step * sint step"
    and few: "sint to - sint from div sint step * sint step \<le> int maxHitsBuckets * sint step"
    and span: "BucketSpan from to step = (lo, hi)" and ts: "\<forall>t \<in> set ts. in_window lo hi t"
    and b: "\<And>k. buckets k = length (filter (\<lambda>t. alignDown t step = k) ts)"
  shows "hs_Total (fillHits buckets from to step) = length ts"
    "sum_list (hs_Values (fillHits buckets from to step)) = length ts"
    "sorted_wrt (\<lambda>x y. sint x < sint y) (hs_Timestamps (fillHits buckets from to step))"
proof -
  let ?s = "sint step" and ?a = "sint from div sint step * sint step"
  have a: "sint (alignDown from step) = ?a" using dom by (simp add: alignDown_floor [OF s])
  have af: "?a \<le> sint from" using le_div_int [OF s, of "sint from div ?s" "sint from"] by simp
  obtain n where n: "fillHits buckets from to step = \<lparr>hs_Timestamps = map word_of_int (starts ?a ?s n),
      hs_Values = map (\<lambda>k. buckets (word_of_int k)) (starts ?a ?s n),
      hs_Total = sum_list (map (\<lambda>k. buckets (word_of_int k)) (starts ?a ?s n))\<rparr>"
    "\<And>i. i < n \<Longrightarrow> ?a + int i * ?s < sint to" "\<not> ?a + int n * ?s < sint to"
    using fillHits_starts [OF s ft a af few, of buckets] by metis
  let ?ks = "map word_of_int (starts ?a ?s n) :: u64 list"
  have w: "sint (?ks ! i) = ?a + int i * ?s" "i < length ?ks \<longleftrightarrow> i < n" if "i < n" for i
  proof -
    have "0 \<le> int i * ?s" using s by simp
    then have "sint (word_of_int (?a + int i * ?s) :: u64) = ?a + int i * ?s"
      using dom n(2) [OF that] sint_range(2) [of to] by (intro sint_of_int) linarith+
    then show "sint (?ks ! i) = ?a + int i * ?s" using that by (simp add: starts_def)
    show "i < length ?ks \<longleftrightarrow> i < n" by (simp add: starts_def)
  qed
  have len: "length ?ks = n" by (simp add: starts_def)
  have mono: "sorted_wrt (\<lambda>x y. sint x < sint y) ?ks"
  proof (rule sorted_wrt_iff_nth_less [THEN iffD2], intro allI impI)
    fix i j assume ij: "i < j" "j < length ?ks"
    then have "int i * ?s < int j * ?s" using s by simp
    then show "sint (?ks ! i) < sint (?ks ! j)" using w [of i] w [of j] ij len by simp
  qed
  then show "sorted_wrt (\<lambda>x y. sint x < sint y) (hs_Timestamps (fillHits buckets from to step))" by (simp add: n(1))
  have dist: "distinct ?ks" unfolding distinct_conv_nth
  proof (intro allI impI)
    fix i j assume ij: "i < length ?ks" "j < length ?ks" "i \<noteq> j"
    then have "sint (?ks ! i) \<noteq> sint (?ks ! j)" using w(1) [of i] w(1) [of j] len s by simp
    then show "?ks ! i \<noteq> ?ks ! j" by metis
  qed
  have key: "alignDown t step \<in> set ?ks" if "t \<in> set ts" for t
  proof -
    have tw: "in_window lo hi t" using ts that by blast
    obtain i where i: "sint (alignDown t step) = ?a + int i * ?s" "sint (alignDown t step) < sint to"
      using bucket_of_span [OF s ft dom span tw] by metis
    have "i < n"
    proof (rule ccontr)
      assume "\<not> i < n"
      then have "int n * ?s \<le> int i * ?s" using s by simp
      then show False using i n(3) by linarith
    qed
    then have "sint (?ks ! i) = sint (alignDown t step)" using w i(1) by simp
    then have "?ks ! i = alignDown t step" by (simp add: signed_word_eqI)
    then show ?thesis using \<open>i < n\<close> len nth_mem [of i ?ks] by simp
  qed
  have "sum_list (map buckets ?ks) = length ts"
    unfolding b using sum_by_key [OF dist, of ts "\<lambda>t. alignDown t step"] key by simp
  then show "hs_Total (fillHits buckets from to step) = length ts" "sum_list (hs_Values (fillHits buckets from to step)) = length ts"
    by (simp_all add: n(1) o_def)
qed

section \<open>Counting through the reader\<close>

lemma bump_fold: "foldl (\<lambda>out i. bump (f i) out) out xs k = out k + length (filter (\<lambda>i. f i = k) xs)"
  by (induction xs arbitrary: out) (simp_all add: bump_def)

lemma fold_opt_foldl:
  "(\<And>x s. x \<in> set xs \<Longrightarrow> g x s = Some (h s x)) \<Longrightarrow> fold_opt g xs s = Some (foldl h s xs)"
  by (induction xs arbitrary: s) simp_all

context written_group
begin

lemma histoGroup_counts:
  assumes S: "simd_ok S" and pr: "\<forall>p \<in> set (query_leaves q). column_leaf (\<lambda>f. dict_col g f \<noteq> None) p" and co: "cache_coherent R r s"
  shows "\<exists>out' s'. histoGroup S G R r q step out s = Some (out', s') \<and> cache_coherent R r s' \<and>
    (\<forall>k. out' k = out k + length (filter (\<lambda>t. alignDown t step = k) (map (nth (group_times g))
      (filter (\<lambda>i. in_window (From q) (To q) (group_times g ! i) \<and> queryMatchesRow G q (group_row g i)) [0..<GRows g]))))"
proof -
  let ?ts = "group_times g" and ?P = "\<lambda>i. in_window (From q) (To q) (group_times g ! i) \<and> queryMatchesRow G q (group_row g i)"
  obtain b s' where b: "matchBitset S G R r q s = Some (b, s')" "cache_coherent R r s'" "bitset_ok (Rows r) b" "\<forall>i < Rows r. bit_at b i \<longleftrightarrow> ?P i"
    using scan_selects [OF S pr co, of G] by (auto simp: selection)
  have each: "ForEach b = filter ?P [0..<GRows g]"
    using rows_of_filter [OF b(3)] rows_le(2) b(4) by (auto simp: ForEach_rows intro: filter_cong)
  show ?thesis
  proof (cases "Count b = 0")
    case True
    then have "ForEach b = []" by (simp add: Count_rows ForEach_rows)
    then show ?thesis using b True unfolding each by (simp add: histoGroup_def)
  next
    case False
    obtain lo0 hi0 where sp: "TimeWindowSpan r time_col (From q) (To q) = Some (lo0, hi0)" "lo0 \<le> hi0" "hi0 \<le> Rows r"
      "\<forall>j < Rows r. in_window (From q) (To q) (?ts ! j) \<longrightarrow> lo0 \<le> j \<and> j < hi0" using span_read(1) [of "From q" "To q"] by blast
    have mem: "i < Rows r \<and> ?P i" if "i \<in> set (ForEach b)" for i using that rows_le(2) unfolding each by auto
    have "ForEach b \<noteq> []" using False by (simp add: Count_rows ForEach_rows)
    then obtain i0 where "i0 \<in> set (ForEach b)" by (metis list.set_intros(1) neq_Nil_conv)
    then have lt: "lo0 < hi0" using mem sp(4) by fastforce
    define rng where "rng = take (hi0 - lo0) (drop lo0 ?ts)"
    have rd: "TimestampsRangeInto [] r time_col lo0 hi0 = Some rng" unfolding rng_def by (rule span_read(2) [OF lt sp(3)])
    have at: "\<not> i < lo0 \<and> index rng (i - lo0) = Some (?ts ! i)" if "i \<in> set (ForEach b)" for i
    proof -
      have "lo0 \<le> i" "i < hi0" using mem [OF that] sp(4) by blast+
      then show ?thesis using sp(3) times_read(1) by (auto simp: rng_def index_def)
    qed
    have "fold_opt (\<lambda>i out. if i < lo0 then None else do { t \<leftarrow> index rng (i - lo0); Some (bump (alignDown t step) out) }) (ForEach b) out
      = Some (foldl (\<lambda>out i. bump (alignDown (?ts ! i) step) out) out (ForEach b))"
      by (rule fold_opt_foldl) (use at in simp)
    then have "histoGroup S G R r q step out s = Some (foldl (\<lambda>out i. bump (alignDown (?ts ! i) step) out) out (ForEach b), s')"
      using b(1) False sp(1) lt rd by (simp add: histoGroup_def)
    then show ?thesis using b(2) by (simp add: bump_fold each filter_map o_def)
  qed
qed

end

section \<open>Properties\<close>

text \<open>C14: A hits series loses no row and counts none twice.  Scanning a written group over the widened bucket span and laying the counts
  out over the requested window, the values add up to exactly the rows of the span that satisfy the query, the total agrees, and the
  bucket starts ascend; this holds for windows that reach the top of the 64-bit domain, for starts before the epoch and for
  any positive step, as long as the first bucket starts inside the domain and the series is under its ceiling.\<close>

theorem hits_series_exact:
  assumes "simd_ok S" and "same_kernels K R" and "\<And>xs. rk_varint R (length xs) (concat (map put_uvarint xs)) = xs"
    and "group_wf g" and "list_all narrow (Columns g)" and "distinct (map ColName (Columns g))"
    and "Marshal K g = Some B" and "length B < 2 ^ 32"
    and "list_ex (\<lambda>c. ColName c = time_col \<and> ColTypeOf c = ColTimestamp) (Columns g)" and "0 < GRows g"
    and "\<forall>p \<in> set (query_leaves q). column_leaf (\<lambda>f. dict_col g f \<noteq> None) p"
    and "ReadGroup B = Some (Inr r)" and "cache_coherent R r s"
    and "sint step > 0" and "sint from < sint to" and "- (2 ^ 63) \<le> sint from div sint step * sint step"
    and "sint to - sint from div sint step * sint step \<le> int maxHitsBuckets * sint step"
    and "BucketSpan from to step = (lo, hi)"
  shows "\<exists>buckets s'. histoGroup S G R r (SetWindow q lo hi) step (\<lambda>_. 0) s = Some (buckets, s') \<and> cache_coherent R r s' \<and>
    (let series = fillHits buckets from to step;
         rows = filter (\<lambda>i. in_window lo hi (group_times g ! i) \<and> queryMatchesRow G q (group_row g i)) [0..<GRows g] in
     hs_Total series = length rows \<and> sum_list (hs_Values series) = length rows
     \<and> sorted_wrt (\<lambda>x y. sint x < sint y) (hs_Timestamps series))"
proof -
  let ?q = "SetWindow q lo hi"
  let ?rows = "filter (\<lambda>i. in_window lo hi (group_times g ! i) \<and> queryMatchesRow G q (group_row g i)) [0..<GRows g]"
  have w: "written_group K R g B r" by (rule written_group.intro) (rule assms(2-10,12))+
  have same_q: "query_leaves ?q = query_leaves q" "queryMatchesRow G ?q src = queryMatchesRow G q src" "From ?q = lo" "To ?q = hi" for src
    by (simp_all add: query_leaves_def queryMatchesRow_def SetWindow_def split: option.split)
  have "\<forall>p \<in> set (query_leaves ?q). column_leaf (\<lambda>f. dict_col g f \<noteq> None) p"
    unfolding same_q(1) by (rule assms(11))
  from written_group.histoGroup_counts [OF w assms(1) this assms(13), of G step "\<lambda>_. 0"]
  obtain buckets s' where b: "histoGroup S G R r ?q step (\<lambda>_. 0) s = Some (buckets, s')" "cache_coherent R r s'"
    "\<And>k. buckets k = length (filter (\<lambda>t. alignDown t step = k) (map (nth (group_times g)) ?rows))"
    by (auto simp: same_q)
  have "\<forall>t \<in> set (map (nth (group_times g)) ?rows). in_window lo hi t" by auto
  note tot = fillHits_total [OF assms(14-18) this b(3)]
  then show ?thesis using b(1,2) by (auto simp: Let_def)
qed

theorem hits_series_exact_witness:
  "\<exists>buckets s'. histoGroup ref_simd demo_golib demo_read demo_reader (SetWindow demo_query 0 20) 10 (\<lambda>_. 0) demo_cache = Some (buckets, s')
     \<and> hs_Total (fillHits buckets 3 17 10) = 1"
proof -
  have sp: "BucketSpan 3 17 10 = (0, 20)" by (simp add: BucketSpan_def alignDown_def quot_def Let_def)
  note w = hits_series_exact [OF ref_host.host_ok demo_same demo_varints demo_wf demo_fits(1,2) demo_blob demo_small [OF demo_blob]
    demo_fits(3,4) demo_query_fields demo_reader demo_cache_coherent _ _ _ _ sp, of demo_golib]
  have "GRows demo_group = 2" "group_times demo_group = [5, 9]" by (simp_all add: demo_group_def group_times_def time_col_def)
  then have "filter (\<lambda>i. in_window 0 20 (group_times demo_group ! i) \<and> queryMatchesRow demo_golib demo_query (group_row demo_group i)) [0..<GRows demo_group] = [1]"
    by (simp add: demo_rows upt_rec values_of_def in_window_def)
  with w show ?thesis by (fastforce simp: maxHitsBuckets_def Let_def)
qed

text \<open>At the bottom of the domain the scan window of a hits query is narrower than the request: with the earliest possible start
  and an hour's step, the first bucket that fits the domain begins after the start, \<^verbatim>\<open>BucketSpan\<close> returns that as the lower
  bound of the scan, and a row between the two is inside the requested window and outside the scanned one.\<close>

theorem bucket_span_drops_rows:
  "\<exists>from to step t lo hi. sint step > 0 \<and> in_window from to t \<and> BucketSpan from to step = (lo, hi) \<and> \<not> in_window lo hi t"
proof -
  have "BucketSpan MinInt64 0 3600000000000 = (word_of_int (-9223369200000000000), 0)"
    by (simp add: BucketSpan_def alignDown_def quot_def Let_def MinInt64_def)
  moreover have "in_window MinInt64 0 MinInt64" "\<not> in_window (word_of_int (-9223369200000000000)) 0 MinInt64"
    by (simp_all add: in_window_def)
  moreover have "sint (3600000000000 :: u64) > 0" by simp
  ultimately show ?thesis by blast
qed

text \<open>Adding value counts of distinct values to a table.\<close>

lemma count_fold:
  "distinct vs \<Longrightarrow> foldl (\<lambda>counts (v, c). counts(v := counts v + c)) counts (map (\<lambda>v. (v, n v)) vs)
    = (\<lambda>v. counts v + (if v \<in> set vs then n v else (0 :: nat)))"
proof (induction vs arbitrary: counts)
  case (Cons x vs)
  then show ?case by (auto simp: fun_eq_iff)
qed simp

lemma written_value_counts:
  assumes w: "written_group K R g B r" and "\<not> NoPostings g" and "dict_col g field = Some d"
  shows "ValueCountsInto R fused r field = Some (map (\<lambda>v. (v, length (filter (\<lambda>i. values_of d ! i = v) [0..<GRows g]))) (Dict d))"
    and "distinct (Dict d)" and "v \<notin> set (Dict d) \<Longrightarrow> filter (\<lambda>i. values_of d ! i = v) [0..<GRows g] = []"
proof -
  note rows = written_group.rows_le [OF w]
  obtain m e where m: "dict_wf (Rows r) d" "written_dict K g (blob r) e d m" "e \<le> length (blob r)" "length (blob r) < 2 ^ 32"
    "col_of r ColDict field = Some m" using written_group.dict_facts [OF w assms(3)] .
  have "same_kernels K R" using w by (simp add: written_group_def)
  from value_counts_exact [OF this m(1) rows(1) m(2-5) assms(2)] rows(2)
  show "ValueCountsInto R fused r field = Some (map (\<lambda>v. (v, length (filter (\<lambda>i. values_of d ! i = v) [0..<GRows g]))) (Dict d))" by simp
  show "distinct (Dict d)" using m(1) by (auto simp: dict_wf_def strict_sorted_iff)
  show "filter (\<lambda>i. values_of d ! i = v) [0..<GRows g] = []" if "v \<notin> set (Dict d)"
    using that m(1) rows(2) by (auto simp: filter_empty_conv values_of_def dict_wf_def)
qed

text \<open>C34: Two counting paths drop half of a query.  On a group with postings that lies inside the window and is not pruned, the grouped count
  of a query with a filter tree and no predicate list takes its footer fast path without looking at the tree: every value of the field is
  counted with all of its rows, whatever the tree says of them.  And on a query with a filter tree the selection ignores the
  predicate list: whatever predicates are added to it, as a hits query split by a field adds one per value, the rows selected
  are those of the tree alone.\<close>

theorem filter_and_predicates_divergence:
  assumes "simd_ok S" and "same_kernels K R" and "\<And>xs. rk_varint R (length xs) (concat (map put_uvarint xs)) = xs"
    and "group_wf g" and "list_all narrow (Columns g)" and "distinct (map ColName (Columns g))"
    and "Marshal K g = Some B" and "length B < 2 ^ 32"
    and "list_ex (\<lambda>c. ColName c = time_col \<and> ColTypeOf c = ColTimestamp) (Columns g)" and "0 < GRows g"
    and "ReadGroup B = Some (Inr r)" and "cache_coherent R r s"
    and "FilterE q = Some e" and "Preds q = []" and "groupCanMatch G R r q = Some True"
    and "\<not> NoPostings g" and "dict_col g field = Some d" and "field \<noteq> time_col"
    and "sint (From q) \<le> sint (TimeMin r)" and "sint (TimeMax r) < sint (To q)"
  shows "statsGroup S G fmt R vcFused r q field counts s
      = Some (\<lambda>v. counts v + length (filter (\<lambda>i. values_of d ! i = v) [0..<GRows g]), s)
    \<and> (\<exists>b s'. matchBitset S G R r (q\<lparr>Preds := ps\<rparr>) s = Some (b, s')
        \<and> ForEach b = filter (\<lambda>i. in_window (From q) (To q) (group_times g ! i)
             \<and> scanMatchesRow G (\<lambda>f. dict_col g f \<noteq> None) q (group_row g i)) [0..<GRows g])"
proof -
  have w: "written_group K R g B r" by (rule written_group.intro) (rule assms(2-))+
  note vc = written_value_counts [OF w assms(16,17)]
  have "(\<lambda>v. counts v + (if v \<in> set (Dict d) then length (filter (\<lambda>i. values_of d ! i = v) [0..<GRows g]) else 0))
      = (\<lambda>v. counts v + length (filter (\<lambda>i. values_of d ! i = v) [0..<GRows g]))"
    using vc(3) by (fastforce simp: fun_eq_iff)
  then have "statsGroup S G fmt R vcFused r q field counts s
      = Some (\<lambda>v. counts v + length (filter (\<lambda>i. values_of d ! i = v) [0..<GRows g]), s)"
    using assms(14,15,18-20) vc(1) count_fold [OF vc(2)] by (simp add: statsGroup_def)
  moreover have "matchBitset S G R r (q\<lparr>Preds := ps\<rparr>) s = matchBitset S G R r q s"
    using assms(13) by (simp add: matchBitset_def Let_def cong: if_cong)
  ultimately show ?thesis using written_group.scanned_rows [OF w assms(1,12), of G q] by auto
qed

text \<open>The example group under the filter that \<^verbatim>\<open>l\<close> is not \<^verbatim>\<open>b\<close>: the grouped count still reports the row whose \<^verbatim>\<open>l\<close> is \<^verbatim>\<open>b\<close>, and
  the selection with the predicate that \<^verbatim>\<open>l\<close> is \<^verbatim>\<open>b\<close> added, which no row satisfies together with the filter, is the other row.\<close>

theorem filter_and_predicates_divergence_witness:
  "(\<exists>counts. statsGroup ref_simd demo_golib (\<lambda>_. []) demo_read False demo_reader demo_query [108] (\<lambda>_. 0) demo_cache = Some (counts, demo_cache)
      \<and> counts [98] = 1)
   \<and> \<not> queryMatchesRow demo_golib demo_query (group_row demo_group 0)
   \<and> (\<exists>b s'. matchBitset ref_simd demo_golib demo_read demo_reader (demo_query\<lparr>Preds := [demo_pred Eq [108] [98]]\<rparr>) demo_cache = Some (b, s')
        \<and> ForEach b = [1])"
proof -
  let ?d = "\<lparr>Dict = [[97], [98]], Indices = [1, 0]\<rparr> :: DictColumn"
  have q: "FilterE demo_query = Some (OpNot (OpLeaf (demo_pred Eq [108] [98])))" "Preds demo_query = []"
    "groupCanMatch demo_golib demo_read demo_reader demo_query = Some True"
    by (simp_all add: demo_query_def groupCanMatch_def prepareRegexps_def)
  have g: "\<not> NoPostings demo_group" "dict_col demo_group [108] = Some ?d" "[108] \<noteq> time_col"
    by (simp_all add: demo_group_def dict_col_def col_types time_col_def)
  obtain e where e: "(TimeMin demo_reader, TimeMax demo_reader) = foldl time_step (0x7FFFFFFFFFFFFFFF, 0x8000000000000000)
      (concat (map ColTs (filter (\<lambda>c. ColTypeOf c = ColTimestamp) (Columns demo_group))))"
    using demo_log.reader_facts by metis
  then have t: "sint (From demo_query) \<le> sint (TimeMin demo_reader)" "sint (TimeMax demo_reader) < sint (To demo_query)"
    by (simp_all add: demo_group_def col_types time_step_def demo_query_def)
  note w = filter_and_predicates_divergence [OF ref_host.host_ok demo_same demo_varints demo_wf demo_fits(1,2) demo_blob
    demo_small [OF demo_blob] demo_fits(3,4) demo_reader demo_cache_coherent q g t, of "\<lambda>_. []" False "\<lambda>_. 0" "[demo_pred Eq [108] [98]]"]
  have n: "GRows demo_group = 2" "group_times demo_group = [5, 9]" "From demo_query = 0" "To demo_query = 100" "values_of ?d = [[98], [97]]"
    by (simp_all add: demo_group_def group_times_def time_col_def demo_query_def values_of_def)
  have c: "length (filter (\<lambda>i. [[98], [97 :: byte]] ! i = [98]) [0..<2]) = 1" by (simp add: upt_rec)
  have f: "filter (\<lambda>i. in_window 0 100 ([5, 9] ! i) \<and> scanMatchesRow demo_golib (\<lambda>f. dict_col demo_group f \<noteq> None) demo_query (group_row demo_group i)) [0..<2] = [1]"
    unfolding scanMatchesRow_present [OF demo_query_fields] demo_rows by (simp add: upt_rec values_of_def in_window_def)
  have "\<not> queryMatchesRow demo_golib demo_query (group_row demo_group 0)" by (simp add: demo_rows values_of_def)
  with w c f show ?thesis unfolding n by auto
qed

end
