(* ===== verification/Materialise.thy ===== *)
theory Materialise
  imports Scan
begin

text \<open>
  Row materialisation, \<^verbatim>\<open>appendMatches\<close> of \<^verbatim>\<open>internal/query/engine.go\<close>: the selection of one group, the
  fields to return, the bound of a limited query, the choice between point reads and bulk decodes, and the two ways
  rows are built (one slice per row, or one arena per group that the rows share).

  The locale \<open>row_reader\<close> extends the scan's view of a group by the reads that materialisation makes; a written group
  meets it.  \<^verbatim>\<open>formatTime\<close> and the iteration order of the map of filter fields are arguments.
\<close>

section \<open>Definitions\<close>

text \<open>The fields of \<^verbatim>\<open>Query\<close> that bound a run and choose its output columns; zero or below is unset.\<close>

record run_opts =
  Limit :: int
  LastN :: int
  RowMax :: int
  MaxBytes :: int
  maxMemory :: int
  maxGroups :: int
  Materialize :: "bytes list"
  MatAll :: bool
  MatCols :: bool

type_synonym decoded = "bytes \<rightharpoonup> u32 list \<times> bytes list"

definition addField :: "bytes list \<Rightarrow> bytes \<Rightarrow> bytes list" where
  "addField fs f = (if f \<in> set fs then fs else fs @ [f])"

definition windowed :: "Reader \<Rightarrow> ('f, 're) Query \<Rightarrow> bool" where
  "windowed r q \<longleftrightarrow> sint (TimeMin r) < sint (From q) \<or> sint (TimeMax r) \<ge> sint (To q)"

text \<open>One predicate of the flat list: its field is noted, its bitset intersected, and its decoded column kept for reuse.\<close>

definition scan_pred :: "simd_kernels \<Rightarrow> ('f, 're) golib \<Rightarrow> read_kernels \<Rightarrow> Reader \<Rightarrow> nat \<Rightarrow> ('f, 're) Pred
    \<Rightarrow> Bitset \<times> idx_cache \<times> decoded \<times> bytes list \<Rightarrow> (Bitset \<times> idx_cache \<times> decoded \<times> bytes list) option" where
  "scan_pred S G K r n p acc = (case acc of (sel, s, cs, fs) \<Rightarrow>
     if isTimePred (Kind p) then do { b \<leftarrow> timePredBitset S K r p n; Some (And S sel b, s, cs, fs) }
     else let fs1 = addField fs (Field p); fs2 = (if Field2 p \<noteq> [] then addField fs1 (Field2 p) else fs1) in
       if Kind p = Eq then do { (b, s') \<leftarrow> eqPredBitset S G K r p n s; Some (And S sel b, s', cs, fs2) }
       else do {
         (idx, dict, s1) \<leftarrow> DictIndices K r s (Field p);
         (b, s2) \<leftarrow> predBitsetCol S G K r p idx dict n s1;
         Some (And S sel b, s2, cs(Field p \<mapsto> (idx, dict)), fs2)
       })"

definition select_rows :: "simd_kernels \<Rightarrow> ('f, 're) golib \<Rightarrow> read_kernels \<Rightarrow> (bytes set \<Rightarrow> bytes list) \<Rightarrow> Reader \<Rightarrow> ('f, 're) Query
    \<Rightarrow> idx_cache \<Rightarrow> (Bitset \<times> idx_cache \<times> decoded \<times> bytes list) option" where
  "select_rows S G K ord r q s = (let n = Rows r in do {
     sel0 \<leftarrow> SetAll (NewBitset n);
     sel \<leftarrow> (if windowed r q then do {
         mask \<leftarrow> TimeRangeMaskInto r time_col (From q) (To q);
         tb \<leftarrow> packBools S (NewBitset n) mask;
         Some (And S sel0 tb)
       } else Some sel0);
     (case FilterE q of
        Some e \<Rightarrow> do { (c, s') \<leftarrow> evalExpr S G K r n e s; Some (And S sel c, s', Map.empty, foldl addField [] (ord (filterFields e {}))) }
      | None \<Rightarrow> fold_opt (scan_pred S G K r n) (Preds q) (sel, s, Map.empty, []))
   })"

text \<open>The bound of a query with a limit; \<open>None\<close> is the early return of a full result.\<close>

definition bound_rows :: "run_opts \<Rightarrow> nat \<Rightarrow> nat \<Rightarrow> Bitset \<Rightarrow> (Bitset \<times> nat) option" where
  "bound_rows o' have cnt sel = (
     if LastN o' > 0 then Some (if int cnt > LastN o' then (KeepLast sel (LastN o'), nat (LastN o')) else (sel, cnt))
     else if Limit o' > 0 then (let remaining = Limit o' - int have in
       if remaining \<le> 0 then None
       else Some (if int cnt > remaining then (KeepFirst sel remaining, nat remaining) else (sel, cnt)))
     else Some (sel, cnt))"

definition tsBlockGuess :: nat where "tsBlockGuess = 512"
definition bulkDecodeRows :: nat where "bulkDecodeRows = 512"
definition smallResultRows :: nat where "smallResultRows = 64"

text \<open>The rows whose timestamps are decoded.\<close>

definition time_span :: "Reader \<Rightarrow> ('f, 're) Query \<Rightarrow> run_opts \<Rightarrow> Bitset \<Rightarrow> (int \<times> int) option" where
  "time_span r q o' sel = do {
     (lo, hi) \<leftarrow> (if windowed r q then do {
         (lo, hi) \<leftarrow> TimeWindowSpan r time_col (From q) (To q);
         Some (if lo \<ge> hi then (0, Rows r) else (lo, hi))
       } else Some (0, Rows r));
     Some (if Limit o' > 0 \<or> LastN o' > 0 then (case FirstLast sel of (f, l) \<Rightarrow>
         if f \<ge> 0 then (max (int lo) f, min (int hi) (l + 1)) else (int lo, int hi))
       else (int lo, int hi))
   }"

definition groupTimestamps :: "u64 list \<Rightarrow> Reader \<Rightarrow> int \<Rightarrow> int \<Rightarrow> u64 list option" where
  "groupTimestamps pool r lo hi = TimestampsRangeInto (take 0 pool) r time_col (nat lo) (nat hi)"

definition row_time :: "Reader \<Rightarrow> bool \<Rightarrow> u64 list \<Rightarrow> int \<Rightarrow> nat \<Rightarrow> u64 option" where
  "row_time r pointRead ts lo i = (if pointRead then do { t \<leftarrow> TimestampAt r time_col (int i); Some (case t of Some t \<Rightarrow> t | None \<Rightarrow> 0) }
     else if int i < lo then None else index ts (nat (int i - lo)))"

text \<open>Decoding one field for all selected rows: only the dictionary values they reference.\<close>

definition mark_want :: "u32 list \<Rightarrow> nat list \<Rightarrow> nat \<Rightarrow> bool list option" where
  "mark_want idx rows n = fold_opt (\<lambda>i want. if i < length idx then set_index want (unat (idx ! i)) True else Some want) rows (replicate n False)"

definition decode_field :: "read_kernels \<Rightarrow> Reader \<Rightarrow> Bitset \<Rightarrow> bytes \<Rightarrow> decoded \<times> idx_cache \<Rightarrow> (decoded \<times> idx_cache) option" where
  "decode_field K r sel f acc = (case acc of (cs, s) \<Rightarrow>
     if cs f \<noteq> None then Some (cs, s) else do {
       (idx, s') \<leftarrow> DictIndicesRaw K r s f;
       if idx = [] then Some (cs, s') else do {
         want \<leftarrow> mark_want idx (ForEach sel) (DictLenOf r f);
         dict \<leftarrow> DictDecodeSome K r f want;
         Some (cs(f \<mapsto> (idx, dict)), s')
       }
     })"

definition read_field :: "read_kernels \<Rightarrow> Reader \<Rightarrow> (u64 \<Rightarrow> bytes) \<Rightarrow> decoded \<Rightarrow> u64 \<Rightarrow> nat \<Rightarrow> bytes \<Rightarrow> (bytes \<times> bytes) option option" where
  "read_field K r fmt cs t i f = (case cs f of
     Some (i0 # is, dict) \<Rightarrow> do { x \<leftarrow> index (i0 # is) i; v \<leftarrow> index dict (unat x); Some (Some (f, v)) }
   | _ \<Rightarrow> do {
       v \<leftarrow> DictValueAt K r f (int i);
       Some (case v of Some v \<Rightarrow> Some (f, v) | None \<Rightarrow> if f = time_col then Some (f, fmt t) else None)
     })"

text \<open>The direct path: one slice per row.\<close>

definition direct_row :: "(nat \<Rightarrow> u64 option) \<Rightarrow> (u64 \<Rightarrow> nat \<Rightarrow> bytes \<Rightarrow> (bytes \<times> bytes) option option) \<Rightarrow> bytes list
    \<Rightarrow> nat \<Rightarrow> Row list \<Rightarrow> Row list option" where
  "direct_row time cell fs i out = do {
     t \<leftarrow> time i;
     cells \<leftarrow> fold_opt (\<lambda>f acc. do { c \<leftarrow> cell t i f; Some (case c of None \<Rightarrow> acc | Some x \<Rightarrow> acc @ [x]) }) fs [];
     Some (out @ [\<lparr>Time = t, Fields = cells, NoTime = False\<rparr>])
   }"

text \<open>
  The arena path: the cells of all rows go to one array, and a row is the pair of positions its slice spans; the rows are read
  off the array when the group is done, so that a write to a slice handed out earlier would show.
\<close>

definition put_field :: "(bytes \<Rightarrow> (bytes \<times> bytes) option option) \<Rightarrow> bytes \<Rightarrow> (bytes \<times> bytes) list \<times> nat \<Rightarrow> ((bytes \<times> bytes) list \<times> nat) option" where
  "put_field cell f acc = (case acc of (arena, pos) \<Rightarrow> do {
     c \<leftarrow> cell f;
     case c of None \<Rightarrow> Some (arena, pos) | Some x \<Rightarrow> do { a \<leftarrow> set_index arena pos x; Some (a, pos + 1) }
   })"

definition arena_row :: "(nat \<Rightarrow> u64 option) \<Rightarrow> (u64 \<Rightarrow> nat \<Rightarrow> bytes \<Rightarrow> (bytes \<times> bytes) option option) \<Rightarrow> bytes list \<Rightarrow> nat
    \<Rightarrow> (bytes \<times> bytes) list \<times> nat \<times> (u64 \<times> nat \<times> nat) list \<Rightarrow> ((bytes \<times> bytes) list \<times> nat \<times> (u64 \<times> nat \<times> nat) list) option" where
  "arena_row time cell fs i acc = (case acc of (arena, start, rows) \<Rightarrow> do {
     t \<leftarrow> time i;
     (arena', pos) \<leftarrow> fold_opt (put_field (cell t i)) fs (arena, start);
     Some (arena', pos, rows @ [(t, start, pos)])
   })"

definition arena_slice :: "(bytes \<times> bytes) list \<Rightarrow> u64 \<times> nat \<times> nat \<Rightarrow> Row" where
  "arena_slice arena x = (case x of (t, start, pos) \<Rightarrow> \<lparr>Time = t, Fields = take (pos - start) (drop start arena), NoTime = False\<rparr>)"

definition arena_rows :: "(nat \<Rightarrow> u64 option) \<Rightarrow> (u64 \<Rightarrow> nat \<Rightarrow> bytes \<Rightarrow> (bytes \<times> bytes) option option) \<Rightarrow> bytes list \<Rightarrow> nat \<Rightarrow> nat list
    \<Rightarrow> Row list option" where
  "arena_rows time cell fs cnt sel = do {
     (arena, pos, rows) \<leftarrow> fold_opt (arena_row time cell fs) sel (replicate (cnt * length fs) ([], []), 0, []);
     Some (map (arena_slice arena) rows)
   }"

text \<open>The rows of a bounded selection: their times, their columns, and one of the two builders.\<close>

definition materialise :: "read_kernels \<Rightarrow> (u64 \<Rightarrow> bytes) \<Rightarrow> u64 list \<Rightarrow> Reader \<Rightarrow> ('f, 're) Query \<Rightarrow> run_opts \<Rightarrow> bytes list \<Rightarrow> decoded \<Rightarrow> idx_cache
    \<Rightarrow> Bitset \<Rightarrow> nat \<Rightarrow> Row list \<Rightarrow> (Row list \<times> idx_cache) option" where
  "materialise K fmt pool r q o' fs cs s sel cnt out = do {
     (lo, hi) \<leftarrow> time_span r q o' sel;
     let pointRead = (int (cnt * tsBlockGuess) < hi - lo);
     ts \<leftarrow> (if pointRead then Some [] else groupTimestamps pool r lo hi);
     (cs', s') \<leftarrow> (if cnt \<ge> Rows r div 16 \<or> cnt \<ge> bulkDecodeRows then fold_opt (decode_field K r sel) fs (cs, s) else Some (cs, s));
     let time = row_time r pointRead ts lo;
     let cell = read_field K r fmt cs';
     if cnt \<le> smallResultRows then do { out' \<leftarrow> fold_opt (direct_row time cell fs) (ForEach sel) out; Some (out', s') }
     else do { rows \<leftarrow> arena_rows time cell fs cnt (ForEach sel); Some (out @ rows, s') }
   }"

definition appendMatches :: "simd_kernels \<Rightarrow> ('f, 're) golib \<Rightarrow> read_kernels \<Rightarrow> (bytes set \<Rightarrow> bytes list) \<Rightarrow> (u64 \<Rightarrow> bytes) \<Rightarrow> u64 list
    \<Rightarrow> Reader \<Rightarrow> ('f, 're) Query \<Rightarrow> run_opts \<Rightarrow> Row list \<Rightarrow> idx_cache \<Rightarrow> (Row list \<times> idx_cache) option" where
  "appendMatches S G K ord fmt pool r q o' out s = do {
     (sel, s', cs, fs0) \<leftarrow> select_rows S G K ord r q s;
     let fs1 = foldl addField fs0 (Materialize o');
     let fs = (if MatAll o' \<or> MatCols o' then foldl addField fs1 (filter (\<lambda>f. f \<noteq> time_col) (ColumnNames r)) else fs1);
     let cnt = Count sel;
     if cnt = 0 then Some (out, s') else
     case bound_rows o' (length out) cnt sel of None \<Rightarrow> Some (out, s')
     | Some (sel', cnt') \<Rightarrow> materialise K fmt pool r q o' fs cs s' sel' cnt' out
   }"

section \<open>Field lists\<close>

lemma addField_dedup: "foldl addField fs xs = rev (remdups (rev (fs @ xs)))" if "distinct fs" for fs xs
  using that
proof (induction xs rule: rev_induct)
  case Nil
  then show ?case by (simp add: distinct_remdups_id)
next
  case (snoc x xs)
  then show ?case by (auto simp: addField_def)
qed

text \<open>The fields of the predicates, in the order the scan notes them.\<close>

definition pred_fields :: "('f, 're) Pred \<Rightarrow> bytes list" where
  "pred_fields p = (if isTimePred (Kind p) then [] else Field p # (if Field2 p \<noteq> [] then [Field2 p] else []))"

definition query_fields :: "(bytes set \<Rightarrow> bytes list) \<Rightarrow> ('f, 're) Query \<Rightarrow> bytes list" where
  "query_fields ord q = (case FilterE q of Some e \<Rightarrow> ord (filterFields e {}) | None \<Rightarrow> concat (map pred_fields (Preds q)))"

definition out_fields :: "(bytes set \<Rightarrow> bytes list) \<Rightarrow> bytes list \<Rightarrow> ('f, 're) Query \<Rightarrow> run_opts \<Rightarrow> bytes list" where
  "out_fields ord names q o' = rev (remdups (rev (query_fields ord q @ Materialize o'
     @ (if MatAll o' \<or> MatCols o' then filter (\<lambda>f. f \<noteq> time_col) names else []))))"

lemma out_fields_folds:
  "out_fields ord names q o' = (let fs1 = foldl addField (foldl addField [] (query_fields ord q)) (Materialize o') in
     if MatAll o' \<or> MatCols o' then foldl addField fs1 (filter (\<lambda>f. f \<noteq> time_col) names) else fs1)"
  by (simp only: out_fields_def addField_dedup [OF distinct.simps(1) [THEN iffD2, OF TrueI], simplified append_Nil, symmetric] foldl_append Let_def if_distrib)
    simp

section \<open>The bound of a limited query\<close>

text \<open>The rows kept of a group's matches when \<open>have\<close> rows were already found.\<close>

definition keep_rows :: "run_opts \<Rightarrow> nat \<Rightarrow> nat list \<Rightarrow> nat list" where
  "keep_rows o' have rows = (if LastN o' > 0 then drop (length rows - nat (LastN o')) rows
     else if Limit o' > 0 then take (nat (Limit o' - int have)) rows else rows)"

lemma keep_rows_subset: "set (keep_rows o' have rows) \<subseteq> set rows"
  by (auto simp: keep_rows_def dest: in_set_dropD in_set_takeD)

lemma bound_rows_keeps:
  assumes "bitset_ok n sel" and "ForEach sel \<noteq> []"
  shows "case bound_rows o' have (Count sel) sel of
     None \<Rightarrow> keep_rows o' have (ForEach sel) = []
   | Some (sel', cnt) \<Rightarrow> bitset_ok n sel' \<and> ForEach sel' = keep_rows o' have (ForEach sel) \<and> cnt = length (ForEach sel') \<and> 0 < cnt"
  using assms
  by (auto simp: bound_rows_def keep_rows_def ForEach_rows Count_rows KeepFirst_rows KeepLast_rows Keep_ok Let_def)

lemma first_last_bounds:
  assumes "ForEach sel \<noteq> []"
  shows "\<exists>f l. FirstLast sel = (int f, int l) \<and> f \<in> set (ForEach sel) \<and> l \<in> set (ForEach sel) \<and> (\<forall>i \<in> set (ForEach sel). f \<le> i \<and> i \<le> l)"
proof -
  obtain x xs where x: "ForEach sel = x # xs" using assms by (cases "ForEach sel") auto
  have "sorted (x # xs)" using x by (metis ForEach_rows sorted_rows_of(1))
  then have "\<forall>i \<in> set (x # xs). x \<le> i \<and> i \<le> last (x # xs)"
    by (metis append_butlast_last_id in_set_conv_decomp list.discI set_ConsD sorted_append sorted_simps(2) order_refl rotate1.simps(2) set_rotate1)
  moreover have "FirstLast sel = (int x, int (last (x # xs)))" using FirstLast_rows [of sel] x by (simp add: ForEach_rows)
  moreover have "last (x # xs) \<in> set (x # xs)" by (rule last_in_set) simp
  ultimately show ?thesis unfolding x by (metis list.set_intros(1))
qed

section \<open>Both row builders agree\<close>

text \<open>The row with the cells that \<open>C\<close> finds for the fields.\<close>

definition built :: "(nat \<Rightarrow> u64) \<Rightarrow> (nat \<Rightarrow> bytes \<Rightarrow> (bytes \<times> bytes) option) \<Rightarrow> bytes list \<Rightarrow> nat \<Rightarrow> Row" where
  "built T C fs i = \<lparr>Time = T i, Fields = List.map_filter (C i) fs, NoTime = False\<rparr>"

lemma direct_cells:
  assumes "\<And>f. f \<in> set fs \<Longrightarrow> cell f = Some (C f)"
  shows "fold_opt (\<lambda>f acc. do { c \<leftarrow> cell f; Some (case c of None \<Rightarrow> acc | Some x \<Rightarrow> acc @ [x]) }) fs acc = Some (acc @ List.map_filter C fs)"
  using assms by (induction fs arbitrary: acc) (auto simp: map_filter_simps split: option.split)

lemma direct_rows_built:
  assumes "\<And>i. i \<in> set is \<Longrightarrow> time i = Some (T i)" and "\<And>i f. i \<in> set is \<Longrightarrow> f \<in> set fs \<Longrightarrow> cell (T i) i f = Some (C i f)"
  shows "fold_opt (direct_row time cell fs) is out = Some (out @ map (built T C fs) is)"
  using assms
proof (induction "is" arbitrary: out)
  case (Cons i "is")
  have "direct_row time cell fs i out = Some (out @ [built T C fs i])"
    using Cons.prems direct_cells [of fs "cell (T i) i" "C i" "[]"] by (simp add: direct_row_def built_def)
  with Cons show ?case by simp
qed simp

lemma put_field_step:
  "cell f = Some None \<Longrightarrow> put_field cell f (arena, pos) = Some (arena, pos)"
  "cell f = Some (Some x) \<Longrightarrow> set_index arena pos x = Some a \<Longrightarrow> put_field cell f (arena, pos) = Some (a, Suc pos)"
  by (simp_all add: put_field_def)

lemma put_fields:
  assumes "\<And>f. f \<in> set fs \<Longrightarrow> cell f = Some (C f)" and "length fs \<le> length free"
  shows "fold_opt (put_field cell) fs (filled @ free, length filled)
    = Some (filled @ List.map_filter C fs @ drop (length (List.map_filter C fs)) free, length filled + length (List.map_filter C fs))"
  using assms
proof (induction fs arbitrary: filled free)
  case (Cons f fs)
  have cf: "cell f = Some (C f)" using Cons.prems(1) by simp
  show ?case
  proof (cases "C f")
    case None
    then show ?thesis using Cons cf by (simp add: put_field_step map_filter_simps)
  next
    case (Some x)
    obtain y free' where free: "free = y # free'" using Cons.prems(2) by (cases free) auto
    have "set_index (filled @ free) (length filled) x = Some ((filled @ [x]) @ free')"
      using free by (simp add: set_index_def list_update_append)
    moreover have "fold_opt (put_field cell) fs ((filled @ [x]) @ free', length (filled @ [x]))
      = Some ((filled @ [x]) @ List.map_filter C fs @ drop (length (List.map_filter C fs)) free', length (filled @ [x]) + length (List.map_filter C fs))"
      using Cons.prems free by (intro Cons.IH) auto
    ultimately show ?thesis using Some cf free by (simp add: put_field_step map_filter_simps)
  qed
qed (simp add: map_filter_simps)

lemma map_filter_length: "length (List.map_filter C fs) \<le> length fs"
  by (induction fs) (auto simp: map_filter_simps split: option.split)

text \<open>The spans the rows receive when the arena is filled up to \<open>pos\<close>.\<close>

fun spans :: "(nat \<Rightarrow> u64) \<Rightarrow> (nat \<Rightarrow> 'c list) \<Rightarrow> nat \<Rightarrow> nat list \<Rightarrow> (u64 \<times> nat \<times> nat) list" where
  "spans T cells pos [] = []"
| "spans T cells pos (i # is) = (T i, pos, pos + length (cells i)) # spans T cells (pos + length (cells i)) is"

lemma spans_slices:
  "map (arena_slice (pre @ concat (map (\<lambda>i. List.map_filter (C i) fs) is) @ rest)) (spans T (\<lambda>i. List.map_filter (C i) fs) (length pre) is)
    = map (built T C fs) is"
proof (induction "is" arbitrary: pre)
  case (Cons i "is")
  show ?case using Cons.IH [of "pre @ List.map_filter (C i) fs"] by (simp add: arena_slice_def built_def)
qed simp

lemma arena_fold:
  assumes "\<And>i. i \<in> set is \<Longrightarrow> time i = Some (T i)" and "\<And>i f. i \<in> set is \<Longrightarrow> f \<in> set fs \<Longrightarrow> cell (T i) i f = Some (C i f)"
    and "length is * length fs \<le> length free"
  shows "\<exists>rest pos. fold_opt (arena_row time cell fs) is (filled @ free, length filled, rows)
    = Some (filled @ concat (map (\<lambda>i. List.map_filter (C i) fs) is) @ rest, pos, rows @ spans T (\<lambda>i. List.map_filter (C i) fs) (length filled) is)"
  using assms
proof (induction "is" arbitrary: filled free rows)
  case (Cons i "is")
  let ?c = "List.map_filter (C i) fs" and ?free = "drop (length (List.map_filter (C i) fs)) free"
  have le: "length fs \<le> length free" using Cons.prems(3) by simp
  have "arena_row time cell fs i (filled @ free, length filled, rows)
    = Some ((filled @ ?c) @ ?free, length (filled @ ?c), rows @ [(T i, length filled, length filled + length ?c)])"
    using Cons.prems(1,2) put_fields [of fs "cell (T i) i" "C i" free filled] le by (simp add: arena_row_def)
  moreover have "length is * length fs \<le> length ?free" using Cons.prems(3) map_filter_length [of "C i" fs] by simp
  with Cons.IH [of ?free "filled @ ?c" "rows @ [(T i, length filled, length filled + length ?c)]"] Cons.prems(1,2)
  obtain rest pos where "fold_opt (arena_row time cell fs) is ((filled @ ?c) @ ?free, length (filled @ ?c), rows @ [(T i, length filled, length filled + length ?c)])
    = Some ((filled @ ?c) @ concat (map (\<lambda>i. List.map_filter (C i) fs) is) @ rest, pos,
        (rows @ [(T i, length filled, length filled + length ?c)]) @ spans T (\<lambda>i. List.map_filter (C i) fs) (length (filled @ ?c)) is)" by auto
  ultimately show ?case by simp
qed simp

lemma arena_rows_built:
  assumes "\<And>i. i \<in> set is \<Longrightarrow> time i = Some (T i)" and "\<And>i f. i \<in> set is \<Longrightarrow> f \<in> set fs \<Longrightarrow> cell (T i) i f = Some (C i f)"
  shows "arena_rows time cell fs (length is) is = Some (map (built T C fs) is)"
proof -
  obtain rest pos where "fold_opt (arena_row time cell fs) is ([] @ replicate (length is * length fs) ([], []), length ([] :: (bytes \<times> bytes) list), [])
    = Some ([] @ concat (map (\<lambda>i. List.map_filter (C i) fs) is) @ rest, pos, [] @ spans T (\<lambda>i. List.map_filter (C i) fs) (length ([] :: (bytes \<times> bytes) list)) is)"
    using arena_fold [of "is" time T fs cell C "replicate (length is * length fs) ([], [])" "[]" "[]"] assms by auto
  then show ?thesis using spans_slices [of "[]" C fs "is" rest T] by (simp add: arena_rows_def)
qed

section \<open>The interface of a group that rows are read from\<close>

text \<open>Beside what the scan needs: point reads, partial dictionary decodes and the timestamps of a span.\<close>

locale row_reader = readable_group +
  assumes value_at: "vals f = Some d \<Longrightarrow> i < Rows r \<Longrightarrow> DictValueAt R r f (int i) = Some (Some (values_of d ! i))"
    and no_value: "vals f = None \<Longrightarrow> DictValueAt R r f (int i) = Some None"
    and no_indices: "vals f = None \<Longrightarrow> DictIndicesRaw R r s f = Some ([], s)"
    and some_values: "vals f = Some d \<Longrightarrow> length want = length (Dict d) \<Longrightarrow>
          DictDecodeSome R r f want = Some (map (\<lambda>j. if want ! j then Dict d ! j else []) [0..<length (Dict d)])"
    and dict_length: "vals f = Some d \<Longrightarrow> DictLenOf r f = length (Dict d)"
    and stamp_at: "i < Rows r \<Longrightarrow> TimestampAt r time_col (int i) = Some (Some (ts ! i))"
    and stamp_span: "\<exists>lo hi. TimeWindowSpan r time_col from to = Some (lo, hi) \<and> lo \<le> hi \<and> hi \<le> Rows r
          \<and> (\<forall>j < Rows r. in_window from to (ts ! j) \<longrightarrow> lo \<le> j \<and> j < hi)"
    and stamp_range: "lo < hi \<Longrightarrow> hi \<le> Rows r \<Longrightarrow> TimestampsRangeInto dst r time_col lo hi = Some (take (hi - lo) (drop lo ts))"
begin

text \<open>The rows a query selects.\<close>

definition hits :: "('f, 're) golib \<Rightarrow> ('f, 're) Query \<Rightarrow> nat list" where
  "hits G q = filter (\<lambda>i. in_window (From q) (To q) (ts ! i) \<and> scanMatchesRow G (\<lambda>f. vals f \<noteq> None) q (row i)) [0..<Rows r]"

text \<open>What row \<open>i\<close> shows for a field, and the decoded columns that agree with it on the rows \<open>is\<close>.\<close>

definition cell_of :: "(u64 \<Rightarrow> bytes) \<Rightarrow> nat \<Rightarrow> bytes \<Rightarrow> (bytes \<times> bytes) option" where
  "cell_of fmt i f = (case vals f of Some d \<Rightarrow> Some (f, values_of d ! i) | None \<Rightarrow> if f = time_col then Some (f, fmt (ts ! i)) else None)"

definition agrees :: "nat set \<Rightarrow> decoded \<Rightarrow> bool" where
  "agrees is cs \<longleftrightarrow> (\<forall>f idx dict. cs f = Some (idx, dict) \<longrightarrow> idx = [] \<and> vals f = None \<or> (\<exists>d. vals f = Some d \<and> idx = Indices d
     \<and> (\<forall>i \<in> is. unat (idx ! i) < length dict \<and> dict ! unat (idx ! i) = values_of d ! i)))"

lemma agrees_empty [simp]: "agrees is Map.empty"
  by (simp add: agrees_def)

lemma agrees_mono: "agrees is cs \<Longrightarrow> js \<subseteq> is \<Longrightarrow> agrees js cs"
  unfolding agrees_def by blast

lemma agrees_upd:
  "agrees is cs \<Longrightarrow> vals f = Some d \<Longrightarrow> (\<And>i. i \<in> is \<Longrightarrow> unat (Indices d ! i) < length dict \<and> dict ! unat (Indices d ! i) = values_of d ! i)
   \<Longrightarrow> agrees is (cs(f \<mapsto> (Indices d, dict)))"
  by (auto simp: agrees_def)

lemma read_field_exact:
  assumes "agrees is cs" and "i \<in> is" and "i < Rows r"
  shows "read_field R r fmt cs (ts ! i) i f = Some (cell_of fmt i f)"
proof (cases "vals f")
  case None
  then have "cs f = None \<or> (\<exists>dict. cs f = Some ([], dict))" using assms(1) by (cases "cs f") (fastforce simp: agrees_def)+
  then show ?thesis using None no_value [OF None] by (auto simp: read_field_def cell_of_def)
next
  case (Some d)
  note dd = dict_of [OF Some]
  show ?thesis
  proof (cases "\<exists>dict. cs f = Some (Indices d, dict)")
    case True
    then obtain dict where c: "cs f = Some (Indices d, dict)" by blast
    have "\<forall>i \<in> is. unat (Indices d ! i) < length dict \<and> dict ! unat (Indices d ! i) = values_of d ! i"
      using assms(1) [unfolded agrees_def, rule_format, OF c] Some by auto
    then have x: "unat (Indices d ! i) < length dict" "dict ! unat (Indices d ! i) = values_of d ! i" using assms(2) by blast+
    obtain i0 rest where idx: "Indices d = i0 # rest" using dd(1) assms(3) by (cases "Indices d") auto
    have "index (Indices d) i = Some (Indices d ! i)" using dd(1) assms(3) by (simp add: index_def)
    then show ?thesis using c x Some unfolding idx by (simp add: read_field_def cell_of_def index_def)
  next
    case False
    then have "cs f = None" using assms(1) Some by (cases "cs f") (fastforce simp: agrees_def)+
    then show ?thesis using Some value_at [OF Some assms(3)] by (simp add: read_field_def cell_of_def)
  qed
qed

lemma mark_want_ok:
  assumes d: "vals f = Some d" and is_rows: "\<forall>i \<in> set is. i < Rows r"
  shows "\<exists>want. mark_want (Indices d) is (length (Dict d)) = Some want \<and> length want = length (Dict d)
     \<and> (\<forall>i \<in> set is. want ! unat (Indices d ! i))"
proof -
  note dd = dict_of [OF d]
  have "\<exists>want. fold_opt (\<lambda>i want. if i < length (Indices d) then set_index want (unat (Indices d ! i)) True else Some want) is w = Some want
      \<and> length want = length w \<and> (\<forall>i \<in> set is. want ! unat (Indices d ! i)) \<and> (\<forall>j < length w. w ! j \<longrightarrow> want ! j)"
    if "length w = length (Dict d)" for w
    using that is_rows
  proof (induction "is" arbitrary: w)
    case (Cons i "is")
    let ?w = "w[unat (Indices d ! i) := True]"
    have i: "i < length (Indices d)" "unat (Indices d ! i) < length w" using Cons.prems dd(1,4) by simp_all
    obtain want where w: "fold_opt (\<lambda>i want. if i < length (Indices d) then set_index want (unat (Indices d ! i)) True else Some want) is ?w = Some want"
      "length want = length ?w" "\<forall>i \<in> set is. want ! unat (Indices d ! i)" "\<forall>j < length ?w. ?w ! j \<longrightarrow> want ! j"
      using Cons.IH [of ?w] Cons.prems by auto
    have "want ! unat (Indices d ! i)" using w(4) i by simp
    moreover have "\<forall>j < length w. w ! j \<longrightarrow> want ! j" using w(4) i(2) by (simp add: nth_list_update)
    ultimately show ?case using w i by (simp add: set_index_def)
  qed simp
  from this [of "replicate (length (Dict d)) False"] show ?thesis by (auto simp: mark_want_def)
qed

lemma decode_field_ok:
  assumes "agrees (set (ForEach sel)) cs" and "cache_coherent R r s" and "\<forall>i \<in> set (ForEach sel). i < Rows r"
  shows "\<exists>cs' s'. decode_field R r sel f (cs, s) = Some (cs', s') \<and> agrees (set (ForEach sel)) cs' \<and> cache_coherent R r s'"
proof (cases "cs f = None")
  case new: True
  show ?thesis
  proof (cases "vals f")
    case None
    then show ?thesis using assms new no_indices [OF None, of s] by (simp add: decode_field_def)
  next
    case (Some d)
    note dd = dict_of [OF Some]
    obtain s' where s': "DictIndicesRaw R r s f = Some (Indices d, s')" "cache_coherent R r s'" using raw [OF Some assms(2)] by blast
    obtain want where want: "mark_want (Indices d) (ForEach sel) (length (Dict d)) = Some want" "length want = length (Dict d)"
      "\<forall>i \<in> set (ForEach sel). want ! unat (Indices d ! i)" using mark_want_ok [OF Some assms(3)] by blast
    let ?dict = "map (\<lambda>j. if want ! j then Dict d ! j else []) [0..<length (Dict d)]"
    have "unat (Indices d ! i) < length ?dict \<and> ?dict ! unat (Indices d ! i) = values_of d ! i" if "i \<in> set (ForEach sel)" for i
      using that want(3) assms(3) dd(4,5) by auto
    then have "agrees (set (ForEach sel)) (cs(f \<mapsto> (Indices d, ?dict)))" by (rule agrees_upd [OF assms(1) Some])
    then show ?thesis
      using new s' want(1,2) assms(1) by (auto simp: decode_field_def dict_length [OF Some] some_values [OF Some])
  qed
qed (use assms in \<open>simp add: decode_field_def\<close>)

lemma decode_fields_ok:
  assumes "agrees (set (ForEach sel)) cs" and "cache_coherent R r s" and "\<forall>i \<in> set (ForEach sel). i < Rows r"
  shows "\<exists>cs' s'. fold_opt (decode_field R r sel) fs (cs, s) = Some (cs', s') \<and> agrees (set (ForEach sel)) cs' \<and> cache_coherent R r s'"
  using fold_opt_inv [of "\<lambda>(cs, s). agrees (set (ForEach sel)) cs \<and> cache_coherent R r s" "(cs, s)" fs "decode_field R r sel"]
    assms(1,2) decode_field_ok [OF _ _ assms(3)] by fastforce

text \<open>The selection is that of \<^verbatim>\<open>matchBitset\<close>, and the columns it decoded on the way agree with the group.\<close>

lemma scan_pred_leaf:
  "map_option (\<lambda>(b, s, _). (b, s)) (scan_pred S G R r n p (sel, s, cs, fs)) = combine (And S) (leafBitset S G R r n) p (sel, s)"
  by (auto simp: scan_pred_def combine_def leafBitset_def Let_def map_option_case split: option.splits Option.bind_splits)

lemma scan_pred_columns:
  assumes "scan_pred S G R r n p (sel, s, cs, fs) = Some (sel', s', cs', fs')" and "cache_coherent R r s" and "agrees {0..<Rows r} cs"
  shows "agrees {0..<Rows r} cs' \<and> fs' = foldl addField fs (pred_fields p)"
proof (cases "isTimePred (Kind p) \<or> Kind p = Eq")
  case True
  then show ?thesis using assms(1,3) by (auto simp: scan_pred_def pred_fields_def Let_def split: if_splits Option.bind_splits)
next
  case False
  obtain idx dict s1 where s1: "DictIndices R r s (Field p) = Some (idx, dict, s1)" "agrees {0..<Rows r} (cs(Field p \<mapsto> (idx, dict)))"
  proof (cases "vals (Field p)")
    case None
    then show thesis using that no_column(1) [OF None] assms(3) by (auto simp: agrees_def)
  next
    case (Some d)
    obtain s1 where "DictIndices R r s (Field p) = Some (Indices d, Dict d, s1)" using indices [OF Some assms(2)] by blast
    moreover have "agrees {0..<Rows r} (cs(Field p \<mapsto> (Indices d, Dict d)))"
      using assms(3) Some dict_of(4,5) [OF Some] by (intro agrees_upd) simp_all
    ultimately show thesis using that by blast
  qed
  then show ?thesis
    using assms(1) False by (auto simp: scan_pred_def pred_fields_def Let_def split: if_splits Option.bind_splits)
qed

lemma scan_preds_columns:
  assumes S: "simd_ok S" and "cache_coherent R r s" and "agrees {0..<Rows r} cs"
    and "fold_opt (scan_pred S G R r (Rows r)) ps (sel, s, cs, fs) = Some (sel', s', cs', fs')"
  shows "agrees {0..<Rows r} cs' \<and> fs' = foldl addField fs (concat (map pred_fields ps))"
  using assms(2-)
proof (induction ps arbitrary: sel s cs fs)
  case (Cons p ps)
  obtain sel1 s1 cs1 fs1 where step: "scan_pred S G R r (Rows r) p (sel, s, cs, fs) = Some (sel1, s1, cs1, fs1)"
    "fold_opt (scan_pred S G R r (Rows r)) ps (sel1, s1, cs1, fs1) = Some (sel', s', cs', fs')"
    using Cons.prems(3) by (auto split: Option.bind_splits)
  have "\<exists>b. leafBitset S G R r (Rows r) p s = Some (b, s1)"
    using scan_pred_leaf [of S G "Rows r" p sel s cs fs] step(1) by (auto simp: combine_def split: Option.bind_splits)
  then have "cache_coherent R r s1" using leafBitset_selects [OF S Cons.prems(1), of p G] by (auto simp: selects_def)
  moreover have "agrees {0..<Rows r} cs1 \<and> fs1 = foldl addField fs (pred_fields p)"
    using scan_pred_columns [OF step(1)] Cons.prems by simp
  ultimately show ?case using Cons.IH [OF _ _ step(2)] by simp
qed simp

lemma scan_preds_leaves:
  "map_option (\<lambda>(b, s, _). (b, s)) (fold_opt (scan_pred S G R r n) ps (sel, s, cs, fs)) = fold_opt (combine (And S) (leafBitset S G R r n)) ps (sel, s)"
proof (induction ps arbitrary: sel s cs fs)
  case (Cons p ps)
  show ?case
  proof (cases "scan_pred S G R r n p (sel, s, cs, fs)")
    case None
    then have "combine (And S) (leafBitset S G R r n) p (sel, s) = None" using scan_pred_leaf [of S G n p sel s cs fs] by simp
    with None show ?thesis by simp
  next
    case (Some x)
    obtain sel1 s1 cs1 fs1 where x: "x = (sel1, s1, cs1, fs1)" by (cases x)
    have "combine (And S) (leafBitset S G R r n) p (sel, s) = Some (sel1, s1)"
      using scan_pred_leaf [of S G n p sel s cs fs] Some x by simp
    then show ?thesis using Some x Cons.IH by simp
  qed
qed simp

lemma select_rows_exact:
  assumes S: "simd_ok S" and co: "cache_coherent R r s"
  shows "\<exists>sel s' cs. select_rows S G R ord r q s = Some (sel, s', cs, foldl addField [] (query_fields ord q)) \<and> cache_coherent R r s'
     \<and> bitset_ok (Rows r) sel \<and> ForEach sel = hits G q \<and> agrees {0..<Rows r} cs"
proof -
  obtain b s' where b: "matchBitset S G R r q s = Some (b, s')" "cache_coherent R r s'" "bitset_ok (Rows r) b"
    "\<forall>i < Rows r. bit_at b i \<longleftrightarrow> in_window (From q) (To q) (ts ! i) \<and> scanMatchesRow G (\<lambda>f. vals f \<noteq> None) q (row i)"
    using matchBitset_selects [OF S co, of q G] unfolding selects_def leaf_query by blast
  have "ForEach b = filter (bit_at b) [0..<Rows r]" using rows_of_filter [OF b(3)] by (simp add: ForEach_rows)
  also have "\<dots> = hits G q" unfolding hits_def by (rule filter_cong [OF refl]) (use b(4) in simp)
  finally have each: "ForEach b = hits G q" .
  obtain sel0 where sel0: "SetAll (NewBitset (Rows r)) = Some sel0" using b(1) by (auto simp: matchBitset_def Let_def split: Option.bind_splits)
  show ?thesis
  proof (cases "FilterE q")
    case (Some e)
    then have "select_rows S G R ord r q s = Some (b, s', Map.empty, foldl addField [] (query_fields ord q))"
      using b(1) by (auto simp: matchBitset_def select_rows_def windowed_def query_fields_def Let_def split: Option.bind_splits if_splits)
    then show ?thesis using b(2,3) each by auto
  next
    case None
    obtain sel where fold: "fold_opt (combine (And S) (leafBitset S G R r (Rows r))) (Preds q) (sel, s) = Some (b, s')"
      and sel: "select_rows S G R ord r q s = fold_opt (scan_pred S G R r (Rows r)) (Preds q) (sel, s, Map.empty, [])"
      using b(1) None by (auto simp: matchBitset_def select_rows_def windowed_def Let_def split: Option.bind_splits if_splits)
    then obtain cs fs where r: "fold_opt (scan_pred S G R r (Rows r)) (Preds q) (sel, s, Map.empty, []) = Some (b, s', cs, fs)"
      using scan_preds_leaves [of S G "Rows r" "Preds q" sel s Map.empty "[]"] by (auto simp: map_option_case split: option.splits)
    have "agrees {0..<Rows r} cs \<and> fs = foldl addField [] (concat (map pred_fields (Preds q)))"
      by (rule scan_preds_columns [OF S co _ r]) simp
    then show ?thesis using r sel b(2,3) each None by (auto simp: query_fields_def)
  qed
qed

lemma row_times_exact:
  assumes "0 \<le> lo" "lo < hi" "hi \<le> int (Rows r)" and "\<forall>i \<in> set is. lo \<le> int i \<and> int i < hi"
  shows "\<exists>tms. (if point then Some [] else groupTimestamps pool r lo hi) = Some tms \<and> (\<forall>i \<in> set is. row_time r point tms lo i = Some (ts ! i))"
proof (cases point)
  case True
  have "i < Rows r" if "i \<in> set is" for i using assms that by force
  then show ?thesis using True by (simp add: row_time_def stamp_at)
next
  case False
  have "groupTimestamps pool r lo hi = Some (take (nat hi - nat lo) (drop (nat lo) ts))"
    using assms stamp_range [of "nat lo" "nat hi"] by (simp add: groupTimestamps_def)
  moreover have "row_time r False (take (nat hi - nat lo) (drop (nat lo) ts)) lo i = Some (ts ! i)" if "i \<in> set is" for i
  proof -
    have i: "lo \<le> int i" "int i < hi" using assms(4) that by blast+
    then have "nat (int i - lo) < nat hi - nat lo" "nat lo + nat (int i - lo) = i" "i < length ts"
      using assms(1,3) stamps_len by linarith+
    then show ?thesis using i stamps_len assms(3) by (auto simp: row_time_def index_def)
  qed
  ultimately show ?thesis using False by auto
qed

lemma time_span_covers:
  assumes "set (ForEach sel) \<subseteq> set (hits G q)" and "ForEach sel \<noteq> []"
  shows "\<exists>lo hi. time_span r q o' sel = Some (lo, hi) \<and> 0 \<le> lo \<and> lo < hi \<and> hi \<le> int (Rows r) \<and> (\<forall>i \<in> set (ForEach sel). lo \<le> int i \<and> int i < hi)"
proof -
  obtain i0 where i0: "i0 \<in> set (ForEach sel)" using assms(2) by (cases "ForEach sel") auto
  have in_win: "i < Rows r \<and> in_window (From q) (To q) (ts ! i)" if "i \<in> set (ForEach sel)" for i
    using that assms(1) by (auto simp: hits_def)
  obtain lo hi where sp: "(if windowed r q then do { (lo, hi) \<leftarrow> TimeWindowSpan r time_col (From q) (To q);
        Some (if lo \<ge> hi then (0, Rows r) else (lo, hi)) } else Some (0, Rows r)) = Some (lo, hi)" "hi \<le> Rows r"
      "\<forall>i \<in> set (ForEach sel). lo \<le> i \<and> i < hi"
  proof (cases "windowed r q")
    case True
    obtain lo hi where w: "TimeWindowSpan r time_col (From q) (To q) = Some (lo, hi)" "lo \<le> hi" "hi \<le> Rows r"
      "\<forall>j < Rows r. in_window (From q) (To q) (ts ! j) \<longrightarrow> lo \<le> j \<and> j < hi" using stamp_span by blast
    have "\<forall>i \<in> set (ForEach sel). lo \<le> i \<and> i < hi" using w(4) in_win by blast
    moreover from this i0 have "lo < hi" by fastforce
    ultimately show thesis using that [of lo hi] True w by simp
  qed (use that [of 0 "Rows r"] in_win in simp)
  have "\<exists>f l. FirstLast sel = (int f, int l) \<and> f \<in> set (ForEach sel) \<and> l \<in> set (ForEach sel) \<and> (\<forall>i \<in> set (ForEach sel). f \<le> i \<and> i \<le> l)"
    using first_last_bounds [OF assms(2)] by blast
  then obtain f l where fl: "FirstLast sel = (int f, int l)" "f \<in> set (ForEach sel)" "l \<in> set (ForEach sel)"
    "\<forall>i \<in> set (ForEach sel). f \<le> i \<and> i \<le> l" by blast
  have "lo \<le> i0" "i0 < hi" "f \<le> i0" "i0 \<le> l" "lo \<le> f" "l < hi" using sp(3) fl(2-4) i0 by blast+
  then show ?thesis
    unfolding time_span_def sp(1) using sp(2,3) fl(1,4)
    by (cases "Limit o' > 0 \<or> LastN o' > 0") (auto simp: fl(1) max_def min_def)
qed

lemma materialise_exact:
  assumes sub: "set (ForEach sel) \<subseteq> set (hits G q)" and ne: "ForEach sel \<noteq> []" and n: "n = length (ForEach sel)"
    and ag: "agrees (set (ForEach sel)) cs" and co: "cache_coherent R r s"
  shows "\<exists>s'. materialise R fmt pool r q o' fs cs s sel n out = Some (out @ map (built (\<lambda>i. ts ! i) (cell_of fmt) fs) (ForEach sel), s')
    \<and> cache_coherent R r s'"
proof -
  let ?row = "built (\<lambda>i. ts ! i) (cell_of fmt) fs"
  have rows: "\<forall>i \<in> set (ForEach sel). i < Rows r" using sub by (auto simp: hits_def)
  obtain lo hi where sp: "time_span r q o' sel = Some (lo, hi)" "0 \<le> lo" "lo < hi" "hi \<le> int (Rows r)"
    "\<forall>i \<in> set (ForEach sel). lo \<le> int i \<and> int i < hi" using time_span_covers [OF sub ne] by blast
  define point where "point \<longleftrightarrow> int (n * tsBlockGuess) < hi - lo"
  obtain tms where tms: "(if point then Some [] else groupTimestamps pool r lo hi) = Some tms"
    "\<forall>i \<in> set (ForEach sel). row_time r point tms lo i = Some (ts ! i)"
    using row_times_exact [OF sp(2-5)] by blast
  obtain cs2 s2 where c2: "(if n \<ge> Rows r div 16 \<or> n \<ge> bulkDecodeRows then fold_opt (decode_field R r sel) fs (cs, s) else Some (cs, s)) = Some (cs2, s2)"
    "agrees (set (ForEach sel)) cs2" "cache_coherent R r s2"
    using decode_fields_ok [OF ag co rows, of fs] ag co that by (cases "n \<ge> Rows r div 16 \<or> n \<ge> bulkDecodeRows") auto
  have cells: "read_field R r fmt cs2 (ts ! i) i f = Some (cell_of fmt i f)" if "i \<in> set (ForEach sel)" for i f
    using read_field_exact [OF c2(2)] that rows by blast
  have direct: "fold_opt (direct_row (row_time r point tms lo) (read_field R r fmt cs2) fs) (ForEach sel) out = Some (out @ map ?row (ForEach sel))"
    by (rule direct_rows_built) (use tms(2) cells in simp_all)
  have arena: "arena_rows (row_time r point tms lo) (read_field R r fmt cs2) fs n (ForEach sel) = Some (map ?row (ForEach sel))"
    unfolding n by (rule arena_rows_built) (use tms(2) cells in simp_all)
  have "materialise R fmt pool r q o' fs cs s sel n out = Some (out @ map ?row (ForEach sel), s2)"
    by (simp only: materialise_def Let_def sp(1) point_def [symmetric] tms(1) c2(1) direct arena Option.bind.bind_lunit prod.case if_cancel)
  then show ?thesis using c2(3) by blast
qed

lemma appendMatches_exact:
  assumes S: "simd_ok S" and co: "cache_coherent R r s"
  shows "\<exists>s'. appendMatches S G R ord fmt pool r q o' out s = Some (out @ map (built (\<lambda>i. ts ! i) (cell_of fmt) (out_fields ord (ColumnNames r) q o'))
      (keep_rows o' (length out) (hits G q)), s') \<and> cache_coherent R r s'"
proof -
  let ?fs = "out_fields ord (ColumnNames r) q o'"
  obtain sel s1 cs where sel: "select_rows S G R ord r q s = Some (sel, s1, cs, foldl addField [] (query_fields ord q))" "cache_coherent R r s1"
    "bitset_ok (Rows r) sel" "ForEach sel = hits G q" "agrees {0..<Rows r} cs" using select_rows_exact [OF S co] by blast
  have cnt: "Count sel = length (hits G q)" using sel(4) by (simp add: Count_rows ForEach_rows)
  have body: "appendMatches S G R ord fmt pool r q o' out s = (if hits G q = [] then Some (out, s1) else
      case bound_rows o' (length out) (Count sel) sel of None \<Rightarrow> Some (out, s1)
      | Some (sel', n) \<Rightarrow> materialise R fmt pool r q o' ?fs cs s1 sel' n out)"
    by (simp only: appendMatches_def sel(1) Option.bind.bind_lunit prod.case Let_def out_fields_folds cnt length_0_conv)
  show ?thesis
  proof (cases "hits G q = []")
    case True
    then show ?thesis using sel(2) body by (simp add: keep_rows_def)
  next
    case ne: False
    note bound = bound_rows_keeps [OF sel(3), unfolded sel(4), OF ne, of o' "length out"]
    show ?thesis
    proof (cases "bound_rows o' (length out) (Count sel) sel")
      case None
      then show ?thesis using sel(2) ne bound body by simp
    next
      case (Some x)
      obtain sel' n where x: "x = (sel', n)" by (cases x)
      have b: "ForEach sel' = keep_rows o' (length out) (hits G q)" "n = length (ForEach sel')" "0 < n" using bound Some x by auto
      have sub: "set (ForEach sel') \<subseteq> set (hits G q)" using keep_rows_subset b(1) by simp
      have ag: "agrees (set (ForEach sel')) cs" using sub by (intro agrees_mono [OF sel(5)]) (auto simp: hits_def)
      have "ForEach sel' \<noteq> []" using b(2,3) by auto
      from materialise_exact [OF sub this b(2) ag sel(2), of fmt pool o' ?fs out] show ?thesis
        using ne Some x body b(1) by simp
    qed
  qed
qed

end

section \<open>Written groups meet the interface\<close>

lemma dict_some_written:
  assumes S: "same_kernels K R" and wf: "dict_wf (Rows r) d" and w: "written_dict K g (blob r) e d m"
    and e: "e \<le> length (blob r)" and B: "length (blob r) < 2 ^ 32" and want: "length want = length (Dict d)" and c: "col_of r ColDict f = Some m"
  shows "DictDecodeSome R r f want = Some (map (\<lambda>j. if want ! j then Dict d ! j else []) [0..<length (Dict d)])"
proof -
  let ?sec = "marshalDictSection (gk_dict K) (Dict d) (Compact g)"
  have k: "kernels_ok (gk_dict K)" "rk_dict R = gk_dict K" using S by (simp_all add: same_kernels_def gkernels_ok_def)
  have h: "holds (blob r) e (DictOff m) ?sec" "DictLen2 m = length ?sec" "DictLen m = length (Dict d)"
    using w by (auto simp: written_dict_def)
  have sec: "dictSec_of r m = Some ?sec" "length ?sec < 2 ^ 32"
    using h(1,2) e B gslice_span [of "DictOff m" "length ?sec" "blob r"] by (auto simp: dictSec_of_def holds_def)
  obtain sd where sd: "parseDictSec ?sec = Some sd" "sec_ok (gk_dict K) (Dict d) sd"
    using parse_ok [OF k(1) dict_wf_fits [OF wf sec(2)]] by blast
  from dictSectionSome_ok [OF sd(2,1) want] show ?thesis using c sec(1) h(3) k(2) by (simp add: DictDecodeSome_def)
qed

context written_group
begin

lemma point_reads:
  "dict_col g f = Some d \<Longrightarrow> i < Rows r \<Longrightarrow> DictValueAt R r f (int i) = Some (Some (values_of d ! i))"
  "dict_col g f = Some d \<Longrightarrow> length want = length (Dict d) \<Longrightarrow>
     DictDecodeSome R r f want = Some (map (\<lambda>j. if want ! j then Dict d ! j else []) [0..<length (Dict d)])"
  "dict_col g f = Some d \<Longrightarrow> DictLenOf r f = length (Dict d)"
  "i < Rows r \<Longrightarrow> TimestampAt r time_col (int i) = Some (Some (group_times g ! i))"
proof -
  {
    assume d: "dict_col g f = Some d"
    obtain m e where m: "dict_wf (Rows r) d" "written_dict K g (blob r) e d m" "e \<le> length (blob r)" "length (blob r) < 2 ^ 32"
      "col_of r ColDict f = Some m" using dict_facts [OF d] .
    show "DictValueAt R r f (int i) = Some (Some (values_of d ! i))" if "i < Rows r"
      using that by (rule dict_reads_exact(3) [OF same m(1) rows_le(1) m(2-5)])
    show "DictDecodeSome R r f want = Some (map (\<lambda>j. if want ! j then Dict d ! j else []) [0..<length (Dict d)])" if "length want = length (Dict d)"
      using that m(5) by (rule dict_some_written [OF same m(1-4)])
    show "DictLenOf r f = length (Dict d)" using m(2,5) by (simp add: DictLenOf_def written_dict_def)
  }
  obtain m e where m: "length (group_times g) = Rows r" "DataLen m = length (encodeTimestamps (group_times g))"
    "holds (blob r) e (DataOff m) (encodeTimestamps (group_times g))" "e \<le> length (blob r)" "col_of r ColTimestamp time_col = Some m"
    using time_facts .
  have "group_times g \<noteq> []" using m(1) nonempty rows_le(2) by auto
  from ts_reads_exact(1) [OF m(1) rows_le(1) this m(2-5)]
  show "i < Rows r \<Longrightarrow> TimestampAt r time_col (int i) = Some (Some (group_times g ! i))" .
qed

end

sublocale written_group \<subseteq> row_reader R r "group_times g" "dict_col g" "group_row g"
  by unfold_locales (simp_all add: absent_read point_reads span_read)

context written_group
begin

lemmas rows_appended = appendMatches_exact and row_cells = cell_of_def and matching_rows = hits_def

end

section \<open>Properties\<close>

text \<open>A row as a query returns it: the group's own time and, of the fields asked for, those the group has, in order.\<close>

definition output_row :: "(u64 \<Rightarrow> bytes) \<Rightarrow> Group \<Rightarrow> bytes list \<Rightarrow> nat \<Rightarrow> Row" where
  "output_row fmt g fs i = \<lparr>Time = group_times g ! i, Fields = List.map_filter (\<lambda>f. case dict_col g f of Some d \<Rightarrow> Some (f, values_of d ! i)
     | None \<Rightarrow> if f = time_col then Some (f, fmt (group_times g ! i)) else None) fs, NoTime = False\<rparr>"

definition matching :: "('f, 're) golib \<Rightarrow> ('f, 're) Query \<Rightarrow> Group \<Rightarrow> nat list" where
  "matching G q g = filter (\<lambda>i. in_window (From q) (To q) (group_times g ! i) \<and> scanMatchesRow G (\<lambda>f. dict_col g f \<noteq> None) q (group_row g i)) [0..<GRows g]"

lemma appendMatches_written:
  assumes w: "written_group K R g B r" and "simd_ok S" and "cache_coherent R r s"
  shows "\<exists>s'. appendMatches S G R ord fmt pool r q o' out s =
      Some (out @ map (output_row fmt g (out_fields ord (map ColName (Columns g)) q o')) (keep_rows o' (length out) (matching G q g)), s')
    \<and> cache_coherent R r s'"
proof -
  have "row_reader.cell_of (group_times g) (dict_col g) fmt i = (\<lambda>f. case dict_col g f of Some d \<Rightarrow> Some (f, values_of d ! i)
     | None \<Rightarrow> if f = time_col then Some (f, fmt (group_times g ! i)) else None)" for i
    by (rule ext) (simp add: written_group.row_cells [OF w])
  then have "built (\<lambda>i. group_times g ! i) (row_reader.cell_of (group_times g) (dict_col g) fmt) = output_row fmt g"
    by (intro ext) (simp add: built_def output_row_def)
  moreover have "row_reader.hits r (group_times g) (dict_col g) (group_row g) G q = matching G q g"
    by (simp add: matching_def written_group.matching_rows [OF w] written_group.rows_le(2) [OF w])
  moreover obtain e where "list_all2 (written K g B e) (Columns g) (cols r)" using written_group.reader_facts [OF w] .
  then have "ColumnNames r = map ColName (Columns g)"
    by (auto simp: ColumnNames_def list_all2_conv_all_nth written_def intro!: nth_equalityI)
  ultimately show ?thesis using written_group.rows_appended [OF w assms(2,3), of G ord fmt pool q o' out] by simp
qed

text \<open>C10: Materialisation returns exactly the matching rows.  For a group that was written and read back, any query, any rows
  found so far and any coherent cache, \<^verbatim>\<open>appendMatches\<close> keeps those rows and appends, in
  row order, one row per match inside the window: its timestamp and, for every field asked for (those of the filter, those the pipes
  need, all columns on demand; each once, in the order first named), the value the writer was given, a formatted timestamp for
  \<^verbatim>\<open>_time\<close>, and nothing for a field the group lacks.  A limit keeps the first matches that still fit, a tail the last ones.  The
  choices of the source, point or span reads of time, lazy or bulk decoded columns, a slice per row or a shared arena, change nothing.\<close>

theorem materialised_rows_exact:
  assumes "simd_ok S" and "same_kernels K R" and "\<And>xs. rk_varint R (length xs) (concat (map put_uvarint xs)) = xs"
    and "group_wf g" and "list_all narrow (Columns g)" and "distinct (map ColName (Columns g))"
    and "Marshal K g = Some B" and "length B < 2 ^ 32"
    and "list_ex (\<lambda>c. ColName c = time_col \<and> ColTypeOf c = ColTimestamp) (Columns g)" and "0 < GRows g"
    and "ReadGroup B = Some (Inr r)" and "cache_coherent R r s"
  shows "\<exists>s'. appendMatches S G R ord fmt pool r q o' out s =
      Some (out @ map (output_row fmt g (out_fields ord (map ColName (Columns g)) q o')) (keep_rows o' (length out) (matching G q g)), s')
    \<and> cache_coherent R r s'"
proof -
  have w: "written_group K R g B r" by (rule written_group.intro) (rule assms(2-11))+
  show ?thesis by (rule appendMatches_written [OF w assms(1,12)])
qed

definition demo_opts :: run_opts where
  "demo_opts = \<lparr>Limit = 5, LastN = 0, RowMax = 0, MaxBytes = 0, maxMemory = 0, maxGroups = 0, Materialize = [time_col], MatAll = True, MatCols = False\<rparr>"

theorem materialised_rows_exact_witness:
  "\<exists>s'. appendMatches ref_simd demo_golib demo_read (\<lambda>_. [[108]]) (\<lambda>t. [ucast t]) [] demo_reader demo_query demo_opts [] demo_cache =
     Some ([\<lparr>Time = 9, Fields = [([108], [97]), (time_col, [9])], NoTime = False\<rparr>], s')"
proof -
  note w = materialised_rows_exact [OF ref_host.host_ok demo_same demo_varints demo_wf demo_fits(1,2) demo_blob demo_small [OF demo_blob]
    demo_fits(3,4) demo_reader demo_cache_coherent, of demo_golib "\<lambda>_. [[108]]" "\<lambda>t. [ucast t]" "[]" demo_query demo_opts "[]"]
  have "GRows demo_group = 2" "group_times demo_group = [5, 9]" "From demo_query = 0" "To demo_query = 100"
    by (simp_all add: demo_group_def group_times_def time_col_def demo_query_def)
  then have "matching demo_golib demo_query demo_group = [1]"
    using scanMatchesRow_present [OF demo_query_fields] by (simp add: matching_def demo_rows upt_rec values_of_def in_window_def)
  moreover have "out_fields (\<lambda>_. [[108]]) (map ColName (Columns demo_group)) demo_query demo_opts = [[108], time_col]"
    by (simp add: out_fields_def query_fields_def demo_query_def demo_opts_def demo_group_def time_col_def)
  moreover have "output_row (\<lambda>t. [ucast t]) demo_group [[108], time_col] 1 = \<lparr>Time = 9, Fields = [([108], [97]), (time_col, [9])], NoTime = False\<rparr>"
    by (simp add: output_row_def map_filter_simps dict_col_def demo_group_def col_types time_col_def group_times_def values_of_def)
  moreover have "keep_rows demo_opts 0 [1] = [1]" by (simp add: keep_rows_def demo_opts_def)
  ultimately show ?thesis using w by auto
qed

end
