(* ===== verification/Manifest.thy ===== *)
theory Manifest
  imports Bytes "HOL-Library.Sublist"
begin

text \<open>
  The commit log of one store directory (\<^verbatim>\<open>internal/storage/manifest.go\<close>): the record
  codec, replay with its torn-tail rule, and the operations that append to, bootstrap, fold and
  roll back the log.  The file is its byte list, \<open>None\<close> while it does not exist; what the
  operating system answers is an argument (\<open>commit_io\<close>), so every error return of the source is
  a branch here.
\<close>

section \<open>Records\<close>

definition manifestRecordLimit :: nat where
  "manifestRecordLimit = 2 ^ 24"

record manifestRecord =
  recSeq :: u64
  recAdd :: "u64 list"
  recRemove :: "u64 list"
  recReceipt :: bytes

definition rec_payload :: "manifestRecord \<Rightarrow> bytes" where
  "rec_payload r =
     putU64 (recSeq r)
     @ putU32 (of_nat (length (recAdd r))) @ concat (map putU64 (recAdd r))
     @ putU32 (of_nat (length (recRemove r))) @ concat (map putU64 (recRemove r))
     @ putU32 (of_nat (length (recReceipt r))) @ recReceipt r"

definition encode :: "manifestRecord \<Rightarrow> bytes" where
  "encode r = (let payload = rec_payload r in
     putU32 (of_nat (length payload)) @ putU32 (crc32c payload) @ payload)"

text \<open>The field parse of \<^verbatim>\<open>decodeManifestRecord\<close>, after the size and checksum tests.\<close>

definition decode_fields :: "bytes \<Rightarrow> manifestRecord option" where
  "decode_fields payload = (
     let c0 = mk_cursor payload;
         (s, c1) = cur_u64 c0;
         (wa, c2) = cur_u32 c1
     in if cerr c2 \<noteq> None \<or> unat wa > manifestRecordLimit div 8 then None else
     let (add, c3) = read_n cur_u64 (unat wa) c2;
         (wr, c4) = cur_u32 c3
     in if cerr c4 \<noteq> None \<or> unat wr > manifestRecordLimit div 8 then None else
     let (rem, c5) = read_n cur_u64 (unat wr) c4;
         (wl, c6) = cur_u32 c5
     in if cerr c6 \<noteq> None \<or> unat wl > length payload then None else
     let mk = (\<lambda>rc. \<lparr>recSeq = s, recAdd = add, recRemove = rem, recReceipt = rc\<rparr>)
     in if unat wl > 0
        then (let (ok, c7) = cur_need (unat wl) c6 in
              if \<not> ok then None
              else Some (mk (take (unat wl) (drop (cat c7) payload))))
        else Some (mk []))"

definition decodeManifestRecord :: "bytes \<Rightarrow> (manifestRecord \<times> nat) option" where
  "decodeManifestRecord b =
     (if length b < 8 then None else
      case (le32 b, le32 (drop 4 b)) of
        (Some wsize, Some want) \<Rightarrow>
          (let size = unat wsize in
           if size > manifestRecordLimit \<or> length b < 8 + size then None else
           let payload = take size (drop 8 b) in
           if crc32c payload \<noteq> want then None else
           (case decode_fields payload of
              None \<Rightarrow> None
            | Some r \<Rightarrow> Some (r, 8 + size)))
      | _ \<Rightarrow> None)"

text \<open>A record the decoder accepts: its payload is within the limit.\<close>

definition rec_fits :: "manifestRecord \<Rightarrow> bool" where
  "rec_fits r \<longleftrightarrow> 20 + 8 * (length (recAdd r) + length (recRemove r)) + length (recReceipt r)
     \<le> manifestRecordLimit"

lemma length_rec_payload:
  "length (rec_payload r) = 20 + 8 * (length (recAdd r) + length (recRemove r)) + length (recReceipt r)"
  by (simp add: rec_payload_def cu64.length_puts)

lemma length_encode:
  "length (encode r) = 28 + 8 * (length (recAdd r) + length (recRemove r)) + length (recReceipt r)"
  by (simp add: encode_def Let_def length_rec_payload)

lemma rec_fits_iff: "rec_fits r \<longleftrightarrow> length (rec_payload r) \<le> manifestRecordLimit"
  by (simp add: rec_fits_def length_rec_payload)

lemma rec_fits_bounds:
  assumes "rec_fits r"
  shows "length (recAdd r) \<le> manifestRecordLimit div 8" "length (recRemove r) \<le> manifestRecordLimit div 8"
    and "length (recAdd r) < 2 ^ 32" "length (recRemove r) < 2 ^ 32" "length (recReceipt r) < 2 ^ 32"
    and "length (rec_payload r) < 2 ^ 32"
  using assms by (auto simp: rec_fits_def manifestRecordLimit_def length_rec_payload)

lemma cursor_at_update: "cursor_at c b p \<Longrightarrow> q \<le> length b \<Longrightarrow> cursor_at (c\<lparr>cat := q\<rparr>) b q"
  by (simp add: cursor_at_def)

lemma decode_fields_payload:
  assumes fits: "rec_fits r"
  shows "decode_fields (rec_payload r) = Some r"
proof -
  let ?A = "recAdd r" and ?R = "recRemove r" and ?T = "recReceipt r"
  let ?nA = "putU32 (of_nat (length ?A))" and ?nR = "putU32 (of_nat (length ?R))"
    and ?nT = "putU32 (of_nat (length ?T))"
  let ?pA = "concat (map putU64 ?A)" and ?pR = "concat (map putU64 ?R)"
  let ?b = "rec_payload r"
  note lens = rec_fits_bounds [OF fits]
  have b: "?b = putU64 (recSeq r) @ ?nA @ ?pA @ ?nR @ ?pR @ ?nT @ ?T"
    by (simp add: rec_payload_def)
  define c0 where "c0 = mk_cursor ?b"
  have at0: "cursor_at c0 ?b 0" by (simp add: c0_def cursor_at_mk)
  define k where "k n = c0\<lparr>cat := n\<rparr>" for n
  have kk [simp]: "(k n)\<lparr>cat := m\<rparr> = k m" "cerr (k n) = None" "cat (k n) = n" "cb (k n) = ?b" for n m
    using at0 by (simp_all add: k_def cursor_at_def)
  have atk: "cursor_at (k n) ?b n" if "n \<le> length ?b" for n
    using that at0 by (simp add: k_def cursor_at_def)
  have k0: "c0 = k 0" using at0 by (simp add: k_def cursor_at_def)
  have len: "length ?b = 20 + 8 * (length ?A + length ?R) + length ?T" by (rule length_rec_payload)
  have s0: "cur_u64 c0 = (recSeq r, k 8)"
    using cu64.rd_put [of c0 "[]" "recSeq r" "?nA @ ?pA @ ?nR @ ?pR @ ?nT @ ?T"] at0 b
    by (simp add: k0)
  have s1: "cur_u32 (k 8) = (of_nat (length ?A), k 12)"
    using cu32.rd_put [of "k 8" "putU64 (recSeq r)" "of_nat (length ?A)" "?pA @ ?nR @ ?pR @ ?nT @ ?T"]
      atk [of 8] b len by simp
  define q3 where "q3 = 12 + length ?A * 8"
  define q4 where "q4 = q3 + 4"
  define q5 where "q5 = q4 + length ?R * 8"
  define q6 where "q6 = q5 + 4"
  have qs: "q3 \<le> length ?b" "q4 \<le> length ?b" "q5 \<le> length ?b" "q6 + length ?T = length ?b"
    using len by (simp_all add: q3_def q4_def q5_def q6_def)
  have s2: "read_n cur_u64 (length ?A) (k 12) = (?A, k q3)"
    using cu64.read_n_puts [of "k 12" "putU64 (recSeq r) @ ?nA" ?A "?nR @ ?pR @ ?nT @ ?T"]
      atk [of 12] b len by (simp add: q3_def)
  have s3: "cur_u32 (k q3) = (of_nat (length ?R), k q4)"
    using cu32.rd_put [of "k q3" "putU64 (recSeq r) @ ?nA @ ?pA" "of_nat (length ?R)" "?pR @ ?nT @ ?T"]
      atk [OF qs(1)] b by (simp add: cu64.length_puts q3_def q4_def)
  have s4: "read_n cur_u64 (length ?R) (k q4) = (?R, k q5)"
    using cu64.read_n_puts [of "k q4" "putU64 (recSeq r) @ ?nA @ ?pA @ ?nR" ?R "?nT @ ?T"]
      atk [OF qs(2)] b by (simp add: cu64.length_puts q3_def q4_def q5_def)
  have s5: "cur_u32 (k q5) = (of_nat (length ?T), k q6)"
    using cu32.rd_put [of "k q5" "putU64 (recSeq r) @ ?nA @ ?pA @ ?nR @ ?pR" "of_nat (length ?T)" ?T]
      atk [OF qs(3)] b by (simp add: cu64.length_puts q3_def q4_def q5_def q6_def add.assoc)
  have s6: "cur_need (length ?T) (k q6) = (True, k q6)"
    using qs(4) by (simp add: cur_need_def)
  have s7: "drop q6 ?b = ?T"
    by (simp add: rec_payload_def cu64.length_puts q3_def q4_def q5_def q6_def)
  show ?thesis
    unfolding decode_fields_def Let_def c0_def [symmetric]
    using lens qs(4) by (simp add: s0 s1 s2 s3 s4 s5 s6 s7)
qed

lemma decode_encode_append:
  assumes "rec_fits r"
  shows "decodeManifestRecord (encode r @ t) = Some (r, length (encode r))"
proof -
  let ?p = "rec_payload r"
  have "length ?p < 2 ^ 32" using assms by (rule rec_fits_bounds)
  then have sz: "unat (of_nat (length ?p) :: u32) = length ?p" by simp
  have b: "encode r @ t = putU32 (of_nat (length ?p)) @ putU32 (crc32c ?p) @ ?p @ t"
    by (simp add: encode_def Let_def)
  have d4: "drop 4 (encode r @ t) = putU32 (crc32c ?p) @ ?p @ t" by (simp add: b)
  have d8: "take (length ?p) (drop 8 (encode r @ t)) = ?p" by (simp add: b)
  have h: "le32 (encode r @ t) = Some (of_nat (length ?p))" by (simp add: b le32_putU32)
  show ?thesis
    unfolding decodeManifestRecord_def h d4 le32_putU32 prod.case option.case sz Let_def d8
    using assms sz by (simp add: decode_fields_payload rec_fits_iff encode_def Let_def)
qed

text \<open>A strict prefix of a record is never a record: this is what a crash in the middle of an append leaves.\<close>

lemma decode_torn:
  assumes fits: "rec_fits r" and k: "k < length (encode r)"
  shows "decodeManifestRecord (take k (encode r)) = None"
proof (cases "k < 8")
  case False
  let ?p = "rec_payload r"
  have "length ?p < 2 ^ 32" using fits by (rule rec_fits_bounds)
  then have sz: "unat (of_nat (length ?p) :: u32) = length ?p" by simp
  have "take k (encode r) = putU32 (of_nat (length ?p)) @ take (k - 4) (putU32 (crc32c ?p) @ ?p)"
    using False by (simp add: encode_def Let_def)
  then have h: "le32 (take k (encode r)) = Some (of_nat (length ?p))"
    by (simp add: le32_putU32)
  have "length (take k (encode r)) < 8 + length ?p" using k by (simp add: encode_def Let_def)
  then show ?thesis
    unfolding decodeManifestRecord_def h using sz by (simp split: option.split)
next
  case True
  then have "length (take k (encode r)) < 8" by simp
  then show ?thesis unfolding decodeManifestRecord_def by simp
qed

section \<open>The in-memory manifest and replay\<close>

record manifest =
  m_open :: bool
  m_seq :: u64
  m_records :: nat
  m_visible :: "u64 set"
  m_retired :: "u64 set"
  m_receipts :: "bytes list"
  m_preexisted :: bool

definition man0 :: manifest where
  "man0 = \<lparr>m_open = False, m_seq = 0, m_records = 0, m_visible = {}, m_retired = {},
     m_receipts = [], m_preexisted = False\<rparr>"

definition man_add :: "manifest \<Rightarrow> u64 \<Rightarrow> manifest" where
  "man_add m i = m\<lparr>m_visible := insert i (m_visible m), m_retired := m_retired m - {i}\<rparr>"

definition man_remove :: "manifest \<Rightarrow> u64 \<Rightarrow> manifest" where
  "man_remove m i = m\<lparr>m_visible := m_visible m - {i}, m_retired := insert i (m_retired m)\<rparr>"

definition man_apply :: "manifest \<Rightarrow> manifestRecord \<Rightarrow> manifest" where
  "man_apply m r = (
     let m1 = foldl man_add m (recAdd r);
         m2 = foldl man_remove m1 (recRemove r);
         m3 = (if recReceipt r \<noteq> [] then m2\<lparr>m_receipts := m_receipts m2 @ [recReceipt r]\<rparr> else m2)
     in if recSeq r > m_seq m3 then m3\<lparr>m_seq := recSeq r\<rparr> else m3)"

lemma decode_consumes:
  "decodeManifestRecord b = Some (r, n) \<Longrightarrow> 8 \<le> n \<and> n \<le> length b"
  by (auto simp: decodeManifestRecord_def Let_def split: if_splits option.splits prod.splits)

text \<open>
  The replay loop of \<^verbatim>\<open>openManifest\<close>: the state reached and the offset of the first byte
  that is not part of a complete, valid record.
\<close>

function replay :: "manifest \<Rightarrow> bytes \<Rightarrow> nat \<Rightarrow> manifest \<times> nat" where
  "replay m b off =
     (case decodeManifestRecord b of
        None \<Rightarrow> (m, off)
      | Some (r, n) \<Rightarrow> replay (man_apply m r) (drop n b) (off + n))"
  by pat_completeness auto
termination
  by (relation "measure (\<lambda>(m, b, off). length b)") (auto dest: decode_consumes)

declare replay.simps [simp del]

text \<open>
  \<^verbatim>\<open>openManifest\<close> over the file as read.  \<open>rd\<close> is whether a read error other than
  not-exist occurred, \<open>tr\<close> whether the truncation of a torn tail succeeds.  The result is the
  manifest or an error, and the file afterwards.
\<close>

datatype man_error = ReadFailed | TruncateFailed | OpenFailed | StatFailed | WriteFailed
  | InjectedWrite | SyncFailed | InjectedSync | RollbackFailed man_error | CloseFailed | AtomicFailed

definition openManifest :: "bytes option \<Rightarrow> bool \<Rightarrow> bool \<Rightarrow> (man_error + manifest) \<times> bytes option" where
  "openManifest file rd tr =
     (if rd then (Inl ReadFailed, file) else
      let b = (case file of None \<Rightarrow> [] | Some x \<Rightarrow> x);
          m0 = man0\<lparr>m_preexisted := (file \<noteq> None)\<rparr>;
          (m, truncateAt) = replay m0 b 0
      in if truncateAt < length b
         then (if tr then (Inr m, Some (take truncateAt b)) else (Inl TruncateFailed, file))
         else (Inr m, file))"

definition isVisible :: "manifest \<Rightarrow> u64 \<Rightarrow> bool" where
  "isVisible m i \<longleftrightarrow> i \<in> m_visible m"

definition wasRetired :: "manifest \<Rightarrow> u64 \<Rightarrow> bool" where
  "wasRetired m i \<longleftrightarrow> i \<in> m_retired m"

definition visibleIDs :: "manifest \<Rightarrow> u64 list" where
  "visibleIDs m = sorted_list_of_set (m_visible m)"

definition receiptIDs :: "manifest \<Rightarrow> bytes list" where
  "receiptIDs m = m_receipts m"

section \<open>What a record does\<close>

lemma foldl_man_add:
  "foldl man_add m is = m\<lparr>m_visible := m_visible m \<union> set is, m_retired := m_retired m - set is\<rparr>"
  by (induction "is" arbitrary: m) (simp_all add: man_add_def Diff_insert2 [symmetric])

lemma foldl_man_remove:
  "foldl man_remove m is = m\<lparr>m_visible := m_visible m - set is, m_retired := m_retired m \<union> set is\<rparr>"
  by (induction "is" arbitrary: m) (simp_all add: man_remove_def Diff_insert2 [symmetric])

lemma man_apply_simps [simp]:
  "m_visible (man_apply m r) = (m_visible m \<union> set (recAdd r)) - set (recRemove r)"
  "m_retired (man_apply m r) = (m_retired m - set (recAdd r)) \<union> set (recRemove r)"
  "m_receipts (man_apply m r) = m_receipts m @ (if recReceipt r = [] then [] else [recReceipt r])"
  "m_seq (man_apply m r) = max (m_seq m) (recSeq r)"
  "m_open (man_apply m r) = m_open m" "m_records (man_apply m r) = m_records m"
  "m_preexisted (man_apply m r) = m_preexisted m"
  by (auto simp: man_apply_def foldl_man_add foldl_man_remove Let_def max_def)

lemma visible_retired_disjoint_apply:
  "m_visible m \<inter> m_retired m = {} \<Longrightarrow> m_visible (man_apply m r) \<inter> m_retired (man_apply m r) = {}"
  by auto

section \<open>Replay of a log\<close>

definition log_bytes :: "manifestRecord list \<Rightarrow> bytes" where
  "log_bytes rs = concat (map encode rs)"

lemma log_bytes_simps [simp]:
  "log_bytes [] = []" "log_bytes (r # rs) = encode r @ log_bytes rs"
  "log_bytes (rs @ ss) = log_bytes rs @ log_bytes ss"
  by (simp_all add: log_bytes_def)

lemma replay_log:
  assumes "\<forall>r \<in> set rs. rec_fits r" and "decodeManifestRecord t = None"
  shows "replay m (log_bytes rs @ t) off = (foldl man_apply m rs, off + length (log_bytes rs))"
  using assms(1)
proof (induction rs arbitrary: m off)
  case Nil
  with assms(2) show ?case by (simp add: replay.simps [of m t off])
next
  case (Cons r rs)
  then have "decodeManifestRecord (encode r @ log_bytes rs @ t) = Some (r, length (encode r))"
    by (simp add: decode_encode_append)
  with Cons show ?case
    by (simp add: replay.simps [of m "encode r @ log_bytes rs @ t" off] add.assoc)
qed

lemma decode_Nil [simp]: "decodeManifestRecord [] = None"
  by (simp add: decodeManifestRecord_def)

lemma openManifest_log:
  assumes "\<forall>r \<in> set rs. rec_fits r" and "decodeManifestRecord t = None" and "t \<noteq> []"
  shows "openManifest (Some (log_bytes rs @ t)) False True
    = (Inr (foldl man_apply (man0\<lparr>m_preexisted := True\<rparr>) rs), Some (log_bytes rs))"
  using assms by (simp add: openManifest_def replay_log)

lemma openManifest_log_clean:
  assumes "\<forall>r \<in> set rs. rec_fits r"
  shows "openManifest (Some (log_bytes rs)) False tr
    = (Inr (foldl man_apply (man0\<lparr>m_preexisted := True\<rparr>) rs), Some (log_bytes rs))"
  using replay_log [OF assms, of "[]"] by (simp add: openManifest_def)

section \<open>Appending, rolling back and folding the log\<close>

text \<open>
  What the operating system answers during one commit.  \<open>io_write\<close> is \<open>None\<close> for a complete
  write and \<open>Some k\<close> for one that failed after \<open>k\<close> bytes.  \<^verbatim>\<open>writeFileAtomic\<close> can fail
  before its rename (the old file stays) or after it (the new file is in place).
\<close>

datatype atomic_outcome = AtomicOK | AtomicErrOld | AtomicErrNew

record commit_io =
  io_open :: bool
  io_stat :: bool
  io_write :: "nat option"
  io_hook_write :: bool
  io_sync :: bool
  io_trunc :: bool
  io_seek :: bool
  io_rbsync :: bool
  io_hook_sync :: bool
  io_close :: bool
  io_atomic :: atomic_outcome
  io_openafter :: bool
  io_reopen :: bool

type_synonym man_state = "manifest \<times> bytes option"

definition file_bytes :: "bytes option \<Rightarrow> bytes" where
  "file_bytes f = (case f of None \<Rightarrow> [] | Some b \<Rightarrow> b)"

definition ensureOpen :: "commit_io \<Rightarrow> man_state \<Rightarrow> man_error option \<times> man_state" where
  "ensureOpen io s = (case s of (m, f) \<Rightarrow>
     if m_open m then (None, (m, f))
     else if io_open io then (None, (m\<lparr>m_open := True\<rparr>, Some (file_bytes f)))
     else (Some OpenFailed, (m, f)))"

definition man_reopen :: "commit_io \<Rightarrow> man_state \<Rightarrow> man_state" where
  "man_reopen io s = (case s of (m, f) \<Rightarrow>
     if m_open m then (m, f)
     else if io_reopen io then (m\<lparr>m_open := True\<rparr>, Some (file_bytes f))
     else (m, f))"

definition truncateTo :: "commit_io \<Rightarrow> nat \<Rightarrow> man_state \<Rightarrow> man_error option \<times> man_state" where
  "truncateTo io off s = (case ensureOpen io s of
     (Some e, s1) \<Rightarrow> (Some e, s1)
   | (None, (m, f)) \<Rightarrow>
       if \<not> io_trunc io then (Some TruncateFailed, (m, f))
       else (let s2 = (m, Some (take off (file_bytes f))) in
         if \<not> io_seek io then (Some TruncateFailed, s2)
         else if \<not> io_rbsync io then (Some SyncFailed, s2)
         else (None, s2)))"

definition joinRollback :: "man_error \<Rightarrow> man_error option \<Rightarrow> man_error" where
  "joinRollback e rb = (case rb of None \<Rightarrow> e | Some _ \<Rightarrow> RollbackFailed e)"

definition compactThreshold :: nat where
  "compactThreshold = 4096"

definition compact :: "commit_io \<Rightarrow> man_state \<Rightarrow> man_error option \<times> man_state" where
  "compact io s = (
     let ids = visibleIDs (fst s) in
     case ensureOpen io s of
       (Some e, s1) \<Rightarrow> (Some e, s1)
     | (None, (m, f)) \<Rightarrow>
         if \<not> io_close io then (Some CloseFailed, man_reopen io (m\<lparr>m_open := False\<rparr>, f))
         else (
           let m1 = m\<lparr>m_open := False, m_seq := m_seq m + 1\<rparr>;
               r = \<lparr>recSeq = m_seq m1, recAdd = ids, recRemove = [], recReceipt = []\<rparr>
           in case io_atomic io of
                AtomicErrOld \<Rightarrow> (Some AtomicFailed, man_reopen io (m1, f))
              | AtomicErrNew \<Rightarrow> (Some AtomicFailed, man_reopen io (m1, Some (encode r)))
              | AtomicOK \<Rightarrow>
                  if io_openafter io then (None, (m1\<lparr>m_open := True\<rparr>, Some (encode r)))
                  else (Some OpenFailed, (m1, Some (encode r)))))"

definition man_rollback :: "commit_io \<Rightarrow> nat \<Rightarrow> man_error \<Rightarrow> man_state \<Rightarrow> man_error option \<times> man_state" where
  "man_rollback io off e s = (case truncateTo io off s of (rb, s') \<Rightarrow> (Some (joinRollback e rb), s'))"

definition commit :: "commit_io \<Rightarrow> u64 list \<Rightarrow> u64 list \<Rightarrow> bytes \<Rightarrow> man_state
    \<Rightarrow> man_error option \<times> man_state" where
  "commit io add remove receipt s = (case ensureOpen io s of
     (Some e, s1) \<Rightarrow> (Some e, s1)
   | (None, (m, f)) \<Rightarrow>
       if \<not> io_stat io then (Some StatFailed, (m, f)) else (
       let off = length (file_bytes f);
           sq = m_seq m + 1;
           r = \<lparr>recSeq = sq, recAdd = add, recRemove = remove, recReceipt = receipt\<rparr>
       in case io_write io of
            Some k \<Rightarrow> man_rollback io off WriteFailed (m, Some (file_bytes f @ take k (encode r)))
          | None \<Rightarrow> (
              let f1 = Some (file_bytes f @ encode r) in
              if io_hook_write io then man_rollback io off InjectedWrite (m, f1)
              else if \<not> io_sync io then man_rollback io off SyncFailed (m, f1)
              else (
                let m1 = man_apply (m\<lparr>m_seq := sq\<rparr>) r;
                    m2 = m1\<lparr>m_records := m_records m1 + 1\<rparr>
                in if io_hook_sync io then (Some InjectedSync, (m2, f1))
                   else if m_records m2 \<ge> compactThreshold
                   then (case compact io (m2, f1) of
                           (Some _, s3) \<Rightarrow> (None, man_reopen io s3)
                         | (None, (m3, f3)) \<Rightarrow> (None, (m3\<lparr>m_records := 0\<rparr>, f3)))
                   else (None, (m2, f1))))))"

text \<open>\<^verbatim>\<open>bootstrap\<close>: one snapshot record for a legacy directory, written atomically.\<close>

definition bootstrap :: "commit_io \<Rightarrow> u64 list \<Rightarrow> man_state \<Rightarrow> man_error option \<times> man_state" where
  "bootstrap io ids s = (case s of (m, f) \<Rightarrow>
     if m_open m \<and> \<not> io_close io
     then (Some CloseFailed, man_reopen io (m\<lparr>m_open := False\<rparr>, f))
     else (
       let m1 = m\<lparr>m_open := False, m_seq := 1\<rparr>;
           r = \<lparr>recSeq = 1, recAdd = ids, recRemove = [], recReceipt = []\<rparr>
       in case io_atomic io of
            AtomicErrOld \<Rightarrow> (Some AtomicFailed, (m1, f))
          | AtomicErrNew \<Rightarrow> (Some AtomicFailed, (m1, Some (encode r)))
          | AtomicOK \<Rightarrow> (
              let m2 = man_apply (m1\<lparr>m_visible := {}\<rparr>) r in
              if io_openafter io then (None, (m2\<lparr>m_open := True\<rparr>, Some (encode r)))
              else (Some OpenFailed, (m2, Some (encode r))))))"

section \<open>Memory and disk agree\<close>

text \<open>
  \<open>man_rep m rs\<close>: the records \<open>rs\<close> on disk and the manifest in memory tell the same story.
  The visible sets are equal; a fold forgets removals and receipts on disk only, so there the
  disk knows at most what memory knows; sequence numbers strictly increase.
\<close>

definition man_rep :: "manifest \<Rightarrow> manifestRecord list \<Rightarrow> bool" where
  "man_rep m rs \<longleftrightarrow>
     (\<forall>r \<in> set rs. rec_fits r)
     \<and> m_visible (foldl man_apply man0 rs) = m_visible m
     \<and> m_retired (foldl man_apply man0 rs) \<subseteq> m_retired m
     \<and> suffix (m_receipts (foldl man_apply man0 rs)) (m_receipts m)
     \<and> m_visible m \<inter> m_retired m = {}
     \<and> sorted_wrt (<) (map recSeq rs)
     \<and> (\<forall>r \<in> set rs. recSeq r \<le> m_seq m)"

definition man_ok :: "man_state \<Rightarrow> bool" where
  "man_ok s \<longleftrightarrow> (\<exists>rs. file_bytes (snd s) = log_bytes rs \<and> man_rep (fst s) rs)"

text \<open>The visible set the next open of a file yields.\<close>

definition recovered :: "bytes option \<Rightarrow> u64 set" where
  "recovered f = (case fst (openManifest f False True) of Inr m \<Rightarrow> m_visible m | Inl _ \<Rightarrow> {})"

text \<open>Room for one more record and for the fold that may follow it.\<close>

definition man_room :: "u64 list \<Rightarrow> u64 list \<Rightarrow> bytes \<Rightarrow> manifest \<Rightarrow> bool" where
  "man_room add remove receipt m \<longleftrightarrow>
     20 + 8 * (length add + length remove) + length receipt \<le> manifestRecordLimit
     \<and> 20 + 8 * (card (m_visible m) + length add) \<le> manifestRecordLimit
     \<and> unat (m_seq m) + 3 < 2 ^ 64"

lemma man_rep_frame:
  "man_rep (m\<lparr>m_open := x\<rparr>) rs = man_rep m rs" "man_rep (m\<lparr>m_records := n\<rparr>) rs = man_rep m rs"
  by (simp_all add: man_rep_def)

lemma foldl_apply_preexisted:
  "m_visible (foldl man_apply (m\<lparr>m_preexisted := x\<rparr>) rs) = m_visible (foldl man_apply m rs)"
proof (induction rs arbitrary: m)
  case (Cons r rs)
  have eq: "man_apply (m\<lparr>m_preexisted := x\<rparr>) r = (man_apply m r)\<lparr>m_preexisted := x\<rparr>"
    by (simp add: man_apply_def foldl_man_add foldl_man_remove Let_def)
  show ?case unfolding foldl.simps eq by (rule Cons.IH)
qed simp

lemma replay_fold_visible:
  assumes "\<forall>r \<in> set rs. rec_fits r" and "decodeManifestRecord t = None"
  shows "recovered (Some (log_bytes rs @ t)) = m_visible (foldl man_apply man0 rs)"
  using assms by (simp add: recovered_def openManifest_def replay_log foldl_apply_preexisted Let_def)

lemma recovered_None: "recovered None = {}"
  by (simp add: recovered_def openManifest_def replay.simps man0_def)

lemma man_ok_recovered:
  assumes "man_ok s"
  shows "recovered (snd s) = m_visible (fst s)"
proof -
  from assms obtain rs where rs: "file_bytes (snd s) = log_bytes rs" "man_rep (fst s) rs"
    by (auto simp: man_ok_def)
  show ?thesis
  proof (cases "snd s")
    case None
    have "encode r \<noteq> []" for r by (simp add: encode_def Let_def putU32_def)
    with None rs(1) have "rs = []" by (cases rs) (auto simp: file_bytes_def)
    with rs(2) None show ?thesis by (simp add: recovered_None man_rep_def man0_def)
  next
    case (Some b)
    with rs show ?thesis
      using replay_fold_visible [of rs "[]"] by (auto simp: file_bytes_def man_rep_def)
  qed
qed

lemma seq_succ:
  assumes "unat (s :: u64) + 2 < 2 ^ 64"
  shows "s < s + 1" "unat (s + 1) = unat s + 1" "s \<le> s + 1"
proof -
  show u: "unat (s + 1) = unat s + 1" using assms by (simp add: unat_word_ariths)
  then show "s < s + 1" by (simp add: word_less_nat_alt)
  then show "s \<le> s + 1" by simp
qed

lemma suffix_appendI2: "suffix xs ys \<Longrightarrow> suffix (xs @ zs) (ys @ zs)"
  by (auto simp: suffix_def)

lemma man_rep_append:
  assumes rep: "man_rep m rs" and fits: "rec_fits r" and seq: "recSeq r = m_seq m + 1"
    and room: "unat (m_seq m) + 2 < 2 ^ 64"
  shows "man_rep (man_apply (m\<lparr>m_seq := m_seq m + 1\<rparr>) r) (rs @ [r])"
proof -
  let ?d = "foldl man_apply man0 rs"
  note s = seq_succ [OF room]
  have vis: "m_visible ?d = m_visible m" and ret: "m_retired ?d \<subseteq> m_retired m"
    and suf: "suffix (m_receipts ?d) (m_receipts m)" and dis: "m_visible m \<inter> m_retired m = {}"
    and fit: "\<forall>x \<in> set rs. rec_fits x" and srt: "sorted_wrt (<) (map recSeq rs)"
    and le: "\<forall>x \<in> set rs. recSeq x \<le> m_seq m"
    using rep by (simp_all add: man_rep_def)
  have lt: "\<forall>x \<in> set rs. recSeq x < m_seq m + 1" using le s(1) by (meson order.strict_trans1)
  show ?thesis
    unfolding man_rep_def
  proof (intro conjI)
    show "suffix (m_receipts (foldl man_apply man0 (rs @ [r])))
      (m_receipts (man_apply (m\<lparr>m_seq := m_seq m + 1\<rparr>) r))"
      using suf by (simp add: suffix_appendI2)
    show "sorted_wrt (<) (map recSeq (rs @ [r]))" using srt lt seq by (simp add: sorted_wrt_append)
    show "\<forall>x \<in> set (rs @ [r]). recSeq x \<le> m_seq (man_apply (m\<lparr>m_seq := m_seq m + 1\<rparr>) r)"
      using lt seq by auto
  qed (use vis ret dis fit fits in auto)
qed

lemma man_rep_fold:
  assumes rep: "man_rep m rs" and fin: "finite (m_visible m)"
    and fits: "20 + 8 * card (m_visible m) \<le> manifestRecordLimit" and room: "unat (m_seq m) + 2 < 2 ^ 64"
  shows "man_rep (m\<lparr>m_seq := m_seq m + 1\<rparr>)
    [\<lparr>recSeq = m_seq m + 1, recAdd = visibleIDs m, recRemove = [], recReceipt = []\<rparr>]"
  using rep fin fits
  by (simp add: man_rep_def visibleIDs_def rec_fits_def man0_def suffix_def)

lemma man_rep_finite: "man_rep m rs \<Longrightarrow> finite (m_visible m)"
proof -
  have "finite (m_visible x) \<Longrightarrow> finite (m_visible (foldl man_apply x rs))" for x
    by (induction rs arbitrary: x) simp_all
  from this [of man0] show "man_rep m rs \<Longrightarrow> finite (m_visible m)"
    by (simp add: man_rep_def man0_def)
qed

lemma man_rep_skip_seq:
  assumes "man_rep m rs" and "unat (m_seq m) + 2 < 2 ^ 64"
  shows "man_rep (m\<lparr>m_seq := m_seq m + 1\<rparr>) rs"
  using assms(1) seq_succ(3) [OF assms(2)] by (auto simp: man_rep_def intro: order_trans)

section \<open>Every outcome of a commit\<close>

definition man_at :: "man_state \<Rightarrow> manifestRecord list \<Rightarrow> bool" where
  "man_at s rs \<longleftrightarrow> file_bytes (snd s) = log_bytes rs \<and> man_rep (fst s) rs"

lemma man_okI: "man_at s rs \<Longrightarrow> man_ok s"
  by (auto simp: man_ok_def man_at_def)

lemma man_okE: "man_ok s \<Longrightarrow> (\<And>rs. man_at s rs \<Longrightarrow> P) \<Longrightarrow> P"
  by (auto simp: man_ok_def man_at_def)

lemma ensureOpen_at:
  assumes "ensureOpen io s = (e, s')" and "man_at s rs"
  shows "man_at s' rs" "m_visible (fst s') = m_visible (fst s)" "m_seq (fst s') = m_seq (fst s)"
    "e = None \<Longrightarrow> m_open (fst s')"
  using assms by (auto simp: ensureOpen_def man_at_def man_rep_frame file_bytes_def
      split: prod.splits if_splits option.splits)

lemma man_reopen_at:
  assumes "man_at s rs"
  shows "man_at (man_reopen io s) rs" "m_visible (fst (man_reopen io s)) = m_visible (fst s)"
  using assms by (auto simp: man_reopen_def man_at_def man_rep_frame file_bytes_def
      split: prod.splits if_splits option.splits)

lemma file_bytes_Some [simp]: "file_bytes (Some b) = b"
  by (simp add: file_bytes_def)

lemma compact_at:
  assumes c: "compact io s = (e, s')" and at: "man_at s rs"
    and fits: "20 + 8 * card (m_visible (fst s)) \<le> manifestRecordLimit"
    and room: "unat (m_seq (fst s)) + 2 < 2 ^ 64"
  shows "man_ok s'" and "m_visible (fst s') = m_visible (fst s)"
proof -
  obtain e1 m f where eo: "ensureOpen io s = (e1, (m, f))" by (metis prod.exhaust)
  have at1: "man_at (m, f) rs" and vis: "m_visible m = m_visible (fst s)"
    and sq: "m_seq m = m_seq (fst s)"
    using ensureOpen_at [OF eo at] by auto
  let ?m1 = "m\<lparr>m_open := False, m_seq := m_seq m + 1\<rparr>"
  let ?r = "\<lparr>recSeq = m_seq m + 1, recAdd = visibleIDs (fst s), recRemove = [], recReceipt = []\<rparr>"
  have rep: "man_rep m rs" using at1 by (simp add: man_at_def)
  have old: "man_at (?m1, f) rs"
    using man_rep_skip_seq [of m rs] rep room sq at1 by (simp add: man_at_def man_rep_def)
  have eq: "visibleIDs (fst s) = visibleIDs m" by (simp add: visibleIDs_def vis)
  have "man_rep (m\<lparr>m_seq := m_seq m + 1\<rparr>) [?r]"
    using man_rep_fold [OF rep man_rep_finite [OF rep]] fits room vis sq eq by simp
  then have rep1: "man_rep ?m1 [?r]" by (simp add: man_rep_def)
  then have new: "man_at (?m1, Some (encode ?r)) [?r]"
    by (simp add: man_at_def)
  have newo: "man_at (?m1\<lparr>m_open := True\<rparr>, Some (encode ?r)) [?r]"
    using rep1 by (simp add: man_at_def man_rep_def)
  have cl: "man_at (m\<lparr>m_open := False\<rparr>, f) rs" using at1 by (simp add: man_at_def man_rep_frame)
  show "man_ok s'" "m_visible (fst s') = m_visible (fst s)"
    using c eo at1 old new newo cl vis man_reopen_at [OF old, of io] man_reopen_at [OF new, of io]
      man_reopen_at [OF cl, of io]
    by (auto simp: compact_def Let_def split: option.splits if_splits atomic_outcome.splits
        intro: man_okI)
qed

lemma truncateTo_open:
  assumes "m_open m"
  shows "truncateTo io (length base) (m, Some (base @ t)) =
    (if \<not> io_trunc io then (Some TruncateFailed, (m, Some (base @ t)))
     else if \<not> io_seek io then (Some TruncateFailed, (m, Some base))
     else if \<not> io_rbsync io then (Some SyncFailed, (m, Some base))
     else (None, (m, Some base)))"
  using assms by (simp add: truncateTo_def ensureOpen_def Let_def)

lemma man_rollback_cases:
  assumes "man_rollback io (length base) err (m, Some (base @ t)) = (e, s')" and "m_open m"
  shows "e = Some err \<and> s' = (m, Some base)
    \<or> e = Some (RollbackFailed err) \<and> fst s' = m \<and> (snd s' = Some base \<or> snd s' = Some (base @ t))"
  using assms by (auto simp: man_rollback_def truncateTo_open joinRollback_def split: if_splits)

text \<open>The record a commit appends.\<close>

definition commit_record :: "u64 list \<Rightarrow> u64 list \<Rightarrow> bytes \<Rightarrow> manifest \<Rightarrow> manifestRecord" where
  "commit_record add remove receipt m =
     \<lparr>recSeq = m_seq m + 1, recAdd = add, recRemove = remove, recReceipt = receipt\<rparr>"

definition is_rollback_failed :: "man_error option \<Rightarrow> bool" where
  "is_rollback_failed e = (case e of Some (RollbackFailed _) \<Rightarrow> True | _ \<Rightarrow> False)"

text \<open>A commit's report means the record is durable: success, or the hook past the sync.\<close>

definition is_durable :: "man_error option \<Rightarrow> bool" where
  "is_durable e \<longleftrightarrow> e = None \<or> e = Some InjectedSync"

lemma commit_applied:
  assumes at: "man_at (m, f) rs" and room: "man_room add remove receipt m"
    and r: "r = commit_record add remove receipt m"
    and m2: "m2 = (man_apply (m\<lparr>m_seq := m_seq m + 1\<rparr>) r)\<lparr>m_records := n\<rparr>"
  shows "man_at (m2, Some (file_bytes f @ encode r)) (rs @ [r])"
    and "m_visible m2 = (m_visible m \<union> set add) - set remove"
    and "20 + 8 * card (m_visible m2) \<le> manifestRecordLimit"
    and "unat (m_seq m2) + 2 < 2 ^ 64"
proof -
  have room': "20 + 8 * (length add + length remove) + length receipt \<le> manifestRecordLimit"
      "20 + 8 * (card (m_visible m) + length add) \<le> manifestRecordLimit" "unat (m_seq m) + 2 < 2 ^ 64"
      "unat (m_seq m) + 3 < 2 ^ 64"
    using room by (auto simp: man_room_def)
  have fits: "rec_fits r" using room'(1) by (simp add: r commit_record_def rec_fits_def)
  have rep: "man_rep m rs" using at by (simp add: man_at_def)
  have "man_rep (man_apply (m\<lparr>m_seq := m_seq m + 1\<rparr>) r) (rs @ [r])"
    by (rule man_rep_append [OF rep fits _ room'(3)]) (simp add: r commit_record_def)
  then show "man_at (m2, Some (file_bytes f @ encode r)) (rs @ [r])"
    using at by (simp add: man_at_def man_rep_frame m2)
  show vis: "m_visible m2 = (m_visible m \<union> set add) - set remove"
    by (simp add: m2 r commit_record_def)
  have "card (m_visible m2) \<le> card (m_visible m \<union> set add)"
    unfolding vis by (rule card_mono) (use man_rep_finite [OF rep] in auto)
  also have "\<dots> \<le> card (m_visible m) + card (set add)" by (rule card_Un_le)
  also have "\<dots> \<le> card (m_visible m) + length add" by (simp add: card_length)
  finally show "20 + 8 * card (m_visible m2) \<le> manifestRecordLimit" using room'(2) by simp
  have "m_seq m2 = m_seq m + 1" by (simp add: m2 r commit_record_def)
  then show "unat (m_seq m2) + 2 < 2 ^ 64" using seq_succ(2) [OF room'(3)] room'(4) by simp
qed

text \<open>Without a handle or a size nothing is written.\<close>

lemma commit_unopened:
  assumes "ensureOpen io s = (e1, s1)" and "e1 \<noteq> None \<or> \<not> io_stat io"
    and "commit io add remove receipt s = (e, s')"
  shows "\<not> is_durable e" "\<not> is_rollback_failed e" "s' = s1"
  using assms by (auto simp: commit_def is_durable_def is_rollback_failed_def ensureOpen_def
      split: option.splits if_splits prod.splits)

text \<open>A write, hook or sync that fails goes through the rollback.\<close>

lemma commit_rolls_back:
  assumes "ensureOpen io s = (None, (m, f))" and "io_stat io"
    and "\<not> (io_write io = None \<and> \<not> io_hook_write io \<and> io_sync io)"
    and "commit io add remove receipt s = (e, s')"
  obtains err t k where "err \<in> {WriteFailed, InjectedWrite, SyncFailed}"
    "t = take k (encode (commit_record add remove receipt m))"
    "man_rollback io (length (file_bytes f)) err (m, Some (file_bytes f @ t)) = (e, s')"
proof -
  let ?r = "commit_record add remove receipt m"
  have full: "encode ?r = take (length (encode ?r)) (encode ?r)" by simp
  from assms have "(\<exists>k. man_rollback io (length (file_bytes f)) WriteFailed
        (m, Some (file_bytes f @ take k (encode ?r))) = (e, s'))
    \<or> (\<exists>err \<in> {InjectedWrite, SyncFailed}. man_rollback io (length (file_bytes f)) err
        (m, Some (file_bytes f @ encode ?r)) = (e, s'))"
    by (auto simp: commit_def commit_record_def Let_def split: option.splits if_splits)
  then show thesis
    using that full by (metis insertCI)
qed

text \<open>A synced record is applied, and the log may be folded; neither loses a group.\<close>

lemma commit_synced:
  assumes eo: "ensureOpen io s = (None, (m, f))" and at: "man_at (m, f) rs"
    and room: "man_room add remove receipt m" and st: "io_stat io"
    and ok: "io_write io = None" "\<not> io_hook_write io" "io_sync io"
    and cm: "commit io add remove receipt s = (e, s')"
  shows "is_durable e" "man_ok s'" "m_visible (fst s') = (m_visible m \<union> set add) - set remove"
proof -
  let ?r = "commit_record add remove receipt m"
  let ?m2 = "(man_apply (m\<lparr>m_seq := m_seq m + 1\<rparr>) ?r)\<lparr>m_records := m_records m + 1\<rparr>"
  let ?f1 = "Some (file_bytes f @ encode ?r)"
  note ap = commit_applied [OF at room refl refl, of "m_records m + 1"]
  obtain e3 s3 where c3: "compact io (?m2, ?f1) = (e3, s3)" by (metis prod.exhaust)
  have cok: "man_ok s3" "m_visible (fst s3) = m_visible ?m2"
    using compact_at [OF c3 ap(1)] ap(3,4) by auto
  have reop: "man_ok (man_reopen io s3)" "m_visible (fst (man_reopen io s3)) = m_visible ?m2"
    using cok by (auto elim!: man_okE intro: man_okI dest: man_reopen_at)
  have rec0: "man_ok ((fst s3)\<lparr>m_records := 0\<rparr>, snd s3)"
    using cok(1) by (auto simp: man_ok_def man_rep_frame)
  have "is_durable e \<and> (s' = (?m2, ?f1) \<or> s' = man_reopen io s3 \<or> s' = ((fst s3)\<lparr>m_records := 0\<rparr>, snd s3))"
    using cm eo st ok c3 unfolding commit_def
    by (auto simp: commit_record_def Let_def is_durable_def split: if_splits option.splits prod.splits)
  then have "is_durable e \<and> man_ok s' \<and> m_visible (fst s') = m_visible ?m2"
    using man_okI [OF ap(1)] cok(2) reop rec0 by (elim conjE disjE) simp_all
  then show "is_durable e" "man_ok s'" "m_visible (fst s') = (m_visible m \<union> set add) - set remove"
    using ap(2) by simp_all
qed

lemma commit_outcome:
  assumes at: "man_at s rs" and room: "man_room add remove receipt (fst s)"
    and cm: "commit io add remove receipt s = (e, s')"
  obtains
    (durable) "is_durable e" "man_ok s'"
      "m_visible (fst s') = (m_visible (fst s) \<union> set add) - set remove"
  | (refused) "\<not> is_durable e" "\<not> is_rollback_failed e" "man_at s' rs"
      "m_visible (fst s') = m_visible (fst s)"
  | (unknown) k where "is_rollback_failed e" "man_rep (fst s') rs" "m_visible (fst s') = m_visible (fst s)"
      "snd s' = Some (log_bytes rs @ take k (encode (commit_record add remove receipt (fst s))))"
proof -
  obtain e1 m f where eo: "ensureOpen io s = (e1, (m, f))" by (metis prod.exhaust)
  have at1: "man_at (m, f) rs" and vis: "m_visible m = m_visible (fst s)"
    and sq: "m_seq m = m_seq (fst s)" and op: "e1 = None \<Longrightarrow> m_open m"
    using ensureOpen_at [OF eo at] by auto
  have rr: "commit_record add remove receipt (fst s) = commit_record add remove receipt m"
    using sq by (simp add: commit_record_def)
  have base: "file_bytes f = log_bytes rs" and rep: "man_rep m rs" using at1 by (simp_all add: man_at_def)
  have room1: "man_room add remove receipt m" using room vis sq by (simp add: man_room_def)
  consider (a) "e1 \<noteq> None \<or> \<not> io_stat io"
    | (b) "e1 = None" "io_stat io" "\<not> (io_write io = None \<and> \<not> io_hook_write io \<and> io_sync io)"
    | (c) "e1 = None" "io_stat io" "io_write io = None" "\<not> io_hook_write io" "io_sync io"
    by blast
  then show thesis
  proof cases
    case a
    from commit_unopened [OF eo this cm] show thesis using at1 vis by (intro refused) simp_all
  next
    case b
    from commit_rolls_back [OF eo [unfolded b(1)] b(2,3) cm]
    obtain err t k where err: "err \<in> {WriteFailed, InjectedWrite, SyncFailed}"
      and t: "t = take k (encode (commit_record add remove receipt m))"
      and rb: "man_rollback io (length (file_bytes f)) err (m, Some (file_bytes f @ t)) = (e, s')" .
    from man_rollback_cases [OF rb op [OF b(1)]] show thesis
    proof
      assume "e = Some err \<and> s' = (m, Some (file_bytes f))"
      then show thesis using err base rep vis
        by (intro refused) (auto simp: man_at_def is_durable_def is_rollback_failed_def)
    next
      assume u: "e = Some (RollbackFailed err) \<and> fst s' = m
        \<and> (snd s' = Some (file_bytes f) \<or> snd s' = Some (file_bytes f @ t))"
      then obtain j where "snd s' = Some (log_bytes rs @ take j (encode (commit_record add remove receipt m)))"
        using base t by (metis append_Nil2 take0)
      then show thesis using u rep vis rr
        by (intro unknown [of j]) (auto simp: is_rollback_failed_def)
    qed
  next
    case c
    from commit_synced [OF eo [unfolded c(1)] at1 room1 c(2-5) cm] show thesis
      using vis by (intro durable) simp_all
  qed
qed

section \<open>The interface the store relies on\<close>

text \<open>
  What the store assumes of its commit log: an acknowledged change is what the next open sees, a
  refused one leaves no trace, and after a failed rollback the next open sees one of the two.
\<close>

locale commit_log =
  fixes ok :: "'s \<Rightarrow> bool"
    and visible :: "'s \<Rightarrow> 'i set"
    and recover :: "'s \<Rightarrow> 'i set"
    and room :: "'r \<Rightarrow> 's \<Rightarrow> bool"
    and adds :: "'r \<Rightarrow> 'i set"
    and removes :: "'r \<Rightarrow> 'i set"
    and apply_commit :: "'io \<Rightarrow> 'r \<Rightarrow> 's \<Rightarrow> 'e \<times> 's"
    and acked :: "'e \<Rightarrow> bool"
    and unsure :: "'e \<Rightarrow> bool"
  assumes ok_recover: "ok s \<Longrightarrow> recover s = visible s"
    and commit_acked: "ok s \<Longrightarrow> room r s \<Longrightarrow> apply_commit io r s = (e, s') \<Longrightarrow> acked e \<Longrightarrow>
        ok s' \<and> visible s' = (visible s \<union> adds r) - removes r"
    and commit_refused: "ok s \<Longrightarrow> room r s \<Longrightarrow> apply_commit io r s = (e, s') \<Longrightarrow>
        \<not> acked e \<Longrightarrow> \<not> unsure e \<Longrightarrow> ok s' \<and> visible s' = visible s"
    and commit_unsure: "ok s \<Longrightarrow> room r s \<Longrightarrow> apply_commit io r s = (e, s') \<Longrightarrow>
        unsure e \<Longrightarrow> visible s' = visible s \<and>
          (recover s' = visible s \<or> recover s' = (visible s \<union> adds r) - removes r)"
    and acked_not_unsure: "acked e \<Longrightarrow> \<not> unsure e"
begin

lemma commit_recover:
  assumes "ok s" "room r s" "apply_commit io r s = (e, s')" "\<not> unsure e"
  shows "ok s'" "recover s' = (if acked e then (visible s \<union> adds r) - removes r else visible s)"
    "visible s' = recover s'"
  using assms commit_acked [of s r io e s'] commit_refused [of s r io e s'] ok_recover [of s'] by auto

text \<open>An index that follows the log only on an acknowledged commit stays equal to it.\<close>

lemma index_follows:
  assumes "ok s" "room r s" "apply_commit io r s = (e, s')" "ix = visible s"
    and "ix' = (if acked e then (ix \<union> adds r) - removes r else ix)"
  shows "ix' = visible s'"
proof (cases "unsure e")
  case True
  with assms acked_not_unsure [of e] commit_unsure [of s r io e s'] show ?thesis by auto
next
  case False
  with assms commit_recover [of s r io e s'] show ?thesis by simp
qed

end

type_synonym change = "u64 list \<times> u64 list \<times> bytes"

definition change_adds :: "change \<Rightarrow> u64 set" where "change_adds c = set (fst c)"
definition change_removes :: "change \<Rightarrow> u64 set" where "change_removes c = set (fst (snd c))"

definition commit_change :: "commit_io \<Rightarrow> change \<Rightarrow> man_state \<Rightarrow> man_error option \<times> man_state" where
  "commit_change io c s = (case c of (a, r, t) \<Rightarrow> commit io a r t s)"

definition change_room :: "change \<Rightarrow> man_state \<Rightarrow> bool" where
  "change_room c s = (case c of (a, r, t) \<Rightarrow> man_room a r t (fst s))"

lemmas change_defs = change_adds_def change_removes_def commit_change_def change_room_def

lemma torn_recovered:
  assumes "\<forall>x \<in> set rs. rec_fits x" and "rec_fits r"
  shows "recovered (Some (log_bytes rs @ take k (encode r))) =
    m_visible (foldl man_apply man0 (if k < length (encode r) then rs else rs @ [r]))"
proof (cases "k < length (encode r)")
  case True
  then show ?thesis using assms decode_torn replay_fold_visible by simp
next
  case False
  then have "log_bytes rs @ take k (encode r) = log_bytes (rs @ [r]) @ []" by simp
  then show ?thesis using assms False replay_fold_visible [of "rs @ [r]" "[]"] by simp
qed

lemma man_room_fits: "man_room a r t m \<Longrightarrow> rec_fits (commit_record a r t m)"
  by (simp add: man_room_def rec_fits_def commit_record_def)

lemma commit_unknown_recovered:
  assumes "man_at s rs" "man_room a r t (fst s)"
    and "f = Some (log_bytes rs @ take k (encode (commit_record a r t (fst s))))"
  shows "recovered f = m_visible (fst s) \<or> recovered f = (m_visible (fst s) \<union> set a) - set r"
proof -
  have vis: "m_visible (foldl man_apply man0 rs) = m_visible (fst s)"
    and fits: "\<forall>x \<in> set rs. rec_fits x"
    using assms(1) by (simp_all add: man_at_def man_rep_def)
  show ?thesis
    using torn_recovered [OF fits man_room_fits [OF assms(2)], of k] assms(3) vis
    by (simp add: commit_record_def split: if_splits)
qed

lemma durable_not_unsure: "is_durable e \<Longrightarrow> \<not> is_rollback_failed e"
  by (auto simp: is_durable_def is_rollback_failed_def)

lemma change_outcome:
  assumes "man_ok s" "change_room c s" "commit_change io c s = (e, s')"
  shows "(is_durable e \<and> man_ok s' \<and> m_visible (fst s') = (m_visible (fst s) \<union> change_adds c) - change_removes c)
    \<or> (\<not> is_durable e \<and> \<not> is_rollback_failed e \<and> man_ok s' \<and> m_visible (fst s') = m_visible (fst s))
    \<or> (is_rollback_failed e \<and> m_visible (fst s') = m_visible (fst s) \<and>
        (recovered (snd s') = m_visible (fst s)
         \<or> recovered (snd s') = (m_visible (fst s) \<union> change_adds c) - change_removes c))"
proof -
  obtain a rm t where c: "c = (a, rm, t)" by (metis prod.exhaust)
  obtain rs where at: "man_at s rs" using assms(1) by (rule man_okE)
  have room: "man_room a rm t (fst s)" and cm: "commit io a rm t s = (e, s')"
    using assms c by (simp_all add: change_defs)
  have sets: "change_adds c = set a" "change_removes c = set rm" by (simp_all add: c change_defs)
  show ?thesis unfolding sets
    by (rule commit_outcome [OF at room cm])
      (simp_all add: man_okI commit_unknown_recovered [OF at room])
qed

interpretation manlog: commit_log man_ok "\<lambda>s. m_visible (fst s)" "\<lambda>s. recovered (snd s)"
  change_room change_adds change_removes commit_change is_durable is_rollback_failed
  using man_ok_recovered durable_not_unsure change_outcome by unfold_locales blast+

section \<open>Histories of commits and restarts\<close>


lemma foldl_apply_seq: "\<forall>r \<in> set rs. recSeq r \<le> m_seq (foldl man_apply m rs)"
proof (induction rs rule: rev_induct)
  case (snoc r rs)
  then show ?case by (auto simp: le_max_iff_disj)
qed simp

lemma foldl_apply_disjoint:
  "m_visible m \<inter> m_retired m = {} \<Longrightarrow>
   m_visible (foldl man_apply m rs) \<inter> m_retired (foldl man_apply m rs) = {}"
  by (induction rs rule: rev_induct) auto

lemma foldl_apply_pre:
  "foldl man_apply (m\<lparr>m_preexisted := x\<rparr>) rs = (foldl man_apply m rs)\<lparr>m_preexisted := x\<rparr>"
proof (induction rs arbitrary: m)
  case (Cons r rs)
  have eq: "man_apply (m\<lparr>m_preexisted := x\<rparr>) r = (man_apply m r)\<lparr>m_preexisted := x\<rparr>"
    by (simp add: man_apply_def foldl_man_add foldl_man_remove Let_def)
  show ?case unfolding foldl.simps eq by (rule Cons.IH)
qed simp

lemma man_ok_replayed:
  assumes "\<forall>r \<in> set rs. rec_fits r" and "sorted_wrt (<) (map recSeq rs)"
  shows "man_ok (foldl man_apply (man0\<lparr>m_preexisted := True\<rparr>) rs, Some (log_bytes rs))"
proof -
  have "man_rep (foldl man_apply man0 rs) rs"
    using assms foldl_apply_seq [of rs man0] foldl_apply_disjoint [of man0 rs]
    by (simp add: man_rep_def man0_def)
  then show ?thesis by (auto simp: man_ok_def man_rep_def foldl_apply_pre)
qed

lemma man_ok_restart:
  assumes "man_ok s" and "openManifest (snd s) False True = (Inr m, f)"
  shows "man_ok (m, f)" and "m_visible m = m_visible (fst s)"
proof -
  from assms(2) have "recovered (snd s) = m_visible m" by (simp add: recovered_def)
  with man_ok_recovered [OF assms(1)] show "m_visible m = m_visible (fst s)" by simp
  from assms(1) obtain rs where rs: "file_bytes (snd s) = log_bytes rs" "man_rep (fst s) rs"
    by (auto simp: man_ok_def)
  then have rp: "\<forall>r \<in> set rs. rec_fits r" "sorted_wrt (<) (map recSeq rs)" by (simp_all add: man_rep_def)
  show "man_ok (m, f)"
  proof (cases "snd s")
    case None
    with assms(2) show ?thesis
      by (auto simp: openManifest_def replay.simps man0_def man_ok_def man_rep_def file_bytes_def
          intro!: exI [of _ "[]"])
  next
    case (Some b)
    with assms(2) rs(1) openManifest_log_clean [OF rp(1)] man_ok_replayed [OF rp] show ?thesis
      by (simp add: file_bytes_def)
  qed
qed

text \<open>
  A run of one store directory: commits, each with its own operating-system outcomes, restarts, and crashes in the middle of
  an append.  Nothing restricts a step: a commit may follow a failed rollback, and a record may be too large.

  The list holds the changes in effect, in order, each with whether its commit reported success: a change whose record reached
  the disk although its commit reported an error, or never returned, is in effect and was not acknowledged.  The mode is \<open>Clean\<close>
  between commits; \<open>Torn c w\<close> after the rollback of the commit of \<open>c\<close> has failed, \<open>w\<close> saying whether the whole record was left in
  the file; and \<open>Outside\<close> from the first commit on that is made behind such a tail or has no room.
\<close>

datatype man_mode = Clean | Torn change bool | Outside

definition change_bytes :: "change \<Rightarrow> man_state \<Rightarrow> bytes" where
  "change_bytes c s = (case c of (a, rm, t) \<Rightarrow> encode (commit_record a rm t (fst s)))"

definition whole_left :: "change \<Rightarrow> man_state \<Rightarrow> man_state \<Rightarrow> bool" where
  "whole_left c s s' \<longleftrightarrow> length (file_bytes (snd s')) = length (file_bytes (snd s)) + length (change_bytes c s)"

definition commit_mode :: "man_mode \<Rightarrow> change \<Rightarrow> man_state \<Rightarrow> man_error option \<Rightarrow> man_state \<Rightarrow> man_mode" where
  "commit_mode md c s e s' = (if md \<noteq> Clean \<or> \<not> change_room c s then Outside
     else if is_rollback_failed e then Torn c (whole_left c s s') else Clean)"

fun restart_mode :: "man_mode \<Rightarrow> man_mode" where
  "restart_mode Clean = Clean"
| "restart_mode (Torn c w) = Clean"
| "restart_mode Outside = Outside"

fun restart_log :: "man_mode \<Rightarrow> (change \<times> bool) list \<Rightarrow> (change \<times> bool) list" where
  "restart_log (Torn c True) log = log @ [(c, False)]"
| "restart_log md log = log"

inductive man_run :: "man_state \<Rightarrow> (change \<times> bool) list \<Rightarrow> man_mode \<Rightarrow> bool" where
  fresh: "man_run (man0, None) [] Clean"
| committed: "man_run s log md \<Longrightarrow> commit_change io c s = (e, s') \<Longrightarrow>
     man_run s' (if is_durable e then log @ [(c, e = None)] else log) (commit_mode md c s e s')"
| restarted: "man_run s log md \<Longrightarrow> openManifest (snd s) False True = (Inr m, f) \<Longrightarrow>
     man_run (m, f) (restart_log md log) (restart_mode md)"
| crashed: "man_run s log md \<Longrightarrow>
     openManifest (Some (file_bytes (snd s) @ take k (change_bytes c s))) False True = (Inr m, f) \<Longrightarrow>
     man_run (m, f) (if k < length (change_bytes c s) then log else log @ [(c, False)])
       (if md = Clean \<and> change_room c s then Clean else Outside)"

definition applied_set :: "(change \<times> bool) list \<Rightarrow> u64 set" where
  "applied_set log = foldl (\<lambda>v x. (v \<union> change_adds (fst x)) - change_removes (fst x)) {} log"

lemma applied_set_append [simp]:
  "applied_set (log @ [x]) = (applied_set log \<union> change_adds (fst x)) - change_removes (fst x)"
  by (simp add: applied_set_def)

lemma applied_set_Nil [simp]: "applied_set [] = {}"
  by (simp add: applied_set_def)

lemma applied_stays:
  "g \<in> change_adds c - change_removes c \<Longrightarrow> \<forall>d \<in> set later. g \<notin> change_removes (fst d) \<Longrightarrow>
   g \<in> applied_set (before @ (c, b) # later)"
proof (induction later rule: rev_induct)
  case Nil
  then show ?case using applied_set_append [of before "(c, b)"] by simp
next
  case (snoc d later)
  then show ?case using applied_set_append [of "before @ (c, b) # later" d] by simp
qed

lemma man_ok_fresh: "man_ok (man0, None)"
  unfolding man_ok_def by (rule exI [of _ "[]"]) (simp add: man_rep_def file_bytes_def man0_def)

text \<open>A log with the whole of one more record is the log of a synced commit.\<close>

lemma man_ok_crashed:
  assumes ok: "man_ok s" and room: "man_room a rm t (fst s)"
    and rb: "rb = encode (commit_record a rm t (fst s))"
    and op: "openManifest (Some (file_bytes (snd s) @ take k rb)) False True = (Inr m, f)"
  shows "man_ok (m, f)"
    and "m_visible m = (if k < length rb then m_visible (fst s)
           else (m_visible (fst s) \<union> set a) - set rm)"
proof -
  let ?r = "commit_record a rm t (fst s)"
  obtain rs where at: "man_at s rs" using ok by (rule man_okE)
  then have fb: "file_bytes (snd s) = log_bytes rs" and rep: "man_rep (fst s) rs"
    by (simp_all add: man_at_def)
  note fits = man_room_fits [OF room]
  have rp: "\<forall>r \<in> set rs. rec_fits r" "sorted_wrt (<) (map recSeq rs)"
    and vis: "m_visible (foldl man_apply man0 rs) = m_visible (fst s)"
    using rep by (simp_all add: man_rep_def)
  have "recovered (Some (file_bytes (snd s) @ take k rb)) = m_visible m" using op by (simp add: recovered_def)
  then show "m_visible m = (if k < length rb then m_visible (fst s)
           else (m_visible (fst s) \<union> set a) - set rm)"
    using torn_recovered [OF rp(1) fits, of k] vis fb rb by (simp add: commit_record_def split: if_splits)
  have ap: "man_rep (man_apply ((fst s)\<lparr>m_seq := m_seq (fst s) + 1\<rparr>) ?r) (rs @ [?r])"
    using room by (intro man_rep_append [OF rep fits]) (simp_all add: man_room_def commit_record_def)
  then have ap': "\<forall>r \<in> set (rs @ [?r]). rec_fits r" "sorted_wrt (<) (map recSeq (rs @ [?r]))"
    by (simp_all add: man_rep_def)
  consider (whole) "\<not> k < length rb" | (none) "take k rb = []" | (torn) "k < length rb" "take k rb \<noteq> []"
    by blast
  then show "man_ok (m, f)"
  proof cases
    case whole
    then have "Some (file_bytes (snd s) @ take k rb) = Some (log_bytes (rs @ [?r]))"
      using fb rb by simp
    with op openManifest_log_clean [OF ap'(1)] man_ok_replayed [OF ap'] show ?thesis by simp
  next
    case none
    with op fb openManifest_log_clean [OF rp(1)] man_ok_replayed [OF rp] show ?thesis by simp
  next
    case torn
    with op fb rb openManifest_log [OF rp(1) decode_torn [OF fits]] man_ok_replayed [OF rp]
    show ?thesis by simp
  qed
qed

text \<open>What a run keeps: between commits the log is sound; after a failed rollback the file is a sound log with a piece of the record.\<close>

fun mode_inv :: "man_mode \<Rightarrow> man_state \<Rightarrow> u64 set \<Rightarrow> bool" where
  "mode_inv Clean s v \<longleftrightarrow> man_ok s \<and> m_visible (fst s) = v"
| "mode_inv (Torn c w) s v \<longleftrightarrow> m_visible (fst s) = v \<and> (\<exists>s0 k. man_ok s0 \<and> change_room c s0 \<and> m_visible (fst s0) = v
     \<and> snd s = Some (file_bytes (snd s0) @ take k (change_bytes c s0)) \<and> w = (\<not> k < length (change_bytes c s0)))"
| "mode_inv Outside s v \<longleftrightarrow> True"

lemma mode_TornE:
  assumes "mode_inv (Torn c w) s v"
  obtains s0 k where "man_ok s0" "change_room c s0" "m_visible (fst s0) = v"
    "snd s = Some (file_bytes (snd s0) @ take k (change_bytes c s0))" "w = (\<not> k < length (change_bytes c s0))"
  using assms unfolding mode_inv.simps by (elim conjE exE) (rule that)

lemma mode_TornI:
  assumes "man_ok s0" "change_room c s0" "m_visible (fst s0) = v" "m_visible (fst s) = v"
    "snd s = Some (file_bytes (snd s0) @ take k (change_bytes c s0))" "w = (\<not> k < length (change_bytes c s0))"
  shows "mode_inv (Torn c w) s v"
  unfolding mode_inv.simps by (intro conjI exI) (rule assms)+

lemma crashed_ok:
  assumes "man_ok s" "change_room c s"
    and "openManifest (Some (file_bytes (snd s) @ take k (change_bytes c s))) False True = (Inr m, f)"
  shows "man_ok (m, f)"
    and "m_visible m = (if k < length (change_bytes c s) then m_visible (fst s)
           else (m_visible (fst s) \<union> change_adds c) - change_removes c)"
proof -
  obtain a rm t where c: "c = (a, rm, t)" by (metis prod.exhaust)
  note r = man_ok_crashed [of s a rm t "change_bytes c s" k m f]
  show "man_ok (m, f)" using r(1) assms by (simp add: c change_defs change_bytes_def)
  show "m_visible m = (if k < length (change_bytes c s) then m_visible (fst s)
      else (m_visible (fst s) \<union> change_adds c) - change_removes c)"
    using r(2) assms by (simp add: c change_defs change_bytes_def)
qed

lemma failed_rollback_inv:
  assumes ok: "man_ok s" and room: "change_room c s" and cm: "commit_change io c s = (e, s')" and un: "is_rollback_failed e"
  shows "mode_inv (Torn c (whole_left c s s')) s' (m_visible (fst s))"
proof -
  obtain a rm t where c: "c = (a, rm, t)" by (metis prod.exhaust)
  obtain rs where at: "man_at s rs" using ok by (rule man_okE)
  have room': "man_room a rm t (fst s)" and cm': "commit io a rm t s = (e, s')"
    using room cm c by (simp_all add: change_defs)
  have "m_visible (fst s') = m_visible (fst s) \<and> (\<exists>k. snd s' = Some (file_bytes (snd s) @ take k (change_bytes c s)))"
    by (rule commit_outcome [OF at room' cm'])
      (use un at in \<open>auto simp: c change_bytes_def man_at_def dest: durable_not_unsure\<close>)
  then obtain k where v: "m_visible (fst s') = m_visible (fst s)"
    and f: "snd s' = Some (file_bytes (snd s) @ take k (change_bytes c s))" by blast
  have "whole_left c s s' = (\<not> k < length (change_bytes c s))" by (auto simp: whole_left_def f file_bytes_def)
  from mode_TornI [OF ok room refl v f this] show ?thesis .
qed

lemma man_run_inv: "man_run s log md \<Longrightarrow> mode_inv md s (applied_set log)"
proof (induction rule: man_run.induct)
  case fresh
  have "m_visible man0 = {}" by (simp add: man0_def)
  with man_ok_fresh show ?case by simp
next
  case (committed s log md io c e s')
  show ?case
  proof (cases "md = Clean \<and> change_room c s")
    case True
    then have ok: "man_ok s" "m_visible (fst s) = applied_set log" and room: "change_room c s" using committed.IH by auto
    from change_outcome [OF ok(1) room committed.hyps(2)] failed_rollback_inv [OF ok(1) room committed.hyps(2)] True ok(2)
    show ?thesis by (auto simp: commit_mode_def dest: durable_not_unsure)
  qed (auto simp: commit_mode_def)
next
  case (restarted s log md m f)
  show ?case
  proof (cases md)
    case Clean
    then show ?thesis using restarted man_ok_restart [of s m f] by simp
  next
    case (Torn c w)
    obtain s0 k where s0: "man_ok s0" "change_room c s0" "m_visible (fst s0) = applied_set log"
      "snd s = Some (file_bytes (snd s0) @ take k (change_bytes c s0))" "w = (\<not> k < length (change_bytes c s0))"
      by (rule mode_TornE [OF restarted.IH [unfolded Torn]])
    from crashed_ok [OF s0(1,2) restarted.hyps(2) [unfolded s0(4)]] Torn s0(3,5) show ?thesis
      by (cases w) auto
  qed simp
next
  case (crashed s log md k c m f)
  then show ?case using crashed_ok [of s c k m f] by auto
qed

lemma openManifest_opens: "\<exists>m f. openManifest (Some b) False True = (Inr m, f)"
  by (cases "replay (man0\<lparr>m_preexisted := True\<rparr>) b 0") (simp add: openManifest_def Let_def split: if_split)

lemma mode_inv_recovered:
  assumes "mode_inv md s (applied_set log)" "md \<noteq> Outside"
  shows "recovered (snd s) = applied_set (restart_log md log)" "m_visible (fst s) = applied_set log"
proof -
  show "m_visible (fst s) = applied_set log" using assms by (cases md) auto
  show "recovered (snd s) = applied_set (restart_log md log)"
  proof (cases md)
    case Clean
    then show ?thesis using assms man_ok_recovered [of s] by simp
  next
    case (Torn c w)
    obtain s0 k where s0: "man_ok s0" "change_room c s0" "m_visible (fst s0) = applied_set log"
      "snd s = Some (file_bytes (snd s0) @ take k (change_bytes c s0))" "w = (\<not> k < length (change_bytes c s0))"
      by (rule mode_TornE [OF assms(1) [unfolded Torn]])
    obtain m f where "openManifest (snd s) False True = (Inr m, f)" unfolding s0(4) using openManifest_opens by blast
    with crashed_ok(2) [OF s0(1,2), of k m f] s0(3-5) Torn show ?thesis
      by (cases w) (auto simp: recovered_def)
  qed (use assms in simp)
qed

section \<open>Any file, however damaged\<close>

lemma decode_Some_iff:
  "decodeManifestRecord b = Some (r, n) \<longleftrightarrow>
     (\<exists>ws want. le32 b = Some ws \<and> le32 (drop 4 b) = Some want \<and> n = 8 + unat ws
        \<and> unat ws \<le> manifestRecordLimit \<and> n \<le> length b
        \<and> crc32c (take (unat ws) (drop 8 b)) = want
        \<and> decode_fields (take (unat ws) (drop 8 b)) = Some r)"
  unfolding decodeManifestRecord_def
  by (auto simp: Let_def split: if_splits option.splits)

lemma decode_take:
  assumes "decodeManifestRecord b = Some (r, n)" and "n \<le> k"
  shows "decodeManifestRecord (take k b) = Some (r, n)"
proof -
  from assms(1) obtain ws want where d: "le32 b = Some ws" "le32 (drop 4 b) = Some want"
    "n = 8 + unat ws" "unat ws \<le> manifestRecordLimit" "n \<le> length b"
    "crc32c (take (unat ws) (drop 8 b)) = want"
    "decode_fields (take (unat ws) (drop 8 b)) = Some r"
    unfolding decode_Some_iff by blast
  have "take (unat ws) (drop 8 (take k b)) = take (unat ws) (drop 8 b)"
    using assms(2) d(3) by (simp add: drop_take)
  then show ?thesis
    unfolding decode_Some_iff using d assms(2) by (simp add: le32_take drop_take)
qed

lemma replay_take:
  "replay m b off = (m', e) \<Longrightarrow>
     off \<le> e \<and> e - off \<le> length b \<and> replay m (take (e - off) b) off = (m', e)"
proof (induction m b off rule: replay.induct)
  case (1 m b off)
  show ?case
  proof (cases "decodeManifestRecord b")
    case None
    with "1.prems" show ?thesis by (auto simp: replay.simps [of m b] replay.simps [of m' "[]"])
  next
    case (Some p)
    obtain r n where p: "p = (r, n)" by (cases p)
    have d: "decodeManifestRecord b = Some (r, n)" using Some p by simp
    have rp: "replay (man_apply m r) (drop n b) (off + n) = (m', e)"
      using "1.prems" d by (simp add: replay.simps [of m b])
    have ih: "off + n \<le> e" "e - (off + n) \<le> length (drop n b)"
      "replay (man_apply m r) (take (e - (off + n)) (drop n b)) (off + n) = (m', e)"
      using "1.IH" [OF Some p [symmetric]] rp p by simp_all
    have n: "n \<le> length b" using decode_consumes [OF d] by simp
    have "decodeManifestRecord (take (e - off) b) = Some (r, n)"
      using decode_take [OF d] ih(1) by simp
    moreover have "drop n (take (e - off) b) = take (e - (off + n)) (drop n b)"
      using ih(1) by (simp add: drop_take)
    ultimately show ?thesis
      using ih n by (simp add: replay.simps [of m "take (e - off) b"])
  qed
qed

section \<open>Properties\<close>

text \<open>A manifest record that fits the reader's limit is read back exactly, at its exact length,
  whatever follows it in the file.\<close>

theorem manifest_roundtrip:
  assumes "rec_fits r"
  shows "decodeManifestRecord (encode r @ t) = Some (r, length (encode r))"
  using assms by (rule decode_encode_append)

theorem manifest_roundtrip_witness:
  "decodeManifestRecord (encode \<lparr>recSeq = 7, recAdd = [1, 2], recRemove = [3], recReceipt = [65]\<rparr> @ [9])
    = Some (\<lparr>recSeq = 7, recAdd = [1, 2], recRemove = [3], recReceipt = [65]\<rparr>, 53)"
  using manifest_roundtrip [of "\<lparr>recSeq = 7, recAdd = [1, 2], recRemove = [3], recReceipt = [65]\<rparr>" "[9]"]
  by (simp add: rec_fits_def manifestRecordLimit_def length_encode)

text \<open>Opening a manifest is idempotent on every file content, however damaged: the file an open
  leaves (its torn tail cut off) opens again to the same manifest and is not changed any more.\<close>

theorem openManifest_idempotent:
  assumes "openManifest (Some b) False True = (Inr m, f)"
  shows "openManifest f False tr = (Inr m, f)"
proof -
  let ?m0 = "man0\<lparr>m_preexisted := True\<rparr>"
  obtain m' e where rp: "replay ?m0 b 0 = (m', e)" by (metis prod.exhaust)
  note t = replay_take [OF rp]
  have "m = m'" "f = Some (take e b)"
    using assms rp t by (auto simp: openManifest_def split: if_splits)
  then show ?thesis using t by (simp add: openManifest_def)
qed

theorem openManifest_idempotent_witness:
  "openManifest (Some [1, 2, 3]) False True = (Inr (man0\<lparr>m_preexisted := True\<rparr>), Some [])
   \<and> openManifest (Some []) False False = (Inr (man0\<lparr>m_preexisted := True\<rparr>), Some [])"
proof -
  have "decodeManifestRecord [1, 2, 3] = None" by (simp add: decodeManifestRecord_def)
  then have "openManifest (Some [1, 2, 3]) False True = (Inr (man0\<lparr>m_preexisted := True\<rparr>), Some [])"
    using openManifest_log [of "[]" "[1, 2, 3]"] by simp
  with openManifest_idempotent [OF this] show ?thesis by simp
qed

text \<open>C19: Every outcome of one commit, under every combination of operating-system failures: an
  acknowledged commit is what the next open sees; a refused one leaves memory and the file's
  content as they were; and when the rollback itself failed the next open sees the old set or the
  new one, never a mixture, while memory keeps the old one.\<close>

theorem commit_all_or_nothing:
  assumes "man_ok s" and "man_room add remove receipt (fst s)"
    and "commit io add remove receipt s = (e, s')"
  shows "(is_durable e \<and> man_ok s' \<and> m_visible (fst s') = (m_visible (fst s) \<union> set add) - set remove
            \<and> recovered (snd s') = m_visible (fst s'))
    \<or> (\<not> is_durable e \<and> \<not> is_rollback_failed e \<and> man_ok s' \<and> m_visible (fst s') = m_visible (fst s)
            \<and> recovered (snd s') = m_visible (fst s'))
    \<or> (is_rollback_failed e \<and> m_visible (fst s') = m_visible (fst s)
            \<and> recovered (snd s') \<in> {m_visible (fst s), (m_visible (fst s) \<union> set add) - set remove})"
  using change_outcome [of s "(add, remove, receipt)" io e s'] assms man_ok_recovered [of s']
  by (auto simp: change_defs)

definition io_ok :: commit_io where
  "io_ok = \<lparr>io_open = True, io_stat = True, io_write = None, io_hook_write = False, io_sync = True,
     io_trunc = True, io_seek = True, io_rbsync = True, io_hook_sync = False, io_close = True,
     io_atomic = AtomicOK, io_openafter = True, io_reopen = True\<rparr>"

lemma io_ok_simps [simp]:
  "io_open io_ok" "io_stat io_ok" "io_write io_ok = None" "\<not> io_hook_write io_ok" "io_sync io_ok"
  "io_trunc io_ok" "io_seek io_ok" "io_rbsync io_ok" "\<not> io_hook_sync io_ok" "io_close io_ok"
  "io_atomic io_ok = AtomicOK" "io_openafter io_ok" "io_reopen io_ok"
  by (simp_all add: io_ok_def)

definition io_torn :: commit_io where
  "io_torn = io_ok\<lparr>io_write := Some 2, io_trunc := False\<rparr>"

lemma ensureOpen_ok:
  obtains g where "ensureOpen io_ok (m, f) = (None, (m\<lparr>m_open := True\<rparr>, g))" "file_bytes g = file_bytes f"
  by (cases "m_open m") (auto simp: ensureOpen_def)

theorem commit_all_or_nothing_witness:
  "is_durable (fst (commit io_ok [4] [] [] (man0, None)))
   \<and> recovered (snd (snd (commit io_ok [4] [] [] (man0, None)))) = {4}"
proof -
  obtain e s' where c: "commit io_ok [4] [] [] (man0, None) = (e, s')" by (metis prod.exhaust)
  have "e = None"
    using c by (auto simp: commit_def ensureOpen_def man0_def io_ok_def man_apply_def man_add_def
        compactThreshold_def)
  moreover have "man_room [4] [] [] man0" by (simp add: man_room_def man0_def manifestRecordLimit_def)
  ultimately show ?thesis
    using commit_all_or_nothing [OF man_ok_fresh _ c] c
    by (simp add: is_durable_def is_rollback_failed_def) (simp add: man0_def)
qed

text \<open>C8: Over every history of commits (each with its own operating-system failures, failed rollbacks among them), restarts and
  crashes in the middle of an append, memory holds the changes in effect applied in order, and a restart recovers the same, with at
  most the one change whose rollback has just failed and whose record was left whole added to it; so a group an acknowledged change
  added and no later change removed is always recovered.  The exception is named: from a commit made behind a failed rollback, before
  any restart, or one whose record or whose fold is larger than the reader accepts, nothing is claimed.\<close>

theorem reachable_recovers_acked:
  assumes "man_run s log md" and "md \<noteq> Outside"
  shows "m_visible (fst s) = applied_set log \<and> recovered (snd s) = applied_set (restart_log md log)
    \<and> (\<forall>before c b later g. restart_log md log = before @ (c, b) # later \<and> g \<in> change_adds c - change_removes c
         \<and> (\<forall>d \<in> set later. g \<notin> change_removes (fst d)) \<longrightarrow> g \<in> recovered (snd s))"
  using mode_inv_recovered [OF man_run_inv [OF assms(1)] assms(2)] applied_stays by metis

text \<open>A commit that is acknowledged, then one whose append and rollback both fail.\<close>

theorem reachable_recovers_acked_witness:
  "\<exists>s s'. man_run s [(([4], [], []), True)] Clean \<and> recovered (snd s) = {4}
     \<and> man_run s' [(([4], [], []), True)] (Torn ([5], [], []) False) \<and> recovered (snd s') = {4}"
proof -
  obtain e s where c: "commit_change io_ok ([4], [], []) (man0, None) = (e, s)" by (metis prod.exhaust)
  have e: "e = None" and m: "m_open (fst s)" "m_seq (fst s) = 1" "m_visible (fst s) = {4}"
    using c by (auto simp: change_defs commit_def ensureOpen_def man0_def io_ok_def man_apply_def
        man_add_def compactThreshold_def Let_def)
  have "change_room ([4], [], []) (man0, None)"
    by (simp add: change_defs man_room_def man0_def manifestRecordLimit_def)
  with man_run.committed [OF man_run.fresh c] e have run: "man_run s [(([4], [], []), True)] Clean"
    by (simp add: is_durable_def is_rollback_failed_def commit_mode_def)
  have room: "change_room ([5], [], []) s" by (simp add: change_defs man_room_def manifestRecordLimit_def m)
  obtain m' f' where s: "s = (m', f')" by (cases s)
  have c': "commit_change io_torn ([5], [], []) s
      = (Some (RollbackFailed WriteFailed), (m', Some (file_bytes f' @ take 2 (change_bytes ([5], [], []) s))))"
    using m by (simp add: s change_bytes_def commit_record_def change_defs commit_def ensureOpen_def io_torn_def man_rollback_def
        truncateTo_def joinRollback_def file_bytes_def Let_def)
  have "length (change_bytes ([5], [], []) s) = 36" by (simp add: change_bytes_def commit_record_def length_encode)
  then have "\<not> whole_left ([5], [], []) s (m', Some (file_bytes f' @ take 2 (change_bytes ([5], [], []) s)))"
    by (simp add: whole_left_def s file_bytes_def)
  with man_run.committed [OF run c'] room
  have run': "man_run (m', Some (file_bytes f' @ take 2 (change_bytes ([5], [], []) s))) [(([4], [], []), True)] (Torn ([5], [], []) False)"
    by (simp add: is_durable_def is_rollback_failed_def commit_mode_def)
  have "recovered (snd s) = {4}" using reachable_recovers_acked [OF run] by (simp add: change_defs applied_set_def)
  moreover have "recovered (Some (file_bytes f' @ take 2 (change_bytes ([5], [], []) s))) = {4}"
    using reachable_recovers_acked [OF run'] by (simp add: change_defs applied_set_def)
  ultimately show ?thesis using run run' by (metis snd_conv)
qed

text \<open>A record over the limit is never read back: the writer does not check the limit the reader enforces.\<close>

lemma decode_oversize:
  assumes "\<not> rec_fits r" and "length (rec_payload r) < 2 ^ 32"
  shows "decodeManifestRecord (encode r) = None"
proof -
  let ?p = "rec_payload r"
  have h: "le32 (encode r) = Some (of_nat (length ?p))" by (simp add: encode_def Let_def le32_putU32)
  have "unat (of_nat (length ?p) :: u32) = length ?p" using assms(2) by simp
  with assms(1) h show ?thesis
    by (simp add: decodeManifestRecord_def rec_fits_iff split: option.split)
qed

lemma recovered_oversize:
  assumes "\<not> rec_fits r" and "length (rec_payload r) < 2 ^ 32"
  shows "recovered (Some (encode r)) = {}"
  using replay_fold_visible [of "[]" "encode r"] decode_oversize [OF assms] by (simp add: man0_def)

text \<open>C30: The fold has no size check.  The commit that triggers it on a store whose visible groups do
  not fit one record of the reader's limit is acknowledged, and the next open of the file it left
  sees no group at all.\<close>

theorem commit_fold_oversize_loses_all:
  assumes "finite (m_visible m)" and "m_records m + 1 = compactThreshold"
    and "v = insert i (m_visible m)"
    and "20 + 8 * card v > manifestRecordLimit" and "20 + 8 * card v < 2 ^ 32"
  shows "\<exists>m' f'. commit io_ok [i] [] [] (m, f) = (None, (m', f'))
    \<and> m_visible m' = v \<and> recovered f' = {}"
proof -
  define m1 where "m1 = (man_apply (m\<lparr>m_open := True, m_seq := m_seq m + 1\<rparr>)
      \<lparr>recSeq = m_seq m + 1, recAdd = [i], recRemove = [], recReceipt = []\<rparr>)\<lparr>m_records := compactThreshold\<rparr>"
  have v1: "m_visible m1 = v" and mo: "m_open m1" using assms(3) by (simp_all add: m1_def)
  let ?r = "\<lparr>recSeq = m_seq m1 + 1, recAdd = visibleIDs m1, recRemove = [], recReceipt = []\<rparr>"
  have fin: "finite v" using assms(1,3) by simp
  have "length (visibleIDs m1) = card v" using v1 fin by (simp add: visibleIDs_def)
  then have "recovered (Some (encode ?r)) = {}"
    using assms(4,5) by (intro recovered_oversize) (simp_all add: rec_fits_def length_rec_payload)
  moreover have "compact io_ok (m1, g) = (None, (m1\<lparr>m_open := True, m_seq := m_seq m1 + 1\<rparr>, Some (encode ?r)))" for g
    using mo by (simp add: compact_def ensureOpen_def Let_def)
  moreover have "commit io_ok [i] [] [] (m, f) = (case compact io_ok (m1, Some (file_bytes f @ encode
      \<lparr>recSeq = m_seq m + 1, recAdd = [i], recRemove = [], recReceipt = []\<rparr>)) of
        (Some _, s3) \<Rightarrow> (None, man_reopen io_ok s3) | (None, (m3, f3)) \<Rightarrow> (None, (m3\<lparr>m_records := 0\<rparr>, f3)))"
    by (rule ensureOpen_ok [of m f]) (use assms(2) in \<open>simp add: commit_def Let_def m1_def\<close>)
  ultimately show ?thesis using v1 by simp
qed

definition full_man :: manifest where
  "full_man = man0\<lparr>m_records := 4095, m_visible := of_nat ` {0..<2097149}\<rparr>"

lemma card_full: "card (insert 2097149 (m_visible full_man)) = 2097150"
proof -
  have v: "m_visible full_man = (of_nat ` {0..<2097149} :: u64 set)" by (simp add: full_man_def)
  have inj: "inj_on (of_nat :: nat \<Rightarrow> u64) {0..2097149}"
    by (rule inj_on_inverseI [of _ unat]) simp
  have "insert 2097149 (m_visible full_man) = (of_nat :: nat \<Rightarrow> u64) ` insert 2097149 {0..<2097149}"
    unfolding v image_insert by simp
  also have "insert 2097149 {0..<2097149} = {0..2097149 :: nat}" by auto
  finally show ?thesis using card_image [OF inj] by simp
qed

theorem commit_fold_oversize_loses_all_witness:
  "\<exists>m' f'. commit io_ok [2097149] [] [] (full_man, None) = (None, (m', f'))
    \<and> card (m_visible m') = 2097150 \<and> recovered f' = {}"
proof -
  have "finite (m_visible full_man)" "m_records full_man + 1 = compactThreshold"
    by (simp_all add: full_man_def compactThreshold_def)
  from commit_fold_oversize_loses_all [OF this refl, of 2097149 None] card_full show ?thesis
    by (auto simp: manifestRecordLimit_def)
qed

lemma torn_tail_swallows:
  assumes "length (rec_payload r) = 28" "length (rec_payload r') = 28"
  shows "decodeManifestRecord (take 2 (encode r) @ encode r') = None"
proof -
  have "take 2 (encode r) = [28, 0]" "\<exists>t. encode r' = [28, 0, 0, 0] @ t \<and> length t = 32"
    using assms by (simp_all add: encode_def putU32_def Let_def)
  then obtain t where "take 2 (encode r) @ encode r' = [28, 0, 28, 0, 0, 0] @ t" "length t = 32" by auto
  then show ?thesis by (simp add: decodeManifestRecord_def split: option.split)
qed

text \<open>C31: After a commit whose rollback also failed, the log ends in half a record and nothing stops
  the next commit from appending behind it: here group 6 is acknowledged, memory shows it, and the
  next open does not see it.\<close>

theorem commit_behind_torn_tail_lost:
  "let (e1, s1) = commit io_torn [5] [] [] (man0, None);
       (e2, s2) = commit io_ok [6] [] [] s1
   in e1 = Some (RollbackFailed WriteFailed) \<and> e2 = None \<and> m_visible (fst s2) = {6}
      \<and> recovered (snd s2) = {}"
proof -
  let ?r = "\<lambda>i. \<lparr>recSeq = 1, recAdd = [i], recRemove = [], recReceipt = []\<rparr>"
  let ?m = "man0\<lparr>m_open := True\<rparr>"
  have m0: "m_open man0 = False" "m_seq man0 = 0" "m_records man0 = 0" "m_visible man0 = {}"
    by (simp_all add: man0_def)
  have c1: "commit io_torn [5] [] [] (man0, None)
      = (Some (RollbackFailed WriteFailed), (?m, Some (take 2 (encode (?r 5)))))"
    by (simp add: commit_def ensureOpen_def m0 io_torn_def man_rollback_def truncateTo_def
        joinRollback_def file_bytes_def Let_def)
  have c2: "\<exists>m2. commit io_ok [6] [] [] (?m, Some (take 2 (encode (?r 5))))
      = (None, (m2, Some (take 2 (encode (?r 5)) @ encode (?r 6)))) \<and> m_visible m2 = {6}"
    by (simp add: commit_def ensureOpen_def m0 compactThreshold_def Let_def)
  have "recovered (Some (take 2 (encode (?r 5)) @ encode (?r 6))) = {}"
    using replay_fold_visible [of "[]" "take 2 (encode (?r 5)) @ encode (?r 6)"]
      torn_tail_swallows [of "?r 5" "?r 6"] m0 by (simp add: length_rec_payload)
  with c1 c2 show ?thesis by auto
qed

end
