(* ===== verification/Lease.thy ===== *)
theory Lease
  imports Prelude "HOL-Library.Multiset"
begin

text \<open>
  Ownership of a mapped group: the reference count, the retirement flag and the once-only release of
  \<^verbatim>\<open>internal/storage/snapshot.go\<close> (\<^verbatim>\<open>acquire\<close>, \<^verbatim>\<open>release\<close>, \<^verbatim>\<open>retire\<close>, \<^verbatim>\<open>unmapOnce\<close>).

  Each operation is given twice.  As a function it is what one call does with nothing running beside it; the store is built on
  these.  As a set of steps it is the same code cut at its atomic accesses, run by any number of threads in any order.  A thread
  that is inside no operation leaves no trace, so the threads are a multiset of program points.

  Snapshots acquire under the read lock and only entries of the index; every retirement is preceded by taking the entry out of the
  index under the write lock (\<^verbatim>\<open>dropGroups\<close>, \<^verbatim>\<open>Demote\<close>, \<^verbatim>\<open>Recompact\<close>, \<^verbatim>\<open>CompactGroups\<close>), or, in
  \<^verbatim>\<open>Close\<close>, made while holding it.  The flag \<open>indexed\<close> stands for that: an acquire needs it, a retirement starts by clearing it.
\<close>

section \<open>The operations\<close>

record ownership =
  refs :: int
  retired :: bool
  unmapped :: bool

text \<open>The count a released version is parked at.\<close>

definition parked :: int where
  "parked = - (2 ^ 40)"

definition acquire :: "'a ownership_scheme \<Rightarrow> bool \<times> 'a ownership_scheme" where
  "acquire e = (if refs e < 0 then (False, e) else (True, e\<lparr>refs := refs e + 1\<rparr>))"

text \<open>The flag says whether this call released the mapping.\<close>

definition unmapOnce :: "'a ownership_scheme \<Rightarrow> bool \<times> 'a ownership_scheme" where
  "unmapOnce e = (if unmapped e then (False, e) else (True, e\<lparr>unmapped := True, refs := parked\<rparr>))"

definition release :: "'a ownership_scheme \<Rightarrow> bool \<times> 'a ownership_scheme" where
  "release e = (let e1 = e\<lparr>refs := refs e - 1\<rparr> in
     if refs e1 = 0 \<and> retired e1 then unmapOnce e1 else (False, e1))"

definition retire :: "'a ownership_scheme \<Rightarrow> bool \<times> 'a ownership_scheme" where
  "retire e = (let e1 = e\<lparr>retired := True\<rparr> in if refs e1 = 0 then unmapOnce e1 else (False, e1))"

section \<open>The same code under any interleaving\<close>

text \<open>
  \<open>Held\<close>: between an acquire and the release.  \<open>Decremented n\<close>: \<^verbatim>\<open>refs.Add(-1)\<close> returned \<open>n\<close> and
  \<^verbatim>\<open>retired.Load()\<close> is next.  \<open>Removed\<close> and \<open>Flagged\<close>: before the store and before the load of \<^verbatim>\<open>retire\<close>.
  \<open>Unmap\<close>, \<open>Park\<close> and \<open>Call\<close>: before the three actions of \<^verbatim>\<open>unmapOnce\<close>.
\<close>

datatype point = Held | Decremented int | Removed | Flagged | Unmap | Park | Call

record machine =
  own :: ownership
  indexed :: bool
  unmaps :: nat
  threads :: "point multiset"

definition fresh :: machine where
  "fresh = \<lparr>own = \<lparr>refs = 0, retired = False, unmapped = False\<rparr>, indexed = True, unmaps = 0, threads = {#}\<rparr>"

text \<open>
  One atomic access.  With \<open>calm\<close> set, no acquire falls between another thread's last decrement and its look at the flag.
\<close>

inductive own_step :: "bool \<Rightarrow> machine \<Rightarrow> machine \<Rightarrow> bool" for calm :: bool where
  acquire: "indexed m \<Longrightarrow> 0 \<le> refs (own m) \<Longrightarrow> (calm \<longrightarrow> Decremented 0 \<notin># threads m) \<Longrightarrow>
    own_step calm m (m\<lparr>own := (own m)\<lparr>refs := refs (own m) + 1\<rparr>, threads := add_mset Held (threads m)\<rparr>)"
| decrement: "threads m = add_mset Held T \<Longrightarrow>
    own_step calm m (m\<lparr>own := (own m)\<lparr>refs := refs (own m) - 1\<rparr>, threads := add_mset (Decremented (refs (own m) - 1)) T\<rparr>)"
| test: "threads m = add_mset (Decremented n) T \<Longrightarrow>
    own_step calm m (m\<lparr>threads := (if n = 0 \<and> retired (own m) then add_mset Unmap T else T)\<rparr>)"
| remove: "indexed m \<Longrightarrow> own_step calm m (m\<lparr>indexed := False, threads := add_mset Removed (threads m)\<rparr>)"
| flag: "threads m = add_mset Removed T \<Longrightarrow>
    own_step calm m (m\<lparr>own := (own m)\<lparr>retired := True\<rparr>, threads := add_mset Flagged T\<rparr>)"
| load: "threads m = add_mset Flagged T \<Longrightarrow>
    own_step calm m (m\<lparr>threads := (if refs (own m) = 0 then add_mset Unmap T else T)\<rparr>)"
| swap: "threads m = add_mset Unmap T \<Longrightarrow>
    own_step calm m (if unmapped (own m) then m\<lparr>threads := T\<rparr>
      else m\<lparr>own := (own m)\<lparr>unmapped := True\<rparr>, threads := add_mset Park T\<rparr>)"
| park: "threads m = add_mset Park T \<Longrightarrow>
    own_step calm m (m\<lparr>own := (own m)\<lparr>refs := parked\<rparr>, threads := add_mset Call T\<rparr>)"
| call: "threads m = add_mset Call T \<Longrightarrow> own_step calm m (m\<lparr>unmaps := unmaps m + 1, threads := T\<rparr>)"

inductive own_reach :: "bool \<Rightarrow> machine \<Rightarrow> bool" for calm :: bool where
  start: "own_reach calm fresh"
| step: "own_reach calm m \<Longrightarrow> own_step calm m m' \<Longrightarrow> own_reach calm m'"

inductive_cases own_reachE: "own_reach calm m"

text \<open>A call with nothing beside it takes the steps of its function.\<close>

lemma release_alone:
  assumes "threads m = {#Held#}"
  shows "(own_step calm)\<^sup>*\<^sup>* m (m\<lparr>own := snd (release (own m)),
    unmaps := unmaps m + (if fst (release (own m)) then 1 else 0), threads := {#}\<rparr>)"
proof -
  let ?n = "refs (own m) - 1"
  let ?m1 = "m\<lparr>own := (own m)\<lparr>refs := ?n\<rparr>, threads := {#Decremented ?n#}\<rparr>"
  let ?m2 = "?m1\<lparr>threads := (if ?n = 0 \<and> retired (own ?m1) then {#Unmap#} else {#})\<rparr>"
  have "own_step calm m ?m1" using own_step.decrement [of m "{#}" calm] assms by simp
  moreover have "own_step calm ?m1 ?m2" using own_step.test [of ?m1 ?n "{#}" calm] by simp
  ultimately have two: "(own_step calm)\<^sup>*\<^sup>* m ?m2" by (meson converse_rtranclp_into_rtranclp r_into_rtranclp)
  show ?thesis
  proof (cases "?n = 0 \<and> retired (own m)")
    case False
    then show ?thesis using two assms by (auto simp: release_def Let_def)
  next
    case True
    let ?m3 = "?m2\<lparr>own := (own ?m2)\<lparr>unmapped := True\<rparr>, threads := {#Park#}\<rparr>"
    let ?m4 = "?m3\<lparr>own := (own ?m3)\<lparr>refs := parked\<rparr>, threads := {#Call#}\<rparr>"
    have sw: "own_step calm ?m2 (if unmapped (own ?m2) then ?m2\<lparr>threads := {#}\<rparr> else ?m3)"
      using own_step.swap [of ?m2 "{#}" calm] True by simp
    show ?thesis
    proof (cases "unmapped (own m)")
      case un: True
      then have "own_step calm ?m2 (?m2\<lparr>threads := {#}\<rparr>)" using sw by simp
      then show ?thesis using rtranclp.rtrancl_into_rtrancl [OF two] True un by (simp add: release_def unmapOnce_def Let_def)
    next
      case un: False
      have "own_step calm ?m2 ?m3" using sw un by simp
      moreover have "own_step calm ?m3 ?m4" using own_step.park [of ?m3 "{#}" calm] by simp
      moreover have "own_step calm ?m4 (?m4\<lparr>unmaps := unmaps ?m4 + 1, threads := {#}\<rparr>)" using own_step.call [of ?m4 "{#}" calm] by simp
      ultimately have "(own_step calm)\<^sup>*\<^sup>* m (?m4\<lparr>unmaps := unmaps ?m4 + 1, threads := {#}\<rparr>)"
        using rtranclp.rtrancl_into_rtrancl [OF rtranclp.rtrancl_into_rtrancl [OF rtranclp.rtrancl_into_rtrancl [OF two]]] by blast
      then show ?thesis using True un by (simp add: release_def unmapOnce_def Let_def)
    qed
  qed
qed

section \<open>What every interleaving keeps\<close>

definition unmap_counted :: "machine \<Rightarrow> bool" where
  "unmap_counted m \<longleftrightarrow> unmaps m + count (threads m) Park + count (threads m) Call = (if unmapped (own m) then 1 else 0)"

definition refs_counted :: "machine \<Rightarrow> bool" where
  "refs_counted m \<longleftrightarrow> (if unmapped (own m) \<and> Park \<notin># threads m then refs (own m) \<le> parked
     else refs (own m) = int (count (threads m) Held))"

definition out_of_index :: "machine \<Rightarrow> bool" where
  "out_of_index m \<longleftrightarrow> (retired (own m) \<or> Removed \<in># threads m \<longrightarrow> \<not> indexed m)
     \<and> (unmapped (own m) \<or> Unmap \<in># threads m \<or> Flagged \<in># threads m \<longrightarrow> retired (own m))"

definition last_one_out :: "machine \<Rightarrow> bool" where
  "last_one_out m \<longleftrightarrow> (retired (own m) \<and> \<not> unmapped (own m) \<and> refs (own m) = 0 \<longrightarrow>
     Flagged \<in># threads m \<or> Decremented 0 \<in># threads m \<or> Unmap \<in># threads m)"

definition none_held :: "machine \<Rightarrow> bool" where
  "none_held m \<longleftrightarrow> (Decremented 0 \<in># threads m \<or> Unmap \<in># threads m \<or> unmapped (own m) \<longrightarrow> Held \<notin># threads m)"

lemma step_unmap_counted: "own_step calm m m' \<Longrightarrow> unmap_counted m \<Longrightarrow> unmap_counted m'"
  by (induction rule: own_step.induct) (auto simp: unmap_counted_def split: if_splits)

lemma step_out_of_index: "own_step calm m m' \<Longrightarrow> out_of_index m \<Longrightarrow> out_of_index m'"
  by (induction rule: own_step.induct) (auto simp: out_of_index_def split: if_splits)

lemma park_unmapped: "unmap_counted m \<Longrightarrow> Park \<in># threads m \<or> Call \<in># threads m \<Longrightarrow> unmapped (own m)"
  by (auto simp: unmap_counted_def count_greater_zero_iff [symmetric] simp del: count_greater_zero_iff split: if_splits)

lemma park_alone: "unmap_counted m \<Longrightarrow> threads m = add_mset Park T \<Longrightarrow> Park \<notin># T \<and> Call \<notin># T"
  by (auto simp: unmap_counted_def not_in_iff split: if_splits)

lemma step_refs_counted: "own_step calm m m' \<Longrightarrow> unmap_counted m \<Longrightarrow> refs_counted m \<Longrightarrow> refs_counted m'"
proof (induction rule: own_step.induct)
  case (park m T)
  then show ?case using park_alone [OF park(2,1)] park_unmapped [OF park(2)] by (simp add: refs_counted_def)
next
  case (swap m T)
  then show ?case using park_unmapped [OF swap(2)] by (auto simp: refs_counted_def)
qed (auto simp: refs_counted_def parked_def split: if_splits)

lemma step_last_one_out:
  "own_step calm m m' \<Longrightarrow> unmap_counted m \<Longrightarrow> out_of_index m \<Longrightarrow> last_one_out m \<Longrightarrow> last_one_out m'"
proof (induction rule: own_step.induct)
  case (park m T)
  then show ?case using park_unmapped [OF park(2)] by (simp add: last_one_out_def)
qed (auto simp: last_one_out_def out_of_index_def split: if_splits)

lemma step_none_held:
  "own_step True m m' \<Longrightarrow> refs_counted m \<Longrightarrow> out_of_index m \<Longrightarrow> none_held m \<Longrightarrow> none_held m'"
proof (induction rule: own_step.induct)
  case (decrement m T)
  then have u: "\<not> unmapped (own m)" "Decremented 0 \<notin># T" "Unmap \<notin># T" by (auto simp: none_held_def)
  then have "refs (own m) = int (count T Held) + 1" using decrement by (simp add: refs_counted_def)
  then have "refs (own m) = 1 \<longleftrightarrow> Held \<notin># T" by (simp add: count_eq_zero_iff)
  then show ?case using u by (auto simp: none_held_def)
next
  case (load m T)
  then have "refs (own m) = int (count T Held)" if "\<not> unmapped (own m)" using that by (simp add: refs_counted_def)
  then have "refs (own m) = 0 \<longrightarrow> Held \<notin># T" if "\<not> unmapped (own m)" using that by (simp add: count_eq_zero_iff)
  then show ?case using load by (auto simp: none_held_def)
qed (auto simp: none_held_def out_of_index_def split: if_splits)

lemmas own_invariants = unmap_counted_def refs_counted_def out_of_index_def last_one_out_def none_held_def

lemma reach_invariants:
  "own_reach calm m \<Longrightarrow> unmap_counted m \<and> refs_counted m \<and> out_of_index m \<and> last_one_out m \<and> (calm \<longrightarrow> none_held m)"
proof (induction rule: own_reach.induct)
  case start
  show ?case by (simp add: fresh_def own_invariants)
next
  case (step m m')
  then have i: "unmap_counted m" "refs_counted m" "out_of_index m" "last_one_out m" "calm \<longrightarrow> none_held m" by simp_all
  have "none_held m'" if "calm" using that step(2) i step_none_held [of m m'] by simp
  then show ?case
    using step_unmap_counted [OF step(2) i(1)] step_refs_counted [OF step(2) i(1,2)] step_out_of_index [OF step(2) i(3)]
      step_last_one_out [OF step(2) i(1,3,4)] by simp
qed

section \<open>After retirement every run ends\<close>

fun weight :: "point \<Rightarrow> nat" where
  "weight Held = 5"
| "weight (Decremented n) = 4"
| "weight Removed = 5"
| "weight Flagged = 4"
| "weight Unmap = 3"
| "weight Park = 2"
| "weight Call = 1"

definition work :: "machine \<Rightarrow> nat" where
  "work m = (\<Sum>p \<in># threads m. weight p)"

lemma step_work: "own_step calm m m' \<Longrightarrow> \<not> indexed m \<Longrightarrow> work m' < work m \<and> \<not> indexed m'"
  by (induction rule: own_step.induct) (auto simp: work_def)

lemma step_retired: "own_step calm m m' \<Longrightarrow> retired (own m) \<Longrightarrow> retired (own m')"
  by (induction rule: own_step.induct) auto

lemma step_enabled: "threads m \<noteq> {#} \<Longrightarrow> \<exists>m'. own_step calm m m'"
proof -
  assume "threads m \<noteq> {#}"
  then obtain p T where t: "threads m = add_mset p T" by (meson multiset_cases)
  note go = exI [where P = "own_step calm m"]
  show ?thesis
  proof (cases p)
    case Held
    show ?thesis by (rule go, rule own_step.decrement, rule t [unfolded Held])
  next
    case (Decremented n)
    show ?thesis by (rule go, rule own_step.test, rule t [unfolded Decremented])
  next
    case Removed
    show ?thesis by (rule go, rule own_step.flag, rule t [unfolded Removed])
  next
    case Flagged
    show ?thesis by (rule go, rule own_step.load, rule t [unfolded Flagged])
  next
    case Unmap
    show ?thesis by (rule go, rule own_step.swap, rule t [unfolded Unmap])
  next
    case Park
    show ?thesis by (rule go, rule own_step.park, rule t [unfolded Park])
  next
    case Call
    show ?thesis by (rule go, rule own_step.call, rule t [unfolded Call])
  qed
qed

lemma reach_steps: "(own_step calm)\<^sup>*\<^sup>* m m' \<Longrightarrow> own_reach calm m \<Longrightarrow> own_reach calm m'"
  by (induction rule: rtranclp_induct) (auto intro: own_reach.step)

lemma retired_steps: "(own_step calm)\<^sup>*\<^sup>* m m' \<Longrightarrow> retired (own m) \<Longrightarrow> retired (own m')"
  by (induction rule: rtranclp_induct) (auto intro: step_retired)

lemma no_endless_run:
  assumes "\<not> indexed m"
  shows "\<not> (\<exists>f. f 0 = m \<and> (\<forall>n. own_step calm (f n) (f (Suc n))))"
proof
  assume "\<exists>f. f 0 = m \<and> (\<forall>n. own_step calm (f n) (f (Suc n)))"
  then obtain f where f: "f 0 = m" "\<And>n. own_step calm (f n) (f (Suc n))" by blast
  have ix: "\<not> indexed (f n)" for n by (induction n) (use f assms step_work in auto)
  have "work (f n) + n \<le> work (f 0)" for n
  proof (induction n)
    case (Suc n)
    then show ?case using step_work [OF f(2) ix, of n] by simp
  qed simp
  from this [of "Suc (work (f 0))"] show False by simp
qed

section \<open>A group retired while it is held, and one retired while it is free\<close>

definition demo_machine :: "int \<Rightarrow> bool \<Rightarrow> bool \<Rightarrow> bool \<Rightarrow> nat \<Rightarrow> point multiset \<Rightarrow> machine" where
  "demo_machine r ret un ix n T = \<lparr>own = \<lparr>refs = r, retired = ret, unmapped = un\<rparr>, indexed = ix, unmaps = n, threads = T\<rparr>"

definition demo_held :: machine where "demo_held = demo_machine 1 True False False 0 {#Flagged, Held#}"
definition demo_retired :: machine where "demo_retired = demo_machine 0 True False False 0 {#Flagged#}"
definition demo_released :: machine where "demo_released = demo_machine parked True True False 1 {#}"

lemmas demo_defs = demo_held_def demo_retired_def demo_released_def demo_machine_def

lemma demo_held_reach: "own_reach True demo_held"
proof -
  have "own_reach True (demo_machine 0 False False True 0 {#})" using own_reach.start by (simp add: fresh_def demo_machine_def)
  from own_reach.step [OF this own_step.acquire] have "own_reach True (demo_machine 1 False False True 0 {#Held#})"
    by (simp add: demo_machine_def)
  from own_reach.step [OF this own_step.remove] have "own_reach True (demo_machine 1 False False False 0 {#Removed, Held#})"
    by (simp add: demo_machine_def)
  from own_reach.step [OF this own_step.flag [where T = "{#Held#}"]] show ?thesis by (simp add: demo_defs)
qed

lemma demo_retired_reach: "own_reach True demo_retired"
proof -
  have "own_reach True (demo_machine 0 False False True 0 {#})" using own_reach.start by (simp add: fresh_def demo_machine_def)
  from own_reach.step [OF this own_step.remove] have "own_reach True (demo_machine 0 False False False 0 {#Removed#})"
    by (simp add: demo_machine_def)
  from own_reach.step [OF this own_step.flag [where T = "{#}"]] show ?thesis by (simp add: demo_defs)
qed

lemma demo_retired_run: "(own_step True)\<^sup>*\<^sup>* demo_retired demo_released"
proof -
  have "own_step True demo_retired (demo_machine 0 True False False 0 {#Unmap#})"
    using own_step.load [where T = "{#}" and m = demo_retired] by (simp add: demo_defs)
  moreover have "own_step True (demo_machine 0 True False False 0 {#Unmap#}) (demo_machine 0 True True False 0 {#Park#})"
    using own_step.swap [where T = "{#}" and m = "demo_machine 0 True False False 0 {#Unmap#}"] by (simp add: demo_machine_def)
  moreover have "own_step True (demo_machine 0 True True False 0 {#Park#}) (demo_machine parked True True False 0 {#Call#})"
    using own_step.park [where T = "{#}" and m = "demo_machine 0 True True False 0 {#Park#}"] by (simp add: demo_machine_def)
  moreover have "own_step True (demo_machine parked True True False 0 {#Call#}) demo_released"
    using own_step.call [where T = "{#}" and m = "demo_machine parked True True False 0 {#Call#}"] by (simp add: demo_defs)
  ultimately show ?thesis by (meson converse_rtranclp_into_rtranclp rtranclp.rtrancl_refl)
qed

lemma demo_released_stuck: "\<nexists>x. own_step True demo_released x"
  by (auto simp: demo_defs elim: own_step.cases)

section \<open>Properties\<close>

text \<open>C17: The life of a mapping under every interleaving of acquires, releases and retirements.  The mapping is released at most
  once, and only after the group has been retired and taken out of the index; once a retired group is held by nobody and no call is under
  way it has been released, so nothing leaks; and as long as no snapshot is taken between another thread's last decrement and its
  look at the retirement flag, a mapping that is held has not been released.\<close>

theorem mapping_lifetime:
  assumes "own_reach calm m"
  shows "unmaps m \<le> 1 \<and> (0 < unmaps m \<longrightarrow> retired (own m) \<and> \<not> indexed m)
    \<and> (retired (own m) \<and> threads m = {#} \<longrightarrow> unmaps m = 1)
    \<and> (calm \<and> Held \<in># threads m \<longrightarrow> unmaps m = 0 \<and> \<not> unmapped (own m))"
proof -
  note inv = reach_invariants [OF assms]
  then have u: "unmaps m + count (threads m) Park + count (threads m) Call = (if unmapped (own m) then 1 else 0)"
    by (simp add: unmap_counted_def)
  then have "unmaps m \<le> 1" "0 < unmaps m \<Longrightarrow> unmapped (own m)" by (simp_all split: if_splits)
  moreover have "unmapped (own m)" if "retired (own m)" "threads m = {#}"
    using inv that by (auto simp: own_invariants split: if_splits)
  moreover have "\<not> unmapped (own m)" if "calm" "Held \<in># threads m" using inv that by (auto simp: none_held_def)
  ultimately show ?thesis using inv u by (auto simp: out_of_index_def)
qed

text \<open>C18: A retired group is always released.  From any reachable state in which the group has been retired, no run of the threads goes
  on for ever, and every run that can go no further, whatever the schedule, has released the mapping exactly once.\<close>

theorem retired_group_is_released:
  assumes "own_reach calm m" and "retired (own m)"
  shows "\<not> (\<exists>f. f 0 = m \<and> (\<forall>n. own_step calm (f n) (f (Suc n))))
    \<and> (\<forall>m'. (own_step calm)\<^sup>*\<^sup>* m m' \<and> (\<nexists>x. own_step calm m' x) \<longrightarrow> unmaps m' = 1)"
proof -
  have "\<not> indexed m" using reach_invariants [OF assms(1)] assms(2) by (simp add: out_of_index_def)
  moreover have "unmaps m' = 1" if run: "(own_step calm)\<^sup>*\<^sup>* m m'" and stuck: "\<nexists>x. own_step calm m' x" for m'
  proof -
    have t: "threads m' = {#}" using step_enabled [of m' calm] stuck by blast
    have r: "retired (own m')" using retired_steps [OF run assms(2)] .
    have inv: "unmap_counted m'" "refs_counted m'" "last_one_out m'" using reach_invariants [OF reach_steps [OF run assms(1)]] by simp_all
    then have "unmapped (own m')" using t r by (auto simp: refs_counted_def last_one_out_def split: if_splits)
    then show ?thesis using inv(1) t by (simp add: unmap_counted_def)
  qed
  ultimately show ?thesis using no_endless_run by blast
qed

theorem retired_group_is_released_witness:
  "\<exists>m m'. own_reach True m \<and> retired (own m) \<and> unmaps m = 0
     \<and> (own_step True)\<^sup>*\<^sup>* m m' \<and> (\<nexists>x. own_step True m' x) \<and> unmaps m' = 1
     \<and> \<not> (\<exists>f. f 0 = m \<and> (\<forall>n. own_step True (f n) (f (Suc n))))"
proof -
  have "retired (own demo_retired)" "unmaps demo_retired = 0" by (simp_all add: demo_retired_def demo_machine_def)
  moreover note retired_group_is_released [OF demo_retired_reach this(1)] demo_retired_reach demo_retired_run demo_released_stuck
  ultimately show ?thesis by blast
qed

text \<open>C35: A held mapping can be released.  A snapshot's release decrements the count to zero and pauses before it reads the
  retirement flag; another snapshot acquires the group; retention takes it out of the index, sets the flag and, seeing the count at
  one, leaves the mapping to its holder; the paused release now reads the flag and unmaps what the second snapshot is reading.\<close>

theorem held_mapping_released:
  "\<exists>m. own_reach False m \<and> Held \<in># threads m \<and> unmaps m = 1"
proof -
  let ?s = "\<lambda>r ret un ix n T. \<lparr>own = \<lparr>refs = r, retired = ret, unmapped = un\<rparr>, indexed = ix, unmaps = n, threads = T\<rparr>"
  note go = own_reach.step
  have "own_reach False (?s 0 False False True 0 {#})" using own_reach.start by (simp add: fresh_def)
  from go [OF this own_step.acquire] have "own_reach False (?s 1 False False True 0 {#Held#})" by simp
  from go [OF this own_step.decrement [where T = "{#}"]] have "own_reach False (?s 0 False False True 0 {#Decremented 0#})" by simp
  from go [OF this own_step.acquire] have "own_reach False (?s 1 False False True 0 {#Held, Decremented 0#})" by simp
  from go [OF this own_step.remove] have "own_reach False (?s 1 False False False 0 {#Removed, Held, Decremented 0#})" by simp
  from go [OF this own_step.flag [where T = "{#Held, Decremented 0#}"]]
  have "own_reach False (?s 1 True False False 0 {#Flagged, Held, Decremented 0#})" by simp
  from go [OF this own_step.load [where T = "{#Held, Decremented 0#}"]]
  have "own_reach False (?s 1 True False False 0 {#Held, Decremented 0#})" by simp
  from go [OF this own_step.test [where n = 0 and T = "{#Held#}"]]
  have "own_reach False (?s 1 True False False 0 {#Unmap, Held#})" by (simp add: add_mset_commute)
  from go [OF this own_step.swap [where T = "{#Held#}"]] have "own_reach False (?s 1 True True False 0 {#Park, Held#})" by simp
  from go [OF this own_step.park [where T = "{#Held#}"]] have "own_reach False (?s parked True True False 0 {#Call, Held#})" by simp
  from go [OF this own_step.call [where T = "{#Held#}"]] have "own_reach False (?s parked True True False 1 {#Held#})" by simp
  then show ?thesis by (rule exI [of _ "?s parked True True False 1 {#Held#}", OF conjI]) simp
qed

theorem mapping_lifetime_witness:
  "\<exists>m m'. own_reach True m \<and> retired (own m) \<and> Held \<in># threads m \<and> unmaps m = 0 \<and> \<not> unmapped (own m)
     \<and> own_reach True m' \<and> retired (own m') \<and> threads m' = {#} \<and> unmaps m' = 1 \<and> \<not> indexed m'"
proof -
  have h: "retired (own demo_held)" "Held \<in># threads demo_held" "retired (own demo_released)" "threads demo_released = {#}"
    by (simp_all add: demo_held_def demo_released_def demo_machine_def)
  have r: "own_reach True demo_released" by (rule reach_steps [OF demo_retired_run demo_retired_reach])
  show ?thesis
    by (intro exI [of _ demo_held] exI [of _ demo_released])
       (use h r demo_held_reach mapping_lifetime [OF demo_held_reach] mapping_lifetime [OF r] in auto)
qed

end
