(* ===== verification/Store.thy ===== *)
theory Store
  imports Manifest Reader Lease
begin

text \<open>
  The group store: \<^verbatim>\<open>internal/storage/store.go\<close>, \<^verbatim>\<open>snapshot.go\<close>, \<^verbatim>\<open>receipts.go\<close> and
  \<^verbatim>\<open>retention.go\<close>, over the manifest and the group parser.

  Group entries are shared between the index and the snapshots that hold them, so they live in a heap, \<open>entries\<close>: an address is a
  position in it, the index and a snapshot are lists of addresses, and an entry is never moved.  The directory is the map \<open>files\<close>
  from the names a store uses to their bytes; what the operating system answers is the argument \<open>io\<close>.  Each operation is one call run
  under the store's lock; the interleavings inside an entry's counters are the subject of the theory \<open>Lease\<close>.

  \<^verbatim>\<open>sort.Slice\<close> leaves the order of equal keys open, so the sort is the argument \<open>srt\<close>.  The open hook and the
  fault hook are nil in production and left out; a panic of the group parser would be the error \<open>Panicked\<close>, and the parser has none.
\<close>

section \<open>Write receipts\<close>

record receiptSet =
  seen :: "bytes set"
  order :: "bytes list"

definition maxReceipts :: nat where
  "maxReceipts = 65536"

definition newReceiptSet :: receiptSet where
  "newReceiptSet = \<lparr>seen = {}, order = []\<rparr>"

definition has :: "receiptSet \<Rightarrow> bytes \<Rightarrow> bool" where
  "has rs i \<longleftrightarrow> i \<noteq> [] \<and> i \<in> seen rs"

fun evict :: "bytes set \<Rightarrow> bytes list \<Rightarrow> receiptSet" where
  "evict sn [] = \<lparr>seen = sn, order = []\<rparr>"
| "evict sn (x # xs) = (if length (x # xs) > maxReceipts then evict (sn - {x}) xs else \<lparr>seen = sn, order = x # xs\<rparr>)"

definition add_receipt :: "receiptSet \<Rightarrow> bytes \<Rightarrow> receiptSet" where
  "add_receipt rs i = (if i = [] \<or> i \<in> seen rs then rs else evict (insert i (seen rs)) (order rs @ [i]))"

definition receipt_count :: "receiptSet \<Rightarrow> nat" where
  "receipt_count rs = card (seen rs)"

definition hex_digit :: "byte \<Rightarrow> bool" where
  "hex_digit c \<longleftrightarrow> (48 \<le> c \<and> c \<le> 57) \<or> (97 \<le> c \<and> c \<le> 102) \<or> (65 \<le> c \<and> c \<le> 70)"

definition ValidWriteID :: "bytes \<Rightarrow> bool" where
  "ValidWriteID i \<longleftrightarrow> \<not> (length i < 8 \<or> length i > 64) \<and> list_all hex_digit i"

section \<open>The store\<close>

text \<open>The two kinds of name a store gives a group: \<^verbatim>\<open>group-N.bin\<close>, and the staging name of a group being adopted.\<close>

datatype path = GroupFile u64 | StagedFile u64

record groupEntry = ownership +
  ge_id :: u64
  ge_path :: path
  reader :: Reader
  timeMin :: u64
  timeMax :: u64

record Store =
  entries :: "groupEntry list"
  groups :: "nat list"
  nextID :: u64
  closed :: bool
  man :: man_state
  receipts :: receiptSet
  tombstones :: "path list"
  files :: "path \<Rightarrow> bytes option"
  retentionFailures :: nat
  pendingTombstones :: int
  sizeBytes :: int
  sizeAt :: int

datatype store_error = ErrDuplicateWrite | ErrStoreClosed | FileNotWritten | MmapFailed | BadGroup corruption | Panicked
  | Refused | RenameFailed | DirSyncFailed | CommitFailed man_error

record store_io =
  io_file :: atomic_outcome
  io_mmap :: bool
  io_rename :: bool
  io_dirsync :: bool
  io_unlink :: "path \<Rightarrow> bool"
  io_retry :: "path \<Rightarrow> bool"
  io_commit :: commit_io

type_synonym sorter = "(nat \<Rightarrow> int) \<Rightarrow> nat list \<Rightarrow> nat list"

definition new_entry :: "u64 \<Rightarrow> path \<Rightarrow> Reader \<Rightarrow> groupEntry" where
  "new_entry i p r = \<lparr>refs = 0, retired = False, unmapped = False, ge_id = i, ge_path = p, reader = r, timeMin = TimeMin r, timeMax = TimeMax r\<rparr>"

definition entry_at :: "Store \<Rightarrow> nat \<Rightarrow> groupEntry" where
  "entry_at s a = entries s ! a"

definition sortGroups :: "sorter \<Rightarrow> Store \<Rightarrow> Store" where
  "sortGroups srt s = s\<lparr>groups := srt (\<lambda>a. sint (timeMin (entry_at s a))) (groups s)\<rparr>"

definition noteGrowth :: "int \<Rightarrow> Store \<Rightarrow> Store" where
  "noteGrowth n s = (if n \<le> 0 then s else if sizeAt s = 0 then s else s\<lparr>sizeBytes := sizeBytes s + n\<rparr>)"

section \<open>Appending\<close>

text \<open>\<^verbatim>\<open>mmapFile\<close> and \<^verbatim>\<open>ReadGroup\<close>.\<close>

definition map_group :: "store_io \<Rightarrow> path \<Rightarrow> Store \<Rightarrow> store_error + Reader" where
  "map_group io p s = (if \<not> io_mmap io then Inl MmapFailed else case files s p of None \<Rightarrow> Inl MmapFailed | Some b \<Rightarrow>
     (case ReadGroup b of None \<Rightarrow> Inl Panicked | Some (Inl c) \<Rightarrow> Inl (BadGroup c) | Some (Inr r) \<Rightarrow> Inr r))"

definition is_rollback :: "store_error \<Rightarrow> bool" where
  "is_rollback e = (case e of CommitFailed (RollbackFailed _) \<Rightarrow> True | _ \<Rightarrow> False)"

definition discardUncommitted :: "store_io \<Rightarrow> path \<Rightarrow> u64 \<Rightarrow> store_error \<Rightarrow> Store \<Rightarrow> Store" where
  "discardUncommitted io p i e s = (if is_rollback e then s else if isVisible (fst (man s)) i then s
     else if io_unlink io p then s\<lparr>files := (files s)(p := None)\<rparr> else s)"

definition discard :: "store_io \<Rightarrow> path \<Rightarrow> u64 \<Rightarrow> store_error \<Rightarrow> Store \<Rightarrow> (store_error + u64) \<times> Store" where
  "discard io p i e s = (Inl e, discardUncommitted io p i e s)"

text \<open>The critical section of \<^verbatim>\<open>commitGroupFile\<close>.\<close>

definition commit_locked :: "sorter \<Rightarrow> store_io \<Rightarrow> path \<Rightarrow> u64 \<Rightarrow> int \<Rightarrow> bytes \<Rightarrow> Reader \<Rightarrow> Store \<Rightarrow> (store_error + u64) \<times> Store" where
  "commit_locked srt io final i sz wid r s = (
     if wid \<noteq> [] \<and> has (receipts s) wid then discard io final i ErrDuplicateWrite s
     else (case commit (io_commit io) [i] [] wid (man s) of
       (Some e, m) \<Rightarrow> discard io final i (CommitFailed e) (s\<lparr>man := m\<rparr>)
     | (None, m) \<Rightarrow>
         let s1 = s\<lparr>man := m\<rparr>;
             s2 = (if wid \<noteq> [] then s1\<lparr>receipts := add_receipt (receipts s1) wid\<rparr> else s1);
             s3 = s2\<lparr>groups := groups s2 @ [length (entries s2)], entries := entries s2 @ [new_entry i final r]\<rparr> in
         (Inr i, noteGrowth sz (sortGroups srt s3))))"

definition commitGroupFile :: "sorter \<Rightarrow> store_io \<Rightarrow> path \<Rightarrow> path \<Rightarrow> u64 \<Rightarrow> int \<Rightarrow> bytes \<Rightarrow> (Reader \<Rightarrow> bool) \<Rightarrow> Store
    \<Rightarrow> (store_error + u64) \<times> Store" where
  "commitGroupFile srt io staged final i sz wid checks s = (case map_group io staged s of
     Inl e \<Rightarrow> discard io staged i e s
   | Inr r \<Rightarrow>
       if \<not> checks r then discard io staged i Refused s
       else if staged \<noteq> final then
         if \<not> io_rename io then discard io staged i RenameFailed s
         else (let s1 = s\<lparr>files := (files s)(final := files s staged, staged := None)\<rparr> in
           if \<not> io_dirsync io then discard io final i DirSyncFailed s1
           else commit_locked srt io final i sz wid r s1)
       else commit_locked srt io final i sz wid r s)"

definition appendBlob :: "sorter \<Rightarrow> store_io \<Rightarrow> bytes \<Rightarrow> bytes \<Rightarrow> Store \<Rightarrow> (store_error + u64) \<times> Store" where
  "appendBlob srt io b wid s = (let i = nextID s; s1 = s\<lparr>nextID := nextID s + 1\<rparr>; final = GroupFile i in
     case io_file io of
       AtomicErrOld \<Rightarrow> discard io final i FileNotWritten s1
     | AtomicErrNew \<Rightarrow> discard io final i FileNotWritten (s1\<lparr>files := (files s1)(final \<mapsto> b)\<rparr>)
     | AtomicOK \<Rightarrow> commitGroupFile srt io final final i (int (length b)) wid (\<lambda>_. True) (s1\<lparr>files := (files s1)(final \<mapsto> b)\<rparr>))"

definition appendGroupWithReceipt :: "group_kernels \<Rightarrow> sorter \<Rightarrow> store_io \<Rightarrow> Group \<Rightarrow> bytes \<Rightarrow> Store \<Rightarrow> ((store_error + u64) \<times> Store) option" where
  "appendGroupWithReceipt K srt io g wid s = do { b \<leftarrow> Marshal K g; Some (appendBlob srt io b wid s) }"

definition AppendGroup :: "group_kernels \<Rightarrow> sorter \<Rightarrow> store_io \<Rightarrow> Group \<Rightarrow> Store \<Rightarrow> ((store_error + u64) \<times> Store) option" where
  "AppendGroup K srt io g s = appendGroupWithReceipt K srt io g [] s"

definition AppendGroupIdempotent :: "group_kernels \<Rightarrow> sorter \<Rightarrow> store_io \<Rightarrow> Group \<Rightarrow> bytes \<Rightarrow> Store \<Rightarrow> ((store_error + u64) \<times> Store) option" where
  "AppendGroupIdempotent K srt io g wid s = (if wid = [] then AppendGroup K srt io g s
     else if has (receipts s) wid then Some (Inl ErrDuplicateWrite, s)
     else appendGroupWithReceipt K srt io g wid s)"

definition CommittedWrite :: "Store \<Rightarrow> bytes \<Rightarrow> bool" where
  "CommittedWrite s wid = has (receipts s) wid"

definition CommitReceipt :: "store_io \<Rightarrow> bytes \<Rightarrow> Store \<Rightarrow> store_error option \<times> Store" where
  "CommitReceipt io wid s = (if wid = [] then (None, s) else if has (receipts s) wid then (None, s)
     else (case commit (io_commit io) [] [] wid (man s) of
       (Some e, m) \<Rightarrow> (Some (CommitFailed e), s\<lparr>man := m\<rparr>)
     | (None, m) \<Rightarrow> (None, s\<lparr>man := m, receipts := add_receipt (receipts s) wid\<rparr>)))"

definition CommitRemoval :: "store_io \<Rightarrow> u64 list \<Rightarrow> Store \<Rightarrow> store_error option \<times> Store" where
  "CommitRemoval io ids s = (case commit (io_commit io) [] ids [] (man s) of (e, m) \<Rightarrow> (map_option CommitFailed e, s\<lparr>man := m\<rparr>))"

section \<open>Snapshots\<close>

record Snapshot =
  snap_entries :: "nat list"
  snap_closed :: bool

text \<open>The readers and the ids of a snapshot, index for index.\<close>

definition snap_Groups :: "Store \<Rightarrow> Snapshot \<Rightarrow> Reader list" where
  "snap_Groups s sn = map (\<lambda>a. reader (entry_at s a)) (snap_entries sn)"

definition snap_GroupIDs :: "Store \<Rightarrow> Snapshot \<Rightarrow> u64 list" where
  "snap_GroupIDs s sn = map (\<lambda>a. ge_id (entry_at s a)) (snap_entries sn)"

definition EmptySnapshot :: Snapshot where
  "EmptySnapshot = \<lparr>snap_entries = [], snap_closed = False\<rparr>"

definition on_entry :: "(groupEntry \<Rightarrow> bool \<times> groupEntry) \<Rightarrow> nat \<Rightarrow> Store \<Rightarrow> bool \<times> Store" where
  "on_entry f a s = (case f (entry_at s a) of (b, e) \<Rightarrow> (b, s\<lparr>entries := (entries s)[a := e]\<rparr>))"

text \<open>The loop the three snapshots share: entries that are wanted and can be acquired, in index order.\<close>

fun lease :: "(groupEntry \<Rightarrow> bool) \<Rightarrow> nat list \<Rightarrow> Store \<Rightarrow> nat list \<times> Store" where
  "lease want [] s = ([], s)"
| "lease want (a # as) s = (if \<not> want (entry_at s a) then lease want as s else
     (case on_entry acquire a s of
        (False, s1) \<Rightarrow> lease want as s1
      | (True, s1) \<Rightarrow> (case lease want as s1 of (held, s2) \<Rightarrow> (a # held, s2))))"

definition take_snapshot :: "(groupEntry \<Rightarrow> bool) \<Rightarrow> Store \<Rightarrow> (store_error + Snapshot) \<times> Store" where
  "take_snapshot want s = (if closed s then (Inl ErrStoreClosed, s) else
     (case lease want (groups s) s of (held, s1) \<Rightarrow> (Inr \<lparr>snap_entries = held, snap_closed = False\<rparr>, s1)))"

definition SnapshotOf :: "u64 \<Rightarrow> u64 \<Rightarrow> Store \<Rightarrow> (store_error + Snapshot) \<times> Store" where
  "SnapshotOf from to s = take_snapshot (\<lambda>e. TimeRangeMatches (reader e) from to) s"

definition SnapshotAllWithSeq :: "Store \<Rightarrow> (store_error + Snapshot \<times> u64) \<times> Store" where
  "SnapshotAllWithSeq s = (case take_snapshot (\<lambda>_. True) s of
     (Inl e, s1) \<Rightarrow> (Inl e, s1) | (Inr sn, s1) \<Rightarrow> (Inr (sn, m_seq (fst (man s))), s1))"

definition next_cursor :: "u64 list \<Rightarrow> u64 \<Rightarrow> u64" where
  "next_cursor ids c = foldl (\<lambda>n i. if i + 1 > n then i + 1 else n) c ids"

definition SnapshotAfterID :: "u64 \<Rightarrow> Store \<Rightarrow> (store_error + Snapshot \<times> u64) \<times> Store" where
  "SnapshotAfterID cur s = (case take_snapshot (\<lambda>e. \<not> ge_id e < cur) s of
     (Inl e, s1) \<Rightarrow> (Inl e, s1)
   | (Inr sn, s1) \<Rightarrow> (Inr (sn, next_cursor (snap_GroupIDs s1 sn) cur), s1))"

definition on_entries :: "(groupEntry \<Rightarrow> bool \<times> groupEntry) \<Rightarrow> nat list \<Rightarrow> Store \<Rightarrow> Store" where
  "on_entries f as s = foldl (\<lambda>s a. snd (on_entry f a s)) s as"

definition snap_Close :: "Snapshot \<Rightarrow> Store \<Rightarrow> Snapshot \<times> Store" where
  "snap_Close sn s = (if snap_closed sn then (sn, s)
     else (\<lparr>snap_entries = [], snap_closed = True\<rparr>, on_entries release (snap_entries sn) s))"

section \<open>Retention\<close>

text \<open>\<^verbatim>\<open>os.Remove\<close>: a file that is not there counts as removed.\<close>

definition unlink :: "(path \<Rightarrow> bool) \<Rightarrow> path \<Rightarrow> Store \<Rightarrow> bool \<times> Store" where
  "unlink ok p s = (if files s p = None then (True, s) else if ok p then (True, s\<lparr>files := (files s)(p := None)\<rparr>) else (False, s))"

definition addTombstone :: "path \<Rightarrow> Store \<Rightarrow> Store" where
  "addTombstone p s = s\<lparr>tombstones := tombstones s @ [p]\<rparr>"

definition retry_one :: "(path \<Rightarrow> bool) \<Rightarrow> path list \<times> Store \<Rightarrow> path \<Rightarrow> path list \<times> Store" where
  "retry_one ok = (\<lambda>(still, s) p. case unlink ok p s of
     (False, s1) \<Rightarrow> (still @ [p], s1) | (True, s1) \<Rightarrow> (still, s1\<lparr>pendingTombstones := pendingTombstones s1 - 1\<rparr>))"

definition retryTombstones :: "(path \<Rightarrow> bool) \<Rightarrow> Store \<Rightarrow> Store" where
  "retryTombstones ok s = (case foldl (retry_one ok) ([], s\<lparr>tombstones := []\<rparr>) (tombstones s) of
     (still, s1) \<Rightarrow> s1\<lparr>tombstones := tombstones s1 @ still\<rparr>)"

definition drop_one :: "(path \<Rightarrow> bool) \<Rightarrow> nat \<times> Store \<Rightarrow> path \<Rightarrow> nat \<times> Store" where
  "drop_one ok = (\<lambda>(n, s) p. case unlink ok p s of
     (True, s1) \<Rightarrow> (n + 1, s1)
   | (False, s1) \<Rightarrow> (n, addTombstone p (s1\<lparr>retentionFailures := retentionFailures s1 + 1, pendingTombstones := pendingTombstones s1 + 1\<rparr>)))"

definition dropGroups :: "store_io \<Rightarrow> (groupEntry \<Rightarrow> bool) \<Rightarrow> Store \<Rightarrow> nat \<times> Store" where
  "dropGroups io match s = (
     let victims = filter (\<lambda>a. match (entry_at s a)) (groups s);
         kept = filter (\<lambda>a. \<not> match (entry_at s a)) (groups s) in
     if victims = [] then (0, retryTombstones (io_retry io) s)
     else (case commit (io_commit io) [] (map (\<lambda>a. ge_id (entry_at s a)) victims) [] (man s) of
       (Some e, m) \<Rightarrow> (0, s\<lparr>man := m, retentionFailures := retentionFailures s + 1\<rparr>)
     | (None, m) \<Rightarrow>
         let s1 = on_entries retire victims (s\<lparr>man := m, groups := kept\<rparr>);
             (n, s2) = foldl (drop_one (io_unlink io)) (0, s1) (map (\<lambda>a. ge_path (entry_at s a)) victims) in
         (n, retryTombstones (io_retry io) s2)))"

definition DropGroupsBefore :: "store_io \<Rightarrow> u64 \<Rightarrow> Store \<Rightarrow> nat \<times> Store" where
  "DropGroupsBefore io cutoff s = dropGroups io (\<lambda>e. sint (timeMax e) < sint cutoff) s"

text \<open>Closing the store also closes the manifest's handle; the directory lock is outside the model.\<close>

definition store_Close :: "Store \<Rightarrow> Store" where
  "store_Close s = (let s1 = on_entries retire (groups s) (s\<lparr>closed := True\<rparr>) in
     s1\<lparr>groups := [], man := ((fst (man s1))\<lparr>m_open := False\<rparr>, snd (man s1))\<rparr>)"

section \<open>Queries of the index\<close>

definition Groups :: "u64 \<Rightarrow> u64 \<Rightarrow> Store \<Rightarrow> Reader list" where
  "Groups from to s = filter (\<lambda>r. TimeRangeMatches r from to) (map (\<lambda>a. reader (entry_at s a)) (groups s))"

definition store_Len :: "Store \<Rightarrow> nat" where
  "store_Len s = length (groups s)"

definition TotalRows :: "Store \<Rightarrow> nat" where
  "TotalRows s = sum_list (map (\<lambda>a. Rows (reader (entry_at s a))) (groups s))"

definition TailCursor :: "Store \<Rightarrow> u64" where
  "TailCursor s = next_cursor (map (\<lambda>a. ge_id (entry_at s a)) (groups s)) 0"

definition GroupsAfterID :: "u64 \<Rightarrow> Store \<Rightarrow> Reader list \<times> u64" where
  "GroupsAfterID cur s = (let as = filter (\<lambda>a. ge_id (entry_at s a) \<ge> cur) (groups s) in
     (map (\<lambda>a. reader (entry_at s a)) as, next_cursor (map (\<lambda>a. ge_id (entry_at s a)) as) cur))"

definition NewestTimestamp :: "Store \<Rightarrow> u64" where
  "NewestTimestamp s = foldl (\<lambda>n a. if sint (timeMax (entry_at s a)) > sint n then timeMax (entry_at s a) else n) 0 (groups s)"

section \<open>Entries of the heap\<close>

text \<open>Applying one operation at several addresses, as a function of the heap alone.\<close>

definition upd :: "(groupEntry \<Rightarrow> bool \<times> groupEntry) \<Rightarrow> nat list \<Rightarrow> groupEntry list \<Rightarrow> groupEntry list" where
  "upd f as E = foldl (\<lambda>E a. E[a := snd (f (E ! a))]) E as"

lemma upd_simps [simp]: "upd f [] E = E" "upd f (a # as) E = upd f as (E[a := snd (f (E ! a))])"
  by (simp_all add: upd_def)

lemma length_upd [simp]: "length (upd f as E) = length E"
  by (induction as arbitrary: E) simp_all

lemma upd_nth:
  "distinct as \<Longrightarrow> set as \<subseteq> {..<length E} \<Longrightarrow> b < length E \<Longrightarrow> upd f as E ! b = (if b \<in> set as then snd (f (E ! b)) else E ! b)"
proof (induction as arbitrary: E)
  case (Cons a as)
  then show ?case by (auto simp: nth_list_update)
qed simp

lemma on_entry_eq: "on_entry f a s = (fst (f (entries s ! a)), s\<lparr>entries := (entries s)[a := snd (f (entries s ! a))]\<rparr>)"
  by (simp add: on_entry_def entry_at_def split: prod.split)

lemma on_entries_eq: "on_entries f as s = s\<lparr>entries := upd f as (entries s)\<rparr>"
proof (induction as arbitrary: s)
  case (Cons a as)
  then show ?case by (simp add: on_entries_def on_entry_eq)
qed (simp add: on_entries_def)

text \<open>On an index none of whose entries is released, the leasing loop takes exactly the entries it wants.\<close>

lemma lease_index:
  "distinct as \<Longrightarrow> set as \<subseteq> {..<length (entries s)} \<Longrightarrow> \<forall>a \<in> set as. 0 \<le> refs (entries s ! a) \<Longrightarrow>
     lease want as s = (let held = filter (\<lambda>a. want (entries s ! a)) as in (held, s\<lparr>entries := upd acquire held (entries s)\<rparr>))"
proof (induction as arbitrary: s)
  case (Cons a as)
  have a: "a < length (entries s)" "a \<notin> set as" "0 \<le> refs (entries s ! a)" using Cons.prems by auto
  let ?s = "s\<lparr>entries := (entries s)[a := snd (acquire (entries s ! a))]\<rparr>"
  have n: "entries ?s ! b = entries s ! b" if "b \<in> set as" for b using that a by (auto simp: nth_list_update)
  have f: "filter (\<lambda>b. want (entries ?s ! b)) as = filter (\<lambda>b. want (entries s ! b)) as" by (rule filter_cong) (use n in simp_all)
  have "lease want as ?s = (let held = filter (\<lambda>b. want (entries ?s ! b)) as in (held, ?s\<lparr>entries := upd acquire held (entries ?s)\<rparr>))"
    using Cons.prems n by (intro Cons.IH) auto
  then have 1: "lease want as ?s = (filter (\<lambda>b. want (entries s ! b)) as,
      s\<lparr>entries := upd acquire (filter (\<lambda>b. want (entries s ! b)) as) (entries ?s)\<rparr>)"
    unfolding f Let_def by simp
  have 2: "fst (acquire (entries s ! a))" using a(3) by (simp add: acquire_def)
  show ?case
  proof (cases "want (entries s ! a)")
    case True
    then show ?thesis using 1 2 by (simp add: entry_at_def on_entry_eq Let_def)
  next
    case False
    have "lease want as s = (let held = filter (\<lambda>a. want (entries s ! a)) as in (held, s\<lparr>entries := upd acquire held (entries s)\<rparr>))"
      using Cons.prems by (intro Cons.IH) auto
    then show ?thesis using False by (simp add: entry_at_def)
  qed
qed simp

section \<open>What a commit does to the manifest in memory\<close>

definition mem :: "man_state \<Rightarrow> u64 set \<times> bytes list" where
  "mem s = (m_visible (fst s), m_receipts (fst s))"

lemma mem_frame [simp]:
  "mem (m\<lparr>m_open := x\<rparr>, f) = mem (m, f)" "mem (m\<lparr>m_seq := q\<rparr>, f) = mem (m, f)" "mem (m\<lparr>m_records := n\<rparr>, f) = mem (m, f)"
  by (simp_all add: mem_def)

lemma mem_file: "mem (m, f) = mem (m, f')"
  by (simp add: mem_def)

lemma ensureOpen_mem: "mem (snd (ensureOpen io s)) = mem s"
  by (cases s) (simp add: ensureOpen_def mem_def)

lemma man_reopen_mem: "mem (man_reopen io s) = mem s"
  by (cases s) (simp add: man_reopen_def mem_def)

lemma truncateTo_mem: "mem (snd (truncateTo io off s)) = mem s"
proof (cases "ensureOpen io s" rule: prod.exhaust)
  case (Pair e s1)
  then show ?thesis using ensureOpen_mem [of io s] by (cases s1) (simp add: truncateTo_def Let_def mem_def split: option.split)
qed

lemma man_rollback_mem: "fst (man_rollback io off err s) \<noteq> None" "mem (snd (man_rollback io off err s)) = mem s"
  using truncateTo_mem [of io off s] by (cases "truncateTo io off s"; simp add: man_rollback_def)+

lemma compact_mem: "mem (snd (compact io s)) = mem s"
proof (cases "ensureOpen io s" rule: prod.exhaust)
  case (Pair e s1)
  then show ?thesis using ensureOpen_mem [of io s]
    by (cases s1; cases "io_atomic io") (simp_all add: compact_def Let_def man_reopen_mem mem_file [of _ "Some _" "snd s1"] split: option.split)
qed

lemma man_apply_mem:
  "m_visible (man_apply m r) = (m_visible m \<union> set (recAdd r)) - set (recRemove r)"
  "m_receipts (man_apply m r) = m_receipts m @ (if recReceipt r = [] then [] else [recReceipt r])"
  by (simp_all add: man_apply_def foldl_man_add foldl_man_remove Let_def)

lemma commit_mem:
  assumes "commit io add remove receipt s = (e, s')" and "\<not> io_hook_sync io"
  shows "mem s' = (if e = None then ((m_visible (fst s) \<union> set add) - set remove,
      m_receipts (fst s) @ (if receipt = [] then [] else [receipt])) else mem s)"
proof (cases "ensureOpen io s" rule: prod.exhaust)
  case eo: (Pair e1 s1)
  obtain m f where s1: "s1 = (m, f)" by (cases s1)
  have m: "mem (m, f) = mem s" for f using ensureOpen_mem [of io s] eo s1 by (simp add: mem_def)
  show ?thesis
  proof (cases "e1 \<noteq> None \<or> \<not> io_stat io \<or> io_write io \<noteq> None \<or> io_hook_write io \<or> \<not> io_sync io")
    case True
    have rb: "man_rollback io off err (m, f') = (e, s') \<Longrightarrow> e \<noteq> None \<and> mem s' = mem s" for off err f'
      using man_rollback_mem [of io off err "(m, f')"] m by simp
    show ?thesis using True assms eo s1 rb m
      by (cases e1) (auto simp: commit_def Let_def split: option.splits if_splits)
  next
    case False
    define r where "r = \<lparr>recSeq = m_seq m + 1, recAdd = add, recRemove = remove, recReceipt = receipt\<rparr>"
    define m1 where "m1 = man_apply (m\<lparr>m_seq := m_seq m + 1\<rparr>) r"
    define s2 where "s2 = (m1\<lparr>m_records := m_records m1 + 1\<rparr>, Some (file_bytes f @ encode r))"
    have c: "commit io add remove receipt s = (if m_records m1 + 1 \<ge> compactThreshold
        then (case compact io s2 of (Some _, s3) \<Rightarrow> (None, man_reopen io s3) | (None, (m3, f3)) \<Rightarrow> (None, (m3\<lparr>m_records := 0\<rparr>, f3)))
        else (None, s2))"
      using False assms(2) eo s1 by (simp add: commit_def Let_def r_def m1_def s2_def)
    have m2: "mem s2 = ((m_visible (fst s) \<union> set add) - set remove, m_receipts (fst s) @ (if receipt = [] then [] else [receipt]))"
      using m [of None] by (simp add: man_apply_mem r_def m1_def s2_def mem_def)
    obtain e3 m3 f3 where cp: "compact io s2 = (e3, (m3, f3))" by (metis prod.exhaust)
    then have "mem (m3, f3) = mem s2" using compact_mem [of io s2] by simp
    then show ?thesis using c cp assms(1) m2 by (cases e3) (auto simp: man_reopen_mem split: if_splits)
  qed
qed

section \<open>The invariant of the store and its snapshots\<close>

text \<open>How many open snapshots hold an address; a closed one holds nothing.\<close>

definition holds :: "Snapshot list \<Rightarrow> nat \<Rightarrow> nat" where
  "holds sns a = length (filter (\<lambda>sn. a \<in> set (snap_entries sn)) sns)"

definition entry_ok :: "nat \<Rightarrow> groupEntry \<Rightarrow> bool" where
  "entry_ok n e \<longleftrightarrow> (if unmapped e then n = 0 \<and> retired e \<and> refs e = parked else refs e = int n \<and> (retired e \<longrightarrow> 0 < n))"

definition heap_ok :: "Store \<Rightarrow> Snapshot list \<Rightarrow> bool" where
  "heap_ok s sns \<longleftrightarrow> (\<forall>a < length (entries s). entry_ok (holds sns a) (entries s ! a))
     \<and> (\<forall>sn \<in> set sns. distinct (snap_entries sn) \<and> set (snap_entries sn) \<subseteq> {..<length (entries s)} \<and> (snap_closed sn \<longrightarrow> snap_entries sn = []))"

definition ids_of :: "Store \<Rightarrow> u64 list" where
  "ids_of s = map (\<lambda>a. ge_id (entries s ! a)) (groups s)"

definition on_disk :: "Store \<Rightarrow> groupEntry \<Rightarrow> bool" where
  "on_disk s e \<longleftrightarrow> ge_path e = GroupFile (ge_id e) \<and> timeMin e = TimeMin (reader e) \<and> timeMax e = TimeMax (reader e)
     \<and> (\<exists>b. files s (ge_path e) = Some b \<and> ReadGroup b = Some (Inr (reader e)))"

definition index_ok :: "Store \<Rightarrow> bool" where
  "index_ok s \<longleftrightarrow> distinct (groups s) \<and> set (groups s) \<subseteq> {..<length (entries s)}
     \<and> (\<forall>a \<in> set (groups s). \<not> retired (entries s ! a) \<and> on_disk s (entries s ! a))
     \<and> distinct (ids_of s) \<and> (\<forall>i \<in> set (ids_of s). i < nextID s)
     \<and> sorted (map (\<lambda>a. sint (timeMin (entries s ! a))) (groups s))
     \<and> (closed s \<longrightarrow> groups s = [])
     \<and> (\<not> closed s \<longrightarrow> set (ids_of s) = m_visible (fst (man s)))
     \<and> (\<forall>p \<in> set (tombstones s). \<exists>i < nextID s. p = GroupFile i \<and> i \<notin> set (ids_of s))"

definition sorter_ok :: "sorter \<Rightarrow> bool" where
  "sorter_ok srt \<longleftrightarrow> (\<forall>k xs. mset (srt k xs) = mset xs \<and> sorted (map k (srt k xs)))"

text \<open>In production the fault hooks are not set.\<close>

definition production :: "store_io \<Rightarrow> bool" where
  "production io \<longleftrightarrow> \<not> io_hook_sync (io_commit io)"

inductive store_step :: "sorter \<Rightarrow> Store \<times> Snapshot list \<Rightarrow> Store \<times> Snapshot list \<Rightarrow> bool" for srt :: sorter where
  append: "\<not> closed s \<Longrightarrow> production io \<Longrightarrow> nextID s + 1 \<noteq> 0 \<Longrightarrow> store_step srt (s, sns) (snd (appendBlob srt io b wid s), sns)"
| receipt: "\<not> closed s \<Longrightarrow> production io \<Longrightarrow> store_step srt (s, sns) (snd (CommitReceipt io wid s), sns)"
| window: "SnapshotOf from to s = (Inr sn, s') \<Longrightarrow> store_step srt (s, sns) (s', sns @ [sn])"
| all: "SnapshotAllWithSeq s = (Inr (sn, q), s') \<Longrightarrow> store_step srt (s, sns) (s', sns @ [sn])"
| tail: "SnapshotAfterID cur s = (Inr (sn, nxt), s') \<Longrightarrow> store_step srt (s, sns) (s', sns @ [sn])"
| release: "i < length sns \<Longrightarrow> snap_Close (sns ! i) s = (sn, s') \<Longrightarrow> store_step srt (s, sns) (s', sns[i := sn])"
| drop: "\<not> closed s \<Longrightarrow> production io \<Longrightarrow> store_step srt (s, sns) (snd (dropGroups io match s), sns)"
| close: "store_step srt (s, sns) (store_Close s, sns)"

text \<open>An empty directory, freshly opened.\<close>

definition store_start :: "Store \<Rightarrow> bool" where
  "store_start s \<longleftrightarrow> entries s = [] \<and> groups s = [] \<and> tombstones s = [] \<and> \<not> closed s \<and> m_visible (fst (man s)) = {}"

inductive store_reach :: "sorter \<Rightarrow> Store \<times> Snapshot list \<Rightarrow> bool" for srt :: sorter where
  start: "store_start s \<Longrightarrow> store_reach srt (s, [])"
| step: "store_reach srt x \<Longrightarrow> store_step srt x y \<Longrightarrow> store_reach srt y"

lemmas store_inv_defs = heap_ok_def index_ok_def ids_of_def on_disk_def

text \<open>The three operations on an entry, at the count of its holders.\<close>

lemma acquire_ok: "entry_ok n e \<Longrightarrow> \<not> retired e \<Longrightarrow> fst (acquire e) \<and> entry_ok (Suc n) (snd (acquire e))"
  by (auto simp: entry_ok_def acquire_def split: if_splits)

lemma release_ok: "entry_ok (Suc n) e \<Longrightarrow> entry_ok n (snd (release e))"
  by (auto simp: entry_ok_def release_def unmapOnce_def Let_def split: if_splits)

lemma retire_ok: "entry_ok n e \<Longrightarrow> entry_ok n (snd (retire e)) \<and> retired (snd (retire e))"
  by (auto simp: entry_ok_def retire_def unmapOnce_def parked_def Let_def split: if_splits)

lemma own_frame:
  "snd (acquire e) = e\<lparr>refs := refs (snd (acquire e))\<rparr>"
  "snd (release e) = e\<lparr>refs := refs (snd (release e)), unmapped := unmapped (snd (release e))\<rparr>"
  "snd (retire e) = e\<lparr>refs := refs (snd (retire e)), unmapped := unmapped (snd (retire e)), retired := retired (snd (retire e))\<rparr>"
  by (simp_all add: acquire_def release_def retire_def unmapOnce_def Let_def)

lemma own_keeps [simp]:
  "ge_id (snd (acquire e)) = ge_id e" "ge_path (snd (acquire e)) = ge_path e" "reader (snd (acquire e)) = reader e"
  "timeMin (snd (acquire e)) = timeMin e" "timeMax (snd (acquire e)) = timeMax e" "retired (snd (acquire e)) = retired e"
  "ge_id (snd (release e)) = ge_id e" "ge_path (snd (release e)) = ge_path e" "reader (snd (release e)) = reader e"
  "timeMin (snd (release e)) = timeMin e" "timeMax (snd (release e)) = timeMax e" "retired (snd (release e)) = retired e"
  "ge_id (snd (retire e)) = ge_id e" "ge_path (snd (retire e)) = ge_path e" "reader (snd (retire e)) = reader e"
  "timeMin (snd (retire e)) = timeMin e" "timeMax (snd (retire e)) = timeMax e"
  by (simp_all add: acquire_def release_def retire_def unmapOnce_def Let_def)

text \<open>The index looks at an entry's identity and its retirement flag only.\<close>

definition same_entry :: "groupEntry \<Rightarrow> groupEntry \<Rightarrow> bool" where
  "same_entry e e' \<longleftrightarrow> ge_id e' = ge_id e \<and> ge_path e' = ge_path e \<and> reader e' = reader e \<and> timeMin e' = timeMin e
     \<and> timeMax e' = timeMax e \<and> retired e' = retired e"

lemma index_ok_cong:
  assumes "index_ok s" and "length (entries s) \<le> length E"
    and "\<And>a. a \<in> set (groups s) \<Longrightarrow> same_entry (entries s ! a) (E ! a)"
  shows "index_ok (s\<lparr>entries := E\<rparr>)"
proof -
  have n: "ids_of (s\<lparr>entries := E\<rparr>) = ids_of s" using assms(3) by (simp add: same_entry_def ids_of_def)
  have "map (\<lambda>a. sint (timeMin (E ! a))) (groups s) = map (\<lambda>a. sint (timeMin (entries s ! a))) (groups s)"
    using assms(3) by (simp add: same_entry_def)
  then have k: "sorted (map (\<lambda>a. sint (timeMin (E ! a))) (groups s)) = sorted (map (\<lambda>a. sint (timeMin (entries s ! a))) (groups s))"
    by (rule arg_cong)
  have "retired (E ! a) = retired (entries s ! a) \<and> (on_disk (s\<lparr>entries := E\<rparr>) (E ! a) \<longleftrightarrow> on_disk s (entries s ! a))"
    if "a \<in> set (groups s)" for a using assms(3) [OF that] by (simp add: same_entry_def on_disk_def)
  moreover have "set (groups s) \<subseteq> {..<length E}" using assms(1,2) by (auto simp: index_ok_def)
  ultimately show ?thesis using assms(1) k unfolding index_ok_def n by simp
qed

lemma index_ok_frame:
  assumes "index_ok s" and "entries s' = entries s" and "groups s' = groups s" and "closed s' = closed s"
    and "m_visible (fst (man s')) = m_visible (fst (man s))" and "nextID s \<le> nextID s'"
    and "\<And>i. i \<in> set (ids_of s) \<Longrightarrow> files s' (GroupFile i) = files s (GroupFile i)"
    and "\<And>p. p \<in> set (tombstones s') \<Longrightarrow> \<exists>i < nextID s'. p = GroupFile i \<and> i \<notin> set (ids_of s)"
  shows "index_ok s'"
proof -
  have n: "ids_of s' = ids_of s" using assms(2,3) by (simp add: ids_of_def)
  have d: "on_disk s' (entries s ! a)" if "a \<in> set (groups s)" for a
  proof -
    have "on_disk s (entries s ! a)" using assms(1) that by (simp add: index_ok_def)
    moreover have "ge_id (entries s ! a) \<in> set (ids_of s)" using that by (simp add: ids_of_def)
    ultimately show ?thesis using assms(7) by (auto simp: on_disk_def)
  qed
  have "i < nextID s'" if "i \<in> set (ids_of s)" for i using assms(1,6) that by (auto simp: index_ok_def)
  then show ?thesis using assms(1,8) d unfolding index_ok_def n assms(2-5) by simp
qed

lemma holds_append: "holds (sns @ [sn]) a = holds sns a + (if a \<in> set (snap_entries sn) then 1 else 0)"
  by (simp add: holds_def)

lemma holds_update:
  assumes "i < length sns" and "snap_entries sn = []"
  shows "holds sns a = holds (sns[i := sn]) a + (if a \<in> set (snap_entries (sns ! i)) then 1 else 0)"
proof -
  have "sns = take i sns @ sns ! i # drop (Suc i) sns" by (rule id_take_nth_drop [OF assms(1)])
  then have 1: "holds sns a = holds (take i sns @ sns ! i # drop (Suc i) sns) a" by (rule arg_cong [where f = "\<lambda>x. holds x a"])
  have 2: "sns[i := sn] = take i sns @ sn # drop (Suc i) sns" by (rule upd_conv_take_nth_drop [OF assms(1)])
  show ?thesis unfolding 1 2 by (simp add: holds_def assms(2))
qed

text \<open>A snapshot holds exactly the index entries it wants.\<close>

lemma snapshot_inv:
  assumes "heap_ok s sns" and "index_ok s" and "take_snapshot want s = (Inr sn, s')"
  shows "snap_entries sn = filter (\<lambda>a. want (entries s ! a)) (groups s)" and "heap_ok s' (sns @ [sn])" and "index_ok s'"
    and "\<exists>E. s' = s\<lparr>entries := E\<rparr> \<and> length E = length (entries s) \<and> (\<forall>a < length E. same_entry (entries s ! a) (E ! a))"
proof -
  let ?held = "filter (\<lambda>a. want (entries s ! a)) (groups s)" and ?E = "entries s"
  have g: "distinct (groups s)" "set (groups s) \<subseteq> {..<length ?E}" "\<And>a. a \<in> set (groups s) \<Longrightarrow> \<not> retired (?E ! a)"
    using assms(2) by (auto simp: index_ok_def)
  have ok: "\<And>a. a < length ?E \<Longrightarrow> entry_ok (holds sns a) (?E ! a)" using assms(1) by (simp add: heap_ok_def)
  have "0 \<le> refs (?E ! a)" if "a \<in> set (groups s)" for a
    using ok [of a] g(2,3) that by (auto simp: entry_ok_def split: if_splits)
  then have "lease want (groups s) s = (?held, s\<lparr>entries := upd acquire ?held ?E\<rparr>)"
    using lease_index [OF g(1,2)] by (simp add: Let_def)
  then have sn: "sn = \<lparr>snap_entries = ?held, snap_closed = False\<rparr>" and s': "s' = s\<lparr>entries := upd acquire ?held ?E\<rparr>"
    using assms(3) by (auto simp: take_snapshot_def split: if_splits)
  have h: "distinct ?held" "set ?held \<subseteq> {..<length ?E}" using g by auto
  note nth = upd_nth [OF h]
  show "snap_entries sn = ?held" by (simp add: sn)
  have "entry_ok (holds (sns @ [sn]) a) (upd acquire ?held ?E ! a)" if "a < length ?E" for a
    using nth [OF that] acquire_ok [OF ok [OF that]] g(3) ok [OF that] by (auto simp: holds_append sn)
  then show "heap_ok s' (sns @ [sn])" using assms(1) h by (auto simp: heap_ok_def s' sn)
  have same: "same_entry (?E ! a) (upd acquire ?held ?E ! a)" if "a < length ?E" for a
    using nth [OF that] by (simp add: same_entry_def)
  then show "index_ok s'" unfolding s' using g(2) by (intro index_ok_cong [OF assms(2)]) auto
  show "\<exists>E. s' = s\<lparr>entries := E\<rparr> \<and> length E = length (entries s) \<and> (\<forall>a < length E. same_entry (entries s ! a) (E ! a))"
    using same s' by (intro exI [of _ "upd acquire ?held ?E"]) simp
qed

lemma release_inv:
  assumes "heap_ok s sns" and "index_ok s" and "i < length sns" and "snap_Close (sns ! i) s = (sn, s')"
  shows "heap_ok s' (sns[i := sn])" and "index_ok s'"
proof -
  let ?old = "sns ! i" and ?E = "entries s"
  have m: "?old \<in> set sns" using assms(3) by simp
  then have h: "distinct (snap_entries ?old)" "set (snap_entries ?old) \<subseteq> {..<length ?E}" "snap_closed ?old \<longrightarrow> snap_entries ?old = []"
    using assms(1) by (simp_all add: heap_ok_def)
  have sn: "snap_entries sn = []" "s' = s\<lparr>entries := upd release (snap_entries ?old) ?E\<rparr>"
    using assms(4) h(3) by (auto simp: snap_Close_def on_entries_eq split: if_splits)
  have ok: "\<And>a. a < length ?E \<Longrightarrow> entry_ok (holds sns a) (?E ! a)" using assms(1) by (simp add: heap_ok_def)
  note nth = upd_nth [OF h(1,2)] and hold = holds_update [OF assms(3) sn(1)]
  have "entry_ok (holds (sns[i := sn]) a) (upd release (snap_entries ?old) ?E ! a)" if "a < length ?E" for a
    using nth [OF that] ok [OF that] hold [of a] release_ok [of "holds (sns[i := sn]) a" "?E ! a"] by (auto split: if_splits)
  moreover have "x \<in> set sns \<or> x = sn" if "x \<in> set (sns[i := sn])" for x using that set_update_subset_insert by fastforce
  ultimately show "heap_ok s' (sns[i := sn])" using assms(1) sn by (fastforce simp: heap_ok_def)
  have "same_entry (?E ! a) (upd release (snap_entries ?old) ?E ! a)" if "a < length ?E" for a
    using nth [OF that] by (simp add: same_entry_def)
  then show "index_ok s'" unfolding sn(2) using assms(2) by (intro index_ok_cong [OF assms(2)]) (auto simp: index_ok_def)
qed

text \<open>An abandoned append leaves the index alone; only the file of the abandoned id can go.\<close>

lemma discard_frame:
  "\<exists>F. snd (discard io p i e s) = s\<lparr>files := F\<rparr> \<and> (\<forall>q. q \<noteq> p \<longrightarrow> F q = files s q)"
  by (auto simp: discard_def discardUncommitted_def intro: exI [of _ "files s"] exI [of _ "(files s)(p := None)"])

lemma discard_inv:
  assumes "heap_ok s sns" and "index_ok s" and "i \<notin> set (ids_of s)"
  shows "heap_ok (snd (discard io (GroupFile i) i e s)) sns" and "index_ok (snd (discard io (GroupFile i) i e s))"
    and "ids_of (snd (discard io (GroupFile i) i e s)) = ids_of s"
proof -
  obtain F where F: "snd (discard io (GroupFile i) i e s) = s\<lparr>files := F\<rparr>" "\<And>q. q \<noteq> GroupFile i \<Longrightarrow> F q = files s q"
    using discard_frame by blast
  show "heap_ok (snd (discard io (GroupFile i) i e s)) sns" using assms(1) by (simp add: F heap_ok_def)
  show "ids_of (snd (discard io (GroupFile i) i e s)) = ids_of s" by (simp add: F ids_of_def)
  have "F (GroupFile j) = files s (GroupFile j)" if "j \<in> set (ids_of s)" for j using assms(3) that by (intro F(2)) auto
  moreover have "\<exists>j < nextID s. p = GroupFile j \<and> j \<notin> set (ids_of s)" if "p \<in> set (tombstones s)" for p
    using assms(2) that by (simp add: index_ok_def)
  ultimately show "index_ok (snd (discard io (GroupFile i) i e s))" unfolding F(1)
    by (intro index_ok_frame [OF assms(2)]) simp_all
qed

lemma noteGrowth_frame: "noteGrowth n s = s\<lparr>sizeBytes := sizeBytes (noteGrowth n s)\<rparr>"
  by (simp add: noteGrowth_def)

text \<open>Inserting the new group.\<close>

lemma insert_inv:
  assumes srt: "sorter_ok srt" and "heap_ok s sns" and "index_ok s" and "\<not> closed s"
    and new: "i \<notin> set (ids_of s)" "i < nextID s" "files s (GroupFile i) = Some b" "ReadGroup b = Some (Inr r)"
      "GroupFile i \<notin> set (tombstones s)" "m_visible (fst m) = insert i (m_visible (fst (man s)))"
    and n: "n = length (entries s)"
    and s3: "s3 = s\<lparr>man := m, receipts := rs, groups := groups s @ [n], entries := entries s @ [new_entry i (GroupFile i) r]\<rparr>"
    and s': "s' = noteGrowth sz (sortGroups srt s3)"
  shows "heap_ok s' sns" and "index_ok s'" and "set (ids_of s') = insert i (set (ids_of s))" and "n \<in> set (groups s')"
proof -
  let ?e = "new_entry i (GroupFile i) r" and ?G = "groups s'"
  have f: "entries s' = entries s @ [?e]" "?G = srt (\<lambda>a. sint (timeMin ((entries s @ [?e]) ! a))) (groups s @ [n])"
    "closed s' = closed s" "man s' = m" "tombstones s' = tombstones s" "files s' = files s" "nextID s' = nextID s"
    unfolding s' by (simp_all add: s3 noteGrowth_def sortGroups_def entry_at_def [abs_def])
  have G: "mset ?G = mset (groups s @ [n])" "sorted (map (\<lambda>a. sint (timeMin ((entries s @ [?e]) ! a))) ?G)"
    using srt unfolding f(2) by (simp_all add: sorter_ok_def)
  have g: "distinct (groups s)" "set (groups s) \<subseteq> {..<n}" using assms(3) by (auto simp: index_ok_def n)
  have old: "(entries s @ [?e]) ! a = entries s ! a" if "a \<in> set (groups s)" for a
    using that g(2) by (auto simp: nth_append n)
  have at_n: "(entries s @ [?e]) ! n = ?e" by (simp add: n)
  have setG: "set ?G = insert n (set (groups s))" using mset_eq_setD [OF G(1)] by simp
  then show "n \<in> set ?G" by simp
  have dG: "distinct ?G" using mset_eq_imp_distinct_iff [OF G(1)] g by auto
  have "mset (ids_of s') = mset (map (\<lambda>a. ge_id ((entries s @ [?e]) ! a)) (groups s @ [n]))"
    unfolding ids_of_def f(1) mset_map using G(1) by simp
  also have "map (\<lambda>a. ge_id ((entries s @ [?e]) ! a)) (groups s @ [n]) = ids_of s @ [i]"
    using old at_n by (simp add: ids_of_def) (simp add: new_entry_def)
  finally have ids: "mset (ids_of s') = mset (ids_of s @ [i])" .
  then show si: "set (ids_of s') = insert i (set (ids_of s))" using mset_eq_setD [OF ids] by simp
  have di: "distinct (ids_of s')" using mset_eq_imp_distinct_iff [OF ids] assms(3) new(1) by (simp add: index_ok_def)
  have disk: "\<not> retired ((entries s @ [?e]) ! a) \<and> on_disk s' ((entries s @ [?e]) ! a)" if "a \<in> set ?G" for a
  proof (cases "a = n")
    case True
    then show ?thesis using new(3,4) at_n by (simp add: on_disk_def new_entry_def f)
  next
    case False
    then have a: "a \<in> set (groups s)" using that setG by simp
    then have "\<not> retired (entries s ! a) \<and> on_disk s (entries s ! a)" using assms(3) by (simp add: index_ok_def)
    then show ?thesis unfolding old [OF a] by (auto simp: on_disk_def f)
  qed
  have tomb: "\<exists>j < nextID s'. p = GroupFile j \<and> j \<notin> set (ids_of s')" if "p \<in> set (tombstones s')" for p
    using that assms(3) new(5) by (fastforce simp: index_ok_def f si)
  have vis: "set (ids_of s') = m_visible (fst (man s'))" using si new(6) assms(3,4) by (simp add: f index_ok_def)
  have lt: "\<forall>j \<in> set (ids_of s'). j < nextID s'" using si new(2) assms(3) by (auto simp: f index_ok_def)
  show "index_ok s'" using dG di setG g(2) disk tomb vis lt G(2) assms(4)
    unfolding index_ok_def by (auto simp: f(1,3) n)
  have "holds sns n = 0" using assms(2) by (auto simp: holds_def heap_ok_def filter_empty_conv n)
  then have "entry_ok (holds sns a) ((entries s @ [?e]) ! a)" if "a < Suc n" for a
    using assms(2) that at_n by (cases "a = n") (auto simp: heap_ok_def nth_append n entry_ok_def new_entry_def)
  then show "heap_ok s' sns" using assms(2) by (fastforce simp: heap_ok_def f(1) n)
qed

lemma commit_locked_inv:
  assumes srt: "sorter_ok srt" and io: "production io" and "heap_ok s sns" and "index_ok s" and "\<not> closed s"
    and new: "i \<notin> set (ids_of s)" "i < nextID s" "files s (GroupFile i) = Some b" "ReadGroup b = Some (Inr r)"
      "GroupFile i \<notin> set (tombstones s)"
    and c: "commit_locked srt io (GroupFile i) i sz wid r s = (res, s')"
  shows "heap_ok s' sns" and "index_ok s'"
    and "(res = Inr i \<and> set (ids_of s') = insert i (set (ids_of s)) \<and> (wid \<noteq> [] \<longrightarrow> receipts s' = add_receipt (receipts s) wid))
      \<or> (\<exists>e. res = Inl e \<and> ids_of s' = ids_of s \<and> receipts s' = receipts s)"
proof -
  have "(heap_ok s' sns \<and> index_ok s') \<and> ((res = Inr i \<and> set (ids_of s') = insert i (set (ids_of s))
      \<and> (wid \<noteq> [] \<longrightarrow> receipts s' = add_receipt (receipts s) wid))
      \<or> (\<exists>e. res = Inl e \<and> ids_of s' = ids_of s \<and> receipts s' = receipts s))"
  proof (cases "wid \<noteq> [] \<and> has (receipts s) wid")
    case True
    then have "(res, s') = discard io (GroupFile i) i ErrDuplicateWrite s" using c by (simp add: commit_locked_def)
    then have "res = Inl ErrDuplicateWrite" "s' = snd (discard io (GroupFile i) i ErrDuplicateWrite s)"
      by (simp_all add: discard_def)
    moreover have "receipts (snd (discard io (GroupFile i) i ErrDuplicateWrite s)) = receipts s"
      by (simp add: discard_def discardUncommitted_def)
    ultimately show ?thesis using discard_inv [OF assms(3,4) new(1)] by auto
  next
    case False
    obtain e m where cm: "commit (io_commit io) [i] [] wid (man s) = (e, m)" by (metis prod.exhaust)
    have mem: "mem m = (if e = None then (insert i (m_visible (fst (man s))), m_receipts (fst (man s)) @ (if wid = [] then [] else [wid])) else mem (man s))"
      using commit_mem [OF cm] io by (simp add: production_def)
    show ?thesis
    proof (cases e)
      case (Some x)
      let ?s = "s\<lparr>man := m\<rparr>"
      have d: "(res, s') = discard io (GroupFile i) i (CommitFailed x) ?s" using False c cm Some by (auto simp: commit_locked_def split: if_splits)
      have "m_visible (fst m) = m_visible (fst (man s))" using mem Some by (simp add: mem_def)
      then have ok: "index_ok ?s" using assms(4) by (intro index_ok_frame [OF assms(4)]) (simp_all add: index_ok_def)
      have h: "heap_ok ?s sns" using assms(3) by (simp add: heap_ok_def)
      have ids: "ids_of ?s = ids_of s" by (simp add: ids_of_def)
      have "receipts (snd (discard io (GroupFile i) i (CommitFailed x) ?s)) = receipts s"
        by (simp add: discard_def discardUncommitted_def)
      moreover have "res = Inl (CommitFailed x)" "s' = snd (discard io (GroupFile i) i (CommitFailed x) ?s)"
        using d by (simp_all add: discard_def)
      ultimately show ?thesis using discard_inv [OF h ok, of i io "CommitFailed x"] new(1) ids by auto
    next
      case None
      define n where "n = length (entries s)"
      define rs where "rs = (if wid \<noteq> [] then add_receipt (receipts s) wid else receipts s)"
      define s3 where "s3 = s\<lparr>man := m, receipts := rs, groups := groups s @ [n], entries := entries s @ [new_entry i (GroupFile i) r]\<rparr>"
      have r: "res = Inr i" "s' = noteGrowth sz (sortGroups srt s3)"
        using False c cm None by (auto simp: commit_locked_def Let_def s3_def n_def rs_def split: if_splits)
      have v: "m_visible (fst m) = insert i (m_visible (fst (man s)))" using mem None by (simp add: mem_def)
      note ins = insert_inv [OF srt assms(3,4,5) new(1-5) v n_def s3_def r(2)]
      moreover have "receipts s' = rs" unfolding r(2) by (simp add: noteGrowth_def sortGroups_def s3_def)
      ultimately show ?thesis using r(1) by (simp add: rs_def)
    qed
  qed
  then show "heap_ok s' sns" "index_ok s'"
    "(res = Inr i \<and> set (ids_of s') = insert i (set (ids_of s)) \<and> (wid \<noteq> [] \<longrightarrow> receipts s' = add_receipt (receipts s) wid))
      \<or> (\<exists>e. res = Inl e \<and> ids_of s' = ids_of s \<and> receipts s' = receipts s)" by simp_all
qed

lemma append_inv:
  assumes srt: "sorter_ok srt" and io: "production io" and "heap_ok s sns" and "index_ok s" and "\<not> closed s" and "nextID s + 1 \<noteq> 0"
    and ap: "appendBlob srt io b wid s = (res, s')"
  shows "heap_ok s' sns" and "index_ok s'"
    and "(res = Inr (nextID s) \<and> set (ids_of s') = insert (nextID s) (set (ids_of s)) \<and> nextID s \<notin> set (ids_of s)
        \<and> (wid \<noteq> [] \<longrightarrow> receipts s' = add_receipt (receipts s) wid))
      \<or> (\<exists>e. res = Inl e \<and> ids_of s' = ids_of s \<and> receipts s' = receipts s)"
proof -
  let ?i = "nextID s"
  let ?s1 = "s\<lparr>nextID := ?i + 1\<rparr>"
  let ?s2 = "?s1\<lparr>files := (files s)(GroupFile ?i \<mapsto> b)\<rparr>"
  have lt: "?i < ?i + 1" using assms(6) unatSuc [of ?i] by (simp add: word_less_nat_alt add.commute)
  have fresh: "?i \<notin> set (ids_of s)" "GroupFile ?i \<notin> set (tombstones s)" using assms(4) by (auto simp: index_ok_def)
  have tomb: "\<exists>j < ?i + 1. p = GroupFile j \<and> j \<notin> set (ids_of s)" if "p \<in> set (tombstones s)" for p
    using assms(4) that lt by (meson index_ok_def less_trans)
  have 1: "index_ok ?s1" using lt tomb by (intro index_ok_frame [OF assms(4)]) simp_all
  have "(if GroupFile j = GroupFile ?i then Some b else files s (GroupFile j)) = files s (GroupFile j)" if "j \<in> set (ids_of s)" for j
    using fresh that by auto
  then have 2: "index_ok ?s2" using lt tomb by (intro index_ok_frame [OF assms(4)]) simp_all
  have h: "heap_ok ?s1 sns" "heap_ok ?s2 sns" using assms(3) by (simp_all add: heap_ok_def)
  have ids: "ids_of ?s1 = ids_of s" "ids_of ?s2 = ids_of s" by (simp_all add: ids_of_def)
  have rc: "receipts (snd (discard io p i e x)) = receipts x" for p i e x by (simp add: discard_def discardUncommitted_def)
  have gone: "heap_ok s' sns \<and> index_ok s' \<and> res = Inl e \<and> ids_of s' = ids_of s \<and> receipts s' = receipts s"
    if "(res, s') = discard io (GroupFile ?i) ?i e x" "x = ?s1 \<or> x = ?s2" for e x
  proof -
    have s': "res = Inl e" "s' = snd (discard io (GroupFile ?i) ?i e x)" using that(1) by (simp_all add: discard_def)
    have "heap_ok x sns" "index_ok x" "ids_of x = ids_of s" "receipts x = receipts s" using that(2) 1 2 h ids by auto
    then show ?thesis using discard_inv [of x sns ?i io e] fresh(1) s' rc by simp
  qed
  have "(heap_ok s' sns \<and> index_ok s') \<and> ((res = Inr ?i \<and> set (ids_of s') = insert ?i (set (ids_of s)) \<and> ?i \<notin> set (ids_of s)
        \<and> (wid \<noteq> [] \<longrightarrow> receipts s' = add_receipt (receipts s) wid))
      \<or> (\<exists>e. res = Inl e \<and> ids_of s' = ids_of s \<and> receipts s' = receipts s))"
  proof (cases "io_file io")
    case AtomicErrOld
    then have "(res, s') = discard io (GroupFile ?i) ?i FileNotWritten ?s1" using ap by (simp add: appendBlob_def Let_def)
    from gone [OF this] show ?thesis by simp
  next
    case AtomicErrNew
    then have "(res, s') = discard io (GroupFile ?i) ?i FileNotWritten ?s2" using ap by (simp add: appendBlob_def Let_def)
    from gone [OF this] show ?thesis by simp
  next
    case AtomicOK
    then have c: "commitGroupFile srt io (GroupFile ?i) (GroupFile ?i) ?i (int (length b)) wid (\<lambda>_. True) ?s2 = (res, s')"
      using ap by (simp add: appendBlob_def Let_def)
    show ?thesis
    proof (cases "map_group io (GroupFile ?i) ?s2")
      case (Inl e)
      then have "(res, s') = discard io (GroupFile ?i) ?i e ?s2" using c by (simp add: commitGroupFile_def)
      from gone [OF this] show ?thesis by simp
    next
      case (Inr r)
      then have cl: "commit_locked srt io (GroupFile ?i) ?i (int (length b)) wid r ?s2 = (res, s')"
        using c by (simp add: commitGroupFile_def)
      have "ReadGroup b = Some (Inr r)" using Inr by (auto simp: map_group_def split: if_splits option.splits sum.splits)
      then show ?thesis using commit_locked_inv [OF srt io h(2) 2 _ _ _ _ _ _ cl] assms(5) fresh lt ids by simp
    qed
  qed
  then show "heap_ok s' sns" "index_ok s'"
    "(res = Inr ?i \<and> set (ids_of s') = insert ?i (set (ids_of s)) \<and> ?i \<notin> set (ids_of s)
        \<and> (wid \<noteq> [] \<longrightarrow> receipts s' = add_receipt (receipts s) wid))
      \<or> (\<exists>e. res = Inl e \<and> ids_of s' = ids_of s \<and> receipts s' = receipts s)" by simp_all
qed

lemma receipt_inv:
  assumes "production io" and "heap_ok s sns" and "index_ok s"
  shows "heap_ok (snd (CommitReceipt io wid s)) sns" and "index_ok (snd (CommitReceipt io wid s))"
proof -
  obtain e m where c: "commit (io_commit io) [] [] wid (man s) = (e, m)" by (metis prod.exhaust)
  have v: "m_visible (fst m) = m_visible (fst (man s))" using commit_mem [OF c] assms(1) by (simp add: production_def mem_def split: if_splits)
  then have ok: "index_ok (s\<lparr>man := m\<rparr>)" "index_ok (s\<lparr>man := m, receipts := rs\<rparr>)" for rs
    using assms(3) by (intro index_ok_frame [OF assms(3)]; simp add: index_ok_def)+
  show "index_ok (snd (CommitReceipt io wid s))" using assms(3) ok c by (cases e) (simp_all add: CommitReceipt_def)
  show "heap_ok (snd (CommitReceipt io wid s)) sns" using assms(2) c by (cases e) (simp_all add: CommitReceipt_def heap_ok_def)
qed

text \<open>Unlinking touches only the files it is given, and keeps a tombstone for each it could not remove.\<close>

lemma unlink_frame: "\<exists>F. snd (unlink ok p s) = s\<lparr>files := F\<rparr> \<and> (\<forall>q. q \<noteq> p \<longrightarrow> F q = files s q)"
  by (auto simp: unlink_def intro: exI [of _ "files s"] exI [of _ "(files s)(p := None)"])

lemma retry_fold:
  "\<exists>F n. snd (foldl (retry_one ok) (still, s) ps) = s\<lparr>files := F, pendingTombstones := n\<rparr>
     \<and> (\<forall>q. q \<notin> set ps \<longrightarrow> F q = files s q) \<and> set (fst (foldl (retry_one ok) (still, s) ps)) \<subseteq> set still \<union> set ps"
proof (induction ps arbitrary: still s)
  case Nil
  then show ?case by (auto intro!: exI [of _ "files s"] exI [of _ "pendingTombstones s"])
next
  case (Cons p ps)
  obtain F where F: "snd (unlink ok p s) = s\<lparr>files := F\<rparr>" "\<And>q. q \<noteq> p \<Longrightarrow> F q = files s q" using unlink_frame by blast
  obtain b x where u: "unlink ok p s = (b, x)" by (metis prod.exhaust)
  then have x: "x = s\<lparr>files := F\<rparr>" using F(1) by simp
  let ?st = "if b then still else still @ [p]" and ?s = "if b then x\<lparr>pendingTombstones := pendingTombstones x - 1\<rparr> else x"
  have r: "retry_one ok (still, s) p = (?st, ?s)" using u by (simp add: retry_one_def)
  obtain F' n where F': "snd (foldl (retry_one ok) (?st, ?s) ps) = ?s\<lparr>files := F', pendingTombstones := n\<rparr>"
    "\<forall>q. q \<notin> set ps \<longrightarrow> F' q = files ?s q" "set (fst (foldl (retry_one ok) (?st, ?s) ps)) \<subseteq> set ?st \<union> set ps"
    using Cons.IH [of ?st ?s] by blast
  show ?case unfolding foldl.simps r using F' F(2) x
    by (intro exI [of _ F'] exI [of _ n]) (auto split: if_splits)
qed

lemma retry_frame:
  "\<exists>F n T. retryTombstones ok s = s\<lparr>files := F, pendingTombstones := n, tombstones := T\<rparr>
     \<and> (\<forall>q. q \<notin> set (tombstones s) \<longrightarrow> F q = files s q) \<and> set T \<subseteq> set (tombstones s)"
proof -
  let ?s = "s\<lparr>tombstones := []\<rparr>"
  obtain F n where f: "snd (foldl (retry_one ok) ([], ?s) (tombstones s)) = ?s\<lparr>files := F, pendingTombstones := n\<rparr>"
    "\<forall>q. q \<notin> set (tombstones s) \<longrightarrow> F q = files ?s q" "set (fst (foldl (retry_one ok) ([], ?s) (tombstones s))) \<subseteq> set [] \<union> set (tombstones s)"
    using retry_fold [of ok "[]" ?s "tombstones s"] by blast
  obtain T x where fx: "foldl (retry_one ok) ([], ?s) (tombstones s) = (T, x)" by (metis prod.exhaust)
  then show ?thesis using f by (intro exI [of _ F] exI [of _ n] exI [of _ T]) (simp add: retryTombstones_def)
qed

lemma drop_fold:
  "\<exists>F n T r. snd (foldl (drop_one ok) (k, s) ps) = s\<lparr>files := F, pendingTombstones := n, tombstones := T, retentionFailures := r\<rparr>
     \<and> (\<forall>q. q \<notin> set ps \<longrightarrow> F q = files s q) \<and> set T \<subseteq> set (tombstones s) \<union> set ps"
proof (induction ps arbitrary: k s)
  case Nil
  then show ?case
    by (auto intro!: exI [of _ "files s"] exI [of _ "pendingTombstones s"] exI [of _ "tombstones s"] exI [of _ "retentionFailures s"])
next
  case (Cons p ps)
  obtain F where F: "snd (unlink ok p s) = s\<lparr>files := F\<rparr>" "\<And>q. q \<noteq> p \<Longrightarrow> F q = files s q" using unlink_frame by blast
  obtain b x where u: "unlink ok p s = (b, x)" by (metis prod.exhaust)
  then have x: "x = s\<lparr>files := F\<rparr>" using F(1) by simp
  let ?s = "if b then x else addTombstone p (x\<lparr>retentionFailures := retentionFailures x + 1, pendingTombstones := pendingTombstones x + 1\<rparr>)"
  have r: "drop_one ok (k, s) p = (if b then k + 1 else k, ?s)" using u by (simp add: drop_one_def)
  obtain F' n T c where F': "snd (foldl (drop_one ok) (if b then k + 1 else k, ?s) ps)
      = ?s\<lparr>files := F', pendingTombstones := n, tombstones := T, retentionFailures := c\<rparr>"
    "\<forall>q. q \<notin> set ps \<longrightarrow> F' q = files ?s q" "set T \<subseteq> set (tombstones ?s) \<union> set ps"
    using Cons.IH [of "if b then k + 1 else k" ?s] by blast
  show ?case unfolding foldl.simps r using F' F(2) x
    by (intro exI [of _ F'] exI [of _ n] exI [of _ T] exI [of _ c]) (auto simp: addTombstone_def split: if_splits)
qed

lemma retry_inv:
  assumes "heap_ok s sns" and "index_ok s"
  shows "heap_ok (retryTombstones ok s) sns" and "index_ok (retryTombstones ok s)" and "ids_of (retryTombstones ok s) = ids_of s"
proof -
  obtain F n T where f: "retryTombstones ok s = s\<lparr>files := F, pendingTombstones := n, tombstones := T\<rparr>"
    "\<And>q. q \<notin> set (tombstones s) \<Longrightarrow> F q = files s q" "set T \<subseteq> set (tombstones s)" using retry_frame [of ok s] by blast
  have t: "\<exists>i < nextID s. p = GroupFile i \<and> i \<notin> set (ids_of s)" if "p \<in> set (tombstones s)" for p
    using assms(2) that by (simp add: index_ok_def)
  then have "F (GroupFile i) = files s (GroupFile i)" if "i \<in> set (ids_of s)" for i using that by (intro f(2)) auto
  then show "index_ok (retryTombstones ok s)" unfolding f(1) using t f(3) by (intro index_ok_frame [OF assms(2)]) auto
  show "heap_ok (retryTombstones ok s) sns" using assms(1) by (simp add: f(1) heap_ok_def)
  show "ids_of (retryTombstones ok s) = ids_of s" by (simp add: f(1) ids_of_def)
qed

text \<open>Taking entries out of the index and retiring them; the manifest has already forgotten them.\<close>

lemma retire_inv:
  assumes "heap_ok s sns" and "index_ok s"
    and "m_visible (fst m) = m_visible (fst (man s)) - (\<lambda>a. ge_id (entries s ! a)) ` {a \<in> set (groups s). P a}"
    and s': "s' = s\<lparr>man := m, groups := filter (\<lambda>a. \<not> P a) (groups s), entries := upd retire (filter P (groups s)) (entries s)\<rparr>"
  shows "heap_ok s' sns" and "index_ok s'" and "ids_of s' = map (\<lambda>a. ge_id (entries s ! a)) (filter (\<lambda>a. \<not> P a) (groups s))"
proof -
  let ?v = "filter P (groups s)" and ?k = "filter (\<lambda>a. \<not> P a) (groups s)" and ?E = "entries s"
  have g: "distinct (groups s)" "set (groups s) \<subseteq> {..<length ?E}" "distinct (ids_of s)" using assms(2) by (simp_all add: index_ok_def)
  have v: "distinct ?v" "set ?v \<subseteq> {..<length ?E}" using g by auto
  note nth = upd_nth [OF v]
  have same: "upd retire ?v ?E ! a = ?E ! a" if "a \<in> set ?k" for a using that nth [of a retire] g(2) by auto
  show ids: "ids_of s' = map (\<lambda>a. ge_id (?E ! a)) ?k" unfolding ids_of_def s' by (simp add: same)
  have inj: "inj_on (\<lambda>a. ge_id (?E ! a)) (set (groups s))" using g(3) by (simp add: ids_of_def distinct_map)
  have vis: "set (ids_of s') = m_visible (fst m)" if "\<not> closed s"
  proof -
    have "m_visible (fst (man s)) = (\<lambda>a. ge_id (?E ! a)) ` set (groups s)" using assms(2) that by (simp add: index_ok_def ids_of_def)
    then have "m_visible (fst m) = (\<lambda>a. ge_id (?E ! a)) ` (set (groups s) - {a \<in> set (groups s). P a})"
      using assms(3) inj_on_image_set_diff [OF inj, of "set (groups s)" "{a \<in> set (groups s). P a}"] by auto
    also have "set (groups s) - {a \<in> set (groups s). P a} = set ?k" by auto
    finally show ?thesis unfolding ids by simp
  qed
  have d: "distinct (ids_of s')" unfolding ids using g(3) by (simp add: ids_of_def distinct_map_filter)
  have "map (\<lambda>a. sint (timeMin (upd retire ?v ?E ! a))) ?k = map (\<lambda>a. sint (timeMin (?E ! a))) ?k"
    by (rule map_cong [OF refl]) (simp only: same)
  moreover have "sorted (map (\<lambda>a. sint (timeMin (?E ! a))) ?k)" using assms(2) by (simp add: index_ok_def sorted_filter)
  ultimately have so: "sorted (map (\<lambda>a. sint (timeMin (upd retire ?v ?E ! a))) ?k)" by (simp only:)
  have disk: "\<not> retired (upd retire ?v ?E ! a) \<and> on_disk s' (upd retire ?v ?E ! a)" if "a \<in> set ?k" for a
  proof -
    have "\<not> retired (?E ! a) \<and> on_disk s (?E ! a)" using assms(2) that by (simp add: index_ok_def)
    then show ?thesis unfolding same [OF that] by (auto simp: on_disk_def s')
  qed
  have sub: "set (ids_of s') \<subseteq> set (ids_of s)" unfolding ids by (auto simp: ids_of_def)
  then have lt: "\<forall>i \<in> set (ids_of s'). i < nextID s" using assms(2) by (auto simp: index_ok_def)
  have tomb: "\<forall>p \<in> set (tombstones s). \<exists>i < nextID s. p = GroupFile i \<and> i \<notin> set (ids_of s')"
    using assms(2) sub unfolding index_ok_def by blast
  have f: "groups s' = ?k" "entries s' = upd retire ?v ?E" "closed s' = closed s" "man s' = m" "nextID s' = nextID s" "tombstones s' = tombstones s"
    by (simp_all add: s')
  have "closed s \<longrightarrow> ?k = []" "set ?k \<subseteq> {..<length (upd retire ?v ?E)}" "distinct ?k" using assms(2) g by (auto simp: index_ok_def)
  then show "index_ok s'" unfolding index_ok_def f using d so disk vis lt tomb by blast
  have "entry_ok (holds sns a) (upd retire ?v ?E ! a)" if "a < length ?E" for a
    using assms(1) that nth [OF that, of retire] retire_ok [of "holds sns a" "?E ! a"] by (auto simp: heap_ok_def)
  then show "heap_ok s' sns" using assms(1) by (simp add: heap_ok_def s')
qed

lemma drop_inv:
  assumes io: "production io" and "heap_ok s sns" and "index_ok s"
  shows "heap_ok (snd (dropGroups io match s)) sns" and "index_ok (snd (dropGroups io match s))"
    and "ids_of (snd (dropGroups io match s)) = ids_of s
      \<or> ids_of (snd (dropGroups io match s)) = map (\<lambda>a. ge_id (entries s ! a)) (filter (\<lambda>a. \<not> match (entries s ! a)) (groups s))"
proof -
  let ?P = "\<lambda>a. match (entries s ! a)"
  let ?v = "filter ?P (groups s)" and ?k = "filter (\<lambda>a. \<not> ?P a) (groups s)"
  let ?s' = "snd (dropGroups io match s)"
  have "heap_ok ?s' sns \<and> index_ok ?s' \<and> (ids_of ?s' = ids_of s \<or> ids_of ?s' = map (\<lambda>a. ge_id (entries s ! a)) ?k)"
  proof (cases "?v = []")
    case True
    then have "?s' = retryTombstones (io_retry io) s" by (simp add: dropGroups_def entry_at_def Let_def)
    then show ?thesis using retry_inv [OF assms(2,3), of "io_retry io"] by simp
  next
    case False
    obtain e m where c: "commit (io_commit io) [] (map (\<lambda>a. ge_id (entries s ! a)) ?v) [] (man s) = (e, m)" by (metis prod.exhaust)
    have mem: "mem m = (if e = None then (m_visible (fst (man s)) - (\<lambda>a. ge_id (entries s ! a)) ` {a \<in> set (groups s). ?P a}, m_receipts (fst (man s)))
        else mem (man s))" using commit_mem [OF c] io by (simp add: production_def)
    show ?thesis
    proof (cases e)
      case (Some x)
      then have s': "?s' = s\<lparr>man := m, retentionFailures := retentionFailures s + 1\<rparr>"
        using False c by (simp add: dropGroups_def entry_at_def Let_def)
      have "m_visible (fst m) = m_visible (fst (man s))" using mem Some by (simp add: mem_def)
      then have "index_ok ?s'" unfolding s' using assms(3) by (intro index_ok_frame [OF assms(3)]) (simp_all add: index_ok_def)
      then show ?thesis using assms(2) by (simp add: s' heap_ok_def ids_of_def)
    next
      case None
      define s1 where "s1 = s\<lparr>man := m, groups := ?k, entries := upd retire ?v (entries s)\<rparr>"
      define ps where "ps = map (\<lambda>a. ge_path (entries s ! a)) ?v"
      have m: "m_visible (fst m) = m_visible (fst (man s)) - (\<lambda>a. ge_id (entries s ! a)) ` {a \<in> set (groups s). ?P a}"
        using mem None by (simp add: mem_def)
      note r = retire_inv [OF assms(2,3) m s1_def]
      obtain F n T c' where d: "snd (foldl (drop_one (io_unlink io)) (0, s1) ps) = s1\<lparr>files := F, pendingTombstones := n, tombstones := T, retentionFailures := c'\<rparr>"
        "\<And>q. q \<notin> set ps \<Longrightarrow> F q = files s1 q" "set T \<subseteq> set (tombstones s1) \<union> set ps" using drop_fold by blast
      let ?s2 = "snd (foldl (drop_one (io_unlink io)) (0, s1) ps)"
      have s': "?s' = retryTombstones (io_retry io) ?s2"
        using False c None by (simp add: dropGroups_def entry_at_def [abs_def] Let_def on_entries_eq s1_def ps_def split: prod.split)
      have pv: "\<exists>a \<in> set ?v. p = GroupFile (ge_id (entries s ! a))" if "p \<in> set ps" for p
        using that assms(3) by (auto simp: ps_def index_ok_def on_disk_def)
      have inj: "inj_on (\<lambda>a. ge_id (entries s ! a)) (set (groups s))" using assms(3) by (simp add: index_ok_def ids_of_def distinct_map)
      have np: "GroupFile i \<notin> set ps" if "i \<in> set (ids_of s1)" for i
        using that pv inj unfolding r(3) by (fastforce simp: inj_on_def)
      have pt: "\<exists>i < nextID s1. p = GroupFile i \<and> i \<notin> set (ids_of s1)" if pin: "p \<in> set ps" for p
      proof -
        obtain a where a: "a \<in> set ?v" "p = GroupFile (ge_id (entries s ! a))" using pv [OF pin] by blast
        then have "ge_id (entries s ! a) < nextID s" using assms(3) by (auto simp: index_ok_def ids_of_def)
        then show ?thesis using a np pin by (auto simp: s1_def)
      qed
      have "index_ok ?s2" unfolding d(1)
      proof (rule index_ok_frame [OF r(2)])
        fix i assume "i \<in> set (ids_of s1)"
        then show "files (s1\<lparr>files := F, pendingTombstones := n, tombstones := T, retentionFailures := c'\<rparr>) (GroupFile i) = files s1 (GroupFile i)"
          using d(2) [OF np] by simp
      next
        fix p assume "p \<in> set (tombstones (s1\<lparr>files := F, pendingTombstones := n, tombstones := T, retentionFailures := c'\<rparr>))"
        then have "p \<in> set (tombstones s1) \<or> p \<in> set ps" using d(3) by auto
        then show "\<exists>i < nextID (s1\<lparr>files := F, pendingTombstones := n, tombstones := T, retentionFailures := c'\<rparr>).
            p = GroupFile i \<and> i \<notin> set (ids_of s1)" using r(2) pt by (auto simp: index_ok_def)
      qed simp_all
      moreover have "heap_ok ?s2 sns" using r(1) by (simp add: d(1) heap_ok_def)
      moreover have "ids_of ?s2 = ids_of s1" by (simp add: d(1) ids_of_def)
      ultimately show ?thesis using retry_inv [of ?s2 sns "io_retry io"] r(3) unfolding s' by simp
    qed
  qed
  then show "heap_ok ?s' sns" "index_ok ?s'" "ids_of ?s' = ids_of s \<or> ids_of ?s' = map (\<lambda>a. ge_id (entries s ! a)) ?k" by simp_all
qed

lemma close_inv:
  assumes "heap_ok s sns" and "index_ok s"
  shows "heap_ok (store_Close s) sns" and "index_ok (store_Close s)"
proof -
  let ?E = "upd retire (groups s) (entries s)"
  have g: "distinct (groups s)" "set (groups s) \<subseteq> {..<length (entries s)}" using assms(2) by (auto simp: index_ok_def)
  have s': "store_Close s = s\<lparr>closed := True, entries := ?E, groups := [], man := ((fst (man s))\<lparr>m_open := False\<rparr>, snd (man s))\<rparr>"
    by (simp add: store_Close_def on_entries_eq Let_def)
  have "entry_ok (holds sns a) (?E ! a)" if "a < length (entries s)" for a
    using assms(1) that upd_nth [OF g that, of retire] retire_ok [of "holds sns a" "entries s ! a"] by (auto simp: heap_ok_def)
  then show "heap_ok (store_Close s) sns" using assms(1) by (simp add: heap_ok_def s')
  show "index_ok (store_Close s)" using assms(2) by (auto simp: index_ok_def s' ids_of_def)
qed

lemma step_inv:
  assumes "sorter_ok srt" and "store_step srt x y" and "heap_ok (fst x) (snd x)" and "index_ok (fst x)"
  shows "heap_ok (fst y) (snd y) \<and> index_ok (fst y)"
  using assms(2-)
proof (induction rule: store_step.induct)
  case (append s io sns b wid)
  then show ?case using append_inv(1,2) [OF assms(1) append(2) _ _ append(1,3) prod.collapse [symmetric]] by simp
next
  case (receipt s io sns wid)
  then show ?case using receipt_inv by simp
next
  case (window f t s sn s' sns)
  then show ?case using snapshot_inv(2,3) by (simp add: SnapshotOf_def)
next
  case (all s sn q s' sns)
  then show ?case using snapshot_inv(2,3) [of s sns "\<lambda>_. True"] by (auto simp: SnapshotAllWithSeq_def split: prod.splits sum.splits)
next
  case (tail cur s sn nxt s' sns)
  then show ?case using snapshot_inv(2,3) [of s sns "\<lambda>e. \<not> ge_id e < cur"]
    by (auto simp: SnapshotAfterID_def split: prod.splits sum.splits)
next
  case (release i sns s sn s')
  then show ?case using release_inv [of s sns i sn s'] by simp
next
  case (drop s io sns match)
  then show ?case using drop_inv(1,2) [of io s sns] by simp
next
  case (close s sns)
  then show ?case using close_inv [of s sns] by simp
qed

lemma reach_inv:
  assumes "sorter_ok srt" and "store_reach srt x"
  shows "heap_ok (fst x) (snd x) \<and> index_ok (fst x)"
  using assms(2)
proof (induction rule: store_reach.induct)
  case (start s)
  then show ?case by (simp add: store_start_def heap_ok_def index_ok_def ids_of_def)
next
  case (step x y)
  then show ?case using step_inv [OF assms(1)] by blast
qed

section \<open>The receipt set\<close>

definition receipts_ok :: "receiptSet \<Rightarrow> bool" where
  "receipts_ok rs \<longleftrightarrow> seen rs = set (order rs) \<and> distinct (order rs) \<and> length (order rs) \<le> maxReceipts \<and> [] \<notin> seen rs"

lemma maxReceipts_pos: "0 < maxReceipts"
  by (simp add: maxReceipts_def)

text \<open>Eviction keeps the newest ids.\<close>

lemma evict_drop: "distinct xs \<Longrightarrow> evict (set xs) xs = (let ys = drop (length xs - maxReceipts) xs in \<lparr>seen = set ys, order = ys\<rparr>)"
proof (induction xs)
  case (Cons x xs)
  show ?case
  proof (cases "length (x # xs) > maxReceipts")
    case True
    have "set (x # xs) - {x} = set xs" using Cons.prems by auto
    moreover have "length (x # xs) - maxReceipts = Suc (length xs - maxReceipts)" using True by simp
    ultimately show ?thesis using Cons True by (simp add: Let_def)
  next
    case False
    then show ?thesis by simp
  qed
qed simp

lemma add_receipt_order:
  assumes "receipts_ok rs" and "i \<noteq> []" and "i \<notin> seen rs"
  shows "add_receipt rs i = (let ys = drop (Suc (length (order rs)) - maxReceipts) (order rs @ [i]) in \<lparr>seen = set ys, order = ys\<rparr>)"
proof -
  have "insert i (seen rs) = set (order rs @ [i])" "distinct (order rs @ [i])" using assms by (auto simp: receipts_ok_def)
  then show ?thesis using assms(2,3) evict_drop [of "order rs @ [i]"] by (simp add: add_receipt_def)
qed

lemma add_receipt_ok: "receipts_ok rs \<Longrightarrow> receipts_ok (add_receipt rs i)"
proof (cases "i = [] \<or> i \<in> seen rs")
  case False
  assume rs: "receipts_ok rs"
  let ?ys = "drop (Suc (length (order rs)) - maxReceipts) (order rs @ [i])"
  have d: "distinct (order rs @ [i])" "[] \<notin> set (order rs @ [i])" using rs False by (auto simp: receipts_ok_def)
  have "distinct ?ys" by (rule distinct_drop [OF d(1)])
  moreover have "[] \<notin> set ?ys" using d(2) set_drop_subset [of "Suc (length (order rs)) - maxReceipts" "order rs @ [i]"] by blast
  ultimately have "distinct ?ys" "[] \<notin> set ?ys" "length ?ys \<le> maxReceipts" by (blast, blast, simp)
  then show ?thesis using add_receipt_order [OF rs] False by (simp add: receipts_ok_def Let_def)
qed (simp add: add_receipt_def)

lemma newReceiptSet_ok: "receipts_ok newReceiptSet"
  by (simp add: receipts_ok_def newReceiptSet_def)

lemma add_receipt_has: "receipts_ok rs \<Longrightarrow> i \<noteq> [] \<Longrightarrow> has (add_receipt rs i) i"
proof (cases "i \<in> seen rs")
  case False
  assume rs: "receipts_ok rs" "i \<noteq> []"
  have "Suc (length (order rs)) - maxReceipts \<le> length (order rs)" using maxReceipts_pos by simp
  then have "i \<in> set (drop (Suc (length (order rs)) - maxReceipts) (order rs @ [i]))" by simp
  then show ?thesis using add_receipt_order [OF rs False] rs(2) by (simp add: has_def Let_def)
qed (simp add: has_def add_receipt_def)

lemma receipts_fold:
  "distinct xs \<Longrightarrow> [] \<notin> set xs \<Longrightarrow> foldl add_receipt newReceiptSet xs = (let ys = drop (length xs - maxReceipts) xs in \<lparr>seen = set ys, order = ys\<rparr>)"
proof (induction xs rule: rev_induct)
  case (snoc x xs)
  let ?rs = "foldl add_receipt newReceiptSet xs" and ?d = "length xs - maxReceipts"
  have rs: "?rs = \<lparr>seen = set (drop ?d xs), order = drop ?d xs\<rparr>" using snoc by (simp add: Let_def)
  have "receipts_ok (foldl add_receipt r xs)" if "receipts_ok r" for r using that by (induction xs arbitrary: r) (simp_all add: add_receipt_ok)
  then have ok: "receipts_ok ?rs" using newReceiptSet_ok by blast
  have x: "x \<noteq> []" "x \<notin> seen ?rs" using snoc.prems in_set_dropD [of x ?d xs] by (auto simp: rs)
  show ?case
  proof (cases "length xs < maxReceipts")
    case True
    then show ?thesis using add_receipt_order [OF ok x] by (simp add: rs Let_def)
  next
    case False
    then have "Suc (length (order ?rs)) - maxReceipts = 1" by (simp add: rs)
    moreover have "drop 1 (drop ?d xs @ [x]) = drop (Suc ?d) (xs @ [x])" using False maxReceipts_pos by (simp add: drop_Suc tl_drop)
    ultimately show ?thesis using add_receipt_order [OF ok x] False by (simp add: rs Let_def Suc_diff_le)
  qed
qed (simp add: newReceiptSet_def)

section \<open>Live tails\<close>

lemma next_cursor_ge: "c \<le> next_cursor ids c \<and> (\<forall>i \<in> set ids. i + 1 \<noteq> 0 \<longrightarrow> i < next_cursor ids c)"
proof -
  have "c \<le> foldl (\<lambda>n i. if i + 1 > n then i + 1 else n) c ids
      \<and> (\<forall>i \<in> set ids. i + 1 \<le> foldl (\<lambda>n i. if i + 1 > n then i + 1 else n) c ids)"
    by (induction ids rule: rev_induct) (auto intro: order_trans less_imp_le simp: not_less)
  moreover have "i < i + 1" if "i + 1 \<noteq> 0" for i :: u64 using that unatSuc [of i] by (simp add: word_less_nat_alt add.commute)
  ultimately show ?thesis by (auto simp: next_cursor_def intro: less_le_trans)
qed

section \<open>A small store\<close>

definition stable :: sorter where
  "stable k xs = sort_key k xs"

lemma stable_ok: "sorter_ok stable"
  by (simp add: sorter_ok_def stable_def)

definition empty_store :: Store where
  "empty_store = \<lparr>entries = [], groups = [], nextID = 0, closed = False, man = (man0, None), receipts = newReceiptSet,
     tombstones = [], files = (\<lambda>_. None), retentionFailures = 0, pendingTombstones = 0, sizeBytes = 0, sizeAt = 0\<rparr>"

definition all_ok :: store_io where
  "all_ok = \<lparr>io_file = AtomicOK, io_mmap = True, io_rename = True, io_dirsync = True, io_unlink = (\<lambda>_. True), io_retry = (\<lambda>_. True),
     io_commit = io_ok\<rparr>"

lemma all_ok_production: "production all_ok"
  by (simp add: production_def all_ok_def)

lemma empty_start: "store_start empty_store"
  by (simp add: store_start_def empty_store_def man0_def)

lemma commit_ok: "m_records m + 1 < compactThreshold \<Longrightarrow> \<exists>m' f'. commit io_ok add remove receipt (m, f) = (None, (m', f')) \<and> m_records m' = m_records m + 1"
  by (rule ensureOpen_ok [of m f]) (auto simp: commit_def Let_def man_apply_def foldl_man_add foldl_man_remove)

lemma empty_append:
  assumes "ReadGroup b = Some (Inr r)"
  shows "fst (appendBlob stable all_ok b wid empty_store) = Inr 0"
proof -
  obtain m' f' where "commit io_ok [0] [] wid (man0, None) = (None, (m', f'))"
    using commit_ok [of man0 "[0]" "[]" wid None] by (auto simp: man0_def compactThreshold_def)
  then show ?thesis using assms
    by (simp add: appendBlob_def commitGroupFile_def commit_locked_def map_group_def all_ok_def empty_store_def has_def newReceiptSet_def Let_def)
qed

lemma start_inv: "store_start s \<Longrightarrow> heap_ok s [] \<and> index_ok s"
  by (simp add: store_start_def heap_ok_def index_ok_def ids_of_def)

lemma discard_closed: "closed (snd (discard io p i e s)) = closed s"
  by (simp add: discard_def discardUncommitted_def)

lemma fst_discard: "fst (discard io p i e s) = Inl e"
  by (simp add: discard_def)

lemma commit_locked_frame:
  "closed (snd (commit_locked srt io p i sz wid r s)) = closed s"
  "fst (commit_locked srt io p i sz wid r s) = Inr j \<Longrightarrow> files (snd (commit_locked srt io p i sz wid r s)) = files s"
proof -
  obtain e m where c: "commit (io_commit io) [i] [] wid (man s) = (e, m)" by (metis prod.exhaust)
  have n: "closed (noteGrowth sz x) = closed x" "files (noteGrowth sz x) = files x" "closed (sortGroups srt x) = closed x"
    "files (sortGroups srt x) = files x" for x by (simp_all add: noteGrowth_def sortGroups_def)
  show "closed (snd (commit_locked srt io p i sz wid r s)) = closed s"
    by (cases e) (simp_all add: commit_locked_def c discard_closed n Let_def)
  show "files (snd (commit_locked srt io p i sz wid r s)) = files s" if "fst (commit_locked srt io p i sz wid r s) = Inr j"
  proof (cases "wid \<noteq> [] \<and> has (receipts s) wid")
    case True
    then show ?thesis using that by (simp add: commit_locked_def fst_discard)
  next
    case False
    then show ?thesis using that unfolding commit_locked_def c by (cases e) (auto simp: fst_discard n Let_def)
  qed
qed

lemma append_frame:
  "closed (snd (appendBlob srt io b wid s)) = closed s"
  "fst (appendBlob srt io b wid s) = Inr i \<Longrightarrow> files (snd (appendBlob srt io b wid s)) (GroupFile (nextID s)) = Some b"
  using commit_locked_frame [of srt io "GroupFile (nextID s)" "nextID s" "int (length b)" wid _ "s\<lparr>nextID := nextID s + 1, files := (files s)(GroupFile (nextID s) \<mapsto> b)\<rparr>"]
  by (cases "io_file io"; simp add: appendBlob_def commitGroupFile_def discard_closed fst_discard Let_def split: sum.splits)+

lemma window_snapshot:
  assumes "heap_ok s sns" and "index_ok s" and "\<not> closed s"
  shows "\<exists>sn s'. SnapshotOf from to s = (Inr sn, s') \<and> snap_Groups s' sn = Groups from to s"
proof -
  let ?want = "\<lambda>e. TimeRangeMatches (reader e) from to"
  obtain sn s' where t: "take_snapshot ?want s = (Inr sn, s')"
    using assms(3) by (cases "lease ?want (groups s) s") (auto simp: take_snapshot_def)
  note sn = snapshot_inv [OF assms(1,2) t]
  then obtain E where E: "s' = s\<lparr>entries := E\<rparr>" "length E = length (entries s)" "\<And>a. a < length E \<Longrightarrow> same_entry (entries s ! a) (E ! a)" by blast
  have "reader (E ! a) = reader (entries s ! a)" if "a \<in> set (groups s)" for a
    using assms(2) that E(2) E(3) [of a] by (auto simp: index_ok_def same_entry_def)
  then have "snap_Groups s' sn = map (\<lambda>a. reader (entries s ! a)) (filter (\<lambda>a. ?want (entries s ! a)) (groups s))"
    by (simp add: snap_Groups_def entry_at_def sn(1) E(1))
  then show ?thesis using t by (simp add: SnapshotOf_def Groups_def entry_at_def filter_map o_def)
qed

lemma demo_marshal: "\<exists>B r. Marshal demo_kernels demo_group = Some B \<and> ReadGroup B = Some (Inr r)"
proof -
  have nar: "list_all narrow (Columns demo_group)" by (simp add: demo_group_def narrow_def col_types)
  obtain B where B: "Marshal demo_kernels demo_group = Some B" using Marshal_total [OF demo_wf] .
  show ?thesis by (rule ReadGroup_Marshal [OF demo_kernels_ok demo_wf nar B demo_small [OF B]]) (use B in blast)
qed

text \<open>A retry that passed the first check meets the second under the lock.\<close>

lemma append_duplicate:
  assumes "wid \<noteq> []" and "has (receipts s) wid"
  shows "\<exists>e. fst (appendBlob srt io b wid s) = Inl e"
proof -
  have "commit_locked srt io p i sz wid r (s\<lparr>nextID := x, files := F\<rparr>) = discard io p i ErrDuplicateWrite (s\<lparr>nextID := x, files := F\<rparr>)" for p i sz r x F
    using assms by (simp add: commit_locked_def)
  then show ?thesis
    by (cases "io_file io") (auto simp: appendBlob_def commitGroupFile_def fst_discard Let_def split: sum.split)
qed

lemma tail_snapshot:
  assumes "heap_ok s sns" and "index_ok s" and "\<not> closed s"
  shows "\<exists>sn s'. SnapshotAfterID cur s = (Inr (sn, next_cursor (snap_GroupIDs s' sn) cur), s')
    \<and> snap_GroupIDs s' sn = filter (\<lambda>i. cur \<le> i) (ids_of s)"
proof -
  let ?want = "\<lambda>e. \<not> ge_id e < cur"
  obtain sn s' where t: "take_snapshot ?want s = (Inr sn, s')"
    using assms(3) by (cases "lease ?want (groups s) s") (auto simp: take_snapshot_def)
  note sn = snapshot_inv [OF assms(1,2) t]
  then obtain E where E: "s' = s\<lparr>entries := E\<rparr>" "length E = length (entries s)" "\<And>a. a < length E \<Longrightarrow> same_entry (entries s ! a) (E ! a)" by blast
  have "ge_id (E ! a) = ge_id (entries s ! a)" if "a \<in> set (groups s)" for a
    using assms(2) that E(2) E(3) [of a] by (auto simp: index_ok_def same_entry_def)
  then have "snap_GroupIDs s' sn = map (\<lambda>a. ge_id (entries s ! a)) (filter (\<lambda>a. ?want (entries s ! a)) (groups s))"
    by (simp add: snap_GroupIDs_def entry_at_def sn(1) E(1))
  then show ?thesis using t by (simp add: SnapshotAfterID_def ids_of_def filter_map o_def not_less)
qed

text \<open>What the invariant says to a reader of the store.\<close>

lemma invariant_facts:
  assumes inv: "heap_ok s sns" "index_ok s"
  shows "(\<forall>sn \<in> set sns. \<forall>a \<in> set (snap_entries sn). \<not> unmapped (entries s ! a))
    \<and> (\<forall>a < length (entries s). unmapped (entries s ! a) \<longleftrightarrow> retired (entries s ! a) \<and> (\<forall>sn \<in> set sns. a \<notin> set (snap_entries sn)))
    \<and> (\<not> closed s \<longrightarrow> set (ids_of s) = m_visible (fst (man s)) \<and> distinct (ids_of s))
    \<and> sorted (map (\<lambda>a. sint (timeMin (entries s ! a))) (groups s))
    \<and> (\<forall>a \<in> set (groups s). \<exists>b. files s (GroupFile (ge_id (entries s ! a))) = Some b \<and> ReadGroup b = Some (Inr (reader (entries s ! a))))"
proof -
  have h0: "holds sns a = 0 \<longleftrightarrow> (\<forall>sn \<in> set sns. a \<notin> set (snap_entries sn))" for a by (simp add: holds_def filter_empty_conv)
  have ok: "entry_ok (holds sns a) (entries s ! a)" if "a < length (entries s)" for a using inv(1) that by (simp add: heap_ok_def)
  have 1: "unmapped (entries s ! a) \<longleftrightarrow> retired (entries s ! a) \<and> (\<forall>sn \<in> set sns. a \<notin> set (snap_entries sn))" if "a < length (entries s)" for a
    using ok [OF that] unfolding h0 [symmetric] by (auto simp: entry_ok_def split: if_splits)
  have 2: "\<not> unmapped (entries s ! a)" if "sn \<in> set sns" "a \<in> set (snap_entries sn)" for sn a
  proof -
    have "a < length (entries s)" using inv(1) that by (auto simp: heap_ok_def)
    then show ?thesis using 1 that by blast
  qed
  have 3: "\<exists>b. files s (GroupFile (ge_id (entries s ! a))) = Some b \<and> ReadGroup b = Some (Inr (reader (entries s ! a)))" if "a \<in> set (groups s)" for a
  proof -
    have "on_disk s (entries s ! a)" using inv(2) that by (simp add: index_ok_def)
    then show ?thesis by (auto simp: on_disk_def)
  qed
  show ?thesis using 1 2 3 inv(2) by (simp add: index_ok_def)
qed

section \<open>Properties\<close>

text \<open>C16: An append is all or nothing.  When it succeeds it returns the next id, which no group had, and exactly that group becomes
  visible, read back from the appended bytes; when it fails, at whichever step, the committed set and the index are what they were.
  Either way a snapshot of any window then returns exactly the indexed groups that overlap it.\<close>

theorem append_all_or_nothing:
  assumes "sorter_ok srt" and "store_reach srt (s, sns)" and "\<not> closed s" and "production io" and "nextID s + 1 \<noteq> 0"
    and "appendBlob srt io b wid s = (res, s')"
  shows "(case res of
       Inr i \<Rightarrow> i = nextID s \<and> i \<notin> m_visible (fst (man s)) \<and> m_visible (fst (man s')) = insert i (m_visible (fst (man s)))
         \<and> (\<exists>a \<in> set (groups s'). ge_id (entries s' ! a) = i \<and> ReadGroup b = Some (Inr (reader (entries s' ! a))))
     | Inl e \<Rightarrow> m_visible (fst (man s')) = m_visible (fst (man s)) \<and> ids_of s' = ids_of s)
    \<and> (\<exists>sn s''. SnapshotOf from to s' = (Inr sn, s'') \<and> snap_Groups s'' sn = Groups from to s')"
proof -
  have inv: "heap_ok s sns" "index_ok s" using reach_inv [OF assms(1,2)] by simp_all
  note ap = append_inv [OF assms(1,4) inv assms(3,5,6)]
  have cl: "\<not> closed s'" using append_frame(1) [of srt io b wid s] assms(3,6) by simp
  have vis: "set (ids_of s) = m_visible (fst (man s))" "set (ids_of s') = m_visible (fst (man s'))"
    using inv(2) ap(2) assms(3) cl by (simp_all add: index_ok_def)
  have new: "\<exists>a \<in> set (groups s'). ge_id (entries s' ! a) = nextID s \<and> ReadGroup b = Some (Inr (reader (entries s' ! a)))" if "res = Inr (nextID s)"
  proof -
    have "nextID s \<in> set (ids_of s')" using ap(3) that by auto
    then obtain a where a: "a \<in> set (groups s')" "ge_id (entries s' ! a) = nextID s" by (auto simp: ids_of_def)
    then have "on_disk s' (entries s' ! a)" using ap(2) by (simp add: index_ok_def)
    moreover have "files s' (GroupFile (nextID s)) = Some b" using append_frame(2) [of srt io b wid s] assms(6) that by simp
    ultimately show ?thesis using a by (auto simp: on_disk_def)
  qed
  have "\<exists>sn s''. SnapshotOf from to s' = (Inr sn, s'') \<and> snap_Groups s'' sn = Groups from to s'"
    using window_snapshot [OF ap(1,2) cl] by blast
  then show ?thesis using ap(3) vis new by auto
qed

theorem append_all_or_nothing_witness:
  "\<exists>b s'. appendBlob stable all_ok b [] empty_store = (Inr 0, s') \<and> m_visible (fst (man s')) = {0}"
proof -
  obtain b r where b: "ReadGroup b = Some (Inr r)" using demo_marshal by blast
  obtain s' where ap: "appendBlob stable all_ok b [] empty_store = (Inr 0, s')" using empty_append [OF b, of "[]"] by (metis prod.collapse)
  have e: "\<not> closed empty_store" "nextID empty_store + 1 \<noteq> 0" "m_visible (fst (man empty_store)) = {}"
    by (simp_all add: empty_store_def man0_def)
  show ?thesis using append_all_or_nothing [OF stable_ok store_reach.start [OF empty_start] e(1) all_ok_production e(2) ap, of 0 0] ap e(3)
    by (intro exI [of _ b] exI [of _ s']) simp
qed

text \<open>C20: A write that was acknowledged is not written again.  Once an append with a write id has succeeded, the id is known as committed, a
  retry under it is refused as a duplicate and changes nothing, and a retry that raced past the first check is refused under the lock, with the
  committed groups unchanged.  The set remembers exactly the last 65536 ids.\<close>

theorem retry_writes_once:
  assumes "sorter_ok srt" and "store_reach srt (s, sns)" and "\<not> closed s" and "production io" and "nextID s + 1 \<noteq> 0"
    and "receipts_ok (receipts s)" and "wid \<noteq> []"
    and "AppendGroupIdempotent K srt io g wid s = Some (Inr i, s')"
    and "distinct ws" and "[] \<notin> set ws"
  shows "CommittedWrite s' wid \<and> receipts_ok (receipts s')
    \<and> AppendGroupIdempotent K' srt io' g' wid s' = Some (Inl ErrDuplicateWrite, s')
    \<and> (\<exists>e. fst (appendBlob srt io' b wid s') = Inl e)
    \<and> (has (foldl add_receipt newReceiptSet ws) w \<longleftrightarrow> w \<in> set (drop (length ws - maxReceipts) ws))"
proof -
  obtain blob where ap: "appendBlob srt io blob wid s = (Inr i, s')"
    using assms(7,8) by (auto simp: AppendGroupIdempotent_def appendGroupWithReceipt_def split: if_splits bind_splits)
  have inv: "heap_ok s sns" "index_ok s" using reach_inv [OF assms(1,2)] by simp_all
  have rc: "receipts s' = add_receipt (receipts s) wid" using append_inv(3) [OF assms(1,4) inv assms(3,5) ap] assms(7) by auto
  then have h: "has (receipts s') wid" "receipts_ok (receipts s')" using add_receipt_has add_receipt_ok assms(6,7) by simp_all
  moreover have "\<exists>e. fst (appendBlob srt io' b wid s') = Inl e" using append_duplicate [OF assms(7) h(1)] .
  moreover have "has (foldl add_receipt newReceiptSet ws) w \<longleftrightarrow> w \<in> set (drop (length ws - maxReceipts) ws)"
    using receipts_fold [OF assms(9,10)] assms(10) by (auto simp: has_def Let_def dest: in_set_dropD)
  ultimately show ?thesis using assms(7) by (simp add: CommittedWrite_def AppendGroupIdempotent_def)
qed

theorem retry_writes_once_witness:
  "\<exists>s'. CommittedWrite s' [97] \<and> AppendGroupIdempotent demo_kernels stable all_ok demo_group [97] s' = Some (Inl ErrDuplicateWrite, s')"
proof -
  obtain B r where B: "Marshal demo_kernels demo_group = Some B" "ReadGroup B = Some (Inr r)" using demo_marshal by blast
  obtain s' where ap: "appendBlob stable all_ok B [97] empty_store = (Inr 0, s')" using empty_append [OF B(2), of "[97]"] by (metis prod.collapse)
  have e: "\<not> closed empty_store" "nextID empty_store + 1 \<noteq> 0" "receipts_ok (receipts empty_store)" "\<not> has (receipts empty_store) [97]"
    by (simp_all add: empty_store_def newReceiptSet_ok) (simp add: newReceiptSet_def has_def)
  have "AppendGroupIdempotent demo_kernels stable all_ok demo_group [97] empty_store = Some (Inr 0, s')"
    using B(1) ap e(4) by (simp add: AppendGroupIdempotent_def appendGroupWithReceipt_def)
  from retry_writes_once [OF stable_ok store_reach.start [OF empty_start] e(1) all_ok_production e(2,3) _ this, of "[]" demo_kernels all_ok demo_group]
  show ?thesis by (intro exI [of _ s']) simp
qed

text \<open>A poll of a live tail returns exactly the indexed groups from its cursor on, and the next cursor lies beyond every one of
  them and never goes back, so no group is delivered twice.\<close>

theorem tail_poll_exact:
  assumes "sorter_ok srt" and "store_reach srt (s, sns)" and "\<not> closed s"
  shows "\<exists>sn nxt s'. SnapshotAfterID cur s = (Inr (sn, nxt), s') \<and> snap_GroupIDs s' sn = filter (\<lambda>i. cur \<le> i) (ids_of s)
    \<and> cur \<le> nxt \<and> (\<forall>i \<in> set (snap_GroupIDs s' sn). i + 1 \<noteq> 0 \<longrightarrow> i < nxt)"
proof -
  have inv: "heap_ok s sns" "index_ok s" using reach_inv [OF assms(1,2)] by simp_all
  from tail_snapshot [OF inv assms(3)] next_cursor_ge show ?thesis by metis
qed

theorem tail_poll_exact_witness:
  "\<exists>sn nxt s'. SnapshotAfterID 0 empty_store = (Inr (sn, nxt), s') \<and> snap_GroupIDs s' sn = []"
proof -
  have "\<not> closed empty_store" "ids_of empty_store = []" by (simp_all add: empty_store_def ids_of_def)
  then show ?thesis using tail_poll_exact [OF stable_ok store_reach.start [OF empty_start], of 0] by auto
qed

text \<open>C36: A live tail can miss a group.  Ids are handed out before the group is written and flushes run in parallel: here group 1 is
  committed first, a tail subscribed to the empty store receives it and moves its cursor to 2, then group 0 is committed, and the
  next poll, from 2, does not return it; no later poll will.\<close>

theorem tail_misses_late_commit:
  assumes "ReadGroup b = Some (Inr r)" and "n = int (length b)"
    and "s0 = empty_store\<lparr>nextID := 2, files := (\<lambda>_. Some b)\<rparr>"
  shows "\<exists>s1 sn s2 s3 sn' s4.
      commitGroupFile stable all_ok (GroupFile 1) (GroupFile 1) 1 n [] (\<lambda>_. True) s0 = (Inr 1, s1)
    \<and> SnapshotAfterID (TailCursor s0) s1 = (Inr (sn, 2), s2) \<and> snap_GroupIDs s2 sn = [1]
    \<and> commitGroupFile stable all_ok (GroupFile 0) (GroupFile 0) 0 n [] (\<lambda>_. True) s2 = (Inr 0, s3)
    \<and> SnapshotAfterID 2 s3 = (Inr (sn', 2), s4) \<and> snap_GroupIDs s4 sn' = [] \<and> set (ids_of s4) = {0, 1}"
proof -
  let ?e = "\<lambda>i. new_entry i (GroupFile i) r"
  obtain m1 f1 where c1: "commit io_ok [1] [] [] (man0, None) = (None, (m1, f1))" "m_records m1 = 1"
    using commit_ok [of man0 "[1]" "[]" "[]" None] by (auto simp: man0_def compactThreshold_def)
  obtain m2 f2 where c2: "commit io_ok [0] [] [] (m1, f1) = (None, (m2, f2))"
    using commit_ok [of m1 "[0]" "[]" "[]" f1] c1(2) by (auto simp: compactThreshold_def)
  let ?s1 = "s0\<lparr>man := (m1, f1), groups := [0], entries := [?e 1]\<rparr>"
  let ?s2 = "?s1\<lparr>entries := [snd (acquire (?e 1))]\<rparr>"
  let ?s3 = "?s2\<lparr>man := (m2, f2), groups := [0, 1], entries := [snd (acquire (?e 1)), ?e 0]\<rparr>"
  note put = commitGroupFile_def commit_locked_def map_group_def all_ok_def noteGrowth_def sortGroups_def stable_def Let_def
  note poll = SnapshotAfterID_def take_snapshot_def snap_GroupIDs_def next_cursor_def on_entry_eq entry_at_def
  have 1: "commitGroupFile stable all_ok (GroupFile 1) (GroupFile 1) 1 n [] (\<lambda>_. True) s0 = (Inr 1, ?s1)"
    using assms(1) c1(1) by (simp add: put assms(3) empty_store_def)
  have 2: "SnapshotAfterID (TailCursor s0) ?s1 = (Inr (\<lparr>snap_entries = [0], snap_closed = False\<rparr>, 2), ?s2)"
    by (simp add: poll TailCursor_def assms(3) empty_store_def new_entry_def acquire_def)
  have 3: "commitGroupFile stable all_ok (GroupFile 0) (GroupFile 0) 0 n [] (\<lambda>_. True) ?s2 = (Inr 0, ?s3)"
    using assms(1) c2 by (simp add: put assms(3) empty_store_def entry_at_def new_entry_def acquire_def)
  have 4: "SnapshotAfterID 2 ?s3 = (Inr (\<lparr>snap_entries = [], snap_closed = False\<rparr>, 2), ?s3)"
    by (simp add: poll new_entry_def acquire_def assms(3) empty_store_def)
  have 5: "snap_GroupIDs ?s2 \<lparr>snap_entries = [0], snap_closed = False\<rparr> = [1]" "snap_GroupIDs ?s3 \<lparr>snap_entries = [], snap_closed = False\<rparr> = []"
    "set (ids_of ?s3) = {0, 1}"
    by (auto simp: snap_GroupIDs_def entry_at_def ids_of_def new_entry_def)
  show ?thesis by (intro exI conjI) (rule 1 2 3 4 5)+
qed

theorem tail_misses_late_commit_witness:
  "\<exists>b s1 sn s2. commitGroupFile stable all_ok (GroupFile 1) (GroupFile 1) 1 (int (length b)) [] (\<lambda>_. True)
       (empty_store\<lparr>nextID := 2, files := (\<lambda>_. Some b)\<rparr>) = (Inr 1, s1)
     \<and> SnapshotAfterID 0 s1 = (Inr (sn, 2), s2) \<and> snap_GroupIDs s2 sn = [1]"
proof -
  obtain b r where b: "ReadGroup b = Some (Inr r)" using demo_marshal by blast
  have "TailCursor (empty_store\<lparr>nextID := 2, files := (\<lambda>_. Some b)\<rparr>) = 0" by (simp add: TailCursor_def next_cursor_def empty_store_def)
  with tail_misses_late_commit [OF b refl refl] show ?thesis by (metis (no_types))
qed

text \<open>C37: The fold that compacts the manifest drops every receipt, the one it was written with included.  The append whose record reaches the
  threshold is acknowledged and its id is known in memory; after a restart the group is there and the id is not, so a retry writes
  the rows again, however few writes came in between.\<close>

theorem receipt_lost_by_fold:
  assumes "finite (m_visible m)" and "m_records m + 1 = compactThreshold" and "v = insert i (m_visible m)"
    and "20 + 8 * card v \<le> manifestRecordLimit" and "wid \<noteq> []"
  shows "\<exists>m' f' m''. commit io_ok [i] [] wid (m, f) = (None, (m', f')) \<and> wid \<in> set (receiptIDs m')
    \<and> openManifest f' False True = (Inr m'', f') \<and> m_visible m'' = v
    \<and> \<not> has (foldl add_receipt newReceiptSet (receiptIDs m'')) wid"
proof -
  define m1 where "m1 = (man_apply (m\<lparr>m_open := True, m_seq := m_seq m + 1\<rparr>)
      \<lparr>recSeq = m_seq m + 1, recAdd = [i], recRemove = [], recReceipt = wid\<rparr>)\<lparr>m_records := compactThreshold\<rparr>"
  have v1: "m_visible m1 = v" and mo: "m_open m1" and w: "wid \<in> set (m_receipts m1)"
    using assms(3,5) by (simp_all add: m1_def)
  let ?r = "\<lparr>recSeq = m_seq m1 + 1, recAdd = visibleIDs m1, recRemove = [], recReceipt = []\<rparr>"
  have fin: "finite v" using assms(1,3) by simp
  then have ids: "set (visibleIDs m1) = v" "length (visibleIDs m1) = card v" using v1 by (simp_all add: visibleIDs_def)
  have fits: "rec_fits ?r" using assms(4) ids by (simp add: rec_fits_def)
  have cp: "compact io_ok (m1, g) = (None, (m1\<lparr>m_open := True, m_seq := m_seq m1 + 1\<rparr>, Some (encode ?r)))" for g
    using mo by (simp add: compact_def ensureOpen_def Let_def)
  have cm: "commit io_ok [i] [] wid (m, f) = (case compact io_ok (m1, Some (file_bytes f @ encode
      \<lparr>recSeq = m_seq m + 1, recAdd = [i], recRemove = [], recReceipt = wid\<rparr>)) of
        (Some _, s3) \<Rightarrow> (None, man_reopen io_ok s3) | (None, (m3, f3)) \<Rightarrow> (None, (m3\<lparr>m_records := 0\<rparr>, f3)))"
    by (rule ensureOpen_ok [of m f]) (use assms(2) in \<open>simp add: commit_def Let_def m1_def\<close>)
  let ?m0 = "man0\<lparr>m_preexisted := True\<rparr>"
  have "replay ?m0 (encode ?r) 0 = (man_apply ?m0 ?r, length (encode ?r))"
    using replay_log [of "[?r]" "[]" ?m0 0] fits by (simp add: log_bytes_def)
  then have op: "openManifest (Some (encode ?r)) False True = (Inr (man_apply ?m0 ?r), Some (encode ?r))"
    by (simp add: openManifest_def Let_def)
  have "m_visible (man_apply ?m0 ?r) = v" "m_receipts (man_apply ?m0 ?r) = []"
    using ids(1) by (simp_all add: man_apply_mem man0_def)
  then show ?thesis using cm cp op w by (simp add: receiptIDs_def newReceiptSet_def has_def)
qed

theorem receipt_lost_by_fold_witness:
  "\<exists>m' f'. commit io_ok [7] [] [97] (man0\<lparr>m_records := 4095\<rparr>, None) = (None, (m', f')) \<and> [97] \<in> set (receiptIDs m')"
  using receipt_lost_by_fold [of "man0\<lparr>m_records := 4095\<rparr>" "{7}" 7 "[97]" None]
  by (auto simp: man0_def compactThreshold_def manifestRecordLimit_def)

end
