(* ===== verification/Exec.thy ===== *)
theory Exec
  imports Materialise TimeFilter Store
begin

text \<open>
  Walking the groups of a snapshot: the loops of \<^verbatim>\<open>Run\<close> and \<^verbatim>\<open>runNewest\<close> of \<^verbatim>\<open>internal/query/engine.go\<close> and
  \<^verbatim>\<open>runParallel\<close> of \<^verbatim>\<open>parallel.go\<close>.

  A group is named by its address in the store's heap of entries, so that a run can thread the index cache of each group.  What the
  context and the clock answer at the \<open>n\<close>-th budget check of a run is an argument, \<open>env n\<close>.  The worker pool of the parallel walk
  is a machine whose steps are the shared accesses of its workers, in any order.  The query is one an executor has bound, so the reason
  it stopped for is recorded.
\<close>

section \<open>Budgets\<close>

datatype stop_reason = ErrCanceled | ErrDeadlineExceeded | ErrRowLimit int | ErrByteLimit | ErrMemoryLimit | ErrTooManyGroups nat int | ErrRejected

record run_state =
  checks :: nat
  stopped :: "stop_reason option"
  caches :: "nat \<Rightarrow> idx_cache"

definition stop :: "stop_reason \<Rightarrow> run_state \<Rightarrow> run_state" where
  "stop e st = (case stopped st of None \<Rightarrow> st\<lparr>stopped := Some e\<rparr> | Some _ \<Rightarrow> st)"

type_synonym clock_env = "nat \<Rightarrow> stop_reason option"

definition exceeded :: "clock_env \<Rightarrow> run_opts \<Rightarrow> int \<Rightarrow> run_state \<Rightarrow> bool \<times> run_state" where
  "exceeded env o' n st = (let st' = st\<lparr>checks := checks st + 1\<rparr> in
     case env (checks st) of Some e \<Rightarrow> (True, stop e st')
     | None \<Rightarrow> if MaxBytes o' > 0 \<and> n > MaxBytes o' then (True, stop ErrByteLimit st')
         else if maxMemory o' > 0 \<and> n > maxMemory o' then (True, stop ErrMemoryLimit st')
         else (False, st'))"

definition countsBytes :: "run_opts \<Rightarrow> bool" where
  "countsBytes o' \<longleftrightarrow> MaxBytes o' > 0 \<or> maxMemory o' > 0"

definition rows_bytes :: "run_opts \<Rightarrow> Row list \<Rightarrow> int" where
  "rows_bytes o' rows = (if countsBytes o' then foldl (\<lambda>n r. n + int (rowBytes r)) 0 rows else 0)"

section \<open>The serial walks\<close>

text \<open>What a run takes from its environment: kernels, library functions, the order of a map walk, time formatting, a reused buffer.\<close>

record ('f, 're) engine =
  en_simd :: simd_kernels
  en_lib :: "('f, 're) golib"
  en_read :: read_kernels
  en_ord :: "bytes set \<Rightarrow> bytes list"
  en_fmt :: "u64 \<Rightarrow> bytes"
  en_pool :: "u64 list"

definition append_group :: "('f, 're) engine \<Rightarrow> (nat \<Rightarrow> Reader) \<Rightarrow> ('f, 're) Query \<Rightarrow> run_opts \<Rightarrow> nat \<Rightarrow> Row list \<Rightarrow> run_state
    \<Rightarrow> (Row list \<times> run_state) option" where
  "append_group E rdr q o' a out st = do {
     (out', s') \<leftarrow> appendMatches (en_simd E) (en_lib E) (en_read E) (en_ord E) (en_fmt E) (en_pool E) (rdr a) q o' out (caches st a);
     Some (out', st\<lparr>caches := (caches st)(a := s')\<rparr>)
   }"

fun prune :: "clock_env \<Rightarrow> ('f, 're) engine \<Rightarrow> (nat \<Rightarrow> Reader) \<Rightarrow> ('f, 're) Query \<Rightarrow> run_opts \<Rightarrow> nat list \<Rightarrow> run_state
    \<Rightarrow> (nat list \<times> run_state) option" where
  "prune env E rdr q o' [] st = Some ([], st)"
| "prune env E rdr q o' (a # as) st = (case exceeded env o' 0 st of
     (True, st') \<Rightarrow> Some ([], st')
   | (False, st') \<Rightarrow> do {
       x \<leftarrow> groupCanMatch (en_lib E) (en_read E) (rdr a) q;
       (rest, st'') \<leftarrow> prune env E rdr q o' as st';
       Some (if x then a # rest else rest, st'')
     })"

fun run_serial :: "clock_env \<Rightarrow> ('f, 're) engine \<Rightarrow> (nat \<Rightarrow> Reader) \<Rightarrow> ('f, 're) Query \<Rightarrow> run_opts \<Rightarrow> nat list \<Rightarrow> Row list \<Rightarrow> int \<Rightarrow> run_state
    \<Rightarrow> (Row list \<times> run_state) option" where
  "run_serial env E rdr q o' [] out n st = Some (out, st)"
| "run_serial env E rdr q o' (a # as) out n st = do {
     (out', st1) \<leftarrow> append_group E rdr q o' a out st;
     let n' = n + rows_bytes o' (drop (length out) out');
     if Limit o' > 0 \<and> int (length out') \<ge> Limit o' then Some (take (nat (Limit o')) out', st1)
     else if RowMax o' > 0 \<and> int (length out') > RowMax o' then Some (out', stop (ErrRowLimit (RowMax o')) st1)
     else (case exceeded env o' n' st1 of
       (True, st2) \<Rightarrow> Some (out', st2)
     | (False, st2) \<Rightarrow> run_serial env E rdr q o' as out' n' st2)
   }"

definition sortByTimeDesc :: "Row list \<Rightarrow> Row list" where
  "sortByTimeDesc rows = sort_key (\<lambda>r. - sint (Time r)) rows"

definition cut_newest :: "run_opts \<Rightarrow> Row list \<Rightarrow> Row list" where
  "cut_newest o' out = take (nat (LastN o')) (sortByTimeDesc out)"

text \<open>The groups from the newest backwards: the argument lists them in that order, so the next group is the head of the rest.\<close>

fun run_newest :: "clock_env \<Rightarrow> ('f, 're) engine \<Rightarrow> (nat \<Rightarrow> Reader) \<Rightarrow> ('f, 're) Query \<Rightarrow> run_opts \<Rightarrow> nat list \<Rightarrow> Row list \<Rightarrow> int \<Rightarrow> run_state
    \<Rightarrow> (Row list \<times> run_state) option" where
  "run_newest env E rdr q o' [] out n st = Some (cut_newest o' out, st)"
| "run_newest env E rdr q o' (a # as) out n st = do {
     (out', st1) \<leftarrow> append_group E rdr q o' a out st;
     let n' = n + rows_bytes o' (drop (length out) out');
     (case exceeded env o' n' st1 of
       (True, st2) \<Rightarrow> Some (cut_newest o' out', st2)
     | (False, st2) \<Rightarrow>
         if int (length out') < LastN o' then run_newest env E rdr q o' as out' n' st2
         else (let kept = cut_newest o' out' in
           case as of [] \<Rightarrow> Some (kept, st2)
           | b # _ \<Rightarrow> if kept = [] then None
               else if sint (TimeMax (rdr b)) < sint (Time (last kept)) then Some (kept, st2)
               else run_newest env E rdr q o' as kept n' st2))
   }"

section \<open>The worker pool\<close>

text \<open>
  A worker between its shared accesses: about to receive, past the row ceiling, past reading the byte total, scanning, past adding to the
  byte total, past the budget check, gone.
\<close>

datatype worker = Receiving | Capped nat | Loaded nat int | Scanning nat | Added nat int | Checked nat | Gone

record pool =
  chan :: "nat list"
  crew :: "worker list"
  parts :: "Row list list"
  produced :: nat
  scanned :: int
  run :: run_state

text \<open>The next access of worker \<open>w\<close> over the groups \<open>as\<close>; \<open>None\<close> when it has gone or the scan panics.\<close>

definition pool_do :: "clock_env \<Rightarrow> ('f, 're) engine \<Rightarrow> (nat \<Rightarrow> Reader) \<Rightarrow> ('f, 're) Query \<Rightarrow> run_opts \<Rightarrow> nat list \<Rightarrow> nat \<Rightarrow> pool \<Rightarrow> pool option" where
  "pool_do env E rdr q o' as w p = (case crew p ! w of
     Receiving \<Rightarrow> (case chan p of
         [] \<Rightarrow> Some (p\<lparr>crew := (crew p)[w := Gone]\<rparr>)
       | i # rest \<Rightarrow> if RowMax o' > 0 \<and> int (produced p) > RowMax o' then Some (p\<lparr>chan := rest, run := stop (ErrRowLimit (RowMax o')) (run p)\<rparr>)
           else Some (p\<lparr>chan := rest, crew := (crew p)[w := Capped i]\<rparr>))
   | Capped i \<Rightarrow> Some (p\<lparr>crew := (crew p)[w := Loaded i (scanned p)]\<rparr>)
   | Loaded i n \<Rightarrow> (case exceeded env o' n (run p) of
         (True, st) \<Rightarrow> Some (p\<lparr>crew := (crew p)[w := Receiving], run := st\<rparr>)
       | (False, st) \<Rightarrow> Some (p\<lparr>crew := (crew p)[w := Scanning i], run := st\<rparr>))
   | Scanning i \<Rightarrow> do {
       (rows, st) \<leftarrow> append_group E rdr q o' (as ! i) [] (run p);
       let n = rows_bytes o' rows;
       Some (p\<lparr>parts := (parts p)[i := rows], scanned := scanned p + n, crew := (crew p)[w := Added i (scanned p + n)], run := st\<rparr>)
     }
   | Added i n \<Rightarrow> Some (p\<lparr>crew := (crew p)[w := Checked i], run := snd (exceeded env o' n (run p))\<rparr>)
   | Checked i \<Rightarrow> Some (p\<lparr>crew := (crew p)[w := Receiving], produced := (if RowMax o' > 0 then produced p + length (parts p ! i) else produced p)\<rparr>)
   | Gone \<Rightarrow> None)"

definition pool_start :: "nat list \<Rightarrow> nat \<Rightarrow> run_state \<Rightarrow> pool" where
  "pool_start as workers st = \<lparr>chan = [0..<length as], crew = replicate workers Receiving, parts = replicate (length as) [],
     produced = 0, scanned = 0, run = st\<rparr>"

inductive pool_reach :: "clock_env \<Rightarrow> ('f, 're) engine \<Rightarrow> (nat \<Rightarrow> Reader) \<Rightarrow> ('f, 're) Query \<Rightarrow> run_opts \<Rightarrow> nat list \<Rightarrow> nat \<Rightarrow> run_state \<Rightarrow> pool \<Rightarrow> bool"
  for env E rdr q o' as workers st where
  start: "pool_reach env E rdr q o' as workers st (pool_start as workers st)"
| step: "pool_reach env E rdr q o' as workers st p \<Longrightarrow> w < length (crew p) \<Longrightarrow> pool_do env E rdr q o' as w p = Some p'
     \<Longrightarrow> pool_reach env E rdr q o' as workers st p'"

definition pool_done :: "pool \<Rightarrow> bool" where
  "pool_done p \<longleftrightarrow> list_all (\<lambda>c. c = Gone) (crew p)"

text \<open>\<^verbatim>\<open>runParallel\<close>: an outcome of the pool.\<close>

definition runParallel :: "clock_env \<Rightarrow> ('f, 're) engine \<Rightarrow> (nat \<Rightarrow> Reader) \<Rightarrow> ('f, 're) Query \<Rightarrow> run_opts \<Rightarrow> nat list \<Rightarrow> nat \<Rightarrow> run_state
    \<Rightarrow> Row list \<times> run_state \<Rightarrow> bool" where
  "runParallel env E rdr q o' as workers st res \<longleftrightarrow>
     (\<exists>p. pool_reach env E rdr q o' as workers st p \<and> pool_done p \<and> res = (concat (parts p), run p))"

section \<open>Groups that can be scanned\<close>

lemma stop_stops [simp]: "stopped (stop e st) \<noteq> None" "\<exists>y. stopped (stop e st) = Some y" "caches (stop e st) = caches st"
  by (simp_all add: stop_def split: option.split)

lemma exceeded_facts:
  assumes "exceeded env o' n st = (b, st')"
  shows "caches st' = caches st" and "b \<Longrightarrow> stopped st' \<noteq> None" and "\<not> b \<Longrightarrow> stopped st' = stopped st" and "stopped st \<noteq> None \<Longrightarrow> stopped st' = stopped st"
    and "env (checks st) = None \<Longrightarrow> (MaxBytes o' > 0 \<longrightarrow> n \<le> MaxBytes o') \<Longrightarrow> (maxMemory o' > 0 \<longrightarrow> n \<le> maxMemory o') \<Longrightarrow> \<not> b"
  using assms by (auto simp: exceeded_def stop_def Let_def split: option.splits if_splits)

text \<open>
  Keeping the newest: \<open>covers n k x\<close> says that \<open>k\<close> is part of \<open>x\<close> and that every row left out has \<open>n\<close> kept rows at least as new.
\<close>

definition as_new :: "Row \<Rightarrow> Row \<Rightarrow> bool" where
  "as_new x y \<longleftrightarrow> sint (Time x) \<le> sint (Time y)"

definition covers :: "nat \<Rightarrow> Row multiset \<Rightarrow> Row multiset \<Rightarrow> bool" where
  "covers n k x \<longleftrightarrow> k \<subseteq># x \<and> (\<forall>r \<in># x - k. n \<le> size (filter_mset (as_new r) k))"

lemma covers_refl [simp]: "covers n k k"
  by (simp add: covers_def)

lemma covers_add: "covers n k x \<Longrightarrow> covers n (k + z) (x + z)"
  by (auto simp: covers_def intro: order_trans)

lemma covers_trans:
  assumes kj: "covers n k j" and jx: "covers n j x"
  shows "covers n k x"
proof -
  have sub: "k \<subseteq># j" "j \<subseteq># x" using assms by (simp_all add: covers_def)
  have "n \<le> size (filter_mset (as_new r) k)" if r: "r \<in># x - k" for r
  proof -
    have "x - k = (x - j) + (j - k)" using sub by (metis subset_mset.add_diff_assoc2 subset_mset.diff_add subset_mset.dual_order.trans add.commute subset_mset.le_diff_conv2 multiset_diff_union_assoc)
    then consider "r \<in># x - j" | "r \<in># j - k" using r by auto
    then show ?thesis
    proof cases
      case 1
      then have n: "n \<le> size (filter_mset (as_new r) j)" using jx by (simp add: covers_def)
      show ?thesis
      proof (cases "filter_mset (as_new r) (j - k) = {#}")
        case True
        have "filter_mset (as_new r) j = filter_mset (as_new r) k + filter_mset (as_new r) (j - k)"
          using sub(1) by (metis filter_union_mset subset_mset.add_diff_inverse)
        then show ?thesis using n True by simp
      next
        case False
        then obtain y where "y \<in># filter_mset (as_new r) (j - k)" by blast
        then have y: "y \<in># j - k" "as_new r y" by (simp_all only: set_mset_filter mem_Collect_eq)
        then have "n \<le> size (filter_mset (as_new y) k)" using kj by (simp add: covers_def)
        also have "filter_mset (as_new y) k \<subseteq># filter_mset (as_new r) k"
          using y(2) by (intro filter_mset_mono_strong) (auto simp: as_new_def)
        then have "size (filter_mset (as_new y) k) \<le> size (filter_mset (as_new r) k)" by (rule size_mset_mono)
        finally show ?thesis .
      qed
    next
      case 2
      then show ?thesis using kj by (simp add: covers_def)
    qed
  qed
  then show ?thesis using sub by (auto simp: covers_def)
qed

lemma covers_split:
  assumes "\<And>x y. x \<in> set dropped \<Longrightarrow> y \<in> set kept \<Longrightarrow> as_new x y" and "dropped \<noteq> [] \<Longrightarrow> n \<le> length kept"
  shows "covers n (mset kept) (mset (dropped @ kept))"
proof -
  have "filter_mset (as_new x) (mset kept) = mset kept" if "x \<in> set dropped" for x
    using assms(1) [OF that] by (simp add: filter_mset_eq_conv)
  then show ?thesis using assms(2) by (fastforce simp: covers_def)
qed

lemma sortByTimeDesc_facts: "mset (sortByTimeDesc rows) = mset rows" "sorted_wrt (\<lambda>x y. as_new y x) (sortByTimeDesc rows)"
proof -
  show "mset (sortByTimeDesc rows) = mset rows" by (simp add: sortByTimeDesc_def)
  have "sorted (map (\<lambda>r. - sint (Time r)) (sortByTimeDesc rows))" by (simp add: sortByTimeDesc_def)
  then show "sorted_wrt (\<lambda>x y. as_new y x) (sortByTimeDesc rows)" by (simp add: sorted_map as_new_def)
qed

lemma cut_newest_facts:
  shows "covers (nat (LastN o')) (mset (cut_newest o' rows)) (mset rows)" and "sorted_wrt (\<lambda>x y. as_new y x) (cut_newest o' rows)"
    and "length (cut_newest o' rows) = min (nat (LastN o')) (length rows)"
proof -
  let ?n = "nat (LastN o')" and ?s = "sortByTimeDesc rows"
  note f = sortByTimeDesc_facts [of rows]
  have len: "length ?s = length rows" using f(1) by (metis size_mset)
  have app: "sorted_wrt (\<lambda>x y. as_new y x) (take ?n ?s @ drop ?n ?s)" using f(2) by simp
  then have "as_new x y" if "x \<in> set (drop ?n ?s)" "y \<in> set (take ?n ?s)" for x y using that by (simp only: sorted_wrt_append)
  then have "covers ?n (mset (take ?n ?s)) (mset (drop ?n ?s @ take ?n ?s))" by (rule covers_split) auto
  also have "mset (drop ?n ?s @ take ?n ?s) = mset rows" using f(1) by (metis add.commute append_take_drop_id mset_append)
  finally show "covers ?n (mset (cut_newest o' rows)) (mset rows)" by (simp add: cut_newest_def)
  show "sorted_wrt (\<lambda>x y. as_new y x) (cut_newest o' rows)" using f(2) by (simp add: cut_newest_def sorted_wrt_take)
  show "length (cut_newest o' rows) = min ?n (length rows)" using len by (simp add: cut_newest_def)
qed

text \<open>The \<open>n\<close> newest rows of \<open>all\<close>, newest first.\<close>

definition newest :: "nat \<Rightarrow> Row list \<Rightarrow> Row list \<Rightarrow> bool" where
  "newest n rows all \<longleftrightarrow> sorted_wrt (\<lambda>x y. as_new y x) rows \<and> length rows = min n (length all) \<and> mset rows \<subseteq># mset all
     \<and> (\<forall>x \<in># mset all - mset rows. \<forall>y \<in> set rows. as_new x y)"

lemma covers_newest:
  assumes "covers n (mset rows) (mset all)" and "sorted_wrt (\<lambda>x y. as_new y x) rows" and "length rows \<le> n"
  shows "newest n rows all"
proof -
  have sub: "mset rows \<subseteq># mset all" using assms(1) by (simp add: covers_def)
  have new: "as_new x y" "n \<le> length rows" if "x \<in># mset all - mset rows" "y \<in> set rows" for x y
  proof -
    have n: "n \<le> size (filter_mset (as_new x) (mset rows))" using assms(1) that(1) by (simp add: covers_def)
    then show "n \<le> length rows" using size_filter_mset_lesseq [of "as_new x" "mset rows"] by simp
    have "size (filter_mset (as_new x) (mset rows)) = size (mset rows)"
      using n assms(3) size_filter_mset_lesseq [of "as_new x" "mset rows"] by simp
    then have "filter_mset (as_new x) (mset rows) = mset rows" using multiset_filter_subset [of "as_new x" "mset rows"]
      by (metis mset_subset_size nat_neq_iff subset_mset.le_less)
    then show "as_new x y" using that(2) by (metis filter_mset_eq_conv set_mset_mset)
  qed
  have "length rows = min n (length all)"
  proof (cases "mset all - mset rows = {#}")
    case True
    then have "mset rows = mset all" using sub by (metis add.right_neutral subset_mset.add_diff_inverse)
    then show ?thesis using assms(3) by (metis min.absorb2 mset_eq_length)
  next
    case False
    then obtain x where x: "x \<in># mset all - mset rows" by blast
    then have "n \<le> size (filter_mset (as_new x) (mset rows))" using assms(1) by (simp add: covers_def)
    then have "n \<le> length rows" using size_filter_mset_lesseq [of "as_new x" "mset rows"] by simp
    moreover have "length rows \<le> length all" using size_mset_mono [OF sub] by simp
    ultimately show ?thesis using assms(3) by simp
  qed
  with assms(2) sub new(1) show ?thesis by (simp add: newest_def)
qed

text \<open>The group a worker has in hand, and the one it has yet to scan.\<close>

fun in_hand :: "worker \<Rightarrow> nat option" where
  "in_hand (Capped i) = Some i" | "in_hand (Loaded i n) = Some i" | "in_hand (Scanning i) = Some i"
| "in_hand (Added i n) = Some i" | "in_hand (Checked i) = Some i" | "in_hand Receiving = None" | "in_hand Gone = None"

fun awaited :: "worker \<Rightarrow> nat option" where
  "awaited (Capped i) = Some i" | "awaited (Loaded i n) = Some i" | "awaited (Scanning i) = Some i"
| "awaited (Added i n) = None" | "awaited (Checked i) = None" | "awaited Receiving = None" | "awaited Gone = None"

text \<open>The work left in the pool; each access reduces it.\<close>

fun worker_left :: "worker \<Rightarrow> nat" where
  "worker_left (Capped i) = 6" | "worker_left (Loaded i n) = 5" | "worker_left (Scanning i) = 4"
| "worker_left (Added i n) = 3" | "worker_left (Checked i) = 2" | "worker_left Receiving = 1" | "worker_left Gone = 0"

definition pool_measure :: "pool \<Rightarrow> nat" where
  "pool_measure p = 6 * length (chan p) + sum_list (map worker_left (crew p))"

lemma crew_left:
  assumes "w < length cs"
  shows "sum_list (map worker_left (cs[w := d])) + worker_left (cs ! w) = sum_list (map worker_left cs) + worker_left d"
proof -
  have "worker_left (cs ! w) \<le> sum_list (map worker_left cs)" using member_le_sum_list [of "worker_left (cs ! w)" "map worker_left cs"] assms by simp
  then show ?thesis using assms by (simp add: map_update sum_list_update)
qed

lemma pool_do_cases:
  assumes "pool_do env E rdr q o' as w p = Some p'"
  obtains (leave) "crew p ! w = Receiving" "chan p = []" "p' = p\<lparr>crew := (crew p)[w := Gone]\<rparr>"
  | (refuse) i rest where "crew p ! w = Receiving" "chan p = i # rest" "p' = p\<lparr>chan := rest, run := stop (ErrRowLimit (RowMax o')) (run p)\<rparr>"
      "RowMax o' > 0" "int (produced p) > RowMax o'"
  | (take) i rest where "crew p ! w = Receiving" "chan p = i # rest" "p' = p\<lparr>chan := rest, crew := (crew p)[w := Capped i]\<rparr>"
  | (load) i where "crew p ! w = Capped i" "p' = p\<lparr>crew := (crew p)[w := Loaded i (scanned p)]\<rparr>"
  | (trip) i n st where "crew p ! w = Loaded i n" "exceeded env o' n (run p) = (True, st)" "p' = p\<lparr>crew := (crew p)[w := Receiving], run := st\<rparr>"
  | (admit) i n st where "crew p ! w = Loaded i n" "exceeded env o' n (run p) = (False, st)" "p' = p\<lparr>crew := (crew p)[w := Scanning i], run := st\<rparr>"
  | (scan) i rows st where "crew p ! w = Scanning i" "append_group E rdr q o' (as ! i) [] (run p) = Some (rows, st)"
      "p' = p\<lparr>parts := (parts p)[i := rows], scanned := scanned p + rows_bytes o' rows, crew := (crew p)[w := Added i (scanned p + rows_bytes o' rows)], run := st\<rparr>"
  | (add) i n b st where "crew p ! w = Added i n" "exceeded env o' n (run p) = (b, st)" "p' = p\<lparr>crew := (crew p)[w := Checked i], run := st\<rparr>"
  | (count) i where "crew p ! w = Checked i"
      "p' = p\<lparr>crew := (crew p)[w := Receiving], produced := (if RowMax o' > 0 then produced p + length (parts p ! i) else produced p)\<rparr>"
proof (cases "crew p ! w")
  case Receiving
  then show ?thesis using assms leave refuse take by (auto simp: pool_do_def split: list.splits if_splits)
next
  case (Capped i)
  then show ?thesis using assms load by (simp add: pool_do_def)
next
  case (Loaded i n)
  then show ?thesis using assms trip admit by (cases "exceeded env o' n (run p)") (auto simp: pool_do_def split: bool.splits)
next
  case (Scanning i)
  then show ?thesis using assms scan by (auto simp: pool_do_def Let_def split: Option.bind_splits)
next
  case (Added i n)
  then show ?thesis using assms add by (cases "exceeded env o' n (run p)") (simp add: pool_do_def)
next
  case (Checked i)
  then show ?thesis using assms count by (simp add: pool_do_def)
next
  case Gone
  then show ?thesis using assms by (simp add: pool_do_def)
qed

lemma pool_decreases:
  assumes "pool_do env E rdr q o' as w p = Some p'" and "w < length (crew p)"
  shows "pool_measure p' < pool_measure p"
  using assms(1)
proof (cases rule: pool_do_cases)
  case leave
  then show ?thesis using crew_left [OF assms(2), of Gone] by (simp add: pool_measure_def)
next
  case refuse
  then show ?thesis by (simp add: pool_measure_def)
next
  case (take i)
  then show ?thesis using crew_left [OF assms(2), of "Capped i"] by (simp add: pool_measure_def)
next
  case (load i)
  then show ?thesis using crew_left [OF assms(2), of "Loaded i (scanned p)"] by (simp add: pool_measure_def)
next
  case trip
  then show ?thesis using crew_left [OF assms(2), of Receiving] by (simp add: pool_measure_def)
next
  case (admit i)
  then show ?thesis using crew_left [OF assms(2), of "Scanning i"] by (simp add: pool_measure_def)
next
  case (scan i rows)
  then show ?thesis using crew_left [OF assms(2), of "Added i (scanned p + rows_bytes o' rows)"] by (simp add: pool_measure_def)
next
  case (add i)
  then show ?thesis using crew_left [OF assms(2), of "Checked i"] by (simp add: pool_measure_def)
next
  case count
  then show ?thesis using crew_left [OF assms(2), of Receiving] by (simp add: pool_measure_def)
qed

lemma pool_do_frame:
  assumes "pool_do env E rdr q o' as w p = Some p'"
  shows "length (crew p') = length (crew p)" and "stopped (run p) \<noteq> None \<Longrightarrow> stopped (run p') \<noteq> None"
proof -
  show "length (crew p') = length (crew p)" using assms by (cases rule: pool_do_cases) simp_all
  have "stopped (run p') \<noteq> None" if s: "stopped (run p) \<noteq> None"
    using assms
  proof (cases rule: pool_do_cases)
    case trip
    then show ?thesis using exceeded_facts(4) [OF trip(2) s] s by simp
  next
    case admit
    then show ?thesis using exceeded_facts(4) [OF admit(2) s] s by simp
  next
    case add
    then show ?thesis using exceeded_facts(4) [OF add(2) s] s by simp
  next
    case scan
    then have "stopped (run p') = stopped (run p)" by (auto simp: append_group_def split: Option.bind_splits)
    then show ?thesis using s by simp
  qed (use s in simp_all)
  then show "stopped (run p) \<noteq> None \<Longrightarrow> stopped (run p') \<noteq> None" .
qed

text \<open>
  What the walks rely on of the groups at the addresses \<open>A\<close>: materialising a group appends the rows of its matches, \<open>hit\<close>, and the
  footer test skips only groups without one.
\<close>

locale group_scan =
  fixes E :: "('f, 're) engine" and rdr :: "nat \<Rightarrow> Reader" and q :: "('f, 're) Query" and o' :: run_opts and A :: "nat set"
    and hit :: "nat \<Rightarrow> nat list" and row_at :: "nat \<Rightarrow> nat \<Rightarrow> Row"
  assumes appends: "a \<in> A \<Longrightarrow> cache_coherent (en_read E) (rdr a) s \<Longrightarrow>
      \<exists>s'. appendMatches (en_simd E) (en_lib E) (en_read E) (en_ord E) (en_fmt E) (en_pool E) (rdr a) q o' out s
            = Some (out @ map (row_at a) (keep_rows o' (length out) (hit a)), s') \<and> cache_coherent (en_read E) (rdr a) s'"
    and skips: "a \<in> A \<Longrightarrow> \<exists>x. groupCanMatch (en_lib E) (en_read E) (rdr a) q = Some x \<and> (\<not> x \<longrightarrow> hit a = [])"
begin

definition good :: "run_state \<Rightarrow> bool" where
  "good st \<longleftrightarrow> (\<forall>a \<in> A. cache_coherent (en_read E) (rdr a) (caches st a))"

text \<open>All matching rows of a list of groups.\<close>

definition answer :: "nat list \<Rightarrow> Row list" where
  "answer as = concat (map (\<lambda>a. map (row_at a) (hit a)) as)"

lemma answer_simps [simp]: "answer [] = []" "answer (a # as) = map (row_at a) (hit a) @ answer as"
  by (simp_all add: answer_def)

lemma answer_append [simp]: "answer (as @ bs) = answer as @ answer bs"
  by (simp add: answer_def)

lemma good_caches: "caches st' = caches st \<Longrightarrow> good st' \<longleftrightarrow> good st"
  by (simp add: good_def)

lemma good_exceeded: "exceeded env o' n st = (b, st') \<Longrightarrow> good st' \<longleftrightarrow> good st"
  by (rule good_caches) (rule exceeded_facts)

lemma good_stop [simp]: "good (stop e st) \<longleftrightarrow> good st"
  by (rule good_caches) simp

lemma append_group_ok:
  assumes "a \<in> A" and "good st"
  shows "\<exists>st'. append_group E rdr q o' a out st = Some (out @ map (row_at a) (keep_rows o' (length out) (hit a)), st') \<and> good st' \<and> stopped st' = stopped st
    \<and> checks st' = checks st"
  using appends [OF assms(1), of "caches st a" out] assms by (fastforce simp: append_group_def good_def)

lemma prune_ok:
  assumes "set as \<subseteq> A" and "good st"
  shows "\<exists>bs st'. prune env E rdr q o' as st = Some (bs, st') \<and> good st' \<and> set bs \<subseteq> set as \<and> (\<forall>P. sorted_wrt P as \<longrightarrow> sorted_wrt P bs)
    \<and> (stopped st \<noteq> None \<longrightarrow> stopped st' \<noteq> None) \<and> (stopped st' = None \<longrightarrow> answer bs = answer as)"
  using assms
proof (induction as arbitrary: st)
  case (Cons a as)
  obtain b st1 where ex: "exceeded env o' 0 st = (b, st1)" by (cases "exceeded env o' 0 st")
  note ef = exceeded_facts [OF ex] and g1 = good_exceeded [OF ex]
  show ?case
  proof (cases b)
    case True
    then show ?thesis using ex ef(2) g1 Cons.prems by auto
  next
    case False
    obtain x where x: "groupCanMatch (en_lib E) (en_read E) (rdr a) q = Some x" "\<not> x \<longrightarrow> hit a = []" using skips [of a] Cons.prems(1) by auto
    obtain bs st2 where p: "prune env E rdr q o' as st1 = Some (bs, st2)" "good st2" "set bs \<subseteq> set as" "\<forall>P. sorted_wrt P as \<longrightarrow> sorted_wrt P bs"
      "stopped st1 \<noteq> None \<longrightarrow> stopped st2 \<noteq> None" "stopped st2 = None \<longrightarrow> answer bs = answer as"
      using Cons.IH [of st1] Cons.prems g1 by auto
    show ?thesis using ex False x p ef(4) by (cases x) auto
  qed
qed simp

lemma keep_unbounded: "Limit o' \<le> 0 \<Longrightarrow> LastN o' \<le> 0 \<Longrightarrow> keep_rows o' n rows = rows"
  by (simp add: keep_rows_def)

text \<open>The serial walk returns the answer, cut at a limit, unless it records why it stopped.\<close>

lemma run_serial_ok:
  assumes "set as \<subseteq> A" and "good st" and last: "LastN o' \<le> 0" and "Limit o' > 0 \<Longrightarrow> int (length out) < Limit o'"
  shows "\<exists>rows st'. run_serial env E rdr q o' as out n st = Some (rows, st') \<and> good st' \<and> (stopped st \<noteq> None \<longrightarrow> stopped st' \<noteq> None)
    \<and> (stopped st' = None \<longrightarrow> rows = (if Limit o' > 0 then take (nat (Limit o')) (out @ answer as) else out @ answer as))"
  using assms(1,2,4)
proof (induction as arbitrary: out n st)
  case (Cons a as)
  let ?new = "map (row_at a) (keep_rows o' (length out) (hit a))"
  obtain st1 where st1: "append_group E rdr q o' a out st = Some (out @ ?new, st1)" "good st1" "stopped st1 = stopped st"
    using append_group_ok [of a st out] Cons.prems by auto
  have cut: "(if Limit o' > 0 then take (nat (Limit o')) (out @ map (row_at a) (hit a) @ xs) else out @ map (row_at a) (hit a) @ xs)
    = (if Limit o' > 0 then take (nat (Limit o')) ((out @ ?new) @ xs) else (out @ ?new) @ xs)"
    if "\<not> (Limit o' > 0 \<and> int (length (out @ ?new)) \<ge> Limit o')" for xs
    using that last by (auto simp: keep_rows_def take_map split: if_splits)
  have full: "take (nat (Limit o')) (out @ ?new) = take (nat (Limit o')) (out @ map (row_at a) (hit a) @ xs)"
    if "Limit o' > 0" "int (length (out @ ?new)) \<ge> Limit o'" for xs
  proof -
    have le: "length out \<le> nat (Limit o')" using Cons.prems(3) that(1) by linarith
    have "nat (Limit o' - int (length out)) = nat (Limit o') - length out" by linarith
    then have new: "?new = take (nat (Limit o') - length out) (map (row_at a) (hit a))"
      using last that(1) by (simp add: keep_rows_def take_map)
    then have "nat (Limit o') - length out \<le> length (hit a)" using le that(2) by (simp add: min_def split: if_splits)
    then show ?thesis using le new by simp
  qed
  let ?n = "n + rows_bytes o' (drop (length out) (out @ ?new))"
  obtain b st2 where ex: "exceeded env o' ?n st1 = (b, st2)" by (cases "exceeded env o' ?n st1")
  note ef = exceeded_facts [OF ex] and g2 = good_exceeded [OF ex]
  consider (filled) "Limit o' > 0 \<and> int (length (out @ ?new)) \<ge> Limit o'"
    | (capped) "\<not> (Limit o' > 0 \<and> int (length (out @ ?new)) \<ge> Limit o')" "RowMax o' > 0 \<and> int (length (out @ ?new)) > RowMax o'"
    | (onward) "\<not> (Limit o' > 0 \<and> int (length (out @ ?new)) \<ge> Limit o')" "\<not> (RowMax o' > 0 \<and> int (length (out @ ?new)) > RowMax o')" by blast
  then show ?case
  proof cases
    case filled
    then show ?thesis using st1 full [of "answer as"] by simp
  next
    case capped
    then show ?thesis using st1 by (simp del: length_append)
  next
    case onward
    show ?thesis
    proof (cases b)
      case True
      have "run_serial env E rdr q o' (a # as) out n st = Some (out @ ?new, st2)"
        using onward st1(1) ex True by (simp only: run_serial.simps Option.bind.bind_lunit prod.case Let_def if_False bool.case)
      then show ?thesis using st1(2) g2 ef(2) True by auto
    next
      case False
      have lim: "int (length (out @ ?new)) < Limit o'" if "Limit o' > 0" using onward(1) that by linarith
      obtain rows st' where r: "run_serial env E rdr q o' as (out @ ?new) ?n st2 = Some (rows, st')" "good st'" "stopped st2 \<noteq> None \<longrightarrow> stopped st' \<noteq> None"
        "stopped st' = None \<longrightarrow> rows = (if Limit o' > 0 then take (nat (Limit o')) ((out @ ?new) @ answer as) else (out @ ?new) @ answer as)"
        using Cons.IH [of st2 "out @ ?new" ?n] Cons.prems(1) st1(2) g2 lim by auto
      have "run_serial env E rdr q o' (a # as) out n st = Some (rows, st')"
        using onward st1(1) ex False r(1) by (simp only: run_serial.simps Option.bind.bind_lunit prod.case Let_def if_False bool.case)
      then show ?thesis using r(2-4) st1(3) ef(3,4) False cut [OF onward(1), of "answer as"] by auto
    qed
  qed
qed auto

text \<open>
  The pool: each group is in the channel, in the hands of one worker before its scan, or scanned; only a recorded stop lets one be dropped.
\<close>

definition part_at :: "nat list \<Rightarrow> nat \<Rightarrow> Row list" where
  "part_at as i = map (row_at (as ! i)) (hit (as ! i))"

definition pool_inv :: "nat list \<Rightarrow> pool \<Rightarrow> bool" where
  "pool_inv as p \<longleftrightarrow> good (run p) \<and> length (parts p) = length as \<and> set (chan p) \<subseteq> {..<length as}
     \<and> (\<forall>c \<in> set (crew p). \<forall>i. in_hand c = Some i \<longrightarrow> i < length as) \<and> (Gone \<in> set (crew p) \<longrightarrow> chan p = [])
     \<and> (\<forall>i < length as. parts p ! i = [] \<or> parts p ! i = part_at as i)
     \<and> (stopped (run p) = None \<longrightarrow> (\<forall>i < length as. i \<in> set (chan p) \<or> parts p ! i = part_at as i \<or> (\<exists>c \<in> set (crew p). awaited c = Some i)))"

lemma pool_start_inv: "good st \<Longrightarrow> pool_inv as (pool_start as workers st)"
  by (auto simp: pool_inv_def pool_start_def)

lemma set_crew:
  assumes "w < length cs"
  shows "c \<in> set (cs[w := d]) \<Longrightarrow> c = d \<or> c \<in> set cs" and "d \<in> set (cs[w := d])" and "c \<in> set cs \<Longrightarrow> c \<noteq> cs ! w \<Longrightarrow> c \<in> set (cs[w := d])"
proof -
  show "c \<in> set (cs[w := d]) \<Longrightarrow> c = d \<or> c \<in> set cs" using set_update_subset_insert by fastforce
  show "d \<in> set (cs[w := d])" using assms by (simp add: set_update_memI)
  show "c \<in> set cs \<Longrightarrow> c \<noteq> cs ! w \<Longrightarrow> c \<in> set (cs[w := d])"
    by (metis in_set_conv_nth length_list_update nth_list_update_neq)
qed

text \<open>One access keeps the invariant when it hands every group on, or records a stop.\<close>

lemma pool_inv_hand_on:
  assumes inv: "pool_inv as p" and w: "w < length (crew p)"
    and p': "crew p' = (crew p)[w := d]" "length (parts p') = length as" "good (run p')" "set (chan p') \<subseteq> set (chan p)"
    and d: "\<And>i. in_hand d = Some i \<Longrightarrow> i < length as" "d = Gone \<Longrightarrow> chan p = []"
    and parts: "\<And>i. i < length as \<Longrightarrow> parts p' ! i = parts p ! i \<or> parts p' ! i = part_at as i"
    and st: "stopped (run p') = None \<Longrightarrow> stopped (run p) = None \<and>
      (\<forall>i < length as. i \<in> set (chan p) \<or> awaited (crew p ! w) = Some i \<longrightarrow>
         i \<in> set (chan p') \<or> awaited d = Some i \<or> parts p' ! i = part_at as i)"
  shows "pool_inv as p'"
proof -
  have i0: "set (chan p) \<subseteq> {..<length as}" "\<And>i. i < length as \<Longrightarrow> parts p ! i = [] \<or> parts p ! i = part_at as i"
    "\<And>c i. c \<in> set (crew p) \<Longrightarrow> in_hand c = Some i \<Longrightarrow> i < length as"
    using inv by (simp_all add: pool_inv_def)
  have h: "\<forall>c \<in> set (crew p'). \<forall>i. in_hand c = Some i \<longrightarrow> i < length as"
    using set_crew(1) [OF w] i0(3) d(1) unfolding p'(1) by blast
  have gone: "chan p' = []" if "Gone \<in> set (crew p')"
  proof -
    have "chan p = []" using set_crew(1) [OF w that [unfolded p'(1)]] d(2) inv by (auto simp: pool_inv_def)
    then show ?thesis using p'(4) by simp
  qed
  have "i \<in> set (chan p') \<or> parts p' ! i = part_at as i \<or> (\<exists>c \<in> set (crew p'). awaited c = Some i)"
    if none: "stopped (run p') = None" and i: "i < length as" for i
  proof -
    have "i \<in> set (chan p) \<or> parts p ! i = part_at as i \<or> (\<exists>c \<in> set (crew p). awaited c = Some i)"
      using inv st [OF none] i by (auto simp: pool_inv_def)
    then consider "i \<in> set (chan p) \<or> awaited (crew p ! w) = Some i" | "parts p ! i = part_at as i"
      | c where "c \<in> set (crew p)" "c \<noteq> crew p ! w" "awaited c = Some i" by metis
    then show ?thesis
      using st [OF none] i parts [OF i] set_crew(2) [OF w, of d] set_crew(3) [OF w, of _ d] unfolding p'(1) by cases (metis+)
  qed
  moreover have "parts p' ! i = [] \<or> parts p' ! i = part_at as i" if "i < length as" for i using i0(2) [OF that] parts [OF that] by auto
  ultimately show ?thesis using p'(2-3) subset_trans [OF p'(4) i0(1)] h gone unfolding pool_inv_def by (intro conjI) blast+
qed

lemma pool_step_inv:
  assumes inv: "pool_inv as p" and w: "w < length (crew p)" and as: "set as \<subseteq> A" and unb: "Limit o' \<le> 0" "LastN o' \<le> 0"
    and step: "pool_do env E rdr q o' as w p = Some p'"
  shows "pool_inv as p'"
proof -
  have i0: "good (run p)" "length (parts p) = length as" "set (chan p) \<subseteq> {..<length as}"
    "\<And>i. in_hand (crew p ! w) = Some i \<Longrightarrow> i < length as"
    using inv nth_mem [OF w] by (auto simp: pool_inv_def)
  note hand_on = pool_inv_hand_on [OF inv w]
  from step show ?thesis
  proof (cases rule: pool_do_cases)
    case leave
    then show ?thesis using i0 by (intro hand_on [of p' Gone]) auto
  next
    case refuse
    have "(crew p)[w := Receiving] = crew p" using refuse(1) by (metis list_update_id)
    with refuse show ?thesis using i0 by (intro hand_on [of p' Receiving]) auto
  next
    case (take i)
    then show ?thesis using i0 by (intro hand_on [of p' "Capped i"]) auto
  next
    case (load i)
    then show ?thesis using i0 by (intro hand_on [of p' "Loaded i (scanned p)"]) auto
  next
    case trip
    then show ?thesis using i0 good_exceeded [OF trip(2)] exceeded_facts(2) [OF trip(2)] by (intro hand_on [of p' Receiving]) auto
  next
    case (admit i)
    then show ?thesis using i0 good_exceeded [OF admit(2)] exceeded_facts(3) [OF admit(2)] by (intro hand_on [of p' "Scanning i"]) auto
  next
    case (scan i rows st)
    then have i: "i < length as" using i0(4) [of i] by simp
    then have a: "as ! i \<in> A" using as by (auto intro: nth_mem)
    have "rows = part_at as i" "good st" "stopped st = stopped (run p)"
      using append_group_ok [OF a i0(1), of "[]"] scan(2) by (auto simp: keep_unbounded unb part_at_def)
    with scan i i0 show ?thesis
      by (intro hand_on [of p' "Added i (scanned p + rows_bytes o' rows)"]) (auto simp: nth_list_update)
  next
    case (add i n b st)
    have "stopped st = None \<Longrightarrow> stopped (run p) = None" using exceeded_facts(4) [OF add(2)] by (cases "stopped (run p)") auto
    with add show ?thesis using i0 good_exceeded [OF add(2)] by (intro hand_on [of p' "Checked i"]) auto
  next
    case count
    then show ?thesis using i0 by (intro hand_on [of p' Receiving]) auto
  qed
qed

lemma pool_reach_inv:
  assumes "pool_reach env E rdr q o' as workers st p" and "set as \<subseteq> A" and "Limit o' \<le> 0" "LastN o' \<le> 0" and "good st"
  shows "pool_inv as p \<and> length (crew p) = workers \<and> (stopped st \<noteq> None \<longrightarrow> stopped (run p) \<noteq> None)"
  using assms(1)
proof induction
  case start
  then show ?case using pool_start_inv [OF assms(5), of as workers] by (simp add: pool_start_def)
next
  case (step p w p')
  then show ?case
    using pool_step_inv [OF _ step.hyps(2) assms(2-4) step.hyps(3)] pool_do_frame [OF step.hyps(3)] by auto
qed

lemma pool_progress:
  assumes inv: "pool_inv as p" and as: "set as \<subseteq> A" and nd: "\<not> pool_done p"
  shows "\<exists>w < length (crew p). \<exists>p'. pool_do env E rdr q o' as w p = Some p'"
proof -
  obtain w where w: "w < length (crew p)" "crew p ! w \<noteq> Gone" using nd by (auto simp: pool_done_def list_all_length)
  have "\<exists>p'. pool_do env E rdr q o' as w p = Some p'"
  proof (cases "crew p ! w")
    case (Scanning i)
    then have "i < length as" using inv nth_mem [OF w(1)] by (auto simp: pool_inv_def)
    then have a: "as ! i \<in> A" using as by (auto intro: nth_mem)
    have "good (run p)" using inv by (simp add: pool_inv_def)
    from append_group_ok [OF a this, of "[]"] Scanning show ?thesis by (auto simp: pool_do_def Let_def)
  qed (use w in \<open>auto simp: pool_do_def split: list.splits prod.splits bool.splits\<close>)
  with w show ?thesis by blast
qed

text \<open>Every run of the pool ends, and can only end with all workers gone.\<close>

lemma pool_finishes:
  assumes "pool_reach env E rdr q o' as workers st p" and "set as \<subseteq> A" and "Limit o' \<le> 0" "LastN o' \<le> 0" and "good st"
  shows "\<exists>p'. pool_reach env E rdr q o' as workers st p' \<and> pool_done p'"
  using assms(1)
proof (induction p rule: measure_induct_rule [of pool_measure])
  case (less p)
  show ?case
  proof (cases "pool_done p")
    case False
    have "pool_inv as p" using pool_reach_inv [OF less.prems assms(2-5)] by blast
    then obtain w p' where w: "w < length (crew p)" "pool_do env E rdr q o' as w p = Some p'" using pool_progress [OF _ assms(2) False] by blast
    show ?thesis by (rule less.IH [OF pool_decreases [OF w(2,1)] pool_reach.step [OF less.prems w]])
  qed (use less in blast)
qed

lemma concat_parts: "concat (map (part_at as) [0..<length as]) = answer as"
  unfolding answer_def part_at_def by (rule arg_cong [of _ _ concat]) (auto intro: nth_equalityI)

lemma runParallel_ok:
  assumes "set as \<subseteq> A" and "Limit o' \<le> 0" "LastN o' \<le> 0" and "good st" and "0 < workers"
  shows "\<exists>res. runParallel env E rdr q o' as workers st res"
    and "runParallel env E rdr q o' as workers st (rows, st') \<Longrightarrow> good st' \<and> (stopped st \<noteq> None \<longrightarrow> stopped st' \<noteq> None)
      \<and> (stopped st' = None \<longrightarrow> rows = answer as)"
proof -
  show "\<exists>res. runParallel env E rdr q o' as workers st res"
    using pool_finishes [OF pool_reach.start assms(1-4), of env workers] by (auto simp: runParallel_def)
  assume "runParallel env E rdr q o' as workers st (rows, st')"
  then obtain p where p: "pool_reach env E rdr q o' as workers st p" "pool_done p" "rows = concat (parts p)" "st' = run p"
    by (auto simp: runParallel_def)
  note inv = pool_reach_inv [OF p(1) assms(1-4)]
  have gone: "\<forall>c \<in> set (crew p). c = Gone" using p(2) by (simp add: pool_done_def list_all_iff)
  moreover have "crew p \<noteq> []" using inv assms(5) by auto
  ultimately have "chan p = []" using inv by (cases "crew p") (auto simp: pool_inv_def)
  then have "parts p = map (part_at as) [0..<length as]" if "stopped (run p) = None"
    using inv that gone by (intro nth_equalityI) (fastforce simp: pool_inv_def)+
  then show "good st' \<and> (stopped st \<noteq> None \<longrightarrow> stopped st' \<noteq> None) \<and> (stopped st' = None \<longrightarrow> rows = answer as)"
    using inv p(3,4) concat_parts by (auto simp: pool_inv_def)
qed

text \<open>
  The bounded tail.  It is right when the matches of each group are in time order and no later group of the walk reaches beyond an earlier one.
\<close>

definition time_ordered :: "nat list \<Rightarrow> bool" where
  "time_ordered as \<longleftrightarrow> sorted_wrt (\<lambda>a b. sint (TimeMax (rdr b)) \<le> sint (TimeMax (rdr a))) as
     \<and> (\<forall>a \<in> set as. sorted_wrt as_new (map (row_at a) (hit a)) \<and> (\<forall>r \<in> set (map (row_at a) (hit a)). sint (Time r) \<le> sint (TimeMax (rdr a))))"

lemma tail_covers:
  assumes "sorted_wrt as_new (map (row_at a) (hit a))" and "LastN o' > 0"
  shows "covers (nat (LastN o')) (mset (map (row_at a) (keep_rows o' m (hit a)))) (mset (map (row_at a) (hit a)))"
proof -
  let ?n = "length (hit a) - nat (LastN o')" and ?r = "map (row_at a) (hit a)"
  have k: "map (row_at a) (keep_rows o' m (hit a)) = drop ?n ?r" using assms(2) by (simp add: keep_rows_def drop_map)
  have "sorted_wrt as_new (take ?n ?r @ drop ?n ?r)" using assms(1) by simp
  then have "as_new x y" if "x \<in> set (take ?n ?r)" "y \<in> set (drop ?n ?r)" for x y using that by (simp only: sorted_wrt_append)
  then have "covers (nat (LastN o')) (mset (drop ?n ?r)) (mset (take ?n ?r @ drop ?n ?r))" by (rule covers_split) auto
  then show ?thesis using k by simp
qed

lemma tail_times:
  assumes "time_ordered as" and "as = c # cs" and "x \<in> set (answer as)"
  shows "sint (Time x) \<le> sint (TimeMax (rdr c))"
proof -
  obtain a where a: "a \<in> set as" "x \<in> set (map (row_at a) (hit a))" using assms(3) by (auto simp: answer_def)
  then have "sint (Time x) \<le> sint (TimeMax (rdr a))" using assms(1) unfolding time_ordered_def by blast
  also have "\<dots> \<le> sint (TimeMax (rdr c))" using a(1) assms(1,2) by (auto simp: time_ordered_def)
  finally show ?thesis .
qed

lemma run_newest_ok:
  assumes "set as \<subseteq> A" and "good st" and n: "LastN o' > 0" and "time_ordered as" and "covers (nat (LastN o')) (mset out) (mset all)"
  shows "\<exists>rows st'. run_newest env E rdr q o' as out m st = Some (rows, st') \<and> good st' \<and> (stopped st \<noteq> None \<longrightarrow> stopped st' \<noteq> None)
    \<and> (stopped st' = None \<longrightarrow> newest (nat (LastN o')) rows (all @ answer as))"
  using assms(1,2,4,5)
proof (induction as arbitrary: out m st all)
  case Nil
  have "covers (nat (LastN o')) (mset (cut_newest o' out)) (mset all)" by (rule covers_trans [OF cut_newest_facts(1) Nil.prems(4)])
  then show ?case using Nil covers_newest [OF _ cut_newest_facts(2), of _ o' out all] cut_newest_facts(3) [of o' out] by simp
next
  case (Cons a as)
  let ?n = "nat (LastN o')" and ?new = "map (row_at a) (keep_rows o' (length out) (hit a))" and ?all = "all @ map (row_at a) (hit a)"
  obtain st1 where st1: "append_group E rdr q o' a out st = Some (out @ ?new, st1)" "good st1" "stopped st1 = stopped st"
    using append_group_ok [of a st out] Cons.prems by auto
  have ord: "time_ordered as" "sorted_wrt as_new (map (row_at a) (hit a))" using Cons.prems(3) by (simp_all add: time_ordered_def)
  have cov: "covers ?n (mset (out @ ?new)) (mset ?all)"
  proof -
    have "covers ?n (mset out + mset ?new) (mset out + mset (map (row_at a) (hit a)))"
      using covers_add [OF tail_covers [OF ord(2) n, of "length out"], of "mset out"] by (simp only: add.commute)
    from covers_trans [OF this covers_add [OF Cons.prems(4)]] show ?thesis by simp
  qed
  let ?m = "m + rows_bytes o' (drop (length out) (out @ ?new))" and ?kept = "cut_newest o' (out @ ?new)"
  have kept: "covers ?n (mset ?kept) (mset ?all)" by (rule covers_trans [OF cut_newest_facts(1) cov])
  obtain b st2 where ex: "exceeded env o' ?m st1 = (b, st2)" by (cases "exceeded env o' ?m st1")
  note ef = exceeded_facts [OF ex] and g2 = good_exceeded [OF ex]
  have body: "run_newest env E rdr q o' (a # as) out m st = (if b then Some (?kept, st2)
     else if int (length (out @ ?new)) < LastN o' then run_newest env E rdr q o' as (out @ ?new) ?m st2
     else (case as of [] \<Rightarrow> Some (?kept, st2)
           | c # _ \<Rightarrow> if ?kept = [] then None else if sint (TimeMax (rdr c)) < sint (Time (last ?kept)) then Some (?kept, st2)
               else run_newest env E rdr q o' as ?kept ?m st2))"
    using st1(1) ex by (cases b) (simp_all only: run_newest.simps Option.bind.bind_lunit prod.case Let_def bool.case if_True if_False)
  show ?case
  proof (cases b)
    case True
    then show ?thesis using body ef(2) g2 st1(2) by auto
  next
    case nb: False
    note IH = Cons.IH [where all = ?all, OF _ _ ord(1)]
    have st2: "good st2" "stopped st2 = stopped st" using g2 st1(2,3) ef(3) nb by auto
    have sub: "set as \<subseteq> A" using Cons.prems(1) by simp
    show ?thesis
    proof (cases "int (length (out @ ?new)) < LastN o'")
      case True
      then show ?thesis using IH [OF sub st2(1) cov, of ?m] body nb st2(2) by auto
    next
      case False
      then have len: "length ?kept = ?n" using cut_newest_facts(3) [of o' "out @ ?new"] by (simp add: min_def)
      then have ne: "?kept \<noteq> []" using n by auto
      show ?thesis
      proof (cases as)
        case Nil
        then show ?thesis using body nb False st2 covers_newest [OF kept cut_newest_facts(2)] len by auto
      next
        case (Cons c cs)
        show ?thesis
        proof (cases "sint (TimeMax (rdr c)) < sint (Time (last ?kept))")
          case True
          have "covers ?n (mset ?kept) (mset (answer as @ ?kept))"
          proof (rule covers_split)
            fix x y assume xy: "x \<in> set (answer as)" "y \<in> set ?kept"
            have "sint (Time x) \<le> sint (TimeMax (rdr c))" using tail_times [OF ord(1) Cons xy(1)] .
            moreover have "as_new (last ?kept) y"
            proof -
              have "sorted_wrt (\<lambda>x y. as_new y x) (butlast ?kept @ [last ?kept])" using cut_newest_facts(2) [of o' "out @ ?new"] ne by simp
              then have "\<forall>z \<in> set (butlast ?kept). as_new (last ?kept) z" by (simp only: sorted_wrt_append) simp
              moreover have "y \<in> set (butlast ?kept) \<or> y = last ?kept" using xy(2) ne by (metis append_butlast_last_id in_set_conv_decomp_last set_ConsD rotate1.simps(2) set_rotate1 UnE append_Nil2 empty_iff list.set(1) set_append)
              ultimately show ?thesis by (auto simp: as_new_def)
            qed
            ultimately show "as_new x y" using True by (simp add: as_new_def)
          qed (use len in simp)
          then have "covers ?n (mset ?kept) (mset (?all @ answer as))"
            using covers_trans [OF _ covers_add [OF kept, of "mset (answer as)"]] by (simp add: add.commute add.left_commute)
          then show ?thesis using body nb False Cons True ne st2 covers_newest [OF _ cut_newest_facts(2)] len by auto
        next
          case f2: False
          then show ?thesis using IH [OF sub st2(1) kept, of ?m] body nb False Cons ne st2(2) by auto
        qed
      qed
    qed
  qed
qed

end

end
