(* ===== verification/Merge.thy ===== *)
theory Merge
  imports Materialise
begin

text \<open>
  Rebuilding groups from their readers: \<^verbatim>\<open>mergeGroups\<close> of \<^verbatim>\<open>internal/storage/compact_groups.go\<close>, which concatenates the rows of
  several groups, and \<^verbatim>\<open>rebuild\<close> of \<^verbatim>\<open>recompact.go\<close>, which decodes one group for another codec, with the tests that decide
  whether a group takes part.  A nil group is the inner \<open>None\<close>, a panic the outer.  The cached column indices of each reader are an
  argument that the merge only reads.  A nil index slice and an empty one are not told apart; they differ only on a group of no rows,
  which the theorems on merges leave out.
\<close>

section \<open>Definitions\<close>

definition hasColumn :: "Reader \<Rightarrow> bytes \<Rightarrow> bool" where
  "hasColumn r name = list_ex (\<lambda>m. Name m = name) (cols r)"

definition hasTimestampColumn :: "Reader \<Rightarrow> bool" where
  "hasTimestampColumn r = list_ex (\<lambda>m. Type m = ColTimestamp) (cols r)"

definition mergeableColumns :: "Reader \<Rightarrow> bool" where
  "mergeableColumns r = (\<not> list_ex (\<lambda>m. Type m \<noteq> ColTimestamp \<and> Type m \<noteq> ColDict) (cols r))"

text \<open>The indices and the dictionary of a column, without filling the cache; a nil slice is the empty list.\<close>

definition dictIndicesForMerge :: "read_kernels \<Rightarrow> Reader \<Rightarrow> idx_cache \<Rightarrow> bytes \<Rightarrow> (u32 list \<times> bytes list) option" where
  "dictIndicesForMerge R r c name = (case colIndex r name of
     None \<Rightarrow> Some ([], [])
   | Some ci \<Rightarrow> if Type (cols r ! ci) \<noteq> ColDict then Some ([], []) else do {
       idx \<leftarrow> (case cachedIdx c ci of Some v \<Rightarrow> Some v | None \<Rightarrow> decode_column R r (cols r ! ci));
       sec \<leftarrow> dictSec_of r (cols r ! ci);
       vals \<leftarrow> dictSectionAll (rk_dict R) sec (DictLen (cols r ! ci));
       Some (idx, vals)
     })"

text \<open>The union of the columns in the order they are first seen; \<open>None\<close> when one cannot be decoded back.\<close>

definition union_step :: "colMeta \<Rightarrow> (bytes \<times> byte) list \<Rightarrow> (bytes \<times> byte) list option" where
  "union_step m cs = (if map_of cs (Name m) \<noteq> None then Some cs
     else if Type m \<noteq> ColTimestamp \<and> Type m \<noteq> ColDict then None
     else Some (cs @ [(Name m, Type m)]))"

definition union_columns :: "Reader list \<Rightarrow> (bytes \<times> byte) list option" where
  "union_columns rs = fold_opt union_step (concat (map cols rs)) []"

definition one_type :: "(bytes \<times> byte) list \<Rightarrow> Reader list \<Rightarrow> bool" where
  "one_type cs rs = list_all (\<lambda>r. list_all (\<lambda>m. map_of cs (Name m) = Some (Type m)) (cols r)) rs"

text \<open>The name of the one timestamp column; \<open>None\<close> when there are several.\<close>

definition ts_name_step :: "bytes \<times> byte \<Rightarrow> bytes \<Rightarrow> bytes option" where
  "ts_name_step c tsName = (if snd c \<noteq> ColTimestamp then Some tsName else if tsName \<noteq> [] then None else Some (fst c))"

definition ts_name :: "(bytes \<times> byte) list \<Rightarrow> bytes option" where
  "ts_name cs = fold_opt ts_name_step cs []"

definition merge_times :: "bytes \<Rightarrow> Reader \<times> idx_cache \<Rightarrow> u64 list option \<Rightarrow> u64 list option option" where
  "merge_times name x acc = (case acc of None \<Rightarrow> Some None | Some ts \<Rightarrow>
     let r = fst x in
     if \<not> hasColumn r name then Some (Some (ts @ replicate (Rows r) 0)) else do {
       got \<leftarrow> TimestampsRange r name 0 (Rows r);
       Some (if length got \<noteq> Rows r then None else Some (ts @ got))
     })"

definition row_values :: "nat \<Rightarrow> u32 list \<Rightarrow> bytes list \<Rightarrow> bytes list" where
  "row_values n idx dict = map (\<lambda>row. if row < length idx \<and> unat (idx ! row) < length dict then dict ! unat (idx ! row) else []) [0..<n]"

definition merge_values :: "read_kernels \<Rightarrow> bytes \<Rightarrow> Reader \<times> idx_cache \<Rightarrow> bytes list option \<Rightarrow> bytes list option option" where
  "merge_values R name x acc = (case acc of None \<Rightarrow> Some None | Some vals \<Rightarrow>
     let r = fst x in
     if \<not> hasColumn r name then Some (Some (vals @ replicate (Rows r) [])) else do {
       (idx, dict) \<leftarrow> dictIndicesForMerge R r (snd x) name;
       Some (if idx = [] then None else Some (vals @ row_values (Rows r) idx dict))
     })"

definition ts_column :: "bytes \<Rightarrow> u64 list \<Rightarrow> Column" where
  "ts_column name ts = \<lparr>ColName = name, ColTypeOf = ColTimestamp, ColDictOf = None, ColTs = ts, ColVec = [], ColDim = 0\<rparr>"

definition dict_column :: "bytes \<Rightarrow> bytes list \<Rightarrow> Column" where
  "dict_column name vals = \<lparr>ColName = name, ColTypeOf = ColDict, ColDictOf = Some (BuildDict vals), ColTs = [], ColVec = [], ColDim = 0\<rparr>"

definition merge_column :: "read_kernels \<Rightarrow> (Reader \<times> idx_cache) list \<Rightarrow> bytes \<times> byte \<Rightarrow> Column list option \<Rightarrow> Column list option option" where
  "merge_column R xs c acc = (case acc of None \<Rightarrow> Some None | Some out \<Rightarrow>
     if snd c = ColTimestamp then do {
       ts \<leftarrow> fold_opt (merge_times (fst c)) xs (Some []);
       Some (map_option (\<lambda>ts. out @ [ts_column (fst c) ts]) ts)
     } else do {
       vals \<leftarrow> fold_opt (merge_values R (fst c)) xs (Some []);
       Some (map_option (\<lambda>vals. out @ [dict_column (fst c) vals]) vals)
     })"

definition mergeGroups :: "read_kernels \<Rightarrow> (Reader \<times> idx_cache) list \<Rightarrow> (Group option \<times> int) option" where
  "mergeGroups R xs = (
     let rs = map fst xs; total_rows = sum_list (map Rows rs); before = int (sum_list (map (\<lambda>r. length (blob r)) rs)) in
     if total_rows = 0 then Some (None, before) else
     case union_columns rs of None \<Rightarrow> Some (None, before) | Some cs \<Rightarrow>
     if \<not> one_type cs rs then Some (None, before) else
     case ts_name cs of None \<Rightarrow> Some (None, before) | Some tsName \<Rightarrow>
     if \<not> list_all (\<lambda>r. hasColumn r tsName) rs then Some (None, before) else do {
       out \<leftarrow> fold_opt (merge_column R xs) cs (Some []);
       Some (map_option (\<lambda>cols. \<lparr>GRows = total_rows, Columns = cols, Compact = False, NoPostings = False\<rparr>) out, before)
     })"

text \<open>\<^verbatim>\<open>rebuild\<close> reads through the cache.\<close>

definition rebuild_column :: "read_kernels \<Rightarrow> Reader \<Rightarrow> colMeta \<Rightarrow> Column list option \<times> idx_cache \<Rightarrow> (Column list option \<times> idx_cache) option" where
  "rebuild_column R r m acc = (case acc of (None, c) \<Rightarrow> Some (None, c) | (Some out, c) \<Rightarrow>
     if Type m = ColTimestamp then do {
       ts \<leftarrow> TimestampsRange r (Name m) 0 (Rows r);
       Some (if length ts \<noteq> Rows r then None else Some (out @ [ts_column (Name m) ts]), c)
     } else if Type m = ColDict then do {
       (idx, dict, c') \<leftarrow> DictIndices R r c (Name m);
       Some (if idx = [] then None else Some (out @ [dict_column (Name m) (row_values (Rows r) idx dict)]), c')
     } else Some (None, c))"

definition rebuild :: "read_kernels \<Rightarrow> Reader \<Rightarrow> bool \<Rightarrow> bool \<Rightarrow> idx_cache \<Rightarrow> (Group option \<times> idx_cache) option" where
  "rebuild R r compact dropPostings c = do {
     (out, c') \<leftarrow> fold_opt (rebuild_column R r) (cols r) (Some [], c);
     Some (map_option (\<lambda>cs. \<lparr>GRows = Rows r, Columns = cs, Compact = compact, NoPostings = dropPostings\<rparr>) out, c')
   }"

definition hasPostings :: "Reader \<Rightarrow> bool" where
  "hasPostings r = list_ex (\<lambda>m. Type m = ColDict \<and> PostLen m > 0) (cols r)"

section \<open>Columns of written groups\<close>

lemma fold_opt_append: "fold_opt f (xs @ ys) s = do { t \<leftarrow> fold_opt f xs s; fold_opt f ys t }"
proof (induction xs arbitrary: s)
  case (Cons x xs)
  then show ?case by (cases "f x s") simp_all
qed simp

lemma ts_name_filter: "ts_name cs = fold_opt ts_name_step (filter (\<lambda>c. snd c = ColTimestamp) cs) []"
proof -
  have "fold_opt ts_name_step cs t = fold_opt ts_name_step (filter (\<lambda>c. snd c = ColTimestamp) cs) t" for t
  proof (induction cs arbitrary: t)
    case (Cons c cs)
    then show ?case by (cases "ts_name_step c t") (auto simp: ts_name_step_def)
  qed simp
  then show ?thesis by (simp add: ts_name_def)
qed

definition col_pairs :: "Group \<Rightarrow> (bytes \<times> byte) list" where
  "col_pairs g = map (\<lambda>c. (ColName c, ColTypeOf c)) (Columns g)"

text \<open>Groups whose columns decode back: dictionaries, and the one timestamp column \<^verbatim>\<open>_time\<close>.\<close>

definition plain :: "Group \<Rightarrow> bool" where
  "plain g \<longleftrightarrow> (\<forall>c \<in> set (Columns g). if ColName c = time_col then ColTypeOf c = ColTimestamp else ColTypeOf c = ColDict)"

lemma plain_pairs: "plain g \<longleftrightarrow> (\<forall>n t. (n, t) \<in> set (col_pairs g) \<longrightarrow> t = (if n = time_col then ColTimestamp else ColDict))"
proof -
  have "plain g \<longleftrightarrow> (\<forall>p \<in> set (col_pairs g). snd p = (if fst p = time_col then ColTimestamp else ColDict))"
    by (simp add: plain_def col_pairs_def)
  then show ?thesis by force
qed

lemmas plain_pair = plain_pairs [THEN iffD1, rule_format]

lemma present_pair:
  assumes "group_wf g" and "plain g"
  shows "dict_col g f \<noteq> None \<longleftrightarrow> (f, ColDict) \<in> set (col_pairs g)"
proof
  assume "dict_col g f \<noteq> None"
  then obtain d where "dict_col g f = Some d" by blast
  then obtain c where "c \<in> set (Columns g)" "ColName c = f" "ColTypeOf c = ColDict" by (rule dict_colD)
  then show "(f, ColDict) \<in> set (col_pairs g)" by (force simp: col_pairs_def)
next
  assume "(f, ColDict) \<in> set (col_pairs g)"
  then obtain c where c: "c \<in> set (Columns g)" "ColName c = f" by (auto simp: col_pairs_def)
  then have "find (\<lambda>c. ColName c = f) (Columns g) \<noteq> None" by (auto simp: find_None_iff)
  then obtain c' where c': "find (\<lambda>c. ColName c = f) (Columns g) = Some c'" by blast
  then have m: "c' \<in> set (Columns g)" "ColName c' = f" by (auto simp: find_Some_iff)
  have "f \<noteq> time_col" using plain_pair [OF assms(2) \<open>(f, ColDict) \<in> _\<close>] by (auto simp: col_types split: if_splits)
  then have "ColTypeOf c' = ColDict" using assms(2) m by (auto simp: plain_def)
  moreover have "ColDictOf c' \<noteq> None" using assms(1) m \<open>ColTypeOf c' = ColDict\<close> by (auto simp: group_wf_def list_all_iff column_wf_def split: option.splits)
  ultimately show "dict_col g f \<noteq> None" using c' by (simp add: dict_col_def)
qed

context written_group
begin

lemma col_pairs_read: "map (\<lambda>m. (Name m, Type m)) (cols r) = col_pairs g"
proof -
  obtain e where e: "Rows r = GRows g" "list_all2 (written K g B e) (Columns g) (cols r)" using reader_facts .
  have "written K g B e c m \<Longrightarrow> (Name m, Type m) = (ColName c, ColTypeOf c)" for c m by (simp add: written_def)
  with e(2) show ?thesis unfolding col_pairs_def by (auto simp: list_all2_conv_all_nth intro: nth_equalityI)
qed

lemma time_pair: "(time_col, ColTimestamp) \<in> set (col_pairs g)"
  using timed by (force simp: list_ex_iff col_pairs_def)

lemma has_read: "hasColumn r f \<longleftrightarrow> f \<in> fst ` set (col_pairs g)"
proof -
  have "hasColumn r f \<longleftrightarrow> f \<in> fst ` set (map (\<lambda>m. (Name m, Type m)) (cols r))" by (force simp: hasColumn_def list_ex_iff)
  then show ?thesis unfolding col_pairs_read .
qed

lemma times_range: "TimestampsRange r time_col 0 (Rows r) = Some (group_times g)"
  using span_read(2) [of 0 "Rows r" "[]"] nonempty rows_le(2) times_read(1) by (simp add: TimestampsRange_def)

lemma merge_indices:
  assumes "dict_col g f = Some d" and "cache_coherent R r c"
  shows "dictIndicesForMerge R r c f = Some (Indices d, Dict d)" and "length (Indices d) = GRows g" and "row_values (Rows r) (Indices d) (Dict d) = values_of d"
proof -
  obtain m e where m: "dict_wf (Rows r) d" "written_dict K g (blob r) e d m" "e \<le> length (blob r)" "length (blob r) < 2 ^ 32"
    "col_of r ColDict f = Some m" using dict_facts [OF assms(1)] .
  obtain sec where sec: "dictSec_of r m = Some sec" "dictSectionAll (rk_dict R) sec (DictLen m) = Some (Dict d)"
    "decode_column R r m = Some (Indices d)" using dict_written [OF same m(1) rows_le(1) m(2-4)] by metis
  obtain ci where ci: "colIndex r f = Some ci" "ci < length (cols r)" "cols r ! ci = m" "Type m = ColDict" using col_of_index [OF m(5)] .
  have "cachedIdx c ci = Some v \<Longrightarrow> v = Indices d" for v
    using assms(2) ci sec(3) by (auto simp: cache_coherent_def cachedIdx_def split: if_splits)
  then show "dictIndicesForMerge R r c f = Some (Indices d, Dict d)"
    using ci sec by (auto simp: dictIndicesForMerge_def split: option.splits)
  show "length (Indices d) = GRows g" using m(1) rows_le(2) by (simp add: dict_wf_def)
  then show "row_values (Rows r) (Indices d) (Dict d) = values_of d"
    using m(1) rows_le(2) by (intro nth_equalityI) (auto simp: row_values_def values_of_def dict_wf_def)
qed

end

section \<open>Merging\<close>

definition cell_values :: "bytes \<Rightarrow> Group \<Rightarrow> bytes list" where
  "cell_values f g = (case dict_col g f of None \<Rightarrow> replicate (GRows g) [] | Some d \<Rightarrow> values_of d)"

definition merged_column :: "Group list \<Rightarrow> bytes \<times> byte \<Rightarrow> Column" where
  "merged_column gs c = (if snd c = ColTimestamp then ts_column (fst c) (concat (map group_times gs))
     else dict_column (fst c) (concat (map (cell_values (fst c)) gs)))"

definition merged :: "Group list \<Rightarrow> (bytes \<times> byte) list \<Rightarrow> Group" where
  "merged gs cs = \<lparr>GRows = sum_list (map GRows gs), Columns = map (merged_column gs) cs, Compact = False, NoPostings = False\<rparr>"

text \<open>A batch of readers and caches over the groups they were written from.\<close>

definition batch_of :: "group_kernels \<Rightarrow> read_kernels \<Rightarrow> Group list \<Rightarrow> (Reader \<times> idx_cache) list \<Rightarrow> bool" where
  "batch_of K R gs xs = list_all2 (\<lambda>g x. (\<exists>B. written_group K R g B (fst x)) \<and> cache_coherent R (fst x) (snd x)) gs xs"

abbreviation "meta_pair \<equiv> \<lambda>m. (Name m, Type m)"

lemma union_ok:
  assumes "\<forall>p \<in> set cs \<union> meta_pair ` set ms. snd p = (if fst p = time_col then ColTimestamp else ColDict)" and "distinct (map fst cs)"
  shows "\<exists>cs'. fold_opt union_step ms cs = Some cs' \<and> distinct (map fst cs') \<and> set cs' = set cs \<union> meta_pair ` set ms
    \<and> (meta_pair ` set ms \<subseteq> set cs \<longrightarrow> cs' = cs) \<and> (distinct (map fst cs @ map Name ms) \<longrightarrow> cs' = cs @ map meta_pair ms)"
  using assms
proof (induction ms arbitrary: cs)
  case (Cons m ms)
  have ty: "Type m = (if Name m = time_col then ColTimestamp else ColDict)" using Cons.prems(1) by simp
  show ?case
  proof (cases "map_of cs (Name m) = None")
    case True
    let ?cs = "cs @ [meta_pair m]"
    have n: "Name m \<notin> fst ` set cs" using True by (simp add: map_of_eq_None_iff)
    have "union_step m cs = Some ?cs" using True ty by (simp add: union_step_def)
    moreover obtain cs' where cs': "fold_opt union_step ms ?cs = Some cs'" "distinct (map fst cs')" "set cs' = set ?cs \<union> meta_pair ` set ms"
      "distinct (map fst ?cs @ map Name ms) \<longrightarrow> cs' = ?cs @ map meta_pair ms" using Cons.IH [of ?cs] Cons.prems n by auto
    moreover have "\<not> meta_pair ` set (m # ms) \<subseteq> set cs" using n by force
    moreover have "map fst cs @ map Name (m # ms) = map fst ?cs @ map Name ms" "?cs @ map meta_pair ms = cs @ map meta_pair (m # ms)" by simp_all
    ultimately show ?thesis by (intro exI [of _ cs']) auto
  next
    case False
    then obtain t where "map_of cs (Name m) = Some t" by blast
    then have "(Name m, t) \<in> set cs" by (rule map_of_SomeD)
    then have p: "meta_pair m \<in> set cs" using Cons.prems(1) ty by force
    then have "Name m \<in> set (map fst cs)" by force
    then have "\<not> distinct (map fst cs @ map Name (m # ms))" by auto
    moreover have "union_step m cs = Some cs" using False by (simp add: union_step_def)
    moreover obtain cs' where "fold_opt union_step ms cs = Some cs'" "distinct (map fst cs')" "set cs' = set cs \<union> meta_pair ` set ms"
      "meta_pair ` set ms \<subseteq> set cs \<longrightarrow> cs' = cs" using Cons.IH [of cs] Cons.prems by auto
    ultimately show ?thesis using p by (intro exI [of _ cs']) auto
  qed
qed simp

lemma batch_map:
  assumes "batch_of K R gs xs" and "\<And>g x B. written_group K R g B (fst x) \<Longrightarrow> f x = h g"
  shows "map f xs = map h gs"
  using assms(1) unfolding batch_of_def by (induction rule: list_all2_induct) (use assms(2) in auto)

lemma batch_mem: "batch_of K R gs xs \<Longrightarrow> x \<in> set xs \<Longrightarrow> \<exists>g \<in> set gs. \<exists>B. written_group K R g B (fst x)"
  unfolding batch_of_def by (induction rule: list_all2_induct) auto

lemma merge_times_batch:
  "batch_of K R gs xs \<Longrightarrow> fold_opt (merge_times time_col) xs (Some acc) = Some (Some (acc @ concat (map group_times gs)))"
  unfolding batch_of_def
proof (induction gs xs arbitrary: acc rule: list_all2_induct)
  case (Cons g gs x xs)
  obtain B where w: "written_group K R g B (fst x)" using Cons.hyps by blast
  have "hasColumn (fst x) time_col" using written_group.time_pair [OF w] written_group.has_read [OF w, of time_col] by force
  then show ?case using written_group.times_range [OF w] written_group.times_read(1) [OF w] Cons.IH by (simp add: merge_times_def Let_def)
qed simp

lemma merge_values_batch:
  assumes "f \<noteq> time_col"
  shows "batch_of K R gs xs \<Longrightarrow> \<forall>g \<in> set gs. plain g \<Longrightarrow>
    fold_opt (merge_values R f) xs (Some acc) = Some (Some (acc @ concat (map (cell_values f) gs)))"
  unfolding batch_of_def
proof (induction gs xs arbitrary: acc rule: list_all2_induct)
  case (Cons g gs x xs)
  obtain B where w: "written_group K R g B (fst x)" using Cons.hyps by blast
  have pl: "plain g" using Cons.prems by simp
  note wf = written_group.wf [OF w] and rows = written_group.rows_le(2) [OF w]
  have has: "hasColumn (fst x) f \<longleftrightarrow> dict_col g f \<noteq> None"
  proof -
    have "f \<in> fst ` set (col_pairs g) \<longleftrightarrow> (f, ColDict) \<in> set (col_pairs g)" using plain_pair [OF pl, of f] assms by force
    then show ?thesis using written_group.has_read [OF w, of f] present_pair [OF wf pl, of f] by simp
  qed
  have "merge_values R f x (Some acc) = Some (Some (acc @ cell_values f g))"
  proof (cases "dict_col g f")
    case None
    then show ?thesis using has rows by (simp add: merge_values_def cell_values_def Let_def)
  next
    case (Some d)
    have co: "cache_coherent R (fst x) (snd x)" using Cons.hyps by blast
    note mi = written_group.merge_indices [OF w Some co]
    have "Indices d \<noteq> []" using mi(2) written_group.nonempty [OF w] by auto
    then show ?thesis using Some has mi(1,3) by (simp add: merge_values_def cell_values_def Let_def)
  qed
  then show ?case using Cons.IH Cons.prems by simp
qed simp

lemma merge_columns_batch:
  assumes "batch_of K R gs xs" and "\<forall>g \<in> set gs. plain g" and "\<forall>p \<in> set cs. snd p = (if fst p = time_col then ColTimestamp else ColDict)"
  shows "fold_opt (merge_column R xs) cs (Some out) = Some (Some (out @ map (merged_column gs) cs))"
  using assms(3)
proof (induction cs arbitrary: out)
  case (Cons c cs)
  have "merge_column R xs c (Some out) = Some (Some (out @ [merged_column gs c]))"
  proof (cases "fst c = time_col")
    case True
    then show ?thesis using Cons.prems merge_times_batch [OF assms(1), of "[]"] by (simp add: merge_column_def merged_column_def)
  next
    case False
    then have "snd c \<noteq> ColTimestamp" using Cons.prems by (simp add: col_types)
    then show ?thesis using merge_values_batch [OF False assms(1,2), of "[]"] by (simp add: merge_column_def merged_column_def)
  qed
  then show ?case using Cons by simp
qed simp

lemma union_batch:
  assumes "batch_of K R gs xs" and "\<forall>g \<in> set gs. plain g"
  shows "\<exists>cs. union_columns (map fst xs) = Some cs \<and> distinct (map fst cs) \<and> set cs = (\<Union>g \<in> set gs. set (col_pairs g))
    \<and> (\<forall>n. gs \<noteq> [] \<longrightarrow> (\<forall>g \<in> set gs. col_pairs g = n) \<longrightarrow> cs = n)"
proof -
  have pairs: "map (\<lambda>x. map meta_pair (cols (fst x))) xs = map col_pairs gs"
    using assms(1) by (rule batch_map) (rule written_group.col_pairs_read)
  let ?ms = "concat (map (\<lambda>x. cols (fst x)) xs)"
  have all: "map meta_pair ?ms = concat (map col_pairs gs)" using pairs by (simp add: map_concat o_def)
  have "meta_pair ` set ?ms = set (map meta_pair ?ms)" by simp
  then have ms: "meta_pair ` set ?ms = (\<Union>g \<in> set gs. set (col_pairs g))" unfolding all by simp
  have ty: "\<forall>p \<in> meta_pair ` set ?ms. snd p = (if fst p = time_col then ColTimestamp else ColDict)"
    unfolding ms using assms(2) plain_pair by fastforce
  obtain cs where cs: "union_columns (map fst xs) = Some cs" "distinct (map fst cs)" "set cs = meta_pair ` set ?ms"
    using union_ok [of "[]" ?ms] ty by (auto simp: union_columns_def o_def)
  moreover have "cs = n" if n: "gs \<noteq> []" "\<forall>g \<in> set gs. col_pairs g = n" for n
  proof -
    obtain x xs' where xs: "xs = x # xs'" using n(1) assms(1) by (cases xs) (auto simp: batch_of_def)
    obtain g gs' where gs: "gs = g # gs'" using n(1) by (cases gs) auto
    obtain B where w: "written_group K R g B (fst x)" using assms(1) xs gs by (auto simp: batch_of_def)
    have x: "map meta_pair (cols (fst x)) = n" using pairs n(2) xs gs by simp
    have "distinct (map Name (cols (fst x)))"
      using written_group.names [OF w] arg_cong [OF written_group.col_pairs_read [OF w], of "map fst"] by (simp add: col_pairs_def o_def)
    then have 1: "fold_opt union_step (cols (fst x)) [] = Some n"
      using union_ok [of "[]" "cols (fst x)"] ty x xs by fastforce
    have "map (\<lambda>x. map meta_pair (cols (fst x))) xs' = map col_pairs gs'" using pairs xs gs by simp
    then have "map meta_pair (concat (map (\<lambda>x. cols (fst x)) xs')) = concat (map col_pairs gs')" by (simp add: map_concat o_def)
    then have "meta_pair ` set (concat (map (\<lambda>x. cols (fst x)) xs')) = set (concat (map col_pairs gs'))" by (simp only: image_set)
    then have "meta_pair ` set (concat (map (\<lambda>x. cols (fst x)) xs')) \<subseteq> set n" using n(2) gs by auto
    then have "fold_opt union_step (concat (map (\<lambda>x. cols (fst x)) xs')) n = Some n"
    proof -
      assume sub: "meta_pair ` set (concat (map (\<lambda>x. cols (fst x)) xs')) \<subseteq> set n"
      have "set n \<subseteq> meta_pair ` set ?ms" unfolding ms using n(2) gs by auto
      then have ty': "\<forall>p \<in> set n \<union> meta_pair ` set (concat (map (\<lambda>x. cols (fst x)) xs')). snd p = (if fst p = time_col then ColTimestamp else ColDict)"
        using ty sub by blast
      have "distinct (map fst n)" using written_group.names [OF w] n(2) gs by (auto simp: col_pairs_def o_def)
      from union_ok [OF ty' this] sub show ?thesis by blast
    qed
    then show ?thesis using cs(1) 1 xs by (simp add: union_columns_def fold_opt_append o_def)
  qed
  ultimately show ?thesis unfolding ms by blast
qed

lemma singleton_list: "distinct xs \<Longrightarrow> a \<in> set xs \<Longrightarrow> (\<And>x. x \<in> set xs \<Longrightarrow> x = a) \<Longrightarrow> xs = [a]"
proof (cases xs)
  case (Cons b ys)
  assume d: "distinct xs" and all: "\<And>x. x \<in> set xs \<Longrightarrow> x = a"
  have "b = a" using all [of b] Cons by simp
  moreover have "ys = []" using d all [of "hd ys"] \<open>b = a\<close> Cons by (cases ys) auto
  ultimately show ?thesis using Cons by simp
qed simp

text \<open>A batch of plain written groups merges into the concatenation of its rows, over the union of the columns.\<close>

lemma merge_batch:
  assumes "batch_of K R gs xs" and "gs \<noteq> []" and "\<forall>g \<in> set gs. plain g"
  shows "\<exists>cs. mergeGroups R xs = Some (Some (merged gs cs), int (sum_list (map (\<lambda>x. length (blob (fst x))) xs)))
    \<and> distinct (map fst cs) \<and> set cs = (\<Union>g \<in> set gs. set (col_pairs g)) \<and> (\<forall>n. (\<forall>g \<in> set gs. col_pairs g = n) \<longrightarrow> cs = n)"
proof -
  obtain cs where cs: "union_columns (map fst xs) = Some cs" "distinct (map fst cs)" "set cs = (\<Union>g \<in> set gs. set (col_pairs g))"
    "\<forall>n. gs \<noteq> [] \<longrightarrow> (\<forall>g \<in> set gs. col_pairs g = n) \<longrightarrow> cs = n" using union_batch [OF assms(1,3)] by (elim exE conjE) (rule that)
  have nth: "\<exists>g \<in> set gs. \<exists>B. written_group K R g B (fst x)" if "x \<in> set xs" for x
    using batch_mem [OF assms(1) that] .
  have rows: "map (\<lambda>x. Rows (fst x)) xs = map GRows gs"
    using assms(1) by (rule batch_map) (rule written_group.rows_le(2))
  obtain g gs' where gs: "gs = g # gs'" using assms(2) by (cases gs) auto
  obtain x xs' where xs: "xs = x # xs'" using gs assms(1) by (cases xs) (auto simp: batch_of_def)
  obtain B where w: "written_group K R g B (fst x)" using assms(1) xs gs by (auto simp: batch_of_def)
  have tot: "sum_list (map Rows (map fst xs)) = sum_list (map GRows gs)" using rows by (simp add: o_def)
  have pos: "sum_list (map GRows gs) \<noteq> 0" using written_group.nonempty [OF w] gs by simp
  have ty: "\<forall>p \<in> set cs. snd p = (if fst p = time_col then ColTimestamp else ColDict)" unfolding cs(3) using assms(3) plain_pair by fastforce
  have one: "one_type cs (map fst xs)"
  proof -
    have "map_of cs (Name m) = Some (Type m)" if x: "x \<in> set xs" and m: "m \<in> set (cols (fst x))" for x m
    proof -
      obtain g B where g: "g \<in> set gs" "written_group K R g B (fst x)" using nth [OF x] by blast
      have "meta_pair m \<in> set (col_pairs g)" using written_group.col_pairs_read [OF g(2)] m by (metis (no_types, lifting) image_eqI list.set_map)
      then show ?thesis using cs(2,3) g(1) by (intro map_of_is_SomeI) auto
    qed
    then show ?thesis by (auto simp: one_type_def list_all_iff)
  qed
  have "(time_col, ColTimestamp) \<in> set cs" using written_group.time_pair [OF w] cs(3) gs by auto
  moreover have "distinct (filter (\<lambda>c. snd c = ColTimestamp) cs)" using cs(2) by (simp add: distinct_map)
  moreover have "c = (time_col, ColTimestamp)" if "c \<in> set (filter (\<lambda>c. snd c = ColTimestamp) cs)" for c
  proof -
    have c: "c \<in> set cs" "snd c = ColTimestamp" using that by simp_all
    have "snd c = (if fst c = time_col then ColTimestamp else ColDict)" using ty c(1) by blast
    then show ?thesis using c(2) by (cases c) (simp add: col_types split: if_splits)
  qed
  ultimately have "filter (\<lambda>c. snd c = ColTimestamp) cs = [(time_col, ColTimestamp)]"
    by (intro singleton_list) simp_all
  then have ts: "ts_name cs = Some time_col" by (simp add: ts_name_filter ts_name_step_def)
  have "hasColumn (fst x) time_col" if x: "x \<in> set xs" for x
  proof -
    obtain g B where "written_group K R g B (fst x)" using nth [OF x] by blast
    then show ?thesis using written_group.has_read [of K R g B "fst x" time_col] written_group.time_pair [of K R g B "fst x"] by force
  qed
  then have has: "list_all (\<lambda>r. hasColumn r time_col) (map fst xs)" by (auto simp: list_all_iff)
  have "mergeGroups R xs = Some (Some (merged gs cs), int (sum_list (map (\<lambda>x. length (blob (fst x))) xs)))"
    using pos cs(1) one ts has merge_columns_batch [OF assms(1,3) ty, of "[]"] unfolding mergeGroups_def Let_def tot
    by (simp add: merged_def o_def del: sum_list_eq_0_iff)
  then show ?thesis using cs(2-4) assms(2) by (intro exI [of _ cs]) simp
qed

section \<open>The rows of a group\<close>

text \<open>A row as its time and the value of every field, empty where the group has no such column.\<close>

type_synonym cells = "u64 \<times> (bytes \<Rightarrow> bytes)"

definition rows_of_group :: "Group \<Rightarrow> cells list" where
  "rows_of_group g = map (\<lambda>i. (group_times g ! i, \<lambda>f. cell_values f g ! i)) [0..<GRows g]"

lemma src_row:
  assumes "distinct (map ColName (Columns g))" and "i < GRows g"
  shows "src_field (group_row g i) f = cell_values f g ! i"
proof (cases "dict_col g f")
  case (Some d)
  obtain c where c: "c \<in> set (Columns g)" "ColName c = f" "ColTypeOf c = ColDict" "ColDictOf c = Some d" using dict_colD [OF Some] .
  from find_map_filter [OF assms(1) c(1,3,4), of i] show ?thesis
    by (simp add: group_row_def rowField_def rowFieldOK_def c(2) cell_values_def Some)
next
  case None
  have "column_cell i c = Some (f, v) \<Longrightarrow> c \<in> set (Columns g) \<Longrightarrow> False" for c v
    using None find_name [OF assms(1), of c] by (auto simp: column_cell_def dict_col_def split: if_splits)
  then have "find (\<lambda>x. fst x = f) (List.map_filter (column_cell i) (Columns g)) = None"
    by (auto simp: find_None_iff map_filter_def)
  then show ?thesis using assms(2) None by (simp add: group_row_def rowField_def rowFieldOK_def cell_values_def)
qed

lemma predMatchesRow_cong:
  assumes "stamp a = stamp b" and "\<And>f. src_field a f = src_field b f"
  shows "predMatchesRow G p a = predMatchesRow G p b"
  unfolding predMatchesRow_def assms ..

text \<open>Which rows a query selects, and what it returns of them, by their cells.\<close>

definition cells_hit :: "('f, 're) golib \<Rightarrow> (bytes \<Rightarrow> bool) \<Rightarrow> ('f, 're) Query \<Rightarrow> cells \<Rightarrow> bool" where
  "cells_hit G has q x \<longleftrightarrow> in_window (From q) (To q) (fst x)
     \<and> (\<exists>src. stamp src = Some (fst x) \<and> (\<forall>f. src_field src f = snd x f) \<and> scanMatchesRow G has q src)"

definition cells_row :: "(u64 \<Rightarrow> bytes) \<Rightarrow> (bytes \<Rightarrow> bool) \<Rightarrow> bytes list \<Rightarrow> cells \<Rightarrow> Row" where
  "cells_row fmt has fs x = \<lparr>Time = fst x, Fields = List.map_filter (\<lambda>f. if has f then Some (f, snd x f)
     else if f = time_col then Some (f, fmt (fst x)) else None) fs, NoTime = False\<rparr>"

lemma scanMatchesRow_cong:
  assumes "stamp a = stamp b" and "\<And>f. src_field a f = src_field b f"
  shows "scanMatchesRow G has q a = scanMatchesRow G has q b"
  unfolding scanMatchesRow_def by (simp only: predMatchesRow_cong [OF assms])

lemma group_hit:
  assumes "distinct (map ColName (Columns g))" and "i < GRows g"
  shows "in_window (From q) (To q) (group_times g ! i) \<and> scanMatchesRow G has q (group_row g i)
    \<longleftrightarrow> cells_hit G has q (group_times g ! i, \<lambda>f. cell_values f g ! i)"
proof -
  have s: "stamp (group_row g i) = Some (group_times g ! i)" by (simp add: group_row_def)
  have "scanMatchesRow G has q src = scanMatchesRow G has q (group_row g i)"
    if "stamp src = Some (group_times g ! i)" "\<forall>f. src_field src f = cell_values f g ! i" for src
    using that s src_row [OF assms] by (intro scanMatchesRow_cong) simp_all
  moreover have "\<forall>f. src_field (group_row g i) f = cell_values f g ! i" by (simp add: src_row [OF assms])
  ultimately have "(\<exists>src. stamp src = Some (group_times g ! i) \<and> (\<forall>f. src_field src f = cell_values f g ! i) \<and> scanMatchesRow G has q src)
      \<longleftrightarrow> scanMatchesRow G has q (group_row g i)" using s by blast
  then show ?thesis by (simp add: cells_hit_def)
qed

lemma group_answer_cells:
  assumes "distinct (map ColName (Columns g))" and "\<And>f. has f \<longleftrightarrow> dict_col g f \<noteq> None"
  shows "map (output_row fmt g fs) (matching G q g) = map (cells_row fmt has fs) (filter (cells_hit G has q) (rows_of_group g))"
proof -
  have has: "has = (\<lambda>f. dict_col g f \<noteq> None)" by (rule ext) (rule assms(2))
  have "matching G q g = filter (\<lambda>i. cells_hit G has q (group_times g ! i, \<lambda>f. cell_values f g ! i)) [0..<GRows g]"
    unfolding matching_def by (rule filter_cong [OF refl]) (use group_hit [OF assms(1), where has = has and G = G and q = q] in \<open>simp add: has\<close>)
  moreover have "output_row fmt g fs i = cells_row fmt has fs (group_times g ! i, \<lambda>f. cell_values f g ! i)" for i
    unfolding output_row_def cells_row_def has
    by (auto simp: cell_values_def intro!: arg_cong [where f = "\<lambda>h. List.map_filter h fs"] split: option.split)
  ultimately show ?thesis by (simp add: rows_of_group_def filter_map o_def)
qed

section \<open>The rows of a merged group\<close>

text \<open>What the merge needs of its inputs.\<close>

definition mergeable :: "Group list \<Rightarrow> bool" where
  "mergeable gs \<longleftrightarrow> gs \<noteq> [] \<and> (\<forall>g \<in> set gs. group_wf g \<and> plain g \<and> distinct (map ColName (Columns g)) \<and> 0 < GRows g
     \<and> (time_col, ColTimestamp) \<in> set (col_pairs g))"

definition union_of :: "Group list \<Rightarrow> (bytes \<times> byte) list \<Rightarrow> bool" where
  "union_of gs cs \<longleftrightarrow> distinct (map fst cs) \<and> set cs = (\<Union>g \<in> set gs. set (col_pairs g)) \<and> (\<forall>n. (\<forall>g \<in> set gs. col_pairs g = n) \<longrightarrow> cs = n)"

lemma cell_values_length: "group_wf g \<Longrightarrow> length (cell_values f g) = GRows g"
proof (cases "dict_col g f")
  case (Some d)
  assume "group_wf g"
  moreover obtain c where "c \<in> set (Columns g)" "ColTypeOf c = ColDict" "ColDictOf c = Some d" using dict_colD [OF Some] .
  ultimately have "dict_wf (GRows g) d" by (auto simp: group_wf_def list_all_iff column_wf_def)
  then show ?thesis using Some by (simp add: cell_values_def values_of_def dict_wf_def)
qed (simp add: cell_values_def)

lemma group_times_length:
  assumes "group_wf g" and "distinct (map ColName (Columns g))" and "(time_col, ColTimestamp) \<in> set (col_pairs g)"
  shows "length (group_times g) = GRows g"
proof -
  obtain c where c: "c \<in> set (Columns g)" "ColName c = time_col" "ColTypeOf c = ColTimestamp" using assms(3) by (auto simp: col_pairs_def)
  have "group_times g = ColTs c" using find_name [OF assms(2) c(1)] c(2) by (simp add: group_times_def)
  then show ?thesis using assms(1) c by (auto simp: group_wf_def list_all_iff column_wf_def col_types)
qed

lemma rows_concat:
  assumes "\<forall>g \<in> set gs. length (group_times g) = GRows g \<and> (\<forall>f. length (cell_values f g) = GRows g)"
  shows "map (\<lambda>i. (concat (map group_times gs) ! i, \<lambda>f. concat (map (cell_values f) gs) ! i)) [0..<sum_list (map GRows gs)] = concat (map rows_of_group gs)"
  using assms
proof (induction gs)
  case (Cons g gs)
  have split: "[0..<GRows g + sum_list (map GRows gs)] = [0..<GRows g] @ map (\<lambda>i. i + GRows g) [0..<sum_list (map GRows gs)]"
    by (simp add: map_add_upt add.commute upt_add_eq_append [of 0 "GRows g", symmetric])
  show ?case using Cons by (auto simp: split rows_of_group_def nth_append o_def)
qed simp

lemma values_of_built: "length vals < 2 ^ 32 \<Longrightarrow> values_of (BuildDict vals) = vals"
  using BuildDict_spec [of vals] by (auto simp: values_of_def intro: nth_equalityI)

lemma merged_facts:
  assumes "mergeable gs" and "union_of gs cs" and "sum_list (map GRows gs) < 2 ^ 32"
  shows "map ColName (Columns (merged gs cs)) = map fst cs" and "group_times (merged gs cs) = concat (map group_times gs)"
    and "dict_col (merged gs cs) f = (if \<exists>g \<in> set gs. dict_col g f \<noteq> None then Some (BuildDict (concat (map (cell_values f) gs))) else None)"
    and "cell_values f (merged gs cs) = concat (map (cell_values f) gs)"
    and "rows_of_group (merged gs cs) = concat (map rows_of_group gs)" and "col_pairs (merged gs cs) = cs" and "plain (merged gs cs)"
proof -
  have cs: "distinct (map fst cs)" "set cs = (\<Union>g \<in> set gs. set (col_pairs g))" using assms(2) by (simp_all add: union_of_def)
  have g: "group_wf g" "plain g" "distinct (map ColName (Columns g))" "(time_col, ColTimestamp) \<in> set (col_pairs g)" if "g \<in> set gs" for g
    using assms(1) that by (simp_all add: mergeable_def)
  have ty: "t = (if n = time_col then ColTimestamp else ColDict)" if "(n, t) \<in> set cs" for n t using that cs(2) g(2) plain_pair by fastforce
  have len: "\<forall>g \<in> set gs. length (group_times g) = GRows g \<and> (\<forall>f. length (cell_values f g) = GRows g)"
    using g group_times_length cell_values_length by blast
  have nm: "ColName (merged_column gs c) = fst c" "ColTypeOf (merged_column gs c) = (if snd c = ColTimestamp then ColTimestamp else ColDict)" for c
    by (simp_all add: merged_column_def ts_column_def dict_column_def)
  show names: "map ColName (Columns (merged gs cs)) = map fst cs" by (simp add: merged_def nm o_def)
  have "snd c = (if snd c = ColTimestamp then ColTimestamp else ColDict)" if "c \<in> set cs" for c using ty [of "fst c" "snd c"] that by auto
  then show pairs: "col_pairs (merged gs cs) = cs" unfolding col_pairs_def merged_def by (auto simp: nm o_def intro!: map_idI)
  show "plain (merged gs cs)" unfolding plain_pairs pairs using ty by blast
  have at: "find (\<lambda>c. ColName c = fst p) (Columns (merged gs cs)) = Some (merged_column gs p)" if "p \<in> set cs" for p
    using find_name [of "Columns (merged gs cs)" "merged_column gs p"] that cs(1) names by (simp add: merged_def nm o_def)
  have none: "find (\<lambda>c. ColName c = f) (Columns (merged gs cs)) = None" if "f \<notin> fst ` set cs" for f
    using that by (auto simp: find_None_iff merged_def nm)
  have t: "(time_col, ColTimestamp) \<in> set cs" using assms(1) g(4) cs(2) by (cases gs) (auto simp: mergeable_def)
  show times: "group_times (merged gs cs) = concat (map group_times gs)"
    using at [OF t] by (simp add: group_times_def merged_column_def ts_column_def)
  have ex: "(\<exists>g \<in> set gs. dict_col g f \<noteq> None) \<longleftrightarrow> (f, ColDict) \<in> set cs" for f
  proof -
    have "dict_col g f \<noteq> None \<longleftrightarrow> (f, ColDict) \<in> set (col_pairs g)" if "g \<in> set gs" for g using present_pair [OF g(1,2) [OF that]] .
    then show ?thesis unfolding cs(2) by blast
  qed
  show dc: "dict_col (merged gs cs) f = (if \<exists>g \<in> set gs. dict_col g f \<noteq> None then Some (BuildDict (concat (map (cell_values f) gs))) else None)" for f
  proof (cases "(f, ColDict) \<in> set cs")
    case True
    then show ?thesis using at [OF True] ex [of f] by (simp add: dict_col_def merged_column_def dict_column_def col_types)
  next
    case False
    have "dict_col (merged gs cs) f = None"
    proof (cases "f \<in> fst ` set cs")
      case True
      then obtain t where t: "(f, t) \<in> set cs" by force
      then have "t = ColTimestamp" using ty [OF t] False by (auto split: if_splits)
      then show ?thesis using at [OF t] by (simp add: dict_col_def merged_column_def ts_column_def col_types)
    qed (simp add: dict_col_def none)
    then show ?thesis using False ex [of f] by simp
  qed
  have total: "length (concat (map (cell_values f) gs)) = sum_list (map GRows gs)" for f
    using len by (simp add: length_concat o_def) (metis (no_types, lifting) map_cong)
  show cv: "cell_values f (merged gs cs) = concat (map (cell_values f) gs)" for f
  proof (cases "\<exists>g \<in> set gs. dict_col g f \<noteq> None")
    case True
    then show ?thesis using dc [of f] values_of_built total [of f] assms(3) by (simp add: cell_values_def)
  next
    case False
    then have "concat (map (cell_values f) gs) = replicate (sum_list (map GRows gs)) []"
      by (induction gs) (auto simp: cell_values_def replicate_add)
    then show ?thesis using dc [of f] False by (simp add: cell_values_def merged_def)
  qed
  show "rows_of_group (merged gs cs) = concat (map rows_of_group gs)"
    unfolding rows_of_group_def [of "merged gs cs"] times cv using rows_concat [OF len] by (simp add: merged_def)
qed

text \<open>Groups that a query cannot tell apart by their columns: those it reads are in all of them or in none.\<close>

definition read_fields :: "(bytes set \<Rightarrow> bytes list) \<Rightarrow> ('f, 're) Query \<Rightarrow> run_opts \<Rightarrow> bytes set" where
  "read_fields ord q o' = (\<Union>p \<in> set (query_leaves q). {Field p, Field2 p}) \<union> set (query_fields ord q) \<union> set (Materialize o')"

definition alike :: "(bytes set \<Rightarrow> bytes list) \<Rightarrow> ('f, 're) Query \<Rightarrow> run_opts \<Rightarrow> Group list \<Rightarrow> bool" where
  "alike ord q o' gs \<longleftrightarrow> (\<forall>g \<in> set gs. \<forall>g' \<in> set gs. (\<forall>f \<in> read_fields ord q o'. dict_col g f \<noteq> None \<longleftrightarrow> dict_col g' f \<noteq> None)
     \<and> (MatAll o' \<or> MatCols o' \<longrightarrow> col_pairs g = col_pairs g'))"

lemma cells_hit_cong:
  assumes "\<And>p. p \<in> set (query_leaves q) \<Longrightarrow> has (Field p) = has' (Field p) \<and> has (Field2 p) = has' (Field2 p)"
  shows "cells_hit G has q = cells_hit G has' q"
proof -
  have "scanMatchesRow G has q src = scanMatchesRow G has' q src" for src
  proof -
    let ?e = "\<lambda>h p. column_leaf h p \<and> predMatchesRow G p src"
    have "?e has p = ?e has' p" if "p \<in> set (query_leaves q)" for p using assms [OF that] by (simp add: column_leaf_def)
    then show ?thesis using exprHolds_cong [of _ "?e has" "?e has'"]
      by (auto simp: scanMatchesRow_def queryHolds_def query_leaves_def list_all_iff split: option.splits)
  qed
  then show ?thesis by (intro ext) (simp add: cells_hit_def)
qed

lemma cells_row_cong: "(\<And>f. f \<in> set fs \<Longrightarrow> has f = has' f) \<Longrightarrow> cells_row fmt has fs = cells_row fmt has' fs"
  by (induction fs) (auto simp: cells_row_def fun_eq_iff map_filter_simps split: option.split)

lemma out_fields_set: "set (out_fields ord names q o') \<subseteq> set (query_fields ord q) \<union> set (Materialize o') \<union> (if MatAll o' \<or> MatCols o' then set names else {})"
  by (auto simp: out_fields_def)

lemma merged_answer:
  assumes "mergeable gs" and "union_of gs cs" and "sum_list (map GRows gs) < 2 ^ 32" and "alike ord q o' gs"
  defines "M \<equiv> merged gs cs"
  shows "map (output_row fmt M (out_fields ord (map ColName (Columns M)) q o')) (matching G q M)
    = concat (map (\<lambda>g. map (output_row fmt g (out_fields ord (map ColName (Columns g)) q o')) (matching G q g)) gs)"
proof -
  note mf = merged_facts [OF assms(1-3), folded M_def]
  let ?h = "\<lambda>g f. dict_col g f \<noteq> None" and ?fs = "\<lambda>g. out_fields ord (map ColName (Columns g)) q o'"
  obtain g0 gs' where gs: "gs = g0 # gs'" using assms(1) by (cases gs) (auto simp: mergeable_def)
  have all: "MatAll o' \<or> MatCols o' \<Longrightarrow> g \<in> set gs \<Longrightarrow> cs = col_pairs g" for g
    using assms(2,4) unfolding union_of_def alike_def by blast
  have dist: "distinct (map ColName (Columns M))" "g \<in> set gs \<Longrightarrow> distinct (map ColName (Columns g))" for g
    using assms(1,2) mf(1) by (auto simp: mergeable_def union_of_def)
  have hM: "?h M f \<longleftrightarrow> (\<exists>g \<in> set gs. ?h g f)" for f using mf(3) [of f] by auto
  have fs: "?fs g = ?fs M" if "g \<in> set gs" for g
  proof (cases "MatAll o' \<or> MatCols o'")
    case True
    have "map ColName (Columns g) = map fst (col_pairs g)" by (simp add: col_pairs_def o_def)
    then show ?thesis using all [OF True that] mf(1) by simp
  next
    case False
    then show ?thesis by (simp add: out_fields_def)
  qed
  have h: "?h g f = ?h M f" if "g \<in> set gs" "f \<in> read_fields ord q o'" for g f
    using assms(4) that unfolding hM alike_def by blast
  have hall: "?h g f = ?h M f" if "g \<in> set gs" "MatAll o' \<or> MatCols o'" for g f
  proof -
    have "?h g' f \<longleftrightarrow> (f, ColDict) \<in> set cs" if "g' \<in> set gs" for g'
      using present_pair [of g' f] assms(1) all [OF \<open>MatAll o' \<or> MatCols o'\<close> that] that by (simp add: mergeable_def)
    then show ?thesis unfolding hM using that(1) by blast
  qed
  have hit: "cells_hit G (?h g) q = cells_hit G (?h M) q" if "g \<in> set gs" for g
    by (rule cells_hit_cong) (use h [OF that] in \<open>auto simp: read_fields_def\<close>)
  have row: "cells_row fmt (?h g) (?fs M) = cells_row fmt (?h M) (?fs M)" if "g \<in> set gs" for g
  proof (rule cells_row_cong)
    fix f assume "f \<in> set (?fs M)"
    then show "?h g f = ?h M f" using out_fields_set [of ord "map ColName (Columns M)" q o'] h [OF that, of f] hall [OF that, of f]
      by (auto simp: read_fields_def split: if_splits)
  qed
  have each: "map (output_row fmt g (?fs g)) (matching G q g) = map (cells_row fmt (?h M) (?fs M)) (filter (cells_hit G (?h M) q) (rows_of_group g))"
    if "g \<in> set gs" for g
    using group_answer_cells [OF dist(2) [OF that], where has = "?h g" and fmt = fmt and fs = "?fs g" and G = G and q = q] fs [OF that] hit [OF that] row [OF that] by simp
  have "map (output_row fmt M (?fs M)) (matching G q M) = map (cells_row fmt (?h M) (?fs M)) (filter (cells_hit G (?h M) q) (concat (map rows_of_group gs)))"
    using group_answer_cells [OF dist(1), where has = "?h M" and fmt = fmt and fs = "?fs M" and G = G and q = q] mf(5) by simp
  also have "\<dots> = concat (map (\<lambda>g. map (output_row fmt g (?fs g)) (matching G q g)) gs)"
    using each by (simp add: filter_concat map_concat o_def cong: map_cong)
  finally show ?thesis .
qed

section \<open>A merged group can be written\<close>

text \<open>Values below 8 MiB, so that 64 of them fit a dictionary block.\<close>

definition short_values :: "Group \<Rightarrow> bool" where
  "short_values g \<longleftrightarrow> (\<forall>f. \<forall>v \<in> set (cell_values f g). length v < 2 ^ 23)"

lemma sum_list_le: "(\<And>x. x \<in> set xs \<Longrightarrow> f x \<le> (b :: nat)) \<Longrightarrow> sum_list (map f xs) \<le> length xs * b"
  by (induction xs) (auto simp: add_mono)

lemma built_wf:
  assumes "length vals \<le> MaxRows" and "\<And>v. v \<in> set vals \<Longrightarrow> length v < 2 ^ 23"
  shows "dict_wf (length vals) (BuildDict vals)"
proof -
  have n: "length vals < 2 ^ 32" using assms(1) by (simp add: MaxRows_def)
  note sp = BuildDict_spec [OF n]
  have d: "set (Dict (BuildDict vals)) = set vals" by (simp add: sp(1))
  have "length (Dict (BuildDict vals)) = card (set vals)" by (simp add: sp(1))
  then have "length (Dict (BuildDict vals)) \<le> MaxRows" using card_length [of vals] assms(1) by simp
  moreover have "\<forall>x \<in> set (Indices (BuildDict vals)). unat x < length (Dict (BuildDict vals))"
    using sp(2,3) by (auto simp: in_set_conv_nth)
  moreover have "length (marshalRawBlock (dict_block (Dict (BuildDict vals)) k)) < 2 ^ 30" for k
  proof -
    let ?b = "dict_block (Dict (BuildDict vals)) k"
    have "length ?b \<le> 64" by (simp add: dict_block_def dictBlock_def)
    moreover have "length v \<le> 2 ^ 23" if "v \<in> set ?b" for v
      using that d assms(2) [of v] by (auto simp: dict_block_def dest!: in_set_takeD in_set_dropD)
    then have "sum_list (map length ?b) \<le> length ?b * 2 ^ 23" by (rule sum_list_le)
    ultimately show ?thesis by (simp add: marshalRawBlock_def length_concat)
  qed
  ultimately show ?thesis using sp(1,2) by (simp add: dict_wf_def)
qed

lemma merged_wf:
  assumes "mergeable gs" and "union_of gs cs" and "sum_list (map GRows gs) \<le> MaxRows" and "length cs \<le> maxGroupColumns" and "\<forall>g \<in> set gs. short_values g"
  shows "group_wf (merged gs cs)" and "list_all narrow (Columns (merged gs cs))" and "distinct (map ColName (Columns (merged gs cs)))"
    and "list_ex (\<lambda>c. ColName c = time_col \<and> ColTypeOf c = ColTimestamp) (Columns (merged gs cs))" and "0 < GRows (merged gs cs)"
    and "short_values (merged gs cs)"
proof -
  have n: "sum_list (map GRows gs) < 2 ^ 32" using assms(3) by (simp add: MaxRows_def)
  note mf = merged_facts [OF assms(1,2) n]
  have cs: "distinct (map fst cs)" "set cs = (\<Union>g \<in> set gs. set (col_pairs g))" using assms(2) by (simp_all add: union_of_def)
  have g: "group_wf g" "distinct (map ColName (Columns g))" "(time_col, ColTimestamp) \<in> set (col_pairs g)" "0 < GRows g" if "g \<in> set gs" for g
    using assms(1) that by (simp_all add: mergeable_def)
  obtain g0 where g0: "g0 \<in> set gs" using assms(1) by (cases gs) (auto simp: mergeable_def)
  show "distinct (map ColName (Columns (merged gs cs)))" unfolding mf(1) by (rule cs(1))
  show "list_all narrow (Columns (merged gs cs))"
    by (auto simp: list_all_iff merged_def narrow_def merged_column_def ts_column_def dict_column_def col_types)
  have "(time_col, ColTimestamp) \<in> set (col_pairs (merged gs cs))" unfolding mf(6) cs(2) using g(3) g0 by blast
  then obtain c where "c \<in> set (Columns (merged gs cs))" "ColName c = time_col" "ColTypeOf c = ColTimestamp" by (auto simp: col_pairs_def)
  then show t: "list_ex (\<lambda>c. ColName c = time_col \<and> ColTypeOf c = ColTimestamp) (Columns (merged gs cs))" by (auto simp: list_ex_iff)
  show "0 < GRows (merged gs cs)" using g(4) [OF g0] g0 member_le_sum_list [of "GRows g0" "map GRows gs"] by (fastforce simp: merged_def)
  show "short_values (merged gs cs)" unfolding short_values_def mf(4) using assms(5) by (auto simp: short_values_def)
  have name: "length (fst p) \<le> maxNameBytes" if "p \<in> set cs" for p
  proof -
    obtain g c where "g \<in> set gs" "c \<in> set (Columns g)" "fst p = ColName c" using \<open>p \<in> set cs\<close> unfolding cs(2) col_pairs_def by auto
    then show ?thesis using g(1) by (auto simp: group_wf_def list_all_iff column_wf_def)
  qed
  have lens: "length (concat (map group_times gs)) = sum_list (map GRows gs)" "length (concat (map (cell_values f) gs)) = sum_list (map GRows gs)" for f
    using g group_times_length cell_values_length by (auto simp: length_concat o_def cong: map_cong)
  have "column_wf (sum_list (map GRows gs)) (merged_column gs p)" if "p \<in> set cs" for p
  proof (cases "snd p = ColTimestamp")
    case True
    then show ?thesis using name [OF that] lens(1) by (simp add: column_wf_def merged_column_def ts_column_def col_types)
  next
    case False
    have "dict_wf (length (concat (map (cell_values (fst p)) gs))) (BuildDict (concat (map (cell_values (fst p)) gs)))"
      by (rule built_wf) (use lens(2) assms(3,5) in \<open>auto simp: short_values_def\<close>)
    then show ?thesis using False name [OF that] lens(2) by (simp add: column_wf_def merged_column_def dict_column_def col_types)
  qed
  moreover have "list_ex (\<lambda>c. ColTypeOf c = ColDict \<or> ColTypeOf c = ColTimestamp) (Columns (merged gs cs))" using t by (auto simp: list_ex_iff)
  ultimately show "group_wf (merged gs cs)" using assms(3,4) by (auto simp: group_wf_def merged_def list_all_iff)
qed

lemma written_mergeable:
  assumes "batch_of K R gs xs" and "gs \<noteq> []" and "\<forall>g \<in> set gs. plain g"
  shows "mergeable gs"
proof -
  have "\<exists>B r. written_group K R g B r" if "g \<in> set gs" for g
    using assms(1) that unfolding batch_of_def by (induction rule: list_all2_induct) auto
  moreover have "group_wf g \<and> distinct (map ColName (Columns g)) \<and> 0 < GRows g \<and> (time_col, ColTimestamp) \<in> set (col_pairs g)"
    if "written_group K R g B r" for g B r
    using written_group.wf [OF that] written_group.names [OF that] written_group.nonempty [OF that] written_group.time_pair [OF that] by simp
  ultimately show ?thesis unfolding mergeable_def using assms(2,3) by metis
qed

section \<open>Rebuilding one group\<close>

lemma union_single: "distinct (map ColName (Columns g)) \<Longrightarrow> union_of [g] (col_pairs g)"
  by (simp add: union_of_def col_pairs_def o_def)

context written_group
begin

lemma rebuild_column_read:
  assumes "plain g" and "(Name m, Type m) \<in> set (col_pairs g)" and "cache_coherent R r c"
  shows "\<exists>c'. rebuild_column R r m (Some out, c) = Some (Some (out @ [merged_column [g] (Name m, Type m)]), c') \<and> cache_coherent R r c'"
proof (cases "Name m = time_col")
  case True
  then have "Type m = ColTimestamp" using plain_pair [OF assms(1,2)] by simp
  then show ?thesis using True times_range times_read(1) assms(3) by (simp add: rebuild_column_def merged_column_def)
next
  case False
  then have t: "Type m = ColDict" using plain_pair [OF assms(1,2)] by simp
  then obtain d where d: "dict_col g (Name m) = Some d" using present_pair [OF wf assms(1), of "Name m"] assms(2) by auto
  obtain c' where c': "DictIndices R r c (Name m) = Some (Indices d, Dict d, c')" "cache_coherent R r c'" using indices_read(1) [OF d assms(3)] by blast
  note mi = merge_indices [OF d assms(3)]
  have "Indices d \<noteq> []" using mi(2) nonempty by auto
  then show ?thesis using t c' mi(3) d by (auto simp: rebuild_column_def merged_column_def cell_values_def col_types)
qed

lemma rebuild_read:
  assumes "plain g" and "cache_coherent R r c"
  shows "\<exists>c'. rebuild R r compact drp c = Some (Some ((merged [g] (col_pairs g))\<lparr>Compact := compact, NoPostings := drp\<rparr>), c') \<and> cache_coherent R r c'"
proof -
  have "\<exists>c'. fold_opt (rebuild_column R r) ms (Some out, c) = Some (Some (out @ map (\<lambda>m. merged_column [g] (Name m, Type m)) ms), c') \<and> cache_coherent R r c'"
    if "\<forall>m \<in> set ms. (Name m, Type m) \<in> set (col_pairs g)" "cache_coherent R r c" for ms out c
    using that
  proof (induction ms arbitrary: out c)
    case (Cons m ms)
    obtain c1 where c1: "rebuild_column R r m (Some out, c) = Some (Some (out @ [merged_column [g] (Name m, Type m)]), c1)" "cache_coherent R r c1"
      using rebuild_column_read [OF assms(1), of m c out] Cons.prems by auto
    from Cons.IH [OF _ this(2), of "out @ [merged_column [g] (Name m, Type m)]"] Cons.prems(1) c1(1) show ?case by simp
  qed simp
  from this [of "cols r" c "[]"] assms(2) col_pairs_read
  obtain c' where c': "fold_opt (rebuild_column R r) (cols r) (Some [], c) = Some (Some (map (\<lambda>m. merged_column [g] (Name m, Type m)) (cols r)), c')" "cache_coherent R r c'"
    by (metis (no_types, lifting) append_Nil image_eqI list.set_map)
  have "map (\<lambda>m. merged_column [g] (Name m, Type m)) (cols r) = map (merged_column [g]) (col_pairs g)"
    unfolding col_pairs_read [symmetric] by (simp add: o_def)
  then show ?thesis using c' rows_le(2) by (simp add: rebuild_def merged_def)
qed

end

end
