(* ===== verification/Repair.thy ===== *)
theory Repair
  imports Store
begin

text \<open>
  Naming groups by their content, \<^verbatim>\<open>internal/storage/antientropy.go\<close>: the digest cache, the inventory a replica reports, the group it serves to a
  peer, and the adoption of a group streamed from a peer.

  SHA-256 in hex is the parameter \<open>H\<close>.  The cache is the map \<^verbatim>\<open>digestByID\<close>, passed beside the store.  The operating system answers
  each read of a file, each status call and each step of staging; the fault hooks are nil in production and left out.
\<close>

type_synonym digests = "u64 \<Rightarrow> bytes option"

datatype repair_error = ReadFailed | NotOnDisk u64 | NoSnapshot store_error | Changed u64 | NoSuchDigest | WriteRefused | StageFailed | WrongDigest | NotCommitted store_error

section \<open>Digests\<close>

definition fileDigest :: "(bytes \<Rightarrow> bytes) \<Rightarrow> (path \<Rightarrow> bool) \<Rightarrow> path \<Rightarrow> Store \<Rightarrow> repair_error + bytes" where
  "fileDigest H reads p s = (if \<not> reads p then Inl ReadFailed else case files s p of None \<Rightarrow> Inl ReadFailed | Some b \<Rightarrow> Inr (H b))"

definition groupDigestCached :: "(bytes \<Rightarrow> bytes) \<Rightarrow> (path \<Rightarrow> bool) \<Rightarrow> u64 \<Rightarrow> Store \<Rightarrow> digests \<Rightarrow> (repair_error + bytes) \<times> digests" where
  "groupDigestCached H reads i s D = (case D i of
     Some d \<Rightarrow> (Inr d, D)
   | None \<Rightarrow> (case fileDigest H reads (GroupFile i) s of Inl e \<Rightarrow> (Inl e, D) | Inr d \<Rightarrow> (Inr d, D(i \<mapsto> d))))"

definition invalidateDigest :: "u64 \<Rightarrow> digests \<Rightarrow> digests" where
  "invalidateDigest i D = D(i := None)"

section \<open>The inventory\<close>

record GroupDigest =
  Digest :: bytes
  gd_ID :: u64
  gd_Rows :: nat
  gd_TimeMin :: u64
  gd_TimeMax :: u64
  gd_Bytes :: nat

fun digest_loop :: "(bytes \<Rightarrow> bytes) \<Rightarrow> (path \<Rightarrow> bool) \<Rightarrow> (path \<Rightarrow> bool) \<Rightarrow> Store \<Rightarrow> (u64 \<times> Reader) list \<Rightarrow> digests \<Rightarrow> (repair_error + GroupDigest list) \<times> digests" where
  "digest_loop H ok reads s [] D = (Inr [], D)"
| "digest_loop H ok reads s ((i, g) # gs) D = (case (if ok (GroupFile i) then files s (GroupFile i) else None) of
     None \<Rightarrow> (Inl (NotOnDisk i), D)
   | Some b \<Rightarrow> (case groupDigestCached H reads i s D of
       (Inl e, D1) \<Rightarrow> (Inl e, D1)
     | (Inr d, D1) \<Rightarrow> (case digest_loop H ok reads s gs D1 of
         (Inl e, D2) \<Rightarrow> (Inl e, D2)
       | (Inr out, D2) \<Rightarrow> (Inr (\<lparr>Digest = d, gd_ID = i, gd_Rows = Rows g, gd_TimeMin = TimeMin g, gd_TimeMax = TimeMax g, gd_Bytes = length b\<rparr> # out), D2))))"

definition snap_pairs :: "Store \<Rightarrow> Snapshot \<Rightarrow> (u64 \<times> Reader) list" where
  "snap_pairs s sn = zip (snap_GroupIDs s sn) (snap_Groups s sn)"

definition GroupDigests :: "(bytes \<Rightarrow> bytes) \<Rightarrow> (path \<Rightarrow> bool) \<Rightarrow> (path \<Rightarrow> bool) \<Rightarrow> Store \<Rightarrow> digests \<Rightarrow> (repair_error + GroupDigest list) \<times> Store \<times> digests" where
  "GroupDigests H ok reads s D = (case SnapshotAllWithSeq s of
     (Inl e, s1) \<Rightarrow> (Inl (NoSnapshot e), s1, D)
   | (Inr (sn, q), s1) \<Rightarrow> (let s2 = snd (snap_Close sn s1) in
       case digest_loop H ok reads s1 (snap_pairs s1 sn) D of
         (Inl e, D1) \<Rightarrow> (Inl e, s2, D1)
       | (Inr out, D1) \<Rightarrow> (Inr out, s2, D1 |` set (snap_GroupIDs s1 sn))))"

section \<open>Serving a group\<close>

text \<open>The file is hashed once more before it is opened; \<open>again\<close> answers that read and \<open>opens\<close> the open.\<close>

fun open_loop :: "(bytes \<Rightarrow> bytes) \<Rightarrow> (path \<Rightarrow> bool) \<Rightarrow> (path \<Rightarrow> bool) \<Rightarrow> (path \<Rightarrow> bool) \<Rightarrow> bytes \<Rightarrow> Store \<Rightarrow> u64 list \<Rightarrow> digests \<Rightarrow> (repair_error + bytes) \<times> digests" where
  "open_loop H reads again opens digest s [] D = (Inl NoSuchDigest, D)"
| "open_loop H reads again opens digest s (i # is) D = (case groupDigestCached H reads i s D of
     (Inl e, D1) \<Rightarrow> open_loop H reads again opens digest s is D1
   | (Inr d, D1) \<Rightarrow> if d \<noteq> digest then open_loop H reads again opens digest s is D1
       else (case fileDigest H again (GroupFile i) s of
         Inl e \<Rightarrow> (Inl e, D1)
       | Inr got \<Rightarrow> if got \<noteq> digest then (Inl (Changed i), D1)
           else (case (if opens (GroupFile i) then files s (GroupFile i) else None) of None \<Rightarrow> (Inl ReadFailed, D1) | Some b \<Rightarrow> (Inr b, D1))))"

definition OpenGroupBytes :: "(bytes \<Rightarrow> bytes) \<Rightarrow> (path \<Rightarrow> bool) \<Rightarrow> (path \<Rightarrow> bool) \<Rightarrow> (path \<Rightarrow> bool) \<Rightarrow> bytes \<Rightarrow> Store \<Rightarrow> digests \<Rightarrow> (repair_error + bytes) \<times> Store \<times> digests" where
  "OpenGroupBytes H reads again opens digest s D = (case SnapshotAllWithSeq s of
     (Inl e, s1) \<Rightarrow> (Inl (NoSnapshot e), s1, D)
   | (Inr (sn, q), s1) \<Rightarrow> (case open_loop H reads again opens digest s1 (snap_GroupIDs s1 sn) D of (res, D1) \<Rightarrow> (res, snd (snap_Close sn s1), D1)))"

section \<open>Adopting a group\<close>

fun has_loop :: "(bytes \<Rightarrow> bytes) \<Rightarrow> (path \<Rightarrow> bool) \<Rightarrow> bytes \<Rightarrow> Store \<Rightarrow> u64 list \<Rightarrow> digests \<Rightarrow> bool \<times> digests" where
  "has_loop H reads digest s [] D = (False, D)"
| "has_loop H reads digest s (i # is) D = (case groupDigestCached H reads i s D of
     (Inl e, D1) \<Rightarrow> has_loop H reads digest s is D1
   | (Inr d, D1) \<Rightarrow> if d = digest then (True, D1) else has_loop H reads digest s is D1)"

definition hasDigest :: "(bytes \<Rightarrow> bytes) \<Rightarrow> (path \<Rightarrow> bool) \<Rightarrow> bytes \<Rightarrow> Store \<Rightarrow> digests \<Rightarrow> bool \<times> Store \<times> digests" where
  "hasDigest H reads digest s D = (case SnapshotAllWithSeq s of
     (Inl e, s1) \<Rightarrow> (False, s1, D)
   | (Inr (sn, q), s1) \<Rightarrow> (case has_loop H reads digest s1 (snap_GroupIDs s1 sn) D of (b, D1) \<Rightarrow> (b, snd (snap_Close sn s1), D1)))"

text \<open>Staging: the copy may fail after some bytes; a file whose copy, sync or close failed is removed.\<close>

record adopt_io =
  aio_create :: bool
  aio_copy :: "nat option"
  aio_sync :: bool
  aio_close :: bool

definition stage_stream :: "adopt_io \<Rightarrow> (path \<Rightarrow> bool) \<Rightarrow> u64 \<Rightarrow> bytes \<Rightarrow> Store \<Rightarrow> bool \<times> nat \<times> Store" where
  "stage_stream aio ok i stream s = (if \<not> aio_create aio then (False, 0, s) else
     let got = (case aio_copy aio of None \<Rightarrow> stream | Some k \<Rightarrow> take k stream);
         s1 = s\<lparr>files := (files s)(StagedFile i \<mapsto> got)\<rparr> in
     if aio_copy aio \<noteq> None \<or> \<not> aio_sync aio \<or> \<not> aio_close aio then (False, length got, snd (unlink ok (StagedFile i) s1))
     else (True, length got, s1))"

text \<open>The parameters \<open>writable\<close> and \<open>veto\<close> are the answer of \<^verbatim>\<open>CheckWrite\<close> and the veto of the caller.\<close>

definition AdoptGroupStream :: "(bytes \<Rightarrow> bytes) \<Rightarrow> sorter \<Rightarrow> store_io \<Rightarrow> adopt_io \<Rightarrow> (path \<Rightarrow> bool) \<Rightarrow> bool \<Rightarrow> (Reader \<Rightarrow> bool) \<Rightarrow> bytes \<Rightarrow> bytes \<Rightarrow> Store \<Rightarrow> digests
    \<Rightarrow> (repair_error + bool) \<times> nat \<times> Store \<times> digests" where
  "AdoptGroupStream H srt io aio reads writable veto digest stream s D = (case hasDigest H reads digest s D of
     (True, s1, D1) \<Rightarrow> (Inr False, 0, s1, D1)
   | (False, s1, D1) \<Rightarrow> if \<not> writable then (Inl WriteRefused, 0, s1, D1) else
       let i = nextID s1; s2 = s1\<lparr>nextID := nextID s1 + 1\<rparr> in
       (case stage_stream aio (io_unlink io) i stream s2 of
          (False, n, s3) \<Rightarrow> (Inl StageFailed, n, s3, D1)
        | (True, n, s3) \<Rightarrow>
            if H stream \<noteq> digest then (Inl WrongDigest, n, snd (unlink (io_unlink io) (StagedFile i) s3), D1)
            else (case commitGroupFile srt io (StagedFile i) (GroupFile i) i (int n) [] (\<lambda>g. 0 < Rows g \<and> \<not> veto g) s3 of
                (Inl e, s4) \<Rightarrow> (Inl (NotCommitted e), n, s4, D1)
              | (Inr j, s4) \<Rightarrow> (Inr True, n, s4, D1))))"

section \<open>A snapshot of everything\<close>

lemma release_acquire: "\<not> retired e \<Longrightarrow> 0 \<le> refs e \<Longrightarrow> snd (release (snd (acquire e))) = e"
  by (cases e) (simp add: release_def acquire_def Let_def)

lemma upd_release_acquire:
  assumes "distinct as" and "set as \<subseteq> {..<length E}" and "\<And>a. a \<in> set as \<Longrightarrow> \<not> retired (E ! a) \<and> 0 \<le> refs (E ! a)"
  shows "upd release as (upd acquire as E) = E"
  by (rule nth_equalityI) (use assms release_acquire upd_nth [OF assms(1), of "upd acquire as E" _ release] upd_nth [OF assms(1), of E _ acquire] in auto)

text \<open>Taken and closed, it leaves the store as it was; in between it names the groups of the index, in order.\<close>

lemma whole_snapshot:
  assumes "heap_ok s sns" and "index_ok s" and "\<not> closed s"
  obtains sn q s1 where "SnapshotAllWithSeq s = (Inr (sn, q), s1)" "snd (snap_Close sn s1) = s" "files s1 = files s"
    "snap_GroupIDs s1 sn = ids_of s" "snap_Groups s1 sn = map (\<lambda>a. reader (entries s ! a)) (groups s)"
proof -
  let ?E = "entries s"
  have g: "distinct (groups s)" "set (groups s) \<subseteq> {..<length ?E}" "\<And>a. a \<in> set (groups s) \<Longrightarrow> \<not> retired (?E ! a)"
    using assms(2) by (auto simp: index_ok_def)
  have refs: "0 \<le> refs (?E ! a)" if "a \<in> set (groups s)" for a
  proof -
    have "entry_ok (holds sns a) (?E ! a)" using assms(1) g(2) that by (auto simp: heap_ok_def)
    then show ?thesis using g(3) [OF that] by (auto simp: entry_ok_def split: if_splits)
  qed
  let ?s1 = "s\<lparr>entries := upd acquire (groups s) ?E\<rparr>" and ?sn = "\<lparr>snap_entries = groups s, snap_closed = False\<rparr>"
  have "lease (\<lambda>_. True) (groups s) s = (groups s, ?s1)" using lease_index [OF g(1,2), of "\<lambda>_. True"] g(3) refs by (simp add: Let_def)
  then have snap: "SnapshotAllWithSeq s = (Inr (?sn, m_seq (fst (man s))), ?s1)" using assms(3) by (simp add: SnapshotAllWithSeq_def take_snapshot_def)
  have "upd release (groups s) (upd acquire (groups s) ?E) = ?E" using g refs by (intro upd_release_acquire) auto
  then have "snd (snap_Close ?sn ?s1) = s" by (simp add: snap_Close_def on_entries_eq)
  moreover have "upd acquire (groups s) ?E ! a = snd (acquire (?E ! a))" if "a \<in> set (groups s)" for a
    using upd_nth [OF g(1,2), of a acquire] g(2) that by auto
  then have "snap_GroupIDs ?s1 ?sn = ids_of s" "snap_Groups ?s1 ?sn = map (\<lambda>a. reader (?E ! a)) (groups s)"
    by (simp_all add: snap_GroupIDs_def snap_Groups_def ids_of_def entry_at_def)
  ultimately show ?thesis using that snap by simp
qed

lemma has_store:
  assumes "heap_ok s sns" and "index_ok s" and "\<not> closed s"
  shows "fst (snd (hasDigest H reads digest s D)) = s"
  by (rule whole_snapshot [OF assms]) (simp add: hasDigest_def split: prod.splits)

section \<open>An adoption keeps the invariant\<close>

lemma staged_index:
  assumes "index_ok s" and "heap_ok s sns" and "s' = s\<lparr>nextID := n, files := F\<rparr>" and "nextID s \<le> n" and "\<And>i. F (GroupFile i) = files s (GroupFile i)"
  shows "index_ok s'" and "heap_ok s' sns" and "ids_of s' = ids_of s"
proof -
  show "heap_ok s' sns" using assms(2) by (simp add: assms(3) heap_ok_def)
  show "ids_of s' = ids_of s" by (simp add: assms(3) ids_of_def)
  have "\<exists>i < n. p = GroupFile i \<and> i \<notin> set (ids_of s)" if "p \<in> set (tombstones s)" for p
    using assms(1,4) that by (meson index_ok_def less_le_trans)
  then show "index_ok s'" unfolding assms(3) using assms(4,5) by (intro index_ok_frame [OF assms(1)]) simp_all
qed

lemma discard_staged:
  assumes "heap_ok s sns" and "index_ok s"
  shows "heap_ok (snd (discard io (StagedFile i) j e s)) sns \<and> index_ok (snd (discard io (StagedFile i) j e s)) \<and> ids_of (snd (discard io (StagedFile i) j e s)) = ids_of s"
proof -
  obtain F where F: "snd (discard io (StagedFile i) j e s) = s\<lparr>files := F\<rparr>" "\<And>q. q \<noteq> StagedFile i \<Longrightarrow> F q = files s q" using discard_frame by blast
  then have "snd (discard io (StagedFile i) j e s) = s\<lparr>nextID := nextID s, files := F\<rparr>" by simp
  from staged_index [OF assms(2,1) this] F(2) show ?thesis by simp
qed

lemma commit_staged_inv:
  assumes srt: "sorter_ok srt" and io: "production io" and ok: "heap_ok s sns" "index_ok s" "\<not> closed s"
    and new: "i \<notin> set (ids_of s)" "i < nextID s" "files s (StagedFile i) = Some b" "GroupFile i \<notin> set (tombstones s)"
    and c: "commitGroupFile srt io (StagedFile i) (GroupFile i) i sz [] chk s = (res, s')"
  shows "heap_ok s' sns \<and> index_ok s' \<and> ((res = Inr i \<and> set (ids_of s') = insert i (set (ids_of s)) \<and> files s' (GroupFile i) = Some b \<and> (\<exists>r. ReadGroup b = Some (Inr r) \<and> chk r))
    \<or> (\<exists>e. res = Inl e \<and> ids_of s' = ids_of s))"
proof (cases "map_group io (StagedFile i) s")
  case (Inl e)
  then have "res = Inl e" "s' = snd (discard io (StagedFile i) i e s)" using c by (simp_all add: commitGroupFile_def discard_def)
  then show ?thesis using discard_staged [OF ok(1,2)] by simp
next
  case (Inr r)
  then have r: "ReadGroup b = Some (Inr r)" using new(3) by (auto simp: map_group_def split: if_splits option.splits sum.splits)
  let ?s1 = "s\<lparr>files := (files s)(GroupFile i := files s (StagedFile i), StagedFile i := None)\<rparr>"
  have s1: "heap_ok ?s1 sns" "ids_of ?s1 = ids_of s" using ok(1) by (simp_all add: heap_ok_def ids_of_def)
  have i1: "index_ok ?s1"
    by (rule index_ok_frame [OF ok(2)]) (use new(1) ok(2) in \<open>auto simp: index_ok_def\<close>)
  consider "\<not> chk r" | "chk r" "\<not> io_rename io" | "chk r" "io_rename io" "\<not> io_dirsync io" | "chk r" "io_rename io" "io_dirsync io" by blast
  then show ?thesis
  proof cases
    case 1
    then have "res = Inl Refused" "s' = snd (discard io (StagedFile i) i Refused s)" using c Inr by (simp_all add: commitGroupFile_def discard_def)
    then show ?thesis using discard_staged [OF ok(1,2)] by simp
  next
    case 2
    then have "res = Inl RenameFailed" "s' = snd (discard io (StagedFile i) i RenameFailed s)" using c Inr by (simp_all add: commitGroupFile_def discard_def)
    then show ?thesis using discard_staged [OF ok(1,2)] by simp
  next
    case 3
    then have "res = Inl DirSyncFailed" "s' = snd (discard io (GroupFile i) i DirSyncFailed ?s1)" using c Inr by (simp_all add: commitGroupFile_def discard_def Let_def)
    then show ?thesis using discard_inv [OF s1(1) i1, of i io DirSyncFailed] new(1) s1(2) by simp
  next
    case 4
    then have cl: "commit_locked srt io (GroupFile i) i sz [] r ?s1 = (res, s')" using c Inr by (simp add: commitGroupFile_def Let_def)
    have n1: "\<not> closed ?s1" "i \<notin> set (ids_of ?s1)" "i < nextID ?s1" "files ?s1 (GroupFile i) = Some b" "GroupFile i \<notin> set (tombstones ?s1)"
      using ok(3) new s1(2) by simp_all
    have fr: "files s' = files ?s1" if "res = Inr j" for j using commit_locked_frame(2) [of srt io "GroupFile i" i sz "[]" r ?s1 j] cl that by simp
    show ?thesis using commit_locked_inv [OF srt io s1(1) i1 n1(1-4) r n1(5) cl] fr n1(4) s1(2) r 4(1) by auto
  qed
qed

text \<open>Adopted, the group is in the index under a fresh id with the bytes of the stream, which hash to the digest asked for; otherwise the index is as it was.\<close>

lemma adopt_inv:
  assumes srt: "sorter_ok srt" and io: "production io" and ok: "heap_ok s sns" "index_ok s" "\<not> closed s" and "nextID s + 1 \<noteq> 0"
    and a: "AdoptGroupStream H srt io aio reads writable veto digest stream s D = (res, n, s', D')"
  shows "heap_ok s' sns \<and> index_ok s' \<and> ((res = Inr True \<and> \<not> fst (hasDigest H reads digest s D) \<and> H stream = digest \<and> set (ids_of s') = insert (nextID s) (set (ids_of s))
      \<and> files s' (GroupFile (nextID s)) = Some stream \<and> (\<exists>r. ReadGroup stream = Some (Inr r) \<and> 0 < Rows r \<and> \<not> veto r))
    \<or> (res = Inr False \<and> fst (hasDigest H reads digest s D) \<and> s' = s) \<or> (\<exists>e. res = Inl e \<and> ids_of s' = ids_of s))"
    and "D' = snd (snd (hasDigest H reads digest s D))"
proof -
  let ?i = "nextID s"
  obtain b D1 where h: "hasDigest H reads digest s D = (b, s, D1)" using has_store [OF ok, of H reads digest D] by (metis prod.collapse)
  have lt: "?i < ?i + 1" using assms(6) unatSuc [of ?i] by (simp add: word_less_nat_alt add.commute)
  have fresh: "?i \<notin> set (ids_of s)" "GroupFile ?i \<notin> set (tombstones s)" using ok(2) by (auto simp: index_ok_def)
  have D': "D' = D1" using a by (simp add: AdoptGroupStream_def h Let_def split: bool.splits prod.splits if_splits sum.splits)
  then show "D' = snd (snd (hasDigest H reads digest s D))" by (simp add: h)
  have stays: "heap_ok x sns \<and> index_ok x \<and> ids_of x = ids_of s" if "x = s\<lparr>nextID := ?i + 1, files := F\<rparr>" "\<And>j. F (GroupFile j) = files s (GroupFile j)" for x F
    using staged_index [OF ok(2,1) that(1) less_imp_le [OF lt]] that(2) by blast
  have un: "\<exists>F. snd (unlink u (StagedFile ?i) (s\<lparr>nextID := ?i + 1, files := F0\<rparr>)) = s\<lparr>nextID := ?i + 1, files := F\<rparr> \<and> (\<forall>j. F (GroupFile j) = F0 (GroupFile j))" for u F0
    by (auto simp: unlink_def)
  let ?got = "case aio_copy aio of None \<Rightarrow> stream | Some k \<Rightarrow> take k stream"
  let ?F = "(files s)(StagedFile ?i \<mapsto> ?got)"
  let ?s3 = "s\<lparr>nextID := ?i + 1, files := ?F\<rparr>"
  have s3: "heap_ok ?s3 sns \<and> index_ok ?s3 \<and> ids_of ?s3 = ids_of s" by (rule stays [OF refl]) simp
  show "heap_ok s' sns \<and> index_ok s' \<and> ((res = Inr True \<and> \<not> fst (hasDigest H reads digest s D) \<and> H stream = digest \<and> set (ids_of s') = insert ?i (set (ids_of s))
      \<and> files s' (GroupFile ?i) = Some stream \<and> (\<exists>r. ReadGroup stream = Some (Inr r) \<and> 0 < Rows r \<and> \<not> veto r))
    \<or> (res = Inr False \<and> fst (hasDigest H reads digest s D) \<and> s' = s) \<or> (\<exists>e. res = Inl e \<and> ids_of s' = ids_of s))"
  proof (cases "b \<or> \<not> writable")
    case True
    then show ?thesis using a ok by (auto simp: AdoptGroupStream_def h split: bool.splits)
  next
    case False
    let ?st = "stage_stream aio (io_unlink io) ?i stream (s\<lparr>nextID := ?i + 1\<rparr>)"
    have gone: "heap_ok s' sns \<and> index_ok s' \<and> ids_of s' = ids_of s" if "s' = snd (unlink (io_unlink io) (StagedFile ?i) ?s3)"
      using un [of "io_unlink io" ?F] stays [of s'] that by fastforce
    have cr: "heap_ok s' sns \<and> index_ok s' \<and> ids_of s' = ids_of s" if "s' = s\<lparr>nextID := ?i + 1\<rparr>"
      using stays [of s' "files s"] that by simp
    show ?thesis
    proof (cases "aio_create aio \<and> aio_copy aio = None \<and> aio_sync aio \<and> aio_close aio")
      case bad: False
      then have "res = Inl StageFailed" "s' = s\<lparr>nextID := ?i + 1\<rparr> \<or> s' = snd (unlink (io_unlink io) (StagedFile ?i) ?s3)"
        using a False by (auto simp: AdoptGroupStream_def h stage_stream_def Let_def split: if_splits)
      then show ?thesis using gone cr by blast
    next
      case good: True
      then have st: "?st = (True, length stream, ?s3)" by (simp add: stage_stream_def Let_def)
      show ?thesis
      proof (cases "H stream = digest")
        case ne: False
        then have "res = Inl WrongDigest" "s' = snd (unlink (io_unlink io) (StagedFile ?i) ?s3)"
          using a False st by (auto simp: AdoptGroupStream_def h Let_def split: if_splits)
        then show ?thesis using gone by blast
      next
        case eq: True
        let ?chk = "\<lambda>g. 0 < Rows g \<and> \<not> veto g"
        obtain cr s4 where c: "commitGroupFile srt io (StagedFile ?i) (GroupFile ?i) ?i (int (length stream)) [] ?chk ?s3 = (cr, s4)" by (rule that [OF prod.collapse [symmetric]])
        have n3: "?i \<notin> set (ids_of ?s3)" "?i < nextID ?s3" "files ?s3 (StagedFile ?i) = Some stream" "GroupFile ?i \<notin> set (tombstones ?s3)" "\<not> closed ?s3"
          using fresh lt s3 good ok(3) by simp_all
        have r: "s' = s4" "res = (case cr of Inl e \<Rightarrow> Inl (NotCommitted e) | Inr j \<Rightarrow> Inr True)"
          using a False st eq c by (auto simp: AdoptGroupStream_def h Let_def split: if_splits sum.splits)
        note inv = commit_staged_inv [OF srt io s3 [THEN conjunct1] s3 [THEN conjunct2, THEN conjunct1] n3(5,1-4) c]
        then consider "cr = Inr ?i" "set (ids_of s4) = insert ?i (set (ids_of ?s3))" "files s4 (GroupFile ?i) = Some stream" "\<exists>r. ReadGroup stream = Some (Inr r) \<and> ?chk r"
          | e where "cr = Inl e" "ids_of s4 = ids_of ?s3" by blast
        then show ?thesis using inv s3 eq False by cases (simp_all add: h r)
      qed
    qed
  qed
qed

end
