(* ===== verification/Compaction.thy ===== *)
theory Compaction
  imports Merge Repair
begin

text \<open>
  Compaction of groups, \<^verbatim>\<open>internal/storage/compact_groups.go\<close>: the choice of runs, the batches of a run, and the merge of a batch,
  which writes one group, commits it against its inputs in one manifest record, and retires them.

  A pass holds references on its groups, which the invariant counts like those of a snapshot.  Between the merges of a pass other
  operations of the store may run, so the history of a store has the choice of runs and each merge as steps of their own; the pass as one
  function is the case in which nothing comes between.  The fault hooks are nil in production and left out.
\<close>

section \<open>Options and statistics\<close>

record CompactOptions =
  MinGroups :: int
  MaxRowsPerOutput :: int
  MaxInputBytes :: int
  MaxGroupBytes :: int
  OlderThan :: u64
  MaxOutputs :: int

definition maxRowsPerOutput :: "CompactOptions \<Rightarrow> nat" where
  "maxRowsPerOutput opt = (if MaxRowsPerOutput opt \<le> 0 \<or> MaxRowsPerOutput opt > int MaxRows then MaxRows else nat (MaxRowsPerOutput opt))"

definition enabled :: "CompactOptions \<Rightarrow> bool" where
  "enabled opt \<longleftrightarrow> MinGroups opt \<ge> 1"

definition minGroups :: "CompactOptions \<Rightarrow> nat" where
  "minGroups opt = (if MinGroups opt < 2 then 2 else nat (MinGroups opt))"

record CompactStats =
  Inputs :: nat
  Outputs :: nat
  RowsMoved :: int
  BytesBefore :: int
  BytesAfter :: int

definition no_stats :: CompactStats where
  "no_stats = \<lparr>Inputs = 0, Outputs = 0, RowsMoved = 0, BytesBefore = 0, BytesAfter = 0\<rparr>"

definition add_stats :: "CompactStats \<Rightarrow> CompactStats \<Rightarrow> CompactStats" where
  "add_stats st b = \<lparr>Inputs = Inputs st + Inputs b, Outputs = Outputs st + Outputs b, RowsMoved = RowsMoved st + RowsMoved b,
     BytesBefore = BytesBefore st + BytesBefore b, BytesAfter = BytesAfter st + BytesAfter b\<rparr>"

definition spent :: "CompactStats \<Rightarrow> CompactOptions \<Rightarrow> bool" where
  "spent st opt \<longleftrightarrow> (MaxOutputs opt > 0 \<and> int (Outputs st) \<ge> MaxOutputs opt) \<or> (MaxInputBytes opt > 0 \<and> BytesBefore st \<ge> MaxInputBytes opt)"

section \<open>Choosing runs\<close>

definition compactCandidate :: "groupEntry \<Rightarrow> CompactOptions \<Rightarrow> bool" where
  "compactCandidate e opt = (let r = reader e in
     if OlderThan opt \<noteq> 0 \<and> sint (timeMax e) \<ge> sint (OlderThan opt) then False
     else if MaxGroupBytes opt > 0 \<and> int (length (blob r)) > MaxGroupBytes opt then False
     else if \<not> mergeableColumns r then False
     else if \<not> hasTimestampColumn r then False
     else Rows r < maxRowsPerOutput opt)"

type_synonym plan_state = "nat list list \<times> nat list \<times> nat list \<times> Store"

definition flush_run :: "CompactOptions \<Rightarrow> plan_state \<Rightarrow> plan_state" where
  "flush_run opt st = (case st of (runs, held, cur, s) \<Rightarrow>
     if length cur \<ge> minGroups opt then (runs @ [cur], held, [], s)
     else (runs, take (length held - length cur) held, [], on_entries release cur s))"

definition plan_step :: "CompactOptions \<Rightarrow> plan_state \<Rightarrow> nat \<Rightarrow> plan_state" where
  "plan_step opt st a = (case st of (runs, held, cur, s) \<Rightarrow>
     if \<not> compactCandidate (entry_at s a) opt then flush_run opt st
     else (case on_entry acquire a s of
         (False, s1) \<Rightarrow> flush_run opt (runs, held, cur, s1)
       | (True, s1) \<Rightarrow> (runs, held @ [a], cur @ [a], s1)))"

definition compactionRuns :: "CompactOptions \<Rightarrow> Store \<Rightarrow> nat list list \<times> nat list \<times> Store" where
  "compactionRuns opt s = (case flush_run opt (foldl (plan_step opt) ([], [], [], s) (groups s)) of (runs, held, cur, s') \<Rightarrow> (runs, held, s'))"

section \<open>Merging a batch\<close>

definition stillPresent :: "nat list \<Rightarrow> Store \<Rightarrow> bool" where
  "stillPresent batch s = list_all (\<lambda>a. a \<in> set (groups s) \<and> \<not> retired (entry_at s a)) batch"

text \<open>An input's file is unlinked, or kept on the list of tombstones.\<close>

definition unlink_input :: "(path \<Rightarrow> bool) \<Rightarrow> Store \<Rightarrow> path \<Rightarrow> Store" where
  "unlink_input ok s p = (case unlink ok p s of
     (True, s1) \<Rightarrow> s1 | (False, s1) \<Rightarrow> addTombstone p (s1\<lparr>pendingTombstones := pendingTombstones s1 + 1\<rparr>))"

text \<open>The critical section: the new entry in, the inputs out and retired.\<close>

definition swap_groups :: "sorter \<Rightarrow> u64 \<Rightarrow> Reader \<Rightarrow> nat list \<Rightarrow> man_state \<Rightarrow> Store \<Rightarrow> Store" where
  "swap_groups srt i r batch m s = (
     let victims = filter (\<lambda>a. a \<in> set batch) (groups s);
         kept = filter (\<lambda>a. a \<notin> set batch) (groups s) in
     on_entries retire victims (sortGroups srt (s\<lparr>man := m, groups := kept @ [length (entries s)],
       entries := entries s @ [new_entry i (GroupFile i) r]\<rparr>)))"

text \<open>A discard without an error of a failed rollback, as after a batch that is no longer there.\<close>

definition install_merged :: "sorter \<Rightarrow> store_io \<Rightarrow> Group \<Rightarrow> bytes \<Rightarrow> int \<Rightarrow> nat list \<Rightarrow> Store \<Rightarrow> store_error option \<times> CompactStats \<times> Store" where
  "install_merged srt io g b before batch s = (
     let i = nextID s; s1 = s\<lparr>nextID := nextID s + 1\<rparr>; final = GroupFile i; s2 = s1\<lparr>files := (files s1)(final \<mapsto> b)\<rparr> in
     case io_file io of
       AtomicErrOld \<Rightarrow> (Some FileNotWritten, no_stats, snd (discard io final i FileNotWritten s1))
     | AtomicErrNew \<Rightarrow> (Some FileNotWritten, no_stats, snd (discard io final i FileNotWritten s2))
     | AtomicOK \<Rightarrow> (case map_group io final s2 of
         Inl e \<Rightarrow> (Some e, no_stats, snd (discard io final i e s2))
       | Inr nr \<Rightarrow>
           if \<not> stillPresent batch s2 then (None, no_stats, snd (discard io final i Refused s2))
           else (case commit (io_commit io) [i] (map (\<lambda>a. ge_id (entry_at s2 a)) batch) [] (man s2) of
             (Some e, m) \<Rightarrow> (Some (CommitFailed e), no_stats, snd (discard io final i (CommitFailed e) (s2\<lparr>man := m\<rparr>)))
           | (None, m) \<Rightarrow>
               (None, \<lparr>Inputs = length batch, Outputs = 1, RowsMoved = int (GRows g), BytesBefore = before, BytesAfter = int (length b)\<rparr>,
                foldl (unlink_input (io_unlink io)) (swap_groups srt i nr batch m s2)
                  (map (\<lambda>a. ge_path (entry_at s2 a)) (filter (\<lambda>a. a \<in> set batch) (groups s2)))))))"

definition mergeAndCommit :: "group_kernels \<Rightarrow> read_kernels \<Rightarrow> sorter \<Rightarrow> store_io \<Rightarrow> (nat \<Rightarrow> idx_cache) \<Rightarrow> nat list \<Rightarrow> Store
    \<Rightarrow> (store_error option \<times> CompactStats \<times> Store) option" where
  "mergeAndCommit K R srt io cs batch s = do {
     (gm, before) \<leftarrow> mergeGroups R (map (\<lambda>a. (reader (entry_at s a), cs a)) batch);
     case gm of None \<Rightarrow> Some (None, no_stats, s) | Some g \<Rightarrow> do {
       b \<leftarrow> Marshal K g;
       if int (length b) \<ge> before then Some (None, no_stats, s) else Some (install_merged srt io g b before batch s)
     }
   }"

section \<open>A pass\<close>

text \<open>The operating system may answer each merge of a pass differently: \<open>io n\<close> is what it answers the \<open>n\<close>-th.\<close>

type_synonym pass_state = "CompactStats \<times> nat \<times> Store"

definition flush_batch :: "group_kernels \<Rightarrow> read_kernels \<Rightarrow> sorter \<Rightarrow> (nat \<Rightarrow> store_io) \<Rightarrow> (nat \<Rightarrow> idx_cache) \<Rightarrow> nat list \<Rightarrow> pass_state
    \<Rightarrow> (store_error option \<times> pass_state) option" where
  "flush_batch K R srt io cs batch p = (case p of (st, n, s) \<Rightarrow>
     if length batch < 2 then Some (None, p) else do {
       (e, b, s') \<leftarrow> mergeAndCommit K R srt (io n) cs batch s;
       Some (e, add_stats st b, n + 1, s')
     })"

fun run_batches :: "group_kernels \<Rightarrow> read_kernels \<Rightarrow> sorter \<Rightarrow> (nat \<Rightarrow> store_io) \<Rightarrow> (nat \<Rightarrow> idx_cache) \<Rightarrow> CompactOptions \<Rightarrow> nat list \<Rightarrow> nat list \<Rightarrow> nat \<Rightarrow> int
    \<Rightarrow> pass_state \<Rightarrow> (store_error option \<times> pass_state) option" where
  "run_batches K R srt io cs opt [] batch rows bytes p =
     (if spent (fst p) opt then Some (None, p) else flush_batch K R srt io cs batch p)"
| "run_batches K R srt io cs opt (a # as) batch rows bytes p = (
     let r = reader (entry_at (snd (snd p)) a); sz = int (length (blob r));
         overBudget = (MaxInputBytes opt > 0 \<and> batch \<noteq> [] \<and> BytesBefore (fst p) + bytes + sz > MaxInputBytes opt) in
     if (rows + Rows r > maxRowsPerOutput opt \<or> overBudget) \<and> batch \<noteq> [] then do {
       (e, p') \<leftarrow> flush_batch K R srt io cs batch p;
       if e \<noteq> None then Some (e, p')
       else if spent (fst p') opt then Some (None, p')
       else run_batches K R srt io cs opt as [a] (Rows r) sz p'
     } else run_batches K R srt io cs opt as (batch @ [a]) (rows + Rows r) (bytes + sz) p)"

definition compactRun :: "group_kernels \<Rightarrow> read_kernels \<Rightarrow> sorter \<Rightarrow> (nat \<Rightarrow> store_io) \<Rightarrow> (nat \<Rightarrow> idx_cache) \<Rightarrow> CompactOptions \<Rightarrow> nat list
    \<Rightarrow> pass_state \<Rightarrow> (store_error option \<times> pass_state) option" where
  "compactRun K R srt io cs opt run p = (if length run < minGroups opt then Some (None, p) else run_batches K R srt io cs opt run [] 0 0 p)"

fun compact_runs :: "group_kernels \<Rightarrow> read_kernels \<Rightarrow> sorter \<Rightarrow> (nat \<Rightarrow> store_io) \<Rightarrow> (nat \<Rightarrow> idx_cache) \<Rightarrow> CompactOptions \<Rightarrow> nat list list
    \<Rightarrow> pass_state \<Rightarrow> (store_error option \<times> pass_state) option" where
  "compact_runs K R srt io cs opt [] p = Some (None, p)"
| "compact_runs K R srt io cs opt (run # runs) p = (if spent (fst p) opt then Some (None, p) else do {
     (e, p') \<leftarrow> compactRun K R srt io cs opt run p;
     if e \<noteq> None then Some (e, p') else compact_runs K R srt io cs opt runs p'
   })"

definition CompactGroups :: "group_kernels \<Rightarrow> read_kernels \<Rightarrow> sorter \<Rightarrow> (nat \<Rightarrow> store_io) \<Rightarrow> (path \<Rightarrow> bool) \<Rightarrow> (nat \<Rightarrow> idx_cache) \<Rightarrow> CompactOptions \<Rightarrow> Store
    \<Rightarrow> (store_error option \<times> CompactStats \<times> Store) option" where
  "CompactGroups K R srt io retry cs opt s = (if \<not> enabled opt then Some (None, no_stats, s) else
     case compactionRuns opt s of (runs, held, s1) \<Rightarrow>
       if runs = [] then Some (None, no_stats, on_entries release held s1) else do {
         (e, st, n, s2) \<leftarrow> compact_runs K R srt io cs opt runs (no_stats, 0, s1);
         Some (e, st, on_entries release held (if e = None then retryTombstones retry s2 else s2))
       })"

section \<open>The chosen runs\<close>

lemma upd_append: "upd f (as @ bs) E = upd f bs (upd f as E)"
  by (simp add: upd_def)

definition plan_inv :: "CompactOptions \<Rightarrow> Store \<Rightarrow> nat list \<Rightarrow> plan_state \<Rightarrow> bool" where
  "plan_inv opt s as p = (case p of (runs, held, cur, s1) \<Rightarrow> held = concat runs @ cur \<and> distinct held \<and> set held \<subseteq> set as
     \<and> (\<forall>run \<in> set runs. length run \<ge> minGroups opt) \<and> (\<forall>a \<in> set held. compactCandidate (entries s ! a) opt)
     \<and> s1 = s\<lparr>entries := upd acquire held (entries s)\<rparr>)"

lemma plan_flush:
  assumes "plan_inv opt s as p" and "set as \<subseteq> {..<length (entries s)}" and "\<And>a. a \<in> set as \<Longrightarrow> \<not> retired (entries s ! a) \<and> 0 \<le> refs (entries s ! a)"
  shows "plan_inv opt s as (flush_run opt p)" and "\<exists>runs s1. flush_run opt p = (runs, concat runs, [], s1)"
proof -
  obtain runs held cur s1 where p: "p = (runs, held, cur, s1)" by (metis prod.exhaust)
  note inv = assms(1) [unfolded plan_inv_def p prod.case]
  have held: "held = concat runs @ cur" "take (length held - length cur) held = concat runs" using inv by simp_all
  have "upd release cur (upd acquire cur (upd acquire (concat runs) (entries s))) = upd acquire (concat runs) (entries s)"
  proof (rule upd_release_acquire)
    have "distinct (concat runs @ cur)" "set (concat runs @ cur) \<subseteq> set as" using inv by metis+
    then have d: "distinct (concat runs)" "distinct cur" "set (concat runs) \<inter> set cur = {}" "set (concat runs) \<subseteq> set as" "set cur \<subseteq> set as"
      by (simp_all del: set_concat)
    show "distinct cur" by (rule d(2))
    show "set cur \<subseteq> {..<length (upd acquire (concat runs) (entries s))}" using d(5) assms(2) by simp
    fix a assume a: "a \<in> set cur"
    then have "a \<notin> set (concat runs)" "a \<in> set as" "a < length (entries s)" using d assms(2) by blast+
    moreover have "set (concat runs) \<subseteq> {..<length (entries s)}" using d(4) assms(2) by blast
    ultimately have "upd acquire (concat runs) (entries s) ! a = entries s ! a" using upd_nth [OF d(1)] by (simp del: set_concat)
    then show "\<not> retired (upd acquire (concat runs) (entries s) ! a) \<and> 0 \<le> refs (upd acquire (concat runs) (entries s) ! a)"
      using assms(3) \<open>a \<in> set as\<close> by simp
  qed
  then have rel: "upd release cur (upd acquire held (entries s)) = upd acquire (concat runs) (entries s)" by (simp add: held(1) upd_append)
  show "plan_inv opt s as (flush_run opt p)"
    using inv rel held by (auto simp: flush_run_def p plan_inv_def on_entries_eq)
  show "\<exists>runs s1. flush_run opt p = (runs, concat runs, [], s1)" using held by (auto simp: flush_run_def p)
qed

lemma plan_steps:
  assumes "plan_inv opt s as p" and "distinct (as @ bs)" and "set (as @ bs) \<subseteq> {..<length (entries s)}"
    and "\<And>a. a \<in> set (as @ bs) \<Longrightarrow> \<not> retired (entries s ! a) \<and> 0 \<le> refs (entries s ! a)"
  shows "plan_inv opt s (as @ bs) (foldl (plan_step opt) p bs)"
  using assms
proof (induction bs arbitrary: as p)
  case (Cons b bs)
  obtain runs held cur s1 where p: "p = (runs, held, cur, s1)" by (metis prod.exhaust)
  note inv = Cons.prems(1) [unfolded plan_inv_def p prod.case]
  have sub: "set as \<subseteq> {..<length (entries s)}" "b \<notin> set as" "b < length (entries s)" using Cons.prems(2,3) by auto
  have ok: "\<And>a. a \<in> set as \<Longrightarrow> \<not> retired (entries s ! a) \<and> 0 \<le> refs (entries s ! a)" "\<not> retired (entries s ! b) \<and> 0 \<le> refs (entries s ! b)"
    using Cons.prems(4) by auto
  have same: "entry_at s1 b = entries s ! b"
  proof -
    have h: "distinct held" "set held \<subseteq> {..<length (entries s)}" "b \<notin> set held" "s1 = s\<lparr>entries := upd acquire held (entries s)\<rparr>" using inv sub by blast+
    show ?thesis using upd_nth [OF h(1,2) sub(3), of acquire] h(3,4) by (simp add: entry_at_def)
  qed
  have mono: "plan_inv opt s as q \<Longrightarrow> plan_inv opt s (as @ [b]) q" for q by (auto simp: plan_inv_def)
  have "plan_inv opt s (as @ [b]) (plan_step opt p b)"
  proof (cases "compactCandidate (entries s ! b) opt")
    case False
    then have "plan_step opt p b = flush_run opt p" using same by (simp add: plan_step_def p)
    then show ?thesis using mono plan_flush(1) [OF Cons.prems(1) sub(1) ok(1)] by simp
  next
    case True
    have "fst (acquire (entries s1 ! b))" using same ok(2) by (simp add: acquire_def entry_at_def)
    then have "plan_step opt p b = (runs, held @ [b], cur @ [b], s1\<lparr>entries := (entries s1)[b := snd (acquire (entries s1 ! b))]\<rparr>)"
      using True same by (simp add: plan_step_def p on_entry_eq)
    moreover have "distinct (held @ [b])" "set (held @ [b]) \<subseteq> set (as @ [b])" "\<forall>a \<in> set (held @ [b]). compactCandidate (entries s ! a) opt"
    proof -
      have "distinct held" "set held \<subseteq> set as" "\<forall>a \<in> set held. compactCandidate (entries s ! a) opt" using inv by blast+
      then show "distinct (held @ [b])" "set (held @ [b]) \<subseteq> set (as @ [b])" "\<forall>a \<in> set (held @ [b]). compactCandidate (entries s ! a) opt"
        using sub(2) True by auto
    qed
    moreover have "held @ [b] = concat runs @ (cur @ [b])" "s1\<lparr>entries := (entries s1)[b := snd (acquire (entries s1 ! b))]\<rparr> = s\<lparr>entries := upd acquire (held @ [b]) (entries s)\<rparr>"
      using inv by (simp_all add: upd_append)
    ultimately show ?thesis using inv by (simp add: plan_inv_def)
  qed
  from Cons.IH [OF this] Cons.prems(2-4) show ?case by simp
qed simp

lemma plan_runs:
  assumes "heap_ok s sns" and "index_ok s" and "compactionRuns opt s = (runs, held, s')"
  shows "held = concat runs" and "distinct held" and "set held \<subseteq> set (groups s)" and "s' = s\<lparr>entries := upd acquire held (entries s)\<rparr>"
    and "\<forall>run \<in> set runs. minGroups opt \<le> length run" and "\<forall>a \<in> set held. compactCandidate (entries s ! a) opt"
proof -
  have g: "distinct (groups s)" "set (groups s) \<subseteq> {..<length (entries s)}" "\<And>a. a \<in> set (groups s) \<Longrightarrow> \<not> retired (entries s ! a)"
    using assms(2) by (auto simp: index_ok_def)
  have ok: "\<not> retired (entries s ! a) \<and> 0 \<le> refs (entries s ! a)" if "a \<in> set (groups s)" for a
    using assms(1) g(2,3) that by (auto simp: heap_ok_def entry_ok_def split: if_splits)
  let ?p = "foldl (plan_step opt) ([], [], [], s) (groups s)"
  have inv: "plan_inv opt s (groups s) ?p"
    using plan_steps [of opt s "[]" "([], [], [], s)" "groups s"] g(1,2) ok by (simp add: plan_inv_def)
  note fl = plan_flush [OF inv g(2) ok]
  obtain s1 where f: "flush_run opt ?p = (runs, concat runs, [], s1)" using fl(2) assms(3) by (auto simp: compactionRuns_def)
  then have h: "held = concat runs" "s' = s1" using assms(3) by (simp_all add: compactionRuns_def)
  then show "held = concat runs" by simp
  from fl(1) [unfolded f plan_inv_def prod.case] h show "distinct held" "set held \<subseteq> set (groups s)" "s' = s\<lparr>entries := upd acquire held (entries s)\<rparr>"
    "\<forall>run \<in> set runs. minGroups opt \<le> length run" "\<forall>a \<in> set held. compactCandidate (entries s ! a) opt" by simp_all
qed

lemma plan_ok:
  assumes "heap_ok s sns" and "index_ok s" and "compactionRuns opt s = (runs, held, s')"
  shows "heap_ok s' (sns @ [\<lparr>snap_entries = held, snap_closed = False\<rparr>])" and "index_ok s'"
    and "\<forall>a < length (entries s). same_entry (entries s ! a) (entries s' ! a)"
proof -
  note pr = plan_runs [OF assms]
  have g: "set (groups s) \<subseteq> {..<length (entries s)}" "\<And>a. a \<in> set (groups s) \<Longrightarrow> \<not> retired (entries s ! a)" using assms(2) by (auto simp: index_ok_def)
  have sub: "set held \<subseteq> {..<length (entries s)}" using pr(3) g(1) by blast
  note nth = upd_nth [OF pr(2) sub]
  have ok: "\<And>a. a < length (entries s) \<Longrightarrow> entry_ok (holds sns a) (entries s ! a)" using assms(1) by (simp add: heap_ok_def)
  have "entry_ok (holds (sns @ [\<lparr>snap_entries = held, snap_closed = False\<rparr>]) a) (upd acquire held (entries s) ! a)" if "a < length (entries s)" for a
    using nth [OF that] acquire_ok [OF ok [OF that]] g(2) pr(3) ok [OF that] by (auto simp: holds_append)
  then show "heap_ok s' (sns @ [\<lparr>snap_entries = held, snap_closed = False\<rparr>])" using assms(1) pr(2) sub by (auto simp: heap_ok_def pr(4))
  have same: "same_entry (entries s ! a) (upd acquire held (entries s) ! a)" if "a < length (entries s)" for a
    using nth [OF that] by (simp add: same_entry_def)
  then show "index_ok s'" unfolding pr(4) using g(1) by (intro index_ok_cong [OF assms(2)]) auto
  show "\<forall>a < length (entries s). same_entry (entries s ! a) (entries s' ! a)" using same by (simp add: pr(4))
qed

section \<open>A merge keeps the invariant\<close>

text \<open>Files of ids outside the index may go, and become tombstones.\<close>

lemma unlinked_inv:
  assumes "heap_ok s sns" and "index_ok s" and s': "s' = s\<lparr>files := F, pendingTombstones := n, tombstones := T\<rparr>"
    and F: "\<And>q. q \<notin> ps \<Longrightarrow> F q = files s q" and T: "set T \<subseteq> set (tombstones s) \<union> ps"
    and ps: "\<And>p. p \<in> ps \<Longrightarrow> \<exists>i < nextID s. p = GroupFile i \<and> i \<notin> set (ids_of s)"
  shows "heap_ok s' sns" and "index_ok s'" and "ids_of s' = ids_of s"
proof -
  show "heap_ok s' sns" using assms(1) by (simp add: s' heap_ok_def)
  show "ids_of s' = ids_of s" by (simp add: s' ids_of_def)
  have "GroupFile i \<notin> ps" if "i \<in> set (ids_of s)" for i using ps that by blast
  then have f: "F (GroupFile i) = files s (GroupFile i)" if "i \<in> set (ids_of s)" for i using F that by blast
  have "\<exists>i < nextID s. p = GroupFile i \<and> i \<notin> set (ids_of s)" if "p \<in> set T" for p
    using T ps that assms(2) unfolding index_ok_def by blast
  then show "index_ok s'" unfolding s' using f by (intro index_ok_frame [OF assms(2)]) simp_all
qed

lemma unlink_inputs:
  "\<exists>F n T. foldl (unlink_input ok) s ps = s\<lparr>files := F, pendingTombstones := n, tombstones := T\<rparr>
     \<and> (\<forall>q. q \<notin> set ps \<longrightarrow> F q = files s q) \<and> set T \<subseteq> set (tombstones s) \<union> set ps"
proof (induction ps arbitrary: s)
  case Nil
  then show ?case by (auto intro!: exI [of _ "files s"] exI [of _ "pendingTombstones s"] exI [of _ "tombstones s"])
next
  case (Cons p ps)
  obtain F where F: "snd (unlink ok p s) = s\<lparr>files := F\<rparr>" "\<And>q. q \<noteq> p \<Longrightarrow> F q = files s q" using unlink_frame by blast
  obtain b x where u: "unlink ok p s = (b, x)" by (metis prod.exhaust)
  then have x: "x = s\<lparr>files := F\<rparr>" using F(1) by simp
  let ?s = "if b then x else addTombstone p (x\<lparr>pendingTombstones := pendingTombstones x + 1\<rparr>)"
  have r: "unlink_input ok s p = ?s" using u by (simp add: unlink_input_def)
  obtain F' n T where F': "foldl (unlink_input ok) ?s ps = ?s\<lparr>files := F', pendingTombstones := n, tombstones := T\<rparr>"
    "\<forall>q. q \<notin> set ps \<longrightarrow> F' q = files ?s q" "set T \<subseteq> set (tombstones ?s) \<union> set ps" using Cons.IH [of ?s] by blast
  show ?case unfolding foldl.simps r using F' F(2) x
    by (intro exI [of _ F'] exI [of _ n] exI [of _ T]) (auto simp: addTombstone_def split: if_splits)
qed

lemma swap_inv:
  assumes srt: "sorter_ok srt" and "heap_ok s sns" and "index_ok s" and "\<not> closed s"
    and new: "i \<notin> set (ids_of s)" "i < nextID s" "files s (GroupFile i) = Some b" "ReadGroup b = Some (Inr r)" "GroupFile i \<notin> set (tombstones s)"
    and batch: "set batch \<subseteq> set (groups s)"
    and vis: "m_visible (fst m) = insert i (m_visible (fst (man s))) - (\<lambda>a. ge_id (entries s ! a)) ` set batch"
    and s': "s' = swap_groups srt i r batch m s"
  shows "heap_ok s' sns" and "index_ok s'" and "mset (groups s') = mset (filter (\<lambda>a. a \<notin> set batch) (groups s)) + {#length (entries s)#}"
    and "entries s' = upd retire (filter (\<lambda>a. a \<in> set batch) (groups s)) (entries s @ [new_entry i (GroupFile i) r])"
    and "nextID s' = nextID s" "files s' = files s" "closed s' = closed s" "tombstones s' = tombstones s"
    and "set (ids_of s') = insert i (set (ids_of s) - (\<lambda>a. ge_id (entries s ! a)) ` set batch)"
proof -
  let ?P = "\<lambda>a. a \<in> set batch" and ?E = "entries s" and ?n = "length (entries s)" and ?id = "\<lambda>a. ge_id (entries s ! a)"
  let ?k = "filter (\<lambda>a. \<not> ?P a) (groups s)" and ?v = "filter ?P (groups s)"
  define m0 where "m0 = ((fst m)\<lparr>m_visible := m_visible (fst (man s)) - ?id ` {a \<in> set (groups s). ?P a}\<rparr>, snd m)"
  define sR where "sR = s\<lparr>man := m0, groups := ?k, entries := upd retire ?v ?E\<rparr>"
  define sk where "sk = s\<lparr>man := m0, groups := ?k\<rparr>"
  have g: "distinct (groups s)" "set (groups s) \<subseteq> {..<?n}" "distinct (ids_of s)" using assms(3) by (auto simp: index_ok_def)
  note rt = retire_inv [OF assms(2,3), of m0 ?P sR, OF _ sR_def]
  have iR: "index_ok sR" "ids_of sR = map ?id ?k" using rt by (simp_all add: m0_def)
  have vk: "distinct ?v" "set ?v \<subseteq> {..<?n}" "\<And>a. a \<in> set ?k \<Longrightarrow> a \<notin> set ?v \<and> a < ?n" using g by auto
  have "sk = sR\<lparr>entries := ?E\<rparr>" by (simp add: sk_def sR_def)
  moreover have "same_entry (entries sR ! a) (?E ! a)" if "a \<in> set (groups sR)" for a
    using that vk upd_nth [OF vk(1,2), of a retire] by (auto simp: sR_def same_entry_def)
  ultimately have ik: "index_ok sk" using index_ok_cong [OF iR(1), of ?E] by (simp add: sR_def)
  have hk: "heap_ok sk sns" using assms(2) by (simp add: sk_def heap_ok_def)
  have idk: "set (ids_of sk) = set (ids_of s) - ?id ` set batch"
  proof -
    have "inj_on ?id (set (groups s))" using g(3) by (simp add: ids_of_def distinct_map)
    from inj_on_image_set_diff [OF this, of "set (groups s)" "set batch"] batch show ?thesis
      by (auto simp: ids_of_def sk_def)
  qed
  have fresh: "i \<notin> ?id ` set batch" using new(1) batch by (auto simp: ids_of_def)
  have sub: "{a \<in> set (groups s). ?P a} = set batch" using batch by blast
  have vis': "m_visible (fst m) = insert i (m_visible (fst (man sk)))" using vis fresh unfolding sub by (auto simp: sk_def m0_def sub)
  define s3 where "s3 = sk\<lparr>man := m, receipts := receipts s, groups := ?k @ [?n], entries := ?E @ [new_entry i (GroupFile i) r]\<rparr>"
  define s4 where "s4 = noteGrowth 0 (sortGroups srt s3)"
  have s3': "s3 = sk\<lparr>man := m, receipts := receipts s, groups := groups sk @ [length (entries sk)], entries := entries sk @ [new_entry i (GroupFile i) r]\<rparr>"
    by (simp add: s3_def sk_def)
  have nk: "i \<notin> set (ids_of sk)" using idk new(1) by blast
  have fk: "\<not> closed sk" "i < nextID sk" "files sk (GroupFile i) = Some b" "GroupFile i \<notin> set (tombstones sk)"
    using assms(4) new(2,3,5) by (simp_all add: sk_def)
  note ins = insert_inv [OF srt hk ik fk(1) nk fk(2,3) new(4) fk(4) vis' refl s3' s4_def]
  have s4: "s4 = sortGroups srt (s\<lparr>man := m, groups := ?k @ [?n], entries := ?E @ [new_entry i (GroupFile i) r]\<rparr>)"
    by (simp add: s4_def s3_def sk_def noteGrowth_def sortGroups_def entry_at_def [abs_def])
  have s'4: "s' = s4\<lparr>entries := upd retire ?v (entries s4)\<rparr>" by (simp add: s' swap_groups_def s4 on_entries_eq Let_def)
  have e4: "entries s4 = ?E @ [new_entry i (GroupFile i) r]" by (simp add: s4 sortGroups_def)
  show ge: "mset (groups s') = mset ?k + {#?n#}" using srt by (simp add: s'4 s4 sortGroups_def sorter_ok_def)
  have gs4: "set (groups s4) = insert ?n (set ?k)" using mset_eq_setD [of "groups s4" "?k @ [?n]"] ge by (simp add: s'4)
  have v4: "set ?v \<subseteq> {..<length (entries s4)}" using vk(2) by (auto simp: e4)
  note nth = upd_nth [OF vk(1) v4]
  have "same_entry (entries s4 ! a) (upd retire ?v (entries s4) ! a)" if "a \<in> set (groups s4)" for a
  proof -
    have "a \<notin> set ?v" "a < length (entries s4)" using that gs4 vk(2,3) g(2) by (auto simp: e4 intro: less_SucI)
    then show ?thesis using nth [of a retire] by (auto simp: same_entry_def)
  qed
  then show "index_ok s'" unfolding s'4 by (intro index_ok_cong [OF ins(2)]) simp_all
  have ok4: "entry_ok (holds sns a) (entries s4 ! a)" if "a < length (entries s4)" for a using ins(1) that by (simp add: heap_ok_def)
  have "entry_ok (holds sns a) (upd retire ?v (entries s4) ! a)" if "a < length (entries s4)" for a
    using nth [OF that, of retire] ok4 [OF that] retire_ok [OF ok4 [OF that]] by simp
  then show "heap_ok s' sns" using ins(1) by (simp add: heap_ok_def s'4)
  show "entries s' = upd retire ?v (entries s @ [new_entry i (GroupFile i) r])" by (simp add: s'4 e4)
  show "nextID s' = nextID s" "files s' = files s" "closed s' = closed s" "tombstones s' = tombstones s" by (simp_all add: s'4 s4 sortGroups_def)
  have "ge_id (upd retire ?v (entries s4) ! a) = ge_id (entries s4 ! a)" if "a \<in> set (groups s4)" for a
    using \<open>\<And>a. a \<in> set (groups s4) \<Longrightarrow> same_entry (entries s4 ! a) (upd retire ?v (entries s4) ! a)\<close> [OF that] by (simp add: same_entry_def)
  then have "ids_of s' = ids_of s4" by (simp add: ids_of_def s'4)
  then show "set (ids_of s') = insert i (set (ids_of s) - ?id ` set batch)" using ins(3) idk by simp
qed

lemma reserve_inv:
  assumes "heap_ok s sns" and "index_ok s" and "nextID s + 1 \<noteq> 0" and s2: "s2 = s\<lparr>nextID := nextID s + 1, files := F\<rparr>"
    and F: "\<And>p. p \<noteq> GroupFile (nextID s) \<Longrightarrow> F p = files s p"
  shows "heap_ok s2 sns" and "index_ok s2" and "ids_of s2 = ids_of s" and "nextID s \<notin> set (ids_of s)" and "nextID s < nextID s2"
    and "GroupFile (nextID s) \<notin> set (tombstones s2)"
proof -
  show lt: "nextID s < nextID s2" using assms(3) unatSuc [of "nextID s"] by (simp add: s2 word_less_nat_alt add.commute)
  show fresh: "nextID s \<notin> set (ids_of s)" "GroupFile (nextID s) \<notin> set (tombstones s2)" using assms(2) by (auto simp: index_ok_def s2)
  have "F (GroupFile j) = files s (GroupFile j)" if "j \<in> set (ids_of s)" for j using fresh(1) that by (intro F) auto
  moreover have "\<exists>j < nextID s2. p = GroupFile j \<and> j \<notin> set (ids_of s)" if "p \<in> set (tombstones s)" for p
    using assms(2) that lt by (meson index_ok_def less_trans)
  ultimately show "index_ok s2" unfolding s2 using lt by (intro index_ok_frame [OF assms(2)]) (simp_all add: s2)
  show "heap_ok s2 sns" using assms(1) by (simp add: s2 heap_ok_def)
  show "ids_of s2 = ids_of s" by (simp add: s2 ids_of_def)
qed

text \<open>What the index sees of a store and what a merge that took place did to it.\<close>

definition same_index :: "Store \<Rightarrow> Store \<Rightarrow> bool" where
  "same_index s s' \<longleftrightarrow> entries s' = entries s \<and> groups s' = groups s \<and> closed s' = closed s"

definition merged_index :: "Group \<Rightarrow> bytes \<Rightarrow> nat list \<Rightarrow> Store \<Rightarrow> Store \<Rightarrow> bool" where
  "merged_index g b batch s s' \<longleftrightarrow> set batch \<subseteq> set (groups s) \<and> closed s' = closed s
     \<and> mset (groups s') = mset (filter (\<lambda>a. a \<notin> set batch) (groups s)) + {#length (entries s)#}
     \<and> length (entries s') = Suc (length (entries s))
     \<and> (\<forall>a < length (entries s). ge_id (entries s' ! a) = ge_id (entries s ! a) \<and> reader (entries s' ! a) = reader (entries s ! a))
     \<and> (\<exists>r. ReadGroup b = Some (Inr r) \<and> ge_id (entries s' ! length (entries s)) = nextID s \<and> reader (entries s' ! length (entries s)) = r)"

lemma discard_index: "same_index s (snd (discard io p i e s))"
  using discard_frame [of io p i e s] by (auto simp: same_index_def)

lemma merged_index_intro:
  assumes idx: "index_ok s" and "set batch \<subseteq> set (groups s)" and "closed s' = closed s" and "ReadGroup b = Some (Inr nr)"
    and ent: "entries s' = upd retire (filter (\<lambda>a. a \<in> set batch) (groups s)) (entries s @ [new_entry (nextID s) (GroupFile (nextID s)) nr])"
    and "mset (groups s') = mset (filter (\<lambda>a. a \<notin> set batch) (groups s)) + {#length (entries s)#}"
  shows "merged_index g b batch s s'"
proof -
  let ?v = "filter (\<lambda>a. a \<in> set batch) (groups s)" and ?E = "entries s @ [new_entry (nextID s) (GroupFile (nextID s)) nr]"
  have v: "distinct ?v" "set ?v \<subseteq> {..<length ?E}" "length (entries s) \<notin> set ?v" using idx by (auto simp: index_ok_def)
  have "ge_id (entries s' ! a) = ge_id (entries s ! a) \<and> reader (entries s' ! a) = reader (entries s ! a)" if "a < length (entries s)" for a
    using upd_nth [OF v(1,2), of a retire] that by (simp add: ent nth_append)
  moreover have "entries s' ! length (entries s) = new_entry (nextID s) (GroupFile (nextID s)) nr"
    using upd_nth [OF v(1,2), of "length (entries s)" retire] v(3) by (auto simp: ent)
  ultimately show ?thesis using assms by (simp add: merged_index_def new_entry_def)
qed

text \<open>What becomes of a store that a merged group is installed into: nothing, or the group against its inputs.\<close>

definition installed :: "Group \<Rightarrow> bytes \<Rightarrow> int \<Rightarrow> nat list \<Rightarrow> Store \<Rightarrow> Snapshot list \<Rightarrow> store_error option \<times> CompactStats \<times> Store \<Rightarrow> bool" where
  "installed g b before batch s sns q = (case q of (e, st, s') \<Rightarrow> heap_ok s' sns \<and> index_ok s' \<and> nextID s' = nextID s + 1
     \<and> ((same_index s s' \<and> st = no_stats)
       \<or> (e = None \<and> Outputs st = 1 \<and> Inputs st = length batch \<and> BytesBefore st = before \<and> merged_index g b batch s s')))"

lemma discard_installed:
  assumes "heap_ok x sns" and "index_ok x" and "ids_of x = ids_of s" and "same_index s x" and "nextID x = nextID s + 1" and "i \<notin> set (ids_of s)"
  shows "installed g b before batch s sns (e, no_stats, snd (discard io (GroupFile i) i e' x))"
  using discard_inv [OF assms(1,2), of i io e'] discard_index [of x io "GroupFile i" i e'] discard_frame [of io "GroupFile i" i e' x] assms(3-)
  by (auto simp: installed_def same_index_def)

text \<open>The merged group is committed: the swap, then the inputs' files.\<close>

lemma swap_installed:
  assumes srt: "sorter_ok srt" and "heap_ok s sns" and "index_ok s" and "nextID s + 1 \<noteq> 0" and "batch \<noteq> []" and sub: "set batch \<subseteq> set (groups s)"
    and s2: "s2 = s\<lparr>nextID := nextID s + 1, files := (files s)(GroupFile (nextID s) \<mapsto> b)\<rparr>" and nr: "ReadGroup b = Some (Inr nr)"
    and vis: "m_visible (fst mm) = insert (nextID s) (m_visible (fst (man s))) - (\<lambda>a. ge_id (entries s ! a)) ` set batch"
    and ps: "ps = map (\<lambda>a. ge_path (entries s ! a)) (filter (\<lambda>a. a \<in> set batch) (groups s))"
    and s': "s' = foldl (unlink_input ok) (swap_groups srt (nextID s) nr batch mm s2) ps"
  shows "heap_ok s' sns \<and> index_ok s' \<and> nextID s' = nextID s + 1 \<and> merged_index g b batch s s'"
proof -
  define sw where "sw = swap_groups srt (nextID s) nr batch mm s2"
  note r = reserve_inv [OF assms(2-4) s2]
  have r2: "heap_ok s2 sns" "index_ok s2" "nextID s \<notin> set (ids_of s2)" "nextID s < nextID s2" "GroupFile (nextID s) \<notin> set (tombstones s2)"
    "nextID s \<notin> set (ids_of s)" using r by simp_all
  have f2: "files s2 (GroupFile (nextID s)) = Some b" "set batch \<subseteq> set (groups s2)" "entries s2 = entries s" "groups s2 = groups s" "closed s2 = closed s"
    "nextID s2 = nextID s + 1" "ids_of s2 = ids_of s" using sub by (simp_all add: s2 ids_of_def)
  have "groups s \<noteq> []" using sub assms(5) by auto
  then have op: "\<not> closed s2" using assms(3) by (auto simp: index_ok_def f2)
  have vis2: "m_visible (fst mm) = insert (nextID s) (m_visible (fst (man s2))) - (\<lambda>a. ge_id (entries s2 ! a)) ` set batch" using vis by (simp add: s2)
  note sw = swap_inv [OF srt r2(1,2) op r2(3,4) f2(1) nr r2(5) f2(2) vis2 sw_def]
  obtain F n T where ul: "s' = sw\<lparr>files := F, pendingTombstones := n, tombstones := T\<rparr>" "\<And>q. q \<notin> set ps \<Longrightarrow> F q = files sw q"
    "set T \<subseteq> set (tombstones sw) \<union> set ps"
    using unlink_inputs [of ok sw ps] unfolding s' sw_def by blast
  have "\<exists>j < nextID sw. p = GroupFile j \<and> j \<notin> set (ids_of sw)" if p: "p \<in> set ps" for p
  proof -
    obtain a where a: "a \<in> set batch" "a \<in> set (groups s)" "p = ge_path (entries s ! a)" using p by (auto simp: ps)
    then have d: "p = GroupFile (ge_id (entries s ! a))" "ge_id (entries s ! a) < nextID s" "ge_id (entries s ! a) \<in> set (ids_of s)"
      using assms(3) by (auto simp: index_ok_def on_disk_def ids_of_def)
    moreover have "ge_id (entries s ! a) \<noteq> nextID s" using d(3) r2(6) by auto
    moreover have "nextID s < nextID sw" using sw(5) r2(4) by simp
    ultimately show ?thesis using sw(9) a(1) by (intro exI [of _ "ge_id (entries s ! a)"]) (auto simp: f2)
  qed
  note fin = unlinked_inv [OF sw(1,2) ul this]
  have "merged_index g b batch s s'"
    by (rule merged_index_intro [OF assms(3) sub _ nr]) (use ul(1) sw(3,4,7) in \<open>simp_all add: f2\<close>)
  then show ?thesis using fin(1,2) ul(1) sw(5) by (simp add: f2)
qed

lemma install_inv:
  assumes srt: "sorter_ok srt" and io: "production io" and "heap_ok s sns" and "index_ok s" and "nextID s + 1 \<noteq> 0" and "batch \<noteq> []"
  shows "installed g b before batch s sns (install_merged srt io g b before batch s)"
proof -
  let ?i = "nextID s"
  define s1 where "s1 = s\<lparr>nextID := ?i + 1\<rparr>"
  define s2 where "s2 = s\<lparr>nextID := ?i + 1, files := (files s)(GroupFile ?i \<mapsto> b)\<rparr>"
  have s1: "s1 = s\<lparr>nextID := ?i + 1, files := files s\<rparr>" by (simp add: s1_def)
  note r1 = reserve_inv [OF assms(3-5) s1 refl]
  have F: "((files s)(GroupFile ?i \<mapsto> b)) p = files s p" if "p \<noteq> GroupFile ?i" for p using that by simp
  note r2 = reserve_inv [OF assms(3-5) s2_def F]
  have idx: "same_index s s1" "same_index s s2" "nextID s1 = ?i + 1" "nextID s2 = ?i + 1" "entries s2 = entries s" "groups s2 = groups s" "man s2 = man s"
    by (simp_all add: same_index_def s1_def s2_def)
  note d1 = discard_installed [OF r1(1,2,3) idx(1,3) r1(4), of g b before batch]
  note d2 = discard_installed [OF r2(1,2,3) idx(2,4) r1(4), of g b before batch]
  let ?c = "commit (io_commit io) [?i] (map (\<lambda>a. ge_id (entries s ! a)) batch) [] (man s)"
  obtain ce mm where c: "?c = (ce, mm)" by (metis prod.exhaust)
  have mem: "mem mm = (if ce = None then ((m_visible (fst (man s)) \<union> {?i}) - (\<lambda>a. ge_id (entries s ! a)) ` set batch, m_receipts (fst (man s))) else mem (man s))"
    using commit_mem [OF c] io by (simp add: production_def)
  have fail: "installed g b before batch s sns (e, no_stats, snd (discard io (GroupFile ?i) ?i e' (s2\<lparr>man := mm\<rparr>)))" if "ce = Some x" for e e' x
  proof (rule discard_installed [OF _ _ _ _ _ r1(4)])
    show "index_ok (s2\<lparr>man := mm\<rparr>)"
      by (rule index_ok_frame [OF r2(2)]) (use mem that r2(2) in \<open>simp_all add: mem_def index_ok_def idx\<close>)
  qed (use r2(1,3) idx(2,4) in \<open>simp_all add: heap_ok_def ids_of_def same_index_def\<close>)
  have swap: "installed g b before batch s sns (None, \<lparr>Inputs = length batch, Outputs = 1, RowsMoved = int (GRows g), BytesBefore = before, BytesAfter = int (length b)\<rparr>,
      foldl (unlink_input (io_unlink io)) (swap_groups srt ?i nr batch mm s2)
        (map (\<lambda>a. ge_path (entries s ! a)) (filter (\<lambda>a. a \<in> set batch) (groups s))))"
    if nr: "map_group io (GroupFile ?i) s2 = Inr nr" and there: "stillPresent batch s2" and cn: "ce = None" for nr
  proof -
    have "ReadGroup b = Some (Inr nr)" using nr by (auto simp: map_group_def s2_def split: if_splits option.splits sum.splits)
    moreover have "set batch \<subseteq> set (groups s)" using there by (auto simp: stillPresent_def list_all_iff idx)
    moreover have "m_visible (fst mm) = insert ?i (m_visible (fst (man s))) - (\<lambda>a. ge_id (entries s ! a)) ` set batch" using mem cn by (simp add: mem_def)
    ultimately show ?thesis
      using swap_installed [OF srt assms(3-6) _ s2_def _ _ refl refl, of nr mm "io_unlink io" g] by (simp add: installed_def)
  qed
  have body: "install_merged srt io g b before batch s = (case io_file io of
       AtomicErrOld \<Rightarrow> (Some FileNotWritten, no_stats, snd (discard io (GroupFile ?i) ?i FileNotWritten s1))
     | AtomicErrNew \<Rightarrow> (Some FileNotWritten, no_stats, snd (discard io (GroupFile ?i) ?i FileNotWritten s2))
     | AtomicOK \<Rightarrow> (case map_group io (GroupFile ?i) s2 of
         Inl e \<Rightarrow> (Some e, no_stats, snd (discard io (GroupFile ?i) ?i e s2))
       | Inr nr \<Rightarrow>
           if \<not> stillPresent batch s2 then (None, no_stats, snd (discard io (GroupFile ?i) ?i Refused s2))
           else (case ?c of
             (Some e, m) \<Rightarrow> (Some (CommitFailed e), no_stats, snd (discard io (GroupFile ?i) ?i (CommitFailed e) (s2\<lparr>man := m\<rparr>)))
           | (None, m) \<Rightarrow>
               (None, \<lparr>Inputs = length batch, Outputs = 1, RowsMoved = int (GRows g), BytesBefore = before, BytesAfter = int (length b)\<rparr>,
                foldl (unlink_input (io_unlink io)) (swap_groups srt ?i nr batch m s2)
                  (map (\<lambda>a. ge_path (entries s ! a)) (filter (\<lambda>a. a \<in> set batch) (groups s)))))))"
    by (auto simp: install_merged_def Let_def entry_at_def s1_def s2_def split: atomic_outcome.split sum.split option.split prod.split)
  show ?thesis unfolding body using d1 d2 fail swap c by (simp split: atomic_outcome.split sum.split option.split)
qed

text \<open>A merge keeps the invariant; it leaves the index as it was, or puts one group, smaller than its inputs, in their place.\<close>

lemma merge_inv:
  assumes srt: "sorter_ok srt" and io: "production io" and "heap_ok s sns" and "index_ok s" and "nextID s + 1 \<noteq> 0"
    and m: "mergeAndCommit K R srt io cs batch s = Some (e, st, s')"
  shows "heap_ok s' sns \<and> index_ok s' \<and> (nextID s' = nextID s \<or> nextID s' = nextID s + 1)
    \<and> ((same_index s s' \<and> st = no_stats)
      \<or> (e = None \<and> Outputs st = 1 \<and> Inputs st = length batch
         \<and> (\<exists>g b. mergeGroups R (map (\<lambda>a. (reader (entries s ! a), cs a)) batch) = Some (Some g, BytesBefore st)
           \<and> Marshal K g = Some b \<and> int (length b) < BytesBefore st \<and> merged_index g b batch s s')))"
proof -
  have id: "heap_ok s sns \<and> index_ok s \<and> same_index s s" using assms(3,4) by (simp add: same_index_def)
  obtain gm before where mg: "mergeGroups R (map (\<lambda>a. (reader (entries s ! a), cs a)) batch) = Some (gm, before)"
    using m by (auto simp: mergeAndCommit_def entry_at_def split: bind_splits)
  show ?thesis
  proof (cases gm)
    case None
    then show ?thesis using m mg id by (simp add: mergeAndCommit_def entry_at_def)
  next
    case (Some g)
    obtain b where b: "Marshal K g = Some b" using m mg Some by (auto simp: mergeAndCommit_def entry_at_def split: bind_splits)
    have "batch \<noteq> []" using mg Some by (auto simp: mergeGroups_def)
    then have inst: "installed g b before batch s sns (install_merged srt io g b before batch s)" by (rule install_inv [OF assms(1-5)])
    show ?thesis
    proof (cases "int (length b) \<ge> before")
      case True
      then show ?thesis using m mg Some b id by (simp add: mergeAndCommit_def entry_at_def)
    next
      case False
      then have "install_merged srt io g b before batch s = (e, st, s')" using m mg Some b by (simp add: mergeAndCommit_def entry_at_def)
      then show ?thesis using inst mg Some b False by (auto simp: installed_def)
    qed
  qed
qed

section \<open>The histories of a store\<close>

text \<open>
  The steps of a store, of compaction and of repair, in any order.  The references a pass holds on its groups count as a snapshot's, which the
  end of the pass closes.  A merge takes its batch from the groups that are held.
\<close>

inductive node_step :: "group_kernels \<Rightarrow> read_kernels \<Rightarrow> sorter \<Rightarrow> Store \<times> Snapshot list \<Rightarrow> Store \<times> Snapshot list \<Rightarrow> bool" for K R srt where
  base: "store_step srt x y \<Longrightarrow> node_step K R srt x y"
| plan: "compactionRuns opt s = (runs, held, s') \<Longrightarrow> node_step K R srt (s, sns) (s', sns @ [\<lparr>snap_entries = held, snap_closed = False\<rparr>])"
| merge: "sn \<in> set sns \<Longrightarrow> set batch \<subseteq> set (snap_entries sn) \<Longrightarrow> production io \<Longrightarrow> nextID s + 1 \<noteq> 0
    \<Longrightarrow> mergeAndCommit K R srt io cs batch s = Some (e, st, s') \<Longrightarrow> node_step K R srt (s, sns) (s', sns)"
| retry: "node_step K R srt (s, sns) (retryTombstones ok s, sns)"
| adopt: "\<not> closed s \<Longrightarrow> production io \<Longrightarrow> nextID s + 1 \<noteq> 0
    \<Longrightarrow> AdoptGroupStream H srt io aio reads writable veto digest stream s D = (res, n, s', D') \<Longrightarrow> node_step K R srt (s, sns) (s', sns)"

inductive history :: "group_kernels \<Rightarrow> read_kernels \<Rightarrow> sorter \<Rightarrow> Store \<times> Snapshot list \<Rightarrow> bool" for K R srt where
  start: "store_start s \<Longrightarrow> history K R srt (s, [])"
| step: "history K R srt x \<Longrightarrow> node_step K R srt x y \<Longrightarrow> history K R srt y"

lemmas history_base = history.step [OF _ node_step.base] and history_plan = history.step [OF _ node_step.plan]
  and history_merge = history.step [OF _ node_step.merge] and history_retry = history.step [OF _ node_step.retry]

lemma node_inv:
  assumes "sorter_ok srt" and "node_step K R srt x y" and "heap_ok (fst x) (snd x)" and "index_ok (fst x)"
  shows "heap_ok (fst y) (snd y) \<and> index_ok (fst y)"
  using assms(2-)
proof (induction rule: node_step.induct)
  case (base x y)
  then show ?case using step_inv [OF assms(1)] by blast
next
  case (plan opt s runs held s' sns)
  then show ?case using plan_ok [of s sns] by simp
next
  case (merge sn sns batch io s cs e st s')
  then show ?case using merge_inv [OF assms(1), of io s sns K R cs batch e st s'] by simp
next
  case (retry s sns ok)
  then show ?case using retry_inv [of s sns] by simp
next
  case (adopt s io H aio reads writable veto digest stream D res n s' D' sns)
  then show ?case using adopt_inv(1) [OF assms(1) adopt(2) _ _ adopt(1,3,4), of sns] by simp
qed

lemma history_inv:
  assumes "sorter_ok srt" and "history K R srt x"
  shows "heap_ok (fst x) (snd x) \<and> index_ok (fst x)"
  using assms(2)
proof (induction rule: history.induct)
  case (start s)
  then show ?case using start_inv by simp
next
  case (step x y)
  then show ?case using node_inv [OF assms(1)] by blast
qed

lemma reach_history: "store_reach srt x \<Longrightarrow> history K R srt x"
  by (induction rule: store_reach.induct) (auto intro: history.start history_base)

section \<open>Properties\<close>

text \<open>C2: Over every history of appends, receipts, snapshots of any kind, snapshot closes, retention passes, compaction passes with any other
  operation between their merges, adoptions of groups from a peer, and the close of the store, each with any failure of the operating system: a group that an open snapshot
  or a compaction holds is mapped; a mapping is released exactly when its group
  is retired and nobody holds it; the index names each committed group once, in time order; and each of its groups is
  on disk under its name with the bytes its reader was parsed from.\<close>

theorem store_invariant:
  assumes "sorter_ok srt" and "history K R srt (s, sns)"
  shows "(\<forall>sn \<in> set sns. \<forall>a \<in> set (snap_entries sn). \<not> unmapped (entries s ! a))
    \<and> (\<forall>a < length (entries s). unmapped (entries s ! a) \<longleftrightarrow> retired (entries s ! a) \<and> (\<forall>sn \<in> set sns. a \<notin> set (snap_entries sn)))
    \<and> (\<not> closed s \<longrightarrow> set (ids_of s) = m_visible (fst (man s)) \<and> distinct (ids_of s))
    \<and> sorted (map (\<lambda>a. sint (timeMin (entries s ! a))) (groups s))
    \<and> (\<forall>a \<in> set (groups s). \<exists>b. files s (GroupFile (ge_id (entries s ! a))) = Some b \<and> ReadGroup b = Some (Inr (reader (entries s ! a))))"
  by (rule invariant_facts) (use history_inv [OF assms] in simp_all)

theorem store_invariant_witness:
  "\<exists>s. \<not> closed s \<and> set (ids_of s) = m_visible (fst (man s)) \<and> distinct (ids_of s) \<and> 0 \<in> set (ids_of s)"
proof -
  obtain b r where b: "ReadGroup b = Some (Inr r)" using demo_marshal by blast
  let ?s = "snd (appendBlob stable all_ok b [] empty_store)"
  have e: "\<not> closed empty_store" "nextID empty_store = 0" by (simp_all add: empty_store_def)
  have r: "store_reach stable (?s, [])"
    by (rule store_reach.step [OF store_reach.start [OF empty_start] store_step.append [OF e(1) all_ok_production]]) (simp add: e)
  note inv = reach_inv [OF stable_ok r]
  obtain runs held s' where c: "compactionRuns \<lparr>MinGroups = 2, MaxRowsPerOutput = 0, MaxInputBytes = 0, MaxGroupBytes = 0, OlderThan = 0, MaxOutputs = 0\<rparr> ?s = (runs, held, s')"
    by (metis prod.exhaust)
  note pr = plan_runs [OF _ _ c, of "[]"] and pk = plan_ok [OF _ _ c, of "[]"]
  have same: "groups s' = groups ?s" "closed s' = closed ?s" using pr(4) inv by simp_all
  have "ge_id (entries s' ! a) = ge_id (entries ?s ! a)" if "a \<in> set (groups ?s)" for a
    using pk(3) inv that by (auto simp: index_ok_def same_entry_def)
  then have ids: "ids_of s' = ids_of ?s" by (simp add: ids_of_def same)
  have "history demo_kernels demo_read stable (s', [] @ [\<lparr>snap_entries = held, snap_closed = False\<rparr>])"
    by (rule history_plan [OF reach_history [OF r] c])
  note inv' = store_invariant [OF stable_ok this]
  have "closed ?s = False" using append_frame(1) [of stable all_ok b "[]" empty_store] e by simp
  moreover have "0 \<in> set (ids_of ?s)"
    using append_inv(3) [OF stable_ok all_ok_production _ _ e(1) _ prod.collapse [symmetric], of "[]" b "[]"]
      start_inv [OF empty_start] empty_append [OF b, of "[]"] e(2) by auto
  ultimately show ?thesis using inv' same ids by (intro exI [of _ s']) simp
qed

end
