(* ===== verification/Runs.thy ===== *)
theory Runs
  imports Exec Compaction
begin

text \<open>
  \<^verbatim>\<open>Run\<close> of \<^verbatim>\<open>internal/query/engine.go\<close> over the store: resolve the query's times, take a snapshot of its window, skip groups by
  their footers, refuse too many, walk the rest serially, backwards or with the worker pool, and release the snapshot.  The answer is
  compared with the rows of every committed group.
\<close>

section \<open>Running a query\<close>

definition snapshotOf :: "u64 \<Rightarrow> u64 \<Rightarrow> Store \<Rightarrow> Snapshot \<times> Store" where
  "snapshotOf from to s = (case SnapshotOf from to s of (Inl e, s') \<Rightarrow> (EmptySnapshot, s') | (Inr sn, s') \<Rightarrow> (sn, s'))"

definition parallelMinGroups :: nat where "parallelMinGroups = 4"

text \<open>The outcomes of a run, a relation because the worker pool may interleave in any way.\<close>

definition Run :: "clock_env \<Rightarrow> u64 \<Rightarrow> ('f, 're) engine \<Rightarrow> nat \<Rightarrow> ('f, 're) Query \<Rightarrow> run_opts \<Rightarrow> Store \<Rightarrow> run_state \<Rightarrow> Row list \<times> run_state \<times> Store \<Rightarrow> bool" where
  "Run env clock E workers q o' s st res \<longleftrightarrow> (case res of (rows, st', s') \<Rightarrow>
     let q' = resolveTimePreds clock q; (sn, s1) = snapshotOf (From q') (To q') s; rdr = (\<lambda>a. reader (entry_at s1 a)) in
     s' = snd (snap_Close sn s1) \<and> (\<exists>as st1. prune env E rdr q' o' (snap_entries sn) st = Some (as, st1) \<and>
       (if maxGroups o' > 0 \<and> int (length as) > maxGroups o'
          then rows = [] \<and> st' = stop (ErrTooManyGroups (length as) (maxGroups o')) st1
        else if LastN o' > 0 then run_newest env E rdr q' o' (rev as) [] 0 st1 = Some (rows, st')
        else if length as \<ge> parallelMinGroups \<and> Limit o' = 0 then runParallel env E rdr q' o' as workers st1 (rows, st')
        else run_serial env E rdr q' o' as [] 0 st1 = Some (rows, st'))))"

section \<open>A store of written groups\<close>

text \<open>Each indexed group is one that was written and read back; \<open>gs\<close> gives the group of each id.\<close>

definition stored :: "group_kernels \<Rightarrow> read_kernels \<Rightarrow> (u64 \<Rightarrow> Group) \<Rightarrow> Store \<Rightarrow> bool" where
  "stored K R gs s \<longleftrightarrow> (\<forall>a \<in> set (groups s). \<exists>B. written_group K R (gs (ge_id (entries s ! a))) B (reader (entries s ! a)))"

definition group_answer :: "('f, 're) engine \<Rightarrow> ('f, 're) Query \<Rightarrow> run_opts \<Rightarrow> Group \<Rightarrow> Row list" where
  "group_answer E q o' g = map (output_row (en_fmt E) g (out_fields (en_ord E) (map ColName (Columns g)) q o')) (matching (en_lib E) q g)"

text \<open>The answer to a query: the matching rows of every committed group, in index order.\<close>

definition store_answer :: "('f, 're) engine \<Rightarrow> (u64 \<Rightarrow> Group) \<Rightarrow> ('f, 're) Query \<Rightarrow> run_opts \<Rightarrow> Store \<Rightarrow> Row list" where
  "store_answer E gs q o' s = concat (map (\<lambda>i. group_answer E q o' (gs i)) (ids_of s))"

definition caches_ok :: "read_kernels \<Rightarrow> Store \<Rightarrow> run_state \<Rightarrow> bool" where
  "caches_ok R s st \<longleftrightarrow> (\<forall>a \<in> set (groups s). cache_coherent R (reader (entries s ! a)) (caches st a))"

lemma outside_window:
  assumes w: "written_group K R g B r" and "\<not> TimeRangeMatches r (From q) (To q)"
  shows "matching G q g = []"
proof -
  have "\<not> in_window (From q) (To q) (group_times g ! i)" if "i < GRows g" for i
  proof -
    have "group_times g ! i \<in> set (group_times g)" using that written_group.times_read(1) [OF w] written_group.rows_le(2) [OF w] by simp
    from written_group.times_read(4) [OF w this] assms(2) show ?thesis by (auto simp: TimeRangeMatches_def in_window_def)
  qed
  then show ?thesis by (simp add: matching_def filter_empty_conv)
qed

text \<open>The matches and the rows of the group at an address.\<close>

definition entry_hits :: "('f, 're) engine \<Rightarrow> ('f, 're) Query \<Rightarrow> (u64 \<Rightarrow> Group) \<Rightarrow> Store \<Rightarrow> nat \<Rightarrow> nat list" where
  "entry_hits E q gs s a = matching (en_lib E) q (gs (ge_id (entries s ! a)))"

definition entry_row :: "('f, 're) engine \<Rightarrow> ('f, 're) Query \<Rightarrow> run_opts \<Rightarrow> (u64 \<Rightarrow> Group) \<Rightarrow> Store \<Rightarrow> nat \<Rightarrow> nat \<Rightarrow> Row" where
  "entry_row E q o' gs s a = (let g = gs (ge_id (entries s ! a)) in output_row (en_fmt E) g (out_fields (en_ord E) (map ColName (Columns g)) q o'))"

lemma stored_scan:
  assumes "simd_ok (en_simd E)" and "stored K (en_read E) gs s"
    and "\<And>a. a \<in> set (groups s) \<Longrightarrow> rdr a = reader (entries s ! a)"
  shows "group_scan E rdr q o' (set (groups s)) (entry_hits E q gs s) (entry_row E q o' gs s)"
proof
  fix a assume a: "a \<in> set (groups s)"
  let ?g = "gs (ge_id (entries s ! a))"
  obtain B where w: "written_group K (en_read E) ?g B (rdr a)" using assms(2,3) a by (auto simp: stored_def)
  show "\<exists>s'. appendMatches (en_simd E) (en_lib E) (en_read E) (en_ord E) (en_fmt E) (en_pool E) (rdr a) q o' out c
      = Some (out @ map (entry_row E q o' gs s a) (keep_rows o' (length out) (entry_hits E q gs s a)), s')
      \<and> cache_coherent (en_read E) (rdr a) s'" if "cache_coherent (en_read E) (rdr a) c" for c out
    unfolding entry_row_def entry_hits_def Let_def by (rule appendMatches_written [OF w assms(1) that])
  show "\<exists>x. groupCanMatch (en_lib E) (en_read E) (rdr a) q = Some x \<and> (\<not> x \<longrightarrow> entry_hits E q gs s a = [])"
    using written_group.skipped_rows [OF w, of "en_lib E" q] by (auto simp: entry_hits_def matching_def filter_empty_conv)
qed

text \<open>The contract of a store of written groups: it provides what the walks over groups rely on.\<close>

locale stored_run =
  fixes E :: "('f, 're) engine" and K :: group_kernels and gs :: "u64 \<Rightarrow> Group" and s :: Store and q :: "('f, 're) Query" and o' :: run_opts
  assumes run_host: "simd_ok (en_simd E)" and run_groups: "stored K (en_read E) gs s"

sublocale stored_run \<subseteq> group_scan E "\<lambda>a. reader (entries s ! a)" q o' "set (groups s)" "entry_hits E q gs s" "entry_row E q o' gs s"
  by (rule stored_scan [OF run_host run_groups refl])

text \<open>What a run sees of a reachable store: the groups of its window, and through them the whole answer.\<close>

lemma run_view:
  assumes "heap_ok s sns" and "index_ok s" and "\<not> closed s" and "snapshotOf f t s = (sn, s1)"
  shows "snap_entries sn = filter (\<lambda>a. TimeRangeMatches (reader (entries s ! a)) f t) (groups s)"
    and "\<And>a. a \<in> set (groups s) \<Longrightarrow> entry_at s1 a = entries s1 ! a \<and> reader (entries s1 ! a) = reader (entries s ! a)"
    and "SnapshotOf f t s = (Inr sn, s1)"
proof -
  let ?want = "\<lambda>e. TimeRangeMatches (reader e) f t"
  obtain sn' s1' where t: "take_snapshot ?want s = (Inr sn', s1')"
    using assms(3) by (cases "lease ?want (groups s) s") (auto simp: take_snapshot_def)
  then have same: "sn' = sn" "s1' = s1" using assms(4) by (auto simp: snapshotOf_def SnapshotOf_def)
  note inv = snapshot_inv [OF assms(1,2) t, unfolded same]
  show "SnapshotOf f t s = (Inr sn, s1)" using t same by (simp add: SnapshotOf_def)
  show "snap_entries sn = filter (\<lambda>a. TimeRangeMatches (reader (entries s ! a)) f t) (groups s)" by (rule inv(1))
  fix a assume a: "a \<in> set (groups s)"
  obtain En where En: "s1 = s\<lparr>entries := En\<rparr>" "length En = length (entries s)" "\<forall>a < length En. same_entry (entries s ! a) (En ! a)"
    using inv(4) by blast
  have "a < length En" using a assms(2) En(2) by (auto simp: index_ok_def)
  then show "entry_at s1 a = entries s1 ! a \<and> reader (entries s1 ! a) = reader (entries s ! a)"
    using En(1,3) by (simp add: entry_at_def same_entry_def)
qed

lemma windowed_answer:
  assumes "stored K R gs s"
  shows "concat (map (\<lambda>a. group_answer E q o' (gs (ge_id (entries s ! a)))) (filter (\<lambda>a. TimeRangeMatches (reader (entries s ! a)) (From q) (To q)) (groups s)))
    = store_answer E gs q o' s"
proof -
  have "concat (map f (filter P as)) = concat (map f as)" if "\<And>a. a \<in> set as \<Longrightarrow> \<not> P a \<Longrightarrow> f a = []" for f :: "nat \<Rightarrow> Row list" and P as
    using that by (induction as) auto
  moreover have "group_answer E q o' (gs (ge_id (entries s ! a))) = []"
    if "a \<in> set (groups s)" "\<not> TimeRangeMatches (reader (entries s ! a)) (From q) (To q)" for a
    using assms that outside_window by (fastforce simp: stored_def group_answer_def)
  ultimately show ?thesis by (simp add: store_answer_def ids_of_def o_def)
qed

section \<open>Runs without a budget\<close>

definition quiet :: "clock_env \<Rightarrow> run_opts \<Rightarrow> bool" where
  "quiet env o' \<longleftrightarrow> (\<forall>n. env n = None) \<and> RowMax o' \<le> 0 \<and> MaxBytes o' \<le> 0 \<and> maxMemory o' \<le> 0 \<and> maxGroups o' \<le> 0"

lemma exceeded_quiet: "quiet env o' \<Longrightarrow> exceeded env o' n st = (False, st\<lparr>checks := checks st + 1\<rparr>)"
  by (simp add: quiet_def exceeded_def)

lemma append_group_stopped: "append_group E rdr q o' a out st = Some (out', st') \<Longrightarrow> stopped st' = stopped st"
  by (auto simp: append_group_def split: Option.bind_splits)

lemma prune_quiet: "quiet env o' \<Longrightarrow> prune env E rdr q o' as st = Some (bs, st') \<Longrightarrow> stopped st' = stopped st"
  by (induction as arbitrary: bs st st') (fastforce simp: exceeded_quiet split: Option.bind_splits if_splits)+

lemma run_serial_quiet: "quiet env o' \<Longrightarrow> run_serial env E rdr q o' as out n st = Some (rows, st') \<Longrightarrow> stopped st' = stopped st"
proof (induction as arbitrary: out n st)
  case (Cons a as)
  then obtain out1 st1 where a: "append_group E rdr q o' a out st = Some (out1, st1)" by (auto split: Option.bind_splits)
  have "\<not> RowMax o' > 0" using Cons.prems(1) by (simp add: quiet_def)
  then show ?case
    using Cons.prems a append_group_stopped [OF a] Cons.IH [OF Cons.prems(1), of out1]
    by (auto simp: exceeded_quiet Let_def split: if_splits)
qed simp

lemma run_newest_quiet: "quiet env o' \<Longrightarrow> run_newest env E rdr q o' as out n st = Some (rows, st') \<Longrightarrow> stopped st' = stopped st"
proof (induction as arbitrary: out n st)
  case (Cons a as)
  then obtain out1 st1 where a: "append_group E rdr q o' a out st = Some (out1, st1)" by (auto split: Option.bind_splits)
  show ?case
    using Cons.prems a append_group_stopped [OF a] Cons.IH [OF Cons.prems(1)]
    by (fastforce simp: exceeded_quiet Let_def split: if_splits list.splits)
qed simp

lemma pool_quiet:
  assumes "pool_reach env E rdr q o' as workers st p" and "quiet env o'"
  shows "stopped (run p) = stopped st"
  using assms(1)
proof induction
  case start
  then show ?case by (simp add: pool_start_def)
next
  case (step p w p')
  from step.hyps(3) show ?case
    using step.IH assms(2)
    by (cases rule: pool_do_cases) (auto simp: exceeded_quiet append_group_stopped quiet_def)
qed

section \<open>Properties\<close>

text \<open>The run of a reachable store, as the walks see it.\<close>

lemma run_scan:
  assumes "simd_ok (en_simd E)" and "heap_ok s sns" and "index_ok s" and "\<not> closed s" and st: "stored K (en_read E) gs s"
    and "caches_ok (en_read E) s rst" and sn: "snapshotOf (From q) (To q) s = (sn, s1)"
  shows "group_scan E (\<lambda>a. reader (entry_at s1 a)) q o' (set (groups s)) (entry_hits E q gs s) (entry_row E q o' gs s)"
    and "group_scan.good E (\<lambda>a. reader (entry_at s1 a)) (set (groups s)) rst"
    and "set (snap_entries sn) \<subseteq> set (groups s)" and "distinct (snap_entries sn)"
    and "group_scan.answer (entry_hits E q gs s) (entry_row E q o' gs s) (snap_entries sn) = store_answer E gs q o' s"
proof -
  let ?rdr = "\<lambda>a. reader (entry_at s1 a)"
  note view = run_view [OF assms(2-4) sn]
  have rd: "?rdr a = reader (entries s ! a)" if "a \<in> set (groups s)" for a using view(2) [OF that] by simp
  show gsc: "group_scan E ?rdr q o' (set (groups s)) (entry_hits E q gs s) (entry_row E q o' gs s)" by (rule stored_scan [OF assms(1) st rd])
  show "group_scan.good E ?rdr (set (groups s)) rst" using assms(6) rd by (simp add: group_scan.good_def [OF gsc] caches_ok_def)
  show "set (snap_entries sn) \<subseteq> set (groups s)" "distinct (snap_entries sn)" using view(1) assms(3) by (auto simp: index_ok_def)
  show "group_scan.answer (entry_hits E q gs s) (entry_row E q o' gs s) (snap_entries sn) = store_answer E gs q o' s"
    using windowed_answer [OF st, of E q o']
    by (simp add: group_scan.answer_def [OF gsc] view(1) entry_hits_def entry_row_def group_answer_def Let_def)
qed

lemma run_reaches:
  assumes "history K R srt (s, sns)" and "\<not> closed s" and "heap_ok s sns" and "index_ok s" and "snapshotOf f t s = (sn, s1)"
  shows "\<exists>sn'. history K R srt (snd (snap_Close sn s1), sns @ [sn'])"
proof -
  have sn: "SnapshotOf f t s = (Inr sn, s1)" by (rule run_view(3) [OF assms(3,4,2,5)])
  have r: "history K R srt (s1, sns @ [sn])" by (rule history_base [OF assms(1) store_step.window [OF sn]])
  have "store_step srt (s1, sns @ [sn]) (snd (snap_Close sn s1), (sns @ [sn])[length sns := fst (snap_Close sn s1)])"
    by (rule store_step.release) simp_all
  from history_base [OF r this] show ?thesis by auto
qed

text \<open>C1: A query returns the answer.  Over any store the operations can reach, whose groups were written and read back, a run of a
  query returns, for every interleaving of the worker pool, every answer of the clock and every budget.  If it did not record a reason
  for stopping, its rows are exactly the matching rows of all committed groups in index order, cut at the limit if there is one: the
  snapshot's window, the footer skips, the choice between the serial walk and the pool and the order in which workers finish lose, repeat
  and reorder nothing.  Without budgets and with a live context no reason is recorded.  The snapshot is released.\<close>

theorem query_answer_exact:
  assumes "simd_ok (en_simd E)" and "sorter_ok srt" and "history K (en_read E) srt (s, sns)" and "\<not> closed s" and "stored K (en_read E) gs s"
    and "caches_ok (en_read E) s st" and "stopped st = None" and "LastN o' \<le> 0" and "0 < workers"
  shows "(\<exists>res. Run env clock E workers q o' s st res)
    \<and> (\<forall>rows st' s'. Run env clock E workers q o' s st (rows, st', s') \<longrightarrow>
         (let all = store_answer E gs (resolveTimePreds clock q) o' s in
            (stopped st' = None \<longrightarrow> rows = (if Limit o' > 0 then take (nat (Limit o')) all else all))
            \<and> (quiet env o' \<longrightarrow> stopped st' = None) \<and> (\<exists>sn. history K (en_read E) srt (s', sns @ [sn]))))"
proof -
  let ?q = "resolveTimePreds clock q"
  have inv: "heap_ok s sns" "index_ok s" using history_inv [OF assms(2,3)] by simp_all
  obtain sn s1 where sn: "snapshotOf (From ?q) (To ?q) s = (sn, s1)" by (cases "snapshotOf (From ?q) (To ?q) s")
  let ?rdr = "\<lambda>a. reader (entry_at s1 a)" and ?ans = "group_scan.answer (entry_hits E ?q gs s) (entry_row E ?q o' gs s)"
  note scan = run_scan [OF assms(1) inv assms(4-6) sn]
  note sc = scan(1) [where o' = o'] scan(2-4) scan(5) [where o' = o']
  obtain as st1 where p: "prune env E ?rdr ?q o' (snap_entries sn) st = Some (as, st1)" "group_scan.good E ?rdr (set (groups s)) st1"
    "set as \<subseteq> set (snap_entries sn)" "stopped st1 = None \<longrightarrow> ?ans as = ?ans (snap_entries sn)"
    using group_scan.prune_ok [OF sc(1,3,2), of env] by (elim exE conjE) (rule that)
  have sub: "set as \<subseteq> set (groups s)" using p(3) sc(3) by blast
  note answer = p(4) [unfolded sc(5)]
  obtain rows0 st0 where ser: "run_serial env E ?rdr ?q o' as [] 0 st1 = Some (rows0, st0)" "stopped st1 \<noteq> None \<longrightarrow> stopped st0 \<noteq> None"
    "stopped st0 = None \<longrightarrow> rows0 = (if Limit o' > 0 then take (nat (Limit o')) (?ans as) else ?ans as)"
    using group_scan.run_serial_ok [OF sc(1) sub p(2) assms(8), of "[]" env 0] by auto
  let ?par = "length as \<ge> parallelMinGroups \<and> Limit o' = 0"
  have par: "\<exists>res. runParallel env E ?rdr ?q o' as workers st1 res"
    "\<And>rows st'. runParallel env E ?rdr ?q o' as workers st1 (rows, st') \<Longrightarrow>
       (stopped st1 \<noteq> None \<longrightarrow> stopped st' \<noteq> None) \<and> (stopped st' = None \<longrightarrow> rows = ?ans as)" if ?par
    using group_scan.runParallel_ok [OF sc(1) sub _ assms(8) p(2) assms(9), of env] that by auto
  have ex: "\<exists>res. Run env clock E workers q o' s st res"
  proof -
    have "\<exists>rows st'. if maxGroups o' > 0 \<and> int (length as) > maxGroups o' then rows = [] \<and> st' = stop (ErrTooManyGroups (length as) (maxGroups o')) st1
        else if LastN o' > 0 then run_newest env E ?rdr ?q o' (rev as) [] 0 st1 = Some (rows, st')
        else if ?par then runParallel env E ?rdr ?q o' as workers st1 (rows, st')
        else run_serial env E ?rdr ?q o' as [] 0 st1 = Some (rows, st')"
      using par(1) ser(1) assms(8) by (cases ?par) auto
    then show ?thesis using p(1) sn by (fastforce simp: Run_def Let_def)
  qed
  have "(stopped st' = None \<longrightarrow> rows = (if Limit o' > 0 then take (nat (Limit o')) (store_answer E gs ?q o' s) else store_answer E gs ?q o' s))
      \<and> (quiet env o' \<longrightarrow> stopped st' = None) \<and> (\<exists>sn. history K (en_read E) srt (s', sns @ [sn]))"
    if r: "Run env clock E workers q o' s st (rows, st', s')" for rows st' s'
  proof -
    have body: "s' = snd (snap_Close sn s1)" "if maxGroups o' > 0 \<and> int (length as) > maxGroups o' then rows = [] \<and> st' = stop (ErrTooManyGroups (length as) (maxGroups o')) st1
        else if ?par then runParallel env E ?rdr ?q o' as workers st1 (rows, st')
        else run_serial env E ?rdr ?q o' as [] 0 st1 = Some (rows, st')"
      using r sn p(1) assms(8) by (auto simp: Run_def Let_def)
    have quiet: "stopped st' = None" if "quiet env o'"
    proof -
      have "stopped st1 = None" using prune_quiet [OF that p(1)] assms(7) by simp
      then show ?thesis using body(2) that run_serial_quiet [OF that] pool_quiet [OF _ that]
        by (fastforce simp: quiet_def runParallel_def split: if_splits)
    qed
    have "rows = (if Limit o' > 0 then take (nat (Limit o')) (store_answer E gs ?q o' s) else store_answer E gs ?q o' s)" if none: "stopped st' = None"
      using body(2) none par(2) [of rows st'] ser answer by (auto split: if_splits)
    then show ?thesis using quiet run_reaches [OF assms(3,4) inv sn] body(1) by blast
  qed
  then show ?thesis using ex by (simp only: Let_def) blast
qed

text \<open>A reachable store that holds one written group.\<close>

definition store_of :: "bytes \<Rightarrow> Store" where
  "store_of b = snd (appendBlob stable all_ok b [] empty_store)"

lemma single_store_of:
  assumes w: "written_group K R g b r" and s: "s = store_of b"
  shows "store_reach stable (s, [])" "\<not> closed s" "ids_of s = [0]" "stored K R (\<lambda>_. g) s" "\<forall>a \<in> set (groups s). reader (entries s ! a) = r"
proof -
  have rb: "ReadGroup b = Some (Inr r)" using w by (simp add: written_group_def)
  have e: "\<not> closed empty_store" "nextID empty_store + 1 \<noteq> 0" "nextID empty_store = 0" "m_visible (fst (man empty_store)) = {}"
    by (simp_all add: empty_store_def man0_def)
  have ap: "appendBlob stable all_ok b [] empty_store = (Inr 0, s)" using empty_append [OF rb, of "[]"] s by (metis prod.collapse store_of_def)
  show r: "store_reach stable (s, [])"
    using store_reach.step [OF store_reach.start [OF empty_start]
      store_step.append [OF e(1) all_ok_production e(2), where srt = stable and sns = "[]" and b = b and wid = "[]"]] ap by simp
  have inv: "heap_ok empty_store []" "index_ok empty_store" using reach_inv [OF stable_ok store_reach.start [OF empty_start]] by simp_all
  note ai = append_inv [OF stable_ok all_ok_production inv e(1,2) ap]
  show cl: "\<not> closed s" using append_frame(1) [of stable all_ok b "[]" empty_store] e(1) ap by simp
  have "set (ids_of empty_store) = {}" using inv(2) e(1,4) by (simp add: index_ok_def)
  then have "set (ids_of s) = {0}" "distinct (ids_of s)" using ai(2,3) e(3) by (auto simp: index_ok_def)
  then show ids: "ids_of s = [0]" by (cases "ids_of s"; cases "tl (ids_of s)") auto
  have rd: "ge_id (entries s ! a) = 0 \<and> reader (entries s ! a) = r" if "a \<in> set (groups s)" for a
  proof -
    have "ge_id (entries s ! a) \<in> set (ids_of s)" using that by (simp add: ids_of_def)
    then have i: "ge_id (entries s ! a) = 0" using ids by simp
    have "on_disk s (entries s ! a)" using ai(2) that by (simp add: index_ok_def)
    moreover have "files s (GroupFile 0) = Some b" using append_frame(2) [of stable all_ok b "[]" empty_store] ap e(3) by simp
    ultimately show ?thesis using i rb by (auto simp: on_disk_def)
  qed
  then show "stored K R (\<lambda>_. g) s" unfolding stored_def using w by auto
  show "\<forall>a \<in> set (groups s). reader (entries s ! a) = r" using rd by blast
qed

lemma single_store:
  assumes w: "written_group K R g b r"
  obtains s where "store_reach stable (s, [])" "\<not> closed s" "ids_of s = [0]" "stored K R (\<lambda>_. g) s" "\<forall>a \<in> set (groups s). reader (entries s ! a) = r"
  by (rule that [OF single_store_of [OF w refl]])

definition demo_engine :: "(nat, unit) engine" where
  "demo_engine = \<lparr>en_simd = ref_simd, en_lib = demo_golib, en_read = demo_read, en_ord = (\<lambda>_. [[108]]), en_fmt = (\<lambda>t. [ucast t]), en_pool = []\<rparr>"

definition demo_state :: run_state where
  "demo_state = \<lparr>checks = 0, stopped = None, caches = (\<lambda>_. demo_cache)\<rparr>"

text \<open>The walks over the store that the append of the demonstration group leaves.\<close>

interpretation demo_run: stored_run demo_engine demo_kernels "\<lambda>_. demo_group" "store_of demo_blob" demo_query demo_opts
  by unfold_locales (use ref_host.host_ok single_store_of(4) [OF demo_log.written_group_axioms refl] in \<open>simp_all add: demo_engine_def\<close>)

lemma demo_resolved: "resolveTimePreds 0 demo_query = demo_query"
  by (simp add: resolveTimePreds_def demo_query_def demo_pred_def query_bounds_def query_now_def resolveTimePred_def MinInt64_def MaxInt64_def resolveTimePipes_def Let_def)

lemma demo_matching: "matching demo_golib demo_query demo_group = [1]"
proof -
  have "GRows demo_group = 2" "group_times demo_group = [5, 9]" "From demo_query = 0" "To demo_query = 100"
    by (simp_all add: demo_group_def group_times_def time_col_def demo_query_def)
  then show ?thesis using scanMatchesRow_present [OF demo_query_fields] by (simp add: matching_def demo_rows upt_rec values_of_def in_window_def)
qed

lemma demo_answer:
  assumes "ids_of s = [0]"
  shows "store_answer demo_engine (\<lambda>_. demo_group) demo_query demo_opts s = [\<lparr>Time = 9, Fields = [([108], [97]), (time_col, [9])], NoTime = False\<rparr>]"
proof -
  have "out_fields (\<lambda>_. [[108]]) (map ColName (Columns demo_group)) demo_query demo_opts = [[108], time_col]"
    by (simp add: out_fields_def query_fields_def demo_query_def demo_opts_def demo_group_def time_col_def)
  moreover have "output_row (\<lambda>t. [ucast t]) demo_group [[108], time_col] 1 = \<lparr>Time = 9, Fields = [([108], [97]), (time_col, [9])], NoTime = False\<rparr>"
    by (simp add: output_row_def map_filter_simps dict_col_def demo_group_def col_types time_col_def group_times_def values_of_def)
  ultimately show ?thesis using demo_matching by (simp add: store_answer_def assms group_answer_def demo_engine_def)
qed

theorem query_answer_exact_witness:
  "\<exists>s rows st' s'. Run (\<lambda>_. None) 0 demo_engine 1 demo_query demo_opts s demo_state (rows, st', s')
     \<and> rows = [\<lparr>Time = 9, Fields = [([108], [97]), (time_col, [9])], NoTime = False\<rparr>]"
proof -
  obtain s where s: "store_reach stable (s, [])" "\<not> closed s" "ids_of s = [0]" "stored demo_kernels demo_read (\<lambda>_. demo_group) s"
    "\<forall>a \<in> set (groups s). reader (entries s ! a) = demo_reader" using single_store [OF demo_log.written_group_axioms] .
  have eng: "simd_ok (en_simd demo_engine)" "stored demo_kernels (en_read demo_engine) (\<lambda>_. demo_group) s"
    "caches_ok (en_read demo_engine) s demo_state" "stopped demo_state = None" "LastN demo_opts \<le> 0"
    using ref_host.host_ok s(4,5) demo_cache_coherent by (simp_all add: demo_engine_def caches_ok_def demo_state_def demo_opts_def)
  have q: "quiet (\<lambda>_. None) demo_opts" "Limit demo_opts = 5" by (simp_all add: quiet_def demo_opts_def)
  note ans = demo_answer [OF s(3)]
  note th = query_answer_exact [OF eng(1) stable_ok reach_history [OF s(1)] s(2) eng(2-5), of 1 "\<lambda>_. None" 0 demo_query, unfolded demo_resolved ans q(2) Let_def]
  then obtain rows st' s' where r: "Run (\<lambda>_. None) 0 demo_engine 1 demo_query demo_opts s demo_state (rows, st', s')" by auto
  then have "rows = [\<lparr>Time = 9, Fields = [([108], [97]), (time_col, [9])], NoTime = False\<rparr>]" using th q(1) by auto
  with r show ?thesis by blast
qed

section \<open>The bounded tail\<close>

lemma newest_mset: "mset all = mset all' \<Longrightarrow> newest n rows all = newest n rows all'"
  using mset_eq_length [of all all'] by (simp add: newest_def)

lemma matching_times:
  assumes w: "written_group K R g B r" and "sorted (map sint (group_times g))"
  shows "sorted_wrt as_new (map (output_row fmt g fs) (matching G q g))"
    and "\<forall>x \<in> set (map (output_row fmt g fs) (matching G q g)). sint (Time x) \<le> sint (TimeMax r)"
proof -
  have len: "length (group_times g) = GRows g" using written_group.times_read(1) [OF w] written_group.rows_le(2) [OF w] by simp
  have m: "set (matching G q g) \<subseteq> {..<GRows g}" "sorted (matching G q g)" by (auto simp: matching_def sorted_wrt_filter)
  have "sorted_wrt (\<lambda>i j. sint (group_times g ! i) \<le> sint (group_times g ! j)) (matching G q g)"
    by (rule sorted_wrt_mono_rel [OF _ m(2)]) (use assms(2) len m(1) in \<open>auto simp: sorted_iff_nth_mono subset_iff\<close>)
  then show "sorted_wrt as_new (map (output_row fmt g fs) (matching G q g))" by (simp add: sorted_wrt_map as_new_def output_row_def)
  show "\<forall>x \<in> set (map (output_row fmt g fs) (matching G q g)). sint (Time x) \<le> sint (TimeMax r)"
  proof
    fix x assume "x \<in> set (map (output_row fmt g fs) (matching G q g))"
    then obtain i where i: "i < GRows g" "Time x = group_times g ! i" using m(1) by (auto simp: output_row_def)
    then have "group_times g ! i \<in> set (group_times g)" using len by simp
    from written_group.times_read(4) [OF w this] i(2) show "sint (Time x) \<le> sint (TimeMax r)" by simp
  qed
qed

text \<open>C29: A bounded tail returns the newest rows.  Over any reachable store of written groups whose rows are in time order inside each
  group and whose groups end in the order they begin, a query for the last \<open>n\<close> rows that did not record a stop returns rows of the
  answer, newest first, as many as asked for or as there are, and every matching row it leaves out is no newer than any it returns; the
  early end of the backwards walk loses nothing.\<close>

theorem newest_rows_exact:
  assumes "simd_ok (en_simd E)" and "sorter_ok srt" and "history K (en_read E) srt (s, sns)" and "\<not> closed s" and "stored K (en_read E) gs s"
    and "caches_ok (en_read E) s st" and "LastN o' > 0"
    and "\<forall>i \<in> set (ids_of s). sorted (map sint (group_times (gs i)))" and "sorted (map (\<lambda>a. sint (TimeMax (reader (entries s ! a)))) (groups s))"
  shows "(\<exists>res. Run env clock E workers q o' s st res)
    \<and> (\<forall>rows st' s'. Run env clock E workers q o' s st (rows, st', s') \<and> stopped st' = None \<longrightarrow>
         newest (nat (LastN o')) rows (store_answer E gs (resolveTimePreds clock q) o' s))"
proof -
  let ?q = "resolveTimePreds clock q"
  have inv: "heap_ok s sns" "index_ok s" using history_inv [OF assms(2,3)] by simp_all
  obtain sn s1 where sn: "snapshotOf (From ?q) (To ?q) s = (sn, s1)" by (cases "snapshotOf (From ?q) (To ?q) s")
  let ?rdr = "\<lambda>a. reader (entry_at s1 a)" and ?ans = "group_scan.answer (entry_hits E ?q gs s) (entry_row E ?q o' gs s)"
  note scan = run_scan [OF assms(1) inv assms(4-6) sn]
  note sc = scan(1) [where o' = o'] scan(2-4) scan(5) [where o' = o']
  obtain as st1 where p: "prune env E ?rdr ?q o' (snap_entries sn) st = Some (as, st1)" "group_scan.good E ?rdr (set (groups s)) st1"
    "set as \<subseteq> set (snap_entries sn)" "\<forall>P. sorted_wrt P (snap_entries sn) \<longrightarrow> sorted_wrt P as"
    "stopped st1 = None \<longrightarrow> ?ans as = ?ans (snap_entries sn)"
    using group_scan.prune_ok [OF sc(1,3,2), of env] by (elim exE conjE) (rule that)
  have sub: "set (rev as) \<subseteq> set (groups s)" using p(3) sc(3) by auto
  have rd: "?rdr a = reader (entries s ! a)" if "a \<in> set (groups s)" for a using run_view(2) [OF inv assms(4) sn that] by simp
  have "group_scan.time_ordered ?rdr (entry_hits E ?q gs s) (entry_row E ?q o' gs s) (rev as)"
    unfolding group_scan.time_ordered_def [OF sc(1)]
  proof (intro conjI ballI)
    let ?R = "\<lambda>a b. sint (TimeMax (reader (entries s ! a))) \<le> sint (TimeMax (reader (entries s ! b)))"
    have "sorted_wrt ?R (snap_entries sn)"
      using assms(9) unfolding run_view(1) [OF inv assms(4) sn] by (simp add: sorted_map sorted_wrt_filter)
    then have "sorted_wrt ?R as" using p(4) by blast
    then have "sorted_wrt (\<lambda>a b. ?R b a) (rev as)" by (simp add: sorted_wrt_rev)
    then show "sorted_wrt (\<lambda>a b. sint (TimeMax (?rdr b)) \<le> sint (TimeMax (?rdr a))) (rev as)"
      by (rule sorted_wrt_mono_rel [rotated]) (use sub rd in \<open>simp add: subset_iff\<close>)
  next
    fix a assume "a \<in> set (rev as)"
    then have a: "a \<in> set (groups s)" using sub by blast
    let ?g = "gs (ge_id (entries s ! a))"
    obtain B where w: "written_group K (en_read E) ?g B (?rdr a)" using assms(5) a rd by (auto simp: stored_def)
    have "sorted (map sint (group_times ?g))" using assms(8) a by (simp add: ids_of_def)
    note mt = matching_times [OF w this]
    show "sorted_wrt as_new (map (entry_row E ?q o' gs s a) (entry_hits E ?q gs s a))"
      unfolding entry_row_def entry_hits_def Let_def by (rule mt(1))
    show "sint (Time r) \<le> sint (TimeMax (?rdr a))" if "r \<in> set (map (entry_row E ?q o' gs s a) (entry_hits E ?q gs s a))" for r
      using mt(2) that unfolding entry_row_def entry_hits_def Let_def by blast
  qed
  from group_scan.run_newest_ok [OF sc(1) sub p(2) assms(7) this, of "[]" "[]" env 0]
  obtain rows0 st0 where r0: "run_newest env E ?rdr ?q o' (rev as) [] 0 st1 = Some (rows0, st0)" "stopped st1 \<noteq> None \<longrightarrow> stopped st0 \<noteq> None"
    "stopped st0 = None \<longrightarrow> newest (nat (LastN o')) rows0 (?ans (rev as))" by auto
  have "mset (?ans (rev as)) = mset (?ans as)"
    unfolding group_scan.answer_def [OF sc(1)] by (simp add: mset_concat rev_map [symmetric] sum_list_rev)
  then have new: "stopped st0 = None \<longrightarrow> newest (nat (LastN o')) rows0 (store_answer E gs ?q o' s)"
    using r0(2,3) p(5) sc(5) newest_mset by metis
  have "\<exists>rows st'. if maxGroups o' > 0 \<and> int (length as) > maxGroups o' then rows = [] \<and> st' = stop (ErrTooManyGroups (length as) (maxGroups o')) st1
      else run_newest env E ?rdr ?q o' (rev as) [] 0 st1 = Some (rows, st')" using r0(1) by auto
  then have ex: "\<exists>res. Run env clock E workers q o' s st res" using p(1) sn assms(7) by (fastforce simp: Run_def Let_def)
  have "newest (nat (LastN o')) rows (store_answer E gs ?q o' s)"
    if "Run env clock E workers q o' s st (rows, st', s')" "stopped st' = None" for rows st' s'
    using that sn p(1) assms(7) r0(1) new by (auto simp: Run_def Let_def split: if_splits)
  with ex show ?thesis by blast
qed

definition tail_opts :: run_opts where
  "tail_opts = \<lparr>Limit = 0, LastN = 1, RowMax = 0, MaxBytes = 0, maxMemory = 0, maxGroups = 0, Materialize = [], MatAll = False, MatCols = False\<rparr>"

lemma newest_one: "newest 1 rows [x] \<Longrightarrow> rows = [x]"
  by (cases rows; cases "tl rows") (auto simp: newest_def)

theorem newest_rows_exact_witness:
  "\<exists>s rows st' s'. Run (\<lambda>_. None) 0 demo_engine 1 demo_query tail_opts s demo_state (rows, st', s') \<and> (stopped st' = None \<longrightarrow> map Time rows = [9])"
proof -
  obtain s where s: "store_reach stable (s, [])" "\<not> closed s" "ids_of s = [0]" "stored demo_kernels demo_read (\<lambda>_. demo_group) s"
    "\<forall>a \<in> set (groups s). reader (entries s ! a) = demo_reader" using single_store [OF demo_log.written_group_axioms] .
  have eng: "simd_ok (en_simd demo_engine)" "stored demo_kernels (en_read demo_engine) (\<lambda>_. demo_group) s"
    "caches_ok (en_read demo_engine) s demo_state" "LastN tail_opts > 0" "nat (LastN tail_opts) = 1"
    using ref_host.host_ok s(4,5) demo_cache_coherent by (simp_all add: demo_engine_def caches_ok_def demo_state_def tail_opts_def)
  have g: "GRows demo_group = 2" "group_times demo_group = [5, 9]" "From demo_query = 0" "To demo_query = 100"
    by (simp_all add: demo_group_def group_times_def time_col_def demo_query_def)
  obtain x where ans: "store_answer demo_engine (\<lambda>_. demo_group) demo_query tail_opts s = [x]" "Time x = 9"
    using g(2) demo_matching by (simp add: store_answer_def s(3) group_answer_def demo_engine_def output_row_def)
  have "length (groups s) = 1" using s(3) by (metis ids_of_def length_map length_Cons list.size(3) One_nat_def)
  then have srt: "sorted (map (\<lambda>a. sint (TimeMax (reader (entries s ! a)))) (groups s))" by (cases "groups s") auto
  have "\<forall>i \<in> set (ids_of s). sorted (map sint (group_times demo_group))" using g(2) by simp
  note th = newest_rows_exact [OF eng(1) stable_ok reach_history [OF s(1)] s(2) eng(2-4) this srt, of "\<lambda>_. None" 0 1 demo_query, unfolded demo_resolved eng(5) ans(1)]
  then obtain rows st' s' where r: "Run (\<lambda>_. None) 0 demo_engine 1 demo_query tail_opts s demo_state (rows, st', s')" by auto
  then have "stopped st' = None \<longrightarrow> rows = [x]" using th newest_one by blast
  then have "stopped st' = None \<longrightarrow> map Time rows = [9]" using ans(2) by auto
  with r show ?thesis by (intro exI conjI)
qed

section \<open>Where the walks go wrong\<close>

text \<open>A group with nothing but a timestamp column.\<close>

definition time_group :: "u64 list \<Rightarrow> Group" where
  "time_group ts = \<lparr>GRows = length ts, Columns = [\<lparr>ColName = time_col, ColTypeOf = ColTimestamp, ColDictOf = None, ColTs = ts, ColVec = [], ColDim = 0\<rparr>],
     Compact = False, NoPostings = False\<rparr>"

lemma time_group_wf: "length ts \<le> 100 \<Longrightarrow> group_wf (time_group ts)"
  by (simp add: time_group_def group_wf_def column_wf_def col_types MaxRows_def maxGroupColumns_def maxNameBytes_def time_col_def)

lemma time_group_small:
  assumes "ts \<noteq> []" and "length ts \<le> 100" and "Marshal demo_kernels (time_group ts) = Some B"
  shows "length B < 2 ^ 32"
proof -
  have "ts_blocks ts \<le> 1" using assms(2) by (simp add: ts_blocks_def tsBlock_def)
  then have lt: "length (encodeTimestamps ts) \<le> 8 + tsHdrStride + 1000"
    using length_encodeTimestamps [OF assms(1)] assms(2) by (simp add: tsHdrStride_def)
  let ?st = "\<lparr>ms_b = group_header (time_group ts), ms_metas = [], ms_time = (0x7FFFFFFFFFFFFFFF, 0x8000000000000000)\<rparr> :: marshal_state"
  obtain st1 where st1: "marshal_columns demo_kernels (time_group ts) ?st (Columns (time_group ts)) = Some st1"
    "length (ms_b st1) \<le> 2000" "length (ms_metas st1) = 1" "\<forall>m \<in> set (ms_metas st1). length (Name m) = 5 \<and> BloomW m = []"
    using lt by (simp add: marshal_column_def time_group_def col_types Let_def group_header_def emptyMeta_def time_col_def tsHdrStride_def)
  have meta: "length (meta_bytes m) = 49 + length (Name m) + 8 * length (BloomW m)" for m
    using cu64.length_puts [of "BloomW m"] by (simp add: meta_bytes_def appStr_def del: length_concat)
  have "\<forall>m \<in> set (ms_metas st1). length (meta_bytes m) = 54" using st1(4) by (simp add: meta)
  then have "length (concat (map meta_bytes (ms_metas st1))) = 54" using st1(3) by (cases "ms_metas st1") auto
  then show ?thesis using assms(3) st1(1,2) by (auto simp: Marshal_def Let_def group_footer_def split: if_splits)
qed

lemma time_group_bounds:
  assumes "written_group K R (time_group ts) B r"
  shows "(TimeMin r, TimeMax r) = foldl time_step (0x7FFFFFFFFFFFFFFF, 0x8000000000000000) ts"
  using written_group.reader_facts [OF assms] by (simp add: time_group_def) metis

lemma time_group_written:
  assumes "ts \<noteq> []" and "length ts \<le> 100"
  shows "\<exists>B r. written_group demo_kernels demo_read (time_group ts) B r"
proof -
  note wf = time_group_wf [OF assms(2)]
  have fits: "list_all narrow (Columns (time_group ts))" "distinct (map ColName (Columns (time_group ts)))"
    "list_ex (\<lambda>c. ColName c = time_col \<and> ColTypeOf c = ColTimestamp) (Columns (time_group ts))" "0 < GRows (time_group ts)"
    using assms(1) by (simp_all add: time_group_def narrow_def col_types)
  obtain B where B: "Marshal demo_kernels (time_group ts) = Some B" using Marshal_total [OF wf] .
  note small = time_group_small [OF assms B]
  obtain r where r: "ReadGroup B = Some (Inr r)" using ReadGroup_Marshal [OF demo_kernels_ok wf fits(1) B small] by metis
  have w: "written_group demo_kernels demo_read (time_group ts) B r"
    by (rule written_group.intro) (rule demo_same demo_varints wf fits B small r)+
  then show ?thesis by blast
qed

text \<open>An unfiltered query, and the cache a freshly read group starts with.\<close>

definition all_query :: "(nat, unit) Query" where
  "all_query = \<lparr>From = 0, To = 1000, ToSet = True, Now = 0, NowSet = True, Preds = [], FilterE = None, Pipes = []\<rparr>"

definition new_cache :: "Reader \<Rightarrow> idx_cache" where
  "new_cache r = \<lparr>ic_slots = map (\<lambda>_. None) (cols r), ic_used = 0, ic_budget = 0\<rparr>"

lemma new_cache_coherent: "cache_coherent R r (new_cache r)"
  by (simp add: cache_coherent_def new_cache_def o_def slot_size_def sum_list_triv)

definition time_row :: "u64 \<Rightarrow> Row" where
  "time_row t = \<lparr>Time = t, Fields = [], NoTime = False\<rparr>"

text \<open>Materialising a time group under the unfiltered query.\<close>

lemma time_group_rows:
  assumes w: "written_group demo_kernels demo_read (time_group ts) B (rdr a)" and "cache_coherent demo_read (rdr a) (caches st a)"
    and "\<forall>t \<in> set ts. in_window 0 1000 t" and "Materialize o' = []" "\<not> MatAll o'" "\<not> MatCols o'"
  shows "\<exists>s'. append_group demo_engine rdr all_query o' a out st = Some (out @ map (\<lambda>i. time_row (ts ! i)) (keep_rows o' (length out) [0..<length ts]),
      st\<lparr>caches := (caches st)(a := s')\<rparr>) \<and> cache_coherent demo_read (rdr a) s'"
proof -
  have gt: "group_times (time_group ts) = ts" "GRows (time_group ts) = length ts" by (simp_all add: time_group_def group_times_def)
  have m: "matching demo_golib all_query (time_group ts) = [0..<length ts]"
    using assms(3) by (auto simp: matching_def gt all_query_def scanMatchesRow_def queryHolds_def filter_id_conv)
  have f: "out_fields (\<lambda>_. [[108]]) names all_query o' = []" for names
    using assms(4-6) by (simp add: out_fields_def query_fields_def all_query_def)
  have "output_row (\<lambda>t. [ucast t]) (time_group ts) [] = (\<lambda>i. time_row (ts ! i))"
    by (rule ext) (simp add: output_row_def time_row_def gt map_filter_simps)
  with appendMatches_written [OF w ref_host.host_ok assms(2), of demo_golib "\<lambda>_. [[108]]" "\<lambda>t. [ucast t]" "[]" all_query o' out] m f
  show ?thesis by (auto simp: append_group_def demo_engine_def)
qed

text \<open>C38: The bounded tail can miss the newest row.  Rows arrive out of order, so a group's last row need not be its newest, and a group that
  begins early can end late; the walk keeps each group's last rows by position, and ends when the next group of the index ends before the
  oldest row kept, without looking at the groups before it.  Of a group with the times 9 and 5 the last row by position is returned for the
  newest; and of three groups, in index order, with the times 0 to 100, 10 to 20 and 50 to 60, the query for the newest row answers 60,
  with no stop recorded, although the first group holds 100.\<close>

theorem newest_row_missed:
  assumes "written_group demo_kernels demo_read (time_group [9, 5]) B (rdr 0)"
    and "written_group demo_kernels demo_read (time_group [0, 100]) B1 (rdr 1)"
    and "written_group demo_kernels demo_read (time_group [10, 20]) B2 (rdr 2)"
    and "written_group demo_kernels demo_read (time_group [50, 60]) B3 (rdr 3)"
    and "stopped st = None" and "\<forall>a. caches st a = new_cache (rdr a)"
  shows "\<exists>st' st''. run_newest (\<lambda>_. None) demo_engine rdr all_query tail_opts (rev [0]) [] 0 st = Some ([time_row 5], st') \<and> stopped st' = None
     \<and> sorted (map (\<lambda>a. sint (TimeMin (rdr a))) [1, 2, 3])
     \<and> run_newest (\<lambda>_. None) demo_engine rdr all_query tail_opts (rev [1, 2, 3]) [] 0 st = Some ([time_row 60], st'') \<and> stopped st'' = None
     \<and> 1 \<in> set (matching demo_golib all_query (time_group [0, 100])) \<and> group_times (time_group [0, 100]) ! 1 = 100"
proof -
  have q: "quiet (\<lambda>_. None) tail_opts" by (simp add: quiet_def tail_opts_def)
  have o': "Materialize tail_opts = []" "\<not> MatAll tail_opts" "\<not> MatCols tail_opts" by (simp_all add: tail_opts_def)
  have ch: "cache_coherent demo_read (rdr a) (caches st a)" for a using assms(6) new_cache_coherent by simp
  have keep: "keep_rows tail_opts 0 [0..<2] = [1]" by (simp add: keep_rows_def tail_opts_def upt_rec)
  have cut: "cut_newest tail_opts [x] = [x]" for x by (simp add: cut_newest_def sortByTimeDesc_def tail_opts_def)
  have ln: "LastN tail_opts = 1" by (simp add: tail_opts_def)
  have win: "\<forall>t \<in> set [9, 5 :: u64]. in_window 0 1000 t" "\<forall>t \<in> set [50, 60 :: u64]. in_window 0 1000 t" "\<forall>t \<in> set [0, 100 :: u64]. in_window 0 1000 t"
    by (simp_all add: in_window_def)
  obtain s0 where a0: "append_group demo_engine rdr all_query tail_opts 0 [] st = Some ([time_row 5], st\<lparr>caches := (caches st)(0 := s0)\<rparr>)"
    using time_group_rows [where ts = "[9, 5]" and rdr = rdr and a = 0 and st = st and out = "[]", OF assms(1) ch win(1) o'] keep by (auto simp: numeral_2_eq_2)
  obtain s3 where a3: "append_group demo_engine rdr all_query tail_opts 3 [] st = Some ([time_row 60], st\<lparr>caches := (caches st)(3 := s3)\<rparr>)"
    using time_group_rows [where ts = "[50, 60]" and rdr = rdr and a = 3 and st = st and out = "[]", OF assms(4) ch win(2) o'] keep by (auto simp: numeral_2_eq_2)
  have tm: "TimeMin (rdr 1) = 0" "TimeMin (rdr 2) = 10" "TimeMin (rdr 3) = 50" "TimeMax (rdr 2) = 20"
    using time_group_bounds [OF assms(2)] time_group_bounds [OF assms(3)] time_group_bounds [OF assms(4)] by (simp_all add: time_step_def)
  have "run_newest (\<lambda>_. None) demo_engine rdr all_query tail_opts (rev [0]) [] 0 st
    = Some ([time_row 5], st\<lparr>caches := (caches st)(0 := s0), checks := Suc (checks st)\<rparr>)"
    using a0 by (simp add: exceeded_quiet [OF q] cut ln)
  moreover have "run_newest (\<lambda>_. None) demo_engine rdr all_query tail_opts (rev [1, 2, 3]) [] 0 st
    = Some ([time_row 60], st\<lparr>caches := (caches st)(3 := s3), checks := Suc (checks st)\<rparr>)"
    using a3 tm(4) by (simp add: exceeded_quiet [OF q] cut ln time_row_def)
  moreover have "1 \<in> set (matching demo_golib all_query (time_group [0, 100]))" "group_times (time_group [0, 100]) ! 1 = 100"
    using win(3) by (auto simp: matching_def time_group_def group_times_def all_query_def scanMatchesRow_def queryHolds_def)
  ultimately show ?thesis using tm(1-3) assms(5) by auto
qed

text \<open>Readers of the four groups, and a state with fresh caches.\<close>

theorem newest_row_missed_witness:
  "\<exists>rdr st'. run_newest (\<lambda>_. None) demo_engine rdr all_query tail_opts (rev [1, 2, 3]) []
     0 \<lparr>checks = 0, stopped = None, caches = (\<lambda>a. new_cache (rdr a))\<rparr> = Some ([time_row 60], st')"
proof -
  obtain B0 r0 B1 r1 B2 r2 B3 r3 where w: "written_group demo_kernels demo_read (time_group [9, 5]) B0 r0" "written_group demo_kernels demo_read (time_group [0, 100]) B1 r1"
    "written_group demo_kernels demo_read (time_group [10, 20]) B2 r2" "written_group demo_kernels demo_read (time_group [50, 60]) B3 r3"
    using time_group_written [of "[9, 5]"] time_group_written [of "[0, 100]"] time_group_written [of "[10, 20]"] time_group_written [of "[50, 60]"] by fastforce
  let ?rdr = "\<lambda>a :: nat. if a = 0 then r0 else if a = 1 then r1 else if a = 2 then r2 else r3"
  have "written_group demo_kernels demo_read (time_group [9, 5]) B0 (?rdr 0)" "written_group demo_kernels demo_read (time_group [0, 100]) B1 (?rdr 1)"
    "written_group demo_kernels demo_read (time_group [10, 20]) B2 (?rdr 2)" "written_group demo_kernels demo_read (time_group [50, 60]) B3 (?rdr 3)"
    using w by simp_all
  from newest_row_missed [OF this, of "\<lparr>checks = 0, stopped = None, caches = (\<lambda>a. new_cache (?rdr a))\<rparr>"] show ?thesis by (intro exI [of _ ?rdr]) auto
qed

text \<open>The pool under a given schedule of its workers.\<close>

fun pool_sched :: "clock_env \<Rightarrow> ('f, 're) engine \<Rightarrow> (nat \<Rightarrow> Reader) \<Rightarrow> ('f, 're) Query \<Rightarrow> run_opts \<Rightarrow> nat list \<Rightarrow> nat list \<Rightarrow> pool \<Rightarrow> pool option" where
  "pool_sched env E rdr q o' as [] p = Some p"
| "pool_sched env E rdr q o' as (w # ws) p = (if w < length (crew p) then do { p' \<leftarrow> pool_do env E rdr q o' as w p; pool_sched env E rdr q o' as ws p' } else None)"

lemma pool_sched_reach:
  "pool_reach env E rdr q o' as workers st p \<Longrightarrow> pool_sched env E rdr q o' as ws p = Some p' \<Longrightarrow> pool_reach env E rdr q o' as workers st p'"
  by (induction ws arbitrary: p) (auto split: if_splits Option.bind_splits intro: pool_reach.step)

definition cap_opts :: run_opts where
  "cap_opts = \<lparr>Limit = 0, LastN = 0, RowMax = 1, MaxBytes = 0, maxMemory = 0, maxGroups = 0, Materialize = [], MatAll = False, MatCols = False\<rparr>"

text \<open>C39: The row ceiling is not enforced on the worker pool.  The pool looks at the ceiling only before a group is scanned; when every
  worker passes the test before any has finished, the run delivers more rows than the ceiling allows and records no stop, while the serial
  walk over the same groups records that the ceiling was exceeded.  Four groups of two rows, four workers and a ceiling of one row show it.\<close>

theorem row_ceiling_not_enforced:
  assumes "\<forall>a < 4. \<exists>B. written_group demo_kernels demo_read (time_group [5, 9]) B (rdr a)"
    and "stopped st = None" and "\<forall>a. caches st a = new_cache (rdr a)"
  shows "(\<exists>rows st'. run_serial (\<lambda>_. None) demo_engine rdr all_query cap_opts [0, 1, 2, 3] [] 0 st = Some (rows, st') \<and> stopped st' = Some (ErrRowLimit 1))
    \<and> (\<exists>rows st'. runParallel (\<lambda>_. None) demo_engine rdr all_query cap_opts [0, 1, 2, 3] 4 st (rows, st') \<and> length rows = 8 \<and> stopped st' = None)"
proof -
  have win: "\<forall>t \<in> set [5, 9 :: u64]. in_window 0 1000 t" by (simp add: in_window_def)
  have o': "Materialize cap_opts = []" "\<not> MatAll cap_opts" "\<not> MatCols cap_opts" "Limit cap_opts = 0" "LastN cap_opts = 0" "RowMax cap_opts = 1"
    "MaxBytes cap_opts = 0" "maxMemory cap_opts = 0" by (simp_all add: cap_opts_def)
  have keep: "keep_rows cap_opts n rows = rows" for n rows by (simp add: keep_rows_def cap_opts_def)
  have ex: "exceeded (\<lambda>_. None) cap_opts n x = (False, x\<lparr>checks := Suc (checks x)\<rparr>)" for n x by (simp add: exceeded_def o')
  let ?rows = "[time_row 5, time_row 9]"
  have "\<exists>c'. append_group demo_engine rdr all_query cap_opts a [] x = Some (?rows, x\<lparr>caches := (caches x)(a := c')\<rparr>)"
    if "a < 4" "caches x a = new_cache (rdr a)" for a x
  proof -
    obtain B where w: "written_group demo_kernels demo_read (time_group [5, 9]) B (rdr a)" using assms(1) \<open>a < 4\<close> by blast
    have "cache_coherent demo_read (rdr a) (caches x a)" using that(2) new_cache_coherent by simp
    from time_group_rows [where rdr = rdr and out = "[]", OF w this win o'(1-3)] show ?thesis by (auto simp: keep)
  qed
  then have "\<forall>a < 4. \<exists>c'. appendMatches ref_simd demo_golib demo_read (\<lambda>_. [[108]]) (\<lambda>t. [ucast t]) [] (rdr a) all_query cap_opts [] (new_cache (rdr a)) = Some (?rows, c')"
    using assms(3) by (fastforce simp: append_group_def demo_engine_def split: Option.bind_splits)
  then obtain c' where c': "\<forall>a < 4. appendMatches ref_simd demo_golib demo_read (\<lambda>_. [[108]]) (\<lambda>t. [ucast t]) [] (rdr a) all_query cap_opts [] (new_cache (rdr a)) = Some (?rows, c' a)"
    by metis
  have ap: "append_group demo_engine rdr all_query cap_opts a [] x = Some (?rows, x\<lparr>caches := (caches x)(a := c' a)\<rparr>)"
    if "a < 4" "caches x a = new_cache (rdr a)" for a x
    using c' that by (simp add: append_group_def demo_engine_def)
  have "run_serial (\<lambda>_. None) demo_engine rdr all_query cap_opts [0, 1, 2, 3] [] 0 st
    = Some (?rows, stop (ErrRowLimit 1) (st\<lparr>caches := (caches st)(0 := c' 0)\<rparr>))"
    using ap [of 0 st] assms(3) by (simp add: o')
  moreover have "stopped (stop (ErrRowLimit 1) (st\<lparr>caches := (caches st)(0 := c' 0)\<rparr>)) = Some (ErrRowLimit 1)" using assms(2) by (simp add: stop_def)
  moreover have "\<exists>p. pool_sched (\<lambda>_. None) demo_engine rdr all_query cap_opts [0, 1, 2, 3] (concat (replicate 7 [0, 1, 2, 3])) (pool_start [0, 1, 2, 3] 4 st) = Some p
      \<and> pool_done p \<and> length (concat (parts p)) = 8 \<and> stopped (run p) = None"
    using assms(2,3)
    by (simp add: numeral_eq_Suc pool_start_def pool_do_def ex ap o' upt_rec pool_done_def rows_bytes_def countsBytes_def)
  ultimately show ?thesis
    using pool_sched_reach [OF pool_reach.start] by (fastforce simp: runParallel_def)
qed

theorem row_ceiling_not_enforced_witness:
  "\<exists>rdr rows st'. runParallel (\<lambda>_. None) demo_engine rdr all_query cap_opts [0, 1, 2, 3] 4
     \<lparr>checks = 0, stopped = None, caches = (\<lambda>a. new_cache (rdr a))\<rparr> (rows, st') \<and> length rows = 8 \<and> stopped st' = None"
proof -
  obtain B r where "written_group demo_kernels demo_read (time_group [5, 9]) B r" using time_group_written [of "[5, 9]"] by auto
  then have "\<forall>a < 4. \<exists>B. written_group demo_kernels demo_read (time_group [5, 9]) B ((\<lambda>_ :: nat. r) a)" by blast
  from row_ceiling_not_enforced [OF this, of "\<lparr>checks = 0, stopped = None, caches = (\<lambda>_. new_cache r)\<rparr>"] show ?thesis
    by (intro exI [of _ "\<lambda>_. r"]) auto
qed

end
