(* ===== verification/Paging.thy ===== *)
theory Paging
  imports Runs
begin

text \<open>
  Paged reads, \<^verbatim>\<open>internal/query/order.go\<close>: the key of a row, its total order, and \<^verbatim>\<open>ScanPage\<close>, which returns the rows after a
  given key.  Keys are an instance of the library's linear orders.  The order in which \<^verbatim>\<open>sort.Slice\<close> leaves rows that compare equal
  is an argument.
\<close>

section \<open>Row keys\<close>

datatype RowKey = RowKey (key_time: u64) (key_group: u64) (key_row: u32)

definition Before :: "RowKey \<Rightarrow> RowKey \<Rightarrow> bool" where
  "Before a b = (if key_time a \<noteq> key_time b then sint (key_time a) < sint (key_time b)
     else if key_group a \<noteq> key_group b then key_group a < key_group b
     else key_row a < key_row b)"

definition after :: "RowKey \<Rightarrow> RowKey \<Rightarrow> bool" where
  "after a b = Before b a"

lemma sint_total: "(x :: u64) \<noteq> y \<Longrightarrow> sint x < sint y \<or> sint y < sint x"
  using signed_word_eqI [of x y] by (meson linorder_neqE)

instantiation RowKey :: linorder
begin

definition less_RowKey :: "RowKey \<Rightarrow> RowKey \<Rightarrow> bool" where
  "less_RowKey = Before"

definition less_eq_RowKey :: "RowKey \<Rightarrow> RowKey \<Rightarrow> bool" where
  "less_eq_RowKey a b \<longleftrightarrow> a = b \<or> Before a b"

instance
proof
  fix x y z :: RowKey
  show "(x < y) = (x \<le> y \<and> \<not> y \<le> x)" by (auto simp: less_RowKey_def less_eq_RowKey_def Before_def split: if_splits)
  show "x \<le> x" by (simp add: less_eq_RowKey_def)
  show "x \<le> y \<Longrightarrow> y \<le> z \<Longrightarrow> x \<le> z" by (auto simp: less_eq_RowKey_def Before_def split: if_splits)
  show "x \<le> y \<Longrightarrow> y \<le> x \<Longrightarrow> x = y" by (auto simp: less_eq_RowKey_def Before_def split: if_splits)
  show "x \<le> y \<or> y \<le> x"
    using sint_total [of "key_time x" "key_time y"] linorder_less_linear [of "key_group x" "key_group y"] linorder_less_linear [of "key_row x" "key_row y"]
    by (auto simp: less_eq_RowKey_def Before_def intro: RowKey.expand)
qed

end

datatype Direction = Oldest | Newest

text \<open>The order of a direction: which of two keys a page lists first.\<close>

definition ahead :: "Direction \<Rightarrow> RowKey \<Rightarrow> RowKey \<Rightarrow> bool" where
  "ahead dir a b = (if dir = Newest then Before b a else Before a b)"

section \<open>A page\<close>

record Page =
  page_rows :: "Row list"
  page_keys :: "RowKey list"
  next_key :: RowKey
  page_more :: bool

definition Streamable :: "('f, 're) Query \<Rightarrow> run_opts \<Rightarrow> bool" where
  "Streamable q o' \<longleftrightarrow> Pipes q = [] \<and> LastN o' = 0 \<and> RowMax o' = 0"

type_synonym keyedRow = "Row \<times> RowKey"

definition matchedRowIndices :: "('f, 're) engine \<Rightarrow> Reader \<Rightarrow> ('f, 're) Query \<Rightarrow> idx_cache \<Rightarrow> (u32 list \<times> idx_cache) option" where
  "matchedRowIndices E r q c = do { (sel, c') \<leftarrow> matchBitset (en_simd E) (en_lib E) (en_read E) r q c; Some (map of_nat (ForEach sel), c') }"

text \<open>The rows of one group with their keys, those the page may hold.\<close>

definition key_rows :: "u64 \<Rightarrow> u32 list \<Rightarrow> Row list \<Rightarrow> keyedRow list" where
  "key_rows gid idx rows = map (\<lambda>(i, r). (r, RowKey (Time r) gid (if i < length idx then idx ! i else of_nat i))) (enumerate 0 rows)"

definition wanted :: "RowKey option \<Rightarrow> Direction \<Rightarrow> keyedRow \<Rightarrow> bool" where
  "wanted aft dir kr = (case aft of None \<Rightarrow> True
     | Some k \<Rightarrow> \<not> (dir = Newest \<and> \<not> Before (snd kr) k) \<and> \<not> (dir = Oldest \<and> \<not> after (snd kr) k))"

text \<open>The loop over the groups of the snapshot, \<open>i\<close> the position of the head; an inner \<open>Inl\<close> is the early return.\<close>

fun page_scan :: "clock_env \<Rightarrow> ('f, 're) engine \<Rightarrow> (nat \<Rightarrow> Reader) \<Rightarrow> u64 list \<Rightarrow> ('f, 're) Query \<Rightarrow> run_opts \<Rightarrow> RowKey option \<Rightarrow> Direction
    \<Rightarrow> nat \<Rightarrow> nat list \<Rightarrow> keyedRow list \<Rightarrow> run_state \<Rightarrow> ((stop_reason + keyedRow list) \<times> run_state) option" where
  "page_scan env E rdr ids q o' aft dir i [] found st = Some (Inr found, st)"
| "page_scan env E rdr ids q o' aft dir i (a # as) found st = (case exceeded env o' 0 st of
     (True, st') \<Rightarrow> Some (Inr found, st')
   | (False, st') \<Rightarrow> do {
       x \<leftarrow> groupCanMatch (en_lib E) (en_read E) (rdr a) q;
       if \<not> x then page_scan env E rdr ids q o' aft dir (i + 1) as found st' else do {
         let gid = (if i < length ids then ids ! i else of_nat i);
         (rows, st1) \<leftarrow> append_group E rdr q o' a [] st';
         (idx, c) \<leftarrow> matchedRowIndices E (rdr a) q (caches st1 a);
         let st2 = st1\<lparr>caches := (caches st1)(a := c)\<rparr>;
         let found' = found @ filter (wanted aft dir) (key_rows gid idx rows);
         if RowMax o' > 0 \<and> int (length found') > RowMax o'
         then (let e = ErrRowLimit (RowMax o') in Some (Inl (case stopped st2 of Some e' \<Rightarrow> e' | None \<Rightarrow> e), stop e st2))
         else page_scan env E rdr ids q o' aft dir (i + 1) as found' st2
       }
     })"

definition make_page :: "(Direction \<Rightarrow> keyedRow list \<Rightarrow> keyedRow list) \<Rightarrow> Direction \<Rightarrow> int \<Rightarrow> keyedRow list \<Rightarrow> Page" where
  "make_page srt dir limit found = (let all = srt dir found; cut = (int (length all) > limit); kept = (if cut then take (nat limit) all else all) in
     \<lparr>page_rows = map fst kept, page_keys = map snd kept,
      next_key = (if cut \<and> kept \<noteq> [] then snd (last kept) else RowKey 0 0 0), page_more = cut\<rparr>)"

definition ScanPage :: "clock_env \<Rightarrow> u64 \<Rightarrow> ('f, 're) engine \<Rightarrow> (Direction \<Rightarrow> keyedRow list \<Rightarrow> keyedRow list) \<Rightarrow> Store \<Rightarrow> ('f, 're) Query \<Rightarrow> run_opts
    \<Rightarrow> RowKey option \<Rightarrow> Direction \<Rightarrow> int \<Rightarrow> run_state \<Rightarrow> ((stop_reason + Page) \<times> run_state \<times> Store) option" where
  "ScanPage env clock E srt s q o' aft dir limit st = (
     if limit \<le> 0 then Some (Inl ErrRejected, st, s)
     else if \<not> Streamable q o' then Some (Inl ErrRejected, st, s)
     else let q' = resolveTimePreds clock q; (sn, s1) = snapshotOf (From q') (To q') s; s2 = snd (snap_Close sn s1) in do {
       (res, st') \<leftarrow> page_scan env E (\<lambda>a. reader (entry_at s1 a)) (snap_GroupIDs s1 sn) q' o' aft dir 0 (snap_entries sn) [] st;
       Some (case res of
           Inl e \<Rightarrow> Inl e
         | Inr found \<Rightarrow> (case stopped st' of Some e \<Rightarrow> Inl e | None \<Rightarrow> Inr (make_page srt dir limit found)), st', s2)
     })"

section \<open>One page\<close>

lemma ahead_order:
  "ahead dir a b \<Longrightarrow> ahead dir b c \<Longrightarrow> ahead dir a c" "\<not> ahead dir a a" "a \<noteq> b \<Longrightarrow> ahead dir a b \<or> ahead dir b a"
  unfolding ahead_def less_RowKey_def [symmetric] by auto

lemma wanted_ahead: "wanted aft dir kr \<longleftrightarrow> (\<forall>k. aft = Some k \<longrightarrow> ahead dir k (snd kr))"
  by (cases aft; cases dir) (simp_all add: wanted_def ahead_def after_def)

definition page_sort :: "(Direction \<Rightarrow> keyedRow list \<Rightarrow> keyedRow list) \<Rightarrow> bool" where
  "page_sort srt \<longleftrightarrow> (\<forall>dir xs. mset (srt dir xs) = mset xs \<and> sorted_wrt (\<lambda>a b. \<not> ahead dir (snd b) (snd a)) (srt dir xs))"

text \<open>Distinct keys are listed in strict order.\<close>

lemma page_sorted:
  assumes "page_sort srt" and "distinct (map snd xs)"
  shows "sorted_wrt (ahead dir) (map snd (srt dir xs))" and "set (srt dir xs) = set xs"
proof -
  have m: "mset (srt dir xs) = mset xs" "sorted_wrt (\<lambda>a b. \<not> ahead dir (snd b) (snd a)) (srt dir xs)" using assms(1) by (simp_all add: page_sort_def)
  show "set (srt dir xs) = set xs" using m(1) by (metis set_mset_mset)
  have "mset (map snd (srt dir xs)) = mset (map snd xs)" using m(1) by simp
  then have "distinct (map snd (srt dir xs))" using assms(2) by (metis distinct_count_atmost_1 mset_eq_setD)
  then have d: "snd (srt dir xs ! i) \<noteq> snd (srt dir xs ! j)" if "i < j" "j < length (srt dir xs)" for i j
    using that by (simp add: distinct_conv_nth)
  show "sorted_wrt (ahead dir) (map snd (srt dir xs))"
    unfolding sorted_wrt_iff_nth_less
  proof (intro allI impI)
    fix i j assume "i < j" "j < length (map snd (srt dir xs))"
    then show "ahead dir (map snd (srt dir xs) ! i) (map snd (srt dir xs) ! j)"
      using d [of i j] ahead_order(3) [of "snd (srt dir xs ! i)" "snd (srt dir xs ! j)" dir] m(2) by (simp add: sorted_wrt_iff_nth_less)
  qed
qed

locale keyed_scan = group_scan +
  fixes gid :: "nat \<Rightarrow> u64"
  assumes lists: "a \<in> A \<Longrightarrow> cache_coherent (en_read E) (rdr a) c \<Longrightarrow>
      \<exists>sel c'. matchBitset (en_simd E) (en_lib E) (en_read E) (rdr a) q c = Some (sel, c') \<and> ForEach sel = hit a \<and> cache_coherent (en_read E) (rdr a) c'"
begin

definition keyed :: "nat \<Rightarrow> keyedRow list" where
  "keyed a = map (\<lambda>i. (row_at a i, RowKey (Time (row_at a i)) (gid a) (of_nat i))) (hit a)"

lemma key_rows_keyed: "key_rows (gid a) (map of_nat (hit a)) (map (row_at a) (hit a)) = keyed a"
  by (rule nth_equalityI) (simp_all add: key_rows_def keyed_def nth_enumerate_eq)

lemma page_scan_ok:
  assumes "set as \<subseteq> A" and "good st" and unb: "Limit o' \<le> 0" "LastN o' \<le> 0" "RowMax o' \<le> 0"
  shows "\<exists>res st'. page_scan env E rdr (pre @ map gid as) q o' aft dir (length pre) as found st = Some (res, st') \<and> good st'
    \<and> (stopped st \<noteq> None \<longrightarrow> stopped st' \<noteq> None) \<and> (\<exists>more. res = Inr more)
    \<and> (stopped st' = None \<longrightarrow> res = Inr (found @ filter (wanted aft dir) (concat (map keyed as))))"
  using assms(1,2)
proof (induction as arbitrary: pre found st)
  case (Cons a as)
  obtain b st1 where ex: "exceeded env o' 0 st = (b, st1)" by (cases "exceeded env o' 0 st")
  note ef = exceeded_facts [OF ex] and g1 = good_exceeded [OF ex]
  have a: "a \<in> A" "set as \<subseteq> A" using Cons.prems(1) by auto
  show ?case
  proof (cases b)
    case True
    then show ?thesis using ex ef(2) g1 Cons.prems(2) by auto
  next
    case nb: False
    have st1: "good st1" "stopped st1 = stopped st" using g1 Cons.prems(2) ef(3) nb by auto
    have idx: "length (pre @ [gid a]) = length pre + 1" "pre @ map gid (a # as) = (pre @ [gid a]) @ map gid as"
      "(pre @ map gid (a # as)) ! length pre = gid a" "length pre < length (pre @ map gid (a # as))" by simp_all
    obtain x where x: "groupCanMatch (en_lib E) (en_read E) (rdr a) q = Some x" "\<not> x \<longrightarrow> hit a = []" using skips [OF a(1)] by blast
    show ?thesis
    proof (cases x)
      case False
      have "keyed a = []" using x(2) False by (simp add: keyed_def)
      then show ?thesis using Cons.IH [of st1 "pre @ [gid a]" found] a(2) st1 ex nb x(1) False idx by simp
    next
      case True
      obtain st2 where st2: "append_group E rdr q o' a [] st1 = Some (map (row_at a) (hit a), st2)" "good st2" "stopped st2 = stopped st1"
        using append_group_ok [OF a(1) st1(1), of "[]"] keep_unbounded [OF unb(1,2)] by auto
      obtain sel c where c: "matchBitset (en_simd E) (en_lib E) (en_read E) (rdr a) q (caches st2 a) = Some (sel, c)" "ForEach sel = hit a"
        "cache_coherent (en_read E) (rdr a) c" using lists [OF a(1), of "caches st2 a"] st2(2) a(1) by (auto simp: good_def)
      let ?st = "st2\<lparr>caches := (caches st2)(a := c)\<rparr>" and ?found = "found @ filter (wanted aft dir) (keyed a)"
      have "good ?st" using st2(2) c(3) by (auto simp: good_def)
      from Cons.IH [OF a(2) this, of "pre @ [gid a]" ?found]
      obtain res st' where r: "page_scan env E rdr ((pre @ [gid a]) @ map gid as) q o' aft dir (length (pre @ [gid a])) as ?found ?st = Some (res, st')" "good st'"
        "stopped ?st \<noteq> None \<longrightarrow> stopped st' \<noteq> None" "\<exists>more. res = Inr more"
        "stopped st' = None \<longrightarrow> res = Inr (?found @ filter (wanted aft dir) (concat (map keyed as)))" by auto
      have "page_scan env E rdr (pre @ map gid (a # as)) q o' aft dir (length pre) (a # as) found st = Some (res, st')"
        using ex nb x(1) True st2(1) c(1,2) r(1) unb(3) key_rows_keyed [of a] idx by (simp add: matchedRowIndices_def)
      then show ?thesis using r(2-5) st2(3) st1(2) by auto
    qed
  qed
qed auto

end

section \<open>Pages of a store\<close>

definition keyed_row :: "('f, 're) engine \<Rightarrow> ('f, 're) Query \<Rightarrow> run_opts \<Rightarrow> (u64 \<Rightarrow> Group) \<Rightarrow> u64 \<Rightarrow> nat \<Rightarrow> keyedRow" where
  "keyed_row E q o' gs i j = (output_row (en_fmt E) (gs i) (out_fields (en_ord E) (map ColName (Columns (gs i))) q o') j,
     RowKey (group_times (gs i) ! j) i (of_nat j))"

text \<open>Every matching row of the committed groups, with its key.\<close>

definition store_keys :: "('f, 're) engine \<Rightarrow> (u64 \<Rightarrow> Group) \<Rightarrow> ('f, 're) Query \<Rightarrow> run_opts \<Rightarrow> Store \<Rightarrow> keyedRow list" where
  "store_keys E gs q o' s = concat (map (\<lambda>i. map (keyed_row E q o' gs i) (matching (en_lib E) q (gs i))) (ids_of s))"

lemma stored_keyed:
  assumes "simd_ok (en_simd E)" and "stored K (en_read E) gs s" and "\<And>a. a \<in> set (groups s) \<Longrightarrow> rdr a = reader (entries s ! a)"
  shows "keyed_scan E rdr q o' (set (groups s)) (entry_hits E q gs s) (entry_row E q o' gs s)"
proof (rule keyed_scan.intro [OF stored_scan [OF assms]], unfold_locales)
  fix a c assume a: "a \<in> set (groups s)" "cache_coherent (en_read E) (rdr a) c"
  obtain B where w: "written_group K (en_read E) (gs (ge_id (entries s ! a))) B (rdr a)" using assms(2,3) a(1) by (auto simp: stored_def)
  from written_group.scanned_rows [OF w assms(1) a(2), of "en_lib E" q]
  show "\<exists>sel c'. matchBitset (en_simd E) (en_lib E) (en_read E) (rdr a) q c = Some (sel, c') \<and> ForEach sel = entry_hits E q gs s a \<and> cache_coherent (en_read E) (rdr a) c'"
    by (auto simp: entry_hits_def matching_def)
qed

sublocale stored_run \<subseteq> keyed_scan E "\<lambda>a. reader (entries s ! a)" q o' "set (groups s)" "entry_hits E q gs s" "entry_row E q o' gs s"
    "\<lambda>a. ge_id (entries s ! a)"
  by (rule stored_keyed [OF run_host run_groups refl])

lemma store_keys_distinct:
  assumes "stored K R gs s" and "index_ok s"
  shows "distinct (map snd (store_keys E gs q o' s))"
proof -
  have rows: "GRows (gs i) < 2 ^ 32" if "i \<in> set (ids_of s)" for i
  proof -
    obtain a where a: "a \<in> set (groups s)" "ge_id (entries s ! a) = i" using \<open>i \<in> set (ids_of s)\<close> by (auto simp: ids_of_def)
    then obtain B where w: "written_group K R (gs i) B (reader (entries s ! a))" using assms(1) by (auto simp: stored_def)
    show ?thesis using written_group.rows_le [OF w] by (simp add: MaxRows_def)
  qed
  have "distinct (concat (map (\<lambda>i. map (\<lambda>j. RowKey (group_times (gs i) ! j) i (of_nat j)) (matching (en_lib E) q (gs i))) is))"
    if "distinct is" "set is \<subseteq> set (ids_of s)" for "is"
    using that
  proof (induction "is")
    case (Cons i "is")
    have "inj_on (\<lambda>j. RowKey (group_times (gs i) ! j) i (of_nat j)) (set (matching (en_lib E) q (gs i)))"
    proof (rule inj_onI)
      fix x y assume xy: "x \<in> set (matching (en_lib E) q (gs i))" "y \<in> set (matching (en_lib E) q (gs i))"
        "RowKey (group_times (gs i) ! x) i (of_nat x) = RowKey (group_times (gs i) ! y) i (of_nat y)"
      then have "x < 2 ^ 32" "y < 2 ^ 32" "unat (of_nat x :: u32) = unat (of_nat y :: u32)" using rows [of i] Cons.prems(2) by (auto simp: matching_def)
      then show "x = y" by (simp add: unat_of_nat)
    qed
    then have "distinct (map (\<lambda>j. RowKey (group_times (gs i) ! j) i (of_nat j)) (matching (en_lib E) q (gs i)))"
      by (simp add: distinct_map matching_def)
    then show ?case using Cons by auto
  qed simp
  from this [of "ids_of s"] show ?thesis using assms(2) by (simp add: store_keys_def map_concat o_def keyed_row_def index_ok_def)
qed

text \<open>Groups outside the window have no keyed rows, and a snapshot keeps the ids of its groups.\<close>

lemma windowed_keys:
  assumes "stored K R gs s" and sn: "as = filter (\<lambda>a. TimeRangeMatches (reader (entries s ! a)) (From q) (To q)) (groups s)"
  shows "concat (map (\<lambda>a. map (\<lambda>i. (entry_row E q o' gs s a i, RowKey (Time (entry_row E q o' gs s a i)) (ge_id (entries s ! a)) (of_nat i))) (entry_hits E q gs s a)) as)
    = store_keys E gs q o' s"
proof -
  have "concat (map f (filter P xs)) = concat (map f xs)" if "\<And>a. a \<in> set xs \<Longrightarrow> \<not> P a \<Longrightarrow> f a = []" for f :: "nat \<Rightarrow> keyedRow list" and P xs
    using that by (induction xs) auto
  moreover have "entry_hits E q gs s a = []" if "a \<in> set (groups s)" "\<not> TimeRangeMatches (reader (entries s ! a)) (From q) (To q)" for a
    using assms(1) that outside_window by (fastforce simp: stored_def entry_hits_def)
  ultimately have "concat (map (\<lambda>a. map (\<lambda>i. (entry_row E q o' gs s a i, RowKey (Time (entry_row E q o' gs s a i)) (ge_id (entries s ! a)) (of_nat i))) (entry_hits E q gs s a)) as)
    = concat (map (\<lambda>a. map (\<lambda>i. (entry_row E q o' gs s a i, RowKey (Time (entry_row E q o' gs s a i)) (ge_id (entries s ! a)) (of_nat i))) (entry_hits E q gs s a)) (groups s))"
    by (simp add: sn)
  moreover have "(entry_row E q o' gs s a i, RowKey (Time (entry_row E q o' gs s a i)) (ge_id (entries s ! a)) (of_nat i)) = keyed_row E q o' gs (ge_id (entries s ! a)) i" for a i
    by (simp add: keyed_row_def entry_row_def output_row_def Let_def)
  ultimately show ?thesis by (simp add: store_keys_def ids_of_def o_def entry_hits_def)
qed

lemma run_ids:
  assumes "heap_ok s sns" and "index_ok s" and "\<not> closed s" and "snapshotOf f t s = (sn, s1)" and "a \<in> set (groups s)"
  shows "ge_id (entry_at s1 a) = ge_id (entries s ! a)"
proof -
  have "take_snapshot (\<lambda>e. TimeRangeMatches (reader e) f t) s = (Inr sn, s1)" using run_view(3) [OF assms(1-4)] by (simp add: SnapshotOf_def)
  then obtain En where En: "s1 = s\<lparr>entries := En\<rparr>" "length En = length (entries s)" "\<forall>a < length En. same_entry (entries s ! a) (En ! a)"
    using snapshot_inv(4) [OF assms(1,2)] by blast
  have "a < length En" using assms(2,5) En(2) by (auto simp: index_ok_def)
  then show ?thesis using En(1,3) by (simp add: entry_at_def same_entry_def)
qed

lemma ScanPage_ok:
  assumes "simd_ok (en_simd E)" and "heap_ok s sns" and "index_ok s" and "\<not> closed s" and st: "stored K (en_read E) gs s"
    and "caches_ok (en_read E) s rst" and "Limit o' \<le> 0" and "Streamable q o'" and "0 < limit" and "resolveTimePreds clock q = q"
  shows "\<exists>res st' s'. ScanPage env clock E srt s q o' aft dir limit rst = Some (res, st', s')
    \<and> (\<forall>e. stopped st' = Some e \<longrightarrow> res = Inl e)
    \<and> (stopped st' = None \<longrightarrow> res = Inr (make_page srt dir limit (filter (wanted aft dir) (store_keys E gs q o' s))))"
proof -
  obtain sn s1 where sn: "snapshotOf (From q) (To q) s = (sn, s1)" by (cases "snapshotOf (From q) (To q) s")
  let ?rdr = "\<lambda>a. reader (entry_at s1 a)" and ?gid = "\<lambda>a. ge_id (entries s ! a)"
  note view = run_view [OF assms(2-4) sn]
  have rd: "?rdr a = reader (entries s ! a)" if "a \<in> set (groups s)" for a using view(2) [OF that] by simp
  note ks = stored_keyed [OF assms(1) st rd, where q = q and o' = o']
  have sub: "set (snap_entries sn) \<subseteq> set (groups s)" using view(1) by auto
  have ids: "snap_GroupIDs s1 sn = map ?gid (snap_entries sn)"
    using run_ids [OF assms(2-4) sn] sub by (auto simp: snap_GroupIDs_def)
  have good: "group_scan.good E ?rdr (set (groups s)) rst"
    using run_scan(2) [OF assms(1-4) st assms(6) sn] .
  have o': "LastN o' \<le> 0" "RowMax o' \<le> 0" using assms(8) by (simp_all add: Streamable_def)
  from keyed_scan.page_scan_ok [OF ks sub good assms(7) o', where env = env and pre = "[]" and gid = ?gid and aft = aft and dir = dir and found = "[]"]
  obtain found st' where r: "page_scan env E ?rdr (snap_GroupIDs s1 sn) q o' aft dir 0 (snap_entries sn) [] rst = Some (Inr found, st')"
    "stopped st' = None \<longrightarrow> found = filter (wanted aft dir) (concat (map (keyed_scan.keyed (entry_hits E q gs s) (entry_row E q o' gs s) ?gid) (snap_entries sn)))"
    unfolding ids by auto
  have keyed: "keyed_scan.keyed (entry_hits E q gs s) (entry_row E q o' gs s) ?gid
      = (\<lambda>a. map (\<lambda>i. (entry_row E q o' gs s a i, RowKey (Time (entry_row E q o' gs s a i)) (?gid a) (of_nat i))) (entry_hits E q gs s a))"
    by (rule ext) (rule keyed_scan.keyed_def [OF ks])
  have all: "concat (map (keyed_scan.keyed (entry_hits E q gs s) (entry_row E q o' gs s) ?gid) (snap_entries sn)) = store_keys E gs q o' s"
    unfolding keyed by (rule windowed_keys [OF st view(1)])
  have sp: "ScanPage env clock E srt s q o' aft dir limit rst = Some (case stopped st' of Some e \<Rightarrow> Inl e | None \<Rightarrow> Inr (make_page srt dir limit found), st', snd (snap_Close sn s1))"
    using assms(8-10) sn r(1) by (simp add: ScanPage_def Let_def)
  show ?thesis unfolding sp using r(2) all by auto
qed

text \<open>A page is the head of the sorted candidates, and its cursor separates it from the rest.\<close>

lemma make_page_facts:
  assumes "page_sort srt" and "distinct (map snd found)" and "0 < limit" and p: "p = make_page srt dir limit found"
  shows "sorted_wrt (ahead dir) (page_keys p)" and "length (page_rows p) = length (page_keys p)" and "set (zip (page_rows p) (page_keys p)) \<subseteq> set found"
    and "\<not> page_more p \<Longrightarrow> set (zip (page_rows p) (page_keys p)) = set found"
    and "page_more p \<Longrightarrow> int (length (page_keys p)) = limit"
    and "page_more p \<Longrightarrow> next_key p \<in> set (page_keys p)"
    and "page_more p \<Longrightarrow> k \<in> set (page_keys p) \<Longrightarrow> k = next_key p \<or> ahead dir k (next_key p)"
    and "page_more p \<Longrightarrow> x \<in> set found \<Longrightarrow> x \<in> set (zip (page_rows p) (page_keys p)) \<or> ahead dir (next_key p) (snd x)"
proof -
  let ?all = "srt dir found" and ?n = "nat limit"
  note so = page_sorted [OF assms(1,2), of dir]
  define kept where "kept = (if int (length ?all) > limit then take ?n ?all else ?all)"
  have z: "zip (page_rows p) (page_keys p) = kept" "page_keys p = map snd kept" "page_rows p = map fst kept" "page_more p = (int (length ?all) > limit)"
    using p by (simp_all add: make_page_def kept_def Let_def zip_map_fst_snd)
  show "sorted_wrt (ahead dir) (page_keys p)"
    unfolding z(2) kept_def using so(1) by (cases "int (length ?all) > limit") (simp_all add: take_map [symmetric] sorted_wrt_take)
  show "length (page_rows p) = length (page_keys p)" by (simp add: z)
  show "set (zip (page_rows p) (page_keys p)) \<subseteq> set found" unfolding z(1) kept_def using so(2) by (auto dest: in_set_takeD)
  show "set (zip (page_rows p) (page_keys p)) = set found" if "\<not> page_more p" unfolding z(1) kept_def using so(2) that z(4) by simp
  assume m: "page_more p"
  have k: "kept = take ?n ?all" "length kept = ?n" "?n < length ?all" "kept \<noteq> []"
    using m z(4) assms(3) by (auto simp: kept_def)
  have nk: "next_key p = snd (last kept)" using p m k(1,4) by (simp add: make_page_def Let_def z(4))
  show "int (length (page_keys p)) = limit" using k(2) assms(3) by (simp add: z(2))
  show "next_key p \<in> set (page_keys p)" using nk k(4) by (simp add: z(2))
  have nth: "next_key p = map snd ?all ! (?n - 1)" using nk k assms(3) by (simp add: last_conv_nth)
  have ord: "ahead dir (map snd ?all ! i) (map snd ?all ! j)" if "i < j" "j < length ?all" for i j
    using so(1) that by (simp add: sorted_wrt_iff_nth_less)
  show "k = next_key p \<or> ahead dir k (next_key p)" if kp: "k \<in> set (page_keys p)"
  proof -
    obtain i where i: "i < ?n" "k = map snd ?all ! i" using kp k by (auto simp: z(2) in_set_conv_nth)
    then show ?thesis using ord [of i "?n - 1"] k(3) nth by (cases "i = ?n - 1") auto
  qed
  show "x \<in> set (zip (page_rows p) (page_keys p)) \<or> ahead dir (next_key p) (snd x)" if "x \<in> set found"
  proof -
    have "x \<in> set ?all" using \<open>x \<in> set found\<close> so(2) by simp
    then obtain i where i: "i < length ?all" "x = ?all ! i" by (auto simp: in_set_conv_nth)
    show ?thesis
    proof (cases "i < ?n")
      case True
      then show ?thesis using i k by (auto simp: z(1) in_set_conv_nth)
    next
      case False
      then have "ahead dir (next_key p) (map snd ?all ! i)" unfolding nth using ord [of "?n - 1" i] i(1) assms(3) by simp
      then show ?thesis using i by simp
    qed
  qed
qed

section \<open>Reading page after page\<close>

text \<open>One request of a caller: the clock, the context, the run state and the store it meets.\<close>

record request =
  rq_clock :: u64
  rq_env :: clock_env
  rq_state :: run_state
  rq_store :: Store

definition ask :: "('f, 're) engine \<Rightarrow> (Direction \<Rightarrow> keyedRow list \<Rightarrow> keyedRow list) \<Rightarrow> ('f, 're) Query \<Rightarrow> run_opts \<Rightarrow> Direction \<Rightarrow> int \<Rightarrow> RowKey option \<Rightarrow> request
    \<Rightarrow> ((stop_reason + Page) \<times> run_state \<times> Store) option" where
  "ask E srt q o' dir limit aft rq = ScanPage (rq_env rq) (rq_clock rq) E srt (rq_store rq) q o' aft dir limit (rq_state rq)"

text \<open>A caller that resumes after the cursor of the page before until a page says there is no more.\<close>

inductive paged :: "('f, 're) engine \<Rightarrow> (Direction \<Rightarrow> keyedRow list \<Rightarrow> keyedRow list) \<Rightarrow> ('f, 're) Query \<Rightarrow> run_opts \<Rightarrow> Direction \<Rightarrow> int \<Rightarrow> RowKey option
    \<Rightarrow> request list \<Rightarrow> Page list \<Rightarrow> bool" for E srt q o' dir limit where
  end_page: "paged E srt q o' dir limit aft [rq] [p]" if "ask E srt q o' dir limit aft rq = Some (Inr p, st', s')" "\<not> page_more p"
| next_page: "paged E srt q o' dir limit aft (rq # rqs) (p # ps)"
    if "ask E srt q o' dir limit aft rq = Some (Inr p, st', s')" "page_more p" "paged E srt q o' dir limit (Some (next_key p)) rqs ps"

inductive_cases paged_ConsE: "paged E srt q o' dir limit aft (rq # rqs) ps"

definition request_ok :: "sorter \<Rightarrow> group_kernels \<Rightarrow> ('f, 're) engine \<Rightarrow> (u64 \<Rightarrow> Group) \<Rightarrow> request \<Rightarrow> bool" where
  "request_ok so K E gs rq \<longleftrightarrow> (\<exists>sns. history K (en_read E) so (rq_store rq, sns)) \<and> \<not> closed (rq_store rq)
     \<and> stored K (en_read E) gs (rq_store rq) \<and> caches_ok (en_read E) (rq_store rq) (rq_state rq)"

lemma page_scan_quiet:
  "quiet env o' \<Longrightarrow> page_scan env E rdr ids q o' aft dir i as found st = Some (res, st') \<Longrightarrow> RowMax o' = 0 \<Longrightarrow> stopped st' = stopped st"
proof (induction as arbitrary: i found st)
  case (Cons a as)
  obtain x where x: "groupCanMatch (en_lib E) (en_read E) (rdr a) q = Some x"
    using Cons.prems(1,2) by (auto simp: exceeded_quiet split: option.splits bind_splits)
  show ?case
  proof (cases x)
    case False
    then show ?thesis using Cons.prems x Cons.IH [OF Cons.prems(1) _ Cons.prems(3)] by (fastforce simp: exceeded_quiet)
  next
    case True
    then show ?thesis using Cons.prems x Cons.IH [OF Cons.prems(1) _ Cons.prems(3)]
      by (auto simp: exceeded_quiet Let_def dest!: append_group_stopped split: bind_splits)
  qed
qed simp

text \<open>What one request of a reachable store returns.\<close>

lemma ask_ok:
  assumes "simd_ok (en_simd E)" and "sorter_ok so" and "page_sort srt" and "Limit o' \<le> 0" and "Streamable q o'" and "0 < limit"
    and "q = resolveTimePreds clock q0" and ok: "request_ok so K E gs rq"
  shows "\<exists>res st' s'. ask E srt q o' dir limit aft rq = Some (res, st', s') \<and> (quiet (rq_env rq) o' \<and> stopped (rq_state rq) = None \<longrightarrow> (\<exists>p. res = Inr p))"
    and "\<And>st1 s1. ask E srt q o' dir limit aft rq = Some (Inr p, st1, s1) \<Longrightarrow> p = make_page srt dir limit (filter (wanted aft dir) (store_keys E gs q o' (rq_store rq)))"
    and "distinct (map snd (store_keys E gs q o' (rq_store rq)))"
proof -
  let ?s = "rq_store rq"
  obtain sns where s: "history K (en_read E) so (?s, sns)" "\<not> closed ?s" "stored K (en_read E) gs ?s" "caches_ok (en_read E) ?s (rq_state rq)"
    using ok by (auto simp: request_ok_def)
  have inv: "heap_ok ?s sns" "index_ok ?s" using history_inv [OF assms(2) s(1)] by simp_all
  have q: "resolveTimePreds (rq_clock rq) q = q" unfolding assms(7) by (rule resolveTimePreds_idem)
  obtain res st' s' where r: "ask E srt q o' dir limit aft rq = Some (res, st', s')" "\<forall>e. stopped st' = Some e \<longrightarrow> res = Inl e"
    "stopped st' = None \<longrightarrow> res = Inr (make_page srt dir limit (filter (wanted aft dir) (store_keys E gs q o' ?s)))"
    using ScanPage_ok [OF assms(1) inv s(2-4) assms(4-6) q, of "rq_env rq" srt aft dir, folded ask_def] by (elim exE conjE) (rule that)
  have "stopped st' = stopped (rq_state rq)" if "quiet (rq_env rq) o'"
    using r(1) assms(5,6) q page_scan_quiet [OF that] by (fastforce simp: ask_def ScanPage_def Let_def Streamable_def split: bind_splits prod.splits)
  then show "\<exists>res st' s'. ask E srt q o' dir limit aft rq = Some (res, st', s') \<and> (quiet (rq_env rq) o' \<and> stopped (rq_state rq) = None \<longrightarrow> (\<exists>p. res = Inr p))"
    using r by auto
  show "p = make_page srt dir limit (filter (wanted aft dir) (store_keys E gs q o' ?s))" if "ask E srt q o' dir limit aft rq = Some (Inr p, st1, s1)" for st1 s1
    using r that by (cases "stopped st'") auto
  show "distinct (map snd (store_keys E gs q o' ?s))" by (rule store_keys_distinct [OF s(3) inv(2)])
qed

text \<open>Pages read from a cursor on: in order, beyond the cursor, of the stores met, and with every row those stores share.\<close>

definition delivered :: "Page list \<Rightarrow> keyedRow list" where
  "delivered ps = concat (map (\<lambda>p. zip (page_rows p) (page_keys p)) ps)"

lemma paged_from:
  assumes "paged E srt q o' dir limit aft rqs ps" and "simd_ok (en_simd E)" and "sorter_ok so" and "page_sort srt" and "Limit o' \<le> 0"
    and "Streamable q o'" and "0 < limit" and "q = resolveTimePreds clock q0" and "\<forall>rq \<in> set rqs. request_ok so K E gs rq"
  shows "sorted_wrt (ahead dir) (map snd (delivered ps)) \<and> (\<forall>x \<in> set (delivered ps). wanted aft dir x)
    \<and> set (delivered ps) \<subseteq> (\<Union>rq \<in> set rqs. set (store_keys E gs q o' (rq_store rq)))
    \<and> {x. \<forall>rq \<in> set rqs. x \<in> set (store_keys E gs q o' (rq_store rq))} \<inter> {x. wanted aft dir x} \<subseteq> set (delivered ps)
    \<and> (length ps - 1) * nat limit \<le> length (delivered ps) \<and> ps \<noteq> []"
  using assms(1,9)
proof (induction rule: paged.induct)
  case (end_page aft rq p st' s')
  have ok: "request_ok so K E gs rq" using end_page.prems by simp
  note ask = ask_ok(2,3) [OF assms(2-8) ok]
  note p = ask(1) [OF end_page.hyps(1)]
  have d: "distinct (map snd (filter (wanted aft dir) (store_keys E gs q o' (rq_store rq))))" using ask(2) by (rule distinct_map_filter)
  note mf = make_page_facts [OF assms(4) d assms(7) p]
  have "map snd (delivered [p]) = page_keys p" "set (delivered [p]) = set (zip (page_rows p) (page_keys p))" using mf(2) by (simp_all add: delivered_def)
  then show ?case using mf(1) mf(4) [OF end_page.hyps(2)] by auto
next
  case (next_page aft rq p st' s' rqs ps)
  have ok: "request_ok so K E gs rq" using next_page.prems by simp
  note ask = ask_ok(2,3) [OF assms(2-8) ok]
  note p = ask(1) [OF next_page.hyps(1)]
  have d: "distinct (map snd (filter (wanted aft dir) (store_keys E gs q o' (rq_store rq))))" using ask(2) by (rule distinct_map_filter)
  note mf = make_page_facts [OF assms(4) d assms(7) p] and more = next_page.hyps(2)
  have split: "delivered (p # ps) = zip (page_rows p) (page_keys p) @ delivered ps" by (simp add: delivered_def)
  have keys: "map snd (zip (page_rows p) (page_keys p)) = page_keys p" using mf(2) by simp
  have IH: "sorted_wrt (ahead dir) (map snd (delivered ps))" "\<forall>x \<in> set (delivered ps). ahead dir (next_key p) (snd x)"
    "set (delivered ps) \<subseteq> (\<Union>rq \<in> set rqs. set (store_keys E gs q o' (rq_store rq)))"
    "{x. \<forall>rq \<in> set rqs. x \<in> set (store_keys E gs q o' (rq_store rq))} \<inter> {x. ahead dir (next_key p) (snd x)} \<subseteq> set (delivered ps)"
    "(length ps - 1) * nat limit \<le> length (delivered ps)" "ps \<noteq> []"
    using next_page.IH next_page.prems by (simp_all add: wanted_ahead)
  have cut: "k = next_key p \<or> ahead dir k (next_key p)" if "k \<in> set (page_keys p)" for k using mf(7) [OF more that] .
  have before: "ahead dir k (snd x)" if "k \<in> set (page_keys p)" "x \<in> set (delivered ps)" for k x
    using cut [OF that(1)] IH(2) that(2) ahead_order(1) by blast
  have sorted: "sorted_wrt (ahead dir) (map snd (delivered (p # ps)))"
    unfolding split using mf(1) IH(1) before keys by (simp add: sorted_wrt_append)
  obtain y where y: "y \<in> set (zip (page_rows p) (page_keys p))" "snd y = next_key p"
    using mf(6) [OF more] keys by (metis (no_types, lifting) imageE image_set)
  have wy: "wanted aft dir y" using y(1) mf(3) by auto
  have want: "wanted aft dir x" if "x \<in> set (delivered ps)" for x
    using wy y(2) IH(2) that ahead_order(1) unfolding wanted_ahead by metis
  have "int (length (page_keys p)) = limit" using mf(5) [OF more] .
  then have "length (delivered (p # ps)) = nat limit + length (delivered ps)" using mf(2) by (simp add: split)
  moreover have "length (p # ps) - 1 = Suc (length ps - 1)" using IH(6) by (cases ps) auto
  ultimately have len: "(length (p # ps) - 1) * nat limit \<le> length (delivered (p # ps))" using IH(5) by (simp only: mult_Suc)
  have all: "{x. \<forall>r \<in> set (rq # rqs). x \<in> set (store_keys E gs q o' (rq_store r))} \<inter> {x. wanted aft dir x} \<subseteq> set (delivered (p # ps))"
    using mf(8) [OF more] IH(4) unfolding split by fastforce
  have sub: "\<forall>x \<in> set (delivered (p # ps)). wanted aft dir x"
    "set (delivered (p # ps)) \<subseteq> (\<Union>r \<in> set (rq # rqs). set (store_keys E gs q o' (rq_store r)))"
    using want mf(3) IH(3) unfolding split by auto
  show ?case by (intro conjI sorted sub all len) simp
qed

text \<open>C11: Paging returns every row exactly once.  A caller that resumes after the cursor of the page before until a page reports no more
  rows, while the store is written to, trimmed and snapshotted between its requests, receives rows in strict order of their keys, so none
  twice; only matching rows of the stores it met, each with its own key; and every matching row that was there throughout.  Every page
  but the final one is full, so the walk ends.  Each request returns, and without budgets and with a live context it returns a page.\<close>

theorem paging_exactly_once:
  assumes "simd_ok (en_simd E)" and "sorter_ok so" and "page_sort srt" and "Limit o' \<le> 0" and "Streamable q o'" and "0 < limit"
    and "q = resolveTimePreds clock q0" and "\<forall>rq \<in> set rqs. request_ok so K E gs rq"
  shows "(\<forall>rq \<in> set rqs. \<forall>aft. \<exists>res st' s'. ask E srt q o' dir limit aft rq = Some (res, st', s')
        \<and> (quiet (rq_env rq) o' \<and> stopped (rq_state rq) = None \<longrightarrow> (\<exists>p. res = Inr p)))
    \<and> (\<forall>ps. paged E srt q o' dir limit None rqs ps \<longrightarrow>
        sorted_wrt (ahead dir) (map snd (delivered ps)) \<and> distinct (map snd (delivered ps))
        \<and> set (delivered ps) \<subseteq> (\<Union>rq \<in> set rqs. set (store_keys E gs q o' (rq_store rq)))
        \<and> (\<forall>x. (\<forall>rq \<in> set rqs. x \<in> set (store_keys E gs q o' (rq_store rq))) \<longrightarrow> x \<in> set (delivered ps))
        \<and> (length ps - 1) * nat limit \<le> length (delivered ps))"
proof -
  have dist: "distinct (map snd xs)" if "sorted_wrt (ahead dir) (map snd xs)" for xs :: "keyedRow list"
    using that ahead_order(2) by (induction xs) force+
  have all: "{x. wanted None dir x} = UNIV" by (simp add: wanted_def)
  have "sorted_wrt (ahead dir) (map snd (delivered ps)) \<and> set (delivered ps) \<subseteq> (\<Union>rq \<in> set rqs. set (store_keys E gs q o' (rq_store rq)))
      \<and> {x. \<forall>rq \<in> set rqs. x \<in> set (store_keys E gs q o' (rq_store rq))} \<subseteq> set (delivered ps) \<and> (length ps - 1) * nat limit \<le> length (delivered ps)"
    if "paged E srt q o' dir limit None rqs ps" for ps
    using paged_from [OF that assms] unfolding all Int_UNIV_right by (elim conjE) (intro conjI)
  then have pages: "\<forall>ps. paged E srt q o' dir limit None rqs ps \<longrightarrow>
        sorted_wrt (ahead dir) (map snd (delivered ps)) \<and> distinct (map snd (delivered ps))
        \<and> set (delivered ps) \<subseteq> (\<Union>rq \<in> set rqs. set (store_keys E gs q o' (rq_store rq)))
        \<and> (\<forall>x. (\<forall>rq \<in> set rqs. x \<in> set (store_keys E gs q o' (rq_store rq))) \<longrightarrow> x \<in> set (delivered ps))
        \<and> (length ps - 1) * nat limit \<le> length (delivered ps)"
    using dist by (simp add: subset_iff)
  show ?thesis by (intro conjI ballI allI, rule ask_ok(1) [OF assms(1-7)]) (use assms(8) pages in \<open>blast+\<close>)
qed

text \<open>A sort by key is one of the orders \<^verbatim>\<open>sort.Slice\<close> may leave.\<close>

definition sort_keys :: "Direction \<Rightarrow> keyedRow list \<Rightarrow> keyedRow list" where
  "sort_keys dir xs = (if dir = Newest then rev (sort_key snd xs) else sort_key snd xs)"

lemma sort_keys_ok: "page_sort sort_keys"
proof -
  have "sorted_wrt (\<lambda>a b. \<not> snd b < snd a) (sort_key snd xs)" for xs :: "keyedRow list"
    using sorted_sort_key [of snd xs] by (simp add: sorted_map not_less)
  then show ?thesis unfolding page_sort_def
    by (simp add: sort_keys_def ahead_def less_RowKey_def [symmetric] sorted_wrt_rev)
qed

definition page_opts :: run_opts where
  "page_opts = \<lparr>Limit = 0, LastN = 0, RowMax = 0, MaxBytes = 0, maxMemory = 0, maxGroups = 0, Materialize = [], MatAll = False, MatCols = False\<rparr>"

lemma all_resolved: "resolveTimePreds 0 all_query = all_query"
  by (simp add: resolveTimePreds_def all_query_def query_bounds_def query_now_def MinInt64_def MaxInt64_def resolveTimePipes_def Let_def)

theorem paging_exactly_once_witness:
  "\<exists>rq ps. paged demo_engine sort_keys all_query page_opts Oldest 1 None [rq, rq] ps
     \<and> sorted_wrt (ahead Oldest) (map snd (delivered ps)) \<and> set (delivered ps) = {(time_row 5, RowKey 5 0 0), (time_row 9, RowKey 9 0 1)}"
proof -
  obtain B r where w: "written_group demo_kernels demo_read (time_group [5, 9]) B r" using time_group_written [of "[5, 9]"] by auto
  obtain s where s: "store_reach stable (s, [])" "\<not> closed s" "ids_of s = [0]" "stored demo_kernels demo_read (\<lambda>_. time_group [5, 9]) s"
    "\<forall>a \<in> set (groups s). reader (entries s ! a) = r" using single_store [OF w] .
  define rq where "rq = \<lparr>rq_clock = 7, rq_env = (\<lambda>_. None), rq_state = \<lparr>checks = 0, stopped = None, caches = (\<lambda>_. new_cache r)\<rparr>, rq_store = s\<rparr>"
  have ok: "request_ok stable demo_kernels demo_engine (\<lambda>_. time_group [5, 9]) rq"
    using s reach_history [OF s(1)] new_cache_coherent by (auto simp: request_ok_def rq_def demo_engine_def caches_ok_def)
  have eng: "simd_ok (en_simd demo_engine)" "Limit page_opts \<le> 0" "Streamable all_query page_opts" "quiet (rq_env rq) page_opts" "stopped (rq_state rq) = None"
    using ref_host.host_ok by (simp_all add: demo_engine_def page_opts_def Streamable_def all_query_def quiet_def rq_def)
  have "matching demo_golib all_query (time_group [5, 9]) = [0, 1]"
    by (simp add: matching_def time_group_def group_times_def all_query_def scanMatchesRow_def queryHolds_def in_window_def upt_rec)
  moreover have "out_fields (\<lambda>_. [[108]]) names all_query page_opts = []" for names by (simp add: out_fields_def query_fields_def all_query_def page_opts_def)
  ultimately have keys: "store_keys demo_engine (\<lambda>_. time_group [5, 9]) all_query page_opts (rq_store rq) = [(time_row 5, RowKey 5 0 0), (time_row 9, RowKey 9 0 1)]"
    by (simp add: store_keys_def rq_def s(3) demo_engine_def keyed_row_def output_row_def time_row_def map_filter_simps time_group_def group_times_def)
  note th = paging_exactly_once [where rqs = "[rq, rq]" and dir = Oldest and limit = 1 and gs = "\<lambda>_. time_group [5, 9]" and K = demo_kernels, OF eng(1) stable_ok sort_keys_ok eng(2,3) _ all_resolved [symmetric]]
  note ask = ask_ok(1,2) [OF eng(1) stable_ok sort_keys_ok eng(2,3) _ all_resolved [symmetric] ok, where dir = Oldest and limit = 1, unfolded keys]
  have page: "\<exists>p st' s'. ask demo_engine sort_keys all_query page_opts Oldest 1 aft rq = Some (Inr p, st', s')
      \<and> p = make_page sort_keys Oldest 1 (filter (wanted aft Oldest) [(time_row 5, RowKey 5 0 0), (time_row 9, RowKey 9 0 1)])" for aft
    using ask(1) [of aft] ask(2) [of aft] eng(4,5) by fastforce
  have ord: "Before (RowKey 5 0 0) (RowKey 9 0 1)" "\<not> Before (RowKey 9 0 1) (RowKey 5 0 0)" "\<not> Before (RowKey 5 0 0) (RowKey 5 0 0)" by (simp_all add: Before_def)
  let ?p1 = "\<lparr>page_rows = [time_row 5], page_keys = [RowKey 5 0 0], next_key = RowKey 5 0 0, page_more = True\<rparr>"
  let ?p2 = "\<lparr>page_rows = [time_row 9], page_keys = [RowKey 9 0 1], next_key = RowKey 0 0 0, page_more = False\<rparr>"
  obtain st1 s1 where a1: "ask demo_engine sort_keys all_query page_opts Oldest 1 None rq = Some (Inr ?p1, st1, s1)"
    using page [of None] ord by (auto simp: make_page_def wanted_def sort_keys_def less_eq_RowKey_def)
  obtain st2 s2 where a2: "ask demo_engine sort_keys all_query page_opts Oldest 1 (Some (RowKey 5 0 0)) rq = Some (Inr ?p2, st2, s2)"
    using page [of "Some (RowKey 5 0 0)"] ord by (auto simp: make_page_def wanted_def after_def sort_keys_def)
  have "paged demo_engine sort_keys all_query page_opts Oldest 1 (Some (next_key ?p1)) [rq] [?p2]" by (rule end_page [of _ _ _ _ _ _ _ _ _ st2 s2]) (use a2 in simp_all)
  then have pg: "paged demo_engine sort_keys all_query page_opts Oldest 1 None [rq, rq] [?p1, ?p2]"
    by (rule next_page [rotated 2]) (use a1 in simp_all)
  have "sorted_wrt (ahead Oldest) (map snd (delivered [?p1, ?p2]))
      \<and> set (delivered [?p1, ?p2]) \<subseteq> {(time_row 5, RowKey 5 0 0), (time_row 9, RowKey 9 0 1)}
      \<and> {(time_row 5, RowKey 5 0 0), (time_row 9, RowKey 9 0 1)} \<subseteq> set (delivered [?p1, ?p2])"
    using th pg ok keys by auto
  with pg show ?thesis by (intro exI [of _ rq] exI [of _ "[?p1, ?p2]"]) blast
qed

end
