(* ===== verification/Rewrites.thy ===== *)
theory Rewrites
  imports Compaction Runs
begin

text \<open>
  What compaction does to the answers of queries: a merge puts one group in the place of its inputs, and the rows that match a query, with
  the fields it asks for, stay the same, as long as the inputs agree on which of the columns the query reads they have.
\<close>

section \<open>One merge\<close>

lemma merged_written:
  assumes b: "batch_of K R gs xs" and "gs \<noteq> []" and g: "\<forall>g \<in> set gs. plain g \<and> short_values g" and rows: "sum_list (map GRows gs) \<le> MaxRows"
    and "card (\<Union>g \<in> set gs. set (col_pairs g)) \<le> maxGroupColumns"
  shows "\<exists>cs B. mergeGroups R xs = Some (Some (merged gs cs), int (sum_list (map (\<lambda>x. length (blob (fst x))) xs))) \<and> union_of gs cs \<and> mergeable gs
    \<and> Marshal K (merged gs cs) = Some B \<and> (\<forall>r. length B < 2 ^ 32 \<longrightarrow> ReadGroup B = Some (Inr r) \<longrightarrow> written_group K R (merged gs cs) B r)"
proof -
  have plain: "\<forall>g \<in> set gs. plain g" and short: "\<forall>g \<in> set gs. short_values g" using g by blast+
  obtain cs where cs: "mergeGroups R xs = Some (Some (merged gs cs), int (sum_list (map (\<lambda>x. length (blob (fst x))) xs)))" "union_of gs cs"
    using merge_batch [OF b assms(2) plain] unfolding union_of_def by blast
  note m = written_mergeable [OF b assms(2) plain]
  have "length cs = card (set cs)" using cs(2) by (metis union_of_def distinct_card distinct_map)
  then have len: "length cs \<le> maxGroupColumns" using cs(2) assms(5) by (simp add: union_of_def)
  note wf = merged_wf [OF m cs(2) rows len short]
  obtain B where B: "Marshal K (merged gs cs) = Some B" using Marshal_total [OF wf(1)] .
  obtain g0 B0 r0 where "written_group K R g0 B0 r0" using b assms(2) by (cases gs) (auto simp: batch_of_def list_all2_Cons1)
  then have K: "same_kernels K R" "\<And>xs. rk_varint R (length xs) (concat (map put_uvarint xs)) = xs"
    by (simp_all add: written_group.same written_group.varints_ok)
  have "written_group K R (merged gs cs) B r" if "length B < 2 ^ 32" "ReadGroup B = Some (Inr r)" for r
    by (rule written_group.intro) (rule K wf B that)+
  then show ?thesis using cs m B by blast
qed

lemma answer_mset: "mset (store_answer E gs q o' s) = (\<Sum>a \<in># mset (groups s). mset (group_answer E q o' (gs (ge_id (entries s ! a)))))"
  by (simp add: store_answer_def mset_concat ids_of_def o_def flip: sum_mset_sum_list)

abbreviation groups_at :: "(u64 \<Rightarrow> Group) \<Rightarrow> Store \<Rightarrow> nat list \<Rightarrow> Group list" where
  "groups_at gs s as \<equiv> map (\<lambda>a. gs (ge_id (entries s ! a))) as"

lemma merge_answer:
  assumes idx: "index_ok s" and st: "stored K R gs s" and m: "merged_index g b batch s s'" and d: "distinct batch"
    and w: "\<And>r. ReadGroup b = Some (Inr r) \<Longrightarrow> written_group K R g b r" and new: "nextID s \<notin> set (ids_of s)"
    and ans: "group_answer E q o' g = concat (map (group_answer E q o') (groups_at gs s batch))"
  defines "gs' \<equiv> gs(nextID s := g)"
  shows "stored K R gs' s'" and "mset (store_answer E gs' q o' s') = mset (store_answer E gs q o' s)" and "length (groups s') + length batch = length (groups s) + 1"
proof -
  let ?k = "filter (\<lambda>a. a \<notin> set batch) (groups s)" and ?n = "length (entries s)" and ?f = "\<lambda>a. mset (group_answer E q o' (gs (ge_id (entries s ! a))))"
  have ms: "mset (groups s') = mset ?k + {#?n#}" and sub: "set batch \<subseteq> set (groups s)" using m by (simp_all add: merged_index_def)
  have g: "distinct (groups s)" "\<And>a. a \<in> set (groups s) \<Longrightarrow> a < ?n" using idx by (auto simp: index_ok_def)
  have old: "gs' (ge_id (entries s' ! a)) = gs (ge_id (entries s ! a)) \<and> reader (entries s' ! a) = reader (entries s ! a)" if "a \<in> set (groups s)" for a
  proof -
    have "ge_id (entries s ! a) \<noteq> nextID s" using new imageI [OF that, of "\<lambda>a. ge_id (entries s ! a)"] by (auto simp: ids_of_def)
    then show ?thesis using m g(2) [OF that] by (simp add: merged_index_def gs'_def)
  qed
  obtain r where r: "ReadGroup b = Some (Inr r)" "ge_id (entries s' ! ?n) = nextID s" "reader (entries s' ! ?n) = r" using m by (auto simp: merged_index_def)
  have "set (groups s') = insert ?n (set ?k)" using mset_eq_setD [of "groups s'" "?k @ [?n]"] ms by simp
  then show "stored K R gs' s'" using st old w [OF r(1)] r by (auto simp: stored_def gs'_def)
  have "mset (filter (\<lambda>a. a \<in> set batch) (groups s)) = mset batch"
    using sub by (intro set_eq_iff_mset_eq_distinct [THEN iffD1]) (auto simp: g(1) d)
  then have split: "mset (groups s) = mset ?k + mset batch"
    using multiset_partition [of "mset (groups s)" "\<lambda>a. a \<in> set batch"] by (simp add: add.commute)
  show "length (groups s') + length batch = length (groups s) + 1"
    using arg_cong [OF split, of size] arg_cong [OF ms, of size] by simp
  have "(\<Sum>a \<in># mset ?k. mset (group_answer E q o' (gs' (ge_id (entries s' ! a))))) = (\<Sum>a \<in># mset ?k. ?f a)"
    by (intro arg_cong [where f = sum_mset] image_mset_cong) (use old in auto)
  moreover have "mset (group_answer E q o' (gs' (ge_id (entries s' ! ?n)))) = (\<Sum>a \<in># mset batch. ?f a)"
    by (simp add: r(2) gs'_def ans mset_concat o_def flip: sum_mset_sum_list)
  ultimately show "mset (store_answer E gs' q o' s') = mset (store_answer E gs q o' s)"
    unfolding answer_mset ms split by (simp add: add.commute)
qed


text \<open>A batch the code may merge: written groups of the plain shape, within the limits of one group.\<close>

definition good_batch :: "group_kernels \<Rightarrow> ('f, 're) engine \<Rightarrow> ('f, 're) Query \<Rightarrow> run_opts \<Rightarrow> (nat \<Rightarrow> idx_cache) \<Rightarrow> (nat \<Rightarrow> Group) \<Rightarrow> (nat \<Rightarrow> Reader) \<Rightarrow> nat list \<Rightarrow> bool" where
  "good_batch K E q o' cs grp rdr batch \<longleftrightarrow> distinct batch \<and> batch \<noteq> [] \<and> (\<forall>a \<in> set batch. plain (grp a) \<and> short_values (grp a)
       \<and> (\<exists>B. written_group K (en_read E) (grp a) B (rdr a)) \<and> cache_coherent (en_read E) (rdr a) (cs a))
     \<and> alike (en_ord E) q o' (map grp batch) \<and> card (\<Union>a \<in> set batch. set (col_pairs (grp a))) \<le> maxGroupColumns
     \<and> (\<Sum>a \<leftarrow> batch. Rows (rdr a)) \<le> MaxRows \<and> (\<Sum>a \<leftarrow> batch. length (blob (rdr a))) < 2 ^ 32"

lemma merge_keeps:
  assumes "sorter_ok srt" and "production io" and "heap_ok s sns" and "index_ok s" and "nextID s + 1 \<noteq> 0" and st: "stored K (en_read E) gs s"
    and good: "good_batch K E q o' cs (\<lambda>a. gs (ge_id (entries s ! a))) (\<lambda>a. reader (entries s ! a)) batch"
  shows "\<exists>e st s' g. mergeAndCommit K (en_read E) srt io cs batch s = Some (e, st, s') \<and> stored K (en_read E) (gs(nextID s := g)) s'
    \<and> mset (store_answer E (gs(nextID s := g)) q o' s') = mset (store_answer E gs q o' s) \<and> length (groups s') + Inputs st = length (groups s) + Outputs st
    \<and> 0 \<le> BytesBefore st \<and> length (entries s) \<le> length (entries s') \<and> (nextID s' = nextID s \<or> nextID s' = nextID s + 1)
    \<and> (\<forall>a < length (entries s). ge_id (entries s' ! a) = ge_id (entries s ! a) \<and> reader (entries s' ! a) = reader (entries s ! a))"
proof -
  let ?R = "en_read E" and ?gs = "groups_at gs s batch" and ?xs = "map (\<lambda>a. (reader (entries s ! a), cs a)) batch"
  have b: "batch_of K ?R ?gs ?xs" using good by (auto simp: batch_of_def good_batch_def list_all2_conv_all_nth)
  have "Rows (reader (entries s ! a)) = GRows (gs (ge_id (entries s ! a)))" if "a \<in> set batch" for a
    using good that written_group.rows_le(2) by (fastforce simp: good_batch_def)
  then have rows: "(\<Sum>a \<leftarrow> batch. Rows (reader (entries s ! a))) = sum_list (map GRows ?gs)" by (simp add: o_def cong: map_cong)
  have lim: "?gs \<noteq> []" "\<forall>g \<in> set ?gs. plain g \<and> short_values g" "sum_list (map GRows ?gs) \<le> MaxRows" "card (\<Union>g \<in> set ?gs. set (col_pairs g)) \<le> maxGroupColumns"
    using good rows by (simp_all add: good_batch_def)
  obtain cs' B where M: "mergeGroups ?R ?xs = Some (Some (merged ?gs cs'), int (\<Sum>a \<leftarrow> batch. length (blob (reader (entries s ! a)))))" "union_of ?gs cs'" "mergeable ?gs"
    "Marshal K (merged ?gs cs') = Some B" "\<And>r. length B < 2 ^ 32 \<Longrightarrow> ReadGroup B = Some (Inr r) \<Longrightarrow> written_group K ?R (merged ?gs cs') B r"
    using merged_written [OF b lim] by (auto simp: o_def)
  define before where "before = int (\<Sum>a \<leftarrow> batch. length (blob (reader (entries s ! a))))"
  obtain e st' s' where res: "(if int (length B) \<ge> before then (None, no_stats, s) else install_merged srt io (merged ?gs cs') B before batch s) = (e, st', s')"
    by (rule prod_cases3)
  have mc: "mergeAndCommit K ?R srt io cs batch s = Some (e, st', s')"
    using M(1,4) res by (simp add: mergeAndCommit_def entry_at_def before_def split: if_splits)
  have new: "nextID s \<notin> set (ids_of s)" using assms(4) by (auto simp: index_ok_def)
  have n: "sum_list (map GRows ?gs) < 2 ^ 32" and al: "alike (en_ord E) q o' ?gs" using lim(3) good by (simp_all add: MaxRows_def good_batch_def)
  have ans: "group_answer E q o' (merged ?gs cs') = concat (map (group_answer E q o') ?gs)"
    using merged_answer [OF M(3,2) n al, of "en_fmt E" "en_lib E"] by (simp add: group_answer_def [abs_def])
  from merge_inv [OF assms(1-5) mc]
  consider "same_index s s'" "st' = no_stats" "nextID s' = nextID s \<or> nextID s' = nextID s + 1"
    | "Outputs st' = 1" "Inputs st' = length batch" "0 \<le> BytesBefore st'" "length B < 2 ^ 32" "merged_index (merged ?gs cs') B batch s s'" "nextID s' = nextID s \<or> nextID s' = nextID s + 1"
    using M(1,4) good by (auto simp: good_batch_def)
  then show ?thesis
  proof cases
    case 1
    then have "stored K ?R gs s'" "store_answer E gs q o' s' = store_answer E gs q o' s" using st by (simp_all add: stored_def store_answer_def ids_of_def same_index_def)
    then show ?thesis using 1 mc
      by (intro exI [of _ e] exI [of _ st'] exI [of _ s'] exI [of _ "gs (nextID s)"]) (simp add: same_index_def no_stats_def)
  next
    case 2
    note ma = merge_answer [OF assms(4) st 2(5) _ M(5) [OF 2(4)] new ans]
    have "distinct batch" using good by (simp add: good_batch_def)
    then show ?thesis using 2 mc ma by (intro exI [of _ e] exI [of _ st'] exI [of _ s'] exI [of _ "merged ?gs cs'"]) (simp add: merged_index_def)
  qed
qed

section \<open>A pass\<close>

text \<open>
  What holds between the merges of a pass that holds the addresses \<open>H\<close>: the store is one of its histories, its groups are written groups, the
  answer is the one before the pass, and the entries that are held are as they were.
\<close>

definition pass_ok :: "group_kernels \<Rightarrow> ('f, 're) engine \<Rightarrow> ('f, 're) Query \<Rightarrow> run_opts \<Rightarrow> sorter \<Rightarrow> (nat \<Rightarrow> Group) \<Rightarrow> (nat \<Rightarrow> Reader) \<Rightarrow> nat set \<Rightarrow> Row multiset \<Rightarrow> nat
    \<Rightarrow> Snapshot list \<Rightarrow> pass_state \<Rightarrow> bool" where
  "pass_ok K E q o' srt grp rdr H A N sns p \<longleftrightarrow> (case p of (st, n, s) \<Rightarrow> history K (en_read E) srt (s, sns)
     \<and> (\<exists>gs. stored K (en_read E) gs s \<and> mset (store_answer E gs q o' s) = A
          \<and> (\<forall>a \<in> H. gs (ge_id (entries s ! a)) = grp a \<and> reader (entries s ! a) = rdr a \<and> ge_id (entries s ! a) < nextID s \<and> a < length (entries s)))
     \<and> length (groups s) + Inputs st = N + Outputs st \<and> 0 \<le> BytesBefore st)"

lemma flush_keeps:
  assumes srt: "sorter_ok srt" and io: "\<forall>n. production (io n)" and ok: "pass_ok K E q o' srt grp rdr H A N sns p"
    and held: "sn \<in> set sns" "set (snap_entries sn) = H" and sub: "set batch \<subseteq> H" and ids: "unat (nextID (snd (snd p))) + length batch < 2 ^ 64"
    and good: "2 \<le> length batch \<Longrightarrow> good_batch K E q o' cs grp rdr batch"
  shows "\<exists>e p'. flush_batch K (en_read E) srt io cs batch p = Some (e, p') \<and> pass_ok K E q o' srt grp rdr H A N sns p'
    \<and> unat (nextID (snd (snd p'))) \<le> unat (nextID (snd (snd p))) + length batch"
proof (cases "length batch < 2")
  case True
  then show ?thesis using ok by (simp add: flush_batch_def split: prod.splits)
next
  case False
  obtain st n s where p: "p = (st, n, s)" by (metis prod.exhaust)
  obtain gs where gs: "stored K (en_read E) gs s" "mset (store_answer E gs q o' s) = A"
    "\<forall>a \<in> H. gs (ge_id (entries s ! a)) = grp a \<and> reader (entries s ! a) = rdr a \<and> ge_id (entries s ! a) < nextID s \<and> a < length (entries s)"
    and h: "history K (en_read E) srt (s, sns)" and cnt: "length (groups s) + Inputs st = N + Outputs st" "0 \<le> BytesBefore st" using ok by (auto simp: pass_ok_def p)
  note inv = history_inv [OF srt h, simplified]
  have "unat (nextID s) + 1 < 2 ^ 64" using ids False by (simp add: p)
  then have nx: "nextID s + 1 \<noteq> 0" "unat (nextID s + 1) = unat (nextID s) + 1"
    by (auto simp: unat_word_ariths unat_eq_zero [symmetric])
  have "good_batch K E q o' cs (\<lambda>a. gs (ge_id (entries s ! a))) (\<lambda>a. reader (entries s ! a)) batch"
  proof -
    have eq: "\<forall>a \<in> set batch. gs (ge_id (entries s ! a)) = grp a \<and> reader (entries s ! a) = rdr a" using gs(3) sub by blast
    then have sums: "map (\<lambda>a. gs (ge_id (entries s ! a))) batch = map grp batch" "map (\<lambda>a. Rows (reader (entries s ! a))) batch = map (\<lambda>a. Rows (rdr a)) batch"
      "map (\<lambda>a. length (blob (reader (entries s ! a)))) batch = map (\<lambda>a. length (blob (rdr a))) batch" by simp_all
    show ?thesis using good False eq unfolding good_batch_def sums by simp
  qed
  from merge_keeps [OF srt io [rule_format] _ _ nx(1) gs(1) this, of sns] inv
  obtain e b s' g where m: "mergeAndCommit K (en_read E) srt (io n) cs batch s = Some (e, b, s')" and keep: "stored K (en_read E) (gs(nextID s := g)) s'"
    "mset (store_answer E (gs(nextID s := g)) q o' s') = A" "length (groups s') + Inputs b = length (groups s) + Outputs b"
    "0 \<le> BytesBefore b" "length (entries s) \<le> length (entries s')" "nextID s' = nextID s \<or> nextID s' = nextID s + 1"
    "\<forall>a < length (entries s). ge_id (entries s' ! a) = ge_id (entries s ! a) \<and> reader (entries s' ! a) = reader (entries s ! a)"
    using gs(2) by metis
  have le: "nextID s \<le> nextID s'" "unat (nextID s') \<le> unat (nextID s) + 1" using keep(6) nx(2) by (auto simp: word_le_nat_alt)
  have "history K (en_read E) srt (s', sns)" using history_merge [OF h held(1) _ io [rule_format] nx(1) m] sub held(2) by simp
  moreover have "\<forall>a \<in> H. (gs(nextID s := g)) (ge_id (entries s' ! a)) = grp a \<and> reader (entries s' ! a) = rdr a \<and> ge_id (entries s' ! a) < nextID s' \<and> a < length (entries s')"
    using gs(3) keep(5,7) le(1) by (auto intro: less_le_trans)
  ultimately have "pass_ok K E q o' srt grp rdr H A N sns (add_stats st b, n + 1, s')"
    unfolding pass_ok_def prod.case using keep(1-4) cnt by (intro conjI exI [of _ "gs(nextID s := g)"]) (simp_all add: add_stats_def)
  then show ?thesis using m False le(2) by (simp add: flush_batch_def p)
qed


text \<open>The groups a pass holds, and the batches it makes of them: the loop keeps a batch within the rows of one group and within the budget.\<close>

definition held_ok :: "group_kernels \<Rightarrow> ('f, 're) engine \<Rightarrow> ('f, 're) Query \<Rightarrow> run_opts \<Rightarrow> (nat \<Rightarrow> idx_cache) \<Rightarrow> CompactOptions \<Rightarrow> (nat \<Rightarrow> Group) \<Rightarrow> (nat \<Rightarrow> Reader) \<Rightarrow> nat set \<Rightarrow> bool" where
  "held_ok K E q o' cs opt grp rdr H \<longleftrightarrow> finite H \<and> (\<forall>a \<in> H. plain (grp a) \<and> short_values (grp a) \<and> Rows (rdr a) \<le> maxRowsPerOutput opt
       \<and> (\<exists>B. written_group K (en_read E) (grp a) B (rdr a)) \<and> cache_coherent (en_read E) (rdr a) (cs a))
     \<and> (\<forall>as. set as \<subseteq> H \<longrightarrow> alike (en_ord E) q o' (map grp as)) \<and> card (\<Union>a \<in> H. set (col_pairs (grp a))) \<le> maxGroupColumns"

lemma held_batch:
  assumes "held_ok K E q o' cs opt grp rdr H" and "set batch \<subseteq> H" and "distinct batch" and "batch \<noteq> []"
    and "(\<Sum>a \<leftarrow> batch. Rows (rdr a)) \<le> maxRowsPerOutput opt" and "int (\<Sum>a \<leftarrow> batch. length (blob (rdr a))) \<le> MaxInputBytes opt" and "MaxInputBytes opt < 2 ^ 32"
  shows "good_batch K E q o' cs grp rdr batch"
proof -
  have "maxRowsPerOutput opt \<le> MaxRows" by (auto simp: maxRowsPerOutput_def)
  moreover have "card (\<Union>a \<in> set batch. set (col_pairs (grp a))) \<le> card (\<Union>a \<in> H. set (col_pairs (grp a)))"
    using assms(1,2) by (intro card_mono) (auto simp: held_ok_def)
  ultimately show ?thesis using assms by (auto simp: good_batch_def held_ok_def)
qed

lemma batches_keep:
  assumes srt: "sorter_ok srt" and io: "\<forall>n. production (io n)" and held: "sn \<in> set sns" "set (snap_entries sn) = H"
    and hk: "held_ok K E q o' cs opt grp rdr H" and budget: "0 < MaxInputBytes opt" "MaxInputBytes opt < 2 ^ 32"
    and "pass_ok K E q o' srt grp rdr H A N sns p" and "set (batch @ as) \<subseteq> H" and "distinct (batch @ as)"
    and "rows = (\<Sum>a \<leftarrow> batch. Rows (rdr a))" and "rows \<le> maxRowsPerOutput opt" and "bytes = int (\<Sum>a \<leftarrow> batch. length (blob (rdr a)))"
    and "2 \<le> length batch \<Longrightarrow> bytes \<le> MaxInputBytes opt" and "unat (nextID (snd (snd p))) + length (batch @ as) < 2 ^ 64"
  shows "\<exists>e p'. run_batches K (en_read E) srt io cs opt as batch rows bytes p = Some (e, p') \<and> pass_ok K E q o' srt grp rdr H A N sns p'
    \<and> unat (nextID (snd (snd p'))) \<le> unat (nextID (snd (snd p))) + length (batch @ as)"
  using assms(8-)
proof (induction as arbitrary: batch rows bytes p)
  case Nil
  have "\<exists>e p'. flush_batch K (en_read E) srt io cs batch p = Some (e, p') \<and> pass_ok K E q o' srt grp rdr H A N sns p'
    \<and> unat (nextID (snd (snd p'))) \<le> unat (nextID (snd (snd p))) + length batch"
  proof (rule flush_keeps [OF srt io Nil.prems(1) held])
    show "good_batch K E q o' cs grp rdr batch" if "2 \<le> length batch"
      using Nil.prems that by (intro held_batch [OF hk _ _ _ _ _ budget(2)]) auto
  qed (use Nil.prems in simp_all)
  then show ?case using Nil.prems(1) by (cases "spent (fst p) opt") (auto simp del: split_paired_Ex)
next
  case (Cons a as)
  let ?sz = "int (length (blob (rdr a)))"
  obtain st n s where p: "p = (st, n, s)" by (metis prod.exhaust)
  have r: "reader (entry_at s a) = rdr a" and nonneg: "0 \<le> BytesBefore st" using Cons.prems(1,2) by (auto simp: pass_ok_def p entry_at_def)
  let ?full = "(rows + Rows (rdr a) > maxRowsPerOutput opt \<or> BytesBefore st + bytes + ?sz > MaxInputBytes opt) \<and> batch \<noteq> []"
  have ra: "Rows (rdr a) \<le> maxRowsPerOutput opt" using hk Cons.prems(2) by (simp add: held_ok_def)
  show ?case
  proof (cases ?full)
    case False
    have "\<exists>e p'. run_batches K (en_read E) srt io cs opt as (batch @ [a]) (rows + Rows (rdr a)) (bytes + ?sz) p = Some (e, p') \<and> pass_ok K E q o' srt grp rdr H A N sns p'
      \<and> unat (nextID (snd (snd p'))) \<le> unat (nextID (snd (snd p))) + length ((batch @ [a]) @ as)"
      using Cons.prems False nonneg ra by (intro Cons.IH) auto
    then show ?thesis using False budget(1) by (auto simp: p r Let_def)
  next
    case True
    have "\<exists>e p'. flush_batch K (en_read E) srt io cs batch p = Some (e, p') \<and> pass_ok K E q o' srt grp rdr H A N sns p'
      \<and> unat (nextID (snd (snd p'))) \<le> unat (nextID (snd (snd p))) + length batch"
    proof (rule flush_keeps [OF srt io Cons.prems(1) held])
      show "good_batch K E q o' cs grp rdr batch" if "2 \<le> length batch"
        using Cons.prems that by (intro held_batch [OF hk _ _ _ _ _ budget(2)]) auto
    qed (use Cons.prems in simp_all)
    then obtain e p' where f: "flush_batch K (en_read E) srt io cs batch p = Some (e, p')" "pass_ok K E q o' srt grp rdr H A N sns p'"
      "unat (nextID (snd (snd p'))) \<le> unat (nextID (snd (snd p))) + length batch" by blast
    have "\<exists>e p''. run_batches K (en_read E) srt io cs opt as [a] (Rows (rdr a)) ?sz p' = Some (e, p'') \<and> pass_ok K E q o' srt grp rdr H A N sns p''
      \<and> unat (nextID (snd (snd p''))) \<le> unat (nextID (snd (snd p'))) + length ([a] @ as)"
      using Cons.prems f(2,3) ra by (intro Cons.IH) auto
    then obtain e2 p2 where g: "run_batches K (en_read E) srt io cs opt as [a] (Rows (rdr a)) ?sz p' = Some (e2, p2)" "pass_ok K E q o' srt grp rdr H A N sns p2"
      "unat (nextID (snd (snd p2))) \<le> unat (nextID (snd (snd p'))) + length ([a] @ as)" by blast
    have "run_batches K (en_read E) srt io cs opt (a # as) batch rows bytes p = Some (if e \<noteq> None then (e, p') else if spent (fst p') opt then (None, p') else (e2, p2))"
      using True f(1) g(1) budget(1) by (simp add: p r Let_def)
    then show ?thesis using f(2,3) g(2,3) by (auto simp del: split_paired_Ex)
  qed
qed

lemma runs_keep:
  assumes srt: "sorter_ok srt" and io: "\<forall>n. production (io n)" and held: "sn \<in> set sns" "set (snap_entries sn) = H"
    and hk: "held_ok K E q o' cs opt grp rdr H" and budget: "0 < MaxInputBytes opt" "MaxInputBytes opt < 2 ^ 32"
    and "pass_ok K E q o' srt grp rdr H A N sns p" and "set (concat runs) \<subseteq> H" and "distinct (concat runs)"
    and "unat (nextID (snd (snd p))) + length (concat runs) < 2 ^ 64"
  shows "\<exists>e p'. compact_runs K (en_read E) srt io cs opt runs p = Some (e, p') \<and> pass_ok K E q o' srt grp rdr H A N sns p'"
  using assms(8-)
proof (induction runs arbitrary: p)
  case (Cons run runs)
  let ?IH = "\<lambda>p. \<exists>e p'. compact_runs K (en_read E) srt io cs opt runs p = Some (e, p') \<and> pass_ok K E q o' srt grp rdr H A N sns p'"
  have run: "set ([] @ run) \<subseteq> H" "distinct ([] @ run)" "unat (nextID (snd (snd p))) + length ([] @ run) < 2 ^ 64"
    and rest: "set (concat runs) \<subseteq> H" "distinct (concat runs)" using Cons.prems(2-4) by simp_all
  have "\<exists>e p'. compactRun K (en_read E) srt io cs opt run p = Some (e, p') \<and> pass_ok K E q o' srt grp rdr H A N sns p'
    \<and> unat (nextID (snd (snd p'))) \<le> unat (nextID (snd (snd p))) + length run"
    using batches_keep [OF srt io held hk budget Cons.prems(1) run(1,2) _ _ _ _ run(3), of 0 0] Cons.prems(1)
    by (cases "length run < minGroups opt") (auto simp: compactRun_def simp del: split_paired_Ex)
  then obtain e p' where r: "compactRun K (en_read E) srt io cs opt run p = Some (e, p')" "pass_ok K E q o' srt grp rdr H A N sns p'"
    "unat (nextID (snd (snd p'))) \<le> unat (nextID (snd (snd p))) + length run" by blast
  have "?IH p'" using r(3) Cons.prems(4) by (intro Cons.IH [OF r(2) rest]) simp
  then show ?case using Cons.prems(1) r by (cases "spent (fst p) opt"; cases e) (auto simp del: split_paired_Ex)
qed simp

text \<open>The end of a pass: what it holds is released, as a snapshot that closes.\<close>

lemma release_held:
  assumes "history K R srt (s, sns @ [\<lparr>snap_entries = held, snap_closed = False\<rparr>])"
  shows "\<exists>sn. history K R srt (on_entries release held s, sns @ [sn])"
proof -
  let ?h = "\<lparr>snap_entries = held, snap_closed = False\<rparr>"
  obtain sn where "snap_Close ?h s = (sn, on_entries release held s)" by (simp add: snap_Close_def)
  then have "store_step srt (s, sns @ [?h]) (on_entries release held s, (sns @ [?h])[length sns := sn])" by (intro store_step.release) simp_all
  then show ?thesis using history_base [OF assms] by auto
qed

lemma release_index:
  assumes "distinct held" and "set held \<subseteq> {..<length (entries s)}"
  shows "groups (on_entries release held s) = groups s" and "a < length (entries s) \<Longrightarrow> ge_id (entries (on_entries release held s) ! a) = ge_id (entries s ! a)"
    and "a < length (entries s) \<Longrightarrow> reader (entries (on_entries release held s) ! a) = reader (entries s ! a)"
  using upd_nth [OF assms, of a release] by (simp_all add: on_entries_eq)

text \<open>The same index with the same groups behind it.\<close>

lemma same_answers:
  assumes "groups s' = groups s" and "\<And>a. a \<in> set (groups s) \<Longrightarrow> ge_id (entries s' ! a) = ge_id (entries s ! a) \<and> reader (entries s' ! a) = reader (entries s ! a)"
  shows "stored K R gs s' = stored K R gs s" and "store_answer E gs q o' s' = store_answer E gs q o' s" and "ids_of s' = ids_of s"
proof -
  show "stored K R gs s' = stored K R gs s" using assms by (simp add: stored_def)
  show ids: "ids_of s' = ids_of s" using assms by (simp add: ids_of_def)
  show "store_answer E gs q o' s' = store_answer E gs q o' s" by (simp add: store_answer_def ids)
qed

lemma plan_holds:
  assumes "heap_ok s sns" and "index_ok s" and "compactionRuns opt s = (runs, held, s1)" and st: "stored K (en_read E) gs s"
    and "\<forall>a \<in> set (groups s). cache_coherent (en_read E) (reader (entries s ! a)) (cs a)" and g: "\<forall>i \<in> set (ids_of s). plain (gs i) \<and> short_values (gs i)"
    and al: "alike (en_ord E) q o' (map gs (ids_of s))" and "card (\<Union>i \<in> set (ids_of s). set (col_pairs (gs i))) \<le> maxGroupColumns"
  shows "held_ok K E q o' cs opt (\<lambda>a. gs (ge_id (entries s ! a))) (\<lambda>a. reader (entries s ! a)) (set held)"
proof -
  note pr = plan_runs [OF assms(1-3)]
  have id: "ge_id (entries s ! a) \<in> set (ids_of s)" if "a \<in> set held" for a using pr(3) that by (auto simp: ids_of_def)
  have "Rows (reader (entries s ! a)) \<le> maxRowsPerOutput opt" if "a \<in> set held" for a
    using pr(6) that by (auto simp: compactCandidate_def Let_def split: if_splits)
  moreover have "alike (en_ord E) q o' (map (\<lambda>a. gs (ge_id (entries s ! a))) as)" if "set as \<subseteq> set held" for as
    unfolding alike_def
  proof (intro ballI)
    fix x y assume "x \<in> set (map (\<lambda>a. gs (ge_id (entries s ! a))) as)" "y \<in> set (map (\<lambda>a. gs (ge_id (entries s ! a))) as)"
    then have "x \<in> set (map gs (ids_of s))" "y \<in> set (map gs (ids_of s))" using id that by auto
    then show "(\<forall>f \<in> read_fields (en_ord E) q o'. (dict_col x f \<noteq> None) = (dict_col y f \<noteq> None)) \<and> (MatAll o' \<or> MatCols o' \<longrightarrow> col_pairs x = col_pairs y)"
      using al unfolding alike_def by blast
  qed
  moreover have "card (\<Union>a \<in> set held. set (col_pairs (gs (ge_id (entries s ! a))))) \<le> card (\<Union>i \<in> set (ids_of s). set (col_pairs (gs i)))"
    using id by (intro card_mono) auto
  moreover have "plain (gs (ge_id (entries s ! a))) \<and> short_values (gs (ge_id (entries s ! a)))" if "a \<in> set held" for a using g id [OF that] by blast
  moreover have "\<exists>B. written_group K (en_read E) (gs (ge_id (entries s ! a))) B (reader (entries s ! a))" if "a \<in> set held" for a
    using st pr(3) that unfolding stored_def by blast
  moreover have "cache_coherent (en_read E) (reader (entries s ! a)) (cs a)" if "a \<in> set held" for a using assms(5) pr(3) that by blast
  ultimately show ?thesis unfolding held_ok_def using assms(8) by simp
qed

lemma pass_start:
  assumes "sorter_ok srt" and h: "history K (en_read E) srt (s, sns)" and "stored K (en_read E) gs s" and c: "compactionRuns opt s = (runs, held, s1)"
  shows "pass_ok K E q o' srt (\<lambda>a. gs (ge_id (entries s ! a))) (\<lambda>a. reader (entries s ! a)) (set held) (mset (store_answer E gs q o' s)) (length (groups s))
    (sns @ [\<lparr>snap_entries = held, snap_closed = False\<rparr>]) (no_stats, 0, s1)"
proof -
  note inv = history_inv [OF assms(1) h, simplified]
  note pr = plan_runs [OF _ _ c, of sns] and pk = plan_ok [OF _ _ c, of sns]
  have "ge_id (entries s ! a) \<in> set (ids_of s)" if "a \<in> set (groups s)" for a using that by (simp add: ids_of_def)
  then have g: "a < length (entries s)" "ge_id (entries s ! a) < nextID s" if "a \<in> set (groups s)" for a
    using inv that by (auto simp: index_ok_def)
  have s1: "groups s1 = groups s" "nextID s1 = nextID s" "length (entries s1) = length (entries s)" using pr(4) inv by simp_all
  have same: "ge_id (entries s1 ! a) = ge_id (entries s ! a) \<and> reader (entries s1 ! a) = reader (entries s ! a)" if "a \<in> set (groups s)" for a
    using pk(3) inv g(1) [OF that] by (simp add: same_entry_def)
  have sa: "stored K (en_read E) gs s1 = stored K (en_read E) gs s" "store_answer E gs q o' s1 = store_answer E gs q o' s"
    using same s1(1) by (intro same_answers; simp)+
  have "set held \<subseteq> set (groups s)" using pr(3) inv by simp
  then have "\<forall>a \<in> set held. gs (ge_id (entries s1 ! a)) = gs (ge_id (entries s ! a)) \<and> reader (entries s1 ! a) = reader (entries s ! a)
    \<and> ge_id (entries s1 ! a) < nextID s1 \<and> a < length (entries s1)" using same g s1 by auto
  then show ?thesis using history_plan [OF h c] assms(3) s1(1) sa unfolding pass_ok_def prod.case
    by (intro conjI exI [of _ gs]) (simp_all add: no_stats_def)
qed

section \<open>Inputs with different columns\<close>

lemma sum_list_gain:
  assumes "x \<in> set xs" and "\<And>y. y \<in> set xs \<Longrightarrow> f y \<le> (h y :: nat)" and "f x + d \<le> h x"
  shows "sum_list (map f xs) + d \<le> sum_list (map h xs)"
  using assms
proof (induction xs)
  case (Cons y ys)
  show ?case
  proof (cases "x \<in> set ys")
    case True
    then show ?thesis using Cons.IH Cons.prems by (fastforce intro: add_mono)
  next
    case False
    then have "x = y" using Cons.prems(1) by simp
    moreover have "sum_list (map f ys) \<le> sum_list (map h ys)" using Cons.prems(2) by (intro sum_list_mono) simp
    ultimately show ?thesis using Cons.prems(3) by simp
  qed
qed simp

text \<open>The rows a query for the empty value of a field selects.\<close>

definition empty_cell :: "('f, 're) Query \<Rightarrow> bytes \<Rightarrow> cells \<Rightarrow> bool" where
  "empty_cell q f x \<longleftrightarrow> in_window (From q) (To q) (fst x) \<and> snd x f = []"

lemma empty_leaf_count:
  assumes "FilterE q = Some (OpLeaf p)" and "Kind p = Eq" and "Value p = []" and "distinct (map ColName (Columns g))"
  shows "length (matching G q g) = (if dict_col g (Field p) \<noteq> None then length (filter (empty_cell q (Field p)) (rows_of_group g)) else 0)"
proof -
  have "scanMatchesRow G hs q src \<longleftrightarrow> hs (Field p) \<and> src_field src (Field p) = []" for hs src
    using assms(1-3) by (simp add: scanMatchesRow_def queryHolds_def column_leaf_def isTimePred_def isFieldCmp_def predMatchesRow_def)
  then have "matching G q g = filter (\<lambda>i. dict_col g (Field p) \<noteq> None \<and> empty_cell q (Field p) (group_times g ! i, \<lambda>f. cell_values f g ! i)) [0..<GRows g]"
    unfolding matching_def by (intro filter_cong) (auto simp: src_row [OF assms(4)] empty_cell_def)
  then show ?thesis by (simp add: rows_of_group_def filter_map o_def)
qed

section \<open>Properties\<close>

text \<open>C3: Compaction does not change what a query returns.  A pass over a store, with whatever the operating system answers each of its merges,
  returns, and leaves a store that the histories of the store lead to, whose groups are again
  written groups and which answers the query with the same rows, fields and all, as a multiset; the index has lost one group for each input and gained one
  for each output of the statistics.  The groups of the store agree on which of the columns that the query reads they have, each value is
  shorter than 8 MiB, the columns of all groups fit one group, and the budget of the pass is set and below 4 GiB.\<close>

theorem compaction_keeps_answers:
  assumes "sorter_ok srt" and "\<forall>n. production (io n)" and "history K (en_read E) srt (s, sns)" and "stored K (en_read E) gs s"
    and "\<forall>a \<in> set (groups s). cache_coherent (en_read E) (reader (entries s ! a)) (cs a)" and "\<forall>i \<in> set (ids_of s). plain (gs i) \<and> short_values (gs i)"
    and "alike (en_ord E) q o' (map gs (ids_of s))" and "card (\<Union>i \<in> set (ids_of s). set (col_pairs (gs i))) \<le> maxGroupColumns"
    and "0 < MaxInputBytes opt" and "MaxInputBytes opt < 2 ^ 32" and "unat (nextID s) + length (groups s) < 2 ^ 64"
  shows "\<exists>e st s' gs' sns'. CompactGroups K (en_read E) srt io retry cs opt s = Some (e, st, s') \<and> history K (en_read E) srt (s', sns')
    \<and> stored K (en_read E) gs' s' \<and> mset (store_answer E gs' q o' s') = mset (store_answer E gs q o' s)
    \<and> length (groups s') + Inputs st = length (groups s) + Outputs st"
proof (cases "enabled opt")
  case False
  then show ?thesis using assms(3,4) by (intro exI [of _ None] exI [of _ no_stats] exI [of _ s] exI [of _ gs] exI [of _ sns]) (simp add: CompactGroups_def no_stats_def)
next
  case True
  have inv: "heap_ok s sns" "index_ok s" using history_inv [OF assms(1,3)] by simp_all
  obtain runs held s1 where c: "compactionRuns opt s = (runs, held, s1)" by (metis prod.exhaust)
  note pr = plan_runs [OF inv c]
  let ?h = "\<lparr>snap_entries = held, snap_closed = False\<rparr>" and ?A = "mset (store_answer E gs q o' s)" and ?N = "length (groups s)"
  let ?ok = "pass_ok K E q o' srt (\<lambda>a. gs (ge_id (entries s ! a))) (\<lambda>a. reader (entries s ! a)) (set held) ?A ?N (sns @ [?h])"
  have "length held \<le> ?N" using pr(2,3) inv(2) by (metis card_mono distinct_card finite_set index_ok_def)
  then have ids: "unat (nextID (snd (snd (no_stats, 0 :: nat, s1)))) + length (concat runs) < 2 ^ 64" using assms(11) pr(1,4) by simp
  have hs: "?h \<in> set (sns @ [?h])" "set (snap_entries ?h) = set held" "set (concat runs) \<subseteq> set held" "distinct (concat runs)" using pr(1,2) by simp_all
  obtain e st n s2 where cr: "compact_runs K (en_read E) srt io cs opt runs (no_stats, 0, s1) = Some (e, st, n, s2)" and ok: "?ok (st, n, s2)"
    using runs_keep [OF assms(1,2) hs(1,2) plan_holds [OF inv c assms(4-8)] assms(9,10) pass_start [OF assms(1,3,4) c] hs(3,4) ids] by auto
  define s3 where "s3 = (if e = None then retryTombstones retry s2 else s2)"
  obtain gs' where gs': "stored K (en_read E) gs' s2" "mset (store_answer E gs' q o' s2) = ?A" "\<forall>a \<in> set held. a < length (entries s2)"
    and h2: "history K (en_read E) srt (s2, sns @ [?h])" and cnt: "length (groups s2) + Inputs st = ?N + Outputs st"
    using ok by (auto simp: pass_ok_def)
  have "history K (en_read E) srt (s3, sns @ [?h])" using h2 history_retry [OF h2] by (simp add: s3_def)
  then obtain sn where fin: "history K (en_read E) srt (on_entries release held s3, sns @ [sn])" using release_held by blast
  have s3: "entries s3 = entries s2" "groups s3 = groups s2" using retry_frame [of retry s2] by (auto simp: s3_def)
  have sub: "set held \<subseteq> {..<length (entries s3)}" using gs'(3) s3(1) by auto
  have "a < length (entries s2)" if "a \<in> set (groups s2)" for a using history_inv [OF assms(1) h2] that by (auto simp: index_ok_def)
  then have "stored K (en_read E) gs' (on_entries release held s3) = stored K (en_read E) gs' s2"
    "store_answer E gs' q o' (on_entries release held s3) = store_answer E gs' q o' s2"
    using release_index [OF pr(2) sub] s3 by (intro same_answers; simp)+
  then have sa: "stored K (en_read E) gs' (on_entries release held s3)" "mset (store_answer E gs' q o' (on_entries release held s3)) = ?A"
    using gs'(1,2) by simp_all
  have res: "CompactGroups K (en_read E) srt io retry cs opt s = Some (e, st, on_entries release held s3)"
    if "runs \<noteq> []" using True c cr that by (simp add: CompactGroups_def s3_def)
  show ?thesis
  proof (cases "runs = []")
    case False
    then show ?thesis using res fin sa cnt release_index(1) [OF pr(2) sub] s3(2) by (intro exI conjI) (assumption | simp)+
  next
    case none: True
    then have "held = []" using pr(1) by simp
    then have "s1 = s" "on_entries release held s1 = s" using pr(4) by (simp_all add: on_entries_eq upd_def)
    then show ?thesis using True c none assms(3,4)
      by (intro exI [of _ None] exI [of _ no_stats] exI [of _ s] exI [of _ gs] exI [of _ sns]) (simp add: CompactGroups_def no_stats_def)
  qed
qed

text \<open>A store of two groups with the same rows, compacted.\<close>

lemma append_ok:
  assumes "m_records (fst (man s)) + 1 < compactThreshold" and "ReadGroup b = Some (Inr r)" and "\<not> closed s"
  shows "\<exists>s'. appendBlob stable all_ok b [] s = (Inr (nextID s), s') \<and> m_records (fst (man s')) = m_records (fst (man s)) + 1 \<and> nextID s' = nextID s + 1
    \<and> files s' = (files s)(GroupFile (nextID s) \<mapsto> b) \<and> \<not> closed s'"
proof -
  obtain m f where mf: "man s = (m, f)" by (cases "man s")
  obtain m' f' where c: "commit io_ok [nextID s] [] [] (m, f) = (None, (m', f'))" "m_records m' = m_records m + 1"
    using commit_ok [of m "[nextID s]" "[]" "[]" f] assms(1) by (auto simp: mf)
  then show ?thesis using assms(2,3)
    by (simp add: appendBlob_def commitGroupFile_def commit_locked_def map_group_def all_ok_def mf noteGrowth_def sortGroups_def Let_def)
qed

definition demo_compact :: CompactOptions where
  "demo_compact = \<lparr>MinGroups = 2, MaxRowsPerOutput = 0, MaxInputBytes = 1000000, MaxGroupBytes = 0, OlderThan = 0, MaxOutputs = 0\<rparr>"

lemma demo_plain: "plain demo_group" "short_values demo_group"
proof -
  show "plain demo_group" by (simp add: plain_def demo_group_def col_types time_col_def)
  show "short_values demo_group"
    by (auto simp: short_values_def cell_values_def demo_group_def dict_col_def values_of_def col_types split: option.splits if_splits)
qed

lemma two_groups:
  obtains s where "store_reach stable (s, [])" "set (ids_of s) = {0, 1}" "distinct (ids_of s)" "stored demo_kernels demo_read (\<lambda>_. demo_group) s"
    "\<forall>a \<in> set (groups s). reader (entries s ! a) = demo_reader" "nextID s = 2"
proof -
  have e: "\<not> closed empty_store" "nextID empty_store = 0" "m_visible (fst (man empty_store)) = {}" "m_records (fst (man empty_store)) = 0"
    by (simp_all add: empty_store_def man0_def)
  have i0: "heap_ok empty_store []" "index_ok empty_store" using start_inv [OF empty_start] by simp_all
  obtain s1 where a1: "appendBlob stable all_ok demo_blob [] empty_store = (Inr 0, s1)" "m_records (fst (man s1)) = 1" "nextID s1 = 1"
    "files s1 = (files empty_store)(GroupFile 0 \<mapsto> demo_blob)" "\<not> closed s1"
    using append_ok [of empty_store, OF _ demo_reader e(1)] e(2,4) by (auto simp: compactThreshold_def)
  note v1 = append_inv [OF stable_ok all_ok_production i0 e(1) _ a1(1), simplified e(2), simplified]
  obtain s2 where a2: "appendBlob stable all_ok demo_blob [] s1 = (Inr 1, s2)" "nextID s2 = 2" "files s2 = (files s1)(GroupFile 1 \<mapsto> demo_blob)" "\<not> closed s2"
    using append_ok [of s1, OF _ demo_reader a1(5)] a1(2,3) by (auto simp: compactThreshold_def)
  note v2 = append_inv [OF stable_ok all_ok_production v1(1,2) a1(5) _ a2(1), simplified a1(3), simplified]
  have "store_reach stable (s1, [])"
    using store_reach.step [OF store_reach.start [OF empty_start] store_step.append [OF e(1) all_ok_production, where srt = stable and sns = "[]" and b = demo_blob and wid = "[]"]] a1(1) e(2) by simp
  from store_reach.step [OF this store_step.append [OF a1(5) all_ok_production, where srt = stable and sns = "[]" and b = demo_blob and wid = "[]"]]
  have r: "store_reach stable (s2, [])" using a2(1) a1(3) by simp
  have "set (ids_of empty_store) = {}" using i0(2) e(1,3) by (simp add: index_ok_def)
  then have ids: "set (ids_of s2) = {0, 1}" "distinct (ids_of s2)" using v1(3) v2(2,3) by (auto simp: index_ok_def)
  have rd: "reader (entries s2 ! a) = demo_reader" if "a \<in> set (groups s2)" for a
  proof -
    have "ge_id (entries s2 ! a) \<in> {0, 1}" using ids(1) that by (auto simp: ids_of_def)
    moreover have "on_disk s2 (entries s2 ! a)" using v2(2) that by (simp add: index_ok_def)
    ultimately show ?thesis using a1(4) a2(3) demo_reader by (auto simp: on_disk_def)
  qed
  then have "stored demo_kernels demo_read (\<lambda>_. demo_group) s2" unfolding stored_def using demo_log.written_group_axioms by auto
  then show ?thesis using that r ids rd a2(2) by blast
qed

theorem compaction_keeps_answers_witness:
  "\<exists>s e st s' gs'. length (groups s) = 2 \<and> CompactGroups demo_kernels demo_read stable (\<lambda>_. all_ok) (\<lambda>_. True) (\<lambda>_. demo_cache) demo_compact s = Some (e, st, s')
     \<and> length (store_answer demo_engine gs' demo_query demo_opts s') = 2"
proof -
  obtain s where s: "store_reach stable (s, [])" "set (ids_of s) = {0, 1}" "distinct (ids_of s)" "stored demo_kernels demo_read (\<lambda>_. demo_group) s"
    "\<forall>a \<in> set (groups s). reader (entries s ! a) = demo_reader" "nextID s = 2" using two_groups .
  have len: "length (groups s) = 2" using distinct_card [OF s(3)] s(2) by (simp add: ids_of_def)
  have eng: "en_read demo_engine = demo_read" by (simp add: demo_engine_def)
  have lim: "0 < MaxInputBytes demo_compact" "MaxInputBytes demo_compact < 2 ^ 32" "unat (nextID s) + length (groups s) < 2 ^ 64"
    using s(6) len by (simp_all add: demo_compact_def)
  have al: "alike (en_ord demo_engine) demo_query demo_opts (map (\<lambda>_. demo_group) (ids_of s))" by (auto simp: alike_def)
  have cols: "card (\<Union>i \<in> set (ids_of s). set (col_pairs demo_group)) \<le> maxGroupColumns" by (simp add: s(2) col_pairs_def demo_group_def maxGroupColumns_def)
  have pl: "\<forall>i \<in> set (ids_of s). plain demo_group \<and> short_values demo_group" using demo_plain by simp
  have cc: "\<forall>a \<in> set (groups s). cache_coherent (en_read demo_engine) (reader (entries s ! a)) ((\<lambda>_. demo_cache) a)" using s(5) demo_cache_coherent by simp
  have pr: "\<forall>n. production ((\<lambda>_. all_ok) n)" using all_ok_production by simp
  obtain e st s' gs' where c: "CompactGroups demo_kernels demo_read stable (\<lambda>_. all_ok) (\<lambda>_. True) (\<lambda>_. demo_cache) demo_compact s = Some (e, st, s')"
    "mset (store_answer demo_engine gs' demo_query demo_opts s') = mset (store_answer demo_engine (\<lambda>_. demo_group) demo_query demo_opts s)"
    using compaction_keeps_answers [OF stable_ok pr reach_history [OF s(1)] _ cc pl al cols lim, unfolded eng, OF s(4), of "\<lambda>_. True"] by blast
  have "length (store_answer demo_engine (\<lambda>_. demo_group) demo_query demo_opts s) = 2"
    using len demo_matching by (simp add: store_answer_def group_answer_def demo_engine_def length_concat o_def sum_list_triv ids_of_def)
  then have "length (store_answer demo_engine gs' demo_query demo_opts s') = 2" using arg_cong [OF c(2), of size] by simp
  then show ?thesis using len c(1) by blast
qed

text \<open>C40: Merging groups with different columns changes answers.  A row of a group without a column gets the empty string when it is merged with
  a group that has it; but the scan of a group without the column selects no row for a predicate on it, the empty string included.  So the query
  for the empty value returns none of the rows of the group before the merge and all of those in its window after it.\<close>

theorem compaction_adds_answers:
  assumes "batch_of K R gs xs" and "\<forall>g \<in> set gs. plain g" and "sum_list (map GRows gs) \<le> MaxRows"
    and "g \<in> set gs" and "dict_col g (Field p) = None" and "\<exists>g' \<in> set gs. dict_col g' (Field p) \<noteq> None"
    and "FilterE q = Some (OpLeaf p)" and "Kind p = Eq" and "Value p = []" and "\<forall>t \<in> set (group_times g). in_window (From q) (To q) t"
  shows "\<exists>M before. mergeGroups R xs = Some (Some M, before) \<and> matching G q g = []
    \<and> length (matching G q M) \<ge> sum_list (map (\<lambda>g. length (matching G q g)) gs) + GRows g"
proof -
  let ?has = "\<lambda>g f. dict_col g f \<noteq> None"
  have ne: "gs \<noteq> []" using assms(4) by auto
  obtain cs where cs: "mergeGroups R xs = Some (Some (merged gs cs), int (sum_list (map (\<lambda>x. length (blob (fst x))) xs)))" "union_of gs cs"
    using merge_batch [OF assms(1) ne assms(2)] unfolding union_of_def by blast
  note mg = written_mergeable [OF assms(1) ne assms(2)]
  have n: "sum_list (map GRows gs) < 2 ^ 32" using assms(3) by (simp add: MaxRows_def)
  note mf = merged_facts [OF mg cs(2) n]
  have dist: "distinct (map ColName (Columns h))" "length (group_times h) = GRows h" if "h \<in> set gs" for h
    using mg that group_times_length by (auto simp: mergeable_def)
  have M: "distinct (map ColName (Columns (merged gs cs)))" "?has (merged gs cs) (Field p)" using cs(2) mf(1,3) assms(6) by (auto simp: union_of_def)
  let ?w = "empty_cell q (Field p)"
  note count = empty_leaf_count [OF assms(7-9), where G = G]
  have before: "length (matching G q h) = (if ?has h (Field p) then length (filter ?w (rows_of_group h)) else 0)" if "h \<in> set gs" for h
    by (rule count [OF dist(1) [OF that]])
  have "length (matching G q (merged gs cs)) = length (filter ?w (concat (map rows_of_group gs)))" using M(2) by (simp add: count [OF M(1)] mf(5))
  then have M': "length (matching G q (merged gs cs)) = sum_list (map (\<lambda>h. length (filter ?w (rows_of_group h))) gs)" by (simp add: filter_concat length_concat o_def)
  have "filter ?w (rows_of_group g) = rows_of_group g"
    using assms(5,10) dist(2) [OF assms(4)] by (auto simp: filter_id_conv rows_of_group_def cell_values_def empty_cell_def)
  then have "length (filter ?w (rows_of_group g)) = GRows g" by (simp add: rows_of_group_def)
  then have "sum_list (map (\<lambda>g. length (matching G q g)) gs) + GRows g \<le> length (matching G q (merged gs cs))"
    unfolding M' using before assms(4,5) by (intro sum_list_gain [OF assms(4)]) simp_all
  moreover have "matching G q g = []" using before [OF assms(4)] assms(5) by simp
  ultimately show ?thesis using cs(1) by blast
qed

theorem compaction_adds_answers_witness:
  "\<exists>xs M before. mergeGroups demo_read xs = Some (Some M, before)
     \<and> matching demo_golib (all_query\<lparr>FilterE := Some (OpLeaf (demo_pred Eq [108] []))\<rparr>) (time_group [5, 9]) = []
     \<and> length (matching demo_golib (all_query\<lparr>FilterE := Some (OpLeaf (demo_pred Eq [108] []))\<rparr>) M) \<ge> 2"
proof -
  obtain B r where "written_group demo_kernels demo_read (time_group [5, 9]) B r" using time_group_written [of "[5, 9]"] by auto
  then have b: "batch_of demo_kernels demo_read [time_group [5, 9], demo_group] [(r, new_cache r), (demo_reader, demo_cache)]"
    using demo_log.written_group_axioms demo_cache_coherent new_cache_coherent by (auto simp: batch_of_def)
  have p: "plain (time_group [5, 9])" "GRows (time_group [5, 9]) = 2" "GRows demo_group = 2" "dict_col (time_group [5, 9]) [108] = None" "dict_col demo_group [108] \<noteq> None"
    "group_times (time_group [5, 9]) = [5, 9]"
    by (simp_all add: plain_def time_group_def demo_group_def dict_col_def group_times_def time_col_def col_types)
  have q: "Field (demo_pred Eq [108] []) = [108]" "Kind (demo_pred Eq [108] []) = Eq" "Value (demo_pred Eq [108] []) = []" by (simp_all add: demo_pred_def)
  from compaction_adds_answers [OF b, of "time_group [5, 9]" "demo_pred Eq [108] []" "all_query\<lparr>FilterE := Some (OpLeaf (demo_pred Eq [108] []))\<rparr>" demo_golib]
  show ?thesis using p q demo_plain(1) by (fastforce simp: MaxRows_def all_query_def in_window_def)
qed

end
