(* ===== verification/Inventory.thy ===== *)
theory Inventory
  imports Compaction
begin

text \<open>
  What a replica says of its groups to its peers.  A digest is computed from the file once and kept under the id of the group, so the
  inventory is right as long as a cached digest is that of the file: over every history of the node, since ids are not used twice and the
  bytes under an id do not change.
\<close>

section \<open>What a step keeps of the index\<close>

text \<open>Entries are not changed and what enters the index is new, so its id was not handed out before.\<close>

definition grows :: "u64 \<Rightarrow> Store \<Rightarrow> Store \<Rightarrow> bool" where
  "grows N s s' \<longleftrightarrow> length (entries s) \<le> length (entries s')
     \<and> (\<forall>a < length (entries s). ge_id (entries s' ! a) = ge_id (entries s ! a) \<and> reader (entries s' ! a) = reader (entries s ! a))
     \<and> (\<forall>a \<in> set (groups s'). a \<in> set (groups s) \<or> N \<le> ge_id (entries s' ! a))"

lemma grows_same: "entries s' = entries s \<Longrightarrow> groups s' = groups s \<Longrightarrow> grows N s s'"
  by (simp add: grows_def)

lemma grows_upd:
  assumes "f \<in> {acquire, release, retire}" and "distinct as" and "set as \<subseteq> {..<length (entries s)}" and "entries s' = upd f as (entries s)" and "set (groups s') \<subseteq> set (groups s)"
  shows "grows N s s'"
  using assms(1,5) upd_nth [OF assms(2,3)] by (auto simp: grows_def assms(4))

lemma locked_grows:
  assumes "sorter_ok srt" and "N \<le> i"
  shows "grows N s (snd (commit_locked srt io p i sz wid r s)) \<and> nextID (snd (commit_locked srt io p i sz wid r s)) = nextID s"
proof -
  obtain e m where c: "commit (io_commit io) [i] [] wid (man s) = (e, m)" by (metis prod.exhaust)
  have d: "grows N s (snd (discard io p i x y)) \<and> nextID (snd (discard io p i x y)) = nextID y" if "entries y = entries s" "groups y = groups s" for x y
    using discard_frame [of io p i x y] that by (auto intro: grows_same)
  have srt: "set (srt k xs) = set xs" for k xs using assms(1) by (metis sorter_ok_def mset_eq_setD)
  show ?thesis
  proof (cases "(wid \<noteq> [] \<and> has (receipts s) wid) \<or> e \<noteq> None")
    case True
    then show ?thesis using d [of s ErrDuplicateWrite] d [of "s\<lparr>man := m\<rparr>"] by (auto simp: commit_locked_def c)
  next
    case False
    then show ?thesis using assms(2) unfolding commit_locked_def c
      by (auto simp: grows_def noteGrowth_def sortGroups_def srt nth_append new_entry_def Let_def)
  qed
qed

lemma commit_grows:
  assumes "sorter_ok srt" and "N \<le> i"
  shows "grows N s (snd (commitGroupFile srt io p q i sz wid chk s)) \<and> nextID (snd (commitGroupFile srt io p q i sz wid chk s)) = nextID s"
proof -
  have d: "grows N s (snd (discard io p' i x y)) \<and> nextID (snd (discard io p' i x y)) = nextID y" if "entries y = entries s" "groups y = groups s" for p' x y
    using discard_frame [of io p' i x y] that by (auto intro: grows_same)
  have l: "grows N s (snd (commit_locked srt io q i sz wid r y)) \<and> nextID (snd (commit_locked srt io q i sz wid r y)) = nextID y"
    if "entries y = entries s" "groups y = groups s" for r y
    using locked_grows [OF assms, of y io q sz wid r] that by (simp add: grows_def)
  show ?thesis using d l by (auto simp: commitGroupFile_def Let_def split: sum.split)
qed

lemma append_grows:
  assumes "sorter_ok srt"
  shows "grows (nextID s) s (snd (appendBlob srt io b wid s)) \<and> nextID (snd (appendBlob srt io b wid s)) = nextID s + 1"
proof -
  have d: "grows N s (snd (discard io p i x y)) \<and> nextID (snd (discard io p i x y)) = nextID y" if "entries y = entries s" "groups y = groups s" for N p i x y
    using discard_frame [of io p i x y] that by (auto intro: grows_same)
  let ?s2 = "s\<lparr>nextID := nextID s + 1, files := (files s)(GroupFile (nextID s) \<mapsto> b)\<rparr>"
  have "grows (nextID s) s (snd (commitGroupFile srt io p q (nextID s) sz wid chk ?s2)) \<and> nextID (snd (commitGroupFile srt io p q (nextID s) sz wid chk ?s2)) = nextID s + 1" for p q sz chk
    using commit_grows [OF assms order_refl, of "nextID s" ?s2 io p q sz wid chk] by (simp add: grows_def)
  then show ?thesis using d [of "s\<lparr>nextID := nextID s + 1\<rparr>"] d [of ?s2] by (cases "io_file io") (simp_all add: appendBlob_def Let_def)
qed

lemma drop_grows:
  assumes "index_ok s"
  shows "grows N s (snd (dropGroups io match s)) \<and> nextID (snd (dropGroups io match s)) = nextID s"
proof -
  let ?v = "filter (\<lambda>a. match (entry_at s a)) (groups s)" and ?k = "filter (\<lambda>a. \<not> match (entry_at s a)) (groups s)"
  have g: "distinct ?v" "set ?v \<subseteq> {..<length (entries s)}" using assms by (auto simp: index_ok_def)
  have re: "entries (retryTombstones ok x) = entries x" "groups (retryTombstones ok x) = groups x" "nextID (retryTombstones ok x) = nextID x" for ok x
    using retry_frame [of ok x] by auto
  obtain e m where c: "commit (io_commit io) [] (map (\<lambda>a. ge_id (entry_at s a)) ?v) [] (man s) = (e, m)" by (metis prod.exhaust)
  show ?thesis
  proof (cases "?v = [] \<or> e \<noteq> None")
    case True
    then show ?thesis by (auto simp: dropGroups_def c re Let_def intro: grows_same)
  next
    case False
    let ?s1 = "on_entries retire ?v (s\<lparr>man := m, groups := ?k\<rparr>)" and ?ps = "map (\<lambda>a. ge_path (entry_at s a)) ?v"
    define x where "x = snd (foldl (drop_one (io_unlink io)) (0, ?s1) ?ps)"
    have x: "entries x = upd retire ?v (entries s)" "groups x = ?k" "nextID x = nextID s"
      using drop_fold [of "io_unlink io" 0 ?s1 ?ps] by (auto simp: x_def on_entries_eq)
    have "snd (dropGroups io match s) = retryTombstones (io_retry io) x"
      using False by (simp add: dropGroups_def c Let_def x_def split: prod.split)
    then show ?thesis using x re grows_upd [OF _ g, of retire "retryTombstones (io_retry io) x" N] by simp
  qed
qed

lemma adopt_grows:
  assumes "sorter_ok srt" and "heap_ok s sns" and "index_ok s" and "\<not> closed s" and "AdoptGroupStream H srt io aio reads writable veto digest stream s D = (res, n, s', D')"
  shows "grows (nextID s) s s' \<and> (nextID s' = nextID s \<or> nextID s' = nextID s + 1)"
proof -
  obtain b D1 where h: "hasDigest H reads digest s D = (b, s, D1)" using has_store [OF assms(2-4), of H reads digest D] by (metis prod.collapse)
  obtain ok k x where st: "stage_stream aio (io_unlink io) (nextID s) stream (s\<lparr>nextID := nextID s + 1\<rparr>) = (ok, k, x)" by (rule prod_cases3)
  have x: "entries x = entries s" "groups x = groups s" "nextID x = nextID s + 1"
    using st by (auto simp: stage_stream_def unlink_def Let_def split: if_splits)
  then have u: "grows N s (snd (unlink u p x)) \<and> nextID (snd (unlink u p x)) = nextID s + 1" for N u p by (auto simp: unlink_def intro: grows_same)
  have "grows (nextID s) s (snd (commitGroupFile srt io p q (nextID s) sz wid chk x)) \<and> nextID (snd (commitGroupFile srt io p q (nextID s) sz wid chk x)) = nextID s + 1" for p q sz wid chk
    using commit_grows [OF assms(1) order_refl, of "nextID s" x io p q sz wid chk] x by (simp add: grows_def)
  from this [of "StagedFile (nextID s)" "GroupFile (nextID s)" "int k" "[]" "\<lambda>g. 0 < Rows g \<and> \<not> veto g"] u [of "nextID s" "io_unlink io" "StagedFile (nextID s)"] show ?thesis
    using assms(5) x st by (auto simp: AdoptGroupStream_def h Let_def grows_same split: if_splits bool.splits sum.splits prod.splits)
qed

lemma snapshot_grows:
  assumes "heap_ok s sns" and "index_ok s" and "take_snapshot want s = (Inr sn, s')"
  shows "grows N s s' \<and> nextID s' = nextID s"
  using snapshot_inv(4) [OF assms] by (auto simp: grows_def same_entry_def)

lemma store_grows:
  assumes "sorter_ok srt" and "store_step srt x y" and "heap_ok (fst x) (snd x)" and "index_ok (fst x)"
  shows "grows (nextID (fst x)) (fst x) (fst y) \<and> nextID (fst x) \<le> nextID (fst y)"
  using assms(2-)
proof (induction rule: store_step.induct)
  case (append s io sns b wid)
  then have "nextID s \<le> nextID s + 1" using unatSuc [of "nextID s"] by (simp add: word_le_nat_alt add.commute)
  then show ?case using append_grows [OF assms(1)] by simp
next
  case (receipt s io sns wid)
  then show ?case by (auto simp: CommitReceipt_def intro: grows_same split: prod.splits option.splits)
next
  case (window f t s sn s' sns)
  then show ?case using snapshot_grows by (simp add: SnapshotOf_def)
next
  case (all s sn q s' sns)
  then show ?case using snapshot_grows [of s sns "\<lambda>_. True"] by (auto simp: SnapshotAllWithSeq_def split: prod.splits sum.splits)
next
  case (tail cur s sn nxt s' sns)
  then show ?case using snapshot_grows [of s sns "\<lambda>e. \<not> ge_id e < cur"] by (auto simp: SnapshotAfterID_def split: prod.splits sum.splits)
next
  case (release i sns s sn s')
  have "distinct (snap_entries (sns ! i))" "set (snap_entries (sns ! i)) \<subseteq> {..<length (entries s)}" using release(1,3) by (simp_all add: heap_ok_def)
  moreover have "s' = s \<or> s' = s\<lparr>entries := upd release (snap_entries (sns ! i)) (entries s)\<rparr>" using release(2) by (auto simp: snap_Close_def on_entries_eq split: if_splits)
  ultimately show ?case using grows_upd [of release "snap_entries (sns ! i)" s s' "nextID s"] by (auto intro: grows_same)
next
  case (drop s io sns match)
  then show ?case using drop_grows [of s "nextID s" io match] by simp
next
  case (close s sns)
  have "distinct (groups s)" "set (groups s) \<subseteq> {..<length (entries s)}" using close(2) by (auto simp: index_ok_def)
  then show ?case using grows_upd [of retire "groups s" s "store_Close s" "nextID s"] by (simp add: store_Close_def on_entries_eq Let_def)
qed

lemma merged_grows:
  assumes "merged_index g b batch s s'"
  shows "grows (nextID s) s s'"
proof -
  let ?k = "filter (\<lambda>a. a \<notin> set batch) (groups s)"
  have "mset (groups s') = mset (?k @ [length (entries s)])" using assms by (simp add: merged_index_def)
  from mset_eq_setD [OF this] have "set (groups s') = insert (length (entries s)) (set ?k)" by simp
  then show ?thesis using assms by (auto simp: grows_def merged_index_def)
qed

lemma node_grows:
  assumes "sorter_ok srt" and "node_step K R srt x y" and "heap_ok (fst x) (snd x)" and "index_ok (fst x)"
  shows "grows (nextID (fst x)) (fst x) (fst y) \<and> nextID (fst x) \<le> nextID (fst y)"
  using assms(2-)
proof (induction rule: node_step.induct)
  case (base x y)
  then show ?case using store_grows [OF assms(1)] by blast
next
  case (plan opt s runs held s' sns)
  then have inv: "heap_ok s sns" "index_ok s" by simp_all
  note pr = plan_runs [OF inv plan(1)]
  have "set held \<subseteq> {..<length (entries s)}" using pr(3) inv(2) by (auto simp: index_ok_def)
  then show ?case using grows_upd [of acquire held s s' "nextID s"] pr(2,4) by simp
next
  case (merge sn sns batch io s cs e st s')
  have le: "nextID s \<le> nextID s + 1" using merge(4) unatSuc [of "nextID s"] by (simp add: word_le_nat_alt add.commute)
  have "heap_ok s sns" "index_ok s" using merge.prems by simp_all
  from merge_inv [OF assms(1) merge(3) this merge(4,5)]
  have "nextID s \<le> nextID s'" "same_index s s' \<or> (\<exists>g b. merged_index g b batch s s')" using le by auto
  then show ?case using merged_grows by (auto simp: same_index_def intro: grows_same)
next
  case (retry s sns ok)
  then show ?case using retry_frame [of ok s] by (auto intro: grows_same)
next
  case (adopt s io H aio reads writable veto digest stream D res n s' D' sns)
  have "nextID s \<le> nextID s + 1" using adopt(3) unatSuc [of "nextID s"] by (simp add: word_le_nat_alt add.commute)
  then show ?case using adopt_grows [OF assms(1) _ _ adopt(1,4), of sns] adopt.prems by auto
qed

section \<open>The digest cache\<close>

definition coherent :: "(bytes \<Rightarrow> bytes) \<Rightarrow> digests \<Rightarrow> Store \<Rightarrow> bool" where
  "coherent H D s \<longleftrightarrow> (\<forall>i \<in> dom D. i < nextID s) \<and> (\<forall>a \<in> set (groups s). \<forall>d. D (ge_id (entries s ! a)) = Some d \<longrightarrow> d = H (blob (reader (entries s ! a))))"

lemma coherent_grows:
  assumes "coherent H D s" and "grows (nextID s) s s'" and "nextID s \<le> nextID s'" and "index_ok s"
  shows "coherent H D s'"
proof -
  have "\<forall>i \<in> dom D. i < nextID s'" using assms(1,3) by (auto simp: coherent_def intro: less_le_trans)
  moreover have "d = H (blob (reader (entries s' ! a)))" if a: "a \<in> set (groups s')" and d: "D (ge_id (entries s' ! a)) = Some d" for a d
  proof -
    have "ge_id (entries s' ! a) < nextID s" using assms(1) d by (auto simp: coherent_def)
    then have "a \<in> set (groups s)" using assms(2) a by (auto simp: grows_def)
    moreover from this have "a < length (entries s)" using assms(4) by (auto simp: index_ok_def)
    ultimately show ?thesis using assms(1,2) d by (simp add: coherent_def grows_def)
  qed
  ultimately show ?thesis by (simp add: coherent_def)
qed

lemma blob_read: "ReadGroup b = Some (Inr r) \<Longrightarrow> blob r = b"
  using ReadGroup_ok [of b] by auto

lemma file_of:
  assumes "index_ok s" and "a \<in> set (groups s)"
  shows "files s (GroupFile (ge_id (entries s ! a))) = Some (blob (reader (entries s ! a)))"
proof -
  have "on_disk s (entries s ! a)" using assms by (simp add: index_ok_def)
  then show ?thesis using blob_read by (auto simp: on_disk_def)
qed

text \<open>One cached digest: it is that of the file, whichever way it was found.\<close>

lemma cached_exact:
  assumes "index_ok s" and "coherent H D s" and a: "a \<in> set (groups s)" and "F = files s" and s1: "files s1 = F"
    and c: "groupDigestCached H reads (ge_id (entries s ! a)) s1 D = (res, D')"
  shows "coherent H D' s" and "res = Inr d \<Longrightarrow> d = H (blob (reader (entries s ! a)))" and "\<forall>p. reads p \<Longrightarrow> res = Inr (H (blob (reader (entries s ! a))))"
proof -
  let ?i = "ge_id (entries s ! a)"
  have f: "files s1 (GroupFile ?i) = Some (blob (reader (entries s ! a)))" using file_of [OF assms(1) a] assms(4) s1 by simp
  have i: "?i < nextID s" "distinct (map (\<lambda>a. ge_id (entries s ! a)) (groups s))" using assms(1) a by (auto simp: index_ok_def ids_of_def)
  have one: "a' = a" if "a' \<in> set (groups s)" "ge_id (entries s ! a') = ?i" for a' using i(2) a that by (auto simp: distinct_map inj_on_def)
  have "coherent H (D(?i \<mapsto> H (blob (reader (entries s ! a))))) s"
    using assms(2) i(1) one by (auto simp: coherent_def)
  then show "coherent H D' s" using assms(2) c f by (auto simp: groupDigestCached_def fileDigest_def split: option.splits if_splits)
  show "res = Inr d \<Longrightarrow> d = H (blob (reader (entries s ! a)))" using c f assms(2) a by (auto simp: groupDigestCached_def fileDigest_def coherent_def split: option.splits if_splits)
  show "\<forall>p. reads p \<Longrightarrow> res = Inr (H (blob (reader (entries s ! a))))"
    using c f assms(2) a by (auto simp: groupDigestCached_def fileDigest_def coherent_def split: option.splits)
qed

section \<open>The walks over the index\<close>

text \<open>What the inventory should say of a group.\<close>

definition digest_of :: "(bytes \<Rightarrow> bytes) \<Rightarrow> groupEntry \<Rightarrow> GroupDigest" where
  "digest_of H e = \<lparr>Digest = H (blob (reader e)), gd_ID = ge_id e, gd_Rows = Rows (reader e), gd_TimeMin = TimeMin (reader e), gd_TimeMax = TimeMax (reader e),
     gd_Bytes = length (blob (reader e))\<rparr>"

abbreviation "id_at s \<equiv> \<lambda>a. ge_id (entries s ! a)"

lemma has_loop_exact:
  assumes "index_ok s" and "files s1 = files s" and "set as \<subseteq> set (groups s)" and "coherent H D s" and "has_loop H reads digest s1 (map (id_at s) as) D = (b, D')"
  shows "coherent H D' s \<and> (b \<longrightarrow> (\<exists>a \<in> set as. H (blob (reader (entries s ! a))) = digest))
    \<and> ((\<forall>p. reads p) \<longrightarrow> b = (\<exists>a \<in> set as. H (blob (reader (entries s ! a))) = digest))"
  using assms(3-)
proof (induction as arbitrary: D)
  case (Cons a as)
  obtain res D1 where c: "groupDigestCached H reads (id_at s a) s1 D = (res, D1)" by (rule that [OF prod.collapse [symmetric]])
  note ce = cached_exact [OF assms(1) Cons.prems(2) _ refl assms(2) c]
  show ?case
  proof (cases "res = Inr digest")
    case True
    then show ?thesis using ce Cons.prems c by auto
  next
    case False
    then have l: "has_loop H reads digest s1 (map (id_at s) as) D1 = (b, D')" using Cons.prems(3) c by (auto split: sum.splits if_splits)
    have "coherent H D1 s" using ce(1) Cons.prems(1) by simp
    from Cons.IH [OF _ this l] ce(3) False Cons.prems(1) show ?thesis by auto
  qed
qed simp

lemma open_loop_exact:
  assumes "index_ok s" and "files s1 = files s" and "set as \<subseteq> set (groups s)" and "coherent H D s" and "open_loop H reads again opens digest s1 (map (id_at s) as) D = (res, D')"
  shows "coherent H D' s \<and> (\<forall>b. res = Inr b \<longrightarrow> (\<exists>a \<in> set as. b = blob (reader (entries s ! a)) \<and> H b = digest))
    \<and> ((\<forall>p. reads p \<and> again p \<and> opens p) \<longrightarrow> (\<exists>a \<in> set as. H (blob (reader (entries s ! a))) = digest) \<longrightarrow> (\<exists>b. res = Inr b))"
  using assms(3-)
proof (induction as arbitrary: D)
  case (Cons a as)
  obtain r D1 where c: "groupDigestCached H reads (id_at s a) s1 D = (r, D1)" by (rule that [OF prod.collapse [symmetric]])
  have a: "a \<in> set (groups s)" using Cons.prems(1) by simp
  note ce = cached_exact [OF assms(1) Cons.prems(2) a refl assms(2) c] and f = file_of [OF assms(1) a]
  show ?case
  proof (cases "r = Inr digest")
    case True
    then have "H (blob (reader (entries s ! a))) = digest" using ce(2) by simp
    then show ?thesis using ce(1) Cons.prems(3) c True f assms(2) by (auto simp: fileDigest_def split: if_splits)
  next
    case False
    then have l: "open_loop H reads again opens digest s1 (map (id_at s) as) D1 = (res, D')" using Cons.prems(3) c by (auto split: sum.splits if_splits)
    from Cons.IH [OF _ ce(1) l] ce(3) False Cons.prems(1) show ?thesis by auto
  qed
qed auto

lemma digest_loop_exact:
  assumes "index_ok s" and "files s1 = files s" and "set as \<subseteq> set (groups s)" and "coherent H D s"
    and "digest_loop H ok reads s1 (map (\<lambda>a. (id_at s a, reader (entries s ! a))) as) D = (res, D')"
  shows "coherent H D' s \<and> (\<forall>out. res = Inr out \<longrightarrow> out = map (\<lambda>a. digest_of H (entries s ! a)) as) \<and> ((\<forall>p. ok p \<and> reads p) \<longrightarrow> (\<exists>out. res = Inr out))"
  using assms(3-)
proof (induction as arbitrary: D D' res)
  case (Cons a as)
  obtain r D1 where c: "groupDigestCached H reads (id_at s a) s1 D = (r, D1)" by (rule that [OF prod.collapse [symmetric]])
  obtain res2 D2 where l: "digest_loop H ok reads s1 (map (\<lambda>a. (id_at s a, reader (entries s ! a))) as) D1 = (res2, D2)" by (rule that [OF prod.collapse [symmetric]])
  have a: "a \<in> set (groups s)" using Cons.prems(1) by simp
  note ce = cached_exact [OF assms(1) Cons.prems(2) a refl assms(2) c] and f = file_of [OF assms(1) a]
  have as: "set as \<subseteq> set (groups s)" using Cons.prems(1) by simp
  note IH = Cons.IH [OF as ce(1) l]
  show ?case
  proof (cases "ok (GroupFile (id_at s a))")
    case False
    then show ?thesis using Cons.prems(2,3) by auto
  next
    case True
    note step = Cons.prems(3) [simplified, unfolded c l assms(2) f, simplified True, simplified]
    show ?thesis
    proof (cases r)
      case (Inl e)
      then show ?thesis using step ce(1,3) by auto
    next
      case (Inr d)
      have d: "d = H (blob (reader (entries s ! a)))" using ce(2) Inr by simp
      show ?thesis
      proof (cases res2)
        case (Inl e)
        then have "res = Inl e" "D' = D2" using step l \<open>r = Inr d\<close> by simp_all
        then show ?thesis using IH Inl by simp
      next
        case (Inr out)
        then have "res = Inr (digest_of H (entries s ! a) # out)" "D' = D2" using step l \<open>r = Inr d\<close> d by (simp_all add: digest_of_def)
        then show ?thesis using IH Inr by simp
      qed
    qed
  qed
qed simp

section \<open>The histories of a replica\<close>

inductive replica :: "group_kernels \<Rightarrow> read_kernels \<Rightarrow> sorter \<Rightarrow> (bytes \<Rightarrow> bytes) \<Rightarrow> Store \<times> Snapshot list \<times> digests \<Rightarrow> bool" for K R srt H where
  start: "store_start s \<Longrightarrow> replica K R srt H (s, [], Map.empty)"
| node: "replica K R srt H (s, sns, D) \<Longrightarrow> node_step K R srt (s, sns) (s', sns') \<Longrightarrow> replica K R srt H (s', sns', D)"
| inventory: "replica K R srt H (s, sns, D) \<Longrightarrow> \<not> closed s \<Longrightarrow> GroupDigests H ok reads s D = (res, s', D') \<Longrightarrow> replica K R srt H (s', sns, D')"
| serve: "replica K R srt H (s, sns, D) \<Longrightarrow> \<not> closed s \<Longrightarrow> OpenGroupBytes H reads again opens digest s D = (res, s', D') \<Longrightarrow> replica K R srt H (s', sns, D')"
| adopt: "replica K R srt H (s, sns, D) \<Longrightarrow> \<not> closed s \<Longrightarrow> production io \<Longrightarrow> nextID s + 1 \<noteq> 0
    \<Longrightarrow> AdoptGroupStream H srt io aio reads writable veto digest stream s D = (res, n, s', D') \<Longrightarrow> replica K R srt H (s', sns, D')"

lemma has_exact:
  assumes "heap_ok s sns" and "index_ok s" and "\<not> closed s" and "coherent H D s" and "hasDigest H reads digest s D = (b, s', D')"
  shows "s' = s \<and> coherent H D' s \<and> (b \<longrightarrow> (\<exists>a \<in> set (groups s). H (blob (reader (entries s ! a))) = digest))
    \<and> ((\<forall>p. reads p) \<longrightarrow> b = (\<exists>a \<in> set (groups s). H (blob (reader (entries s ! a))) = digest))"
proof (rule whole_snapshot [OF assms(1-3)])
  fix sn q s1
  assume sn: "SnapshotAllWithSeq s = (Inr (sn, q), s1)" "snd (snap_Close sn s1) = s" "files s1 = files s" "snap_GroupIDs s1 sn = ids_of s"
  then have l: "has_loop H reads digest s1 (map (id_at s) (groups s)) D = (b, D')" and "s' = s"
    using assms(5) by (auto simp: hasDigest_def ids_of_def split: prod.splits)
  then show ?thesis using has_loop_exact [OF assms(2) sn(3) order_refl assms(4) l] by simp
qed

lemma open_exact:
  assumes "heap_ok s sns" and "index_ok s" and "\<not> closed s" and "coherent H D s" and "OpenGroupBytes H reads again opens digest s D = (res, s', D')"
  shows "s' = s \<and> coherent H D' s \<and> (\<forall>b. res = Inr b \<longrightarrow> (\<exists>a \<in> set (groups s). b = blob (reader (entries s ! a)) \<and> H b = digest))
    \<and> ((\<forall>p. reads p \<and> again p \<and> opens p) \<longrightarrow> (\<exists>a \<in> set (groups s). H (blob (reader (entries s ! a))) = digest) \<longrightarrow> (\<exists>b. res = Inr b))"
proof (rule whole_snapshot [OF assms(1-3)])
  fix sn q s1
  assume sn: "SnapshotAllWithSeq s = (Inr (sn, q), s1)" "snd (snap_Close sn s1) = s" "files s1 = files s" "snap_GroupIDs s1 sn = ids_of s"
  then have l: "open_loop H reads again opens digest s1 (map (id_at s) (groups s)) D = (res, D')" and "s' = s"
    using assms(5) by (auto simp: OpenGroupBytes_def ids_of_def split: prod.splits)
  then show ?thesis using open_loop_exact [OF assms(2) sn(3) order_refl assms(4) l] by simp
qed

lemma inventory_of:
  assumes "heap_ok s sns" and "index_ok s" and "\<not> closed s" and "coherent H D s" and "GroupDigests H ok reads s D = (res, s', D')"
  shows "s' = s \<and> coherent H D' s \<and> (\<forall>out. res = Inr out \<longrightarrow> out = map (\<lambda>a. digest_of H (entries s ! a)) (groups s) \<and> dom D' \<subseteq> set (ids_of s))
    \<and> ((\<forall>p. ok p \<and> reads p) \<longrightarrow> (\<exists>out. res = Inr out))"
proof (rule whole_snapshot [OF assms(1-3)])
  fix sn q s1
  assume sn: "SnapshotAllWithSeq s = (Inr (sn, q), s1)" "snd (snap_Close sn s1) = s" "files s1 = files s" "snap_GroupIDs s1 sn = ids_of s"
    "snap_Groups s1 sn = map (\<lambda>a. reader (entries s ! a)) (groups s)"
  have pairs: "snap_pairs s1 sn = map (\<lambda>a. (id_at s a, reader (entries s ! a))) (groups s)" by (simp add: snap_pairs_def sn(4,5) ids_of_def zip_map_map zip_same_conv_map)
  obtain r D1 where l: "digest_loop H ok reads s1 (map (\<lambda>a. (id_at s a, reader (entries s ! a))) (groups s)) D = (r, D1)" by (rule that [OF prod.collapse [symmetric]])
  note dl = digest_loop_exact [OF assms(2) sn(3) order_refl assms(4) l]
  have res: "s' = s" "res = r" "D' = (case r of Inl e \<Rightarrow> D1 | Inr out \<Rightarrow> D1 |` set (ids_of s))"
    using assms(5) sn by (auto simp: GroupDigests_def pairs l Let_def split: sum.splits)
  have D1: "coherent H D1 s" using dl by simp
  then have "coherent H (D1 |` X) s" for X by (auto simp: coherent_def restrict_map_def dom_def split: if_splits)
  then have "coherent H D' s" using D1 res(3) by (simp split: sum.splits)
  moreover have "dom D' \<subseteq> set (ids_of s)" if "res = Inr out" for out using res that by (auto simp: restrict_map_def split: if_splits)
  ultimately show ?thesis using dl res(1,2) by blast
qed

lemma replica_inv:
  assumes "sorter_ok srt" and "replica K R srt H (s, sns, D)"
  shows "history K R srt (s, sns) \<and> coherent H D s"
  using assms(2)
proof (induction "(s, sns, D)" arbitrary: s sns D rule: replica.induct)
  case (start s)
  then show ?case by (auto simp: coherent_def intro: history.start)
next
  case (node s sns D s' sns')
  then show ?case using node_grows [OF assms(1) node(3)] history_inv [OF assms(1), of K R "(s, sns)"] by (auto intro: history.step coherent_grows)
next
  case (inventory s sns D ok reads res s' D')
  then show ?case using inventory_of [of s sns H D ok reads res s' D'] history_inv [OF assms(1), of K R "(s, sns)"] by simp
next
  case (serve s sns D reads again opens digest res s' D')
  then show ?case using open_exact [of s sns H D reads again opens digest res s' D'] history_inv [OF assms(1), of K R "(s, sns)"] by simp
next
  case (adopt s sns D io aio reads writable veto digest stream res n s' D')
  have inv: "heap_ok s sns" "index_ok s" "coherent H D s" using adopt(2) history_inv [OF assms(1), of K R "(s, sns)"] by simp_all
  obtain b x D1 where h: "hasDigest H reads digest s D = (b, x, D1)" by (rule prod_cases3)
  have "nextID s \<le> nextID s + 1" using adopt(5) unatSuc [of "nextID s"] by (simp add: word_le_nat_alt add.commute)
  then have "nextID s \<le> nextID s'" "grows (nextID s) s s'" using adopt_grows [OF assms(1) inv(1,2) adopt(3,6)] by auto
  moreover have "coherent H D' s" using adopt_inv(2) [OF assms(1) adopt(4) inv(1,2) adopt(3,5,6)] has_exact [OF inv(1,2) adopt(3) inv(3) h] by (simp add: h)
  moreover have "history K R srt (s', sns)" using adopt(2) history.step [OF _ node_step.adopt [OF adopt(3-6)]] by blast
  ultimately show ?case using coherent_grows [OF _ _ _ inv(2)] by blast
qed

section \<open>Properties\<close>

text \<open>C6: The inventory of a replica names its groups by what is on its disk.  After any history of writes, snapshots, retention, compaction and
  adoption, of inventories and of groups served, with any failure of the operating system: an inventory that returns lists every committed group in index order
  with the hash and the length of its file and the rows and times of its reader, though most of the hashes come from the cache; it does
  return when the files can be read; it leaves the store as it was and keeps no digest of a group that is gone.\<close>

theorem inventory_exact:
  assumes "sorter_ok srt" and "replica K R srt H (s, sns, D)" and "\<not> closed s" and "GroupDigests H ok reads s D = (res, s', D')"
  shows "s' = s \<and> (\<forall>out. res = Inr out \<longrightarrow> dom D' \<subseteq> set (ids_of s)
      \<and> list_all2 (\<lambda>a d. \<exists>b. files s (GroupFile (ge_id (entries s ! a))) = Some b \<and> Digest d = H b \<and> gd_Bytes d = length b \<and> ReadGroup b = Some (Inr (reader (entries s ! a)))
           \<and> gd_ID d = ge_id (entries s ! a) \<and> gd_Rows d = Rows (reader (entries s ! a)) \<and> gd_TimeMin d = TimeMin (reader (entries s ! a)) \<and> gd_TimeMax d = TimeMax (reader (entries s ! a)))
         (groups s) out)
    \<and> ((\<forall>p. ok p \<and> reads p) \<longrightarrow> (\<exists>out. res = Inr out))"
proof -
  have h: "history K R srt (s, sns)" "coherent H D s" using replica_inv [OF assms(1,2)] by simp_all
  have inv: "heap_ok s sns" "index_ok s" using history_inv [OF assms(1) h(1)] by simp_all
  have rd: "\<exists>b. files s (GroupFile (ge_id (entries s ! a))) = Some b \<and> Digest d = H b \<and> gd_Bytes d = length b \<and> ReadGroup b = Some (Inr (reader (entries s ! a)))
      \<and> gd_ID d = ge_id (entries s ! a) \<and> gd_Rows d = Rows (reader (entries s ! a)) \<and> gd_TimeMin d = TimeMin (reader (entries s ! a)) \<and> gd_TimeMax d = TimeMax (reader (entries s ! a))"
    if "a \<in> set (groups s)" "d = digest_of H (entries s ! a)" for a d
    using invariant_facts [OF inv] file_of [OF inv(2) that(1)] that by (auto simp: digest_of_def)
  note io = inventory_of [OF inv assms(3) h(2) assms(4)]
  show ?thesis
  proof (intro conjI allI impI)
    fix out assume "res = Inr out"
    then have out: "out = map (\<lambda>a. digest_of H (entries s ! a)) (groups s)" "dom D' \<subseteq> set (ids_of s)" using io by blast+
    then show "dom D' \<subseteq> set (ids_of s)" by simp
    show "list_all2 (\<lambda>a d. \<exists>b. files s (GroupFile (ge_id (entries s ! a))) = Some b \<and> Digest d = H b \<and> gd_Bytes d = length b \<and> ReadGroup b = Some (Inr (reader (entries s ! a)))
           \<and> gd_ID d = ge_id (entries s ! a) \<and> gd_Rows d = Rows (reader (entries s ! a)) \<and> gd_TimeMin d = TimeMin (reader (entries s ! a)) \<and> gd_TimeMax d = TimeMax (reader (entries s ! a)))
         (groups s) out"
      unfolding out(1) list_all2_map2 by (rule list.rel_refl_strong) (rule rd; simp)
  qed (use io in blast)+
qed

lemma history_replica: "history K R srt x \<Longrightarrow> replica K R srt H (fst x, snd x, Map.empty)"
proof (induction rule: history.induct)
  case (step x y)
  then show ?case using replica.node [of K R srt H "fst x" "snd x" Map.empty "fst y" "snd y"] by simp
qed (simp add: replica.start)

theorem inventory_exact_witness:
  "\<exists>s d D'. GroupDigests (\<lambda>b. [of_nat (length b)]) (\<lambda>_. True) (\<lambda>_. True) s Map.empty = (Inr [d], s, D') \<and> gd_ID d = 0 \<and> Digest d = [of_nat (gd_Bytes d)]"
proof -
  obtain b r where b: "ReadGroup b = Some (Inr r)" using demo_marshal by blast
  let ?s = "snd (appendBlob stable all_ok b [] empty_store)" and ?H = "\<lambda>b :: bytes. [of_nat (length b) :: byte]"
  have e: "\<not> closed empty_store" "nextID empty_store = 0" by (simp_all add: empty_store_def)
  have r: "store_reach stable (?s, [])"
    by (rule store_reach.step [OF store_reach.start [OF empty_start] store_step.append [OF e(1) all_ok_production]]) (simp add: e)
  have ids: "set (ids_of ?s) = {0}"
    using append_inv(3) [OF stable_ok all_ok_production _ _ e(1) _ prod.collapse [symmetric], of "[]" b "[]"]
      start_inv [OF empty_start] empty_append [OF b, of "[]"] e(2) by (auto simp: empty_store_def ids_of_def)
  have op: "\<not> closed ?s" using append_frame(1) [of stable all_ok b "[]" empty_store] e by simp
  have rep: "replica demo_kernels demo_read stable ?H (?s, [], Map.empty)" using history_replica [OF reach_history [OF r]] by simp
  obtain res s' D' where g: "GroupDigests ?H (\<lambda>_. True) (\<lambda>_. True) ?s Map.empty = (res, s', D')" by (rule prod_cases3)
  note ie = inventory_exact [OF stable_ok rep op g]
  then obtain out where out: "s' = ?s" "res = Inr out" by auto
  have "distinct (ids_of ?s)" using reach_inv [OF stable_ok r] by (simp add: index_ok_def)
  then have "ids_of ?s = [0]" using ids by (cases "ids_of ?s"; cases "tl (ids_of ?s)") auto
  then obtain a where a: "groups ?s = [a]" "ge_id (entries ?s ! a) = 0" by (auto simp: ids_of_def)
  then obtain d where "out = [d]" "gd_ID d = 0" "Digest d = [of_nat (gd_Bytes d)]"
    using ie out(2) by (auto simp: list_all2_Cons1)
  then show ?thesis using g out by (intro exI [of _ ?s] exI [of _ d] exI [of _ D']) simp
qed

text \<open>C5: Adopting a group from a peer is safe and idempotent.  When it adopts, the index has gained exactly one group, under an id no group had, whose file is the stream, and the
  stream hashes to the digest that was asked for, parses, has rows and was not vetoed; no group had the digest if the files could be read.  When it declines, a
  group with the digest is already there and nothing changed; when it fails, at whichever step, the committed groups are what they were.  After it adopted or declined, a
  further adoption of the digest, with whatever stream, changes nothing as long as the files can be read.\<close>

theorem adoption_exact:
  assumes "sorter_ok srt" and "replica K R srt H (s, sns, D)" and "\<not> closed s" and "production io" and "nextID s + 1 \<noteq> 0"
    and "AdoptGroupStream H srt io aio reads writable veto digest stream s D = (res, n, s', D')"
  shows "((res = Inr True \<and> H stream = digest \<and> set (ids_of s') = insert (nextID s) (set (ids_of s)) \<and> nextID s \<notin> set (ids_of s)
        \<and> files s' (GroupFile (nextID s)) = Some stream \<and> (\<exists>r. ReadGroup stream = Some (Inr r) \<and> 0 < Rows r \<and> \<not> veto r)
        \<and> ((\<forall>p. reads p) \<longrightarrow> (\<forall>i \<in> set (ids_of s). \<forall>b. files s (GroupFile i) = Some b \<longrightarrow> H b \<noteq> digest)))
      \<or> (res = Inr False \<and> s' = s \<and> (\<exists>i \<in> set (ids_of s). \<exists>b. files s (GroupFile i) = Some b \<and> H b = digest))
      \<or> (\<exists>e. res = Inl e \<and> ids_of s' = ids_of s))
    \<and> ((\<exists>x. res = Inr x) \<longrightarrow> (\<forall>p. again p) \<longrightarrow> (\<exists>D2. AdoptGroupStream H srt io' aio' again writable' veto' digest stream' s' D' = (Inr False, 0, s', D2)))"
proof -
  have h: "history K R srt (s, sns)" "coherent H D s" using replica_inv [OF assms(1,2)] by simp_all
  have inv: "heap_ok s sns" "index_ok s" using history_inv [OF assms(1) h(1)] by simp_all
  have has: "(\<exists>a \<in> set (groups x). H (blob (reader (entries x ! a))) = digest) \<longleftrightarrow> (\<exists>i \<in> set (ids_of x). \<exists>b. files x (GroupFile i) = Some b \<and> H b = digest)" if "index_ok x" for x
    using file_of [OF that] by (auto simp: ids_of_def)
  obtain b y D1 where hd: "hasDigest H reads digest s D = (b, y, D1)" by (rule prod_cases3)
  note he = has_exact [OF inv assms(3) h(2) hd]
  note ai = adopt_inv [OF assms(1,4) inv assms(3,5,6)]
  have new: "nextID s \<notin> set (ids_of s)" using inv(2) by (auto simp: index_ok_def)
  have r': "replica K R srt H (s', sns, D')" by (rule replica.adopt [OF assms(2-6)])
  have inv': "heap_ok s' sns" "index_ok s'" "coherent H D' s'"
    using replica_inv [OF assms(1) r'] history_inv [OF assms(1), of K R "(s', sns)"] by simp_all
  have again: "\<exists>D2. AdoptGroupStream H srt io' aio' again writable' veto' digest stream' s' D' = (Inr False, 0, s', D2)"
    if "\<exists>i \<in> set (ids_of s'). \<exists>b. files s' (GroupFile i) = Some b \<and> H b = digest" "\<forall>p. again p"
  proof -
    have "groups s' \<noteq> []" using that(1) by (auto simp: ids_of_def)
    then have "\<not> closed s'" using inv'(2) by (auto simp: index_ok_def)
    obtain b' y' D2 where hd': "hasDigest H again digest s' D' = (b', y', D2)" by (rule prod_cases3)
    have "b'" "y' = s'" using has_exact [OF inv'(1,2) \<open>\<not> closed s'\<close> inv'(3) hd'] has [OF inv'(2)] that by simp_all
    with hd' show ?thesis by (simp add: AdoptGroupStream_def)
  qed
  from ai(1) consider "res = Inr True" "\<not> b" "H stream = digest" "set (ids_of s') = insert (nextID s) (set (ids_of s))" "files s' (GroupFile (nextID s)) = Some stream"
      "\<exists>r. ReadGroup stream = Some (Inr r) \<and> 0 < Rows r \<and> \<not> veto r"
    | "res = Inr False" "b" "s' = s" | e where "res = Inl e" "ids_of s' = ids_of s" unfolding hd fst_conv by blast
  then show ?thesis
  proof cases
    case 1
    then have "\<exists>i \<in> set (ids_of s'). \<exists>b. files s' (GroupFile i) = Some b \<and> H b = digest" by auto
    moreover have "\<forall>i \<in> set (ids_of s). \<forall>b. files s (GroupFile i) = Some b \<longrightarrow> H b \<noteq> digest" if "\<forall>p. reads p" using he has [OF inv(2)] 1(2) that by blast
    ultimately show ?thesis using 1 new again by blast
  next
    case 2
    then have "\<exists>i \<in> set (ids_of s). \<exists>b. files s (GroupFile i) = Some b \<and> H b = digest" using he has [OF inv(2)] by blast
    then show ?thesis using 2 again by blast
  next
    case 3
    then show ?thesis by simp
  qed
qed

definition good_stage :: adopt_io where
  "good_stage = \<lparr>aio_create = True, aio_copy = None, aio_sync = True, aio_close = True\<rparr>"

theorem adoption_exact_witness:
  "\<exists>b s' D' D2. ReadGroup b \<noteq> None \<and> AdoptGroupStream (\<lambda>b. [of_nat (length b)]) stable all_ok good_stage (\<lambda>_. True) True (\<lambda>_. False) [of_nat (length b)] b empty_store Map.empty
       = (Inr True, length b, s', D') \<and> set (ids_of s') = {0} \<and> files s' (GroupFile 0) = Some b
     \<and> AdoptGroupStream (\<lambda>b. [of_nat (length b)]) stable all_ok good_stage (\<lambda>_. True) True (\<lambda>_. False) [of_nat (length b)] b s' D' = (Inr False, 0, s', D2)"
proof -
  let ?H = "\<lambda>b :: bytes. [of_nat (length b) :: byte]"
  obtain b r where b: "ReadGroup b = Some (Inr r)" "0 < Rows r" using demo_reader demo_log.rows_le(2) by (auto simp: demo_group_def)
  let ?A = "AdoptGroupStream ?H stable all_ok good_stage (\<lambda>_. True) True (\<lambda>_. False) [of_nat (length b)] b empty_store Map.empty"
  have e: "\<not> closed empty_store" "nextID empty_store = 0" "ids_of empty_store = []" by (simp_all add: empty_store_def ids_of_def)
  have rep: "replica demo_kernels demo_read stable ?H (empty_store, [], Map.empty)" by (rule replica.start [OF empty_start])
  have inv: "heap_ok empty_store []" "index_ok empty_store" using start_inv [OF empty_start] by simp_all
  have hs: "hasDigest ?H (\<lambda>_. True) [of_nat (length b)] empty_store Map.empty = (False, empty_store, Map.empty)"
    by (simp add: hasDigest_def SnapshotAllWithSeq_def take_snapshot_def snap_Close_def snap_GroupIDs_def on_entries_def empty_store_def)
  obtain m' f' where c: "commit io_ok [0] [] [] (man0, None) = (None, (m', f'))"
    using commit_ok [of man0 "[0]" "[]" "[]" None] by (auto simp: man0_def compactThreshold_def)
  obtain s' where s': "?A = (Inr True, length b, s', Map.empty)"
    using b c unfolding AdoptGroupStream_def hs
    by (simp add: stage_stream_def good_stage_def commitGroupFile_def commit_locked_def map_group_def all_ok_def empty_store_def Let_def)
  note ae = adoption_exact [OF stable_ok rep e(1) all_ok_production _ s', where again = "\<lambda>_. True" and io' = all_ok and aio' = good_stage and writable' = True
      and veto' = "\<lambda>_. False" and stream' = b]
  then obtain D2 where "set (ids_of s') = {0}" "files s' (GroupFile 0) = Some b"
    "AdoptGroupStream ?H stable all_ok good_stage (\<lambda>_. True) True (\<lambda>_. False) [of_nat (length b)] b s' Map.empty = (Inr False, 0, s', D2)"
    using e by auto
  then show ?thesis using b s' by (intro exI [of _ b] exI [of _ s'] exI [of _ Map.empty] exI [of _ D2]) simp
qed

end
