(* ===== verification/Recompact.thy ===== *)
theory Recompact
  imports Rewrites Inventory
begin

text \<open>
  Tiered storage, \<^verbatim>\<open>internal/storage/recompact.go\<close>: groups that are old enough are rewritten in place with a slower codec for their dictionaries and, on
  request, without postings.  The bytes under an id change, which nothing else in the store does, so the pass carries the digest cache.

  A rewrite that fails after the new file has its name, because the directory cannot be synced or the file cannot be mapped, leaves the old group in the index over
  a file with the new bytes; the theorem below is about passes in which that does not happen.  The index caches that the rebuild fills are
  not followed, and the test hook is nil.
\<close>

section \<open>The pass\<close>

fun lz4_block :: "dictSec \<Rightarrow> nat list \<Rightarrow> bool option" where
  "lz4_block d [] = Some False"
| "lz4_block d (k # ks) = do {
     rawField \<leftarrow> get32 (ds_idx d) (k * 12 + 8);
     if and rawField (or dictCodecFlate dictCodecHex) = 0 then Some True else lz4_block d ks
   }"

fun needs_columns :: "Reader \<Rightarrow> colMeta list \<Rightarrow> bool option" where
  "needs_columns r [] = Some False"
| "needs_columns r (m # ms) = (if Type m \<noteq> ColDict \<or> DictLen m = 0 then needs_columns r ms else do {
     sec \<leftarrow> dictSec_of r m;
     d \<leftarrow> parseDictSec sec;
     x \<leftarrow> lz4_block d [0..<numBlocks d];
     if x then Some True else needs_columns r ms
   })"

definition needsRecompact :: "Reader \<Rightarrow> bool option" where
  "needsRecompact r = needs_columns r (cols r)"

text \<open>How many groups were rewritten, and their bytes before and after.\<close>

type_synonym totals = "nat \<times> int \<times> int"

definition swap_entry :: "nat \<Rightarrow> nat \<Rightarrow> Reader \<Rightarrow> Store \<Rightarrow> Store" where
  "swap_entry idx a nr s = (let e = entry_at s a in
     on_entries retire [a] (s\<lparr>groups := (groups s)[idx := length (entries s)], entries := entries s @ [new_entry (ge_id e) (ge_path e) nr]\<rparr>))"

definition install_rewrite :: "store_io \<Rightarrow> nat \<Rightarrow> Reader \<Rightarrow> Store \<Rightarrow> digests \<Rightarrow> bool \<times> Store \<times> digests" where
  "install_rewrite io a nr s D = (let p = ge_path (entry_at s a) in
     case (if retired (entry_at s a) then None else find (\<lambda>i. groups s ! i = a) [0..<length (groups s)]) of
       None \<Rightarrow> (False,
         if list_ex (\<lambda>x. ge_path (entry_at s x) = p) (groups s) then s
         else (case unlink (io_unlink io) p s of
           (True, s1) \<Rightarrow> s1
         | (False, s1) \<Rightarrow> addTombstone p (s1\<lparr>retentionFailures := retentionFailures s1 + 1, pendingTombstones := pendingTombstones s1 + 1\<rparr>)), D)
     | Some idx \<Rightarrow> (True, swap_entry idx a nr s, invalidateDigest (ge_id (entry_at s a)) D))"

definition recompact_one :: "group_kernels \<Rightarrow> read_kernels \<Rightarrow> store_io \<Rightarrow> idx_cache \<Rightarrow> bool \<Rightarrow> nat \<Rightarrow> totals \<Rightarrow> Store \<Rightarrow> digests
    \<Rightarrow> (store_error option \<times> totals \<times> Store \<times> digests) option" where
  "recompact_one K R io c dropPostings a t s D = (let e = entry_at s a; r = reader e in do {
     need \<leftarrow> needsRecompact r;
     if \<not> (need \<or> (dropPostings \<and> hasPostings r)) then Some (None, t, s, D) else do {
     (gm, _) \<leftarrow> rebuild R r True dropPostings c;
     case gm of None \<Rightarrow> Some (None, t, s, D) | Some g \<Rightarrow> do {
     b \<leftarrow> Marshal K g;
     if length b \<ge> length (blob r) then Some (None, t, s, D) else
     let s1 = s\<lparr>files := (files s)(ge_path e \<mapsto> b)\<rparr> in
     Some (case io_file io of
       AtomicErrOld \<Rightarrow> (Some FileNotWritten, t, s, D)
     | AtomicErrNew \<Rightarrow> (Some FileNotWritten, t, s1, D)
     | AtomicOK \<Rightarrow> (case map_group io (ge_path e) s1 of
         Inl x \<Rightarrow> (Some x, t, s1, D)
       | Inr nr \<Rightarrow> (case install_rewrite io a nr s1 D of (put, s2, D2) \<Rightarrow>
           (None, if put then (fst t + 1, fst (snd t) + int (length (blob r)), snd (snd t) + int (length b)) else t, s2, D2))))
   } } })"

fun recompact_loop :: "group_kernels \<Rightarrow> read_kernels \<Rightarrow> (nat \<Rightarrow> store_io) \<Rightarrow> (nat \<Rightarrow> idx_cache) \<Rightarrow> bool \<Rightarrow> nat list \<Rightarrow> nat \<Rightarrow> totals \<Rightarrow> Store \<Rightarrow> digests
    \<Rightarrow> (store_error option \<times> totals \<times> Store \<times> digests) option" where
  "recompact_loop K R io cs dropPostings [] n t s D = Some (None, t, s, D)"
| "recompact_loop K R io cs dropPostings (a # as) n t s D = do {
     (e, t', s', D') \<leftarrow> recompact_one K R (io n) (cs a) dropPostings a t s D;
     if e \<noteq> None then Some (e, t', s', D') else recompact_loop K R io cs dropPostings as (n + 1) t' s' D'
   }"

definition Recompact :: "group_kernels \<Rightarrow> read_kernels \<Rightarrow> (nat \<Rightarrow> store_io) \<Rightarrow> (path \<Rightarrow> bool) \<Rightarrow> (nat \<Rightarrow> idx_cache) \<Rightarrow> u64 \<Rightarrow> bool \<Rightarrow> Store \<Rightarrow> digests
    \<Rightarrow> (store_error option \<times> totals \<times> Store \<times> digests) option" where
  "Recompact K R io retry cs cutoff dropPostings s D = (case lease (\<lambda>e. sint (timeMax e) < sint cutoff) (groups s) s of (cands, s1) \<Rightarrow> do {
     (e, t, s2, D2) \<leftarrow> recompact_loop K R io cs dropPostings cands 0 (0, 0, 0) s1 D;
     Some (e, t, on_entries release cands (if e = None then retryTombstones retry s2 else s2), D2)
   })"

section \<open>The check for work does not panic\<close>

lemma parsed_index:
  assumes "parseDictSec sec = Some d"
  shows "length (ds_idx d) = 12 * numBlocks d"
  using assms by (auto simp: parseDictSec_def emptySec_def Let_def gslice_def split: if_splits bind_splits)

lemma lz4_block_total: "\<forall>k \<in> set ks. k < numBlocks d \<Longrightarrow> length (ds_idx d) = 12 * numBlocks d \<Longrightarrow> returns (lz4_block d ks)"
proof (induction ks)
  case (Cons k ks)
  then have "returns (get32 (ds_idx d) (k * 12 + 8))" by (intro returns_get32) simp
  then show ?case using Cons by (auto simp: returns_def)
qed simp

lemma needs_total: "\<forall>m \<in> set ms. returns (dictSec_of r m) \<Longrightarrow> returns (needs_columns r ms)"
proof (induction ms)
  case (Cons m ms)
  then obtain sec where sec: "dictSec_of r m = Some sec" by (auto simp: returns_def)
  obtain d where d: "parseDictSec sec = Some d" using parse_total [of sec] by (auto simp: returns_def)
  have "returns (lz4_block d [0..<numBlocks d])" using parsed_index [OF d] by (intro lz4_block_total) auto
  then show ?case using Cons sec d by (auto simp: returns_def)
qed simp

lemma needsRecompact_total:
  assumes "ReadGroup b = Some (Inr r)"
  obtains x where "needsRecompact r = Some x"
proof -
  have "reader_ok r" using ReadGroup_ok [OF assms] by simp
  then have "returns (dictSec_of r m)" if "m \<in> set (cols r)" for m
    using that by (auto simp: reader_ok_def list_all_iff meta_ok_def dictSec_of_def gslice_span returns_def)
  then have "returns (needsRecompact r)" unfolding needsRecompact_def by (intro needs_total) simp
  then show ?thesis using that by (auto simp: returns_def)
qed

section \<open>A rebuilt group\<close>

text \<open>The codec of the dictionaries and the postings do not show in the rows.\<close>

definition recoded :: "Group \<Rightarrow> bool \<Rightarrow> bool \<Rightarrow> Group" where
  "recoded g x y = g\<lparr>Compact := x, NoPostings := y\<rparr>"

lemma recoded_facts [simp]:
  "GRows (recoded g x y) = GRows g" "Columns (recoded g x y) = Columns g" "group_times (recoded g x y) = group_times g" "dict_col (recoded g x y) f = dict_col g f"
  "group_row (recoded g x y) i = group_row g i" "group_wf (recoded g x y) = group_wf g" "cell_values f (recoded g x y) = cell_values f g" "plain (recoded g x y) = plain g"
  by (simp_all add: recoded_def group_times_def dict_col_def group_row_def group_wf_def cell_values_def plain_def cong: option.case_cong)

lemma recoded_answer: "group_answer E q o' (recoded g x y) = group_answer E q o' g"
  by (simp add: group_answer_def matching_def output_row_def [abs_def] cong: option.case_cong if_cong)

lemma times_column:
  assumes "plain g" and "distinct (map ColName (Columns g))" and "(time_col, ColTimestamp) \<in> set (col_pairs g)"
  shows "concat (map ColTs (filter (\<lambda>c. ColTypeOf c = ColTimestamp) (Columns g))) = group_times g"
proof -
  obtain c where c: "c \<in> set (Columns g)" "ColName c = time_col" "ColTypeOf c = ColTimestamp" using assms(3) by (auto simp: col_pairs_def)
  have one: "x = c" if "x \<in> set (filter (\<lambda>c. ColTypeOf c = ColTimestamp) (Columns g))" for x
  proof -
    have "ColName x = time_col" using assms(1) that by (auto simp: plain_def col_types split: if_splits)
    then show ?thesis using assms(2) c that by (auto simp: distinct_map inj_on_def)
  qed
  have "filter (\<lambda>c. ColTypeOf c = ColTimestamp) (Columns g) = [c]"
    by (rule singleton_list [OF _ _ one]) (use assms(2) c in \<open>simp_all add: distinct_map\<close>)
  then show ?thesis using find_name [OF assms(2) c(1)] c(2) by (simp add: group_times_def)
qed

lemma rebuilt_written:
  assumes w: "written_group K R g B r" and p: "plain g" "short_values g" and c: "cache_coherent R r c"
  shows "\<exists>g' c' b. rebuild R r True drp c = Some (Some g', c') \<and> Marshal K g' = Some b
    \<and> (length b < 2 ^ 32 \<longrightarrow> (\<exists>nr. ReadGroup b = Some (Inr nr) \<and> written_group K R g' b nr \<and> TimeMin nr = TimeMin r \<and> TimeMax nr = TimeMax r))
    \<and> plain g' \<and> short_values g' \<and> group_answer E q o' g' = group_answer E q o' g"
proof -
  let ?m = "merged [g] (col_pairs g)"
  let ?g = "recoded ?m True drp"
  have K: "same_kernels K R" "\<And>xs. rk_varint R (length xs) (concat (map put_uvarint xs)) = xs" using w by (simp_all add: written_group.same written_group.varints_ok)
  have g: "group_wf g" "distinct (map ColName (Columns g))" "0 < GRows g" "(time_col, ColTimestamp) \<in> set (col_pairs g)"
    using written_group.wf [OF w] written_group.names [OF w] written_group.nonempty [OF w] written_group.time_pair [OF w] by simp_all
  have m: "mergeable [g]" "union_of [g] (col_pairs g)" using g p(1) union_single [OF g(2)] by (simp_all add: mergeable_def)
  have lim: "sum_list (map GRows [g]) \<le> MaxRows" "length (col_pairs g) \<le> maxGroupColumns" "\<forall>g \<in> set [g]. short_values g" "sum_list (map GRows [g]) < 2 ^ 32"
    using g(1) p(2) by (simp_all add: group_wf_def col_pairs_def MaxRows_def)
  note wf = merged_wf [OF m lim(1-3)] and mf = merged_facts [OF m lim(4)]
  obtain c' where rb: "rebuild R r True drp c = Some (Some ?g, c')" using written_group.rebuild_read [OF w p(1) c] by (auto simp: recoded_def)
  have wf': "group_wf ?g" "list_all narrow (Columns ?g)" "distinct (map ColName (Columns ?g))"
    "list_ex (\<lambda>c. ColName c = time_col \<and> ColTypeOf c = ColTimestamp) (Columns ?g)" "0 < GRows ?g" using wf(1-5) by simp_all
  obtain b where b: "Marshal K ?g = Some b" using Marshal_total [OF wf'(1)] .
  have "\<exists>nr. ReadGroup b = Some (Inr nr) \<and> written_group K R ?g b nr \<and> TimeMin nr = TimeMin r \<and> TimeMax nr = TimeMax r" if small: "length b < 2 ^ 32"
  proof -
    have k: "gkernels_ok K" using K(1) by (simp add: same_kernels_def)
    obtain nr where nr: "ReadGroup b = Some (Inr nr)" using ReadGroup_Marshal [OF k wf'(1,2) b small] by metis
    have w': "written_group K R ?g b nr" by (rule written_group.intro) (rule K wf' b small nr)+
    have pm: "(time_col, ColTimestamp) \<in> set (col_pairs ?m)" using mf(6) g(4) by simp
    have "concat (map ColTs (filter (\<lambda>c. ColTypeOf c = ColTimestamp) (Columns ?g))) = concat (map ColTs (filter (\<lambda>c. ColTypeOf c = ColTimestamp) (Columns g)))"
      using times_column [OF p(1) g(2,4)] times_column [OF mf(7) wf(3) pm] mf(2) by simp
    moreover obtain e e' where "(TimeMin r, TimeMax r) = foldl time_step (0x7FFFFFFFFFFFFFFF, 0x8000000000000000) (concat (map ColTs (filter (\<lambda>c. ColTypeOf c = ColTimestamp) (Columns g))))"
      "(TimeMin nr, TimeMax nr) = foldl time_step (0x7FFFFFFFFFFFFFFF, 0x8000000000000000) (concat (map ColTs (filter (\<lambda>c. ColTypeOf c = ColTimestamp) (Columns ?g))))"
      using written_group.reader_facts [OF w] written_group.reader_facts [OF w'] by metis
    ultimately have "(TimeMin nr, TimeMax nr) = (TimeMin r, TimeMax r)" by simp
    then show ?thesis using nr w' by simp
  qed
  moreover have "short_values ?g" using wf(6) by (simp add: short_values_def)
  moreover have "alike (en_ord E) q o' [g]" by (simp add: alike_def)
  from merged_answer [OF m lim(4) this, of "en_fmt E" "en_lib E"] have "group_answer E q o' ?m = group_answer E q o' g" by (simp add: group_answer_def)
  ultimately show ?thesis using rb b mf(7) recoded_answer [of E q o' ?m True drp] by (intro exI [of _ ?g] exI [of _ c'] exI [of _ b]) simp
qed

section \<open>One rewrite\<close>

text \<open>In a calm pass a file that could not be written under its name is the old one, and a file that was written can be mapped.\<close>

definition calm :: "store_io \<Rightarrow> bool" where
  "calm io \<longleftrightarrow> io_file io \<noteq> AtomicErrNew \<and> io_mmap io"

lemma find_position:
  assumes "a \<in> set xs"
  obtains i where "find (\<lambda>i. xs ! i = a) [0..<length xs] = Some i" "i < length xs" "xs ! i = a"
proof -
  obtain i where "i < length xs" "xs ! i = a" using assms by (auto simp: in_set_conv_nth)
  then have "find (\<lambda>i. xs ! i = a) [0..<length xs] \<noteq> None" by (auto simp: find_None_iff)
  then obtain j where "find (\<lambda>i. xs ! i = a) [0..<length xs] = Some j" by auto
  then show ?thesis using that [of j] by (auto simp: find_Some_iff)
qed

lemma swap_entry_inv:
  assumes ok: "heap_ok s sns" "index_ok s" and idx: "idx < length (groups s)" "groups s ! idx = a"
    and s1: "s1 = s\<lparr>files := (files s)(ge_path (entries s ! a) \<mapsto> b)\<rparr>" and nr: "ReadGroup b = Some (Inr nr)"
    and tm: "TimeMin nr = TimeMin (reader (entries s ! a))" "TimeMax nr = TimeMax (reader (entries s ! a))" and s': "s' = swap_entry idx a nr s1"
  shows "heap_ok s' sns" and "index_ok s'" and "ids_of s' = ids_of s" and "groups s' = (groups s)[idx := length (entries s)]" and "length (entries s') = Suc (length (entries s))"
    and "x < length (entries s) \<Longrightarrow> ge_id (entries s' ! x) = ge_id (entries s ! x) \<and> reader (entries s' ! x) = reader (entries s ! x)"
    and "ge_id (entries s' ! length (entries s)) = ge_id (entries s ! a)" and "reader (entries s' ! length (entries s)) = nr" and "nextID s' = nextID s" and "closed s' = closed s"
proof -
  let ?e = "entries s ! a" and ?n = "length (entries s)" and ?E = "entries s"
  let ?i = "ge_id ?e"
  have a: "a \<in> set (groups s)" using idx by (metis nth_mem)
  have g: "distinct (groups s)" "set (groups s) \<subseteq> {..<?n}" "\<And>x. x \<in> set (groups s) \<Longrightarrow> \<not> retired (?E ! x) \<and> on_disk s (?E ! x)" "distinct (ids_of s)"
    using ok(2) by (auto simp: index_ok_def)
  have an: "a < ?n" and p: "ge_path ?e = GroupFile ?i" "timeMin ?e = TimeMin (reader ?e)" "timeMax ?e = TimeMax (reader ?e)" using a g(2,3) by (auto simp: on_disk_def)
  let ?ne = "new_entry ?i (GroupFile ?i) nr"
  have E': "entries s' = (?E @ [?ne])[a := snd (retire ?e)]" and G': "groups s' = (groups s)[idx := ?n]"
    and rest: "files s' = (files s)(GroupFile ?i \<mapsto> b)" "nextID s' = nextID s" "closed s' = closed s" "man s' = man s" "tombstones s' = tombstones s"
    using an by (simp_all add: s' swap_entry_def s1 entry_at_def on_entries_def on_entry_def p nth_append Let_def split: prod.split)
  have nth: "entries s' ! x = (if x = a then snd (retire ?e) else ?E ! x)" if "x < ?n" for x using that an by (simp add: E' nth_list_update nth_append)
  have nn: "entries s' ! ?n = ?ne" using an by (simp add: E' nth_list_update nth_append)
  show "groups s' = (groups s)[idx := ?n]" "length (entries s') = Suc ?n" "nextID s' = nextID s" "closed s' = closed s" using G' rest by (simp_all add: E')
  show same: "ge_id (entries s' ! x) = ge_id (?E ! x) \<and> reader (entries s' ! x) = reader (?E ! x)" if "x < ?n" for x using nth [OF that] by simp
  show new: "ge_id (entries s' ! ?n) = ?i" "reader (entries s' ! ?n) = nr" by (simp_all add: nn new_entry_def)
  have pos: "groups s' ! k = (if k = idx then ?n else groups s ! k)" if "k < length (groups s)" for k using that by (simp add: G' nth_list_update)
  have at: "ge_id (entries s' ! (groups s' ! k)) = ge_id (?E ! (groups s ! k)) \<and> timeMin (entries s' ! (groups s' ! k)) = timeMin (?E ! (groups s ! k))"
    if k: "k < length (groups s)" for k
  proof (cases "k = idx")
    case True
    then show ?thesis using pos [OF k] idx nn p tm by (simp add: new_entry_def)
  next
    case False
    then have "groups s ! k \<noteq> a" using g(1) idx k by (auto simp: nth_eq_iff_index_eq)
    moreover have "groups s ! k < ?n" using g(2) nth_mem [OF k] by blast
    ultimately show ?thesis using False pos [OF k] nth by simp
  qed
  show ids: "ids_of s' = ids_of s" by (rule nth_equalityI) (use at in \<open>simp_all add: ids_of_def G'\<close>)
  have mins: "map (\<lambda>x. sint (timeMin (entries s' ! x))) (groups s') = map (\<lambda>x. sint (timeMin (?E ! x))) (groups s)"
    by (rule nth_equalityI) (use at in \<open>simp_all add: G'\<close>)
  have set': "x = ?n \<or> (x \<in> set (groups s) \<and> x \<noteq> a)" if x: "x \<in> set (groups s')" for x
  proof -
    have "length (groups s') = length (groups s)" by (simp add: G')
    then obtain k where k: "k < length (groups s)" "x = groups s' ! k" using x by (metis in_set_conv_nth)
    then show ?thesis using pos [OF k(1)] g(1) idx nth_mem [OF k(1)] by (auto simp: nth_eq_iff_index_eq)
  qed
  have disk: "\<not> retired (entries s' ! x) \<and> on_disk s' (entries s' ! x)" if x: "x \<in> set (groups s')" for x
  proof (cases "x = ?n")
    case True
    then show ?thesis using nr by (simp add: nn new_entry_def on_disk_def rest)
  next
    case False
    then have o: "x \<in> set (groups s)" "x \<noteq> a" "x < ?n" using set' [OF x] g(2) by auto
    then have "ge_id (?E ! x) \<noteq> ?i" using g(4) a by (auto simp: ids_of_def distinct_map inj_on_def)
    moreover have "\<not> retired (?E ! x) \<and> on_disk s (?E ! x)" using g(3) o(1) by blast
    ultimately show ?thesis using o nth [OF o(3)] by (auto simp: on_disk_def rest)
  qed
  have "distinct (groups s')" unfolding G' using g(1,2) by (intro distinct_list_update) auto
  moreover have "set (groups s') \<subseteq> {..<length (entries s')}" using set' g(2) by (auto simp: E' intro: less_SucI)
  moreover have "sorted (map (\<lambda>x. sint (timeMin (entries s' ! x))) (groups s'))" unfolding mins using ok(2) by (simp add: index_ok_def)
  moreover have "\<not> closed s" using ok(2) a by (auto simp: index_ok_def)
  moreover have "\<forall>i \<in> set (ids_of s). i < nextID s" "\<not> closed s \<longrightarrow> set (ids_of s) = m_visible (fst (man s))"
    "\<forall>p \<in> set (tombstones s). \<exists>i < nextID s. p = GroupFile i \<and> i \<notin> set (ids_of s)" using ok(2) unfolding index_ok_def by blast+
  ultimately show "index_ok s'" unfolding index_ok_def ids rest(2-5) using disk g(4) by blast
  have hold: "holds sns ?n = 0" using ok(1) by (auto simp: heap_ok_def holds_def filter_empty_conv)
  have "entry_ok (holds sns x) (entries s' ! x)" if "x < Suc ?n" for x
  proof (cases "x = ?n")
    case True
    then show ?thesis by (simp add: nn hold new_entry_def entry_ok_def)
  next
    case False
    then have "x < ?n" "entry_ok (holds sns x) (?E ! x)" using ok(1) that by (simp_all add: heap_ok_def)
    then show ?thesis using nth retire_ok [of "holds sns x" "?E ! x"] by auto
  qed
  moreover have "set (snap_entries sn) \<subseteq> {..<Suc ?n}" if "sn \<in> set sns" for sn using ok(1) that by (fastforce simp: heap_ok_def)
  ultimately show "heap_ok s' sns" using ok(1) by (simp add: heap_ok_def E')
qed

text \<open>The bookkeeping of a pass over the addresses that are still to do.\<close>

definition rewrite_ok :: "group_kernels \<Rightarrow> ('f, 're) engine \<Rightarrow> ('f, 're) Query \<Rightarrow> run_opts \<Rightarrow> (bytes \<Rightarrow> bytes) \<Rightarrow> Snapshot list \<Rightarrow> (nat \<Rightarrow> idx_cache) \<Rightarrow> u64 list \<Rightarrow> Row list \<Rightarrow> nat set
    \<Rightarrow> Store \<Rightarrow> digests \<Rightarrow> bool" where
  "rewrite_ok K E q o' H sns cs is A todo s D \<longleftrightarrow> heap_ok s sns \<and> index_ok s \<and> coherent H D s \<and> ids_of s = is \<and> todo \<subseteq> set (groups s)
     \<and> (\<forall>a \<in> todo. cache_coherent (en_read E) (reader (entries s ! a)) (cs a))
     \<and> (\<exists>gs. stored K (en_read E) gs s \<and> store_answer E gs q o' s = A \<and> (\<forall>i \<in> set is. plain (gs i) \<and> short_values (gs i)))"

lemma rewrite_one:
  assumes ok: "rewrite_ok K E q o' H sns cs is A todo s D" and a: "a \<in> todo" and io: "calm io"
  shows "\<exists>e t' s' D'. recompact_one K (en_read E) io (cs a) drp a t s D = Some (e, t', s', D') \<and> rewrite_ok K E q o' H sns cs is A (todo - {a}) s' D'
    \<and> length (entries s) \<le> length (entries s') \<and> closed s' = closed s"
proof -
  let ?R = "en_read E" and ?r = "reader (entries s ! a)" and ?i = "ge_id (entries s ! a)"
  obtain gs where inv: "heap_ok s sns" "index_ok s" "coherent H D s" "ids_of s = is" "todo \<subseteq> set (groups s)" "\<forall>a \<in> todo. cache_coherent ?R (reader (entries s ! a)) (cs a)"
    and gs: "stored K ?R gs s" "store_answer E gs q o' s = A" "\<forall>i \<in> set is. plain (gs i) \<and> short_values (gs i)" using ok by (auto simp: rewrite_ok_def)
  have ag: "a \<in> set (groups s)" "?i \<in> set is" using a inv(4,5) by (auto simp: ids_of_def)
  obtain B where w: "written_group K ?R (gs ?i) B ?r" using gs(1) ag(1) by (auto simp: stored_def)
  have p: "plain (gs ?i)" "short_values (gs ?i)" "cache_coherent ?R ?r (cs a)" using gs(3) ag(2) inv(6) a by simp_all
  have B: "blob ?r = B" "length B < 2 ^ 32" "ReadGroup B = Some (Inr ?r)" using written_group.small [OF w] written_group.read_back [OF w] blob_read [of B ?r] by simp_all
  obtain need where need: "needsRecompact ?r = Some need" using needsRecompact_total [OF B(3)] .
  obtain g' c' b where rb: "rebuild ?R ?r True drp (cs a) = Some (Some g', c')" "Marshal K g' = Some b" "plain g'" "short_values g'" "group_answer E q o' g' = group_answer E q o' (gs ?i)"
    and nr: "length b < 2 ^ 32 \<Longrightarrow> \<exists>nr. ReadGroup b = Some (Inr nr) \<and> written_group K ?R g' b nr \<and> TimeMin nr = TimeMin ?r \<and> TimeMax nr = TimeMax ?r"
    using rebuilt_written [OF w p, of drp E q o'] by blast
  have stay: "rewrite_ok K E q o' H sns cs is A (todo - {a}) s D" unfolding rewrite_ok_def using inv gs by auto
  show ?thesis
  proof (cases "(need \<or> (drp \<and> hasPostings ?r)) \<and> length b < length (blob ?r) \<and> io_file io = AtomicOK")
    case False
    then have "\<exists>e t'. recompact_one K ?R io (cs a) drp a t s D = Some (e, t', s, D)"
      using need rb(1,2) io by (cases "io_file io") (auto simp: recompact_one_def entry_at_def calm_def Let_def not_less simp del: split_paired_Ex)
    then show ?thesis using stay by auto
  next
    case True
    then obtain nr where n: "ReadGroup b = Some (Inr nr)" "written_group K ?R g' b nr" "TimeMin nr = TimeMin ?r" "TimeMax nr = TimeMax ?r" using nr B by auto
    define s1 where "s1 = s\<lparr>files := (files s)(ge_path (entries s ! a) \<mapsto> b)\<rparr>"
    obtain idx where idx: "find (\<lambda>i. groups s ! i = a) [0..<length (groups s)] = Some idx" "idx < length (groups s)" "groups s ! idx = a" using find_position [OF ag(1)] .
    have nret: "\<not> retired (entries s ! a)" using inv(2) ag(1) by (simp add: index_ok_def)
    define s' where "s' = swap_entry idx a nr s1"
    have mp: "map_group io (ge_path (entries s ! a)) s1 = Inr nr" using io n(1) by (simp add: map_group_def s1_def calm_def)
    have inst: "install_rewrite io a nr s1 D = (True, s', invalidateDigest ?i D)" using idx(1) nret by (simp add: install_rewrite_def entry_at_def s1_def s'_def Let_def)
    have res: "\<exists>t'. recompact_one K ?R io (cs a) drp a t s D = Some (None, t', s', invalidateDigest ?i D)"
      using True need rb(1,2) mp inst by (auto simp: recompact_one_def entry_at_def Let_def simp del: split_paired_Ex simp flip: s1_def)
    note sw = swap_entry_inv [OF inv(1,2) idx(2,3) s1_def n(1,3,4) s'_def]
    let ?gs = "gs(?i := g')" and ?n = "length (entries s)"
    have dist: "distinct (groups s)" "distinct (ids_of s)" "set (groups s) \<subseteq> {..<?n}" using inv(2) by (auto simp: index_ok_def)
    have old: "x \<in> set (groups s) \<and> x \<noteq> a" if "x \<in> set (groups s')" "x \<noteq> ?n" for x
    proof -
      have "x \<in> set (groups s)" using that set_update_subset_insert [of "groups s" idx ?n] by (auto simp: sw(4))
      moreover have "a \<noteq> ?n" using dist(3) ag(1) by blast
      then have "a \<notin> set ((groups s)[idx := ?n])" using dist(1) idx by (auto simp: in_set_conv_nth nth_list_update nth_eq_iff_index_eq split: if_splits)
      ultimately show ?thesis using that by (auto simp: sw(4))
    qed
    have oth: "ge_id (entries s ! x) \<noteq> ?i" if "x \<in> set (groups s)" "x \<noteq> a" for x using dist(2) ag(1) that by (auto simp: ids_of_def distinct_map inj_on_def)
    have xs: "x < ?n" if "x \<in> set (groups s)" for x using dist(3) that by blast
    have st: "stored K ?R ?gs s'" unfolding stored_def
    proof (intro ballI)
      fix x assume x: "x \<in> set (groups s')"
      show "\<exists>B. written_group K ?R (?gs (ge_id (entries s' ! x))) B (reader (entries s' ! x))"
      proof (cases "x = ?n")
        case True
        then show ?thesis using n(2) sw(7,8) by auto
      next
        case False
        then show ?thesis using old [OF x] oth sw(6) xs gs(1) by (auto simp: stored_def)
      qed
    qed
    have ans: "store_answer E ?gs q o' s' = A"
      using gs(2) rb(5) by (auto simp: store_answer_def sw(3) intro!: arg_cong [where f = concat])
    have coh: "coherent H (invalidateDigest ?i D) s'" unfolding coherent_def
    proof (intro conjI ballI allI impI)
      show "i < nextID s'" if "i \<in> dom (invalidateDigest ?i D)" for i using inv(3) that by (auto simp: coherent_def invalidateDigest_def sw(9) split: if_splits)
      fix x d assume x: "x \<in> set (groups s')" and d: "invalidateDigest ?i D (ge_id (entries s' ! x)) = Some d"
      have "x \<noteq> ?n" using d sw(7) by (auto simp: invalidateDigest_def)
      then show "d = H (blob (reader (entries s' ! x)))" using old [OF x] oth sw(6) xs d inv(3) by (auto simp: coherent_def invalidateDigest_def)
    qed
    have "rewrite_ok K E q o' H sns cs is A (todo - {a}) s' (invalidateDigest ?i D)"
      unfolding rewrite_ok_def
    proof (intro conjI exI [of _ ?gs])
      show "todo - {a} \<subseteq> set (groups s')"
      proof
        fix x assume x: "x \<in> todo - {a}"
        then obtain k where k: "k < length (groups s)" "groups s ! k = x" using inv(5) by (metis DiffD1 in_set_conv_nth subset_iff)
        then have "k \<noteq> idx" using x idx(3) by auto
        then have "groups s' ! k = x" "k < length (groups s')" using k by (simp_all add: sw(4))
        then show "x \<in> set (groups s')" by (metis nth_mem)
      qed
      show "\<forall>x \<in> todo - {a}. cache_coherent ?R (reader (entries s' ! x)) (cs x)" using inv(5,6) sw(6) xs by auto
      show "\<forall>i \<in> set is. plain (?gs i) \<and> short_values (?gs i)" using gs(3) rb(3,4) by simp
    qed (use sw(1-3) coh inv(4) st ans in simp_all)
    then show ?thesis using res sw(5,10) by auto
  qed
qed

lemma rewrite_loop:
  assumes "rewrite_ok K E q o' H sns cs is A (set as) s D" and "distinct as" and "\<forall>n. calm (io n)"
  shows "\<exists>e t' s' D'. recompact_loop K (en_read E) io cs drp as n t s D = Some (e, t', s', D') \<and> rewrite_ok K E q o' H sns cs is A {} s' D'
    \<and> length (entries s) \<le> length (entries s') \<and> closed s' = closed s"
  using assms(1,2)
proof (induction as arbitrary: n t s D)
  case Nil
  then show ?case by (auto simp del: split_paired_Ex)
next
  case (Cons a as)
  obtain e t1 s1 D1 where one: "recompact_one K (en_read E) (io n) (cs a) drp a t s D = Some (e, t1, s1, D1)"
    "rewrite_ok K E q o' H sns cs is A (set (a # as) - {a}) s1 D1" "length (entries s) \<le> length (entries s1)" "closed s1 = closed s"
    using rewrite_one [OF Cons.prems(1), of a "io n" drp t] assms(3) by auto
  have ok: "rewrite_ok K E q o' H sns cs is A (set as) s1 D1" using one(2) Cons.prems(2) by simp
  have none: "rewrite_ok K E q o' H sns cs is A {} s1 D1" using ok by (simp add: rewrite_ok_def)
  show ?case
  proof (cases e)
    case None
    obtain e2 t2 s2 D2 where "recompact_loop K (en_read E) io cs drp as (n + 1) t1 s1 D1 = Some (e2, t2, s2, D2)" "rewrite_ok K E q o' H sns cs is A {} s2 D2"
      "length (entries s1) \<le> length (entries s2)" "closed s2 = closed s1" using Cons.IH [OF ok, of "n + 1" t1] Cons.prems(2) by auto
    then show ?thesis using one None by (auto simp del: split_paired_Ex)
  next
    case (Some x)
    then show ?thesis using one none by (auto simp del: split_paired_Ex)
  qed
qed

section \<open>Properties\<close>

text \<open>C4: Rewriting cold groups is invisible.  A pass over a store of written groups returns; the store keeps its invariant, its committed ids in their order and a
  digest cache that is right for the bytes now on disk; and every query gets exactly the rows it got before, in the same order, whichever codec the dictionaries have
  and whether or not the postings were dropped.\<close>

theorem recompaction_invisible:
  assumes "heap_ok s sns" and "index_ok s" and "\<not> closed s" and "coherent H D s" and "stored K (en_read E) gs s" and "\<forall>n. calm (io n)"
    and "\<forall>a \<in> set (groups s). cache_coherent (en_read E) (reader (entries s ! a)) (cs a)" and "\<forall>i \<in> set (ids_of s). plain (gs i) \<and> short_values (gs i)"
  shows "\<exists>e t s' D' gs'. Recompact K (en_read E) io retry cs cutoff dropPostings s D = Some (e, t, s', D') \<and> (\<exists>sn. heap_ok s' (sns @ [sn])) \<and> index_ok s' \<and> coherent H D' s'
    \<and> ids_of s' = ids_of s \<and> stored K (en_read E) gs' s' \<and> store_answer E gs' q o' s' = store_answer E gs q o' s"
proof -
  let ?want = "\<lambda>e. sint (timeMax e) < sint cutoff"
  obtain cands s1 where l: "lease ?want (groups s) s = (cands, s1)" by (rule that [OF prod.collapse [symmetric]])
  let ?sn = "\<lparr>snap_entries = cands, snap_closed = False\<rparr>"
  have t: "take_snapshot ?want s = (Inr ?sn, s1)" using assms(3) l by (simp add: take_snapshot_def)
  note sn = snapshot_inv [OF assms(1,2) t]
  have c: "cands = filter (\<lambda>a. ?want (entries s ! a)) (groups s)" using sn(1) by simp
  obtain E1 where E1: "s1 = s\<lparr>entries := E1\<rparr>" "length E1 = length (entries s)" "\<And>a. a < length E1 \<Longrightarrow> same_entry (entries s ! a) (E1 ! a)" using sn(4) by blast
  have g: "distinct (groups s)" "\<And>a. a \<in> set (groups s) \<Longrightarrow> a < length (entries s)" using assms(2) by (auto simp: index_ok_def)
  have same: "ge_id (entries s1 ! a) = ge_id (entries s ! a) \<and> reader (entries s1 ! a) = reader (entries s ! a)" if "a \<in> set (groups s)" for a
    using E1(3) [of a] E1(2) g(2) [OF that] by (simp add: E1(1) same_entry_def)
  have s1: "groups s1 = groups s" "nextID s1 = nextID s" "closed s1 = closed s" by (simp_all add: E1(1))
  have ans: "stored K (en_read E) gs s1 = stored K (en_read E) gs s" "store_answer E gs q o' s1 = store_answer E gs q o' s" "ids_of s1 = ids_of s"
    using same s1(1) by (intro same_answers; simp)+
  have "coherent H D s1" using assms(4) same s1 by (auto simp: coherent_def)
  then have ok1: "rewrite_ok K E q o' H (sns @ [?sn]) cs (ids_of s) (store_answer E gs q o' s) (set cands) s1 D"
    using sn(2,3) ans assms(5,7,8) same s1(1) by (auto simp: rewrite_ok_def c)
  have "distinct cands" using g(1) by (simp add: c)
  obtain e t s2 D2 where r: "recompact_loop K (en_read E) io cs dropPostings cands 0 (0, 0, 0) s1 D = Some (e, t, s2, D2)"
    "rewrite_ok K E q o' H (sns @ [?sn]) cs (ids_of s) (store_answer E gs q o' s) {} s2 D2" "length (entries s1) \<le> length (entries s2)"
    using rewrite_loop [OF ok1 \<open>distinct cands\<close> assms(6), where drp = dropPostings and n = 0 and t = "(0, 0, 0)"] by (auto simp del: split_paired_Ex)
  define s3 where "s3 = (if e = None then retryTombstones retry s2 else s2)"
  obtain gs' where ok: "heap_ok s2 (sns @ [?sn])" "index_ok s2" "coherent H D2 s2" "ids_of s2 = ids_of s" "stored K (en_read E) gs' s2" "store_answer E gs' q o' s2 = store_answer E gs q o' s"
    using r(2) by (auto simp: rewrite_ok_def)
  have s3: "entries s3 = entries s2" "groups s3 = groups s2" "nextID s3 = nextID s2" using retry_frame [of retry s2] by (auto simp: s3_def)
  have i3: "heap_ok s3 (sns @ [?sn])" "index_ok s3" using ok(1,2) retry_inv [OF ok(1,2), of retry] by (simp_all add: s3_def)
  have sub: "set cands \<subseteq> {..<length (entries s3)}" using i3(1) by (auto simp: heap_ok_def)
  let ?s' = "on_entries release cands s3"
  obtain sn' where cl: "snap_Close ((sns @ [?sn]) ! length sns) s3 = (sn', ?s')" by (simp add: snap_Close_def)
  note fin = release_inv [OF i3 _ cl, simplified]
  have ri: "groups ?s' = groups s2" "a < length (entries s2) \<Longrightarrow> ge_id (entries ?s' ! a) = ge_id (entries s2 ! a) \<and> reader (entries ?s' ! a) = reader (entries s2 ! a)" for a
    using release_index [OF \<open>distinct cands\<close> sub] s3 by simp_all
  have mem: "a < length (entries s2)" if "a \<in> set (groups s2)" for a using ok(2) that by (auto simp: index_ok_def)
  have fa: "stored K (en_read E) gs' ?s' = stored K (en_read E) gs' s2" "store_answer E gs' q o' ?s' = store_answer E gs' q o' s2" "ids_of ?s' = ids_of s2"
    using ri mem by (intro same_answers; simp)+
  have "nextID ?s' = nextID s2" by (simp add: on_entries_eq s3)
  then have "coherent H D2 ?s'" using ok(3) ri mem by (auto simp: coherent_def)
  then show ?thesis using l r(1) fin fa ok by (intro exI [of _ e] exI [of _ t] exI [of _ ?s'] exI [of _ D2] exI [of _ gs'] conjI) (auto simp: Recompact_def s3_def)
qed

theorem recompaction_invisible_witness:
  "\<exists>s e t s' D' gs'. ids_of s = [0] \<and> Recompact demo_kernels demo_read (\<lambda>_. all_ok) (\<lambda>_. True) (\<lambda>_. demo_cache) 1000 True s Map.empty = Some (e, t, s', D')
     \<and> store_answer demo_engine gs' demo_query demo_opts s' = [\<lparr>Time = 9, Fields = [([108], [97]), (time_col, [9])], NoTime = False\<rparr>]"
proof -
  obtain s where s: "store_reach stable (s, [])" "\<not> closed s" "ids_of s = [0]" "stored demo_kernels demo_read (\<lambda>_. demo_group) s"
    "\<forall>a \<in> set (groups s). reader (entries s ! a) = demo_reader" using single_store [OF demo_log.written_group_axioms] .
  have inv: "heap_ok s []" "index_ok s" using reach_inv [OF stable_ok s(1)] by simp_all
  have eng: "en_read demo_engine = demo_read" by (simp add: demo_engine_def)
  have hyp: "coherent (\<lambda>b. b) Map.empty s" "\<forall>n. calm ((\<lambda>_ :: nat. all_ok) n)" "\<forall>a \<in> set (groups s). cache_coherent demo_read (reader (entries s ! a)) ((\<lambda>_. demo_cache) a)"
    "\<forall>i \<in> set (ids_of s). plain ((\<lambda>_ :: u64. demo_group) i) \<and> short_values ((\<lambda>_ :: u64. demo_group) i)"
    using s(5) demo_cache_coherent demo_plain by (simp_all add: coherent_def calm_def all_ok_def)
  from recompaction_invisible [OF inv s(2) hyp(1) _ hyp(2), of demo_kernels demo_engine "\<lambda>_. demo_group" "\<lambda>_. demo_cache" "\<lambda>_. True" 1000 True demo_query demo_opts]
  obtain e t s' D' gs' where r: "Recompact demo_kernels demo_read (\<lambda>_. all_ok) (\<lambda>_. True) (\<lambda>_. demo_cache) 1000 True s Map.empty = Some (e, t, s', D')"
    "store_answer demo_engine gs' demo_query demo_opts s' = store_answer demo_engine (\<lambda>_. demo_group) demo_query demo_opts s"
    using s(4) hyp(3,4) by (auto simp: eng)
  show ?thesis using r s(3) demo_answer [OF s(3)] by (intro exI [of _ s] exI [of _ e] exI [of _ t] exI [of _ s'] exI [of _ D'] exI [of _ gs']) simp
qed

end
