(* ===== verification/Lexer.thy ===== *)
theory Lexer
  imports TimeFilter
begin

text \<open>
  The text functions of Go's \<^verbatim>\<open>strings\<close> package that the query parser uses, and the lexer of
  \<^verbatim>\<open>internal/query/logsql.go\<close> (\<^verbatim>\<open>lexLogsQL\<close>).

  A string is its bytes.  \<^verbatim>\<open>strings.EqualFold\<close> and a \<^verbatim>\<open>switch strings.ToLower(w)\<close> only ever compare with a
  lower-case ASCII word, so they are modelled exactly as the byte sequences that fold, or lower-case, to each letter
  of the word: besides the two ASCII cases these are the Kelvin sign for k, the long s for s (folding only) and the
  dotted capital I for i (lower-casing only).  \<^verbatim>\<open>strings.TrimSpace\<close> and \<^verbatim>\<open>strings.Fields\<close> cut the text into Unicode
  white space and other bytes.  The index \<^verbatim>\<open>i\<close> of the lexer is the suffix of the text that is left; the tokens already
  produced are put in front of the result of the rest.
\<close>

section \<open>Words and white space\<close>

definition fold_forms :: "byte \<Rightarrow> bytes list" where
  "fold_forms c = [c] # (if 97 \<le> c \<and> c \<le> 122 then [[c - 32]] else [])
     @ (if c = 107 then [[0xE2, 0x84, 0xAA]] else []) @ (if c = 115 then [[0xC5, 0xBF]] else [])"

definition lower_forms :: "byte \<Rightarrow> bytes list" where
  "lower_forms c = [c] # (if 97 \<le> c \<and> c \<le> 122 then [[c - 32]] else [])
     @ (if c = 107 then [[0xE2, 0x84, 0xAA]] else []) @ (if c = 105 then [[0xC4, 0xB0]] else [])"

fun spells :: "(byte \<Rightarrow> bytes list) \<Rightarrow> bytes \<Rightarrow> bytes \<Rightarrow> bool" where
  "spells forms [] s \<longleftrightarrow> s = []"
| "spells forms (c # w) s \<longleftrightarrow> list_ex (\<lambda>f. HasPrefix s f \<and> spells forms w (drop (length f) s)) (forms c)"

definition EqualFold :: "bytes \<Rightarrow> string \<Rightarrow> bool" where
  "EqualFold s w = spells fold_forms (str w) s"

definition lowerIs :: "bytes \<Rightarrow> string \<Rightarrow> bool" where
  "lowerIs s w = spells lower_forms (str w) s"

definition space_forms :: "bytes list" where
  "space_forms = [[32], [9], [10], [11], [12], [13], [0xC2, 0x85], [0xC2, 0xA0], [0xE1, 0x9A, 0x80],
     [0xE2, 0x80, 0x80], [0xE2, 0x80, 0x81], [0xE2, 0x80, 0x82], [0xE2, 0x80, 0x83], [0xE2, 0x80, 0x84],
     [0xE2, 0x80, 0x85], [0xE2, 0x80, 0x86], [0xE2, 0x80, 0x87], [0xE2, 0x80, 0x88], [0xE2, 0x80, 0x89],
     [0xE2, 0x80, 0x8A], [0xE2, 0x80, 0xA8], [0xE2, 0x80, 0xA9], [0xE2, 0x80, 0xAF], [0xE2, 0x81, 0x9F],
     [0xE3, 0x80, 0x80]]"

text \<open>The text as pieces: a white space character, or one byte of anything else.\<close>

function pieces :: "bytes \<Rightarrow> (bool \<times> bytes) list" where
  "pieces [] = []"
| "pieces (c # s) = (case find (HasPrefix (c # s)) space_forms of
     Some f \<Rightarrow> (True, f) # pieces (drop (length f - 1) s)
   | None \<Rightarrow> (False, [c]) # pieces s)"
  by pat_completeness auto
termination by (relation "measure length") auto

definition TrimSpace :: "bytes \<Rightarrow> bytes" where
  "TrimSpace s = concat (map snd (rev (dropWhile fst (rev (dropWhile fst (pieces s))))))"

fun field_words :: "(bool \<times> bytes) list \<Rightarrow> bytes \<Rightarrow> bytes list" where
  "field_words [] w = (if w = [] then [] else [w])"
| "field_words ((sp, f) # ps) w = (if sp then (if w = [] then [] else [w]) @ field_words ps [] else field_words ps (w @ f))"

definition Fields :: "bytes \<Rightarrow> bytes list" where
  "Fields s = field_words (pieces s) []"

definition HasSuffix :: "bytes \<Rightarrow> bytes \<Rightarrow> bool" where
  "HasSuffix s p \<longleftrightarrow> HasPrefix (rev s) (rev p)"

definition TrimSuffix :: "bytes \<Rightarrow> bytes \<Rightarrow> bytes" where
  "TrimSuffix s p = (if HasSuffix s p then take (length s - length p) s else s)"

definition TrimByte :: "bytes \<Rightarrow> byte \<Rightarrow> bytes" where
  "TrimByte s c = rev (dropWhile (\<lambda>x. x = c) (rev (dropWhile (\<lambda>x. x = c) s)))"

definition ContainsAny :: "bytes \<Rightarrow> bytes \<Rightarrow> bool" where
  "ContainsAny s cs \<longleftrightarrow> list_ex (\<lambda>c. c \<in> set cs) s"

section \<open>Tokens\<close>

datatype tkind = tEOF | tIdent | tString | tColon | tOp | tLParen | tRParen | tComma | tPipe | tAnd | tOr | tNot
  | tLBrace | tRBrace | tTimeVal

record token =
  val :: bytes
  kind :: tkind

abbreviation tok :: "bytes \<Rightarrow> tkind \<Rightarrow> token" where
  "tok v k \<equiv> \<lparr>val = v, kind = k\<rparr>"

text \<open>An error is its format and the strings it quotes.\<close>

datatype perr = Errorf string "bytes list"

definition lexSpecial :: "byte \<Rightarrow> bool" where
  "lexSpecial c \<longleftrightarrow> c \<in> set [32, 9, 10, 13, 40, 41, 44, 58, 61, 126, 62, 60, 34, 124, 123, 125, 33]"

section \<open>The lexer\<close>

text \<open>The body of a quoted string: what it spells and the text after the closing quote.\<close>

fun lexString :: "bytes \<Rightarrow> (bytes \<times> bytes) option" where
  "lexString [] = None"
| "lexString (c # s) = (if c = 34 then Some ([], s)
     else if c = 92 then (case s of [] \<Rightarrow> None | d # s' \<Rightarrow> map_option (apfst ((#) d)) (lexString s'))
     else map_option (apfst ((#) c)) (lexString s))"

text \<open>The value of \<^verbatim>\<open>_time:\<close>, from just past the colon, at a bracket depth.\<close>

fun lexTimeVal :: "int \<Rightarrow> bytes \<Rightarrow> bytes \<times> bytes" where
  "lexTimeVal depth [] = ([], [])"
| "lexTimeVal depth (ch # s) =
     (if ch = 91 \<or> ch = 40 then apfst ((#) ch) (lexTimeVal (depth + 1) s)
      else if ch = 93 \<or> ch = 41 then apfst ((#) ch) (lexTimeVal (depth - 1) s)
      else if depth \<le> 0 \<and> (ch = 32 \<or> ch = 9 \<or> ch = 10 \<or> ch = 13 \<or> ch = 124 \<or> ch = 41) then ([], ch # s)
      else apfst ((#) ch) (lexTimeVal depth s))"

definition word_token :: "bytes \<Rightarrow> token" where
  "word_token w = (if lowerIs w ''and'' then tok w tAnd
     else if lowerIs w ''or'' then tok w tOr
     else if lowerIs w ''not'' then tok w tNot
     else tok w tIdent)"

text \<open>One turn of the loop: the tokens it appends and the text that is left, or the error.\<close>

definition lex_step :: "byte \<Rightarrow> bytes \<Rightarrow> perr + token list \<times> bytes" where
  "lex_step c s = (
     if c = 32 \<or> c = 9 \<or> c = 10 \<or> c = 13 then Inr ([], s)
     else if c = 40 then Inr ([tok (str ''('') tLParen], s)
     else if c = 41 then Inr ([tok (str '')'') tRParen], s)
     else if c = 44 then Inr ([tok (str '','') tComma], s)
     else if c = 124 then Inr ([tok (str ''|'') tPipe], s)
     else if c = 58 then Inr ([tok (str '':'') tColon], s)
     else if c = 123 then Inr ([tok (str ''{'') tLBrace], s)
     else if c = 125 then Inr ([tok (str ''}'') tRBrace], s)
     else if c = 61 then (if HasPrefix s [126] then Inr ([tok (str ''=~'') tOp], drop 1 s) else Inr ([tok (str ''='') tOp], s))
     else if c = 126 then Inr ([tok (str ''~'') tOp], s)
     else if c = 33 then (if HasPrefix s [61] then Inr ([tok (str ''!='') tOp], drop 1 s)
       else if HasPrefix s [126] then Inr ([tok (str ''!~'') tOp], drop 1 s)
       else Inr ([tok (str ''!'') tNot], s))
     else if c = 62 \<or> c = 60 then (if HasPrefix s [61] then Inr ([tok [c, 61] tOp], drop 1 s) else Inr ([tok [c] tOp], s))
     else if c = 34 then (case lexString s of
         None \<Rightarrow> Inl (Errorf ''simdlogs: unterminated string in query'' [])
       | Some (v, r) \<Rightarrow> Inr ([tok v tString], r))
     else (let w = c # takeWhile (\<lambda>x. \<not> lexSpecial x) s; r = dropWhile (\<lambda>x. \<not> lexSpecial x) s in
       if w = str ''_time'' \<and> HasPrefix r [58]
       then (let (v, r') = lexTimeVal 0 (drop 1 r) in Inr ([tok w tIdent, tok (str '':'') tColon, tok v tTimeVal], r'))
       else Inr ([word_token w], r)))"

lemma lexString_shorter: "lexString s = Some (v, r) \<Longrightarrow> length r < length s"
  by (induction s arbitrary: v r rule: lexString.induct) (fastforce split: if_splits list.splits)+

lemma lexTimeVal_shorter: "lexTimeVal d s = (v, r) \<Longrightarrow> length r \<le> length s"
  by (induction d s arbitrary: v r rule: lexTimeVal.induct) (force split: if_splits simp: apfst_def map_prod_def split: prod.splits)+

lemma lex_step_shorter: "lex_step c s = Inr (ts, r) \<Longrightarrow> length r \<le> length s"
  unfolding lex_step_def Let_def
  using length_dropWhile_le [of "\<lambda>x. \<not> lexSpecial x" s]
  by (auto split: if_splits option.splits prod.splits dest!: lexString_shorter lexTimeVal_shorter)

function lexLogsQL :: "bytes \<Rightarrow> perr + token list" where
  "lexLogsQL [] = Inr [tok [] tEOF]"
| "lexLogsQL (c # s) = (case lex_step c s of
     Inl e \<Rightarrow> Inl e
   | Inr (ts, r) \<Rightarrow> (case lexLogsQL r of Inl e \<Rightarrow> Inl e | Inr us \<Rightarrow> Inr (ts @ us)))"
  by pat_completeness auto
termination by (relation "measure length") (auto dest: lex_step_shorter)

text \<open>A token list the parser can walk: it ends in the end token, which occurs nowhere else.\<close>

definition tokens_ok :: "token list \<Rightarrow> bool" where
  "tokens_ok ts \<longleftrightarrow> (\<exists>us t. ts = us @ [t] \<and> kind t = tEOF \<and> list_all (\<lambda>u. kind u \<noteq> tEOF) us)"

lemma word_token_kind [simp]: "kind (word_token w) \<noteq> tEOF"
  by (simp add: word_token_def)

lemma lex_step_kinds: "lex_step c s = Inr (ts, r) \<Longrightarrow> list_all (\<lambda>u. kind u \<noteq> tEOF) ts"
  unfolding lex_step_def Let_def by (auto split: if_splits option.splits prod.splits)

lemma lexLogsQL_ok: "lexLogsQL s = Inr ts \<Longrightarrow> tokens_ok ts"
proof (induction s arbitrary: ts rule: lexLogsQL.induct)
  case 1
  then show ?case by (auto simp: tokens_ok_def)
next
  case (2 c s)
  obtain vs r us where p: "lex_step c s = Inr (vs, r)" "lexLogsQL r = Inr us" "ts = vs @ us"
    using 2(2) by (auto split: sum.splits)
  obtain ws t where w: "us = ws @ [t]" "kind t = tEOF" "list_all (\<lambda>u. kind u \<noteq> tEOF) ws"
    using 2(1) [OF p(1) _ p(2)] by (auto simp: tokens_ok_def)
  show ?case unfolding tokens_ok_def
    by (rule exI [of _ "vs @ ws"], rule exI [of _ t]) (simp add: p(3) w lex_step_kinds [OF p(1)])
qed

text \<open>A quoted string, with the quotes and backslashes of its text escaped, is read back as its text.\<close>

fun escaped :: "bytes \<Rightarrow> bytes" where
  "escaped [] = []"
| "escaped (c # s) = (if c = 34 \<or> c = 92 then [92, c] else [c]) @ escaped s"

definition quoted :: "bytes \<Rightarrow> bytes" where
  "quoted v = 34 # escaped v @ [34]"

lemma lexString_escaped: "lexString (escaped v @ 34 # r) = Some (v, r)"
  by (induction v) auto

definition lexed :: "token list \<Rightarrow> perr + token list \<Rightarrow> perr + token list" where
  "lexed ts x = (case x of Inl e \<Rightarrow> Inl e | Inr us \<Rightarrow> Inr (ts @ us))"

lemma lex_quoted: "lexLogsQL (quoted v @ r) = lexed [tok v tString] (lexLogsQL r)"
  by (simp add: quoted_def lex_step_def lexString_escaped lexed_def)

end
