(* ===== verification/TimeExpr.thy ===== *)
theory TimeExpr
  imports Lexer
begin

text \<open>
  The value of a \<^verbatim>\<open>_time:\<close> filter, \<^verbatim>\<open>internal/query/time_filter.go\<close> (\<^verbatim>\<open>parseTimeExpr\<close>, \<^verbatim>\<open>oneSidedTime\<close>,
  \<^verbatim>\<open>parseTimeRangeBracket\<close>, \<^verbatim>\<open>parseAbsTime\<close>, \<^verbatim>\<open>SatNanos\<close>).  An instant of Go's \<^verbatim>\<open>time\<close> package is an integer number of
  nanoseconds since the epoch, which has no bounds; \<^verbatim>\<open>time.Parse\<close> and the calendar step \<^verbatim>\<open>AddDate\<close> are the fields of
  \<open>timelib\<close>.
\<close>

record timelib =
  Parse :: "string \<Rightarrow> bytes \<Rightarrow> int option"
  AddDate :: "int \<Rightarrow> nat \<Rightarrow> nat \<Rightarrow> nat \<Rightarrow> int"

definition timeLayouts :: "(string \<times> int) list" where
  "timeLayouts = [(''2006-01-02T15:04:05Z07:00'', 1000000000), (''2006-01-02T15:04:05'', 1000000000),
     (''2006-01-02T15:04'', 60000000000), (''2006-01-02T15'', 3600000000000), (''2006-01-02 15:04:05'', 1000000000),
     (''2006-01-02'', 86400000000000), (''2006-01'', 0), (''2006'', 0)]"

definition SatNanos :: "int \<Rightarrow> u64" where
  "SatNanos t = (if t > 2 ^ 63 - 1 then MaxInt64 else if t < - (2 ^ 63) then MinInt64 else word_of_int t)"

definition layout_end :: "timelib \<Rightarrow> string \<times> int \<Rightarrow> int \<Rightarrow> int" where
  "layout_end TL l t = (if fst l = ''2006-01'' then AddDate TL t 0 1 0
     else if fst l = ''2006'' then AddDate TL t 1 0 0 else t + snd l)"

fun abs_interval :: "timelib \<Rightarrow> (string \<times> int) list \<Rightarrow> bytes \<Rightarrow> (int \<times> int) option" where
  "abs_interval TL [] s = None"
| "abs_interval TL (l # ls) s = (case Parse TL (fst l) s of
     None \<Rightarrow> abs_interval TL ls s
   | Some t \<Rightarrow> Some (t, layout_end TL l t))"

definition parseAbsTime :: "timelib \<Rightarrow> bytes \<Rightarrow> (u64 \<times> u64) option" where
  "parseAbsTime TL s = map_option (map_prod SatNanos SatNanos) (abs_interval TL timeLayouts s)"

definition oneSidedTime :: "('f, 're) golib \<Rightarrow> timelib \<Rightarrow> string \<Rightarrow> bytes \<Rightarrow> ('f, 're) Pred option" where
  "oneSidedTime G TL op arg = (let p = time_pred G TimeRange MinInt64 MaxInt64 in
     case parseDurationNs arg of
       Some dur \<Rightarrow> Some (if op = ''>='' \<or> op = ''>'' then p\<lparr>Rel := True, T1 := dur, T2 := 0\<rparr>
         else p\<lparr>Rel := True, T1 := MaxInt64, T2 := dur\<rparr>)
     | None \<Rightarrow> (case parseAbsTime TL arg of
         None \<Rightarrow> None
       | Some (lo, hi) \<Rightarrow> Some (if op = ''>='' then p\<lparr>T1 := lo\<rparr> else if op = ''>'' then p\<lparr>T1 := hi\<rparr>
           else if op = ''<='' then p\<lparr>T2 := hi\<rparr> else p\<lparr>T2 := lo\<rparr>)))"

definition parseTimeRangeBracket :: "('f, 're) golib \<Rightarrow> timelib \<Rightarrow> bytes \<Rightarrow> ('f, 're) Pred option" where
  "parseTimeRangeBracket G TL s =
     (if length s < 2 then None
      else (let loInc = (s ! 0 = 91); hiInc = (s ! (length s - 1) = 93); inner = take (length s - 2) (drop 1 s) in
        case IndexByte inner 44 of
          None \<Rightarrow> None
        | Some comma \<Rightarrow>
            (let aStr = TrimSpace (take comma inner); bStr = TrimSpace (drop (comma + 1) inner);
                 p = time_pred G TimeRange MinInt64 MaxInt64 in
             do {
               p \<leftarrow> (if aStr = [] then Some p
                 else map_option (\<lambda>(lo, after). p\<lparr>T1 := if loInc then lo else after\<rparr>) (parseAbsTime TL aStr));
               (if bStr = [] then Some p
                else map_option (\<lambda>(hi, after). p\<lparr>T2 := if hiInc then after else hi\<rparr>) (parseAbsTime TL bStr))
             })))"

text \<open>\<open>None\<close> is an error: \<^verbatim>\<open>empty _time filter\<close>, a bad value, bound or range.\<close>

definition parseTimeExpr :: "('f, 're) golib \<Rightarrow> timelib \<Rightarrow> bytes \<Rightarrow> ('f, 're) Pred option" where
  "parseTimeExpr G TL raw = (let s = TrimSpace raw in
     if s = [] then None
     else if HasPrefix s (str ''day_range'') then parseDayRange G TrimSpace s
     else if HasPrefix s (str ''week_range'') then parseWeekRange G TrimSpace s
     else (case find (\<lambda>op. HasPrefix s (str op)) [''>='', ''<='', ''>'', ''<''] of
         Some op \<Rightarrow> oneSidedTime G TL op (TrimSpace (drop (length op) s))
       | None \<Rightarrow>
           if s ! 0 = 91 \<or> s ! 0 = 40 then parseTimeRangeBracket G TL s
           else (case parseDurationNs s of
               Some dur \<Rightarrow> Some ((time_pred G TimeRange dur 0)\<lparr>Rel := True\<rparr>)
             | None \<Rightarrow> map_option (\<lambda>(lo, hi). time_pred G TimeRange lo hi) (parseAbsTime TL s))))"

section \<open>What a bound selects\<close>

lemma SatNanos_clamp: "sint (SatNanos t) = clamp t"
  by (auto simp: SatNanos_def clamp_def MaxInt64_def MinInt64_def int_word_sint)

end
