(* ===== verification/ParserKit.thy ===== *)
theory ParserKit
  imports TimeExpr
begin

text \<open>
  The parser state of \<^verbatim>\<open>internal/query/logsql.go\<close> (\<^verbatim>\<open>lqlParser\<close>) and the calls its methods make on it.

  The state is the list of tokens from the current position on: \<^verbatim>\<open>p.toks[p.pos:]\<close>.  A method is a function from the
  state to its result: a value and the state after it, an error, a panic (an index outside the tokens) or a loop that has
  run out of its fuel.  A \<^verbatim>\<open>for\<close> loop gets one turn more than there are tokens; every loop of the parser
  takes a token in each turn it repeats, so the fuel of a loop is never used up, which \<open>eats\<close> tracks: \<open>eats n K H p\<close>
  says that on at most \<open>n\<close> tokens the first of which satisfies \<open>H\<close> the method \<open>p\<close> returns a value or an error, and has
  taken at least \<open>K x\<close> tokens when it returns the value \<open>x\<close>.
\<close>

section \<open>Methods\<close>

datatype 'a pres = Ok 'a "token list" | Err perr | Panic | OutOfFuel

type_synonym 'a parser = "token list \<Rightarrow> 'a pres"

definition returnp :: "'a \<Rightarrow> 'a parser" where
  "returnp x ts = Ok x ts"

definition failp :: "string \<Rightarrow> bytes list \<Rightarrow> 'a parser" where
  "failp f args ts = Err (Errorf f args)"

definition thenp :: "'a parser \<Rightarrow> ('a \<Rightarrow> 'b parser) \<Rightarrow> 'b parser" where
  "thenp p f ts = (case p ts of Ok x r \<Rightarrow> f x r | Err e \<Rightarrow> Err e | Panic \<Rightarrow> Panic | OutOfFuel \<Rightarrow> OutOfFuel)"

definition peek :: "token parser" where
  "peek ts = (case ts of [] \<Rightarrow> Panic | t # r \<Rightarrow> Ok t ts)"

definition peekAt :: "nat \<Rightarrow> token parser" where
  "peekAt n ts = (case ts of [] \<Rightarrow> Panic | t # r \<Rightarrow> Ok (if n < length ts then ts ! n else List.last ts) ts)"

definition nextp :: "token parser" where
  "nextp ts = (case ts of [] \<Rightarrow> Panic | t # r \<Rightarrow> Ok t (if r = [] then ts else r))"

text \<open>A \<^verbatim>\<open>for\<close> loop: its body goes on with a new state (\<open>Inl\<close>) or leaves the loop with a value (\<open>Inr\<close>).\<close>

fun loop_n :: "nat \<Rightarrow> ('s \<Rightarrow> ('s + 'a) parser) \<Rightarrow> 's \<Rightarrow> 'a parser" where
  "loop_n 0 body s = (\<lambda>ts. OutOfFuel)"
| "loop_n (Suc n) body s = thenp (body s) (\<lambda>r. case r of Inl s' \<Rightarrow> loop_n n body s' | Inr x \<Rightarrow> returnp x)"

definition loopp :: "('s \<Rightarrow> ('s + 'a) parser) \<Rightarrow> 's \<Rightarrow> 'a parser" where
  "loopp body s ts = loop_n (Suc (length ts)) body s ts"

section \<open>Methods that end and never panic\<close>

definition fine :: "('a \<Rightarrow> nat) \<Rightarrow> nat \<Rightarrow> 'a pres \<Rightarrow> bool" where
  "fine K m res = (case res of Ok x r \<Rightarrow> tokens_ok r \<and> length r + K x \<le> m | Err e \<Rightarrow> True | Panic \<Rightarrow> False | OutOfFuel \<Rightarrow> False)"

definition eats :: "nat \<Rightarrow> ('a \<Rightarrow> nat) \<Rightarrow> (token \<Rightarrow> bool) \<Rightarrow> 'a parser \<Rightarrow> bool" where
  "eats n K H p \<longleftrightarrow> (\<forall>ts. tokens_ok ts \<longrightarrow> length ts \<le> n \<longrightarrow> H (hd ts) \<longrightarrow> fine K (length ts) (p ts))"

abbreviation anyt :: "token \<Rightarrow> bool" where
  "anyt \<equiv> \<lambda>t. True"

lemma fine_simps [simp]:
  "fine K m (Ok x r) \<longleftrightarrow> tokens_ok r \<and> length r + K x \<le> m"
  "fine K m (Err e)" "\<not> fine K m Panic" "\<not> fine K m OutOfFuel"
  by (simp_all add: fine_def)

lemma eatsI: "(\<And>ts. tokens_ok ts \<Longrightarrow> length ts \<le> n \<Longrightarrow> H (hd ts) \<Longrightarrow> fine K (length ts) (p ts)) \<Longrightarrow> eats n K H p"
  by (simp add: eats_def)

lemma eatsD: "eats n K H p \<Longrightarrow> tokens_ok ts \<Longrightarrow> length ts \<le> n \<Longrightarrow> H (hd ts) \<Longrightarrow> fine K (length ts) (p ts)"
  by (simp add: eats_def)

lemma tokens_ok_Nil [simp]: "\<not> tokens_ok []"
  by (simp add: tokens_ok_def)

lemma tokens_ok_Cons: "tokens_ok (t # ts) \<longleftrightarrow> (if ts = [] then kind t = tEOF else kind t \<noteq> tEOF \<and> tokens_ok ts)"
  by (cases "ts = []") (auto simp: tokens_ok_def Cons_eq_append_conv)

lemma tokens_okE: "tokens_ok ts \<Longrightarrow> (\<And>t r. ts = t # r \<Longrightarrow> thesis) \<Longrightarrow> thesis"
  by (cases ts) auto

lemma fine_mono:
  assumes "fine K m res" "\<And>x. J x \<le> K x + d" "m + d \<le> m'"
  shows "fine J m' res"
proof (cases res)
  case (Ok x r)
  then show ?thesis using assms(1,3) assms(2) [of x] by simp
qed (use assms(1) in auto)

lemma eats_mono:
  assumes "eats n K H p" "m \<le> n" "\<And>x. J x \<le> K x" "\<And>t. I t \<Longrightarrow> H t"
  shows "eats m J I p"
proof (rule eatsI)
  fix ts assume ts: "tokens_ok ts" "length ts \<le> m" "I (hd ts)"
  show "fine J (length ts) (p ts)"
    by (rule fine_mono [where d = 0, OF eatsD [OF assms(1) ts(1)]]) (use ts assms in auto)
qed

lemma eats_return: "K x = 0 \<Longrightarrow> eats n K H (returnp x)"
  by (simp add: eats_def returnp_def)

lemma eats_fail: "eats n K H (failp f args)"
  by (simp add: eats_def failp_def)

lemma eats_if: "(c \<Longrightarrow> eats n K H p) \<Longrightarrow> (\<not> c \<Longrightarrow> eats n K H q) \<Longrightarrow> eats n K H (if c then p else q)"
  by simp

lemma eats_option:
  "(x = None \<Longrightarrow> eats n K H p) \<Longrightarrow> (\<And>y. x = Some y \<Longrightarrow> eats n K H (f y)) \<Longrightarrow>
   eats n K H (case x of None \<Rightarrow> p | Some y \<Rightarrow> f y)"
  by (simp split: option.split)

lemma eats_prod: "(\<And>y z. x = (y, z) \<Longrightarrow> eats n K H (f y z)) \<Longrightarrow> eats n K H (case x of (y, z) \<Rightarrow> f y z)"
  by (simp split: prod.split)

lemma eats_then:
  assumes p: "eats n (\<lambda>_. i) H p" and f: "\<And>x. eats (n - i) (\<lambda>y. K y - i) anyt (f x)"
  shows "eats n K H (thenp p f)"
proof (rule eatsI)
  fix ts assume ts: "tokens_ok ts" "length ts \<le> n" "H (hd ts)"
  note ps = eatsD [OF p ts]
  show "fine K (length ts) (thenp p f ts)"
  proof (cases "p ts")
    case (Ok x r)
    then have r: "tokens_ok r" "length r + i \<le> length ts" using ps by auto
    then have "length r \<le> n - i" using ts(2) by simp
    from eatsD [OF f r(1) this TrueI, of x] have "fine K (length ts) (f x r)"
      by (rule fine_mono [where d = i]) (use r in auto)
    then show ?thesis using Ok by (simp add: thenp_def)
  qed (use ps in \<open>simp_all add: thenp_def\<close>)
qed

lemma eats_peek:
  assumes f: "\<And>t. H t \<Longrightarrow> eats n K (\<lambda>x. x = t) (f t)"
  shows "eats n K H (thenp peek f)"
proof (rule eatsI)
  fix ts assume ts: "tokens_ok ts" "length ts \<le> n" "H (hd ts)"
  from ts(1) obtain t r where t: "ts = t # r" by (rule tokens_okE)
  from eatsD [OF f ts(1,2), of t] show "fine K (length ts) (thenp peek f ts)"
    using ts(3) by (simp add: t thenp_def peek_def)
qed

lemma eats_peekAt:
  assumes f: "\<And>t. eats n K H (f t)"
  shows "eats n K H (thenp (peekAt i) f)"
proof (rule eatsI)
  fix ts assume ts: "tokens_ok ts" "length ts \<le> n" "H (hd ts)"
  from ts(1) obtain t r where t: "ts = t # r" by (rule tokens_okE)
  have "thenp (peekAt i) f ts = f (if i < length ts then ts ! i else List.last ts) ts"
    by (simp only: t thenp_def peekAt_def list.case pres.case)
  then show "fine K (length ts) (thenp (peekAt i) f ts)" using eatsD [OF f ts] by simp
qed

lemma eats_next:
  assumes f: "\<And>t. H t \<Longrightarrow> kind t \<noteq> tEOF \<Longrightarrow> eats (n - 1) (\<lambda>y. K y - 1) anyt (f t)"
    and e: "\<And>t. H t \<Longrightarrow> kind t = tEOF \<Longrightarrow> eats n K (\<lambda>x. x = t) (f t)"
  shows "eats n K H (thenp nextp f)"
proof (rule eatsI)
  fix ts assume ts: "tokens_ok ts" "length ts \<le> n" "H (hd ts)"
  from ts(1) obtain t r where t: "ts = t # r" by (rule tokens_okE)
  show "fine K (length ts) (thenp nextp f ts)"
  proof (cases "r = []")
    case True
    then have "thenp nextp f ts = f t ts" "kind t = tEOF" using ts(1) by (simp_all add: t thenp_def nextp_def tokens_ok_Cons)
    then show ?thesis using eatsD [OF e ts(1,2), of t] ts(3) t by simp
  next
    case False
    then have r: "thenp nextp f ts = f t r" "kind t \<noteq> tEOF" "tokens_ok r"
      using ts(1) by (simp_all add: t thenp_def nextp_def tokens_ok_Cons)
    have "fine (\<lambda>y. K y - 1) (length r) (f t r)"
      by (rule eatsD [OF f r(3)]) (use ts r t in auto)
    then show ?thesis unfolding r(1) by (rule fine_mono [where d = 1]) (auto simp: t)
  qed
qed

lemma eats_next_tail:
  assumes "\<And>t. H t \<Longrightarrow> kind t = tEOF \<Longrightarrow> K t = 0" "\<And>t. H t \<Longrightarrow> K t \<le> 1"
  shows "eats n K H nextp"
proof (rule eatsI)
  fix ts assume ts: "tokens_ok ts" "length ts \<le> n" "H (hd ts)"
  from ts(1) obtain t r where t: "ts = t # r" by (rule tokens_okE)
  show "fine K (length ts) (nextp ts)"
    using ts assms [of t] by (cases "r = []") (auto simp: t nextp_def tokens_ok_Cons)
qed

text \<open>A loop whose body takes a token whenever it goes on.\<close>

abbreviation per_turn :: "'s + 'a \<Rightarrow> nat" where
  "per_turn \<equiv> case_sum (\<lambda>_. 1) (\<lambda>_. 0)"

lemma loop_n_eats:
  assumes body: "\<And>s. eats n per_turn anyt (body s)"
  shows "m \<le> n \<Longrightarrow> eats m (\<lambda>_. 0) anyt (loop_n (Suc m) body s)"
proof (induction m arbitrary: s)
  case 0
  then show ?case by (auto simp: eats_def)
next
  case (Suc m)
  show ?case
  proof (rule eatsI)
    fix ts assume ts: "tokens_ok ts" "length ts \<le> Suc m" "anyt (hd ts)"
    have b: "fine per_turn (length ts) (body s ts)" by (rule eatsD [OF body ts(1)]) (use ts Suc.prems in auto)
    show "fine (\<lambda>_. 0) (length ts) (loop_n (Suc (Suc m)) body s ts)"
    proof (cases "body s ts")
      case (Ok x r)
      show ?thesis
      proof (cases x)
        case (Inl s')
        then have r: "tokens_ok r" "length r < length ts" using b Ok by auto
        have "fine (\<lambda>_. 0) (length r) (loop_n (Suc m) body s' r)"
          by (rule eatsD [OF Suc.IH r(1)]) (use Suc.prems r ts in auto)
        then have "fine (\<lambda>_. 0) (length ts) (loop_n (Suc m) body s' r)"
          by (rule fine_mono [where d = "length ts - length r"]) (use r in auto)
        then show ?thesis unfolding loop_n.simps(2) [of "Suc m"] by (simp only: thenp_def Ok Inl pres.case sum.case)
      next
        case (Inr y)
        then show ?thesis using b Ok by (simp add: thenp_def returnp_def)
      qed
    qed (use b in \<open>simp_all add: thenp_def\<close>)
  qed
qed

lemma eats_loop:
  assumes body: "\<And>s. eats n per_turn anyt (body s)"
  shows "eats n (\<lambda>_. 0) H (loopp body s)"
proof (rule eatsI)
  fix ts assume ts: "tokens_ok ts" "length ts \<le> n" "H (hd ts)"
  show "fine (\<lambda>_. 0) (length ts) (loopp body s ts)" unfolding loopp_def
    by (rule eatsD [OF loop_n_eats [OF body ts(2)] ts(1)]) auto
qed

end
