(* ===== verification/MathExpr.thy ===== *)
theory MathExpr
  imports Lexer
begin

text \<open>
  The arithmetic of the math pipe, \<^verbatim>\<open>internal/query/math.go\<close>: the expression tree (\<^verbatim>\<open>mathNode\<close>), the recursive-descent
  parser (\<^verbatim>\<open>mathParser\<close>) and the fields an expression reads (\<^verbatim>\<open>mathVars\<close>).

  The position of the parser is the text that is left.  A parsed value is a pair with the rest of the text; the result
  is \<open>None\<close> when the fuel is used up, an error on the left, a value on the right.  The nesting of parentheses and
  minus signs uses one unit of fuel per level and each loop over a chain of operators one per operand, so a
  text never needs more than its length plus one, which \<open>parse_math_returns\<close> shows.
\<close>

section \<open>Trees and the parser\<close>

datatype 'f mathNode = mathNum 'f | mathVar bytes | mathBin byte "'f mathNode" "'f mathNode"

fun mathVars :: "'f mathNode \<Rightarrow> bytes list" where
  "mathVars (mathNum f) = []"
| "mathVars (mathVar v) = [v]"
| "mathVars (mathBin op l r) = mathVars l @ mathVars r"

type_synonym 'f mres = "(perr + 'f mathNode \<times> bytes) option"

definition math_ws :: "bytes \<Rightarrow> bytes" where
  "math_ws s = dropWhile (\<lambda>c. c = 32 \<or> c = 9) s"

text \<open>The loop of \<^verbatim>\<open>expr\<close> and of \<^verbatim>\<open>term\<close>: operands of \<open>p\<close> chained to the left by the operators \<open>ops\<close>.\<close>

fun math_chain :: "nat \<Rightarrow> byte set \<Rightarrow> (bytes \<Rightarrow> 'f mres) \<Rightarrow> 'f mathNode \<Rightarrow> bytes \<Rightarrow> 'f mres" where
  "math_chain 0 ops p n s = None"
| "math_chain (Suc k) ops p n s = (case math_ws s of
     [] \<Rightarrow> Some (Inr (n, []))
   | c # r \<Rightarrow> if c \<notin> ops then Some (Inr (n, c # r))
       else (case p r of None \<Rightarrow> None | Some (Inl e) \<Rightarrow> Some (Inl e)
         | Some (Inr (m, r')) \<Rightarrow> math_chain k ops p (mathBin c n m) r'))"

definition math_operands :: "byte set \<Rightarrow> (bytes \<Rightarrow> 'f mres) \<Rightarrow> bytes \<Rightarrow> 'f mres" where
  "math_operands ops p s = (case p s of None \<Rightarrow> None | Some (Inl e) \<Rightarrow> Some (Inl e)
     | Some (Inr (n, r)) \<Rightarrow> math_chain (Suc (length r)) ops p n r)"

definition math_term :: "(bytes \<Rightarrow> 'f mres) \<Rightarrow> bytes \<Rightarrow> 'f mres" where
  "math_term factor = math_operands {42, 47} factor"

definition math_expr :: "(bytes \<Rightarrow> 'f mres) \<Rightarrow> bytes \<Rightarrow> 'f mres" where
  "math_expr factor = math_operands {43, 45} (math_term factor)"

definition math_stop :: "byte \<Rightarrow> bool" where
  "math_stop c \<longleftrightarrow> c \<in> set [32, 9, 43, 45, 42, 47, 40, 41]"

fun math_factor :: "('f, 're) golib \<Rightarrow> nat \<Rightarrow> bytes \<Rightarrow> 'f mres" where
  "math_factor G 0 s = None"
| "math_factor G (Suc k) s = (case math_ws s of
     [] \<Rightarrow> Some (Inl (Errorf ''simdlogs: math: unexpected end of expression'' []))
   | c # r \<Rightarrow>
       if c = 40 then (case math_expr (math_factor G k) r of None \<Rightarrow> None | Some (Inl e) \<Rightarrow> Some (Inl e)
         | Some (Inr (n, r')) \<Rightarrow> (case math_ws r' of
             [] \<Rightarrow> Some (Inl (Errorf ''simdlogs: math: expected )'' []))
           | d # r'' \<Rightarrow> if d \<noteq> 41 then Some (Inl (Errorf ''simdlogs: math: expected )'' [])) else Some (Inr (n, r''))))
       else if c = 45 then (case math_factor G k r of None \<Rightarrow> None | Some (Inl e) \<Rightarrow> Some (Inl e)
         | Some (Inr (n, r')) \<Rightarrow> Some (Inr (mathBin 45 (mathNum (f_of_int G 0)) n, r')))
       else (let w = takeWhile (\<lambda>x. \<not> math_stop x) (c # r) in
         if w = [] then Some (Inl (Errorf ''simdlogs: math: unexpected %q'' [[c]]))
         else Some (Inr (case ParseFloat G w of Some f \<Rightarrow> mathNum f | None \<Rightarrow> mathVar w, dropWhile (\<lambda>x. \<not> math_stop x) (c # r)))))"

definition parseMath :: "('f, 're) golib \<Rightarrow> bytes \<Rightarrow> (perr + 'f mathNode \<times> bytes list) option" where
  "parseMath G s = (case math_expr (math_factor G (Suc (length s))) s of None \<Rightarrow> None | Some (Inl e) \<Rightarrow> Some (Inl e)
     | Some (Inr (n, r)) \<Rightarrow> if math_ws r \<noteq> [] then Some (Inl (Errorf ''simdlogs: math: unexpected %q'' [math_ws r]))
         else Some (Inr (n, mathVars n)))"

section \<open>The parser returns\<close>

text \<open>On texts of at most \<open>n\<close> bytes the parser \<open>p\<close> returns, and a value it returns has taken at least one byte.\<close>

definition math_takes :: "nat \<Rightarrow> (bytes \<Rightarrow> 'f mres) \<Rightarrow> bool" where
  "math_takes n p \<longleftrightarrow> (\<forall>s. length s \<le> n \<longrightarrow> (case p s of None \<Rightarrow> False | Some (Inl e) \<Rightarrow> True | Some (Inr (m, r)) \<Rightarrow> length r < length s))"

lemma math_takesE:
  assumes "math_takes n p" "length s \<le> n"
  obtains e where "p s = Some (Inl e)" | m r where "p s = Some (Inr (m, r))" "length r < length s"
  using assms unfolding math_takes_def by (fastforce split: option.splits sum.splits)

lemma math_ws_le: "length (math_ws s) \<le> length s"
  by (simp add: math_ws_def length_dropWhile_le)

lemma math_chain_returns:
  "math_takes n p \<Longrightarrow> length s \<le> n \<Longrightarrow> length s < k \<Longrightarrow>
   (\<exists>e. math_chain k ops p m s = Some (Inl e)) \<or> (\<exists>m' r. math_chain k ops p m s = Some (Inr (m', r)) \<and> length r \<le> length s)"
proof (induction k arbitrary: m s)
  case (Suc k)
  show ?case
  proof (cases "math_ws s")
    case (Cons c r)
    then have r: "length r < length s" using math_ws_le [of s] by simp
    then have "length r \<le> n" using Suc.prems by simp
    from Suc.prems(1) this show ?thesis
    proof (cases rule: math_takesE)
      case (2 m' r')
      show ?thesis
      proof (cases "c \<in> ops")
        case True
        have "length r' \<le> n" "length r' < k" using 2(2) r Suc.prems(2,3) by simp_all
        from Suc.IH [OF Suc.prems(1) this, of "mathBin c m m'"] show ?thesis
          using Cons True 2 r by (auto intro: less_imp_le [OF le_less_trans])
      qed (use Cons r in simp)
    qed (use Cons math_ws_le [of s] in auto)
  qed auto
qed simp

lemma math_operands_takes:
  assumes "math_takes n p"
  shows "math_takes n (math_operands ops p)"
  unfolding math_takes_def
proof (intro allI impI)
  fix s :: bytes assume s: "length s \<le> n"
  from assms s show "case math_operands ops p s of None \<Rightarrow> False | Some (Inl e) \<Rightarrow> True | Some (Inr (m, r)) \<Rightarrow> length r < length s"
  proof (cases rule: math_takesE)
    case (2 m r)
    then show ?thesis using math_chain_returns [OF assms, of r "Suc (length r)" ops m] s
      by (auto simp: math_operands_def)
  qed (simp add: math_operands_def)
qed

lemma math_expr_takes: "math_takes n p \<Longrightarrow> math_takes n (math_expr p)"
  unfolding math_expr_def math_term_def by (intro math_operands_takes)

lemma math_factor_takes: "math_takes n (math_factor G (Suc n))"
proof (induction n)
  case 0
  show ?case by (auto simp: math_takes_def math_ws_def)
next
  case (Suc n)
  have e: "math_takes n (math_expr (math_factor G (Suc n)))"
    by (rule math_expr_takes [OF Suc])
  show ?case unfolding math_takes_def
  proof (intro allI impI)
    fix s :: bytes assume s: "length s \<le> Suc n"
    show "case math_factor G (Suc (Suc n)) s of None \<Rightarrow> False | Some (Inl e) \<Rightarrow> True | Some (Inr (m, r)) \<Rightarrow> length r < length s"
    proof (cases "math_ws s")
      case (Cons c r)
      then have r: "length r < length s" "length r \<le> n" using math_ws_le [of s] s by auto
      consider "c = 40" | "c = 45" | "c \<noteq> 40" "c \<noteq> 45" by blast
      then show ?thesis
      proof cases
        case 1
        from e r(2) show ?thesis
        proof (cases rule: math_takesE)
          case (2 m r')
          then show ?thesis using 1 Cons r(1) math_ws_le [of r'] by (cases "math_ws r'") (auto simp del: math_factor.simps(2) simp: math_factor.simps(2) [of G "Suc n"])
        qed (use 1 Cons in \<open>simp del: math_factor.simps(2) add: math_factor.simps(2) [of G "Suc n"]\<close>)
      next
        case 2
        from Suc r(2) show ?thesis
        proof (cases rule: math_takesE)
          case (2 m r')
          then show ?thesis using \<open>c = 45\<close> Cons r(1) by (simp del: math_factor.simps(2) add: math_factor.simps(2) [of G "Suc n"])
        qed (use 2 Cons in \<open>simp del: math_factor.simps(2) add: math_factor.simps(2) [of G "Suc n"]\<close>)
      next
        case 3
        have "length (dropWhile (\<lambda>x. \<not> math_stop x) (c # r)) < length s" if "takeWhile (\<lambda>x. \<not> math_stop x) (c # r) \<noteq> []"
          using that length_dropWhile_le [of "\<lambda>x. \<not> math_stop x" r] r by (auto split: if_splits)
        then show ?thesis using 3 Cons by (auto simp: Let_def simp del: math_factor.simps(2) takeWhile.simps dropWhile.simps simp: math_factor.simps(2) [of G "Suc n"])
      qed
    qed simp
  qed
qed

lemma parse_math_returns: "\<exists>x. parseMath G s = Some x"
proof -
  have "math_takes (length s) (math_expr (math_factor G (Suc (length s))))"
    by (rule math_expr_takes [OF math_factor_takes])
  from this le_refl show ?thesis by (cases rule: math_takesE) (auto simp: parseMath_def)
qed

end
