(* ===== verification/QueryAst.thy ===== *)
theory QueryAst
  imports ParserKit MathExpr
begin

text \<open>
  What the LogsQL parser builds: queries, filter trees, aggregations and pipes, as \<^verbatim>\<open>internal/query/engine.go\<close>,
  \<^verbatim>\<open>pipes*.go\<close> and \<^verbatim>\<open>subquery.go\<close> declare them.  A predicate is a \<open>Pred\<close> of the engine with the subquery of its
  \<^verbatim>\<open>Sub\<close> field, which makes queries, trees and pipes mutually recursive; the pipes that hold neither a tree nor
  a query are \<open>RowPipe\<close>.  The constructors carry the fields the parser sets, in the order of the Go structs; the fields
  stamped when a query runs are not here.
\<close>

datatype AggKind = AggCount | AggSum | AggAvg | AggMin | AggMax | AggUniq | AggCountUniq | AggQuantile | AggValues
  | AggUniqValues | AggSumLen | AggCountEmpty | AggRowAny | AggHistogram | AggRowMin | AggRowMax | AggRate | AggRateSum

datatype ('f, 're) RowPipe =
    SortPipe "bytes list" int bool
  | LimitPipe int
  | FieldsPipe "bytes list"
  | UniqPipe "bytes list" int
  | TopPipe "bytes list" int
  | TailPipe int
  | OffsetPipe int
  | RenamePipe "bytes list" "bytes list"
  | DeletePipe "bytes list"
  | UnpackJSONPipe bytes bytes
  | ExtractPipe bytes bytes
  | FormatPipe bytes bytes
  | RankPipe "bytes list" bytes
  | UnpackLogfmtPipe bytes bytes
  | ReplacePipe bytes bytes bytes bool
  | CopyPipe "bytes list" "bytes list"
  | LenPipe bytes bytes
  | HashPipe bytes bytes
  | DropEmptyPipe
  | CollapseNumsPipe bytes bool
  | MathPipe bytes "'f mathNode" "bytes list"
  | ExtractRegexpPipe bytes 're
  | DecolorizePipe bytes
  | PackPipe "bytes list" bytes bool
  | SamplePipe int
  | UnrollPipe bytes
  | StreamContextPipe int int
  | BlocksCountPipe
  | BlockStatsPipe
  | FieldNamesPipe
  | FieldValuesPipe bytes int
  | FacetsPipe int
  | UnpackSyslogPipe bytes
  | JSONArrayLenPipe bytes bytes
  | UnpackWordsPipe bytes bytes

datatype ('f, 're) QPred = QPred "('f, 're) Pred" "('f, 're) QQuery option"
  and ('f, 're) QExpr = QLeaf "('f, 're) QPred" | QAnd "('f, 're) QExpr list" | QOr "('f, 're) QExpr list" | QNot "('f, 're) QExpr"
  and ('f, 're) QQuery = QQuery "('f, 're) QPred list" "('f, 're) QExpr option" "('f, 're) QPipe list"
  and ('f, 're) QAgg = QAgg AggKind bytes bytes bytes 'f "('f, 're) QExpr option"
  and ('f, 're) QPipe = RowPipe "('f, 're) RowPipe" | StatsPipe "bytes list" "('f, 're) QAgg list"
    | FilterPipe "('f, 're) QExpr" | JoinPipe "bytes list" bytes "('f, 're) QQuery" | UnionPipe "('f, 're) QQuery"

text \<open>What the parser calls of Go's library: numbers, regular expressions, times, and the constant 0.5.\<close>

record ('f, 're) qlib =
  golib :: "('f, 're) golib"
  timelib :: timelib
  f_half :: 'f

text \<open>A predicate with only its field and kind set.\<close>

definition pred_of :: "('f, 're) qlib \<Rightarrow> bytes \<Rightarrow> PredKind \<Rightarrow> ('f, 're) Pred" where
  "pred_of L f k = \<lparr>Field = f, Field2 = [], Value = [], Value2 = [], Values = [], re = None,
     Num = f_of_int (golib L) 0, Num2 = f_of_int (golib L) 0, T1 = 0, T2 = 0, ExLo = False, ExHi = False, Rel = False, Kind = k\<rparr>"

abbreviation leaf :: "('f, 're) Pred \<Rightarrow> ('f, 're) QExpr" where
  "leaf p \<equiv> QLeaf (QPred p None)"

end
