(* ===== verification/FilterSyntax.thy ===== *)
theory FilterSyntax
  imports QueryAst
begin

text \<open>
  The filter grammar of \<^verbatim>\<open>internal/query/logsql.go\<close>: AND, OR, NOT and parentheses, terms, stream selectors and the
  matchers after a field's colon.  The methods that call back into the grammar take the methods they call as arguments:
  \<open>u\<close> is \<^verbatim>\<open>parseUnary\<close> and \<open>pp\<close> is \<^verbatim>\<open>parsePipes\<close>, which the theory \<open>LogsQL\<close> closes by recursion.
\<close>

section \<open>Small steps\<close>

definition isWord :: "token \<Rightarrow> bool" where
  "isWord t \<longleftrightarrow> kind t = tIdent \<or> kind t = tString"

definition kw :: "token \<Rightarrow> string \<Rightarrow> bool" where
  "kw t w \<longleftrightarrow> kind t = tIdent \<and> EqualFold (val t) w"

text \<open>\<^verbatim>\<open>if p.peek().kind == k { p.next() }\<close>, the same on a keyword, and \<^verbatim>\<open>if p.peek().kind != k { return err }; p.next()\<close>.\<close>

definition skip_kind :: "tkind \<Rightarrow> unit parser" where
  "skip_kind k = thenp peek (\<lambda>t. if kind t = k then thenp nextp (\<lambda>_. returnp ()) else returnp ())"

definition skip_kw :: "string \<Rightarrow> unit parser" where
  "skip_kw w = thenp peek (\<lambda>t. if kw t w then thenp nextp (\<lambda>_. returnp ()) else returnp ())"

definition expect :: "tkind \<Rightarrow> string \<Rightarrow> bytes list \<Rightarrow> unit parser" where
  "expect k f args = thenp peek (\<lambda>t. if kind t \<noteq> k then failp f args else thenp nextp (\<lambda>_. returnp ()))"

definition valuep :: "bytes parser" where
  "valuep = thenp nextp (\<lambda>t. if \<not> isWord t then failp ''simdlogs: expected a value, got %q'' [val t] else returnp (val t))"

text \<open>The loop that reads words up to a closing parenthesis, and that parenthesis.\<close>

definition words_to_paren :: "(bytes \<Rightarrow> perr) \<Rightarrow> perr \<Rightarrow> bytes list parser" where
  "words_to_paren bad unclosed = thenp (loopp (\<lambda>vals. thenp peek (\<lambda>t.
       if kind t = tRParen \<or> kind t = tEOF then returnp (Inr vals)
       else thenp nextp (\<lambda>vt. if \<not> isWord vt then (\<lambda>_. Err (bad (val vt)))
         else thenp (skip_kind tComma) (\<lambda>_. returnp (Inl (vals @ [val vt])))))) [])
     (\<lambda>vals. thenp peek (\<lambda>t. if kind t \<noteq> tRParen then (\<lambda>_. Err unclosed) else thenp nextp (\<lambda>_. returnp vals)))"

definition parenValueList :: "string \<Rightarrow> bytes list parser" where
  "parenValueList name = thenp nextp (\<lambda>_. thenp nextp (\<lambda>_.
     words_to_paren (\<lambda>v. Errorf ''simdlogs: bad %s() value %q'' [str name, v]) (Errorf ''simdlogs: expected ) in %s()'' [str name])))"

definition numberp :: "('f, 're) qlib \<Rightarrow> (bytes \<Rightarrow> perr) \<Rightarrow> 'f parser" where
  "numberp L bad = thenp nextp (\<lambda>t. case ParseFloat (golib L) (val t) of None \<Rightarrow> (\<lambda>_. Err (bad (val t))) | Some f \<Rightarrow> returnp f)"

definition twoNumArgs :: "('f, 're) qlib \<Rightarrow> string \<Rightarrow> ('f \<times> 'f) parser" where
  "twoNumArgs L name = (let bad = (\<lambda>v. Errorf ''simdlogs: %s: want number, got %q'' [str name, v]) in
     thenp nextp (\<lambda>_. thenp nextp (\<lambda>_. thenp (numberp L bad) (\<lambda>lo. thenp (skip_kind tComma) (\<lambda>_. thenp (numberp L bad) (\<lambda>hi.
       thenp (expect tRParen ''simdlogs: expected ) in %s()'' [str name]) (\<lambda>_. returnp (lo, hi))))))))"

definition twoStrArgs :: "string \<Rightarrow> (bytes \<times> bytes) parser" where
  "twoStrArgs name = thenp nextp (\<lambda>_. thenp nextp (\<lambda>_. thenp valuep (\<lambda>lo. thenp (skip_kind tComma) (\<lambda>_. thenp valuep (\<lambda>hi.
     thenp (expect tRParen ''simdlogs: expected ) in %s()'' [str name]) (\<lambda>_. returnp (lo, hi)))))))"

definition oneStrArg :: "bytes \<Rightarrow> bytes parser" where
  "oneStrArg name = thenp nextp (\<lambda>_. thenp nextp (\<lambda>_. thenp valuep (\<lambda>v.
     thenp (expect tRParen ''simdlogs: expected ) in %s()'' [name]) (\<lambda>_. returnp v))))"

definition fieldCmpKind :: "bytes \<Rightarrow> PredKind option" where
  "fieldCmpKind name = (if lowerIs name ''eq_field'' then Some EqField else if lowerIs name ''ne_field'' then Some NeField
     else if lowerIs name ''lt_field'' then Some LtField else if lowerIs name ''le_field'' then Some LeField
     else if lowerIs name ''gt_field'' then Some GtField else if lowerIs name ''ge_field'' then Some GeField else None)"

section \<open>The boolean grammar\<close>

definition startsTerm :: "tkind \<Rightarrow> bool" where
  "startsTerm k \<longleftrightarrow> k = tIdent \<or> k = tString \<or> k = tNot \<or> k = tLParen"

definition node :: "(('f, 're) QExpr list \<Rightarrow> ('f, 're) QExpr) \<Rightarrow> ('f, 're) QExpr list \<Rightarrow> ('f, 're) QExpr" where
  "node op kids = (if length kids = 1 then kids ! 0 else op kids)"

definition parseAnd :: "('f, 're) QExpr parser \<Rightarrow> ('f, 're) QExpr parser" where
  "parseAnd u = thenp u (\<lambda>left. thenp (loopp (\<lambda>kids. thenp (skip_kind tAnd) (\<lambda>_. thenp peek (\<lambda>t.
       if \<not> startsTerm (kind t) then returnp (Inr kids) else thenp u (\<lambda>r. returnp (Inl (kids @ [r])))))) [left])
     (\<lambda>kids. returnp (node QAnd kids)))"

definition parseOr :: "('f, 're) QExpr parser \<Rightarrow> ('f, 're) QExpr parser" where
  "parseOr u = thenp (parseAnd u) (\<lambda>left. thenp (loopp (\<lambda>kids. thenp peek (\<lambda>t.
       if kind t \<noteq> tOr then returnp (Inr kids) else thenp nextp (\<lambda>_. thenp (parseAnd u) (\<lambda>r. returnp (Inl (kids @ [r])))))) [left])
     (\<lambda>kids. returnp (node QOr kids)))"

definition parseSubqueryParen :: "('f, 're) QExpr parser \<Rightarrow> ('f, 're) QPipe list parser \<Rightarrow> ('f, 're) QQuery parser" where
  "parseSubqueryParen u pp = thenp (expect tLParen ''simdlogs: expected ( for subquery'' []) (\<lambda>_. thenp (parseOr u) (\<lambda>e. thenp pp (\<lambda>pipes.
     thenp (expect tRParen ''simdlogs: expected ) closing subquery'' []) (\<lambda>_. returnp (QQuery [] (Some e) pipes)))))"

section \<open>Stream selectors\<close>

definition selector_leaf :: "('f, 're) qlib \<Rightarrow> bytes \<Rightarrow> bytes \<Rightarrow> bytes \<Rightarrow> ('f, 're) QExpr parser" where
  "selector_leaf L label op v = (let G = golib L in
     if (op = str ''=~'' \<or> op = str ''!~'') \<and> Compile G v = None then failp ''simdlogs: invalid regex %q: %w'' [v]
     else (let p = (pred_of L label Eq)\<lparr>Value := v, re := if op = str ''=~'' \<or> op = str ''!~'' then Compile G v else None\<rparr> in
       if op = str ''='' then returnp (leaf p)
       else if op = str ''=~'' then returnp (leaf (p\<lparr>Kind := Regexp\<rparr>))
       else if op = str ''!='' then returnp (QNot (leaf p))
       else if op = str ''!~'' then returnp (QNot (leaf (p\<lparr>Kind := Regexp\<rparr>)))
       else failp ''simdlogs: stream selector: bad operator %q (use = != =~ !~)'' [op]))"

definition parseStreamSelector :: "('f, 're) qlib \<Rightarrow> ('f, 're) QExpr parser" where
  "parseStreamSelector L = thenp nextp (\<lambda>_. thenp (loopp (\<lambda>kids. thenp peek (\<lambda>t.
       if kind t = tRBrace \<or> kind t = tEOF then returnp (Inr kids)
       else thenp nextp (\<lambda>label.
         if \<not> isWord label then failp ''simdlogs: stream selector: expected a label, got %q'' [val label]
         else thenp nextp (\<lambda>op.
           if kind op \<noteq> tOp then failp ''simdlogs: stream selector: expected an operator after %q, got %q'' [val label, val op]
           else thenp valuep (\<lambda>v. thenp (selector_leaf L (val label) (val op) v) (\<lambda>e.
             thenp (skip_kind tComma) (\<lambda>_. returnp (Inl (kids @ [e]))))))))) [])
     (\<lambda>kids. thenp (expect tRBrace ''simdlogs: stream selector: expected }'' []) (\<lambda>_. returnp (node QAnd kids))))"

section \<open>Matchers\<close>

definition match_stream_id :: "('f, 're) qlib \<Rightarrow> ('f, 're) QPred parser" where
  "match_stream_id L = thenp peek (\<lambda>t. thenp (if kind t = tOp \<and> val t = str ''='' then thenp nextp (\<lambda>_. returnp ()) else returnp ())
     (\<lambda>_. thenp valuep (\<lambda>v. returnp (QPred ((pred_of L (str ''_stream'') StreamIDEq)\<lparr>Value := v\<rparr>) None))))"

definition regex_meta :: bytes where
  "regex_meta = str ''.*+?()[]{}|^$'' @ [92]"

definition match_regexp :: "('f, 're) qlib \<Rightarrow> bytes \<Rightarrow> ('f, 're) QPred parser" where
  "match_regexp L field = thenp nextp (\<lambda>_. thenp valuep (\<lambda>v.
     if ContainsAny v regex_meta then (case Compile (golib L) v of
         None \<Rightarrow> failp ''simdlogs: invalid regex %q: %w'' [v]
       | Some x \<Rightarrow> returnp (QPred ((pred_of L field Regexp)\<lparr>Value := v, re := Some x\<rparr>) None))
     else returnp (QPred ((pred_of L field Contains)\<lparr>Value := v\<rparr>) None)))"

text \<open>The kind of a comparison; \<^verbatim>\<open>var k PredKind\<close> is \<open>Eq\<close> for any other operator.\<close>

definition op_kind :: "bytes \<Rightarrow> PredKind" where
  "op_kind op = (if op = str ''>'' then Gt else if op = str ''>='' then Ge else if op = str ''<'' then Lt
     else if op = str ''<='' then Le else Eq)"

definition match_number :: "('f, 're) qlib \<Rightarrow> bytes \<Rightarrow> bytes \<Rightarrow> ('f, 're) QPred parser" where
  "match_number L field op = thenp nextp (\<lambda>_.
     thenp (numberp L (\<lambda>v. Errorf ''simdlogs: %s%s: want number, got %q'' [field, op, v])) (\<lambda>f.
       returnp (QPred ((pred_of L field (op_kind op))\<lparr>Num := f\<rparr>) None)))"

text \<open>The look-ahead of \<^verbatim>\<open>in(\<close>: a colon or a pipe before the first closing parenthesis.\<close>

fun subquery_ahead :: "token list \<Rightarrow> bool" where
  "subquery_ahead [] = False"
| "subquery_ahead (t # ts) = (if kind t = tRParen \<or> kind t = tEOF then False
     else if kind t = tColon \<or> kind t = tPipe then True else subquery_ahead ts)"

definition match_in :: "('f, 're) qlib \<Rightarrow> ('f, 're) QExpr parser \<Rightarrow> ('f, 're) QPipe list parser \<Rightarrow> bytes \<Rightarrow> ('f, 're) QPred parser" where
  "match_in L u pp field ts = (if subquery_ahead (drop 2 ts)
     then thenp nextp (\<lambda>_. thenp (parseSubqueryParen u pp) (\<lambda>sub. returnp (QPred (pred_of L field In) (Some sub)))) ts
     else thenp nextp (\<lambda>_. thenp nextp (\<lambda>_.
       thenp (words_to_paren (\<lambda>v. Errorf ''simdlogs: bad in() value %q'' [v]) (Errorf ''simdlogs: expected ) in in()'' [])) (\<lambda>vals.
         returnp (QPred ((pred_of L field In)\<lparr>Values := vals\<rparr>) None)))) ts)"

definition match_ipv4 :: "('f, 're) qlib \<Rightarrow> bytes \<Rightarrow> ('f, 're) QPred parser" where
  "match_ipv4 L field = thenp (twoStrArgs ''ipv4_range'') (\<lambda>(lo, hi). case (ipToU32 lo, ipToU32 hi) of
     (Some l, Some h) \<Rightarrow> returnp (QPred ((pred_of L field IPv4Range)\<lparr>Num := f_of_int (golib L) (unat l), Num2 := f_of_int (golib L) (unat h)\<rparr>) None)
   | _ \<Rightarrow> failp ''simdlogs: ipv4_range: bad IPv4 %q or %q'' [lo, hi])"

definition match_value :: "('f, 're) qlib \<Rightarrow> bytes \<Rightarrow> ('f, 're) QPred parser" where
  "match_value L field = thenp valuep (\<lambda>v. returnp (QPred (
     if HasPrefix v [42] then (pred_of L field Contains)\<lparr>Value := TrimByte v 42\<rparr>
     else if HasSuffix v [42] then (pred_of L field Prefix)\<lparr>Value := TrimSuffix v [42]\<rparr>
     else (pred_of L field Eq)\<lparr>Value := v\<rparr>) None))"

definition parseMatcher :: "('f, 're) qlib \<Rightarrow> ('f, 're) QExpr parser \<Rightarrow> ('f, 're) QPipe list parser \<Rightarrow> bytes \<Rightarrow> ('f, 're) QPred parser" where
  "parseMatcher L u pp field = thenp peek (\<lambda>t. thenp (peekAt 1) (\<lambda>t1.
     if kind t = tTimeVal then thenp nextp (\<lambda>_. case parseTimeExpr (golib L) (timelib L) (val t) of
         None \<Rightarrow> failp ''simdlogs: bad _time filter'' [val t] | Some p \<Rightarrow> returnp (QPred p None))
     else if field = str ''_stream_id'' then match_stream_id L
     else if kind t = tOp \<and> val t = str ''='' then
       thenp nextp (\<lambda>_. thenp valuep (\<lambda>v. returnp (QPred ((pred_of L field Eq)\<lparr>Value := v\<rparr>) None)))
     else if kind t = tOp \<and> val t = str ''~'' then match_regexp L field
     else if kind t = tOp then match_number L field (val t)
     else if kw t ''in'' \<and> kind t1 = tLParen then match_in L u pp field
     else if kw t ''range'' \<and> kind t1 = tLParen then
       thenp (twoNumArgs L ''range'') (\<lambda>(lo, hi). returnp (QPred ((pred_of L field RangeNum)\<lparr>Num := lo, Num2 := hi, ExLo := True, ExHi := True\<rparr>) None))
     else if kw t ''len_range'' \<and> kind t1 = tLParen then
       thenp (twoNumArgs L ''len_range'') (\<lambda>(lo, hi). returnp (QPred ((pred_of L field LenRange)\<lparr>Num := lo, Num2 := hi\<rparr>) None))
     else if kw t ''string_range'' \<and> kind t1 = tLParen then
       thenp (twoStrArgs ''string_range'') (\<lambda>(lo, hi). returnp (QPred ((pred_of L field StringRange)\<lparr>Value := lo, Value2 := hi\<rparr>) None))
     else if kw t ''i'' \<and> kind t1 = tLParen then
       thenp (oneStrArg (str ''i'')) (\<lambda>v. returnp (QPred ((pred_of L field IContains)\<lparr>Value := v\<rparr>) None))
     else if kw t ''seq'' \<and> kind t1 = tLParen then
       thenp (parenValueList ''seq'') (\<lambda>vals. returnp (QPred ((pred_of L field Seq)\<lparr>Values := vals\<rparr>) None))
     else if kw t ''ipv4_range'' \<and> kind t1 = tLParen then match_ipv4 L field
     else if kind t = tIdent \<and> fieldCmpKind (val t) \<noteq> None \<and> kind t1 = tLParen then
       thenp (oneStrArg (val t)) (\<lambda>f2. returnp (QPred ((pred_of L field (the (fieldCmpKind (val t))))\<lparr>Field2 := f2\<rparr>) None))
     else match_value L field))"

section \<open>Terms\<close>

definition parseTerm :: "('f, 're) qlib \<Rightarrow> ('f, 're) QExpr parser \<Rightarrow> ('f, 're) QPipe list parser \<Rightarrow> ('f, 're) QExpr parser" where
  "parseTerm L u pp = thenp nextp (\<lambda>t.
     if \<not> isWord t then failp ''simdlogs: unexpected %q'' [val t]
     else thenp peek (\<lambda>c.
       if kind c \<noteq> tColon then (if val t = str ''*'' then returnp (QAnd [])
         else returnp (leaf ((pred_of L (str ''_msg'') Contains)\<lparr>Value := val t\<rparr>)))
       else thenp nextp (\<lambda>_. thenp peek (\<lambda>b.
         if EqualFold (val t) ''_stream'' \<and> kind b = tLBrace then parseStreamSelector L
         else thenp (parseMatcher L u pp (val t)) (\<lambda>p. returnp (QLeaf p))))))"

definition unary_body :: "('f, 're) qlib \<Rightarrow> ('f, 're) QExpr parser \<Rightarrow> ('f, 're) QPipe list parser \<Rightarrow> ('f, 're) QExpr parser" where
  "unary_body L u pp = thenp peek (\<lambda>t.
     if kind t = tNot then thenp nextp (\<lambda>_. thenp u (\<lambda>c. returnp (QNot c)))
     else if kind t = tLParen then thenp nextp (\<lambda>_. thenp (parseOr u) (\<lambda>e.
       thenp (expect tRParen ''simdlogs: expected )'' []) (\<lambda>_. returnp e)))
     else parseTerm L u pp)"

section \<open>Every method ends\<close>

lemmas eats_steps = eats_peek eats_peekAt eats_next eats_if eats_option eats_prod eats_return eats_fail

lemma eats_error: "eats n K H (\<lambda>_. Err e)"
  by (simp add: eats_def)

lemma eats_sub:
  assumes "eats N (\<lambda>_. i) anyt p" "n \<le> N" "\<And>x. eats (n - i) (\<lambda>y. K y - i) anyt (f x)"
  shows "eats n K H (thenp p f)"
  by (rule eats_then [OF eats_mono [OF assms(1,2)] assms(3)]) auto

lemma eats_skip: "eats n (\<lambda>_. 0) H (skip_kind k)" "eats n (\<lambda>_. 0) H (skip_kw w)"
  by (auto simp: skip_kind_def skip_kw_def intro!: eats_steps)

lemma eats_value: "eats n (\<lambda>_. 1) H valuep"
  by (auto simp: valuep_def isWord_def intro!: eats_steps)

lemma eats_expect: "k \<noteq> tEOF \<Longrightarrow> eats n (\<lambda>_. 1) H (expect k f args)"
  by (auto simp: expect_def intro!: eats_steps)

lemma eats_number: "eats n (\<lambda>_. 0) H (numberp L bad)"
  by (auto simp: numberp_def intro!: eats_steps eats_error)

lemmas eats_calls = eats_then [OF eats_skip(1)] eats_then [OF eats_skip(2)] eats_then [OF eats_value] eats_then [OF eats_expect]
  eats_then [OF eats_number]

lemma eats_words: "eats n (\<lambda>_. 0) H (words_to_paren bad unclosed)"
  unfolding words_to_paren_def
  by (rule eats_then [OF eats_loop]) (auto simp: isWord_def intro!: eats_steps eats_calls eats_error)

lemma eats_lists: "eats n (\<lambda>_. 0) H (parenValueList name)"
  by (auto simp: parenValueList_def intro!: eats_steps eats_words)

lemma eats_args: "eats n (\<lambda>_. 0) H (twoNumArgs L name)" "eats n (\<lambda>_. 0) H (twoStrArgs name)" "eats n (\<lambda>_. 0) H (oneStrArg nm)"
  by (auto simp: twoNumArgs_def twoStrArgs_def oneStrArg_def Let_def intro!: eats_steps eats_calls)

lemma eats_parseAnd:
  assumes "eats n (\<lambda>_. 1) anyt u"
  shows "eats n (\<lambda>_. 1) anyt (parseAnd u)"
  unfolding parseAnd_def
  by (rule eats_then [OF assms], rule eats_then [OF eats_loop])
     (auto intro!: eats_steps eats_calls eats_sub [OF assms])

lemma eats_parseOr:
  assumes "eats n (\<lambda>_. 1) anyt u"
  shows "eats n (\<lambda>_. 1) anyt (parseOr u)"
  unfolding parseOr_def
  by (rule eats_then [OF eats_parseAnd [OF assms]], rule eats_then [OF eats_loop])
     (auto intro!: eats_steps eats_sub [OF eats_parseAnd [OF assms]])

lemma eats_subquery:
  assumes "eats n (\<lambda>_. 1) anyt u" "eats n (\<lambda>_. 0) anyt pp"
  shows "eats (Suc n) (\<lambda>_. 0) H (parseSubqueryParen u pp)"
  by (auto simp: parseSubqueryParen_def intro!: eats_steps eats_calls eats_sub [OF eats_parseOr [OF assms(1)]] eats_sub [OF assms(2)])

lemma eats_choice: "eats n K H p \<Longrightarrow> eats n K H q \<Longrightarrow> eats n K H (\<lambda>ts. if c ts then p ts else q ts)"
  by (auto simp: eats_def)

lemma eats_match_in:
  assumes "eats n (\<lambda>_. 1) anyt u" "eats n (\<lambda>_. 0) anyt pp"
  shows "eats (Suc n) (\<lambda>_. 0) H (match_in L u pp field)"
  unfolding match_in_def [abs_def]
  by (rule eats_choice) (auto intro!: eats_steps eats_sub [OF eats_subquery [OF assms]] eats_then [OF eats_words])

lemma eats_match:
  "eats n (\<lambda>_. 0) H (match_stream_id L)" "eats n (\<lambda>_. 0) H (match_regexp L f)" "eats n (\<lambda>_. 0) H (match_number L f op)"
  "eats n (\<lambda>_. 0) H (match_ipv4 L f)" "eats n (\<lambda>_. 0) H (match_value L f)"
  by (auto simp: match_stream_id_def match_regexp_def match_number_def match_ipv4_def match_value_def
      intro!: eats_steps eats_calls eats_then [OF eats_args(2)] split: option.split)
     (auto intro!: eats_then [where i = 0] eats_steps eats_calls)

lemma eats_matcher:
  assumes "eats n (\<lambda>_. 1) anyt u" "eats n (\<lambda>_. 0) anyt pp"
  shows "eats (Suc n) (\<lambda>_. 0) H (parseMatcher L u pp field)"
  unfolding parseMatcher_def
  by (intro eats_peek eats_peekAt eats_if eats_match eats_match_in [OF assms])
     (auto intro!: eats_steps eats_calls eats_then [OF eats_args(1)] eats_then [OF eats_args(2)] eats_then [OF eats_args(3)] eats_then [OF eats_lists])

lemma eats_selector: "eats n (\<lambda>_. 0) H (parseStreamSelector L)"
proof -
  have "eats n (\<lambda>_. 0) H (selector_leaf L l op v)" for n H l op v
    by (auto simp: selector_leaf_def Let_def intro!: eats_steps)
  then show ?thesis unfolding parseStreamSelector_def
    by (auto simp: isWord_def intro!: eats_then [OF eats_loop] eats_steps eats_calls eats_then [where p = "selector_leaf _ _ _ _"])
qed

lemma eats_term:
  assumes "eats n (\<lambda>_. 1) anyt u" "eats n (\<lambda>_. 0) anyt pp"
  shows "eats (Suc n) (\<lambda>_. 1) H (parseTerm L u pp)"
  unfolding parseTerm_def
  by (auto simp: isWord_def intro!: eats_steps eats_selector eats_sub [OF eats_matcher [OF assms]])

lemma eats_unary:
  assumes "eats n (\<lambda>_. 1) anyt u" "eats n (\<lambda>_. 0) anyt pp"
  shows "eats (Suc n) (\<lambda>_. 1) H (unary_body L u pp)"
  unfolding unary_body_def
  by (auto intro!: eats_steps eats_calls eats_term [OF assms, unfolded One_nat_def] eats_sub [OF assms(1)] eats_sub [OF eats_parseOr [OF assms(1)]])

end
