(* ===== verification/PipeSyntax.thy ===== *)
theory PipeSyntax
  imports FilterSyntax
begin

text \<open>
  The pipe grammar of \<^verbatim>\<open>internal/query/logsql.go\<close>: the arms of the \<^verbatim>\<open>switch\<close> of \<^verbatim>\<open>parsePipes\<close> and the methods they
  call.  As in \<open>FilterSyntax\<close>, \<open>u\<close> is \<^verbatim>\<open>parseUnary\<close> and \<open>pp\<close> is \<^verbatim>\<open>parsePipes\<close>.
\<close>

section \<open>Arguments\<close>

definition intArg :: "int parser" where
  "intArg = thenp nextp (\<lambda>t. case Atoi (val t) of None \<Rightarrow> failp ''simdlogs: expected a number, got %q'' [val t] | Some n \<Rightarrow> returnp n)"

text \<open>An optional keyword with a value after it: the value, or \<open>d\<close> when the keyword is absent.\<close>

definition opt_with :: "'a parser \<Rightarrow> string list \<Rightarrow> 'a \<Rightarrow> 'a parser" where
  "opt_with p ws d = thenp peek (\<lambda>t. if list_ex (kw t) ws then thenp nextp (\<lambda>_. p) else returnp d)"

abbreviation opt_value :: "string list \<Rightarrow> bytes \<Rightarrow> bytes parser" where
  "opt_value \<equiv> opt_with valuep"

abbreviation opt_int :: "string list \<Rightarrow> int \<Rightarrow> int parser" where
  "opt_int \<equiv> opt_with intArg"

definition parseFieldGroup :: "bytes list parser" where
  "parseFieldGroup = thenp peek (\<lambda>t.
     if kind t \<noteq> tLParen then (if isWord t then thenp nextp (\<lambda>f. returnp [val f]) else failp ''simdlogs: expected ( or a field'' [])
     else thenp nextp (\<lambda>_. words_to_paren (\<lambda>v. Errorf ''simdlogs: bad field %q'' [v]) (Errorf ''simdlogs: expected )'' [])))"

definition parseBareFieldList :: "bytes list parser" where
  "parseBareFieldList = loopp (\<lambda>fs. thenp nextp (\<lambda>f.
     if \<not> isWord f then failp ''simdlogs: bad field %q'' [val f]
     else thenp peek (\<lambda>t. if kind t = tComma then thenp nextp (\<lambda>_. returnp (Inl (fs @ [val f]))) else returnp (Inr (fs @ [val f]))))) []"

definition parseRename :: "(bytes list \<times> bytes list) parser" where
  "parseRename = loopp (\<lambda>(From, To). thenp nextp (\<lambda>src.
     if \<not> isWord src then failp ''simdlogs: rename: expected a field, got %q'' [val src]
     else thenp nextp (\<lambda>as.
       if \<not> EqualFold (val as) ''as'' then failp ''simdlogs: rename: expected 'as', got %q'' [val as]
       else thenp nextp (\<lambda>dst.
         if \<not> isWord dst then failp ''simdlogs: rename: expected a name, got %q'' [val dst]
         else thenp peek (\<lambda>t. if kind t = tComma
           then thenp nextp (\<lambda>_. returnp (Inl (From @ [val src], To @ [val dst])))
           else returnp (Inr (From @ [val src], To @ [val dst]))))))) ([], [])"

section \<open>Aggregations\<close>

definition agg_names :: "(string \<times> AggKind) list" where
  "agg_names = [(''count'', AggCount), (''sum'', AggSum), (''avg'', AggAvg), (''min'', AggMin), (''max'', AggMax), (''uniq'', AggUniq),
     (''count_uniq'', AggCountUniq), (''quantile'', AggQuantile), (''median'', AggQuantile), (''values'', AggValues),
     (''uniq_values'', AggUniqValues), (''sum_len'', AggSumLen), (''count_empty'', AggCountEmpty), (''row_any'', AggRowAny),
     (''count_uniq_hash'', AggCountUniq), (''histogram'', AggHistogram), (''row_min'', AggRowMin), (''row_max'', AggRowMax),
     (''rate'', AggRate), (''rate_sum'', AggRateSum)]"

definition aggKind :: "bytes \<Rightarrow> AggKind option" where
  "aggKind name = map_option snd (find (\<lambda>p. lowerIs name (fst p)) agg_names)"

definition agg_percentile :: "('f, 're) qlib \<Rightarrow> AggKind \<Rightarrow> bytes \<Rightarrow> 'f parser" where
  "agg_percentile L k fn = (if k = AggQuantile \<and> \<not> EqualFold fn ''median''
     then thenp (numberp L (\<lambda>v. Errorf ''simdlogs: quantile expects a percentile 0..1, got %q'' [v])) (\<lambda>v.
       thenp (skip_kind tComma) (\<lambda>_. returnp v))
     else returnp (f_half L))"

definition agg_field :: "bytes parser" where
  "agg_field = thenp peek (\<lambda>t. if isWord t then thenp nextp (\<lambda>f. returnp (val f)) else returnp [])"

definition agg_field2 :: "AggKind \<Rightarrow> bytes \<Rightarrow> bytes parser" where
  "agg_field2 k fn = (if k = AggRowMin \<or> k = AggRowMax then thenp peek (\<lambda>t. if kind t = tComma
       then thenp nextp (\<lambda>_. thenp nextp (\<lambda>f2. if \<not> isWord f2 then failp ''simdlogs: %s expects (sort, out) fields'' [fn] else returnp (val f2)))
       else returnp [])
     else returnp [])"

definition agg_if :: "('f, 're) QExpr parser \<Rightarrow> ('f, 're) QExpr option parser" where
  "agg_if u = thenp peek (\<lambda>t. if kw t ''if''
     then thenp nextp (\<lambda>_. thenp (expect tLParen ''simdlogs: if expects (<filter>)'' []) (\<lambda>_. thenp (parseOr u) (\<lambda>e.
       thenp (expect tRParen ''simdlogs: if: expected )'' []) (\<lambda>_. returnp (Some e)))))
     else returnp None)"

definition agg_alias :: "bytes parser" where
  "agg_alias = thenp peek (\<lambda>t. if kw t ''as''
     then thenp nextp (\<lambda>_. thenp nextp (\<lambda>al. if \<not> isWord al then failp (''simdlogs: expected an alias after 'as'' @ [CHR 0x27]) [] else returnp (val al)))
     else if kind t = tIdent then thenp nextp (\<lambda>al. returnp (val al))
     else returnp [])"

definition default_alias :: "('f, 're) qlib \<Rightarrow> bytes \<Rightarrow> bytes \<Rightarrow> bytes" where
  "default_alias L fn field = (if field = [] then ToLower (golib L) fn else ToLower (golib L) fn @ str ''('' @ field @ str '')'')"

definition parseAgg :: "('f, 're) qlib \<Rightarrow> ('f, 're) QExpr parser \<Rightarrow> ('f, 're) QAgg parser" where
  "parseAgg L u = thenp nextp (\<lambda>fn.
     if kind fn \<noteq> tIdent then failp ''simdlogs: expected an aggregation, got %q'' [val fn]
     else thenp (expect tLParen ''simdlogs: expected ( after %s'' [val fn]) (\<lambda>_. case aggKind (val fn) of
       None \<Rightarrow> failp ''simdlogs: unknown aggregation %q'' [val fn]
     | Some k \<Rightarrow> thenp (agg_percentile L k (val fn)) (\<lambda>pct. thenp agg_field (\<lambda>field. thenp (agg_field2 k (val fn)) (\<lambda>field2.
         thenp (expect tRParen ''simdlogs: expected ) in %s()'' [val fn]) (\<lambda>_. thenp (agg_if u) (\<lambda>ife. thenp agg_alias (\<lambda>al.
           returnp (QAgg k field field2 (if al = [] then default_alias L (val fn) field else al) pct ife)))))))))"

definition parseStats :: "('f, 're) qlib \<Rightarrow> ('f, 're) QExpr parser \<Rightarrow> ('f, 're) QPipe parser" where
  "parseStats L u = thenp (opt_with parseFieldGroup [''by''] []) (\<lambda>by.
     thenp (loopp (\<lambda>aggs. thenp (parseAgg L u) (\<lambda>a. thenp peek (\<lambda>t.
       if kind t = tComma then thenp nextp (\<lambda>_. returnp (Inl (aggs @ [a]))) else returnp (Inr (aggs @ [a]))))) [])
     (\<lambda>aggs. if aggs = [] then failp ''simdlogs: stats needs at least one aggregation'' [] else returnp (StatsPipe by aggs)))"

definition parseSort :: "('f, 're) QPipe parser" where
  "parseSort = thenp (opt_with parseFieldGroup [''by''] []) (\<lambda>by. loopp (\<lambda>(desc, limit). thenp peek (\<lambda>t.
     if kind t \<noteq> tIdent then returnp (Inr (RowPipe (SortPipe by limit desc)))
     else if lowerIs (val t) ''desc'' then thenp nextp (\<lambda>_. returnp (Inl (True, limit)))
     else if lowerIs (val t) ''asc'' then thenp nextp (\<lambda>_. returnp (Inl (desc, limit)))
     else if lowerIs (val t) ''limit'' then thenp nextp (\<lambda>_. thenp intArg (\<lambda>n. returnp (Inl (desc, n))))
     else returnp (Inr (RowPipe (SortPipe by limit desc))))) (False, 0))"

section \<open>The arms\<close>

abbreviation rowp :: "('f, 're) RowPipe \<Rightarrow> ('f, 're) QPipe parser" where
  "rowp p \<equiv> returnp (RowPipe p)"

definition pipe_uniq :: "('f, 're) QPipe parser" where
  "pipe_uniq = thenp (skip_kw ''by'') (\<lambda>_. thenp parseFieldGroup (\<lambda>fs. thenp (opt_int [''limit''] 0) (\<lambda>n. rowp (UniqPipe fs n))))"

definition pipe_top :: "('f, 're) QPipe parser" where
  "pipe_top = thenp intArg (\<lambda>n. thenp (skip_kw ''by'') (\<lambda>_. thenp parseFieldGroup (\<lambda>fs. rowp (TopPipe fs n))))"

definition pipe_unpack :: "(bytes \<Rightarrow> bytes \<Rightarrow> ('f, 're) RowPipe) \<Rightarrow> ('f, 're) QPipe parser" where
  "pipe_unpack mk = thenp (opt_value [''from''] []) (\<lambda>src. thenp (opt_value [''prefix'', ''result_prefix''] []) (\<lambda>pf. rowp (mk src pf)))"

definition wordp :: "string \<Rightarrow> bytes parser" where
  "wordp f = thenp nextp (\<lambda>t. if \<not> isWord t then failp f [val t] else returnp (val t))"

definition pipe_extract :: "('f, 're) QPipe parser" where
  "pipe_extract = thenp (opt_value [''from''] []) (\<lambda>src. thenp (wordp ''simdlogs: extract expects a pattern string, got %q'') (\<lambda>pat.
     thenp (opt_value [''from''] src) (\<lambda>src'. rowp (ExtractPipe src' pat))))"

definition pipe_format :: "('f, 're) QPipe parser" where
  "pipe_format = thenp (wordp ''simdlogs: format expects a template string, got %q'') (\<lambda>tpl. thenp (opt_value [''as''] []) (\<lambda>a.
     rowp (FormatPipe tpl a)))"

definition pipe_rank :: "('f, 're) QPipe parser" where
  "pipe_rank = thenp (wordp ''simdlogs: rank expects quoted terms, got %q'') (\<lambda>terms. thenp (opt_value [''at''] []) (\<lambda>f.
     rowp (RankPipe (Lexer.Fields terms) f)))"

definition pipe_replace :: "bytes \<Rightarrow> ('f, 're) QPipe parser" where
  "pipe_replace name = thenp (expect tLParen ''simdlogs: %s expects (\"old\", \"new\")'' [name]) (\<lambda>_. thenp valuep (\<lambda>oldv.
     thenp (skip_kind tComma) (\<lambda>_. thenp valuep (\<lambda>newv. thenp (expect tRParen ''simdlogs: %s: expected )'' [name]) (\<lambda>_.
       thenp (opt_value [''at''] []) (\<lambda>f. rowp (ReplacePipe f oldv newv (EqualFold name ''replace_regexp''))))))))"

definition field_in_parens :: "bytes \<Rightarrow> bytes parser" where
  "field_in_parens name = thenp (expect tLParen ''simdlogs: %s expects (field)'' [name]) (\<lambda>_. thenp valuep (\<lambda>fld.
     thenp (expect tRParen ''simdlogs: %s: expected )'' [name]) (\<lambda>_. returnp fld)))"

definition pipe_len_hash :: "bytes \<Rightarrow> ('f, 're) QPipe parser" where
  "pipe_len_hash name = thenp (field_in_parens name) (\<lambda>fld. (let isHash = EqualFold name ''hash'' in
     thenp (opt_value [''as''] (if isHash then str ''hash'' else str ''len'')) (\<lambda>a.
       if isHash then rowp (HashPipe fld a) else rowp (LenPipe fld a))))"

definition pipe_collapse :: "bytes \<Rightarrow> ('f, 're) QPipe parser" where
  "pipe_collapse name = thenp (opt_value [''at''] []) (\<lambda>f. rowp (CollapseNumsPipe f (EqualFold name ''pattern'')))"

text \<open>The unquoted expression of the math pipe: the tokens up to \<^verbatim>\<open>as\<close>, a pipe or the end, joined by spaces.\<close>

definition math_text :: "bytes parser" where
  "math_text = thenp peek (\<lambda>t0. if kind t0 = tString then thenp nextp (\<lambda>t. returnp (val t))
     else loopp (\<lambda>sb. thenp peek (\<lambda>t.
       if kind t = tEOF \<or> kind t = tPipe \<or> kw t ''as'' then returnp (Inr sb)
       else thenp nextp (\<lambda>t'. returnp (Inl (sb @ (if sb \<noteq> [] then [32] else []) @ val t'))))) [])"

definition pipe_math :: "('f, 're) qlib \<Rightarrow> ('f, 're) QPipe parser" where
  "pipe_math L = thenp math_text (\<lambda>expr. if expr = [] then failp ''simdlogs: math expects an expression'' []
     else (case parseMath (golib L) expr of
         None \<Rightarrow> (\<lambda>_. OutOfFuel)
       | Some r \<Rightarrow> (case r of
           Inl e \<Rightarrow> (\<lambda>_. Err e)
         | Inr (nd, flds) \<Rightarrow> thenp (opt_value [''as''] (str ''math'')) (\<lambda>a. rowp (MathPipe a nd flds)))))"

definition pipe_extract_regexp :: "('f, 're) qlib \<Rightarrow> ('f, 're) QPipe parser" where
  "pipe_extract_regexp L = thenp (opt_value [''from''] []) (\<lambda>src.
     thenp (wordp ''simdlogs: extract_regexp expects a pattern string, got %q'') (\<lambda>pat. thenp (opt_value [''from''] src) (\<lambda>src'.
       case Compile (golib L) pat of None \<Rightarrow> failp ''simdlogs: extract_regexp: %w'' [pat]
       | Some x \<Rightarrow> rowp (ExtractRegexpPipe src' x))))"

definition pipe_decolorize :: "('f, 're) QPipe parser" where
  "pipe_decolorize = thenp (skip_kw ''at'') (\<lambda>_. thenp agg_field (\<lambda>f. rowp (DecolorizePipe f)))"

definition pipe_pack :: "bytes \<Rightarrow> ('f, 're) QPipe parser" where
  "pipe_pack name = thenp (opt_with parseFieldGroup [''fields''] []) (\<lambda>fs. thenp (opt_value [''as''] []) (\<lambda>a.
     rowp (PackPipe fs a (EqualFold name ''pack_logfmt''))))"

definition pipe_first_last :: "bytes \<Rightarrow> ('f, 're) QPipe parser" where
  "pipe_first_last name = thenp intArg (\<lambda>n. thenp (skip_kw ''by'') (\<lambda>_. thenp parseFieldGroup (\<lambda>fs.
     rowp (SortPipe fs n (EqualFold name ''last'')))))"

definition pipe_unroll :: "('f, 're) QPipe parser" where
  "pipe_unroll = thenp (skip_kw ''by'') (\<lambda>_. thenp parseFieldGroup (\<lambda>fs.
     case fs of [] \<Rightarrow> failp ''simdlogs: unroll expects a field'' [] | f # _ \<Rightarrow> rowp (UnrollPipe f)))"

definition pipe_join :: "('f, 're) QExpr parser \<Rightarrow> ('f, 're) QPipe list parser \<Rightarrow> ('f, 're) QPipe parser" where
  "pipe_join u pp = thenp (skip_kw ''by'') (\<lambda>_. thenp parseFieldGroup (\<lambda>fs. thenp (parseSubqueryParen u pp) (\<lambda>sub.
     thenp (opt_value [''prefix''] []) (\<lambda>pf. returnp (JoinPipe fs pf sub)))))"

definition pipe_stream_context :: "('f, 're) QPipe parser" where
  "pipe_stream_context = loopp (\<lambda>(before, after). thenp peek (\<lambda>t.
     if kw t ''before'' \<or> kw t ''after''
     then thenp nextp (\<lambda>which. thenp intArg (\<lambda>n. returnp (Inl (if EqualFold (val which) ''before'' then (n, after) else (before, n)))))
     else returnp (Inr (RowPipe (StreamContextPipe before after))))) (0, 0)"

definition pipe_field_values :: "('f, 're) QPipe parser" where
  "pipe_field_values = thenp valuep (\<lambda>fld. thenp (opt_int [''limit''] 0) (\<lambda>n. rowp (FieldValuesPipe fld n)))"

definition isNumber :: "bytes \<Rightarrow> bool" where
  "isNumber s \<longleftrightarrow> s \<noteq> [] \<and> list_all (\<lambda>c. \<not> (c < 48 \<or> c > 57)) s"

definition pipe_facets :: "('f, 're) QPipe parser" where
  "pipe_facets = thenp peek (\<lambda>t. if kind t = tIdent \<and> isNumber (val t) then thenp intArg (\<lambda>n. rowp (FacetsPipe n)) else rowp (FacetsPipe 0))"

definition pipe_json_array_len :: "('f, 're) QPipe parser" where
  "pipe_json_array_len = thenp (field_in_parens (str ''json_array_len'')) (\<lambda>fld. thenp (opt_value [''as''] (str ''json_array_len'')) (\<lambda>a.
     rowp (JSONArrayLenPipe fld a)))"

definition pipe_unpack_words :: "('f, 're) QPipe parser" where
  "pipe_unpack_words = thenp (opt_value [''from''] []) (\<lambda>src. thenp (opt_value [''as''] []) (\<lambda>a. rowp (UnpackWordsPipe src a)))"

definition named :: "bytes \<Rightarrow> string list \<Rightarrow> bool" where
  "named name ws = list_ex (lowerIs name) ws"

text \<open>The \<^verbatim>\<open>switch\<close>, in three parts.\<close>

definition pipe_arm3 :: "('f, 're) qlib \<Rightarrow> ('f, 're) QExpr parser \<Rightarrow> ('f, 're) QPipe list parser \<Rightarrow> bytes \<Rightarrow> ('f, 're) QPipe parser" where
  "pipe_arm3 L u pp nm =
    (if named nm [''first'', ''last''] then pipe_first_last nm
     else if named nm [''unroll''] then pipe_unroll
     else if named nm [''join''] then pipe_join u pp
     else if named nm [''union''] then thenp (parseSubqueryParen u pp) (\<lambda>sub. returnp (UnionPipe sub))
     else if named nm [''stream_context''] then pipe_stream_context
     else if named nm [''blocks_count''] then rowp BlocksCountPipe
     else if named nm [''block_stats''] then rowp BlockStatsPipe
     else if named nm [''field_names''] then rowp FieldNamesPipe
     else if named nm [''field_values''] then pipe_field_values
     else if named nm [''facets''] then pipe_facets
     else if named nm [''unpack_syslog''] then thenp (opt_value [''from''] []) (\<lambda>src. rowp (UnpackSyslogPipe src))
     else if named nm [''json_array_len''] then pipe_json_array_len
     else if named nm [''unpack_words''] then pipe_unpack_words
     else failp ''simdlogs: unknown pipe %q'' [nm])"

definition pipe_arm2 :: "('f, 're) qlib \<Rightarrow> ('f, 're) QExpr parser \<Rightarrow> ('f, 're) QPipe list parser \<Rightarrow> bytes \<Rightarrow> ('f, 're) QPipe parser" where
  "pipe_arm2 L u pp nm =
    (if named nm [''format''] then pipe_format
     else if named nm [''rank''] then pipe_rank
     else if named nm [''unpack_logfmt''] then pipe_unpack UnpackLogfmtPipe
     else if named nm [''replace'', ''replace_regexp''] then pipe_replace nm
     else if named nm [''copy'', ''cp''] then thenp parseRename (\<lambda>(a, b). rowp (CopyPipe a b))
     else if named nm [''len'', ''hash''] then pipe_len_hash nm
     else if named nm [''drop_empty_fields''] then rowp DropEmptyPipe
     else if named nm [''collapse_nums'', ''pattern''] then pipe_collapse nm
     else if named nm [''math'', ''eval''] then pipe_math L
     else if named nm [''extract_regexp''] then pipe_extract_regexp L
     else if named nm [''decolorize''] then pipe_decolorize
     else if named nm [''pack_json'', ''pack_logfmt''] then pipe_pack nm
     else if named nm [''sample''] then thenp intArg (\<lambda>n. rowp (SamplePipe n))
     else pipe_arm3 L u pp nm)"

definition pipe_arm :: "('f, 're) qlib \<Rightarrow> ('f, 're) QExpr parser \<Rightarrow> ('f, 're) QPipe list parser \<Rightarrow> bytes \<Rightarrow> ('f, 're) QPipe parser" where
  "pipe_arm L u pp nm =
    (if named nm [''stats''] then parseStats L u
     else if named nm [''sort'', ''order''] then parseSort
     else if named nm [''limit'', ''head''] then thenp intArg (\<lambda>n. rowp (LimitPipe n))
     else if named nm [''fields'', ''keep''] then thenp parseBareFieldList (\<lambda>fs. rowp (FieldsPipe fs))
     else if named nm [''uniq''] then pipe_uniq
     else if named nm [''top''] then pipe_top
     else if named nm [''tail''] then thenp intArg (\<lambda>n. rowp (TailPipe n))
     else if named nm [''offset'', ''skip''] then thenp intArg (\<lambda>n. rowp (OffsetPipe n))
     else if named nm [''rename'', ''mv''] then thenp parseRename (\<lambda>(a, b). rowp (RenamePipe a b))
     else if named nm [''delete'', ''drop'', ''del'', ''rm''] then thenp parseBareFieldList (\<lambda>fs. rowp (DeletePipe fs))
     else if named nm [''filter'', ''where''] then thenp (parseOr u) (\<lambda>e. returnp (FilterPipe e))
     else if named nm [''unpack_json''] then pipe_unpack UnpackJSONPipe
     else if named nm [''extract''] then pipe_extract
     else pipe_arm2 L u pp nm)"

definition pipes_body :: "('f, 're) qlib \<Rightarrow> ('f, 're) QExpr parser \<Rightarrow> ('f, 're) QPipe list parser \<Rightarrow> ('f, 're) QPipe list parser" where
  "pipes_body L u pp = loopp (\<lambda>pipes. thenp peek (\<lambda>t.
     if kind t \<noteq> tPipe then returnp (Inr pipes)
     else thenp nextp (\<lambda>_. thenp nextp (\<lambda>name.
       if kind name \<noteq> tIdent then failp ''simdlogs: expected a pipe name, got %q'' [val name]
       else thenp (pipe_arm L u pp (val name)) (\<lambda>p. returnp (Inl (pipes @ [p]))))))) []"

section \<open>Every pipe ends\<close>

lemma eats_int: "eats n (\<lambda>_. 0) H intArg"
  by (auto simp: intArg_def intro!: eats_steps)

lemma eats_opt: "(\<And>m I. eats m (\<lambda>_. 0) I p) \<Longrightarrow> eats n (\<lambda>_. 0) H (opt_with p ws d)"
  by (auto simp: opt_with_def intro!: eats_steps)

lemma eats_value0: "eats n (\<lambda>_. 0) H valuep"
  by (rule eats_mono [OF eats_value]) auto

lemma eats_group: "eats n (\<lambda>_. 0) H parseFieldGroup"
  by (auto simp: parseFieldGroup_def intro!: eats_steps eats_words)

lemma eats_fields: "eats n (\<lambda>_. 0) H parseBareFieldList"
  unfolding parseBareFieldList_def by (rule eats_loop) (auto simp: isWord_def intro!: eats_steps)

lemma eats_rename: "eats n (\<lambda>_. 0) H parseRename"
  unfolding parseRename_def by (rule eats_loop) (auto simp: isWord_def intro!: eats_steps)

lemma eats_wordp: "eats n (\<lambda>_. 0) H (wordp f)"
  by (auto simp: wordp_def isWord_def intro!: eats_steps)

lemma eats_in_parens: "eats n (\<lambda>_. 0) H (field_in_parens nm)"
  by (auto simp: field_in_parens_def intro!: eats_steps eats_calls)

lemmas eats_pipe_calls = eats_then [OF eats_int] eats_then [OF eats_opt [OF eats_value0]] eats_then [OF eats_opt [OF eats_int]]
  eats_then [OF eats_opt [OF eats_group]] eats_then [OF eats_group] eats_then [OF eats_fields] eats_then [OF eats_rename]
  eats_then [OF eats_wordp] eats_then [OF eats_in_parens]

lemma eats_agg_parts:
  "eats n (\<lambda>_. 0) H (agg_percentile L k fn)" "eats n (\<lambda>_. 0) H agg_field" "eats n (\<lambda>_. 0) H (agg_field2 k fn)" "eats n (\<lambda>_. 0) H agg_alias"
  by (auto simp: agg_percentile_def agg_field_def agg_field2_def agg_alias_def isWord_def intro!: eats_steps eats_calls)

lemma eats_agg_if:
  assumes "eats n (\<lambda>_. 1) anyt u"
  shows "eats n (\<lambda>_. 0) H (agg_if u)"
  by (auto simp: agg_if_def intro!: eats_steps eats_calls eats_sub [OF eats_parseOr [OF assms]])

lemma eats_agg:
  assumes "eats n (\<lambda>_. 1) anyt u"
  shows "eats n (\<lambda>_. 1) H (parseAgg L u)"
  unfolding parseAgg_def
  by (auto intro!: eats_steps eats_calls eats_then [OF eats_agg_parts(1)] eats_then [OF eats_agg_parts(2)]
      eats_then [OF eats_agg_parts(3)] eats_then [OF eats_agg_parts(4)] eats_sub [OF eats_agg_if [OF assms]])

lemma eats_stats:
  assumes "eats n (\<lambda>_. 1) anyt u"
  shows "eats n (\<lambda>_. 0) H (parseStats L u)"
  unfolding parseStats_def
  by (rule eats_then [OF eats_opt [OF eats_group]], rule eats_then [OF eats_loop])
     (auto intro!: eats_steps eats_then [OF eats_agg [OF assms]])

lemma eats_sort: "eats n (\<lambda>_. 0) H parseSort"
  unfolding parseSort_def
  by (rule eats_then [OF eats_opt [OF eats_group]], simp, rule eats_loop) (auto intro!: eats_steps eats_pipe_calls)

lemma eats_math_text: "eats n (\<lambda>_. 0) H math_text"
  unfolding math_text_def by (auto intro!: eats_steps eats_loop)

lemma eats_math: "eats n (\<lambda>_. 0) H (pipe_math L)"
proof -
  have "eats m (\<lambda>_. 0) anyt (case parseMath (golib L) expr of None \<Rightarrow> (\<lambda>_. OutOfFuel) | Some r \<Rightarrow> (case r of Inl e \<Rightarrow> (\<lambda>_. Err e)
      | Inr (nd, flds) \<Rightarrow> thenp (opt_value [''as''] (str ''math'')) (\<lambda>a. rowp (MathPipe a nd flds))))" for m expr
    using parse_math_returns [of "golib L" expr]
    by (auto split: sum.split intro!: eats_steps eats_error eats_pipe_calls)
  then show ?thesis unfolding pipe_math_def by (intro eats_then [OF eats_math_text] eats_if eats_fail) simp
qed

lemma eats_arms:
  "eats n (\<lambda>_. 0) H pipe_uniq" "eats n (\<lambda>_. 0) H pipe_top" "eats n (\<lambda>_. 0) H (pipe_unpack mk)" "eats n (\<lambda>_. 0) H pipe_extract"
  "eats n (\<lambda>_. 0) H pipe_format" "eats n (\<lambda>_. 0) H pipe_rank" "eats n (\<lambda>_. 0) H (pipe_replace nm)" "eats n (\<lambda>_. 0) H (pipe_len_hash nm)"
  "eats n (\<lambda>_. 0) H (pipe_collapse nm)" "eats n (\<lambda>_. 0) H (pipe_extract_regexp L)" "eats n (\<lambda>_. 0) H pipe_decolorize"
  "eats n (\<lambda>_. 0) H (pipe_pack nm)" "eats n (\<lambda>_. 0) H (pipe_first_last nm)" "eats n (\<lambda>_. 0) H pipe_unroll"
  "eats n (\<lambda>_. 0) H pipe_field_values" "eats n (\<lambda>_. 0) H pipe_facets" "eats n (\<lambda>_. 0) H pipe_json_array_len"
  "eats n (\<lambda>_. 0) H pipe_unpack_words"
  by (auto simp: pipe_uniq_def pipe_top_def pipe_unpack_def pipe_extract_def pipe_format_def pipe_rank_def pipe_replace_def
      pipe_len_hash_def pipe_collapse_def pipe_extract_regexp_def pipe_decolorize_def pipe_pack_def pipe_first_last_def
      pipe_unroll_def pipe_field_values_def pipe_facets_def pipe_json_array_len_def pipe_unpack_words_def Let_def split: list.split
      intro!: eats_steps eats_calls eats_pipe_calls eats_then [OF eats_agg_parts(2)])

lemma eats_stream_context: "eats n (\<lambda>_. 0) H pipe_stream_context"
  unfolding pipe_stream_context_def
  by (rule eats_loop) (auto simp: kw_def intro!: eats_steps eats_pipe_calls)

lemma eats_join:
  assumes "eats n (\<lambda>_. 1) anyt u" "eats n (\<lambda>_. 0) anyt pp"
  shows "eats (Suc n) (\<lambda>_. 0) H (pipe_join u pp)"
  unfolding pipe_join_def
  by (auto intro!: eats_steps eats_calls eats_pipe_calls eats_sub [OF eats_subquery [OF assms]])

lemma eats_arm:
  assumes "eats n (\<lambda>_. 1) anyt u" "eats n (\<lambda>_. 0) anyt pp"
  shows "eats n (\<lambda>_. 0) H (pipe_arm L u pp nm)"
proof -
  have s: "eats n (\<lambda>_. 0) I (parseStats L u)" "eats n (\<lambda>_. 0) I (pipe_join u pp)" for I
    by (rule eats_stats [OF assms(1)], rule eats_mono [OF eats_join [OF assms]]) auto
  have a3: "eats n (\<lambda>_. 0) I (pipe_arm3 L u pp nm)" for I unfolding pipe_arm3_def
    by (intro eats_if eats_arms s eats_stream_context eats_return eats_fail)
       (auto intro!: eats_sub [OF eats_subquery [OF assms]] eats_pipe_calls eats_return)
  have a2: "eats n (\<lambda>_. 0) I (pipe_arm2 L u pp nm)" for I unfolding pipe_arm2_def
    by (intro eats_if eats_arms a3 eats_math eats_return) (auto intro!: eats_pipe_calls eats_return eats_prod)
  show ?thesis unfolding pipe_arm_def
    by (intro eats_if eats_arms a2 s eats_sort) (auto intro!: eats_pipe_calls eats_return eats_prod eats_sub [OF eats_parseOr [OF assms(1)]])
qed

lemma eats_pipes:
  assumes "eats n (\<lambda>_. 1) anyt u" "eats n (\<lambda>_. 0) anyt pp"
  shows "eats (Suc n) (\<lambda>_. 0) H (pipes_body L u pp)"
  unfolding pipes_body_def
  by (intro eats_loop) (auto intro!: eats_steps eats_sub [OF eats_arm [OF assms]])

end
