(* ===== verification/LogsQL.thy ===== *)
theory LogsQL
  imports PipeSyntax
begin

text \<open>
  \<^verbatim>\<open>ParseLogsQL\<close> of \<^verbatim>\<open>internal/query/logsql.go\<close>: the recursion of the grammar closed, the top-level method and the lowering of
  a flat conjunction to a list of predicates.

  \<^verbatim>\<open>parseUnary\<close> and \<^verbatim>\<open>parsePipes\<close> call each other through parentheses, NOT and subqueries; each such call has taken a token,
  so their fuel is the number of tokens.  The lemmas of \<open>eats\<close> show that the fuel is enough, and those of \<open>keeps\<close>
  that more fuel gives the same result.
\<close>

section \<open>The parser\<close>

fun parseUnary :: "('f, 're) qlib \<Rightarrow> nat \<Rightarrow> ('f, 're) QExpr parser"
  and parsePipes :: "('f, 're) qlib \<Rightarrow> nat \<Rightarrow> ('f, 're) QPipe list parser" where
  "parseUnary L 0 = (\<lambda>ts. OutOfFuel)"
| "parseUnary L (Suc n) = unary_body L (parseUnary L n) (parsePipes L n)"
| "parsePipes L 0 = (\<lambda>ts. OutOfFuel)"
| "parsePipes L (Suc n) = pipes_body L (parseUnary L n) (parsePipes L n)"

fun flatConjunction :: "('f, 're) QExpr \<Rightarrow> ('f, 're) QPred list option" where
  "flatConjunction (QLeaf p) = Some [p]"
| "flatConjunction (QAnd kids) = map_option concat (those (map flatConjunction kids))"
| "flatConjunction (QOr kids) = None"
| "flatConjunction (QNot e) = None"

definition lower :: "('f, 're) QExpr \<Rightarrow> ('f, 're) QPipe list \<Rightarrow> ('f, 're) QQuery" where
  "lower e pipes = (if e = QAnd [] then QQuery [] None pipes
     else (case flatConjunction e of Some preds \<Rightarrow> QQuery preds None pipes | None \<Rightarrow> QQuery [] (Some e) pipes))"

definition parse_tokens :: "('f, 're) qlib \<Rightarrow> nat \<Rightarrow> ('f, 're) QQuery parser" where
  "parse_tokens L n = thenp (parseOr (parseUnary L n)) (\<lambda>e. thenp (parsePipes L n) (\<lambda>pipes. thenp peek (\<lambda>t.
     if kind t \<noteq> tEOF then failp ''simdlogs: unexpected %q in query'' [val t] else returnp (lower e pipes))))"

definition ParseLogsQL :: "('f, 're) qlib \<Rightarrow> bytes \<Rightarrow> ('f, 're) QQuery pres" where
  "ParseLogsQL L s0 = (let s = TrimSpace s0 in
     if s = [] \<or> s = str ''*'' then Ok (QQuery [] None []) []
     else (case lexLogsQL s of Inl e \<Rightarrow> Err e | Inr ts \<Rightarrow> parse_tokens L (length ts) ts))"

section \<open>It ends\<close>

lemma parser_eats: "eats n (\<lambda>_. 1) anyt (parseUnary L n)" "eats n (\<lambda>_. 0) anyt (parsePipes L n)"
proof (induction n)
  case 0
  { case 1 show ?case by (auto simp: eats_def) }
  { case 2 show ?case by (auto simp: eats_def) }
next
  case (Suc n)
  { case 1 show ?case using eats_unary [OF Suc] by simp }
  { case 2 show ?case using eats_pipes [OF Suc] by simp }
qed

lemma parse_tokens_eats: "eats n (\<lambda>_. 1) anyt (parse_tokens L n)"
  unfolding parse_tokens_def
  by (auto intro!: eats_sub [OF eats_parseOr [OF parser_eats(1)]] eats_sub [OF parser_eats(2)] eats_steps)

lemma ParseLogsQL_returns: "(\<exists>q r. ParseLogsQL L s = Ok q r) \<or> (\<exists>e. ParseLogsQL L s = Err e)"
proof (cases "TrimSpace s = [] \<or> TrimSpace s = str ''*''")
  case False
  show ?thesis
  proof (cases "lexLogsQL (TrimSpace s)")
    case (Inr ts)
    have "fine (\<lambda>_. 1) (length ts) (parse_tokens L (length ts) ts)"
      by (rule eatsD [OF parse_tokens_eats lexLogsQL_ok [OF Inr]]) auto
    then show ?thesis using False Inr by (cases "parse_tokens L (length ts) ts") (auto simp: ParseLogsQL_def Let_def)
  qed (use False in \<open>auto simp: ParseLogsQL_def Let_def\<close>)
qed (auto simp: ParseLogsQL_def Let_def)

section \<open>More fuel gives the same result\<close>

definition keeps :: "'a parser \<Rightarrow> 'a parser \<Rightarrow> bool" where
  "keeps p q \<longleftrightarrow> (\<forall>ts. p ts \<noteq> OutOfFuel \<longrightarrow> q ts = p ts)"

lemma keeps_refl: "keeps p p"
  by (simp add: keeps_def)

lemma keeps_then: "keeps p p' \<Longrightarrow> (\<And>x. keeps (f x) (f' x)) \<Longrightarrow> keeps (thenp p f) (thenp p' f')"
  by (auto simp: keeps_def thenp_def split: pres.splits)

lemma keeps_if: "keeps p p' \<Longrightarrow> keeps q q' \<Longrightarrow> keeps (if c then p else q) (if c then p' else q')"
  by simp

lemma keeps_option: "keeps p p' \<Longrightarrow> (\<And>x. keeps (f x) (f' x)) \<Longrightarrow> keeps (case z of None \<Rightarrow> p | Some x \<Rightarrow> f x) (case z of None \<Rightarrow> p' | Some x \<Rightarrow> f' x)"
  by (simp split: option.split)

lemma keeps_loop_n: "(\<And>s. keeps (b s) (b' s)) \<Longrightarrow> keeps (loop_n n b s) (loop_n n b' s)"
proof (induction n arbitrary: s)
  case (Suc n)
  have "keeps (case r of Inl s' \<Rightarrow> loop_n n b s' | Inr x \<Rightarrow> returnp x) (case r of Inl s' \<Rightarrow> loop_n n b' s' | Inr x \<Rightarrow> returnp x)" for r
    using Suc by (cases r) (simp_all add: keeps_refl)
  then show ?case by (simp add: keeps_then Suc.prems)
qed (simp add: keeps_refl)

lemma keeps_loop: "(\<And>s. keeps (b s) (b' s)) \<Longrightarrow> keeps (loopp b s) (loopp b' s)"
  using keeps_loop_n [of b b'] by (simp add: keeps_def loopp_def del: loop_n.simps)

lemmas keeps_steps = keeps_refl keeps_then keeps_if keeps_option keeps_loop

lemma keeps_or:
  assumes "keeps u u'"
  shows "keeps (parseAnd u) (parseAnd u')" "keeps (parseOr u) (parseOr u')"
proof -
  show a: "keeps (parseAnd u) (parseAnd u')" unfolding parseAnd_def by (rule keeps_steps assms)+
  show "keeps (parseOr u) (parseOr u')" unfolding parseOr_def by (rule keeps_steps a)+
qed

lemma keeps_subquery:
  assumes "keeps u u'" "keeps pp pp'"
  shows "keeps (parseSubqueryParen u pp) (parseSubqueryParen u' pp')"
  unfolding parseSubqueryParen_def by (rule keeps_steps keeps_or assms)+

lemma keeps_in:
  assumes "keeps u u'" "keeps pp pp'"
  shows "keeps (match_in L u pp f) (match_in L u' pp' f)"
proof -
  have "keeps (thenp nextp (\<lambda>_. thenp (parseSubqueryParen u pp) (\<lambda>sub. returnp (QPred (pred_of L f In) (Some sub)))))
      (thenp nextp (\<lambda>_. thenp (parseSubqueryParen u' pp') (\<lambda>sub. returnp (QPred (pred_of L f In) (Some sub)))))"
    by (rule keeps_steps keeps_subquery assms)+
  then show ?thesis by (simp add: keeps_def match_in_def)
qed

lemma keeps_unary:
  assumes "keeps u u'" "keeps pp pp'"
  shows "keeps (unary_body L u pp) (unary_body L u' pp')"
proof -
  have m: "keeps (parseMatcher L u pp f) (parseMatcher L u' pp' f)" for f
    unfolding parseMatcher_def by (rule keeps_steps keeps_in assms)+
  have t: "keeps (parseTerm L u pp) (parseTerm L u' pp')" unfolding parseTerm_def by (rule keeps_steps m)+
  show ?thesis unfolding unary_body_def by (rule keeps_steps keeps_or t assms)+
qed

lemma keeps_pipes:
  assumes "keeps u u'" "keeps pp pp'"
  shows "keeps (pipes_body L u pp) (pipes_body L u' pp')"
proof -
  have i: "keeps (agg_if u) (agg_if u')" unfolding agg_if_def by (rule keeps_steps keeps_or assms)+
  have a: "keeps (parseAgg L u) (parseAgg L u')" unfolding parseAgg_def by (rule keeps_steps i)+
  have s: "keeps (parseStats L u) (parseStats L u')" unfolding parseStats_def by (rule keeps_steps a)+
  have j: "keeps (pipe_join u pp) (pipe_join u' pp')" unfolding pipe_join_def by (rule keeps_steps keeps_subquery assms)+
  have a3: "keeps (pipe_arm3 L u pp nm) (pipe_arm3 L u' pp' nm)" for nm unfolding pipe_arm3_def by (rule keeps_steps j keeps_subquery assms)+
  have a2: "keeps (pipe_arm2 L u pp nm) (pipe_arm2 L u' pp' nm)" for nm unfolding pipe_arm2_def by (rule keeps_steps a3)+
  have a1: "keeps (pipe_arm L u pp nm) (pipe_arm L u' pp' nm)" for nm unfolding pipe_arm_def by (rule keeps_steps s a2 keeps_or assms)+
  show ?thesis unfolding pipes_body_def by (rule keeps_steps a1)+
qed

lemma keeps_Suc: "keeps (parseUnary L n) (parseUnary L (Suc n))" "keeps (parsePipes L n) (parsePipes L (Suc n))"
proof (induction n)
  case 0
  { case 1 show ?case by (simp add: keeps_def) }
  { case 2 show ?case by (simp add: keeps_def) }
next
  case (Suc n)
  { case 1 show ?case using keeps_unary [OF Suc] by simp }
  { case 2 show ?case using keeps_pipes [OF Suc] by simp }
qed

lemma keeps_tokens: "n \<le> m \<Longrightarrow> keeps (parse_tokens L n) (parse_tokens L m)"
proof (induction m rule: dec_induct)
  case (step m)
  have "keeps (parse_tokens L m) (parse_tokens L (Suc m))" unfolding parse_tokens_def by (rule keeps_steps keeps_or keeps_Suc)+
  with step.IH show ?case by (simp add: keeps_def)
qed (rule keeps_refl)

lemma parse_tokens_fuel:
  assumes "tokens_ok ts" "length ts \<le> n"
  shows "parse_tokens L n ts = parse_tokens L (length ts) ts"
proof -
  have "fine (\<lambda>_. 1) (length ts) (parse_tokens L (length ts) ts)" by (rule eatsD [OF parse_tokens_eats assms(1)]) auto
  then have "parse_tokens L (length ts) ts \<noteq> OutOfFuel" by auto
  then show ?thesis using keeps_tokens [OF assms(2), of L] by (simp add: keeps_def)
qed

text \<open>An accepted query is used to its end.\<close>

lemma parse_tokens_end:
  assumes "parse_tokens L n ts = Ok q r" "tokens_ok ts" "length ts \<le> n"
  shows "\<exists>t. r = [t] \<and> kind t = tEOF"
proof -
  have "fine (\<lambda>_. 1) (length ts) (parse_tokens L n ts)" by (rule eatsD [OF parse_tokens_eats assms(2,3)]) auto
  then have ok: "tokens_ok r" using assms(1) by simp
  then obtain t r' where r: "r = t # r'" by (rule tokens_okE)
  have "kind (hd r) = tEOF"
    using assms(1) by (auto simp: parse_tokens_def thenp_def peek_def failp_def returnp_def split: pres.splits list.splits if_splits)
  then show ?thesis using ok r by (cases "r' = []") (auto simp: tokens_ok_Cons)
qed

end
