(* ===== verification/Spec2Isabelle.thy ===== *)
theory Spec2Isabelle
  imports Aggregate Paging Recompact LogsQL
begin

text \<open>
  A verification development of simdlogs, a log store written in Go.  Every storage node keeps its
  log lines in immutable row groups, one file each, which it maps into memory; a manifest file is the
  commit log that says which groups exist; the query engine skips groups by their footers, filters
  the rest column by column into row bitsets, and materialises or counts the selected rows.

  \<^bold>\<open>How the parts interact.\<close>  The ingest writer hands \<^verbatim>\<open>AppendGroup\<close> (\<^verbatim>\<open>store.go\<close>) a group.
  \<^verbatim>\<open>Marshal\<close> (\<^verbatim>\<open>group.go\<close>) lays its columns out: a timestamp column as deltas and varints
  (\<^verbatim>\<open>column.go\<close>), a dictionary column as a sorted dictionary in compressed blocks (\<^verbatim>\<open>dict.go\<close>,
  \<^verbatim>\<open>compress.go\<close>), bit-packed indices, an inverted index from value to rows (\<^verbatim>\<open>postings.go\<close>) and a
  membership filter (\<^verbatim>\<open>footer.go\<close>), behind a checksummed footer.  The file is written, synced and
  renamed, then committed to the manifest (\<^verbatim>\<open>manifest.go\<close>), and only then becomes visible.  A query
  takes a snapshot (\<^verbatim>\<open>snapshot.go\<close>), which holds the mapped groups until it is closed while retention
  and compaction retire them.  Each group is parsed by \<^verbatim>\<open>ReadGroup\<close> (\<^verbatim>\<open>group_read.go\<close>) and answers
  through a \<^verbatim>\<open>Reader\<close> (\<^verbatim>\<open>footer.go\<close>, \<^verbatim>\<open>vector.go\<close>); \<^verbatim>\<open>groupCanMatch\<close> and \<^verbatim>\<open>matchBitset\<close> (\<^verbatim>\<open>engine.go\<close>,
  \<^verbatim>\<open>filter.go\<close>, \<^verbatim>\<open>time_filter.go\<close>) decide the rows.  File names are relative to
  \<^verbatim>\<open>src/internal/storage\<close> and \<^verbatim>\<open>src/internal/query\<close>.

  \<^bold>\<open>Conventions.\<close>  A Go panic is \<^verbatim>\<open>None\<close> and an error value is an \<^verbatim>\<open>Inl\<close>; a 64-bit
  timestamp, a 32-bit offset field and a hash are words, so that wrap-around is the source's;
  lengths, offsets and row numbers that the code holds in an \<^verbatim>\<open>int\<close> are \<^verbatim>\<open>nat\<close>, or \<^verbatim>\<open>int\<close> where they
  can be negative.  What lies outside the repository is an argument with its documented behaviour as
  a named hypothesis: the kernels of the simd library, compress/flate, regular expressions,
  floating-point parsing and time formatting, the order in which a Go map is walked or an unstable
  sort leaves equal keys, and each answer of the operating system.  Every such hypothesis is
  discharged on a concrete instance by the witness of the property that has it.  Recursions are
  structural or carry a measure; a loop whose progress depends on its input (the LZ4 encoder, the
  varint readers, the walk over the week days) is proved to end, and no theorem assumes that a
  computation returns.

  \<^bold>\<open>Storage.\<close>
  \<^item> Prelude and Bytes: slicing with its bounds check, little-endian writers and readers,
    CRC32C and the error-carrying cursor of \<^verbatim>\<open>group_read.go\<close> (locale \<^verbatim>\<open>cursor_reader\<close>,
    interpreted on its three readers).
  \<^item> Manifest (\<^verbatim>\<open>manifest.go\<close>): the record codec, replay, commit with each failure of the
    operating system, rollback, compaction and recovery, and the histories of one manifest as
    an inductive relation over unrestricted commits, restarts and crashes.  Recovery yields the changes in effect, in
    order, up to a commit made behind a failed rollback or without room; those two defects (a commit behind a torn tail, an
    oversized fold) are theorems.
  \<^item> Varint, Timestamps, Bitpack, Column (\<^verbatim>\<open>column.go\<close>): encoders and every decoder of
    the column streams, with round trips and the exactness of the block-skipping window reads.
  \<^item> Compress (\<^verbatim>\<open>compress.go\<close>), Postings (\<^verbatim>\<open>postings.go\<close>), Dict
    (\<^verbatim>\<open>dict.go\<close>), Bloom (\<^verbatim>\<open>footer.go\<close>): the sections of a dictionary column; each
    reader is exact on what its writer wrote.
  \<^item> Group, Roundtrip (\<^verbatim>\<open>group.go\<close>, \<^verbatim>\<open>group_read.go\<close>): the writer and the hardened
    parser; whatever is written is read back, a changed byte is refused, the parser is total.
  \<^item> Reader (\<^verbatim>\<open>footer.go\<close>, \<^verbatim>\<open>vector.go\<close>): the skip methods, lookups, counts and the
    index cache over a parsed group; after write and read they are those of the original columns.  On any accepted blob
    ten of them return; the value counts can panic, which is a theorem.
  \<^item> Lease (\<^verbatim>\<open>snapshot.go\<close>): the reference count of a mapping, cut at its atomic accesses,
    as a step relation over any number of threads: safety of the mapping, its eventual release, and the
    one interleaving that releases a held mapping.
  \<^item> Store (\<^verbatim>\<open>store.go\<close>, \<^verbatim>\<open>snapshot.go\<close>, \<^verbatim>\<open>receipts.go\<close>, \<^verbatim>\<open>retention.go\<close>): append, receipts,
    snapshots, tails, retention and close over a heap of entries, a directory and the manifest, and
    their histories as an inductive relation with the invariant that ties the three together.  An operation is one step of
    a history; the two halves of an append, between which the source holds no lock, are separate definitions, and the
    theorem on tails interleaves them.
  \<^item> Repair (\<^verbatim>\<open>antientropy.go\<close>): groups named by the hash of their file, the digest cache, the inventory, the group served to a peer, and the
    adoption of a streamed group, with each failure of the operating system.
  \<^item> Merge, Compaction (\<^verbatim>\<open>compact_groups.go\<close>, \<^verbatim>\<open>recompact.go\<close>): the merge of a batch of groups into one, the rebuild of a group,
    the choice of runs, the batches of a pass under its budgets, and the commit that puts the merged group in the place of its inputs.  The
    relation \<^verbatim>\<open>history\<close> adds the steps of a compaction and adoptions to those of the store, in any order, and keeps its invariant.
  \<^item> Inventory: the histories of a replica with its digest cache (relation \<^verbatim>\<open>replica\<close>).  A cached digest is that of the file, so an inventory says
    what is on disk, and an adoption is safe and idempotent.

  \<^bold>\<open>Queries.\<close>
  \<^item> Bitset (\<^verbatim>\<open>bitset.go\<close>): the selection words refine sets of rows (locale \<^verbatim>\<open>row_set\<close>,
    met by every host that keeps the contract of the word kernels, locale \<^verbatim>\<open>simd_host\<close>).
  \<^item> Pred (\<^verbatim>\<open>engine.go\<close>, \<^verbatim>\<open>filter.go\<close>, \<^verbatim>\<open>stream.go\<close>): predicates and the scalar row
    evaluator, the reference the scan is compared with.
  \<^item> Scan (\<^verbatim>\<open>engine.go\<close>, \<^verbatim>\<open>filter.go\<close>, \<^verbatim>\<open>time_filter.go\<close>): the column kernels of each
    predicate, the filter tree and the footer skip.  The locale \<^verbatim>\<open>readable_group\<close> states what the scan
    relies on of a group; \<^verbatim>\<open>written_group\<close>, a group after \<^verbatim>\<open>Marshal\<close> and \<^verbatim>\<open>ReadGroup\<close>, meets it.
  \<^item> TimeFilter (\<^verbatim>\<open>time_filter.go\<close>): saturating time arithmetic, durations, day and week
    ranges, the resolution of relative filters, compared with their meaning over the integers, and the narrowing of the scan
    window by the time filters of a query.
  \<^item> Materialise (\<^verbatim>\<open>engine.go\<close>, \<^verbatim>\<open>tsscratch.go\<close>): \<^verbatim>\<open>appendMatches\<close>, from the selection of a group to its
    rows, with the point reads and the bulk decodes and both row builders (locale \<^verbatim>\<open>row_reader\<close>, which extends
    \<^verbatim>\<open>readable_group\<close> and which \<^verbatim>\<open>written_group\<close> meets).
  \<^item> Exec (\<^verbatim>\<open>engine.go\<close>, \<^verbatim>\<open>parallel.go\<close>): budgets and stop reasons, the footer prune, the serial walk, the
    bounded tail and the worker pool as a step relation at its shared accesses.  The locale \<^verbatim>\<open>group_scan\<close> states what
    the walks rely on of the groups; each walk, and the pool under every interleaving, returns their answer or records a stop.
  \<^item> Runs (\<^verbatim>\<open>engine.go\<close>): \<^verbatim>\<open>Run\<close> over a store, which composes the store, the snapshot, the skip and the walks.  The
    locale \<^verbatim>\<open>stored_run\<close>, a store of written groups, meets \<^verbatim>\<open>group_scan\<close>.  A query over any reachable store returns exactly
    the matching rows of the committed groups, compacted ones included; two defects (a bounded tail that misses the newest row, a row ceiling the
    pool does not enforce) are theorems.
  \<^item> Paging (\<^verbatim>\<open>order.go\<close>): row keys, a linear order, and \<^verbatim>\<open>ScanPage\<close> (locale \<^verbatim>\<open>keyed_scan\<close>, which \<^verbatim>\<open>stored_run\<close>
    meets); a caller that pages while the store changes receives every row that stays exactly once.
  \<^item> Rewrites: what compaction does to answers.  A pass leaves the rows of a query as they were when the groups agree on the columns
    it reads; where they do not, rows that had no such column start to match the empty value, which is a theorem too.
  \<^item> Recompact (\<^verbatim>\<open>recompact.go\<close>): the in-place rewrite of cold groups, which no query and no inventory can tell from the store
    before it, as long as a file that was replaced can be mapped.
  \<^item> Aggregate (\<^verbatim>\<open>engine.go\<close>, \<^verbatim>\<open>introspect.go\<close>, \<^verbatim>\<open>stats_range.go\<close>): bucket
    alignment, the histogram and the grouped counts of a group, the series of a hits query; two counting paths that
    drop half of a query are a theorem.

  \<^bold>\<open>Bounds.\<close>  The writer's limits (a file below 4 GiB, at most 131072 rows,
  columns of one length with ids inside their dictionary) are the hypotheses of the round trips; the receipt set
  keeps 65536 ids, a manifest record 16 MiB, a posting block 64 lists, a dictionary block 64
  values, a timestamp block 512 rows, each the constant of the source.

  \<^bold>\<open>Not modelled.\<close>  The HTTP surface, clustering, authentication and configuration
  (\<^verbatim>\<open>src/internal/api\<close>, \<^verbatim>\<open>src/internal/config\<close>, \<^verbatim>\<open>src/cmd\<close>): request handling over net/http whose
  behaviour is the library's.  The ingest protocols and the writer's sharded buffers
  (\<^verbatim>\<open>src/internal/ingest\<close>).  The pipe stage, the LogsQL and SQL parsers, the streaming walk
  and the parallel histogram and count of \<^verbatim>\<open>src/internal/query\<close>.  Of the store: opening a directory with its corruption policy, health
  counters, quota thresholds, backup, restore, cold storage and
  the platform files (mapping, locking, atomic rename), which only call the operating system.
\<close>

end
